(* ===== verification/Prelude.thy ===== *)
theory Prelude
  imports Main "HOL-Library.Word" "HOL-Library.Char_ord"
begin

unbundle bit_operations_syntax

text \<open>
  Shared vocabulary of the development: machine integer and byte types, the result of a C
  call (a value, an error return, or no return at all), the fragments of the C string
  library the sources use, and the generic list lemmas the components share. Everything here is executable.
\<close>

section \<open>Types\<close>

type_synonym byte = "8 word"
type_synonym u16 = "16 word"
type_synonym u32 = "32 word"
type_synonym u64 = "64 word"
type_synonym s32 = "32 word"

text \<open>
  What a call does: it returns a value (\<open>Done\<close>), it takes an error return such as
  \<open>-1\<close> or \<open>NULL\<close> (\<open>Fail\<close>), or it does not return to its caller
  (\<open>Stuck\<close>: a failed \<open>tor_assert\<close> or \<open>raw_assert\<close>, a read outside an object,
  a loop that does not end).
\<close>

datatype 'a outcome = Done 'a | Fail | Stuck

fun obind :: "'a outcome \<Rightarrow> ('a \<Rightarrow> 'b outcome) \<Rightarrow> 'b outcome" where
  "obind (Done x) f = f x"
| "obind Fail f = Fail"
| "obind Stuck f = Stuck"

fun of_option :: "'a option \<Rightarrow> 'a outcome" where
  "of_option (Some x) = Done x"
| "of_option None = Fail"

named_theorems outcome_elims "inversion of a returned value"
named_theorems len_simps "lengths of the byte strings the encoders write"

lemma obind_Done [outcome_elims]: "(obind m f = Done y) = (\<exists>x. m = Done x \<and> f x = Done y)"
  by (cases m) auto

lemma obind_Stuck [outcome_elims]:
  "(obind m f = Stuck) = (m = Stuck \<or> (\<exists>x. m = Done x \<and> f x = Stuck))"
  by (cases m) auto

lemma obind_Fail [outcome_elims]:
  "(obind m f = Fail) = (m = Fail \<or> (\<exists>x. m = Done x \<and> f x = Fail))"
  by (cases m) auto

lemma obind_assoc: "obind (obind m f) g = obind m (\<lambda>x. obind (f x) g)"
  by (cases m) auto

lemma obind_cong [fundef_cong]:
  "m = m' \<Longrightarrow> (\<And>x. m' = Done x \<Longrightarrow> f x = f' x) \<Longrightarrow> obind m f = obind m' f'"
  by (cases m') auto

lemma obind_not_Stuck [intro]:
  "m \<noteq> Stuck \<Longrightarrow> (\<And>x. m = Done x \<Longrightarrow> f x \<noteq> Stuck) \<Longrightarrow> obind m f \<noteq> Stuck"
  by (cases m) auto

definition INT_MAX :: nat where "INT_MAX = 2147483647"
definition UINT32_MAX :: nat where "UINT32_MAX = 4294967295"

section \<open>C strings\<close>

text \<open>
  A C string is its characters up to the terminating NUL, a \<open>string\<close>; a character buffer
  is a \<open>string\<close> that may hold NULs, and \<open>cstr\<close> is what C reads from its start.
\<close>

abbreviation NUL :: char where "NUL \<equiv> CHR 0x00"
abbreviation NL :: char where "NL \<equiv> CHR 0x0A"
abbreviation SP :: char where "SP \<equiv> CHR '' ''"

definition cstr :: "string \<Rightarrow> string" where
  "cstr buf = takeWhile (\<lambda>c. c \<noteq> NUL) buf"

definition bytes_of :: "string \<Rightarrow> byte list" where
  "bytes_of s = map of_char s"

definition string_of :: "byte list \<Rightarrow> string" where
  "string_of bs = map (\<lambda>b. char_of (unat b)) bs"

lemma length_bytes_of [simp]: "length (bytes_of s) = length s"
  by (simp add: bytes_of_def)

lemma length_string_of [simp]: "length (string_of bs) = length bs"
  by (simp add: string_of_def)

lemma bytes_of_append [simp]: "bytes_of (s @ t) = bytes_of s @ bytes_of t"
  by (simp add: bytes_of_def)

lemma bytes_of_Nil [simp]: "bytes_of [] = []"
  by (simp add: bytes_of_def)

lemma unat_of_char_byte [simp]: "unat (of_char c :: byte) = of_char c"
  using unat_of_nat [of "of_char c :: nat", where 'a = 8] by (simp add: of_nat_of_char)

lemma of_char_byte_inj [simp]: "((of_char c :: byte) = of_char d) = (c = d)"
  by (metis unat_of_char_byte of_char_eq_iff)

lemma string_of_bytes_of [simp]: "string_of (bytes_of s) = s"
  by (simp add: string_of_def bytes_of_def comp_def)

lemma bytes_of_inj [simp]: "(bytes_of s = bytes_of t) = (s = t)"
  by (metis string_of_bytes_of)

section \<open>Searching\<close>

text \<open>
  The index of the first occurrence of a needle, the pointer difference \<open>found - haystack\<close>
  of \<open>strstr\<close>, \<open>strchr\<close>, \<open>memchr\<close> and \<open>memmem\<close>.
\<close>

fun find_sub :: "'a list \<Rightarrow> 'a list \<Rightarrow> nat option" where
  "find_sub needle [] = (if needle = [] then Some 0 else None)"
| "find_sub needle (c # cs) =
     (if take (length needle) (c # cs) = needle then Some 0
      else map_option Suc (find_sub needle cs))"

definition occurs_at :: "'a list \<Rightarrow> 'a list \<Rightarrow> nat \<Rightarrow> bool" where
  "occurs_at needle hay i \<longleftrightarrow> i \<le> length hay \<and> take (length needle) (drop i hay) = needle"

lemma occurs_at_0: "occurs_at needle hay 0 \<longleftrightarrow> take (length needle) hay = needle"
  by (simp add: occurs_at_def)

lemma occurs_at_Suc: "occurs_at needle (c # cs) (Suc i) \<longleftrightarrow> occurs_at needle cs i"
  by (simp add: occurs_at_def)

lemma occurs_at_Nil: "occurs_at needle [] i \<longleftrightarrow> i = 0 \<and> needle = []"
  by (auto simp: occurs_at_def)

lemma find_sub_Some_iff:
  "find_sub needle hay = Some i \<longleftrightarrow>
     occurs_at needle hay i \<and> (\<forall>j < i. \<not> occurs_at needle hay j)"
proof (induction hay arbitrary: i)
  case Nil
  then show ?case by (auto simp: occurs_at_Nil)
next
  case (Cons c cs)
  show ?case
  proof (cases i)
    case 0
    then show ?thesis by (auto simp: occurs_at_0)
  next
    case (Suc k)
    have "(\<forall>j < Suc k. \<not> occurs_at needle (c # cs) j) \<longleftrightarrow>
            \<not> occurs_at needle (c # cs) 0 \<and> (\<forall>j < k. \<not> occurs_at needle cs j)"
      using occurs_at_Suc less_Suc_eq_0_disj by (metis (no_types, lifting) occurs_at_Suc)
    with Suc Cons.IH [of k] show ?thesis by (auto simp: occurs_at_0 occurs_at_Suc)
  qed
qed

lemma find_sub_None_iff: "find_sub needle hay = None \<longleftrightarrow> (\<forall>i. \<not> occurs_at needle hay i)"
proof (induction hay)
  case Nil
  then show ?case by (auto simp: occurs_at_Nil)
next
  case (Cons c cs)
  have "(\<forall>i. \<not> occurs_at needle (c # cs) i) \<longleftrightarrow>
          \<not> occurs_at needle (c # cs) 0 \<and> (\<forall>i. \<not> occurs_at needle cs i)"
    by (metis occurs_at_Suc not0_implies_Suc)
  with Cons.IH show ?case by (auto simp: occurs_at_0)
qed

lemma find_sub_bound: "find_sub needle hay = Some i \<Longrightarrow> i + length needle \<le> length hay"
  by (drule find_sub_Some_iff [THEN iffD1], clarsimp simp: occurs_at_def)
     (metis length_drop length_take min.absorb_iff2 nat_le_linear le_diff_conv2 add.commute min_def)

lemma find_sub_singleton:
  "find_sub [c] cs = (if c \<in> set cs then Some (length (takeWhile (\<lambda>x. x \<noteq> c) cs)) else None)"
  by (induction cs) auto

lemma find_sub_append:
  assumes "c \<notin> set xs" "c \<notin> set ns"
  shows "find_sub (c # ns) (xs @ c # ns @ ys) = Some (length xs)"
  using assms(1) by (induction xs) auto

end
