(* ===== verification/CStrings.thy ===== *)
theory CStrings
  imports Prelude
begin

text \<open>
  The string layer (\<open>src/lib/string\<close>): the locale-independent character classes of
  \<open>compat_ctype.c\<close>, the number parsers of \<open>parse_int.c\<close>, the scanning helpers of
  \<open>util_string.c\<close>, and \<open>smartlist_split_string\<close> of
  \<open>src/lib/smartlist_core/smartlist_split.c\<close>. The main results are that printing a
  number and parsing it back agree, and that splitting at a separator loses nothing.
\<close>

section \<open>Character classes\<close>

definition tor_ctype :: "u32 list \<Rightarrow> char \<Rightarrow> bool" where
  "tor_ctype table c =
     (let u = (of_char c :: nat) in bit (table ! ((u div 32) mod 8)) (u mod 32))"

definition TOR_ISALPHA_TABLE :: "u32 list" where
  "TOR_ISALPHA_TABLE = [0, 0, 0x7fffffe, 0x7fffffe, 0, 0, 0, 0]"
definition TOR_ISSPACE_TABLE :: "u32 list" where
  "TOR_ISSPACE_TABLE = [0x3e00, 0x1, 0, 0, 0, 0, 0, 0]"
definition TOR_ISXDIGIT_TABLE :: "u32 list" where
  "TOR_ISXDIGIT_TABLE = [0, 0x3ff0000, 0x7e, 0x7e, 0, 0, 0, 0]"
definition TOR_ISDIGIT_TABLE :: "u32 list" where
  "TOR_ISDIGIT_TABLE = [0, 0x3ff0000, 0, 0, 0, 0, 0, 0]"
definition TOR_ISPRINT_TABLE :: "u32 list" where
  "TOR_ISPRINT_TABLE = [0, 0xffffffff, 0xffffffff, 0x7fffffff, 0, 0, 0, 0]"
definition TOR_ISUPPER_TABLE :: "u32 list" where
  "TOR_ISUPPER_TABLE = [0, 0, 0x7fffffe, 0, 0, 0, 0, 0]"

abbreviation TOR_ISALPHA where "TOR_ISALPHA \<equiv> tor_ctype TOR_ISALPHA_TABLE"
abbreviation TOR_ISSPACE where "TOR_ISSPACE \<equiv> tor_ctype TOR_ISSPACE_TABLE"
abbreviation TOR_ISXDIGIT where "TOR_ISXDIGIT \<equiv> tor_ctype TOR_ISXDIGIT_TABLE"
abbreviation TOR_ISDIGIT where "TOR_ISDIGIT \<equiv> tor_ctype TOR_ISDIGIT_TABLE"
abbreviation TOR_ISPRINT where "TOR_ISPRINT \<equiv> tor_ctype TOR_ISPRINT_TABLE"
abbreviation TOR_ISUPPER where "TOR_ISUPPER \<equiv> tor_ctype TOR_ISUPPER_TABLE"

definition TOR_TOLOWER :: "char \<Rightarrow> char" where
  "TOR_TOLOWER c =
     (let u = (of_char c :: nat) in if 65 \<le> u \<and> u \<le> 90 then char_of (u + 32) else c)"

definition hex_decode_digit :: "char \<Rightarrow> int" where
  "hex_decode_digit c =
     (let u = (of_char c :: nat)
      in if 48 \<le> u \<and> u \<le> 57 then int u - 48
         else if 65 \<le> u \<and> u \<le> 70 then int u - 55
         else if 97 \<le> u \<and> u \<le> 102 then int u - 87
         else -1)"

lemma of_char_less_256 [simp]: "(of_char c :: nat) < 256"
  by (metis of_char_mod_256 mod_less_divisor zero_less_numeral)

lemma all_byte_iff: "(\<forall>u < 256. P u (char_of u)) \<Longrightarrow> P (of_char c) c" for P :: "nat \<Rightarrow> char \<Rightarrow> bool"
  by (metis char_of_char of_char_less_256)

lemma less_8_cases: "(k::nat) < 8 \<Longrightarrow> k = 0 \<or> k = 1 \<or> k = 2 \<or> k = 3 \<or> k = 4 \<or> k = 5 \<or> k = 6 \<or> k = 7"
  by linarith

text \<open>The words of the class tables are runs of one bits.\<close>

lemma ctype_words:
  "(0x3ff0000 :: u32) = push_bit 16 (mask 10)" "(0x3e00 :: u32) = push_bit 9 (mask 5)"
  "(0x7e :: u32) = push_bit 1 (mask 6)" "(0x7fffffe :: u32) = push_bit 1 (mask 26)"
  "(0xffffffff :: u32) = mask 32" "(0x7fffffff :: u32) = mask 31"
  by (simp_all add: mask_eq_exp_minus_1)

lemma tor_ctype_unfold:
  "tor_ctype t c = bit (t ! (of_char c div 32)) (of_char c mod 32)"
  "of_char c = 32 * (of_char c div 32) + (of_char c mod 32 :: nat)" "of_char c div 32 < (8::nat)"
proof -
  have "(of_char c :: nat) < 256" by simp
  then show k: "of_char c div 32 < (8::nat)" by linarith
  then show "tor_ctype t c = bit (t ! (of_char c div 32)) (of_char c mod 32)"
    by (simp add: tor_ctype_def Let_def)
qed simp

lemma TOR_ISDIGIT_iff: "TOR_ISDIGIT c \<longleftrightarrow> 48 \<le> (of_char c :: nat) \<and> (of_char c :: nat) \<le> 57"
  using less_8_cases [OF tor_ctype_unfold(3) [of c]] tor_ctype_unfold(2) [of c]
  unfolding tor_ctype_unfold(1) TOR_ISDIGIT_TABLE_def ctype_words
  by (elim disjE) (simp_all add: bit_push_bit_iff bit_mask_iff, linarith+)

lemma TOR_ISSPACE_iff:
  "TOR_ISSPACE c \<longleftrightarrow> (9 \<le> (of_char c :: nat) \<and> (of_char c :: nat) \<le> 13) \<or> (of_char c :: nat) = 32"
  using less_8_cases [OF tor_ctype_unfold(3) [of c]] tor_ctype_unfold(2) [of c]
  unfolding tor_ctype_unfold(1) TOR_ISSPACE_TABLE_def ctype_words
  by (elim disjE) (simp_all add: bit_push_bit_iff bit_mask_iff bit_1_iff, linarith+)

section \<open>Decimal numbers\<close>

text \<open>\<open>printf\<close>'s \<open>%d\<close> and \<open>%i\<close>, and the value \<open>strtol\<close> reads from digits.\<close>

definition dec_digit :: "nat \<Rightarrow> char" where
  "dec_digit d = char_of (48 + d)"

fun dec_nat :: "nat \<Rightarrow> string" where
  "dec_nat n = (if n < 10 then [dec_digit n] else dec_nat (n div 10) @ [dec_digit (n mod 10)])"

declare dec_nat.simps [simp del]

definition dec_int :: "int \<Rightarrow> string" where
  "dec_int i = (if i < 0 then ''-'' @ dec_nat (nat (- i)) else dec_nat (nat i))"

definition digit_value :: "char \<Rightarrow> nat" where
  "digit_value c = of_char c - 48"

definition dec_value :: "string \<Rightarrow> nat" where
  "dec_value s = foldl (\<lambda>acc c. 10 * acc + digit_value c) 0 s"

lemma of_char_dec_digit: "d < 10 \<Longrightarrow> (of_char (dec_digit d) :: nat) = 48 + d"
  by (simp add: dec_digit_def)

lemma TOR_ISDIGIT_dec_digit [simp]: "d < 10 \<Longrightarrow> TOR_ISDIGIT (dec_digit d)"
  by (simp add: TOR_ISDIGIT_iff of_char_dec_digit)

lemma digit_value_dec_digit [simp]: "d < 10 \<Longrightarrow> digit_value (dec_digit d) = d"
  by (simp add: digit_value_def of_char_dec_digit)

lemma dec_nat_digits: "list_all TOR_ISDIGIT (dec_nat n)"
proof (induction n rule: dec_nat.induct)
  case (1 n)
  then show ?case by (subst dec_nat.simps) simp
qed

lemma dec_nat_nonempty [simp]: "dec_nat n \<noteq> []"
  by (subst dec_nat.simps) simp

lemma dec_value_snoc: "dec_value (s @ [c]) = 10 * dec_value s + digit_value c"
  by (simp add: dec_value_def)

lemma dec_value_dec_nat [simp]: "dec_value (dec_nat n) = n"
proof (induction n rule: dec_nat.induct)
  case (1 n)
  show ?case
  proof (cases "n < 10")
    case True
    then show ?thesis by (subst dec_nat.simps) (simp add: dec_value_def)
  next
    case False
    with 1 have "dec_value (dec_nat (n div 10)) = n div 10" by simp
    with False show ?thesis by (subst dec_nat.simps) (simp add: dec_value_snoc)
  qed
qed

lemma length_dec_nat_le: "n < 10 ^ k \<Longrightarrow> 0 < k \<Longrightarrow> length (dec_nat n) \<le> k"
proof (induction n arbitrary: k rule: dec_nat.induct)
  case (1 n)
  show ?case
  proof (cases "n < 10")
    case True
    then show ?thesis using "1.prems" by (subst dec_nat.simps) simp
  next
    case False
    from "1.prems" obtain j where k: "k = Suc j" by (cases k) auto
    with False "1.prems"(1) have "0 < j" by (cases j) auto
    note k = k this
    with "1.prems" have "n div 10 < 10 ^ j" by (simp add: div_less_iff_less_mult mult.commute)
    with "1.IH" False k show ?thesis by (subst dec_nat.simps) simp
  qed
qed

section \<open>Parsing numbers (parse_int.c)\<close>

text \<open>
  \<open>strtol\<close> and \<open>strtoul\<close> in base 10: white space, a sign, digits. The result is the
  value, whether \<open>errno\<close> is \<open>ERANGE\<close>, and the unread rest (\<open>endptr\<close>, which is the
  whole string when there was no digit).
\<close>

definition LONG_MAX :: int where "LONG_MAX = 9223372036854775807"
definition ULONG_MAX :: int where "ULONG_MAX = 18446744073709551615"

definition strtol_scan :: "string \<Rightarrow> bool \<times> string \<times> string" where
  "strtol_scan s =
     (let t = dropWhile TOR_ISSPACE s;
          neg = (t \<noteq> [] \<and> hd t = CHR ''-'');
          u = (if t \<noteq> [] \<and> (hd t = CHR ''-'' \<or> hd t = CHR ''+'') then tl t else t)
      in (neg, takeWhile TOR_ISDIGIT u, dropWhile TOR_ISDIGIT u))"

definition strtol :: "string \<Rightarrow> int \<times> bool \<times> string" where
  "strtol s =
     (case strtol_scan s of (neg, ds, rest) \<Rightarrow>
        if ds = [] then (0, False, s)
        else let v = (if neg then - int (dec_value ds) else int (dec_value ds))
             in if v > LONG_MAX then (LONG_MAX, True, rest)
                else if v < - LONG_MAX - 1 then (- LONG_MAX - 1, True, rest)
                else (v, False, rest))"

definition strtoul :: "string \<Rightarrow> int \<times> bool \<times> string" where
  "strtoul s =
     (case strtol_scan s of (neg, ds, rest) \<Rightarrow>
        if ds = [] then (0, False, s)
        else if int (dec_value ds) > ULONG_MAX then (ULONG_MAX, True, rest)
        else ((if neg then (- int (dec_value ds)) mod (ULONG_MAX + 1) else int (dec_value ds)),
              False, rest))"

definition check_strtox_result ::
  "string \<Rightarrow> int \<times> bool \<times> string \<Rightarrow> int \<Rightarrow> int \<Rightarrow> bool \<Rightarrow> int \<times> bool \<times> string" where
  "check_strtox_result s res mn mx want_next =
     (case res of (r, erange, endptr) \<Rightarrow>
        if erange \<or> endptr = s \<or> (\<not> want_next \<and> endptr \<noteq> []) \<or> mx < mn \<or> r < mn \<or> r > mx
        then (0, False, endptr) else (r, True, endptr))"

definition tor_parse_long :: "string \<Rightarrow> int \<Rightarrow> int \<Rightarrow> bool \<Rightarrow> int \<times> bool \<times> string" where
  "tor_parse_long s mn mx want_next = check_strtox_result s (strtol s) mn mx want_next"

definition tor_parse_ulong :: "string \<Rightarrow> int \<Rightarrow> int \<Rightarrow> bool \<Rightarrow> int \<times> bool \<times> string" where
  "tor_parse_ulong s mn mx want_next = check_strtox_result s (strtoul s) mn mx want_next"

definition no_digit_ahead :: "string \<Rightarrow> bool" where
  "no_digit_ahead rest \<longleftrightarrow> (rest = [] \<or> \<not> TOR_ISDIGIT (hd rest))"

lemma takeWhile_dropWhile_digits:
  assumes "list_all P ds" "rest = [] \<or> \<not> P (hd rest)"
  shows "takeWhile P (ds @ rest) = ds" "dropWhile P (ds @ rest) = rest"
  using assms by (induction ds) (auto, (cases rest, auto)+)

lemma digit_not_space: "TOR_ISDIGIT c \<Longrightarrow> \<not> TOR_ISSPACE c"
  by (auto simp: TOR_ISDIGIT_iff TOR_ISSPACE_iff)

lemma digit_not_sign: "TOR_ISDIGIT c \<Longrightarrow> c \<noteq> CHR ''-'' \<and> c \<noteq> CHR ''+''"
  by (auto simp: TOR_ISDIGIT_iff)

lemma strtol_scan_digits:
  assumes ds: "list_all TOR_ISDIGIT ds" "ds \<noteq> []" and rest: "no_digit_ahead rest"
  shows "strtol_scan (ds @ rest) = (False, ds, rest)"
proof -
  obtain d ds' where d: "ds = d # ds'" "TOR_ISDIGIT d" using ds by (cases ds) auto
  note td = takeWhile_dropWhile_digits [OF ds(1) rest [unfolded no_digit_ahead_def]]
  have "dropWhile TOR_ISSPACE (ds @ rest) = ds @ rest" using d digit_not_space by simp
  moreover have "hd (ds @ rest) = d" using d by simp
  ultimately show ?thesis
    using digit_not_sign [OF d(2)] ds(2) td by (simp add: strtol_scan_def Let_def)
qed

lemma tor_parse_long_dec_nat:
  assumes "no_digit_ahead rest" "mn \<le> int n" "int n \<le> mx" "mx \<le> LONG_MAX"
  shows "tor_parse_long (dec_nat n @ rest) mn mx True = (int n, True, rest)"
proof -
  have "strtol_scan (dec_nat n @ rest) = (False, dec_nat n, rest)"
    using dec_nat_digits dec_nat_nonempty assms(1) by (rule strtol_scan_digits)
  moreover have "rest \<noteq> dec_nat n @ rest" by simp
  ultimately show ?thesis using assms
    by (simp add: tor_parse_long_def check_strtox_result_def strtol_def Let_def LONG_MAX_def)
qed

section \<open>Scanning helpers (util_string.c)\<close>

text \<open>\<open>strcmp\<close> compares as unsigned characters; only the sign of the result is specified.\<close>

fun strcmp :: "string \<Rightarrow> string \<Rightarrow> int" where
  "strcmp [] [] = 0"
| "strcmp [] (d # ds) = -1"
| "strcmp (c # cs) [] = 1"
| "strcmp (c # cs) (d # ds) =
     (if (of_char c :: nat) < of_char d then -1
      else if (of_char d :: nat) < of_char c then 1 else strcmp cs ds)"

definition strcasecmp :: "string \<Rightarrow> string \<Rightarrow> int" where
  "strcasecmp s t = strcmp (map TOR_TOLOWER s) (map TOR_TOLOWER t)"

lemma strcmp_eq_0_iff [simp]: "strcmp s t = 0 \<longleftrightarrow> s = t"
  by (induction s t rule: strcmp.induct) (auto simp: linorder_neq_iff)

definition tor_memmem :: "'a list \<Rightarrow> 'a list \<Rightarrow> nat option outcome" where
  "tor_memmem haystack needle =
     (if needle = [] then Stuck
      else if length needle > length haystack then Done None
      else Done (find_sub needle haystack))"

definition tor_memstr :: "string \<Rightarrow> string \<Rightarrow> nat option outcome" where
  "tor_memstr haystack needle = tor_memmem haystack needle"

definition fast_mem_is_zero :: "byte list \<Rightarrow> bool" where
  "fast_mem_is_zero mem = list_all (\<lambda>b. b = 0) mem"

definition tor_digest_is_zero :: "byte list \<Rightarrow> bool" where
  "tor_digest_is_zero digest = fast_mem_is_zero (take 20 digest)"

fun tor_strstrip :: "string \<Rightarrow> string \<Rightarrow> string" where
  "tor_strstrip [] strip = []"
| "tor_strstrip (c # cs) strip =
     (if c \<in> set strip then tor_strstrip cs strip else c # tor_strstrip cs strip)"

definition tor_strlower :: "string \<Rightarrow> string" where
  "tor_strlower s = map TOR_TOLOWER s"

definition tor_strreplacechar :: "string \<Rightarrow> char \<Rightarrow> char \<Rightarrow> string" where
  "tor_strreplacechar s c r = map (\<lambda>x. if x = c then r else x) s"

fun tor_strisprint :: "string \<Rightarrow> bool" where
  "tor_strisprint [] = True"
| "tor_strisprint (c # cs) = (if \<not> TOR_ISPRINT c then False else tor_strisprint cs)"

fun tor_strisnonupper :: "string \<Rightarrow> bool" where
  "tor_strisnonupper [] = True"
| "tor_strisnonupper (c # cs) = (if TOR_ISUPPER c then False else tor_strisnonupper cs)"

fun tor_strisspace :: "string \<Rightarrow> bool" where
  "tor_strisspace [] = True"
| "tor_strisspace (c # cs) = (if \<not> TOR_ISSPACE c then False else tor_strisspace cs)"

fun strcmp_opt :: "string option \<Rightarrow> string option \<Rightarrow> int" where
  "strcmp_opt None None = 0"
| "strcmp_opt None (Some t) = -1"
| "strcmp_opt (Some s) None = 1"
| "strcmp_opt (Some s) (Some t) = strcmp s t"

definition strncmp :: "string \<Rightarrow> string \<Rightarrow> nat \<Rightarrow> int" where
  "strncmp s t n = strcmp (take n s) (take n t)"

definition strcmpstart :: "string \<Rightarrow> string \<Rightarrow> int" where
  "strcmpstart s1 s2 = strncmp s1 s2 (length s2)"

definition strcasecmpstart :: "string \<Rightarrow> string \<Rightarrow> int" where
  "strcasecmpstart s1 s2 = strcasecmp (take (length s2) s1) s2"

definition strcmpend :: "string \<Rightarrow> string \<Rightarrow> int" where
  "strcmpend s1 s2 =
     (let n1 = length s1; n2 = length s2
      in if n2 > n1 then strcmp s1 s2 else strncmp (drop (n1 - n2) s1) s2 n2)"

definition strcasecmpend :: "string \<Rightarrow> string \<Rightarrow> int" where
  "strcasecmpend s1 s2 =
     (let n1 = length s1; n2 = length s2
      in if n2 > n1 then strcasecmp s1 s2 else strcasecmp (drop (n1 - n2) s1) s2)"

text \<open>A \<open>#\<close> comment runs to the end of the line; the newline itself is white space.\<close>

function eat_whitespace :: "string \<Rightarrow> string" where
  "eat_whitespace [] = []"
| "eat_whitespace (c # cs) =
     (if c = SP \<or> c = CHR 0x09 \<or> c = NL \<or> c = CHR 0x0D then eat_whitespace cs
      else if c = CHR ''#'' then eat_whitespace (dropWhile (\<lambda>x. x \<noteq> NL) cs)
      else c # cs)"
  by pat_completeness auto
termination
  by (relation "measure length") (auto simp: le_imp_less_Suc length_dropWhile_le)

definition eat_whitespace_no_nl :: "string \<Rightarrow> string" where
  "eat_whitespace_no_nl s = dropWhile (\<lambda>c. c = SP \<or> c = CHR 0x09 \<or> c = CHR 0x0D) s"

definition find_whitespace :: "string \<Rightarrow> string" where
  "find_whitespace s =
     dropWhile (\<lambda>c. c \<notin> {CHR ''#'', SP, CHR 0x0D, NL, CHR 0x09}) s"

function find_str_at_start_of_line :: "string \<Rightarrow> string \<Rightarrow> string option" where
  "find_str_at_start_of_line haystack needle =
     (if strncmp haystack needle (length needle) = 0 then Some haystack
      else (case dropWhile (\<lambda>c. c \<noteq> NL) haystack of
              [] \<Rightarrow> None
            | nl # rest \<Rightarrow> if rest = [] then None else find_str_at_start_of_line rest needle))"
  by pat_completeness auto
termination
proof (relation "measure (length \<circ> fst)", simp, clarsimp)
  fix haystack :: string and a rest
  assume "dropWhile (\<lambda>c. c \<noteq> NL) haystack = a # rest"
  then show "length rest < length haystack"
    by (metis length_Cons length_dropWhile_le less_eq_Suc_le)
qed

definition string_is_C_identifier :: "string \<Rightarrow> bool" where
  "string_is_C_identifier s =
     (case s of [] \<Rightarrow> False
      | c # cs \<Rightarrow> (TOR_ISALPHA c \<or> c = CHR ''_'') \<and>
                  list_all (\<lambda>x. TOR_ISALPHA x \<or> TOR_ISDIGIT x \<or> x = CHR ''_'') cs)"

lemma strcmpstart_eq_0_iff: "strcmpstart s t = 0 \<longleftrightarrow> take (length t) s = t"
  by (auto simp: strcmpstart_def strncmp_def)

lemma strcmpend_eq_0_iff: "strcmpend s t = 0 \<longleftrightarrow> (\<exists>u. s = u @ t)"
proof (cases "length t > length s")
  case True
  then show ?thesis by (auto simp: strcmpend_def)
next
  case False
  then have "(drop (length s - length t) s = t) \<longleftrightarrow> (\<exists>u. s = u @ t)"
    by (metis append_take_drop_id append_eq_conv_conj length_append add_diff_cancel_right')
  with False show ?thesis by (auto simp: strcmpend_def strncmp_def Let_def)
qed

section \<open>Splitting and joining\<close>

text \<open>
  \<open>smartlist_split_string\<close>. A separator of \<open>None\<close> is the code's \<open>NULL\<close>: split on
  horizontal space. The loop runs over the unread rest of the string; \<open>None\<close> is a loop
  that does not end (an empty separator).
\<close>

record split_flags =
  skip_space :: bool
  ignore_blank :: bool
  strip_space :: bool

definition split_end :: "string option \<Rightarrow> bool \<Rightarrow> string \<Rightarrow> nat" where
  "split_end sep at_max cp =
     (if at_max then length cp
      else (case sep of
              Some sp \<Rightarrow> (case find_sub sp cp of Some i \<Rightarrow> i | None \<Rightarrow> length cp)
            | None \<Rightarrow> length (takeWhile (\<lambda>c. c \<noteq> CHR 0x09 \<and> c \<noteq> SP) cp)))"

definition split_next :: "string option \<Rightarrow> nat \<Rightarrow> string \<Rightarrow> string option" where
  "split_next sep e cp =
     (if drop e cp = [] then None
      else (case sep of
              Some sp \<Rightarrow> Some (drop (e + length sp) cp)
            | None \<Rightarrow> Some (dropWhile (\<lambda>c. c = CHR 0x09 \<or> c = SP) (drop (e + 1) cp))))"

definition split_piece :: "split_flags \<Rightarrow> nat \<Rightarrow> string \<Rightarrow> string" where
  "split_piece flags e cp =
     (if skip_space flags then rev (dropWhile TOR_ISSPACE (rev (take e cp))) else take e cp)"

partial_function (option) split_loop ::
  "string option \<Rightarrow> split_flags \<Rightarrow> int \<Rightarrow> int \<Rightarrow> string \<Rightarrow> string list option" where
  "split_loop sep flags mx n str =
     (let cp = (if skip_space flags then dropWhile TOR_ISSPACE str else str);
          e = split_end sep (mx > 0 \<and> n = mx - 1) cp;
          piece = split_piece flags e cp;
          keep = (piece \<noteq> [] \<or> \<not> ignore_blank flags);
          out = (if keep then [if strip_space flags then tor_strstrip piece '' '' else piece] else [])
      in (case split_next sep e cp of
            None \<Rightarrow> Some out
          | Some rest \<Rightarrow>
              Option.bind (split_loop sep flags mx (if keep then n + 1 else n) rest)
                (\<lambda>more. Some (out @ more))))"

definition smartlist_split_string ::
  "string list \<Rightarrow> string \<Rightarrow> string option \<Rightarrow> split_flags \<Rightarrow> int \<Rightarrow> (string list \<times> nat) outcome" where
  "smartlist_split_string sl str sep flags mx =
     (case split_loop sep flags mx 0 str of
        None \<Rightarrow> Stuck
      | Some pieces \<Rightarrow> Done (sl @ pieces, length pieces))"

text \<open>\<open>smartlist_join_strings2\<close> of \<open>src/lib/container/smartlist.c\<close>.\<close>

fun join_body :: "string list \<Rightarrow> string \<Rightarrow> string" where
  "join_body [] join = []"
| "join_body [s] join = s"
| "join_body (s # t # ts) join = s @ join @ join_body (t # ts) join"

definition smartlist_join_strings2 :: "string list \<Rightarrow> string \<Rightarrow> bool \<Rightarrow> string" where
  "smartlist_join_strings2 sl join terminate =
     join_body sl join @ (if terminate then join else [])"

definition plain_split :: split_flags where
  "plain_split = \<lparr>skip_space = False, ignore_blank = False, strip_space = False\<rparr>"

lemma split_next_shorter:
  "split_next sep e cp = Some rest \<Longrightarrow> sep \<noteq> Some [] \<Longrightarrow> length rest < length cp"
  by (auto simp: split_next_def neq_Nil_conv split: if_splits option.splits
      intro: le_less_trans [OF length_dropWhile_le])

lemma split_loop_total:
  "sep \<noteq> Some [] \<Longrightarrow> \<exists>ps. split_loop sep flags mx n str = Some ps"
proof (induction str arbitrary: n rule: length_induct)
  case (1 str)
  let ?cp = "if skip_space flags then dropWhile TOR_ISSPACE str else str"
  let ?e = "split_end sep (mx > 0 \<and> n = mx - 1) ?cp"
  let ?piece = "split_piece flags ?e ?cp"
  let ?keep = "?piece \<noteq> [] \<or> \<not> ignore_blank flags"
  let ?out = "if ?keep then [if strip_space flags then tor_strstrip ?piece '' '' else ?piece] else []"
  have step: "split_loop sep flags mx n str =
      (case split_next sep ?e ?cp of
         None \<Rightarrow> Some ?out
       | Some rest \<Rightarrow> Option.bind (split_loop sep flags mx (if ?keep then n + 1 else n) rest)
                        (\<lambda>more. Some (?out @ more)))"
    by (subst split_loop.simps) (simp only: Let_def)
  show ?case
  proof (cases "split_next sep ?e ?cp")
    case None
    then show ?thesis unfolding step by simp
  next
    case (Some rest)
    then have "length rest < length ?cp" using "1.prems" by (rule split_next_shorter)
    also have "length ?cp \<le> length str" by (simp add: length_dropWhile_le)
    finally obtain more where
      "split_loop sep flags mx (if ?keep then n + 1 else n) rest = Some more"
      using 1 by blast
    with Some show ?thesis unfolding step by simp
  qed
qed

lemma join_body_Cons: "ts \<noteq> [] \<Longrightarrow> join_body (s # ts) j = s @ j @ join_body ts j"
  by (cases ts) auto

lemma find_sub_split:
  assumes "find_sub sp cp = Some i"
  shows "cp = take i cp @ sp @ drop (i + length sp) cp"
proof -
  have "take (length sp) (drop i cp) = sp"
    using assms by (simp add: find_sub_Some_iff occurs_at_def)
  then show ?thesis by (metis append_take_drop_id drop_drop add.commute)
qed

lemma plain_split_loop:
  "split_loop (Some sp) plain_split 0 n str =
     (case find_sub sp str of
        None \<Rightarrow> Some [str]
      | Some i \<Rightarrow> if drop i str = [] then Some [str]
                  else Option.bind (split_loop (Some sp) plain_split 0 (n + 1) (drop (i + length sp) str))
                         (\<lambda>more. Some (take i str # more)))"
  by (subst split_loop.simps)
     (auto simp: plain_split_def split_end_def split_next_def split_piece_def Let_def
           split: option.splits)

lemma join_split_loop:
  assumes "sp \<noteq> []" "split_loop (Some sp) plain_split 0 n str = Some ps"
  shows "ps \<noteq> [] \<and> join_body ps sp = str"
  using assms(2)
proof (induction str arbitrary: n ps rule: length_induct)
  case (1 str)
  show ?case
  proof (cases "find_sub sp str")
    case None
    with "1.prems" have "ps = [str]" by (subst (asm) plain_split_loop) simp
    then show ?thesis by simp
  next
    case (Some i)
    then have i: "i + length sp \<le> length str" by (rule find_sub_bound)
    with assms(1) have ne: "drop i str \<noteq> []" and lt: "length (drop (i + length sp) str) < length str"
      by (auto simp: neq_Nil_conv)
    from "1.prems" Some ne obtain more where
      more: "split_loop (Some sp) plain_split 0 (n + 1) (drop (i + length sp) str) = Some more"
      and ps: "ps = take i str # more"
      by (subst (asm) plain_split_loop) (auto split: Option.bind_splits)
    from "1.IH" lt more have "more \<noteq> []" "join_body more sp = drop (i + length sp) str" by blast+
    with ps find_sub_split [OF Some] show ?thesis by (simp add: join_body_Cons)
  qed
qed

lemma split_loop_join:
  assumes "ps \<noteq> []" "\<forall>p \<in> set ps. c \<notin> set p"
  shows "split_loop (Some [c]) plain_split 0 n (join_body ps [c]) = Some ps"
  using assms
proof (induction ps arbitrary: n rule: induct_list012)
  case (2 p)
  then have "find_sub [c] p = None" by (simp add: find_sub_singleton)
  then show ?case by (subst plain_split_loop) simp
next
  case (3 p q qs)
  then have "find_sub [c] (join_body (p # q # qs) [c]) = Some (length p)"
    using find_sub_append [of c p "[]" "join_body (q # qs) [c]"] by simp
  with 3 show ?case by (subst plain_split_loop) simp
qed simp

end
