(* ===== verification/Lcs.thy ===== *)
theory Lcs
  imports Main "HOL-Library.Sublist"
begin

text \<open>
  The length of a longest common subsequence, the reference for the line comparison: its
  characterisation by subsequences, its recurrence at the end of the lists (the one a table
  over prefixes uses), and Hirschberg's splitting theorem.
\<close>

fun lcs :: "'a list \<Rightarrow> 'a list \<Rightarrow> nat" where
  "lcs [] ys = 0"
| "lcs (x # xs) [] = 0"
| "lcs (x # xs) (y # ys) = (if x = y then lcs xs ys + 1 else max (lcs (x # xs) ys) (lcs xs (y # ys)))"

lemma lcs_Nil2 [simp]: "lcs xs [] = 0"
  by (cases xs) auto

lemma lcs_attained: "\<exists>zs. subseq zs xs \<and> subseq zs ys \<and> length zs = lcs xs ys"
proof (induction xs ys rule: lcs.induct)
  case (3 x xs y ys)
  show ?case
  proof (cases "x = y")
    case True
    with 3(1) obtain zs where "subseq zs xs" "subseq zs ys" "length zs = lcs xs ys" by blast
    with True show ?thesis by (intro exI [of _ "x # zs"]) auto
  next
    case False
    with 3(2,3) obtain zs ws where "subseq zs (x # xs)" "subseq zs ys" "length zs = lcs (x # xs) ys"
      "subseq ws xs" "subseq ws (y # ys)" "length ws = lcs xs (y # ys)" by blast
    with False show ?thesis
      by (cases "lcs xs (y # ys) \<le> lcs (x # xs) ys") (auto simp: max_def)
  qed
qed auto

lemma lcs_upper: "subseq zs xs \<Longrightarrow> subseq zs ys \<Longrightarrow> length zs \<le> lcs xs ys"
proof (induction xs ys arbitrary: zs rule: lcs.induct)
  case (3 x xs y ys)
  show ?case
  proof (cases zs)
    case (Cons z zs')
    show ?thesis
    proof (cases "x = y")
      case True
      show ?thesis
      proof (cases "z = x")
        case True
        with \<open>x = y\<close> Cons 3 show ?thesis by (auto simp: subseq_Cons2_iff)
      next
        case False
        with \<open>x = y\<close> Cons "3.prems" have "subseq zs xs" "subseq zs ys" by (auto simp: subseq_Cons2_iff)
        with "3.IH"(1) [OF True, of zs] True show ?thesis by simp
      qed
    next
      case False
      show ?thesis
      proof (cases "z = x")
        case True
        with False Cons "3.prems"(2) have "subseq zs ys" by (auto simp: subseq_Cons2_iff)
        with "3.IH"(2) [OF False "3.prems"(1)] False show ?thesis by auto
      next
        case neq: False
        with Cons "3.prems"(1) have "subseq zs xs" by (auto simp: subseq_Cons2_iff)
        with "3.IH"(3) [OF False _ "3.prems"(2)] False show ?thesis by auto
      qed
    qed
  qed simp
qed auto

lemma lcs_eqI:
  assumes "\<And>zs. subseq zs xs \<Longrightarrow> subseq zs ys \<Longrightarrow> length zs \<le> n"
    and "subseq zs xs" "subseq zs ys" "length zs = n"
  shows "lcs xs ys = n"
  using lcs_attained [of xs ys] lcs_upper [of zs xs ys] assms by (metis le_antisym)

lemma subseq_snoc: "subseq xs ys \<Longrightarrow> subseq xs (ys @ [y])"
  using list_emb_append_mono [of "(=)" xs ys "[]" "[y]"] by simp

lemma subseq_rev: "subseq xs ys \<Longrightarrow> subseq (rev xs) (rev ys)"
proof (induction ys arbitrary: xs)
  case (Cons y ys)
  show ?case
  proof (cases xs)
    case (Cons x xs')
    show ?thesis
    proof (cases "x = y")
      case True
      with Cons Cons.prems Cons.IH [of xs'] show ?thesis
        using list_emb_append_mono [of "(=)" "rev xs'" "rev ys" "[y]" "[y]"] by simp
    next
      case False
      with Cons Cons.prems Cons.IH [of xs] have "subseq (rev xs) (rev ys)" by simp
      then show ?thesis using subseq_snoc by simp
    qed
  qed auto
qed auto

lemma lcs_rev [simp]: "lcs (rev xs) (rev ys) = lcs xs ys"
proof -
  obtain zs where zs: "subseq zs xs" "subseq zs ys" "length zs = lcs xs ys" using lcs_attained by blast
  show ?thesis
  proof (rule lcs_eqI)
    fix ws assume "subseq ws (rev xs)" "subseq ws (rev ys)"
    then have "subseq (rev ws) xs" "subseq (rev ws) ys" using subseq_rev by fastforce+
    then show "length ws \<le> lcs xs ys" using lcs_upper by fastforce
  next
    show "subseq (rev zs) (rev xs)" "subseq (rev zs) (rev ys)" using zs by (simp_all add: subseq_rev)
  qed (use zs in simp)
qed

lemma lcs_snoc:
  "lcs (xs @ [x]) (ys @ [y]) =
     (if x = y then lcs xs ys + 1 else max (lcs (xs @ [x]) ys) (lcs xs (ys @ [y])))"
proof -
  have "lcs (x # rev xs) (y # rev ys) = lcs (xs @ [x]) (ys @ [y])"
    using lcs_rev [of "xs @ [x]" "ys @ [y]"] by simp
  moreover have "lcs (rev xs) (rev ys) = lcs xs ys" by simp
  moreover have "lcs (x # rev xs) (rev ys) = lcs (xs @ [x]) ys" using lcs_rev [of "xs @ [x]" ys] by simp
  moreover have "lcs (rev xs) (y # rev ys) = lcs xs (ys @ [y])" using lcs_rev [of xs "ys @ [y]"] by simp
  moreover have "lcs (x # rev xs) (y # rev ys) = (if x = y then lcs (rev xs) (rev ys) + 1
      else max (lcs (x # rev xs) (rev ys)) (lcs (rev xs) (y # rev ys)))" by simp
  ultimately show ?thesis by metis
qed

lemma lcs_commute: "lcs xs ys = lcs ys xs"
  by (induction xs ys rule: lcs.induct) auto

lemma lcs_split_le: "lcs xs1 (take k ys) + lcs xs2 (drop k ys) \<le> lcs (xs1 @ xs2) ys"
proof -
  obtain a b where "subseq a xs1" "subseq a (take k ys)" "length a = lcs xs1 (take k ys)"
    "subseq b xs2" "subseq b (drop k ys)" "length b = lcs xs2 (drop k ys)"
    using lcs_attained by metis
  then show ?thesis
    using lcs_upper [of "a @ b" "xs1 @ xs2" ys] list_emb_append_mono [of "(=)" a xs1 b xs2]
      list_emb_append_mono [of "(=)" a "take k ys" b "drop k ys"] by simp
qed

lemma lcs_split_attained:
  "\<exists>k \<le> length ys. lcs (xs1 @ xs2) ys = lcs xs1 (take k ys) + lcs xs2 (drop k ys)"
proof -
  obtain zs where zs: "subseq zs (xs1 @ xs2)" "subseq zs ys" "length zs = lcs (xs1 @ xs2) ys"
    using lcs_attained by metis
  from zs(1) obtain a b where ab: "zs = a @ b" "subseq a xs1" "subseq b xs2"
    by (metis subseq_appendE)
  from zs(2) ab(1) obtain us vs where "ys = us @ vs" "subseq a us" "subseq b vs"
    by (metis list_emb_appendD)
  with ab zs(3) have "lcs (xs1 @ xs2) ys \<le> lcs xs1 us + lcs xs2 vs"
    using lcs_upper [of a xs1 us] lcs_upper [of b xs2 vs] by simp
  with lcs_split_le [of xs1 "length us" ys xs2] \<open>ys = us @ vs\<close> show ?thesis
    by (intro exI [of _ "length us"]) auto
qed

lemma lcs_prefix: "lcs (ps @ xs) (ps @ ys) = length ps + lcs xs ys"
  by (induction ps) auto

lemma lcs_suffix: "lcs (xs @ qs) (ys @ qs) = lcs xs ys + length qs"
  using lcs_prefix [of "rev qs" "rev xs" "rev ys"] lcs_rev [of "xs @ qs" "ys @ qs"] by simp

lemma lcs_singleton: "lcs [x] ys = (if x \<in> set ys then 1 else 0)"
  by (induction ys) auto

end
