(* ===== verification/DiffChanges.thy ===== *)
theory DiffChanges
  imports CStrings Lcs
begin

text \<open>
  The line comparison of \<open>src/feature/dircommon/consdiff.c\<close>: slices of two documents, their
  longest common subsequence lengths, the trimming of equal ends, and \<open>calc_changes\<close>, which
  marks the lines of each document that are not in the other. A line (\<open>cdline_t\<close>) is the
  string of its \<open>len\<close> characters, a smartlist of lines a list, a bit array a list of booleans.

  The lemmas show that the lines left unmarked are the same on both sides, and that no
  choice of lines leaves more of them (Hirschberg's algorithm): the difference is minimal.
\<close>

section \<open>Slices\<close>

type_synonym cdline = string

record smartlist_slice =
  sl_list :: "cdline list"
  sl_offset :: nat
  sl_len :: nat

definition lines_eq :: "cdline \<Rightarrow> cdline \<Rightarrow> bool" where
  "lines_eq a b \<longleftrightarrow> length a = length b \<and> a = b"

definition line_str_eq :: "cdline \<Rightarrow> string \<Rightarrow> bool" where
  "line_str_eq a b = lines_eq a b"

definition line_starts_with_str :: "cdline \<Rightarrow> string \<Rightarrow> bool" where
  "line_starts_with_str a b \<longleftrightarrow> length a \<ge> length b \<and> take (length b) a = b"

text \<open>\<open>end\<close> is -1 for the end of the list; a failed assertion is \<open>Stuck\<close>.\<close>

definition smartlist_slice_new :: "cdline list \<Rightarrow> nat \<Rightarrow> int \<Rightarrow> smartlist_slice outcome" where
  "smartlist_slice_new list start end =
     (let list_len = length list; e = (if end = -1 then int list_len else end)
      in if \<not> start \<le> list_len then Stuck
         else if \<not> int start \<le> e then Stuck
         else Done \<lparr>sl_list = list, sl_offset = start, sl_len = nat e - start\<rparr>)"

lemma smartlist_slice_new_nat:
  "smartlist_slice_new list start (int end) =
     (if start \<le> length list \<and> start \<le> end then Done \<lparr>sl_list = list, sl_offset = start, sl_len = end - start\<rparr> else Stuck)"
  by (simp add: smartlist_slice_new_def Let_def)

section \<open>Longest common subsequences\<close>

text \<open>
  One row of the table: \<open>prev\<close> is the row before, \<open>result\<close> the row being filled, of which
  the entry at \<open>j\<close> is \<open>cur\<close>. The loop runs over the lines of the second slice.
\<close>

fun lcs_row :: "cdline \<Rightarrow> cdline list \<Rightarrow> nat list \<Rightarrow> nat \<Rightarrow> nat list" where
  "lcs_row line1 [] prev cur = []"
| "lcs_row line1 (line2 # ls) prev cur =
     (let v = (if lines_eq line1 line2 then hd prev + 1 else max cur (hd (tl prev)))
      in v # lcs_row line1 ls (tl prev) v)"

fun lcs_rows :: "cdline list \<Rightarrow> cdline list \<Rightarrow> nat list \<Rightarrow> nat list" where
  "lcs_rows [] ls2 result = result"
| "lcs_rows (line1 # ls1) ls2 result = lcs_rows ls1 ls2 (hd result # lcs_row line1 ls2 result (hd result))"

text \<open>The lines of a slice in the order of navigation.\<close>

definition slice_lines :: "smartlist_slice \<Rightarrow> cdline list" where
  "slice_lines s = take (sl_len s) (drop (sl_offset s) (sl_list s))"

definition lcs_lengths :: "smartlist_slice \<Rightarrow> smartlist_slice \<Rightarrow> int \<Rightarrow> nat list outcome" where
  "lcs_lengths s1 s2 direction =
     (if \<not> (direction = 1 \<or> direction = -1) then Stuck
      else let nav = (\<lambda>ls. if direction = -1 then rev ls else ls)
           in Done (lcs_rows (nav (slice_lines s1)) (nav (slice_lines s2))
                      (replicate (sl_len s2 + 1) 0)))"

section \<open>Changes\<close>

fun trim_front :: "smartlist_slice \<Rightarrow> smartlist_slice \<Rightarrow> nat \<Rightarrow> smartlist_slice \<times> smartlist_slice" where
  "trim_front s1 s2 0 = (s1, s2)"
| "trim_front s1 s2 (Suc k) =
     (if \<not> (sl_len s1 > 0 \<and> sl_len s2 > 0) then (s1, s2)
      else if \<not> lines_eq (sl_list s1 ! sl_offset s1) (sl_list s2 ! sl_offset s2) then (s1, s2)
      else trim_front (s1\<lparr>sl_offset := sl_offset s1 + 1, sl_len := sl_len s1 - 1\<rparr>)
             (s2\<lparr>sl_offset := sl_offset s2 + 1, sl_len := sl_len s2 - 1\<rparr>) k)"

fun trim_back :: "smartlist_slice \<Rightarrow> smartlist_slice \<Rightarrow> nat \<Rightarrow> smartlist_slice \<times> smartlist_slice" where
  "trim_back s1 s2 0 = (s1, s2)"
| "trim_back s1 s2 (Suc k) =
     (if \<not> (sl_len s1 > 0 \<and> sl_len s2 > 0) then (s1, s2)
      else if \<not> lines_eq (sl_list s1 ! (sl_offset s1 + sl_len s1 - 1))
                         (sl_list s2 ! (sl_offset s2 + sl_len s2 - 1)) then (s1, s2)
      else trim_back (s1\<lparr>sl_len := sl_len s1 - 1\<rparr>) (s2\<lparr>sl_len := sl_len s2 - 1\<rparr>) k)"

text \<open>Each loop takes a line off the first slice, so its length bounds their runs.\<close>

definition trim_slices :: "smartlist_slice \<Rightarrow> smartlist_slice \<Rightarrow> smartlist_slice \<times> smartlist_slice" where
  "trim_slices s1 s2 = (case trim_front s1 s2 (sl_len s1) of (t1, t2) \<Rightarrow> trim_back t1 t2 (sl_len t1))"

fun string_pos :: "cdline list \<Rightarrow> nat \<Rightarrow> cdline \<Rightarrow> nat option" where
  "string_pos [] i s = None"
| "string_pos (el # els) i s = (if lines_eq el s then Some i else string_pos els (i + 1) s)"

definition smartlist_slice_string_pos :: "smartlist_slice \<Rightarrow> cdline \<Rightarrow> nat option" where
  "smartlist_slice_string_pos s string = string_pos (slice_lines s) (sl_offset s) string"

text \<open>\<open>bitarray_set\<close> for the positions of a slice other than \<open>toskip\<close>.\<close>

fun set_range :: "bool list \<Rightarrow> nat \<Rightarrow> nat \<Rightarrow> nat option \<Rightarrow> bool list" where
  "set_range c i 0 toskip = c"
| "set_range c i (Suc k) toskip =
     set_range (if toskip = Some i then c else c[i := True]) (i + 1) k toskip"

text \<open>The first slice has at most one line, which is asserted.\<close>

definition set_changed ::
  "bool list \<Rightarrow> bool list \<Rightarrow> smartlist_slice \<Rightarrow> smartlist_slice \<Rightarrow> (bool list \<times> bool list) outcome" where
  "set_changed changed1 changed2 s1 s2 =
     (if \<not> (sl_len s1 = 0 \<or> sl_len s1 = 1) then Stuck
      else
        let toskip = (if sl_len s1 = 1
                      then smartlist_slice_string_pos s2 (sl_list s1 ! sl_offset s1) else None);
            c1 = (if sl_len s1 = 1 \<and> toskip = None then changed1[sl_offset s1 := True] else changed1)
        in Done (c1, set_range changed2 (sl_offset s2) (sl_len s2) toskip))"

fun best_column :: "nat list \<Rightarrow> nat list \<Rightarrow> nat \<Rightarrow> nat \<times> int \<Rightarrow> nat" where
  "best_column [] bs i (column, max_sum) = column"
| "best_column (a # as) [] i (column, max_sum) = column"
| "best_column (a # as) (b # bs) i (column, max_sum) =
     (let sum = int a + int b
      in best_column as bs (i + 1) (if sum > max_sum then (i, sum) else (column, max_sum)))"

text \<open>\<open>lens_bot\<close> is read from its end as \<open>lens_top\<close> is read from its start.\<close>

definition optimal_column_to_split ::
  "smartlist_slice \<Rightarrow> smartlist_slice \<Rightarrow> smartlist_slice \<Rightarrow> nat outcome" where
  "optimal_column_to_split tp bt s2 =
     obind (lcs_lengths tp s2 1) (\<lambda>lens_top.
     obind (lcs_lengths bt s2 (-1)) (\<lambda>lens_bot.
       Done (best_column lens_top (rev lens_bot) 0 (0, -1))))"

lemma trim_front_len:
  "trim_front s1 s2 k = (t1, t2) \<Longrightarrow> sl_len t1 \<le> sl_len s1"
  by (induction s1 s2 k rule: trim_front.induct) (auto split: if_splits)

lemma trim_back_len:
  "trim_back s1 s2 k = (t1, t2) \<Longrightarrow> sl_len t1 \<le> sl_len s1"
  by (induction s1 s2 k rule: trim_back.induct) (auto split: if_splits)

lemma trim_slices_len: "trim_slices s1 s2 = (t1, t2) \<Longrightarrow> sl_len t1 \<le> sl_len s1"
  unfolding trim_slices_def by (auto split: prod.splits dest!: trim_front_len trim_back_len)

function calc_changes ::
  "smartlist_slice \<Rightarrow> smartlist_slice \<Rightarrow> bool list \<Rightarrow> bool list \<Rightarrow> (bool list \<times> bool list) outcome" where
  "calc_changes s1 s2 changed1 changed2 =
     (case trim_slices s1 s2 of (t1, t2) \<Rightarrow>
        if sl_len t1 \<le> 1 then set_changed changed1 changed2 t1 t2
        else if sl_len t2 \<le> 1
        then obind (set_changed changed2 changed1 t2 t1) (\<lambda>(c2, c1). Done (c1, c2))
        else
          let mid = sl_len t1 div 2
          in obind (smartlist_slice_new (sl_list t1) (sl_offset t1) (int (sl_offset t1 + mid))) (\<lambda>tp.
             obind (smartlist_slice_new (sl_list t1) (sl_offset t1 + mid) (int (sl_offset t1 + sl_len t1))) (\<lambda>bt.
             obind (optimal_column_to_split tp bt t2) (\<lambda>mid2.
             obind (smartlist_slice_new (sl_list t2) (sl_offset t2) (int (sl_offset t2 + mid2))) (\<lambda>left.
             obind (smartlist_slice_new (sl_list t2) (sl_offset t2 + mid2) (int (sl_offset t2 + sl_len t2))) (\<lambda>right.
             obind (calc_changes tp left changed1 changed2) (\<lambda>(c1, c2).
               calc_changes bt right c1 c2)))))))"
  by pat_completeness auto
termination
  by (relation "measure (\<lambda>(s1, s2, c1, c2). sl_len s1)")
     (auto simp: smartlist_slice_new_nat simp del: of_nat_add split: if_splits dest!: trim_slices_len sym [of _ "trim_slices _ _"])

section \<open>The table holds the reference lengths\<close>

text \<open>The row of the table for the lines \<open>P\<close> of the first slice.\<close>

definition row :: "cdline list \<Rightarrow> cdline list \<Rightarrow> nat list" where
  "row P Y = map (\<lambda>j. lcs P (take j Y)) [0..<length Y + 1]"

lemma lcs_row_eq:
  assumes "drop k Y = ls" "k + length ls = length Y"
  shows "lcs_row x ls (map (\<lambda>j. lcs P (take j Y)) [k..<length Y + 1]) (lcs (P @ [x]) (take k Y)) =
         map (\<lambda>j. lcs (P @ [x]) (take j Y)) [Suc k..<length Y + 1]"
  using assms
proof (induction ls arbitrary: k)
  case (Cons y ls)
  then have k: "k < length Y" by simp
  then have tk: "take (Suc k) Y = take k Y @ [y]"
    using Cons.prems(1) by (metis nth_via_drop take_Suc_conv_app_nth)
  have dr: "drop (Suc k) Y = ls" using Cons.prems(1) by (metis drop_Suc list.sel(3) tl_drop)
  have rng: "[k..<length Y + 1] = k # [Suc k..<length Y + 1]"
    "[Suc k..<length Y + 1] = Suc k # [Suc (Suc k)..<length Y + 1]"
    using k by (simp_all add: upt_conv_Cons del: upt_Suc)
  define A where "A = map (\<lambda>j. lcs P (take j Y)) [Suc k..<length Y + 1]"
  define B where "B = map (\<lambda>j. lcs (P @ [x]) (take j Y)) [Suc (Suc k)..<length Y + 1]"
  have A: "map (\<lambda>j. lcs P (take j Y)) [k..<length Y + 1] = lcs P (take k Y) # A"
    "hd A = lcs P (take (Suc k) Y)"
    unfolding A_def rng by simp_all
  have IH: "lcs_row x ls A (lcs (P @ [x]) (take (Suc k) Y)) = B"
    using Cons.IH [OF dr] Cons.prems(2) by (simp add: A_def B_def del: upt_Suc)
  have v: "(if lines_eq x y then lcs P (take k Y) + 1
            else max (lcs (P @ [x]) (take k Y)) (lcs P (take (Suc k) Y))) = lcs (P @ [x]) (take (Suc k) Y)"
    unfolding tk lcs_snoc by (simp add: lines_eq_def)
  have "map (\<lambda>j. lcs (P @ [x]) (take j Y)) [Suc k..<length Y + 1] = lcs (P @ [x]) (take (Suc k) Y) # B"
    unfolding rng(2) B_def by simp
  then show ?case
    unfolding A(1) by (simp only: lcs_row.simps list.sel A(2) v Let_def IH)
qed simp

lemma lcs_rows_eq: "lcs_rows ls1 Y (row P Y) = row (P @ ls1) Y"
proof (induction ls1 arbitrary: P)
  case (Cons x ls1)
  have "hd (row P Y) # lcs_row x Y (row P Y) (hd (row P Y)) = row (P @ [x]) Y"
    using lcs_row_eq [of 0 Y Y x P]
    by (simp add: row_def upt_conv_Cons del: upt_Suc)
  with Cons.IH [of "P @ [x]"] show ?case by simp
qed simp

lemma row_Nil: "row [] Y = replicate (length Y + 1) 0"
  by (simp add: row_def map_replicate_const del: upt_Suc)

definition slice_ok :: "smartlist_slice \<Rightarrow> bool" where
  "slice_ok s \<longleftrightarrow> sl_offset s + sl_len s \<le> length (sl_list s)"

lemma length_slice_lines [simp]: "slice_ok s \<Longrightarrow> length (slice_lines s) = sl_len s"
  by (simp add: slice_lines_def slice_ok_def)

lemma lcs_lengths_eq:
  assumes "slice_ok s2"
  shows "lcs_lengths s1 s2 1 = Done (row (slice_lines s1) (slice_lines s2))"
    and "lcs_lengths s1 s2 (-1) = Done (row (rev (slice_lines s1)) (rev (slice_lines s2)))"
  using lcs_rows_eq [of "slice_lines s1" "slice_lines s2" "[]"]
    lcs_rows_eq [of "rev (slice_lines s1)" "rev (slice_lines s2)" "[]"] assms
  by (simp_all add: lcs_lengths_def row_Nil)

lemma rev_row: "rev (row (rev X) (rev Y)) = map (\<lambda>j. lcs X (drop j Y)) [0..<length Y + 1]"
proof (rule nth_equalityI)
  fix i assume "i < length (rev (row (rev X) (rev Y)))"
  then have i: "i \<le> length Y" by (simp add: row_def)
  then have "rev (row (rev X) (rev Y)) ! i = lcs (rev X) (take (length Y - i) (rev Y))"
    using nth_upt [of 0 "length Y - i" "Suc (length Y)"]
    by (simp add: row_def rev_nth less_Suc_eq_le del: upt_Suc nth_upt)
  also have "take (length Y - i) (rev Y) = rev (drop i Y)" using i by (simp add: take_rev)
  finally show "rev (row (rev X) (rev Y)) ! i = map (\<lambda>j. lcs X (drop j Y)) [0..<length Y + 1] ! i"
    using i by (simp del: upt_Suc)
qed (simp add: row_def)

section \<open>The split column\<close>

lemma best_column_spec:
  assumes "length as = length bs" "best_column as bs i (c0, m) = c"
  shows "(c = c0 \<and> (\<forall>k < length as. int (as ! k) + int (bs ! k) \<le> m)) \<or>
         (\<exists>k < length as. c = i + k \<and> m < int (as ! k) + int (bs ! k) \<and>
            (\<forall>k' < length as. as ! k' + bs ! k' \<le> as ! k + bs ! k))"
  using assms
proof (induction as bs i "(c0, m)" arbitrary: c0 m rule: best_column.induct)
  case (3 a as b bs i column max_sum)
  let ?s = "int a + int b"
  show ?case
  proof (cases "?s > max_sum")
    case True
    with 3 have "(c = i \<and> (\<forall>k < length as. int (as ! k) + int (bs ! k) \<le> ?s)) \<or>
         (\<exists>k < length as. c = i + 1 + k \<and> ?s < int (as ! k) + int (bs ! k) \<and>
            (\<forall>k' < length as. as ! k' + bs ! k' \<le> as ! k + bs ! k))"
      by (simp add: Let_def)
    then show ?thesis
    proof (elim disjE exE conjE)
      assume h: "c = i" "\<forall>k<length as. int (as ! k) + int (bs ! k) \<le> ?s"
      then have "\<forall>k' < length (a # as). (a # as) ! k' + (b # bs) ! k' \<le> (a # as) ! 0 + (b # bs) ! 0"
        by (auto simp: nth_Cons split: nat.splits)
      with h(1) True show ?thesis by (intro disjI2 exI [of _ 0]) auto
    next
      fix k assume h: "k < length as" "c = i + 1 + k" "?s < int (as ! k) + int (bs ! k)"
        "\<forall>k' < length as. as ! k' + bs ! k' \<le> as ! k + bs ! k"
      then have "\<forall>k' < length (a # as). (a # as) ! k' + (b # bs) ! k' \<le> (a # as) ! Suc k + (b # bs) ! Suc k"
        by (auto simp: nth_Cons split: nat.splits)
      with h True show ?thesis by (intro disjI2 exI [of _ "Suc k"]) auto
    qed
  next
    case False
    with 3 have "(c = column \<and> (\<forall>k < length as. int (as ! k) + int (bs ! k) \<le> max_sum)) \<or>
         (\<exists>k < length as. c = i + 1 + k \<and> max_sum < int (as ! k) + int (bs ! k) \<and>
            (\<forall>k' < length as. as ! k' + bs ! k' \<le> as ! k + bs ! k))"
      by (simp add: Let_def)
    then show ?thesis
    proof (elim disjE exE conjE)
      assume "c = column" "\<forall>k<length as. int (as ! k) + int (bs ! k) \<le> max_sum"
      with False show ?thesis by (auto simp: nth_Cons split: nat.splits)
    next
      fix k assume h: "k < length as" "c = i + 1 + k" "max_sum < int (as ! k) + int (bs ! k)"
        "\<forall>k' < length as. as ! k' + bs ! k' \<le> as ! k + bs ! k"
      then have "\<forall>k' < length (a # as). (a # as) ! k' + (b # bs) ! k' \<le> (a # as) ! Suc k + (b # bs) ! Suc k"
        using False by (auto simp: nth_Cons split: nat.splits)
      with h show ?thesis by (intro disjI2 exI [of _ "Suc k"]) auto
    qed
  qed
qed auto

lemma optimal_column:
  assumes "slice_ok s2"
  shows "\<exists>k \<le> sl_len s2. optimal_column_to_split tp bt s2 = Done k \<and>
     lcs (slice_lines tp @ slice_lines bt) (slice_lines s2) =
     lcs (slice_lines tp) (take k (slice_lines s2)) + lcs (slice_lines bt) (drop k (slice_lines s2))"
proof -
  let ?Y = "slice_lines s2" let ?n = "length ?Y"
  define as where "as = row (slice_lines tp) ?Y"
  define bs where "bs = rev (row (rev (slice_lines bt)) (rev ?Y))"
  have as: "length as = ?n + 1" "\<And>k. k \<le> ?n \<Longrightarrow> as ! k = lcs (slice_lines tp) (take k ?Y)"
    by (simp_all add: as_def row_def del: upt_Suc)
  have bs: "length bs = ?n + 1" "\<And>k. k \<le> ?n \<Longrightarrow> bs ! k = lcs (slice_lines bt) (drop k ?Y)"
    unfolding bs_def rev_row by (simp_all del: upt_Suc)
  define c where "c = best_column as bs 0 (0, -1)"
  have opt: "optimal_column_to_split tp bt s2 = Done c"
    unfolding c_def as_def bs_def by (simp add: optimal_column_to_split_def lcs_lengths_eq [OF assms])
  have "length as = length bs" using as bs by simp
  from best_column_spec [OF this c_def [symmetric]] as(1) obtain k where
    k: "k < length as" "c = k" "\<forall>k' < length as. as ! k' + bs ! k' \<le> as ! k + bs ! k"
    by (auto dest: spec [of _ 0])
  obtain k0 where k0: "k0 \<le> ?n" "lcs (slice_lines tp @ slice_lines bt) ?Y =
      lcs (slice_lines tp) (take k0 ?Y) + lcs (slice_lines bt) (drop k0 ?Y)"
    using lcs_split_attained by blast
  have "as ! k0 + bs ! k0 \<le> as ! k + bs ! k" using k(3) k0(1) as(1) by simp
  then have "lcs (slice_lines tp @ slice_lines bt) ?Y =
      lcs (slice_lines tp) (take c ?Y) + lcs (slice_lines bt) (drop c ?Y)"
    using k0 k(1,2) as bs lcs_split_le [of "slice_lines tp" c ?Y "slice_lines bt"] by simp
  with opt k(1,2) as(1) assms show ?thesis by auto
qed

section \<open>The lines that are kept\<close>

definition kept :: "cdline list \<Rightarrow> bool list \<Rightarrow> nat \<Rightarrow> nat \<Rightarrow> cdline list" where
  "kept l c off n = map ((!) l) (filter (\<lambda>i. \<not> c ! i) [off..<off + n])"

definition clear :: "bool list \<Rightarrow> nat \<Rightarrow> nat \<Rightarrow> bool" where
  "clear c off n \<longleftrightarrow> (\<forall>i. off \<le> i \<and> i < off + n \<longrightarrow> \<not> c ! i)"

definition same_outside :: "bool list \<Rightarrow> bool list \<Rightarrow> nat \<Rightarrow> nat \<Rightarrow> bool" where
  "same_outside c c' off n \<longleftrightarrow>
     length c' = length c \<and> (\<forall>i. \<not> (off \<le> i \<and> i < off + n) \<longrightarrow> c' ! i = c ! i)"

lemma kept_cong: "(\<And>i. off \<le> i \<Longrightarrow> i < off + n \<Longrightarrow> c ! i = c' ! i) \<Longrightarrow> kept l c off n = kept l c' off n"
  unfolding kept_def by (rule arg_cong [of _ _ "map ((!) l)"], rule filter_cong) auto

lemma kept_add: "kept l c off (n + m) = kept l c off n @ kept l c (off + n) m"
proof -
  have "[off..<off + (n + m)] = [off..<off + n] @ [off + n..<off + n + m]"
    using upt_add_eq_append [of off "off + n" m] by (simp add: add.assoc)
  then show ?thesis by (simp add: kept_def)
qed

lemma kept_clear: "clear c off n \<Longrightarrow> off + n \<le> length l \<Longrightarrow> kept l c off n = take n (drop off l)"
proof -
  assume "clear c off n" "off + n \<le> length l"
  then have "filter (\<lambda>i. \<not> c ! i) [off..<off + n] = [off..<off + n]"
    by (auto simp: clear_def intro: filter_True)
  moreover have "map ((!) l) [off..<off + n] = take n (drop off l)"
    using \<open>off + n \<le> length l\<close> by (intro nth_equalityI) auto
  ultimately show ?thesis by (simp add: kept_def)
qed

lemma kept_none: "(\<And>i. off \<le> i \<Longrightarrow> i < off + n \<Longrightarrow> c ! i) \<Longrightarrow> kept l c off n = []"
  by (auto simp: kept_def filter_empty_conv)

lemma kept_one:
  assumes "off \<le> p" "p < off + n" "\<And>i. off \<le> i \<Longrightarrow> i < off + n \<Longrightarrow> c ! i = (i \<noteq> p)"
  shows "kept l c off n = [l ! p]"
proof -
  have "n = (p - off) + (1 + (off + n - Suc p))" using assms(1,2) by linarith
  then have "kept l c off n = kept l c off (p - off) @ kept l c p 1 @ kept l c (Suc p) (off + n - Suc p)"
    using kept_add [of l c off "p - off" "1 + (off + n - Suc p)"] kept_add [of l c p 1 "off + n - Suc p"] assms(1)
    by simp
  moreover have "kept l c off (p - off) = []" "kept l c (Suc p) (off + n - Suc p) = []"
    using assms by (auto intro!: kept_none)
  moreover have "kept l c p 1 = [l ! p]" using assms by (simp add: kept_def)
  ultimately show ?thesis by simp
qed

lemma clear_sub: "clear c off n \<Longrightarrow> off \<le> off' \<Longrightarrow> off' + n' \<le> off + n \<Longrightarrow> clear c off' n'"
  by (auto simp: clear_def)

lemma same_outside_sub:
  "same_outside c c' off' n' \<Longrightarrow> off \<le> off' \<Longrightarrow> off' + n' \<le> off + n \<Longrightarrow> same_outside c c' off n"
  by (auto simp: same_outside_def)

lemma same_outside_trans:
  "same_outside c c' off n \<Longrightarrow> same_outside c' c'' off n \<Longrightarrow> same_outside c c'' off n"
  by (auto simp: same_outside_def)

text \<open>What \<open>calc_changes\<close> owes its caller, on slices whose marks are all clear.\<close>

definition ready :: "smartlist_slice \<Rightarrow> bool list \<Rightarrow> bool" where
  "ready s c \<longleftrightarrow> slice_ok s \<and> length c = length (sl_list s) \<and> clear c (sl_offset s) (sl_len s)"

definition changes_ok ::
  "smartlist_slice \<Rightarrow> smartlist_slice \<Rightarrow> bool list \<Rightarrow> bool list \<Rightarrow> bool list \<Rightarrow> bool list \<Rightarrow> bool" where
  "changes_ok s1 s2 c1 c2 d1 d2 \<longleftrightarrow>
     same_outside c1 d1 (sl_offset s1) (sl_len s1) \<and> same_outside c2 d2 (sl_offset s2) (sl_len s2) \<and>
     kept (sl_list s1) d1 (sl_offset s1) (sl_len s1) = kept (sl_list s2) d2 (sl_offset s2) (sl_len s2) \<and>
     length (kept (sl_list s1) d1 (sl_offset s1) (sl_len s1)) = lcs (slice_lines s1) (slice_lines s2)"

lemma changes_okD:
  assumes "changes_ok s1 s2 c1 c2 d1 d2"
  shows "same_outside c1 d1 (sl_offset s1) (sl_len s1)" "same_outside c2 d2 (sl_offset s2) (sl_len s2)"
    and "kept (sl_list s1) d1 (sl_offset s1) (sl_len s1) = kept (sl_list s2) d2 (sl_offset s2) (sl_len s2)"
    and "length (kept (sl_list s1) d1 (sl_offset s1) (sl_len s1)) = lcs (slice_lines s1) (slice_lines s2)"
  using assms unfolding changes_ok_def by blast+

lemma changes_ok_swap: "changes_ok s1 s2 c1 c2 d1 d2 \<Longrightarrow> changes_ok s2 s1 c2 c1 d2 d1"
  unfolding changes_ok_def by (metis lcs_commute)

lemma set_range_spec:
  assumes "i + k \<le> length c"
  shows "length (set_range c i k toskip) = length c"
    and "set_range c i k toskip ! j = (if i \<le> j \<and> j < i + k \<and> toskip \<noteq> Some j then True else c ! j)"
  using assms by (induction c i k toskip rule: set_range.induct) (auto simp: nth_list_update)

lemma string_pos_Some: "string_pos els i s = Some p \<Longrightarrow> \<exists>k < length els. p = i + k \<and> els ! k = s"
proof (induction els i s rule: string_pos.induct)
  case (2 el els i s)
  show ?case
  proof (cases "lines_eq el s")
    case True
    with 2(2) show ?thesis by (intro exI [of _ 0]) (simp add: lines_eq_def)
  next
    case False
    with 2 obtain k where "k < length els" "p = i + 1 + k" "els ! k = s" by auto
    then show ?thesis by (intro exI [of _ "Suc k"]) simp
  qed
qed simp

lemma string_pos_None: "string_pos els i s = None \<Longrightarrow> s \<notin> set els"
  by (induction els i s rule: string_pos.induct) (auto simp: lines_eq_def split: if_splits)

lemma set_changed_ok:
  assumes "ready s1 c1" "ready s2 c2" "sl_len s1 \<le> 1" "set_changed c1 c2 s1 s2 = Done (d1, d2)"
  shows "changes_ok s1 s2 c1 c2 d1 d2"
proof -
  let ?l1 = "sl_list s1" let ?o1 = "sl_offset s1" let ?l2 = "sl_list s2" let ?o2 = "sl_offset s2"
  let ?n2 = "sl_len s2"
  have ok: "slice_ok s1" "slice_ok s2" and len: "length c1 = length ?l1" "length c2 = length ?l2"
    using assms(1,2) by (simp_all add: ready_def)
  have b2: "?o2 + ?n2 \<le> length c2" using ok len by (simp add: slice_ok_def)
  note sr = set_range_spec [OF b2]
  consider "sl_len s1 = 0" | "sl_len s1 = 1" using assms(3) by linarith
  then show ?thesis
  proof cases
    case 1
    then have d: "d1 = c1" "d2 = set_range c2 ?o2 ?n2 None" using assms(4) by (auto simp: set_changed_def Let_def)
    have "kept ?l2 d2 ?o2 ?n2 = []" unfolding d using sr by (intro kept_none) simp
    moreover have "same_outside c2 d2 ?o2 ?n2" unfolding d using sr by (auto simp: same_outside_def)
    moreover have "slice_lines s1 = []" using 1 by (simp add: slice_lines_def)
    ultimately show ?thesis using 1 d by (simp add: changes_ok_def same_outside_def kept_def)
  next
    case 2
    let ?x = "?l1 ! ?o1"
    have o1: "?o1 < length ?l1" using ok(1) 2 by (simp add: slice_ok_def)
    then have sl1: "slice_lines s1 = [?x]" using 2 by (simp add: slice_lines_def take_Suc hd_drop_conv_nth drop_eq_Nil)
    show ?thesis
    proof (cases "smartlist_slice_string_pos s2 ?x")
      case None
      then have d: "d1 = c1[?o1 := True]" "d2 = set_range c2 ?o2 ?n2 None"
        using assms(4) 2 by (auto simp: set_changed_def Let_def)
      have "kept ?l2 d2 ?o2 ?n2 = []" unfolding d using sr by (intro kept_none) simp
      moreover have "kept ?l1 d1 ?o1 1 = []" unfolding d using o1 len by (simp add: kept_def)
      moreover have "same_outside c2 d2 ?o2 ?n2" unfolding d using sr by (auto simp: same_outside_def)
      moreover have "same_outside c1 d1 ?o1 1" unfolding d by (auto simp: same_outside_def nth_list_update)
      moreover have "?x \<notin> set (slice_lines s2)"
        using string_pos_None None unfolding smartlist_slice_string_pos_def by blast
      ultimately show ?thesis using 2 by (simp add: changes_ok_def sl1 lcs_singleton)
    next
      case (Some p)
      then have d: "d1 = c1" "d2 = set_range c2 ?o2 ?n2 (Some p)"
        using assms(4) 2 by (auto simp: set_changed_def Let_def)
      obtain k where k: "k < ?n2" "p = ?o2 + k" "slice_lines s2 ! k = ?x"
        using string_pos_Some [OF Some [unfolded smartlist_slice_string_pos_def]] ok(2) by auto
      then have p: "?o2 \<le> p" "p < ?o2 + ?n2" and px: "?l2 ! p = ?x"
        using ok(2) by (simp_all add: slice_lines_def slice_ok_def)
      have c2p: "\<not> c2 ! p" using assms(2) p by (simp add: ready_def clear_def)
      have "kept ?l2 d2 ?o2 ?n2 = [?l2 ! p]"
        unfolding d using p c2p sr by (intro kept_one) auto
      moreover have "kept ?l1 d1 ?o1 1 = [?x]"
        using assms(1) 2 unfolding d by (simp add: kept_def ready_def clear_def)
      moreover have "same_outside c2 d2 ?o2 ?n2" unfolding d using sr by (auto simp: same_outside_def)
      moreover have "?x \<in> set (slice_lines s2)"
        using k ok(2) nth_mem [of k "slice_lines s2"] by simp
      ultimately show ?thesis using 2 d px by (simp add: changes_ok_def same_outside_def sl1 lcs_singleton)
    qed
  qed
qed

lemma set_changed_defined: "sl_len s1 \<le> 1 \<Longrightarrow> \<exists>d1 d2. set_changed c1 c2 s1 s2 = Done (d1, d2)"
  by (auto simp: set_changed_def Let_def le_Suc_eq)

section \<open>Trimming\<close>

text \<open>\<open>t1\<close> and \<open>t2\<close> are \<open>s1\<close> and \<open>s2\<close> without a common beginning and end.\<close>

definition trimmed ::
  "smartlist_slice \<Rightarrow> smartlist_slice \<Rightarrow> smartlist_slice \<Rightarrow> smartlist_slice \<Rightarrow> bool" where
  "trimmed s1 s2 t1 t2 \<longleftrightarrow>
     (\<exists>P Q. slice_lines s1 = P @ slice_lines t1 @ Q \<and> slice_lines s2 = P @ slice_lines t2 @ Q \<and>
        sl_list t1 = sl_list s1 \<and> sl_list t2 = sl_list s2 \<and>
        sl_offset t1 = sl_offset s1 + length P \<and> sl_offset t2 = sl_offset s2 + length P \<and>
        sl_len s1 = length P + sl_len t1 + length Q \<and> sl_len s2 = length P + sl_len t2 + length Q)"

lemma trimmed_refl: "trimmed s s' s s'"
  unfolding trimmed_def by (intro exI [of _ "[]"]) simp

lemma trimmed_trans:
  assumes "trimmed s1 s2 t1 t2" "trimmed t1 t2 u1 u2"
  shows "trimmed s1 s2 u1 u2"
proof -
  from assms obtain P Q P' Q' where
    "slice_lines s1 = P @ slice_lines t1 @ Q" "slice_lines s2 = P @ slice_lines t2 @ Q"
    "slice_lines t1 = P' @ slice_lines u1 @ Q'" "slice_lines t2 = P' @ slice_lines u2 @ Q'"
    "sl_list t1 = sl_list s1" "sl_list t2 = sl_list s2" "sl_list u1 = sl_list t1" "sl_list u2 = sl_list t2"
    "sl_offset t1 = sl_offset s1 + length P" "sl_offset t2 = sl_offset s2 + length P"
    "sl_offset u1 = sl_offset t1 + length P'" "sl_offset u2 = sl_offset t2 + length P'"
    "sl_len s1 = length P + sl_len t1 + length Q" "sl_len s2 = length P + sl_len t2 + length Q"
    "sl_len t1 = length P' + sl_len u1 + length Q'" "sl_len t2 = length P' + sl_len u2 + length Q'"
    unfolding trimmed_def by blast
  then show ?thesis unfolding trimmed_def by (intro exI [of _ "P @ P'"] exI [of _ "Q' @ Q"]) simp
qed

lemma slice_front:
  assumes "slice_ok s" "0 < sl_len s"
  shows "slice_lines s = sl_list s ! sl_offset s #
           slice_lines (s\<lparr>sl_offset := sl_offset s + 1, sl_len := sl_len s - 1\<rparr>)"
    and "slice_lines s = slice_lines (s\<lparr>sl_len := sl_len s - 1\<rparr>) @
           [sl_list s ! (sl_offset s + sl_len s - 1)]"
proof -
  obtain n where n: "sl_len s = Suc n" using assms(2) by (cases "sl_len s") auto
  then have lt: "sl_offset s + n < length (sl_list s)" using assms(1) by (simp add: slice_ok_def)
  then have "drop (sl_offset s) (sl_list s) = sl_list s ! sl_offset s # drop (Suc (sl_offset s)) (sl_list s)"
    by (simp add: Cons_nth_drop_Suc)
  then show "slice_lines s = sl_list s ! sl_offset s #
           slice_lines (s\<lparr>sl_offset := sl_offset s + 1, sl_len := sl_len s - 1\<rparr>)"
    using n by (simp add: slice_lines_def)
  show "slice_lines s = slice_lines (s\<lparr>sl_len := sl_len s - 1\<rparr>) @
           [sl_list s ! (sl_offset s + sl_len s - 1)]"
    using lt n by (simp add: slice_lines_def take_Suc_conv_app_nth)
qed

lemma trim_front_trimmed:
  "slice_ok s1 \<Longrightarrow> slice_ok s2 \<Longrightarrow> trim_front s1 s2 k = (t1, t2) \<Longrightarrow> trimmed s1 s2 t1 t2"
proof (induction s1 s2 k rule: trim_front.induct)
  case (2 s1 s2 k)
  show ?case
  proof (cases "sl_len s1 > 0 \<and> sl_len s2 > 0 \<and>
      lines_eq (sl_list s1 ! sl_offset s1) (sl_list s2 ! sl_offset s2)")
    case True
    let ?u1 = "s1\<lparr>sl_offset := sl_offset s1 + 1, sl_len := sl_len s1 - 1\<rparr>"
    let ?u2 = "s2\<lparr>sl_offset := sl_offset s2 + 1, sl_len := sl_len s2 - 1\<rparr>"
    have "trimmed s1 s2 ?u1 ?u2"
      using True slice_front(1) [OF "2.prems"(1)] slice_front(1) [OF "2.prems"(2)]
      unfolding trimmed_def lines_eq_def
      by (intro exI [of _ "[sl_list s1 ! sl_offset s1]"] exI [of _ "[]"]) auto
    moreover have "slice_ok ?u1" "slice_ok ?u2" using "2.prems"(1,2) True by (auto simp: slice_ok_def)
    then have "trimmed ?u1 ?u2 t1 t2" using 2 True by simp
    ultimately show ?thesis by (rule trimmed_trans)
  next
    case False
    with "2.prems"(3) show ?thesis by (auto simp: trimmed_refl split: if_splits)
  qed
qed (simp add: trimmed_refl)

lemma trim_back_trimmed:
  "slice_ok s1 \<Longrightarrow> slice_ok s2 \<Longrightarrow> trim_back s1 s2 k = (t1, t2) \<Longrightarrow> trimmed s1 s2 t1 t2"
proof (induction s1 s2 k rule: trim_back.induct)
  case (2 s1 s2 k)
  show ?case
  proof (cases "sl_len s1 > 0 \<and> sl_len s2 > 0 \<and>
      lines_eq (sl_list s1 ! (sl_offset s1 + sl_len s1 - 1)) (sl_list s2 ! (sl_offset s2 + sl_len s2 - 1))")
    case True
    let ?u1 = "s1\<lparr>sl_len := sl_len s1 - 1\<rparr>" let ?u2 = "s2\<lparr>sl_len := sl_len s2 - 1\<rparr>"
    have "trimmed s1 s2 ?u1 ?u2"
      using True slice_front(2) [OF "2.prems"(1)] slice_front(2) [OF "2.prems"(2)]
      unfolding trimmed_def lines_eq_def
      by (intro exI [of _ "[]"] exI [of _ "[sl_list s1 ! (sl_offset s1 + sl_len s1 - 1)]"]) auto
    moreover have "slice_ok ?u1" "slice_ok ?u2" using "2.prems"(1,2) True by (auto simp: slice_ok_def)
    then have "trimmed ?u1 ?u2 t1 t2" using 2 True by simp
    ultimately show ?thesis by (rule trimmed_trans)
  next
    case False
    with "2.prems"(3) show ?thesis by (auto simp: trimmed_refl split: if_splits)
  qed
qed (simp add: trimmed_refl)

lemma trimmed_slice_ok:
  assumes "trimmed s1 s2 t1 t2" "slice_ok s1" "slice_ok s2"
  shows "slice_ok t1" "slice_ok t2"
  using assms by (auto simp: trimmed_def slice_ok_def)

lemma trim_slices_trimmed:
  assumes "slice_ok s1" "slice_ok s2" "trim_slices s1 s2 = (t1, t2)"
  shows "trimmed s1 s2 t1 t2"
proof -
  obtain u1 u2 where f: "trim_front s1 s2 (sl_len s1) = (u1, u2)" by (cases "trim_front s1 s2 (sl_len s1)")
  with assms(3) have b: "trim_back u1 u2 (sl_len u1) = (t1, t2)" by (simp add: trim_slices_def)
  have tr: "trimmed s1 s2 u1 u2" by (rule trim_front_trimmed) (fact assms f)+
  with trimmed_slice_ok [OF tr assms(1,2)] b show ?thesis
    by (blast intro: trimmed_trans trim_back_trimmed)
qed

lemma slice_parts:
  assumes "slice_ok s" "slice_lines s = P @ X @ Q" "sl_len s = length P + n + length Q" "length X = n"
  shows "take (length P) (drop (sl_offset s) (sl_list s)) = P"
    and "take (length Q) (drop (sl_offset s + length P + n) (sl_list s)) = Q"
proof -
  let ?d = "drop (sl_offset s) (sl_list s)"
  have t: "take (length P + n + length Q) ?d = P @ X @ Q" using assms(2,3) by (simp add: slice_lines_def)
  have "take (length P) (take (length P + n + length Q) ?d) = P" unfolding t by simp
  then show "take (length P) ?d = P" by simp
  have "drop (length P + n) (take (length P + n + length Q) ?d) = Q" unfolding t using assms(4) by simp
  then show "take (length Q) (drop (sl_offset s + length P + n) (sl_list s)) = Q"
    by (simp add: drop_take add.assoc add.commute [of _ "sl_offset s"])
qed

lemma kept_trimmed:
  assumes "ready s c" "slice_lines s = P @ slice_lines t @ Q" "sl_list t = sl_list s"
    "sl_offset t = sl_offset s + length P" "sl_len s = length P + sl_len t + length Q"
    "same_outside c d (sl_offset t) (sl_len t)" "slice_ok t"
  shows "kept (sl_list s) d (sl_offset s) (sl_len s) =
           P @ kept (sl_list t) d (sl_offset t) (sl_len t) @ Q"
proof -
  let ?o = "sl_offset s" let ?p = "length P" let ?n = "sl_len t" let ?q = "length Q"
  have ok: "?o + (?p + ?n + ?q) \<le> length (sl_list s)" and clr: "clear c ?o (?p + ?n + ?q)"
    using assms(1,5) by (simp_all add: ready_def slice_ok_def)
  note parts = slice_parts [OF _ assms(2,5)]
  have P: "kept (sl_list s) d ?o ?p = P"
  proof -
    have "kept (sl_list s) d ?o ?p = kept (sl_list s) c ?o ?p"
      using assms(4,6) by (intro kept_cong) (auto simp: same_outside_def)
    also have "\<dots> = take ?p (drop ?o (sl_list s))"
      using ok clear_sub [OF clr, of ?o ?p] by (intro kept_clear) auto
    finally show ?thesis using parts(1) assms(1,7) by (simp add: ready_def)
  qed
  have Q: "kept (sl_list s) d (?o + ?p + ?n) ?q = Q"
  proof -
    have "kept (sl_list s) d (?o + ?p + ?n) ?q = kept (sl_list s) c (?o + ?p + ?n) ?q"
      using assms(4,6) by (intro kept_cong) (auto simp: same_outside_def)
    also have "\<dots> = take ?q (drop (?o + ?p + ?n) (sl_list s))"
      using ok clear_sub [OF clr, of "?o + ?p + ?n" ?q] by (intro kept_clear) auto
    finally show ?thesis using parts(2) assms(1,7) by (simp add: ready_def)
  qed
  show ?thesis
    using kept_add [of "sl_list s" d ?o "?p + ?n" ?q] kept_add [of "sl_list s" d ?o ?p ?n] P Q assms(3,4,5)
    by (simp add: add.assoc)
qed

lemma changes_ok_trimmed:
  assumes "trimmed s1 s2 t1 t2" "ready s1 c1" "ready s2 c2" "changes_ok t1 t2 c1 c2 d1 d2"
  shows "changes_ok s1 s2 c1 c2 d1 d2"
proof -
  from assms(1) obtain P Q where
    l: "slice_lines s1 = P @ slice_lines t1 @ Q" "slice_lines s2 = P @ slice_lines t2 @ Q" and
    e: "sl_list t1 = sl_list s1" "sl_list t2 = sl_list s2" and
    o: "sl_offset t1 = sl_offset s1 + length P" "sl_offset t2 = sl_offset s2 + length P" and
    n: "sl_len s1 = length P + sl_len t1 + length Q" "sl_len s2 = length P + sl_len t2 + length Q"
    unfolding trimmed_def by blast
  have ok: "slice_ok t1" "slice_ok t2"
    using trimmed_slice_ok [OF assms(1)] assms(2,3) by (simp_all add: ready_def)
  have so: "same_outside c1 d1 (sl_offset t1) (sl_len t1)" "same_outside c2 d2 (sl_offset t2) (sl_len t2)"
    using assms(4) by (simp_all add: changes_ok_def)
  note k1 = kept_trimmed [OF assms(2) l(1) e(1) o(1) n(1) so(1) ok(1)]
  note k2 = kept_trimmed [OF assms(3) l(2) e(2) o(2) n(2) so(2) ok(2)]
  have "same_outside c1 d1 (sl_offset s1) (sl_len s1)" "same_outside c2 d2 (sl_offset s2) (sl_len s2)"
    using so o n by (auto elim!: same_outside_sub)
  moreover have "lcs (slice_lines s1) (slice_lines s2) =
      length P + lcs (slice_lines t1) (slice_lines t2) + length Q"
    unfolding l by (simp add: lcs_prefix lcs_suffix)
  ultimately show ?thesis
    using assms(4) e unfolding changes_ok_def k1 k2 by (simp, metis)
qed

section \<open>The changes are correct and minimal\<close>

text \<open>The slices that are cut are within their bounds, and no assertion fails.\<close>

definition sub_slice :: "smartlist_slice \<Rightarrow> nat \<Rightarrow> nat \<Rightarrow> smartlist_slice" where
  "sub_slice s start end = \<lparr>sl_list = sl_list s, sl_offset = start, sl_len = end - start\<rparr>"

lemma slice_cut:
  assumes "slice_ok s" "k \<le> sl_len s"
  shows "smartlist_slice_new (sl_list s) (sl_offset s) (int (sl_offset s + k)) = Done (sub_slice s (sl_offset s) (sl_offset s + k))"
    and "smartlist_slice_new (sl_list s) (sl_offset s + k) (int (sl_offset s + sl_len s)) =
      Done (sub_slice s (sl_offset s + k) (sl_offset s + sl_len s))"
  using assms by (simp_all add: smartlist_slice_new_nat sub_slice_def slice_ok_def del: of_nat_add)

lemma sub_slice_fields [simp]:
  "sl_list (sub_slice s a b) = sl_list s" "sl_offset (sub_slice s a b) = a" "sl_len (sub_slice s a b) = b - a"
  by (simp_all add: sub_slice_def)

lemma sub_slice_lines:
  assumes "slice_ok s" "k \<le> sl_len s"
  shows "slice_lines (sub_slice s (sl_offset s) (sl_offset s + k)) = take k (slice_lines s)"
    and "slice_lines (sub_slice s (sl_offset s + k) (sl_offset s + sl_len s)) = drop k (slice_lines s)"
  using assms by (simp_all add: slice_lines_def slice_ok_def drop_take add.commute)

lemma ready_sub:
  assumes "ready s c" "sl_offset s \<le> a" "a \<le> b" "b \<le> sl_offset s + sl_len s"
  shows "ready (sub_slice s a b) c"
  using assms by (auto simp: ready_def slice_ok_def clear_def)

lemma ready_same_outside:
  assumes "ready s c" "same_outside c d off n" "off + n \<le> sl_offset s \<or> sl_offset s + sl_len s \<le> off"
  shows "ready s d"
  using assms by (auto simp: ready_def clear_def same_outside_def)

lemma changes_ok_split:
  fixes s1 s2 :: smartlist_slice
  assumes "slice_ok s1" "slice_ok s2" "m \<le> sl_len s1" "k \<le> sl_len s2"
  defines "tp \<equiv> sub_slice s1 (sl_offset s1) (sl_offset s1 + m)"
    and "bt \<equiv> sub_slice s1 (sl_offset s1 + m) (sl_offset s1 + sl_len s1)"
    and "lf \<equiv> sub_slice s2 (sl_offset s2) (sl_offset s2 + k)"
    and "rt \<equiv> sub_slice s2 (sl_offset s2 + k) (sl_offset s2 + sl_len s2)"
  assumes "lcs (slice_lines s1) (slice_lines s2) =
      lcs (slice_lines tp) (slice_lines lf) + lcs (slice_lines bt) (slice_lines rt)"
    and "changes_ok tp lf c1 c2 d1 d2" "changes_ok bt rt d1 d2 e1 e2"
  shows "changes_ok s1 s2 c1 c2 e1 e2"
proof -
  have so: "same_outside c1 d1 (sl_offset s1) m" "same_outside c2 d2 (sl_offset s2) k"
    "same_outside d1 e1 (sl_offset s1 + m) (sl_len s1 - m)"
    "same_outside d2 e2 (sl_offset s2 + k) (sl_len s2 - k)"
    using changes_okD(1,2) [OF assms(10)] changes_okD(1,2) [OF assms(11)]
    by (simp_all add: tp_def bt_def lf_def rt_def)
  have k1: "kept (sl_list s1) e1 (sl_offset s1) (sl_len s1) =
      kept (sl_list s1) d1 (sl_offset s1) m @ kept (sl_list s1) e1 (sl_offset s1 + m) (sl_len s1 - m)"
    using kept_add [of "sl_list s1" e1 "sl_offset s1" m "sl_len s1 - m"] assms(3) so(3)
      kept_cong [of "sl_offset s1" m e1 d1 "sl_list s1"] by (simp add: same_outside_def)
  have k2: "kept (sl_list s2) e2 (sl_offset s2) (sl_len s2) =
      kept (sl_list s2) d2 (sl_offset s2) k @ kept (sl_list s2) e2 (sl_offset s2 + k) (sl_len s2 - k)"
    using kept_add [of "sl_list s2" e2 "sl_offset s2" k "sl_len s2 - k"] assms(4) so(4)
      kept_cong [of "sl_offset s2" k e2 d2 "sl_list s2"] by (simp add: same_outside_def)
  have "same_outside c1 e1 (sl_offset s1) (sl_len s1)"
    using so(1,3) assms(3) by (auto simp: same_outside_def)
  moreover have "same_outside c2 e2 (sl_offset s2) (sl_len s2)"
    using so(2,4) assms(4) by (auto simp: same_outside_def)
  moreover have "kept (sl_list s1) d1 (sl_offset s1) m = kept (sl_list s2) d2 (sl_offset s2) k"
    "kept (sl_list s1) e1 (sl_offset s1 + m) (sl_len s1 - m) =
       kept (sl_list s2) e2 (sl_offset s2 + k) (sl_len s2 - k)"
    "length (kept (sl_list s1) d1 (sl_offset s1) m) = lcs (slice_lines tp) (slice_lines lf)"
    "length (kept (sl_list s1) e1 (sl_offset s1 + m) (sl_len s1 - m)) = lcs (slice_lines bt) (slice_lines rt)"
    using changes_okD(3) [OF assms(10)] changes_okD(3) [OF assms(11)]
      changes_okD(4) [OF assms(10)] changes_okD(4) [OF assms(11)]
    by (simp_all add: tp_def bt_def lf_def rt_def del: length_slice_lines)
  ultimately show ?thesis
    using assms(9) unfolding changes_ok_def k1 k2 by simp
qed

lemma calc_changes_correct:
  "ready s1 c1 \<Longrightarrow> ready s2 c2 \<Longrightarrow>
     \<exists>d1 d2. calc_changes s1 s2 c1 c2 = Done (d1, d2) \<and> changes_ok s1 s2 c1 c2 d1 d2"
proof (induction s1 s2 c1 c2 rule: calc_changes.induct)
  case (1 s1 s2 c1 c2)
  obtain t1 t2 where t: "trim_slices s1 s2 = (t1, t2)" by (cases "trim_slices s1 s2")
  have ok: "slice_ok s1" "slice_ok s2" using "1.prems" by (simp_all add: ready_def)
  have tr: "trimmed s1 s2 t1 t2" by (rule trim_slices_trimmed [OF ok t])
  have rt: "ready t1 c1" "ready t2 c2"
    using "1.prems" tr trimmed_slice_ok [OF tr ok] by (auto simp: trimmed_def ready_def clear_def)
  have okt: "slice_ok t1" "slice_ok t2" using rt by (simp_all add: ready_def)
  have "\<exists>d1 d2. calc_changes s1 s2 c1 c2 = Done (d1, d2) \<and> changes_ok t1 t2 c1 c2 d1 d2"
  proof (cases "sl_len t1 \<le> 1 \<or> sl_len t2 \<le> 1")
    case True
    show ?thesis
    proof (cases "sl_len t1 \<le> 1")
      case one: True
      obtain d1 d2 where "set_changed c1 c2 t1 t2 = Done (d1, d2)" using set_changed_defined [OF one] by blast
      then show ?thesis using set_changed_ok [OF rt one] t one by simp
    next
      case False
      then have one: "sl_len t2 \<le> 1" using True by simp
      obtain d2 d1 where "set_changed c2 c1 t2 t1 = Done (d2, d1)" using set_changed_defined [OF one] by blast
      then show ?thesis using set_changed_ok [OF rt(2,1) one] t one False by (auto intro: changes_ok_swap)
    qed
  next
    case False
    define m where "m = sl_len t1 div 2"
    define tp where "tp = sub_slice t1 (sl_offset t1) (sl_offset t1 + m)"
    define bt where "bt = sub_slice t1 (sl_offset t1 + m) (sl_offset t1 + sl_len t1)"
    have m: "m \<le> sl_len t1" by (simp add: m_def)
    note cut1 = slice_cut [OF okt(1) m, folded tp_def bt_def]
    have lines1: "slice_lines tp @ slice_lines bt = slice_lines t1"
      unfolding tp_def bt_def using sub_slice_lines [OF okt(1) m] by simp
    from optimal_column [OF okt(2), of tp bt] obtain k where k: "k \<le> sl_len t2"
      "optimal_column_to_split tp bt t2 = Done k"
      "lcs (slice_lines t1) (slice_lines t2) =
         lcs (slice_lines tp) (take k (slice_lines t2)) + lcs (slice_lines bt) (drop k (slice_lines t2))"
      unfolding lines1 by blast
    define lf where "lf = sub_slice t2 (sl_offset t2) (sl_offset t2 + k)"
    define rg where "rg = sub_slice t2 (sl_offset t2 + k) (sl_offset t2 + sl_len t2)"
    note cut2 = slice_cut [OF okt(2) k(1), folded lf_def rg_def]
    have lc: "lcs (slice_lines t1) (slice_lines t2) =
        lcs (slice_lines tp) (slice_lines lf) + lcs (slice_lines bt) (slice_lines rg)"
      using k(3) sub_slice_lines [OF okt(2) k(1)] by (simp add: lf_def rg_def)
    have r1: "ready tp c1" "ready lf c2" "ready bt c1" "ready rg c2"
      using rt m k(1) by (auto simp: tp_def bt_def lf_def rg_def intro!: ready_sub)
    obtain d1 d2 where d: "calc_changes tp lf c1 c2 = Done (d1, d2)" "changes_ok tp lf c1 c2 d1 d2"
      using "1.IH"(1) [OF t [symmetric] _ _ m_def cut1 k(2) cut2 r1(1,2)] False by auto
    have r2: "ready bt d1" "ready rg d2"
      using r1(3,4) d(2) by (auto simp: changes_ok_def tp_def bt_def lf_def rg_def elim: ready_same_outside)
    obtain e1 e2 where e: "calc_changes bt rg d1 d2 = Done (e1, e2)" "changes_ok bt rg d1 d2 e1 e2"
      using "1.IH"(2) [OF t [symmetric] _ _ m_def cut1 k(2) cut2 d(1) refl r2] False by auto
    have "calc_changes s1 s2 c1 c2 = Done (e1, e2)"
      using False t k(2) d(1) e(1) cut1 cut2 by (simp add: m_def [symmetric] Let_def del: of_nat_add)
    moreover have "changes_ok t1 t2 c1 c2 e1 e2"
      using changes_ok_split [OF okt m k(1)] lc d(2) e(2) by (simp add: tp_def bt_def lf_def rg_def)
    ultimately show ?thesis by blast
  qed
  then show ?case using changes_ok_trimmed [OF tr "1.prems"] by blast
qed

declare calc_changes.simps [simp del]

section \<open>The property\<close>

text \<open>
  C28. On two whole documents with no line marked yet, \<open>calc_changes\<close> returns marks under
  which the same lines are kept on both sides, and no common subsequence of the documents is
  longer than what is kept: the difference is minimal.
\<close>

theorem calc_changes_minimal:
  assumes "subseq zs cons1" "subseq zs cons2"
  shows "\<exists>d1 d2. calc_changes \<lparr>sl_list = cons1, sl_offset = 0, sl_len = length cons1\<rparr>
             \<lparr>sl_list = cons2, sl_offset = 0, sl_len = length cons2\<rparr>
             (replicate (length cons1) False) (replicate (length cons2) False) = Done (d1, d2) \<and>
           kept cons1 d1 0 (length cons1) = kept cons2 d2 0 (length cons2) \<and>
           length zs \<le> length (kept cons1 d1 0 (length cons1))"
proof -
  let ?s1 = "\<lparr>sl_list = cons1, sl_offset = 0, sl_len = length cons1\<rparr>"
  let ?s2 = "\<lparr>sl_list = cons2, sl_offset = 0, sl_len = length cons2\<rparr>"
  have "ready ?s1 (replicate (length cons1) False)" "ready ?s2 (replicate (length cons2) False)"
    by (simp_all add: ready_def slice_ok_def clear_def)
  from calc_changes_correct [OF this] obtain d1 d2 where
    d: "calc_changes ?s1 ?s2 (replicate (length cons1) False) (replicate (length cons2) False) = Done (d1, d2)"
    and ok: "changes_ok ?s1 ?s2 (replicate (length cons1) False) (replicate (length cons2) False) d1 d2"
    by blast
  note k = changes_okD(3,4) [OF ok]
  have "slice_lines ?s1 = cons1" "slice_lines ?s2 = cons2" by (simp_all add: slice_lines_def)
  with d k lcs_upper [OF assms] show ?thesis by (intro exI [of _ d1] exI [of _ d2]) simp
qed

lemma calc_changes_minimal_witness:
  "\<exists>d1 d2. calc_changes \<lparr>sl_list = [''a'', ''b'', ''c''], sl_offset = 0, sl_len = 3\<rparr>
        \<lparr>sl_list = [''a'', ''c'', ''d''], sl_offset = 0, sl_len = 3\<rparr>
        [False, False, False] [False, False, False] = Done (d1, d2) \<and>
      kept [''a'', ''b'', ''c''] d1 0 3 = kept [''a'', ''c'', ''d''] d2 0 3 \<and>
      2 \<le> length (kept [''a'', ''b'', ''c''] d1 0 3)"
  using calc_changes_minimal [of "[''a'', ''c'']" "[''a'', ''b'', ''c'']" "[''a'', ''c'', ''d'']"]
  by (simp add: numeral_3_eq_3 numeral_2_eq_2)

end
