(* ===== verification/Binascii.thy ===== *)
theory Binascii
  imports CStrings
begin

text \<open>
  The binary-to-text encodings of \<open>src/lib/encoding/binascii.c\<close>: base 16 and base 64,
  encoders and decoders with their size checks, assertions and tables. The output buffer of
  a call is the string (or the bytes) it writes; the length arguments are kept, since the
  code's error returns depend on them. The main results are the round trips.
\<close>

definition SIZE_T_CEILING :: nat where "SIZE_T_CEILING = 9223372036854775791"

definition CEIL_DIV :: "nat \<Rightarrow> nat \<Rightarrow> nat" where "CEIL_DIV a b = (a + (b - 1)) div b"
definition BASE64_LEN :: "nat \<Rightarrow> nat" where "BASE64_LEN n = CEIL_DIV n 3 * 4"
definition BASE16_BUFSIZE :: "nat \<Rightarrow> nat" where "BASE16_BUFSIZE n = n * 2 + 1"

section \<open>Base 16\<close>

definition HEX_CHARS :: string where "HEX_CHARS = ''0123456789ABCDEF''"

fun base16_loop :: "byte list \<Rightarrow> string" where
  "base16_loop [] = []"
| "base16_loop (b # bs) =
     HEX_CHARS ! unat (drop_bit 4 b) # HEX_CHARS ! unat (b AND 0xf) # base16_loop bs"

definition base16_encode :: "nat \<Rightarrow> byte list \<Rightarrow> string outcome" where
  "base16_encode destlen src =
     (if \<not> length src < SIZE_T_CEILING div 2 - 1 then Stuck
      else if \<not> destlen \<ge> BASE16_BUFSIZE (length src) then Stuck
      else if \<not> destlen < SIZE_T_CEILING then Stuck
      else Done (base16_loop src))"

fun base16_decode_loop :: "string \<Rightarrow> byte list outcome" where
  "base16_decode_loop [] = Done []"
| "base16_decode_loop [c] = Stuck"
| "base16_decode_loop (c1 # c2 # cs) =
     (let v1 = hex_decode_digit c1; v2 = hex_decode_digit c2
      in if v1 < 0 \<or> v2 < 0 then Fail
         else obind (base16_decode_loop cs)
                (\<lambda>bs. Done ((push_bit 4 (word_of_int v1) OR word_of_int v2) # bs)))"

definition base16_decode :: "nat \<Rightarrow> string \<Rightarrow> byte list outcome" where
  "base16_decode destlen src =
     (if length src mod 2 \<noteq> 0 then Fail
      else if destlen < length src div 2 \<or> destlen > INT_MAX then Fail
      else base16_decode_loop src)"

definition hex_str :: "byte list \<Rightarrow> string outcome" where
  "hex_str from =
     base16_encode 65 (take (if length from > (65 - 1) div 2 then (65 - 1) div 2 else length from) from)"

lemma length_base16_loop [len_simps]: "length (base16_loop bs) = 2 * length bs"
  by (induction bs) auto

lemma HEX_CHARS_upt: "HEX_CHARS = map char_of ([48..<58] @ [65..<(71::nat)])"
proof -
  have "map of_char HEX_CHARS = [48..<58] @ [65..<(71::nat)]" by (simp add: HEX_CHARS_def)
  then show ?thesis by (metis (no_types) map_idI map_map o_apply char_of_char)
qed

lemma hex_decode_digit_HEX:
  assumes "k < 16"
  shows "hex_decode_digit (HEX_CHARS ! k) = int k"
proof -
  have "HEX_CHARS ! k = char_of (if k < 10 then 48 + k else 55 + k)"
    using assms by (simp add: HEX_CHARS_upt nth_append del: upt_rec_numeral)
  with assms show ?thesis by (simp add: hex_decode_digit_def Let_def)
qed

lemma nibbles:
  fixes b :: byte
  shows "unat (drop_bit 4 b) < 16" "unat (b AND 0xf) < 16"
    "push_bit 4 (word_of_int (int (unat (drop_bit 4 b)))) OR word_of_int (int (unat (b AND 0xf))) = b"
proof -
  have b: "unat b < 256" using unsigned_less [of b] by simp
  then have "unat (drop_bit 4 b) = unat b div 16"
    by (simp only: unsigned_drop_bit_eq) (simp add: drop_bit_eq_div take_bit_eq_mod)
  moreover note b
  ultimately show "unat (drop_bit 4 b) < 16" by linarith
  have m: "b AND 0xf = take_bit 4 b" by (simp add: take_bit_eq_mask mask_eq_exp_minus_1)
  show "unat (b AND 0xf) < 16" unfolding m by (simp only: unsigned_take_bit_eq) (simp add: take_bit_eq_mod)
  show "push_bit 4 (word_of_int (int (unat (drop_bit 4 b)))) OR word_of_int (int (unat (b AND 0xf))) = b"
    unfolding m
    by (rule bit_eqI) (auto simp: bit_simps)
qed

lemma base16_decode_encode_loop: "base16_decode_loop (base16_loop bs) = Done bs"
proof (induction bs)
  case (Cons b bs)
  then show ?case
    using nibbles [of b] by (simp add: hex_decode_digit_HEX Let_def)
qed simp

lemma base16_decode_loop_length: "base16_decode_loop s = Done bs \<Longrightarrow> length s = 2 * length bs"
  by (induction s arbitrary: bs rule: base16_decode_loop.induct)
     (auto simp: Let_def outcome_elims split: if_splits)

lemma base16_decode_never_stuck: "base16_decode destlen s \<noteq> Stuck"
proof -
  have "even (length t) \<Longrightarrow> base16_decode_loop t \<noteq> Stuck" for t
    by (induction t rule: base16_decode_loop.induct) (auto simp: Let_def outcome_elims)
  then show ?thesis by (simp add: base16_decode_def even_iff_mod_2_eq_zero)
qed

section \<open>Base 64\<close>

definition base64_encode_table :: string where
  "base64_encode_table = ''ABCDEFGHIJKLMNOPQRSTUVWXYZabcdefghijklmnopqrstuvwxyz0123456789+/''"

text \<open>255 marks a character that is not base 64, 64 white space and 65 padding.\<close>

definition base64_decode_table :: "nat list" where
  "base64_decode_table =
    [255, 255, 255, 255, 255, 255, 255, 255, 255, 64, 64, 64, 255, 64, 255, 255] @
    replicate 16 255 @
    [64, 255, 255, 255, 255, 255, 255, 255, 255, 255, 255, 62, 255, 255, 255, 63,
     52, 53, 54, 55, 56, 57, 58, 59, 60, 61, 255, 255, 255, 65, 255, 255,
     255, 0, 1, 2, 3, 4, 5, 6, 7, 8, 9, 10, 11, 12, 13, 14,
     15, 16, 17, 18, 19, 20, 21, 22, 23, 24, 25, 255, 255, 255, 255, 255,
     255, 26, 27, 28, 29, 30, 31, 32, 33, 34, 35, 36, 37, 38, 39, 40,
     41, 42, 43, 44, 45, 46, 47, 48, 49, 50, 51, 255, 255, 255, 255, 255] @
    replicate 128 255"

definition base64_encode_size :: "nat \<Rightarrow> bool \<Rightarrow> nat outcome" where
  "base64_encode_size srclen multiline =
     (if \<not> srclen < INT_MAX then Stuck
      else if \<not> CEIL_DIV srclen 3 < INT_MAX div 4 then Stuck
      else let enclen0 = BASE64_LEN srclen;
               enclen = (if multiline then enclen0 + CEIL_DIV enclen0 64 else enclen0)
           in if \<not> (enclen < INT_MAX \<and> (enclen = 0 \<or> enclen > srclen)) then Stuck
              else Done enclen)"

definition base64_decode_maxsize :: "nat \<Rightarrow> nat outcome" where
  "base64_decode_maxsize srclen =
     (if \<not> srclen < INT_MAX div 3 then Stuck else Done (CEIL_DIV (srclen * 3) 4))"

text \<open>\<open>ENCODE_CHAR\<close>, on the output so far and the length of the current line.\<close>

definition encode_char :: "bool \<Rightarrow> char \<Rightarrow> string \<times> nat \<Rightarrow> string \<times> nat" where
  "encode_char multiline ch d =
     (case d of (out, linelen) \<Rightarrow>
        if multiline
        then (if (linelen + 1) mod 64 = 0 then (out @ [ch, NL], 0) else (out @ [ch], linelen + 1))
        else (out @ [ch], linelen))"

definition encode_n :: "bool \<Rightarrow> u32 \<Rightarrow> nat \<Rightarrow> string \<times> nat \<Rightarrow> string \<times> nat" where
  "encode_n multiline n idx =
     encode_char multiline (base64_encode_table ! unat (drop_bit ((3 - idx) * 6) n AND 0x3f))"

fun base64_encode_loop ::
  "bool \<Rightarrow> byte list \<Rightarrow> u32 \<Rightarrow> nat \<Rightarrow> string \<times> nat \<Rightarrow> u32 \<times> nat \<times> string \<times> nat" where
  "base64_encode_loop ml [] n n_idx d = (n, n_idx, d)"
| "base64_encode_loop ml (b # bs) n n_idx d =
     (let n' = push_bit 8 n OR ucast b
      in if n_idx + 1 = 3
         then base64_encode_loop ml bs 0 0
                (encode_n ml n' 3 (encode_n ml n' 2 (encode_n ml n' 1 (encode_n ml n' 0 d))))
         else base64_encode_loop ml bs n' (n_idx + 1) d)"

definition base64_encode_tail :: "bool \<Rightarrow> u32 \<Rightarrow> nat \<Rightarrow> string \<times> nat \<Rightarrow> (string \<times> nat) outcome" where
  "base64_encode_tail ml n n_idx d =
     (if n_idx = 0 then Done d
      else if n_idx = 1
      then let n' = push_bit 4 n
           in Done (encode_char ml (CHR ''='') (encode_char ml (CHR ''='')
                     (encode_n ml n' 3 (encode_n ml n' 2 d))))
      else if n_idx = 2
      then let n' = push_bit 2 n
           in Done (encode_char ml (CHR ''='')
                     (encode_n ml n' 3 (encode_n ml n' 2 (encode_n ml n' 1 d))))
      else Fail)"

definition base64_encode :: "nat \<Rightarrow> byte list \<Rightarrow> bool \<Rightarrow> string outcome" where
  "base64_encode destlen src multiline =
     obind (base64_encode_size (length src) multiline) (\<lambda>enclen.
       if destlen < enclen + 1 then Fail
       else if destlen > SIZE_T_CEILING then Fail
       else if enclen > INT_MAX then Fail
       else (case base64_encode_loop multiline src 0 0 ([], 0) of (n, n_idx, d) \<Rightarrow>
               obind (base64_encode_tail multiline n n_idx d) (\<lambda>(out, linelen).
                 let out' = (if multiline \<and> linelen \<noteq> 0 then out @ [NL] else out)
                 in if length out' \<noteq> enclen then Stuck else Done out')))"

definition base64_encode_nopad :: "nat \<Rightarrow> byte list \<Rightarrow> string outcome" where
  "base64_encode_nopad destlen src =
     obind (base64_encode destlen src False)
       (\<lambda>s. Done (filter (\<lambda>c. \<not> (c = CHR ''='' \<or> c = NL)) s))"

text \<open>The decoder: bits accumulate in \<open>n\<close>, four characters flush three bytes.\<close>

fun base64_decode_loop ::
  "nat \<Rightarrow> string \<Rightarrow> u32 \<Rightarrow> nat \<Rightarrow> byte list \<Rightarrow> (u32 \<times> nat \<times> byte list) outcome" where
  "base64_decode_loop destlen [] n n_idx dest = Done (n, n_idx, dest)"
| "base64_decode_loop destlen (c # cs) n n_idx dest =
     (let v = base64_decode_table ! of_char c
      in if v = 255 then Fail
         else if v = 64 then base64_decode_loop destlen cs n n_idx dest
         else if v = 65 then Done (n, n_idx, dest)
         else let n' = push_bit 6 n OR word_of_nat v
              in if n_idx + 1 = 4
                 then (if destlen < 3 \<or> length dest > destlen - 3 then Fail
                       else base64_decode_loop destlen cs 0 0
                              (dest @ [ucast (drop_bit 16 n'), ucast (drop_bit 8 n' AND 0xff),
                                       ucast (n' AND 0xff)]))
                 else base64_decode_loop destlen cs n' (n_idx + 1) dest)"

definition base64_decode_tail :: "nat \<Rightarrow> u32 \<times> nat \<times> byte list \<Rightarrow> byte list outcome" where
  "base64_decode_tail destlen st =
     (case st of (n, n_idx, dest) \<Rightarrow>
        if n_idx = 1 then Fail
        else if n_idx = 2
        then (if destlen < 1 \<or> length dest > destlen - 1 then Fail
              else Done (dest @ [ucast (drop_bit 4 n)]))
        else if n_idx = 3
        then (if destlen < 2 \<or> length dest > destlen - 2 then Fail
              else Done (dest @ [ucast (drop_bit 10 n), ucast (drop_bit 2 n)]))
        else Done dest)"

definition base64_decode :: "nat \<Rightarrow> string \<Rightarrow> byte list outcome" where
  "base64_decode destlen src =
     (if destlen > INT_MAX then Fail
      else obind (base64_decode_loop destlen src 0 0 []) (base64_decode_tail destlen))"

subsection \<open>The text, by groups of three bytes\<close>

definition b64_char :: "u32 \<Rightarrow> nat \<Rightarrow> char" where
  "b64_char n k = base64_encode_table ! unat (drop_bit k n AND 0x3f)"

definition b64_group :: "byte \<Rightarrow> byte \<Rightarrow> byte \<Rightarrow> u32" where
  "b64_group a b c = push_bit 8 (push_bit 8 (ucast a) OR ucast b) OR ucast c"

fun b64_ref :: "byte list \<Rightarrow> string" where
  "b64_ref [] = []"
| "b64_ref [a] =
     (let n = push_bit 4 (ucast a) in [b64_char n 6, b64_char n 0, CHR ''='', CHR ''=''])"
| "b64_ref [a, b] =
     (let n = push_bit 2 (push_bit 8 (ucast a) OR ucast b)
      in [b64_char n 12, b64_char n 6, b64_char n 0, CHR ''=''])"
| "b64_ref (a # b # c # bs) =
     (let n = b64_group a b c
      in [b64_char n 18, b64_char n 12, b64_char n 6, b64_char n 0] @ b64_ref bs)"

definition visible :: "string \<Rightarrow> string" where
  "visible s = filter (\<lambda>c. c \<noteq> NL) s"

lemma visible_append [simp]: "visible (s @ t) = visible s @ visible t"
  by (simp add: visible_def)

lemma visible_NL [simp]: "visible [NL] = []" "visible [] = []" "c \<noteq> NL \<Longrightarrow> visible [c, NL] = [c]"
  "c \<noteq> NL \<Longrightarrow> visible [c] = [c]"
  by (simp_all add: visible_def)

lemma base64_table_upt:
  "base64_encode_table =
     map char_of ([65..<91] @ [97..<123] @ [48..<58] @ [43, 47 :: nat])"
proof -
  have "map of_char base64_encode_table = [65..<91] @ [97..<123] @ [48..<58] @ [43, 47 :: nat]"
    by (simp add: base64_encode_table_def)
  then show ?thesis by (metis (no_types) map_idI map_map o_apply char_of_char)
qed

lemma and_3f [simp]: "(w :: u32) AND 0x3f = take_bit 6 w"
  by (simp add: take_bit_eq_mask mask_eq_exp_minus_1)

lemma unat_take_bit_6 [simp]: "unat (take_bit 6 w :: u32) < 64"
  by (simp only: unsigned_take_bit_eq) (simp add: take_bit_eq_mod)

lemma base64_table_code:
  assumes "k < 64"
  shows "(of_char (base64_encode_table ! k) :: nat) =
    (if k < 26 then 65 + k else if k < 52 then 71 + k else if k < 62 then k - 4
     else if k = 62 then 43 else 47)"
proof -
  have "map of_char base64_encode_table ! k =
    (if k < 26 then 65 + k else if k < 52 then 71 + k else if k < 62 then k - 4
     else if k = 62 then 43 else (47::nat))"
    using assms unfolding base64_table_upt
    by (auto simp: nth_append nth_Cons' simp del: upt_rec_numeral)
  moreover have "length base64_encode_table = 64" by (simp add: base64_encode_table_def)
  ultimately show ?thesis using assms by (simp add: nth_map)
qed

lemma nth_window: "take n (drop m t) = xs \<Longrightarrow> k < n \<Longrightarrow> m \<le> length t \<Longrightarrow> t ! (m + k) = xs ! k"
  by (metis nth_drop nth_take)

lemma upt_0_26: "[0..<26] = 0 # 1 # [2..<(26::nat)]"
  by (simp add: upt_conv_Cons)

lemma base64_decode_table_windows:
  "take 26 (drop 65 base64_decode_table) = [0..<26]"
  "take 26 (drop 97 base64_decode_table) = [26..<52]"
  "take 10 (drop 48 base64_decode_table) = [52..<62]"
  "base64_decode_table ! 43 = 62" "base64_decode_table ! 47 = 63" "length base64_decode_table = 256"
  "base64_decode_table ! 10 = 64" "base64_decode_table ! 61 = 65"
  by (simp_all add: base64_decode_table_def nth_append upt_0_26)

lemma base64_table_inverse:
  assumes "k < 64"
  shows "base64_decode_table ! of_char (base64_encode_table ! k) = k"
proof -
  consider "k < 26" | "26 \<le> k" "k < 52" | "52 \<le> k" "k < 62" | "k = 62" | "k = 63"
    using assms by linarith
  then show ?thesis
  proof cases
    case 1
    then show ?thesis
      using nth_window [OF base64_decode_table_windows(1), of k]
      by (simp add: base64_table_code base64_decode_table_windows del: upt_rec_numeral)
  next
    case 2
    then have "base64_decode_table ! (97 + (k - 26)) = k"
      using nth_window [OF base64_decode_table_windows(2), of "k - 26"]
      by (simp add: base64_decode_table_windows del: upt_rec_numeral)
    with 2 show ?thesis by (simp add: base64_table_code)
  next
    case 3
    then have "base64_decode_table ! (48 + (k - 52)) = k"
      using nth_window [OF base64_decode_table_windows(3), of "k - 52"]
      by (simp add: base64_decode_table_windows del: upt_rec_numeral)
    with 3 show ?thesis by (simp add: base64_table_code)
  qed (simp_all add: base64_table_code base64_decode_table_windows)
qed

lemma b64_char_code:
  "base64_decode_table ! of_char (b64_char n k) = unat (take_bit 6 (drop_bit k n))"
  "b64_char n k \<noteq> NL" "b64_char n k \<noteq> CHR ''=''"
proof -
  let ?u = "unat (take_bit 6 (drop_bit k n) :: u32)"
  have c: "b64_char n k = base64_encode_table ! ?u" and u: "?u < 64"
    by (simp_all add: b64_char_def)
  show d: "base64_decode_table ! of_char (b64_char n k) = ?u"
    unfolding c using u by (rule base64_table_inverse)
  show "b64_char n k \<noteq> NL"
  proof
    assume "b64_char n k = NL"
    with d have "?u = 64" by (simp add: base64_decode_table_windows)
    with u show False by simp
  qed
  show "b64_char n k \<noteq> CHR ''=''"
  proof
    assume "b64_char n k = CHR ''=''"
    with d have "?u = 65" by (simp add: base64_decode_table_windows)
    with u show False by simp
  qed
qed

lemma b64_ref_visible: "visible (b64_ref bs) = b64_ref bs"
  by (induction bs rule: b64_ref.induct) (auto simp: visible_def Let_def b64_char_code)

subsection \<open>The encoder writes the groups\<close>

definition line_inv :: "bool \<Rightarrow> string \<times> nat \<Rightarrow> bool" where
  "line_inv ml d \<longleftrightarrow>
     (if ml then \<exists>k. length (visible (fst d)) = 64 * k + snd d \<and>
                     length (fst d) = length (visible (fst d)) + k \<and> snd d < 64
      else snd d = 0 \<and> visible (fst d) = fst d)"

lemma encode_char_step:
  assumes "line_inv ml d" "ch \<noteq> NL"
  shows "line_inv ml (encode_char ml ch d)"
    and "visible (fst (encode_char ml ch d)) = visible (fst d) @ [ch]"
proof -
  obtain out ll where d: "d = (out, ll)" by (cases d)
  show "visible (fst (encode_char ml ch d)) = visible (fst d) @ [ch]"
    using assms(2) by (simp add: d encode_char_def)
  show "line_inv ml (encode_char ml ch d)"
  proof (cases ml)
    case True
    with assms(1) obtain k where k: "length (visible out) = 64 * k + ll"
      "length out = length (visible out) + k" "ll < 64"
      by (auto simp: line_inv_def d)
    show ?thesis
    proof (cases "ll = 63")
      case True
      then show ?thesis using k assms(2) \<open>ml\<close>
        by (auto simp: line_inv_def d encode_char_def intro!: exI [of _ "k + 1"])
    next
      case False
      then have "(ll + 1) mod 64 \<noteq> 0" using k(3) by simp
      then show ?thesis using k assms(2) \<open>ml\<close> False
        by (auto simp: line_inv_def d encode_char_def intro!: exI [of _ k])
    qed
  next
    case False
    with assms show ?thesis by (simp add: line_inv_def d encode_char_def)
  qed
qed

lemma encode_n_step:
  assumes "line_inv ml d" "idx \<le> 3"
  shows "line_inv ml (encode_n ml n idx d)"
    and "visible (fst (encode_n ml n idx d)) = visible (fst d) @ [b64_char n ((3 - idx) * 6)]"
  using encode_char_step [OF assms(1) b64_char_code(2)]
  by (simp_all add: encode_n_def b64_char_def)

lemmas encode_steps = encode_n_step encode_char_step

lemma base64_encode_loop_ref:
  assumes "line_inv ml d" "base64_encode_loop ml bs 0 0 d = (n, n_idx, d1)"
  shows "\<exists>d2. base64_encode_tail ml n n_idx d1 = Done d2 \<and> line_inv ml d2 \<and>
              visible (fst d2) = visible (fst d) @ b64_ref bs"
  using assms
proof (induction bs arbitrary: d rule: b64_ref.induct)
  case (4 a b c bs)
  let ?n = "b64_group a b c"
  let ?d = "encode_n ml ?n 3 (encode_n ml ?n 2 (encode_n ml ?n 1 (encode_n ml ?n 0 d)))"
  have inv: "line_inv ml ?d" using "4.prems"(1) by (simp add: encode_steps)
  have vis: "visible (fst ?d) = visible (fst d) @
      [b64_char ?n 18, b64_char ?n 12, b64_char ?n 6, b64_char ?n 0]"
    using "4.prems"(1) by (simp add: encode_steps)
  have "base64_encode_loop ml bs 0 0 ?d = (n, n_idx, d1)"
    using "4.prems"(2) by (simp add: Let_def b64_group_def)
  with "4.IH" [OF refl inv] vis show ?case by (auto simp: Let_def)
qed (auto simp: base64_encode_tail_def Let_def encode_steps)

subsection \<open>The decoder reads the groups back\<close>

lemma base64_decode_loop_visible:
  "base64_decode_loop destlen (visible s) n i dest = base64_decode_loop destlen s n i dest"
  by (induction destlen s n i dest rule: base64_decode_loop.induct)
     (auto simp: visible_def Let_def base64_decode_table_windows)

text \<open>The accumulator after the sextet of \<open>m\<close> at bit \<open>k\<close>.\<close>

definition acc6 :: "u32 \<Rightarrow> nat \<Rightarrow> u32 \<Rightarrow> u32" where
  "acc6 m k n = push_bit 6 n OR take_bit 6 (drop_bit k m)"

lemma base64_decode_char:
  "base64_decode_loop destlen (b64_char m k # cs) n i dest =
     (let n' = acc6 m k n
      in if i + 1 = 4
         then (if destlen < 3 \<or> length dest > destlen - 3 then Fail
               else base64_decode_loop destlen cs 0 0
                      (dest @ [ucast (drop_bit 16 n'), ucast (drop_bit 8 n' AND 0xff),
                               ucast (n' AND 0xff)]))
         else base64_decode_loop destlen cs n' (i + 1) dest)"
proof -
  have "unat (take_bit 6 (drop_bit k m) :: u32) < 64" by simp
  then show ?thesis by (simp add: b64_char_code(1) acc6_def Let_def del: unat_take_bit_6)
qed

lemma base64_decode_pad:
  "base64_decode_loop destlen (CHR ''='' # cs) n i dest = Done (n, i, dest)"
  by (simp add: Let_def base64_decode_table_windows)

lemma byte_high: "\<not> bit (w :: byte) (8 + k)" "8 \<le> n \<Longrightarrow> \<not> bit w n"
  by (simp_all add: impossible_bit)

lemma shift_split: "(k::nat) < c \<or> (\<exists>j. k = j + c)"
  by presburger

lemma acc6_mask:
  "acc6 m k (take_bit i (drop_bit (k + 6) m)) = take_bit (i + 6) (drop_bit k m)"
proof (rule bit_word_eqI)
  fix n :: nat
  assume "n < LENGTH(32)"
  moreover have "n < 6 \<or> (\<exists>j. n = j + 6)" by (rule shift_split)
  ultimately show "bit (acc6 m k (take_bit i (drop_bit (k + 6) m))) n = bit (take_bit (i + 6) (drop_bit k m)) n"
    by (elim disjE exE) (auto simp: acc6_def bit_simps ac_simps)
qed

lemma acc6_chain:
  "acc6 m 0 (acc6 m 6 0) = take_bit 12 m"
  "acc6 m 0 (acc6 m 6 (acc6 m 12 0)) = take_bit 18 m"
  "acc6 m 0 (acc6 m 6 (acc6 m 12 (acc6 m 18 0))) = take_bit 24 m"
  using acc6_mask [of m 18 0] acc6_mask [of m 12 6] acc6_mask [of m 6 12] acc6_mask [of m 0 18]
    acc6_mask [of m 12 0] acc6_mask [of m 6 6] acc6_mask [of m 0 12]
    acc6_mask [of m 6 0] acc6_mask [of m 0 6]
  by simp_all

lemma byte_shift_high:
  "\<not> n < j \<Longrightarrow> 8 + k \<le> j \<Longrightarrow> \<not> bit (w :: byte) (n - k)" "\<not> n < j \<Longrightarrow> 8 \<le> j \<Longrightarrow> \<not> bit w n"
  using bit_imp_le_length [of w "n - k"] bit_imp_le_length [of w n] by auto

lemma group_masks:
  fixes a b c :: byte
  shows "take_bit 12 (push_bit 4 (ucast a :: u32)) = push_bit 4 (ucast a)"
    and "take_bit 18 (push_bit 2 (push_bit 8 (ucast a :: u32) OR ucast b)) =
           push_bit 2 (push_bit 8 (ucast a) OR ucast b)"
    and "take_bit 24 (b64_group a b c) = b64_group a b c"
proof -
  show "take_bit 12 (push_bit 4 (ucast a :: u32)) = push_bit 4 (ucast a)"
    by (rule bit_eqI) (auto simp: bit_simps intro: ccontr simp: byte_shift_high)
  show "take_bit 18 (push_bit 2 (push_bit 8 (ucast a :: u32) OR ucast b)) =
           push_bit 2 (push_bit 8 (ucast a) OR ucast b)"
    by (rule bit_eqI) (auto simp: bit_simps diff_diff_left byte_shift_high)
  show "take_bit 24 (b64_group a b c) = b64_group a b c"
    unfolding b64_group_def
    by (rule bit_eqI) (auto simp: bit_simps diff_diff_left byte_high byte_shift_high)
qed

lemma group_bytes:
  fixes a b c :: byte
  shows "ucast (drop_bit 4 (push_bit 4 (ucast a :: u32))) = a"
    and "ucast (drop_bit 10 (push_bit 2 (push_bit 8 (ucast a :: u32) OR ucast b))) = a"
    and "ucast (drop_bit 2 (push_bit 2 (push_bit 8 (ucast a :: u32) OR ucast b))) = b"
    and "ucast (drop_bit 16 (b64_group a b c)) = a"
    and "ucast (drop_bit 8 (b64_group a b c) AND 0xff) = b"
    and "ucast (b64_group a b c AND 0xff) = c"
proof -
  have ff: "(w :: u32) AND 0xff = take_bit 8 w" for w
    by (simp add: take_bit_eq_mask mask_eq_exp_minus_1)
  show "ucast (drop_bit 4 (push_bit 4 (ucast a :: u32))) = a"
    by (rule bit_eqI) (auto simp: bit_simps)
  show "ucast (drop_bit 10 (push_bit 2 (push_bit 8 (ucast a :: u32) OR ucast b))) = a"
    by (rule bit_eqI) (auto simp: bit_simps byte_high)
  show "ucast (drop_bit 2 (push_bit 2 (push_bit 8 (ucast a :: u32) OR ucast b))) = b"
    by (rule bit_eqI) (auto simp: bit_simps byte_high)
  show "ucast (drop_bit 16 (b64_group a b c)) = a"
    unfolding b64_group_def by (rule bit_eqI) (auto simp: bit_simps byte_high)
  show "ucast (drop_bit 8 (b64_group a b c) AND 0xff) = b"
    unfolding b64_group_def ff by (rule bit_eqI) (auto simp: bit_simps byte_high)
  show "ucast (b64_group a b c AND 0xff) = c"
    unfolding b64_group_def ff by (rule bit_eqI) (auto simp: bit_simps byte_high)
qed

declare base64_decode_loop.simps(2) [simp del]

lemma base64_decode_ref:
  assumes "length dest + length bs \<le> destlen"
  shows "obind (base64_decode_loop destlen (b64_ref bs) 0 0 dest) (base64_decode_tail destlen) =
           Done (dest @ bs)"
  using assms
proof (induction bs arbitrary: dest rule: b64_ref.induct)
  case (2 a)
  then show ?case
    by (simp add: base64_decode_char base64_decode_pad acc6_chain group_masks Let_def
          base64_decode_tail_def group_bytes le_diff_conv2 not_less)
next
  case (3 a b)
  then show ?case
    by (simp only: b64_ref.simps Let_def)
      (simp add: base64_decode_char base64_decode_pad acc6_chain group_masks Let_def
          base64_decode_tail_def group_bytes le_diff_conv2 not_less del: push_bit_or)
next
  case (4 a b c bs)
  have "length (dest @ [a, b, c]) + length bs \<le> destlen" using "4.prems" by simp
  from "4.IH" [OF refl this] show ?case
    using "4.prems"
    by (simp add: base64_decode_char acc6_chain group_masks Let_def group_bytes
          le_diff_conv2 not_less)
qed (simp add: base64_decode_tail_def)

definition unpadded :: "string \<Rightarrow> string" where
  "unpadded s = filter (\<lambda>c. \<not> (c = CHR ''='' \<or> c = NL)) s"

lemma base64_decode_unpadded_ref:
  assumes "length dest + length bs \<le> destlen"
  shows "obind (base64_decode_loop destlen (unpadded (b64_ref bs)) 0 0 dest)
           (base64_decode_tail destlen) = Done (dest @ bs)"
  using assms
proof (induction bs arbitrary: dest rule: b64_ref.induct)
  case (3 a b)
  then show ?case
    by (simp only: b64_ref.simps Let_def)
      (simp add: base64_decode_char acc6_chain group_masks Let_def unpadded_def b64_char_code
          base64_decode_tail_def group_bytes le_diff_conv2 not_less del: push_bit_or)
next
  case (4 a b c bs)
  have "length (dest @ [a, b, c]) + length bs \<le> destlen" using "4.prems" by simp
  from "4.IH" [OF refl this] show ?case
    using "4.prems"
    by (simp add: base64_decode_char acc6_chain group_masks Let_def group_bytes unpadded_def
          b64_char_code le_diff_conv2 not_less)
qed (simp_all add: base64_decode_char acc6_chain group_masks Let_def unpadded_def b64_char_code
       base64_decode_tail_def group_bytes le_diff_conv2 not_less)

lemma length_b64_ref [len_simps]: "length (b64_ref bs) = BASE64_LEN (length bs)"
proof (induction bs rule: b64_ref.induct)
  case (4 a b c bs)
  have n: "length (a # b # c # bs) + (3 - 1) = (length bs + (3 - 1)) + 3" by simp
  have "((length bs + (3 - 1)) + 3) div 3 = (length bs + (3 - 1)) div 3 + (1::nat)"
    by (rule div_add_self2) simp
  then have len: "BASE64_LEN (length (a # b # c # bs)) = (CEIL_DIV (length bs) 3 + 1) * 4"
    unfolding BASE64_LEN_def CEIL_DIV_def n by (rule arg_cong)
  have "length (b64_ref (a # b # c # bs)) = 4 + length (b64_ref bs)" by (simp add: Let_def)
  with 4 len show ?case by (simp only: BASE64_LEN_def) simp
qed (simp_all add: BASE64_LEN_def CEIL_DIV_def Let_def)

definition base64_total :: "nat \<Rightarrow> bool \<Rightarrow> nat" where
  "base64_total n ml = BASE64_LEN n + (if ml then CEIL_DIV (BASE64_LEN n) 64 else 0)"

lemma base64_encode_size_eq:
  assumes "n < 1000000000"
  shows "base64_encode_size n ml = Done (base64_total n ml)"
proof -
  have c: "CEIL_DIV n 3 < 400000000" "n \<le> 3 * CEIL_DIV n 3" "n = 0 \<longrightarrow> CEIL_DIV n 3 = 0"
    using assms by (simp_all add: CEIL_DIV_def)
  have "CEIL_DIV (CEIL_DIV n 3 * 4) 64 \<le> 1 + CEIL_DIV n 3 * 4 div 64"
    by (simp add: CEIL_DIV_def)
  with c have "CEIL_DIV (CEIL_DIV n 3 * 4) 64 < 30000000" by linarith
  with c assms show ?thesis
    by (cases "n = 0"; cases ml)
       (auto simp: base64_encode_size_def base64_total_def BASE64_LEN_def INT_MAX_def Let_def CEIL_DIV_def)
qed

lemma line_total:
  assumes "line_inv ml (out, ll)"
  shows "length (if ml \<and> ll \<noteq> 0 then out @ [NL] else out) =
     length (visible out) + (if ml then CEIL_DIV (length (visible out)) 64 else 0)"
proof (cases ml)
  case True
  with assms obtain k where "length (visible out) = 64 * k + ll"
    "length out = length (visible out) + k" "ll < 64" by (auto simp: line_inv_def)
  with True show ?thesis by (cases "ll = 0") (auto simp: CEIL_DIV_def)
qed (use assms in \<open>simp add: line_inv_def\<close>)

lemma base64_encode_ok:
  assumes "length src < 1000000000" "destlen > base64_total (length src) ml" "destlen \<le> SIZE_T_CEILING"
  shows "\<exists>s. base64_encode destlen src ml = Done s \<and> length s = base64_total (length src) ml \<and>
             visible s = b64_ref src"
proof -
  obtain n i d1 where loop: "base64_encode_loop ml src 0 0 ([], 0) = (n, i, d1)"
    by (metis prod.exhaust)
  have "line_inv ml ([], 0)" by (simp add: line_inv_def)
  from base64_encode_loop_ref [OF this loop] obtain out ll where d2:
    "base64_encode_tail ml n i d1 = Done (out, ll)" "line_inv ml (out, ll)" "visible out = b64_ref src"
    by auto
  have sz: "base64_encode_size (length src) ml = Done (base64_total (length src) ml)"
    and le: "base64_total (length src) ml \<le> INT_MAX"
    using base64_encode_size_eq [OF assms(1), of ml]
    by (auto simp: base64_encode_size_def Let_def split: if_splits)
  have "length (if ml \<and> ll \<noteq> 0 then out @ [NL] else out) = base64_total (length src) ml"
    using line_total [OF d2(2)] by (simp add: d2(3) base64_total_def len_simps)
  with loop d2 sz le assms(2,3) show ?thesis
    by (auto simp: base64_encode_def Let_def)
qed

lemma base64_encode_Done:
  assumes "base64_encode destlen src ml = Done s"
  shows "visible s = b64_ref src"
proof -
  obtain n i d1 where loop: "base64_encode_loop ml src 0 0 ([], 0) = (n, i, d1)"
    by (metis prod.exhaust)
  have "line_inv ml ([], 0)" by (simp add: line_inv_def)
  from base64_encode_loop_ref [OF this loop] obtain out ll where d2:
    "base64_encode_tail ml n i d1 = Done (out, ll)" "visible out = b64_ref src"
    by auto
  with assms loop show ?thesis
    by (auto simp: base64_encode_def outcome_elims Let_def split: if_splits)
qed

lemma base64_decode_encode:
  assumes "base64_encode destlen src ml = Done s" "length src \<le> destlen'" "destlen' \<le> INT_MAX"
  shows "base64_decode destlen' s = Done src"
  using base64_decode_ref [of "[]" src destlen'] base64_decode_loop_visible [of destlen' s]
    base64_encode_Done [OF assms(1)] assms(2,3)
  by (simp add: base64_decode_def)

lemma base64_nopad_Done:
  assumes "base64_encode_nopad destlen src = Done s" "length src \<le> destlen'" "destlen' \<le> INT_MAX"
  shows "base64_decode destlen' s = Done src"
proof -
  obtain t where t: "base64_encode destlen src False = Done t"
    and s: "s = filter (\<lambda>c. \<not> (c = CHR ''='' \<or> c = NL)) t"
    using assms(1) by (auto simp: base64_encode_nopad_def outcome_elims)
  have "s = unpadded (visible t)"
    by (auto simp: s unpadded_def visible_def intro: filter_cong)
  then have "s = unpadded (b64_ref src)" by (simp add: base64_encode_Done [OF t])
  with base64_decode_unpadded_ref [of "[]" src destlen'] assms(2,3) show ?thesis
    by (simp add: base64_decode_def)
qed

section \<open>The contract of an encoding\<close>

text \<open>
  What the callers of an encoder and a decoder rely on: on the inputs within the length
  limits the encoder returns a text, and the decoder reads the input back from it.
\<close>

locale byte_codec =
  fixes enc :: "byte list \<Rightarrow> string outcome"
    and dec :: "string \<Rightarrow> byte list outcome"
    and fits :: "byte list \<Rightarrow> bool"
  assumes enc_total: "fits bs \<Longrightarrow> \<exists>s. enc bs = Done s"
    and dec_enc: "fits bs \<Longrightarrow> enc bs = Done s \<Longrightarrow> dec s = Done bs"
begin

lemma roundtrip: "fits bs \<Longrightarrow> obind (enc bs) dec = Done bs"
  using enc_total [of bs] dec_enc [of bs] by auto

lemma enc_inj: "fits a \<Longrightarrow> fits b \<Longrightarrow> enc a = enc b \<Longrightarrow> a = b"
  using dec_enc [of a] dec_enc [of b] enc_total [of a] by auto

end

definition base16_fits :: "nat \<Rightarrow> nat \<Rightarrow> byte list \<Rightarrow> bool" where
  "base16_fits dlen slen bs \<longleftrightarrow>
     BASE16_BUFSIZE (length bs) \<le> dlen \<and> dlen < SIZE_T_CEILING \<and>
     length bs < SIZE_T_CEILING div 2 - 1 \<and> length bs \<le> slen \<and> slen \<le> INT_MAX"

definition base64_fits :: "nat \<Rightarrow> bool \<Rightarrow> nat \<Rightarrow> byte list \<Rightarrow> bool" where
  "base64_fits dlen ml slen bs \<longleftrightarrow>
     length bs < 1000000000 \<and> base64_total (length bs) ml < dlen \<and> dlen \<le> SIZE_T_CEILING \<and>
     length bs \<le> slen \<and> slen \<le> INT_MAX"

interpretation b16: byte_codec "base16_encode dlen" "base16_decode slen" "base16_fits dlen slen"
  for dlen slen
  by unfold_locales
     (auto simp: base16_encode_def base16_decode_def base16_fits_def base16_decode_encode_loop len_simps
           split: if_splits)

interpretation b64: byte_codec "\<lambda>bs. base64_encode dlen bs ml" "base64_decode slen"
    "base64_fits dlen ml slen"
  for dlen ml slen
  by unfold_locales
     (auto simp: base64_fits_def intro: base64_encode_ok [THEN ex_forward] base64_decode_encode)

end
