(* ===== verification/EdDiff.thy ===== *)
theory EdDiff
  imports DiffChanges Binascii
begin

text \<open>
  Ed scripts between two consensus documents, from \<open>src/feature/dircommon/consdiff.c\<close>: the
  router entries that align the documents, \<open>gen_ed_diff\<close>, which writes the script, and
  \<open>apply_ed_diff\<close>, which runs one. Line numbers are \<open>int\<close> as in the code; an error return
  (\<open>NULL\<close> or -1) is \<open>Fail\<close>, a failed assertion or a read outside a line \<open>Stuck\<close>.
\<close>

section \<open>Router entries\<close>

definition base64_compare_table :: "nat list" where
  "base64_compare_table =
    replicate 32 255 @
    [255, 255, 255, 255, 255, 255, 255, 255, 255, 255, 255, 62, 255, 255, 255, 63,
     52, 53, 54, 55, 56, 57, 58, 59, 60, 61, 255, 255, 255, 255, 255, 255,
     255, 0, 1, 2, 3, 4, 5, 6, 7, 8, 9, 10, 11, 12, 13, 14,
     15, 16, 17, 18, 19, 20, 21, 22, 23, 24, 25, 255, 255, 255, 255, 255,
     255, 26, 27, 28, 29, 30, 31, 32, 33, 34, 35, 36, 37, 38, 39, 40,
     41, 42, 43, 44, 45, 46, 47, 48, 49, 50, 51, 255, 255, 255, 255, 255] @
    replicate 128 255"

definition NOT_VALID_BASE64 :: nat where "NOT_VALID_BASE64 = 255"

text \<open>
  The scan for the end of the hash reads the character after the line before it tests the
  bound; that character does not change the result.
\<close>

definition get_id_hash :: "cdline \<Rightarrow> string option" where
  "get_id_hash line =
     (if length line < 2 then None
      else case find_sub '' '' (drop 2 line) of
             None \<Rightarrow> None
           | Some k \<Rightarrow>
               let h = takeWhile (\<lambda>c. base64_compare_table ! of_char c \<noteq> NOT_VALID_BASE64)
                         (drop (2 + k + 1) line)
               in if h = [] then None else Some h)"

definition is_valid_router_entry :: "cdline \<Rightarrow> bool" where
  "is_valid_router_entry line =
     (if length line < 2 \<or> take 2 line \<noteq> ''r '' then False else get_id_hash line \<noteq> None)"

fun scan_router :: "cdline list \<Rightarrow> int \<Rightarrow> int" where
  "scan_router [] cur = cur"
| "scan_router (l # ls) cur = (if is_valid_router_entry l then cur else scan_router ls (cur + 1))"

definition next_router :: "cdline list \<Rightarrow> int \<Rightarrow> int outcome" where
  "next_router cons cur =
     (if \<not> (cur \<ge> -1 \<and> cur < int (length cons)) then Stuck
      else Done (scan_router (drop (nat (cur + 1)) cons) (cur + 1)))"

text \<open>The loop of \<open>base64cmp\<close>; an empty hash would be read past its end.\<close>

fun base64cmp_loop :: "string \<Rightarrow> string \<Rightarrow> int outcome" where
  "base64cmp_loop (a # as) (b # bs) =
     (let av = base64_compare_table ! of_char a; bv = base64_compare_table ! of_char b
      in if av = NOT_VALID_BASE64 then (if bv = NOT_VALID_BASE64 then Done 0 else Done (-1))
         else if bv = NOT_VALID_BASE64 then Done 1
         else if av < bv then Done (-1)
         else if av > bv then Done 1
         else if as = [] then (if bs = [] then Done 0 else Done (-1))
         else if bs = [] then Done 1
         else base64cmp_loop as bs)"
| "base64cmp_loop _ _ = Stuck"

definition base64cmp :: "string option \<Rightarrow> string option \<Rightarrow> int outcome" where
  "base64cmp hash1 hash2 =
     (case hash1 of
        None \<Rightarrow> (case hash2 of None \<Rightarrow> Done 0 | Some _ \<Rightarrow> Done (-1))
      | Some a \<Rightarrow> (case hash2 of None \<Rightarrow> Done 1 | Some b \<Rightarrow> base64cmp_loop a b))"

record router_id_iterator =
  last_hash :: "string option"
  cur_hash :: "string option"

definition ROUTER_ID_ITERATOR_INIT :: router_id_iterator where
  "ROUTER_ID_ITERATOR_INIT = \<lparr>last_hash = None, cur_hash = None\<rparr>"

definition find_next_router_line ::
  "cdline list \<Rightarrow> int \<Rightarrow> router_id_iterator \<Rightarrow> (int \<times> router_id_iterator) outcome" where
  "find_next_router_line cons idx iter =
     obind (next_router cons idx) (\<lambda>i.
       if i < int (length cons)
       then let it1 = iter\<lparr>last_hash := cur_hash iter\<rparr>
            in (case get_id_hash (cons ! nat i) of
                  None \<Rightarrow> Fail
                | Some h \<Rightarrow>
                    let it2 = it1\<lparr>cur_hash := Some h\<rparr>
                    in obind (base64cmp (cur_hash it2) (last_hash it2)) (\<lambda>c.
                         if c \<le> 0 then Fail else Done (i, it2)))
       else Done (i, iter))"

lemma scan_router_bounds: "cur \<le> scan_router ls cur \<and> scan_router ls cur \<le> cur + int (length ls)"
  by (induction ls cur rule: scan_router.induct) auto

lemma find_next_bounds:
  assumes "find_next_router_line cons idx iter = Done (i, it')"
  shows "idx < i" "0 \<le> i" "i \<le> int (length cons)"
proof -
  have "idx \<ge> -1" "idx < int (length cons)"
    and i: "i = scan_router (drop (nat (idx + 1)) cons) (idx + 1)"
    using assms by (auto simp: find_next_router_line_def next_router_def outcome_elims Let_def
        split: if_splits option.splits)
  with scan_router_bounds [of "idx + 1" "drop (nat (idx + 1)) cons"]
  show "idx < i" "0 \<le> i" "i \<le> int (length cons)" by auto
qed

section \<open>Removing the signatures\<close>

definition START_OF_SIGNATURES_SECTION :: string where
  "START_OF_SIGNATURES_SECTION = ''directory-signature ''"

fun dirsig_idx :: "cdline list \<Rightarrow> nat \<Rightarrow> nat option" where
  "dirsig_idx [] i = None"
| "dirsig_idx (l # ls) i =
     (if line_starts_with_str l START_OF_SIGNATURES_SECTION then Some i else dirsig_idx ls (i + 1))"

text \<open>The document without its signatures, and the command that deletes them, if any.\<close>

definition preprocess_consensus :: "cdline list \<Rightarrow> cdline list \<times> cdline option" where
  "preprocess_consensus cons =
     (case dirsig_idx cons 0 of
        Some i \<Rightarrow> (take i cons, Some (dec_nat (i + 1) @ '',$d''))
      | None \<Rightarrow> (cons, None))"

section \<open>Generating a script\<close>

text \<open>The inner loop of \<open>gen_ed_diff\<close>: the lower of the two positions advances.\<close>

function sync_routers ::
  "cdline list \<Rightarrow> cdline list \<Rightarrow> int \<Rightarrow> router_id_iterator \<Rightarrow> int \<Rightarrow> router_id_iterator \<Rightarrow>
     (int \<times> router_id_iterator \<times> int \<times> router_id_iterator) outcome" where
  "sync_routers cons1 cons2 i1 iter1 i2 iter2 =
     obind (base64cmp (cur_hash iter1) (cur_hash iter2)) (\<lambda>cmp.
       if cmp = 0 then Done (i1, iter1, i2, iter2)
       else if i1 < int (length cons1) \<and> cmp < 0
       then obind (find_next_router_line cons1 i1 iter1) (\<lambda>r1.
              if fst r1 = int (length cons1) then Done (fst r1, snd r1, int (length cons2), iter2)
              else sync_routers cons1 cons2 (fst r1) (snd r1) i2 iter2)
       else if i2 < int (length cons2) \<and> cmp > 0
       then obind (find_next_router_line cons2 i2 iter2) (\<lambda>r2.
              if fst r2 = int (length cons2) then Done (int (length cons1), iter1, fst r2, snd r2)
              else sync_routers cons1 cons2 i1 iter1 (fst r2) (snd r2))
       else Done (int (length cons1), iter1, int (length cons2), iter2))"
  by pat_completeness auto
termination
proof (relation "measure (\<lambda>(l1, l2, i1, it1, i2, it2).
    nat (int (length l1) - i1) + nat (int (length l2) - i2))", goal_cases)
  case (2 cons1 cons2 i1 iter1 i2 iter2 cmp r1)
  then show ?case using find_next_bounds(1,3) [of cons1 i1 iter1 "fst r1" "snd r1"] by (cases r1) simp
next
  case (3 cons1 cons2 i1 iter1 i2 iter2 cmp r2)
  then show ?case using find_next_bounds(1,3) [of cons2 i2 iter2 "fst r2" "snd r2"] by (cases r2) simp
qed simp

declare sync_routers.simps [simp del]

definition MAX_LINE_COUNT :: int where "MAX_LINE_COUNT = 10000"

text \<open>The body of the outer loop up to the change computation, which yields the next positions.\<close>

definition advance_routers ::
  "cdline list \<Rightarrow> cdline list \<Rightarrow> int \<Rightarrow> router_id_iterator \<Rightarrow> int \<Rightarrow> router_id_iterator \<Rightarrow>
     (int \<times> router_id_iterator \<times> int \<times> router_id_iterator) outcome" where
  "advance_routers cons1 cons2 i1 iter1 i2 iter2 =
     (let len1 = int (length cons1); len2 = int (length cons2)
      in obind (if i1 < len1 then find_next_router_line cons1 i1 iter1 else Done (i1, iter1)) (\<lambda>(i1, iter1).
         obind (if i2 < len2 then find_next_router_line cons2 i2 iter2 else Done (i2, iter2)) (\<lambda>(i2, iter2).
           if i1 < len1 \<or> i2 < len2 then sync_routers cons1 cons2 i1 iter1 i2 iter2
           else Done (i1, iter1, i2, iter2))))"

definition chunk_changes ::
  "cdline list \<Rightarrow> cdline list \<Rightarrow> int \<Rightarrow> int \<Rightarrow> int \<Rightarrow> int \<Rightarrow> bool list \<Rightarrow> bool list \<Rightarrow>
     (bool list \<times> bool list) outcome" where
  "chunk_changes cons1 cons2 start1 i1 start2 i2 changed1 changed2 =
     (if i1 - start1 > MAX_LINE_COUNT \<or> i2 - start2 > MAX_LINE_COUNT then Fail
      else obind (smartlist_slice_new cons1 (nat start1) i1) (\<lambda>s1.
           obind (smartlist_slice_new cons2 (nat start2) i2) (\<lambda>s2.
             calc_changes s1 s2 changed1 changed2)))"

lemma sync_routers_bounds:
  "sync_routers cons1 cons2 i1 iter1 i2 iter2 = Done (j1, it1, j2, it2) \<Longrightarrow>
     min i1 (int (length cons1)) \<le> j1 \<and> (i1 \<le> int (length cons1) \<longrightarrow> j1 \<le> int (length cons1)) \<and>
     min i2 (int (length cons2)) \<le> j2 \<and> (i2 \<le> int (length cons2) \<longrightarrow> j2 \<le> int (length cons2))"
proof (induction cons1 cons2 i1 iter1 i2 iter2 rule: sync_routers.induct)
  case (1 cons1 cons2 i1 iter1 i2 iter2)
  note step = "1.prems"(1) [unfolded sync_routers.simps [of cons1 cons2 i1 iter1 i2 iter2]]
  from step obtain cmp where cmp: "base64cmp (cur_hash iter1) (cur_hash iter2) = Done cmp"
    by (auto simp: obind_Done)
  consider "cmp = 0" | "cmp \<noteq> 0" "i1 < int (length cons1) \<and> cmp < 0"
    | "cmp \<noteq> 0" "\<not> (i1 < int (length cons1) \<and> cmp < 0)" "i2 < int (length cons2) \<and> cmp > 0"
    | "cmp \<noteq> 0" "\<not> (i1 < int (length cons1) \<and> cmp < 0)" "\<not> (i2 < int (length cons2) \<and> cmp > 0)"
    by blast
  then show ?case
  proof cases
    case 2
    with step cmp have "obind (find_next_router_line cons1 i1 iter1) (\<lambda>r1.
        if fst r1 = int (length cons1) then Done (fst r1, snd r1, int (length cons2), iter2)
        else sync_routers cons1 cons2 (fst r1) (snd r1) i2 iter2) = Done (j1, it1, j2, it2)" by simp
    then obtain k where f: "find_next_router_line cons1 i1 iter1 = Done k"
      and r: "(if fst k = int (length cons1) then Done (fst k, snd k, int (length cons2), iter2)
               else sync_routers cons1 cons2 (fst k) (snd k) i2 iter2) = Done (j1, it1, j2, it2)"
      unfolding obind_Done by blast
    note b = find_next_bounds [of cons1 i1 iter1 "fst k" "snd k", simplified, OF f]
    show ?thesis
    proof (cases "fst k = int (length cons1)")
      case True
      with r show ?thesis using 2 by auto
    next
      case False
      with r have "sync_routers cons1 cons2 (fst k) (snd k) i2 iter2 = Done (j1, it1, j2, it2)" by simp
      from "1.IH"(1) [OF cmp 2 f False this] b show ?thesis using 2 by (auto simp: min_def split: if_splits)
    qed
  next
    case 3
    with step cmp have "obind (find_next_router_line cons2 i2 iter2) (\<lambda>r2.
        if fst r2 = int (length cons2) then Done (int (length cons1), iter1, fst r2, snd r2)
        else sync_routers cons1 cons2 i1 iter1 (fst r2) (snd r2)) = Done (j1, it1, j2, it2)" by auto
    then obtain k where f: "find_next_router_line cons2 i2 iter2 = Done k"
      and r: "(if fst k = int (length cons2) then Done (int (length cons1), iter1, fst k, snd k)
               else sync_routers cons1 cons2 i1 iter1 (fst k) (snd k)) = Done (j1, it1, j2, it2)"
      unfolding obind_Done by blast
    note b = find_next_bounds [of cons2 i2 iter2 "fst k" "snd k", simplified, OF f]
    show ?thesis
    proof (cases "fst k = int (length cons2)")
      case True
      with r show ?thesis using 3 by auto
    next
      case False
      with r have "sync_routers cons1 cons2 i1 iter1 (fst k) (snd k) = Done (j1, it1, j2, it2)" by simp
      from "1.IH"(2) [OF cmp 3 f False this] b show ?thesis using 3 by (auto simp: min_def split: if_splits)
    qed
  qed (use step cmp in \<open>auto split: if_splits\<close>)
qed

lemma find_or_stay_bounds:
  assumes "(if i < int (length cons) then find_next_router_line cons i iter else Done (i, iter)) = Done k"
  shows "i \<le> fst k" "i \<le> int (length cons) \<Longrightarrow> fst k \<le> int (length cons)"
    "i < int (length cons) \<Longrightarrow> i < fst k \<and> fst k \<le> int (length cons)"
  using assms find_next_bounds [of cons i iter "fst k" "snd k"] by (auto split: if_splits)

lemma advance_routers_bounds:
  assumes "advance_routers cons1 cons2 i1 iter1 i2 iter2 = Done (j1, it1, j2, it2)"
  shows "min i1 (int (length cons1)) \<le> j1 \<and> (i1 \<le> int (length cons1) \<longrightarrow> j1 \<le> int (length cons1)) \<and>
    min i2 (int (length cons2)) \<le> j2 \<and> (i2 \<le> int (length cons2) \<longrightarrow> j2 \<le> int (length cons2)) \<and>
    (i1 < int (length cons1) \<longrightarrow> i1 < j1) \<and> (i2 < int (length cons2) \<longrightarrow> i2 < j2)"
proof -
  let ?n1 = "int (length cons1)" let ?n2 = "int (length cons2)"
  obtain k1 k2 where
    k1: "(if i1 < ?n1 then find_next_router_line cons1 i1 iter1 else Done (i1, iter1)) = Done k1" and
    k2: "(if i2 < ?n2 then find_next_router_line cons2 i2 iter2 else Done (i2, iter2)) = Done k2" and
    r: "(if fst k1 < ?n1 \<or> fst k2 < ?n2 then sync_routers cons1 cons2 (fst k1) (snd k1) (fst k2) (snd k2)
         else Done (fst k1, snd k1, fst k2, snd k2)) = Done (j1, it1, j2, it2)"
    using assms unfolding advance_routers_def Let_def obind_Done split_beta by blast
  note b1 = find_or_stay_bounds [OF k1] and b2 = find_or_stay_bounds [OF k2]
  have "min (fst k1) ?n1 \<le> j1 \<and> (fst k1 \<le> ?n1 \<longrightarrow> j1 \<le> ?n1) \<and>
      min (fst k2) ?n2 \<le> j2 \<and> (fst k2 \<le> ?n2 \<longrightarrow> j2 \<le> ?n2)"
    using r sync_routers_bounds [of cons1 cons2 "fst k1" "snd k1" "fst k2" "snd k2" j1 it1 j2 it2]
    by (auto split: if_splits)
  with b1 b2 show ?thesis by (auto simp: min_def split: if_splits)
qed

text \<open>The outer loop, from the positions and starts of the code to the two bit arrays.\<close>

function chunk_loop ::
  "cdline list \<Rightarrow> cdline list \<Rightarrow> int \<Rightarrow> router_id_iterator \<Rightarrow> int \<Rightarrow> router_id_iterator \<Rightarrow>
     int \<Rightarrow> int \<Rightarrow> bool list \<Rightarrow> bool list \<Rightarrow> (bool list \<times> bool list) outcome" where
  "chunk_loop cons1 cons2 i1 iter1 i2 iter2 start1 start2 changed1 changed2 =
     (if \<not> (i1 < int (length cons1) \<or> i2 < int (length cons2)) then Done (changed1, changed2)
      else obind (advance_routers cons1 cons2 i1 iter1 i2 iter2) (\<lambda>r.
           obind (chunk_changes cons1 cons2 start1 (fst r) start2 (fst (snd (snd r))) changed1 changed2) (\<lambda>c.
             chunk_loop cons1 cons2 (fst r) (fst (snd r)) (fst (snd (snd r))) (snd (snd (snd r)))
               (fst r) (fst (snd (snd r))) (fst c) (snd c))))"
  by pat_completeness auto
termination
proof (relation "measure (\<lambda>(l1, l2, i1, it1, i2, it2, s1, s2, c1, c2).
    nat (int (length l1) - i1) + nat (int (length l2) - i2))", goal_cases)
  case (2 cons1 cons2 i1 iter1 i2 iter2 start1 start2 changed1 changed2 r c)
  obtain j1 it1 j2 it2 where r: "r = (j1, it1, j2, it2)" by (metis prod.collapse)
  have "advance_routers cons1 cons2 i1 iter1 i2 iter2 = Done (j1, it1, j2, it2)"
    using 2 r by simp
  from advance_routers_bounds [OF this] 2 show ?case by (auto simp: r min_def split: if_splits)
qed simp

declare chunk_loop.simps [simp del]

text \<open>
  The state at the head of the outer loop: the starts are the positions reached, everything
  from there on is unmarked, and before them the same lines are kept on both sides.
\<close>

definition chunk_inv ::
  "cdline list \<Rightarrow> cdline list \<Rightarrow> int \<Rightarrow> int \<Rightarrow> int \<Rightarrow> int \<Rightarrow> bool list \<Rightarrow> bool list \<Rightarrow> bool" where
  "chunk_inv cons1 cons2 i1 i2 start1 start2 c1 c2 \<longleftrightarrow>
     start1 = max 0 i1 \<and> start2 = max 0 i2 \<and> -1 \<le> i1 \<and> -1 \<le> i2 \<and>
     i1 \<le> int (length cons1) \<and> i2 \<le> int (length cons2) \<and>
     length c1 = length cons1 \<and> length c2 = length cons2 \<and>
     clear c1 (nat start1) (length cons1 - nat start1) \<and>
     clear c2 (nat start2) (length cons2 - nat start2) \<and>
     kept cons1 c1 0 (nat start1) = kept cons2 c2 0 (nat start2)"

lemma kept_same_outside:
  "same_outside c d off n \<Longrightarrow> kept l d 0 (off + n) = kept l c 0 off @ kept l d off n"
proof -
  assume so: "same_outside c d off n"
  have "kept l d 0 off = kept l c 0 off"
    using so by (intro kept_cong) (simp add: same_outside_def)
  then show ?thesis using kept_add [of l d 0 off n] by simp
qed

lemma clear_same_outside:
  "same_outside c d off n \<Longrightarrow> clear c off (n + m) \<Longrightarrow> clear d (off + n) m"
  by (simp add: same_outside_def clear_def)

lemma chunk_changes_inv:
  assumes inv: "chunk_inv cons1 cons2 i1 i2 start1 start2 c1 c2"
    and j: "start1 \<le> j1" "j1 \<le> int (length cons1)" "start2 \<le> j2" "j2 \<le> int (length cons2)"
    and run: "chunk_changes cons1 cons2 start1 j1 start2 j2 c1 c2 = Done (d1, d2)"
  shows "chunk_inv cons1 cons2 j1 j2 j1 j2 d1 d2"
proof -
  have st: "0 \<le> start1" "0 \<le> start2" using inv by (auto simp: chunk_inv_def)
  define s1 where "s1 = \<lparr>sl_list = cons1, sl_offset = nat start1, sl_len = nat j1 - nat start1\<rparr>"
  define s2 where "s2 = \<lparr>sl_list = cons2, sl_offset = nat start2, sl_len = nat j2 - nat start2\<rparr>"
  have new: "smartlist_slice_new cons1 (nat start1) j1 = Done s1"
    "smartlist_slice_new cons2 (nat start2) j2 = Done s2"
    using st j by (simp_all add: smartlist_slice_new_def s1_def s2_def Let_def)
  have rd: "ready s1 c1" "ready s2 c2"
    using inv st j by (auto simp: ready_def s1_def s2_def slice_ok_def chunk_inv_def elim!: clear_sub)
  have cc: "calc_changes s1 s2 c1 c2 = Done (d1, d2)"
    using run new by (auto simp: chunk_changes_def split: if_splits)
  with calc_changes_correct [OF rd] have ok: "changes_ok s1 s2 c1 c2 d1 d2" by auto
  note k = changes_okD [OF ok, unfolded s1_def s2_def smartlist_slice.simps]
  have e1: "nat start1 + (nat j1 - nat start1) = nat j1" "nat start2 + (nat j2 - nat start2) = nat j2"
    using st j by simp_all
  have i: "clear c1 (nat start1) (length cons1 - nat start1)" "clear c2 (nat start2) (length cons2 - nat start2)"
    "kept cons1 c1 0 (nat start1) = kept cons2 c2 0 (nat start2)"
    using inv unfolding chunk_inv_def by blast+
  have n1: "nat j1 - nat start1 + (length cons1 - nat j1) = length cons1 - nat start1"
    "nat j2 - nat start2 + (length cons2 - nat j2) = length cons2 - nat start2"
    using j st by simp_all
  have K: "kept cons1 d1 0 (nat j1) = kept cons2 d2 0 (nat j2)"
    using kept_same_outside [OF k(1), of cons1] kept_same_outside [OF k(2), of cons2] k(3) i(3)
    unfolding e1 by simp
  have C: "clear d1 (nat j1) (length cons1 - nat j1)" "clear d2 (nat j2) (length cons2 - nat j2)"
    using clear_same_outside [OF k(1), of "length cons1 - nat j1"]
      clear_same_outside [OF k(2), of "length cons2 - nat j2"] i(1,2) n1
    unfolding e1 by simp_all
  have "length d1 = length cons1" "length d2 = length cons2"
    using k(1,2) inv by (simp_all add: same_outside_def chunk_inv_def)
  with K C st j show ?thesis by (simp add: chunk_inv_def max_def)
qed

lemma advance_routers_start:
  assumes "chunk_inv cons1 cons2 i1 i2 start1 start2 c1 c2"
    and "advance_routers cons1 cons2 i1 iter1 i2 iter2 = Done (j1, it1, j2, it2)"
  shows "start1 \<le> j1" "j1 \<le> int (length cons1)" "start2 \<le> j2" "j2 \<le> int (length cons2)"
  using advance_routers_bounds [OF assms(2)] assms(1) by (auto simp: chunk_inv_def min_def max_def split: if_splits)

lemma chunk_loop_kept:
  "chunk_inv cons1 cons2 i1 i2 start1 start2 c1 c2 \<Longrightarrow>
   chunk_loop cons1 cons2 i1 iter1 i2 iter2 start1 start2 c1 c2 = Done (d1, d2) \<Longrightarrow>
     length d1 = length cons1 \<and> length d2 = length cons2 \<and>
     kept cons1 d1 0 (length cons1) = kept cons2 d2 0 (length cons2)"
proof (induction cons1 cons2 i1 iter1 i2 iter2 start1 start2 c1 c2 rule: chunk_loop.induct)
  case (1 cons1 cons2 i1 iter1 i2 iter2 start1 start2 c1 c2)
  note step = "1.prems"(2) [unfolded chunk_loop.simps [of cons1 cons2 i1]]
  show ?case
  proof (cases "i1 < int (length cons1) \<or> i2 < int (length cons2)")
    case False
    with step "1.prems"(1) have "d1 = c1" "d2 = c2" "nat start1 = length cons1" "nat start2 = length cons2"
      by (auto simp: chunk_inv_def)
    with "1.prems"(1) show ?thesis by (simp add: chunk_inv_def)
  next
    case True
    with step have "obind (advance_routers cons1 cons2 i1 iter1 i2 iter2) (\<lambda>r.
           obind (chunk_changes cons1 cons2 start1 (fst r) start2 (fst (snd (snd r))) c1 c2) (\<lambda>c.
             chunk_loop cons1 cons2 (fst r) (fst (snd r)) (fst (snd (snd r))) (snd (snd (snd r)))
               (fst r) (fst (snd (snd r))) (fst c) (snd c))) = Done (d1, d2)" by simp
    then obtain r c where r: "advance_routers cons1 cons2 i1 iter1 i2 iter2 = Done r"
      and c: "chunk_changes cons1 cons2 start1 (fst r) start2 (fst (snd (snd r))) c1 c2 = Done c"
      and rest: "chunk_loop cons1 cons2 (fst r) (fst (snd r)) (fst (snd (snd r))) (snd (snd (snd r)))
               (fst r) (fst (snd (snd r))) (fst c) (snd c) = Done (d1, d2)"
      unfolding obind_Done by blast
    have "advance_routers cons1 cons2 i1 iter1 i2 iter2 =
        Done (fst r, fst (snd r), fst (snd (snd r)), snd (snd (snd r)))" using r by simp
    note b = advance_routers_start [OF "1.prems"(1) this]
    have "chunk_changes cons1 cons2 start1 (fst r) start2 (fst (snd (snd r))) c1 c2 = Done (fst c, snd c)"
      using c by simp
    from chunk_changes_inv [OF "1.prems"(1) b this]
    show ?thesis using "1.IH" [OF _ r c _ rest] True by blast
  qed
qed

lemma chunk_inv_init:
  "chunk_inv cons1 cons2 (-1) (-1) 0 0 (replicate (length cons1) False) (replicate (length cons2) False)"
  by (simp add: chunk_inv_def clear_def kept_def)

section \<open>Writing the commands\<close>

text \<open>\<open>n1\<close> and \<open>n2\<close> are \<open>i1 + 1\<close> and \<open>i2 + 1\<close>, the numbers of lines still to look at.\<close>

fun back_changed :: "bool list \<Rightarrow> nat \<Rightarrow> nat" where
  "back_changed c 0 = 0"
| "back_changed c (Suc n) = (if c ! n then back_changed c n else Suc n)"

lemma back_changed_le: "back_changed c n \<le> n"
  by (induction c n rule: back_changed.induct) auto

definition ed_command :: "nat \<Rightarrow> nat \<Rightarrow> nat \<Rightarrow> string" where
  "ed_command start1x added deleted =
     (if added = 0
      then (if deleted = 1 then dec_nat (start1x + 1) @ ''d''
            else dec_nat (start1x + 1) @ '','' @ dec_nat (start1x + deleted) @ ''d'')
      else if deleted = 0 then dec_nat start1x @ ''a''
      else if deleted = 1 then dec_nat (start1x + 1) @ ''c''
      else dec_nat (start1x + 1) @ '','' @ dec_nat (start1x + deleted) @ ''c'')"

fun add_lines :: "cdline list \<Rightarrow> cdline list outcome" where
  "add_lines [] = Done []"
| "add_lines (l # ls) =
     (if line_str_eq l ''.'' then Fail else obind (add_lines ls) (\<lambda>r. Done (l # r)))"

function write_commands ::
  "cdline list \<Rightarrow> bool list \<Rightarrow> bool list \<Rightarrow> nat \<Rightarrow> nat \<Rightarrow> cdline list outcome" where
  "write_commands cons2 c1 c2 n1 n2 =
     (if n1 = 0 \<and> n2 = 0 then Done []
      else if \<not> (n1 > 0 \<and> c1 ! (n1 - 1)) \<and> \<not> (n2 > 0 \<and> c2 ! (n2 - 1))
      then write_commands cons2 c1 c2 (n1 - 1) (n2 - 1)
      else
        let m1 = back_changed c1 n1; m2 = back_changed c2 n2;
            added = n2 - m2; deleted = n1 - m1
        in if added = 0
           then obind (write_commands cons2 c1 c2 m1 m2) (\<lambda>r. Done (ed_command m1 added deleted # r))
           else obind (add_lines (take added (drop m2 cons2))) (\<lambda>ls.
                obind (write_commands cons2 c1 c2 m1 m2) (\<lambda>r.
                  Done (ed_command m1 added deleted # ls @ [''.''] @ r))))"
  by pat_completeness auto
termination
proof (relation "measure (\<lambda>(l2, c1, c2, n1, n2). n1 + n2)", goal_cases)
  case (3 cons2 c1 c2 n1 n2 x xa xb xc)
  then show ?case
    using back_changed_le [of c1 n1] back_changed_le [of c2 n2] back_changed_le [of c1 "n1 - 1"]
      back_changed_le [of c2 "n2 - 1"] by (cases n1; cases n2) auto
next
  case (4 cons2 c1 c2 n1 n2 x xa xb xc xd)
  then show ?case
    using back_changed_le [of c1 n1] back_changed_le [of c2 n2] back_changed_le [of c1 "n1 - 1"]
      back_changed_le [of c2 "n2 - 1"] by (cases n1; cases n2) auto
qed auto

declare write_commands.simps [simp del]

definition gen_ed_diff :: "cdline list \<Rightarrow> cdline list \<Rightarrow> cdline list outcome" where
  "gen_ed_diff cons1_orig cons2 =
     (case preprocess_consensus cons1_orig of (cons1, remove_trailer) \<Rightarrow>
        obind (chunk_loop cons1 cons2 (-1) ROUTER_ID_ITERATOR_INIT (-1) ROUTER_ID_ITERATOR_INIT 0 0
                 (replicate (length cons1) False) (replicate (length cons2) False)) (\<lambda>(c1, c2).
        obind (write_commands cons2 c1 c2 (length cons1) (length cons2)) (\<lambda>cmds.
          Done ((case remove_trailer of Some t \<Rightarrow> [t] | None \<Rightarrow> []) @ cmds))))"

section \<open>Running a script\<close>

definition get_linenum :: "string \<Rightarrow> (int \<times> string) outcome" where
  "get_linenum s =
     (if s = [] \<or> \<not> TOR_ISDIGIT (hd s) then Fail
      else case tor_parse_long s 0 2147483647 True of
             (num, ok, rest) \<Rightarrow> if ok then Done (num, rest) else Fail)"

text \<open>The address, up to the position behind it: \<open>had_range\<close>, \<open>end\<close>, \<open>end_was_eof\<close>.\<close>

definition ed_range :: "int \<Rightarrow> int \<Rightarrow> string \<Rightarrow> (bool \<times> int \<times> bool \<times> string) outcome" where
  "ed_range cons1_len start ptr =
     (if ptr \<noteq> [] \<and> hd ptr = CHR '',''
      then obind (if tl ptr \<noteq> [] \<and> hd (tl ptr) = CHR ''$''
                  then Done (cons1_len, True, tl (tl ptr))
                  else obind (get_linenum (tl ptr)) (\<lambda>(e, p). Done (e, False, p)))
             (\<lambda>(e, eof, p). if e \<le> start then Fail else Done (True, e, eof, p))
      else Done (False, start, False, ptr))"

definition parse_ed_command :: "int \<Rightarrow> int \<Rightarrow> cdline \<Rightarrow> (int \<times> int \<times> char) outcome" where
  "parse_ed_command cons1_len j diff_cdline =
     (if length diff_cdline > 127 then Fail
      else obind (get_linenum (cstr diff_cdline)) (\<lambda>(start, ptr).
           obind (ed_range cons1_len start ptr) (\<lambda>(had_range, e, end_was_eof, p).
             if e > j then Fail
             else if p = [] then Fail
             else if tl p \<noteq> [] then Fail
             else let action = hd p in
               if action \<notin> {CHR ''a'', CHR ''c'', CHR ''d''} then Fail
               else if end_was_eof \<and> action \<noteq> CHR ''d'' then Fail
               else if had_range \<and> action = CHR ''a'' then Fail
               else Done (start, e, action))))"

text \<open>
  The command loop: the rest of the script, the lines of the base document not yet used
  (\<open>j\<close>), and the new document from its end (\<open>cons2\<close> of the code, reversed at the end).
\<close>

function apply_loop ::
  "cdline list \<Rightarrow> cdline list \<Rightarrow> int \<Rightarrow> cdline list \<Rightarrow> (int \<times> cdline list) outcome" where
  "apply_loop cons1 [] j acc = Done (j, acc)"
| "apply_loop cons1 (l # ls) j acc =
     obind (parse_ed_command (int (length cons1)) j l) (\<lambda>cmd.
       case cmd of (start, e, action) \<Rightarrow>
         let acc1 = acc @ rev (drop (nat e) (take (nat j) cons1));
             j1 = (if action = CHR ''c'' \<or> action = CHR ''d'' then start - 1 else e)
         in if action = CHR ''a'' \<or> action = CHR ''c''
            then let added = takeWhile (\<lambda>x. \<not> line_str_eq x ''.'') ls;
                     rest = dropWhile (\<lambda>x. \<not> line_str_eq x ''.'') ls
                 in if rest = [] then Fail
                    else if added = [] then Fail
                    else apply_loop cons1 (tl rest) j1 (acc1 @ rev added)
            else apply_loop cons1 ls j1 acc1)"
  by pat_completeness auto
termination
proof (relation "measure (\<lambda>(c, ls, j, acc). length ls)", goal_cases)
  case (2 cons1 l ls j acc x a b aa ba xb xc xd xe)
  then show ?case using length_dropWhile_le [of "\<lambda>x. \<not> line_str_eq x ''.''" ls]
    by (cases xe) auto
qed auto

definition apply_ed_diff :: "cdline list \<Rightarrow> cdline list \<Rightarrow> nat \<Rightarrow> cdline list outcome" where
  "apply_ed_diff cons1 diff diff_starting_line =
     obind (apply_loop cons1 (drop diff_starting_line diff) (int (length cons1)) []) (\<lambda>(j, acc).
       Done (rev (acc @ rev (take (nat j) cons1))))"

section \<open>Parsing what was written\<close>

lemma cstr_id: "NUL \<notin> set s \<Longrightarrow> cstr s = s"
  by (auto simp: cstr_def intro: takeWhile_eq_all_conv [THEN iffD2])

lemma dec_nat_no_NUL [simp]: "NUL \<notin> set (dec_nat n)"
  using dec_nat_digits [of n] by (auto simp: list_all_iff TOR_ISDIGIT_iff)

lemma dec_nat_hd [simp]: "TOR_ISDIGIT (hd (dec_nat n @ rest))"
  using dec_nat_digits [of n] dec_nat_nonempty [of n] by (cases "dec_nat n") auto

lemma dec_nat_hd1 [simp]: "TOR_ISDIGIT (hd (dec_nat n))"
  using dec_nat_hd [of n "[]"] by simp

lemma get_linenum_dec:
  assumes "no_digit_ahead rest" "n \<le> INT_MAX"
  shows "get_linenum (dec_nat n @ rest) = Done (int n, rest)"
  using tor_parse_long_dec_nat [of rest 0 n 2147483647] assms
  by (simp add: get_linenum_def INT_MAX_def LONG_MAX_def)

lemma dec_nat_short: "n \<le> INT_MAX \<Longrightarrow> length (dec_nat n) \<le> 10"
  by (rule length_dec_nat_le) (auto simp: INT_MAX_def)

lemma no_digit_ahead_char [simp]:
  "no_digit_ahead (CHR '','' # s)" "no_digit_ahead (CHR ''a'' # s)" "no_digit_ahead (CHR ''c'' # s)"
  "no_digit_ahead (CHR ''d'' # s)" "no_digit_ahead []"
  by (simp_all add: no_digit_ahead_def TOR_ISDIGIT_iff)

lemma parse_single:
  assumes "n \<le> INT_MAX" "int n \<le> j" "act = CHR ''a'' \<or> act = CHR ''c'' \<or> act = CHR ''d''"
  shows "parse_ed_command len j (dec_nat n @ [act]) = Done (int n, int n, act)"
proof -
  have "cstr (dec_nat n @ [act]) = dec_nat n @ [act]" using assms(3) by (intro cstr_id) auto
  moreover have "get_linenum (dec_nat n @ [act]) = Done (int n, [act])"
    using assms by (intro get_linenum_dec) auto
  moreover have "\<not> length (dec_nat n @ [act]) > 127" using dec_nat_short [OF assms(1)] by simp
  ultimately show ?thesis using assms by (auto simp: parse_ed_command_def ed_range_def Let_def)
qed

lemma parse_pair:
  assumes "n < m" "m \<le> INT_MAX" "int m \<le> j" "act = CHR ''c'' \<or> act = CHR ''d''"
  shows "parse_ed_command len j (dec_nat n @ '','' @ dec_nat m @ [act]) = Done (int n, int m, act)"
proof -
  have "cstr (dec_nat n @ '','' @ dec_nat m @ [act]) = dec_nat n @ '','' @ dec_nat m @ [act]"
    using assms(4) by (intro cstr_id) auto
  moreover have "get_linenum (dec_nat n @ '','' @ dec_nat m @ [act]) = Done (int n, '','' @ dec_nat m @ [act])"
    using assms by (intro get_linenum_dec) auto
  moreover have g: "get_linenum (dec_nat m @ [act]) = Done (int m, [act])"
    using assms by (intro get_linenum_dec) auto
  moreover have "\<not> length (dec_nat n @ '','' @ dec_nat m @ [act]) > 127"
    using dec_nat_short [of n] dec_nat_short [of m] assms(1,2) by simp
  moreover have "hd (dec_nat m @ [act]) \<noteq> CHR ''$''"
    using dec_nat_hd [of m "[act]"] by (auto simp: TOR_ISDIGIT_iff simp del: dec_nat_hd)
  ultimately show ?thesis using assms by (auto simp: parse_ed_command_def ed_range_def Let_def)
qed

lemma parse_eof:
  assumes "n \<le> INT_MAX" "int n < len" "len \<le> j"
  shows "parse_ed_command len j (dec_nat n @ '',$d'') = Done (int n, len, CHR ''d'')"
proof -
  have "cstr (dec_nat n @ '',$d'') = dec_nat n @ '',$d''" by (intro cstr_id) auto
  moreover have "get_linenum (dec_nat n @ '',$d'') = Done (int n, '',$d'')"
    using assms by (intro get_linenum_dec) auto
  moreover have "\<not> length (dec_nat n @ '',$d'') > 127" using dec_nat_short [OF assms(1)] by simp
  ultimately show ?thesis using assms by (auto simp: parse_ed_command_def ed_range_def Let_def)
qed

text \<open>The script's own commands read back as start, end and action.\<close>

definition ed_action :: "nat \<Rightarrow> nat \<Rightarrow> char" where
  "ed_action added deleted =
     (if added = 0 then CHR ''d'' else if deleted = 0 then CHR ''a'' else CHR ''c'')"

lemma parse_ed_command_written:
  assumes "m + deleted \<le> INT_MAX" "int (m + deleted) \<le> j" "added > 0 \<or> deleted > 0"
  shows "parse_ed_command len j (ed_command m added deleted) =
    Done (int (if deleted = 0 then m else m + 1), int (m + deleted), ed_action added deleted)"
  using assms parse_single [of "m + deleted" j "ed_action added deleted" len]
    parse_pair [of "m + 1" "m + deleted" j "ed_action added deleted" len]
  by (cases "deleted = 0"; cases "deleted = 1"; cases "added = 0")
     (simp_all add: ed_command_def ed_action_def del: append_Cons append_Nil)

section \<open>A script rebuilds its target\<close>

lemma kept_Suc: "kept l c 0 (Suc n) = kept l c 0 n @ (if c ! n then [] else [l ! n])"
  by (simp add: kept_def)

lemma kept_back_changed: "kept l c 0 (back_changed c n) = kept l c 0 n"
  by (induction c n rule: back_changed.induct) (auto simp: kept_Suc)

lemma back_changed_less: "n > 0 \<Longrightarrow> c ! (n - 1) \<Longrightarrow> back_changed c n < n"
  using back_changed_le [of c "n - 1"] by (cases n) auto

lemma add_lines_Done: "add_lines ls = Done r \<Longrightarrow> r = ls \<and> (\<forall>x \<in> set ls. \<not> line_str_eq x ''.'')"
  by (induction ls arbitrary: r) (auto simp: outcome_elims split: if_splits)

lemma takeWhile_dot:
  assumes "\<forall>x \<in> set ls. \<not> line_str_eq x ''.''"
  shows "takeWhile (\<lambda>x. \<not> line_str_eq x ''.'') (ls @ ''.'' # r) = ls"
    and "dropWhile (\<lambda>x. \<not> line_str_eq x ''.'') (ls @ ''.'' # r) = ''.'' # r"
  using assms by (simp_all add: line_str_eq_def lines_eq_def)

text \<open>One written command takes the base document from \<open>m + deleted\<close> down to \<open>m\<close>.\<close>

lemma apply_written:
  assumes "m + deleted \<le> j" "j \<le> INT_MAX" "ls \<noteq> [] \<or> deleted > 0"
    and "\<forall>x \<in> set ls. \<not> line_str_eq x ''.''"
  shows "apply_loop cons1 (ed_command m (length ls) deleted # (if ls = [] then r else ls @ [''.''] @ r)) (int j) acc =
    apply_loop cons1 r (int m) (acc @ rev (drop (m + deleted) (take j cons1)) @ rev ls)"
proof -
  have p: "parse_ed_command (int (length cons1)) (int j) (ed_command m (length ls) deleted) =
    Done (int (if deleted = 0 then m else m + 1), int (m + deleted), ed_action (length ls) deleted)"
    using assms by (intro parse_ed_command_written) auto
  show ?thesis
  proof (cases "ls = []")
    case True
    then show ?thesis using p assms(3) by (simp add: ed_action_def nat_int_add)
  next
    case False
    note tw = takeWhile_dot [OF assms(4), of r]
    have "apply_loop cons1 (ed_command m (length ls) deleted # (ls @ ''.'' # r)) (int j) acc =
      apply_loop cons1 r (if deleted = 0 then int (m + deleted) else int (m + 1) - 1)
        (acc @ rev (drop (m + deleted) (take j cons1)) @ rev ls)"
      using p False by (simp add: tw ed_action_def Let_def nat_int_add)
    then show ?thesis using False by simp
  qed
qed

lemma take_drop_back: "m \<le> n \<Longrightarrow> n \<le> length l \<Longrightarrow> take n l = take m l @ take (n - m) (drop m l)"
  by (metis le_add_diff_inverse take_add)

definition rebuilt :: "cdline list \<Rightarrow> (int \<times> cdline list) outcome \<Rightarrow> cdline list outcome" where
  "rebuilt cons1 r = obind r (\<lambda>(j, acc). Done (rev (acc @ rev (take (nat j) cons1))))"

lemma kept_lines_in_step:
  assumes "kept cons1 c1 0 n1 = kept cons2 c2 0 n2" "\<not> (n1 = 0 \<and> n2 = 0)"
    and "\<not> (n1 > 0 \<and> c1 ! (n1 - 1)) \<and> \<not> (n2 > 0 \<and> c2 ! (n2 - 1))"
  obtains k1 k2 where "n1 = Suc k1" "n2 = Suc k2" "kept cons1 c1 0 k1 = kept cons2 c2 0 k2" "cons1 ! k1 = cons2 ! k2"
proof (cases n1)
  case 0
  with assms(2,3) obtain k where "n2 = Suc k" "\<not> c2 ! k" by (cases n2) auto
  with 0 assms(1) have False by (simp add: kept_Suc) (simp add: kept_def)
  then show thesis ..
next
  case (Suc k1)
  with assms(3) have c1: "\<not> c1 ! k1" by simp
  show thesis
  proof (cases n2)
    case 0
    with Suc c1 assms(1) have False by (simp add: kept_Suc) (simp add: kept_def)
    then show thesis ..
  next
    case (Suc k2)
    with assms(3) have c2: "\<not> c2 ! k2" by simp
    with assms(1) c1 have "kept cons1 c1 0 k1 = kept cons2 c2 0 k2 \<and> cons1 ! k1 = cons2 ! k2"
      unfolding \<open>n1 = Suc k1\<close> Suc kept_Suc by simp
    with \<open>n1 = Suc k1\<close> Suc that show thesis by blast
  qed
qed

lemma write_commands_command:
  assumes "write_commands cons2 c1 c2 n1 n2 = Done cmds" "\<not> (n1 = 0 \<and> n2 = 0)"
    and "\<not> (\<not> (n1 > 0 \<and> c1 ! (n1 - 1)) \<and> \<not> (n2 > 0 \<and> c2 ! (n2 - 1)))"
    and "m1 = back_changed c1 n1" "m2 = back_changed c2 n2" "ls = take (n2 - m2) (drop m2 cons2)" "length ls = n2 - m2"
  obtains r where "write_commands cons2 c1 c2 m1 m2 = Done r" "\<forall>x \<in> set ls. \<not> line_str_eq x ''.''"
    and "cmds = ed_command m1 (length ls) (n1 - m1) # (if ls = [] then r else ls @ [''.''] @ r)"
    and "n2 - m2 \<noteq> 0 \<Longrightarrow> add_lines ls = Done ls"
proof -
  have body: "if n2 - m2 = 0
     then obind (write_commands cons2 c1 c2 m1 m2) (\<lambda>r. Done (ed_command m1 (n2 - m2) (n1 - m1) # r)) = Done cmds
     else obind (add_lines ls) (\<lambda>l. obind (write_commands cons2 c1 c2 m1 m2) (\<lambda>r.
            Done (ed_command m1 (n2 - m2) (n1 - m1) # l @ [''.''] @ r))) = Done cmds"
    using assms(1) [unfolded write_commands.simps [of cons2 c1 c2 n1 n2]]
    unfolding if_not_P [OF assms(2)] if_not_P [OF assms(3)] by (simp add: Let_def assms(4-6) split: if_splits)
  show thesis
  proof (cases "n2 - m2 = 0")
    case True
    with body assms(7) that show thesis by (auto simp: obind_Done)
  next
    case False
    with body obtain l r where lr: "add_lines ls = Done l" "write_commands cons2 c1 c2 m1 m2 = Done r"
      "cmds = ed_command m1 (n2 - m2) (n1 - m1) # l @ [''.''] @ r" by (auto simp: obind_Done)
    have "ls \<noteq> []" using False assms(7) by auto
    with that [of r] lr add_lines_Done [OF lr(1)] assms(7) show thesis by simp
  qed
qed

lemma write_commands_apply:
  "write_commands cons2 c1 c2 n1 n2 = Done cmds \<Longrightarrow> n1 \<le> j \<Longrightarrow> j \<le> length cons1 \<Longrightarrow> j \<le> INT_MAX \<Longrightarrow>
    n2 \<le> length cons2 \<Longrightarrow> kept cons1 c1 0 n1 = kept cons2 c2 0 n2 \<Longrightarrow>
      rebuilt cons1 (apply_loop cons1 cmds (int j) acc) =
      Done (take n2 cons2 @ drop n1 (take j cons1) @ rev acc)"
proof (induction cons2 c1 c2 n1 n2 arbitrary: j acc cmds rule: write_commands.induct)
  case (1 cons2 c1 c2 n1 n2)
  note step = "1.prems"(1) [unfolded write_commands.simps [of cons2 c1 c2 n1 n2]]
  let ?s1 = "n1 > 0 \<and> c1 ! (n1 - 1)" and ?s2 = "n2 > 0 \<and> c2 ! (n2 - 1)"
  consider (fin) "n1 = 0 \<and> n2 = 0" | (skip) "\<not> (n1 = 0 \<and> n2 = 0)" "\<not> ?s1 \<and> \<not> ?s2"
    | (cmd) "\<not> (n1 = 0 \<and> n2 = 0)" "\<not> (\<not> ?s1 \<and> \<not> ?s2)" by blast
  then show ?case
  proof cases
    case fin
    with step show ?thesis by (simp add: rebuilt_def)
  next
    case skip
    from kept_lines_in_step [OF "1.prems"(6) skip] obtain k1 k2 where k: "n1 = Suc k1" "n2 = Suc k2"
      "kept cons1 c1 0 k1 = kept cons2 c2 0 k2" "cons1 ! k1 = cons2 ! k2" .
    have "write_commands cons2 c1 c2 (n1 - 1) (n2 - 1) = Done cmds" using step skip by simp
    from "1.IH"(1) [OF skip this, of j acc] k "1.prems"
    have "rebuilt cons1 (apply_loop cons1 cmds (int j) acc) =
        Done (take k2 cons2 @ drop k1 (take j cons1) @ rev acc)" by simp
    moreover have "drop k1 (take j cons1) = cons1 ! k1 # drop n1 (take j cons1)"
      using "1.prems" k Cons_nth_drop_Suc [of k1 "take j cons1"] by simp
    moreover have "take n2 cons2 = take k2 cons2 @ [cons2 ! k2]"
      using "1.prems" k by (simp add: take_Suc_conv_app_nth)
    ultimately show ?thesis using k by simp
  next
    case cmd
    define m1 where "m1 = back_changed c1 n1"
    define m2 where "m2 = back_changed c2 n2"
    define ls where "ls = take (n2 - m2) (drop m2 cons2)"
    have m: "m1 \<le> n1" "m2 \<le> n2" using back_changed_le by (simp_all add: m1_def m2_def)
    have ln: "length ls = n2 - m2" using m "1.prems" by (simp add: ls_def)
    have prog: "n2 - m2 > 0 \<or> n1 - m1 > 0"
      using cmd back_changed_less [of n1 c1] back_changed_less [of n2 c2] by (auto simp: m1_def m2_def)
    have kk: "kept cons1 c1 0 m1 = kept cons2 c2 0 m2"
      using "1.prems"(6) by (simp add: m1_def m2_def kept_back_changed)
    obtain r where r: "write_commands cons2 c1 c2 m1 m2 = Done r"
      and dot: "\<forall>x \<in> set ls. \<not> line_str_eq x ''.''"
      and cs: "cmds = ed_command m1 (length ls) (n1 - m1) # (if ls = [] then r else ls @ [''.''] @ r)"
      and al: "n2 - m2 \<noteq> 0 \<Longrightarrow> add_lines ls = Done ls"
      by (rule write_commands_command [OF "1.prems"(1) cmd m1_def m2_def ls_def ln], rule that) assumption+
    have ih: "rebuilt cons1 (apply_loop cons1 r (int m1) acc') =
        Done (take m2 cons2 @ drop m1 (take m1 cons1) @ rev acc')" for acc'
      using "1.IH"(2) [OF cmd m1_def m2_def refl refl _ r] "1.IH"(3) [OF cmd m1_def m2_def refl refl _ _ r]
        al [unfolded ls_def] kk m "1.prems" by (cases "n2 - m2 = 0") simp_all
    have "apply_loop cons1 cmds (int j) acc =
        apply_loop cons1 r (int m1) (acc @ rev (drop n1 (take j cons1)) @ rev ls)"
      unfolding cs using ln prog dot "1.prems"
      by (subst apply_written [where r = r]) (auto simp: m(1))
    then show ?thesis
      using ih take_drop_back [OF m(2) "1.prems"(5)] by (simp add: ls_def)
  qed
qed

lemma dirsig_idx_bound: "dirsig_idx ls i = Some k \<Longrightarrow> i \<le> k \<and> k < i + length ls"
  by (induction ls i rule: dirsig_idx.induct) (auto split: if_splits)

lemma kept_take: "n \<le> i \<Longrightarrow> kept (take i l) c 0 n = kept l c 0 n"
  by (auto simp: kept_def)

lemma gen_ed_diffD:
  assumes "gen_ed_diff cons1 cons2 = Done d"
  obtains i trailer c1 c2 cmds where
    "preprocess_consensus cons1 = (take i cons1, trailer)" "i \<le> length cons1"
    "kept cons1 c1 0 i = kept cons2 c2 0 (length cons2)"
    "write_commands cons2 c1 c2 i (length cons2) = Done cmds"
    "d = (case trailer of Some t \<Rightarrow> [t] | None \<Rightarrow> []) @ cmds"
    "dirsig_idx cons1 0 = None \<Longrightarrow> trailer = None \<and> i = length cons1"
    "\<And>k. dirsig_idx cons1 0 = Some k \<Longrightarrow> i = k \<and> trailer = Some (dec_nat (k + 1) @ '',$d'')"
proof -
  define i where "i = (case dirsig_idx cons1 0 of Some k \<Rightarrow> k | None \<Rightarrow> length cons1)"
  define trailer where "trailer = (case dirsig_idx cons1 0 of Some k \<Rightarrow> Some (dec_nat (k + 1) @ '',$d'') | None \<Rightarrow> None)"
  have pre: "preprocess_consensus cons1 = (take i cons1, trailer)"
    by (auto simp: preprocess_consensus_def i_def trailer_def split: option.splits)
  have i: "i \<le> length cons1" by (auto simp: i_def dest: dirsig_idx_bound split: option.splits)
  then have li: "length (take i cons1) = i" by simp
  from assms pre obtain c1 c2 cmds where
    cl: "chunk_loop (take i cons1) cons2 (-1) ROUTER_ID_ITERATOR_INIT (-1) ROUTER_ID_ITERATOR_INIT 0 0
      (replicate (length (take i cons1)) False) (replicate (length cons2) False) = Done (c1, c2)"
    and wc: "write_commands cons2 c1 c2 (length (take i cons1)) (length cons2) = Done cmds"
    and d: "d = (case trailer of Some t \<Rightarrow> [t] | None \<Rightarrow> []) @ cmds"
    unfolding gen_ed_diff_def by (auto simp: obind_Done)
  have "kept cons1 c1 0 i = kept cons2 c2 0 (length cons2)"
    using chunk_loop_kept [OF chunk_inv_init cl] by (simp add: i kept_take min_absorb2)
  with that [OF pre i _ wc [unfolded li] d] show thesis
    by (auto simp: i_def trailer_def)
qed

text \<open>The condition on the signatures: the command that deletes them has to name a real range.\<close>

definition sigs_deletable :: "cdline list \<Rightarrow> bool" where
  "sigs_deletable cons = (case dirsig_idx cons 0 of None \<Rightarrow> True | Some k \<Rightarrow> k + 1 < length cons)"

lemma apply_ed_diff_rebuilt:
  "apply_ed_diff cons1 d 0 = rebuilt cons1 (apply_loop cons1 d (int (length cons1)) [])"
  by (simp add: apply_ed_diff_def rebuilt_def)

lemma gen_ed_diff_applies:
  assumes gen: "gen_ed_diff cons1 cons2 = Done d" and len: "length cons1 \<le> INT_MAX"
    and sig: "sigs_deletable cons1"
  shows "apply_ed_diff cons1 d 0 = Done cons2"
proof -
  obtain i trailer c1 c2 cmds where
    g: "i \<le> length cons1" "kept cons1 c1 0 i = kept cons2 c2 0 (length cons2)"
    "write_commands cons2 c1 c2 i (length cons2) = Done cmds"
    "d = (case trailer of Some t \<Rightarrow> [t] | None \<Rightarrow> []) @ cmds"
    and n: "dirsig_idx cons1 0 = None \<Longrightarrow> trailer = None \<and> i = length cons1"
    and s: "\<And>k. dirsig_idx cons1 0 = Some k \<Longrightarrow> i = k \<and> trailer = Some (dec_nat (k + 1) @ '',$d'')"
  proof (rule gen_ed_diffD [OF gen], goal_cases)
    case (1 i trailer c1 c2 cmds)
    show ?case by (rule 1(1)) (fact 1)+
  qed
  have wa: "rebuilt cons1 (apply_loop cons1 cmds (int i) acc) = Done (cons2 @ rev acc)" for acc
    using write_commands_apply [OF g(3) le_refl g(1) _ le_refl g(2), of acc] g(1) len by simp
  show ?thesis
  proof (cases "dirsig_idx cons1 0")
    case None
    with n g(4) wa [of "[]"] show ?thesis by (simp add: apply_ed_diff_rebuilt)
  next
    case (Some k)
    with sig have k: "k + 1 < length cons1" by (simp add: sigs_deletable_def)
    from k len have "parse_ed_command (int (length cons1)) (int (length cons1)) (dec_nat (k + 1) @ '',$d'') =
        Done (int (k + 1), int (length cons1), CHR ''d'')"
      by (intro parse_eof) auto
    with s [OF Some] g(4) wa [of "[]"] show ?thesis by (simp add: apply_ed_diff_rebuilt)
  qed
qed

text \<open>A signature section of one line gives the command \<open>n,$d\<close> for the last line \<open>n\<close>.\<close>

lemma gen_ed_diff_one_line_signature:
  assumes gen: "gen_ed_diff cons1 cons2 = Done d" and len: "length cons1 \<le> INT_MAX"
    and sig: "dirsig_idx cons1 0 = Some (length cons1 - 1)"
  shows "apply_ed_diff cons1 d 0 = Fail"
proof -
  have "length cons1 > 0" using dirsig_idx_bound [OF sig] by linarith
  then have l: "length cons1 - 1 + 1 = length cons1" by linarith
  obtain trailer cmds where d: "d = (case trailer of Some t \<Rightarrow> [t] | None \<Rightarrow> []) @ cmds"
    "trailer = Some (dec_nat (length cons1 - 1 + 1) @ '',$d'')"
    by (rule gen_ed_diffD [OF gen]) (use sig in blast)
  have "d = (dec_nat (length cons1) @ '',$d'') # tl d" unfolding d l by simp
  moreover have "parse_ed_command (int (length cons1)) (int (length cons1)) (dec_nat (length cons1) @ '',$d'') = Fail"
  proof -
    have "get_linenum (dec_nat (length cons1) @ '',$d'') = Done (int (length cons1), '',$d'')"
      using len by (intro get_linenum_dec) auto
    moreover have "cstr (dec_nat (length cons1) @ '',$d'') = dec_nat (length cons1) @ '',$d''"
      by (intro cstr_id) auto
    ultimately show ?thesis by (simp add: parse_ed_command_def ed_range_def)
  qed
  ultimately have "apply_loop cons1 d (int (length cons1)) [] = Fail"
    using apply_loop.simps(2) [of cons1 "dec_nat (length cons1) @ '',$d''" "tl d" "int (length cons1)" "[]"] by simp
  then show ?thesis by (simp add: apply_ed_diff_rebuilt rebuilt_def)
qed

section \<open>No assertion fails, and sorted documents have a script\<close>

text \<open>An iterator holds no empty hash, so no comparison reads past the end of one.\<close>

definition iter_ok :: "router_id_iterator \<Rightarrow> bool" where
  "iter_ok it \<longleftrightarrow> cur_hash it \<noteq> Some []"

text \<open>The router entries from a line on have ascending hashes, all above \<open>prev\<close>.\<close>

fun routers_ascending :: "cdline list \<Rightarrow> string option \<Rightarrow> bool" where
  "routers_ascending [] prev = True"
| "routers_ascending (l # ls) prev =
     (if is_valid_router_entry l
      then (case base64cmp (get_id_hash l) prev of Done c \<Rightarrow> c > 0 | _ \<Rightarrow> False) \<and>
           routers_ascending ls (get_id_hash l)
      else routers_ascending ls prev)"

lemma routers_ascending_take: "routers_ascending ls prev \<Longrightarrow> routers_ascending (take n ls) prev"
  by (induction ls prev arbitrary: n rule: routers_ascending.induct) (auto simp: take_Cons' split: if_splits)

lemma scan_router_ascending:
  "routers_ascending ls prev \<Longrightarrow> scan_router ls cur < cur + int (length ls) \<Longrightarrow>
     is_valid_router_entry (ls ! nat (scan_router ls cur - cur)) \<and>
     (\<exists>c > 0. base64cmp (get_id_hash (ls ! nat (scan_router ls cur - cur))) prev = Done c) \<and>
     routers_ascending (drop (Suc (nat (scan_router ls cur - cur))) ls)
       (get_id_hash (ls ! nat (scan_router ls cur - cur)))"
proof (induction ls cur rule: scan_router.induct)
  case (2 l ls cur)
  show ?case
  proof (cases "is_valid_router_entry l")
    case True
    with 2 show ?thesis by (auto split: outcome.splits)
  next
    case False
    have "nat (scan_router ls (cur + 1) - cur) = Suc (nat (scan_router ls (cur + 1) - (cur + 1)))"
      using scan_router_bounds [of "cur + 1" ls] by linarith
    with False 2 show ?thesis by simp
  qed
qed simp

lemma base64cmp_loop_total: "a \<noteq> [] \<Longrightarrow> b \<noteq> [] \<Longrightarrow> base64cmp_loop a b \<noteq> Stuck \<and> base64cmp_loop a b \<noteq> Fail"
  by (induction a b rule: base64cmp_loop.induct) (auto simp: Let_def)

lemma base64cmp_Done: "h1 \<noteq> Some [] \<Longrightarrow> h2 \<noteq> Some [] \<Longrightarrow> \<exists>c. base64cmp h1 h2 = Done c"
  using base64cmp_loop_total
  by (cases h1; cases h2; cases "base64cmp h1 h2") (auto simp: base64cmp_def)

lemma get_id_hash_nonempty: "get_id_hash l \<noteq> Some []"
  by (auto simp: get_id_hash_def Let_def split: if_splits option.splits)

lemma find_next_total:
  assumes "-1 \<le> idx" "idx < int (length cons)" "iter_ok it"
  shows "find_next_router_line cons idx it \<noteq> Stuck"
    and "find_next_router_line cons idx it = Done k \<Longrightarrow> iter_ok (snd k) \<and> idx < fst k \<and> fst k \<le> int (length cons)"
proof -
  let ?i = "scan_router (drop (nat (idx + 1)) cons) (idx + 1)"
  have nr: "next_router cons idx = Done ?i" using assms by (simp add: next_router_def)
  show "find_next_router_line cons idx it \<noteq> Stuck"
    using base64cmp_Done [of _ "cur_hash it"] get_id_hash_nonempty assms(3)
    by (auto simp: find_next_router_line_def nr Let_def obind_Stuck iter_ok_def split: option.splits)
       (metis outcome.distinct(3))
  assume k: "find_next_router_line cons idx it = Done k"
  with find_next_bounds [of cons idx it "fst k" "snd k"]
  have "idx < fst k" "fst k \<le> int (length cons)" by simp_all
  moreover have "iter_ok (snd k)"
    using k get_id_hash_nonempty assms(3)
    by (auto simp: find_next_router_line_def nr Let_def obind_Done iter_ok_def split: if_splits option.splits)
  ultimately show "iter_ok (snd k) \<and> idx < fst k \<and> fst k \<le> int (length cons)" by simp
qed

text \<open>
  A position and its iterator; with \<open>st\<close> the entries ahead are ascending, and then no
  step fails either.
\<close>

definition pos_ok :: "bool \<Rightarrow> cdline list \<Rightarrow> int \<Rightarrow> router_id_iterator \<Rightarrow> bool" where
  "pos_ok st cons i it \<longleftrightarrow> -1 \<le> i \<and> i \<le> int (length cons) \<and> iter_ok it \<and>
     (st \<longrightarrow> i = int (length cons) \<or> routers_ascending (drop (nat (i + 1)) cons) (cur_hash it))"

lemma find_next_ascending:
  assumes "pos_ok True cons i it" "i < int (length cons)"
  shows "\<exists>k. find_next_router_line cons i it = Done k \<and> pos_ok True cons (fst k) (snd k)"
proof -
  let ?ls = "drop (nat (i + 1)) cons"
  let ?k = "scan_router ?ls (i + 1)"
  have i: "-1 \<le> i" and asc: "routers_ascending ?ls (cur_hash it)" and ok: "iter_ok it"
    using assms by (auto simp: pos_ok_def)
  have nr: "next_router cons i = Done ?k" using assms(2) i by (simp add: next_router_def)
  have bd: "i + 1 \<le> ?k" "?k \<le> int (length cons)"
    using scan_router_bounds [of "i + 1" ?ls] assms(2) i by auto
  show ?thesis
  proof (cases "?k < int (length cons)")
    case False
    with bd ok i show ?thesis by (simp add: find_next_router_line_def nr pos_ok_def)
  next
    case True
    then have lt: "?k < i + 1 + int (length ?ls)" using i by simp
    have nth: "?ls ! nat (?k - (i + 1)) = cons ! nat ?k"
      using bd i True by (simp add: nth_append nat_diff_distrib)
    have dr: "drop (Suc (nat (?k - (i + 1)))) ?ls = drop (nat (?k + 1)) cons"
      using bd i by (simp add: nat_diff_distrib nat_add_distrib)
    note sa = scan_router_ascending [OF asc lt, unfolded nth dr]
    then obtain h where h: "get_id_hash (cons ! nat ?k) = Some h"
      by (auto simp: is_valid_router_entry_def split: if_splits)
    with sa bd i get_id_hash_nonempty [of "cons ! nat ?k"] show ?thesis
      by (auto simp: find_next_router_line_def nr Let_def True pos_ok_def iter_ok_def)
  qed
qed

lemma find_next_pos_ok:
  assumes "pos_ok st cons i it" "i < int (length cons)"
  shows "find_next_router_line cons i it \<noteq> Stuck" "st \<Longrightarrow> find_next_router_line cons i it \<noteq> Fail"
    and "find_next_router_line cons i it = Done k \<Longrightarrow> pos_ok st cons (fst k) (snd k)"
proof -
  show "find_next_router_line cons i it \<noteq> Stuck" "st \<Longrightarrow> find_next_router_line cons i it \<noteq> Fail"
    using find_next_total [of i cons it] find_next_ascending [of cons i it] assms by (auto simp: pos_ok_def)
  assume "find_next_router_line cons i it = Done k"
  with find_next_total(2) [of i cons it k] find_next_ascending [of cons i it] assms
  show "pos_ok st cons (fst k) (snd k)" by (cases st) (auto simp: pos_ok_def)
qed

definition both_ok ::
  "bool \<Rightarrow> cdline list \<Rightarrow> cdline list \<Rightarrow> (int \<times> router_id_iterator \<times> int \<times> router_id_iterator) outcome \<Rightarrow> bool" where
  "both_ok st cons1 cons2 r =
     (case r of Stuck \<Rightarrow> False | Fail \<Rightarrow> \<not> st
      | Done (j1, it1, j2, it2) \<Rightarrow> pos_ok st cons1 j1 it1 \<and> pos_ok st cons2 j2 it2)"

lemma both_ok_bind:
  assumes "m \<noteq> Stuck" "st \<Longrightarrow> m \<noteq> Fail" "\<And>k. m = Done k \<Longrightarrow> both_ok st cons1 cons2 (f k)"
  shows "both_ok st cons1 cons2 (obind m f)"
  using assms by (cases m) (auto simp: both_ok_def)

lemma pos_ok_end: "pos_ok st cons i it \<Longrightarrow> pos_ok st cons (int (length cons)) it"
  by (simp add: pos_ok_def)

lemma sync_routers_ok:
  "pos_ok st cons1 i1 iter1 \<Longrightarrow> pos_ok st cons2 i2 iter2 \<Longrightarrow>
     both_ok st cons1 cons2 (sync_routers cons1 cons2 i1 iter1 i2 iter2)"
proof (induction cons1 cons2 i1 iter1 i2 iter2 rule: sync_routers.induct)
  case (1 cons1 cons2 i1 iter1 i2 iter2)
  note p = "1.prems"
  obtain cmp where cmp: "base64cmp (cur_hash iter1) (cur_hash iter2) = Done cmp"
    using base64cmp_Done p by (auto simp: pos_ok_def iter_ok_def)
  note unf = sync_routers.simps [of cons1 cons2 i1 iter1 i2 iter2]
  consider "cmp = 0" | "cmp \<noteq> 0" "i1 < int (length cons1) \<and> cmp < 0"
    | "cmp \<noteq> 0" "\<not> (i1 < int (length cons1) \<and> cmp < 0)" "i2 < int (length cons2) \<and> cmp > 0"
    | "cmp \<noteq> 0" "\<not> (i1 < int (length cons1) \<and> cmp < 0)" "\<not> (i2 < int (length cons2) \<and> cmp > 0)"
    by blast
  then show ?case
  proof cases
    case 1
    then show ?thesis using p cmp unfolding unf by (simp add: both_ok_def)
  next
    case 2
    have "both_ok st cons1 cons2 (obind (find_next_router_line cons1 i1 iter1) (\<lambda>r1.
        if fst r1 = int (length cons1) then Done (fst r1, snd r1, int (length cons2), iter2)
        else sync_routers cons1 cons2 (fst r1) (snd r1) i2 iter2))"
    proof (rule both_ok_bind)
      fix k assume f: "find_next_router_line cons1 i1 iter1 = Done k"
      with find_next_pos_ok(3) [OF p(1)] 2 have k: "pos_ok st cons1 (fst k) (snd k)" by blast
      with p(2) have "both_ok st cons1 cons2 (Done (fst k, snd k, int (length cons2), iter2))"
        by (simp add: both_ok_def pos_ok_end)
      with "1.IH"(1) [OF cmp 2 f _ k p(2)]
      show "both_ok st cons1 cons2 (if fst k = int (length cons1) then Done (fst k, snd k, int (length cons2), iter2)
        else sync_routers cons1 cons2 (fst k) (snd k) i2 iter2)"
        by (cases "fst k = int (length cons1)") simp_all
    qed (use find_next_pos_ok(1,2) [OF p(1)] 2 in blast)+
    then show ?thesis using 2 cmp unfolding unf by simp
  next
    case 3
    have "both_ok st cons1 cons2 (obind (find_next_router_line cons2 i2 iter2) (\<lambda>r2.
        if fst r2 = int (length cons2) then Done (int (length cons1), iter1, fst r2, snd r2)
        else sync_routers cons1 cons2 i1 iter1 (fst r2) (snd r2)))"
    proof (rule both_ok_bind)
      fix k assume f: "find_next_router_line cons2 i2 iter2 = Done k"
      with find_next_pos_ok(3) [OF p(2)] 3 have k: "pos_ok st cons2 (fst k) (snd k)" by blast
      with p(1) have "both_ok st cons1 cons2 (Done (int (length cons1), iter1, fst k, snd k))"
        by (cases k) (simp add: both_ok_def pos_ok_end)
      with "1.IH"(2) [OF cmp 3 f _ p(1) k]
      show "both_ok st cons1 cons2 (if fst k = int (length cons2) then Done (int (length cons1), iter1, fst k, snd k)
        else sync_routers cons1 cons2 i1 iter1 (fst k) (snd k))"
        by (cases "fst k = int (length cons2)") simp_all
    qed (use find_next_pos_ok(1,2) [OF p(2)] 3 in blast)+
    then show ?thesis using 3 cmp unfolding unf by auto
  next
    case 4
    then show ?thesis using p cmp unfolding unf by (auto simp: both_ok_def pos_ok_end)
  qed
qed

lemma find_or_stay_ok:
  assumes "pos_ok st cons i it"
  shows "(if i < int (length cons) then find_next_router_line cons i it else Done (i, it)) \<noteq> Stuck"
    and "st \<Longrightarrow> (if i < int (length cons) then find_next_router_line cons i it else Done (i, it)) \<noteq> Fail"
    and "(if i < int (length cons) then find_next_router_line cons i it else Done (i, it)) = Done k \<Longrightarrow>
      pos_ok st cons (fst k) (snd k)"
  using assms find_next_pos_ok [of st cons i it] by (auto split: if_splits)

lemma advance_routers_ok:
  assumes "pos_ok st cons1 i1 iter1" "pos_ok st cons2 i2 iter2"
  shows "both_ok st cons1 cons2 (advance_routers cons1 cons2 i1 iter1 i2 iter2)"
  unfolding advance_routers_def Let_def split_beta
proof (intro both_ok_bind find_or_stay_ok(1,2) [OF assms(1)] find_or_stay_ok(1,2) [OF assms(2)])
  fix k1 k2
  assume k: "(if i1 < int (length cons1) then find_next_router_line cons1 i1 iter1 else Done (i1, iter1)) = Done k1"
    "(if i2 < int (length cons2) then find_next_router_line cons2 i2 iter2 else Done (i2, iter2)) = Done k2"
  note p = find_or_stay_ok(3) [OF assms(1) k(1)] find_or_stay_ok(3) [OF assms(2) k(2)]
  from p have "both_ok st cons1 cons2 (Done (fst k1, snd k1, fst k2, snd k2))"
    by (simp only: both_ok_def outcome.case prod.case)
  with sync_routers_ok [OF p]
  show "both_ok st cons1 cons2
     (if fst k1 < int (length cons1) \<or> fst k2 < int (length cons2)
      then sync_routers cons1 cons2 (fst k1) (snd k1) (fst k2) (snd k2)
      else Done (fst k1, snd k1, fst k2, snd k2))" by presburger
qed

lemma chunk_changes_total:
  assumes inv: "chunk_inv cons1 cons2 i1 i2 start1 start2 c1 c2"
    and j: "start1 \<le> j1" "j1 \<le> int (length cons1)" "start2 \<le> j2" "j2 \<le> int (length cons2)"
  shows "chunk_changes cons1 cons2 start1 j1 start2 j2 c1 c2 \<noteq> Stuck"
    and "int (length cons1) \<le> MAX_LINE_COUNT \<Longrightarrow> int (length cons2) \<le> MAX_LINE_COUNT \<Longrightarrow>
      chunk_changes cons1 cons2 start1 j1 start2 j2 c1 c2 \<noteq> Fail"
proof -
  have st: "0 \<le> start1" "0 \<le> start2" using inv by (auto simp: chunk_inv_def)
  define s1 where "s1 = \<lparr>sl_list = cons1, sl_offset = nat start1, sl_len = nat j1 - nat start1\<rparr>"
  define s2 where "s2 = \<lparr>sl_list = cons2, sl_offset = nat start2, sl_len = nat j2 - nat start2\<rparr>"
  have sl: "smartlist_slice_new cons1 (nat start1) j1 = Done s1"
    "smartlist_slice_new cons2 (nat start2) j2 = Done s2"
    using st j by (simp_all add: smartlist_slice_new_def s1_def s2_def Let_def)
  have "ready s1 c1" "ready s2 c2"
    using inv st j by (auto simp: ready_def s1_def s2_def slice_ok_def chunk_inv_def elim!: clear_sub)
  from calc_changes_correct [OF this] sl
  show "chunk_changes cons1 cons2 start1 j1 start2 j2 c1 c2 \<noteq> Stuck"
    by (auto simp: chunk_changes_def)
  assume "int (length cons1) \<le> MAX_LINE_COUNT" "int (length cons2) \<le> MAX_LINE_COUNT"
  with calc_changes_correct [OF \<open>ready s1 c1\<close> \<open>ready s2 c2\<close>] sl j st
  show "chunk_changes cons1 cons2 start1 j1 start2 j2 c1 c2 \<noteq> Fail"
    by (auto simp: chunk_changes_def)
qed

definition returns :: "bool \<Rightarrow> 'a outcome \<Rightarrow> bool" where
  "returns st m \<longleftrightarrow> m \<noteq> Stuck \<and> (st \<longrightarrow> m \<noteq> Fail)"

lemma returns_bind: "returns st m \<Longrightarrow> (\<And>x. m = Done x \<Longrightarrow> returns st (f x)) \<Longrightarrow> returns st (obind m f)"
  by (cases m) (auto simp: returns_def)

lemma returns_Done [simp]: "returns st (Done x)"
  by (simp add: returns_def)

lemma chunk_loop_returns:
  "chunk_inv cons1 cons2 i1 i2 start1 start2 c1 c2 \<Longrightarrow> pos_ok st cons1 i1 iter1 \<Longrightarrow> pos_ok st cons2 i2 iter2 \<Longrightarrow>
   (st \<Longrightarrow> int (length cons1) \<le> MAX_LINE_COUNT \<and> int (length cons2) \<le> MAX_LINE_COUNT) \<Longrightarrow>
   returns st (chunk_loop cons1 cons2 i1 iter1 i2 iter2 start1 start2 c1 c2)"
proof (induction cons1 cons2 i1 iter1 i2 iter2 start1 start2 c1 c2 rule: chunk_loop.induct)
  case (1 cons1 cons2 i1 iter1 i2 iter2 start1 start2 c1 c2)
  show ?case
  proof (cases "i1 < int (length cons1) \<or> i2 < int (length cons2)")
    case False
    then show ?thesis by (simp add: chunk_loop.simps [of cons1 cons2 i1])
  next
    case True
    have "returns st (obind (advance_routers cons1 cons2 i1 iter1 i2 iter2) (\<lambda>r.
           obind (chunk_changes cons1 cons2 start1 (fst r) start2 (fst (snd (snd r))) c1 c2) (\<lambda>c.
             chunk_loop cons1 cons2 (fst r) (fst (snd r)) (fst (snd (snd r))) (snd (snd (snd r)))
               (fst r) (fst (snd (snd r))) (fst c) (snd c))))"
    proof (intro returns_bind)
      note ok = advance_routers_ok [OF "1.prems"(2,3)]
      show "returns st (advance_routers cons1 cons2 i1 iter1 i2 iter2)"
        using ok by (auto simp: both_ok_def returns_def split: outcome.splits)
      fix r assume r: "advance_routers cons1 cons2 i1 iter1 i2 iter2 = Done r"
      then have r': "advance_routers cons1 cons2 i1 iter1 i2 iter2 =
        Done (fst r, fst (snd r), fst (snd (snd r)), snd (snd (snd r)))" by simp
      note b = advance_routers_start [OF "1.prems"(1) r']
      have p: "pos_ok st cons1 (fst r) (fst (snd r))" "pos_ok st cons2 (fst (snd (snd r))) (snd (snd (snd r)))"
        using ok unfolding r' both_ok_def outcome.case prod.case by blast+
      show "returns st (chunk_changes cons1 cons2 start1 (fst r) start2 (fst (snd (snd r))) c1 c2)"
        using chunk_changes_total [OF "1.prems"(1) b] "1.prems"(4) by (simp add: returns_def)
      fix c assume c: "chunk_changes cons1 cons2 start1 (fst r) start2 (fst (snd (snd r))) c1 c2 = Done c"
      then have "chunk_changes cons1 cons2 start1 (fst r) start2 (fst (snd (snd r))) c1 c2 = Done (fst c, snd c)"
        by simp
      from "1.IH" [OF _ r c chunk_changes_inv [OF "1.prems"(1) b this] p "1.prems"(4)] True
      show "returns st (chunk_loop cons1 cons2 (fst r) (fst (snd r)) (fst (snd (snd r))) (snd (snd (snd r)))
               (fst r) (fst (snd (snd r))) (fst c) (snd c))" by blast
    qed
    then show ?thesis using True by (simp add: chunk_loop.simps [of cons1 cons2 i1])
  qed
qed

lemma add_lines_returns: "(st \<Longrightarrow> ''.'' \<notin> set ls) \<Longrightarrow> returns st (add_lines ls)"
  by (induction ls) (auto simp: line_str_eq_def lines_eq_def returns_def obind_Stuck obind_Fail)

lemma write_commands_returns:
  "(st \<Longrightarrow> ''.'' \<notin> set cons2) \<Longrightarrow> returns st (write_commands cons2 c1 c2 n1 n2)"
proof (induction cons2 c1 c2 n1 n2 rule: write_commands.induct)
  case (1 cons2 c1 c2 n1 n2)
  note h = "1.IH"(2) [OF _ _ refl refl refl refl _ "1.prems"] "1.IH"(3) [OF _ _ refl refl refl refl _ _ "1.prems"]
  show ?case
  proof (cases "n1 = 0 \<and> n2 = 0 \<or> \<not> (n1 > 0 \<and> c1 ! (n1 - 1)) \<and> \<not> (n2 > 0 \<and> c2 ! (n2 - 1))")
    case True
    with "1.IH"(1) "1.prems" show ?thesis by (subst write_commands.simps) auto
  next
    case False
    then have c: "\<not> (n1 = 0 \<and> n2 = 0)"
      "\<not> (\<not> (n1 > 0 \<and> c1 ! (n1 - 1)) \<and> \<not> (n2 > 0 \<and> c2 ! (n2 - 1)))" by blast+
    let ?ls = "take (n2 - back_changed c2 n2) (drop (back_changed c2 n2) cons2)"
    have a: "returns st (add_lines ?ls)"
      using "1.prems" by (intro add_lines_returns) (meson in_set_dropD in_set_takeD)
    show ?thesis
      unfolding write_commands.simps [of cons2 c1 c2 n1 n2] if_not_P [OF c(1)] if_not_P [OF c(2)] Let_def
      using h [OF c] a by (cases "n2 - back_changed c2 n2 = 0") (auto intro!: returns_bind)
  qed
qed

text \<open>Documents that have a script: ascending routers, few lines, no line that ends the input mode.\<close>

definition diffable :: "cdline list \<Rightarrow> cdline list \<Rightarrow> bool" where
  "diffable cons1 cons2 \<longleftrightarrow>
     routers_ascending cons1 None \<and> routers_ascending cons2 None \<and>
     int (length cons1) \<le> MAX_LINE_COUNT \<and> int (length cons2) \<le> MAX_LINE_COUNT \<and> ''.'' \<notin> set cons2"

lemma gen_ed_diff_returns: "(st \<Longrightarrow> diffable cons1 cons2) \<Longrightarrow> returns st (gen_ed_diff cons1 cons2)"
proof -
  assume d: "st \<Longrightarrow> diffable cons1 cons2"
  define i where "i = (case dirsig_idx cons1 0 of Some k \<Rightarrow> k | None \<Rightarrow> length cons1)"
  obtain tr where pre: "preprocess_consensus cons1 = (take i cons1, tr)"
    by (cases "dirsig_idx cons1 0") (simp_all add: preprocess_consensus_def i_def)
  have "pos_ok st (take i cons1) (-1) ROUTER_ID_ITERATOR_INIT" "pos_ok st cons2 (-1) ROUTER_ID_ITERATOR_INIT"
    using d routers_ascending_take
    by (auto simp: pos_ok_def iter_ok_def ROUTER_ID_ITERATOR_INIT_def diffable_def)
  moreover have "st \<Longrightarrow> int (length (take i cons1)) \<le> MAX_LINE_COUNT \<and> int (length cons2) \<le> MAX_LINE_COUNT"
    using d by (auto simp: diffable_def min_def)
  ultimately have "returns st (chunk_loop (take i cons1) cons2 (-1) ROUTER_ID_ITERATOR_INIT (-1) ROUTER_ID_ITERATOR_INIT 0 0
      (replicate (length (take i cons1)) False) (replicate (length cons2) False))"
    by (rule chunk_loop_returns [OF chunk_inv_init])
  moreover have "returns st (write_commands cons2 c1 c2 n1 n2)" for c1 c2 n1 n2
    using d by (intro write_commands_returns) (simp add: diffable_def)
  ultimately show ?thesis
    unfolding gen_ed_diff_def pre prod.case
    by (intro returns_bind) (auto intro!: returns_bind)
qed

lemma gen_ed_diff_total: "gen_ed_diff cons1 cons2 \<noteq> Stuck"
  using gen_ed_diff_returns [of False] by (simp add: returns_def)

lemma gen_ed_diff_succeeds: "diffable cons1 cons2 \<Longrightarrow> \<exists>d. gen_ed_diff cons1 cons2 = Done d"
  using gen_ed_diff_returns [of True cons1 cons2] by (cases "gen_ed_diff cons1 cons2") (auto simp: returns_def)

section \<open>Signatures added after the diff was made\<close>

text \<open>A script made for one set of signatures applies to the document with any other.\<close>

lemma gen_ed_diff_resigned:
  assumes gen: "gen_ed_diff cons1 cons2 = Done d"
    and sig: "dirsig_idx cons1 0 = Some k" "take k cons1' = take k cons1"
    and len: "k + 1 < length cons1'" "length cons1' \<le> INT_MAX"
  shows "apply_ed_diff cons1' d 0 = Done cons2"
proof (rule gen_ed_diffD [OF gen])
  fix i trailer c1 c2 cmds
  assume g: "i \<le> length cons1" "kept cons1 c1 0 i = kept cons2 c2 0 (length cons2)"
    "write_commands cons2 c1 c2 i (length cons2) = Done cmds"
    "d = (case trailer of Some t \<Rightarrow> [t] | None \<Rightarrow> []) @ cmds"
    and s: "\<And>k. dirsig_idx cons1 0 = Some k \<Longrightarrow> i = k \<and> trailer = Some (dec_nat (k + 1) @ '',$d'')"
  have i: "i = k" "d = (dec_nat (k + 1) @ '',$d'') # cmds" using s [OF sig(1)] g(4) by simp_all
  have "kept cons1' c1 0 k = kept cons1 c1 0 k"
    using kept_take [of k k cons1' c1] kept_take [of k k cons1 c1] sig(2) by simp
  with g(2) i have kk: "kept cons1' c1 0 k = kept cons2 c2 0 (length cons2)" by simp
  have k: "k \<le> length cons1'" "k \<le> INT_MAX" using len by simp_all
  have "rebuilt cons1' (apply_loop cons1' cmds (int k) []) = Done cons2"
    using write_commands_apply [OF g(3) [unfolded i] le_refl k le_refl kk, of "[]"] by simp
  moreover from len have "parse_ed_command (int (length cons1')) (int (length cons1')) (dec_nat (k + 1) @ '',$d'') =
      Done (int (k + 1), int (length cons1'), CHR ''d'')" by (intro parse_eof) auto
  ultimately show ?thesis by (simp add: apply_ed_diff_rebuilt i)
qed

section \<open>The properties\<close>

text \<open>
  C29. A script that \<open>gen_ed_diff\<close> writes for a base of at most \<open>INT_MAX\<close> lines turns the base into the
  target when \<open>apply_ed_diff\<close> runs it, if the base has no signatures or its signatures take more than one
  line. For a base whose signatures are a single last line the script is rejected.
\<close>

theorem ed_script_rebuilds_target:
  assumes "gen_ed_diff cons1 cons2 = Done d" "length cons1 \<le> INT_MAX"
  shows "apply_ed_diff cons1 d 0 = (if sigs_deletable cons1 then Done cons2 else Fail)"
proof (cases "sigs_deletable cons1")
  case True
  then show ?thesis using gen_ed_diff_applies [OF assms] by simp
next
  case False
  then obtain k where k: "dirsig_idx cons1 0 = Some k" "\<not> k + 1 < length cons1"
    by (auto simp: sigs_deletable_def split: option.splits)
  then have "dirsig_idx cons1 0 = Some (length cons1 - 1)" using dirsig_idx_bound [OF k(1)] by auto
  then show ?thesis using gen_ed_diff_one_line_signature [OF assms] False by simp
qed

lemma ed_script_witness:
  "apply_ed_diff [''one'', ''two'', ''three'', ''four'']
     [''2,4c'', ''2'', ''3'', ''.'', ''0a'', ''zero'', ''.''] 0 = Done [''zero'', ''one'', ''2'', ''3''] \<and>
   apply_ed_diff [''v'', ''directory-signature a''] [''2,$d''] 0 = Fail"
proof
  have g: "gen_ed_diff [''one'', ''two'', ''three'', ''four''] [''zero'', ''one'', ''2'', ''3''] =
    Done [''2,4c'', ''2'', ''3'', ''.'', ''0a'', ''zero'', ''.'']" by code_simp
  have s: "sigs_deletable [''one'', ''two'', ''three'', ''four'']" by code_simp
  show "apply_ed_diff [''one'', ''two'', ''three'', ''four'']
     [''2,4c'', ''2'', ''3'', ''.'', ''0a'', ''zero'', ''.''] 0 = Done [''zero'', ''one'', ''2'', ''3'']"
    using ed_script_rebuilds_target [OF g] s by (simp add: INT_MAX_def)
  have g': "gen_ed_diff [''v'', ''directory-signature a''] [''v''] = Done [''2,$d'']" by code_simp
  have s': "\<not> sigs_deletable [''v'', ''directory-signature a'']" by code_simp
  show "apply_ed_diff [''v'', ''directory-signature a''] [''2,$d''] 0 = Fail"
    using ed_script_rebuilds_target [OF g'] s' by (simp add: INT_MAX_def)
qed

text \<open>
  C35. For any two lists of lines \<open>gen_ed_diff\<close> returns a script or \<open>NULL\<close>: no assertion fails, those on
  the slices that \<open>calc_changes\<close> cuts and on the lengths it marks included, no hash is compared past
  its end, every loop ends.
\<close>

theorem gen_ed_diff_never_asserts: "gen_ed_diff cons1 cons2 \<noteq> Stuck"
  by (rule gen_ed_diff_total)

text \<open>Routers out of order: \<open>NULL\<close>.\<close>

lemma gen_ed_diff_never_asserts_witness:
  "gen_ed_diff [''v'', ''r b BBBB x'', ''r a AAAA x''] [''v'', ''r b BBBB y''] = Fail"
  using gen_ed_diff_never_asserts [of "[''v'', ''r b BBBB x'', ''r a AAAA x'']" "[''v'', ''r b BBBB y'']"] by code_simp

text \<open>
  C36. Documents of at most 10000 lines with ascending router entries have a script, unless a
  line of the target is a single dot.
\<close>

theorem sorted_documents_have_a_script:
  assumes "diffable cons1 cons2"
  shows "\<exists>d. gen_ed_diff cons1 cons2 = Done d"
  using assms by (rule gen_ed_diff_succeeds)

lemma sorted_documents_witness:
  "\<exists>d. gen_ed_diff [''v'', ''r a AAAA x'', ''s'', ''r b BBBB y''] [''v'', ''r b BBBB z''] = Done d"
proof (rule sorted_documents_have_a_script)
  have "routers_ascending [''v'', ''r a AAAA x'', ''s'', ''r b BBBB y''] None"
    "routers_ascending [''v'', ''r b BBBB z''] None"
    by (simp_all add: is_valid_router_entry_def get_id_hash_def base64_compare_table_def base64cmp_def
        Let_def NOT_VALID_BASE64_def nth_append)
  then show "diffable [''v'', ''r a AAAA x'', ''s'', ''r b BBBB y''] [''v'', ''r b BBBB z'']"
    by (simp add: diffable_def MAX_LINE_COUNT_def)
qed

text \<open>
  A script made from a signed base applies to every base that agrees with it before the
  signatures, whatever signatures follow, when they take more than one line.
\<close>

theorem script_applies_to_resigned_base:
  assumes "gen_ed_diff cons1 cons2 = Done d" "dirsig_idx cons1 0 = Some k"
    and "take k cons1' = take k cons1" "k + 1 < length cons1'" "length cons1' \<le> INT_MAX"
  shows "apply_ed_diff cons1' d 0 = Done cons2"
  using assms by (rule gen_ed_diff_resigned)

lemma resigned_witness:
  "apply_ed_diff [''v'', ''old'', ''directory-signature b'', ''s1'', ''s2''] [''3,$d'', ''2c'', ''new'', ''.''] 0 =
   Done [''v'', ''new'']"
proof (rule script_applies_to_resigned_base)
  show "gen_ed_diff [''v'', ''old'', ''directory-signature a'', ''s''] [''v'', ''new''] =
    Done [''3,$d'', ''2c'', ''new'', ''.'']" by code_simp
  show "dirsig_idx [''v'', ''old'', ''directory-signature a'', ''s''] 0 = Some 2" by code_simp
qed (simp_all add: INT_MAX_def)

end
