(* ===== verification/ConsDiff.thy ===== *)
theory ConsDiff
  imports EdDiff
begin

text \<open>
  Consensus diffs as documents, from \<open>src/feature/dircommon/consdiff.c\<close>: splitting and joining
  lines, the two header lines with the digests of base and target, \<open>consensus_diff_generate\<close>
  and \<open>consensus_diff_apply\<close>; with the signed part of a document from
  \<open>src/feature/dirparse/ns_parse.c\<close> and \<open>sigcommon.c\<close>. The SHA3-256 function
  (\<open>crypto_digest256\<close>, which calls the vendored Keccak or the TLS library) is a parameter,
  \<open>sha3\<close>. A document is a character buffer.
\<close>

section \<open>Digests\<close>

definition DIGEST256_LEN :: nat where "DIGEST256_LEN = 32"
definition HEX_DIGEST256_LEN :: nat where "HEX_DIGEST256_LEN = 64"

text \<open>The positions of the first and behind the last character to hash; \<open>Fail\<close> is -1.\<close>

definition router_get_hash_impl_helper ::
  "string \<Rightarrow> string \<Rightarrow> string \<Rightarrow> char \<Rightarrow> (nat \<times> nat) outcome" where
  "router_get_hash_impl_helper s start_str end_str end_c =
     obind (tor_memstr s start_str) (\<lambda>r. case r of
       None \<Rightarrow> Fail
     | Some start \<Rightarrow>
         if start \<noteq> 0 \<and> s ! (start - 1) \<noteq> NL then Fail
         else obind (tor_memstr (drop (start + length start_str) s) end_str) (\<lambda>r. case r of
           None \<Rightarrow> Fail
         | Some k \<Rightarrow>
             let e = start + length start_str + k + length end_str
             in (case find_sub [end_c] (drop e s) of
                   None \<Rightarrow> Fail
                 | Some m \<Rightarrow> Done (start, e + m + 1))))"

definition router_get_networkstatus_v3_signed_boundaries :: "string \<Rightarrow> (nat \<times> nat) outcome" where
  "router_get_networkstatus_v3_signed_boundaries s =
     router_get_hash_impl_helper s ''network-status-version'' (NL # ''directory-signature'') SP"

definition router_get_networkstatus_v3_sha3_as_signed ::
  "(string \<Rightarrow> byte list outcome) \<Rightarrow> string \<Rightarrow> byte list outcome" where
  "router_get_networkstatus_v3_sha3_as_signed sha3 s =
     (case router_get_networkstatus_v3_signed_boundaries s of
        Done (start, e) \<Rightarrow> sha3 (take (e - start) (drop start s))
      | Fail \<Rightarrow> sha3 s
      | Stuck \<Rightarrow> Stuck)"

definition consensus_compute_digest :: "(string \<Rightarrow> byte list outcome) \<Rightarrow> string \<Rightarrow> byte list outcome" where
  "consensus_compute_digest sha3 cons = sha3 cons"

definition consensus_compute_digest_as_signed ::
  "(string \<Rightarrow> byte list outcome) \<Rightarrow> string \<Rightarrow> byte list outcome" where
  "consensus_compute_digest_as_signed sha3 cons = router_get_networkstatus_v3_sha3_as_signed sha3 cons"

definition consensus_digest_eq :: "byte list \<Rightarrow> byte list \<Rightarrow> bool" where
  "consensus_digest_eq d1 d2 \<longleftrightarrow> take DIGEST256_LEN d1 = take DIGEST256_LEN d2"

section \<open>Lines\<close>

definition CONSENSUS_LINE_MAX_LEN :: nat where "CONSENSUS_LINE_MAX_LEN = 1048576"

function consensus_split_lines :: "string \<Rightarrow> cdline list outcome" where
  "consensus_split_lines s =
     (if s = [] then Done []
      else case find_sub [NL] s of
             None \<Rightarrow> Fail
           | Some eol \<Rightarrow>
               if eol > CONSENSUS_LINE_MAX_LEN then Fail
               else obind (consensus_split_lines (drop (eol + 1) s)) (\<lambda>r. Done (take eol s # r)))"
  by pat_completeness auto
termination by (relation "measure length") auto

declare consensus_split_lines.simps [simp del]

definition consensus_join_lines :: "cdline list \<Rightarrow> string" where
  "consensus_join_lines inp = concat (map (\<lambda>l. l @ [NL]) inp)"

section \<open>The diff as a list of lines\<close>

definition ns_diff_version :: string where "ns_diff_version = ''network-status-diff-version 1''"
definition hash_token :: string where "hash_token = ''hash''"

definition consdiff_gen_diff ::
  "cdline list \<Rightarrow> cdline list \<Rightarrow> byte list \<Rightarrow> byte list \<Rightarrow> cdline list outcome" where
  "consdiff_gen_diff cons1 cons2 digests1 digests2 =
     obind (gen_ed_diff cons1 cons2) (\<lambda>ed_diff.
     obind (apply_ed_diff cons1 ed_diff 0) (\<lambda>ed_cons2.
       if \<not> (length cons2 = length ed_cons2 \<and> list_all2 lines_eq cons2 ed_cons2) then Fail
       else obind (base16_encode (HEX_DIGEST256_LEN + 1) (take DIGEST256_LEN digests1)) (\<lambda>cons1_hash_hex.
            obind (base16_encode (HEX_DIGEST256_LEN + 1) (take DIGEST256_LEN digests2)) (\<lambda>cons2_hash_hex.
              Done ([ns_diff_version, hash_token @ '' '' @ cons1_hash_hex @ '' '' @ cons2_hash_hex] @ ed_diff)))))"

definition consdiff_get_digests :: "cdline list \<Rightarrow> (byte list \<times> byte list) outcome" where
  "consdiff_get_digests diff =
     (if length diff < 2 then Fail
      else if \<not> line_str_eq (diff ! 0) ns_diff_version then Fail
      else obind (smartlist_split_string [] (cstr (diff ! 1)) (Some '' '') plain_split 4) (\<lambda>(hash_words, n).
        if length hash_words \<noteq> 3 \<or> hash_words ! 0 \<noteq> hash_token then Fail
        else if length (hash_words ! 1) \<noteq> HEX_DIGEST256_LEN \<or> length (hash_words ! 2) \<noteq> HEX_DIGEST256_LEN
        then Fail
        else obind (base16_decode DIGEST256_LEN (hash_words ! 1)) (\<lambda>cons1_hash.
             if length cons1_hash \<noteq> DIGEST256_LEN then Fail
             else obind (base16_decode DIGEST256_LEN (hash_words ! 2)) (\<lambda>cons2_hash.
                  if length cons2_hash \<noteq> DIGEST256_LEN then Fail
                  else Done (cons1_hash, cons2_hash)))))"

text \<open>The returned buffer is a C string: its readers see it up to the first NUL.\<close>

definition consdiff_apply_diff ::
  "(string \<Rightarrow> byte list outcome) \<Rightarrow> cdline list \<Rightarrow> cdline list \<Rightarrow> byte list \<Rightarrow> string outcome" where
  "consdiff_apply_diff sha3 cons1 diff digests1 =
     obind (consdiff_get_digests diff) (\<lambda>(e_cons1_hash, e_cons2_hash).
       if \<not> consensus_digest_eq digests1 e_cons1_hash then Fail
       else obind (apply_ed_diff cons1 diff 2) (\<lambda>cons2.
            let cons2_str = cstr (consensus_join_lines cons2)
            in obind (consensus_compute_digest sha3 cons2_str) (\<lambda>cons2_digests.
                 if \<not> consensus_digest_eq cons2_digests e_cons2_hash then Fail else Done cons2_str)))"

section \<open>The diff as a document\<close>

definition consensus_diff_generate :: "(string \<Rightarrow> byte list outcome) \<Rightarrow> string \<Rightarrow> string \<Rightarrow> string outcome" where
  "consensus_diff_generate sha3 cons1 cons2 =
     obind (consensus_compute_digest_as_signed sha3 cons1) (\<lambda>d1.
     obind (consensus_compute_digest sha3 cons2) (\<lambda>d2.
     obind (consensus_split_lines cons1) (\<lambda>lines1.
     obind (consensus_split_lines cons2) (\<lambda>lines2.
     obind (consdiff_gen_diff lines1 lines2 d1 d2) (\<lambda>result_lines.
       Done (cstr (consensus_join_lines result_lines)))))))"

definition consensus_diff_apply :: "(string \<Rightarrow> byte list outcome) \<Rightarrow> string \<Rightarrow> string \<Rightarrow> string outcome" where
  "consensus_diff_apply sha3 consensus diff =
     obind (consensus_compute_digest_as_signed sha3 consensus) (\<lambda>d1.
     obind (consensus_split_lines consensus) (\<lambda>lines1.
     obind (consensus_split_lines diff) (\<lambda>lines2.
       consdiff_apply_diff sha3 lines1 lines2 d1)))"

definition looks_like_a_consensus_diff :: "string \<Rightarrow> bool" where
  "looks_like_a_consensus_diff document \<longleftrightarrow>
     length document \<ge> length ns_diff_version \<and> take (length ns_diff_version) document = ns_diff_version"

section \<open>Lines and documents\<close>

definition doc_line :: "cdline \<Rightarrow> bool" where
  "doc_line l \<longleftrightarrow> NL \<notin> set l \<and> length l \<le> CONSENSUS_LINE_MAX_LEN"

lemma join_Nil [simp]: "consensus_join_lines [] = []"
  by (simp add: consensus_join_lines_def)

lemma join_Cons [simp]: "consensus_join_lines (l # ls) = l @ NL # consensus_join_lines ls"
  by (simp add: consensus_join_lines_def)

lemma find_NL: "NL \<notin> set l \<Longrightarrow> find_sub [NL] (l @ NL # r) = Some (length l)"
  using find_sub_append [of NL l "[]" r] by simp

lemma split_join: "\<forall>l \<in> set ls. doc_line l \<Longrightarrow> consensus_split_lines (consensus_join_lines ls) = Done ls"
proof (induction ls)
  case (Cons l ls)
  then have l: "NL \<notin> set l" "length l \<le> CONSENSUS_LINE_MAX_LEN" by (simp_all add: doc_line_def)
  then show ?case using Cons find_NL [OF l(1), of "consensus_join_lines ls"]
    by (subst consensus_split_lines.simps) simp
qed (simp add: consensus_split_lines.simps)

lemma join_split:
  "consensus_split_lines s = Done ls \<Longrightarrow> consensus_join_lines ls = s \<and> (\<forall>l \<in> set ls. doc_line l)"
proof (induction s arbitrary: ls rule: consensus_split_lines.induct)
  case (1 s)
  show ?case
  proof (cases "s = []")
    case True
    with "1.prems" show ?thesis by (simp add: consensus_split_lines.simps)
  next
    case False
    note step = "1.prems" [unfolded consensus_split_lines.simps [of s] if_not_P [OF False]]
    from step obtain eol r where e: "find_sub [NL] s = Some eol" "eol \<le> CONSENSUS_LINE_MAX_LEN"
      and r: "consensus_split_lines (drop (eol + 1) s) = Done r" and ls: "ls = take eol s # r"
      by (auto simp: obind_Done split: option.splits if_splits)
    have ih: "consensus_join_lines r = drop (eol + 1) s" "\<forall>l \<in> set r. doc_line l"
      using "1.IH" [OF False e(1) _ r] e(2) by auto
    have eq: "eol = length (takeWhile (\<lambda>x. x \<noteq> NL) s)" "NL \<in> set s"
      using e(1) by (auto simp: find_sub_singleton split: if_splits)
    then have t: "take eol s = takeWhile (\<lambda>x. x \<noteq> NL) s" by (metis takeWhile_eq_take)
    then have "NL \<notin> set (take eol s)" by (auto dest: set_takeWhileD)
    moreover have "s = take eol s @ NL # drop (eol + 1) s"
      using find_sub_split [OF e(1)] by simp
    ultimately show ?thesis using ih e(2) by (simp add: ls doc_line_def)
  qed
qed

lemma split_never_stuck: "consensus_split_lines s \<noteq> Stuck"
proof (induction s rule: consensus_split_lines.induct)
  case (1 s)
  then show ?case
    by (subst consensus_split_lines.simps) (auto simp: obind_Stuck split: option.splits)
qed

section \<open>The header\<close>

lemma hex_no_space: "set (base16_loop bs) \<subseteq> set HEX_CHARS"
proof (induction bs)
  case (Cons b bs)
  have "length HEX_CHARS = 16" by (simp add: HEX_CHARS_def)
  with Cons nibbles(1,2) [of b] show ?case by (auto intro!: nth_mem simp del: One_nat_def)
qed simp

lemma hex_chars_facts: "SP \<notin> set HEX_CHARS" "NUL \<notin> set HEX_CHARS" "NL \<notin> set HEX_CHARS"
  by (simp_all add: HEX_CHARS_def)

lemma hex_not_in [simp]: "SP \<notin> set (base16_loop bs)" "NUL \<notin> set (base16_loop bs)" "NL \<notin> set (base16_loop bs)"
  using hex_no_space [of bs] hex_chars_facts by auto

lemma split_step:
  assumes "SP \<notin> set p" "mx = 4" "n \<noteq> 3"
  shows "split_loop (Some '' '') plain_split mx n (p @ SP # r) =
    Option.bind (split_loop (Some '' '') plain_split mx (n + 1) r) (\<lambda>more. Some (p # more))"
    and "split_loop (Some '' '') plain_split mx n p = Some [p]"
  using assms find_sub_append [of SP p "[]" r]
  by (subst split_loop.simps,
      simp add: plain_split_def split_end_def split_next_def split_piece_def Let_def find_sub_singleton)+

lemma split_three:
  assumes "SP \<notin> set a" "SP \<notin> set b" "SP \<notin> set c"
  shows "smartlist_split_string [] (a @ SP # b @ SP # c) (Some '' '') plain_split 4 = Done ([a, b, c], 3)"
  using assms split_step(1) [of a 4 0 "b @ SP # c"] split_step(1) [of b 4 1 c] split_step(2) [of c 4 2]
  by (simp add: smartlist_split_string_def)

definition diff_header :: "byte list \<Rightarrow> byte list \<Rightarrow> cdline list" where
  "diff_header d1 d2 =
     [ns_diff_version, hash_token @ '' '' @ base16_loop d1 @ '' '' @ base16_loop d2]"

lemma hex_encode32: "length d = 32 \<Longrightarrow> base16_encode (HEX_DIGEST256_LEN + 1) (take DIGEST256_LEN d) = Done (base16_loop d)"
  by (simp add: base16_encode_def HEX_DIGEST256_LEN_def DIGEST256_LEN_def BASE16_BUFSIZE_def SIZE_T_CEILING_def)

lemma hex_decode32: "length d = 32 \<Longrightarrow> base16_decode DIGEST256_LEN (base16_loop d) = Done d"
  by (simp add: base16_decode_def DIGEST256_LEN_def INT_MAX_def base16_decode_encode_loop len_simps)

lemma get_digests_header:
  assumes "length d1 = 32" "length d2 = 32"
  shows "consdiff_get_digests (diff_header d1 d2 @ ed) = Done (d1, d2)"
proof -
  let ?h = "''hash'' @ SP # base16_loop d1 @ SP # base16_loop d2"
  have "cstr ?h = ?h" by (rule cstr_id) auto
  moreover have "smartlist_split_string [] ?h (Some '' '') plain_split 4 =
      Done ([''hash'', base16_loop d1, base16_loop d2], 3)"
    by (rule split_three) auto
  ultimately show ?thesis
    using assms hex_decode32 [OF assms(1)] hex_decode32 [OF assms(2)]
    by (simp add: consdiff_get_digests_def diff_header_def line_str_eq_def lines_eq_def hash_token_def
        HEX_DIGEST256_LEN_def DIGEST256_LEN_def len_simps)
qed

section \<open>Generated lines survive the document format\<close>

lemma dec_nat_no_NL [simp]: "NL \<notin> set (dec_nat n)"
  using dec_nat_digits [of n] by (auto simp: list_all_iff TOR_ISDIGIT_iff)

definition no_nul :: "cdline list \<Rightarrow> bool" where
  "no_nul ls \<longleftrightarrow> (\<forall>l \<in> set ls. NUL \<notin> set l)"

definition script_line :: "cdline list \<Rightarrow> cdline \<Rightarrow> bool" where
  "script_line cons2 l \<longleftrightarrow> l \<in> set cons2 \<or> (doc_line l \<and> NUL \<notin> set l)"

lemma command_line:
  assumes "m + deleted \<le> INT_MAX" "deleted > 0 \<or> added > 0"
  shows "script_line cons2 (ed_command m added deleted)"
proof -
  have m: "m + deleted - 1 + 1 \<le> INT_MAX \<or> deleted = 0" using assms by auto
  have "m \<le> INT_MAX" "deleted > 0 \<Longrightarrow> m + 1 \<le> INT_MAX" using assms by auto
  note l = dec_nat_short [OF this(1)] dec_nat_short [OF this(2)] dec_nat_short [OF assms(1)]
  have "length (ed_command m added deleted) \<le> 22"
    using l assms(2) by (auto simp: ed_command_def)
  then show ?thesis
    by (auto simp: script_line_def doc_line_def CONSENSUS_LINE_MAX_LEN_def ed_command_def)
qed

lemma write_commands_lines:
  "write_commands cons2 c1 c2 n1 n2 = Done cmds \<Longrightarrow> n1 \<le> INT_MAX \<Longrightarrow> \<forall>l \<in> set cmds. script_line cons2 l"
proof (induction cons2 c1 c2 n1 n2 arbitrary: cmds rule: write_commands.induct)
  case (1 cons2 c1 c2 n1 n2)
  note step = "1.prems"(1) [unfolded write_commands.simps [of cons2 c1 c2 n1 n2]]
  consider (fin) "n1 = 0 \<and> n2 = 0" | (skip) "\<not> (n1 = 0 \<and> n2 = 0)"
      "\<not> (n1 > 0 \<and> c1 ! (n1 - 1)) \<and> \<not> (n2 > 0 \<and> c2 ! (n2 - 1))"
    | (cmd) "\<not> (n1 = 0 \<and> n2 = 0)"
      "\<not> (\<not> (n1 > 0 \<and> c1 ! (n1 - 1)) \<and> \<not> (n2 > 0 \<and> c2 ! (n2 - 1)))" by blast
  then show ?case
  proof cases
    case skip
    have "write_commands cons2 c1 c2 (n1 - 1) (n2 - 1) = Done cmds" using step skip by simp
    from "1.IH"(1) [OF skip this] "1.prems"(2) show ?thesis by simp
  next
    case cmd
    define m1 where "m1 = back_changed c1 n1"
    define m2 where "m2 = back_changed c2 n2"
    have m: "m1 \<le> n1" "m1 + (n1 - m1) \<le> INT_MAX" "n1 - m1 > 0 \<or> n2 - m2 > 0"
      using back_changed_le [of c1 n1] "1.prems"(2) cmd back_changed_less [of n1 c1] back_changed_less [of n2 c2]
      by (auto simp: m1_def m2_def)
    note cl = command_line [OF m(2,3), of cons2]
    have body: "if n2 - m2 = 0
       then obind (write_commands cons2 c1 c2 m1 m2) (\<lambda>r. Done (ed_command m1 (n2 - m2) (n1 - m1) # r)) = Done cmds
       else obind (add_lines (take (n2 - m2) (drop m2 cons2))) (\<lambda>l. obind (write_commands cons2 c1 c2 m1 m2) (\<lambda>r.
              Done (ed_command m1 (n2 - m2) (n1 - m1) # l @ [''.''] @ r))) = Done cmds"
      using step unfolding if_not_P [OF cmd(1)] if_not_P [OF cmd(2)]
      by (simp add: Let_def m1_def m2_def split: if_splits)
    show ?thesis
    proof (cases "n2 - m2 = 0")
      case True
      with body obtain r where r: "write_commands cons2 c1 c2 m1 m2 = Done r"
        "cmds = ed_command m1 (n2 - m2) (n1 - m1) # r" by (auto simp: obind_Done)
      from "1.IH"(2) [OF cmd m1_def m2_def refl refl True r(1)] m "1.prems"(2) cl r(2)
      show ?thesis by simp
    next
      case False
      with body obtain l r where r: "add_lines (take (n2 - m2) (drop m2 cons2)) = Done l"
        "write_commands cons2 c1 c2 m1 m2 = Done r"
        "cmds = ed_command m1 (n2 - m2) (n1 - m1) # l @ [''.''] @ r" by (auto simp: obind_Done)
      have "set l \<subseteq> set cons2" using add_lines_Done [OF r(1)] by (meson in_set_dropD in_set_takeD subsetI)
      moreover have "script_line cons2 ''.''" by (simp add: script_line_def doc_line_def CONSENSUS_LINE_MAX_LEN_def)
      ultimately show ?thesis
        using "1.IH"(3) [OF cmd m1_def m2_def refl refl False r(1,2)] m "1.prems"(2) cl r(3)
        by (auto simp: script_line_def)
    qed
  qed (use step in simp)
qed

lemma gen_ed_diff_lines:
  assumes "gen_ed_diff cons1 cons2 = Done d" "length cons1 \<le> INT_MAX"
  shows "\<forall>l \<in> set d. script_line cons2 l"
proof (rule gen_ed_diffD [OF assms(1)])
  fix i trailer c1 c2 cmds
  assume g: "i \<le> length cons1" "write_commands cons2 c1 c2 i (length cons2) = Done cmds"
    "d = (case trailer of Some t \<Rightarrow> [t] | None \<Rightarrow> []) @ cmds"
    "dirsig_idx cons1 0 = None \<Longrightarrow> trailer = None \<and> i = length cons1"
    "\<And>k. dirsig_idx cons1 0 = Some k \<Longrightarrow> i = k \<and> trailer = Some (dec_nat (k + 1) @ '',$d'')"
  have c: "\<forall>l \<in> set cmds. script_line cons2 l"
    using write_commands_lines [OF g(2)] g(1) assms(2) by simp
  show ?thesis
  proof (cases "dirsig_idx cons1 0")
    case (Some k)
    then have "k + 1 \<le> INT_MAX" using dirsig_idx_bound [OF Some] assms(2) by simp
    from dec_nat_short [OF this] have "script_line cons2 (dec_nat (k + 1) @ '',$d'')"
      by (auto simp: script_line_def doc_line_def CONSENSUS_LINE_MAX_LEN_def)
    with c g(3) g(5) [OF Some] show ?thesis by simp
  qed (use c g(3,4) in simp)
qed

section \<open>A generated diff applies\<close>

lemma list_all2_lines_eq: "list_all2 lines_eq a b \<Longrightarrow> a = b"
  by (induction a b rule: list_all2_induct) (simp_all add: lines_eq_def)

lemma list_all2_lines_eq_refl [simp]: "list_all2 lines_eq a a"
  by (induction a) (simp_all add: lines_eq_def)

lemma apply_ed_diff_header: "apply_ed_diff cons1 (diff_header d1 d2 @ ed) 2 = apply_ed_diff cons1 ed 0"
  by (simp add: apply_ed_diff_def diff_header_def numeral_2_eq_2)

lemma consdiff_gen_diffD:
  assumes "consdiff_gen_diff cons1 cons2 d1 d2 = Done r" "length d1 = 32" "length d2 = 32"
  obtains ed where "gen_ed_diff cons1 cons2 = Done ed" "apply_ed_diff cons1 ed 0 = Done cons2"
    "r = diff_header d1 d2 @ ed"
proof -
  from assms(1) obtain ed ed2 where e: "gen_ed_diff cons1 cons2 = Done ed" "apply_ed_diff cons1 ed 0 = Done ed2"
    "list_all2 lines_eq cons2 ed2"
    and r: "obind (base16_encode (HEX_DIGEST256_LEN + 1) (take DIGEST256_LEN d1)) (\<lambda>h1.
       obind (base16_encode (HEX_DIGEST256_LEN + 1) (take DIGEST256_LEN d2)) (\<lambda>h2.
         Done ([ns_diff_version, hash_token @ '' '' @ h1 @ '' '' @ h2] @ ed))) = Done r"
    unfolding consdiff_gen_diff_def by (auto simp: obind_Done split: if_splits)
  from r have "r = diff_header d1 d2 @ ed"
    unfolding hex_encode32 [OF assms(2)] hex_encode32 [OF assms(3)] diff_header_def by auto
  with e that list_all2_lines_eq [OF e(3)] show thesis by blast
qed

lemma consdiff_gen_apply:
  assumes gen: "consdiff_gen_diff cons1 cons2 d1 d2 = Done r" and len: "length d1 = 32" "length d2 = 32"
    and dig: "sha3 (cstr (consensus_join_lines cons2)) = Done d2"
  shows "consdiff_apply_diff sha3 cons1 r d1 = Done (cstr (consensus_join_lines cons2))"
proof -
  obtain ed where e: "apply_ed_diff cons1 ed 0 = Done cons2" "r = diff_header d1 d2 @ ed"
    by (rule consdiff_gen_diffD [OF gen len])
  then show ?thesis
    using get_digests_header [OF len, of ed] dig
    by (simp add: consdiff_apply_diff_def apply_ed_diff_header consensus_digest_eq_def consensus_compute_digest_def)
qed

definition sha3_ok :: "(string \<Rightarrow> byte list outcome) \<Rightarrow> bool" where
  "sha3_ok sha3 \<longleftrightarrow> (\<forall>m. \<exists>d. sha3 m = Done d \<and> length d = 32)"

lemma sha3_okD: "sha3_ok sha3 \<Longrightarrow> sha3 m = Done d \<Longrightarrow> length d = 32"
  unfolding sha3_ok_def by (metis outcome.inject)

lemma digest_as_signed_ok:
  assumes "sha3_ok sha3" "consensus_compute_digest_as_signed sha3 c = Done d"
  shows "length d = 32"
  using assms
  by (auto simp: consensus_compute_digest_as_signed_def router_get_networkstatus_v3_sha3_as_signed_def
      sha3_okD [OF assms(1)] split: outcome.splits)

lemma NUL_lines: "NUL \<notin> set (consensus_join_lines ls) \<longleftrightarrow> (\<forall>l \<in> set ls. NUL \<notin> set l)"
  by (induction ls) auto

lemma header_lines:
  assumes "length d1 = 32" "length d2 = 32" "l \<in> set (diff_header d1 d2)"
  shows "doc_line l \<and> NUL \<notin> set l"
  using assms by (auto simp: diff_header_def doc_line_def ns_diff_version_def hash_token_def
      CONSENSUS_LINE_MAX_LEN_def len_simps)

lemma split_length: "consensus_split_lines s = Done ls \<Longrightarrow> length ls \<le> length s"
proof (induction s arbitrary: ls rule: consensus_split_lines.induct)
  case (1 s)
  show ?case
  proof (cases "s = []")
    case False
    note step = "1.prems" [unfolded consensus_split_lines.simps [of s] if_not_P [OF False]]
    then obtain eol r where e: "find_sub [NL] s = Some eol" "eol \<le> CONSENSUS_LINE_MAX_LEN"
      "consensus_split_lines (drop (eol + 1) s) = Done r" "ls = take eol s # r"
      by (auto simp: obind_Done split: option.splits if_splits)
    with "1.IH" [OF False e(1) _ e(3)] False show ?thesis by (cases s) auto
  qed (use "1.prems" in \<open>simp add: consensus_split_lines.simps\<close>)
qed

lemma generate_apply:
  assumes gen: "consensus_diff_generate sha3 cons1 cons2 = Done diff"
    and sha: "sha3_ok sha3" and nul: "NUL \<notin> set cons2" and len: "length cons1 \<le> INT_MAX"
  shows "consensus_diff_apply sha3 cons1 diff = Done cons2"
proof -
  from gen obtain d1 d2 lines1 lines2 r where
    d: "consensus_compute_digest_as_signed sha3 cons1 = Done d1" "sha3 cons2 = Done d2"
    and l: "consensus_split_lines cons1 = Done lines1" "consensus_split_lines cons2 = Done lines2"
    and r: "consdiff_gen_diff lines1 lines2 d1 d2 = Done r" "diff = cstr (consensus_join_lines r)"
    unfolding consensus_diff_generate_def obind_Done consensus_compute_digest_def by auto
  have d32: "length d1 = 32" "length d2 = 32"
    using digest_as_signed_ok [OF sha d(1)] sha3_okD [OF sha d(2)] by blast+
  obtain ed where e: "gen_ed_diff lines1 lines2 = Done ed" "r = diff_header d1 d2 @ ed"
    by (rule consdiff_gen_diffD [OF r(1) d32])
  note j = join_split [OF l(2)]
  have n2: "\<forall>l \<in> set lines2. NUL \<notin> set l" using j nul NUL_lines by metis
  have "length lines1 \<le> INT_MAX" using split_length [OF l(1)] len by simp
  from gen_ed_diff_lines [OF e(1) this] j n2
  have "\<forall>l \<in> set r. doc_line l \<and> NUL \<notin> set l"
    using header_lines [OF d32] unfolding e(2) by (auto simp: script_line_def)
  then have "consensus_split_lines diff = Done r"
    unfolding r(2) using split_join [of r] NUL_lines [of r] by (simp add: cstr_id)
  moreover have "cstr (consensus_join_lines lines2) = cons2" using j nul by (simp add: cstr_id)
  moreover have "consdiff_apply_diff sha3 lines1 r d1 = Done (cstr (consensus_join_lines lines2))"
    using consdiff_gen_apply [OF r(1) d32] d(2) \<open>cstr (consensus_join_lines lines2) = cons2\<close> by simp
  ultimately show ?thesis by (simp add: consensus_diff_apply_def d(1) l(1))
qed

text \<open>The self-check of \<open>consdiff_gen_diff\<close> fails only on a one-line signature section.\<close>

lemma consdiff_gen_diff_succeeds:
  assumes "gen_ed_diff cons1 cons2 = Done ed" "length cons1 \<le> INT_MAX" "sigs_deletable cons1"
    and "length d1 = 32" "length d2 = 32"
  shows "consdiff_gen_diff cons1 cons2 d1 d2 = Done (diff_header d1 d2 @ ed)"
  using gen_ed_diff_applies [OF assms(1,2,3)] assms
  by (simp add: consdiff_gen_diff_def hex_encode32 [simplified] diff_header_def)

section \<open>What an applied diff guarantees\<close>

lemma get_digests_length:
  "consdiff_get_digests diff = Done (e1, e2) \<Longrightarrow> length e1 = 32 \<and> length e2 = 32"
  by (auto simp: consdiff_get_digests_def obind_Done DIGEST256_LEN_def split: if_splits)

lemma apply_digests:
  assumes "consensus_diff_apply sha3 base diff = Done r" "sha3_ok sha3"
  shows "\<exists>ls e1 e2. consensus_split_lines diff = Done ls \<and> consdiff_get_digests ls = Done (e1, e2) \<and>
    consensus_compute_digest_as_signed sha3 base = Done e1 \<and> sha3 r = Done e2"
proof -
  from assms(1) obtain d1 l1 l2 where d: "consensus_compute_digest_as_signed sha3 base = Done d1"
    and l: "consensus_split_lines base = Done l1" "consensus_split_lines diff = Done l2"
    and a: "consdiff_apply_diff sha3 l1 l2 d1 = Done r"
    by (auto simp: consensus_diff_apply_def obind_Done)
  from a obtain e1 e2 c2 dg where e: "consdiff_get_digests l2 = Done (e1, e2)" "consensus_digest_eq d1 e1"
    and r: "r = cstr (consensus_join_lines c2)" "sha3 r = Done dg" "consensus_digest_eq dg e2"
    by (auto simp: consdiff_apply_diff_def obind_Done consensus_compute_digest_def Let_def split: if_splits)
  have "length d1 = 32" "length dg = 32"
    using digest_as_signed_ok [OF assms(2) d] sha3_okD [OF assms(2) r(2)] by blast+
  with e r get_digests_length [OF e(1)] have "d1 = e1" "dg = e2"
    by (simp_all add: consensus_digest_eq_def DIGEST256_LEN_def)
  with l e d r show ?thesis by blast
qed

section \<open>Diffs in sequence\<close>

text \<open>
  What the cache and the client rely on: a generated diff takes its base to its target. With
  it a client can follow the diffs of several consensuses in a row.
\<close>

locale edit_script =
  fixes gen :: "'doc \<Rightarrow> 'doc \<Rightarrow> 'diff outcome"
    and app :: "'doc \<Rightarrow> 'diff \<Rightarrow> 'doc outcome"
    and ok :: "'doc \<Rightarrow> bool"
  assumes gen_app: "ok a \<Longrightarrow> ok b \<Longrightarrow> gen a b = Done d \<Longrightarrow> app a d = Done b"
begin

lemma diff_determines_target:
  "ok a \<Longrightarrow> ok b \<Longrightarrow> ok b' \<Longrightarrow> gen a b = Done d \<Longrightarrow> gen a b' = Done d \<Longrightarrow> b = b'"
  using gen_app [of a b d] gen_app [of a b' d] by simp

end

fun diff_chain :: "('doc \<Rightarrow> 'doc \<Rightarrow> 'diff outcome) \<Rightarrow> 'doc \<Rightarrow> 'doc list \<Rightarrow> 'diff list outcome" where
  "diff_chain gen a [] = Done []"
| "diff_chain gen a (b # bs) = obind (gen a b) (\<lambda>d. obind (diff_chain gen b bs) (\<lambda>ds. Done (d # ds)))"

fun apply_chain :: "('doc \<Rightarrow> 'diff \<Rightarrow> 'doc outcome) \<Rightarrow> 'doc \<Rightarrow> 'diff list \<Rightarrow> 'doc outcome" where
  "apply_chain app a [] = Done a"
| "apply_chain app a (d # ds) = obind (app a d) (\<lambda>b. apply_chain app b ds)"

context edit_script
begin

lemma chain: "\<forall>x \<in> set (a # bs). ok x \<Longrightarrow> diff_chain gen a bs = Done ds \<Longrightarrow>
    apply_chain app a ds = Done (last (a # bs))"
proof (induction bs arbitrary: a ds)
  case (Cons b bs)
  then obtain d ds' where "gen a b = Done d" "diff_chain gen b bs = Done ds'" "ds = d # ds'"
    by (auto simp: obind_Done)
  with Cons gen_app [of a b d] show ?case by simp
qed simp

end

interpretation ed: edit_script gen_ed_diff "\<lambda>a d. apply_ed_diff a d 0"
    "\<lambda>c. length c \<le> INT_MAX \<and> sigs_deletable c"
  by unfold_locales (auto intro: gen_ed_diff_applies)

definition plain_document :: "string \<Rightarrow> bool" where
  "plain_document s \<longleftrightarrow> NUL \<notin> set s \<and> length s \<le> INT_MAX"

interpretation consensus: edit_script "consensus_diff_generate (\<lambda>m. Done (h m))"
    "consensus_diff_apply (\<lambda>m. Done (h m))" "\<lambda>s. plain_document s \<and> (\<forall>m. length (h m) = 32)"
  for h
  by unfold_locales (auto simp: plain_document_def sha3_ok_def intro: generate_apply)

section \<open>The properties\<close>

text \<open>
  C7. The document that \<open>consensus_diff_generate\<close> returns for a base and a target makes
  \<open>consensus_diff_apply\<close> return the target from the base: headers, digests, line
  splitting and the script itself all agree. The target holds no NUL, and the hash function
  returns 32 bytes.
\<close>

theorem consensus_diff_roundtrip:
  assumes "consensus_diff_generate sha3 cons1 cons2 = Done diff" "sha3_ok sha3"
    and "NUL \<notin> set cons2" "length cons1 \<le> INT_MAX"
  shows "consensus_diff_apply sha3 cons1 diff = Done cons2"
  using assms by (rule generate_apply)

definition zero_sha3 :: "string \<Rightarrow> byte list outcome" where
  "zero_sha3 m = Done (replicate 32 0)"

lemma zero_sha3_ok: "sha3_ok zero_sha3"
  by (simp add: sha3_ok_def zero_sha3_def)

lemma zero_sha3_as_signed: "consensus_compute_digest_as_signed zero_sha3 ''a\<newline>b\<newline>'' = Done (replicate 32 0)"
  by (simp add: consensus_compute_digest_as_signed_def router_get_networkstatus_v3_sha3_as_signed_def
      zero_sha3_def router_get_networkstatus_v3_signed_boundaries_def router_get_hash_impl_helper_def
      tor_memstr_def tor_memmem_def)

lemma gen_small: "gen_ed_diff [''a'', ''b''] [''a'', ''c''] = Done [''2c'', ''c'', ''.'']"
  by code_simp

lemma split_small: "consensus_split_lines ''a\<newline>b\<newline>'' = Done [''a'', ''b'']"
    "consensus_split_lines ''a\<newline>c\<newline>'' = Done [''a'', ''c'']"
  using split_join [of "[''a'', ''b'']"] split_join [of "[''a'', ''c'']"]
  by (simp_all add: doc_line_def CONSENSUS_LINE_MAX_LEN_def)

definition small_diff :: string where
  "small_diff = cstr (consensus_join_lines
     (diff_header (replicate 32 0) (replicate 32 0) @ [''2c'', ''c'', ''.'']))"

lemma generate_small: "consensus_diff_generate zero_sha3 ''a\<newline>b\<newline>'' ''a\<newline>c\<newline>'' = Done small_diff"
proof -
  have "sigs_deletable [''a'', ''b'']" by code_simp
  then have "consdiff_gen_diff [''a'', ''b''] [''a'', ''c''] (replicate 32 0) (replicate 32 0) =
    Done (diff_header (replicate 32 0) (replicate 32 0) @ [''2c'', ''c'', ''.''])"
    by (intro consdiff_gen_diff_succeeds gen_small) (simp_all add: INT_MAX_def)
  then show ?thesis
    by (simp only: consensus_diff_generate_def zero_sha3_as_signed split_small obind.simps
        consensus_compute_digest_def zero_sha3_def small_diff_def)
qed

lemma consensus_diff_roundtrip_witness:
  "consensus_diff_apply zero_sha3 ''a\<newline>b\<newline>'' small_diff = Done ''a\<newline>c\<newline>''"
  by (rule consensus_diff_roundtrip [OF generate_small zero_sha3_ok]) (simp_all add: INT_MAX_def)

text \<open>
  C30. When \<open>consensus_diff_apply\<close> returns a document, the diff's header named the digest
  of the base as signed and the digest of that document: a diff never yields a document
  other than the one its header promises.
\<close>

theorem applied_diff_is_authentic:
  assumes "consensus_diff_apply sha3 base diff = Done r" "sha3_ok sha3"
  shows "\<exists>ls e1 e2. consensus_split_lines diff = Done ls \<and> consdiff_get_digests ls = Done (e1, e2) \<and>
    consensus_compute_digest_as_signed sha3 base = Done e1 \<and> sha3 r = Done e2"
  using assms by (rule apply_digests)

lemma applied_diff_witness:
  "\<exists>ls e1 e2. consensus_split_lines small_diff = Done ls \<and> consdiff_get_digests ls = Done (e1, e2) \<and>
    consensus_compute_digest_as_signed zero_sha3 ''a\<newline>b\<newline>'' = Done e1 \<and> zero_sha3 ''a\<newline>c\<newline>'' = Done e2"
  by (rule applied_diff_is_authentic [OF generate_apply [OF generate_small zero_sha3_ok] zero_sha3_ok])
     (simp_all add: INT_MAX_def)

text \<open>
  The self-check of \<open>consdiff_gen_diff\<close> passes for every pair of documents that has a
  script, when the signatures of the base, if any, take more than one line.
\<close>

theorem self_check_passes:
  assumes "gen_ed_diff cons1 cons2 = Done ed" "length cons1 \<le> INT_MAX" "sigs_deletable cons1"
    and "length d1 = 32" "length d2 = 32"
  shows "consdiff_gen_diff cons1 cons2 d1 d2 = Done (diff_header d1 d2 @ ed)"
  using assms by (rule consdiff_gen_diff_succeeds)

lemma self_check_witness:
  "consdiff_gen_diff [''a'', ''b''] [''a'', ''c''] (replicate 32 0) (replicate 32 0) =
   Done (diff_header (replicate 32 0) (replicate 32 0) @ [''2c'', ''c'', ''.''])"
proof (rule self_check_passes [OF gen_small])
  show "sigs_deletable [''a'', ''b'']" by code_simp
qed (simp_all add: INT_MAX_def)

text \<open>
  A client that applies, one after the other, the diffs generated along a sequence of
  consensus documents ends with the last document of the sequence.
\<close>

theorem diff_chain_followed:
  assumes "\<forall>x \<in> set (base # targets). plain_document x" "\<forall>m. length (h m) = 32"
    and "diff_chain (consensus_diff_generate (\<lambda>m. Done (h m))) base targets = Done diffs"
  shows "apply_chain (consensus_diff_apply (\<lambda>m. Done (h m))) base diffs = Done (last (base # targets))"
  by (rule consensus.chain) (use assms in auto)

lemma diff_chain_witness:
  "apply_chain (consensus_diff_apply zero_sha3) ''a\<newline>b\<newline>'' [small_diff] = Done ''a\<newline>c\<newline>''"
proof -
  have z: "(\<lambda>m. Done (replicate 32 0)) = zero_sha3" by (simp add: zero_sha3_def fun_eq_iff)
  have "apply_chain (consensus_diff_apply (\<lambda>m. Done (replicate 32 0))) ''a\<newline>b\<newline>'' [small_diff] =
    Done (last [''a\<newline>b\<newline>'', ''a\<newline>c\<newline>''])"
    by (rule diff_chain_followed) (simp_all add: z generate_small plain_document_def INT_MAX_def)
  then show ?thesis by (simp add: z)
qed

text \<open>
  Joining lines and splitting the document again are inverse: \<open>consensus_split_lines\<close>
  accepts exactly the joined lines without line breaks and of the permitted length.
\<close>

theorem consensus_lines_split_iff:
  "consensus_split_lines s = Done ls \<longleftrightarrow>
     consensus_join_lines ls = s \<and> list_all (\<lambda>l. NL \<notin> set l \<and> length l \<le> CONSENSUS_LINE_MAX_LEN) ls"
  using split_join [of ls] join_split [of s ls] unfolding list_all_iff doc_line_def by blast

end
