(* ===== verification/Wire.thy ===== *)
theory Wire
  imports Prelude
begin

text \<open>
  Byte buffers as the cell code reads and writes them: big-endian integers
  (\<open>set_uint16(p, htons(x))\<close>, \<open>ntohs(get_uint16(p))\<close> and the 32-bit forms), a \<open>memcpy\<close> into
  the middle of a buffer, the space checks of the trunnel encoders and the remaining-length
  checks of its parsers.
\<close>

definition DIGEST_LEN :: nat where "DIGEST_LEN = 20"

definition put16 :: "u16 \<Rightarrow> byte list" where
  "put16 w = [ucast (drop_bit 8 w), ucast w]"

definition put32 :: "u32 \<Rightarrow> byte list" where
  "put32 w = [ucast (drop_bit 24 w), ucast (drop_bit 16 w), ucast (drop_bit 8 w), ucast w]"

definition get16 :: "byte list \<Rightarrow> u16" where
  "get16 bs = push_bit 8 (ucast (bs ! 0)) OR ucast (bs ! 1)"

definition get32 :: "byte list \<Rightarrow> u32" where
  "get32 bs = push_bit 24 (ucast (bs ! 0)) OR push_bit 16 (ucast (bs ! 1)) OR
              push_bit 8 (ucast (bs ! 2)) OR ucast (bs ! 3)"

text \<open>Eight bytes in network order, \<open>tor_htonll\<close> and \<open>trunnel_htonll\<close>: two halves of four.\<close>

definition put64 :: "u64 \<Rightarrow> byte list" where
  "put64 w = put32 (ucast (drop_bit 32 w)) @ put32 (ucast w)"

definition get64 :: "byte list \<Rightarrow> u64" where
  "get64 bs = push_bit 32 (ucast (get32 bs)) OR ucast (get32 (drop 4 bs))"

text \<open>\<open>memcpy(buf + off, src, n)\<close>; a write outside the buffer is no defined behaviour.\<close>

definition mem_put :: "byte list \<Rightarrow> nat \<Rightarrow> byte list \<Rightarrow> byte list outcome" where
  "mem_put buf off src =
     (if off + length src \<le> length buf
      then Done (take off buf @ src @ drop (off + length src) buf) else Stuck)"

text \<open>\<open>memcpy(dst, buf + off, n)\<close> as a read of \<open>n\<close> bytes.\<close>

definition mem_get :: "byte list \<Rightarrow> nat \<Rightarrow> nat \<Rightarrow> byte list outcome" where
  "mem_get buf off n = (if off + n \<le> length buf then Done (take n (drop off buf)) else Stuck)"

text \<open>One encoding step: \<open>trunnel_assert(written <= avail)\<close>, the space check, the copy.\<close>

definition emit :: "nat \<Rightarrow> byte list \<Rightarrow> byte list \<Rightarrow> byte list outcome" where
  "emit avail chunk out =
     (if \<not> length out \<le> avail then Stuck
      else if avail - length out < length chunk then Fail else Done (out @ chunk))"

text \<open>One parsing step: \<open>CHECK_REMAINING(n, label)\<close>, then the advance of \<open>ptr\<close>.\<close>

definition grab :: "nat \<Rightarrow> byte list \<Rightarrow> (byte list \<times> byte list) outcome" where
  "grab n input = (if length input < n then Fail else Done (take n input, drop n input))"

lemma length_put [len_simps, simp]: "length (put16 w) = 2" "length (put32 v) = 4"
  by (simp_all add: put16_def put32_def)

lemma get16_put16: "get16 (put16 w @ r) = w"
  unfolding get16_def put16_def by (rule bit_word_eqI) (auto simp: bit_simps)

lemma get16_put16' [simp]: "get16 (put16 w) = w"
  using get16_put16 [of w "[]"] by simp

lemma get32_put32: "get32 (put32 w @ r) = w"
proof (rule bit_word_eqI)
  fix n :: nat
  assume "n < LENGTH(32)"
  then have n: "n < 32" by simp
  have "n < 8 \<or> (8 \<le> n \<and> n < 16) \<or> (16 \<le> n \<and> n < 24) \<or> 24 \<le> n" by linarith
  with n show "bit (get32 (put32 w @ r)) n = bit w n"
    by (elim disjE) (auto simp: get32_def put32_def bit_simps)
qed

lemma get32_put32' [simp]: "get32 (put32 w) = w"
  using get32_put32 [of w "[]"] by simp

lemma length_put64 [len_simps, simp]: "length (put64 w) = 8"
  by (simp add: put64_def)

lemma get64_put64: "get64 (put64 w @ r) = w"
proof -
  have "get64 (put64 w @ r) = push_bit 32 (ucast (ucast (drop_bit 32 w) :: u32)) OR ucast (ucast w :: u32)"
    by (simp add: get64_def put64_def get32_put32)
  also have "\<dots> = w" by (rule bit_word_eqI) (auto simp: bit_simps not_less)
  finally show ?thesis .
qed

lemma get64_put64' [simp]: "get64 (put64 w) = w"
  using get64_put64 [of w "[]"] by simp

lemma emit_ok: "length out + length chunk \<le> avail \<Longrightarrow> emit avail chunk out = Done (out @ chunk)"
  by (simp add: emit_def)

lemma emit_Done [outcome_elims]:
  "(emit avail chunk out = Done r) = (length out + length chunk \<le> avail \<and> r = out @ chunk)"
  by (auto simp: emit_def)

lemma emit_not_Stuck: "length out \<le> avail \<Longrightarrow> emit avail chunk out \<noteq> Stuck"
  by (simp add: emit_def)

lemma grab_append [simp]: "n = length xs \<Longrightarrow> grab n (xs @ ys) = Done (xs, ys)"
  by (simp add: grab_def)

lemma grab_one [simp]: "grab (Suc 0) (x # xs) = Done ([x], xs)"
  by (simp add: grab_def)

lemma grab_Done [outcome_elims]:
  "(grab n input = Done (a, b)) = (length a = n \<and> input = a @ b)"
  by (auto simp: grab_def)

lemma grab_not_Stuck [simp]: "grab n input \<noteq> Stuck"
  by (simp add: grab_def)

lemma mem_put_Done [outcome_elims]:
  "(mem_put buf off src = Done r) =
     (off + length src \<le> length buf \<and> r = take off buf @ src @ drop (off + length src) buf)"
  by (auto simp: mem_put_def)

lemma mem_put_length: "mem_put buf off src = Done r \<Longrightarrow> length r = length buf"
  by (auto simp: mem_put_def split: if_splits)

end
