(* ===== verification/Trunnel.thy ===== *)
theory Trunnel
  imports Wire
begin

text \<open>
  The bodies of extend cells, from \<open>src/trunnel/ed25519_cert.c\<close>: link specifiers, the
  CREATE2 body, the EXTEND and EXTEND2 bodies, with the checks, encoders and parsers the
  generated code has. An encoder returns the bytes it writes into \<open>avail\<close> bytes of space, a
  parser the object and the input it leaves. The result codes -1 and -2 are both \<open>Fail\<close>.
\<close>

section \<open>CREATE2 body\<close>

record create2_cell_body =
  c2_handshake_type :: u16
  c2_handshake_len :: u16
  c2_handshake_data :: "byte list"

definition create2_cell_body_check :: "create2_cell_body \<Rightarrow> bool" where
  "create2_cell_body_check obj = (length (c2_handshake_data obj) = unat (c2_handshake_len obj))"

definition create2_cell_body_encode :: "nat \<Rightarrow> create2_cell_body \<Rightarrow> byte list outcome" where
  "create2_cell_body_encode avail obj =
     (if \<not> create2_cell_body_check obj then Fail
      else obind (emit avail (put16 (c2_handshake_type obj)) []) (\<lambda>out.
           obind (emit avail (put16 (c2_handshake_len obj)) out) (\<lambda>out.
             if unat (c2_handshake_len obj) \<noteq> length (c2_handshake_data obj) then Stuck
             else emit avail (c2_handshake_data obj) out)))"

definition create2_cell_body_parse :: "byte list \<Rightarrow> (create2_cell_body \<times> byte list) outcome" where
  "create2_cell_body_parse input =
     obind (grab 2 input) (\<lambda>(t, r1).
     obind (grab 2 r1) (\<lambda>(l, r2).
     obind (grab (unat (get16 l)) r2) (\<lambda>(d, r3).
       Done (\<lparr>c2_handshake_type = get16 t, c2_handshake_len = get16 l, c2_handshake_data = d\<rparr>, r3))))"

section \<open>EXTEND body\<close>

record extend1_cell_body =
  e1_ipv4addr :: u32
  e1_port :: u16
  e1_onionskin :: "byte list"
  e1_identity :: "byte list"

definition extend1_cell_body_parse :: "byte list \<Rightarrow> (extend1_cell_body \<times> byte list) outcome" where
  "extend1_cell_body_parse input =
     obind (grab 4 input) (\<lambda>(a, r1).
     obind (grab 2 r1) (\<lambda>(p, r2).
     obind (grab 186 r2) (\<lambda>(skin, r3).
     obind (grab 20 r3) (\<lambda>(ident, r4).
       Done (\<lparr>e1_ipv4addr = get32 a, e1_port = get16 p, e1_onionskin = skin,
              e1_identity = ident\<rparr>, r4)))))"

section \<open>Link specifiers\<close>

definition LS_IPV4 :: byte where "LS_IPV4 = 0"
definition LS_IPV6 :: byte where "LS_IPV6 = 1"
definition LS_LEGACY_ID :: byte where "LS_LEGACY_ID = 2"
definition LS_ED25519_ID :: byte where "LS_ED25519_ID = 3"

lemmas LS_defs = LS_IPV4_def LS_IPV6_def LS_LEGACY_ID_def LS_ED25519_ID_def

record link_specifier =
  ls_type :: byte
  ls_len :: byte
  un_ipv4_addr :: u32
  un_ipv4_port :: u16
  un_ipv6_addr :: "byte list"
  un_ipv6_port :: u16
  un_legacy_id :: "byte list"
  un_ed25519_id :: "byte list"
  un_unrecognized :: "byte list"

definition link_specifier_new :: link_specifier where
  "link_specifier_new =
     \<lparr>ls_type = 0, ls_len = 0, un_ipv4_addr = 0, un_ipv4_port = 0,
      un_ipv6_addr = replicate 16 0, un_ipv6_port = 0, un_legacy_id = replicate 20 0,
      un_ed25519_id = replicate 32 0, un_unrecognized = []\<rparr>"

definition link_specifier_encode_union :: "nat \<Rightarrow> link_specifier \<Rightarrow> byte list \<Rightarrow> byte list outcome" where
  "link_specifier_encode_union avail obj out =
     (if ls_type obj = LS_IPV4
      then obind (emit avail (put32 (un_ipv4_addr obj)) out) (\<lambda>out.
             emit avail (put16 (un_ipv4_port obj)) out)
      else if ls_type obj = LS_IPV6
      then obind (emit avail (un_ipv6_addr obj) out) (\<lambda>out.
             emit avail (put16 (un_ipv6_port obj)) out)
      else if ls_type obj = LS_LEGACY_ID then emit avail (un_legacy_id obj) out
      else if ls_type obj = LS_ED25519_ID then emit avail (un_ed25519_id obj) out
      else emit avail (un_unrecognized obj) out)"

text \<open>The length byte is written first from the object and again once the union is known.\<close>

definition link_specifier_encode :: "nat \<Rightarrow> link_specifier \<Rightarrow> byte list outcome" where
  "link_specifier_encode avail obj =
     obind (emit avail [ls_type obj] []) (\<lambda>out.
     obind (emit avail [ls_len obj] out) (\<lambda>out.
     obind (link_specifier_encode_union avail obj out) (\<lambda>out'.
       let body_len = length out' - length out
       in if body_len > 255 then Fail
          else Done (out'[1 := of_nat body_len]))))"

definition link_specifier_parse_union ::
  "link_specifier \<Rightarrow> byte list \<Rightarrow> (link_specifier \<times> byte list) outcome" where
  "link_specifier_parse_union obj input =
     (if ls_type obj = LS_IPV4
      then obind (grab 4 input) (\<lambda>(a, r1).
           obind (grab 2 r1) (\<lambda>(p, r2).
             Done (obj\<lparr>un_ipv4_addr := get32 a, un_ipv4_port := get16 p\<rparr>, r2)))
      else if ls_type obj = LS_IPV6
      then obind (grab 16 input) (\<lambda>(a, r1).
           obind (grab 2 r1) (\<lambda>(p, r2).
             Done (obj\<lparr>un_ipv6_addr := a, un_ipv6_port := get16 p\<rparr>, r2)))
      else if ls_type obj = LS_LEGACY_ID
      then obind (grab 20 input) (\<lambda>(d, r1). Done (obj\<lparr>un_legacy_id := d\<rparr>, r1))
      else if ls_type obj = LS_ED25519_ID
      then obind (grab 32 input) (\<lambda>(d, r1). Done (obj\<lparr>un_ed25519_id := d\<rparr>, r1))
      else Done (obj\<lparr>un_unrecognized := input\<rparr>, []))"

definition link_specifier_parse :: "byte list \<Rightarrow> (link_specifier \<times> byte list) outcome" where
  "link_specifier_parse input =
     obind (grab 1 input) (\<lambda>(t, r1).
     obind (grab 1 r1) (\<lambda>(l, r2).
     obind (grab (unat (hd l)) r2) (\<lambda>(body, after).
     obind (link_specifier_parse_union (link_specifier_new\<lparr>ls_type := hd t, ls_len := hd l\<rparr>) body)
       (\<lambda>(obj, left). if left \<noteq> [] then Fail else Done (obj, after)))))"

section \<open>EXTEND2 body\<close>

record extend2_cell_body =
  n_spec :: byte
  ls :: "link_specifier list"
  create2 :: create2_cell_body

definition extend2_cell_body_check :: "extend2_cell_body \<Rightarrow> bool" where
  "extend2_cell_body_check obj =
     (length (ls obj) = unat (n_spec obj) \<and> create2_cell_body_check (create2 obj))"

fun encode_specs :: "nat \<Rightarrow> link_specifier list \<Rightarrow> byte list \<Rightarrow> byte list outcome" where
  "encode_specs avail [] out = Done out"
| "encode_specs avail (l # lss) out =
     (if \<not> length out \<le> avail then Stuck
      else obind (link_specifier_encode (avail - length out) l) (\<lambda>bs.
             encode_specs avail lss (out @ bs)))"

definition extend2_cell_body_encode :: "nat \<Rightarrow> extend2_cell_body \<Rightarrow> byte list outcome" where
  "extend2_cell_body_encode avail obj =
     (if \<not> extend2_cell_body_check obj then Fail
      else obind (emit avail [n_spec obj] []) (\<lambda>out.
           obind (encode_specs avail (ls obj) out) (\<lambda>out.
             if \<not> length out \<le> avail then Stuck
             else obind (create2_cell_body_encode (avail - length out) (create2 obj)) (\<lambda>bs.
                    Done (out @ bs)))))"

fun parse_specs :: "nat \<Rightarrow> byte list \<Rightarrow> link_specifier list \<Rightarrow> (link_specifier list \<times> byte list) outcome" where
  "parse_specs 0 input acc = Done (acc, input)"
| "parse_specs (Suc n) input acc =
     obind (link_specifier_parse input) (\<lambda>(l, rest). parse_specs n rest (acc @ [l]))"

definition extend2_cell_body_parse :: "byte list \<Rightarrow> (extend2_cell_body \<times> byte list) outcome" where
  "extend2_cell_body_parse input =
     obind (grab 1 input) (\<lambda>(n, r1).
     obind (parse_specs (unat (hd n)) r1 []) (\<lambda>(lss, r2).
     obind (create2_cell_body_parse r2) (\<lambda>(c, r3).
       Done (\<lparr>n_spec = hd n, ls = lss, create2 = c\<rparr>, r3))))"

section \<open>Round trips\<close>

text \<open>The specifiers that have one encoding: those the union's length is right for.\<close>

definition ls_body :: "link_specifier \<Rightarrow> byte list" where
  "ls_body obj =
     (if ls_type obj = LS_IPV4 then put32 (un_ipv4_addr obj) @ put16 (un_ipv4_port obj)
      else if ls_type obj = LS_IPV6 then un_ipv6_addr obj @ put16 (un_ipv6_port obj)
      else if ls_type obj = LS_LEGACY_ID then un_legacy_id obj
      else if ls_type obj = LS_ED25519_ID then un_ed25519_id obj
      else un_unrecognized obj)"

definition ls_arrays_ok :: "link_specifier \<Rightarrow> bool" where
  "ls_arrays_ok obj \<longleftrightarrow>
     length (un_ipv6_addr obj) = 16 \<and> length (un_legacy_id obj) = 20 \<and>
     length (un_ed25519_id obj) = 32"

definition ls_view :: "link_specifier \<Rightarrow> link_specifier" where
  "ls_view obj =
     (let base = link_specifier_new\<lparr>ls_type := ls_type obj, ls_len := of_nat (length (ls_body obj))\<rparr>
      in if ls_type obj = LS_IPV4
         then base\<lparr>un_ipv4_addr := un_ipv4_addr obj, un_ipv4_port := un_ipv4_port obj\<rparr>
         else if ls_type obj = LS_IPV6
         then base\<lparr>un_ipv6_addr := un_ipv6_addr obj, un_ipv6_port := un_ipv6_port obj\<rparr>
         else if ls_type obj = LS_LEGACY_ID then base\<lparr>un_legacy_id := un_legacy_id obj\<rparr>
         else if ls_type obj = LS_ED25519_ID then base\<lparr>un_ed25519_id := un_ed25519_id obj\<rparr>
         else base\<lparr>un_unrecognized := un_unrecognized obj\<rparr>)"

lemma encode_union_Done:
  "link_specifier_encode_union avail obj out = Done r \<longleftrightarrow>
     length out + length (ls_body obj) \<le> avail \<and> r = out @ ls_body obj"
  by (auto simp: link_specifier_encode_union_def ls_body_def outcome_elims)

lemma link_specifier_encode_Done:
  "link_specifier_encode avail obj = Done r \<longleftrightarrow>
     length (ls_body obj) \<le> 255 \<and> 2 + length (ls_body obj) \<le> avail \<and>
     r = [ls_type obj, of_nat (length (ls_body obj))] @ ls_body obj"
  by (auto simp: link_specifier_encode_def outcome_elims encode_union_Done Let_def)

lemma unat_byte_of_nat: "n \<le> 255 \<Longrightarrow> unat (of_nat n :: byte) = n"
  by (simp add: unat_of_nat)

lemma link_specifier_parse_encode:
  assumes "link_specifier_encode avail obj = Done bs" "ls_arrays_ok obj"
  shows "link_specifier_parse (bs @ rest) = Done (ls_view obj, rest)"
proof -
  from assms(1) have le: "length (ls_body obj) \<le> 255"
    and bs: "bs = [ls_type obj, of_nat (length (ls_body obj))] @ ls_body obj"
    by (simp_all add: link_specifier_encode_Done)
  have u: "link_specifier_parse_union (link_specifier_new\<lparr>ls_type := ls_type obj,
             ls_len := of_nat (length (ls_body obj))\<rparr>) (ls_body obj) = Done (ls_view obj, [])"
    using assms(2) grab_append [of 16 "un_ipv6_addr obj" "put16 (un_ipv6_port obj)"]
      grab_append [of 2 "put16 (un_ipv6_port obj)" "[]"]
      grab_append [of 2 "put16 (un_ipv4_port obj)" "[]"]
      grab_append [of 20 "un_legacy_id obj" "[]"] grab_append [of 32 "un_ed25519_id obj" "[]"]
    by (auto simp: link_specifier_parse_union_def ls_body_def ls_view_def ls_arrays_ok_def Let_def)
  show ?thesis
    using u by (simp add: link_specifier_parse_def bs unat_byte_of_nat [OF le])
qed

lemma encode_specs_Done:
  "encode_specs avail lss out = Done r \<Longrightarrow>
     \<exists>bs. r = out @ bs \<and> length r \<le> max avail (length out) \<and>
       (list_all ls_arrays_ok lss \<longrightarrow>
          (\<forall>rest acc. parse_specs (length lss) (bs @ rest) acc = Done (acc @ map ls_view lss, rest)))"
proof (induction lss arbitrary: out)
  case (Cons l lss)
  from Cons.prems obtain b where le: "length out \<le> avail"
    and b: "link_specifier_encode (avail - length out) l = Done b"
    and r: "encode_specs avail lss (out @ b) = Done r"
    by (auto simp: outcome_elims split: if_splits)
  from b le have "length (out @ b) \<le> avail" by (auto simp: link_specifier_encode_Done)
  with Cons.IH [OF r] obtain bs where bs: "r = (out @ b) @ bs" "length r \<le> avail"
    "list_all ls_arrays_ok lss \<longrightarrow>
       (\<forall>rest acc. parse_specs (length lss) (bs @ rest) acc = Done (acc @ map ls_view lss, rest))"
    by (auto simp: max_def)
  then show ?case
    using link_specifier_parse_encode [OF b]
    by (intro exI [of _ "b @ bs"]) (auto simp: le)
qed simp

lemma create2_encode_Done:
  "create2_cell_body_encode avail c = Done bs \<longleftrightarrow>
     create2_cell_body_check c \<and> 4 + length (c2_handshake_data c) \<le> avail \<and>
     bs = put16 (c2_handshake_type c) @ put16 (c2_handshake_len c) @ c2_handshake_data c"
  by (auto simp: create2_cell_body_encode_def outcome_elims create2_cell_body_check_def)

lemma create2_parse_encode:
  assumes "create2_cell_body_encode avail c = Done bs"
  shows "create2_cell_body_parse (bs @ rest) = Done (c, rest)"
  using assms by (auto simp: create2_encode_Done create2_cell_body_parse_def create2_cell_body_check_def)

lemma extend2_parse_encode:
  assumes "extend2_cell_body_encode avail b = Done bs" "list_all ls_arrays_ok (ls b)"
  shows "extend2_cell_body_parse (bs @ rest) = Done (b\<lparr>ls := map ls_view (ls b)\<rparr>, rest)"
    and "length bs \<le> avail"
proof -
  from assms(1) obtain o1 c where chk: "extend2_cell_body_check b"
    and o1: "encode_specs avail (ls b) [n_spec b] = Done o1" and le: "length o1 \<le> avail" "1 \<le> avail"
    and c: "create2_cell_body_encode (avail - length o1) (create2 b) = Done c" and bs: "bs = o1 @ c"
    by (auto simp: extend2_cell_body_encode_def outcome_elims split: if_splits)
  from encode_specs_Done [OF o1] assms(2) obtain ss where ss: "o1 = n_spec b # ss"
    "\<And>rest acc. parse_specs (length (ls b)) (ss @ rest) acc = Done (acc @ map ls_view (ls b), rest)"
    by auto
  show "extend2_cell_body_parse (bs @ rest) = Done (b\<lparr>ls := map ls_view (ls b)\<rparr>, rest)"
    using ss chk create2_parse_encode [OF c]
    by (simp add: extend2_cell_body_parse_def bs extend2_cell_body_check_def)
  show "length bs \<le> avail" using c le by (auto simp: bs create2_encode_Done)
qed

section \<open>Enough space\<close>

definition ls_size :: "link_specifier \<Rightarrow> nat" where
  "ls_size l = 2 + length (ls_body l)"

lemma encode_specs_fits:
  assumes "list_all (\<lambda>l. length (ls_body l) \<le> 255) lss"
    and "length out + sum_list (map ls_size lss) \<le> avail"
  shows "\<exists>bs. encode_specs avail lss out = Done (out @ bs) \<and> length bs = sum_list (map ls_size lss)"
  using assms
proof (induction lss arbitrary: out)
  case (Cons l lss)
  let ?b = "[ls_type l, of_nat (length (ls_body l))] @ ls_body l"
  have lb: "length ?b = ls_size l" by (simp add: ls_size_def)
  have room: "length out + ls_size l + sum_list (map ls_size lss) \<le> avail" using Cons.prems(2) by simp
  have e: "link_specifier_encode (avail - length out) l = Done ?b"
    using Cons.prems(1) room by (simp add: link_specifier_encode_Done) (simp add: ls_size_def)
  have "length (out @ ?b) + sum_list (map ls_size lss) \<le> avail"
    using room lb by simp
  from Cons.IH [OF _ this] Cons.prems(1) obtain bs where
    bs: "encode_specs avail lss (out @ ?b) = Done ((out @ ?b) @ bs)" "length bs = sum_list (map ls_size lss)"
    by auto
  have "encode_specs avail (l # lss) out = Done (out @ ?b @ bs)"
    using e room bs(1) by simp
  moreover have "length (?b @ bs) = sum_list (map ls_size (l # lss))"
    using bs(2) lb by simp
  ultimately show ?case by blast
qed simp

lemma extend2_encode_fits:
  assumes "extend2_cell_body_check b" "list_all (\<lambda>l. length (ls_body l) \<le> 255) (ls b)"
    and "1 + sum_list (map ls_size (ls b)) + 4 + unat (c2_handshake_len (create2 b)) \<le> avail"
  shows "\<exists>bs. extend2_cell_body_encode avail b = Done bs \<and>
              length bs = 1 + sum_list (map ls_size (ls b)) + 4 + unat (c2_handshake_len (create2 b))"
proof -
  let ?S = "sum_list (map ls_size (ls b))"
  obtain ss where ss: "encode_specs avail (ls b) [n_spec b] = Done ([n_spec b] @ ss)" "length ss = ?S"
    using encode_specs_fits [OF assms(2), of "[n_spec b]" avail] assms(3) by auto
  have len: "length (c2_handshake_data (create2 b)) = unat (c2_handshake_len (create2 b))"
    using assms(1) by (simp add: extend2_cell_body_check_def create2_cell_body_check_def)
  have "create2_cell_body_encode (avail - (1 + ?S)) (create2 b) =
     Done (put16 (c2_handshake_type (create2 b)) @ put16 (c2_handshake_len (create2 b)) @
           c2_handshake_data (create2 b))"
    using assms(1,3) len by (simp add: create2_encode_Done extend2_cell_body_check_def)
  with ss assms(1,3) len show ?thesis
    by (simp add: extend2_cell_body_encode_def emit_ok)
qed

end
