(* ===== verification/Address.thy ===== *)
theory Address
  imports Wire CStrings
begin

text \<open>
  Network addresses as the cell code uses them, from \<open>src/lib/net/address.c\<close> and
  \<open>address.h\<close>: the family and the address, IPv4 in host order, and the validity tests.
\<close>

datatype tor_addr = AF_UNSPEC | is_inet: AF_INET u32 | is_inet6: AF_INET6 "byte list" | AF_UNIX

record tor_addr_port =
  addr :: tor_addr
  port :: u16

text \<open>An IPv4-mapped IPv6 address (\<open>::ffff:0:0/96\<close>) counts as IPv4.\<close>

definition tor_addr_is_v4 :: "tor_addr \<Rightarrow> bool" where
  "tor_addr_is_v4 a =
     (case a of
        AF_INET _ \<Rightarrow> True
      | AF_INET6 bs \<Rightarrow> take 12 bs = replicate 10 0 @ [0xff, 0xff]
      | _ \<Rightarrow> False)"

definition tor_addr_is_v6 :: "tor_addr \<Rightarrow> bool" where
  "tor_addr_is_v6 a = is_inet6 a"

fun tor_addr_is_null :: "tor_addr \<Rightarrow> bool" where
  "tor_addr_is_null (AF_INET6 bs) = fast_mem_is_zero bs"
| "tor_addr_is_null (AF_INET v) = (v = 0)"
| "tor_addr_is_null AF_UNIX = True"
| "tor_addr_is_null AF_UNSPEC = True"

definition tor_addr_is_valid :: "tor_addr \<Rightarrow> bool \<Rightarrow> bool" where
  "tor_addr_is_valid a for_listening =
     (if for_listening \<and> (is_inet a \<or> is_inet6 a) then True
      else \<not> tor_addr_is_null a)"

definition tor_port_is_valid :: "u16 \<Rightarrow> bool \<Rightarrow> bool" where
  "tor_port_is_valid p for_listening = (if for_listening then True else p \<noteq> 0)"

definition tor_addr_port_is_valid_ap :: "tor_addr_port \<Rightarrow> bool \<Rightarrow> bool" where
  "tor_addr_port_is_valid_ap ap for_listening =
     (tor_addr_is_valid (addr ap) for_listening \<and> tor_port_is_valid (port ap) for_listening)"

definition tor_addr_from_ipv4h :: "u32 \<Rightarrow> tor_addr" where
  "tor_addr_from_ipv4h v = AF_INET v"

definition tor_addr_from_ipv6_bytes :: "byte list \<Rightarrow> tor_addr" where
  "tor_addr_from_ipv6_bytes bs = AF_INET6 bs"

definition tor_addr_to_ipv4h :: "tor_addr \<Rightarrow> u32" where
  "tor_addr_to_ipv4h a = (case a of AF_INET v \<Rightarrow> v | _ \<Rightarrow> 0)"

definition tor_addr_copy_ipv6_bytes :: "tor_addr \<Rightarrow> byte list" where
  "tor_addr_copy_ipv6_bytes a = (case a of AF_INET6 bs \<Rightarrow> bs | _ \<Rightarrow> replicate 16 0)"

definition unspec_ap :: tor_addr_port where
  "unspec_ap = \<lparr>addr = AF_UNSPEC, port = 0\<rparr>"

lemma unspec_invalid [simp]: "\<not> tor_addr_port_is_valid_ap unspec_ap False"
  by (simp add: tor_addr_port_is_valid_ap_def tor_addr_is_valid_def unspec_ap_def)

end
