(* ===== verification/RelayPayments.thy ===== *)
theory RelayPayments
  imports CStrings
begin

text \<open>
  The payment records of \<open>src/feature/payment/relay_payments.c\<close>: an item per hop of a paid
  circuit, the list of them a circuit carries, and the parser of a controller's payment line
  (\<open>payment_util_parse_payment_line\<close> of \<open>payment_util.c\<close>). A field that is a \<open>char *\<close> is a
  \<open>string option\<close>, \<open>None\<close> the null pointer.
\<close>

section \<open>Items and lists\<close>

record relay_payment_item =
  fingerprint :: "string option"
  handshake_payment_hash :: "string option"
  handshake_preimage :: "string option"
  payhashes :: "string option"
  wire_format :: "string option"

type_synonym relay_payments = "relay_payment_item list"

definition relay_payment_item_new :: relay_payment_item where
  "relay_payment_item_new =
     \<lparr>fingerprint = None, handshake_payment_hash = None, handshake_preimage = None,
      payhashes = None, wire_format = None\<rparr>"

definition relay_payments_new :: relay_payments where
  "relay_payments_new = []"

text \<open>Both arguments are asserted to be non-null.\<close>

fun relay_payments_add_item ::
  "relay_payments option \<Rightarrow> relay_payment_item option \<Rightarrow> relay_payments outcome" where
  "relay_payments_add_item (Some ps) (Some it) = Done (ps @ [it])"
| "relay_payments_add_item _ _ = Stuck"

definition copy_if_set :: "string option \<Rightarrow> string option \<Rightarrow> string option" where
  "copy_if_set old src = (case src of None \<Rightarrow> old | Some s \<Rightarrow> Some s)"

definition relay_payment_item_clone :: "relay_payment_item option \<Rightarrow> relay_payment_item option" where
  "relay_payment_item_clone src =
     (case src of
        None \<Rightarrow> None
      | Some it \<Rightarrow>
          let copy0 = relay_payment_item_new;
              copy1 = copy0\<lparr>fingerprint := copy_if_set (fingerprint copy0) (fingerprint it)\<rparr>;
              copy2 = copy1\<lparr>handshake_payment_hash :=
                copy_if_set (handshake_payment_hash copy1) (handshake_payment_hash it)\<rparr>;
              copy3 = copy2\<lparr>handshake_preimage :=
                copy_if_set (handshake_preimage copy2) (handshake_preimage it)\<rparr>;
              copy4 = copy3\<lparr>payhashes := copy_if_set (payhashes copy3) (payhashes it)\<rparr>;
              copy5 = copy4\<lparr>wire_format := copy_if_set (wire_format copy4) (wire_format it)\<rparr>
          in Some copy5)"

fun clone_loop :: "relay_payments \<Rightarrow> relay_payments \<Rightarrow> relay_payments" where
  "clone_loop copy [] = copy"
| "clone_loop copy (it # its) =
     (case relay_payment_item_clone (Some it) of
        None \<Rightarrow> clone_loop copy its
      | Some c \<Rightarrow> clone_loop (copy @ [c]) its)"

definition relay_payments_clone :: "relay_payments option \<Rightarrow> relay_payments option" where
  "relay_payments_clone src =
     (case src of None \<Rightarrow> None | Some its \<Rightarrow> Some (clone_loop relay_payments_new its))"

fun find_by_fingerprint_loop :: "relay_payments \<Rightarrow> string \<Rightarrow> relay_payment_item option" where
  "find_by_fingerprint_loop [] fp = None"
| "find_by_fingerprint_loop (it # its) fp =
     (case fingerprint it of
        Some f \<Rightarrow> if strcasecmp f fp = 0 then Some it else find_by_fingerprint_loop its fp
      | None \<Rightarrow> find_by_fingerprint_loop its fp)"

definition relay_payments_find_by_fingerprint ::
  "relay_payments option \<Rightarrow> string option \<Rightarrow> relay_payment_item option" where
  "relay_payments_find_by_fingerprint payments fp =
     (case (payments, fp) of
        (Some its, Some f) \<Rightarrow> find_by_fingerprint_loop its f
      | _ \<Rightarrow> None)"

definition relay_payments_find_by_hop_num ::
  "relay_payments option \<Rightarrow> int \<Rightarrow> relay_payment_item option" where
  "relay_payments_find_by_hop_num payments hop_num =
     (case payments of
        None \<Rightarrow> None
      | Some its \<Rightarrow> if hop_num < 1 \<or> hop_num > int (length its) then None
                    else Some (its ! nat (hop_num - 1)))"

definition relay_payment_item_is_valid :: "relay_payment_item option \<Rightarrow> bool" where
  "relay_payment_item_is_valid item =
     (case item of
        None \<Rightarrow> False
      | Some it \<Rightarrow>
          if fingerprint it = None \<or> fingerprint it = Some [] then False
          else if handshake_payment_hash it = None \<or> handshake_payment_hash it = Some [] then False
          else True)"

section \<open>Parsing a payment line\<close>

text \<open>
  The first space ends the fingerprint; the payload after it holds the handshake payment
  hash and the preimage, 64 characters each, and the payment id hashes. An allocation
  never fails (\<open>tor_malloc\<close> aborts the process instead), so the null test on the fresh
  item is not a branch.
\<close>

definition payhash_prefix :: string where
  "payhash_prefix = ''eltor_payhash''"

definition payment_util_parse_payment_line :: "string option \<Rightarrow> relay_payment_item option" where
  "payment_util_parse_payment_line line =
     (case line of
        None \<Rightarrow> None
      | Some l \<Rightarrow>
          if length l = 0 then None
          else (case find_sub '' '' l of
                  None \<Rightarrow> None
                | Some fp_len \<Rightarrow>
                    let payload = drop (fp_len + 1) l;
                        payload_len = length payload
                    in if payload_len < 128 then None
                       else Some (relay_payment_item_new
                              \<lparr>fingerprint := Some (take fp_len l),
                               handshake_payment_hash := Some (take 64 payload),
                               handshake_preimage := Some (take 64 (drop 64 payload)),
                               payhashes := Some (if payload_len - 128 > 0
                                                  then take (payload_len - 128) (drop 128 payload)
                                                  else []),
                               wire_format := Some (payhash_prefix @ payload)\<rparr>)))"

section \<open>Correctness\<close>

lemma clone_item [simp]: "relay_payment_item_clone (Some it) = Some it"
  by (cases it)
     (auto simp: relay_payment_item_clone_def relay_payment_item_new_def copy_if_set_def Let_def
           split: option.splits)

lemma clone_loop_eq: "clone_loop copy its = copy @ its"
  by (induction its arbitrary: copy) auto

text \<open>The line a controller writes for one hop.\<close>

definition payment_line :: "string \<Rightarrow> string \<Rightarrow> string \<Rightarrow> string \<Rightarrow> string" where
  "payment_line fp hash preimage rest = fp @ '' '' @ hash @ preimage @ rest"

lemma parse_payment_line_Some:
  "payment_util_parse_payment_line (Some l) = Some it \<longleftrightarrow>
     (\<exists>fp payload. l = fp @ SP # payload \<and> SP \<notin> set fp \<and> length payload \<ge> 128 \<and>
        it = \<lparr>fingerprint = Some fp, handshake_payment_hash = Some (take 64 payload),
              handshake_preimage = Some (take 64 (drop 64 payload)),
              payhashes = Some (drop 128 payload),
              wire_format = Some (payhash_prefix @ payload)\<rparr>)"
  (is "?L \<longleftrightarrow> ?R")
proof
  assume L: ?L
  then obtain n where n: "find_sub '' '' l = Some n"
    by (auto simp: payment_util_parse_payment_line_def split: if_splits option.splits)
  then have sp: "SP \<in> set l" and len: "n = length (takeWhile (\<lambda>x. x \<noteq> SP) l)"
    by (auto simp: find_sub_singleton split: if_splits)
  define fp where "fp = takeWhile (\<lambda>x. x \<noteq> SP) l"
  have l: "l = fp @ SP # drop (n + 1) l"
    using find_sub_split [OF n] len unfolding fp_def
    by (metis append_Cons append_Nil length_Cons list.size(3) One_nat_def takeWhile_eq_take)
  have "SP \<notin> set fp" unfolding fp_def by (metis set_takeWhileD)
  moreover have "take n l = fp" using len unfolding fp_def by (metis takeWhile_eq_take)
  ultimately show ?R
    using L n l
    by (intro exI [of _ fp] exI [of _ "drop (n + 1) l"])
       (auto simp: payment_util_parse_payment_line_def relay_payment_item_new_def Let_def
             split: if_splits)
next
  assume ?R
  then obtain fp payload where *: "l = fp @ SP # payload" "SP \<notin> set fp" "length payload \<ge> 128"
    "it = \<lparr>fingerprint = Some fp, handshake_payment_hash = Some (take 64 payload),
           handshake_preimage = Some (take 64 (drop 64 payload)),
           payhashes = Some (drop 128 payload),
           wire_format = Some (payhash_prefix @ payload)\<rparr>"
    by blast
  then have "find_sub '' '' l = Some (length fp)"
    using find_sub_append [of SP fp "[]" payload] by simp
  with * show ?L
    by (simp add: payment_util_parse_payment_line_def relay_payment_item_new_def Let_def)
qed

end
