(* ===== verification/Payment.thy ===== *)
theory Payment
  imports RelayPayments Binascii
begin

text \<open>
  The payment checks of \<open>src/feature/payment/payment_util.c\<close>: reading hexadecimal preimages
  and hashes, verifying a preimage against a payment hash, the relay's checks on a received
  payload, and the client's lookup of the hash for a hop of an origin circuit. The circuit
  fields those functions read are the record \<open>origin_circuit\<close>. SHA-256 (a library function)
  is a parameter, and so are the bytes a stack buffer holds before it is written.
\<close>

section \<open>Hexadecimal input\<close>

text \<open>
  \<open>sscanf(s, "%2hhx", &b)\<close> as the C standard describes it: white space is skipped, then an
  item of at most two characters is read, a sign and a digit, or one or two digits. The item
  \<open>0x\<close> is a proper prefix of a number and no match.
\<close>

definition scan_2hhx :: "string \<Rightarrow> byte option" where
  "scan_2hhx s =
     (case dropWhile TOR_ISSPACE s of
        [] \<Rightarrow> None
      | c # cs \<Rightarrow>
          if c = CHR ''-'' \<or> c = CHR ''+''
          then (case cs of
                  d # _ \<Rightarrow> if hex_decode_digit d < 0 then None
                           else Some (word_of_int (if c = CHR ''-'' then - hex_decode_digit d
                                                   else hex_decode_digit d))
                | [] \<Rightarrow> None)
          else if hex_decode_digit c < 0 then None
          else (case cs of
                  d # _ \<Rightarrow> if c = CHR ''0'' \<and> (d = CHR ''x'' \<or> d = CHR ''X'') then None
                           else if hex_decode_digit d < 0 then Some (word_of_int (hex_decode_digit c))
                           else Some (word_of_int (16 * hex_decode_digit c + hex_decode_digit d))
                | [] \<Rightarrow> Some (word_of_int (hex_decode_digit c))))"

text \<open>
  \<open>hex\<close> is the character buffer the argument points to and \<open>bytes\<close> what the destination
  holds before the call. A position past the end of the buffer is not read in C.
\<close>

fun payment_util_hex_to_bytes :: "string \<Rightarrow> byte list \<Rightarrow> byte list outcome" where
  "payment_util_hex_to_bytes hex [] = Done []"
| "payment_util_hex_to_bytes hex (b # bs) =
     (if NUL \<notin> set hex then Stuck
      else obind (payment_util_hex_to_bytes (drop 2 hex) bs)
             (\<lambda>rest. Done ((case scan_2hhx (cstr hex) of Some v \<Rightarrow> v | None \<Rightarrow> b) # rest)))"

definition payment_util_verify_preimage ::
  "(byte list \<Rightarrow> byte list) \<Rightarrow> byte list \<Rightarrow> byte list \<Rightarrow> string \<Rightarrow> string \<Rightarrow> bool outcome" where
  "payment_util_verify_preimage SHA256 preimage0 payhash0 preimage_hex payhash_hex =
     obind (payment_util_hex_to_bytes preimage_hex preimage0) (\<lambda>preimage.
     obind (payment_util_hex_to_bytes payhash_hex payhash0) (\<lambda>payhash.
       Done (SHA256 preimage = payhash)))"

section \<open>The hash configured in the torrc\<close>

text \<open>
  \<open>torrc\<close> is what \<open>load_torrc_from_disk\<close> returns. The preimage is read, logged and dropped;
  only the hash is written.
\<close>

definition torrc_value :: "string \<Rightarrow> string \<Rightarrow> string" where
  "torrc_value torrc key =
     (case find_sub key torrc of
        Some i \<Rightarrow> take 64 (dropWhile (\<lambda>c. c = SP) (drop (i + length key) torrc))
      | None \<Rightarrow> [])"

definition payment_util_get_preimage_from_torrc ::
  "string option \<Rightarrow> string \<Rightarrow> int \<Rightarrow> string" where
  "payment_util_get_preimage_from_torrc torrc_contents eltor_payhash hop_num =
     (case torrc_contents of
        None \<Rightarrow> eltor_payhash
      | Some torrc \<Rightarrow>
          let payhash_key = ''ElTorPayHashHop'' @ dec_int hop_num;
              eltor_payhash_raw = torrc_value torrc payhash_key
          in payhash_prefix @ eltor_payhash_raw)"

section \<open>The relay's checks on a payload\<close>

definition preimage_prefix :: string where
  "preimage_prefix = ''eltor_preimage''"

definition payment_util_has_paid ::
  "(byte list \<Rightarrow> byte list) \<Rightarrow> byte list \<Rightarrow> byte list \<Rightarrow> string option \<Rightarrow> byte list \<Rightarrow> bool outcome" where
  "payment_util_has_paid SHA256 preimage0 payhash0 contact_info payload =
     (case contact_info of
        None \<Rightarrow> Done True
      | Some _ \<Rightarrow>
          let nlen = length preimage_prefix;
              plen = length payhash_prefix;
              payload_len = length payload
          in obind (tor_memmem payload (bytes_of preimage_prefix)) (\<lambda>found.
             obind (tor_memmem payload (bytes_of payhash_prefix)) (\<lambda>foundPayHash.
               case (found, foundPayHash) of
                 (Some index, Some indexPayHash) \<Rightarrow>
                   if index + nlen + 64 \<le> payload_len \<and> indexPayHash + plen + 64 \<le> payload_len
                   then let preimage = string_of (take 64 (drop (index + nlen) payload)) @ [NUL];
                            payhash = string_of (take 64 (drop (indexPayHash + plen) payload)) @ [NUL]
                        in payment_util_verify_preimage SHA256 preimage0 payhash0 preimage payhash
                   else Done False
               | _ \<Rightarrow> Done False)))"

definition payment_util_has_payment_id_hash :: "byte list \<Rightarrow> bool outcome" where
  "payment_util_has_payment_id_hash payload =
     (let plen = length payhash_prefix
      in obind (tor_memmem payload (bytes_of payhash_prefix)) (\<lambda>foundPayHash.
           case foundPayHash of
             None \<Rightarrow> Done False
           | Some indexPayHash \<Rightarrow>
               let remaining = length payload - (indexPayHash + plen)
               in if remaining < 1 then Done False
                  else let copy_len = min 768 remaining;
                           payhash = take copy_len (drop (indexPayHash + plen) payload)
                       in if length payhash \<noteq> copy_len then Stuck else Done True))"

section \<open>The client's circuit\<close>

definition CIRCUIT_PURPOSE_C_GENERAL :: nat where "CIRCUIT_PURPOSE_C_GENERAL = 5"
definition CIRCUIT_PURPOSE_C_HS_MIN :: nat where "CIRCUIT_PURPOSE_C_HS_MIN = 6"
definition CIRCUIT_PURPOSE_C_HS_MAX :: nat where "CIRCUIT_PURPOSE_C_HS_MAX = 13"
definition CIRCUIT_PURPOSE_S_HS_MIN :: nat where "CIRCUIT_PURPOSE_S_HS_MIN = 16"
definition CIRCUIT_PURPOSE_S_HS_MAX :: nat where "CIRCUIT_PURPOSE_S_HS_MAX = 20"
definition CIRCUIT_PURPOSE_HS_VANGUARDS :: nat where "CIRCUIT_PURPOSE_HS_VANGUARDS = 24"

lemmas purpose_defs =
  CIRCUIT_PURPOSE_C_GENERAL_def CIRCUIT_PURPOSE_C_HS_MIN_def CIRCUIT_PURPOSE_C_HS_MAX_def
  CIRCUIT_PURPOSE_S_HS_MIN_def CIRCUIT_PURPOSE_S_HS_MAX_def CIRCUIT_PURPOSE_HS_VANGUARDS_def

definition circuit_purpose_is_hs_client :: "nat \<Rightarrow> bool" where
  "circuit_purpose_is_hs_client purpose =
     (purpose \<ge> CIRCUIT_PURPOSE_C_HS_MIN \<and> purpose \<le> CIRCUIT_PURPOSE_C_HS_MAX)"

definition circuit_purpose_is_hs_service :: "nat \<Rightarrow> bool" where
  "circuit_purpose_is_hs_service purpose =
     (purpose \<ge> CIRCUIT_PURPOSE_S_HS_MIN \<and> purpose \<le> CIRCUIT_PURPOSE_S_HS_MAX)"

definition circuit_purpose_is_hs_vanguards :: "nat \<Rightarrow> bool" where
  "circuit_purpose_is_hs_vanguards purpose = (purpose = CIRCUIT_PURPOSE_HS_VANGUARDS)"

definition circuit_purpose_is_hidden_service :: "nat \<Rightarrow> bool" where
  "circuit_purpose_is_hidden_service purpose =
     (if circuit_purpose_is_hs_vanguards purpose then True
      else if circuit_purpose_is_hs_client purpose then True
      else if circuit_purpose_is_hs_service purpose then True
      else False)"

text \<open>
  The fields of \<open>origin_circuit_t\<close> that carry payments. \<open>cpath\<close> is the circular list of
  hops from its head, each hop named by its address.
\<close>

record origin_circuit =
  purpose :: nat
  circ_payhashes :: "string option"
  circ_relay_payments :: "relay_payments option"
  cpath :: "nat list"

section \<open>Finding the hash for a hop\<close>

definition PAYMENT_PAYHASH_SIZE :: nat where "PAYMENT_PAYHASH_SIZE = 768 + 13 + 1"

text \<open>
  \<open>out_size\<close> is the size of the caller's buffer and \<open>out\<close> the string in it before the call.
  The product is an \<open>int\<close> (its overflow is undefined behaviour), converted to the 64-bit
  \<open>size_t\<close>; the sum that is compared wraps, the pointer that is read from does not.
\<close>

definition payment_util_get_payhash_from_circ ::
  "nat \<Rightarrow> string \<Rightarrow> string option \<Rightarrow> int \<Rightarrow> string outcome" where
  "payment_util_get_payhash_from_circ out_size out payhash hop_num =
     (case payhash of
        None \<Rightarrow> Done out
      | Some p \<Rightarrow>
          let raw_size = 2304; prefix_size = 13; total_size = raw_size + prefix_size + 1;
              product = (hop_num - 1) * 768
          in if \<not> (- 2147483648 \<le> hop_num - 1 \<and> - 2147483648 \<le> product \<and> product \<le> 2147483647)
             then Stuck
             else let offset = nat (product mod 2 ^ 64);
                      payhash_len = length p
                  in obind (if (offset + 768) mod 2 ^ 64 > payhash_len then Done []
                            else if offset > payhash_len then Stuck
                            else Done (take 768 (drop offset p)))
                       (\<lambda>eltor_payhash_raw.
                          let written = take (total_size - 1) (payhash_prefix @ eltor_payhash_raw)
                          in if length written < out_size then Done written else Stuck))"

text \<open>The loop that counts hops up to \<open>hop\<close>; it also ends after the last hop.\<close>

fun hop_num_loop :: "nat list \<Rightarrow> nat \<Rightarrow> nat \<Rightarrow> nat" where
  "hop_num_loop [] hop n = n"
| "hop_num_loop (cur # rest) hop n = (if cur = hop then n + 1 else hop_num_loop rest hop (n + 1))"

definition strlcpy :: "string \<Rightarrow> nat \<Rightarrow> string" where
  "strlcpy src siz = take (siz - 1) src"

definition payment_util_get_hop_payhash ::
  "origin_circuit option \<Rightarrow> nat option \<Rightarrow> nat \<Rightarrow> string option outcome" where
  "payment_util_get_hop_payhash circ hop out_len =
     (case (circ, hop) of
        (Some c, Some h) \<Rightarrow>
          (if circ_payhashes c = None then Done None
           else let hop_num = hop_num_loop (cpath c) h 0
                in if hop_num \<le> 0 then Done None
                   else obind (payment_util_get_payhash_from_circ PAYMENT_PAYHASH_SIZE []
                                 (circ_payhashes c) (int hop_num))
                          (\<lambda>extracted_payhash.
                             if length extracted_payhash > 0
                             then Done (Some (strlcpy extracted_payhash out_len))
                             else Done None))
      | _ \<Rightarrow> Done None)"

text \<open>The constant that hidden service circuits send instead of a payment.\<close>

definition hs_dummy_payhash :: string where
  "hs_dummy_payhash =
     ''d5ddf78f461c67569046f8291e789163b8e13c9cc737552133abfadddcf0f054'' @
     ''824601029cfe46aa978decd83e969c11bc17968a60ab96bf688e1352369105bb'' @
     ''3e098bc3a359fd663a4545990b6cad089a85708a2cd2b323be78d2fbd32112b6'' @
     ''ab64f093beee01533673dd75e27d4ad7626935ec0260be4efd40e2b51c80bf64'' @
     ''472912c110796f1d83b2292f3652de52429249e1fd2ef82b64f7df8ea7e745f9'' @
     ''3d7265a70203ade5868599e24316227464592b1fd68a5d48e7953abd5e7ea76c'' @
     ''93c90ad2db89593875ba121bb9177ca4d585a7c434013480c5d41669c5d75531'' @
     ''727f5c952c1117a4d4869c0c14fa9e0780401c0ae1582a3410f199a3a03eb1f3'' @
     ''a94073e0f0b47be9747b0619bb6c16cc225207e78c5bab155b90183a8e3477a0'' @
     ''7787dc4a27ff6abe69de62c80b0f23422cb540ed8947bc0987fe51310b864869'' @
     ''5fae894b3c2cf45549342cac1c12607a9329163511a92be780203d9acc2be484'' @
     ''589e63b904fb99a617852312844ef80b56d28ae253122e289c1080968e830192''"

definition payment_util_get_first_hop_payhash :: "origin_circuit option \<Rightarrow> string option outcome" where
  "payment_util_get_first_hop_payhash circ =
     (case circ of
        None \<Rightarrow> Done None
      | Some c \<Rightarrow>
          if circuit_purpose_is_hidden_service (purpose c) then Done (Some hs_dummy_payhash)
          else if circ_payhashes c = None then Done None
          else obind (payment_util_get_payhash_from_circ PAYMENT_PAYHASH_SIZE [] (circ_payhashes c) 1)
                 (\<lambda>extracted_payhash.
                    if length extracted_payhash > 0 then Done (Some extracted_payhash)
                    else Done None))"

section \<open>Lemmas\<close>

lemma hex_digit_plain:
  assumes "0 \<le> hex_decode_digit c"
  shows "\<not> TOR_ISSPACE c" "c \<noteq> CHR ''-''" "c \<noteq> CHR ''+''" "c \<noteq> NUL" "c \<noteq> CHR ''x''" "c \<noteq> CHR ''X''"
proof -
  have "48 \<le> (of_char c :: nat)" using assms by (auto simp: hex_decode_digit_def Let_def split: if_splits)
  then show "\<not> TOR_ISSPACE c" by (auto simp: TOR_ISSPACE_iff)
  show "c \<noteq> CHR ''-''" "c \<noteq> CHR ''+''" "c \<noteq> NUL" "c \<noteq> CHR ''x''" "c \<noteq> CHR ''X''"
    using assms by (auto simp: hex_decode_digit_def)
qed

lemma scan_2hhx_pair:
  assumes "0 \<le> hex_decode_digit c" "0 \<le> hex_decode_digit d"
  shows "scan_2hhx (c # d # cs) = Some (word_of_int (16 * hex_decode_digit c + hex_decode_digit d))"
  using hex_digit_plain [OF assms(1)] hex_digit_plain [OF assms(2)] assms
  by (simp add: scan_2hhx_def)

lemma HEX_pair_byte:
  fixes b :: byte
  shows "word_of_int (16 * int (unat (drop_bit 4 b)) + int (unat (b AND 0xf))) = b"
proof -
  have m: "b AND 0xf = take_bit 4 b" by (simp add: take_bit_eq_mask mask_eq_exp_minus_1)
  have "unat b < 256" using unsigned_less [of b] by simp
  then have d: "unat (drop_bit 4 b) = unat b div 16"
    by (simp only: unsigned_drop_bit_eq) (simp add: drop_bit_eq_div take_bit_eq_mod)
  have t: "unat (take_bit 4 b) = unat b mod 16"
    by (simp only: unsigned_take_bit_eq) (simp add: take_bit_eq_mod)
  have "16 * int (unat (drop_bit 4 b)) + int (unat (b AND 0xf)) = int (unat b)"
    unfolding m d t by (metis mult_div_mod_eq of_nat_add of_nat_mult of_nat_numeral)
  then show ?thesis by simp
qed

text \<open>Pairs of hexadecimal digits, in either case, and the bytes they name.\<close>

definition all_hex :: "string \<Rightarrow> bool" where
  "all_hex s \<longleftrightarrow> (\<forall>c \<in> set s. 0 \<le> hex_decode_digit c)"

fun hex_value :: "string \<Rightarrow> byte list" where
  "hex_value (c # d # cs) = word_of_int (16 * hex_decode_digit c + hex_decode_digit d) # hex_value cs"
| "hex_value _ = []"

lemma hex_value_base16: "hex_value (base16_loop bs) = bs"
proof (induction bs)
  case (Cons b bs)
  then show ?case using nibbles [of b] HEX_pair_byte [of b] by (simp add: hex_decode_digit_HEX)
qed simp

lemma cstr_hex: "all_hex s \<Longrightarrow> cstr (s @ NUL # rest) = s"
  unfolding cstr_def by (subst takeWhile_append2) (auto simp: all_hex_def dest!: hex_digit_plain(4))

lemma hex_to_bytes_hex:
  assumes "all_hex s" "length s = 2 * length junk"
  shows "payment_util_hex_to_bytes (s @ [NUL]) junk = Done (hex_value s)"
  using assms
proof (induction junk arbitrary: s)
  case (Cons j js)
  then obtain c d cs where s: "s = c # d # cs" "length cs = 2 * length js" by (auto simp: length_Suc_conv)
  have "cstr (s @ [NUL]) = s" by (rule cstr_hex [OF Cons.prems(1)])
  moreover have "0 \<le> hex_decode_digit c" "0 \<le> hex_decode_digit d" "all_hex cs" using Cons.prems(1) s(1) by (simp_all add: all_hex_def)
  ultimately show ?case using Cons.IH [of cs] s scan_2hhx_pair [of c d cs] by simp
qed simp

lemma take_after:
  assumes "find_sub needle hay = Some (length xs)" "hay = xs @ needle @ ys @ zs" "length ys = n"
  shows "take n (drop (length xs + length needle) hay) = ys"
  using assms(2,3) by simp

lemma hop_num_loop_at:
  assumes "distinct cp" "i < length cp"
  shows "hop_num_loop cp (cp ! i) n = n + i + 1"
  using assms
proof (induction cp arbitrary: n i)
  case (Cons c cp)
  then show ?case by (cases i) (auto simp: nth_mem)
qed simp

lemma hop_num_loop_absent: "h \<notin> set cp \<Longrightarrow> hop_num_loop cp h n = n + length cp"
  by (induction cp arbitrary: n) auto

lemma get_payhash_eq:
  assumes "1 \<le> hop" "hop < 1000000" "PAYMENT_PAYHASH_SIZE \<le> out_size" "length p < 2 ^ 62"
  shows "payment_util_get_payhash_from_circ out_size out (Some p) (int hop) =
     Done (payhash_prefix @ (if 768 * hop \<le> length p then take 768 (drop (768 * (hop - 1)) p) else []))"
proof -
  obtain k where k: "hop = Suc k" using assms(1) by (cases hop) auto
  have "nat (int k * 768 mod 2 ^ 64) = k * 768"
    using assms(2) k by (simp add: nat_mod_distrib nat_mult_distrib)
  with assms k show ?thesis
    by (auto simp: payment_util_get_payhash_from_circ_def PAYMENT_PAYHASH_SIZE_def payhash_prefix_def
          Let_def mult.commute)
qed

lemma find_sub_map_inj:
  assumes "inj f"
  shows "find_sub (map f ns) (map f hs) = find_sub ns hs"
proof (induction hs)
  case (Cons h hs)
  have "take (length ns) (map f (h # hs)) = map f ns \<longleftrightarrow> take (length ns) (h # hs) = ns"
    unfolding take_map using inj_map_eq_map [OF assms] by blast
  with Cons show ?case by simp
qed simp

lemma find_sub_bytes_of: "find_sub (bytes_of ns) (bytes_of hs) = find_sub ns hs"
  unfolding bytes_of_def by (rule find_sub_map_inj) (simp add: inj_def)

lemma tor_memmem_eq: "needle \<noteq> [] \<Longrightarrow> tor_memmem hay needle = Done (find_sub needle hay)"
  using find_sub_bound [of needle hay] by (cases "find_sub needle hay") (auto simp: tor_memmem_def)

lemma prefix_lengths [simp]: "length payhash_prefix = 13" "length preimage_prefix = 14"
  by (simp_all add: payhash_prefix_def preimage_prefix_def)

lemma tor_memmem_payhash [simp]:
  "tor_memmem payload (bytes_of payhash_prefix) = Done (find_sub (bytes_of payhash_prefix) payload)"
  "tor_memmem payload (bytes_of preimage_prefix) = Done (find_sub (bytes_of preimage_prefix) payload)"
  by (rule tor_memmem_eq, simp add: bytes_of_def payhash_prefix_def preimage_prefix_def)+

lemma concat_chunk:
  assumes "\<forall>c\<in>set cs. length c = n" "i < length cs"
  shows "take n (drop (n * i) (concat cs)) = cs ! i"
  using assms by (induction cs arbitrary: i) (auto simp: nth_Cons split: nat.splits)

lemma length_concat_chunks: "\<forall>c\<in>set cs. length c = n \<Longrightarrow> length (concat cs) = n * length cs"
  by (induction cs) auto

text \<open>
  The relay's test never reads outside the payload, and succeeds exactly when the prefix
  occurs and its first occurrence is followed by at least one byte.
\<close>

lemma has_payment_id_hash_iff:
  "payment_util_has_payment_id_hash payload =
     Done (\<exists>i. find_sub (bytes_of payhash_prefix) payload = Some i \<and> i + 13 < length payload)"
  by (auto simp: payment_util_has_payment_id_hash_def Let_def
        split: option.splits)

section \<open>Properties\<close>

text \<open>The 64 characters after the first occurrence of a prefix, when the payload has as many.\<close>

definition field_after :: "string \<Rightarrow> byte list \<Rightarrow> string option" where
  "field_after prefix payload =
     (case find_sub (bytes_of prefix) payload of
        None \<Rightarrow> None
      | Some i \<Rightarrow>
          if i + length prefix + 64 \<le> length payload
          then Some (string_of (take 64 (drop (i + length prefix) payload))) else None)"

text \<open>
  C12. A relay with no contact information accepts every payload. One with contact information accepts a
  payload exactly when 64 characters follow the first occurrence of each prefix and the SHA-256 of the 32
  bytes that those of the preimage name is the 32 bytes that those of the payment hash name, for
  hexadecimal digits in either case, and whatever the stack buffers held before. What it does with
  characters that are no hexadecimal digits is not said here.
\<close>

theorem has_paid_iff_preimage_of_hash:
  assumes "\<And>s. field_after preimage_prefix payload = Some s \<Longrightarrow> all_hex s"
    and "\<And>s. field_after payhash_prefix payload = Some s \<Longrightarrow> all_hex s"
    and "length j1 = 32" "length j2 = 32"
  shows "payment_util_has_paid SHA256 j1 j2 contact_info payload =
    Done (case contact_info of
        None \<Rightarrow> True
      | Some _ \<Rightarrow> (case (field_after preimage_prefix payload, field_after payhash_prefix payload) of
            (Some pre, Some hash) \<Rightarrow> SHA256 (hex_value pre) = hex_value hash
          | _ \<Rightarrow> False))"
proof (cases "\<exists>ci pre hash. contact_info = Some ci \<and> field_after preimage_prefix payload = Some pre \<and>
    field_after payhash_prefix payload = Some hash")
  case True
  then obtain ci pre hash where c: "contact_info = Some ci" and f: "field_after preimage_prefix payload = Some pre"
    "field_after payhash_prefix payload = Some hash" by blast
  obtain i j where ij: "find_sub (bytes_of preimage_prefix) payload = Some i" "i + 14 + 64 \<le> length payload"
    "pre = string_of (take 64 (drop (i + 14) payload))"
    "find_sub (bytes_of payhash_prefix) payload = Some j" "j + 13 + 64 \<le> length payload"
    "hash = string_of (take 64 (drop (j + 13) payload))"
    using f by (auto simp: field_after_def split: option.splits if_splits)
  have l: "length pre = 2 * length j1" "length hash = 2 * length j2" using ij assms(3,4) by simp_all
  show ?thesis
    using c f ij(1,2,4,5) hex_to_bytes_hex [OF assms(1) [OF f(1)] l(1)] hex_to_bytes_hex [OF assms(2) [OF f(2)] l(2)]
    by (simp add: payment_util_has_paid_def payment_util_verify_preimage_def Let_def ij(3) [symmetric] ij(6) [symmetric]
        add.assoc)
next
  case False
  then show ?thesis
    by (cases contact_info)
       (auto simp: payment_util_has_paid_def field_after_def Let_def split: option.splits if_splits)
qed

text \<open>
  Digits in lower case. The stand-in for SHA-256 inverts some bits of each byte: the first payload is
  accepted, the second, with another preimage, is not.
\<close>

definition paid_payload :: "string \<Rightarrow> string \<Rightarrow> byte list" where
  "paid_payload hash pre = bytes_of (payhash_prefix @ hash @ preimage_prefix @ pre)"

definition pairs32 :: "string \<Rightarrow> string" where
  "pairs32 s = concat (replicate 32 s)"

lemma field_after_bytes:
  "field_after p (bytes_of s) = (case find_sub p s of None \<Rightarrow> None
     | Some i \<Rightarrow> if i + length p + 64 \<le> length s then Some (take 64 (drop (i + length p) s)) else None)"
proof -
  have "take n (drop k (bytes_of s)) = bytes_of (take n (drop k s))" for n k by (simp add: bytes_of_def take_map drop_map)
  then show ?thesis by (simp add: field_after_def find_sub_bytes_of split: option.splits)
qed

lemma length_pairs32: "length s = 2 \<Longrightarrow> length (pairs32 s) = 64"
  by (simp add: pairs32_def length_concat map_replicate_const sum_list_replicate)

lemma paid_payload_fields:
  assumes "length pre = 64"
  shows "field_after payhash_prefix (paid_payload (pairs32 ''ab'') pre) = Some (pairs32 ''ab'')"
    and "field_after preimage_prefix (paid_payload (pairs32 ''ab'') pre) = Some pre"
proof -
  have l: "length (pairs32 ''ab'') = 64" by (rule length_pairs32) simp
  have f: "find_sub payhash_prefix (payhash_prefix @ pairs32 ''ab'' @ preimage_prefix @ pre) = Some 0"
    "find_sub preimage_prefix (payhash_prefix @ pairs32 ''ab'' @ preimage_prefix @ pre) = Some 77"
    by (simp_all add: payhash_prefix_def preimage_prefix_def pairs32_def eval_nat_numeral)
  have "drop 91 (payhash_prefix @ pairs32 ''ab'' @ preimage_prefix @ pre) = pre" using l by simp
  then show "field_after payhash_prefix (paid_payload (pairs32 ''ab'') pre) = Some (pairs32 ''ab'')"
    "field_after preimage_prefix (paid_payload (pairs32 ''ab'') pre) = Some pre"
    unfolding paid_payload_def field_after_bytes f using l assms by simp_all
qed

lemma has_paid_witness:
  "payment_util_has_paid (map (\<lambda>b. b XOR 0x66)) (replicate 32 7) (replicate 32 7) (Some ''contact'')
     (paid_payload (pairs32 ''ab'') (pairs32 ''cd'')) = Done True \<and>
   payment_util_has_paid (map (\<lambda>b. b XOR 0x66)) (replicate 32 7) (replicate 32 7) (Some ''contact'')
     (paid_payload (pairs32 ''ab'') (pairs32 ''0d'')) = Done False"
proof -
  have h: "all_hex (pairs32 ''ab'')" "all_hex (pairs32 ''cd'')" "all_hex (pairs32 ''0d'')" by code_simp+
  have v: "map (\<lambda>b. b XOR 0x66) (hex_value (pairs32 ''cd'')) = hex_value (pairs32 ''ab'')"
    "map (\<lambda>b. b XOR 0x66) (hex_value (pairs32 ''0d'')) \<noteq> hex_value (pairs32 ''ab'')" by code_simp+
  show ?thesis
    using has_paid_iff_preimage_of_hash [of "paid_payload (pairs32 ''ab'') (pairs32 ''cd'')" "replicate 32 7" "replicate 32 7"
        "map (\<lambda>b. b XOR 0x66)" "Some ''contact''"]
      has_paid_iff_preimage_of_hash [of "paid_payload (pairs32 ''ab'') (pairs32 ''0d'')" "replicate 32 7" "replicate 32 7"
        "map (\<lambda>b. b XOR 0x66)" "Some ''contact''"] h v
    by (simp add: paid_payload_fields length_pairs32)
qed

text \<open>
  C33. The client takes the hash of hop \<open>i\<close> (from 0) of its path from the \<open>i\<close>-th 768
  characters of the circuit's hash string, prefixed, when the string is a concatenation of
  768-character hashes.
\<close>

theorem hop_payhash_is_its_chunk:
  assumes "distinct (cpath c)" "i < length (cpath c)" "length (cpath c) < 1000000"
    and "circ_payhashes c = Some (concat hashes)" "\<forall>h\<in>set hashes. length h = 768"
    and "i < length hashes" "length hashes < 1000000" "PAYMENT_PAYHASH_SIZE \<le> out_len"
  shows "payment_util_get_hop_payhash (Some c) (Some (cpath c ! i)) out_len =
           Done (Some (payhash_prefix @ hashes ! i))"
proof -
  have l: "length (concat hashes) = 768 * length hashes" by (rule length_concat_chunks) fact
  have g: "payment_util_get_payhash_from_circ PAYMENT_PAYHASH_SIZE [] (Some (concat hashes)) (int (Suc i)) =
          Done (payhash_prefix @ hashes ! i)"
    using get_payhash_eq [of "Suc i" PAYMENT_PAYHASH_SIZE "concat hashes"] concat_chunk [OF assms(5,6)]
      assms(2,3,6,7) by (simp add: l)
  have "length (hashes ! i) = 768" using assms(5,6) by simp
  with assms g show ?thesis
    by (simp add: payment_util_get_hop_payhash_def hop_num_loop_at strlcpy_def PAYMENT_PAYHASH_SIZE_def
          payhash_prefix_def)
qed

lemma hop_payhash_witness:
  "payment_util_get_hop_payhash
     (Some \<lparr>purpose = 5, circ_payhashes = Some (concat [replicate 768 (CHR ''a''), replicate 768 (CHR ''b'')]),
            circ_relay_payments = None, cpath = [10, 20]\<rparr>) (Some 20) 800 =
     Done (Some (payhash_prefix @ replicate 768 (CHR ''b'')))"
  using hop_payhash_is_its_chunk [of "\<lparr>purpose = 5, circ_payhashes =
        Some (concat [replicate 768 (CHR ''a''), replicate 768 (CHR ''b'')]),
        circ_relay_payments = None, cpath = [10, 20]\<rparr>" 1
      "[replicate 768 (CHR ''a''), replicate 768 (CHR ''b'')]" 800]
  by (simp add: PAYMENT_PAYHASH_SIZE_def)

text \<open>
  C34. A hop that is not on the circuit's path is given the hash of the last hop instead of
  the error the code's "could not determine hop number" branch announces.
\<close>

theorem hop_payhash_absent_hop:
  assumes "h \<notin> set (cpath c)" "distinct (cpath c)" "cpath c \<noteq> []"
  shows "payment_util_get_hop_payhash (Some c) (Some h) out_len =
         payment_util_get_hop_payhash (Some c) (Some (last (cpath c))) out_len"
proof -
  have "hop_num_loop (cpath c) (last (cpath c)) 0 = length (cpath c)"
    using hop_num_loop_at [of "cpath c" "length (cpath c) - 1" 0] assms(2,3)
    by (simp add: last_conv_nth)
  moreover have "hop_num_loop (cpath c) h 0 = length (cpath c)"
    using hop_num_loop_absent [OF assms(1)] by simp
  ultimately show ?thesis by (simp add: payment_util_get_hop_payhash_def)
qed

lemma hop_payhash_absent_witness:
  "payment_util_get_hop_payhash
     (Some \<lparr>purpose = 5, circ_payhashes = Some [], circ_relay_payments = None, cpath = [10, 20]\<rparr>)
     (Some 30) 800 =
   payment_util_get_hop_payhash
     (Some \<lparr>purpose = 5, circ_payhashes = Some [], circ_relay_payments = None, cpath = [10, 20]\<rparr>)
     (Some 20) 800"
  using hop_payhash_absent_hop [of 30 "\<lparr>purpose = 5, circ_payhashes = Some [],
      circ_relay_payments = None, cpath = [10, 20]\<rparr>" 800] by simp

text \<open>
  The first hop of a circuit that is not a hidden service circuit is always given a
  hash once the circuit has a hash string: a string too short for one hash yields the bare
  prefix, and never the null result that stands for "no payment hash".
\<close>

theorem first_hop_payhash_never_missing:
  assumes "\<not> circuit_purpose_is_hidden_service (purpose c)" "circ_payhashes c = Some p"
    and "length p < 2 ^ 62"
  shows "payment_util_get_first_hop_payhash (Some c) =
           Done (Some (payhash_prefix @ (if 768 \<le> length p then take 768 p else [])))"
  using get_payhash_eq [of 1 PAYMENT_PAYHASH_SIZE p "[]"] assms
  by (simp add: payment_util_get_first_hop_payhash_def payhash_prefix_def)

lemma first_hop_payhash_witness:
  "payment_util_get_first_hop_payhash
     (Some \<lparr>purpose = 5, circ_payhashes = Some ''short'', circ_relay_payments = None, cpath = []\<rparr>) =
   Done (Some payhash_prefix)"
  using first_hop_payhash_never_missing [of "\<lparr>purpose = 5, circ_payhashes = Some ''short'',
      circ_relay_payments = None, cpath = []\<rparr>" "''short''"]
  by (simp add: circuit_purpose_is_hidden_service_def circuit_purpose_is_hs_vanguards_def
      circuit_purpose_is_hs_client_def circuit_purpose_is_hs_service_def purpose_defs)

end
