(* ===== verification/OnionCell.thy ===== *)
theory OnionCell
  imports Trunnel Address Payment
begin

text \<open>
  Circuit-building cells, from \<open>src/core/or/onion.c\<close>: the validity checks, parsers and
  formatters of CREATE, CREATED, EXTEND and EXTENDED cells and their fast and second
  versions, with the payment hash that \<open>extend_cell_format\<close> appends to an extend cell. Arrays
  are byte lists of the array's size, and a length field is kept beside them.
\<close>

section \<open>Sizes and codes\<close>

definition CELL_PAYLOAD_SIZE :: nat where "CELL_PAYLOAD_SIZE = 2048"
definition RELAY_HEADER_SIZE :: nat where "RELAY_HEADER_SIZE = 1 + 2 + 2 + 4 + 2"
definition RELAY_PAYLOAD_SIZE :: nat where "RELAY_PAYLOAD_SIZE = CELL_PAYLOAD_SIZE - RELAY_HEADER_SIZE"
definition TAP_ONIONSKIN_CHALLENGE_LEN :: nat where "TAP_ONIONSKIN_CHALLENGE_LEN = 186"
definition TAP_ONIONSKIN_REPLY_LEN :: nat where "TAP_ONIONSKIN_REPLY_LEN = 148"
definition NTOR_ONIONSKIN_LEN :: nat where "NTOR_ONIONSKIN_LEN = 84"
definition NTOR_REPLY_LEN :: nat where "NTOR_REPLY_LEN = 64"
definition CREATE_FAST_LEN :: nat where "CREATE_FAST_LEN = 20"
definition CREATED_FAST_LEN :: nat where "CREATED_FAST_LEN = 40"

lemmas size_defs =
  CELL_PAYLOAD_SIZE_def RELAY_HEADER_SIZE_def RELAY_PAYLOAD_SIZE_def DIGEST_LEN_def
  TAP_ONIONSKIN_CHALLENGE_LEN_def TAP_ONIONSKIN_REPLY_LEN_def NTOR_ONIONSKIN_LEN_def
  NTOR_REPLY_LEN_def CREATE_FAST_LEN_def CREATED_FAST_LEN_def

definition CELL_CREATE :: byte where "CELL_CREATE = 1"
definition CELL_CREATED :: byte where "CELL_CREATED = 2"
definition CELL_CREATE_FAST :: byte where "CELL_CREATE_FAST = 5"
definition CELL_CREATED_FAST :: byte where "CELL_CREATED_FAST = 6"
definition CELL_CREATE2 :: byte where "CELL_CREATE2 = 10"
definition CELL_CREATED2 :: byte where "CELL_CREATED2 = 11"
definition RELAY_COMMAND_EXTEND :: byte where "RELAY_COMMAND_EXTEND = 6"
definition RELAY_COMMAND_EXTENDED :: byte where "RELAY_COMMAND_EXTENDED = 7"
definition RELAY_COMMAND_EXTEND2 :: byte where "RELAY_COMMAND_EXTEND2 = 14"
definition RELAY_COMMAND_EXTENDED2 :: byte where "RELAY_COMMAND_EXTENDED2 = 15"
definition ONION_HANDSHAKE_TYPE_TAP :: u16 where "ONION_HANDSHAKE_TYPE_TAP = 0"
definition ONION_HANDSHAKE_TYPE_FAST :: u16 where "ONION_HANDSHAKE_TYPE_FAST = 1"
definition ONION_HANDSHAKE_TYPE_NTOR :: u16 where "ONION_HANDSHAKE_TYPE_NTOR = 2"
definition ONION_HANDSHAKE_TYPE_NTOR_V3 :: u16 where "ONION_HANDSHAKE_TYPE_NTOR_V3 = 3"

lemmas code_defs =
  CELL_CREATE_def CELL_CREATED_def CELL_CREATE_FAST_def CELL_CREATED_FAST_def CELL_CREATE2_def
  CELL_CREATED2_def RELAY_COMMAND_EXTEND_def RELAY_COMMAND_EXTENDED_def RELAY_COMMAND_EXTEND2_def
  RELAY_COMMAND_EXTENDED2_def ONION_HANDSHAKE_TYPE_TAP_def ONION_HANDSHAKE_TYPE_FAST_def
  ONION_HANDSHAKE_TYPE_NTOR_def ONION_HANDSHAKE_TYPE_NTOR_V3_def

lemma code_distinct [simp]:
  "CELL_CREATE \<noteq> CELL_CREATE_FAST" "CELL_CREATE \<noteq> CELL_CREATE2" "CELL_CREATE \<noteq> CELL_CREATED" "CELL_CREATE \<noteq> CELL_CREATED_FAST" "CELL_CREATE \<noteq> CELL_CREATED2"
  "CELL_CREATE_FAST \<noteq> CELL_CREATE" "CELL_CREATE_FAST \<noteq> CELL_CREATE2" "CELL_CREATE_FAST \<noteq> CELL_CREATED" "CELL_CREATE_FAST \<noteq> CELL_CREATED_FAST" "CELL_CREATE_FAST \<noteq> CELL_CREATED2"
  "CELL_CREATE2 \<noteq> CELL_CREATE" "CELL_CREATE2 \<noteq> CELL_CREATE_FAST" "CELL_CREATE2 \<noteq> CELL_CREATED" "CELL_CREATE2 \<noteq> CELL_CREATED_FAST" "CELL_CREATE2 \<noteq> CELL_CREATED2"
  "CELL_CREATED \<noteq> CELL_CREATE" "CELL_CREATED \<noteq> CELL_CREATE_FAST" "CELL_CREATED \<noteq> CELL_CREATE2" "CELL_CREATED \<noteq> CELL_CREATED_FAST" "CELL_CREATED \<noteq> CELL_CREATED2"
  "CELL_CREATED_FAST \<noteq> CELL_CREATE" "CELL_CREATED_FAST \<noteq> CELL_CREATE_FAST" "CELL_CREATED_FAST \<noteq> CELL_CREATE2" "CELL_CREATED_FAST \<noteq> CELL_CREATED" "CELL_CREATED_FAST \<noteq> CELL_CREATED2"
  "CELL_CREATED2 \<noteq> CELL_CREATE" "CELL_CREATED2 \<noteq> CELL_CREATE_FAST" "CELL_CREATED2 \<noteq> CELL_CREATE2" "CELL_CREATED2 \<noteq> CELL_CREATED" "CELL_CREATED2 \<noteq> CELL_CREATED_FAST"
  "RELAY_COMMAND_EXTEND \<noteq> RELAY_COMMAND_EXTEND2" "RELAY_COMMAND_EXTEND \<noteq> RELAY_COMMAND_EXTENDED" "RELAY_COMMAND_EXTEND \<noteq> RELAY_COMMAND_EXTENDED2"
  "RELAY_COMMAND_EXTEND2 \<noteq> RELAY_COMMAND_EXTEND" "RELAY_COMMAND_EXTEND2 \<noteq> RELAY_COMMAND_EXTENDED" "RELAY_COMMAND_EXTEND2 \<noteq> RELAY_COMMAND_EXTENDED2"
  "RELAY_COMMAND_EXTENDED \<noteq> RELAY_COMMAND_EXTEND" "RELAY_COMMAND_EXTENDED \<noteq> RELAY_COMMAND_EXTEND2" "RELAY_COMMAND_EXTENDED \<noteq> RELAY_COMMAND_EXTENDED2"
  "RELAY_COMMAND_EXTENDED2 \<noteq> RELAY_COMMAND_EXTEND" "RELAY_COMMAND_EXTENDED2 \<noteq> RELAY_COMMAND_EXTEND2" "RELAY_COMMAND_EXTENDED2 \<noteq> RELAY_COMMAND_EXTENDED"
  "ONION_HANDSHAKE_TYPE_TAP \<noteq> ONION_HANDSHAKE_TYPE_FAST" "ONION_HANDSHAKE_TYPE_TAP \<noteq> ONION_HANDSHAKE_TYPE_NTOR" "ONION_HANDSHAKE_TYPE_TAP \<noteq> ONION_HANDSHAKE_TYPE_NTOR_V3"
  "ONION_HANDSHAKE_TYPE_FAST \<noteq> ONION_HANDSHAKE_TYPE_TAP" "ONION_HANDSHAKE_TYPE_FAST \<noteq> ONION_HANDSHAKE_TYPE_NTOR" "ONION_HANDSHAKE_TYPE_FAST \<noteq> ONION_HANDSHAKE_TYPE_NTOR_V3"
  "ONION_HANDSHAKE_TYPE_NTOR \<noteq> ONION_HANDSHAKE_TYPE_TAP" "ONION_HANDSHAKE_TYPE_NTOR \<noteq> ONION_HANDSHAKE_TYPE_FAST" "ONION_HANDSHAKE_TYPE_NTOR \<noteq> ONION_HANDSHAKE_TYPE_NTOR_V3"
  "ONION_HANDSHAKE_TYPE_NTOR_V3 \<noteq> ONION_HANDSHAKE_TYPE_TAP" "ONION_HANDSHAKE_TYPE_NTOR_V3 \<noteq> ONION_HANDSHAKE_TYPE_FAST" "ONION_HANDSHAKE_TYPE_NTOR_V3 \<noteq> ONION_HANDSHAKE_TYPE_NTOR"
  by (simp_all add: code_defs)

definition NTOR_CREATE_MAGIC :: "byte list" where
  "NTOR_CREATE_MAGIC = bytes_of ''ntorNTORntorNTOR''"

section \<open>The structures\<close>

record cell =
  command :: byte
  payload :: "byte list"

record create_cell =
  cc_cell_type :: byte
  cc_handshake_type :: u16
  cc_handshake_len :: u16
  onionskin :: "byte list"

record created_cell =
  cd_cell_type :: byte
  cd_handshake_len :: u16
  reply :: "byte list"

record extend_cell =
  ec_cell_type :: byte
  orport_ipv4 :: tor_addr_port
  orport_ipv6 :: tor_addr_port
  node_id :: "byte list"
  ed_pubkey :: "byte list"
  ec_create_cell :: create_cell

record extended_cell =
  ed_cell_type :: byte
  ed_created_cell :: created_cell

definition ONIONSKIN_SIZE :: nat where "ONIONSKIN_SIZE = CELL_PAYLOAD_SIZE - 4"
definition REPLY_SIZE :: nat where "REPLY_SIZE = CELL_PAYLOAD_SIZE - 2"

definition zeros :: "nat \<Rightarrow> byte list" where "zeros n = replicate n 0"

definition create_cell_zero :: create_cell where
  "create_cell_zero = \<lparr>cc_cell_type = 0, cc_handshake_type = 0, cc_handshake_len = 0,
     onionskin = zeros ONIONSKIN_SIZE\<rparr>"

definition created_cell_zero :: created_cell where
  "created_cell_zero = \<lparr>cd_cell_type = 0, cd_handshake_len = 0, reply = zeros REPLY_SIZE\<rparr>"

section \<open>CREATE cells\<close>

definition check_create_cell :: "create_cell \<Rightarrow> bool \<Rightarrow> bool" where
  "check_create_cell c unknown_ok =
     (let t = cc_cell_type c; h = cc_handshake_type c; len = unat (cc_handshake_len c)
      in if t = CELL_CREATE \<and> h \<noteq> ONION_HANDSHAKE_TYPE_TAP \<and> h \<noteq> ONION_HANDSHAKE_TYPE_NTOR then False
         else if t = CELL_CREATE_FAST \<and> h \<noteq> ONION_HANDSHAKE_TYPE_FAST then False
         else if \<not> (t = CELL_CREATE \<or> t = CELL_CREATE_FAST \<or> t = CELL_CREATE2) then False
         else if h = ONION_HANDSHAKE_TYPE_TAP then len = TAP_ONIONSKIN_CHALLENGE_LEN
         else if h = ONION_HANDSHAKE_TYPE_FAST then len = CREATE_FAST_LEN
         else if h = ONION_HANDSHAKE_TYPE_NTOR then len = NTOR_ONIONSKIN_LEN
         else if h = ONION_HANDSHAKE_TYPE_NTOR_V3 then True
         else unknown_ok)"

text \<open>\<open>p\<close> is the memory from the pointer the caller passes to the end of its buffer.\<close>

definition create_cell_init :: "byte \<Rightarrow> u16 \<Rightarrow> u16 \<Rightarrow> byte list \<Rightarrow> create_cell outcome" where
  "create_cell_init t h len p =
     obind (mem_get p 0 (unat len)) (\<lambda>src.
     obind (mem_put (zeros ONIONSKIN_SIZE) 0 src) (\<lambda>skin.
       Done \<lparr>cc_cell_type = t, cc_handshake_type = h, cc_handshake_len = len, onionskin = skin\<rparr>))"

definition parse_create2_payload :: "byte list \<Rightarrow> nat \<Rightarrow> create_cell outcome" where
  "parse_create2_payload p p_len =
     (if p_len < 4 then Fail
      else obind (mem_get p 0 4) (\<lambda>hd4.
        let handshake_type = get16 hd4; handshake_len = get16 (drop 2 hd4)
        in if unat handshake_len > CELL_PAYLOAD_SIZE - 4 \<or> unat handshake_len > p_len - 4 then Fail
           else if handshake_type = ONION_HANDSHAKE_TYPE_FAST then Fail
           else create_cell_init CELL_CREATE2 handshake_type handshake_len (drop 4 p)))"

definition create_cell_parse :: "cell \<Rightarrow> create_cell outcome" where
  "create_cell_parse c =
     obind
       (if command c = CELL_CREATE
        then if take 16 (payload c) = NTOR_CREATE_MAGIC
             then create_cell_init CELL_CREATE ONION_HANDSHAKE_TYPE_NTOR
                    (of_nat NTOR_ONIONSKIN_LEN) (drop 16 (payload c))
             else create_cell_init CELL_CREATE ONION_HANDSHAKE_TYPE_TAP
                    (of_nat TAP_ONIONSKIN_CHALLENGE_LEN) (payload c)
        else if command c = CELL_CREATE_FAST
        then create_cell_init CELL_CREATE_FAST ONION_HANDSHAKE_TYPE_FAST
               (of_nat CREATE_FAST_LEN) (payload c)
        else if command c = CELL_CREATE2 then parse_create2_payload (payload c) CELL_PAYLOAD_SIZE
        else Fail)
       (\<lambda>out. if check_create_cell out False then Done out else Fail)"

definition create_cell_format_impl :: "create_cell \<Rightarrow> bool \<Rightarrow> cell outcome" where
  "create_cell_format_impl c relayed =
     (if \<not> check_create_cell c relayed then Fail
      else let t = cc_cell_type c; h = cc_handshake_type c; len = unat (cc_handshake_len c);
               blank = zeros CELL_PAYLOAD_SIZE
           in obind (mem_get (onionskin c) 0 len) (\<lambda>skin.
              if t = CELL_CREATE \<and> h = ONION_HANDSHAKE_TYPE_NTOR_V3 then Fail
              else if t = CELL_CREATE \<and> h = ONION_HANDSHAKE_TYPE_NTOR
              then if \<not> len \<le> CELL_PAYLOAD_SIZE - 16 then Stuck
                   else obind (mem_put blank 0 NTOR_CREATE_MAGIC) (\<lambda>p.
                        obind (mem_put p 16 skin) (\<lambda>p. Done \<lparr>command = t, payload = p\<rparr>))
              else if t = CELL_CREATE \<or> t = CELL_CREATE_FAST
              then if \<not> len \<le> CELL_PAYLOAD_SIZE then Stuck
                   else obind (mem_put blank 0 skin) (\<lambda>p. Done \<lparr>command = t, payload = p\<rparr>)
              else if t = CELL_CREATE2
              then if \<not> len \<le> CELL_PAYLOAD_SIZE - 4 then Stuck
                   else obind (mem_put blank 0 (put16 h)) (\<lambda>p.
                        obind (mem_put p 2 (put16 (cc_handshake_len c))) (\<lambda>p.
                        obind (mem_put p 4 skin) (\<lambda>p. Done \<lparr>command = t, payload = p\<rparr>)))
              else Fail))"

definition create_cell_format :: "create_cell \<Rightarrow> cell outcome" where
  "create_cell_format c = create_cell_format_impl c False"

definition create_cell_format_relayed :: "create_cell \<Rightarrow> cell outcome" where
  "create_cell_format_relayed c = create_cell_format_impl c True"

section \<open>CREATED cells\<close>

definition check_created_cell :: "created_cell \<Rightarrow> bool" where
  "check_created_cell c =
     (let t = cd_cell_type c; len = unat (cd_handshake_len c)
      in if t = CELL_CREATED then len = TAP_ONIONSKIN_REPLY_LEN \<or> len = NTOR_REPLY_LEN
         else if t = CELL_CREATED_FAST then len = CREATED_FAST_LEN
         else if t = CELL_CREATED2 then len \<le> RELAY_PAYLOAD_SIZE - 2
         else True)"

definition fill_reply :: "byte \<Rightarrow> u16 \<Rightarrow> byte list \<Rightarrow> created_cell outcome" where
  "fill_reply t len p =
     obind (mem_get p 0 (unat len)) (\<lambda>src.
     obind (mem_put (zeros REPLY_SIZE) 0 src) (\<lambda>r.
       Done \<lparr>cd_cell_type = t, cd_handshake_len = len, reply = r\<rparr>))"

definition created_cell_parse :: "cell \<Rightarrow> created_cell outcome" where
  "created_cell_parse c =
     obind
       (if command c = CELL_CREATED
        then fill_reply CELL_CREATED (of_nat TAP_ONIONSKIN_REPLY_LEN) (payload c)
        else if command c = CELL_CREATED_FAST
        then fill_reply CELL_CREATED_FAST (of_nat CREATED_FAST_LEN) (payload c)
        else if command c = CELL_CREATED2
        then let len = get16 (payload c)
             in if unat len > CELL_PAYLOAD_SIZE - 2 then Fail
                else fill_reply CELL_CREATED2 len (drop 2 (payload c))
        else Done created_cell_zero)
       (\<lambda>out. if check_created_cell out then Done out else Fail)"

definition created_cell_format :: "created_cell \<Rightarrow> cell outcome" where
  "created_cell_format c =
     (if \<not> check_created_cell c then Fail
      else let t = cd_cell_type c; len = unat (cd_handshake_len c); blank = zeros CELL_PAYLOAD_SIZE
           in obind (mem_get (reply c) 0 len) (\<lambda>r.
              if t = CELL_CREATED \<or> t = CELL_CREATED_FAST
              then if \<not> len \<le> CELL_PAYLOAD_SIZE then Stuck
                   else obind (mem_put blank 0 r) (\<lambda>p. Done \<lparr>command = t, payload = p\<rparr>)
              else if t = CELL_CREATED2
              then if \<not> len \<le> CELL_PAYLOAD_SIZE - 2 then Stuck
                   else obind (mem_put blank 0 (put16 (cd_handshake_len c))) (\<lambda>p.
                        obind (mem_put p 2 r) (\<lambda>p. Done \<lparr>command = t, payload = p\<rparr>))
              else Fail))"

section \<open>EXTEND cells\<close>

definition extend_cell_zero :: "byte \<Rightarrow> extend_cell" where
  "extend_cell_zero t =
     \<lparr>ec_cell_type = t, orport_ipv4 = unspec_ap, orport_ipv6 = unspec_ap, node_id = zeros DIGEST_LEN,
      ed_pubkey = zeros 32, ec_create_cell = create_cell_zero\<rparr>"

definition check_extend_cell :: "extend_cell \<Rightarrow> bool" where
  "check_extend_cell c =
     (let is_extend2 = (ec_cell_type c = RELAY_COMMAND_EXTEND2);
          t = cc_cell_type (ec_create_cell c)
      in if tor_digest_is_zero (node_id c) then False
         else if \<not> tor_addr_port_is_valid_ap (orport_ipv4 c) False \<and>
                 (\<not> is_extend2 \<or> \<not> tor_addr_port_is_valid_ap (orport_ipv6 c) False) then False
         else if t = CELL_CREATE \<and> ec_cell_type c \<noteq> RELAY_COMMAND_EXTEND then False
         else if t = CELL_CREATE2 \<and> ec_cell_type c \<noteq> RELAY_COMMAND_EXTEND2 \<and>
                 ec_cell_type c \<noteq> RELAY_COMMAND_EXTEND then False
         else if \<not> (t = CELL_CREATE \<or> t = CELL_CREATE2) then False
         else if cc_handshake_type (ec_create_cell c) = ONION_HANDSHAKE_TYPE_FAST then False
         else check_create_cell (ec_create_cell c) True)"

definition extend_cell_from_extend1_cell_body :: "extend1_cell_body \<Rightarrow> extend_cell outcome" where
  "extend_cell_from_extend1_cell_body b =
     (let c = (extend_cell_zero RELAY_COMMAND_EXTEND)
            \<lparr>orport_ipv4 := \<lparr>addr = tor_addr_from_ipv4h (e1_ipv4addr b), port = e1_port b\<rparr>,
             node_id := e1_identity b\<rparr>
      in obind
           (if take 16 (e1_onionskin b) = NTOR_CREATE_MAGIC
            then create_cell_init CELL_CREATE2 ONION_HANDSHAKE_TYPE_NTOR
                   (of_nat NTOR_ONIONSKIN_LEN) (drop 16 (e1_onionskin b))
            else create_cell_init CELL_CREATE ONION_HANDSHAKE_TYPE_TAP
                   (of_nat TAP_ONIONSKIN_CHALLENGE_LEN) (e1_onionskin b))
           (\<lambda>cc. Done (c\<lparr>ec_create_cell := cc\<rparr>)))"

definition create_cell_from_create2_cell_body :: "create2_cell_body \<Rightarrow> create_cell outcome" where
  "create_cell_from_create2_cell_body b =
     (if unat (c2_handshake_len b) > ONIONSKIN_SIZE then Fail
      else create_cell_init CELL_CREATE2 (c2_handshake_type b) (c2_handshake_len b)
             (c2_handshake_data b))"

text \<open>The loop over the specifiers: the cell so far and the four \<open>found_\<close> flags.\<close>

record found =
  found_ipv4 :: bool
  found_ipv6 :: bool
  found_rsa_id :: bool
  found_ed_id :: bool

fun apply_specs :: "link_specifier list \<Rightarrow> extend_cell \<Rightarrow> found \<Rightarrow> (extend_cell \<times> found) outcome" where
  "apply_specs [] c f = Done (c, f)"
| "apply_specs (l # lss) c f =
     (if ls_type l = LS_IPV4
      then if found_ipv4 f then apply_specs lss c f
           else apply_specs lss
                  (c\<lparr>orport_ipv4 := \<lparr>addr = tor_addr_from_ipv4h (un_ipv4_addr l), port = un_ipv4_port l\<rparr>\<rparr>)
                  (f\<lparr>found_ipv4 := True\<rparr>)
      else if ls_type l = LS_IPV6
      then if found_ipv6 f then apply_specs lss c f
           else apply_specs lss
                  (c\<lparr>orport_ipv6 := \<lparr>addr = tor_addr_from_ipv6_bytes (un_ipv6_addr l), port = un_ipv6_port l\<rparr>\<rparr>)
                  (f\<lparr>found_ipv6 := True\<rparr>)
      else if ls_type l = LS_LEGACY_ID
      then if found_rsa_id f then Fail
           else apply_specs lss (c\<lparr>node_id := un_legacy_id l\<rparr>) (f\<lparr>found_rsa_id := True\<rparr>)
      else if ls_type l = LS_ED25519_ID
      then if found_ed_id f then Fail
           else apply_specs lss (c\<lparr>ed_pubkey := un_ed25519_id l\<rparr>) (f\<lparr>found_ed_id := True\<rparr>)
      else apply_specs lss c f)"

definition extend_cell_from_extend2_cell_body :: "extend2_cell_body \<Rightarrow> extend_cell outcome" where
  "extend_cell_from_extend2_cell_body b =
     obind (apply_specs (ls b) (extend_cell_zero RELAY_COMMAND_EXTEND2)
              \<lparr>found_ipv4 = False, found_ipv6 = False, found_rsa_id = False, found_ed_id = False\<rparr>)
       (\<lambda>(c, f).
          if \<not> found_rsa_id f then Fail
          else if \<not> found_ipv4 f \<and> \<not> found_ipv6 f then Fail
          else obind (create_cell_from_create2_cell_body (create2 b)) (\<lambda>cc.
                 Done (c\<lparr>ec_create_cell := cc\<rparr>)))"

text \<open>\<open>p\<close> is the buffer at \<open>payload\<close>; the parser sees its first \<open>payload_length\<close> bytes.\<close>

definition extend_cell_parse :: "byte \<Rightarrow> byte list \<Rightarrow> nat \<Rightarrow> extend_cell outcome" where
  "extend_cell_parse cmd p payload_length =
     (if payload_length > RELAY_PAYLOAD_SIZE then Fail
      else obind (mem_get p 0 payload_length) (\<lambda>input.
           obind
             (if cmd = RELAY_COMMAND_EXTEND
              then obind (extend1_cell_body_parse input) (\<lambda>(b, _). extend_cell_from_extend1_cell_body b)
              else if cmd = RELAY_COMMAND_EXTEND2
              then obind (extend2_cell_body_parse input) (\<lambda>(b, _). extend_cell_from_extend2_cell_body b)
              else Fail)
             (\<lambda>c. if check_extend_cell c then Done c else Fail)))"

text \<open>
  The option \<open>ExtendByEd25519ID\<close> and the consensus parameter of the same name
  (\<open>networkstatus_get_param\<close>, with its default and range).
\<close>

definition should_include_ed25519_id_extend_cells ::
  "(string \<Rightarrow> int \<Rightarrow> int \<Rightarrow> int \<Rightarrow> int) \<Rightarrow> int \<Rightarrow> bool" where
  "should_include_ed25519_id_extend_cells networkstatus_get_param ExtendByEd25519ID =
     (if ExtendByEd25519ID \<noteq> -1 then ExtendByEd25519ID \<noteq> 0
      else networkstatus_get_param ''ExtendByEd25519ID'' 0 0 1 \<noteq> 0)"

definition extend1_payload :: "extend_cell \<Rightarrow> byte list outcome" where
  "extend1_payload c =
     (let cc = ec_create_cell c; p = zeros RELAY_PAYLOAD_SIZE
      in if cc_handshake_type cc = ONION_HANDSHAKE_TYPE_NTOR_V3 then Fail
         else obind (mem_put p 0 (put32 (tor_addr_to_ipv4h (addr (orport_ipv4 c))))) (\<lambda>p.
              obind (mem_put p 4 (put16 (port (orport_ipv4 c)))) (\<lambda>p.
              obind (if cc_handshake_type cc = ONION_HANDSHAKE_TYPE_NTOR
                     then obind (mem_put p 6 NTOR_CREATE_MAGIC) (\<lambda>p.
                          obind (mem_get (onionskin cc) 0 NTOR_ONIONSKIN_LEN) (\<lambda>skin.
                            mem_put p 22 skin))
                     else obind (mem_get (onionskin cc) 0 TAP_ONIONSKIN_CHALLENGE_LEN) (\<lambda>skin.
                            mem_put p 6 skin)) (\<lambda>p.
                mem_put p (6 + TAP_ONIONSKIN_CHALLENGE_LEN) (node_id c)))))"

definition extend2_specs :: "bool \<Rightarrow> extend_cell \<Rightarrow> link_specifier list" where
  "extend2_specs include_ed c =
     (if tor_addr_port_is_valid_ap (orport_ipv4 c) False
      then [link_specifier_new\<lparr>ls_type := LS_IPV4, ls_len := 6,
              un_ipv4_addr := tor_addr_to_ipv4h (addr (orport_ipv4 c)),
              un_ipv4_port := port (orport_ipv4 c)\<rparr>] else []) @
     [link_specifier_new\<lparr>ls_type := LS_LEGACY_ID, ls_len := of_nat DIGEST_LEN, un_legacy_id := node_id c\<rparr>] @
     (if include_ed \<and> \<not> fast_mem_is_zero (ed_pubkey c)
      then [link_specifier_new\<lparr>ls_type := LS_ED25519_ID, ls_len := 32, un_ed25519_id := ed_pubkey c\<rparr>]
      else []) @
     (if tor_addr_port_is_valid_ap (orport_ipv6 c) False
      then [link_specifier_new\<lparr>ls_type := LS_IPV6, ls_len := 18,
              un_ipv6_addr := tor_addr_copy_ipv6_bytes (addr (orport_ipv6 c)),
              un_ipv6_port := port (orport_ipv6 c)\<rparr>] else [])"

definition extend2_body :: "bool \<Rightarrow> extend_cell \<Rightarrow> extend2_cell_body outcome" where
  "extend2_body include_ed c =
     (let cc = ec_create_cell c; specs = extend2_specs include_ed c
      in obind (mem_get (onionskin cc) 0 (unat (cc_handshake_len cc))) (\<lambda>skin.
           Done \<lparr>n_spec = of_nat (length specs), ls = specs,
                 create2 = \<lparr>c2_handshake_type = cc_handshake_type cc,
                            c2_handshake_len = cc_handshake_len cc, c2_handshake_data = skin\<rparr>\<rparr>))"

text \<open>The result is the relay command, the length and the payload buffer.\<close>

definition extend_cell_format ::
  "bool \<Rightarrow> extend_cell \<Rightarrow> string option \<Rightarrow> (byte \<times> nat \<times> byte list) outcome" where
  "extend_cell_format include_ed c eltor_payhash =
     (if \<not> check_extend_cell c then Fail
      else obind
        (if ec_cell_type c = RELAY_COMMAND_EXTEND
         then obind (extend1_payload c) (\<lambda>p.
                Done (RELAY_COMMAND_EXTEND, 6 + TAP_ONIONSKIN_CHALLENGE_LEN + DIGEST_LEN, p))
         else if ec_cell_type c = RELAY_COMMAND_EXTEND2
         then obind (extend2_body include_ed c) (\<lambda>b.
              obind (extend2_cell_body_encode RELAY_PAYLOAD_SIZE b) (\<lambda>bs.
                if length bs > 65535 then Fail
                else obind (mem_put (zeros RELAY_PAYLOAD_SIZE) 0 bs) (\<lambda>p.
                       Done (RELAY_COMMAND_EXTEND2, length bs, p))))
         else Fail)
        (\<lambda>(cmd, len_out, p).
           case eltor_payhash of
             None \<Rightarrow> Done (cmd, len_out, p)
           | Some h \<Rightarrow>
               if len_out + length h \<le> RELAY_PAYLOAD_SIZE
               then obind (mem_put p len_out (bytes_of h)) (\<lambda>p. Done (cmd, len_out + length h, p))
               else Fail))"

section \<open>EXTENDED cells\<close>

definition check_extended_cell :: "extended_cell \<Rightarrow> bool" where
  "check_extended_cell c =
     (let t = cd_cell_type (ed_created_cell c)
      in if t = CELL_CREATED \<and> ed_cell_type c \<noteq> RELAY_COMMAND_EXTENDED then False
         else if t = CELL_CREATED2 \<and> ed_cell_type c \<noteq> RELAY_COMMAND_EXTENDED2 then False
         else if \<not> (t = CELL_CREATED \<or> t = CELL_CREATED2) then False
         else check_created_cell (ed_created_cell c))"

text \<open>\<open>payload_len - 2\<close> is a \<open>size_t\<close>: it wraps for a payload of fewer than two bytes.\<close>

definition extended_cell_parse :: "byte \<Rightarrow> byte list \<Rightarrow> nat \<Rightarrow> extended_cell outcome" where
  "extended_cell_parse cmd p payload_len =
     (if payload_len > RELAY_PAYLOAD_SIZE then Fail
      else obind
        (if cmd = RELAY_COMMAND_EXTENDED
         then if payload_len \<noteq> TAP_ONIONSKIN_REPLY_LEN then Fail
              else obind (fill_reply CELL_CREATED (of_nat TAP_ONIONSKIN_REPLY_LEN) p) (\<lambda>cd.
                     Done \<lparr>ed_cell_type = RELAY_COMMAND_EXTENDED, ed_created_cell = cd\<rparr>)
         else if cmd = RELAY_COMMAND_EXTENDED2
         then obind (mem_get p 0 2) (\<lambda>hd2.
              let len = get16 hd2; room = (int payload_len - 2) mod 2 ^ 64
              in if unat len > RELAY_PAYLOAD_SIZE - 2 \<or> int (unat len) > room then Fail
                 else obind (fill_reply CELL_CREATED2 len (drop 2 p)) (\<lambda>cd.
                        Done \<lparr>ed_cell_type = RELAY_COMMAND_EXTENDED2, ed_created_cell = cd\<rparr>))
         else Fail)
        (\<lambda>c. if check_extended_cell c then Done c else Fail))"

definition extended_cell_format :: "extended_cell \<Rightarrow> (byte \<times> nat \<times> byte list) outcome" where
  "extended_cell_format c =
     (if \<not> check_extended_cell c then Fail
      else let cd = ed_created_cell c; p = zeros RELAY_PAYLOAD_SIZE; len = unat (cd_handshake_len cd)
           in if ed_cell_type c = RELAY_COMMAND_EXTENDED
              then obind (mem_get (reply cd) 0 TAP_ONIONSKIN_REPLY_LEN) (\<lambda>r.
                   obind (mem_put p 0 r) (\<lambda>p.
                     Done (RELAY_COMMAND_EXTENDED, TAP_ONIONSKIN_REPLY_LEN, p)))
              else if ed_cell_type c = RELAY_COMMAND_EXTENDED2
              then if 2 + len > RELAY_PAYLOAD_SIZE then Fail
                   else obind (mem_get (reply cd) 0 len) (\<lambda>r.
                        obind (mem_put p 0 (put16 (cd_handshake_len cd))) (\<lambda>p.
                        obind (mem_put p 2 r) (\<lambda>p.
                          Done (RELAY_COMMAND_EXTENDED2, 2 + len, p))))
              else Fail)"

section \<open>Buffers filled from the front\<close>

lemma length_zeros [simp]: "length (zeros n) = n"
  by (simp add: zeros_def)

lemma zeros_simps [simp]: "drop k (zeros n) = zeros (n - k)" "take k (zeros n) = zeros (min k n)"
  by (simp_all add: zeros_def min_def)

lemma mem_put_fill:
  assumes "off = length pre" "length src \<le> k"
  shows "mem_put (pre @ zeros k) off src = Done (pre @ src @ zeros (k - length src))"
  using assms by (simp add: mem_put_def)

lemma mem_put_fill0: "length src \<le> k \<Longrightarrow> mem_put (zeros k) 0 src = Done (src @ zeros (k - length src))"
  using mem_put_fill [of 0 "[]" src k] by simp

lemma mem_put_fill2:
  assumes "off = length a + length b" "length src \<le> k"
  shows "mem_put (a @ b @ zeros k) off src = Done (a @ b @ src @ zeros (k - length src))"
  using mem_put_fill [of off "a @ b" src k] assms by simp

lemma mem_get_front [simp]: "n = length xs \<Longrightarrow> mem_get (xs @ ys) 0 n = Done xs"
  by (simp add: mem_get_def)

lemmas mem_put_fills = mem_put_fill mem_put_fill0 mem_put_fill2

text \<open>A buffer in use: \<open>len\<close> bytes, and zeros after them.\<close>

definition filled :: "nat \<Rightarrow> nat \<Rightarrow> byte list \<Rightarrow> bool" where
  "filled cap len buf \<longleftrightarrow> length buf = cap \<and> len \<le> cap \<and> drop len buf = zeros (cap - len)"

lemma filledE:
  assumes "filled cap len buf"
  obtains data where "buf = data @ zeros (cap - len)" "length data = len" "len \<le> cap"
proof
  show "buf = take len buf @ zeros (cap - len)" "length (take len buf) = len" "len \<le> cap"
    using assms append_take_drop_id [of len buf] by (simp_all add: filled_def)
qed

lemma create_cell_init_front:
  assumes "length skin = unat len" "unat len \<le> ONIONSKIN_SIZE"
  shows "create_cell_init t h len (skin @ rest) =
     Done \<lparr>cc_cell_type = t, cc_handshake_type = h, cc_handshake_len = len,
           onionskin = skin @ zeros (ONIONSKIN_SIZE - unat len)\<rparr>"
  using assms by (simp add: create_cell_init_def mem_put_fills)

lemma fill_reply_front:
  assumes "length r = unat len" "unat len \<le> REPLY_SIZE"
  shows "fill_reply t len (r @ rest) =
     Done \<lparr>cd_cell_type = t, cd_handshake_len = len, reply = r @ zeros (REPLY_SIZE - unat len)\<rparr>"
  using assms by (simp add: fill_reply_def mem_put_fills)

lemma length_magic [simp]: "length NTOR_CREATE_MAGIC = 16"
  by (simp add: NTOR_CREATE_MAGIC_def)

lemma parse_create2_front:
  assumes "length d = unat l" "unat l \<le> p_len - 4" "4 \<le> p_len" "unat l \<le> ONIONSKIN_SIZE"
  shows "parse_create2_payload (put16 h @ put16 l @ d @ rest) p_len =
     (if h = ONION_HANDSHAKE_TYPE_FAST then Fail
      else Done \<lparr>cc_cell_type = CELL_CREATE2, cc_handshake_type = h, cc_handshake_len = l,
                 onionskin = d @ zeros (ONIONSKIN_SIZE - unat l)\<rparr>)"
  using assms mem_get_front [of 4 "put16 h @ put16 l" "d @ rest"]
    create_cell_init_front [of d l CELL_CREATE2 h rest]
  by (simp add: parse_create2_payload_def get16_put16 Let_def ONIONSKIN_SIZE_def)

definition create_cell_ok :: "create_cell \<Rightarrow> bool" where
  "create_cell_ok c \<longleftrightarrow>
     filled ONIONSKIN_SIZE (unat (cc_handshake_len c)) (onionskin c) \<and>
     (cc_cell_type c = CELL_CREATE2 \<longrightarrow> cc_handshake_type c \<noteq> ONION_HANDSHAKE_TYPE_FAST) \<and>
     (cc_cell_type c = CELL_CREATE \<and> cc_handshake_type c = ONION_HANDSHAKE_TYPE_TAP \<longrightarrow>
        take 16 (onionskin c) \<noteq> NTOR_CREATE_MAGIC)"

lemma unat_of_nat_u16: "n < 65536 \<Longrightarrow> unat (of_nat n :: u16) = n"
  by (simp add: unat_of_nat)

lemma u16_eq_of_nat: "unat (w :: u16) = n \<Longrightarrow> w = of_nat n"
  by auto

text \<open>
  A CREATE, CREATE_FAST or CREATE2 cell the checks accept is read back unchanged from the
  cell it is formatted into (a TAP skin that starts with the ntor magic, and the fast
  handshake in a CREATE2 cell, are the exceptions the format has).
\<close>

theorem create_cell_parse_format:
  assumes "check_create_cell c False" "create_cell_ok c"
  shows "obind (create_cell_format c) create_cell_parse = Done c"
proof -
  obtain t h l sk where c: "c = \<lparr>cc_cell_type = t, cc_handshake_type = h, cc_handshake_len = l,
      onionskin = sk\<rparr>" by (cases c)
  from assms(2) obtain d where sk: "sk = d @ zeros (ONIONSKIN_SIZE - unat l)"
    and d: "length d = unat l" "unat l \<le> ONIONSKIN_SIZE"
    by (auto simp: create_cell_ok_def c elim: filledE)
  note defs = create_cell_format_def create_cell_format_impl_def create_cell_parse_def Let_def
    check_create_cell_def c sk mem_put_fills create_cell_init_front ONIONSKIN_SIZE_def size_defs
    parse_create2_payload_def
  consider "t = CELL_CREATE" "h = ONION_HANDSHAKE_TYPE_TAP" "l = of_nat TAP_ONIONSKIN_CHALLENGE_LEN"
    | "t = CELL_CREATE" "h = ONION_HANDSHAKE_TYPE_NTOR" "l = of_nat NTOR_ONIONSKIN_LEN"
    | "t = CELL_CREATE_FAST" "h = ONION_HANDSHAKE_TYPE_FAST" "l = of_nat CREATE_FAST_LEN"
    | "t = CELL_CREATE2" "h \<noteq> ONION_HANDSHAKE_TYPE_FAST"
    using assms by (auto simp: c check_create_cell_def create_cell_ok_def Let_def dest!: u16_eq_of_nat
        split: if_splits)
  then show ?thesis
  proof cases
    case 1
    with assms(2) d have "take 16 d \<noteq> NTOR_CREATE_MAGIC"
      by (simp add: create_cell_ok_def c sk TAP_ONIONSKIN_CHALLENGE_LEN_def)
    with 1 d show ?thesis
      using create_cell_init_front [of d 186 CELL_CREATE ONION_HANDSHAKE_TYPE_TAP "zeros 1862"]
      by (simp add: defs)
  next
    case 2
    with d show ?thesis
      using create_cell_init_front [of d 84 CELL_CREATE ONION_HANDSHAKE_TYPE_NTOR "zeros 1948"]
      by (simp add: defs)
  next
    case 3
    with d show ?thesis
      using create_cell_init_front [of d 20 CELL_CREATE_FAST ONION_HANDSHAKE_TYPE_FAST "zeros 2028"]
      by (simp add: defs)
  next
    case 4
    have len: "unat l \<le> 2044" using d by (simp add: ONIONSKIN_SIZE_def size_defs)
    have f: "create_cell_format c = Done \<lparr>command = CELL_CREATE2,
        payload = put16 h @ put16 l @ d @ zeros (2044 - unat l)\<rparr>"
      using 4 d len assms(1)
      by (simp add: create_cell_format_def create_cell_format_impl_def c sk mem_put_fills size_defs
            ONIONSKIN_SIZE_def)
    have p: "parse_create2_payload (put16 h @ put16 l @ d @ zeros (2044 - unat l)) 2048 = Done c"
      using 4 d len by (simp add: parse_create2_front c sk size_defs ONIONSKIN_SIZE_def)
    show ?thesis
      unfolding f using p assms(1) by (simp add: create_cell_parse_def size_defs)
  qed
qed

definition created_cell_ok :: "created_cell \<Rightarrow> bool" where
  "created_cell_ok c \<longleftrightarrow>
     filled REPLY_SIZE (unat (cd_handshake_len c)) (reply c) \<and>
     (cd_cell_type c = CELL_CREATED \<and> unat (cd_handshake_len c) = TAP_ONIONSKIN_REPLY_LEN \<or>
      cd_cell_type c = CELL_CREATED_FAST \<or> cd_cell_type c = CELL_CREATED2)"

text \<open>
  A CREATED, CREATED_FAST or CREATED2 cell the checks accept is read back unchanged from
  the cell it is formatted into.
\<close>

theorem created_cell_parse_format:
  assumes "check_created_cell c" "created_cell_ok c"
  shows "obind (created_cell_format c) created_cell_parse = Done c"
proof -
  obtain t l r where c: "c = \<lparr>cd_cell_type = t, cd_handshake_len = l, reply = r\<rparr>" by (cases c)
  from assms(2) obtain d where r: "r = d @ zeros (REPLY_SIZE - unat l)"
    and d: "length d = unat l" "unat l \<le> REPLY_SIZE"
    by (auto simp: created_cell_ok_def c elim: filledE)
  note defs = created_cell_format_def created_cell_parse_def Let_def c r mem_put_fills REPLY_SIZE_def
    size_defs
  consider "t = CELL_CREATED" "l = of_nat TAP_ONIONSKIN_REPLY_LEN"
    | "t = CELL_CREATED_FAST" "l = of_nat CREATED_FAST_LEN" | "t = CELL_CREATED2"
    using assms by (auto simp: c check_created_cell_def created_cell_ok_def Let_def dest!: u16_eq_of_nat)
  then show ?thesis
  proof cases
    case 1
    with d show ?thesis
      using fill_reply_front [of d 148 CELL_CREATED "zeros 1900"]
      by (simp add: defs check_created_cell_def)
  next
    case 2
    with d show ?thesis
      using fill_reply_front [of d 40 CELL_CREATED_FAST "zeros 2008"]
      by (simp add: defs check_created_cell_def)
  next
    case 3
    from d have le: "unat l \<le> 2046" by (simp add: REPLY_SIZE_def size_defs)
    with 3 d assms(1) show ?thesis
      using fill_reply_front [of d l CELL_CREATED2 "zeros (2046 - unat l)"]
      by (simp add: defs get16_put16)
  qed
qed

section \<open>What an extend cell carries over the wire\<close>

definition extend_cell_ok :: "extend_cell \<Rightarrow> bool" where
  "extend_cell_ok c \<longleftrightarrow>
     (tor_addr_port_is_valid_ap (orport_ipv4 c) False \<longrightarrow> is_inet (addr (orport_ipv4 c))) \<and>
     (tor_addr_port_is_valid_ap (orport_ipv6 c) False \<longrightarrow>
        (\<exists>bs. addr (orport_ipv6 c) = AF_INET6 bs \<and> length bs = 16)) \<and>
     length (node_id c) = DIGEST_LEN \<and> length (ed_pubkey c) = 32 \<and>
     filled ONIONSKIN_SIZE (unat (cc_handshake_len (ec_create_cell c))) (onionskin (ec_create_cell c))"

text \<open>
  The cell a relay reads back from an EXTEND2 cell: an address that is not valid is absent,
  and so is an Ed25519 key that is zero or not to be sent.
\<close>

definition extend2_view :: "bool \<Rightarrow> extend_cell \<Rightarrow> extend_cell" where
  "extend2_view include_ed c =
     c\<lparr>orport_ipv4 := (if tor_addr_port_is_valid_ap (orport_ipv4 c) False then orport_ipv4 c else unspec_ap),
       orport_ipv6 := (if tor_addr_port_is_valid_ap (orport_ipv6 c) False then orport_ipv6 c else unspec_ap),
       ed_pubkey := (if include_ed \<and> \<not> fast_mem_is_zero (ed_pubkey c) then ed_pubkey c else zeros 32)\<rparr>"

lemma LS_distinct [simp]:
  "LS_IPV4 \<noteq> LS_IPV6" "LS_IPV4 \<noteq> LS_LEGACY_ID" "LS_IPV4 \<noteq> LS_ED25519_ID"
  "LS_IPV6 \<noteq> LS_IPV4" "LS_IPV6 \<noteq> LS_LEGACY_ID" "LS_IPV6 \<noteq> LS_ED25519_ID"
  "LS_LEGACY_ID \<noteq> LS_IPV4" "LS_LEGACY_ID \<noteq> LS_IPV6" "LS_LEGACY_ID \<noteq> LS_ED25519_ID"
  "LS_ED25519_ID \<noteq> LS_IPV4" "LS_ED25519_ID \<noteq> LS_IPV6" "LS_ED25519_ID \<noteq> LS_LEGACY_ID"
  by (simp_all add: LS_defs)

lemma extend2_specs_arrays:
  assumes "extend_cell_ok c"
  shows "list_all ls_arrays_ok (extend2_specs ie c)"
  using assms
  by (auto simp: extend2_specs_def ls_arrays_ok_def link_specifier_new_def extend_cell_ok_def
      DIGEST_LEN_def tor_addr_copy_ipv6_bytes_def)

lemma apply_extend2_specs:
  assumes "extend_cell_ok c" "ec_cell_type c = RELAY_COMMAND_EXTEND2"
  shows "apply_specs (map ls_view (extend2_specs ie c)) (extend_cell_zero RELAY_COMMAND_EXTEND2)
           \<lparr>found_ipv4 = False, found_ipv6 = False, found_rsa_id = False, found_ed_id = False\<rparr> =
         Done ((extend2_view ie c)\<lparr>ec_create_cell := create_cell_zero\<rparr>,
               \<lparr>found_ipv4 = tor_addr_port_is_valid_ap (orport_ipv4 c) False,
                found_ipv6 = tor_addr_port_is_valid_ap (orport_ipv6 c) False, found_rsa_id = True,
                found_ed_id = ie \<and> \<not> fast_mem_is_zero (ed_pubkey c)\<rparr>)"
proof -
  have v4: "\<lparr>addr = tor_addr_from_ipv4h (tor_addr_to_ipv4h (addr (orport_ipv4 c))), port = port (orport_ipv4 c)\<rparr>
      = orport_ipv4 c" if "tor_addr_port_is_valid_ap (orport_ipv4 c) False"
    using assms(1) that
    by (auto simp: extend_cell_ok_def tor_addr_from_ipv4h_def tor_addr_to_ipv4h_def
        split: tor_addr.splits)
  have v6: "\<lparr>addr = tor_addr_from_ipv6_bytes (tor_addr_copy_ipv6_bytes (addr (orport_ipv6 c))),
        port = port (orport_ipv6 c)\<rparr> = orport_ipv6 c" if "tor_addr_port_is_valid_ap (orport_ipv6 c) False"
    using assms(1) that
    by (auto simp: extend_cell_ok_def tor_addr_from_ipv6_bytes_def tor_addr_copy_ipv6_bytes_def)
  show ?thesis
    using assms(2) v4 v6
    by (auto simp: extend2_specs_def ls_view_def Let_def extend_cell_zero_def extend2_view_def)
qed

lemma check_extend_cell_iff:
  "check_extend_cell c \<longleftrightarrow>
     \<not> tor_digest_is_zero (node_id c) \<and>
     (tor_addr_port_is_valid_ap (orport_ipv4 c) False \<or>
      ec_cell_type c = RELAY_COMMAND_EXTEND2 \<and> tor_addr_port_is_valid_ap (orport_ipv6 c) False) \<and>
     (cc_cell_type (ec_create_cell c) = CELL_CREATE \<and> ec_cell_type c = RELAY_COMMAND_EXTEND \<or>
      cc_cell_type (ec_create_cell c) = CELL_CREATE2 \<and>
        (ec_cell_type c = RELAY_COMMAND_EXTEND2 \<or> ec_cell_type c = RELAY_COMMAND_EXTEND)) \<and>
     cc_handshake_type (ec_create_cell c) \<noteq> ONION_HANDSHAKE_TYPE_FAST \<and>
     check_create_cell (ec_create_cell c) True"
  unfolding check_extend_cell_def Let_def by (simp split: if_split)

lemma check_extend2_view:
  "check_extend_cell c \<Longrightarrow> ec_cell_type c = RELAY_COMMAND_EXTEND2 \<Longrightarrow> check_extend_cell (extend2_view ie c)"
  by (auto simp: check_extend_cell_iff extend2_view_def)

lemma create2_body_roundtrip:
  assumes "cc_cell_type cc = CELL_CREATE2"
    and "filled ONIONSKIN_SIZE (unat (cc_handshake_len cc)) (onionskin cc)"
    and "mem_get (onionskin cc) 0 (unat (cc_handshake_len cc)) = Done skin"
  shows "create_cell_from_create2_cell_body \<lparr>c2_handshake_type = cc_handshake_type cc,
           c2_handshake_len = cc_handshake_len cc, c2_handshake_data = skin\<rparr> = Done cc"
proof -
  from assms(2) obtain d where d: "onionskin cc = d @ zeros (ONIONSKIN_SIZE - unat (cc_handshake_len cc))"
    "length d = unat (cc_handshake_len cc)" "unat (cc_handshake_len cc) \<le> ONIONSKIN_SIZE"
    by (elim filledE)
  with assms(3) have "skin = d" by simp
  with d assms(1) create_cell_init_front [of d "cc_handshake_len cc" CELL_CREATE2 "cc_handshake_type cc" "[]"]
  show ?thesis by (cases cc) (simp add: create_cell_from_create2_cell_body_def)
qed

lemma extend2_format_Done:
  assumes "extend_cell_format ie c ph = Done (cmd, n, p)" "ec_cell_type c = RELAY_COMMAND_EXTEND2"
  defines "h \<equiv> case ph of None \<Rightarrow> [] | Some h \<Rightarrow> h"
  obtains b bs where "check_extend_cell c" "extend2_body ie c = Done b"
    "extend2_cell_body_encode RELAY_PAYLOAD_SIZE b = Done bs" "cmd = RELAY_COMMAND_EXTEND2"
    "n = length bs + length h" "n \<le> RELAY_PAYLOAD_SIZE" "p = bs @ bytes_of h @ zeros (RELAY_PAYLOAD_SIZE - n)"
  using assms
  by (cases ph) (auto simp: extend_cell_format_def outcome_elims split: if_splits)

lemma extend_from_extend2_body:
  assumes "check_extend_cell c" "extend_cell_ok c" "ec_cell_type c = RELAY_COMMAND_EXTEND2"
    and b: "extend2_body ie c = Done b"
  shows "extend_cell_from_extend2_cell_body (b\<lparr>ls := map ls_view (ls b)\<rparr>) = Done (extend2_view ie c)"
proof -
  obtain skin where skin: "mem_get (onionskin (ec_create_cell c)) 0
      (unat (cc_handshake_len (ec_create_cell c))) = Done skin"
    and ls: "ls b = extend2_specs ie c"
    and c2: "create2 b = \<lparr>c2_handshake_type = cc_handshake_type (ec_create_cell c),
      c2_handshake_len = cc_handshake_len (ec_create_cell c), c2_handshake_data = skin\<rparr>"
    using b by (auto simp: extend2_body_def Let_def outcome_elims)
  have "cc_cell_type (ec_create_cell c) = CELL_CREATE2"
    using assms(1,3) by (auto simp: check_extend_cell_iff)
  then have "create_cell_from_create2_cell_body (create2 b) = Done (ec_create_cell c)"
    unfolding c2 using create2_body_roundtrip [OF _ _ skin] assms(2) by (auto simp: extend_cell_ok_def)
  moreover have "tor_addr_port_is_valid_ap (orport_ipv4 c) False \<or> tor_addr_port_is_valid_ap (orport_ipv6 c) False"
    using assms(1) by (auto simp: check_extend_cell_iff)
  ultimately show ?thesis
    using apply_extend2_specs [OF assms(2,3), of ie]
    by (auto simp: extend_cell_from_extend2_cell_body_def ls extend2_view_def)
qed

lemma extend2_parse_format:
  assumes "extend_cell_format ie c ph = Done (cmd, n, p)" "ec_cell_type c = RELAY_COMMAND_EXTEND2"
    and "extend_cell_ok c"
  shows "extend_cell_parse cmd p n = Done (extend2_view ie c) \<and> length p = RELAY_PAYLOAD_SIZE"
proof -
  define h where "h = (case ph of None \<Rightarrow> [] | Some h \<Rightarrow> h)"
  from extend2_format_Done [OF assms(1,2)] obtain b bs where
    chk: "check_extend_cell c" and b: "extend2_body ie c = Done b"
    and bs: "extend2_cell_body_encode RELAY_PAYLOAD_SIZE b = Done bs"
    and out: "cmd = RELAY_COMMAND_EXTEND2" "n = length bs + length h" "n \<le> RELAY_PAYLOAD_SIZE"
      "p = bs @ bytes_of h @ zeros (RELAY_PAYLOAD_SIZE - n)"
    unfolding h_def by metis
  have "list_all ls_arrays_ok (ls b)"
    using b extend2_specs_arrays [OF assms(3), of ie] by (auto simp: extend2_body_def Let_def outcome_elims)
  with bs have "extend2_cell_body_parse (bs @ bytes_of h) = Done (b\<lparr>ls := map ls_view (ls b)\<rparr>, bytes_of h)"
    by (rule extend2_parse_encode)
  moreover have "mem_get p 0 n = Done (bs @ bytes_of h)"
    using out mem_get_front [of n "bs @ bytes_of h" "zeros (RELAY_PAYLOAD_SIZE - n)"] by simp
  ultimately show ?thesis
    using out extend_from_extend2_body [OF chk assms(3,2) b] check_extend2_view [OF chk assms(2), of ie]
    by (simp add: extend_cell_parse_def)
qed

definition extend1_view :: "extend_cell \<Rightarrow> extend_cell" where
  "extend1_view c =
     (extend_cell_zero RELAY_COMMAND_EXTEND)
       \<lparr>orport_ipv4 := orport_ipv4 c, node_id := node_id c,
        ec_create_cell := (ec_create_cell c)
          \<lparr>cc_cell_type := (if cc_handshake_type (ec_create_cell c) = ONION_HANDSHAKE_TYPE_NTOR
                           then CELL_CREATE2 else CELL_CREATE)\<rparr>\<rparr>"

text \<open>The 186 bytes of an EXTEND body that hold the onion skin.\<close>

definition extend1_skin :: "create_cell \<Rightarrow> byte list" where
  "extend1_skin cc =
     (if cc_handshake_type cc = ONION_HANDSHAKE_TYPE_NTOR
      then NTOR_CREATE_MAGIC @ take 84 (onionskin cc) @ zeros 86 else take 186 (onionskin cc))"

lemma mem_get_take: "n \<le> length xs \<Longrightarrow> mem_get xs 0 n = Done (take n xs)"
  by (simp add: mem_get_def)

lemma extend1_payload_eq:
  assumes "length (onionskin (ec_create_cell c)) = ONIONSKIN_SIZE" "length (node_id c) = DIGEST_LEN"
    and "cc_handshake_type (ec_create_cell c) \<noteq> ONION_HANDSHAKE_TYPE_NTOR_V3"
  shows "extend1_payload c =
     Done (put32 (tor_addr_to_ipv4h (addr (orport_ipv4 c))) @ put16 (port (orport_ipv4 c)) @
           extend1_skin (ec_create_cell c) @ node_id c @ zeros 1825)"
proof -
  define a b where ab: "a = put32 (tor_addr_to_ipv4h (addr (orport_ipv4 c)))" "b = put16 (port (orport_ipv4 c))"
  have l: "length a = 4" "length b = 2" by (simp_all add: ab)
  let ?o = "onionskin (ec_create_cell c)"
  have o: "length (take 84 ?o) = 84" "length (take 186 ?o) = 186" "length ?o = 2044"
    using assms(1) by (simp_all add: ONIONSKIN_SIZE_def size_defs)
  have p1: "mem_put (zeros 2037) 0 a = Done (a @ zeros 2033)"
    "mem_put (a @ zeros 2033) 4 b = Done (a @ b @ zeros 2031)"
    using l by (simp_all add: mem_put_fills)
  have p2: "mem_put (a @ b @ zeros 2031) 6 NTOR_CREATE_MAGIC = Done (a @ b @ NTOR_CREATE_MAGIC @ zeros 2015)"
    "mem_put (a @ b @ NTOR_CREATE_MAGIC @ zeros 2015) 22 (take 84 ?o) =
       Done (a @ b @ NTOR_CREATE_MAGIC @ take 84 ?o @ zeros 1931)"
    "mem_put (a @ b @ zeros 2031) 6 (take 186 ?o) = Done (a @ b @ take 186 ?o @ zeros 1845)"
    using l o by (simp_all add: mem_put_def)
  have p3: "mem_put (a @ b @ NTOR_CREATE_MAGIC @ take 84 ?o @ zeros 1931) 192 (node_id c) =
       Done (a @ b @ NTOR_CREATE_MAGIC @ take 84 ?o @ zeros 86 @ node_id c @ zeros 1825)"
    "mem_put (a @ b @ take 186 ?o @ zeros 1845) 192 (node_id c) =
       Done (a @ b @ take 186 ?o @ node_id c @ zeros 1825)"
    using l o assms(2) by (simp_all add: mem_put_def DIGEST_LEN_def)
  show ?thesis
    using assms(3) p1 p2 p3 o
    by (simp add: extend1_payload_def Let_def size_defs mem_get_take extend1_skin_def flip: ab)
qed

lemma extend1_body_parse_front:
  assumes "length sk = 186" "length i = 20"
  shows "extend1_cell_body_parse (put32 a @ put16 p @ sk @ i @ rest) =
     Done (\<lparr>e1_ipv4addr = a, e1_port = p, e1_onionskin = sk, e1_identity = i\<rparr>, rest)"
  using assms by (simp add: extend1_cell_body_parse_def)

lemma extend1_body_view:
  assumes "ec_cell_type c = RELAY_COMMAND_EXTEND" and ok: "extend_cell_ok c" and chk: "check_extend_cell c"
    and t: "cc_handshake_type (ec_create_cell c) = ONION_HANDSHAKE_TYPE_TAP \<and>
            take 16 (onionskin (ec_create_cell c)) \<noteq> NTOR_CREATE_MAGIC \<or>
            cc_handshake_type (ec_create_cell c) = ONION_HANDSHAKE_TYPE_NTOR"
  shows "extend_cell_from_extend1_cell_body
      \<lparr>e1_ipv4addr = tor_addr_to_ipv4h (addr (orport_ipv4 c)), e1_port = port (orport_ipv4 c),
       e1_onionskin = extend1_skin (ec_create_cell c), e1_identity = node_id c\<rparr> = Done (extend1_view c)"
proof -
  define cc where "cc = ec_create_cell c"
  have v4: "\<lparr>addr = tor_addr_from_ipv4h (tor_addr_to_ipv4h (addr (orport_ipv4 c))), port = port (orport_ipv4 c)\<rparr>
      = orport_ipv4 c"
    using ok chk assms(1)
    by (auto simp: extend_cell_ok_def check_extend_cell_iff tor_addr_from_ipv4h_def
        tor_addr_to_ipv4h_def split: tor_addr.splits)
  obtain d where d: "onionskin cc = d @ zeros (2044 - unat (cc_handshake_len cc))"
    "length d = unat (cc_handshake_len cc)"
    using ok by (auto simp: extend_cell_ok_def cc_def ONIONSKIN_SIZE_def size_defs elim: filledE)
  have k: "check_create_cell cc True" using chk by (simp add: check_extend_cell_iff cc_def)
  from t [folded cc_def] show ?thesis
  proof (elim disjE conjE)
    assume tap: "cc_handshake_type cc = ONION_HANDSHAKE_TYPE_TAP" "take 16 (onionskin cc) \<noteq> NTOR_CREATE_MAGIC"
    then have l: "unat (cc_handshake_len cc) = 186"
      using k by (auto simp: check_create_cell_def Let_def size_defs split: if_splits)
    show ?thesis
      using tap l d create_cell_init_front [of d "cc_handshake_len cc" CELL_CREATE ONION_HANDSHAKE_TYPE_TAP "[]"]
        u16_eq_of_nat [OF l] v4
      by (cases cc) (simp add: extend_cell_from_extend1_cell_body_def extend1_skin_def Let_def size_defs
          ONIONSKIN_SIZE_def extend1_view_def flip: cc_def)
  next
    assume ntor: "cc_handshake_type cc = ONION_HANDSHAKE_TYPE_NTOR"
    then have l: "unat (cc_handshake_len cc) = 84"
      using k by (auto simp: check_create_cell_def Let_def size_defs split: if_splits)
    show ?thesis
      using ntor l d v4 u16_eq_of_nat [OF l]
        create_cell_init_front [of d "cc_handshake_len cc" CELL_CREATE2 ONION_HANDSHAKE_TYPE_NTOR "zeros 86"]
      by (cases cc) (simp add: extend_cell_from_extend1_cell_body_def extend1_skin_def Let_def size_defs
          ONIONSKIN_SIZE_def extend1_view_def flip: cc_def)
  qed
qed

text \<open>
  An EXTEND cell is read back from the payload it is formatted into, with or without a
  payment hash after it: the address, the identity and the onion skin are those sent, and
  an ntor skin comes back as a CREATE2 cell.
\<close>

theorem extend1_parse_format:
  assumes "extend_cell_format ie c ph = Done (cmd, n, p)" "ec_cell_type c = RELAY_COMMAND_EXTEND"
    and ok: "extend_cell_ok c"
    and t: "cc_handshake_type (ec_create_cell c) = ONION_HANDSHAKE_TYPE_TAP \<and>
            take 16 (onionskin (ec_create_cell c)) \<noteq> NTOR_CREATE_MAGIC \<or>
            cc_handshake_type (ec_create_cell c) = ONION_HANDSHAKE_TYPE_NTOR"
  shows "extend_cell_parse cmd p n = Done (extend1_view c)"
proof -
  define cc where "cc = ec_create_cell c"
  define h where "h = (case ph of None \<Rightarrow> [] | Some h \<Rightarrow> h)"
  define hd6 where "hd6 = put32 (tor_addr_to_ipv4h (addr (orport_ipv4 c))) @ put16 (port (orport_ipv4 c))"
  have cap: "length (onionskin cc) = 2044" "length (node_id c) = 20"
    using ok by (auto simp: extend_cell_ok_def filled_def cc_def ONIONSKIN_SIZE_def size_defs)
  then have sk: "length (extend1_skin cc) = 186" by (simp add: extend1_skin_def)
  have "cc_handshake_type cc \<noteq> ONION_HANDSHAKE_TYPE_NTOR_V3" using t by (auto simp: cc_def)
  with cap have pay: "extend1_payload c = Done (hd6 @ extend1_skin cc @ node_id c @ zeros 1825)"
    by (simp add: extend1_payload_eq cc_def hd6_def ONIONSKIN_SIZE_def size_defs)
  have chk: "check_extend_cell c"
    using assms(1) by (auto simp: extend_cell_format_def split: if_splits)
  define pre where "pre = hd6 @ extend1_skin cc @ node_id c"
  have pre: "length pre = 212" using sk cap by (simp add: pre_def hd6_def)
  have pay': "extend1_payload c = Done (pre @ zeros 1825)" using pay by (simp add: pre_def)
  have out: "cmd = RELAY_COMMAND_EXTEND \<and> n = 212 + length h \<and> n \<le> 2037 \<and>
      p = pre @ bytes_of h @ zeros (2037 - n)"
  proof (cases ph)
    case None
    then show ?thesis
      using assms(1,2) chk pay' pre by (simp add: extend_cell_format_def h_def size_defs)
  next
    case (Some g)
    then show ?thesis
      using assms(1,2) chk pay' pre mem_put_fill [of 212 pre "bytes_of g" 1825]
      by (auto simp: extend_cell_format_def h_def size_defs split: if_splits)
  qed
  have inp: "mem_get p 0 n = Done (hd6 @ extend1_skin cc @ node_id c @ bytes_of h)"
    using mem_get_front [of n "hd6 @ extend1_skin cc @ node_id c @ bytes_of h" "zeros (2037 - n)"]
      out pre by (simp add: pre_def)
  have e1: "extend1_cell_body_parse (hd6 @ extend1_skin cc @ node_id c @ bytes_of h) =
      Done (\<lparr>e1_ipv4addr = tor_addr_to_ipv4h (addr (orport_ipv4 c)), e1_port = port (orport_ipv4 c),
             e1_onionskin = extend1_skin cc, e1_identity = node_id c\<rparr>, bytes_of h)"
    using extend1_body_parse_front [OF sk cap(2)] by (simp add: hd6_def)
  have skin: "extend_cell_from_extend1_cell_body
      \<lparr>e1_ipv4addr = tor_addr_to_ipv4h (addr (orport_ipv4 c)), e1_port = port (orport_ipv4 c),
       e1_onionskin = extend1_skin cc, e1_identity = node_id c\<rparr> = Done (extend1_view c)"
    using extend1_body_view [OF assms(2) ok chk t] by (simp add: cc_def)
  have "check_extend_cell (extend1_view c)"
    using chk assms(2) t by (auto simp: check_extend_cell_iff extend1_view_def extend_cell_zero_def
      check_create_cell_def Let_def)
  with skin e1 inp out show ?thesis
    by (simp add: extend_cell_parse_def size_defs)
qed

section \<open>The EXTENDED round trip\<close>

text \<open>
  An EXTENDED or EXTENDED2 cell the checks accept is read back unchanged from the relay
  payload it is formatted into.
\<close>

theorem extended_cell_parse_format:
  assumes "check_extended_cell c" "created_cell_ok (ed_created_cell c)"
  shows "obind (extended_cell_format c) (\<lambda>(cmd, n, p). extended_cell_parse cmd p n) = Done c"
proof -
  obtain e cd where c: "c = \<lparr>ed_cell_type = e, ed_created_cell = cd\<rparr>" by (cases c)
  obtain t l r where cd: "cd = \<lparr>cd_cell_type = t, cd_handshake_len = l, reply = r\<rparr>" by (cases cd)
  from assms(2) obtain d where r: "r = d @ zeros (REPLY_SIZE - unat l)"
    and d: "length d = unat l" "unat l \<le> REPLY_SIZE"
    by (auto simp: created_cell_ok_def c cd elim: filledE)
  have chk: "check_created_cell cd" using assms(1) by (simp add: check_extended_cell_def c Let_def split: if_splits)
  consider "t = CELL_CREATED" "e = RELAY_COMMAND_EXTENDED" "unat l = 148" "l = of_nat 148"
    | "t = CELL_CREATED2" "e = RELAY_COMMAND_EXTENDED2" "unat l \<le> 2035"
    using assms chk by (auto simp: c cd check_extended_cell_def created_cell_ok_def Let_def size_defs
        check_created_cell_def dest: u16_eq_of_nat split: if_splits)
  then show ?thesis
  proof cases
    case 1
    with d assms(1) show ?thesis
      using fill_reply_front [of d 148 CELL_CREATED "zeros 1889"]
      by (simp add: extended_cell_format_def extended_cell_parse_def c cd r size_defs REPLY_SIZE_def
          mem_put_fills Let_def)
  next
    case 2
    let ?p = "put16 l @ d @ zeros (2035 - unat l)"
    have f: "extended_cell_format c = Done (RELAY_COMMAND_EXTENDED2, 2 + unat l, ?p)"
      using 2 d assms(1)
      by (simp add: extended_cell_format_def c cd r size_defs REPLY_SIZE_def mem_put_fills Let_def)
    have "int (unat l) \<le> 2035" using 2(3) by linarith
    then have "(int (2 + unat l) - 2) mod 2 ^ 64 = int (unat l)" by simp
    then have "extended_cell_parse RELAY_COMMAND_EXTENDED2 ?p (2 + unat l) = Done c"
      using 2 d assms(1) fill_reply_front [of d l CELL_CREATED2 "zeros (2035 - unat l)"]
      by (simp add: extended_cell_parse_def c cd r size_defs REPLY_SIZE_def get16_put16 Let_def)
    with f show ?thesis by simp
  qed
qed

section \<open>The parsers stay inside their buffers\<close>

lemma mem_get_not_Stuck [intro]: "off + n \<le> length buf \<Longrightarrow> mem_get buf off n \<noteq> Stuck"
  by (simp add: mem_get_def)

lemma create_cell_init_not_Stuck:
  "unat len \<le> length p \<Longrightarrow> unat len \<le> ONIONSKIN_SIZE \<Longrightarrow> create_cell_init t h len p \<noteq> Stuck"
  by (auto simp: create_cell_init_def mem_get_def mem_put_def)

lemma fill_reply_not_Stuck:
  "unat len \<le> length p \<Longrightarrow> unat len \<le> REPLY_SIZE \<Longrightarrow> fill_reply t len p \<noteq> Stuck"
  by (auto simp: fill_reply_def mem_get_def mem_put_def)

lemma link_specifier_parse_not_Stuck: "link_specifier_parse input \<noteq> Stuck"
  by (auto simp: link_specifier_parse_def link_specifier_parse_union_def outcome_elims split: if_splits)

lemma parse_specs_not_Stuck: "parse_specs n input acc \<noteq> Stuck"
  by (induction n arbitrary: input acc) (auto simp: outcome_elims link_specifier_parse_not_Stuck)

lemma extend2_cell_body_parse_facts:
  "extend2_cell_body_parse input \<noteq> Stuck"
  "extend2_cell_body_parse input = Done (b, r) \<Longrightarrow>
     length (c2_handshake_data (create2 b)) = unat (c2_handshake_len (create2 b))"
  by (auto simp: extend2_cell_body_parse_def create2_cell_body_parse_def outcome_elims parse_specs_not_Stuck)

lemma extend1_cell_body_parse_facts:
  "extend1_cell_body_parse input \<noteq> Stuck"
  "extend1_cell_body_parse input = Done (b, r) \<Longrightarrow> length (e1_onionskin b) = 186"
  by (auto simp: extend1_cell_body_parse_def outcome_elims)

lemma apply_specs_not_Stuck: "apply_specs lss c f \<noteq> Stuck"
  by (induction lss arbitrary: c f) auto

lemma extend_from_body_not_Stuck:
  "length (e1_onionskin b) = 186 \<Longrightarrow> extend_cell_from_extend1_cell_body b \<noteq> Stuck"
  "length (c2_handshake_data (create2 b2)) = unat (c2_handshake_len (create2 b2)) \<Longrightarrow>
     extend_cell_from_extend2_cell_body b2 \<noteq> Stuck"
  by (auto simp: extend_cell_from_extend1_cell_body_def extend_cell_from_extend2_cell_body_def
      create_cell_from_create2_cell_body_def create_cell_init_not_Stuck apply_specs_not_Stuck
      outcome_elims Let_def size_defs ONIONSKIN_SIZE_def)

text \<open>
  C26. On any cell and relay payload of the protocol's sizes, whatever bytes and lengths they
  hold, the four parsers read and write only inside their buffers.
\<close>

theorem cell_parsers_memory_safe:
  assumes "length (payload c) = CELL_PAYLOAD_SIZE" "length p = RELAY_PAYLOAD_SIZE"
  shows "create_cell_parse c \<noteq> Stuck \<and> created_cell_parse c \<noteq> Stuck \<and>
         extend_cell_parse cmd p n \<noteq> Stuck \<and> extended_cell_parse cmd p n \<noteq> Stuck"
proof (intro conjI)
  show "create_cell_parse c \<noteq> Stuck"
    using assms(1)
    by (auto simp: create_cell_parse_def parse_create2_payload_def outcome_elims Let_def size_defs
        create_cell_init_not_Stuck ONIONSKIN_SIZE_def mem_get_def)
  show "created_cell_parse c \<noteq> Stuck"
    using assms(1)
    by (auto simp: created_cell_parse_def outcome_elims Let_def size_defs fill_reply_not_Stuck REPLY_SIZE_def)
  show "extend_cell_parse cmd p n \<noteq> Stuck"
    using assms(2) extend1_cell_body_parse_facts extend2_cell_body_parse_facts extend_from_body_not_Stuck
    by (fastforce simp: extend_cell_parse_def outcome_elims mem_get_def split: if_splits)
  show "extended_cell_parse cmd p n \<noteq> Stuck"
    using assms(2)
    by (auto simp: extended_cell_parse_def outcome_elims Let_def size_defs fill_reply_not_Stuck REPLY_SIZE_def
        mem_get_def)
qed

section \<open>The payment hash in an extend cell\<close>

lemma extend2_payload_bytes:
  assumes "extend_cell_format ie c (Some h) = Done (cmd, n, p)" "ec_cell_type c = RELAY_COMMAND_EXTEND2"
  shows "\<exists>bs. p = bs @ bytes_of h @ zeros (RELAY_PAYLOAD_SIZE - n)"
  using extend2_format_Done [OF assms] by auto

text \<open>The relay's search of the whole cell payload finds the hash a client appended.\<close>

lemma relay_finds_payment_hash:
  assumes "extend_cell_format ie c (Some (payhash_prefix @ h)) = Done (cmd, n, p)" "h \<noteq> []"
    and "ec_cell_type c = RELAY_COMMAND_EXTEND2"
  shows "payment_util_has_payment_id_hash (header @ p) = Done True"
proof -
  from extend2_payload_bytes [OF assms(1,3)] obtain bs where
    p: "p = bs @ bytes_of payhash_prefix @ bytes_of h @ zeros (RELAY_PAYLOAD_SIZE - n)" by auto
  let ?k = "length header + length bs"
  have at: "occurs_at (bytes_of payhash_prefix) (header @ p) ?k"
    by (simp add: occurs_at_def p)
  then obtain i where i: "find_sub (bytes_of payhash_prefix) (header @ p) = Some i"
    using find_sub_None_iff [of "bytes_of payhash_prefix" "header @ p"]
    by (cases "find_sub (bytes_of payhash_prefix) (header @ p)") auto
  with at have "i \<le> ?k" by (metis find_sub_Some_iff not_le)
  moreover have "0 < length h" using assms(2) by simp
  then have "?k + 13 < length (header @ p)" by (simp add: p)
  ultimately show ?thesis using i by (simp add: has_payment_id_hash_iff)
qed

text \<open>
  An EXTEND2 cell and a payment hash of together at most 1948 bytes of variable part
  always fit the relay payload: formatting succeeds whatever addresses and keys are sent.
\<close>

lemma extend2_format_fits:
  assumes "check_extend_cell c" "extend_cell_ok c" "ec_cell_type c = RELAY_COMMAND_EXTEND2"
    and "unat (cc_handshake_len (ec_create_cell c)) + length h \<le> 1948"
  shows "\<exists>n p. extend_cell_format ie c (Some h) = Done (RELAY_COMMAND_EXTEND2, n, p) \<and>
               n \<le> RELAY_PAYLOAD_SIZE"
proof -
  let ?cc = "ec_create_cell c" let ?sp = "extend2_specs ie c"
  have cap: "length (onionskin ?cc) = ONIONSKIN_SIZE" "unat (cc_handshake_len ?cc) \<le> ONIONSKIN_SIZE"
    using assms(2) by (auto simp: extend_cell_ok_def filled_def)
  define b where "b = \<lparr>n_spec = of_nat (length ?sp), ls = ?sp,
    create2 = \<lparr>c2_handshake_type = cc_handshake_type ?cc, c2_handshake_len = cc_handshake_len ?cc,
               c2_handshake_data = take (unat (cc_handshake_len ?cc)) (onionskin ?cc)\<rparr>\<rparr>"
  have body: "extend2_body ie c = Done b"
    using cap by (simp add: extend2_body_def b_def Let_def mem_get_take)
  have n4: "length ?sp \<le> 4" by (simp add: extend2_specs_def)
  then have chk: "extend2_cell_body_check b"
    using cap by (simp add: extend2_cell_body_check_def create2_cell_body_check_def b_def unat_byte_of_nat)
  have arr: "list_all ls_arrays_ok ?sp" by (rule extend2_specs_arrays) fact
  have small: "list_all (\<lambda>l. length (ls_body l) \<le> 255) (ls b)"
    and sum: "sum_list (map ls_size (ls b)) \<le> 84"
    using arr by (auto simp: b_def extend2_specs_def ls_body_def ls_arrays_ok_def ls_size_def split: if_splits)
  have "1 + sum_list (map ls_size (ls b)) + 4 + unat (c2_handshake_len (create2 b)) \<le> RELAY_PAYLOAD_SIZE"
    using sum assms(4) by (simp add: b_def size_defs)
  from extend2_encode_fits [OF chk small this] obtain bs where
    bs: "extend2_cell_body_encode RELAY_PAYLOAD_SIZE b = Done bs"
    "length bs = 1 + sum_list (map ls_size (ls b)) + 4 + unat (cc_handshake_len ?cc)"
    by (auto simp: b_def)
  have "length bs + length h \<le> RELAY_PAYLOAD_SIZE"
    using sum bs(2) assms(4) by (simp add: size_defs)
  with bs(1) body assms(1,3) show ?thesis
    by (simp add: extend_cell_format_def mem_put_fills size_defs)
qed

text \<open>
  An EXTENDED2 body with no payload at all is accepted like one that fills the cell: the
  length test subtracts 2 from an unsigned length.
\<close>

theorem extended2_empty_payload_accepted:
  assumes "length p = RELAY_PAYLOAD_SIZE"
  shows "extended_cell_parse RELAY_COMMAND_EXTENDED2 p 0 =
         extended_cell_parse RELAY_COMMAND_EXTENDED2 p RELAY_PAYLOAD_SIZE"
proof -
  let ?l = "get16 (take 2 p)"
  have n: "unat ?l < 65536" using unsigned_less [of ?l] by simp
  have eq: "int (unat ?l) = uint ?l" by simp
  have "int (unat ?l) \<le> 18446744073709551614" using n by linarith
  then have u: "int (unat ?l) \<le> (int 0 - 2) mod 2 ^ 64" unfolding eq by simp
  have "unat ?l > 2035 \<or> int (unat ?l) \<le> 2035" by linarith
  then have "unat ?l > 2035 \<or> int (unat ?l) \<le> (int RELAY_PAYLOAD_SIZE - 2) mod 2 ^ 64"
    unfolding eq by (simp add: size_defs)
  with u assms show ?thesis
    by (auto simp: extended_cell_parse_def size_defs mem_get_def Let_def simp del: of_nat_unat)
qed

section \<open>A concrete cell\<close>

definition sample_extend :: extend_cell where
  "sample_extend =
     \<lparr>ec_cell_type = RELAY_COMMAND_EXTEND2,
      orport_ipv4 = \<lparr>addr = AF_INET 0x01020304, port = 9001\<rparr>, orport_ipv6 = unspec_ap,
      node_id = replicate 20 7, ed_pubkey = replicate 32 9,
      ec_create_cell = \<lparr>cc_cell_type = CELL_CREATE2, cc_handshake_type = ONION_HANDSHAKE_TYPE_NTOR_V3,
        cc_handshake_len = 100, onionskin = replicate 100 5 @ zeros 1944\<rparr>\<rparr>"

lemma list_all_replicate: "list_all P (replicate n x) = (n = 0 \<or> P x)"
  by (auto simp: list_all_iff)

lemma sample_extend_ok:
  "check_extend_cell sample_extend" "extend_cell_ok sample_extend"
  "ec_cell_type sample_extend = RELAY_COMMAND_EXTEND2"
  "unat (cc_handshake_len (ec_create_cell sample_extend)) = 100"
  by (simp_all add: sample_extend_def check_extend_cell_iff extend_cell_ok_def filled_def zeros_def
      tor_digest_is_zero_def fast_mem_is_zero_def tor_addr_port_is_valid_ap_def tor_addr_is_valid_def
      tor_port_is_valid_def check_create_cell_def ONIONSKIN_SIZE_def size_defs Let_def
      list_all_replicate unspec_ap_def)

text \<open>
  C24. Delivery of an EXTEND2 cell with a payment hash: when the handshake and the prefixed
  hash take at most 1948 bytes, the client's formatter succeeds, the relay's parser reads
  back the same cell (invalid addresses and an unsent Ed25519 key apart), and the relay's
  payment check accepts the cell.
\<close>

theorem extend2_delivered:
  assumes "check_extend_cell c" "extend_cell_ok c" "ec_cell_type c = RELAY_COMMAND_EXTEND2"
    and "unat (cc_handshake_len (ec_create_cell c)) + 13 + length h \<le> 1948" "h \<noteq> []"
  shows "\<exists>cmd n p. extend_cell_format ie c (Some (payhash_prefix @ h)) = Done (cmd, n, p) \<and>
           extend_cell_parse cmd p n = Done (extend2_view ie c) \<and>
           payment_util_has_payment_id_hash (header @ p) = Done True"
proof -
  have "unat (cc_handshake_len (ec_create_cell c)) + length (payhash_prefix @ h) \<le> 1948"
    using assms(4) by simp
  from extend2_format_fits [OF assms(1-3) this] obtain n p where
    f: "extend_cell_format ie c (Some (payhash_prefix @ h)) = Done (RELAY_COMMAND_EXTEND2, n, p)" by blast
  with extend2_parse_format [OF f assms(3,2)] relay_finds_payment_hash [OF f assms(5,3)]
  show ?thesis by blast
qed

lemma extend2_delivered_witness:
  "\<exists>cmd n p. extend_cell_format True sample_extend (Some (payhash_prefix @ ''00'')) = Done (cmd, n, p) \<and>
     extend_cell_parse cmd p n = Done (extend2_view True sample_extend) \<and>
     payment_util_has_payment_id_hash (zeros 11 @ p) = Done True"
  using extend2_delivered [OF sample_extend_ok(1-3), of "''00''" True "zeros 11"]
  by (simp add: sample_extend_ok)

lemma create_cell_witness:
  "obind (create_cell_format (ec_create_cell sample_extend)) create_cell_parse =
     Done (ec_create_cell sample_extend)"
proof -
  have "check_create_cell (ec_create_cell sample_extend) False" "create_cell_ok (ec_create_cell sample_extend)"
    by (simp_all add: sample_extend_def check_create_cell_def create_cell_ok_def filled_def zeros_def Let_def
        ONIONSKIN_SIZE_def size_defs)
  then show ?thesis by (rule create_cell_parse_format)
qed

definition sample_created :: created_cell where
  "sample_created = \<lparr>cd_cell_type = CELL_CREATED2, cd_handshake_len = 64,
     reply = replicate 64 3 @ zeros 1982\<rparr>"

lemma sample_created_ok: "check_created_cell sample_created" "created_cell_ok sample_created"
  by (simp_all add: sample_created_def check_created_cell_def created_cell_ok_def filled_def zeros_def Let_def
      REPLY_SIZE_def size_defs)

lemma created_cell_witness:
  "obind (created_cell_format sample_created) created_cell_parse = Done sample_created"
  using sample_created_ok by (rule created_cell_parse_format)

lemma extended_cell_witness:
  "obind (extended_cell_format \<lparr>ed_cell_type = RELAY_COMMAND_EXTENDED2, ed_created_cell = sample_created\<rparr>)
     (\<lambda>(cmd, n, p). extended_cell_parse cmd p n) =
   Done \<lparr>ed_cell_type = RELAY_COMMAND_EXTENDED2, ed_created_cell = sample_created\<rparr>"
  using extended_cell_parse_format
    [of "\<lparr>ed_cell_type = RELAY_COMMAND_EXTENDED2, ed_created_cell = sample_created\<rparr>"] sample_created_ok
  by (simp add: check_extended_cell_def Let_def) (simp add: sample_created_def)

lemma cell_parsers_witness:
  "create_cell_parse \<lparr>command = 10, payload = zeros 2048\<rparr> \<noteq> Stuck \<and>
   created_cell_parse \<lparr>command = 10, payload = zeros 2048\<rparr> \<noteq> Stuck \<and>
   extend_cell_parse 14 (zeros 2037) 2037 \<noteq> Stuck \<and> extended_cell_parse 14 (zeros 2037) 2037 \<noteq> Stuck"
  by (rule cell_parsers_memory_safe) (simp_all add: size_defs)

lemma extended2_empty_witness:
  "extended_cell_parse RELAY_COMMAND_EXTENDED2 (zeros 2037) 0 =
   extended_cell_parse RELAY_COMMAND_EXTENDED2 (zeros 2037) RELAY_PAYLOAD_SIZE"
  by (rule extended2_empty_payload_accepted) (simp add: size_defs)

text \<open>An EXTEND cell with a TAP onion skin.\<close>

definition sample_extend1 :: extend_cell where
  "sample_extend1 =
     \<lparr>ec_cell_type = RELAY_COMMAND_EXTEND,
      orport_ipv4 = \<lparr>addr = AF_INET 0x01020304, port = 9001\<rparr>, orport_ipv6 = unspec_ap,
      node_id = replicate 20 7, ed_pubkey = zeros 32,
      ec_create_cell = \<lparr>cc_cell_type = CELL_CREATE, cc_handshake_type = ONION_HANDSHAKE_TYPE_TAP,
        cc_handshake_len = 186, onionskin = replicate 186 5 @ zeros 1858\<rparr>\<rparr>"

lemma sample_extend1_format:
  "\<exists>cmd n p. extend_cell_format False sample_extend1 None = Done (cmd, n, p)"
proof -
  have "check_extend_cell sample_extend1"
    by (simp add: sample_extend1_def check_extend_cell_iff tor_digest_is_zero_def fast_mem_is_zero_def
        list_all_replicate tor_addr_port_is_valid_ap_def tor_addr_is_valid_def tor_port_is_valid_def
        check_create_cell_def size_defs Let_def)
  moreover have "\<exists>p. extend1_payload sample_extend1 = Done p"
    by (subst extend1_payload_eq) (simp_all add: sample_extend1_def ONIONSKIN_SIZE_def size_defs)
  moreover have "ec_cell_type sample_extend1 = RELAY_COMMAND_EXTEND" by (simp add: sample_extend1_def)
  ultimately show ?thesis by (auto simp: extend_cell_format_def)
qed

lemma extend1_witness:
  "\<exists>cmd n p. extend_cell_format False sample_extend1 None = Done (cmd, n, p) \<and>
             extend_cell_parse cmd p n = Done (extend1_view sample_extend1)"
proof -
  obtain cmd n p where f: "extend_cell_format False sample_extend1 None = Done (cmd, n, p)"
    using sample_extend1_format by blast
  have "hd (take 16 (replicate 186 (5 :: byte))) \<noteq> hd NTOR_CREATE_MAGIC"
    by (simp add: NTOR_CREATE_MAGIC_def bytes_of_def)
  then have "take 16 (replicate 186 (5 :: byte)) \<noteq> NTOR_CREATE_MAGIC" by metis
  then have "extend_cell_parse cmd p n = Done (extend1_view sample_extend1)"
    by (intro extend1_parse_format [OF f])
      (simp_all add: sample_extend1_def extend_cell_ok_def filled_def zeros_def unspec_ap_def
         tor_addr_port_is_valid_ap_def tor_addr_is_valid_def ONIONSKIN_SIZE_def size_defs)
  with f show ?thesis by blast
qed

end
