(* ===== verification/Extension.thy ===== *)
theory Extension
  imports Wire
begin

text \<open>
  The circuit parameter negotiation inside an ntor v3 handshake: the extension format of
  \<open>src/trunnel/extension.c\<close>, the congestion control field of
  \<open>src/trunnel/congestion_control.c\<close>, the requests and responses of
  \<open>src/core/or/congestion_control_common.c\<close>, and the two negotiation functions of
  \<open>src/core/crypto/onion_crypto.c\<close>. An encoder returns the bytes it writes into
  \<open>avail\<close> bytes of space, a parser its object and the input it leaves.
\<close>

section \<open>Extensions\<close>

record trn_extension_field =
  field_type :: byte
  field_len :: byte
  field_data :: "byte list"

record trn_extension =
  ext_num :: byte
  ext_fields :: "trn_extension_field list"

definition trn_extension_field_check :: "trn_extension_field \<Rightarrow> bool" where
  "trn_extension_field_check obj \<longleftrightarrow> length (field_data obj) = unat (field_len obj)"

definition trn_extension_field_encoded_len :: "trn_extension_field \<Rightarrow> nat outcome" where
  "trn_extension_field_encoded_len obj =
     (if \<not> trn_extension_field_check obj then Fail else Done (1 + 1 + length (field_data obj)))"

definition trn_extension_field_encode :: "nat \<Rightarrow> trn_extension_field \<Rightarrow> byte list outcome" where
  "trn_extension_field_encode avail obj =
     (if \<not> trn_extension_field_check obj then Fail
      else obind (emit avail [field_type obj] []) (\<lambda>out.
           obind (emit avail [field_len obj] out) (\<lambda>out.
             if unat (field_len obj) \<noteq> length (field_data obj) then Stuck
             else emit avail (field_data obj) out)))"

definition trn_extension_field_parse :: "byte list \<Rightarrow> (trn_extension_field \<times> byte list) outcome" where
  "trn_extension_field_parse input =
     obind (grab 1 input) (\<lambda>(t, r1).
     obind (grab 1 r1) (\<lambda>(l, r2).
     obind (grab (unat (hd l)) r2) (\<lambda>(d, r3).
       Done (\<lparr>field_type = hd t, field_len = hd l, field_data = d\<rparr>, r3))))"

definition trn_extension_check :: "trn_extension \<Rightarrow> bool" where
  "trn_extension_check obj \<longleftrightarrow>
     list_all trn_extension_field_check (ext_fields obj) \<and>
     length (ext_fields obj) = unat (ext_num obj)"

fun sum_encoded_len :: "trn_extension_field list \<Rightarrow> nat \<Rightarrow> nat outcome" where
  "sum_encoded_len [] n = Done n"
| "sum_encoded_len (f # fs) n = obind (trn_extension_field_encoded_len f) (\<lambda>k. sum_encoded_len fs (n + k))"

definition trn_extension_encoded_len :: "trn_extension \<Rightarrow> nat outcome" where
  "trn_extension_encoded_len obj =
     (if \<not> trn_extension_check obj then Fail else sum_encoded_len (ext_fields obj) 1)"

fun encode_fields :: "nat \<Rightarrow> trn_extension_field list \<Rightarrow> byte list \<Rightarrow> byte list outcome" where
  "encode_fields avail [] out = Done out"
| "encode_fields avail (f # fs) out =
     (if \<not> length out \<le> avail then Stuck
      else obind (trn_extension_field_encode (avail - length out) f) (\<lambda>b.
             encode_fields avail fs (out @ b)))"

definition trn_extension_encode :: "nat \<Rightarrow> trn_extension \<Rightarrow> byte list outcome" where
  "trn_extension_encode avail obj =
     (if \<not> trn_extension_check obj then Fail
      else obind (emit avail [ext_num obj] []) (\<lambda>out. encode_fields avail (ext_fields obj) out))"

fun parse_fields :: "nat \<Rightarrow> byte list \<Rightarrow> (trn_extension_field list \<times> byte list) outcome" where
  "parse_fields 0 input = Done ([], input)"
| "parse_fields (Suc n) input =
     obind (trn_extension_field_parse input) (\<lambda>(f, r).
     obind (parse_fields n r) (\<lambda>(fs, r'). Done (f # fs, r')))"

definition trn_extension_parse :: "byte list \<Rightarrow> (trn_extension \<times> byte list) outcome" where
  "trn_extension_parse input =
     obind (grab 1 input) (\<lambda>(n, r).
     obind (parse_fields (unat (hd n)) r) (\<lambda>(fs, r').
       Done (\<lparr>ext_num = hd n, ext_fields = fs\<rparr>, r')))"

section \<open>The congestion control field\<close>

definition TRUNNEL_EXT_TYPE_CC_FIELD_REQUEST :: byte where "TRUNNEL_EXT_TYPE_CC_FIELD_REQUEST = 1"
definition TRUNNEL_EXT_TYPE_CC_FIELD_RESPONSE :: byte where "TRUNNEL_EXT_TYPE_CC_FIELD_RESPONSE = 2"

lemmas cc_types = TRUNNEL_EXT_TYPE_CC_FIELD_REQUEST_def TRUNNEL_EXT_TYPE_CC_FIELD_RESPONSE_def

record trn_extension_field_cc =
  sendme_inc :: byte

definition trn_extension_field_cc_encoded_len :: "trn_extension_field_cc \<Rightarrow> nat" where
  "trn_extension_field_cc_encoded_len obj = 1"

definition trn_extension_field_cc_encode :: "nat \<Rightarrow> trn_extension_field_cc \<Rightarrow> byte list outcome" where
  "trn_extension_field_cc_encode avail obj = emit avail [sendme_inc obj] []"

definition trn_extension_field_cc_parse :: "byte list \<Rightarrow> (trn_extension_field_cc \<times> byte list) outcome" where
  "trn_extension_field_cc_parse input =
     obind (grab 1 input) (\<lambda>(s, r). Done (\<lparr>sendme_inc = hd s\<rparr>, r))"

section \<open>Requests and responses\<close>

record circuit_params =
  cc_enabled :: bool
  sendme_inc_cells :: byte

text \<open>\<open>cc_on\<close> is \<open>congestion_control_enabled()\<close>, which reads the options and consensus.\<close>

definition congestion_control_build_ext_request :: "bool \<Rightarrow> byte list outcome" where
  "congestion_control_build_ext_request cc_on =
     (let ext = (if cc_on
                 then \<lparr>ext_num = 1, ext_fields =
                   [\<lparr>field_type = TRUNNEL_EXT_TYPE_CC_FIELD_REQUEST, field_len = 0, field_data = []\<rparr>]\<rparr>
                 else \<lparr>ext_num = 0, ext_fields = []\<rparr>)
      in obind (trn_extension_encoded_len ext) (\<lambda>request_len. trn_extension_encode request_len ext))"

text \<open>The loops leave the result as it is, the length parsed, when no field is the one sought.\<close>

fun cc_request_loop :: "trn_extension_field list \<Rightarrow> int \<Rightarrow> int" where
  "cc_request_loop [] ret = ret"
| "cc_request_loop (f # fs) ret =
     (if field_type f = TRUNNEL_EXT_TYPE_CC_FIELD_REQUEST then 1 else cc_request_loop fs ret)"

definition congestion_control_parse_ext_request :: "byte list \<Rightarrow> int outcome" where
  "congestion_control_parse_ext_request msg =
     obind (trn_extension_parse msg) (\<lambda>(ext, rest).
       if ext_num ext = 0 then Done 0
       else Done (cc_request_loop (ext_fields ext) (int (length msg - length rest))))"

definition congestion_control_build_ext_response ::
  "circuit_params \<Rightarrow> circuit_params \<Rightarrow> byte list outcome" where
  "congestion_control_build_ext_response our_params circ_params =
     obind (if cc_enabled circ_params
            then let cc_field = \<lparr>sendme_inc = sendme_inc_cells our_params\<rparr>;
                     field_len = trn_extension_field_cc_encoded_len cc_field
                 in obind (trn_extension_field_cc_encode field_len cc_field) (\<lambda>d.
                      Done \<lparr>ext_num = 1, ext_fields =
                        [\<lparr>field_type = TRUNNEL_EXT_TYPE_CC_FIELD_RESPONSE,
                          field_len = of_nat field_len, field_data = d\<rparr>]\<rparr>)
            else Done \<lparr>ext_num = 0, ext_fields = []\<rparr>) (\<lambda>ext.
     obind (trn_extension_encoded_len ext) (\<lambda>request_len. trn_extension_encode request_len ext))"

text \<open>\<open>our_inc\<close> is \<open>congestion_control_sendme_inc()\<close>; the comparison is one of ints.\<close>

definition congestion_control_validate_sendme_increment :: "byte \<Rightarrow> byte \<Rightarrow> bool" where
  "congestion_control_validate_sendme_increment our_inc inc =
     (if inc = 0 then False
      else if int (unat inc) > int (unat our_inc) + 1 \<or> int (unat inc) < int (unat our_inc) - 1
      then False else True)"

fun cc_response_loop ::
  "byte \<Rightarrow> trn_extension_field list \<Rightarrow> int \<Rightarrow> circuit_params \<Rightarrow> (int \<times> circuit_params) outcome" where
  "cc_response_loop our_inc [] ret params = Done (ret, params)"
| "cc_response_loop our_inc (f # fs) ret params =
     (if field_type f = TRUNNEL_EXT_TYPE_CC_FIELD_RESPONSE
      then obind (trn_extension_field_cc_parse (field_data f)) (\<lambda>(cc_field, r).
             if \<not> congestion_control_validate_sendme_increment our_inc (sendme_inc cc_field) then Fail
             else Done (1, params\<lparr>sendme_inc_cells := sendme_inc cc_field\<rparr>))
      else cc_response_loop our_inc fs ret params)"

definition congestion_control_parse_ext_response ::
  "byte \<Rightarrow> byte list \<Rightarrow> circuit_params \<Rightarrow> (int \<times> circuit_params) outcome" where
  "congestion_control_parse_ext_response our_inc msg params =
     obind (trn_extension_parse msg) (\<lambda>(ext, rest).
       if ext_num ext = 0 then Done (0, params)
       else cc_response_loop our_inc (ext_fields ext) (int (length msg - length rest)) params)"

section \<open>Negotiation\<close>

definition negotiate_v3_ntor_server_circ_params ::
  "byte list \<Rightarrow> circuit_params \<Rightarrow> circuit_params \<Rightarrow> (circuit_params \<times> byte list) outcome" where
  "negotiate_v3_ntor_server_circ_params param_request_msg our_ns_params params_out =
     obind (congestion_control_parse_ext_request param_request_msg) (\<lambda>ret.
       let p1 = params_out\<lparr>cc_enabled := ret \<noteq> 0 \<and> cc_enabled our_ns_params\<rparr>
       in obind (congestion_control_build_ext_response our_ns_params p1) (\<lambda>resp_msg.
            Done (p1\<lparr>sendme_inc_cells := sendme_inc_cells our_ns_params\<rparr>, resp_msg)))"

definition negotiate_v3_ntor_client_circ_params ::
  "bool \<Rightarrow> byte \<Rightarrow> byte list \<Rightarrow> circuit_params \<Rightarrow> circuit_params outcome" where
  "negotiate_v3_ntor_client_circ_params cc_on our_inc param_response_msg params_out =
     obind (congestion_control_parse_ext_response our_inc param_response_msg params_out) (\<lambda>(ret, p).
       if ret \<noteq> 0 \<and> \<not> cc_on then Fail else Done (p\<lparr>cc_enabled := ret \<noteq> 0\<rparr>))"

section \<open>Round trip of the format\<close>

lemma field_parse_encode:
  assumes "trn_extension_field_encode avail f = Done b"
  shows "trn_extension_field_parse (b @ r) = Done (f, r)"
proof -
  have "b = [field_type f, field_len f] @ field_data f" "length (field_data f) = unat (field_len f)"
    using assms by (auto simp: trn_extension_field_encode_def trn_extension_field_check_def
        outcome_elims split: if_splits)
  then show ?thesis by (simp add: trn_extension_field_parse_def)
qed

lemma encode_fields_parse:
  "encode_fields avail fs out = Done b \<Longrightarrow>
     \<exists>c. b = out @ c \<and> parse_fields (length fs) (c @ r) = Done (fs, r)"
proof (induction avail fs out arbitrary: b rule: encode_fields.induct)
  case (2 avail f fs out)
  then obtain x where x: "trn_extension_field_encode (avail - length out) f = Done x"
    "encode_fields avail fs (out @ x) = Done b" by (auto simp: outcome_elims split: if_splits)
  with 2 obtain c where "b = (out @ x) @ c" "parse_fields (length fs) (c @ r) = Done (fs, r)"
    by (auto split: if_splits)
  with field_parse_encode [OF x(1), of "c @ r"] show ?case by auto
qed simp

lemma extension_parse_encode:
  assumes "trn_extension_encode avail e = Done b"
  shows "trn_extension_parse (b @ r) = Done (e, r)"
proof -
  from assms have chk: "trn_extension_check e"
    and e: "encode_fields avail (ext_fields e) [ext_num e] = Done b"
    by (auto simp: trn_extension_encode_def outcome_elims split: if_splits)
  from encode_fields_parse [OF e, of r] obtain c where
    c: "b = ext_num e # c" "parse_fields (length (ext_fields e)) (c @ r) = Done (ext_fields e, r)"
    by auto
  with chk show ?thesis by (simp add: trn_extension_parse_def trn_extension_check_def)
qed

lemma sum_encoded_len_ge: "sum_encoded_len fs n = Done m \<Longrightarrow> n \<le> m"
  by (induction fs n rule: sum_encoded_len.induct) (auto simp: outcome_elims)

lemma encode_fields_fits:
  "sum_encoded_len fs n = Done m \<Longrightarrow> length out + m \<le> avail + n \<Longrightarrow> \<exists>b. encode_fields avail fs out = Done b"
proof (induction fs n arbitrary: out rule: sum_encoded_len.induct)
  case (2 f fs n)
  from "2.prems"(1) obtain k where k: "trn_extension_field_encoded_len f = Done k"
    "sum_encoded_len fs (n + k) = Done m" by (auto simp: outcome_elims)
  then have chk: "trn_extension_field_check f" "k = 2 + length (field_data f)"
    by (auto simp: trn_extension_field_encoded_len_def split: if_splits)
  have nk: "n + k \<le> m" using sum_encoded_len_ge [OF k(2)] .
  let ?b = "[field_type f, field_len f] @ field_data f"
  have "trn_extension_field_encode (avail - length out) f = Done ?b"
    using chk nk "2.prems"(2)
    by (simp add: trn_extension_field_encode_def emit_ok trn_extension_field_check_def)
  moreover have "\<exists>b. encode_fields avail fs (out @ ?b) = Done b"
    using "2.IH" [OF k, of "out @ ?b"] "2.prems"(2) chk(2) by simp
  ultimately show ?case using nk "2.prems"(2) by simp
qed simp

lemma extension_encode_total:
  assumes "trn_extension_check e"
  shows "\<exists>n b. trn_extension_encoded_len e = Done n \<and> trn_extension_encode n e = Done b"
proof -
  have "\<exists>m. sum_encoded_len fs k = Done m" if "list_all trn_extension_field_check fs" for fs k
    using that by (induction fs arbitrary: k) (auto simp: trn_extension_field_encoded_len_def)
  with assms obtain m where m: "sum_encoded_len (ext_fields e) 1 = Done m"
    unfolding trn_extension_check_def by blast
  from encode_fields_fits [OF m, of "[ext_num e]" m] sum_encoded_len_ge [OF m] m assms
  show ?thesis by (auto simp: trn_extension_encoded_len_def trn_extension_encode_def emit_ok)
qed

lemma parse_fields_not_Stuck: "parse_fields n input \<noteq> Stuck"
  by (induction n arbitrary: input)
     (auto simp: outcome_elims trn_extension_field_parse_def split: prod.splits)

section \<open>Negotiated parameters\<close>

lemma build_request_bytes:
  "congestion_control_build_ext_request cc_on = Done (if cc_on then [1, 1, 0] else [0])"
  by (simp add: congestion_control_build_ext_request_def trn_extension_encoded_len_def
      trn_extension_check_def trn_extension_field_check_def trn_extension_field_encoded_len_def
      trn_extension_encode_def trn_extension_field_encode_def emit_def cc_types Let_def)

lemma build_response_bytes:
  "congestion_control_build_ext_response our p =
     Done (if cc_enabled p then [1, 2, 1, sendme_inc_cells our] else [0])"
  by (simp add: congestion_control_build_ext_response_def trn_extension_encoded_len_def
      trn_extension_check_def trn_extension_field_check_def trn_extension_field_encoded_len_def
      trn_extension_encode_def trn_extension_field_encode_def emit_def cc_types Let_def
      trn_extension_field_cc_encoded_len_def trn_extension_field_cc_encode_def)

lemma parse_request_built:
  "congestion_control_parse_ext_request ((if cc_on then [1, 1, 0] else [0]) @ extra) =
     Done (if cc_on then 1 else 0)"
  by (simp add: congestion_control_parse_ext_request_def trn_extension_parse_def
      trn_extension_field_parse_def cc_types grab_def)

lemma parse_response_built:
  "congestion_control_parse_ext_response our_inc ((if on then [1, 2, 1, inc] else [0]) @ extra) p =
     (if \<not> on then Done (0, p)
      else if congestion_control_validate_sendme_increment our_inc inc
      then Done (1, p\<lparr>sendme_inc_cells := inc\<rparr>) else Fail)"
  by (simp add: congestion_control_parse_ext_response_def trn_extension_parse_def
      trn_extension_field_parse_def trn_extension_field_cc_parse_def cc_types grab_def)

text \<open>
  What both sides agree on: congestion control is on exactly when the client asked for it and
  the relay has it, and then the increment is the relay's.
\<close>

lemma negotiation_agrees:
  assumes "congestion_control_build_ext_request cc_on = Done req"
    and "negotiate_v3_ntor_server_circ_params (req @ extra) our p0 = Done (sp, resp)"
    and "congestion_control_validate_sendme_increment our_inc (sendme_inc_cells our)"
  shows "cc_enabled sp = (cc_on \<and> cc_enabled our)"
    and "\<exists>cp. negotiate_v3_ntor_client_circ_params cc_on our_inc resp q0 = Done cp \<and>
      cc_enabled cp = cc_enabled sp \<and>
      sendme_inc_cells cp = sendme_inc_cells (if cc_enabled sp then sp else q0)"
proof -
  have req: "req = (if cc_on then [1, 1, 0] else [0])" using assms(1) by (simp add: build_request_bytes)
  from assms(2) have sp: "cc_enabled sp = (cc_on \<and> cc_enabled our)" "sendme_inc_cells sp = sendme_inc_cells our"
    and resp: "resp = (if cc_enabled sp then [1, 2, 1, sendme_inc_cells our] else [0])"
    unfolding negotiate_v3_ntor_server_circ_params_def req parse_request_built
    by (auto simp: build_response_bytes Let_def split: if_splits)
  show "cc_enabled sp = (cc_on \<and> cc_enabled our)" by (rule sp(1))
  have "congestion_control_parse_ext_response our_inc resp q0 =
     (if \<not> cc_enabled sp then Done (0, q0) else Done (1, q0\<lparr>sendme_inc_cells := sendme_inc_cells our\<rparr>))"
    using parse_response_built [of our_inc "cc_enabled sp" "sendme_inc_cells our" "[]" q0] assms(3)
    by (simp add: resp)
  with sp show "\<exists>cp. negotiate_v3_ntor_client_circ_params cc_on our_inc resp q0 = Done cp \<and>
      cc_enabled cp = cc_enabled sp \<and>
      sendme_inc_cells cp = sendme_inc_cells (if cc_enabled sp then sp else q0)"
    by (auto simp: negotiate_v3_ntor_client_circ_params_def)
qed

lemma cc_request_loop_absent:
  "\<forall>f \<in> set fs. field_type f \<noteq> TRUNNEL_EXT_TYPE_CC_FIELD_REQUEST \<Longrightarrow> cc_request_loop fs ret = ret"
  by (induction fs) auto

lemma parse_fields_shorter: "parse_fields n input = Done (fs, r) \<Longrightarrow> length r \<le> length input"
proof (induction n arbitrary: input fs)
  case (Suc n)
  then show ?case
    by (auto simp: outcome_elims trn_extension_field_parse_def) fastforce
qed simp

section \<open>The properties\<close>

text \<open>
  An extension that passes its check is encoded into exactly the space computed for it,
  and parsing those bytes yields it back, whatever bytes follow.
\<close>

theorem extension_roundtrip:
  assumes "trn_extension_check e"
  shows "\<exists>n b. trn_extension_encoded_len e = Done n \<and> trn_extension_encode n e = Done b \<and>
    trn_extension_parse (b @ rest) = Done (e, rest)"
  using extension_encode_total [OF assms] extension_parse_encode by metis

lemma extension_roundtrip_witness:
  "\<exists>n b. trn_extension_encoded_len \<lparr>ext_num = 1, ext_fields = [\<lparr>field_type = 9, field_len = 2, field_data = [3, 4]\<rparr>]\<rparr> = Done n \<and>
    trn_extension_encode n \<lparr>ext_num = 1, ext_fields = [\<lparr>field_type = 9, field_len = 2, field_data = [3, 4]\<rparr>]\<rparr> = Done b \<and>
    trn_extension_parse (b @ [7]) =
      Done (\<lparr>ext_num = 1, ext_fields = [\<lparr>field_type = 9, field_len = 2, field_data = [3, 4]\<rparr>]\<rparr>, [7])"
  by (rule extension_roundtrip) (simp add: trn_extension_check_def trn_extension_field_check_def)

text \<open>
  Client and relay agree on the negotiated parameters: congestion control is on for both
  exactly when the client requested it and the relay has it, with the relay's increment. The
  bytes the client appends to its request, the payment hash, do not disturb the negotiation.
\<close>

theorem negotiation_agreement:
  assumes "congestion_control_build_ext_request cc_on = Done req"
    and "negotiate_v3_ntor_server_circ_params (req @ extra) our p0 = Done (sp, resp)"
    and "congestion_control_validate_sendme_increment our_inc (sendme_inc_cells our)"
  shows "\<exists>cp. negotiate_v3_ntor_client_circ_params cc_on our_inc resp q0 = Done cp \<and>
    cc_enabled sp = (cc_on \<and> cc_enabled our) \<and> cc_enabled cp = cc_enabled sp \<and>
    sendme_inc_cells cp = sendme_inc_cells (if cc_enabled sp then sp else q0)"
  using negotiation_agrees [OF assms] by blast

lemma negotiation_agreement_witness:
  "\<exists>cp. negotiate_v3_ntor_client_circ_params True 31 [1, 2, 1, 31] \<lparr>cc_enabled = False, sendme_inc_cells = 0\<rparr> = Done cp \<and>
    cc_enabled \<lparr>cc_enabled = True, sendme_inc_cells = 31\<rparr> = (True \<and> cc_enabled \<lparr>cc_enabled = True, sendme_inc_cells = 31\<rparr>) \<and>
    cc_enabled cp = cc_enabled \<lparr>cc_enabled = True, sendme_inc_cells = 31\<rparr> \<and>
    sendme_inc_cells cp = sendme_inc_cells (if cc_enabled \<lparr>cc_enabled = True, sendme_inc_cells = 31\<rparr>
      then \<lparr>cc_enabled = True, sendme_inc_cells = 31\<rparr> else \<lparr>cc_enabled = False, sendme_inc_cells = 0\<rparr>)"
proof (rule negotiation_agreement [of _ "[1, 1, 0]" "bytes_of ''eltor_payhash''"])
  show "negotiate_v3_ntor_server_circ_params ([1, 1, 0] @ bytes_of ''eltor_payhash'')
      \<lparr>cc_enabled = True, sendme_inc_cells = 31\<rparr> \<lparr>cc_enabled = False, sendme_inc_cells = 0\<rparr> =
    Done (\<lparr>cc_enabled = True, sendme_inc_cells = 31\<rparr>, [1, 2, 1, 31])"
    using parse_request_built [of True "bytes_of ''eltor_payhash''"]
    by (simp add: negotiate_v3_ntor_server_circ_params_def build_response_bytes del: bytes_of_append)
qed (simp_all add: build_request_bytes congestion_control_validate_sendme_increment_def)

text \<open>
  A request whose fields are all of unknown types, which the comment in the code says are
  ignored, switches congestion control on at a relay that has it: the result of the loop is
  then the number of bytes parsed.
\<close>

theorem unknown_fields_enable_cc:
  assumes "trn_extension_parse msg = Done (ext, rest)" "ext_num ext \<noteq> 0"
    and "\<forall>f \<in> set (ext_fields ext). field_type f \<noteq> TRUNNEL_EXT_TYPE_CC_FIELD_REQUEST"
    and "cc_enabled our"
  shows "\<exists>sp resp. negotiate_v3_ntor_server_circ_params msg our p0 = Done (sp, resp) \<and> cc_enabled sp"
proof -
  have "length rest < length msg"
    using assms(1) parse_fields_shorter by (fastforce simp: trn_extension_parse_def outcome_elims)
  then have "\<exists>ret. congestion_control_parse_ext_request msg = Done ret \<and> ret \<noteq> 0"
    using assms(1,2) cc_request_loop_absent [OF assms(3)]
    by (simp add: congestion_control_parse_ext_request_def)
  then show ?thesis using assms(4)
    by (auto simp: negotiate_v3_ntor_server_circ_params_def build_response_bytes Let_def)
qed

lemma unknown_fields_witness:
  "\<exists>sp resp. negotiate_v3_ntor_server_circ_params [1, 99, 0] \<lparr>cc_enabled = True, sendme_inc_cells = 31\<rparr>
     \<lparr>cc_enabled = False, sendme_inc_cells = 0\<rparr> = Done (sp, resp) \<and> cc_enabled sp"
  by (rule unknown_fields_enable_cc
      [of _ "\<lparr>ext_num = 1, ext_fields = [\<lparr>field_type = 99, field_len = 0, field_data = []\<rparr>]\<rparr>" "[]"])
     (simp_all add: trn_extension_parse_def trn_extension_field_parse_def grab_def cc_types)

end
