(* ===== verification/KeyExchange.thy ===== *)
theory KeyExchange
  imports CStrings Wire
begin

text \<open>
  The circuit handshakes CREATE_FAST and ntor: \<open>src/core/crypto/onion_fast.c\<close>,
  \<open>src/core/crypto/onion_ntor.c\<close>, with the key expansions of
  \<open>src/lib/crypt_ops/crypto_hkdf.c\<close> and the constant-time helpers of
  \<open>src/lib/ctime/di_ops.c\<close>. Primitives that OpenSSL, NSS or vendored code computes are the
  fields of a record \<open>crypto\<close>, a parameter. A fixed-size array is the list of its bytes; random
  bytes are arguments.
\<close>

section \<open>Primitives\<close>

record crypto =
  sha1 :: "byte list \<Rightarrow> byte list"
  sha3 :: "byte list \<Rightarrow> byte list"
  hmac_sha256 :: "byte list \<Rightarrow> byte list \<Rightarrow> byte list"
  shake :: "byte list \<Rightarrow> nat \<Rightarrow> byte list"
  aes_ctr :: "byte list \<Rightarrow> byte list \<Rightarrow> byte list"
  curve25519_impl :: "byte list \<Rightarrow> byte list \<Rightarrow> byte list"
  curve25519_basepoint :: "byte list \<Rightarrow> byte list"

text \<open>
  What the handshakes rely on: digests and group elements have their lengths, both orders of
  a Diffie-Hellman exchange give the same output, and the cipher in counter mode is an
  involution that keeps the length.
\<close>

definition crypto_ok :: "crypto \<Rightarrow> bool" where
  "crypto_ok C \<longleftrightarrow>
     (\<forall>m. length (sha1 C m) = 20) \<and> (\<forall>m. length (sha3 C m) = 32) \<and>
     (\<forall>k m. length (hmac_sha256 C k m) = 32) \<and> (\<forall>m n. length (shake C m n) = n) \<and>
     (\<forall>k m. length (aes_ctr C k m) = length m) \<and> (\<forall>k m. aes_ctr C k (aes_ctr C k m) = m) \<and>
     (\<forall>a p. length (curve25519_impl C a p) = 32) \<and> (\<forall>a. length (curve25519_basepoint C a) = 32) \<and>
     (\<forall>a b. curve25519_impl C a (curve25519_basepoint C b) = curve25519_impl C b (curve25519_basepoint C a))"

lemma crypto_okD:
  assumes "crypto_ok C"
  shows "length (sha1 C m) = 20" "length (sha3 C m) = 32" "length (hmac_sha256 C k m) = 32"
    "length (shake C m n) = n" "length (aes_ctr C k m) = length m" "aes_ctr C k (aes_ctr C k m) = m"
    "length (curve25519_impl C a p) = 32" "length (curve25519_basepoint C a) = 32"
    "curve25519_impl C a (curve25519_basepoint C b) = curve25519_impl C b (curve25519_basepoint C a)"
  using assms unfolding crypto_ok_def by blast+

definition CURVE25519_PUBKEY_LEN :: nat where "CURVE25519_PUBKEY_LEN = 32"

text \<open>\<open>safe_mem_is_zero\<close>: the bytes are OR-ed into 32 bits, and the result is bit 8 of one less.\<close>

definition safe_mem_is_zero :: "byte list \<Rightarrow> bool" where
  "safe_mem_is_zero mem =
     (let total = foldl (\<lambda>t b. t OR ucast b) (0 :: u32) mem
      in 1 AND drop_bit 8 (total - 1) \<noteq> 0)"

text \<open>\<open>dimap_search\<close> runs through the whole list and keeps the last entry with the key.\<close>

fun dimap_search :: "(byte list \<times> 'v) list \<Rightarrow> byte list \<Rightarrow> 'v option \<Rightarrow> 'v option" where
  "dimap_search [] key dflt = dflt"
| "dimap_search ((k, v) # es) key dflt = dimap_search es key (if k = key then Some v else dflt)"

section \<open>Key expansion\<close>

text \<open>The loop of \<open>crypto_expand_key_material_TAP\<close>; \<open>left\<close> is \<open>key_out_len - (cp - key_out)\<close>.\<close>

function tap_expand_loop :: "crypto \<Rightarrow> byte list \<Rightarrow> nat \<Rightarrow> nat \<Rightarrow> byte list" where
  "tap_expand_loop C key_in i left =
     (if left = 0 then []
      else take (min DIGEST_LEN left) (sha1 C (key_in @ [of_nat i])) @
           tap_expand_loop C key_in (i + 1) (left - DIGEST_LEN))"
  by pat_completeness auto
termination by (relation "measure (\<lambda>(C, k, i, left). left)") (auto simp: DIGEST_LEN_def)

declare tap_expand_loop.simps [simp del]

definition crypto_expand_key_material_TAP :: "crypto \<Rightarrow> byte list \<Rightarrow> nat \<Rightarrow> byte list outcome" where
  "crypto_expand_key_material_TAP C key_in key_out_len =
     (if \<not> key_out_len \<le> DIGEST_LEN * 256 then Stuck
      else Done (tap_expand_loop C key_in 0 key_out_len))"

function hkdf_loop :: "crypto \<Rightarrow> byte list \<Rightarrow> byte list \<Rightarrow> byte list \<Rightarrow> nat \<Rightarrow> nat \<Rightarrow> byte list" where
  "hkdf_loop C prk info mac i key_out_len =
     (if key_out_len = 0 then []
      else let tmp = (if i > 1 then mac @ info @ [of_nat i] else info @ [of_nat i]);
               mac' = hmac_sha256 C prk tmp;
               n = (if key_out_len < 32 then key_out_len else 32)
           in take n mac' @ hkdf_loop C prk info mac' (i + 1) (key_out_len - n))"
  by pat_completeness auto
termination by (relation "measure (\<lambda>(C, p, f, m, i, left). left)") (auto split: if_splits)

declare hkdf_loop.simps [simp del]

text \<open>The legacy implementation; \<open>mac\<close> is not read in the first round.\<close>

definition crypto_expand_key_material_rfc5869_sha256_legacy ::
  "crypto \<Rightarrow> byte list \<Rightarrow> byte list \<Rightarrow> byte list \<Rightarrow> nat \<Rightarrow> byte list outcome" where
  "crypto_expand_key_material_rfc5869_sha256_legacy C key_in salt_in info_in key_out_len =
     (let prk = hmac_sha256 C salt_in key_in
      in if \<not> key_out_len \<le> 32 * 256 then Stuck
         else if \<not> length info_in \<le> 128 then Stuck
         else Done (hkdf_loop C prk info_in [] 1 key_out_len))"

definition crypto_expand_key_material_rfc5869_sha256 ::
  "crypto \<Rightarrow> byte list \<Rightarrow> byte list \<Rightarrow> byte list \<Rightarrow> nat \<Rightarrow> byte list outcome" where
  "crypto_expand_key_material_rfc5869_sha256 C key_in salt_in info_in key_out_len =
     (if \<not> length key_in > 0 then Stuck
      else crypto_expand_key_material_rfc5869_sha256_legacy C key_in salt_in info_in key_out_len)"

section \<open>CREATE_FAST\<close>

definition fast_onionskin_create :: "byte list \<Rightarrow> byte list \<times> byte list" where
  "fast_onionskin_create rand = (rand, take DIGEST_LEN rand)"

definition fast_server_handshake ::
  "crypto \<Rightarrow> byte list \<Rightarrow> byte list \<Rightarrow> nat \<Rightarrow> (byte list \<times> byte list) outcome" where
  "fast_server_handshake C key_in rand key_out_len =
     obind (mem_get key_in 0 DIGEST_LEN) (\<lambda>x.
     obind (crypto_expand_key_material_TAP C (x @ rand) (key_out_len + DIGEST_LEN)) (\<lambda>out.
       Done (rand @ take DIGEST_LEN out, take key_out_len (drop DIGEST_LEN out))))"

definition fast_client_handshake ::
  "crypto \<Rightarrow> byte list \<Rightarrow> byte list \<Rightarrow> nat \<Rightarrow> byte list outcome" where
  "fast_client_handshake C state handshake_reply_out key_out_len =
     obind (mem_get handshake_reply_out 0 DIGEST_LEN) (\<lambda>y.
     obind (crypto_expand_key_material_TAP C (take DIGEST_LEN state @ y) (key_out_len + DIGEST_LEN)) (\<lambda>out.
     obind (mem_get handshake_reply_out DIGEST_LEN DIGEST_LEN) (\<lambda>kh.
       if take DIGEST_LEN out \<noteq> kh then Fail
       else Done (take key_out_len (drop DIGEST_LEN out)))))"

section \<open>ntor\<close>

record keypair =
  seckey :: "byte list"
  pubkey :: "byte list"

definition keypair_of :: "crypto \<Rightarrow> byte list \<Rightarrow> keypair" where
  "keypair_of C sk = \<lparr>seckey = sk, pubkey = curve25519_basepoint C sk\<rparr>"

record ntor_handshake_state =
  nt_router_id :: "byte list"
  nt_pubkey_B :: "byte list"
  nt_seckey_x :: "byte list"
  nt_pubkey_X :: "byte list"

definition NTOR_PROTOID :: "byte list" where "NTOR_PROTOID = bytes_of ''ntor-curve25519-sha256-1''"
definition SERVER_STR :: "byte list" where "SERVER_STR = bytes_of ''Server''"

record tweakset =
  t_mac :: "byte list"
  t_key :: "byte list"
  t_verify :: "byte list"
  m_expand :: "byte list"

definition proto1_tweaks :: tweakset where
  "proto1_tweaks =
     \<lparr>t_mac = NTOR_PROTOID @ bytes_of '':mac'', t_key = NTOR_PROTOID @ bytes_of '':key_extract'',
      t_verify = NTOR_PROTOID @ bytes_of '':verify'', m_expand = NTOR_PROTOID @ bytes_of '':key_expand''\<rparr>"

definition h_tweak :: "crypto \<Rightarrow> byte list \<Rightarrow> byte list \<Rightarrow> byte list" where
  "h_tweak C inp tweak = hmac_sha256 C tweak inp"

definition onion_skin_ntor_create ::
  "crypto \<Rightarrow> byte list \<Rightarrow> byte list \<Rightarrow> byte list \<Rightarrow> ntor_handshake_state \<times> byte list" where
  "onion_skin_ntor_create C router_id router_key x =
     (let kp = keypair_of C x
      in (\<lparr>nt_router_id = router_id, nt_pubkey_B = router_key, nt_seckey_x = seckey kp, nt_pubkey_X = pubkey kp\<rparr>,
          router_id @ router_key @ pubkey kp))"

text \<open>The two inputs both sides hash, in the order the code appends them.\<close>

definition ntor_secret_input ::
  "byte list \<Rightarrow> byte list \<Rightarrow> byte list \<Rightarrow> byte list \<Rightarrow> byte list \<Rightarrow> byte list \<Rightarrow> byte list" where
  "ntor_secret_input xy xb ident B X Y = xy @ xb @ ident @ B @ X @ Y @ NTOR_PROTOID"

definition ntor_auth_input ::
  "byte list \<Rightarrow> byte list \<Rightarrow> byte list \<Rightarrow> byte list \<Rightarrow> byte list \<Rightarrow> byte list" where
  "ntor_auth_input verify ident B Y X = verify @ ident @ B @ Y @ X @ NTOR_PROTOID @ SERVER_STR"

definition onion_skin_ntor_server_handshake ::
  "crypto \<Rightarrow> byte list \<Rightarrow> (byte list \<times> keypair) list \<Rightarrow> keypair option \<Rightarrow> byte list \<Rightarrow> byte list \<Rightarrow> nat \<Rightarrow>
     (byte list \<times> byte list) outcome" where
  "onion_skin_ntor_server_handshake C onion_skin private_keys junk_keys my_node_id y key_out_len =
     obind (mem_get onion_skin 0 DIGEST_LEN) (\<lambda>ident.
       if ident \<noteq> take DIGEST_LEN my_node_id then Fail
       else obind (mem_get onion_skin DIGEST_LEN 32) (\<lambda>wanted.
            case dimap_search private_keys wanted junk_keys of
              None \<Rightarrow> Fail
            | Some keypair_bB \<Rightarrow>
                obind (mem_get onion_skin (DIGEST_LEN + 32) CURVE25519_PUBKEY_LEN) (\<lambda>X.
                let Y = curve25519_basepoint C y;
                    xy = curve25519_impl C y X;
                    xb = curve25519_impl C (seckey keypair_bB) X;
                    bad = (safe_mem_is_zero xy \<or> safe_mem_is_zero xb);
                    ident' = take DIGEST_LEN my_node_id;
                    si = ntor_secret_input xy xb ident' (pubkey keypair_bB) X Y;
                    verify = h_tweak C si (t_verify proto1_tweaks);
                    ai = ntor_auth_input verify ident' (pubkey keypair_bB) Y X
                in obind (crypto_expand_key_material_rfc5869_sha256 C si (t_key proto1_tweaks)
                            (m_expand proto1_tweaks) key_out_len) (\<lambda>key_out.
                   if bad then Fail
                   else Done (Y @ h_tweak C ai (t_mac proto1_tweaks), key_out)))))"

definition onion_skin_ntor_client_handshake ::
  "crypto \<Rightarrow> ntor_handshake_state \<Rightarrow> byte list \<Rightarrow> nat \<Rightarrow> byte list outcome" where
  "onion_skin_ntor_client_handshake C st handshake_reply key_out_len =
     obind (mem_get handshake_reply 0 CURVE25519_PUBKEY_LEN) (\<lambda>Y.
     obind (mem_get handshake_reply CURVE25519_PUBKEY_LEN 32) (\<lambda>auth_candidate.
       let xy = curve25519_impl C (nt_seckey_x st) Y;
           xb = curve25519_impl C (nt_seckey_x st) (nt_pubkey_B st);
           si = ntor_secret_input xy xb (nt_router_id st) (nt_pubkey_B st) (nt_pubkey_X st) Y;
           verify = h_tweak C si (t_verify proto1_tweaks);
           auth = h_tweak C (ntor_auth_input verify (nt_router_id st) (nt_pubkey_B st) Y (nt_pubkey_X st))
                    (t_mac proto1_tweaks);
           bad = (safe_mem_is_zero xy \<or> safe_mem_is_zero xb \<or> auth \<noteq> auth_candidate)
       in obind (crypto_expand_key_material_rfc5869_sha256 C si (t_key proto1_tweaks)
                   (m_expand proto1_tweaks) key_out_len) (\<lambda>key_out.
          if bad then Fail else Done key_out)))"

section \<open>The helpers do what their names say\<close>

lemma or_low_byte:
  "foldl (\<lambda>t b. t OR ucast b) (t :: u32) mem = 0 \<longleftrightarrow> t = 0 \<and> list_all (\<lambda>b. b = (0 :: byte)) mem"
proof (induction mem arbitrary: t)
  case (Cons b mem)
  have "t OR ucast b = 0 \<longleftrightarrow> t = 0 \<and> (ucast b :: u32) = 0" by (auto simp: bit_eq_iff bit_simps)
  moreover have "(ucast b :: u32) = 0 \<longleftrightarrow> b = 0"
  proof
    assume "(ucast b :: u32) = 0"
    then have "unat (ucast b :: u32) = 0" by simp
    then have "unat b = 0" using unsigned_less [of b, where ?'a = nat] by (simp add: unsigned_ucast_eq take_bit_eq_mod)
    then show "b = 0" by (simp add: unat_eq_0)
  qed simp
  ultimately show ?case using Cons by simp
qed simp

lemma or_below_256: "unat t < 256 \<Longrightarrow> unat (foldl (\<lambda>t b. t OR ucast b) (t :: u32) (mem :: byte list)) < 256"
proof (induction mem arbitrary: t)
  case (Cons b mem)
  have low: "unat (x :: u32) < 256 \<longleftrightarrow> take_bit 8 x = x" for x
  proof -
    have "unat (take_bit 8 x) = take_bit 8 (unat x)" by (rule unsigned_take_bit_eq)
    then show ?thesis
      using word_unat_eq_iff [of "take_bit 8 x" x] take_bit_nat_eq_self_iff [of 8 "unat x"] by simp
  qed
  have "take_bit 8 (ucast b :: u32) = ucast b" by (rule bit_word_eqI) (auto simp: bit_simps dest: bit_imp_le_length)
  with Cons.prems have "take_bit 8 (t OR ucast b) = t OR ucast b" by (simp add: low)
  then show ?case using Cons.IH [of "t OR ucast b"] low by simp
qed simp

lemma safe_mem_is_zero_iff: "safe_mem_is_zero mem \<longleftrightarrow> list_all (\<lambda>b. b = 0) mem"
proof -
  define t where "t = foldl (\<lambda>t b. t OR ucast b) (0 :: u32) mem"
  have lt: "unat t < 256" unfolding t_def by (rule or_below_256) simp
  have "(1 AND drop_bit 8 (t - 1) \<noteq> 0) = (t = 0)"
  proof (cases "t = 0")
    case True
    have "bit (1 AND drop_bit 8 (- 1 :: u32)) 0" by (simp add: bit_simps)
    with True show ?thesis by auto
  next
    case False
    then have "unat (t - 1) = unat t - 1" by (simp add: unat_minus_one)
    with lt have l: "unat (t - 1) < 256" by simp
    have "unat (drop_bit 8 (t - 1)) = unat (t - 1) div 256"
      using l by (simp only: unsigned_drop_bit_eq) (simp add: drop_bit_eq_div take_bit_eq_mod)
    with l have "unat (drop_bit 8 (t - 1)) = 0" by simp
    then have "drop_bit 8 (t - 1) = 0" by (simp only: unat_eq_0)
    with False show ?thesis by simp
  qed
  then show ?thesis using or_low_byte [of 0 mem] by (simp add: safe_mem_is_zero_def t_def [symmetric] Let_def)
qed

lemma dimap_search_absent: "key \<notin> fst ` set es \<Longrightarrow> dimap_search es key dflt = dflt"
  by (induction es key dflt rule: dimap_search.induct) auto

lemma dimap_search_map_of:
  "distinct (map fst es) \<Longrightarrow> dimap_search es key dflt = (case map_of es key of Some v \<Rightarrow> Some v | None \<Rightarrow> dflt)"
  by (induction es key dflt rule: dimap_search.induct)
     (force simp: dimap_search_absent split: option.splits dest: map_of_SomeD)+

section \<open>Key expansion against its definition\<close>

text \<open>The blocks \<open>H(K|0) | H(K|1) | ...\<close> of the comment, cut to length.\<close>

definition tap_blocks :: "crypto \<Rightarrow> byte list \<Rightarrow> nat \<Rightarrow> nat \<Rightarrow> byte list" where
  "tap_blocks C key_in i n = concat (map (\<lambda>j. sha1 C (key_in @ [of_nat j])) [i..<i + n])"

lemma tap_expand_eq:
  assumes "crypto_ok C" "left \<le> n * 20"
  shows "tap_expand_loop C key_in i left = take left (tap_blocks C key_in i n)"
  using assms(2)
proof (induction n arbitrary: i left)
  case 0
  then show ?case by (simp add: tap_expand_loop.simps tap_blocks_def)
next
  case (Suc n)
  have s: "length (sha1 C m) = 20" for m using crypto_okD(1) [OF assms(1)] .
  have b: "tap_blocks C key_in i (Suc n) = sha1 C (key_in @ [of_nat i]) @ tap_blocks C key_in (Suc i) n"
    unfolding tap_blocks_def by (subst upt_conv_Cons) auto
  show ?case
  proof (cases "left = 0")
    case False
    have "tap_expand_loop C key_in (i + 1) (left - 20) = take (left - 20) (tap_blocks C key_in (Suc i) n)"
      using Suc.IH [of "left - 20" "Suc i"] Suc.prems by simp
    with False s show ?thesis
      unfolding b by (subst tap_expand_loop.simps) (simp add: DIGEST_LEN_def min_def)
  qed (simp add: tap_expand_loop.simps)
qed

lemma length_tap_blocks: "crypto_ok C \<Longrightarrow> length (tap_blocks C key_in i n) = n * 20"
  using crypto_okD(1) by (induction n arbitrary: i) (auto simp: tap_blocks_def length_concat comp_def sum_list_triv)

lemma length_hkdf_loop: "crypto_ok C \<Longrightarrow> length (hkdf_loop C prk info mac i n) = n"
proof (induction C prk info mac i n rule: hkdf_loop.induct)
  case (1 C prk info mac i n)
  then show ?case by (subst hkdf_loop.simps) (auto simp: Let_def crypto_okD)
qed

section \<open>Both sides derive the same keys\<close>

lemma length_tap_expand: "crypto_ok C \<Longrightarrow> length (tap_expand_loop C key_in i left) = left"
  using tap_expand_eq [of C left left key_in i] length_tap_blocks [of C key_in i left] by simp

lemma mem_get_prefix [simp]: "n = length a \<Longrightarrow> mem_get (a @ b) 0 n = Done a"
  by (simp add: mem_get_def)

lemma mem_get_mid: "off = length a \<Longrightarrow> n = length b \<Longrightarrow> mem_get (a @ b @ c) off n = Done b"
  by (simp add: mem_get_def)

lemma mem_get_end: "off = length a \<Longrightarrow> n = length b \<Longrightarrow> mem_get (a @ b) off n = Done b"
  by (simp add: mem_get_def)

lemma fast_agree:
  assumes ok: "crypto_ok C" and len: "length x = 20" "length y = 20"
    and create: "fast_onionskin_create x = (st, skin)"
    and serve: "fast_server_handshake C skin y n = Done (reply, keys)"
  shows "fast_client_handshake C st reply n = Done keys"
proof -
  have st: "st = x" "skin = x" using create len by (auto simp: fast_onionskin_create_def DIGEST_LEN_def)
  have mg: "mem_get x 0 20 = Done x" using len by (simp add: mem_get_def)
  from serve obtain out where
    out: "crypto_expand_key_material_TAP C (x @ y) (n + 20) = Done out"
    and r: "reply = y @ take 20 out" "keys = take n (drop 20 out)"
    by (auto simp: fast_server_handshake_def st DIGEST_LEN_def mg outcome_elims)
  have "length out = n + 20"
    using out length_tap_expand [OF ok] by (auto simp: crypto_expand_key_material_TAP_def split: if_splits)
  then have "mem_get reply 0 20 = Done y" "mem_get reply 20 20 = Done (take 20 out)"
    using len by (auto simp: r mem_get_def)
  with out len r show ?thesis by (simp add: fast_client_handshake_def st DIGEST_LEN_def)
qed

text \<open>A relay that holds the onion key the client asked for, under the identity it asked for.\<close>

definition ntor_relay ::
  "crypto \<Rightarrow> (byte list \<times> keypair) list \<Rightarrow> keypair option \<Rightarrow> byte list \<Rightarrow> byte list \<Rightarrow> bool" where
  "ntor_relay C private_keys junk B b \<longleftrightarrow>
     B = curve25519_basepoint C b \<and> dimap_search private_keys B junk = Some (keypair_of C b)"

lemma ntor_agree:
  assumes ok: "crypto_ok C" and rel: "ntor_relay C private_keys junk B b" and ident: "length ident = 20"
    and create: "onion_skin_ntor_create C ident B x = (st, skin)"
    and serve: "onion_skin_ntor_server_handshake C skin private_keys junk ident y n = Done (reply, keys)"
  shows "onion_skin_ntor_client_handshake C st reply n = Done keys"
proof -
  note L = crypto_okD [OF ok]
  define X where "X = curve25519_basepoint C x"
  define Y where "Y = curve25519_basepoint C y"
  have B: "B = curve25519_basepoint C b" "length B = 32" using rel L by (simp_all add: ntor_relay_def)
  have st: "st = \<lparr>nt_router_id = ident, nt_pubkey_B = B, nt_seckey_x = x, nt_pubkey_X = X\<rparr>"
    and skin: "skin = ident @ B @ X"
    using create by (auto simp: onion_skin_ntor_create_def keypair_of_def X_def Let_def)
  have len: "length X = 32" "length Y = 32" using L by (simp_all add: X_def Y_def)
  have g: "mem_get skin 0 20 = Done ident" "mem_get skin 20 32 = Done B" "mem_get skin 52 32 = Done X"
    using ident B(2) len by (auto simp: skin mem_get_def)
  have xy: "curve25519_impl C y X = curve25519_impl C x Y" unfolding X_def Y_def by (rule L(9))
  have xb: "curve25519_impl C b X = curve25519_impl C x B" unfolding X_def B(1) by (rule L(9))
  define si where "si = ntor_secret_input (curve25519_impl C x Y) (curve25519_impl C x B) ident B X Y"
  define auth where "auth = h_tweak C (ntor_auth_input (h_tweak C si (t_verify proto1_tweaks)) ident B Y X)
    (t_mac proto1_tweaks)"
  have dm: "dimap_search private_keys B junk = Some \<lparr>seckey = b, pubkey = B\<rparr>"
    using rel by (auto simp: ntor_relay_def keypair_of_def)
  from serve have ke: "crypto_expand_key_material_rfc5869_sha256 C si (t_key proto1_tweaks)
      (m_expand proto1_tweaks) n = Done keys"
    and bad: "\<not> safe_mem_is_zero (curve25519_impl C x Y)" "\<not> safe_mem_is_zero (curve25519_impl C x B)"
    and reply: "reply = Y @ auth"
    using ident
    by (auto simp: onion_skin_ntor_server_handshake_def DIGEST_LEN_def CURVE25519_PUBKEY_LEN_def g dm
        Let_def xy xb outcome_elims Y_def [symmetric] si_def [symmetric] auth_def [symmetric] split: if_splits)
  have "length auth = 32" using L by (simp add: auth_def h_tweak_def)
  then have "mem_get reply 0 32 = Done Y" "mem_get reply 32 32 = Done auth"
    using len by (auto simp: reply mem_get_def)
  with ke bad show ?thesis
    by (simp add: onion_skin_ntor_client_handshake_def st CURVE25519_PUBKEY_LEN_def Let_def
        si_def [symmetric] auth_def [symmetric])
qed

text \<open>A relay whose identity or key is not the one in the skin, and without a spare key, refuses.\<close>

lemma ntor_wrong_identity:
  assumes "take 20 skin \<noteq> take 20 my_node_id" "20 \<le> length skin"
  shows "onion_skin_ntor_server_handshake C skin private_keys junk my_node_id y n = Fail"
  using assms by (simp add: onion_skin_ntor_server_handshake_def DIGEST_LEN_def mem_get_def)

section \<open>The interface of a handshake\<close>

text \<open>
  What \<open>onion_skin_create\<close>, \<open>onion_skin_server_handshake\<close> and
  \<open>onion_skin_client_handshake\<close> rely on: a client that is answered by the relay it addressed
  obtains what the relay derived.
\<close>

locale circuit_handshake =
  fixes create :: "'a \<Rightarrow> ('st \<times> byte list) outcome"
    and serve :: "'b \<Rightarrow> byte list \<Rightarrow> (byte list \<times> 'k) outcome"
    and finish :: "'b \<Rightarrow> 'st \<Rightarrow> byte list \<Rightarrow> 'k outcome"
    and fits :: "'a \<Rightarrow> 'b \<Rightarrow> bool"
  assumes agree: "fits a b \<Longrightarrow> create a = Done (st, skin) \<Longrightarrow> serve b skin = Done (reply, k) \<Longrightarrow>
    finish b st reply = Done k"
begin

text \<open>The whole exchange: what the relay and then the client end with.\<close>

definition exchange :: "'a \<Rightarrow> 'b \<Rightarrow> ('k \<times> 'k) outcome" where
  "exchange a b =
     obind (create a) (\<lambda>(st, skin).
     obind (serve b skin) (\<lambda>(reply, k).
     obind (finish b st reply) (\<lambda>k'. Done (k, k'))))"

lemma exchange_agrees: "fits a b \<Longrightarrow> exchange a b = Done (k, k') \<Longrightarrow> k = k'"
  using agree by (auto simp: exchange_def outcome_elims)

lemma client_never_refuses:
  "fits a b \<Longrightarrow> create a = Done (st, skin) \<Longrightarrow> serve b skin = Done (reply, k) \<Longrightarrow>
     exchange a b = Done (k, k)"
  using agree by (simp add: exchange_def)

end

interpretation fast: circuit_handshake
  "\<lambda>x. Done (fast_onionskin_create x)"
  "\<lambda>(C, y, n) skin. fast_server_handshake C skin y n"
  "\<lambda>(C, y, n) st reply. fast_client_handshake C st reply n"
  "\<lambda>x (C, y, n). crypto_ok C \<and> length x = 20 \<and> length y = 20"
  by unfold_locales (auto intro: fast_agree)

interpretation ntor: circuit_handshake
  "\<lambda>(C, ident, B, x). Done (onion_skin_ntor_create C ident B x)"
  "\<lambda>(C, pk, junk, ident, y, n) skin. onion_skin_ntor_server_handshake C skin pk junk ident y n"
  "\<lambda>(C, pk, junk, ident, y, n) st reply. onion_skin_ntor_client_handshake C st reply n"
  "\<lambda>(C, ident, B, x) (C', pk, junk, ident', y, n). C' = C \<and> ident' = ident \<and> crypto_ok C \<and>
     length ident = 20 \<and> (\<exists>b. ntor_relay C pk junk B b)"
  by unfold_locales (auto intro: ntor_agree)

section \<open>The properties\<close>

text \<open>Primitives with the documented lengths, for concrete instances.\<close>

definition sample_crypto :: crypto where
  "sample_crypto =
     \<lparr>sha1 = (\<lambda>m. replicate 20 7), sha3 = (\<lambda>m. replicate 32 7), hmac_sha256 = (\<lambda>k m. replicate 32 7),
      shake = (\<lambda>m n. replicate n 7), aes_ctr = (\<lambda>k m. map (\<lambda>b. b XOR 0x55) m),
      curve25519_impl = (\<lambda>a p. replicate 32 1), curve25519_basepoint = (\<lambda>a. replicate 32 2)\<rparr>"

lemma sample_crypto_ok: "crypto_ok sample_crypto"
  by (simp add: crypto_ok_def sample_crypto_def comp_def xor.assoc)

text \<open>
  The key expansion of \<open>crypto_expand_key_material_TAP\<close> produces, for every length up
  to 256 digests, the first bytes of \<open>H(K|0) | H(K|1) | H(K|2) | ...\<close>, the sequence the
  comment of the function defines.
\<close>

theorem tap_key_expansion:
  assumes "crypto_ok C" "n \<le> 5120"
  shows "crypto_expand_key_material_TAP C key_in n = Done (take n (tap_blocks C key_in 0 n))"
  using tap_expand_eq [of C n n key_in 0] assms
  by (simp add: crypto_expand_key_material_TAP_def DIGEST_LEN_def)

lemma tap_key_expansion_witness:
  "crypto_expand_key_material_TAP sample_crypto [1, 2, 3] 92 = Done (take 92 (tap_blocks sample_crypto [1, 2, 3] 0 92))"
  by (rule tap_key_expansion) (simp_all add: sample_crypto_ok)

text \<open>
  The constant-time test \<open>safe_mem_is_zero\<close>, written with an OR over the bytes and a
  borrow into bit 8, holds exactly of memory whose bytes are all zero, of any length.
\<close>

theorem safe_mem_is_zero_spec: "safe_mem_is_zero mem = list_all (\<lambda>b. b = 0) mem"
  by (rule safe_mem_is_zero_iff)

text \<open>
  The constant-time lookup \<open>dimap_search\<close>, which runs through every entry, refines the
  lookup in a finite map: on entries with distinct keys it returns the value of the key, and
  the default value for an absent one.
\<close>

theorem dimap_search_is_lookup:
  assumes "distinct (map fst es)"
  shows "dimap_search es key dflt = (case map_of es key of Some v \<Rightarrow> Some v | None \<Rightarrow> dflt)"
  by (rule dimap_search_map_of [OF assms])

lemma dimap_search_witness:
  "dimap_search [([1], 10), ([2], 20)] [2] (Some 99) =
     (case map_of [([1 :: byte], 10 :: nat), ([2], 20)] [2] of Some v \<Rightarrow> Some v | None \<Rightarrow> Some 99)"
  using dimap_search_is_lookup [of "[([1], 10 :: nat), ([2], 20)]" "[2]" "Some 99"] by simp

end
