(* ===== verification/Ntor3.thy ===== *)
theory Ntor3
  imports KeyExchange
begin

text \<open>
  The ntor v3 handshake, \<open>src/core/crypto/onion_ntor_v3.c\<close>: the client's onion skin with an
  encrypted message, the relay's two halves, the client's completion, and the payment hash
  that an El Tor relay looks for in the decrypted message. The primitives are those of
  \<open>KeyExchange\<close>; an ephemeral secret key is an argument.
\<close>

definition PROTOID :: "byte list" where "PROTOID = bytes_of ''ntor3-curve25519-sha3_256-1''"

definition TWEAK :: "string \<Rightarrow> byte list" where
  "TWEAK a = PROTOID @ bytes_of '':'' @ bytes_of a"

text \<open>What \<open>xof_add_encap\<close>, \<open>d_add_encap\<close> and the two tweak macros feed to a hash.\<close>

definition encap :: "byte list \<Rightarrow> byte list" where
  "encap data = put64 (of_nat (length data)) @ data"

section \<open>State\<close>

record ntor3_handshake_state =
  client_keypair :: keypair
  relay_id :: "byte list"
  relay_key :: "byte list"
  bx :: "byte list"
  h_msg_mac :: "byte list"

record ntor3_server_handshake_state =
  my_id :: "byte list"
  my_key :: "byte list"
  client_key :: "byte list"
  xb :: "byte list"
  s_msg_mac :: "byte list"

section \<open>Derivations both sides share\<close>

text \<open>The encryption key and the MAC key of the first phase.\<close>

definition phase1_keys ::
  "crypto \<Rightarrow> byte list \<Rightarrow> byte list \<Rightarrow> byte list \<Rightarrow> byte list \<Rightarrow> byte list \<Rightarrow> byte list \<times> byte list" where
  "phase1_keys C shared ident X B verification =
     (let out = shake C (encap (TWEAK ''kdf_phase1'') @ shared @ ident @ X @ B @ PROTOID @ encap verification) 64
      in (take 32 out, take 32 (drop 32 out)))"

definition phase1_mac ::
  "crypto \<Rightarrow> byte list \<Rightarrow> byte list \<Rightarrow> byte list \<Rightarrow> byte list \<Rightarrow> byte list \<Rightarrow> byte list" where
  "phase1_mac C mac_key ident B X encrypted_message =
     sha3 C (encap (TWEAK ''msg_mac'') @ encap mac_key @ ident @ B @ X @ encrypted_message)"

text \<open>\<open>key_seed\<close> and \<open>verify\<close>, the two tweaked hashes of the secret input.\<close>

definition secret_hashes ::
  "crypto \<Rightarrow> byte list \<Rightarrow> byte list \<Rightarrow> byte list \<Rightarrow> byte list \<Rightarrow> byte list \<Rightarrow> byte list \<Rightarrow> byte list \<Rightarrow>
     byte list \<times> byte list" where
  "secret_hashes C xy shared ident B X Y verification =
     (let si = xy @ shared @ ident @ B @ X @ Y @ PROTOID @ encap verification
      in (sha3 C (encap (TWEAK ''key_seed'') @ si), sha3 C (encap (TWEAK ''verify'') @ si)))"

definition auth_digest ::
  "crypto \<Rightarrow> byte list \<Rightarrow> byte list \<Rightarrow> byte list \<Rightarrow> byte list \<Rightarrow> byte list \<Rightarrow> byte list \<Rightarrow> byte list \<Rightarrow> byte list" where
  "auth_digest C verify ident B Y X msg_mac encrypted_msg =
     sha3 C (encap (TWEAK ''auth_final'') @ verify @ ident @ B @ Y @ X @ msg_mac @
             encap encrypted_msg @ PROTOID @ bytes_of ''Server'')"

definition final_keys :: "crypto \<Rightarrow> byte list \<Rightarrow> nat \<Rightarrow> byte list \<times> byte list" where
  "final_keys C key_seed keys_out_len =
     (let out = shake C (encap (TWEAK ''kdf_final'') @ key_seed) (32 + keys_out_len)
      in (take 32 out, take keys_out_len (drop 32 out)))"

section \<open>The client's first message\<close>

definition onion_skin_ntor3_create_nokeygen ::
  "crypto \<Rightarrow> keypair \<Rightarrow> byte list \<Rightarrow> byte list \<Rightarrow> byte list \<Rightarrow> byte list \<Rightarrow>
     (ntor3_handshake_state \<times> byte list) outcome" where
  "onion_skin_ntor3_create_nokeygen C kp rid rkey verification message =
     (let shared = curve25519_impl C (seckey kp) rkey
      in if safe_mem_is_zero shared then Fail
         else case phase1_keys C shared rid (pubkey kp) rkey verification of (enc_key, mac_key) \<Rightarrow>
           let encrypted_message = aes_ctr C enc_key message;
               mac = phase1_mac C mac_key rid rkey (pubkey kp) encrypted_message;
               state = \<lparr>client_keypair = kp, relay_id = rid, relay_key = rkey, bx = shared, h_msg_mac = mac\<rparr>
           in Done (state, rid @ rkey @ pubkey kp @ encrypted_message @ mac))"

definition onion_skin_ntor3_create ::
  "crypto \<Rightarrow> byte list \<Rightarrow> byte list \<Rightarrow> byte list \<Rightarrow> byte list \<Rightarrow> byte list \<Rightarrow>
     (ntor3_handshake_state \<times> byte list) outcome" where
  "onion_skin_ntor3_create C x rid rkey verification message =
     onion_skin_ntor3_create_nokeygen C (keypair_of C x) rid rkey verification message"

section \<open>The relay's first half\<close>

text \<open>
  The payment hash in a decrypted message: what follows the first prefix, when anything does.
  The code copies it with a terminating NUL and hands it to
  \<open>control_event_payment_id_hash_received\<close>, so it is the C string at that place.
\<close>

definition ntor3_payhash :: "byte list \<Rightarrow> string option outcome" where
  "ntor3_payhash msg =
     (if length msg = 0 then Done None
      else obind (tor_memmem msg (bytes_of ''eltor_payhash'')) (\<lambda>found.
        case found of
          None \<Rightarrow> Done None
        | Some indexPayHash \<Rightarrow>
            let remaining = length msg - (indexPayHash + length (bytes_of ''eltor_payhash''))
            in if remaining > 0
               then Done (Some (cstr (string_of (drop (indexPayHash + length (bytes_of ''eltor_payhash'')) msg))))
               else Done None))"

text \<open>The result is the client's message, the state, and the payment hash reported.\<close>

definition onion_skin_ntor3_server_handshake_part1 ::
  "crypto \<Rightarrow> (byte list \<times> keypair) list \<Rightarrow> keypair option \<Rightarrow> byte list \<Rightarrow> byte list \<Rightarrow> byte list \<Rightarrow>
     (byte list \<times> ntor3_server_handshake_state \<times> string option) outcome" where
  "onion_skin_ntor3_server_handshake_part1 C private_keys junk_key ident client_handshake verification =
     (if length client_handshake < 32 + 32 * 2 + 32 then Fail
      else
        let wanted_id = take 32 client_handshake;
            wanted_key = take 32 (drop 32 client_handshake);
            X = take 32 (drop 64 client_handshake);
            remaining = length client_handshake - 96
        in if remaining < 32 then Fail
           else
             let encrypted_message = take (remaining - 32) (drop 96 client_handshake);
                 msg_mac = drop (96 + (remaining - 32)) client_handshake
             in (case dimap_search private_keys wanted_key junk_key of
                   None \<Rightarrow> Stuck
                 | Some kp \<Rightarrow>
                     let shared = curve25519_impl C (seckey kp) X
                     in (case phase1_keys C shared wanted_id X (pubkey kp) verification of
                       (enc_key, mac_key) \<Rightarrow>
                         let computed_mac = phase1_mac C mac_key ident (pubkey kp) X encrypted_message;
                             problems = (ident \<noteq> wanted_id \<or> safe_mem_is_zero shared \<or> msg_mac \<noteq> computed_mac);
                             client_message = aes_ctr C enc_key encrypted_message
                         in if problems then Fail
                            else obind (ntor3_payhash client_message) (\<lambda>p.
                              Done (client_message,
                                \<lparr>my_id = ident, my_key = pubkey kp, client_key = X, xb = shared, s_msg_mac = msg_mac\<rparr>, p)))))"

section \<open>The relay's second half\<close>

definition onion_skin_ntor3_server_handshake_part2_nokeygen ::
  "crypto \<Rightarrow> keypair \<Rightarrow> ntor3_server_handshake_state \<Rightarrow> byte list \<Rightarrow> byte list \<Rightarrow> nat \<Rightarrow>
     (byte list \<times> byte list) outcome" where
  "onion_skin_ntor3_server_handshake_part2_nokeygen C kpy state verification server_message keys_out_len =
     (let xy = curve25519_impl C (seckey kpy) (client_key state);
          problems = safe_mem_is_zero xy
      in case secret_hashes C xy (xb state) (my_id state) (my_key state) (client_key state) (pubkey kpy) verification of
        (key_seed, verify) \<Rightarrow>
          case final_keys C key_seed keys_out_len of (enc_key, keys_out) \<Rightarrow>
            let encrypted_message = aes_ctr C enc_key server_message;
                auth = auth_digest C verify (my_id state) (my_key state) (pubkey kpy) (client_key state)
                         (s_msg_mac state) encrypted_message
            in if problems then Fail else Done (pubkey kpy @ auth @ encrypted_message, keys_out))"

definition onion_skin_ntor3_server_handshake_part2 ::
  "crypto \<Rightarrow> byte list \<Rightarrow> ntor3_server_handshake_state \<Rightarrow> byte list \<Rightarrow> byte list \<Rightarrow> nat \<Rightarrow>
     (byte list \<times> byte list) outcome" where
  "onion_skin_ntor3_server_handshake_part2 C y state verification server_message keys_out_len =
     onion_skin_ntor3_server_handshake_part2_nokeygen C (keypair_of C y) state verification server_message keys_out_len"

section \<open>The client's completion\<close>

definition onion_ntor3_client_handshake ::
  "crypto \<Rightarrow> ntor3_handshake_state \<Rightarrow> byte list \<Rightarrow> byte list \<Rightarrow> nat \<Rightarrow> (byte list \<times> byte list) outcome" where
  "onion_ntor3_client_handshake C st handshake_reply verification keys_out_len =
     (if length handshake_reply < 32 + 32 then Fail
      else
        let Y = take 32 handshake_reply;
            relay_auth = take 32 (drop 32 handshake_reply);
            encrypted_msg = drop 64 handshake_reply;
            X = pubkey (client_keypair st);
            xy = curve25519_impl C (seckey (client_keypair st)) Y
        in case secret_hashes C xy (bx st) (relay_id st) (relay_key st) X Y verification of (key_seed, verify) \<Rightarrow>
          let auth_computed = auth_digest C verify (relay_id st) (relay_key st) Y X (h_msg_mac st) encrypted_msg;
              problems = (safe_mem_is_zero xy \<or> auth_computed \<noteq> relay_auth)
          in case final_keys C key_seed keys_out_len of (enc_key, keys_out) \<Rightarrow>
               if problems then Fail else Done (keys_out, aes_ctr C enc_key encrypted_msg))"

section \<open>Agreement\<close>

lemma ntor3_part1_reads_skin:
  assumes ok: "crypto_ok C" and rel: "ntor_relay C private_keys junk B b" and ident: "length ident = 32"
    and create: "onion_skin_ntor3_create C x ident B verification msg = Done (st, skin)"
    and pay: "ntor3_payhash msg = Done p"
  shows "onion_skin_ntor3_server_handshake_part1 C private_keys junk ident skin verification =
    Done (msg, \<lparr>my_id = ident, my_key = B, client_key = pubkey (client_keypair st), xb = bx st,
                s_msg_mac = h_msg_mac st\<rparr>, p)"
proof -
  note L = crypto_okD [OF ok]
  define X where "X = curve25519_basepoint C x"
  define shared where "shared = curve25519_impl C x B"
  obtain ek mk where k: "phase1_keys C shared ident X B verification = (ek, mk)" by fastforce
  define em where "em = aes_ctr C ek msg"
  define mac where "mac = phase1_mac C mk ident B X em"
  from create k have nz: "\<not> safe_mem_is_zero shared"
    and st: "st = \<lparr>client_keypair = \<lparr>seckey = x, pubkey = X\<rparr>, relay_id = ident, relay_key = B, bx = shared, h_msg_mac = mac\<rparr>"
    and skin: "skin = ident @ B @ X @ em @ mac"
    by (auto simp: onion_skin_ntor3_create_def onion_skin_ntor3_create_nokeygen_def keypair_of_def
        X_def [symmetric] shared_def [symmetric] em_def [symmetric] mac_def [symmetric] Let_def split: if_splits)
  have len: "length B = 32" "length X = 32" "length mac = 32" "length em = length msg"
    using rel L by (simp_all add: ntor_relay_def X_def mac_def em_def phase1_mac_def)
  have sh: "curve25519_impl C b X = shared"
    using rel L(9) [of b x] by (simp add: ntor_relay_def shared_def X_def)
  have dm: "dimap_search private_keys B junk = Some \<lparr>seckey = b, pubkey = B\<rparr>"
    using rel by (auto simp: ntor_relay_def keypair_of_def)
  have "aes_ctr C ek em = msg" using L(6) by (simp add: em_def)
  then show ?thesis
    using len ident nz pay
    by (simp add: onion_skin_ntor3_server_handshake_part1_def skin Let_def dm sh k st mac_def [symmetric])
qed

lemma ntor3_client_reads_reply:
  assumes ok: "crypto_ok C"
    and st: "client_keypair st = keypair_of C x"
    and sst: "sst = \<lparr>my_id = relay_id st, my_key = relay_key st, client_key = pubkey (client_keypair st),
                xb = bx st, s_msg_mac = h_msg_mac st\<rparr>"
    and serve: "onion_skin_ntor3_server_handshake_part2 C y sst verification smsg n = Done (reply, keys)"
  shows "onion_ntor3_client_handshake C st reply verification n = Done (keys, smsg)"
proof -
  note L = crypto_okD [OF ok]
  define X where "X = curve25519_basepoint C x"
  define Y where "Y = curve25519_basepoint C y"
  have xy: "curve25519_impl C y X = curve25519_impl C x Y" unfolding X_def Y_def by (rule L(9))
  obtain ks vf where h: "secret_hashes C (curve25519_impl C x Y) (bx st) (relay_id st) (relay_key st) X Y verification = (ks, vf)"
    by fastforce
  obtain ek ko where f: "final_keys C ks n = (ek, ko)" by fastforce
  define em where "em = aes_ctr C ek smsg"
  define auth where "auth = auth_digest C vf (relay_id st) (relay_key st) Y X (h_msg_mac st) em"
  from serve have nz: "\<not> safe_mem_is_zero (curve25519_impl C x Y)" and r: "reply = Y @ auth @ em" "keys = ko"
    by (auto simp: onion_skin_ntor3_server_handshake_part2_def onion_skin_ntor3_server_handshake_part2_nokeygen_def
        sst st keypair_of_def X_def [symmetric] Y_def [symmetric] xy h f Let_def em_def [symmetric]
        auth_def [symmetric] split: if_splits)
  have "length Y = 32" "length auth = 32" using L by (simp_all add: Y_def auth_def auth_digest_def)
  with nz L(6) [of ek smsg] show ?thesis
    by (simp add: onion_ntor3_client_handshake_def r Let_def st keypair_of_def X_def [symmetric] h f
        auth_def [symmetric] em_def [symmetric])
qed

lemma ntor3_payhash_total: "\<exists>p. ntor3_payhash msg = Done p"
  by (auto simp: ntor3_payhash_def tor_memmem_def bytes_of_def Let_def split: option.splits)

text \<open>The hash is found behind any message without the first letter of the prefix.\<close>

lemma ntor3_payhash_found:
  assumes "of_char (CHR ''e'') \<notin> set neg" "NUL \<notin> set h" "h \<noteq> []"
  shows "ntor3_payhash (neg @ bytes_of (''eltor_payhash'' @ h)) = Done (Some h)"
proof -
  let ?p = "bytes_of ''eltor_payhash''"
  have split: "?p = of_char (CHR ''e'') # bytes_of ''ltor_payhash''" by (simp add: bytes_of_def)
  have e: "(of_char (CHR ''e'') :: byte) \<notin> set (bytes_of ''ltor_payhash'')" by (simp add: bytes_of_def)
  have f: "find_sub ?p (neg @ ?p @ bytes_of h) = Some (length neg)"
    using find_sub_append [OF assms(1) e, of "bytes_of h"] by (simp only: split append_Cons)
  have d: "drop (length neg + length ?p) (neg @ ?p @ bytes_of h) = bytes_of h" by simp
  have c: "cstr h = h" using assms(2) by (simp add: cstr_def takeWhile_eq_all_conv) metis
  have "tor_memmem (neg @ ?p @ bytes_of h) ?p = Done (Some (length neg))"
    by (simp only: tor_memmem_def f) (simp add: bytes_of_def)
  then show ?thesis
    using assms(3) unfolding ntor3_payhash_def bytes_of_append
    by (simp only: obind.simps option.case d string_of_bytes_of c Let_def) (simp add: bytes_of_def)
qed

lemma ntor3_agree:
  assumes ok: "crypto_ok C" and rel: "ntor_relay C pk junk B b" and ident: "length ident = 32"
    and create: "onion_skin_ntor3_create C x ident B ver msg = Done (st, skin)"
    and serve: "obind (onion_skin_ntor3_server_handshake_part1 C pk junk ident skin ver) (\<lambda>(m, sst, p).
      obind (onion_skin_ntor3_server_handshake_part2 C y sst ver (respond m) n) (\<lambda>(reply, keys).
        Done (reply, keys, respond m))) = Done (reply, keys, smsg)"
  shows "onion_ntor3_client_handshake C st reply ver n = Done (keys, smsg) \<and> smsg = respond msg"
proof -
  obtain p where p: "ntor3_payhash msg = Done p" using ntor3_payhash_total by blast
  note r = ntor3_part1_reads_skin [OF ok rel ident create p]
  have st: "client_keypair st = keypair_of C x" "relay_id st = ident" "relay_key st = B"
    using create by (auto simp: onion_skin_ntor3_create_def onion_skin_ntor3_create_nokeygen_def Let_def
        split: if_splits prod.splits)
  from serve have s: "onion_skin_ntor3_server_handshake_part2 C y
      \<lparr>my_id = relay_id st, my_key = relay_key st, client_key = pubkey (client_keypair st), xb = bx st,
       s_msg_mac = h_msg_mac st\<rparr> ver smsg n = Done (reply, keys)" "smsg = respond msg"
    unfolding r st by (auto simp: outcome_elims)
  with ntor3_client_reads_reply [OF ok st(1) refl s(1)] show ?thesis by simp
qed

interpretation ntor3: circuit_handshake
  "\<lambda>(C, ident, B, x, ver, msg). onion_skin_ntor3_create C x ident B ver msg"
  "\<lambda>(C, pk, junk, ident, y, ver, respond, n) skin.
     obind (onion_skin_ntor3_server_handshake_part1 C pk junk ident skin ver) (\<lambda>(m, sst, p).
     obind (onion_skin_ntor3_server_handshake_part2 C y sst ver (respond m) n) (\<lambda>(reply, keys).
       Done (reply, keys, respond m)))"
  "\<lambda>(C, pk, junk, ident, y, ver, respond, n) st reply. onion_ntor3_client_handshake C st reply ver n"
  "\<lambda>(C, ident, B, x, ver, msg) (C', pk, junk, ident', y, ver', respond, n).
     C' = C \<and> ident' = ident \<and> ver' = ver \<and> crypto_ok C \<and> length ident = 32 \<and> (\<exists>b. ntor_relay C pk junk B b)"
  by unfold_locales (clarsimp, drule (4) ntor3_agree, simp)

text \<open>What a relay knows about a skin it has accepted.\<close>

lemma ntor3_part1_accepts:
  assumes "onion_skin_ntor3_server_handshake_part1 C pk junk ident skin ver = Done (m, sst, p)"
  shows "take 32 skin = ident" "128 \<le> length skin"
    and "\<exists>kp ek mk. dimap_search pk (take 32 (drop 32 skin)) junk = Some kp \<and>
      phase1_keys C (curve25519_impl C (seckey kp) (take 32 (drop 64 skin))) ident (take 32 (drop 64 skin))
        (pubkey kp) ver = (ek, mk) \<and>
      drop (length skin - 32) skin =
        phase1_mac C mk ident (pubkey kp) (take 32 (drop 64 skin)) (take (length skin - 128) (drop 96 skin))"
proof -
  have l: "128 \<le> length skin"
    using assms by (auto simp: onion_skin_ntor3_server_handshake_part1_def split: if_splits)
  then have e: "96 + (length skin - 96 - 32) = length skin - 32" "length skin - 96 - 32 = length skin - 128" by simp_all
  note a = assms [unfolded onion_skin_ntor3_server_handshake_part1_def Let_def e]
  show "take 32 skin = ident" "128 \<le> length skin"
    "\<exists>kp ek mk. dimap_search pk (take 32 (drop 32 skin)) junk = Some kp \<and>
      phase1_keys C (curve25519_impl C (seckey kp) (take 32 (drop 64 skin))) ident (take 32 (drop 64 skin))
        (pubkey kp) ver = (ek, mk) \<and>
      drop (length skin - 32) skin =
        phase1_mac C mk ident (pubkey kp) (take 32 (drop 64 skin)) (take (length skin - 128) (drop 96 skin))"
    using a l by (auto split: if_splits option.splits prod.splits)
qed

section \<open>The properties\<close>

text \<open>
  A relay accepts an ntor v3 skin only when the skin names the relay's own identity and a
  key the relay looks up, and ends with the MAC that the shared secret, the identity, both
  keys and the encrypted message determine.
\<close>

theorem ntor3_accepts_only_authentic:
  assumes "onion_skin_ntor3_server_handshake_part1 C pk junk ident skin ver = Done (m, sst, p)"
  shows "take 32 skin = ident \<and>
    (\<exists>kp ek mk. dimap_search pk (take 32 (drop 32 skin)) junk = Some kp \<and>
      phase1_keys C (curve25519_impl C (seckey kp) (take 32 (drop 64 skin))) ident (take 32 (drop 64 skin))
        (pubkey kp) ver = (ek, mk) \<and>
      drop (length skin - 32) skin =
        phase1_mac C mk ident (pubkey kp) (take 32 (drop 64 skin)) (take (length skin - 128) (drop 96 skin)))"
  using ntor3_part1_accepts [OF assms] by blast

lemma ntor3_accepts_witness:
  "take 32 (replicate 32 3 @ replicate 64 2 @ replicate 32 7) = (replicate 32 3 :: byte list) \<and>
    (\<exists>kp ek mk. dimap_search [] (take 32 (drop 32 (replicate 32 3 @ replicate 64 2 @ replicate 32 7)))
        (Some \<lparr>seckey = [], pubkey = replicate 32 2\<rparr>) = Some kp \<and>
      phase1_keys sample_crypto (curve25519_impl sample_crypto (seckey kp)
          (take 32 (drop 64 (replicate 32 3 @ replicate 64 2 @ replicate 32 7)))) (replicate 32 3)
        (take 32 (drop 64 (replicate 32 3 @ replicate 64 2 @ replicate 32 7))) (pubkey kp) [] = (ek, mk) \<and>
      drop (length (replicate 32 3 @ replicate 64 2 @ replicate 32 (7 :: byte)) - 32)
          (replicate 32 3 @ replicate 64 2 @ replicate 32 7) =
        phase1_mac sample_crypto mk (replicate 32 3) (pubkey kp)
          (take 32 (drop 64 (replicate 32 3 @ replicate 64 2 @ replicate 32 7)))
          (take (length (replicate 32 3 @ replicate 64 2 @ replicate 32 (7 :: byte)) - 128)
             (drop 96 (replicate 32 3 @ replicate 64 2 @ replicate 32 7))))"
  by (rule ntor3_accepts_only_authentic
      [of sample_crypto "[]" "Some \<lparr>seckey = [], pubkey = replicate 32 2\<rparr>" "replicate 32 3"
        "replicate 32 3 @ replicate 64 2 @ replicate 32 7" "[]" "[]"
        "\<lparr>my_id = replicate 32 3, my_key = replicate 32 2, client_key = replicate 32 2, xb = replicate 32 1,
          s_msg_mac = replicate 32 7\<rparr>" None])
     (simp add: onion_skin_ntor3_server_handshake_part1_def Let_def phase1_keys_def phase1_mac_def sample_crypto_def
      safe_mem_is_zero_iff ntor3_payhash_def list_all_iff)

end
