(* ===== verification/Tap.thy ===== *)
theory Tap
  imports KeyExchange Binascii
begin

text \<open>
  The TAP handshake of \<open>src/core/crypto/onion_tap.c\<close>, the hybrid encryption of
  \<open>src/lib/crypt_ops/crypto_rsa.c\<close> it puts the client's half into, and
  \<open>crypto_dh_compute_secret\<close> of \<open>src/lib/crypt_ops/crypto_dh.c\<close>. RSA and
  Diffie-Hellman modulo a prime are computed by OpenSSL: a record of functions on opaque keys.
  A buffer of known size is its capacity, a written prefix the list of its bytes.
\<close>

section \<open>Primitives\<close>

type_synonym handle = "byte list"

record rsa_dh =
  pk_keysize :: "handle \<Rightarrow> nat"
  pk_is_private :: "handle \<Rightarrow> bool"
  rsa_public_encrypt :: "handle \<Rightarrow> byte list \<Rightarrow> byte list \<Rightarrow> byte list option"
  rsa_private_decrypt :: "handle \<Rightarrow> byte list \<Rightarrow> byte list option"
  dh_get_public :: "handle \<Rightarrow> byte list option"
  dh_handshake :: "handle \<Rightarrow> byte list \<Rightarrow> byte list option"

definition CIPHER_KEY_LEN :: nat where "CIPHER_KEY_LEN = 16"
definition PKCS1_OAEP_PADDING_OVERHEAD :: nat where "PKCS1_OAEP_PADDING_OVERHEAD = 42"
definition DH1024_KEY_LEN :: nat where "DH1024_KEY_LEN = 1024 div 8"
definition TAP_CHALLENGE :: nat where
  "TAP_CHALLENGE = PKCS1_OAEP_PADDING_OVERHEAD + CIPHER_KEY_LEN + DH1024_KEY_LEN"

lemmas tap_lens = CIPHER_KEY_LEN_def PKCS1_OAEP_PADDING_OVERHEAD_def DH1024_KEY_LEN_def TAP_CHALLENGE_def
  DIGEST_LEN_def INT_MAX_def SIZE_T_CEILING_def

text \<open>Documented behaviour of the primitives: a ciphertext is as long as the modulus.\<close>

definition rsa_dh_ok :: "rsa_dh \<Rightarrow> bool" where
  "rsa_dh_ok T \<longleftrightarrow>
     (\<forall>k seed m e. rsa_public_encrypt T k seed m = Some e \<longrightarrow> length e = pk_keysize T k) \<and>
     (\<forall>a p. dh_get_public T a = Some p \<longrightarrow> length p = DH1024_KEY_LEN) \<and>
     (\<forall>a b p q. dh_get_public T a = Some p \<longrightarrow> dh_get_public T b = Some q \<longrightarrow>
        dh_handshake T a q = dh_handshake T b p)"

text \<open>\<open>priv\<close> is the private key of \<open>pub\<close>; a key \<open>cur\<close> that fails on what \<open>pub\<close> encrypts.\<close>

definition rsa_pair :: "rsa_dh \<Rightarrow> handle \<Rightarrow> handle \<Rightarrow> bool" where
  "rsa_pair T pub priv \<longleftrightarrow> pk_is_private T priv \<and> pk_keysize T priv = pk_keysize T pub \<and>
     (\<forall>seed m e. rsa_public_encrypt T pub seed m = Some e \<longrightarrow> rsa_private_decrypt T priv e = Some m)"

definition rsa_rejects :: "rsa_dh \<Rightarrow> handle \<Rightarrow> handle \<Rightarrow> bool" where
  "rsa_rejects T pub cur \<longleftrightarrow> pk_keysize T cur = pk_keysize T pub \<and>
     (\<forall>seed m e. rsa_public_encrypt T pub seed m = Some e \<longrightarrow> rsa_private_decrypt T cur e = None)"

section \<open>Hybrid encryption\<close>

definition crypto_pk_public_encrypt ::
  "rsa_dh \<Rightarrow> handle \<Rightarrow> nat \<Rightarrow> byte list \<Rightarrow> byte list \<Rightarrow> byte list outcome" where
  "crypto_pk_public_encrypt T env tolen seed src =
     (if \<not> length src < INT_MAX then Stuck
      else if \<not> tolen \<ge> pk_keysize T env then Stuck
      else of_option (rsa_public_encrypt T env seed src))"

definition crypto_pk_private_decrypt :: "rsa_dh \<Rightarrow> handle \<Rightarrow> nat \<Rightarrow> byte list \<Rightarrow> byte list outcome" where
  "crypto_pk_private_decrypt T env tolen src =
     (if \<not> length src < INT_MAX then Stuck
      else if \<not> tolen \<ge> pk_keysize T env then Stuck
      else if \<not> pk_is_private T env then Fail
      else of_option (rsa_private_decrypt T env src))"

definition crypto_cipher_encrypt :: "crypto \<Rightarrow> byte list \<Rightarrow> byte list \<Rightarrow> byte list outcome" where
  "crypto_cipher_encrypt C key src =
     (if length src = 0 then Stuck
      else if \<not> length src < SIZE_T_CEILING then Stuck else Done (aes_ctr C key src))"

definition crypto_cipher_decrypt :: "crypto \<Rightarrow> byte list \<Rightarrow> byte list \<Rightarrow> byte list outcome" where
  "crypto_cipher_decrypt C key src =
     (if \<not> length src < SIZE_T_CEILING then Stuck else Done (aes_ctr C key src))"

text \<open>
  \<open>key\<close> are the bytes of \<open>crypto_rand\<close>, \<open>seed\<close> those RSA draws for its padding. A
  modulus too short for the padding and the key makes the length of the copy wrap.
\<close>

definition crypto_pk_obsolete_public_hybrid_encrypt ::
  "crypto \<Rightarrow> rsa_dh \<Rightarrow> handle \<Rightarrow> nat \<Rightarrow> byte list \<Rightarrow> bool \<Rightarrow> byte list \<Rightarrow> byte list \<Rightarrow> byte list outcome" where
  "crypto_pk_obsolete_public_hybrid_encrypt C T env tolen src force key seed =
     (if \<not> length src < SIZE_T_CEILING then Stuck
      else
        let overhead = PKCS1_OAEP_PADDING_OVERHEAD;
            pkeylen = pk_keysize T env
        in if \<not> force \<and> length src + overhead \<le> pkeylen
           then crypto_pk_public_encrypt T env tolen seed src
           else if \<not> tolen \<ge> length src + overhead + CIPHER_KEY_LEN then Stuck
           else if \<not> tolen \<ge> pkeylen then Stuck
           else if pkeylen < overhead + CIPHER_KEY_LEN then Stuck
           else obind (mem_get src 0 (pkeylen - overhead - CIPHER_KEY_LEN)) (\<lambda>first.
             let symlen = length src - (pkeylen - overhead - CIPHER_KEY_LEN)
             in obind (crypto_pk_public_encrypt T env tolen seed (key @ first)) (\<lambda>enc.
                if length enc \<noteq> pkeylen then Fail
                else obind (crypto_cipher_encrypt C key (drop (pkeylen - overhead - CIPHER_KEY_LEN) src)) (\<lambda>rest.
                  if \<not> length enc + symlen < INT_MAX then Stuck else Done (enc @ rest)))))"

definition crypto_pk_obsolete_private_hybrid_decrypt ::
  "crypto \<Rightarrow> rsa_dh \<Rightarrow> handle \<Rightarrow> nat \<Rightarrow> byte list \<Rightarrow> byte list outcome" where
  "crypto_pk_obsolete_private_hybrid_decrypt C T env tolen src =
     (if \<not> length src < SIZE_T_CEILING then Stuck
      else
        let pkeylen = pk_keysize T env
        in if length src \<le> pkeylen then crypto_pk_private_decrypt T env tolen src
           else obind (crypto_pk_private_decrypt T env pkeylen (take pkeylen src)) (\<lambda>buf.
             if length buf < CIPHER_KEY_LEN then Fail
             else if length buf - CIPHER_KEY_LEN > tolen then Stuck
             else if \<not> tolen - (length buf - CIPHER_KEY_LEN) \<ge> length src - pkeylen then Stuck
             else obind (crypto_cipher_decrypt C (take CIPHER_KEY_LEN buf) (drop pkeylen src)) (\<lambda>rest.
               if \<not> (length buf - CIPHER_KEY_LEN) + length src < INT_MAX then Stuck
               else Done (drop CIPHER_KEY_LEN buf @ rest))))"

section \<open>The handshake\<close>

definition crypto_dh_compute_secret ::
  "crypto \<Rightarrow> rsa_dh \<Rightarrow> handle \<Rightarrow> byte list \<Rightarrow> nat \<Rightarrow> byte list outcome" where
  "crypto_dh_compute_secret C T dh pub_key secret_bytes_out =
     (if \<not> secret_bytes_out div DIGEST_LEN \<le> 255 then Stuck
      else obind (of_option (dh_handshake T dh pub_key)) (\<lambda>secret.
           crypto_expand_key_material_TAP C secret secret_bytes_out))"

text \<open>\<open>dh\<close> is the fresh exponent; it is the state the client keeps.\<close>

definition onion_skin_TAP_create ::
  "crypto \<Rightarrow> rsa_dh \<Rightarrow> handle \<Rightarrow> handle \<Rightarrow> byte list \<Rightarrow> byte list \<Rightarrow> (handle \<times> byte list) outcome" where
  "onion_skin_TAP_create C T dest_router_key dh key seed =
     (if \<not> pk_keysize T dest_router_key = 128 then Stuck
      else obind (of_option (dh_get_public T dh)) (\<lambda>challenge.
           obind (crypto_pk_obsolete_public_hybrid_encrypt C T dest_router_key TAP_CHALLENGE
                    challenge True key seed) (\<lambda>skin.
             Done (dh, skin @ replicate (TAP_CHALLENGE - length skin) 0))))"

text \<open>The loop over the two onion keys ends at an absent one or after one that yields bytes.\<close>

fun tap_decrypt_loop :: "crypto \<Rightarrow> rsa_dh \<Rightarrow> handle option list \<Rightarrow> byte list \<Rightarrow> byte list outcome \<Rightarrow> byte list outcome" where
  "tap_decrypt_loop C T [] skin len = len"
| "tap_decrypt_loop C T (None # ks) skin len = len"
| "tap_decrypt_loop C T (Some k # ks) skin len =
     (case crypto_pk_obsolete_private_hybrid_decrypt C T k TAP_CHALLENGE skin of
        Stuck \<Rightarrow> Stuck
      | Fail \<Rightarrow> tap_decrypt_loop C T ks skin Fail
      | Done m \<Rightarrow> if length m > 0 then Done m else tap_decrypt_loop C T ks skin (Done m))"

definition onion_skin_TAP_server_handshake ::
  "crypto \<Rightarrow> rsa_dh \<Rightarrow> byte list \<Rightarrow> handle option \<Rightarrow> handle option \<Rightarrow> handle \<Rightarrow> nat \<Rightarrow>
     (byte list \<times> byte list) outcome" where
  "onion_skin_TAP_server_handshake C T onion_skin private_key prev_private_key dh key_out_len =
     obind (mem_get onion_skin 0 TAP_CHALLENGE) (\<lambda>skin.
     obind (tap_decrypt_loop C T [private_key, prev_private_key] skin Fail) (\<lambda>challenge.
       if length challenge \<noteq> DH1024_KEY_LEN then Fail
       else obind (of_option (dh_get_public T dh)) (\<lambda>pub.
            obind (crypto_dh_compute_secret C T dh challenge (DIGEST_LEN + key_out_len)) (\<lambda>key_material.
              Done (pub @ take DIGEST_LEN key_material, take key_out_len (drop DIGEST_LEN key_material))))))"

definition onion_skin_TAP_client_handshake ::
  "crypto \<Rightarrow> rsa_dh \<Rightarrow> handle \<Rightarrow> byte list \<Rightarrow> nat \<Rightarrow> byte list outcome" where
  "onion_skin_TAP_client_handshake C T handshake_state handshake_reply key_out_len =
     obind (mem_get handshake_reply 0 DH1024_KEY_LEN) (\<lambda>pub.
     obind (crypto_dh_compute_secret C T handshake_state pub (DIGEST_LEN + key_out_len)) (\<lambda>key_material.
     obind (mem_get handshake_reply DH1024_KEY_LEN DIGEST_LEN) (\<lambda>kh.
       if take DIGEST_LEN key_material \<noteq> kh then Fail
       else Done (take key_out_len (drop DIGEST_LEN key_material)))))"

section \<open>Decryption undoes encryption\<close>

lemma of_option_Done [simp]: "(of_option x = Done y) = (x = Some y)"
  by (cases x) auto

lemma hybrid_decrypt_encrypt:
  assumes ok: "crypto_ok C" "rsa_dh_ok T" "rsa_pair T pub priv" and key: "length key = CIPHER_KEY_LEN"
    and enc: "crypto_pk_obsolete_public_hybrid_encrypt C T pub tolen src force key seed = Done e"
    and room: "length src \<le> tolen'" "pk_keysize T pub \<le> tolen'"
      "length src + 2 * pk_keysize T pub < INT_MAX"
  shows "crypto_pk_obsolete_private_hybrid_decrypt C T priv tolen' e = Done src"
proof -
  note L = crypto_okD [OF ok(1)]
  let ?n = "pk_keysize T pub"
  have T: "length x = ?n" "rsa_private_decrypt T priv x = Some m" if "rsa_public_encrypt T pub seed m = Some x" for m x
    using that ok(2,3) unfolding rsa_dh_ok_def rsa_pair_def by blast+
  have P: "pk_is_private T priv" "pk_keysize T priv = ?n" using ok(3) by (auto simp: rsa_pair_def)
  have ceil: "m < SIZE_T_CEILING" if "m < INT_MAX" for m using that by (simp add: tap_lens)
  show ?thesis
  proof (cases "\<not> force \<and> length src + PKCS1_OAEP_PADDING_OVERHEAD \<le> ?n")
    case True
    with enc have "rsa_public_encrypt T pub seed src = Some e"
      by (auto simp: crypto_pk_obsolete_public_hybrid_encrypt_def crypto_pk_public_encrypt_def Let_def split: if_splits)
    from T [OF this] P room show ?thesis
      by (simp add: crypto_pk_obsolete_private_hybrid_decrypt_def crypto_pk_private_decrypt_def ceil)
  next
    case False
    define k where "k = ?n - 42 - 16"
    have K: "pk_keysize T pub - PKCS1_OAEP_PADDING_OVERHEAD - CIPHER_KEY_LEN = k" by (simp add: k_def tap_lens)
    from enc False obtain enc1 where
      r: "rsa_public_encrypt T pub seed (key @ take k src) = Some enc1" and big: "58 \<le> ?n"
      and k: "k \<le> length src" "k \<noteq> length src"
      and e: "e = enc1 @ aes_ctr C key (drop k src)" and max: "?n + (length src - k) < INT_MAX"
      unfolding crypto_pk_obsolete_public_hybrid_encrypt_def crypto_pk_public_encrypt_def Let_def K
      by (auto simp: outcome_elims mem_get_def crypto_cipher_encrypt_def CIPHER_KEY_LEN_def
          PKCS1_OAEP_PADDING_OVERHEAD_def split: if_splits)
    have len: "length enc1 = ?n" "length e = ?n + (length src - k)" "\<not> length e \<le> ?n" "length e < INT_MAX"
      using T(1) [OF r] e k L max by auto
    have d: "rsa_private_decrypt T priv enc1 = Some (key @ take k src)" by (rule T(2) [OF r])
    show ?thesis
      using P len d k room key L(6) [of key "drop k src"] big ceil [of "length e"] ceil [of "length src - k"] max
      by (simp add: crypto_pk_obsolete_private_hybrid_decrypt_def crypto_pk_private_decrypt_def Let_def e L
          crypto_cipher_decrypt_def min_def)
  qed
qed

lemma hybrid_decrypt_rejects:
  assumes T: "rsa_dh_ok T" "rsa_rejects T pub cur"
    and enc: "crypto_pk_obsolete_public_hybrid_encrypt C T pub tolen src True key seed = Done e"
    and room: "pk_keysize T pub \<le> tolen'" and e: "length e < INT_MAX"
  shows "crypto_pk_obsolete_private_hybrid_decrypt C T cur tolen' e = Fail"
proof -
  from enc obtain m enc1 rest where r: "rsa_public_encrypt T pub seed m = Some enc1" "e = enc1 @ rest"
    by (auto simp: crypto_pk_obsolete_public_hybrid_encrypt_def crypto_pk_public_encrypt_def Let_def
        outcome_elims split: if_splits)
  have d: "rsa_private_decrypt T cur enc1 = None" "length enc1 = pk_keysize T pub" "pk_keysize T cur = pk_keysize T pub"
    using T r(1) unfolding rsa_dh_ok_def rsa_rejects_def by blast+
  have "length enc1 + length rest < SIZE_T_CEILING" using e r(2) by (simp add: tap_lens)
  with d r(2) room e show ?thesis
    by (cases "rest = []")
       (simp_all add: crypto_pk_obsolete_private_hybrid_decrypt_def crypto_pk_private_decrypt_def Let_def)
qed

section \<open>Both sides derive the same keys\<close>

text \<open>A relay that holds the onion key, as its current or as its previous one.\<close>

definition tap_relay :: "rsa_dh \<Rightarrow> handle option \<Rightarrow> handle option \<Rightarrow> handle \<Rightarrow> bool" where
  "tap_relay T private_key prev_private_key pub \<longleftrightarrow>
     (\<exists>priv. rsa_pair T pub priv \<and>
       (private_key = Some priv \<or>
        (\<exists>cur. private_key = Some cur \<and> rsa_rejects T pub cur \<and> prev_private_key = Some priv)))"

lemma length_dh_secret:
  "crypto_ok C \<Longrightarrow> crypto_dh_compute_secret C T dh p n = Done k \<Longrightarrow> length k = n"
  using length_tap_expand
  by (auto simp: crypto_dh_compute_secret_def crypto_expand_key_material_TAP_def outcome_elims split: if_splits)

lemma tap_skin_length:
  assumes "crypto_ok C" "rsa_dh_ok T" "dh_get_public T dh = Some challenge" "pk_keysize T pub = 128"
    and "crypto_pk_obsolete_public_hybrid_encrypt C T pub TAP_CHALLENGE challenge True key seed = Done e"
  shows "length e = TAP_CHALLENGE"
proof -
  note L = crypto_okD [OF assms(1)]
  have c: "length challenge = 128" using assms(2,3) by (auto simp: rsa_dh_ok_def DH1024_KEY_LEN_def)
  from assms(5) c show ?thesis
    by (auto simp: crypto_pk_obsolete_public_hybrid_encrypt_def Let_def outcome_elims assms(4)
        crypto_cipher_encrypt_def L tap_lens mem_get_def split: if_splits)
qed

lemma tap_relay_reads_challenge:
  assumes ok: "crypto_ok C" "rsa_dh_ok T" and rel: "tap_relay T private_key prev pub" and key: "length key = CIPHER_KEY_LEN"
    and create: "onion_skin_TAP_create C T pub dh key seed = Done (st, skin)"
  shows "st = dh" "length skin = TAP_CHALLENGE"
    and "\<exists>c. dh_get_public T dh = Some c \<and>
      tap_decrypt_loop C T [private_key, prev] skin Fail = Done c"
proof -
  from create obtain c e where c: "dh_get_public T dh = Some c" and sz: "pk_keysize T pub = 128" and st: "st = dh"
    and e: "crypto_pk_obsolete_public_hybrid_encrypt C T pub TAP_CHALLENGE c True key seed = Done e"
    and sk: "skin = e @ replicate (TAP_CHALLENGE - length e) 0"
    by (auto simp: onion_skin_TAP_create_def outcome_elims split: if_splits)
  have le: "length e = TAP_CHALLENGE" by (rule tap_skin_length [OF ok c sz e])
  have lc: "length c = 128" using ok(2) c by (auto simp: rsa_dh_ok_def DH1024_KEY_LEN_def)
  show "st = dh" "length skin = TAP_CHALLENGE" using st sk le by simp_all
  from rel obtain priv where pr: "rsa_pair T pub priv"
    and which: "private_key = Some priv \<or>
        (\<exists>cur. private_key = Some cur \<and> rsa_rejects T pub cur \<and> prev = Some priv)"
    by (auto simp: tap_relay_def)
  have dec: "crypto_pk_obsolete_private_hybrid_decrypt C T priv TAP_CHALLENGE skin = Done c"
    using hybrid_decrypt_encrypt [OF ok pr key e, of TAP_CHALLENGE] sk le lc sz by (simp add: tap_lens)
  have "tap_decrypt_loop C T [private_key, prev] skin Fail = Done c"
    using which
  proof (elim disjE exE conjE)
    assume "private_key = Some priv"
    with dec lc show ?thesis by simp
  next
    fix cur assume cur: "private_key = Some cur" "rsa_rejects T pub cur" "prev = Some priv"
    have "crypto_pk_obsolete_private_hybrid_decrypt C T cur TAP_CHALLENGE skin = Fail"
      using hybrid_decrypt_rejects [OF ok(2) cur(2) e, of TAP_CHALLENGE] sk le sz by (simp add: tap_lens)
    with dec lc cur show ?thesis by simp
  qed
  with c show "\<exists>c. dh_get_public T dh = Some c \<and> tap_decrypt_loop C T [private_key, prev] skin Fail = Done c"
    by blast
qed

lemma tap_agree:
  assumes ok: "crypto_ok C" "rsa_dh_ok T" and rel: "tap_relay T private_key prev pub" and key: "length key = CIPHER_KEY_LEN"
    and create: "onion_skin_TAP_create C T pub dh key seed = Done (st, skin)"
    and serve: "onion_skin_TAP_server_handshake C T skin private_key prev dh' n = Done (reply, keys)"
  shows "onion_skin_TAP_client_handshake C T st reply n = Done keys"
proof -
  note r = tap_relay_reads_challenge [OF ok rel key create]
  from r(3) obtain c where c: "dh_get_public T dh = Some c"
    "tap_decrypt_loop C T [private_key, prev] skin Fail = Done c" by blast
  have "mem_get skin 0 TAP_CHALLENGE = Done skin" using r(2) by (simp add: mem_get_def)
  with serve c(2) obtain q km where q: "dh_get_public T dh' = Some q"
    and km: "crypto_dh_compute_secret C T dh' c (DIGEST_LEN + n) = Done km"
    and rep: "reply = q @ take DIGEST_LEN km" "keys = take n (drop DIGEST_LEN km)"
    by (auto simp: onion_skin_TAP_server_handshake_def outcome_elims split: if_splits)
  have "dh_handshake T dh q = dh_handshake T dh' c" "length q = DH1024_KEY_LEN"
    using ok(2) c(1) q unfolding rsa_dh_ok_def by blast+
  moreover have "length km = DIGEST_LEN + n" by (rule length_dh_secret [OF ok(1) km])
  ultimately have "mem_get reply 0 DH1024_KEY_LEN = Done q" "mem_get reply DH1024_KEY_LEN DIGEST_LEN = Done (take DIGEST_LEN km)"
    "crypto_dh_compute_secret C T dh q (DIGEST_LEN + n) = Done km"
    using rep km by (simp_all add: mem_get_def crypto_dh_compute_secret_def split: if_splits)
  with rep r(1) show ?thesis by (simp add: onion_skin_TAP_client_handshake_def)
qed

interpretation tap: circuit_handshake
  "\<lambda>(C, T, pub, dh, key, seed). onion_skin_TAP_create C T pub dh key seed"
  "\<lambda>(C, T, private_key, prev, dh', n) skin. onion_skin_TAP_server_handshake C T skin private_key prev dh' n"
  "\<lambda>(C, T, private_key, prev, dh', n) st reply. onion_skin_TAP_client_handshake C T st reply n"
  "\<lambda>(C, T, pub, dh, key, seed) (C', T', private_key, prev, dh', n). C' = C \<and> T' = T \<and> crypto_ok C \<and>
     rsa_dh_ok T \<and> length key = CIPHER_KEY_LEN \<and> tap_relay T private_key prev pub"
  by unfold_locales (auto intro: tap_agree)

section \<open>The properties\<close>

definition sample_rsa :: rsa_dh where
  "sample_rsa =
     \<lparr>pk_keysize = (\<lambda>k. 128), pk_is_private = (\<lambda>k. True),
      rsa_public_encrypt = (\<lambda>k seed m. if length m = 86 then Some (m @ replicate 42 0) else None),
      rsa_private_decrypt = (\<lambda>k e. Some (take 86 e)),
      dh_get_public = (\<lambda>a. Some (replicate 128 1)), dh_handshake = (\<lambda>a p. Some [1])\<rparr>"

lemma sample_rsa_ok: "rsa_dh_ok sample_rsa" "rsa_pair sample_rsa pub priv"
  by (auto simp: rsa_dh_ok_def rsa_pair_def sample_rsa_def DH1024_KEY_LEN_def)

text \<open>
  The holder of the private key reads back what the hybrid encryption produced, in both of
  its forms: short data inside the RSA block alone, longer data split between the block, behind
  the fresh symmetric key, and the counter-mode rest.
\<close>

theorem hybrid_encryption_roundtrip:
  assumes "crypto_ok C" "rsa_dh_ok T" "rsa_pair T pub priv" "length key = CIPHER_KEY_LEN"
    and "crypto_pk_obsolete_public_hybrid_encrypt C T pub tolen src force key seed = Done e"
    and "length src \<le> tolen'" "pk_keysize T pub \<le> tolen'" "length src + 2 * pk_keysize T pub < INT_MAX"
  shows "crypto_pk_obsolete_private_hybrid_decrypt C T priv tolen' e = Done src"
  by (rule hybrid_decrypt_encrypt [OF assms])

lemma hybrid_encryption_witness:
  "obind (crypto_pk_obsolete_public_hybrid_encrypt sample_crypto sample_rsa [1] 186 (replicate 128 9) True
      (replicate 16 4) []) (crypto_pk_obsolete_private_hybrid_decrypt sample_crypto sample_rsa [2] 186) =
   Done (replicate 128 9)"
proof -
  obtain e where e: "crypto_pk_obsolete_public_hybrid_encrypt sample_crypto sample_rsa [1] 186 (replicate 128 9) True
      (replicate 16 4) [] = Done e"
    by (simp add: crypto_pk_obsolete_public_hybrid_encrypt_def crypto_pk_public_encrypt_def Let_def sample_rsa_def
        mem_get_def crypto_cipher_encrypt_def tap_lens)
  have "crypto_pk_obsolete_private_hybrid_decrypt sample_crypto sample_rsa [2] 186 e = Done (replicate 128 9)"
    by (rule hybrid_encryption_roundtrip [OF sample_crypto_ok sample_rsa_ok _ e])
       (simp_all add: sample_rsa_def tap_lens)
  with e show ?thesis by simp
qed

end
