(* ===== verification/OnionSkin.thy ===== *)
theory OnionSkin
  imports OnionCell Extension Ntor3 Tap
begin

text \<open>
  The handshake a hop is created with: the dispatch over handshake types of
  \<open>src/core/crypto/onion_crypto.c\<close>, the choice of the handshake and the two functions that
  send an onion skin of \<open>src/core/or/circuitbuild.c\<close>, and the parts of
  \<open>src/core/or/extendinfo.c\<close> they use. Keys that are drawn at random are arguments, and the
  cell handed to the channel is the result.
\<close>

section \<open>Hops\<close>

record extend_info =
  identity_digest :: "byte list"
  ed_identity :: "byte list"
  orports :: "tor_addr_port list"
  onion_key :: "handle option"
  curve25519_onion_key :: "byte list"
  exit_supports_congestion_control :: bool

definition EXTEND_INFO_MAX_ADDRS :: nat where "EXTEND_INFO_MAX_ADDRS = 2"

definition extend_info_supports_tap :: "extend_info \<Rightarrow> bool" where
  "extend_info_supports_tap ei = (onion_key ei \<noteq> None)"

definition extend_info_supports_ntor :: "extend_info \<Rightarrow> bool" where
  "extend_info_supports_ntor ei = (\<not> fast_mem_is_zero (curve25519_onion_key ei))"

definition extend_info_supports_ntor_v3 :: "extend_info \<Rightarrow> bool" where
  "extend_info_supports_ntor_v3 ei =
     (extend_info_supports_ntor ei \<and> exit_supports_congestion_control ei)"

text \<open>The family is given by its test; the loops run over the array of ports.\<close>

fun get_orport_loop :: "tor_addr_port list \<Rightarrow> (tor_addr \<Rightarrow> bool) \<Rightarrow> tor_addr_port option" where
  "get_orport_loop [] family = None"
| "get_orport_loop (ap # aps) family =
     (if addr ap = AF_UNSPEC then get_orport_loop aps family
      else if family (addr ap) then Some ap
      else get_orport_loop aps family)"

definition extend_info_get_orport :: "extend_info \<Rightarrow> (tor_addr \<Rightarrow> bool) \<Rightarrow> tor_addr_port option" where
  "extend_info_get_orport ei family = get_orport_loop (orports ei) family"

fun add_orport_loop :: "tor_addr_port list \<Rightarrow> tor_addr_port \<Rightarrow> tor_addr_port list outcome" where
  "add_orport_loop [] ap = Fail"
| "add_orport_loop (e # es) ap =
     (if addr e = AF_UNSPEC then Done (ap # es)
      else obind (add_orport_loop es ap) (\<lambda>es'. Done (e # es')))"

definition extend_info_add_orport :: "extend_info \<Rightarrow> tor_addr_port \<Rightarrow> extend_info outcome" where
  "extend_info_add_orport ei ap =
     obind (add_orport_loop (orports ei) ap) (\<lambda>aps. Done (ei\<lparr>orports := aps\<rparr>))"

definition extend_info_has_orport :: "extend_info \<Rightarrow> tor_addr_port \<Rightarrow> bool" where
  "extend_info_has_orport ei ap = list_ex (\<lambda>e. addr e = addr ap \<and> port e = port ap) (orports ei)"

section \<open>Choosing a handshake\<close>

text \<open>\<open>cc_on\<close> is \<open>congestion_control_enabled()\<close>.\<close>

definition circuit_pick_create_handshake :: "bool \<Rightarrow> extend_info \<Rightarrow> byte \<times> u16" where
  "circuit_pick_create_handshake cc_on ei =
     (if extend_info_supports_ntor ei
      then (CELL_CREATE2,
            if exit_supports_congestion_control ei \<and> cc_on then ONION_HANDSHAKE_TYPE_NTOR_V3
            else ONION_HANDSHAKE_TYPE_NTOR)
      else (CELL_CREATE, ONION_HANDSHAKE_TYPE_TAP))"

text \<open>The command, the cell type and the handshake type.\<close>

definition circuit_pick_extend_handshake :: "bool \<Rightarrow> extend_info \<Rightarrow> byte \<times> byte \<times> u16" where
  "circuit_pick_extend_handshake cc_on ei =
     (case circuit_pick_create_handshake cc_on ei of (t, handshake_type) \<Rightarrow>
        if handshake_type \<noteq> ONION_HANDSHAKE_TYPE_TAP
        then (RELAY_COMMAND_EXTEND2, CELL_CREATE2, handshake_type)
        else (RELAY_COMMAND_EXTEND, CELL_CREATE, handshake_type))"

definition client_circ_negotiation_message :: "bool \<Rightarrow> extend_info \<Rightarrow> byte list outcome" where
  "client_circ_negotiation_message cc_on ei =
     (if \<not> exit_supports_congestion_control ei then Fail
      else congestion_control_build_ext_request cc_on)"

section \<open>The client's first step\<close>

datatype handshake_u =
    U_tap handle
  | U_fast "byte list"
  | U_ntor ntor_handshake_state
  | U_ntor3 ntor3_handshake_state

record onion_handshake_state =
  hs_tag :: u16
  hs_u :: handshake_u

text \<open>What the process computes with: primitives, and its view of congestion control.\<close>

record env =
  env_C :: crypto
  env_T :: rsa_dh
  cc_on :: bool
  our_inc :: byte

text \<open>The random bytes of a step, by the handshake that draws them.\<close>

record draw =
  r_fast :: "byte list"
  r_x :: "byte list"
  r_dh :: handle
  r_key :: "byte list"
  r_seed :: "byte list"

definition NTOR3_CIRC_VERIFICATION :: "byte list" where
  "NTOR3_CIRC_VERIFICATION = bytes_of ''circuit extend''"

text \<open>The message of an ntor v3 handshake, with the payment hash behind the negotiation.\<close>

definition ntor3_client_message :: "byte list \<Rightarrow> string option \<Rightarrow> byte list" where
  "ntor3_client_message msg eltor_payhash =
     (case eltor_payhash of
        Some h \<Rightarrow> if length h > 0 then msg @ bytes_of h else msg
      | None \<Rightarrow> msg)"

definition onion_skin_create ::
  "env \<Rightarrow> draw \<Rightarrow> u16 \<Rightarrow> extend_info \<Rightarrow> nat \<Rightarrow> string option \<Rightarrow>
     (onion_handshake_state \<times> byte list) outcome" where
  "onion_skin_create E R type node onion_skin_out_maxlen eltor_payhash =
     (if type = ONION_HANDSHAKE_TYPE_TAP then
        if onion_skin_out_maxlen < TAP_ONIONSKIN_CHALLENGE_LEN then Fail
        else obind (of_option (onion_key node)) (\<lambda>key.
             obind (onion_skin_TAP_create (env_C E) (env_T E) key (r_dh R) (r_key R) (r_seed R)) (\<lambda>(st, skin).
               Done (\<lparr>hs_tag = type, hs_u = U_tap st\<rparr>, skin)))
      else if type = ONION_HANDSHAKE_TYPE_FAST then
        (case fast_onionskin_create (r_fast R) of (st, skin) \<Rightarrow>
           if length skin > onion_skin_out_maxlen then Stuck
           else Done (\<lparr>hs_tag = type, hs_u = U_fast st\<rparr>, skin))
      else if type = ONION_HANDSHAKE_TYPE_NTOR then
        if onion_skin_out_maxlen < NTOR_ONIONSKIN_LEN then Fail
        else if \<not> extend_info_supports_ntor node then Fail
        else (case onion_skin_ntor_create (env_C E) (identity_digest node) (curve25519_onion_key node) (r_x R) of
                (st, skin) \<Rightarrow> Done (\<lparr>hs_tag = type, hs_u = U_ntor st\<rparr>, skin))
      else if type = ONION_HANDSHAKE_TYPE_NTOR_V3 then
        if \<not> extend_info_supports_ntor_v3 node then Fail
        else if safe_mem_is_zero (ed_identity node) then Fail
        else obind (client_circ_negotiation_message (cc_on E) node) (\<lambda>msg.
             obind (onion_skin_ntor3_create (env_C E) (r_x R) (ed_identity node) (curve25519_onion_key node)
                      NTOR3_CIRC_VERIFICATION (ntor3_client_message msg eltor_payhash)) (\<lambda>(st, onion_skin).
               if length onion_skin > onion_skin_out_maxlen then Fail
               else Done (\<lparr>hs_tag = type, hs_u = U_ntor3 st\<rparr>, onion_skin)))
      else Fail)"

section \<open>The relay's step\<close>

record server_onion_keys =
  my_identity :: "byte list"
  my_ed_identity :: "byte list"
  relay_onion_key :: "handle option"
  last_onion_key :: "handle option"
  curve25519_key_map :: "(byte list \<times> keypair) list"
  junk_keypair :: "keypair option"

definition MAX_KEYS_TMP_LEN :: nat where "MAX_KEYS_TMP_LEN = 128"

definition zero_params :: circuit_params where
  "zero_params = \<lparr>cc_enabled = False, sendme_inc_cells = 0\<rparr>"

text \<open>What a successful step leaves: the reply, the keys, the rendezvous nonce, the parameters.\<close>

record served =
  sv_reply :: "byte list"
  sv_keys :: "byte list"
  sv_nonce :: "byte list"
  sv_params :: circuit_params

text \<open>
  The first component is the payment hash reported to the controller while the skin is
  opened, which happens before the negotiation can fail.
\<close>

definition ntor_v3_respond ::
  "env \<Rightarrow> draw \<Rightarrow> circuit_params \<Rightarrow> nat \<Rightarrow> nat \<Rightarrow> byte list \<Rightarrow> ntor3_server_handshake_state \<Rightarrow> served outcome" where
  "ntor_v3_respond E R our_ns_params reply_out_maxlen keys_out_len client_msg state =
     obind (negotiate_v3_ntor_server_circ_params client_msg our_ns_params zero_params) (\<lambda>(params, reply_msg).
     obind (onion_skin_ntor3_server_handshake_part2 (env_C E) (r_x R) state NTOR3_CIRC_VERIFICATION
              reply_msg (keys_out_len + DIGEST_LEN)) (\<lambda>(server_handshake, keys_tmp).
       if length server_handshake > reply_out_maxlen then Fail
       else Done \<lparr>sv_reply = server_handshake, sv_keys = take keys_out_len keys_tmp,
                  sv_nonce = take DIGEST_LEN (drop keys_out_len keys_tmp), sv_params = params\<rparr>))"

definition onion_skin_server_handshake ::
  "env \<Rightarrow> draw \<Rightarrow> u16 \<Rightarrow> byte list \<Rightarrow> server_onion_keys \<Rightarrow> circuit_params \<Rightarrow> nat \<Rightarrow> nat \<Rightarrow>
     string option \<times> served outcome" where
  "onion_skin_server_handshake E R type onion_skin keys our_ns_params reply_out_maxlen keys_out_len =
     (if type = ONION_HANDSHAKE_TYPE_TAP then (None,
        if reply_out_maxlen < TAP_ONIONSKIN_REPLY_LEN then Fail
        else if length onion_skin \<noteq> TAP_ONIONSKIN_CHALLENGE_LEN then Fail
        else obind (onion_skin_TAP_server_handshake (env_C E) (env_T E) onion_skin (relay_onion_key keys)
                      (last_onion_key keys) (r_dh R) keys_out_len) (\<lambda>(reply, k).
               Done \<lparr>sv_reply = reply, sv_keys = k,
                     sv_nonce = take DIGEST_LEN (drop DH1024_KEY_LEN reply), sv_params = zero_params\<rparr>))
      else if type = ONION_HANDSHAKE_TYPE_FAST then (None,
        if reply_out_maxlen < CREATED_FAST_LEN then Fail
        else if length onion_skin \<noteq> CREATE_FAST_LEN then Fail
        else obind (fast_server_handshake (env_C E) onion_skin (r_fast R) keys_out_len) (\<lambda>(reply, k).
               Done \<lparr>sv_reply = reply, sv_keys = k,
                     sv_nonce = take DIGEST_LEN (drop DIGEST_LEN reply), sv_params = zero_params\<rparr>))
      else if type = ONION_HANDSHAKE_TYPE_NTOR then (None,
        if reply_out_maxlen < NTOR_REPLY_LEN then Fail
        else if length onion_skin < NTOR_ONIONSKIN_LEN then Fail
        else if \<not> keys_out_len + DIGEST_LEN \<le> MAX_KEYS_TMP_LEN then Stuck
        else obind (onion_skin_ntor_server_handshake (env_C E) onion_skin (curve25519_key_map keys)
                      (junk_keypair keys) (my_identity keys) (r_x R) (keys_out_len + DIGEST_LEN)) (\<lambda>(reply, keys_tmp).
               Done \<lparr>sv_reply = reply, sv_keys = take keys_out_len keys_tmp,
                     sv_nonce = take DIGEST_LEN (drop keys_out_len keys_tmp), sv_params = zero_params\<rparr>))
      else if type = ONION_HANDSHAKE_TYPE_NTOR_V3 then
        if \<not> keys_out_len + DIGEST_LEN \<le> MAX_KEYS_TMP_LEN then (None, Stuck)
        else (case onion_skin_ntor3_server_handshake_part1 (env_C E) (curve25519_key_map keys) (junk_keypair keys)
                     (my_ed_identity keys) onion_skin NTOR3_CIRC_VERIFICATION of
                Stuck \<Rightarrow> (None, Stuck)
              | Fail \<Rightarrow> (None, Fail)
              | Done (client_msg, state, payhash) \<Rightarrow>
                  (payhash, ntor_v3_respond E R our_ns_params reply_out_maxlen keys_out_len client_msg state))
      else (None, Fail))"

section \<open>The client's last step\<close>

text \<open>The keys, the rendezvous nonce and the parameters; the state's union is read by its tag.\<close>

definition onion_skin_client_handshake ::
  "env \<Rightarrow> u16 \<Rightarrow> onion_handshake_state \<Rightarrow> byte list \<Rightarrow> nat \<Rightarrow>
     (byte list \<times> byte list \<times> circuit_params) outcome" where
  "onion_skin_client_handshake E type st rep keys_out_len =
     (if hs_tag st \<noteq> type then Fail
      else if type = ONION_HANDSHAKE_TYPE_TAP then
        if length rep \<noteq> TAP_ONIONSKIN_REPLY_LEN then Fail
        else (case hs_u st of
                U_tap s \<Rightarrow>
                  obind (onion_skin_TAP_client_handshake (env_C E) (env_T E) s rep keys_out_len) (\<lambda>k.
                    Done (k, take DIGEST_LEN (drop DH1024_KEY_LEN rep), zero_params))
              | _ \<Rightarrow> Stuck)
      else if type = ONION_HANDSHAKE_TYPE_FAST then
        if length rep \<noteq> CREATED_FAST_LEN then Fail
        else (case hs_u st of
                U_fast s \<Rightarrow>
                  obind (fast_client_handshake (env_C E) s rep keys_out_len) (\<lambda>k.
                    Done (k, take DIGEST_LEN (drop DIGEST_LEN rep), zero_params))
              | _ \<Rightarrow> Stuck)
      else if type = ONION_HANDSHAKE_TYPE_NTOR then
        if length rep < NTOR_REPLY_LEN then Fail
        else (case hs_u st of
                U_ntor s \<Rightarrow>
                  obind (onion_skin_ntor_client_handshake (env_C E) s rep (keys_out_len + DIGEST_LEN)) (\<lambda>k.
                    Done (take keys_out_len k, take DIGEST_LEN (drop keys_out_len k), zero_params))
              | _ \<Rightarrow> Stuck)
      else if type = ONION_HANDSHAKE_TYPE_NTOR_V3 then
        (case hs_u st of
           U_ntor3 s \<Rightarrow>
             obind (onion_ntor3_client_handshake (env_C E) s rep NTOR3_CIRC_VERIFICATION
                      (keys_out_len + DIGEST_LEN)) (\<lambda>(k, server_msg).
             obind (negotiate_v3_ntor_client_circ_params (cc_on E) (our_inc E) server_msg zero_params) (\<lambda>params.
               Done (take keys_out_len k, take DIGEST_LEN (drop keys_out_len k), params)))
         | _ \<Rightarrow> Stuck)
      else Fail)"

section \<open>Sending an onion skin\<close>

definition CIRCUIT_PURPOSE_S_CONNECT_REND :: nat where "CIRCUIT_PURPOSE_S_CONNECT_REND = 18"
definition CIRCUIT_PURPOSE_C_INTRODUCING :: nat where "CIRCUIT_PURPOSE_C_INTRODUCING = 6"

definition circuit_purpose_can_use_tap_impl :: "nat \<Rightarrow> bool" where
  "circuit_purpose_can_use_tap_impl p =
     (p = CIRCUIT_PURPOSE_S_CONNECT_REND \<or> p = CIRCUIT_PURPOSE_C_INTRODUCING)"

text \<open>\<open>info\<close> gives the \<open>extend_info\<close> of each hop of a circuit's path.\<close>

definition circuit_can_use_tap :: "(nat \<Rightarrow> extend_info) \<Rightarrow> origin_circuit \<Rightarrow> bool outcome" where
  "circuit_can_use_tap info circ =
     (if cpath circ = [] then Stuck
      else Done (circuit_purpose_can_use_tap_impl (purpose circ) \<and>
                 extend_info_supports_tap (info (hd (cpath circ)))))"

definition circuit_has_usable_onion_key :: "(nat \<Rightarrow> extend_info) \<Rightarrow> origin_circuit \<Rightarrow> bool outcome" where
  "circuit_has_usable_onion_key info circ =
     (if cpath circ = [] then Stuck
      else if extend_info_supports_ntor (info (hd (cpath circ))) then Done True
      else circuit_can_use_tap info circ)"

definition should_use_create_fast_for_circuit :: "(nat \<Rightarrow> extend_info) \<Rightarrow> origin_circuit \<Rightarrow> bool outcome" where
  "should_use_create_fast_for_circuit info circ =
     obind (circuit_has_usable_onion_key info circ) (\<lambda>b. Done (\<not> b))"

text \<open>
  \<open>circid\<close> is what \<open>get_unique_circ_id_by_chan\<close> returns, \<open>queue_ok\<close> whether
  \<open>append_cell_to_circuit_queue\<close> succeeds. The result is the cell queued.
\<close>

definition circuit_deliver_create_cell :: "nat \<Rightarrow> bool \<Rightarrow> create_cell \<Rightarrow> bool \<Rightarrow> (nat \<times> cell) outcome" where
  "circuit_deliver_create_cell circid queue_ok create_cell relayed =
     (if \<not> (cc_cell_type create_cell = CELL_CREATE \<or> cc_cell_type create_cell = CELL_CREATE_FAST \<or>
            cc_cell_type create_cell = CELL_CREATE2) then Stuck
      else if circid = 0 then Fail
      else obind (if relayed then create_cell_format_relayed create_cell else create_cell_format create_cell)
             (\<lambda>cell. if \<not> queue_ok then Fail else Done (circid, cell)))"

text \<open>The buffer of an onion skin that is filled from its start; it was zeroed before.\<close>

definition fill_skin :: "byte list \<Rightarrow> byte list" where
  "fill_skin skin = skin @ zeros (ONIONSKIN_SIZE - length skin)"

definition circuit_send_first_onion_skin ::
  "env \<Rightarrow> draw \<Rightarrow> (nat \<Rightarrow> extend_info) \<Rightarrow> nat \<Rightarrow> bool \<Rightarrow> origin_circuit \<Rightarrow>
     (onion_handshake_state \<times> nat \<times> cell) outcome" where
  "circuit_send_first_onion_skin E R info circid queue_ok circ =
     obind (should_use_create_fast_for_circuit info circ) (\<lambda>fast.
     let ei = info (hd (cpath circ))
     in case (if \<not> fast then circuit_pick_create_handshake (cc_on E) ei
              else (CELL_CREATE_FAST, ONION_HANDSHAKE_TYPE_FAST)) of (cell_type, handshake_type) \<Rightarrow>
        obind (payment_util_get_first_hop_payhash (Some circ)) (\<lambda>tmp.
        let hop_payhash_buf = (case tmp of Some t \<Rightarrow> strlcpy t PAYMENT_PAYHASH_SIZE | None \<Rightarrow> []);
            hop_payhash = (if hop_payhash_buf \<noteq> [] then Some hop_payhash_buf else None)
        in obind (onion_skin_create E R handshake_type ei ONIONSKIN_SIZE hop_payhash) (\<lambda>(st, skin).
           obind (circuit_deliver_create_cell circid queue_ok
                    \<lparr>cc_cell_type = cell_type, cc_handshake_type = handshake_type,
                     cc_handshake_len = of_nat (length skin), onionskin = fill_skin skin\<rparr> False) (\<lambda>(i, cell).
             Done (st, i, cell)))))"

text \<open>The extend cell with the addresses of the hop; without any, the code gives up.\<close>

definition extend_cell_addresses ::
  "extend_info \<Rightarrow> bool \<Rightarrow> (tor_addr_port \<times> tor_addr_port) outcome" where
  "extend_cell_addresses ei include_ipv6 =
     (let orport4 = extend_info_get_orport ei is_inet;
          orport6 = extend_info_get_orport ei is_inet6;
          v4 = (case orport4 of Some ap \<Rightarrow> ap | None \<Rightarrow> unspec_ap);
          v6 = (if include_ipv6 then case orport6 of Some ap \<Rightarrow> ap | None \<Rightarrow> unspec_ap else unspec_ap)
      in if orport4 = None \<and> (orport6 = None \<or> \<not> include_ipv6) then Fail else Done (v4, v6))"

text \<open>
  \<open>include_ipv6\<close> is \<open>server_mode(get_options())\<close>. The result is the state of the
  handshake, the extend cell, and the relay command with its payload; sending it to the hop
  before is left out.
\<close>

definition circuit_send_intermediate_onion_skin ::
  "env \<Rightarrow> draw \<Rightarrow> (nat \<Rightarrow> extend_info) \<Rightarrow> bool \<Rightarrow> bool \<Rightarrow> origin_circuit \<Rightarrow> nat \<Rightarrow>
     (onion_handshake_state \<times> extend_cell \<times> byte \<times> nat \<times> byte list) outcome" where
  "circuit_send_intermediate_onion_skin E R info include_ipv6 include_ed circ hop =
     (let ei = info hop
      in case circuit_pick_extend_handshake (cc_on E) ei of (cell_type, create_cell_type, handshake_type) \<Rightarrow>
         obind (extend_cell_addresses ei include_ipv6) (\<lambda>(v4, v6).
         let hop_num = hop_num_loop (cpath circ) hop 0;
             payment = relay_payments_find_by_hop_num (circ_relay_payments circ) (int hop_num);
             hop_payhash = (case payment of Some it \<Rightarrow> wire_format it | None \<Rightarrow> None)
         in obind (onion_skin_create E R handshake_type ei ONIONSKIN_SIZE hop_payhash) (\<lambda>(st, skin).
            let ec = \<lparr>ec_cell_type = cell_type, orport_ipv4 = v4, orport_ipv6 = v6,
                      node_id = identity_digest ei, ed_pubkey = ed_identity ei,
                      ec_create_cell = \<lparr>cc_cell_type = create_cell_type, cc_handshake_type = handshake_type,
                        cc_handshake_len = of_nat (length skin), onionskin = fill_skin skin\<rparr>\<rparr>
            in obind (extend_cell_format include_ed ec hop_payhash) (\<lambda>(cmd, payload_len, p).
                 Done (st, ec, cmd, payload_len, p)))))"

section \<open>Both sides agree, whatever the type\<close>

text \<open>The relay is the one the client addressed: it has the keys the client's record names.\<close>

definition addressed :: "env \<Rightarrow> u16 \<Rightarrow> extend_info \<Rightarrow> server_onion_keys \<Rightarrow> bool" where
  "addressed E type node keys \<longleftrightarrow>
     (type = ONION_HANDSHAKE_TYPE_TAP \<longrightarrow>
        (\<exists>pub. onion_key node = Some pub \<and> tap_relay (env_T E) (relay_onion_key keys) (last_onion_key keys) pub)) \<and>
     (type = ONION_HANDSHAKE_TYPE_NTOR \<longrightarrow>
        identity_digest node = my_identity keys \<and> length (my_identity keys) = 20) \<and>
     (type = ONION_HANDSHAKE_TYPE_NTOR_V3 \<longrightarrow>
        ed_identity node = my_ed_identity keys \<and> length (my_ed_identity keys) = 32) \<and>
     (type = ONION_HANDSHAKE_TYPE_NTOR \<or> type = ONION_HANDSHAKE_TYPE_NTOR_V3 \<longrightarrow>
        (\<exists>b. ntor_relay (env_C E) (curve25519_key_map keys) (junk_keypair keys) (curve25519_onion_key node) b))"

definition env_ok :: "env \<Rightarrow> bool" where
  "env_ok E \<longleftrightarrow> crypto_ok (env_C E) \<and> rsa_dh_ok (env_T E)"

definition draw_ok :: "draw \<Rightarrow> bool" where
  "draw_ok R \<longleftrightarrow> length (r_fast R) = 20 \<and> length (r_key R) = 16"

lemma skin_agree_tap:
  assumes "env_ok E" "draw_ok R" "addressed E type node keys" "type = ONION_HANDSHAKE_TYPE_TAP"
    and create: "onion_skin_create E R type node maxlen payhash = Done (st, skin)"
    and serve: "onion_skin_server_handshake E R' type skin keys our rmax n = (ev, Done s)"
  shows "onion_skin_client_handshake E type st (sv_reply s) n = Done (sv_keys s, sv_nonce s, sv_params s)"
proof -
  from assms(3,4) obtain pub where pub: "onion_key node = Some pub"
    "tap_relay (env_T E) (relay_onion_key keys) (last_onion_key keys) pub" by (auto simp: addressed_def)
  from create assms(4) pub(1) obtain h where
    c: "onion_skin_TAP_create (env_C E) (env_T E) pub (r_dh R) (r_key R) (r_seed R) = Done (h, skin)"
    and st: "st = \<lparr>hs_tag = type, hs_u = U_tap h\<rparr>"
    by (auto simp: onion_skin_create_def outcome_elims split: if_splits)
  from serve assms(4) obtain rep k where
    sv: "onion_skin_TAP_server_handshake (env_C E) (env_T E) skin (relay_onion_key keys) (last_onion_key keys)
       (r_dh R') n = Done (rep, k)"
    and s: "s = \<lparr>sv_reply = rep, sv_keys = k, sv_nonce = take DIGEST_LEN (drop DH1024_KEY_LEN rep), sv_params = zero_params\<rparr>"
    by (auto simp: onion_skin_server_handshake_def outcome_elims split: if_splits)
  have key: "length (r_key R) = CIPHER_KEY_LEN" using assms(2) by (simp add: draw_ok_def CIPHER_KEY_LEN_def)
  have ok: "crypto_ok (env_C E)" "rsa_dh_ok (env_T E)" using assms(1) by (simp_all add: env_ok_def)
  have "onion_skin_TAP_client_handshake (env_C E) (env_T E) h rep n = Done k"
    by (rule tap.agree [where a = "(env_C E, env_T E, pub, r_dh R, r_key R, r_seed R)"
          and b = "(env_C E, env_T E, relay_onion_key keys, last_onion_key keys, r_dh R', n)"
          and skin = skin and st = h and reply = rep and k = k, simplified])
       (use ok key pub(2) c sv in auto)
  moreover have "length rep = TAP_ONIONSKIN_REPLY_LEN"
    using sv ok length_dh_secret [OF ok(1)]
    by (fastforce simp: onion_skin_TAP_server_handshake_def outcome_elims rsa_dh_ok_def tap_lens
        TAP_ONIONSKIN_REPLY_LEN_def split: if_splits)
  ultimately show ?thesis
    using assms(4) by (simp add: onion_skin_client_handshake_def st s)
qed

lemma skin_agree_fast:
  assumes "env_ok E" "draw_ok R" "draw_ok R'" "type = ONION_HANDSHAKE_TYPE_FAST"
    and create: "onion_skin_create E R type node maxlen payhash = Done (st, skin)"
    and serve: "onion_skin_server_handshake E R' type skin keys our rmax n = (ev, Done s)"
  shows "onion_skin_client_handshake E type st (sv_reply s) n = Done (sv_keys s, sv_nonce s, sv_params s)"
proof -
  from create assms(4) obtain h where
    c: "fast_onionskin_create (r_fast R) = (h, skin)" and st: "st = \<lparr>hs_tag = type, hs_u = U_fast h\<rparr>"
    by (auto simp: onion_skin_create_def split: if_splits prod.splits)
  from serve assms(4) obtain rep k where
    sv: "fast_server_handshake (env_C E) skin (r_fast R') n = Done (rep, k)"
    and s: "s = \<lparr>sv_reply = rep, sv_keys = k, sv_nonce = take DIGEST_LEN (drop DIGEST_LEN rep), sv_params = zero_params\<rparr>"
    by (auto simp: onion_skin_server_handshake_def outcome_elims split: if_splits)
  have ok: "crypto_ok (env_C E)" "length (r_fast R) = 20" "length (r_fast R') = 20"
    using assms(1-3) by (simp_all add: env_ok_def draw_ok_def)
  have "fast_client_handshake (env_C E) h rep n = Done k"
    by (rule fast.agree [where a = "r_fast R" and b = "(env_C E, r_fast R', n)"
          and skin = skin and st = h and reply = rep and k = k, simplified]) (use ok c sv in auto)
  moreover have "length rep = CREATED_FAST_LEN"
    using sv ok length_tap_expand [OF ok(1)]
    by (auto simp: fast_server_handshake_def outcome_elims crypto_expand_key_material_TAP_def DIGEST_LEN_def
        CREATED_FAST_LEN_def split: if_splits)
  ultimately show ?thesis
    using assms(4) by (simp add: onion_skin_client_handshake_def st s)
qed

lemma skin_agree_ntor:
  assumes "env_ok E" "addressed E type node keys" "type = ONION_HANDSHAKE_TYPE_NTOR"
    and create: "onion_skin_create E R type node maxlen payhash = Done (st, skin)"
    and serve: "onion_skin_server_handshake E R' type skin keys our rmax n = (ev, Done s)"
  shows "onion_skin_client_handshake E type st (sv_reply s) n = Done (sv_keys s, sv_nonce s, sv_params s)"
proof -
  from create assms(3) obtain h where
    c: "onion_skin_ntor_create (env_C E) (identity_digest node) (curve25519_onion_key node) (r_x R) = (h, skin)"
    and st: "st = \<lparr>hs_tag = type, hs_u = U_ntor h\<rparr>"
    by (auto simp: onion_skin_create_def split: if_splits prod.splits)
  from serve assms(3) obtain rep k where
    sv: "onion_skin_ntor_server_handshake (env_C E) skin (curve25519_key_map keys) (junk_keypair keys)
       (my_identity keys) (r_x R') (n + DIGEST_LEN) = Done (rep, k)"
    and s: "s = \<lparr>sv_reply = rep, sv_keys = take n k, sv_nonce = take DIGEST_LEN (drop n k), sv_params = zero_params\<rparr>"
    by (auto simp: onion_skin_server_handshake_def outcome_elims split: if_splits)
  have ok: "crypto_ok (env_C E)" using assms(1) by (simp add: env_ok_def)
  have "onion_skin_ntor_client_handshake (env_C E) h rep (n + DIGEST_LEN) = Done k"
    by (rule ntor.agree [where a = "(env_C E, identity_digest node, curve25519_onion_key node, r_x R)"
          and b = "(env_C E, curve25519_key_map keys, junk_keypair keys, my_identity keys, r_x R', n + DIGEST_LEN)"
          and skin = skin and st = h and reply = rep and k = k, simplified])
       (use ok c sv assms(2,3) in \<open>auto simp: addressed_def\<close>)
  moreover have "length rep = NTOR_REPLY_LEN"
    using sv crypto_okD [OF ok]
    by (auto simp: onion_skin_ntor_server_handshake_def outcome_elims Let_def NTOR_REPLY_LEN_def h_tweak_def
        split: if_splits option.splits)
  ultimately show ?thesis
    using assms(3) by (simp add: onion_skin_client_handshake_def st s)
qed

text \<open>An accepted ntor v3 skin, from both ends.\<close>

lemma create_v3_inv:
  assumes "onion_skin_create E R ONION_HANDSHAKE_TYPE_NTOR_V3 node maxlen payhash = Done (st, skin)"
  obtains req h where "congestion_control_build_ext_request (cc_on E) = Done req"
    and "onion_skin_ntor3_create (env_C E) (r_x R) (ed_identity node) (curve25519_onion_key node)
           NTOR3_CIRC_VERIFICATION (ntor3_client_message req payhash) = Done (h, skin)"
    and "st = \<lparr>hs_tag = ONION_HANDSHAKE_TYPE_NTOR_V3, hs_u = U_ntor3 h\<rparr>"
    and "length skin \<le> maxlen" and "exit_supports_congestion_control node"
  using assms
  by (auto simp: onion_skin_create_def client_circ_negotiation_message_def outcome_elims split: if_splits)

lemma ntor3_create_keys:
  "onion_skin_ntor3_create C x ident B ver msg = Done (st, skin) \<Longrightarrow>
     client_keypair st = keypair_of C x \<and> relay_id st = ident \<and> relay_key st = B"
  by (auto simp: onion_skin_ntor3_create_def onion_skin_ntor3_create_nokeygen_def Let_def split: if_splits prod.splits)

lemma ntor3_message_shape:
  "\<exists>extra. ntor3_client_message req payhash = req @ extra"
  by (auto simp: ntor3_client_message_def split: option.split)

lemma skin_agree_v3:
  assumes "env_ok E" "addressed E type node keys" "type = ONION_HANDSHAKE_TYPE_NTOR_V3"
    and inc: "congestion_control_validate_sendme_increment (our_inc E) (sendme_inc_cells our)"
    and create: "onion_skin_create E R type node maxlen payhash = Done (st, skin)"
    and serve: "onion_skin_server_handshake E R' type skin keys our rmax n = (ev, Done s)"
  shows "\<exists>cp. onion_skin_client_handshake E type st (sv_reply s) n = Done (sv_keys s, sv_nonce s, cp) \<and>
      cc_enabled (sv_params s) = (cc_on E \<and> cc_enabled our) \<and> cc_enabled cp = cc_enabled (sv_params s) \<and>
      sendme_inc_cells cp = sendme_inc_cells (if cc_enabled (sv_params s) then sv_params s else zero_params)"
    and "\<exists>req. congestion_control_build_ext_request (cc_on E) = Done req \<and>
      ntor3_payhash (ntor3_client_message req payhash) = Done ev"
proof -
  from create_v3_inv [OF create [unfolded assms(3)]] obtain req h where
    req: "congestion_control_build_ext_request (cc_on E) = Done req"
    and c: "onion_skin_ntor3_create (env_C E) (r_x R) (ed_identity node) (curve25519_onion_key node)
           NTOR3_CIRC_VERIFICATION (ntor3_client_message req payhash) = Done (h, skin)"
    and st: "st = \<lparr>hs_tag = type, hs_u = U_ntor3 h\<rparr>" using assms(3) by metis
  have ok: "crypto_ok (env_C E)" using assms(1) by (simp add: env_ok_def)
  from assms(2,3) obtain b where id: "ed_identity node = my_ed_identity keys" "length (my_ed_identity keys) = 32"
    and rel: "ntor_relay (env_C E) (curve25519_key_map keys) (junk_keypair keys) (curve25519_onion_key node) b"
    by (auto simp: addressed_def)
  obtain p where p: "ntor3_payhash (ntor3_client_message req payhash) = Done p"
    using ntor3_payhash_total by blast
  note r1 = ntor3_part1_reads_skin [OF ok rel id(2) c [unfolded id(1)] p]
  let ?sst = "\<lparr>my_id = relay_id h, my_key = relay_key h, client_key = pubkey (client_keypair h), xb = bx h,
       s_msg_mac = h_msg_mac h\<rparr>"
  note k = ntor3_create_keys [OF c]
  from serve have ev: "ev = p"
    and resp: "ntor_v3_respond E R' our rmax n (ntor3_client_message req payhash) ?sst = Done s"
    using k by (auto simp: onion_skin_server_handshake_def assms(3) r1 id split: if_splits)
  show "\<exists>req. congestion_control_build_ext_request (cc_on E) = Done req \<and>
      ntor3_payhash (ntor3_client_message req payhash) = Done ev" using req p ev by blast
  from resp obtain sp rmsg rep kt where
    neg: "negotiate_v3_ntor_server_circ_params (ntor3_client_message req payhash) our zero_params = Done (sp, rmsg)"
    and p2: "onion_skin_ntor3_server_handshake_part2 (env_C E) (r_x R') ?sst NTOR3_CIRC_VERIFICATION rmsg (n + DIGEST_LEN)
       = Done (rep, kt)"
    and s: "s = \<lparr>sv_reply = rep, sv_keys = take n kt, sv_nonce = take DIGEST_LEN (drop n kt), sv_params = sp\<rparr>"
    by (auto simp: ntor_v3_respond_def outcome_elims split: if_splits)
  have cl: "onion_ntor3_client_handshake (env_C E) h rep NTOR3_CIRC_VERIFICATION (n + DIGEST_LEN) = Done (kt, rmsg)"
    using ntor3_client_reads_reply [OF ok _ _ p2] k by blast
  obtain extra where "ntor3_client_message req payhash = req @ extra" using ntor3_message_shape by blast
  with neg have neg': "negotiate_v3_ntor_server_circ_params (req @ extra) our zero_params = Done (sp, rmsg)" by simp
  from negotiation_agrees(1) [OF req neg' inc] negotiation_agrees(2) [OF req neg' inc, of zero_params] obtain cp where
    "cc_enabled sp = (cc_on E \<and> cc_enabled our)"
    "negotiate_v3_ntor_client_circ_params (cc_on E) (our_inc E) rmsg zero_params = Done cp"
    "cc_enabled cp = cc_enabled sp" "sendme_inc_cells cp = sendme_inc_cells (if cc_enabled sp then sp else zero_params)"
    by blast
  then show "\<exists>cp. onion_skin_client_handshake E type st (sv_reply s) n = Done (sv_keys s, sv_nonce s, cp) \<and>
      cc_enabled (sv_params s) = (cc_on E \<and> cc_enabled our) \<and> cc_enabled cp = cc_enabled (sv_params s) \<and>
      sendme_inc_cells cp = sendme_inc_cells (if cc_enabled (sv_params s) then sv_params s else zero_params)"
    using cl by (simp add: onion_skin_client_handshake_def assms(3) st s)
qed

text \<open>The payment hash the client put behind the negotiation is the one reported.\<close>

lemma request_no_prefix:
  "congestion_control_build_ext_request on = Done req \<Longrightarrow> of_char (CHR ''e'') \<notin> set req"
  by (auto simp: build_request_bytes split: if_splits)

lemma payhash_in_message:
  assumes "congestion_control_build_ext_request on = Done req" "NUL \<notin> set h" "h \<noteq> []"
  shows "ntor3_payhash (ntor3_client_message req (Some (payhash_prefix @ h))) = Done (Some h)"
  using ntor3_payhash_found [OF request_no_prefix [OF assms(1)] assms(2,3)] assms(3)
  by (simp add: ntor3_client_message_def payhash_prefix_def)

lemma skin_length_v3:
  assumes "crypto_ok (env_C E)" "onion_skin_create E R ONION_HANDSHAKE_TYPE_NTOR_V3 node maxlen payhash = Done (st, skin)"
    and "length (ed_identity node) = 32" "length (curve25519_onion_key node) = 32"
  shows "length skin \<le> 131 + (case payhash of Some h \<Rightarrow> length h | None \<Rightarrow> 0)"
proof -
  note L = crypto_okD [OF assms(1)]
  from create_v3_inv [OF assms(2)] obtain req h where
    req: "congestion_control_build_ext_request (cc_on E) = Done req"
    and c: "onion_skin_ntor3_create (env_C E) (r_x R) (ed_identity node) (curve25519_onion_key node)
           NTOR3_CIRC_VERIFICATION (ntor3_client_message req payhash) = Done (h, skin)" by metis
  have "length req \<le> 3" using req by (auto simp: build_request_bytes split: if_splits)
  then have "length (ntor3_client_message req payhash) \<le> 3 + (case payhash of Some h \<Rightarrow> length h | None \<Rightarrow> 0)"
    by (auto simp: ntor3_client_message_def split: option.split)
  moreover have "length skin = 128 + length (ntor3_client_message req payhash)"
    using c assms(3,4) by (auto simp: onion_skin_ntor3_create_def onion_skin_ntor3_create_nokeygen_def Let_def
        keypair_of_def phase1_mac_def L split: if_splits prod.splits)
  ultimately show ?thesis by simp
qed

interpretation skins: circuit_handshake
  "\<lambda>(E, R, type, node, maxlen, payhash). onion_skin_create E R type node maxlen payhash"
  "\<lambda>(E, R', type, keys, our, rmax, n) skin.
     obind (snd (onion_skin_server_handshake E R' type skin keys our rmax n)) (\<lambda>s.
       Done (sv_reply s, sv_keys s, sv_nonce s, cc_enabled (sv_params s)))"
  "\<lambda>(E, R', type, keys, our, rmax, n) st rep.
     obind (onion_skin_client_handshake E type st rep n) (\<lambda>(k, nonce, cp). Done (k, nonce, cc_enabled cp))"
  "\<lambda>(E, R, type, node, maxlen, payhash) (E', R', type', keys, our, rmax, n). E' = E \<and> type' = type \<and>
     env_ok E \<and> draw_ok R \<and> draw_ok R' \<and> addressed E type node keys \<and>
     congestion_control_validate_sendme_increment (our_inc E) (sendme_inc_cells our)"
proof (unfold_locales, clarsimp)
  fix E R type node maxlen payhash R' keys our rmax n st skin rep a aa b
  assume ok: "env_ok E" "draw_ok R" "draw_ok R'" "addressed E type node keys"
      "congestion_control_validate_sendme_increment (our_inc E) (sendme_inc_cells our)"
    and c: "onion_skin_create E R type node maxlen payhash = Done (st, skin)"
    and d: "obind (snd (onion_skin_server_handshake E R' type skin keys our rmax n))
        (\<lambda>s. Done (sv_reply s, sv_keys s, sv_nonce s, cc_enabled (sv_params s))) = Done (rep, a, aa, b)"
  from d obtain ev s where s: "onion_skin_server_handshake E R' type skin keys our rmax n = (ev, Done s)"
    "rep = sv_reply s" "a = sv_keys s" "aa = sv_nonce s" "b = cc_enabled (sv_params s)"
    by (cases "onion_skin_server_handshake E R' type skin keys our rmax n") (auto simp: outcome_elims)
  consider "type = ONION_HANDSHAKE_TYPE_TAP" | "type = ONION_HANDSHAKE_TYPE_FAST"
    | "type = ONION_HANDSHAKE_TYPE_NTOR" | "type = ONION_HANDSHAKE_TYPE_NTOR_V3"
    using c by (auto simp: onion_skin_create_def split: if_splits)
  then show "obind (onion_skin_client_handshake E type st rep n)
      (\<lambda>(k, nonce, cp). Done (k, nonce, cc_enabled cp)) = Done (a, aa, b)"
  proof cases
    case 1
    then show ?thesis using skin_agree_tap [OF ok(1,2,4) _ c s(1)] s by simp
  next
    case 2
    then show ?thesis using skin_agree_fast [OF ok(1-3) _ c s(1)] s by simp
  next
    case 3
    then show ?thesis using skin_agree_ntor [OF ok(1,4) _ c s(1)] s by simp
  next
    case 4
    then show ?thesis using skin_agree_v3(1) [OF ok(1,4) 4 ok(5) c s(1)] s by auto
  qed
qed

section \<open>A paid hop\<close>

definition hop_info_ok :: "extend_info \<Rightarrow> bool" where
  "hop_info_ok ei \<longleftrightarrow> length (identity_digest ei) = 20 \<and> \<not> tor_digest_is_zero (identity_digest ei) \<and>
     length (ed_identity ei) = 32 \<and> length (curve25519_onion_key ei) = 32 \<and>
     (\<forall>ap \<in> set (orports ei). \<forall>bs. addr ap = AF_INET6 bs \<longrightarrow> length bs = 16)"

lemma get_orport_in: "get_orport_loop aps family = Some ap \<Longrightarrow> ap \<in> set aps \<and> family (addr ap)"
  by (induction aps family rule: get_orport_loop.induct) (auto split: if_splits)

lemma extend_addresses_ok:
  assumes "hop_info_ok ei" "extend_cell_addresses ei inc6 = Done (v4, v6)"
  shows "tor_addr_port_is_valid_ap v4 False \<Longrightarrow> is_inet (addr v4)"
    and "tor_addr_port_is_valid_ap v6 False \<Longrightarrow> \<exists>bs. addr v6 = AF_INET6 bs \<and> length bs = 16"
proof -
  from assms(2) have v: "v4 = (case extend_info_get_orport ei is_inet of Some ap \<Rightarrow> ap | None \<Rightarrow> unspec_ap)"
    "v6 = (if inc6 then case extend_info_get_orport ei is_inet6 of Some ap \<Rightarrow> ap | None \<Rightarrow> unspec_ap else unspec_ap)"
    by (auto simp: extend_cell_addresses_def Let_def split: if_splits)
  show "is_inet (addr v4)" if "tor_addr_port_is_valid_ap v4 False"
    using that get_orport_in [of "orports ei" is_inet] unfolding v(1) extend_info_get_orport_def
    by (auto split: option.splits)
  show "\<exists>bs. addr v6 = AF_INET6 bs \<and> length bs = 16" if "tor_addr_port_is_valid_ap v6 False"
    using that get_orport_in [of "orports ei" is_inet6] assms(1)
    unfolding v(2) extend_info_get_orport_def hop_info_ok_def
    by (auto split: option.splits if_splits simp: is_inet6_def)
qed

lemma create_v3_total:
  assumes ok: "crypto_ok (env_C E)" and node: "hop_info_ok node" "extend_info_supports_ntor_v3 node"
      "\<not> safe_mem_is_zero (ed_identity node)"
    and sh: "\<not> safe_mem_is_zero (curve25519_impl (env_C E) (r_x R) (curve25519_onion_key node))"
    and len: "131 + (case payhash of Some h \<Rightarrow> length h | None \<Rightarrow> 0) \<le> maxlen"
  shows "\<exists>st skin. onion_skin_create E R ONION_HANDSHAKE_TYPE_NTOR_V3 node maxlen payhash = Done (st, skin)"
proof -
  note L = crypto_okD [OF ok]
  obtain req where req: "congestion_control_build_ext_request (cc_on E) = Done req" "length req \<le> 3"
    by (cases "cc_on E") (auto simp: build_request_bytes)
  obtain ek mk where k: "phase1_keys (env_C E) (curve25519_impl (env_C E) (r_x R) (curve25519_onion_key node))
      (ed_identity node) (curve25519_basepoint (env_C E) (r_x R)) (curve25519_onion_key node)
      NTOR3_CIRC_VERIFICATION = (ek, mk)" by fastforce
  obtain h skin where c: "onion_skin_ntor3_create (env_C E) (r_x R) (ed_identity node) (curve25519_onion_key node)
      NTOR3_CIRC_VERIFICATION (ntor3_client_message req payhash) = Done (h, skin)"
    and l: "length skin = 128 + length (ntor3_client_message req payhash)"
    using sh node(1) by (simp add: onion_skin_ntor3_create_def onion_skin_ntor3_create_nokeygen_def Let_def
        keypair_of_def k phase1_mac_def L hop_info_ok_def)
  have "length (ntor3_client_message req payhash) \<le> 3 + (case payhash of Some h \<Rightarrow> length h | None \<Rightarrow> 0)"
    using req(2) by (auto simp: ntor3_client_message_def split: option.split)
  with c l len req node(2,3) show ?thesis
    by (simp add: onion_skin_create_def client_circ_negotiation_message_def extend_info_supports_ntor_v3_def)
qed

lemma hop_payment:
  assumes "distinct (cpath c)" "i < length (cpath c)" "circ_relay_payments c = Some its" "i < length its"
  shows "relay_payments_find_by_hop_num (circ_relay_payments c) (int (hop_num_loop (cpath c) (cpath c ! i) 0)) =
    Some (its ! i)"
  using assms by (simp add: hop_num_loop_at relay_payments_find_by_hop_num_def)

lemma filled_fill_skin:
  "length skin \<le> ONIONSKIN_SIZE \<Longrightarrow>
     filled ONIONSKIN_SIZE (unat (of_nat (length skin) :: u16)) (fill_skin skin) \<and>
     take (unat (of_nat (length skin) :: u16)) (fill_skin skin) = skin"
proof -
  assume l: "length skin \<le> ONIONSKIN_SIZE"
  then have "unat (of_nat (length skin) :: u16) = length skin"
    by (intro unat_of_nat_u16) (simp add: ONIONSKIN_SIZE_def size_defs)
  with l show ?thesis by (simp add: filled_def fill_skin_def zeros_def)
qed

text \<open>
  A hop for which the client uses ntor v3 gets, when it is paid, the extend cell with the
  skin, and the relay that opens the skin learns the payment hash.
\<close>

lemma paid_hop_skin:
  fixes c :: origin_circuit and i :: nat
  defines "hop \<equiv> cpath c ! i" and "type \<equiv> ONION_HANDSHAKE_TYPE_NTOR_V3"
  assumes env: "env_ok E" "cc_on E"
    and path: "distinct (cpath c)" "i < length (cpath c)"
    and pay: "circ_relay_payments c = Some its" "i < length its" "wire_format (its ! i) = Some (payhash_prefix @ h)"
      "NUL \<notin> set h" "h \<noteq> []" "157 + 2 * length h \<le> 1948"
    and node: "hop_info_ok (info hop)" "extend_info_supports_ntor_v3 (info hop)"
      "\<not> safe_mem_is_zero (ed_identity (info hop))"
      "\<not> safe_mem_is_zero (curve25519_impl (env_C E) (r_x R) (curve25519_onion_key (info hop)))"
      "extend_cell_addresses (info hop) inc6 = Done (v4, v6)" "tor_addr_port_is_valid_ap v4 False"
    and relay: "addressed E type (info hop) keys" "n' + DIGEST_LEN \<le> MAX_KEYS_TMP_LEN"
  shows "\<exists>st ec n p skin.
     circuit_send_intermediate_onion_skin E R info inc6 ie c hop = Done (st, ec, RELAY_COMMAND_EXTEND2, n, p) \<and>
     extend_cell_parse RELAY_COMMAND_EXTEND2 p n = Done (extend2_view ie ec) \<and>
     cc_handshake_type (ec_create_cell ec) = type \<and>
     take (unat (cc_handshake_len (ec_create_cell ec))) (onionskin (ec_create_cell ec)) = skin \<and>
     fst (onion_skin_server_handshake E R' type skin keys our rmax n') = Some h \<and>
     payment_util_has_payment_id_hash (header @ p) = Done True"
proof -
  have ok: "crypto_ok (env_C E)" using env(1) by (simp add: env_ok_def)
  have pick: "circuit_pick_extend_handshake (cc_on E) (info hop) = (RELAY_COMMAND_EXTEND2, CELL_CREATE2, type)"
    using node(2) env(2) by (simp add: circuit_pick_extend_handshake_def circuit_pick_create_handshake_def
        extend_info_supports_ntor_v3_def type_def)
  let ?ph = "payhash_prefix @ h"
  have pl: "length ?ph = 13 + length h" by simp
  obtain st skin where cr: "onion_skin_create E R type (info hop) ONIONSKIN_SIZE (Some ?ph) = Done (st, skin)"
    using create_v3_total [OF ok node(1-4), of "Some ?ph" ONIONSKIN_SIZE] pay(6) pl
    by (auto simp: type_def ONIONSKIN_SIZE_def size_defs)
  have sl: "length skin \<le> 144 + length h"
    using skin_length_v3 [OF ok cr [unfolded type_def]] node(1) pl by (simp add: hop_info_ok_def)
  then have sz: "length skin \<le> ONIONSKIN_SIZE" using pay(6) by (simp add: ONIONSKIN_SIZE_def size_defs)
  note f = filled_fill_skin [OF sz]
  define ec where "ec = \<lparr>ec_cell_type = RELAY_COMMAND_EXTEND2, orport_ipv4 = v4, orport_ipv6 = v6,
     node_id = identity_digest (info hop), ed_pubkey = ed_identity (info hop),
     ec_create_cell = \<lparr>cc_cell_type = CELL_CREATE2, cc_handshake_type = type,
       cc_handshake_len = of_nat (length skin), onionskin = fill_skin skin\<rparr>\<rparr>"
  have chk: "check_extend_cell ec"
    using node(1,6) by (simp add: check_extend_cell_iff ec_def hop_info_ok_def type_def check_create_cell_def Let_def)
  have eok: "extend_cell_ok ec"
    using extend_addresses_ok [OF node(1,5)] f node(1)
    by (simp add: extend_cell_ok_def ec_def hop_info_ok_def DIGEST_LEN_def)
  have ul: "unat (cc_handshake_len (ec_create_cell ec)) = length skin"
    using sz by (simp add: ec_def) (intro unat_of_nat_u16, simp add: ONIONSKIN_SIZE_def size_defs)
  have room: "unat (cc_handshake_len (ec_create_cell ec)) + length ?ph \<le> 1948"
    using sl pay(6) ul pl by simp
  have ect: "ec_cell_type ec = RELAY_COMMAND_EXTEND2" by (simp add: ec_def)
  from extend2_format_fits [OF chk eok ect room] obtain n p where
    fm: "extend_cell_format ie ec (Some ?ph) = Done (RELAY_COMMAND_EXTEND2, n, p)" by blast
  have send: "circuit_send_intermediate_onion_skin E R info inc6 ie c hop = Done (st, ec, RELAY_COMMAND_EXTEND2, n, p)"
    using hop_payment [OF path pay(1,2)] node(5) cr fm
    by (simp add: circuit_send_intermediate_onion_skin_def pick hop_def [symmetric] pay(3) ec_def [symmetric] Let_def)
  have tk: "take (unat (cc_handshake_len (ec_create_cell ec))) (onionskin (ec_create_cell ec)) = skin"
    using f by (simp add: ec_def)
  have "fst (onion_skin_server_handshake E R' type skin keys our rmax n') = Some h"
  proof -
    from create_v3_inv [OF cr [unfolded type_def]] obtain req s0 where
      req: "congestion_control_build_ext_request (cc_on E) = Done req"
      and c0: "onion_skin_ntor3_create (env_C E) (r_x R) (ed_identity (info hop)) (curve25519_onion_key (info hop))
           NTOR3_CIRC_VERIFICATION (ntor3_client_message req (Some ?ph)) = Done (s0, skin)" by metis
    from relay(1) obtain b where id: "ed_identity (info hop) = my_ed_identity keys" "length (my_ed_identity keys) = 32"
      and rel: "ntor_relay (env_C E) (curve25519_key_map keys) (junk_keypair keys) (curve25519_onion_key (info hop)) b"
      by (auto simp: addressed_def type_def)
    from ntor3_part1_reads_skin [OF ok rel id(2) c0 [unfolded id(1)] payhash_in_message [OF req pay(4,5)]]
    show ?thesis using relay(2) by (simp add: onion_skin_server_handshake_def type_def)
  qed
  with send extend2_parse_format [OF fm ect eok] relay_finds_payment_hash [OF fm pay(5) ect] tk
  show ?thesis by (auto simp: ec_def)
qed

section \<open>The payment hash reaches a relay by ntor v3 alone\<close>

lemma create_without_v3:
  "type \<noteq> ONION_HANDSHAKE_TYPE_NTOR_V3 \<Longrightarrow>
     onion_skin_create E R type node maxlen payhash = onion_skin_create E R type node maxlen None"
  by (simp add: onion_skin_create_def)

lemma serve_without_v3:
  "type \<noteq> ONION_HANDSHAKE_TYPE_NTOR_V3 \<Longrightarrow>
     fst (onion_skin_server_handshake E R type skin keys our rmax n) = None"
  by (simp add: onion_skin_server_handshake_def)

lemma picks_v3_iff:
  "snd (circuit_pick_create_handshake on ei) = ONION_HANDSHAKE_TYPE_NTOR_V3 \<longleftrightarrow>
     extend_info_supports_ntor_v3 ei \<and> on"
  by (auto simp: circuit_pick_create_handshake_def extend_info_supports_ntor_v3_def)

lemma first_hop_payhash_total:
  assumes "\<forall>p. circ_payhashes c = Some p \<longrightarrow> length p < 2 ^ 62"
  shows "\<exists>r. payment_util_get_first_hop_payhash (Some c) = Done r"
  using assms get_payhash_eq [of 1 PAYMENT_PAYHASH_SIZE _ "[]"]
  by (cases "circ_payhashes c") (auto simp: payment_util_get_first_hop_payhash_def payhash_prefix_def)

lemma first_skin_ignores_payhash:
  assumes "cpath c \<noteq> []" "\<not> (extend_info_supports_ntor_v3 (info (hd (cpath c))) \<and> cc_on E)"
    and "\<forall>p. circ_payhashes c = Some p \<longrightarrow> length p < 2 ^ 62"
  shows "circuit_send_first_onion_skin E R info circid queue_ok c =
     circuit_send_first_onion_skin E R info circid queue_ok (c\<lparr>circ_payhashes := None\<rparr>)"
proof -
  let ?c = "c\<lparr>circ_payhashes := None\<rparr>"
  obtain r where r: "payment_util_get_first_hop_payhash (Some c) = Done r"
    using first_hop_payhash_total [OF assms(3)] by blast
  obtain r' where r': "payment_util_get_first_hop_payhash (Some ?c) = Done r'"
    using first_hop_payhash_total [of ?c] by auto
  have f: "should_use_create_fast_for_circuit info ?c = should_use_create_fast_for_circuit info c"
    by (simp add: should_use_create_fast_for_circuit_def circuit_has_usable_onion_key_def circuit_can_use_tap_def)
  have n3: "snd (circuit_pick_create_handshake (cc_on E) (info (hd (cpath c)))) \<noteq> ONION_HANDSHAKE_TYPE_NTOR_V3"
    using assms(2) picks_v3_iff by blast
  have cr: "onion_skin_create E R t node m (Some ph) = onion_skin_create E R t node m None"
    if "t \<noteq> ONION_HANDSHAKE_TYPE_NTOR_V3" for t node m ph
    using create_without_v3 [OF that] .
  show ?thesis
    unfolding circuit_send_first_onion_skin_def f r r' Let_def obind.simps
    using n3 by (intro obind_cong refl) (auto simp: cr split: prod.splits)
qed

section \<open>The properties\<close>

definition sample_env :: env where
  "sample_env = \<lparr>env_C = sample_crypto, env_T = sample_rsa, cc_on = True, our_inc = 31\<rparr>"

definition sample_draw :: draw where
  "sample_draw = \<lparr>r_fast = replicate 20 5, r_x = replicate 32 4, r_dh = [1], r_key = replicate 16 6, r_seed = []\<rparr>"

definition sample_node :: extend_info where
  "sample_node = \<lparr>identity_digest = replicate 20 8, ed_identity = replicate 32 3,
     orports = [\<lparr>addr = AF_INET 0x01020304, port = 9001\<rparr>, unspec_ap], onion_key = None,
     curve25519_onion_key = replicate 32 2, exit_supports_congestion_control = True\<rparr>"

definition sample_keys :: server_onion_keys where
  "sample_keys = \<lparr>my_identity = replicate 20 8, my_ed_identity = replicate 32 3, relay_onion_key = None,
     last_onion_key = None, curve25519_key_map = [], junk_keypair = Some \<lparr>seckey = [], pubkey = replicate 32 2\<rparr>\<rparr>"

lemma sample_env_ok: "env_ok sample_env" "draw_ok sample_draw"
  by (simp_all add: env_ok_def sample_env_def sample_crypto_ok sample_rsa_ok draw_ok_def sample_draw_def)

lemma sample_addressed: "type \<noteq> ONION_HANDSHAKE_TYPE_TAP \<Longrightarrow> addressed sample_env type sample_node sample_keys"
  by (simp add: addressed_def sample_env_def sample_node_def sample_keys_def ntor_relay_def sample_crypto_def keypair_of_def)

text \<open>
  C11. The four circuit handshakes agree: when a relay that holds the keys the client's record
  of it names answers the client's onion skin, the client's last step succeeds with the
  relay's key material and rendezvous nonce, and both sides have congestion control on or both
  off.
\<close>

theorem handshake_agreement:
  assumes "env_ok E" "draw_ok R" "draw_ok R'" "addressed E type node keys"
    and "congestion_control_validate_sendme_increment (our_inc E) (sendme_inc_cells our)"
    and "onion_skin_create E R type node maxlen payhash = Done (st, skin)"
    and "onion_skin_server_handshake E R' type skin keys our rmax n = (ev, Done s)"
  shows "\<exists>cp. onion_skin_client_handshake E type st (sv_reply s) n = Done (sv_keys s, sv_nonce s, cp) \<and>
    cc_enabled cp = cc_enabled (sv_params s)"
proof -
  have "obind (onion_skin_client_handshake E type st (sv_reply s) n) (\<lambda>(k, nonce, cp). Done (k, nonce, cc_enabled cp)) =
    Done (sv_keys s, sv_nonce s, cc_enabled (sv_params s))"
    using skins.agree [of "(E, R, type, node, maxlen, payhash)" "(E, R', type, keys, our, rmax, n)" st skin
        "sv_reply s" "(sv_keys s, sv_nonce s, cc_enabled (sv_params s))"] assms by simp
  then show ?thesis by (auto simp: outcome_elims)
qed

lemma handshake_agreement_witness:
  "\<exists>st s cp. onion_skin_create sample_env sample_draw ONION_HANDSHAKE_TYPE_FAST sample_node ONIONSKIN_SIZE None =
      Done (st, replicate 20 5) \<and>
    onion_skin_server_handshake sample_env sample_draw ONION_HANDSHAKE_TYPE_FAST (replicate 20 5) sample_keys
      \<lparr>cc_enabled = True, sendme_inc_cells = 31\<rparr> REPLY_SIZE 72 = (None, Done s) \<and>
    onion_skin_client_handshake sample_env ONION_HANDSHAKE_TYPE_FAST st (sv_reply s) 72 =
      Done (sv_keys s, sv_nonce s, cp) \<and> cc_enabled cp = cc_enabled (sv_params s)"
proof -
  let ?t = ONION_HANDSHAKE_TYPE_FAST
  let ?st = "\<lparr>hs_tag = ?t, hs_u = U_fast (replicate 20 5)\<rparr>"
  have c: "onion_skin_create sample_env sample_draw ?t sample_node ONIONSKIN_SIZE None = Done (?st, replicate 20 5)"
    by (simp add: onion_skin_create_def fast_onionskin_create_def sample_draw_def DIGEST_LEN_def ONIONSKIN_SIZE_def size_defs)
  obtain s where s: "onion_skin_server_handshake sample_env sample_draw ?t (replicate 20 5) sample_keys
      \<lparr>cc_enabled = True, sendme_inc_cells = 31\<rparr> REPLY_SIZE 72 = (None, Done s)"
    by (simp add: onion_skin_server_handshake_def fast_server_handshake_def crypto_expand_key_material_TAP_def
        mem_get_def size_defs REPLY_SIZE_def)
  show ?thesis
    using handshake_agreement [OF sample_env_ok sample_env_ok(2) sample_addressed _ c s] c s
    by (auto simp: sample_env_def congestion_control_validate_sendme_increment_def)
qed

text \<open>
  C1. Paying a hop: for a hop the client reaches with ntor v3, with a payment of at most 895
  characters at its place in the circuit's list, \<open>circuit_send_intermediate_onion_skin\<close>
  produces an EXTEND2 payload. The relay in front parses from it the create cell, finds a
  payment hash in it, and the hop, opening the skin of that cell, reports to its controller
  exactly the hash of the list.
\<close>

theorem paid_hop_learns_its_hash:
  fixes c :: origin_circuit
  assumes "env_ok E" "cc_on E"
    and "distinct (cpath c)" "i < length (cpath c)"
    and "circ_relay_payments c = Some its" "i < length its" "wire_format (its ! i) = Some (payhash_prefix @ h)"
      "NUL \<notin> set h" "h \<noteq> []" "157 + 2 * length h \<le> 1948"
    and "hop_info_ok (info (cpath c ! i))" "extend_info_supports_ntor_v3 (info (cpath c ! i))"
      "\<not> safe_mem_is_zero (ed_identity (info (cpath c ! i)))"
      "\<not> safe_mem_is_zero (curve25519_impl (env_C E) (r_x R) (curve25519_onion_key (info (cpath c ! i))))"
      "extend_cell_addresses (info (cpath c ! i)) inc6 = Done (v4, v6)" "tor_addr_port_is_valid_ap v4 False"
    and "addressed E ONION_HANDSHAKE_TYPE_NTOR_V3 (info (cpath c ! i)) keys" "n' + DIGEST_LEN \<le> MAX_KEYS_TMP_LEN"
  shows "\<exists>st ec n p.
     circuit_send_intermediate_onion_skin E R info inc6 ie c (cpath c ! i) =
       Done (st, ec, RELAY_COMMAND_EXTEND2, n, p) \<and>
     extend_cell_parse RELAY_COMMAND_EXTEND2 p n = Done (extend2_view ie ec) \<and>
     payment_util_has_payment_id_hash (header @ p) = Done True \<and>
     fst (onion_skin_server_handshake E R' (cc_handshake_type (ec_create_cell ec))
            (take (unat (cc_handshake_len (ec_create_cell ec))) (onionskin (ec_create_cell ec)))
            keys our rmax n') = Some h"
  using paid_hop_skin [where info = info and i = i and E = E and ie = ie and header = header and R' = R' and our = our
      and rmax = rmax, OF assms] by metis

definition sample_circuit :: origin_circuit where
  "sample_circuit = \<lparr>purpose = CIRCUIT_PURPOSE_C_GENERAL, circ_payhashes = Some (replicate 768 (CHR ''a'')),
     circ_relay_payments = Some (map (\<lambda>h. relay_payment_item_new\<lparr>wire_format := Some (payhash_prefix @ replicate 768 h)\<rparr>)
       [CHR ''a'', CHR ''b'', CHR ''c'']), cpath = [10, 20, 30]\<rparr>"

lemma paid_hop_witness:
  "\<exists>st ec n p.
     circuit_send_intermediate_onion_skin sample_env sample_draw (\<lambda>h. sample_node) False False sample_circuit
       (cpath sample_circuit ! 2) = Done (st, ec, RELAY_COMMAND_EXTEND2, n, p) \<and>
     extend_cell_parse RELAY_COMMAND_EXTEND2 p n = Done (extend2_view False ec) \<and>
     payment_util_has_payment_id_hash ([] @ p) = Done True \<and>
     fst (onion_skin_server_handshake sample_env sample_draw (cc_handshake_type (ec_create_cell ec))
            (take (unat (cc_handshake_len (ec_create_cell ec))) (onionskin (ec_create_cell ec)))
            sample_keys \<lparr>cc_enabled = True, sendme_inc_cells = 31\<rparr> REPLY_SIZE 72) = Some (replicate 768 (CHR ''c''))"
  by (rule paid_hop_learns_its_hash [where ?v4.0 = "\<lparr>addr = AF_INET 0x01020304, port = 9001\<rparr>" and ?v6.0 = unspec_ap
        and its = "the (circ_relay_payments sample_circuit)"])
     (simp_all add: sample_env_ok sample_addressed,
      simp_all add: sample_env_def sample_circuit_def sample_node_def sample_draw_def sample_crypto_def hop_info_ok_def
        extend_info_supports_ntor_v3_def extend_info_supports_ntor_def safe_mem_is_zero_iff fast_mem_is_zero_def
        list_all_iff tor_digest_is_zero_def extend_cell_addresses_def extend_info_get_orport_def
        unspec_ap_def tor_addr_port_is_valid_ap_def tor_addr_is_valid_def tor_port_is_valid_def MAX_KEYS_TMP_LEN_def
        DIGEST_LEN_def Let_def)

text \<open>
  A hop reached with any other handshake is never told: the first skin sent to a relay
  without ntor v3, or with congestion control off, is the same with and without a payment hash
  in the circuit, although the circuit was paid for.
\<close>

theorem first_hop_without_v3_gets_no_hash:
  assumes "cpath c \<noteq> []" "\<not> (extend_info_supports_ntor_v3 (info (hd (cpath c))) \<and> cc_on E)"
    and "\<forall>p. circ_payhashes c = Some p \<longrightarrow> length p < 2 ^ 62"
  shows "circuit_send_first_onion_skin E R info circid queue_ok c =
     circuit_send_first_onion_skin E R info circid queue_ok (c\<lparr>circ_payhashes := None\<rparr>)"
  by (rule first_skin_ignores_payhash [where info = info, OF assms])

lemma first_hop_without_v3_witness:
  "circuit_send_first_onion_skin (sample_env\<lparr>cc_on := False\<rparr>) sample_draw (\<lambda>h. sample_node) 7 True sample_circuit =
   circuit_send_first_onion_skin (sample_env\<lparr>cc_on := False\<rparr>) sample_draw (\<lambda>h. sample_node) 7 True
     (sample_circuit\<lparr>circ_payhashes := None\<rparr>)"
  by (rule first_hop_without_v3_gets_no_hash) (simp_all add: sample_circuit_def)

end
