(* ===== verification/ExtendPaid.thy ===== *)
theory ExtendPaid
  imports OnionSkin
begin

text \<open>
  The controller's EXTENDPAIDCIRCUIT command,
  \<open>src/feature/control/control_extendpaidcircuit.c\<close>: a circuit is created or extended along
  the relays of the command's lines, and the payments of those lines are stored in it. Nodes
  are looked up in the directory by functions that are parameters, as are the functions that
  allocate a circuit, describe a node, and send a circuit's next cell.
\<close>

section \<open>Buffers\<close>

text \<open>
  A string in a buffer of \<open>cap\<close> bytes. \<open>strlcat\<close> stops at \<open>siz\<close>, \<open>strncat\<close> after \<open>n\<close>
  characters; both write a terminating NUL, and a write outside the buffer is no defined
  behaviour.
\<close>

definition buf_strlcat :: "nat \<Rightarrow> string \<Rightarrow> string \<Rightarrow> nat \<Rightarrow> string outcome" where
  "buf_strlcat cap dst src siz =
     (if siz \<le> length dst then Done dst
      else let r = dst @ take (siz - 1 - length dst) src
           in if length r < cap then Done r else Stuck)"

definition buf_strncat :: "nat \<Rightarrow> string \<Rightarrow> string \<Rightarrow> nat \<Rightarrow> string outcome" where
  "buf_strncat cap dst src n =
     (let r = dst @ take n src in if length r < cap then Done r else Stuck)"

definition buf_terminate :: "nat \<Rightarrow> string \<Rightarrow> nat \<Rightarrow> string outcome" where
  "buf_terminate cap s i = (if i < cap then Done (take i s) else Stuck)"

section \<open>The lines of the command\<close>

definition line_split :: split_flags where
  "line_split = \<lparr>skip_space = True, ignore_blank = True, strip_space = False\<rparr>"

text \<open>The variables the loop over the lines updates.\<close>

record 'node paid =
  pd_payments :: relay_payments
  pd_payhashes :: string
  pd_nodes :: "'node list"

datatype 'node parsed =
    Parsed "'node paid"
  | Refused nat string

text \<open>
  Appending a payment hash to the combined string. \<open>n_lines\<close> is the number of lines,
  \<open>cap\<close> the size of the allocation; the limit used here is a different one, and its
  subtraction is one of \<open>size_t\<close>. \<open>Fail\<close> is the \<open>continue\<close> of the loop.
\<close>

definition append_payhash :: "nat \<Rightarrow> nat \<Rightarrow> string \<Rightarrow> string \<Rightarrow> string outcome" where
  "append_payhash cap n_lines combined payhash =
     (if n_lines * 1024 > INT_MAX then Stuck
      else
        let buffer_size = n_lines * 1024;
            current_len = length combined;
            remaining = nat ((int buffer_size - int current_len - 1) mod 2 ^ 64)
        in obind
             (if current_len > 0
              then if remaining \<ge> 1
                   then obind (buf_strlcat cap combined [NL] buffer_size) (\<lambda>p. Done (p, remaining - 1))
                   else Fail
              else Done (combined, remaining)) (\<lambda>(p, remaining).
           if length payhash \<le> remaining then buf_strlcat cap p payhash buffer_size
           else obind (buf_strncat cap p payhash remaining) (\<lambda>p. buf_terminate cap p (buffer_size - 1))))"

fun paid_lines_loop ::
  "(string \<Rightarrow> 'node option) \<Rightarrow> ('node \<Rightarrow> bool \<Rightarrow> bool) \<Rightarrow> bool \<Rightarrow> nat \<Rightarrow> nat \<Rightarrow> string list \<Rightarrow>
     'node paid \<Rightarrow> 'node parsed outcome" where
  "paid_lines_loop by_nickname has_descriptor zero_circ cap n_lines [] d = Done (Parsed d)"
| "paid_lines_loop by_nickname has_descriptor zero_circ cap n_lines (line # lines) d =
     obind (smartlist_split_string [] line (Some '' '') line_split 0) (\<lambda>(tokens, _).
       if length tokens \<noteq> 2 then paid_lines_loop by_nickname has_descriptor zero_circ cap n_lines lines d
       else
         let fp = tokens ! 0; payhash = tokens ! 1
         in case payment_util_parse_payment_line (Some line) of
              None \<Rightarrow> paid_lines_loop by_nickname has_descriptor zero_circ cap n_lines lines d
            | Some payment_item \<Rightarrow>
                obind (relay_payments_add_item (Some (pd_payments d)) (Some payment_item)) (\<lambda>ps.
                let d1 = d\<lparr>pd_payments := ps\<rparr>
                in case append_payhash cap n_lines (pd_payhashes d) payhash of
                     Stuck \<Rightarrow> Stuck
                   | Fail \<Rightarrow> paid_lines_loop by_nickname has_descriptor zero_circ cap n_lines lines d1
                   | Done p \<Rightarrow>
                       let d2 = d1\<lparr>pd_payhashes := p\<rparr>
                       in case by_nickname fp of
                            None \<Rightarrow> Done (Refused 552 (''No such router '' @ [CHR 0x22] @ fp @ [CHR 0x22]))
                          | Some node \<Rightarrow>
                              if \<not> has_descriptor node zero_circ
                              then Done (Refused 552 (''No descriptor for '' @ [CHR 0x22] @ fp @ [CHR 0x22]))
                              else paid_lines_loop by_nickname has_descriptor zero_circ cap n_lines lines
                                     (d2\<lparr>pd_nodes := pd_nodes d @ [node]\<rparr>)))"

fun max_len :: "string list \<Rightarrow> nat \<Rightarrow> nat" where
  "max_len [] m = m"
| "max_len (line # lines) m = max_len lines (if length line > m then length line else m)"

definition paid_lines ::
  "(string \<Rightarrow> 'node option) \<Rightarrow> ('node \<Rightarrow> bool \<Rightarrow> bool) \<Rightarrow> bool \<Rightarrow> string list \<Rightarrow> 'node parsed outcome" where
  "paid_lines by_nickname has_descriptor zero_circ lines =
     (let max_line_length = max_len lines 0;
          buffer_size = (max_line_length + 1) * length lines + 1
      in paid_lines_loop by_nickname has_descriptor zero_circ buffer_size (length lines) lines
           \<lparr>pd_payments = relay_payments_new, pd_payhashes = [], pd_nodes = []\<rparr>)"

section \<open>The command\<close>

datatype circuit_state = CIRCUIT_STATE_BUILDING | CIRCUIT_STATE_ONIONSKIN_PENDING | CIRCUIT_STATE_CHAN_WAIT | CIRCUIT_STATE_GUARD_WAIT | CIRCUIT_STATE_OPEN

text \<open>An origin circuit as the command sees it; a hop is a pointer with its \<open>extend_info\<close>.\<close>

record paid_circuit = origin_circuit +
  global_identifier :: nat
  circ_state :: circuit_state
  marked_for_close :: "int option"
  hop_infos :: "(nat \<times> extend_info) list"
  chosen_exit :: "extend_info option"
  desired_path_len :: int
  onehop_tunnel :: bool
  any_hop_from_controller :: bool
  first_hop_from_controller :: bool

definition END_CIRC_REASON_CONNECTFAILED :: int where "END_CIRC_REASON_CONNECTFAILED = 6"

text \<open>The functions of other modules the command calls.\<close>

record 'node ctl =
  fresh_circuit :: "paid_circuit option"
  circuit_by_id :: "nat \<Rightarrow> paid_circuit option"
  by_nickname :: "string \<Rightarrow> 'node option"
  has_preferred_descriptor :: "'node \<Rightarrow> bool \<Rightarrow> bool"
  info_from_node :: "'node \<Rightarrow> bool \<Rightarrow> bool \<Rightarrow> extend_info option"
  fresh_hop :: "nat list \<Rightarrow> nat"
  handle_first_hop :: "paid_circuit \<Rightarrow> int"
  send_next_onion_skin :: "paid_circuit \<Rightarrow> int"
  close_circuit :: "paid_circuit \<Rightarrow> int \<Rightarrow> paid_circuit"

definition circuit_append_new_exit :: "'node ctl \<Rightarrow> paid_circuit \<Rightarrow> extend_info \<Rightarrow> paid_circuit" where
  "circuit_append_new_exit X circ exit_ei =
     (let h = fresh_hop X (cpath circ)
      in circ\<lparr>chosen_exit := Some exit_ei, desired_path_len := desired_path_len circ + 1, cpath := cpath circ @ [h],
              hop_infos := hop_infos circ @ [(h, exit_ei)]\<rparr>)"

fun append_nodes ::
  "'node ctl \<Rightarrow> 'node list \<Rightarrow> bool \<Rightarrow> paid_circuit \<Rightarrow> paid_circuit \<times> bool" where
  "append_nodes X [] first_node circ = (circ, True)"
| "append_nodes X (node # nodes) first_node circ =
     (case info_from_node X node first_node True of
        None \<Rightarrow> (close_circuit X circ END_CIRC_REASON_CONNECTFAILED, False)
      | Some info \<Rightarrow>
          let c1 = circuit_append_new_exit X circ info;
              c2 = (if desired_path_len c1 > 1 then c1\<lparr>onehop_tunnel := False\<rparr> else c1)
          in append_nodes X nodes False c2)"

text \<open>The reply, and the circuit when there is one.\<close>

type_synonym ctl_result = "(nat \<times> string) \<times> paid_circuit option"

text \<open>
  The last part: the stored payments, the hops, and the cell that is sent. The reply of a
  success names the circuit.
\<close>

definition extend_paid_circuit ::
  "'node ctl \<Rightarrow> bool \<Rightarrow> paid_circuit \<Rightarrow> 'node paid \<Rightarrow> ctl_result" where
  "extend_paid_circuit X zero_circ circ d =
     (let c1 = circ\<lparr>circ_payhashes := Some (pd_payhashes d)\<rparr>
      in if length (pd_payhashes d) > 10 * 1024
         then ((552, ''Payment hash data exceeds maximum size''), Some c1)
         else
           case append_nodes X (pd_nodes d) zero_circ (c1\<lparr>circ_relay_payments := Some (pd_payments d)\<rparr>) of
             (c2, ok) \<Rightarrow>
               if \<not> ok then ((551, ''Couldn't extend circuit: missing descriptor or valid address''), Some c2)
               else if zero_circ
               then let err_reason = handle_first_hop X c2
                    in if err_reason < 0
                       then ((551, ''Couldn't start circuit''), Some (close_circuit X c2 (- err_reason)))
                       else ((250, ''EXTENDED '' @ dec_int (int (global_identifier c2))), Some c2)
               else if circ_state c2 = CIRCUIT_STATE_OPEN \<or> circ_state c2 = CIRCUIT_STATE_GUARD_WAIT
               then let c3 = c2\<lparr>circ_state := CIRCUIT_STATE_BUILDING\<rparr>;
                        err_reason = send_next_onion_skin X c3
                    in if err_reason < 0
                       then ((551, ''Couldn't send onion skin''), Some (close_circuit X c3 (- err_reason)))
                       else ((250, ''EXTENDED '' @ dec_int (int (global_identifier c3))), Some c3)
               else ((551, ''Circuit is not in a state that can be extended''), Some c2))"

text \<open>
  The returns before the payments are allocated jump over the initialisation of the two
  pointers that the code at \<open>done\<close> tests and frees: what happens then is not defined.
\<close>

definition handle_control_extendpaidcircuit ::
  "'node ctl \<Rightarrow> string \<Rightarrow> string \<Rightarrow> ctl_result outcome" where
  "handle_control_extendpaidcircuit X circ_id body =
     (let zero_circ = (circ_id = ''0'')
      in obind (smartlist_split_string [] body (Some [NL]) line_split 0) (\<lambda>(lines, _).
         if length lines = 0 then Stuck
         else obind
           (if zero_circ
            then (case fresh_circuit X of
                    None \<Rightarrow> Stuck
                  | Some c \<Rightarrow> Done (c\<lparr>first_hop_from_controller := True\<rparr>))
            else let id = fst (tor_parse_ulong circ_id 0 4294967295 False)
                 in if id = 0 then Stuck
                    else (case circuit_by_id X (nat id) of
                            None \<Rightarrow> Stuck
                          | Some c \<Rightarrow> if marked_for_close c \<noteq> None then Stuck else Done c)) (\<lambda>c.
         let circ = c\<lparr>any_hop_from_controller := True\<rparr>
         in obind (paid_lines (by_nickname X) (has_preferred_descriptor X) zero_circ lines) (\<lambda>r.
            case r of
              Refused code text \<Rightarrow> Done ((code, text), Some circ)
            | Parsed d \<Rightarrow>
                if pd_nodes d = [] then Done ((512, ''No valid nodes provided''), Some circ)
                else Done (extend_paid_circuit X zero_circ circ d)))))"

section \<open>The lines are read back\<close>

lemma split_loop_step:
  "split_loop sep flags mx n str =
     (let cp = (if skip_space flags then dropWhile TOR_ISSPACE str else str);
          e = split_end sep (mx > 0 \<and> n = mx - 1) cp;
          piece = split_piece flags e cp;
          keep = (piece \<noteq> [] \<or> \<not> ignore_blank flags);
          out = (if keep then [if strip_space flags then tor_strstrip piece '' '' else piece] else [])
      in (case split_next sep e cp of
            None \<Rightarrow> Some out
          | Some rest \<Rightarrow> Option.bind (split_loop sep flags mx (if keep then n + 1 else n) rest) (\<lambda>more. Some (out @ more))))"
  by (rule split_loop.simps)

lemma split_piece_short: "length (split_piece flags e cp) \<le> length cp"
proof -
  have "length (dropWhile TOR_ISSPACE (rev (take e cp))) \<le> length (rev (take e cp))" by (rule length_dropWhile_le)
  then show ?thesis by (auto simp: split_piece_def)
qed

lemma split_pieces_short:
  assumes "split_loop sep flags mx n str = Some ps" "sep \<noteq> Some []" "\<not> strip_space flags"
  shows "\<forall>p \<in> set ps. length p \<le> length str"
  using assms(1)
proof (induction str arbitrary: n ps rule: length_induct)
  case (1 str)
  let ?cp = "if skip_space flags then dropWhile TOR_ISSPACE str else str"
  let ?e = "split_end sep (mx > 0 \<and> n = mx - 1) ?cp"
  let ?piece = "split_piece flags ?e ?cp"
  let ?keep = "?piece \<noteq> [] \<or> \<not> ignore_blank flags"
  have cp: "length ?cp \<le> length str" by (simp add: length_dropWhile_le)
  have pc: "length ?piece \<le> length str" using split_piece_short [of flags ?e ?cp] cp by (rule le_trans)
  note st = "1.prems" [unfolded split_loop_step [of sep flags mx n str] Let_def]
  show ?case
  proof (cases "split_next sep ?e ?cp")
    case None
    with st pc assms(3) show ?thesis by (auto split: if_splits)
  next
    case (Some rest)
    then have lt: "length rest < length str" using split_next_shorter [OF Some assms(2)] cp by simp
    from st Some obtain more where m: "split_loop sep flags mx (if ?keep then n + 1 else n) rest = Some more"
      and ps: "ps = (if ?keep then [if strip_space flags then tor_strstrip ?piece '' '' else ?piece] else []) @ more"
      by (auto split: Option.bind_splits)
    have IH: "\<forall>p \<in> set more. length p \<le> length rest"
      using "1.IH" [rule_format, OF lt, of "if ?keep then n + 1 else n" more] m by blast
    show ?thesis
    proof
      fix p assume "p \<in> set ps"
      then consider "p = ?piece" | "p \<in> set more" unfolding ps using assms(3) by (auto split: if_splits)
      then show "length p \<le> length str" using pc IH lt by cases (auto intro: le_trans less_imp_le)
    qed
  qed
qed

text \<open>A piece that the splitting keeps as it is.\<close>

definition solid :: "char \<Rightarrow> string \<Rightarrow> bool" where
  "solid c p \<longleftrightarrow> p \<noteq> [] \<and> c \<notin> set p \<and> \<not> TOR_ISSPACE (hd p) \<and> \<not> TOR_ISSPACE (last p)"

lemma solid_piece:
  assumes "solid c p"
  shows "dropWhile TOR_ISSPACE (p @ r) = p @ r" "split_piece line_split (length p) (p @ r) = p"
proof -
  show "dropWhile TOR_ISSPACE (p @ r) = p @ r" using assms by (cases p) (auto simp: solid_def)
  have "dropWhile TOR_ISSPACE (rev p) = rev p"
    using assms by (simp add: dropWhile_eq_self_iff hd_rev solid_def)
  then show "split_piece line_split (length p) (p @ r) = p" by (simp add: split_piece_def line_split_def)
qed

lemma line_flags [simp]:
  "skip_space line_split" "ignore_blank line_split" "\<not> strip_space line_split"
  by (simp_all add: line_split_def)

lemma line_split_one:
  assumes "solid c p"
  shows "split_loop (Some [c]) line_split 0 n p = Some [p]"
    and "split_loop (Some [c]) line_split 0 n (p @ c # r) =
      Option.bind (split_loop (Some [c]) line_split 0 (n + 1) r) (\<lambda>more. Some (p # more))"
proof -
  have e: "split_end (Some [c]) (0 < (0 :: int) \<and> n = 0 - 1) (p @ r) = length p" if "r = [] \<or> hd r = c" for r
  proof (cases r)
    case Nil
    with assms show ?thesis by (simp add: split_end_def find_sub_singleton solid_def)
  next
    case (Cons d r')
    with that have "find_sub [c] (p @ r) = Some (length p)"
      using find_sub_append [of c p "[]" r'] assms by (simp add: solid_def)
    then show ?thesis by (simp add: split_end_def)
  qed
  have p: "p \<noteq> []" using assms by (simp add: solid_def)
  note d = solid_piece(1) [OF assms, of "[]", unfolded append_Nil2]
  note pc = solid_piece(2) [OF assms, of "[]", unfolded append_Nil2]
  have e0: "split_end (Some [c]) (0 < (0 :: int) \<and> n = 0 - 1) p = length p" using e [of "[]"] by simp
  show "split_loop (Some [c]) line_split 0 n p = Some [p]"
    using p by (simp only: split_loop_step [of "Some [c]" line_split 0 n p] Let_def line_flags if_True d e0 pc)
      (simp add: split_next_def)
  have e1: "split_end (Some [c]) (0 < (0 :: int) \<and> n = 0 - 1) (p @ c # r) = length p" by (rule e) simp
  show "split_loop (Some [c]) line_split 0 n (p @ c # r) =
      Option.bind (split_loop (Some [c]) line_split 0 (n + 1) r) (\<lambda>more. Some (p # more))"
    using p by (simp only: split_loop_step [of "Some [c]" line_split 0 n "p @ c # r"] Let_def line_flags if_True
        solid_piece [OF assms] e1) (simp add: split_next_def)
qed

lemma line_split_join:
  assumes "ps \<noteq> []" "\<forall>p \<in> set ps. solid c p"
  shows "split_loop (Some [c]) line_split 0 n (join_body ps [c]) = Some ps"
  using assms
proof (induction ps arbitrary: n rule: induct_list012)
  case (2 p)
  then show ?case by (simp add: line_split_one)
next
  case (3 p q qs)
  then show ?case using "3.IH"(2) [of "n + 1"] by (simp add: line_split_one)
qed simp

section \<open>No write outside the combined buffer\<close>

lemma max_len_ge: "m \<le> max_len lines m" "line \<in> set lines \<Longrightarrow> length line \<le> max_len lines m"
proof (induction lines arbitrary: m)
  case (Cons x xs)
  {
    case 1
    show ?case using Cons.IH(1) [of "if length x > m then length x else m"] by (simp split: if_splits)
  next
    case 2
    then show ?case using Cons.IH(1) [of "if length x > m then length x else m"] Cons.IH(2)
      by (auto split: if_splits)
  }
qed simp_all

text \<open>The two bounds on the combined string after \<open>k\<close> of \<open>n\<close> lines.\<close>

definition combined_ok :: "nat \<Rightarrow> nat \<Rightarrow> nat \<Rightarrow> string \<Rightarrow> bool" where
  "combined_ok m n k s \<longleftrightarrow> length s \<le> k * (m + 1) \<and> length s \<le> n * 1024 - 1"

lemma size_sub: "c + 1 \<le> b \<Longrightarrow> b < 2 ^ 64 \<Longrightarrow> nat ((int b - int c - 1) mod 2 ^ 64) = b - c - 1"
proof -
  assume a: "c + 1 \<le> b" "b < 2 ^ 64"
  have "int b - int c - 1 = int (b - c - 1)" using a by simp
  moreover have "int (b - c - 1) mod 2 ^ 64 = int (b - c - 1)" using a by simp
  ultimately show ?thesis by simp
qed

lemma mult_step: "k < n \<Longrightarrow> (k + 1) * (a :: nat) \<le> n * a"
  by (rule mult_le_mono1) simp

lemma append_payhash_eq:
  assumes "length combined + 1 \<le> n * 1024" "n * 1024 \<le> INT_MAX"
  shows "append_payhash cap n combined h =
    (let buffer_size = n * 1024; remaining = buffer_size - length combined - 1
     in obind (if combined \<noteq> []
               then if remaining \<ge> 1
                    then obind (buf_strlcat cap combined [NL] buffer_size) (\<lambda>p. Done (p, remaining - 1))
                    else Fail
               else Done (combined, remaining)) (\<lambda>(p, remaining).
          if length h \<le> remaining then buf_strlcat cap p h buffer_size
          else obind (buf_strncat cap p h remaining) (\<lambda>p. buf_terminate cap p (buffer_size - 1))))"
proof -
  have "n * 1024 < 2 ^ 64" using assms(2) by (simp add: INT_MAX_def)
  then have e: "nat ((int (n * 1024) - int (length combined) - 1) mod 2 ^ 64) = n * 1024 - length combined - 1"
    using assms(1) by (rule size_sub [rotated])
  have f: "(n * 1024 > INT_MAX) = False" using assms(2) by simp
  show ?thesis by (simp only: append_payhash_def Let_def e f if_False length_greater_0_conv)
qed

lemma append_payhash_safe:
  assumes inv: "combined_ok m n k s" and k: "k < n" and n: "n * 1024 \<le> INT_MAX" and h: "length h \<le> m"
  shows "append_payhash ((m + 1) * n + 1) n s h \<noteq> Stuck"
    and "append_payhash ((m + 1) * n + 1) n s h = Done p \<Longrightarrow> combined_ok m n (k + 1) p"
proof -
  define cap where "cap = (m + 1) * n + 1"
  have s: "length s \<le> k * (m + 1)" "length s + 1 \<le> n * 1024" using inv k by (auto simp: combined_ok_def)
  have c1: "(k + 1) * (m + 1) < cap" using mult_step [OF k, of "m + 1"] by (simp add: cap_def mult.commute)
  have e: "length (s @ [NL] @ h) \<le> (k + 1) * (m + 1)" using s(1) h by simp
  have cut: "n * 1024 < cap" if "n * 1024 < length s + length h + 2"
  proof -
    have "n * 1024 \<le> (k + 1) * (m + 1)" using that e by simp
    with c1 show ?thesis by simp
  qed
  note eq = append_payhash_eq [OF s(2) n, of cap h, unfolded Let_def]
  have "append_payhash cap n s h \<noteq> Stuck \<and> (append_payhash cap n s h = Done p \<longrightarrow> combined_ok m n (k + 1) p)"
  proof (cases "s = []")
    case True
    show ?thesis
    proof (cases "length h \<le> n * 1024 - 1")
      case fits: True
      then have "append_payhash cap n s h = Done h"
        using eq True e c1 k by (simp add: buf_strlcat_def)
      then show ?thesis using e fits k True by (auto simp: combined_ok_def)
    next
      case False
      then have "n * 1024 < cap" using cut by simp
      then have "append_payhash cap n s h = Done (take (n * 1024 - 1) h)"
        using eq True False k by (simp add: buf_strncat_def buf_terminate_def Let_def)
      then show ?thesis using e by (auto simp: combined_ok_def True)
    qed
  next
    case ne: False
    let ?r = "n * 1024 - length s - 1"
    show ?thesis
    proof (cases "?r \<ge> 1")
      case room: True
      then have room': "length s + 2 \<le> n * 1024" by simp
      have nl: "buf_strlcat cap s [NL] (n * 1024) = Done (s @ [NL])"
        using room s(1) c1 k by (simp add: buf_strlcat_def)
      show ?thesis
      proof (cases "length h \<le> ?r - 1")
        case True
        then have "append_payhash cap n s h = Done (s @ [NL] @ h)"
          using eq ne room room' nl e c1 by (simp add: buf_strlcat_def [of cap "s @ [NL]"])
        then show ?thesis using e True room by (auto simp: combined_ok_def)
      next
        case False
        then have "n * 1024 < cap" using cut room by simp
        then have lt: "n * 1024 - 1 < cap" "Suc (n * 1024 - 2) < cap" using room' by simp_all
        have "append_payhash cap n s h = Done (s @ [NL] @ take (?r - 1) h)"
          using eq ne room room' nl False lt by (simp add: buf_strncat_def buf_terminate_def Let_def)
        then show ?thesis using e room by (auto simp: combined_ok_def)
      qed
    next
      case False
      then have "append_payhash cap n s h = Fail" using eq ne by simp
      then show ?thesis by simp
    qed
  qed
  then show "append_payhash ((m + 1) * n + 1) n s h \<noteq> Stuck"
    "append_payhash ((m + 1) * n + 1) n s h = Done p \<Longrightarrow> combined_ok m n (k + 1) p"
    by (simp_all add: cap_def)
qed

lemma combined_ok_Suc: "combined_ok m n k s \<Longrightarrow> combined_ok m n (k + 1) s"
  unfolding combined_ok_def by (metis add_leE le_add1 mult_le_mono1 order_trans)

lemma token_short:
  assumes "smartlist_split_string [] line (Some [c]) line_split 0 = Done (tokens, n)" "t \<in> set tokens"
  shows "length t \<le> length line"
proof -
  from assms(1) have "split_loop (Some [c]) line_split 0 0 line = Some tokens"
    by (auto simp: smartlist_split_string_def split: option.splits)
  from split_pieces_short [OF this] assms(2) show ?thesis by simp
qed

lemma split_not_Stuck: "smartlist_split_string [] line (Some [c]) line_split 0 \<noteq> Stuck"
  using split_loop_total [of "Some [c]" line_split 0 0 line] by (auto simp: smartlist_split_string_def)

lemma paid_lines_loop_safe:
  assumes "\<forall>line \<in> set lines. length line \<le> m" "k + length lines \<le> n" "n * 1024 \<le> INT_MAX"
    and "combined_ok m n k (pd_payhashes d)"
  shows "paid_lines_loop bn hs zc ((m + 1) * n + 1) n lines d \<noteq> Stuck"
  using assms(1,2,4)
proof (induction lines arbitrary: k d)
  case (Cons line lines)
  have k: "k < n" using Cons.prems(2) by simp
  have next': "paid_lines_loop bn hs zc ((m + 1) * n + 1) n lines d' \<noteq> Stuck"
    if "combined_ok m n (k + 1) (pd_payhashes d')" for d'
    using Cons.IH [OF _ _ that] Cons.prems(1,2) by simp
  note skip = next' [OF combined_ok_Suc [OF Cons.prems(3)]]
  obtain tokens c where t: "smartlist_split_string [] line (Some '' '') line_split 0 = Done (tokens, c)"
    using split_not_Stuck [of line SP] by (cases "smartlist_split_string [] line (Some '' '') line_split 0")
      (auto simp: smartlist_split_string_def split: option.splits)
  show ?case
  proof (cases "length tokens = 2 \<and> payment_util_parse_payment_line (Some line) \<noteq> None")
    case False
    then show ?thesis using t skip by (auto split: option.splits)
  next
    case True
    then obtain item where it: "length tokens = 2" "payment_util_parse_payment_line (Some line) = Some item" by blast
    have h: "length (tokens ! 1) \<le> m"
      using token_short [OF t, of "tokens ! 1"] it(1) Cons.prems(1) by fastforce
    note sf = append_payhash_safe [OF Cons.prems(3) k assms(3) h]
    show ?thesis
    proof (cases "append_payhash ((m + 1) * n + 1) n (pd_payhashes d) (tokens ! 1)")
      case (Done p)
      then show ?thesis using t it next' [where d' = "_\<lparr>pd_payhashes := p, pd_nodes := _\<rparr>"] sf(2) [OF Done]
        by (auto simp: Let_def split: option.splits)
    next
      case Fail
      then show ?thesis using t it next' [where d' = "d\<lparr>pd_payments := _\<rparr>"] combined_ok_Suc [OF Cons.prems(3)]
        by (simp add: Let_def)
    next
      case Stuck
      with sf(1) show ?thesis by simp
    qed
  qed
qed simp

lemma paid_lines_safe:
  assumes "length lines * 1024 \<le> INT_MAX"
  shows "paid_lines bn hs zc lines \<noteq> Stuck"
  unfolding paid_lines_def Let_def
  by (rule paid_lines_loop_safe [where k = 0]) (use assms in \<open>auto simp: max_len_ge combined_ok_def\<close>)

section \<open>What a well-formed command stores\<close>

text \<open>A line: the fingerprint, a space, and the payload without white space at its ends.\<close>

definition paid_line :: "string \<times> string \<Rightarrow> string" where
  "paid_line l = fst l @ SP # snd l"

definition line_ok :: "string \<times> string \<Rightarrow> bool" where
  "line_ok l \<longleftrightarrow> solid SP (fst l) \<and> solid SP (snd l) \<and> NL \<notin> set (fst l) \<and> NL \<notin> set (snd l) \<and>
     128 \<le> length (snd l)"

lemma paid_line_solid: "line_ok l \<Longrightarrow> solid NL (paid_line l)"
  by (auto simp: line_ok_def solid_def paid_line_def)

lemma paid_line_tokens:
  "line_ok l \<Longrightarrow> smartlist_split_string [] (paid_line l) (Some '' '') line_split 0 = Done ([fst l, snd l], 2)"
  using line_split_join [of "[fst l, snd l]" SP 0]
  by (simp add: line_ok_def paid_line_def smartlist_split_string_def)

definition item_of :: "string \<times> string \<Rightarrow> relay_payment_item" where
  "item_of l = the (payment_util_parse_payment_line (Some (paid_line l)))"

lemma paid_line_item:
  assumes "line_ok l"
  shows "payment_util_parse_payment_line (Some (paid_line l)) = Some (item_of l)"
    and "wire_format (item_of l) = Some (payhash_prefix @ snd l)" "fingerprint (item_of l) = Some (fst l)"
proof -
  have "find_sub '' '' (paid_line l) = Some (length (fst l))"
    using find_sub_append [of SP "fst l" "[]" "snd l"] assms by (simp add: line_ok_def solid_def paid_line_def)
  then have "\<exists>it. payment_util_parse_payment_line (Some (paid_line l)) = Some it \<and>
      wire_format it = Some (payhash_prefix @ snd l) \<and> fingerprint it = Some (fst l)"
    using assms by (simp add: payment_util_parse_payment_line_def paid_line_def line_ok_def Let_def)
  then show "payment_util_parse_payment_line (Some (paid_line l)) = Some (item_of l)"
    "wire_format (item_of l) = Some (payhash_prefix @ snd l)" "fingerprint (item_of l) = Some (fst l)"
    by (auto simp: item_of_def)
qed

lemma append_payhash_fits':
  assumes "n * 1024 \<le> INT_MAX" "(m + 1) * n < cap"
    and "length s + length h + (if s = [] then 0 else 1) + 1 \<le> n * 1024"
      "length s + length h + (if s = [] then 0 else 1) \<le> (m + 1) * n"
  shows "append_payhash cap n s h = Done (if s = [] then h else s @ NL # h)"
proof -
  have s: "length s + 1 \<le> n * 1024" using assms(3) by (simp split: if_splits)
  note eq = append_payhash_eq [OF s assms(1), of cap h, unfolded Let_def]
  show ?thesis
  proof (cases "s = []")
    case True
    then have "buf_strlcat cap s h (n * 1024) = Done h" using assms(2-4) by (simp add: buf_strlcat_def)
    moreover have "length h \<le> n * 1024 - length s - 1" using assms(3) True by simp
    ultimately show ?thesis unfolding eq using True
      by (simp only: not_False_eq_True if_True if_False obind.simps prod.case simp_thms)
  next
    case False
    have room: "1 \<le> n * 1024 - length s - 1" "length h \<le> n * 1024 - length s - 1 - 1"
      using assms(3) False by simp_all
    have cat: "buf_strlcat cap s [NL] (n * 1024) = Done (s @ [NL])"
      "buf_strlcat cap (s @ [NL]) h (n * 1024) = Done (s @ NL # h)"
      using assms(2-4) False by (simp_all add: buf_strlcat_def)
    show ?thesis unfolding eq if_P [OF room(1)] cat(1) obind.simps using False cat(2) room(2)
      by (simp only: not_False_eq_True if_True if_False obind.simps prod.case)
  qed
qed

text \<open>The combined string of the payloads is not cut when they fit in 1024 bytes a line.\<close>

lemma join_body_snoc: "ps \<noteq> [] \<Longrightarrow> join_body (ps @ [p]) j = join_body ps j @ j @ p"
  by (induction ps rule: induct_list012) auto

lemma length_join_mono: "length (join_body ps [c]) \<le> length (join_body (ps @ qs) [c])"
proof (induction ps rule: induct_list012)
  case (2 p)
  then show ?case by (cases qs) auto
qed auto

lemma join_bound: "\<forall>p \<in> set ps. length p \<le> m \<Longrightarrow> length (join_body ps [c]) \<le> (m + 1) * length ps - 1 + (if ps = [] then 1 else 0)"
  by (induction ps rule: induct_list012) auto

lemma paid_lines_loop_ok:
  assumes "\<forall>l \<in> set (dn @ todo). line_ok l \<and> length (snd l) \<le> m"
    and "\<forall>l \<in> set todo. bn (fst l) = Some (nd l) \<and> hs (nd l) zc"
    and "length (join_body (map snd (dn @ todo)) [NL]) + 1 \<le> n * 1024" "n * 1024 \<le> INT_MAX"
    and "length (dn @ todo) \<le> n" "(m + 1) * n < cap"
    and "pd_payments d = map item_of dn" "pd_payhashes d = join_body (map snd dn) [NL]" "pd_nodes d = map nd dn"
  shows "paid_lines_loop bn hs zc cap n (map paid_line todo) d =
    Done (Parsed (d\<lparr>pd_payments := map item_of (dn @ todo), pd_payhashes := join_body (map snd (dn @ todo)) [NL],
                    pd_nodes := map nd (dn @ todo)\<rparr>))"
  using assms
proof (induction todo arbitrary: "dn" d)
  case Nil
  then show ?case by simp
next
  case (Cons l todo)
  let ?s = "join_body (map snd dn) [NL]"
  let ?s' = "join_body (map snd (dn @ [l])) [NL]"
  have l: "line_ok l" "length (snd l) \<le> m" using Cons.prems(1) by simp_all
  have s': "?s' = (if ?s = [] then snd l else ?s @ NL # snd l)"
  proof (cases "dn")
    case (Cons a as)
    then have "?s \<noteq> []" using Cons.prems(1) by (cases as) (auto simp: line_ok_def)
    with Cons show ?thesis using join_body_snoc [of "map snd dn" "snd l" "[NL]"] by simp
  qed simp
  have len: "length ?s + length (snd l) + (if ?s = [] then 0 else 1) = length ?s'" unfolding s' by simp
  have fit: "length ?s' + 1 \<le> n * 1024"
    using Cons.prems(3) length_join_mono [of "map snd (dn @ [l])" NL "map snd todo"] by simp
  have bd: "length ?s' \<le> (m + 1) * n - 1"
  proof -
    have "length ?s' \<le> (m + 1) * length (dn @ [l]) - 1"
      using join_bound [of "map snd (dn @ [l])" m NL] Cons.prems(1) by auto
    also have "\<dots> \<le> (m + 1) * n - 1" using Cons.prems(5) by (intro diff_le_mono mult_le_mono2) simp
    finally show ?thesis .
  qed
  have ap: "append_payhash cap n ?s (snd l) = Done ?s'"
    using append_payhash_fits' [of n m cap ?s "snd l"] Cons.prems(4,6) fit bd len s' l by simp
  show ?case
    using Cons.IH [of "dn @ [l]" "d\<lparr>pd_payments := map item_of (dn @ [l]), pd_payhashes := ?s',
        pd_nodes := map nd (dn @ [l])\<rparr>"] Cons.prems ap
    by (simp add: paid_line_tokens [OF l(1)] paid_line_item(1) [OF l(1)] Let_def)
qed

definition command_ok :: "(string \<times> string) list \<Rightarrow> bool" where
  "command_ok ps \<longleftrightarrow> ps \<noteq> [] \<and> list_all line_ok ps \<and> length ps * 1024 \<le> INT_MAX \<and>
     length (join_body (map snd ps) [NL]) + 1 \<le> length ps * 1024"

lemma paid_lines_ok:
  assumes "command_ok ps" "\<forall>l \<in> set ps. bn (fst l) = Some (nd l) \<and> hs (nd l) zc"
  shows "paid_lines bn hs zc (map paid_line ps) =
    Done (Parsed \<lparr>pd_payments = map item_of ps, pd_payhashes = join_body (map snd ps) [NL], pd_nodes = map nd ps\<rparr>)"
proof -
  define m where "m = max_len (map paid_line ps) 0"
  have "\<forall>l \<in> set ([] @ ps). line_ok l \<and> length (snd l) \<le> m"
  proof
    fix l assume l: "l \<in> set ([] @ ps)"
    then have "length (paid_line l) \<le> m" unfolding m_def by (intro max_len_ge) simp
    with l assms(1) show "line_ok l \<and> length (snd l) \<le> m" by (auto simp: command_ok_def list_all_iff paid_line_def)
  qed
  from paid_lines_loop_ok [where bn = bn and nd = nd and hs = hs and zc = zc, OF this assms(2), of "length ps" "(m + 1) * length ps + 1"
      "\<lparr>pd_payments = relay_payments_new, pd_payhashes = [], pd_nodes = []\<rparr>"] assms(1)
  show ?thesis by (simp add: paid_lines_def Let_def m_def [symmetric] command_ok_def relay_payments_new_def)
qed

lemma body_lines:
  assumes "command_ok ps"
  shows "smartlist_split_string [] (join_body (map paid_line ps) [NL]) (Some [NL]) line_split 0 =
    Done (map paid_line ps, length ps)"
  using line_split_join [of "map paid_line ps" NL 0] assms paid_line_solid
  by (simp add: command_ok_def smartlist_split_string_def list_all_iff)

lemma append_nodes_path:
  assumes "\<forall>nd \<in> set nodes. \<forall>first. info_from_node X nd first True \<noteq> None"
    and "\<And>xs. fresh_hop X xs \<notin> set xs"
  shows "\<exists>c' new. append_nodes X nodes first c = (c', True) \<and> cpath c' = cpath c @ new \<and>
    length new = length nodes \<and> (distinct (cpath c) \<longrightarrow> distinct (cpath c')) \<and>
    circ_payhashes c' = circ_payhashes c \<and> circ_relay_payments c' = circ_relay_payments c \<and>
    circ_state c' = circ_state c \<and> marked_for_close c' = marked_for_close c \<and>
    global_identifier c' = global_identifier c"
  using assms(1)
proof (induction nodes arbitrary: first c)
  case (Cons nd nodes)
  then obtain info where i: "info_from_node X nd first True = Some info" by fastforce
  define c1 where "c1 = circuit_append_new_exit X c info"
  define c2 where "c2 = (if desired_path_len c1 > 1 then c1\<lparr>onehop_tunnel := False\<rparr> else c1)"
  have c2: "cpath c2 = cpath c @ [fresh_hop X (cpath c)]" "circ_payhashes c2 = circ_payhashes c"
    "circ_relay_payments c2 = circ_relay_payments c" "circ_state c2 = circ_state c"
    "marked_for_close c2 = marked_for_close c" "global_identifier c2 = global_identifier c"
    by (simp_all add: c2_def c1_def circuit_append_new_exit_def Let_def)
  from Cons.IH [of False c2] Cons.prems obtain c' new where
    IH: "append_nodes X nodes False c2 = (c', True)" "cpath c' = cpath c2 @ new" "length new = length nodes"
      "distinct (cpath c2) \<longrightarrow> distinct (cpath c')" "circ_payhashes c' = circ_payhashes c2"
      "circ_relay_payments c' = circ_relay_payments c2" "circ_state c' = circ_state c2"
      "marked_for_close c' = marked_for_close c2" "global_identifier c' = global_identifier c2" by auto
  have "append_nodes X (nd # nodes) first c = (c', True)"
    using i IH(1) by (simp add: c1_def [symmetric] Let_def c2_def)
  moreover have "distinct (cpath c) \<longrightarrow> distinct (cpath c2)" using assms(2) c2(1) by simp
  ultimately show ?case using IH c2 by (intro exI [of _ c'] exI [of _ "fresh_hop X (cpath c) # new"]) auto
qed simp

section \<open>The properties\<close>

text \<open>
  The combined payment hashes are never written outside their allocation: the loop over
  the lines of an EXTENDPAIDCIRCUIT command returns normally for every command of at most
  2097151 lines, although it appends against a limit other than the size that was allocated.
\<close>

theorem combined_hashes_in_bounds:
  assumes "length lines \<le> 2097151"
  shows "paid_lines bn has_desc zero_circ lines \<noteq> Stuck"
  by (rule paid_lines_safe) (use assms in \<open>simp add: INT_MAX_def\<close>)

lemma combined_hashes_witness:
  "paid_lines (\<lambda>n. Some n) (\<lambda>n z. True) True [replicate 40 (CHR ''A'') @ SP # replicate 2000 (CHR ''b'')] \<noteq> Stuck"
  by (rule combined_hashes_in_bounds) simp

text \<open>
  C8. A well-formed EXTENDPAIDCIRCUIT command for a new circuit succeeds: the new circuit has
  one hop per line, in order, the hash string of all payloads, and the payment that is sent to
  the i-th hop is the one of the i-th line.
\<close>

theorem extendpaid_pays_each_hop:
  assumes "command_ok ps" "length (join_body (map snd ps) [NL]) \<le> 10240"
    and "\<forall>l \<in> set ps. by_nickname X (fst l) = Some (nd l) \<and> has_preferred_descriptor X (nd l) True"
    and "\<forall>l \<in> set ps. \<forall>first. info_from_node X (nd l) first True \<noteq> None"
    and "\<And>xs. fresh_hop X xs \<notin> set xs" "\<And>c. 0 \<le> handle_first_hop X c"
    and "fresh_circuit X = Some c0" "cpath c0 = []" "i < length ps"
  shows "\<exists>c id. handle_control_extendpaidcircuit X ''0'' (join_body (map paid_line ps) [NL]) =
      Done ((250, ''EXTENDED '' @ id), Some c) \<and>
    length (cpath c) = length ps \<and> distinct (cpath c) \<and>
    circ_payhashes c = Some (join_body (map snd ps) [NL]) \<and>
    Option.bind (relay_payments_find_by_hop_num (circ_relay_payments c)
      (int (hop_num_loop (cpath c) (cpath c ! i) 0))) wire_format = Some (payhash_prefix @ snd (ps ! i))"
proof -
  have ne: "ps \<noteq> []" and ok: "line_ok (ps ! i)"
    using assms(1,9) by (auto simp: command_ok_def list_all_iff)
  let ?d = "\<lparr>pd_payments = map item_of ps, pd_payhashes = join_body (map snd ps) [NL], pd_nodes = map nd ps\<rparr>"
  let ?c = "c0\<lparr>first_hop_from_controller := True, any_hop_from_controller := True,
     circ_payhashes := Some (pd_payhashes ?d), circ_relay_payments := Some (map item_of ps)\<rparr>"
  have "\<forall>n \<in> set (map nd ps). \<forall>first. info_from_node X n first True \<noteq> None" using assms(4) by simp
  from append_nodes_path [OF this assms(5), of True ?c] obtain c new where
    c: "append_nodes X (map nd ps) True ?c = (c, True)" "cpath c = new" "length new = length ps" "distinct (cpath c)"
      "circ_payhashes c = Some (pd_payhashes ?d)" "circ_relay_payments c = Some (map item_of ps)"
    using assms(8) by auto
  have pl: "paid_lines (by_nickname X) (has_preferred_descriptor X) True (map paid_line ps) = Done (Parsed ?d)"
    by (rule paid_lines_ok [where nd = nd, OF assms(1)]) (use assms(3) in simp)
  have "handle_control_extendpaidcircuit X ''0'' (join_body (map paid_line ps) [NL]) =
      Done ((250, ''EXTENDED '' @ dec_int (int (global_identifier c))), Some c)"
    using assms(2,7) ne c(1) leD [OF assms(6) [of c]]
    by (simp add: handle_control_extendpaidcircuit_def body_lines [OF assms(1)] pl extend_paid_circuit_def Let_def)
  moreover have "relay_payments_find_by_hop_num (circ_relay_payments c)
      (int (hop_num_loop (cpath c) (cpath c ! i) 0)) = Some (item_of (ps ! i))"
    using hop_payment [of c i "map item_of ps"] c assms(9) by simp
  ultimately show ?thesis using c paid_line_item(2) [OF ok] by simp
qed

text \<open>
  C38. A circuit that is still being built is changed by a command that is refused: the reply is
  that the circuit cannot be extended, but its path has the new hops already and its payments
  are the new ones, and it is not closed.
\<close>

theorem refused_extension_changes_circuit:
  assumes "circ_state c \<noteq> CIRCUIT_STATE_OPEN" "circ_state c \<noteq> CIRCUIT_STATE_GUARD_WAIT"
    and "length (pd_payhashes d) \<le> 10240"
    and "\<forall>n \<in> set (pd_nodes d). \<forall>first. info_from_node X n first True \<noteq> None"
    and "\<And>xs. fresh_hop X xs \<notin> set xs"
  shows "\<exists>c'. extend_paid_circuit X False c d =
      ((551, ''Circuit is not in a state that can be extended''), Some c') \<and>
    length (cpath c') = length (cpath c) + length (pd_nodes d) \<and>
    circ_relay_payments c' = Some (pd_payments d) \<and> marked_for_close c' = marked_for_close c"
proof -
  let ?c = "c\<lparr>circ_payhashes := Some (pd_payhashes d), circ_relay_payments := Some (pd_payments d)\<rparr>"
  from append_nodes_path [OF assms(4,5), of False ?c] obtain c' new where
    "append_nodes X (pd_nodes d) False ?c = (c', True)" "cpath c' = cpath c @ new" "length new = length (pd_nodes d)"
    "circ_relay_payments c' = Some (pd_payments d)" "circ_state c' = circ_state c" "marked_for_close c' = marked_for_close c"
    by auto
  with assms(1-3) show ?thesis by (simp add: extend_paid_circuit_def Let_def)
qed

definition sample_ctl :: "string ctl" where
  "sample_ctl =
     \<lparr>fresh_circuit = Some \<lparr>purpose = CIRCUIT_PURPOSE_C_GENERAL, circ_payhashes = None, circ_relay_payments = None,
        cpath = [], global_identifier = 7, circ_state = CIRCUIT_STATE_CHAN_WAIT, marked_for_close = None,
        hop_infos = [], chosen_exit = None, desired_path_len = 0, onehop_tunnel = True, any_hop_from_controller = False,
        first_hop_from_controller = False\<rparr>,
      circuit_by_id = (\<lambda>i. None), by_nickname = Some, has_preferred_descriptor = (\<lambda>n z. True),
      info_from_node = (\<lambda>n f e. Some sample_node), fresh_hop = (\<lambda>xs. Suc (sum_list xs)),
      handle_first_hop = (\<lambda>c. 0), send_next_onion_skin = (\<lambda>c. 0),
      close_circuit = (\<lambda>c reason. c\<lparr>marked_for_close := Some reason\<rparr>)\<rparr>"

lemma sum_list_fresh: "Suc (sum_list xs) \<notin> set (xs :: nat list)"
  using member_le_sum_list by fastforce

definition sample_lines :: "(string \<times> string) list" where
  "sample_lines = [(''AAAA'', replicate 768 (CHR ''a'')), (''BBBB'', replicate 768 (CHR ''b''))]"

lemma sample_lines_ok: "command_ok sample_lines"
  by (simp add: command_ok_def sample_lines_def line_ok_def solid_def TOR_ISSPACE_iff INT_MAX_def)

lemma extendpaid_witness:
  "\<exists>c id. handle_control_extendpaidcircuit sample_ctl ''0'' (join_body (map paid_line sample_lines) [NL]) =
      Done ((250, ''EXTENDED '' @ id), Some c) \<and>
    length (cpath c) = length sample_lines \<and> distinct (cpath c) \<and>
    circ_payhashes c = Some (join_body (map snd sample_lines) [NL]) \<and>
    Option.bind (relay_payments_find_by_hop_num (circ_relay_payments c)
      (int (hop_num_loop (cpath c) (cpath c ! 1) 0))) wire_format = Some (payhash_prefix @ snd (sample_lines ! 1))"
  by (rule extendpaid_pays_each_hop [where nd = fst and ?c0.0 = "the (fresh_circuit sample_ctl)", OF sample_lines_ok])
     (simp_all add: sample_ctl_def sample_lines_def sum_list_fresh)

lemma refused_extension_witness:
  "\<exists>c'. extend_paid_circuit sample_ctl False (the (fresh_circuit sample_ctl))
        \<lparr>pd_payments = [], pd_payhashes = ''00'', pd_nodes = [''AAAA'']\<rparr> =
      ((551, ''Circuit is not in a state that can be extended''), Some c') \<and>
    length (cpath c') = length (cpath (the (fresh_circuit sample_ctl))) + 1 \<and>
    circ_relay_payments c' = Some [] \<and> marked_for_close c' = marked_for_close (the (fresh_circuit sample_ctl))"
  using refused_extension_changes_circuit [of "the (fresh_circuit sample_ctl)"
      "\<lparr>pd_payments = [], pd_payhashes = ''00'', pd_nodes = [''AAAA'']\<rparr>" sample_ctl]
  by (simp add: sample_ctl_def sum_list_fresh)

end
