(* ===== verification/ConfluxCell.thy ===== *)
theory ConfluxCell
  imports OnionCell
begin

text \<open>
  The cells of conflux, \<open>src/core/or/conflux_cell.c\<close>, with the encoders and parsers of
  \<open>src/trunnel/conflux.c\<close> they call: LINK and LINKED, which join two circuits to a set, and
  SWITCH, which tells how many sequence numbers a leg has to skip.
\<close>

section \<open>The trunnel objects\<close>

record trn_conflux_link =
  link_version :: byte
  link_payload :: "byte list"

record trn_conflux_link_v1 =
  v1_nonce :: "byte list"
  v1_last_seqno_sent :: u64
  v1_last_seqno_recv :: u64
  v1_desired_ux :: byte
  v1_error :: bool

text \<open>The five values of \<open>desired_ux\<close>, in the order of the check.\<close>

definition ux_ok :: "byte \<Rightarrow> bool" where
  "ux_ok x \<longleftrightarrow> x = 3 \<or> x = 2 \<or> x = 4 \<or> x = 1 \<or> x = 0"

definition trn_cell_conflux_link_check :: "trn_conflux_link \<Rightarrow> bool" where
  "trn_cell_conflux_link_check obj \<longleftrightarrow> link_version obj = 1"

definition trn_cell_conflux_link_encode :: "nat \<Rightarrow> trn_conflux_link \<Rightarrow> byte list outcome" where
  "trn_cell_conflux_link_encode avail obj =
     (if \<not> trn_cell_conflux_link_check obj then Fail
      else obind (emit avail [link_version obj] []) (\<lambda>out. emit avail (link_payload obj) out))"

definition trn_cell_conflux_link_parse :: "byte list \<Rightarrow> trn_conflux_link outcome" where
  "trn_cell_conflux_link_parse input =
     obind (grab 1 input) (\<lambda>(v, r).
       if \<not> hd v = 1 then Fail else Done \<lparr>link_version = hd v, link_payload = r\<rparr>)"

definition trn_cell_conflux_link_payload_v1_check :: "trn_conflux_link_v1 \<Rightarrow> bool" where
  "trn_cell_conflux_link_payload_v1_check obj \<longleftrightarrow> \<not> v1_error obj \<and> ux_ok (v1_desired_ux obj)"

definition trn_cell_conflux_link_payload_v1_set_desired_ux :: "trn_conflux_link_v1 \<Rightarrow> byte \<Rightarrow> trn_conflux_link_v1" where
  "trn_cell_conflux_link_payload_v1_set_desired_ux obj val =
     (if \<not> ux_ok val then obj\<lparr>v1_error := True\<rparr> else obj\<lparr>v1_desired_ux := val\<rparr>)"

definition trn_cell_conflux_link_payload_v1_encoded_len :: "trn_conflux_link_v1 \<Rightarrow> nat outcome" where
  "trn_cell_conflux_link_payload_v1_encoded_len obj =
     (if \<not> trn_cell_conflux_link_payload_v1_check obj then Fail else Done (32 + 8 + 8 + 1))"

definition trn_cell_conflux_link_payload_v1_encode :: "nat \<Rightarrow> trn_conflux_link_v1 \<Rightarrow> byte list outcome" where
  "trn_cell_conflux_link_payload_v1_encode avail obj =
     (if \<not> trn_cell_conflux_link_payload_v1_check obj then Fail
      else obind (emit avail (v1_nonce obj) []) (\<lambda>out.
           obind (emit avail (put64 (v1_last_seqno_sent obj)) out) (\<lambda>out.
           obind (emit avail (put64 (v1_last_seqno_recv obj)) out) (\<lambda>out.
             emit avail [v1_desired_ux obj] out))))"

definition trn_cell_conflux_link_payload_v1_parse :: "byte list \<Rightarrow> trn_conflux_link_v1 outcome" where
  "trn_cell_conflux_link_payload_v1_parse input =
     obind (grab 32 input) (\<lambda>(n, r).
     obind (grab 8 r) (\<lambda>(s, r).
     obind (grab 8 r) (\<lambda>(q, r).
     obind (grab 1 r) (\<lambda>(u, r).
       if \<not> ux_ok (hd u) then Fail
       else Done \<lparr>v1_nonce = n, v1_last_seqno_sent = get64 s, v1_last_seqno_recv = get64 q,
                  v1_desired_ux = hd u, v1_error = False\<rparr>))))"

definition trn_cell_conflux_switch_encode :: "nat \<Rightarrow> u32 \<Rightarrow> byte list outcome" where
  "trn_cell_conflux_switch_encode avail seqnum = emit avail (put32 seqnum) []"

definition trn_cell_conflux_switch_parse :: "byte list \<Rightarrow> u32 outcome" where
  "trn_cell_conflux_switch_parse input = obind (grab 4 input) (\<lambda>(s, r). Done (get32 s))"

section \<open>LINK and LINKED cells\<close>

record conflux_cell_link =
  cl_version :: byte
  cl_desired_ux :: byte
  cl_nonce :: "byte list"
  cl_last_seqno_sent :: u64
  cl_last_seqno_recv :: u64

definition conflux_cell_new_link :: "byte list \<Rightarrow> u64 \<Rightarrow> u64 \<Rightarrow> byte \<Rightarrow> conflux_cell_link" where
  "conflux_cell_new_link nonce last_seqno_sent last_seqno_recv ux =
     \<lparr>cl_version = 1, cl_desired_ux = ux, cl_nonce = nonce, cl_last_seqno_sent = last_seqno_sent,
      cl_last_seqno_recv = last_seqno_recv\<rparr>"

text \<open>
  The bytes of a LINK cell. The encoded payload goes into an array of the encoded length, and
  the result of that encoding is not looked at: an array it does not fill stays zero.
\<close>

definition build_link_cell :: "conflux_cell_link \<Rightarrow> byte list outcome" where
  "build_link_cell link =
     (let p = trn_cell_conflux_link_payload_v1_set_desired_ux
                \<lparr>v1_nonce = cl_nonce link, v1_last_seqno_sent = cl_last_seqno_sent link,
                 v1_last_seqno_recv = cl_last_seqno_recv link, v1_desired_ux = 0, v1_error = False\<rparr>
                (cl_desired_ux link)
      in case trn_cell_conflux_link_payload_v1_encoded_len p of
           Done pay_len \<Rightarrow>
             let arr = (case trn_cell_conflux_link_payload_v1_encode pay_len p of
                          Done b \<Rightarrow> b @ zeros (pay_len - length b)
                        | _ \<Rightarrow> zeros pay_len)
             in trn_cell_conflux_link_encode RELAY_PAYLOAD_SIZE \<lparr>link_version = 1, link_payload = arr\<rparr>
         | _ \<Rightarrow> Stuck)"

definition conflux_cell_parse_link_v1 :: "trn_conflux_link \<Rightarrow> conflux_cell_link outcome" where
  "conflux_cell_parse_link_v1 trn_link =
     obind (trn_cell_conflux_link_payload_v1_parse (link_payload trn_link)) (\<lambda>p.
       Done \<lparr>cl_version = link_version trn_link, cl_desired_ux = v1_desired_ux p, cl_nonce = v1_nonce p,
             cl_last_seqno_sent = v1_last_seqno_sent p, cl_last_seqno_recv = v1_last_seqno_recv p\<rparr>)"

definition conflux_cell_parse_link :: "cell \<Rightarrow> u16 \<Rightarrow> conflux_cell_link outcome" where
  "conflux_cell_parse_link c cell_len =
     obind (mem_get (payload c) RELAY_HEADER_SIZE (unat cell_len)) (\<lambda>input.
     obind (trn_cell_conflux_link_parse input) (\<lambda>t.
       if link_version t = 1 then conflux_cell_parse_link_v1 t else Fail))"

section \<open>SWITCH cells\<close>

definition conflux_cell_parse_switch :: "cell \<Rightarrow> u16 \<Rightarrow> u32 outcome" where
  "conflux_cell_parse_switch c rh_len =
     obind (mem_get (payload c) RELAY_HEADER_SIZE (unat rh_len)) (\<lambda>input.
       case trn_cell_conflux_switch_parse input of Done seq \<Rightarrow> Done seq | Stuck \<Rightarrow> Stuck | Fail \<Rightarrow> Done 0)"

text \<open>The payload handed to \<open>relay_send_command_from_edge\<close>, or \<open>Fail\<close> when nothing is sent.\<close>

definition conflux_send_switch_command :: "u64 \<Rightarrow> byte list outcome" where
  "conflux_send_switch_command relative_seq =
     (if \<not> relative_seq < 4294967295 then Stuck
      else obind (trn_cell_conflux_switch_encode RELAY_PAYLOAD_SIZE (ucast relative_seq)) (\<lambda>b.
             Done (b @ zeros (RELAY_PAYLOAD_SIZE - length b))))"

text \<open>A relay cell: a header, and a relay payload of its full size.\<close>

definition relay_cell :: "byte list \<Rightarrow> byte list \<Rightarrow> cell" where
  "relay_cell header relay_payload = \<lparr>command = 3, payload = header @ relay_payload\<rparr>"

section \<open>What is built is parsed back\<close>

lemma v1_parse_encode:
  assumes "length (v1_nonce p) = 32" "trn_cell_conflux_link_payload_v1_check p"
  shows "\<exists>b. trn_cell_conflux_link_payload_v1_encode 49 p = Done b \<and> length b = 49 \<and>
    trn_cell_conflux_link_payload_v1_parse (b @ r) = Done p"
  using assms
  by (cases p) (simp add: trn_cell_conflux_link_payload_v1_encode_def emit_ok
      trn_cell_conflux_link_payload_v1_parse_def trn_cell_conflux_link_payload_v1_check_def)

lemma ucast_small:
  fixes s :: u64
  assumes "s < 4294967295"
  shows "ucast (ucast s :: u32) = s"
proof -
  have "unat s < 2 ^ 32" using assms by (simp add: word_less_nat_alt)
  then have "unat (ucast (ucast s :: u32) :: u64) = unat s"
    by (simp add: unsigned_ucast_eq unsigned_take_bit_eq take_bit_nat_eq_self)
  then show ?thesis by (rule word_unat_eq_iff [THEN iffD2])
qed

lemma switch_parse_send:
  assumes "s < 4294967295" "length header = RELAY_HEADER_SIZE" "4 \<le> unat n" "unat n \<le> RELAY_PAYLOAD_SIZE"
  shows "\<exists>p. conflux_send_switch_command s = Done p \<and>
    (\<exists>k. conflux_cell_parse_switch (relay_cell header p) n = Done k \<and> ucast k = s)"
proof -
  have "ucast (ucast s :: u32) = s" by (rule ucast_small [OF assms(1)])
  moreover have "take (unat n) (put32 (ucast s) @ zeros (RELAY_PAYLOAD_SIZE - 4)) =
      put32 (ucast s) @ zeros (unat n - 4)"
    using assms(3,4) by (simp add: zeros_def)
  ultimately show ?thesis using assms
    by (simp add: conflux_send_switch_command_def trn_cell_conflux_switch_encode_def emit_ok
        conflux_cell_parse_switch_def relay_cell_def mem_get_def trn_cell_conflux_switch_parse_def size_defs
        zeros_def get32_put32)
qed

section \<open>The properties\<close>

text \<open>
  A LINK cell is read back as it was written: for a nonce of 32 bytes and one of the five
  values of the desired experience the cell is built without a failed assertion, and parsing
  it from a relay cell returns the link, whatever follows the payload.
\<close>

theorem link_cell_roundtrip:
  assumes "length nonce = 32" "ux_ok ux" "length header = RELAY_HEADER_SIZE"
  shows "\<exists>b. build_link_cell (conflux_cell_new_link nonce s q ux) = Done b \<and>
    conflux_cell_parse_link (relay_cell header (b @ pad)) (of_nat (length b)) =
      Done (conflux_cell_new_link nonce s q ux)"
proof -
  let ?p = "\<lparr>v1_nonce = nonce, v1_last_seqno_sent = s, v1_last_seqno_recv = q, v1_desired_ux = ux, v1_error = False\<rparr>"
  have "trn_cell_conflux_link_payload_v1_check ?p" using assms(2) by (simp add: trn_cell_conflux_link_payload_v1_check_def)
  with v1_parse_encode [of ?p "[]"] assms(1) obtain b where
    b: "trn_cell_conflux_link_payload_v1_encode 49 ?p = Done b" "length b = 49"
      "trn_cell_conflux_link_payload_v1_parse b = Done ?p" "trn_cell_conflux_link_payload_v1_encoded_len ?p = Done 49"
    by (auto simp: trn_cell_conflux_link_payload_v1_encoded_len_def)
  have "build_link_cell (conflux_cell_new_link nonce s q ux) = Done (1 # b)"
    using b assms(2) by (simp add: build_link_cell_def conflux_cell_new_link_def
        trn_cell_conflux_link_payload_v1_set_desired_ux_def trn_cell_conflux_link_encode_def
        trn_cell_conflux_link_check_def emit_ok size_defs zeros_def)
  moreover have "conflux_cell_parse_link (relay_cell header ((1 # b) @ pad)) (of_nat (length (1 # b))) =
      Done (conflux_cell_new_link nonce s q ux)"
    using b assms(3) by (simp add: conflux_cell_parse_link_def relay_cell_def mem_get_def
        trn_cell_conflux_link_parse_def conflux_cell_parse_link_v1_def conflux_cell_new_link_def)
  ultimately show ?thesis by blast
qed

lemma link_cell_witness:
  "\<exists>b. build_link_cell (conflux_cell_new_link (replicate 32 7) 12 34 3) = Done b \<and>
    conflux_cell_parse_link (relay_cell (zeros RELAY_HEADER_SIZE) (b @ [1, 2])) (of_nat (length b)) =
      Done (conflux_cell_new_link (replicate 32 7) 12 34 3)"
  by (rule link_cell_roundtrip) (simp_all add: ux_ok_def zeros_def)

end
