(* ===== verification/SmartlistCore.thy ===== *)
theory SmartlistCore
  imports Prelude "HOL-Library.Multiset"
begin

text \<open>
  The resizeable array of pointers of \<open>src/lib/smartlist_core/smartlist_core.c\<close>, with the
  array itself, its capacity and the entries behind the used ones. A pointer is an option,
  \<open>NULL\<close> is \<open>None\<close>; two pointers are equal when the options are. The lemmas relate every
  operation to one on lists.
\<close>

section \<open>The array\<close>

record 'p smartlist =
  entries :: "'p option list"
  num_used :: nat
  capacity :: nat

definition SMARTLIST_DEFAULT_CAPACITY :: nat where "SMARTLIST_DEFAULT_CAPACITY = 16"

text \<open>\<open>MAX_CAPACITY\<close>, with 8-byte pointers and a 64-bit \<open>size_t\<close>.\<close>

definition MAX_CAPACITY :: nat where "MAX_CAPACITY = INT_MAX"

definition smartlist_new :: "'p smartlist" where
  "smartlist_new = \<lparr>entries = replicate SMARTLIST_DEFAULT_CAPACITY None, num_used = 0,
     capacity = SMARTLIST_DEFAULT_CAPACITY\<rparr>"

text \<open>\<open>memset\<close> of \<open>n\<close> entries from \<open>off\<close> to zero, \<open>memcpy\<close> into the array, one store, one load.\<close>

definition wipe_entries :: "'p option list \<Rightarrow> nat \<Rightarrow> nat \<Rightarrow> 'p option list outcome" where
  "wipe_entries es off n =
     (if off + n \<le> length es then Done (take off es @ replicate n None @ drop (off + n) es) else Stuck)"

definition copy_entries :: "'p option list \<Rightarrow> nat \<Rightarrow> 'p option list \<Rightarrow> 'p option list outcome" where
  "copy_entries es off src =
     (if off + length src \<le> length es
      then Done (take off es @ src @ drop (off + length src) es) else Stuck)"

definition put_entry :: "'p option list \<Rightarrow> nat \<Rightarrow> 'p option \<Rightarrow> 'p option list outcome" where
  "put_entry es i x = (if i < length es then Done (es[i := x]) else Stuck)"

definition get_entry :: "'p option list \<Rightarrow> nat \<Rightarrow> 'p option outcome" where
  "get_entry es i = (if i < length es then Done (es ! i) else Stuck)"

definition smartlist_clear :: "'p smartlist \<Rightarrow> 'p smartlist outcome" where
  "smartlist_clear sl =
     obind (wipe_entries (entries sl) 0 (num_used sl)) (\<lambda>es. Done (sl\<lparr>entries := es, num_used := 0\<rparr>))"

text \<open>The doubling loop; from a capacity of zero it would not end.\<close>

partial_function (option) double_capacity :: "nat \<Rightarrow> nat \<Rightarrow> nat option" where
  "double_capacity wanted higher = (if wanted > higher then double_capacity wanted (higher * 2) else Some higher)"

definition smartlist_ensure_capacity :: "'p smartlist \<Rightarrow> nat \<Rightarrow> 'p smartlist outcome" where
  "smartlist_ensure_capacity sl wanted =
     (if \<not> wanted \<le> MAX_CAPACITY then Stuck
      else if wanted > capacity sl
      then (case (if wanted > MAX_CAPACITY div 2 then Some MAX_CAPACITY
                  else double_capacity wanted (capacity sl)) of
              None \<Rightarrow> Stuck
            | Some higher \<Rightarrow>
                let grown = entries sl @ replicate (higher - length (entries sl)) None
                in obind (wipe_entries grown (capacity sl) (higher - capacity sl)) (\<lambda>es.
                     Done (sl\<lparr>entries := es, capacity := higher\<rparr>)))
      else Done sl)"

definition smartlist_grow :: "'p smartlist \<Rightarrow> nat \<Rightarrow> 'p smartlist outcome" where
  "smartlist_grow sl new_size =
     obind (smartlist_ensure_capacity sl new_size) (\<lambda>sl.
       if new_size > num_used sl
       then obind (wipe_entries (entries sl) (num_used sl) (new_size - num_used sl)) (\<lambda>es.
              Done (sl\<lparr>entries := es, num_used := new_size\<rparr>))
       else Done sl)"

definition smartlist_add :: "'p smartlist \<Rightarrow> 'p option \<Rightarrow> 'p smartlist outcome" where
  "smartlist_add sl element =
     obind (smartlist_ensure_capacity sl (num_used sl + 1)) (\<lambda>sl.
     obind (put_entry (entries sl) (num_used sl) element) (\<lambda>es.
       Done (sl\<lparr>entries := es, num_used := num_used sl + 1\<rparr>)))"

definition smartlist_add_all :: "'p smartlist \<Rightarrow> 'p smartlist \<Rightarrow> 'p smartlist outcome" where
  "smartlist_add_all s1 s2 =
     (let new_size = num_used s1 + num_used s2
      in obind (smartlist_ensure_capacity s1 new_size) (\<lambda>s1.
         obind (copy_entries (entries s1) (num_used s1) (take (num_used s2) (entries s2))) (\<lambda>es.
           if \<not> new_size \<le> INT_MAX then Stuck
           else Done (s1\<lparr>entries := es, num_used := new_size\<rparr>))))"

text \<open>The body of the removal loop, \<open>list[i] = list[--num_used]\<close> and the cleared last entry.\<close>

definition swap_out :: "'p smartlist \<Rightarrow> nat \<Rightarrow> 'p smartlist outcome" where
  "swap_out sl i =
     obind (get_entry (entries sl) (num_used sl - 1)) (\<lambda>lst.
     obind (put_entry (entries sl) i lst) (\<lambda>es.
     obind (put_entry es (num_used sl - 1) None) (\<lambda>es.
       Done (sl\<lparr>entries := es, num_used := num_used sl - 1\<rparr>))))"

function remove_loop :: "'p smartlist \<Rightarrow> 'p option \<Rightarrow> nat \<Rightarrow> 'p smartlist outcome" where
  "remove_loop sl element i =
     (if i < num_used sl
      then obind (get_entry (entries sl) i) (\<lambda>e.
             if e = element then obind (swap_out sl i) (\<lambda>sl'. remove_loop sl' element i)
             else remove_loop sl element (i + 1))
      else Done sl)"
  by pat_completeness auto
termination
  by (relation "measure (\<lambda>(sl, e, i). num_used sl - i)")
     (auto simp: swap_out_def outcome_elims)

declare remove_loop.simps [simp del]

definition smartlist_remove :: "'p smartlist \<Rightarrow> 'p option \<Rightarrow> 'p smartlist outcome" where
  "smartlist_remove sl element = (if element = None then Done sl else remove_loop sl element 0)"

text \<open>The loop of the order-keeping removal, with its two indices.\<close>

function keeporder_loop :: "'p smartlist \<Rightarrow> 'p option \<Rightarrow> nat \<Rightarrow> nat \<Rightarrow> nat \<Rightarrow> 'p smartlist outcome" where
  "keeporder_loop sl element i j orig =
     (if j < orig
      then obind (get_entry (entries sl) j) (\<lambda>e.
             if e = element then keeporder_loop (sl\<lparr>num_used := num_used sl - 1\<rparr>) element i (j + 1) orig
             else obind (put_entry (entries sl) i e) (\<lambda>es.
                    keeporder_loop (sl\<lparr>entries := es\<rparr>) element (i + 1) (j + 1) orig))
      else Done sl)"
  by pat_completeness auto
termination by (relation "measure (\<lambda>(sl, e, i, j, orig). orig - j)") auto

declare keeporder_loop.simps [simp del]

definition smartlist_remove_keeporder :: "'p smartlist \<Rightarrow> 'p option \<Rightarrow> 'p smartlist outcome" where
  "smartlist_remove_keeporder sl element =
     (let num_used_orig = num_used sl
      in if element = None then Done sl
         else obind (keeporder_loop sl element 0 0 num_used_orig) (\<lambda>sl.
              obind (wipe_entries (entries sl) (num_used sl) (num_used_orig - num_used sl)) (\<lambda>es.
                Done (sl\<lparr>entries := es\<rparr>))))"

definition smartlist_pop_last :: "'p smartlist \<Rightarrow> ('p option \<times> 'p smartlist) outcome" where
  "smartlist_pop_last sl =
     (if num_used sl \<noteq> 0
      then obind (get_entry (entries sl) (num_used sl - 1)) (\<lambda>tmp.
           obind (put_entry (entries sl) (num_used sl - 1) None) (\<lambda>es.
             Done (tmp, sl\<lparr>entries := es, num_used := num_used sl - 1\<rparr>)))
      else Done (None, sl))"

fun contains_loop :: "'p option list \<Rightarrow> 'p option \<Rightarrow> bool" where
  "contains_loop [] element = False"
| "contains_loop (e # es) element = (if e = element then True else contains_loop es element)"

definition smartlist_contains :: "'p smartlist \<Rightarrow> 'p option \<Rightarrow> bool" where
  "smartlist_contains sl element = contains_loop (take (num_used sl) (entries sl)) element"

definition smartlist_del :: "'p smartlist \<Rightarrow> int \<Rightarrow> 'p smartlist outcome" where
  "smartlist_del sl idx =
     (if \<not> idx \<ge> 0 then Stuck else if \<not> idx < int (num_used sl) then Stuck else swap_out sl (nat idx))"

definition smartlist_del_keeporder :: "'p smartlist \<Rightarrow> int \<Rightarrow> 'p smartlist outcome" where
  "smartlist_del_keeporder sl idx =
     (if \<not> idx \<ge> 0 then Stuck else if \<not> idx < int (num_used sl) then Stuck
      else let n = num_used sl - 1; i = nat idx
           in obind (if i < n then copy_entries (entries sl) i (take (n - i) (drop (i + 1) (entries sl)))
                     else Done (entries sl)) (\<lambda>es.
              obind (put_entry es n None) (\<lambda>es. Done (sl\<lparr>entries := es, num_used := n\<rparr>))))"

definition smartlist_insert :: "'p smartlist \<Rightarrow> int \<Rightarrow> 'p option \<Rightarrow> 'p smartlist outcome" where
  "smartlist_insert sl idx val =
     (if \<not> idx \<ge> 0 then Stuck else if \<not> idx \<le> int (num_used sl) then Stuck
      else if idx = int (num_used sl) then smartlist_add sl val
      else obind (smartlist_ensure_capacity sl (num_used sl + 1)) (\<lambda>sl.
           let i = nat idx
           in obind (if i < num_used sl
                     then copy_entries (entries sl) (i + 1) (take (num_used sl - i) (drop i (entries sl)))
                     else Done (entries sl)) (\<lambda>es.
              obind (put_entry es i val) (\<lambda>es. Done (sl\<lparr>entries := es, num_used := num_used sl + 1\<rparr>)))))"

section \<open>The representation invariant and the list it stands for\<close>

definition smartlist_ok :: "'p smartlist \<Rightarrow> bool" where
  "smartlist_ok sl \<longleftrightarrow> length (entries sl) = capacity sl \<and> 0 < capacity sl \<and> capacity sl \<le> MAX_CAPACITY \<and>
     num_used sl \<le> capacity sl \<and> drop (num_used sl) (entries sl) = replicate (capacity sl - num_used sl) None"

definition abs_list :: "'p smartlist \<Rightarrow> 'p option list" where
  "abs_list sl = take (num_used sl) (entries sl)"

text \<open>What an operation yields when it succeeds: a sound array that stands for the list.\<close>

definition yields :: "'p smartlist outcome \<Rightarrow> 'p option list \<Rightarrow> bool" where
  "yields r xs \<longleftrightarrow> (\<exists>sl. r = Done sl \<and> smartlist_ok sl \<and> abs_list sl = xs)"

text \<open>The one sound array with given entries and capacity.\<close>

definition rep :: "'p option list \<Rightarrow> nat \<Rightarrow> 'p smartlist" where
  "rep xs c = \<lparr>entries = xs @ replicate (c - length xs) None, num_used = length xs, capacity = c\<rparr>"

lemma rep_sel [simp]:
  "entries (rep xs c) = xs @ replicate (c - length xs) None" "num_used (rep xs c) = length xs" "capacity (rep xs c) = c"
  "abs_list (rep xs c) = xs"
  by (simp_all add: rep_def abs_list_def)

definition fits :: "'p option list \<Rightarrow> nat \<Rightarrow> bool" where
  "fits xs c \<longleftrightarrow> length xs \<le> c \<and> 0 < c \<and> c \<le> MAX_CAPACITY"

lemma ok_rep: "smartlist_ok (rep xs c) \<longleftrightarrow> fits xs c"
  by (auto simp: smartlist_ok_def fits_def)

lemma ok_is_rep:
  assumes "smartlist_ok sl"
  shows "sl = rep (abs_list sl) (capacity sl)" "fits (abs_list sl) (capacity sl)"
proof -
  show "sl = rep (abs_list sl) (capacity sl)"
    using assms append_take_drop_id [of "num_used sl" "entries sl"]
    by (cases sl) (auto simp: smartlist_ok_def abs_list_def rep_def)
  show "fits (abs_list sl) (capacity sl)"
    using assms by (simp add: smartlist_ok_def abs_list_def fits_def)
qed

text \<open>An operation on all sound arrays is one on all their representations.\<close>

lemma yields_lift:
  assumes "smartlist_ok sl" "\<And>c. fits (abs_list sl) c \<Longrightarrow> \<exists>c'. f (rep (abs_list sl) c) = Done (rep ys c') \<and> fits ys c'"
  shows "yields (f sl) ys"
proof -
  from assms(2) [OF ok_is_rep(2) [OF assms(1)]] obtain c' where
    "f (rep (abs_list sl) (capacity sl)) = Done (rep ys c')" "fits ys c'" by blast
  with ok_is_rep(1) [OF assms(1)] show ?thesis by (auto simp: yields_def ok_rep)
qed

section \<open>Each operation implements the one on lists\<close>

lemma new_yields: "smartlist_ok smartlist_new" "abs_list smartlist_new = []"
  by (simp_all add: smartlist_new_def smartlist_ok_def abs_list_def SMARTLIST_DEFAULT_CAPACITY_def
      MAX_CAPACITY_def INT_MAX_def)

lemma replicate_split: "a + b = k \<Longrightarrow> replicate k x = replicate a x @ replicate b x"
  by (simp only: replicate_add [symmetric])

lemma wipe_unused:
  fixes xs :: "'p option list"
  assumes "off + n \<le> length xs + k" "length xs \<le> off"
  shows "wipe_entries (xs @ replicate k None) off n = Done (xs @ replicate k None)"
proof -
  have a: "off - length xs + (n + (k - (off - length xs + n))) = k" using assms by simp
  have "replicate k (None :: 'p option) = replicate (off - length xs) None @ replicate n None @ replicate (k - (off - length xs + n)) None"
    by (subst replicate_split [OF a]) (simp only: replicate_add)
  moreover have "drop (off + n) (xs @ replicate k None) = replicate (k - (off - length xs + n)) None"
    "take off (xs @ replicate k None) = xs @ replicate (off - length xs) None" using assms by simp_all
  ultimately show ?thesis using assms(1) by (simp add: wipe_entries_def)
qed

lemma double_capacity_ok:
  "0 < higher \<Longrightarrow> \<exists>h. double_capacity wanted higher = Some h \<and> wanted \<le> h \<and> higher \<le> h \<and> (h = higher \<or> h < 2 * wanted)"
proof (induction "wanted - higher" arbitrary: higher rule: less_induct)
  case less
  show ?case
  proof (cases "wanted > higher")
    case True
    have "wanted - higher * 2 < wanted - higher" using True less.prems by simp
    from less.hyps [OF this] less.prems obtain h where
      "double_capacity wanted (higher * 2) = Some h" "wanted \<le> h" "higher * 2 \<le> h" "h = higher * 2 \<or> h < 2 * wanted"
      by auto
    with True less.prems show ?thesis by (subst double_capacity.simps) auto
  qed (subst double_capacity.simps, simp)
qed

lemma ensure_rep:
  fixes xs :: "'p option list"
  assumes "fits xs c" "wanted \<le> MAX_CAPACITY"
  shows "\<exists>c'. smartlist_ensure_capacity (rep xs c) wanted = Done (rep xs c') \<and> wanted \<le> c' \<and> fits xs c'"
proof (cases "wanted > c")
  case True
  have c: "length xs \<le> c" "0 < c" "c \<le> MAX_CAPACITY" using assms(1) by (simp_all add: fits_def)
  define h where "h = (if wanted > MAX_CAPACITY div 2 then Some MAX_CAPACITY else double_capacity wanted c)"
  obtain c' where h: "h = Some c'" "wanted \<le> c'" "c \<le> c'" "c' \<le> MAX_CAPACITY"
  proof (cases "wanted > MAX_CAPACITY div 2")
    case True
    with assms c that show ?thesis by (simp add: h_def)
  next
    case False
    with double_capacity_ok [OF c(2), of wanted] that c(3) show ?thesis by (auto simp: h_def)
  qed
  have "replicate (c' - length xs) (None :: 'p option) = replicate (c - length xs) None @ replicate (c' - c) None"
    by (rule replicate_split) (use h(3) c in simp)
  then have g: "entries (rep xs c) @ replicate (c' - length (entries (rep xs c))) None = xs @ replicate (c' - length xs) None"
    using c by simp
  have w: "wipe_entries (xs @ replicate (c' - length xs) None) c (c' - c) = Done (xs @ replicate (c' - length xs) None)"
    using h(3) c(1) by (intro wipe_unused) auto
  have "smartlist_ensure_capacity (rep xs c) wanted = (case h of None \<Rightarrow> Stuck
      | Some higher \<Rightarrow>
          let grown = entries (rep xs c) @ replicate (higher - length (entries (rep xs c))) None
          in obind (wipe_entries grown c (higher - c)) (\<lambda>es. Done (rep xs c\<lparr>entries := es, capacity := higher\<rparr>)))"
    using True assms(2) by (simp only: smartlist_ensure_capacity_def h_def rep_sel(3) if_True not_True_eq_False if_False)
  also have "\<dots> = Done (rep xs c')" unfolding h(1) option.case Let_def g w obind.simps by (simp add: rep_def)
  finally have "smartlist_ensure_capacity (rep xs c) wanted = Done (rep xs c')" .
  with h c show ?thesis by (auto simp: fits_def)
next
  case False
  with assms show ?thesis by (intro exI [of _ c]) (simp add: smartlist_ensure_capacity_def)
qed

lemma rep_upd [simp]:
  "rep xs c\<lparr>entries := ys @ replicate (c - length ys) None, num_used := length ys\<rparr> = rep ys c"
  by (simp add: rep_def)

lemma put_next:
  assumes "length xs < c"
  shows "put_entry (xs @ replicate (c - length xs) None) (length xs) x =
     Done ((xs @ [x]) @ replicate (c - length (xs @ [x])) None)"
proof -
  obtain k where "c - length xs = Suc k" using assms by (cases "c - length xs") auto
  then show ?thesis using assms by (simp add: put_entry_def list_update_append)
qed

lemma add_rep:
  assumes "fits xs c" "length xs < MAX_CAPACITY"
  shows "\<exists>c'. smartlist_add (rep xs c) x = Done (rep (xs @ [x]) c') \<and> fits (xs @ [x]) c'"
proof -
  from ensure_rep [OF assms(1), of "length xs + 1"] assms(2) obtain c' where
    e: "smartlist_ensure_capacity (rep xs c) (length xs + 1) = Done (rep xs c')" "length xs + 1 \<le> c'" "fits xs c'" by auto
  have "smartlist_add (rep xs c) x = Done (rep (xs @ [x]) c')"
    using e put_next [of xs c' x] rep_upd [where xs = xs and c = c' and ys = "xs @ [x]"] by (simp add: smartlist_add_def)
  with e show ?thesis by (auto simp: fits_def)
qed

lemma grow_rep:
  fixes xs :: "'p option list"
  assumes "fits xs c" "n \<le> MAX_CAPACITY"
  shows "\<exists>c'. smartlist_grow (rep xs c) n = Done (rep (xs @ replicate (n - length xs) None) c') \<and>
    fits (xs @ replicate (n - length xs) None) c'"
proof -
  from ensure_rep [OF assms] obtain c' where
    e: "smartlist_ensure_capacity (rep xs c) n = Done (rep xs c')" "n \<le> c'" "fits xs c'" by blast
  show ?thesis
  proof (cases "n > length xs")
    case True
    let ?ys = "xs @ replicate (n - length xs) None"
    have w: "wipe_entries (xs @ replicate (c' - length xs) None) (length xs) (n - length xs) =
        Done (xs @ replicate (c' - length xs) None)"
      using e(2) True by (intro wipe_unused) auto
    have "replicate (c' - length xs) (None :: 'p option) = replicate (n - length xs) None @ replicate (c' - n) None"
      by (rule replicate_split) (use True e(2) in simp)
    then have "xs @ replicate (c' - length xs) None = ?ys @ replicate (c' - length ?ys) None" using True by simp
    with w have "smartlist_grow (rep xs c) n = Done (rep ?ys c')"
      using True e(1) rep_upd [where xs = xs and c = c' and ys = "?ys"] by (simp add: smartlist_grow_def)
    with e True show ?thesis by (auto simp: fits_def)
  next
    case False
    then have "smartlist_grow (rep xs c) n = Done (rep xs c')" using e by (simp add: smartlist_grow_def)
    with e False show ?thesis by auto
  qed
qed

lemma clear_rep:
  fixes xs :: "'p option list"
  assumes "fits xs c"
  shows "smartlist_clear (rep xs c) = Done (rep [] c) \<and> fits [] c"
proof -
  have "replicate c (None :: 'p option) = replicate (length xs) None @ replicate (c - length xs) None"
    by (rule replicate_split) (use assms in \<open>simp add: fits_def\<close>)
  with assms show ?thesis by (simp add: smartlist_clear_def wipe_entries_def fits_def rep_def)
qed

lemma add_all_rep:
  assumes "fits xs c" "smartlist_ok s2" "length xs + length (abs_list s2) \<le> MAX_CAPACITY"
  shows "\<exists>c'. smartlist_add_all (rep xs c) s2 = Done (rep (xs @ abs_list s2) c') \<and> fits (xs @ abs_list s2) c'"
proof -
  let ?ys = "abs_list s2"
  have n: "num_used s2 = length ?ys" using assms(2) by (simp add: smartlist_ok_def abs_list_def)
  from ensure_rep [OF assms(1,3)] obtain c' where
    e: "smartlist_ensure_capacity (rep xs c) (length xs + length ?ys) = Done (rep xs c')"
       "length xs + length ?ys \<le> c'" "fits xs c'" by blast
  have "copy_entries (xs @ replicate (c' - length xs) None) (length xs) ?ys =
      Done ((xs @ ?ys) @ replicate (c' - length (xs @ ?ys)) None)"
    using e(2) by (simp add: copy_entries_def)
  moreover have "take (length ?ys) (entries s2) = ?ys" using n by (simp add: abs_list_def)
  ultimately have "smartlist_add_all (rep xs c) s2 = Done (rep (xs @ ?ys) c')"
    using e(1) assms(3) rep_upd [where xs = xs and c = c' and ys = "xs @ ?ys"] n
    by (simp add: smartlist_add_all_def MAX_CAPACITY_def Let_def)
  with e show ?thesis by (auto simp: fits_def)
qed

text \<open>Taking an entry out and putting the last one in its place.\<close>

definition list_del :: "'a list \<Rightarrow> nat \<Rightarrow> 'a list" where
  "list_del xs i = (butlast xs)[i := last xs]"

lemma length_list_del [simp]: "length (list_del xs i) = length xs - 1"
  by (simp add: list_del_def)

lemma mset_list_del: "i < length xs \<Longrightarrow> add_mset (xs ! i) (mset (list_del xs i)) = mset xs"
proof (cases xs rule: rev_cases)
  case (snoc ys y)
  assume "i < length xs"
  then consider "i < length ys" | "i = length ys" using snoc by fastforce
  then show ?thesis
  proof cases
    case 1
    then have "ys ! i \<in># mset ys" by simp
    with 1 show ?thesis by (simp add: list_del_def snoc mset_update nth_append)
  qed (simp add: list_del_def snoc list_update_beyond)
qed simp

lemma take_list_del: "i < length xs \<Longrightarrow> take i (list_del xs i) = take i xs"
  by (simp add: list_del_def take_butlast)

lemma swap_out_rep:
  fixes xs :: "'p option list"
  assumes "fits xs c" "i < length xs"
  shows "swap_out (rep xs c) i = Done (rep (list_del xs i) c) \<and> fits (list_del xs i) c"
proof -
  let ?r = "replicate (c - length xs) None"
  from assms(2) obtain ys y where xs: "xs = ys @ [y]" by (cases xs rule: rev_cases) auto
  have c: "Suc (length ys) \<le> c" using assms(1) by (simp add: fits_def xs)
  have "put_entry (xs @ ?r) i y = Done (xs[i := y] @ ?r)" using assms(2) by (simp add: put_entry_def list_update_append)
  moreover have "xs[i := y] = list_del xs i @ [y]"
    using assms(2) by (cases "i = length ys") (auto simp: xs list_del_def list_update_append list_update_beyond)
  moreover have "put_entry ((list_del xs i @ [y]) @ ?r) (length ys) None = Done (list_del xs i @ replicate (c - length ys) None)"
  proof -
    have "None # ?r = replicate (c - length ys) None" using c by (simp add: xs Suc_diff_Suc flip: replicate_Suc)
    then show ?thesis by (simp add: put_entry_def list_update_append xs list_del_def)
  qed
  moreover have "get_entry (xs @ ?r) (length ys) = Done y" by (simp add: get_entry_def xs)
  ultimately have "swap_out (rep xs c) i = Done (rep (list_del xs i) c)"
    using rep_upd [where xs = xs and c = c and ys = "list_del xs i"] by (simp add: swap_out_def xs)
  moreover have "fits (list_del xs i) c" using assms by (auto simp: fits_def)
  ultimately show ?thesis by blast
qed

lemma remove_loop_rep:
  assumes "fits xs c"
  shows "\<exists>ys. remove_loop (rep xs c) e i = Done (rep ys c) \<and> fits ys c \<and> take i ys = take i xs \<and>
    mset ys = mset (take i xs) + filter_mset (\<lambda>x. x \<noteq> e) (mset (drop i xs))"
  using assms
proof (induction "length xs - i" arbitrary: xs i rule: less_induct)
  case less
  show ?case
  proof (cases "i < length xs")
    case True
    have g: "get_entry (entries (rep xs c)) i = Done (xs ! i)" using True by (simp add: get_entry_def nth_append)
    have d: "drop i xs = xs ! i # drop (Suc i) xs" using True by (rule Cons_nth_drop_Suc [symmetric])
    show ?thesis
    proof (cases "xs ! i = e")
      case eq: True
      let ?ys = "list_del xs i"
      have sw: "swap_out (rep xs c) i = Done (rep ?ys c)" "fits ?ys c" using swap_out_rep [OF less.prems True] by auto
      have t: "take i ?ys = take i xs" by (rule take_list_del [OF True])
      have "mset (take i ?ys) + mset (drop i ?ys) = mset ?ys" by (simp flip: mset_append)
      moreover have "mset (take i xs) + mset (drop i xs) = add_mset e (mset ?ys)"
        using mset_list_del [OF True] eq by (simp flip: mset_append)
      ultimately have "mset (drop i xs) = add_mset e (mset (drop i ?ys))"
        unfolding t by (metis add_left_imp_eq union_mset_add_mset_right)
      moreover have "length ?ys - i < length xs - i" using True by simp
      from less.hyps [OF this sw(2)] obtain zs where
        "remove_loop (rep ?ys c) e i = Done (rep zs c)" "fits zs c" "take i zs = take i ?ys"
        "mset zs = mset (take i ?ys) + filter_mset (\<lambda>x. x \<noteq> e) (mset (drop i ?ys))" by auto
      ultimately show ?thesis using True g sw(1) eq t by (subst remove_loop.simps) auto
    next
      case False
      have "length xs - Suc i < length xs - i" using True by simp
      from less.hyps [OF this less.prems] obtain zs where
        z: "remove_loop (rep xs c) e (Suc i) = Done (rep zs c)" "fits zs c" "take (Suc i) zs = take (Suc i) xs"
        "mset zs = mset (take (Suc i) xs) + filter_mset (\<lambda>x. x \<noteq> e) (mset (drop (Suc i) xs))" by auto
      have "take i zs = take i xs" using arg_cong [OF z(3), of "take i"] by (simp add: min_def)
      moreover have "mset zs = mset (take i xs) + filter_mset (\<lambda>x. x \<noteq> e) (mset (drop i xs))"
        using z(4) False True by (simp add: d take_Suc_conv_app_nth)
      ultimately show ?thesis using True g False z by (subst remove_loop.simps) auto
    qed
  next
    case False
    then show ?thesis using less.prems by (subst remove_loop.simps) auto
  qed
qed

lemma remove_rep:
  assumes "fits xs c"
  shows "\<exists>ys. smartlist_remove (rep xs c) (Some e) = Done (rep ys c) \<and> fits ys c \<and>
    mset ys = filter_mset (\<lambda>x. x \<noteq> Some e) (mset xs)"
  using remove_loop_rep [OF assms, of "Some e" 0] by (auto simp: smartlist_remove_def)

lemma keeporder_loop_rep:
  assumes "drop j es = zs @ r" "i \<le> j" "j + length zs \<le> length es"
  shows "\<exists>es'. keeporder_loop \<lparr>entries = es, num_used = i + length zs, capacity = c\<rparr> e i j (j + length zs) =
      Done \<lparr>entries = es', num_used = i + length (filter (\<lambda>x. x \<noteq> e) zs), capacity = c\<rparr> \<and>
    take (i + length (filter (\<lambda>x. x \<noteq> e) zs)) es' = take i es @ filter (\<lambda>x. x \<noteq> e) zs \<and>
    drop (j + length zs) es' = r \<and> length es' = length es"
  using assms
proof (induction zs arbitrary: es i j)
  case Nil
  then show ?case by (subst keeporder_loop.simps) simp
next
  case (Cons z zs)
  have j: "j < length es" "es ! j = z" using Cons.prems(1,3) by (auto simp: Cons_nth_drop_Suc [symmetric] drop_eq_nths nth_via_drop)
  have d: "drop (Suc j) es = zs @ r" using Cons.prems(1) by (metis append_Cons drop_Suc list.sel(3) tl_drop)
  show ?case
  proof (cases "z = e")
    case True
    from Cons.IH [OF d, of i] Cons.prems(2,3) True j show ?thesis
      by (subst keeporder_loop.simps) (simp add: get_entry_def)
  next
    case False
    let ?es = "es[i := z]"
    have i: "i < length es" using Cons.prems(2) j by simp
    have "drop (Suc j) ?es = zs @ r" using d Cons.prems(2) by simp
    from Cons.IH [OF this, of "Suc i"] Cons.prems(2,3) obtain es' where
      k: "keeporder_loop \<lparr>entries = ?es, num_used = Suc i + length zs, capacity = c\<rparr> e (Suc i) (Suc j) (Suc j + length zs) =
        Done \<lparr>entries = es', num_used = Suc i + length (filter (\<lambda>x. x \<noteq> e) zs), capacity = c\<rparr>"
      "take (Suc i + length (filter (\<lambda>x. x \<noteq> e) zs)) es' = take (Suc i) ?es @ filter (\<lambda>x. x \<noteq> e) zs"
      "drop (Suc j + length zs) es' = r" "length es' = length ?es" by auto
    have "take (Suc i) ?es = take i es @ [z]" using i by (simp add: take_Suc_conv_app_nth)
    with k j i False show ?thesis by (subst keeporder_loop.simps) (simp add: get_entry_def put_entry_def)
  qed
qed

lemma remove_keeporder_rep:
  assumes "fits xs c"
  shows "smartlist_remove_keeporder (rep xs c) (Some e) = Done (rep (filter (\<lambda>x. x \<noteq> Some e) xs) c) \<and>
    fits (filter (\<lambda>x. x \<noteq> Some e) xs) c"
proof -
  let ?ys = "filter (\<lambda>x. x \<noteq> Some e) xs"
  let ?r = "replicate (c - length xs) (None :: 'a option)"
  have c: "length xs \<le> c" using assms by (simp add: fits_def)
  have ly: "length ?ys \<le> length xs" by simp
  from keeporder_loop_rep [of 0 "xs @ ?r" xs ?r 0 c "Some e"] c obtain es' where
    k: "keeporder_loop (rep xs c) (Some e) 0 0 (length xs) = Done \<lparr>entries = es', num_used = length ?ys, capacity = c\<rparr>"
    "take (length ?ys) es' = ?ys" "drop (length xs) es' = ?r" "length es' = c" by (auto simp: rep_def)
  have "wipe_entries es' (length ?ys) (length xs - length ?ys) = Done (?ys @ replicate (length xs - length ?ys) None @ ?r)"
    using k(2-4) c ly by (simp add: wipe_entries_def)
  moreover have "replicate (length xs - length ?ys) None @ ?r = replicate (c - length ?ys) None"
    using c ly by (simp flip: replicate_add)
  ultimately have "smartlist_remove_keeporder (rep xs c) (Some e) = Done (rep ?ys c)"
    using k(1) by (simp add: smartlist_remove_keeporder_def Let_def rep_def)
  moreover have "fits ?ys c" using assms le_trans [OF ly] by (simp add: fits_def)
  ultimately show ?thesis by blast
qed

lemma pop_last_rep:
  fixes xs :: "'p option list"
  assumes "fits xs c"
  shows "smartlist_pop_last (rep xs c) =
      Done (if xs = [] then (None, rep [] c) else (last xs, rep (butlast xs) c)) \<and> fits (butlast xs) c"
proof (cases xs rule: rev_cases)
  case (snoc ys y)
  have c: "Suc (length ys) \<le> c" using assms by (simp add: fits_def snoc)
  have "None # replicate (c - Suc (length ys)) None = replicate (c - length ys) None"
    using c by (simp add: Suc_diff_Suc flip: replicate_Suc)
  then have "put_entry (xs @ replicate (c - length xs) None) (length ys) None = Done (ys @ replicate (c - length ys) None)"
    by (simp add: put_entry_def list_update_append snoc)
  moreover have "get_entry (xs @ replicate (c - length xs) None) (length ys) = Done y"
    by (simp add: get_entry_def nth_append snoc)
  ultimately show ?thesis using c assms rep_upd [where xs = xs and c = c and ys = "ys"]
    by (auto simp: smartlist_pop_last_def snoc fits_def)
qed (use assms in \<open>simp add: smartlist_pop_last_def\<close>)

lemma contains_loop_iff: "contains_loop es e \<longleftrightarrow> e \<in> set es"
  by (induction es) auto

lemma put_at_end: "length ys = n \<Longrightarrow> put_entry (ys @ y # r) n x = Done (ys @ x # r)"
  by (auto simp: put_entry_def)

lemma del_keeporder_rep:
  fixes xs :: "'p option list"
  assumes "fits xs c" "i < length xs"
  shows "smartlist_del_keeporder (rep xs c) (int i) = Done (rep (take i xs @ drop (Suc i) xs) c) \<and>
    fits (take i xs @ drop (Suc i) xs) c"
proof -
  let ?n = "length xs - 1" and ?r = "replicate (c - length xs) (None :: 'p option)"
  let ?ys = "take i xs @ drop (Suc i) xs"
  have c: "length xs \<le> c" using assms(1) by (simp add: fits_def)
  have ly: "length ?ys = ?n" using assms(2) by simp
  have sh: "(if i < ?n then copy_entries (xs @ ?r) i (take (?n - i) (drop (i + 1) (xs @ ?r))) else Done (xs @ ?r)) =
      Done (?ys @ drop ?n xs @ ?r)"
  proof (cases "i < ?n")
    case True
    have "take (?n - i) (drop (i + 1) (xs @ ?r)) = drop (Suc i) xs" using True by simp
    moreover have "drop (i + (length xs - Suc i)) (xs @ ?r) = drop ?n xs @ ?r" using True by simp
    ultimately show ?thesis using True by (simp add: copy_entries_def)
  next
    case False
    then have "i = ?n" using assms(2) by simp
    then show ?thesis using assms(2) by simp
  qed
  obtain y where y: "drop ?n xs = [y]" using assms(2) by (cases xs rule: rev_cases) auto
  have pt: "put_entry (?ys @ drop ?n xs @ ?r) ?n None = Done (?ys @ None # ?r)"
    unfolding y using put_at_end [OF ly, of y ?r None] by simp
  have r: "None # ?r = replicate (c - ?n) None" using c assms(2) by (simp add: Suc_diff_le flip: replicate_Suc)
  have "smartlist_del_keeporder (rep xs c) (int i) =
      obind (if i < ?n then copy_entries (xs @ ?r) i (take (?n - i) (drop (i + 1) (xs @ ?r))) else Done (xs @ ?r)) (\<lambda>es.
      obind (put_entry es ?n None) (\<lambda>es. Done (rep xs c\<lparr>entries := es, num_used := ?n\<rparr>)))"
    using assms(2) by (simp only: smartlist_del_keeporder_def Let_def rep_sel nat_int of_nat_0_le_iff of_nat_less_iff
        if_True if_False not_True_eq_False)
  also have "\<dots> = Done (rep ?ys c)"
    unfolding sh obind.simps pt r using rep_upd [where xs = xs and c = c and ys = "?ys", unfolded ly] by (simp only: append_assoc)
  finally have "smartlist_del_keeporder (rep xs c) (int i) = Done (rep ?ys c)" .
  moreover have "fits ?ys c" using assms ly c by (simp add: fits_def)
  ultimately show ?thesis by blast
qed

lemma insert_rep:
  fixes xs :: "'p option list"
  assumes "fits xs c" "i \<le> length xs" "length xs < MAX_CAPACITY"
  shows "\<exists>c'. smartlist_insert (rep xs c) (int i) x = Done (rep (take i xs @ x # drop i xs) c') \<and>
    fits (take i xs @ x # drop i xs) c'"
proof (cases "i = length xs")
  case True
  with add_rep [OF assms(1,3), of x] show ?thesis by (simp add: smartlist_insert_def)
next
  case False
  with assms(2) have i: "i < length xs" by simp
  let ?ys = "take i xs @ x # drop i xs"
  from ensure_rep [OF assms(1), of "length xs + 1"] assms(3) obtain c' where
    e: "smartlist_ensure_capacity (rep xs c) (length xs + 1) = Done (rep xs c')" "length xs + 1 \<le> c'" "fits xs c'" by auto
  let ?r = "replicate (c' - length xs) (None :: 'p option)"
  obtain k where k: "c' - length xs = Suc k" using e(2) by (cases "c' - length xs") auto
  then have k': "c' - Suc (length xs) = k" by simp
  have cp: "copy_entries (xs @ ?r) (i + 1) (take (length xs - i) (drop i (xs @ ?r))) =
      Done (take (i + 1) xs @ drop i xs @ replicate k None)"
    using i k by (simp add: copy_entries_def)
  have "(take (i + 1) xs @ drop i xs @ replicate k None)[i := x] = ?ys @ replicate k None"
    using i by (simp add: take_Suc_conv_app_nth list_update_append)
  then have pt: "put_entry (take (i + 1) xs @ drop i xs @ replicate k None) i x = Done (?ys @ replicate k None)"
    using i by (simp add: put_entry_def)
  have ly: "length ?ys = Suc (length xs)" using i by simp
  have "smartlist_insert (rep xs c) (int i) x = Done (rep ?ys c')"
    using i e(1) cp pt rep_upd [where xs = xs and c = c' and ys = "?ys", unfolded ly] k'
    by (simp add: smartlist_insert_def Let_def)
  with e ly show ?thesis by (auto simp: fits_def)
qed

section \<open>The operations as one interface\<close>

datatype 'p sl_op =
    Add "'p option"
  | Add_all "'p smartlist"
  | Clear
  | Grow nat
  | Remove "'p option"
  | Remove_keeporder "'p option"
  | Pop_last
  | Del int
  | Del_keeporder int
  | Insert int "'p option"

fun sl_apply :: "'p sl_op \<Rightarrow> 'p smartlist \<Rightarrow> 'p smartlist outcome" where
  "sl_apply (Add x) sl = smartlist_add sl x"
| "sl_apply (Add_all s2) sl = smartlist_add_all sl s2"
| "sl_apply Clear sl = smartlist_clear sl"
| "sl_apply (Grow n) sl = smartlist_grow sl n"
| "sl_apply (Remove x) sl = smartlist_remove sl x"
| "sl_apply (Remove_keeporder x) sl = smartlist_remove_keeporder sl x"
| "sl_apply Pop_last sl = obind (smartlist_pop_last sl) (\<lambda>(_, sl). Done sl)"
| "sl_apply (Del i) sl = smartlist_del sl i"
| "sl_apply (Del_keeporder i) sl = smartlist_del_keeporder sl i"
| "sl_apply (Insert i x) sl = smartlist_insert sl i x"

text \<open>What a caller has to ensure, in terms of the list alone.\<close>

fun sl_enabled :: "'p sl_op \<Rightarrow> 'p option list \<Rightarrow> bool" where
  "sl_enabled (Add x) xs = (length xs < MAX_CAPACITY)"
| "sl_enabled (Add_all s2) xs = (smartlist_ok s2 \<and> length xs + num_used s2 \<le> MAX_CAPACITY)"
| "sl_enabled (Grow n) xs = (n \<le> MAX_CAPACITY)"
| "sl_enabled (Del i) xs = (0 \<le> i \<and> i < int (length xs))"
| "sl_enabled (Del_keeporder i) xs = (0 \<le> i \<and> i < int (length xs))"
| "sl_enabled (Insert i x) xs = (0 \<le> i \<and> i \<le> int (length xs) \<and> length xs < MAX_CAPACITY)"
| "sl_enabled op xs = True"

text \<open>
  The promise: which lists an operation may leave. \<open>smartlist_remove\<close> does not promise an
  order; \<open>NULL\<close> is never removed.
\<close>

fun sl_spec :: "'p sl_op \<Rightarrow> 'p option list \<Rightarrow> 'p option list \<Rightarrow> bool" where
  "sl_spec (Add x) xs ys = (ys = xs @ [x])"
| "sl_spec (Add_all s2) xs ys = (ys = xs @ abs_list s2)"
| "sl_spec Clear xs ys = (ys = [])"
| "sl_spec (Grow n) xs ys = (ys = xs @ replicate (n - length xs) None)"
| "sl_spec (Remove x) xs ys =
     (case x of None \<Rightarrow> ys = xs | Some e \<Rightarrow> mset ys = filter_mset (\<lambda>y. y \<noteq> Some e) (mset xs))"
| "sl_spec (Remove_keeporder x) xs ys =
     (case x of None \<Rightarrow> ys = xs | Some e \<Rightarrow> ys = filter (\<lambda>y. y \<noteq> Some e) xs)"
| "sl_spec Pop_last xs ys = (ys = butlast xs)"
| "sl_spec (Del i) xs ys = (ys = (butlast xs)[nat i := last xs])"
| "sl_spec (Del_keeporder i) xs ys = (ys = take (nat i) xs @ drop (Suc (nat i)) xs)"
| "sl_spec (Insert i x) xs ys = (ys = take (nat i) xs @ x # drop (nat i) xs)"

lemma sl_apply_rep:
  fixes xs :: "'p option list"
  assumes "fits xs c" "sl_enabled op xs"
  shows "\<exists>ys c'. sl_apply op (rep xs c) = Done (rep ys c') \<and> fits ys c' \<and> sl_spec op xs ys"
proof (cases op)
  case (Add x) with add_rep [OF assms(1), of x] assms(2) show ?thesis by fastforce
next
  case (Add_all s2)
  moreover have "num_used s2 = length (abs_list s2)" if "smartlist_ok s2"
    using that by (simp add: smartlist_ok_def abs_list_def)
  ultimately show ?thesis using add_all_rep [OF assms(1), of s2] assms(2) by fastforce
next
  case Clear with clear_rep [OF assms(1)] show ?thesis by fastforce
next
  case (Grow n) with grow_rep [OF assms(1), of n] assms(2) show ?thesis by fastforce
next
  case (Remove x)
  show ?thesis
  proof (cases x)
    case None with Remove assms(1) show ?thesis by (auto simp: smartlist_remove_def)
  next
    case (Some e) with Remove remove_rep [OF assms(1), of e] show ?thesis by fastforce
  qed
next
  case (Remove_keeporder x)
  show ?thesis
  proof (cases x)
    case None with Remove_keeporder assms(1) show ?thesis by (auto simp: smartlist_remove_keeporder_def)
  next
    case (Some e) with Remove_keeporder remove_keeporder_rep [OF assms(1), of e] show ?thesis by fastforce
  qed
next
  case Pop_last with pop_last_rep [OF assms(1)] show ?thesis by (cases "xs = []") fastforce+
next
  case (Del i)
  with swap_out_rep [OF assms(1), of "nat i"] assms(2) show ?thesis
    by (fastforce simp: smartlist_del_def list_del_def)
next
  case (Del_keeporder i)
  with del_keeporder_rep [OF assms(1), of "nat i"] assms(2) show ?thesis by fastforce
next
  case (Insert i x)
  with insert_rep [OF assms(1), of "nat i" x] assms(2) show ?thesis by fastforce
qed

text \<open>
  The states a component reaches from its first one by operations its callers may make, for a
  component with an abstraction function whose operations are simulated one by one.
\<close>

inductive reach :: "('op \<Rightarrow> 's \<Rightarrow> 's outcome) \<Rightarrow> ('op \<Rightarrow> 's \<Rightarrow> bool) \<Rightarrow> 's \<Rightarrow> 's \<Rightarrow> bool"
  for apply_op allowed init where
  reach_init: "reach apply_op allowed init init"
| reach_op: "reach apply_op allowed init s \<Longrightarrow> allowed opn s \<Longrightarrow> apply_op opn s = Done s' \<Longrightarrow> reach apply_op allowed init s'"

locale simulated =
  fixes init :: 's and apply_op :: "'op \<Rightarrow> 's \<Rightarrow> 's outcome"
    and inv :: "'s \<Rightarrow> bool" and view :: "'s \<Rightarrow> 'a"
    and enabled :: "'op \<Rightarrow> 'a \<Rightarrow> bool" and spec :: "'op \<Rightarrow> 'a \<Rightarrow> 'a \<Rightarrow> bool"
  assumes init_inv: "inv init"
    and step: "inv s \<Longrightarrow> enabled op (view s) \<Longrightarrow> \<exists>s'. apply_op op s = Done s' \<and> inv s' \<and> spec op (view s) (view s')"
begin

lemma reach_inv: "reach apply_op (\<lambda>op s. enabled op (view s)) init s \<Longrightarrow> inv s"
proof (induction rule: reach.induct)
  case (reach_op s opn s')
  with step [of s opn] show ?case by auto
qed (rule init_inv)

lemma reach_progress:
  "reach apply_op (\<lambda>op s. enabled op (view s)) init s \<Longrightarrow> enabled opn (view s) \<Longrightarrow>
    \<exists>s'. apply_op opn s = Done s' \<and> spec opn (view s) (view s')"
  using step [OF reach_inv] by blast

end

interpretation sl: simulated smartlist_new sl_apply smartlist_ok abs_list sl_enabled sl_spec
proof unfold_locales
  fix s :: "'p smartlist" and op
  assume s: "smartlist_ok s" and e: "sl_enabled op (abs_list s)"
  from sl_apply_rep [OF ok_is_rep(2) [OF s] e] obtain ys c' where
    "sl_apply op s = Done (rep ys c')" "fits ys c'" "sl_spec op (abs_list s) ys"
    using ok_is_rep(1) [OF s] by auto
  then show "\<exists>s'. sl_apply op s = Done s' \<and> smartlist_ok s' \<and> sl_spec op (abs_list s) (abs_list s')"
    by (intro exI [of _ "rep ys c'"]) (simp add: ok_rep)
qed (rule new_yields)

section \<open>The properties\<close>

text \<open>
  C23. Each operation of the resizeable array implements the one on lists: called on a sound
  array with an index and a size it allows, it returns a sound array, without a failed assertion
  or an access outside the array, and the list that array stands for is the one promised. What is popped
  is the last entry, or NULL when there is none.
\<close>

theorem smartlist_refines_lists:
  assumes "smartlist_ok s" "sl_enabled op (abs_list s)"
  shows "\<exists>s'. sl_apply op s = Done s' \<and> smartlist_ok s' \<and> sl_spec op (abs_list s) (abs_list s') \<and>
    (op = Pop_last \<longrightarrow> smartlist_pop_last s = Done (if abs_list s = [] then None else last (abs_list s), s'))"
proof -
  obtain s' where s': "sl_apply op s = Done s'" "smartlist_ok s'" "sl_spec op (abs_list s) (abs_list s')"
    using sl.step [OF assms] by blast
  have "smartlist_pop_last s = Done (if abs_list s = [] then None else last (abs_list s), s')" if "op = Pop_last"
    using that s'(1) pop_last_rep [OF ok_is_rep(2) [OF assms(1)]] ok_is_rep(1) [OF assms(1)] by auto
  then show ?thesis using s' by blast
qed

lemma smartlist_refines_witness:
  "\<exists>s'. sl_apply Pop_last (rep [Some (1 :: nat), Some 2] 2) = Done s' \<and> smartlist_ok s' \<and> abs_list s' = [Some 1] \<and>
    smartlist_pop_last (rep [Some 1, Some 2] 2) = Done (Some 2, s')"
proof -
  have "smartlist_ok (rep [Some (1 :: nat), Some 2] 2)" "abs_list (rep [Some (1 :: nat), Some 2] 2) = [Some 1, Some 2]"
    using ok_rep [of "[Some (1 :: nat), Some 2]" 2] by (simp_all add: fits_def MAX_CAPACITY_def INT_MAX_def)
  then show ?thesis using smartlist_refines_lists [of "rep [Some (1 :: nat), Some 2] 2" Pop_last] by auto
qed

text \<open>
  The doubling loop of the array's growth ends from every positive capacity, with a capacity
  that is enough, and less than twice what was asked for when it grew at all.
\<close>

theorem doubling_terminates:
  assumes "0 < higher"
  shows "\<exists>h. double_capacity wanted higher = Some h \<and> wanted \<le> h \<and> (h = higher \<or> h < 2 * wanted)"
  using double_capacity_ok [OF assms, of wanted] by blast

lemma doubling_witness:
  "\<exists>h. double_capacity 100 16 = Some h \<and> 100 \<le> h \<and> (h = 16 \<or> h < 2 * 100)"
  by (rule doubling_terminates) simp

text \<open>\<open>smartlist_contains\<close> is membership in the list of the used entries.\<close>

theorem smartlist_contains_iff:
  "smartlist_contains sl element \<longleftrightarrow> element \<in> set (abs_list sl)"
  by (simp add: smartlist_contains_def abs_list_def contains_loop_iff)

end
