(* ===== verification/Pqueue.thy ===== *)
theory Pqueue
  imports SmartlistCore
begin

text \<open>
  The priority queue of \<open>src/lib/container/smartlist.c\<close>: a binary heap in a smartlist, whose
  items carry their own index. The index field of every item is a function from items to
  integers; items are pointers, compared by a function of the caller.
\<close>

section \<open>The heap operations\<close>

record 'p pqueue =
  pq_list :: "'p smartlist"
  pq_idx :: "'p \<Rightarrow> int"

definition MAX_PARENT_IDX :: nat where "MAX_PARENT_IDX = (INT_MAX - 2) div 2"

definition LEFT_CHILD :: "nat \<Rightarrow> nat" where "LEFT_CHILD i = 2 * i + 1"

definition PARENT :: "nat \<Rightarrow> nat" where "PARENT i = (i - 1) div 2"

text \<open>Reading an item through the array; a NULL there would be dereferenced.\<close>

definition pq_load :: "'p pqueue \<Rightarrow> nat \<Rightarrow> 'p outcome" where
  "pq_load s i =
     obind (get_entry (entries (pq_list s)) i) (\<lambda>e. case e of None \<Rightarrow> Stuck | Some p \<Rightarrow> Done p)"

definition pq_store :: "'p pqueue \<Rightarrow> nat \<Rightarrow> 'p option \<Rightarrow> 'p pqueue outcome" where
  "pq_store s i e =
     obind (put_entry (entries (pq_list s)) i e) (\<lambda>es. Done (s\<lparr>pq_list := (pq_list s)\<lparr>entries := es\<rparr>\<rparr>))"

definition update_idx :: "'p pqueue \<Rightarrow> nat \<Rightarrow> 'p pqueue outcome" where
  "update_idx s i = obind (pq_load s i) (\<lambda>p. Done (s\<lparr>pq_idx := (pq_idx s)(p := int i)\<rparr>))"

text \<open>The exchange of two entries and the two index updates, as both loops do it.\<close>

definition pq_swap :: "'p pqueue \<Rightarrow> nat \<Rightarrow> nat \<Rightarrow> 'p pqueue outcome" where
  "pq_swap s i j =
     obind (pq_load s i) (\<lambda>tmp.
     obind (pq_load s j) (\<lambda>q.
     obind (pq_store s i (Some q)) (\<lambda>s.
     obind (pq_store s j (Some tmp)) (\<lambda>s.
     obind (update_idx s i) (\<lambda>s. update_idx s j)))))"

lemma pq_swap_num_used: "pq_swap s i j = Done s' \<Longrightarrow> num_used (pq_list s') = num_used (pq_list s)"
  by (auto simp: pq_swap_def pq_store_def update_idx_def outcome_elims)

text \<open>The smaller of the entries at \<open>idx\<close>, \<open>left_idx\<close> and \<open>left_idx + 1\<close>.\<close>

definition best_child :: "('p \<Rightarrow> 'p \<Rightarrow> int) \<Rightarrow> 'p pqueue \<Rightarrow> nat \<Rightarrow> nat \<Rightarrow> nat outcome" where
  "best_child compare s idx left_idx =
     obind (pq_load s idx) (\<lambda>a.
     obind (pq_load s left_idx) (\<lambda>l.
       let best_idx = (if compare a l < 0 then idx else left_idx)
       in if left_idx + 1 < num_used (pq_list s)
          then obind (pq_load s (left_idx + 1)) (\<lambda>r.
               obind (pq_load s best_idx) (\<lambda>b.
                 Done (if compare r b < 0 then left_idx + 1 else best_idx)))
          else Done best_idx))"

lemma best_child_range:
  "best_child compare s idx left_idx = Done b \<Longrightarrow> left_idx < num_used (pq_list s) \<Longrightarrow>
    b = idx \<or> left_idx \<le> b \<and> b < num_used (pq_list s)"
  by (auto simp: best_child_def outcome_elims Let_def split: if_splits)

function smartlist_heapify :: "('p \<Rightarrow> 'p \<Rightarrow> int) \<Rightarrow> 'p pqueue \<Rightarrow> nat \<Rightarrow> 'p pqueue outcome" where
  "smartlist_heapify compare s idx =
     (if \<not> idx \<le> MAX_PARENT_IDX then Done s
      else let left_idx = LEFT_CHILD idx
           in if left_idx \<ge> num_used (pq_list s) then Done s
              else obind (best_child compare s idx left_idx) (\<lambda>best_idx.
                   if best_idx = idx then Done s
                   else obind (pq_swap s idx best_idx) (\<lambda>s'. smartlist_heapify compare s' best_idx)))"
  by pat_completeness auto
termination
proof (relation "measure (\<lambda>(compare, s, idx). num_used (pq_list s) - idx)", goal_cases)
  case (2 compare s idx left b s')
  from best_child_range [OF 2(4)] 2 pq_swap_num_used [OF 2(6)] show ?case by (auto simp: LEFT_CHILD_def)
qed simp

declare smartlist_heapify.simps [simp del]

function sift_up :: "('p \<Rightarrow> 'p \<Rightarrow> int) \<Rightarrow> 'p pqueue \<Rightarrow> nat \<Rightarrow> 'p pqueue outcome" where
  "sift_up compare s idx =
     (if idx = 0 then Done s
      else let parent = PARENT idx
           in obind (pq_load s idx) (\<lambda>a.
              obind (pq_load s parent) (\<lambda>p.
                if compare a p < 0
                then obind (pq_swap s parent idx) (\<lambda>s'. sift_up compare s' parent)
                else Done s)))"
  by pat_completeness auto
termination
  by (relation "measure (\<lambda>(compare, s, idx). idx)") (auto simp: PARENT_def)

declare sift_up.simps [simp del]

definition smartlist_pqueue_add :: "('p \<Rightarrow> 'p \<Rightarrow> int) \<Rightarrow> 'p pqueue \<Rightarrow> 'p \<Rightarrow> 'p pqueue outcome" where
  "smartlist_pqueue_add compare s item =
     obind (smartlist_add (pq_list s) (Some item)) (\<lambda>sl.
     obind (update_idx (s\<lparr>pq_list := sl\<rparr>) (num_used sl - 1)) (\<lambda>s.
       sift_up compare s (num_used sl - 1)))"

definition smartlist_pqueue_pop :: "('p \<Rightarrow> 'p \<Rightarrow> int) \<Rightarrow> 'p pqueue \<Rightarrow> ('p \<times> 'p pqueue) outcome" where
  "smartlist_pqueue_pop compare s =
     (if num_used (pq_list s) = 0 then Stuck
      else obind (pq_load s 0) (\<lambda>top_item.
        let n = num_used (pq_list s) - 1;
            s = s\<lparr>pq_idx := (pq_idx s)(top_item := -1), pq_list := (pq_list s)\<lparr>num_used := n\<rparr>\<rparr>
        in obind
             (if n \<noteq> 0
              then obind (get_entry (entries (pq_list s)) n) (\<lambda>e.
                   obind (pq_store s 0 e) (\<lambda>s.
                   obind (pq_store s n None) (\<lambda>s.
                   obind (update_idx s 0) (\<lambda>s.
                     smartlist_heapify compare s 0))))
              else Done s) (\<lambda>s.
           obind (pq_store s (num_used (pq_list s)) None) (\<lambda>s. Done (top_item, s)))))"

definition smartlist_pqueue_remove :: "('p \<Rightarrow> 'p \<Rightarrow> int) \<Rightarrow> 'p pqueue \<Rightarrow> 'p \<Rightarrow> 'p pqueue outcome" where
  "smartlist_pqueue_remove compare s item =
     (let i = pq_idx s item
      in if \<not> i \<ge> 0 then Stuck
         else obind (get_entry (entries (pq_list s)) (nat i)) (\<lambda>e.
           if e \<noteq> Some item then Stuck
           else let idx = nat i; n = num_used (pq_list s) - 1;
                    s = s\<lparr>pq_list := (pq_list s)\<lparr>num_used := n\<rparr>, pq_idx := (pq_idx s)(item := -1)\<rparr>
                in if idx = n then pq_store s n None
                   else obind (get_entry (entries (pq_list s)) n) (\<lambda>e.
                        obind (pq_store s idx e) (\<lambda>s.
                        obind (pq_store s n None) (\<lambda>s.
                        obind (update_idx s idx) (\<lambda>s.
                          smartlist_heapify compare s idx))))))"

text \<open>The assertions of \<open>smartlist_pqueue_assert_ok\<close>, from index \<open>i - 1\<close> down.\<close>

fun assert_loop :: "('p \<Rightarrow> 'p \<Rightarrow> int) \<Rightarrow> 'p pqueue \<Rightarrow> nat \<Rightarrow> unit outcome" where
  "assert_loop compare s 0 = Done ()"
| "assert_loop compare s (Suc i) =
     obind (pq_load s i) (\<lambda>a.
     obind (if i > 0
            then obind (pq_load s (PARENT i)) (\<lambda>p. if \<not> compare p a \<le> 0 then Stuck else Done ())
            else Done ()) (\<lambda>_.
       if \<not> pq_idx s a = int i then Stuck else assert_loop compare s i))"

definition smartlist_pqueue_assert_ok :: "('p \<Rightarrow> 'p \<Rightarrow> int) \<Rightarrow> 'p pqueue \<Rightarrow> unit outcome" where
  "smartlist_pqueue_assert_ok compare s = assert_loop compare s (num_used (pq_list s))"

section \<open>Sound queues\<close>

text \<open>The queue that holds the items \<open>ps\<close> in heap order, and what its index fields have to be.\<close>

definition hst :: "'p list \<Rightarrow> nat \<Rightarrow> ('p \<Rightarrow> int) \<Rightarrow> 'p pqueue" where
  "hst ps c ix = \<lparr>pq_list = rep (map Some ps) c, pq_idx = ix\<rparr>"

lemma hst_sel [simp]:
  "num_used (pq_list (hst ps c ix)) = length ps" "pq_idx (hst ps c ix) = ix"
  "pq_list (hst ps c ix) = rep (map Some ps) c"
  by (simp_all add: hst_def)

definition indexed :: "'p list \<Rightarrow> ('p \<Rightarrow> int) \<Rightarrow> bool" where
  "indexed ps ix \<longleftrightarrow> distinct ps \<and> (\<forall>i < length ps. ix (ps ! i) = int i)"

definition swapped :: "'a list \<Rightarrow> nat \<Rightarrow> nat \<Rightarrow> 'a list" where
  "swapped ps i j = ps[i := ps ! j, j := ps ! i]"

lemma swapped_simps [simp]:
  "length (swapped ps i j) = length ps"
  by (simp add: swapped_def)

lemma nth_swapped:
  "i < length ps \<Longrightarrow> j < length ps \<Longrightarrow> k < length ps \<Longrightarrow>
    swapped ps i j ! k = (if k = j then ps ! i else if k = i then ps ! j else ps ! k)"
  by (simp add: swapped_def nth_list_update)

lemma mset_swapped: "i < length ps \<Longrightarrow> j < length ps \<Longrightarrow> mset (swapped ps i j) = mset ps"
  by (simp add: swapped_def mset_swap)

lemma distinct_swapped: "i < length ps \<Longrightarrow> j < length ps \<Longrightarrow> distinct (swapped ps i j) \<longleftrightarrow> distinct ps"
  using mset_swapped [of i ps j] by (metis mset_eq_imp_distinct_iff)

lemma pq_load_hst [simp]: "i < length ps \<Longrightarrow> pq_load (hst ps c ix) i = Done (ps ! i)"
  by (simp add: pq_load_def get_entry_def nth_append)

lemma pq_store_hst:
  "i < length ps \<Longrightarrow> pq_store (hst ps c ix) i (Some p) = Done (hst (ps[i := p]) c ix)"
  by (simp add: pq_store_def put_entry_def hst_def rep_def list_update_append map_update)

lemma update_idx_hst: "i < length ps \<Longrightarrow> update_idx (hst ps c ix) i = Done (hst ps c (ix(ps ! i := int i)))"
  by (simp add: update_idx_def hst_def pq_load_def get_entry_def nth_append)

lemma pq_swap_hst:
  assumes "i < length ps" "j < length ps"
  shows "pq_swap (hst ps c ix) i j =
    Done (hst (swapped ps i j) c (ix(swapped ps i j ! i := int i, swapped ps i j ! j := int j)))"
proof -
  have "pq_store (hst (ps[i := ps ! j]) c ix) j (Some (ps ! i)) = Done (hst (swapped ps i j) c ix)"
    using assms by (simp add: pq_store_hst swapped_def)
  moreover have "length (swapped ps i j) = length ps" by simp
  ultimately show ?thesis using assms
    by (simp only: pq_swap_def pq_store_hst update_idx_hst pq_load_hst obind.simps length_list_update swapped_def)
qed

lemma indexed_swapped:
  assumes "indexed ps ix" "i < length ps" "j < length ps"
  shows "indexed (swapped ps i j) (ix(swapped ps i j ! i := int i, swapped ps i j ! j := int j))"
proof -
  let ?qs = "swapped ps i j"
  have d: "distinct ?qs" using assms by (simp add: distinct_swapped indexed_def)
  have "(ix(?qs ! i := int i, ?qs ! j := int j)) (?qs ! k) = int k" if k: "k < length ps" for k
  proof (cases "k = i \<or> k = j")
    case True
    with d assms show ?thesis by (auto simp: nth_eq_iff_index_eq)
  next
    case False
    with d k assms have "?qs ! k \<noteq> ?qs ! i" "?qs ! k \<noteq> ?qs ! j" by (auto simp: nth_eq_iff_index_eq)
    moreover have "?qs ! k = ps ! k" using False k assms by (simp add: nth_swapped)
    ultimately show ?thesis using k assms(1) by (simp add: indexed_def)
  qed
  with d show ?thesis by (simp add: indexed_def)
qed

lemma frame_swapped:
  "i < length ps \<Longrightarrow> j < length ps \<Longrightarrow> p \<notin> set ps \<Longrightarrow>
    (ix(swapped ps i j ! i := x, swapped ps i j ! j := y)) p = ix p"
  by (auto simp: nth_swapped)

section \<open>The heap order\<close>

text \<open>Comparisons, as \<open>qsort\<close> wants them.\<close>

locale comparison =
  fixes compare :: "'p \<Rightarrow> 'p \<Rightarrow> int"
  assumes flip: "compare a b < 0 \<longleftrightarrow> 0 < compare b a"
    and trans_le: "compare a b \<le> 0 \<Longrightarrow> compare b c \<le> 0 \<Longrightarrow> compare a c \<le> 0"
begin

lemma refl_le: "compare a a \<le> 0"
  using flip [of a a] by linarith

lemma less_le: "compare a b < 0 \<Longrightarrow> compare a b \<le> 0" "\<not> compare a b < 0 \<Longrightarrow> compare b a \<le> 0"
  using flip [of b a] flip [of a b] by linarith+

end

definition heap :: "('p \<Rightarrow> 'p \<Rightarrow> int) \<Rightarrow> 'p list \<Rightarrow> bool" where
  "heap compare ps \<longleftrightarrow> (\<forall>j < length ps. 0 < j \<longrightarrow> compare (ps ! PARENT j) (ps ! j) \<le> 0)"

text \<open>A heap but for the item at \<open>i\<close>, which may be greater than its children, or smaller than its parent.\<close>

definition heap_below :: "('p \<Rightarrow> 'p \<Rightarrow> int) \<Rightarrow> 'p list \<Rightarrow> nat \<Rightarrow> bool" where
  "heap_below compare ps i \<longleftrightarrow>
     (\<forall>j < length ps. 0 < j \<longrightarrow> PARENT j \<noteq> i \<longrightarrow> compare (ps ! PARENT j) (ps ! j) \<le> 0) \<and>
     (\<forall>j < length ps. 0 < j \<longrightarrow> PARENT j = i \<longrightarrow> 0 < i \<longrightarrow> compare (ps ! PARENT i) (ps ! j) \<le> 0)"

definition heap_above :: "('p \<Rightarrow> 'p \<Rightarrow> int) \<Rightarrow> 'p list \<Rightarrow> nat \<Rightarrow> bool" where
  "heap_above compare ps i \<longleftrightarrow>
     (\<forall>j < length ps. 0 < j \<longrightarrow> j \<noteq> i \<longrightarrow> compare (ps ! PARENT j) (ps ! j) \<le> 0) \<and>
     (\<forall>j < length ps. 0 < j \<longrightarrow> PARENT j = i \<longrightarrow> 0 < i \<longrightarrow> compare (ps ! PARENT i) (ps ! j) \<le> 0)"

lemma PARENT_less: "0 < j \<Longrightarrow> PARENT j < j"
  by (simp add: PARENT_def)

lemma PARENT_child: "PARENT j = i \<Longrightarrow> 0 < j \<Longrightarrow> j = LEFT_CHILD i \<or> j = LEFT_CHILD i + 1"
  by (auto simp: PARENT_def LEFT_CHILD_def)

lemma PARENT_of_child [simp]: "PARENT (LEFT_CHILD i) = i" "PARENT (Suc (LEFT_CHILD i)) = i"
  "PARENT (LEFT_CHILD i + 1) = i"
  by (simp_all add: PARENT_def LEFT_CHILD_def)

context comparison begin

lemma heap_root_least:
  assumes "heap compare ps" "j < length ps"
  shows "compare (ps ! 0) (ps ! j) \<le> 0"
  using assms(2)
proof (induction j rule: less_induct)
  case (less j)
  show ?case
  proof (cases "j = 0")
    case False
    then have "PARENT j < j" by (simp add: PARENT_less)
    with less have "compare (ps ! 0) (ps ! PARENT j) \<le> 0" by simp
    moreover have "compare (ps ! PARENT j) (ps ! j) \<le> 0" using assms(1) False less.prems by (simp add: heap_def)
    ultimately show ?thesis by (rule trans_le)
  qed (simp add: refl_le)
qed

lemma swap_below:
  assumes "heap_below compare ps i" "i < length ps" "b < length ps" "PARENT b = i" "0 < b"
    and "compare (ps ! b) (ps ! i) \<le> 0"
    and "\<And>j. j < length ps \<Longrightarrow> 0 < j \<Longrightarrow> PARENT j = i \<Longrightarrow> compare (ps ! b) (ps ! j) \<le> 0"
  shows "heap_below compare (swapped ps i b) b"
proof -
  have bi: "i < b" using PARENT_less [OF assms(5)] assms(4) by simp
  note h = assms(1) [unfolded heap_below_def]
  have 1: "compare (swapped ps i b ! PARENT j) (swapped ps i b ! j) \<le> 0"
    if j: "j < length ps" "0 < j" "PARENT j \<noteq> b" for j
  proof -
    have pj: "PARENT j < length ps" using PARENT_less [OF j(2)] j(1) by simp
    show ?thesis
    proof (cases "PARENT j = i")
      case True
      with assms(2,3,6,7) j pj bi PARENT_less [OF j(2)] show ?thesis by (auto simp: nth_swapped)
    next
      case False
      show ?thesis
      proof (cases "j = i")
        case True
        then have "compare (ps ! PARENT i) (ps ! b) \<le> 0" using h assms(3-5) j by simp
        with True False assms(2,3) j pj bi show ?thesis by (simp add: nth_swapped)
      next
        case ji: False
        have "j \<noteq> b" using False assms(4) by auto
        then show ?thesis using h j False ji pj assms(2,3) by (simp add: nth_swapped)
      qed
    qed
  qed
  have 2: "compare (swapped ps i b ! PARENT b) (swapped ps i b ! j) \<le> 0"
    if j: "j < length ps" "0 < j" "PARENT j = b" for j
  proof -
    have "b < j" using PARENT_less [OF j(2)] j(3) by simp
    moreover have "compare (ps ! b) (ps ! j) \<le> 0" using h j bi by auto
    ultimately show ?thesis using assms(2-4) j bi by (simp add: nth_swapped)
  qed
  from 1 2 show ?thesis by (simp add: heap_below_def)
qed

lemma swap_above:
  assumes "heap_above compare ps i" "i < length ps" "0 < i" "compare (ps ! i) (ps ! PARENT i) < 0"
  shows "heap_above compare (swapped ps (PARENT i) i) (PARENT i)"
proof -
  let ?p = "PARENT i"
  have pi: "?p < i" using PARENT_less [OF assms(3)] .
  note h = assms(1) [unfolded heap_above_def]
  have lt: "compare (ps ! i) (ps ! ?p) \<le> 0" using assms(4) by (rule less_le)
  have 1: "compare (swapped ps ?p i ! PARENT j) (swapped ps ?p i ! j) \<le> 0"
    if j: "j < length ps" "0 < j" "j \<noteq> ?p" for j
  proof -
    have pj: "PARENT j < length ps" "PARENT j < j" using PARENT_less [OF j(2)] j(1) by simp_all
    consider "j = i" | "j \<noteq> i" "PARENT j = i" | "j \<noteq> i" "PARENT j = ?p" | "j \<noteq> i" "PARENT j \<noteq> i" "PARENT j \<noteq> ?p" by blast
    then show ?thesis
    proof cases
      case 1 with lt assms(2) j pi pj show ?thesis by (simp add: nth_swapped)
    next
      case 2 with h assms(2,3) j pi pj show ?thesis by (simp add: nth_swapped)
    next
      case 3
      then have "compare (ps ! ?p) (ps ! j) \<le> 0" using h j by metis
      with lt have "compare (ps ! i) (ps ! j) \<le> 0" by (rule trans_le)
      with 3 assms(2) j pi pj show ?thesis by (simp add: nth_swapped)
    next
      case 4 with h assms(2) j pi pj show ?thesis by (simp add: nth_swapped)
    qed
  qed
  have 2: "compare (swapped ps ?p i ! PARENT ?p) (swapped ps ?p i ! j) \<le> 0"
    if j: "j < length ps" "0 < j" "PARENT j = ?p" "0 < ?p" for j
  proof -
    have pp: "PARENT ?p < ?p" using PARENT_less [OF j(4)] .
    have a: "compare (ps ! PARENT ?p) (ps ! ?p) \<le> 0" using h j(4) pi assms(2) by simp
    show ?thesis
    proof (cases "j = i")
      case True
      with a assms(2) j pi pp show ?thesis by (simp add: nth_swapped)
    next
      case False
      then have "compare (ps ! ?p) (ps ! j) \<le> 0" using h j by metis
      with a have "compare (ps ! PARENT ?p) (ps ! j) \<le> 0" by (rule trans_le)
      moreover have "?p < j" using PARENT_less [OF j(2)] j(3) by simp
      ultimately show ?thesis using False assms(2) j pi pp by (simp add: nth_swapped)
    qed
  qed
  from 1 2 show ?thesis by (simp add: heap_above_def)
qed

lemma no_child_heap:
  "heap_below compare ps i \<Longrightarrow> length ps \<le> LEFT_CHILD i \<Longrightarrow> heap compare ps"
  unfolding heap_below_def heap_def using PARENT_child by (metis add_lessD1 leD)

lemma best_child_hst:
  assumes "i < length ps" "LEFT_CHILD i < length ps"
  shows "\<exists>b. best_child compare (hst ps c ix) i (LEFT_CHILD i) = Done b \<and>
    (b = i \<or> b < length ps \<and> 0 < b \<and> PARENT b = i) \<and> compare (ps ! b) (ps ! i) \<le> 0 \<and>
    (\<forall>j < length ps. 0 < j \<longrightarrow> PARENT j = i \<longrightarrow> compare (ps ! b) (ps ! j) \<le> 0)"
proof -
  let ?l = "LEFT_CHILD i"
  let ?b = "if compare (ps ! i) (ps ! ?l) < 0 then i else ?l"
  have b: "compare (ps ! ?b) (ps ! i) \<le> 0" "compare (ps ! ?b) (ps ! ?l) \<le> 0" "?b < length ps"
    using less_le refl_le assms by auto
  have pos: "0 < ?l" by (simp add: LEFT_CHILD_def)
  show ?thesis
  proof (cases "?l + 1 < length ps")
    case True
    let ?c = "if compare (ps ! (?l + 1)) (ps ! ?b) < 0 then ?l + 1 else ?b"
    have r: "compare (ps ! ?c) (ps ! (?l + 1)) \<le> 0" "compare (ps ! ?c) (ps ! ?b) \<le> 0"
      using less_le refl_le by auto
    have e: "best_child compare (hst ps c ix) i ?l = Done ?c"
      using True assms b(3) by (simp add: best_child_def Let_def)
    have "compare (ps ! ?c) (ps ! j) \<le> 0" if "j < length ps" "0 < j" "PARENT j = i" for j
      using PARENT_child [OF that(3,2)] r(1) trans_le [OF r(2) b(2)] by auto
    moreover have "?c = i \<or> ?c < length ps \<and> 0 < ?c \<and> PARENT ?c = i" using True assms(2) pos by auto
    ultimately show ?thesis using e trans_le [OF r(2) b(1)] by blast
  next
    case False
    have "best_child compare (hst ps c ix) i ?l = Done ?b"
      using False assms by (simp add: best_child_def Let_def)
    moreover have "compare (ps ! ?b) (ps ! j) \<le> 0" if "j < length ps" "0 < j" "PARENT j = i" for j
      using PARENT_child [OF that(3,2)] b(2) False that(1) by auto
    moreover have "?b = i \<or> ?b < length ps \<and> 0 < ?b \<and> PARENT ?b = i" using assms(2) pos by auto
    ultimately show ?thesis using b(1) by blast
  qed
qed

lemma heapify_hst:
  assumes "indexed ps ix" "i < length ps" "length ps \<le> INT_MAX"
  shows "\<exists>qs jx. smartlist_heapify compare (hst ps c ix) i = Done (hst qs c jx) \<and> mset qs = mset ps \<and>
    indexed qs jx \<and> (\<forall>p. p \<notin> set ps \<longrightarrow> jx p = ix p) \<and> (heap_below compare ps i \<longrightarrow> heap compare qs)"
  using assms
proof (induction "length ps - i" arbitrary: ps ix i rule: less_induct)
  case less
  show ?case
  proof (cases "i \<le> MAX_PARENT_IDX \<and> LEFT_CHILD i < length ps")
    case False
    then have "length ps \<le> LEFT_CHILD i"
      using less.prems(3) by (auto simp: MAX_PARENT_IDX_def INT_MAX_def LEFT_CHILD_def)
    with less.prems no_child_heap show ?thesis by (subst smartlist_heapify.simps) auto
  next
    case True
    with best_child_hst [of i ps c ix] less.prems obtain b where
      b: "best_child compare (hst ps c ix) i (LEFT_CHILD i) = Done b"
        "b = i \<or> b < length ps \<and> 0 < b \<and> PARENT b = i" "compare (ps ! b) (ps ! i) \<le> 0"
        "\<And>j. j < length ps \<Longrightarrow> 0 < j \<Longrightarrow> PARENT j = i \<Longrightarrow> compare (ps ! b) (ps ! j) \<le> 0" by blast
    show ?thesis
    proof (cases "b = i")
      case eq: True
      have "heap compare ps" if "heap_below compare ps i"
        using that b(4) eq by (auto simp: heap_below_def heap_def)
      with True b(1) eq less.prems show ?thesis by (subst smartlist_heapify.simps) (auto simp: Let_def)
    next
      case False
      with b(2) have bl: "b < length ps" "0 < b" "PARENT b = i" by auto
      let ?qs = "swapped ps i b" and ?jx = "ix(swapped ps i b ! i := int i, swapped ps i b ! b := int b)"
      have lt: "i < b" using PARENT_less [OF bl(2)] bl(3) by simp
      have "length ?qs - b < length ps - i" "indexed ?qs ?jx" "b < length ?qs" "length ?qs \<le> INT_MAX"
        using lt bl less.prems by (simp_all add: indexed_swapped)
      from less.hyps [OF this] obtain rs kx where
        r: "smartlist_heapify compare (hst ?qs c ?jx) b = Done (hst rs c kx)" "mset rs = mset ?qs" "indexed rs kx"
          "\<And>p. p \<notin> set ?qs \<Longrightarrow> kx p = ?jx p" "heap_below compare ?qs b \<Longrightarrow> heap compare rs" by blast
      have m: "mset rs = mset ps" "set ?qs = set ps"
        using r(2) mset_swapped [OF less.prems(2) bl(1)] by (auto dest: mset_eq_setD)
      have "heap compare rs" if "heap_below compare ps i"
        using swap_below [OF that less.prems(2) bl(1,3,2) b(3,4)] r(5) by blast
      moreover have "kx p = ix p" if "p \<notin> set ps" for p
        using r(4) [of p] frame_swapped [OF less.prems(2) bl(1) that] m(2) that by metis
      moreover have "smartlist_heapify compare (hst ps c ix) i = Done (hst rs c kx)"
        using True b(1) False r(1) pq_swap_hst [OF less.prems(2) bl(1)]
        by (subst smartlist_heapify.simps) (simp add: Let_def)
      ultimately show ?thesis using m(1) r(3) by blast
    qed
  qed
qed

lemma sift_up_hst:
  assumes "indexed ps ix" "i < length ps"
  shows "\<exists>qs jx. sift_up compare (hst ps c ix) i = Done (hst qs c jx) \<and> mset qs = mset ps \<and>
    indexed qs jx \<and> (\<forall>p. p \<notin> set ps \<longrightarrow> jx p = ix p) \<and> (heap_above compare ps i \<longrightarrow> heap compare qs)"
  using assms
proof (induction i arbitrary: ps ix rule: less_induct)
  case (less i)
  show ?case
  proof (cases "0 < i \<and> compare (ps ! i) (ps ! PARENT i) < 0")
    case False
    then have "heap compare ps" if "heap_above compare ps i"
      using that less_le(2) by (auto simp: heap_above_def heap_def)
    moreover have "sift_up compare (hst ps c ix) i = Done (hst ps c ix)"
      using False less.prems PARENT_less [of i] by (subst sift_up.simps) (auto simp: Let_def)
    ultimately show ?thesis using less.prems by blast
  next
    case True
    let ?p = "PARENT i"
    have pi: "?p < i" "?p < length ps" using PARENT_less [of i] True less.prems(2) by auto
    let ?qs = "swapped ps ?p i" and ?jx = "ix(swapped ps ?p i ! ?p := int ?p, swapped ps ?p i ! i := int i)"
    have "indexed ?qs ?jx" "?p < length ?qs" using pi less.prems by (simp_all add: indexed_swapped)
    from less.IH [OF pi(1) this] obtain rs kx where
      r: "sift_up compare (hst ?qs c ?jx) ?p = Done (hst rs c kx)" "mset rs = mset ?qs" "indexed rs kx"
        "\<And>p. p \<notin> set ?qs \<Longrightarrow> kx p = ?jx p" "heap_above compare ?qs ?p \<Longrightarrow> heap compare rs" by blast
    have m: "mset rs = mset ps" "set ?qs = set ps"
      using r(2) mset_swapped [OF pi(2) less.prems(2)] by (auto dest: mset_eq_setD)
    have "heap compare rs" if "heap_above compare ps i"
      using swap_above [OF that less.prems(2)] True r(5) by blast
    moreover have "kx p = ix p" if "p \<notin> set ps" for p
      using r(4) [of p] frame_swapped [OF pi(2) less.prems(2) that] m(2) that by metis
    moreover have "sift_up compare (hst ps c ix) i = Done (hst rs c kx)"
      using True r(1) pi less.prems(2) pq_swap_hst [OF pi(2) less.prems(2)]
      by (subst sift_up.simps) (simp add: Let_def)
    ultimately show ?thesis using m(1) r(3) by blast
  qed
qed

end

section \<open>The queue as a set of items\<close>

definition pq_items :: "'p pqueue \<Rightarrow> 'p list" where
  "pq_items s = map the (abs_list (pq_list s))"

definition pq_indexed :: "'p pqueue \<Rightarrow> bool" where
  "pq_indexed s \<longleftrightarrow> smartlist_ok (pq_list s) \<and> None \<notin> set (abs_list (pq_list s)) \<and> indexed (pq_items s) (pq_idx s)"

definition pq_ok :: "('p \<Rightarrow> 'p \<Rightarrow> int) \<Rightarrow> 'p pqueue \<Rightarrow> bool" where
  "pq_ok compare s \<longleftrightarrow> pq_indexed s \<and> heap compare (pq_items s)"

definition pq_new :: "('p \<Rightarrow> int) \<Rightarrow> 'p pqueue" where
  "pq_new ix = \<lparr>pq_list = smartlist_new, pq_idx = ix\<rparr>"

lemma pq_items_hst [simp]: "pq_items (hst ps c ix) = ps"
  by (simp add: pq_items_def)

lemma fits_map [simp]: "fits (map f ps) c \<longleftrightarrow> length ps \<le> c \<and> 0 < c \<and> c \<le> MAX_CAPACITY"
  by (simp add: fits_def)

lemma pq_indexed_hst: "pq_indexed (hst ps c ix) \<longleftrightarrow> fits (map Some ps) c \<and> indexed ps ix"
  by (auto simp: pq_indexed_def ok_rep)

lemma pq_new_ok: "pq_ok compare (pq_new ix)" "pq_items (pq_new ix) = []"
  by (simp_all add: pq_ok_def pq_indexed_def pq_new_def pq_items_def new_yields indexed_def heap_def)

lemma pq_is_hst:
  assumes "pq_indexed s"
  obtains c where "s = hst (pq_items s) c (pq_idx s)" "fits (map Some (pq_items s)) c"
proof -
  have n: "None \<notin> set (abs_list (pq_list s))" and k: "smartlist_ok (pq_list s)"
    using assms by (simp_all add: pq_indexed_def)
  have "map Some (pq_items s) = abs_list (pq_list s)"
    unfolding pq_items_def map_map o_def by (rule map_idI) (use n in \<open>metis option.collapse\<close>)
  with ok_is_rep [OF k] have "s = hst (pq_items s) (capacity (pq_list s)) (pq_idx s)"
      "fits (map Some (pq_items s)) (capacity (pq_list s))"
    by (simp_all add: hst_def)
  then show ?thesis by (rule that)
qed

lemma heap_snoc: "heap compare ps \<Longrightarrow> heap_above compare (ps @ [p]) (length ps)"
proof -
  assume h: "heap compare ps"
  have "compare ((ps @ [p]) ! PARENT j) ((ps @ [p]) ! j) \<le> 0" if "j < length ps" "0 < j" for j
    using that h PARENT_less [of j] by (simp add: heap_def nth_append)
  moreover have "j < length (ps @ [p]) \<Longrightarrow> 0 < j \<Longrightarrow> PARENT j \<noteq> length ps" for j
    using PARENT_less [of j] by simp
  ultimately show ?thesis by (auto simp: heap_above_def less_Suc_eq)
qed

lemma indexed_snoc: "indexed ps ix \<Longrightarrow> p \<notin> set ps \<Longrightarrow> indexed (ps @ [p]) (ix(p := int (length ps)))"
  by (auto simp: indexed_def nth_append less_Suc_eq)

context comparison begin

lemma add_hst:
  assumes "indexed ps ix" "p \<notin> set ps" "fits (map Some ps) c" "length ps < MAX_CAPACITY"
  shows "\<exists>qs jx c'. smartlist_pqueue_add compare (hst ps c ix) p = Done (hst qs c' jx) \<and>
    mset qs = add_mset p (mset ps) \<and> indexed qs jx \<and> fits (map Some qs) c' \<and>
    (\<forall>q. q \<notin> insert p (set ps) \<longrightarrow> jx q = ix q) \<and> (heap compare ps \<longrightarrow> heap compare qs)"
proof -
  from add_rep [OF assms(3), of "Some p"] assms(4) obtain c' where
    c': "smartlist_add (rep (map Some ps) c) (Some p) = Done (rep (map Some (ps @ [p])) c')" "fits (map Some (ps @ [p])) c'"
    by auto
  let ?ix = "ix(p := int (length ps))"
  have i: "indexed (ps @ [p]) ?ix" by (rule indexed_snoc [OF assms(1,2)])
  from sift_up_hst [OF i, of "length ps" c'] obtain qs jx where
    q: "sift_up compare (hst (ps @ [p]) c' ?ix) (length ps) = Done (hst qs c' jx)" "mset qs = mset (ps @ [p])"
      "indexed qs jx" "\<And>q. q \<notin> set (ps @ [p]) \<Longrightarrow> jx q = ?ix q"
      "heap_above compare (ps @ [p]) (length ps) \<Longrightarrow> heap compare qs" by auto
  have u: "update_idx (hst (ps @ [p]) c' ix) (length ps) = Done (hst (ps @ [p]) c' ?ix)"
    by (simp add: update_idx_hst)
  have v: "hst ps c ix\<lparr>pq_list := rep (map Some (ps @ [p])) c'\<rparr> = hst (ps @ [p]) c' ix"
    by (simp add: hst_def)
  have a: "smartlist_pqueue_add compare (hst ps c ix) p = Done (hst qs c' jx)"
    unfolding smartlist_pqueue_add_def hst_sel c'(1) obind.simps v by (simp add: u q(1))
  have "length qs = length (ps @ [p])" using arg_cong [OF q(2), of size] by simp
  then have "fits (map Some qs) c'" using c'(2) by (simp add: fits_def)
  moreover have "jx r = ix r" if "r \<notin> insert p (set ps)" for r using q(4) [of r] that by simp
  moreover have "mset qs = add_mset p (mset ps)" using q(2) by simp
  moreover have "heap compare qs" if "heap compare ps" using q(5) heap_snoc [OF that] by blast
  ultimately show ?thesis using a q(3) by (intro exI conjI) blast+
qed

text \<open>Moving the last item to \<open>i\<close> and shrinking the array, as both removals do it.\<close>

definition shrunk :: "'p list \<Rightarrow> nat \<Rightarrow> ('p \<Rightarrow> int) \<Rightarrow> 'p pqueue" where
  "shrunk ps c ix = \<lparr>pq_list = (rep (map Some ps) c)\<lparr>num_used := length ps - 1\<rparr>, pq_idx = ix\<rparr>"

lemma shrunk_sel:
  "hst ps c ix\<lparr>pq_idx := jx, pq_list := rep (map Some ps) c\<lparr>num_used := length ps - 1\<rparr>\<rparr> = shrunk ps c jx"
  "hst ps c ix\<lparr>pq_list := rep (map Some ps) c\<lparr>num_used := length ps - 1\<rparr>, pq_idx := jx\<rparr> = shrunk ps c jx"
  "entries (pq_list (shrunk ps c jx)) = map Some ps @ replicate (c - length ps) None"
  "num_used (pq_list (shrunk ps c jx)) = length ps - 1"
  by (simp_all add: shrunk_def hst_def)

lemma pq_store_none_last:
  fixes ps :: "'p list"
  assumes "ps \<noteq> []" "fits (map Some ps) c"
  shows "pq_store (shrunk ps c ix) (length ps - 1) None = Done (hst (butlast ps) c ix)"
proof (cases ps rule: rev_cases)
  case (snoc rs p)
  then obtain k where k: "c - length rs = Suc k" using assms(2) by (cases "c - length rs") (auto simp: fits_def)
  then have "c - Suc (length rs) = k" by simp
  with k show ?thesis
    by (simp add: snoc pq_store_def shrunk_sel put_entry_def list_update_append)
      (simp add: shrunk_def hst_def rep_def)
qed (use assms in simp)

lemma move_last:
  fixes ps :: "'p list"
  assumes "i < length ps - 1" "fits (map Some ps) c"
  shows "obind (get_entry (map Some ps @ replicate (c - length ps) None) (length ps - 1)) (\<lambda>e.
      obind (pq_store (shrunk ps c ix) i e) (\<lambda>s. obind (pq_store s (length ps - 1) None) f)) =
    f (hst (list_del ps i) c ix)"
proof -
  obtain rs p where ps: "ps = rs @ [p]" using assms(1) by (cases ps rule: rev_cases) auto
  have i: "i < length rs" using assms(1) by (simp add: ps)
  have "pq_store (shrunk ps c ix) i (Some p) = Done (shrunk (rs[i := p] @ [p]) c ix)"
    using i by (simp add: ps pq_store_def shrunk_sel put_entry_def list_update_append)
      (simp add: shrunk_def rep_def map_update)
  moreover have "pq_store (shrunk (rs[i := p] @ [p]) c ix) (length rs) None = Done (hst (rs[i := p]) c ix)"
    using pq_store_none_last [of "rs[i := p] @ [p]" c ix] assms(2) by (simp add: ps fits_def)
  moreover have "get_entry (map Some ps @ replicate (c - length ps) None) (length rs) = Done (Some p)"
    by (simp add: get_entry_def ps nth_append)
  ultimately show ?thesis by (simp add: list_del_def ps)
qed

lemma store_unused:
  fixes ps :: "'p list"
  assumes "length ps < c"
  shows "pq_store (hst ps c ix) (length ps) None = Done (hst ps c ix)"
proof -
  obtain k where "c - length ps = Suc k" using assms by (cases "c - length ps") auto
  then show ?thesis using assms
    by (simp add: pq_store_def put_entry_def hst_def rep_def list_update_append)
qed

lemma set_list_del: "distinct ps \<Longrightarrow> i < length ps \<Longrightarrow> set (list_del ps i) = set ps - {ps ! i} \<and> distinct (list_del ps i)"
proof -
  assume d: "distinct ps" and i: "i < length ps"
  have m: "mset (ps ! i # list_del ps i) = mset ps" using mset_list_del [OF i] by simp
  then have "distinct (ps ! i # list_del ps i)" using d by (metis mset_eq_imp_distinct_iff)
  with mset_eq_setD [OF m] show ?thesis by auto
qed

lemma indexed_snocD:
  "indexed (rs @ [p]) ix \<Longrightarrow> distinct rs \<and> p \<notin> set rs \<and> (\<forall>k < length rs. ix (rs ! k) = int k)"
  by (simp add: indexed_def nth_append) (metis less_SucI)

lemma indexed_moved:
  assumes "indexed ps ix" "i < length ps - 1"
  shows "indexed (list_del ps i) (ix(ps ! i := -1, last ps := int i))"
proof -
  obtain rs p where ps: "ps = rs @ [p]" using assms(2) by (cases ps rule: rev_cases) auto
  have i: "i < length rs" using assms(2) by (simp add: ps)
  have d: "distinct rs" "p \<notin> set rs" and x: "\<And>k. k < length rs \<Longrightarrow> ix (rs ! k) = int k"
    using indexed_snocD [of rs p ix] assms(1) by (auto simp: ps)
  have "(ix(rs ! i := -1, p := int i)) (rs[i := p] ! k) = int k" if k: "k < length rs" for k
  proof (cases "k = i")
    case False
    then have "rs ! k \<noteq> rs ! i" "rs ! k \<noteq> p" using k i d by (auto simp: nth_eq_iff_index_eq)
    with False x [OF k] show ?thesis by simp
  qed (use i in simp)
  with set_list_del [of ps i] assms i show ?thesis by (simp add: indexed_def list_del_def ps nth_append)
qed

lemma heap_initial:
  assumes "heap compare (rs @ [p])"
  shows "heap compare rs"
  unfolding heap_def
proof (intro allI impI)
  fix j assume j: "j < length rs" "0 < j"
  with assms have "compare ((rs @ [p]) ! PARENT j) ((rs @ [p]) ! j) \<le> 0" by (simp add: heap_def)
  then show "compare (rs ! PARENT j) (rs ! j) \<le> 0" using j PARENT_less [OF j(2)] by (simp add: nth_append)
qed

lemma heap_moved:
  assumes "heap compare ps" "i < length ps - 1" "0 < i \<Longrightarrow> compare (ps ! PARENT i) (last ps) \<le> 0"
  shows "heap_below compare (list_del ps i) i"
proof -
  obtain rs p where ps: "ps = rs @ [p]" using assms(2) by (cases ps rule: rev_cases) auto
  have i: "i < length rs" using assms(2) by (simp add: ps)
  have h: "compare (rs ! PARENT j) (rs ! j) \<le> 0" if "j < length rs" "0 < j" for j
    using heap_initial assms(1) that by (simp add: heap_def ps)
  have p: "0 < i \<Longrightarrow> compare (rs ! PARENT i) p \<le> 0" using assms(3) PARENT_less [of i] i by (simp add: ps nth_append)
  have "compare (rs[i := p] ! PARENT i) (rs[i := p] ! j) \<le> 0" if j: "j < length rs" "0 < j" "PARENT j = i" "0 < i" for j
  proof -
    have "compare (rs ! PARENT i) (rs ! j) \<le> 0" using trans_le [OF h [OF i j(4)]] h [OF j(1,2)] j(3) by simp
    then show ?thesis using PARENT_less [OF j(4)] PARENT_less [OF j(2)] j(3) by simp
  qed
  moreover have "compare (rs[i := p] ! PARENT j) (rs[i := p] ! j) \<le> 0" if j: "j < length rs" "0 < j" "PARENT j \<noteq> i" for j
  proof (cases "j = i")
    case True
    then show ?thesis using p i PARENT_less [OF j(2)] j(2,3) by simp
  next
    case False
    then show ?thesis using h [OF j(1,2)] j(3) by simp
  qed
  ultimately show ?thesis by (simp add: heap_below_def list_del_def ps)
qed

text \<open>What both removals do once the index of the item at \<open>i\<close> is cleared.\<close>

lemma refill_hst:
  assumes "indexed ps ix" "i < length ps - 1" "fits (map Some ps) c"
  shows "\<exists>qs jx.
    obind (get_entry (map Some ps @ replicate (c - length ps) None) (length ps - 1)) (\<lambda>e.
      obind (pq_store (shrunk ps c (ix(ps ! i := -1))) i e) (\<lambda>s. obind (pq_store s (length ps - 1) None) (\<lambda>s.
      obind (update_idx s i) (\<lambda>s. smartlist_heapify compare s i)))) = Done (hst qs c jx) \<and>
    mset ps = add_mset (ps ! i) (mset qs) \<and> indexed qs jx \<and> jx (ps ! i) = -1 \<and> fits (map Some qs) c \<and>
    (\<forall>q. q \<notin> set ps \<longrightarrow> jx q = ix q) \<and>
    (heap compare ps \<longrightarrow> (0 < i \<longrightarrow> compare (ps ! PARENT i) (last ps) \<le> 0) \<longrightarrow> heap compare qs)"
proof -
  let ?qs = "list_del ps i" and ?jx = "ix(ps ! i := -1, last ps := int i)"
  have ne: "i < length ps" "ps \<noteq> []" using assms(2) by auto
  have d: "distinct ps" using assms(1) by (simp add: indexed_def)
  have l: "length ?qs = length ps - 1" by simp
  have at: "?qs ! i = last ps" using assms(2) by (simp add: list_del_def)
  have upd: "update_idx (hst ?qs c (ix(ps ! i := -1))) i = Done (hst ?qs c ?jx)"
    using assms(2) at by (simp add: update_idx_hst)
  have "i < length ?qs" "length ?qs \<le> INT_MAX" using assms(2,3) by (auto simp: MAX_CAPACITY_def)
  from heapify_hst [OF indexed_moved [OF assms(1,2)] this, of c] obtain ts kx where
    t: "smartlist_heapify compare (hst ?qs c ?jx) i = Done (hst ts c kx)" "mset ts = mset ?qs"
      "indexed ts kx" "\<And>q. q \<notin> set ?qs \<Longrightarrow> kx q = ?jx q" "heap_below compare ?qs i \<Longrightarrow> heap compare ts" by blast
  have run: "obind (get_entry (map Some ps @ replicate (c - length ps) None) (length ps - 1)) (\<lambda>e.
      obind (pq_store (shrunk ps c (ix(ps ! i := -1))) i e) (\<lambda>s. obind (pq_store s (length ps - 1) None) (\<lambda>s.
      obind (update_idx s i) (\<lambda>s. smartlist_heapify compare s i)))) = Done (hst ts c kx)"
    by (simp only: move_last [OF assms(2,3)] upd t(1) obind.simps)
  have m: "mset ps = add_mset (ps ! i) (mset ts)" using t(2) mset_list_del [OF ne(1)] by simp
  have la: "last ps \<noteq> ps ! i" using d ne assms(2) by (simp add: last_conv_nth nth_eq_iff_index_eq)
  have "kx (ps ! i) = -1" using t(4) [of "ps ! i"] set_list_del [OF d ne(1)] la by simp
  moreover have "kx q = ix q" if "q \<notin> set ps" for q
    using t(4) [of q] set_list_del [OF d ne(1)] that ne by (metis Diff_iff fun_upd_other last_in_set nth_mem)
  moreover have "heap compare ts" if "heap compare ps" "0 < i \<longrightarrow> compare (ps ! PARENT i) (last ps) \<le> 0"
    using t(5) heap_moved [OF that(1) assms(2)] that(2) by blast
  moreover have "fits (map Some ts) c"
    using assms(3) arg_cong [OF t(2), of size] by auto
  ultimately show ?thesis using run m t(3) by blast
qed

lemma pop_hst:
  assumes "indexed ps ix" "ps \<noteq> []" "fits (map Some ps) c"
  shows "\<exists>qs jx. smartlist_pqueue_pop compare (hst ps c ix) = Done (ps ! 0, hst qs c jx) \<and>
    mset ps = add_mset (ps ! 0) (mset qs) \<and> indexed qs jx \<and> jx (ps ! 0) = -1 \<and> fits (map Some qs) c \<and>
    (\<forall>q. q \<notin> set ps \<longrightarrow> jx q = ix q) \<and> (heap compare ps \<longrightarrow> heap compare qs)"
proof -
  let ?n = "length ps - 1" and ?s = "shrunk ps c (ix(ps ! 0 := -1))"
  let ?refill = "obind (get_entry (map Some ps @ replicate (c - length ps) None) ?n) (\<lambda>e. obind (pq_store ?s 0 e) (\<lambda>s.
      obind (pq_store s ?n None) (\<lambda>s. obind (update_idx s 0) (\<lambda>s. smartlist_heapify compare s 0))))"
  have l: "length ps \<noteq> 0" "0 < length ps" using assms(2) by auto
  have pop: "smartlist_pqueue_pop compare (hst ps c ix) =
      obind (if ?n \<noteq> 0 then ?refill else Done ?s) (\<lambda>s. obind (pq_store s (num_used (pq_list s)) None) (\<lambda>s. Done (ps ! 0, s)))"
    by (simp only: smartlist_pqueue_pop_def hst_sel rep_sel(2) length_map pq_load_hst [OF l(2)] obind.simps Let_def l(1) if_False shrunk_sel)
  show ?thesis
  proof (cases "?n = 0")
    case True
    then obtain p where ps: "ps = [p]" using assms(2) by (cases ps) auto
    have "smartlist_pqueue_pop compare (hst ps c ix) = Done (ps ! 0, hst [] c (ix(ps ! 0 := -1)))"
      unfolding pop using pq_store_none_last [OF assms(2,3), of "ix(ps ! 0 := -1)"] True
      by (simp add: shrunk_sel) (simp add: ps)
    then show ?thesis using assms(3) by (intro exI conjI) (assumption, auto simp: ps indexed_def heap_def fits_def)
  next
    case False
    then have "0 < length ps - 1" by simp
    from refill_hst [OF assms(1) this assms(3)] obtain qs jx where
      q: "?refill = Done (hst qs c jx)" "mset ps = add_mset (ps ! 0) (mset qs)" "indexed qs jx" "jx (ps ! 0) = -1"
        "fits (map Some qs) c" "\<And>q. q \<notin> set ps \<Longrightarrow> jx q = ix q" "heap compare ps \<Longrightarrow> heap compare qs" by auto
    have "length ps = Suc (length qs)" using arg_cong [OF q(2), of size] by simp
    then have "length qs < c" using assms(3) by simp
    then have "smartlist_pqueue_pop compare (hst ps c ix) = Done (ps ! 0, hst qs c jx)"
      unfolding pop using False q(1) store_unused [of qs c jx] by simp
    with q show ?thesis by blast
  qed
qed

lemma remove_hst:
  assumes "indexed ps ix" "i < length ps" "fits (map Some ps) c"
  shows "\<exists>qs jx. smartlist_pqueue_remove compare (hst ps c ix) (ps ! i) = Done (hst qs c jx) \<and>
    mset ps = add_mset (ps ! i) (mset qs) \<and> indexed qs jx \<and> jx (ps ! i) = -1 \<and> fits (map Some qs) c \<and>
    (\<forall>q. q \<notin> set ps \<longrightarrow> jx q = ix q) \<and>
    (heap compare ps \<longrightarrow> (0 < i \<longrightarrow> compare (ps ! PARENT i) (last ps) \<le> 0) \<longrightarrow> heap compare qs)"
proof -
  let ?n = "length ps - 1" and ?s = "shrunk ps c (ix(ps ! i := -1))"
  let ?refill = "obind (get_entry (map Some ps @ replicate (c - length ps) None) ?n) (\<lambda>e. obind (pq_store ?s i e) (\<lambda>s.
      obind (pq_store s ?n None) (\<lambda>s. obind (update_idx s i) (\<lambda>s. smartlist_heapify compare s i))))"
  have x: "ix (ps ! i) = int i" using assms(1,2) by (simp add: indexed_def)
  have g: "get_entry (entries (rep (map Some ps) c)) i = Done (Some (ps ! i))"
    using assms(2) by (simp add: get_entry_def nth_append)
  have rm: "smartlist_pqueue_remove compare (hst ps c ix) (ps ! i) = (if i = ?n then pq_store ?s ?n None else ?refill)"
    by (simp only: smartlist_pqueue_remove_def Let_def hst_sel rep_sel(2) length_map x nat_int of_nat_0_le_iff not_True_eq_False if_False g
        obind.simps shrunk_sel simp_thms)
  show ?thesis
  proof (cases "i = ?n")
    case True
    obtain rs p where ps: "ps = rs @ [p]" using assms(2) by (cases ps rule: rev_cases) auto
    have "smartlist_pqueue_remove compare (hst ps c ix) (ps ! i) = Done (hst rs c (ix(ps ! i := -1)))"
      unfolding rm using pq_store_none_last [OF _ assms(3), of "ix(ps ! i := -1)"] True by (simp add: ps)
    moreover have "heap compare rs" if "heap compare ps"
      using heap_initial that by (simp add: ps)
    moreover have "indexed rs (ix(ps ! i := -1))"
      using indexed_snocD [of rs p ix] assms(1) True by (auto simp: indexed_def ps)
    moreover have "mset ps = add_mset (ps ! i) (mset rs)" using True by (simp add: ps)
    moreover have "fits (map Some rs) c" using assms(3) by (auto simp: ps fits_def)
    moreover have "\<forall>q. q \<notin> set ps \<longrightarrow> (ix(ps ! i := -1)) q = ix q" using nth_mem [OF assms(2)] by auto
    ultimately show ?thesis
      by (intro exI [of _ rs] exI [of _ "ix(ps ! i := -1)"] conjI) (assumption | simp)+
  next
    case False
    then have "i < length ps - 1" using assms(2) by simp
    from refill_hst [OF assms(1) this assms(3)] show ?thesis unfolding rm if_not_P [OF False] .
  qed
qed

lemma assert_loop_hst:
  "n \<le> length ps \<Longrightarrow> assert_loop compare (hst ps c ix) n =
    (if (\<forall>j < n. 0 < j \<longrightarrow> compare (ps ! PARENT j) (ps ! j) \<le> 0) \<and> (\<forall>j < n. ix (ps ! j) = int j) then Done () else Stuck)"
proof (induction n)
  case (Suc n)
  then have "assert_loop compare (hst ps c ix) (Suc n) =
      (if (0 < n \<longrightarrow> compare (ps ! PARENT n) (ps ! n) \<le> 0) \<and> ix (ps ! n) = int n
       then assert_loop compare (hst ps c ix) n else Stuck)"
    using PARENT_less [of n] by auto
  with Suc show ?case by (auto simp: less_Suc_eq)
qed simp

end

section \<open>The queue as an interface\<close>

text \<open>What a user of a priority queue relies on; the first item is the least.\<close>

locale priority_queue =
  fixes compare :: "'p \<Rightarrow> 'p \<Rightarrow> int" and add :: "'s \<Rightarrow> 'p \<Rightarrow> 's outcome" and pop :: "'s \<Rightarrow> ('p \<times> 's) outcome"
    and inv :: "'s \<Rightarrow> bool" and items :: "'s \<Rightarrow> 'p list"
  assumes add_law: "inv s \<Longrightarrow> p \<notin> set (items s) \<Longrightarrow> length (items s) < MAX_CAPACITY \<Longrightarrow>
      \<exists>s'. add s p = Done s' \<and> inv s' \<and> mset (items s') = add_mset p (mset (items s))"
    and pop_law: "inv s \<Longrightarrow> items s \<noteq> [] \<Longrightarrow>
      \<exists>s'. pop s = Done (hd (items s), s') \<and> inv s' \<and> mset (items s) = add_mset (hd (items s)) (mset (items s'))"
    and least_law: "inv s \<Longrightarrow> q \<in> set (items s) \<Longrightarrow> compare (hd (items s)) q \<le> 0"

text \<open>Adding items one after the other, and taking out \<open>n\<close> items.\<close>

fun add_items :: "('s \<Rightarrow> 'p \<Rightarrow> 's outcome) \<Rightarrow> 's \<Rightarrow> 'p list \<Rightarrow> 's outcome" where
  "add_items add s [] = Done s"
| "add_items add s (p # ps) = obind (add s p) (\<lambda>s. add_items add s ps)"

fun pop_items :: "('s \<Rightarrow> ('p \<times> 's) outcome) \<Rightarrow> 's \<Rightarrow> nat \<Rightarrow> 'p list outcome" where
  "pop_items pop s 0 = Done []"
| "pop_items pop s (Suc n) = obind (pop s) (\<lambda>(p, s). obind (pop_items pop s n) (\<lambda>ps. Done (p # ps)))"

context priority_queue begin

lemma add_items_law:
  "inv s \<Longrightarrow> distinct (items s @ ps) \<Longrightarrow> length (items s) + length ps \<le> MAX_CAPACITY \<Longrightarrow>
    \<exists>s'. add_items add s ps = Done s' \<and> inv s' \<and> mset (items s') = mset (items s) + mset ps"
proof (induction ps arbitrary: s)
  case (Cons p ps)
  from add_law [of s p] Cons.prems obtain s' where
    s': "add s p = Done s'" "inv s'" "mset (items s') = mset (p # items s)" by auto
  have "mset (items s' @ ps) = mset (items s @ p # ps)" using s'(3) by simp
  then have "distinct (items s' @ ps)" using Cons.prems(2) by (metis mset_eq_imp_distinct_iff)
  moreover have "length (items s') = Suc (length (items s))" using arg_cong [OF s'(3), of size] by simp
  ultimately obtain t where "add_items add s' ps = Done t" "inv t" "mset (items t) = mset (items s') + mset ps"
    using Cons.IH [OF s'(2)] Cons.prems(3) by auto
  with s' show ?case by simp
qed simp

lemma pop_items_law:
  "inv s \<Longrightarrow> n = length (items s) \<Longrightarrow>
    \<exists>ps. pop_items pop s n = Done ps \<and> mset ps = mset (items s) \<and> sorted_wrt (\<lambda>a b. compare a b \<le> 0) ps"
proof (induction n arbitrary: s)
  case (Suc n)
  then have ne: "items s \<noteq> []" by auto
  from pop_law [OF Suc.prems(1) ne] obtain s' where
    s': "pop s = Done (hd (items s), s')" "inv s'" "mset (items s) = add_mset (hd (items s)) (mset (items s'))" by blast
  have "n = length (items s')" using arg_cong [OF s'(3), of size] Suc.prems(2) by simp
  from Suc.IH [OF s'(2) this] obtain ps where
    ps: "pop_items pop s' n = Done ps" "mset ps = mset (items s')" "sorted_wrt (\<lambda>a b. compare a b \<le> 0) ps" by blast
  have "set ps \<subseteq> set (items s)" using ps(2) s'(3) by (metis mset_eq_setD set_mset_add_mset_insert set_mset_mset subset_insertI)
  with least_law [OF Suc.prems(1)] ps s' show ?case by auto
qed simp

end

context comparison begin

lemma hd_conv: "ps \<noteq> [] \<Longrightarrow> hd ps = ps ! 0"
  by (rule hd_conv_nth)

lemma pq_add:
  assumes "pq_indexed s" "p \<notin> set (pq_items s)" "length (pq_items s) < MAX_CAPACITY"
  shows "\<exists>s'. smartlist_pqueue_add compare s p = Done s' \<and> pq_indexed s' \<and>
    mset (pq_items s') = add_mset p (mset (pq_items s)) \<and>
    (\<forall>q. q \<notin> insert p (set (pq_items s)) \<longrightarrow> pq_idx s' q = pq_idx s q) \<and> (pq_ok compare s \<longrightarrow> pq_ok compare s')"
proof -
  obtain c where s: "s = hst (pq_items s) c (pq_idx s)" and f: "fits (map Some (pq_items s)) c" using pq_is_hst [OF assms(1)] .
  from add_hst [OF _ assms(2) f assms(3), of "pq_idx s"] assms(1) obtain qs jx c' where
    "smartlist_pqueue_add compare s p = Done (hst qs c' jx)" "mset qs = add_mset p (mset (pq_items s))" "indexed qs jx"
    "fits (map Some qs) c'" "\<forall>q. q \<notin> insert p (set (pq_items s)) \<longrightarrow> jx q = pq_idx s q"
    "heap compare (pq_items s) \<longrightarrow> heap compare qs"
    unfolding s [symmetric] pq_indexed_def by blast
  then show ?thesis by (intro exI [of _ "hst qs c' jx"]) (auto simp: pq_ok_def pq_indexed_hst)
qed

lemma pq_pop:
  assumes "pq_indexed s" "pq_items s \<noteq> []"
  shows "\<exists>s'. smartlist_pqueue_pop compare s = Done (hd (pq_items s), s') \<and> pq_indexed s' \<and>
    mset (pq_items s) = add_mset (hd (pq_items s)) (mset (pq_items s')) \<and> pq_idx s' (hd (pq_items s)) = -1 \<and>
    (\<forall>q. q \<notin> set (pq_items s) \<longrightarrow> pq_idx s' q = pq_idx s q) \<and> (pq_ok compare s \<longrightarrow> pq_ok compare s')"
proof -
  obtain c where s: "s = hst (pq_items s) c (pq_idx s)" and f: "fits (map Some (pq_items s)) c" using pq_is_hst [OF assms(1)] .
  from pop_hst [OF _ assms(2) f, of "pq_idx s"] assms(1) obtain qs jx where
    "smartlist_pqueue_pop compare s = Done (hd (pq_items s), hst qs c jx)"
    "mset (pq_items s) = add_mset (hd (pq_items s)) (mset qs)" "indexed qs jx" "jx (hd (pq_items s)) = -1"
    "fits (map Some qs) c" "\<forall>q. q \<notin> set (pq_items s) \<longrightarrow> jx q = pq_idx s q"
    "heap compare (pq_items s) \<longrightarrow> heap compare qs"
    unfolding s [symmetric] pq_indexed_def hd_conv [OF assms(2), symmetric] by blast
  then show ?thesis by (intro exI [of _ "hst qs c jx"]) (auto simp: pq_ok_def pq_indexed_hst)
qed

lemma pq_remove:
  assumes "pq_indexed s" "i < length (pq_items s)"
  shows "\<exists>s'. smartlist_pqueue_remove compare s (pq_items s ! i) = Done s' \<and> pq_indexed s' \<and>
    mset (pq_items s) = add_mset (pq_items s ! i) (mset (pq_items s')) \<and> pq_idx s' (pq_items s ! i) = -1 \<and>
    (\<forall>q. q \<notin> set (pq_items s) \<longrightarrow> pq_idx s' q = pq_idx s q) \<and>
    (pq_ok compare s \<longrightarrow> (0 < i \<longrightarrow> compare (pq_items s ! PARENT i) (last (pq_items s)) \<le> 0) \<longrightarrow> pq_ok compare s')"
proof -
  obtain c where s: "s = hst (pq_items s) c (pq_idx s)" and f: "fits (map Some (pq_items s)) c" using pq_is_hst [OF assms(1)] .
  from remove_hst [OF _ assms(2) f, of "pq_idx s"] assms(1) obtain qs jx where
    "smartlist_pqueue_remove compare s (pq_items s ! i) = Done (hst qs c jx)"
    "mset (pq_items s) = add_mset (pq_items s ! i) (mset qs)" "indexed qs jx" "jx (pq_items s ! i) = -1"
    "fits (map Some qs) c" "\<forall>q. q \<notin> set (pq_items s) \<longrightarrow> jx q = pq_idx s q"
    "heap compare (pq_items s) \<longrightarrow> (0 < i \<longrightarrow> compare (pq_items s ! PARENT i) (last (pq_items s)) \<le> 0) \<longrightarrow> heap compare qs"
    unfolding s [symmetric] pq_indexed_def by blast
  then show ?thesis by (intro exI [of _ "hst qs c jx"]) (auto simp: pq_ok_def pq_indexed_hst)
qed

lemma pq_least: "pq_ok compare s \<Longrightarrow> q \<in> set (pq_items s) \<Longrightarrow> compare (hd (pq_items s)) q \<le> 0"
  using heap_root_least by (auto simp: pq_ok_def in_set_conv_nth) (metis hd_conv list.size(3) not_less_zero)

lemma pq_assert:
  assumes "pq_indexed s"
  shows "smartlist_pqueue_assert_ok compare s = (if pq_ok compare s then Done () else Stuck)"
proof -
  obtain c where s: "s = hst (pq_items s) c (pq_idx s)" using pq_is_hst [OF assms] .
  have n: "num_used (pq_list s) = length (pq_items s)" by (subst s) simp
  show ?thesis
    using assert_loop_hst [of "length (pq_items s)" "pq_items s" c "pq_idx s"] assms
    unfolding s [symmetric] smartlist_pqueue_assert_ok_def n
    by (auto simp: pq_ok_def heap_def pq_indexed_def indexed_def)
qed

end

sublocale comparison \<subseteq> pq: priority_queue compare "smartlist_pqueue_add compare" "smartlist_pqueue_pop compare"
  "pq_ok compare" pq_items
proof unfold_locales
  fix s p assume "pq_ok compare s" "p \<notin> set (pq_items s)" "length (pq_items s) < MAX_CAPACITY"
  then show "\<exists>s'. smartlist_pqueue_add compare s p = Done s' \<and> pq_ok compare s' \<and>
      mset (pq_items s') = add_mset p (mset (pq_items s))"
    using pq_add [of s p] by (auto simp: pq_ok_def)
next
  fix s assume "pq_ok compare s" "pq_items s \<noteq> []"
  then show "\<exists>s'. smartlist_pqueue_pop compare s = Done (hd (pq_items s), s') \<and> pq_ok compare s' \<and>
      mset (pq_items s) = add_mset (hd (pq_items s)) (mset (pq_items s'))"
    using pq_pop [of s] by (auto simp: pq_ok_def)
qed (rule pq_least)

section \<open>The properties\<close>

datatype 'p pq_op = Pq_add 'p | Pq_pop | Pq_remove 'p

fun pq_apply :: "('p \<Rightarrow> 'p \<Rightarrow> int) \<Rightarrow> 'p pq_op \<Rightarrow> 'p pqueue \<Rightarrow> 'p pqueue outcome" where
  "pq_apply compare (Pq_add p) s = smartlist_pqueue_add compare s p"
| "pq_apply compare Pq_pop s = obind (smartlist_pqueue_pop compare s) (\<lambda>(_, s). Done s)"
| "pq_apply compare (Pq_remove p) s = smartlist_pqueue_remove compare s p"

text \<open>
  What callers have to see to: no item twice, no pop from an empty queue, only items of the queue
  removed, and only where the last item, which takes the place, is not less than the parent there.
\<close>

fun pq_allowed :: "('p \<Rightarrow> 'p \<Rightarrow> int) \<Rightarrow> 'p pq_op \<Rightarrow> 'p pqueue \<Rightarrow> bool" where
  "pq_allowed compare (Pq_add p) s = (p \<notin> set (pq_items s) \<and> length (pq_items s) < MAX_CAPACITY)"
| "pq_allowed compare Pq_pop s = (pq_items s \<noteq> [])"
| "pq_allowed compare (Pq_remove p) s =
     (p \<in> set (pq_items s) \<and>
      (0 < pq_idx s p \<longrightarrow> compare (pq_items s ! PARENT (nat (pq_idx s p))) (last (pq_items s)) \<le> 0))"

definition pq_reachable :: "('p \<Rightarrow> 'p \<Rightarrow> int) \<Rightarrow> ('p \<Rightarrow> int) \<Rightarrow> 'p pqueue \<Rightarrow> bool" where
  "pq_reachable compare ix = reach (pq_apply compare) (pq_allowed compare) (pq_new ix)"

context comparison begin

lemma pq_apply_ok:
  assumes "pq_ok compare s" "pq_allowed compare op s"
  shows "\<exists>s'. pq_apply compare op s = Done s' \<and> pq_ok compare s'"
proof (cases op)
  case (Pq_add p)
  with pq_add [of s p] assms show ?thesis by (auto simp: pq_ok_def)
next
  case Pq_pop
  with pq_pop [of s] assms show ?thesis by (auto simp: pq_ok_def)
next
  case (Pq_remove p)
  then obtain i where i: "i < length (pq_items s)" "pq_items s ! i = p" using assms(2) by (auto simp: in_set_conv_nth)
  then have "pq_idx s p = int i" using assms(1) by (auto simp: pq_ok_def pq_indexed_def indexed_def)
  with pq_remove [of s i] assms Pq_remove i show ?thesis by (auto simp: pq_ok_def)
qed

lemma pq_sorts:
  assumes "distinct ps" "length ps \<le> MAX_CAPACITY"
  shows "\<exists>s qs. add_items (smartlist_pqueue_add compare) (pq_new ix) ps = Done s \<and>
    pop_items (smartlist_pqueue_pop compare) s (length ps) = Done qs \<and> mset qs = mset ps \<and>
    sorted_wrt (\<lambda>a b. compare a b \<le> 0) qs"
proof -
  from pq.add_items_law [OF pq_new_ok(1), of ix ps] assms obtain s where
    s: "add_items (smartlist_pqueue_add compare) (pq_new ix) ps = Done s" "pq_ok compare s" "mset (pq_items s) = mset ps"
    by (auto simp: pq_new_ok)
  have "length ps = length (pq_items s)" using arg_cong [OF s(3), of size] by simp
  from pq.pop_items_law [OF s(2) this] s show ?thesis by auto
qed

lemma pq_reachable_ok: "reach (pq_apply compare) (pq_allowed compare) (pq_new ix) s \<Longrightarrow> pq_ok compare s"
proof (induction rule: reach.induct)
  case (reach_op s opn s')
  with pq_apply_ok [of s opn] show ?case by auto
qed (rule pq_new_ok)

end

text \<open>
  The heap and its indices stay sound: \<open>smartlist_pqueue_assert_ok\<close> finds nothing wrong
  with any queue built from an empty one by adding items, taking out the first one, and removing
  items where the last one may take their place.
\<close>

theorem pqueue_invariant:
  assumes "\<And>a b. compare a b < 0 \<longleftrightarrow> 0 < compare b a"
    and "\<And>a b c. compare a b \<le> 0 \<Longrightarrow> compare b c \<le> 0 \<Longrightarrow> compare a c \<le> 0"
    and "pq_reachable compare ix s"
  shows "smartlist_pqueue_assert_ok compare s = Done ()"
proof -
  have c: "comparison compare" by (rule comparison.intro) (use assms(1,2) in blast)+
  from comparison.pq_reachable_ok [OF c] assms(3) have "pq_ok compare s" by (simp add: pq_reachable_def)
  with comparison.pq_assert [OF c] show ?thesis by (simp add: pq_ok_def)
qed

lemma pqueue_invariant_witness:
  "\<exists>s. pq_apply (\<lambda>a b. a - b) (Pq_add 5) (pq_new (\<lambda>_. 0)) = Done s \<and>
    smartlist_pqueue_assert_ok (\<lambda>a b. a - b) s = Done ()"
proof -
  have a: "pq_allowed (\<lambda>a b. a - b) (Pq_add (5 :: int)) (pq_new (\<lambda>_. 0))"
    by (simp add: pq_new_ok MAX_CAPACITY_def INT_MAX_def)
  have c: "comparison (\<lambda>a b. a - b :: int)" by unfold_locales simp_all
  from comparison.pq_apply_ok [OF c pq_new_ok(1) a] obtain s where
    s: "pq_apply (\<lambda>a b. a - b) (Pq_add 5) (pq_new (\<lambda>_. 0)) = Done s" by blast
  have "pq_reachable (\<lambda>a b. a - b) (\<lambda>_. 0) s" unfolding pq_reachable_def
    by (rule reach_op [where opn = "Pq_add 5" and s = "pq_new (\<lambda>_. 0)"]) (use a s in \<open>auto intro: reach_init\<close>)
  from pqueue_invariant [OF _ _ this] s show ?thesis by simp
qed

text \<open>
  C22. The priority queue orders what goes through it: distinct items added one by one and then
  taken out one by one come out as the same items, each at most the next in the order of the
  caller's comparison.
\<close>

theorem pqueue_sorts:
  assumes "\<And>a b. compare a b < 0 \<longleftrightarrow> 0 < compare b a"
    and "\<And>a b c. compare a b \<le> 0 \<Longrightarrow> compare b c \<le> 0 \<Longrightarrow> compare a c \<le> 0"
    and "distinct ps" "length ps \<le> MAX_CAPACITY"
  shows "\<exists>s qs. add_items (smartlist_pqueue_add compare) (pq_new ix) ps = Done s \<and>
    pop_items (smartlist_pqueue_pop compare) s (length ps) = Done qs \<and> mset qs = mset ps \<and>
    sorted_wrt (\<lambda>a b. compare a b \<le> 0) qs"
proof -
  have c: "comparison compare" by (rule comparison.intro) (use assms(1,2) in blast)+
  from comparison.pq_sorts [OF c assms(3,4)] show ?thesis .
qed

lemma pqueue_sorts_witness:
  "\<exists>s qs. add_items (smartlist_pqueue_add (\<lambda>a b. a - b)) (pq_new (\<lambda>_. 0)) [3, 1, 2 :: int] = Done s \<and>
    pop_items (smartlist_pqueue_pop (\<lambda>a b. a - b)) s (length [3, 1, 2 :: int]) = Done qs \<and> mset qs = mset [3, 1, 2] \<and>
    sorted_wrt (\<lambda>a b. a - b \<le> 0) qs"
  by (rule pqueue_sorts) (simp_all add: MAX_CAPACITY_def INT_MAX_def)

definition deep_queue :: "int pqueue" where
  "deep_queue = hst [1, 10, 2, 11, 12, 3, 4] 7
     (\<lambda>p. if p = 1 then 0 else if p = 10 then 1 else if p = 2 then 2 else if p = 11 then 3 else if p = 12 then 4
      else if p = 3 then 5 else 6)"

text \<open>
  \<open>smartlist_pqueue_remove\<close> may leave a queue that is not a heap: after removing 11 from
  a sound queue the item that takes its place is less than its new parent, and
  \<open>smartlist_pqueue_assert_ok\<close> fails.
\<close>

theorem pqueue_remove_breaks_heap:
  "smartlist_pqueue_assert_ok (\<lambda>a b. a - b) deep_queue = Done () \<and>
    obind (smartlist_pqueue_remove (\<lambda>a b. a - b) deep_queue 11) (smartlist_pqueue_assert_ok (\<lambda>a b. a - b)) = Stuck"
proof -
  have c: "comparison (\<lambda>a b. a - b :: int)" by unfold_locales simp_all
  have h: "heap (\<lambda>a b. a - b) ps \<longleftrightarrow> list_all (\<lambda>j. ps ! PARENT j \<le> ps ! j) [1..<length ps]" for ps :: "int list"
    by (auto simp: heap_def list_all_iff)
  have i: "indexed ps ix \<longleftrightarrow> distinct ps \<and> list_all (\<lambda>j. ix (ps ! j) = int j) [0..<length ps]" for ps :: "int list" and ix
    by (auto simp: indexed_def list_all_iff)
  define jx where "jx = (pq_idx deep_queue)(11 := -1, 4 := 3)"
  have r: "smartlist_pqueue_remove (\<lambda>a b. a - b) deep_queue 11 = Done (hst [1, 10, 2, 4, 12, 3] 7 jx)"
    by (simp add: deep_queue_def smartlist_pqueue_remove_def hst_def rep_def LEFT_CHILD_def jx_def pq_load_def
        get_entry_def put_entry_def pq_store_def update_idx_def smartlist_heapify.simps Let_def)
  have "pq_ok (\<lambda>a b. a - b) deep_queue"
    by (simp add: pq_ok_def deep_queue_def pq_indexed_hst fits_def MAX_CAPACITY_def INT_MAX_def h i PARENT_def upt_rec)
  moreover have "pq_indexed (hst [1, 10, 2, 4, 12, 3] 7 jx)" "\<not> pq_ok (\<lambda>a b. a - b) (hst [1, 10, 2, 4, 12, 3] 7 jx)"
    by (simp_all add: jx_def pq_ok_def deep_queue_def pq_indexed_hst fits_def MAX_CAPACITY_def INT_MAX_def h i PARENT_def upt_rec)
  ultimately show ?thesis using comparison.pq_assert [OF c] r by (simp add: pq_ok_def)
qed

end
