(* ===== verification/Conflux.thy ===== *)
theory Conflux
  imports ConfluxCell Pqueue
begin

text \<open>
  Conflux, the multiplexing of one stream of relay cells over several circuits:
  \<open>src/core/or/conflux.c\<close>, and the two places of \<open>src/core/or/relay.c\<close> that send and
  receive cells through it. A set holds pointers to its legs; a leg names its circuit. What
  the module reads of a circuit is given by a function from circuits.
\<close>

section \<open>State\<close>

record ccontrol =
  cc_cwnd :: u64
  cc_inflight :: u64
  cc_sendme_inc :: byte
  cc_in_slow_start :: bool

record circ_view =
  is_origin :: bool
  destination_hop :: "nat option"
  has_n_chan :: bool
  cc_of :: "ccontrol option"
  blocked_on_n_chan :: bool
  blocked_on_p_chan :: bool

record 'c conflux_leg =
  last_seq_recv :: u64
  last_seq_sent :: u64
  circ_rtts_usec :: u64
  linked_sent_usec :: u64
  leg_circ :: 'c

record 'm conflux_cell =
  cell_ptr :: nat
  seq :: u64
  body :: 'm

text \<open>\<open>next_ptr\<close> stands for the allocator: the address the next queued cell gets.\<close>

record ('c, 'm) conflux =
  params_alg :: nat
  legs :: "nat list"
  leg_at :: "nat \<Rightarrow> 'c conflux_leg"
  ooo_q :: "'m conflux_cell pqueue"
  last_seq_delivered :: u64
  cells_until_switch :: u64
  curr_leg :: "nat option"
  prev_leg :: "nat option"
  in_full_teardown :: bool
  next_ptr :: nat

definition CONFLUX_ALG_MINRTT :: nat where "CONFLUX_ALG_MINRTT = 0"
definition CONFLUX_ALG_LOWRTT :: nat where "CONFLUX_ALG_LOWRTT = 1"
definition CONFLUX_ALG_CWNDRTT :: nat where "CONFLUX_ALG_CWNDRTT = 2"

definition END_CIRC_REASON_TORPROTOCOL :: int where "END_CIRC_REASON_TORPROTOCOL = 1"
definition END_CIRC_REASON_INTERNAL :: int where "END_CIRC_REASON_INTERNAL = 2"

text \<open>\<open>sizeof(cell_t)\<close>: four bytes, one, 2048, and the padding to a multiple of four.\<close>

definition sizeof_cell_t :: u64 where "sizeof_cell_t = 2056"

section \<open>Legs\<close>

text \<open>The relay commands that are multiplexed: BEGIN, DATA, END, CONNECTED, RESOLVE, RESOLVED, XOFF, XON.\<close>

definition conflux_should_multiplex :: "nat \<Rightarrow> bool" where
  "conflux_should_multiplex relay_command \<longleftrightarrow> relay_command \<in> {1, 2, 3, 4, 11, 12, 43, 44}"

definition RELAY_COMMAND_DATA :: nat where "RELAY_COMMAND_DATA = 2"

fun get_leg_loop :: "(nat \<Rightarrow> 'c conflux_leg) \<Rightarrow> nat list \<Rightarrow> 'c \<Rightarrow> nat option" where
  "get_leg_loop at [] circ = None"
| "get_leg_loop at (l # lgs) circ = (if leg_circ (at l) = circ then Some l else get_leg_loop at lgs circ)"

definition conflux_get_leg :: "('c, 'm) conflux \<Rightarrow> 'c \<Rightarrow> nat option" where
  "conflux_get_leg cfx circ = get_leg_loop (leg_at cfx) (legs cfx) circ"

fun max_seq_loop :: "('c conflux_leg \<Rightarrow> u64) \<Rightarrow> (nat \<Rightarrow> 'c conflux_leg) \<Rightarrow> nat list \<Rightarrow> u64 \<Rightarrow> u64" where
  "max_seq_loop field at [] m = m"
| "max_seq_loop field at (l # lgs) m = max_seq_loop field at lgs (if field (at l) > m then field (at l) else m)"

definition conflux_get_max_seq_sent :: "('c, 'm) conflux \<Rightarrow> u64" where
  "conflux_get_max_seq_sent cfx = max_seq_loop last_seq_sent (leg_at cfx) (legs cfx) 0"

definition conflux_get_max_seq_recv :: "('c, 'm) conflux \<Rightarrow> u64" where
  "conflux_get_max_seq_recv cfx = max_seq_loop last_seq_recv (leg_at cfx) (legs cfx) 0"

definition conflux_update_rtt :: "('c, 'm) conflux \<Rightarrow> 'c \<Rightarrow> u64 \<Rightarrow> ('c, 'm) conflux" where
  "conflux_update_rtt cfx circ rtt_usec =
     (case conflux_get_leg cfx circ of
        None \<Rightarrow> cfx
      | Some l \<Rightarrow> cfx\<lparr>leg_at := (leg_at cfx)(l := (leg_at cfx l)\<lparr>circ_rtts_usec := rtt_usec\<rparr>)\<rparr>)"

section \<open>The choice of a circuit\<close>

definition circuit_ccontrol :: "('c \<Rightarrow> circ_view) \<Rightarrow> 'c \<Rightarrow> ccontrol outcome" where
  "circuit_ccontrol E circ = (case cc_of (E circ) of None \<Rightarrow> Stuck | Some cc \<Rightarrow> Done cc)"

definition circuit_ready_to_send :: "('c \<Rightarrow> circ_view) \<Rightarrow> 'c \<Rightarrow> bool outcome" where
  "circuit_ready_to_send E circ =
     obind (circuit_ccontrol E circ) (\<lambda>cc.
       let cc_sendable = \<not> cc_inflight cc \<ge> cc_cwnd cc
       in Done (if is_origin (E circ) then cc_sendable \<and> \<not> blocked_on_n_chan (E circ)
                else cc_sendable \<and> \<not> blocked_on_p_chan (E circ)))"

definition cwnd_available :: "('c \<Rightarrow> circ_view) \<Rightarrow> 'c \<Rightarrow> u64 outcome" where
  "cwnd_available E circ =
     obind (circuit_ccontrol E circ) (\<lambda>cc.
       Done (if cc_cwnd cc < cc_inflight cc then 0 else cc_cwnd cc - cc_inflight cc))"

definition cwnd_sendable :: "('c \<Rightarrow> circ_view) \<Rightarrow> 'c \<Rightarrow> u64 \<Rightarrow> u64 \<Rightarrow> u64 outcome" where
  "cwnd_sendable E circ in_usec our_usec =
     obind (circuit_ccontrol E circ) (\<lambda>cc.
     obind (cwnd_available E circ) (\<lambda>cwnd_adjusted.
       if our_usec = 0 \<or> in_usec = 0 then Done cwnd_adjusted
       else if cc_in_slow_start cc then Done cwnd_adjusted
       else let sendable = cwnd_adjusted * in_usec div our_usec
            in Done (if cc_cwnd cc < sendable then cc_cwnd cc else sendable)))"

text \<open>The leg with the least round-trip time that is not zero; the first of equal ones.\<close>

fun min_rtt_loop :: "(nat \<Rightarrow> 'c conflux_leg) \<Rightarrow> nat list \<Rightarrow> u64 \<Rightarrow> nat option \<Rightarrow> u64 \<times> nat option" where
  "min_rtt_loop at [] min_rtt leg = (min_rtt, leg)"
| "min_rtt_loop at (l # lgs) min_rtt leg =
     (if circ_rtts_usec (at l) \<noteq> 0 \<and> circ_rtts_usec (at l) < min_rtt
      then min_rtt_loop at lgs (circ_rtts_usec (at l)) (Some l)
      else min_rtt_loop at lgs min_rtt leg)"

definition conflux_decide_circ_minrtt :: "('c \<Rightarrow> circ_view) \<Rightarrow> ('c, 'm) conflux \<Rightarrow> 'c option outcome" where
  "conflux_decide_circ_minrtt E cfx =
     (if length (legs cfx) = 0 then Stuck
      else case snd (min_rtt_loop (leg_at cfx) (legs cfx) (- 1) None) of
             None \<Rightarrow> Done None
           | Some l \<Rightarrow>
               let circ = leg_circ (leg_at cfx l)
               in obind (circuit_ready_to_send E circ) (\<lambda>r. Done (if \<not> r then None else Some circ)))"

fun low_rtt_loop ::
  "('c \<Rightarrow> circ_view) \<Rightarrow> (nat \<Rightarrow> 'c conflux_leg) \<Rightarrow> nat list \<Rightarrow> u64 \<Rightarrow> 'c option \<Rightarrow> 'c option outcome" where
  "low_rtt_loop E at [] low_rtt circ = Done circ"
| "low_rtt_loop E at (l # lgs) low_rtt circ =
     obind (circuit_ready_to_send E (leg_circ (at l))) (\<lambda>r.
       if \<not> r then low_rtt_loop E at lgs low_rtt circ
       else if circ_rtts_usec (at l) \<noteq> 0 \<and> circ_rtts_usec (at l) < low_rtt
       then low_rtt_loop E at lgs (circ_rtts_usec (at l)) (Some (leg_circ (at l)))
       else low_rtt_loop E at lgs low_rtt circ)"

definition conflux_decide_circ_lowrtt :: "('c \<Rightarrow> circ_view) \<Rightarrow> ('c, 'm) conflux \<Rightarrow> 'c option outcome" where
  "conflux_decide_circ_lowrtt E cfx =
     (if length (legs cfx) = 0 then Stuck else low_rtt_loop E (leg_at cfx) (legs cfx) (- 1) None)"

text \<open>The second loop of the third algorithm: the last leg with room.\<close>

fun aux_leg_loop ::
  "('c \<Rightarrow> circ_view) \<Rightarrow> (nat \<Rightarrow> 'c conflux_leg) \<Rightarrow> nat list \<Rightarrow> u64 \<Rightarrow> nat option \<Rightarrow> nat option outcome" where
  "aux_leg_loop E at [] min_rtt leg = Done leg"
| "aux_leg_loop E at (l # lgs) min_rtt leg =
     obind (circuit_ready_to_send E (leg_circ (at l))) (\<lambda>r.
       if \<not> r then aux_leg_loop E at lgs min_rtt leg
       else obind (if circ_rtts_usec (at l) \<noteq> 0
                   then obind (cwnd_sendable E (leg_circ (at l)) min_rtt (circ_rtts_usec (at l))) (\<lambda>n. Done (n > 0))
                   else Done False) (\<lambda>b.
              aux_leg_loop E at lgs min_rtt (if b then Some l else leg)))"

text \<open>The assertion is the one of the code, which fails for every set that has a leg.\<close>

definition conflux_decide_circ_cwndrtt :: "('c \<Rightarrow> circ_view) \<Rightarrow> ('c, 'm) conflux \<Rightarrow> 'c option outcome" where
  "conflux_decide_circ_cwndrtt E cfx =
     (if \<not> length (legs cfx) = 0 then Stuck
      else case min_rtt_loop (leg_at cfx) (legs cfx) (- 1) None of (min_rtt, leg) \<Rightarrow>
        obind (case leg of None \<Rightarrow> Done False | Some l \<Rightarrow> circuit_ready_to_send E (leg_circ (leg_at cfx l))) (\<lambda>r.
          if r then Done (map_option (\<lambda>l. leg_circ (leg_at cfx l)) leg)
          else obind (aux_leg_loop E (leg_at cfx) (legs cfx) min_rtt None) (\<lambda>leg.
            case leg of
              None \<Rightarrow> Done None
            | Some l \<Rightarrow> obind (circuit_ready_to_send E (leg_circ (leg_at cfx l))) (\<lambda>r.
                Done (if \<not> r then None else Some (leg_circ (leg_at cfx l)))))))"

text \<open>\<open>drain_pct\<close> is the consensus parameter of that name.\<close>

definition conflux_can_switch :: "('c \<Rightarrow> circ_view) \<Rightarrow> byte \<Rightarrow> ('c, 'm) conflux \<Rightarrow> bool outcome" where
  "conflux_can_switch E drain_pct cfx =
     (if cells_until_switch cfx > 0
      then case prev_leg cfx of
             None \<Rightarrow> Done False
           | Some l \<Rightarrow> obind (circuit_ccontrol E (leg_circ (leg_at cfx l))) (\<lambda>cc.
               Done (cc_inflight cc < ucast (cc_sendme_inc cc) \<or>
                     100 * cc_inflight cc \<le> ucast drain_pct * cc_cwnd cc))
      else Done True)"

fun first_leg_loop :: "(nat \<Rightarrow> 'c conflux_leg) \<Rightarrow> nat list \<Rightarrow> nat option \<Rightarrow> nat option" where
  "first_leg_loop at [] min_leg = min_leg"
| "first_leg_loop at (l # lgs) min_leg =
     first_leg_loop at lgs
       (if circ_rtts_usec (at l) > 0 \<and>
           (case min_leg of None \<Rightarrow> True | Some m \<Rightarrow> circ_rtts_usec (at l) < circ_rtts_usec (at m))
        then Some l else min_leg)"

definition conflux_pick_first_leg :: "('c, 'm) conflux \<Rightarrow> bool \<times> ('c, 'm) conflux" where
  "conflux_pick_first_leg cfx =
     (case first_leg_loop (leg_at cfx) (legs cfx) None of
        Some m \<Rightarrow> (True, cfx\<lparr>cells_until_switch := 0, curr_leg := Some m\<rparr>)
      | None \<Rightarrow>
          if legs cfx = [] then (False, cfx)
          else (True, cfx\<lparr>cells_until_switch := 0, curr_leg := Some (hd (legs cfx))\<rparr>))"

definition conflux_decide_next_circ ::
  "('c \<Rightarrow> circ_view) \<Rightarrow> byte \<Rightarrow> ('c, 'm) conflux \<Rightarrow> ('c option \<times> ('c, 'm) conflux) outcome" where
  "conflux_decide_next_circ E drain_pct cfx =
     (if in_full_teardown cfx then Done (None, cfx)
      else
        let (picked, cfx) = (if curr_leg cfx = None then conflux_pick_first_leg cfx else (True, cfx))
        in if \<not> picked then Done (None, cfx)
           else obind (conflux_can_switch E drain_pct cfx) (\<lambda>sw.
             if \<not> sw
             then (case curr_leg cfx of
                     None \<Rightarrow> Stuck
                   | Some l \<Rightarrow> obind (circuit_ready_to_send E (leg_circ (leg_at cfx l))) (\<lambda>r.
                       Done (if r then Some (leg_circ (leg_at cfx l)) else None, cfx)))
             else obind
               (if params_alg cfx = CONFLUX_ALG_MINRTT then conflux_decide_circ_minrtt E cfx
                else if params_alg cfx = CONFLUX_ALG_LOWRTT then conflux_decide_circ_lowrtt E cfx
                else if params_alg cfx = CONFLUX_ALG_CWNDRTT then conflux_decide_circ_cwndrtt E cfx
                else Done None) (\<lambda>c. Done (c, cfx))))"

section \<open>Sending\<close>

text \<open>The circuit to send on, the set, and the SWITCH payload that went out on that circuit, if any.\<close>

definition switch_to_leg ::
  "('c, 'm) conflux \<Rightarrow> nat \<Rightarrow> nat \<Rightarrow> (('c, 'm) conflux \<times> byte list option) outcome" where
  "switch_to_leg cfx cur new =
     (let cfx = cfx\<lparr>cells_until_switch := 0, prev_leg := Some cur, curr_leg := Some new\<rparr>;
          relative_seq = last_seq_sent (leg_at cfx cur) - last_seq_sent (leg_at cfx new)
      in if \<not> last_seq_sent (leg_at cfx cur) \<ge> last_seq_sent (leg_at cfx new) then Stuck
         else
           let updated = cfx\<lparr>leg_at := (leg_at cfx)(new := (leg_at cfx new)\<lparr>last_seq_sent := last_seq_sent (leg_at cfx cur)\<rparr>)\<rparr>
           in case conflux_send_switch_command relative_seq of
                Stuck \<Rightarrow> Stuck
              | Fail \<Rightarrow> Done (updated, None)
              | Done p \<Rightarrow> Done (updated, Some p))"

definition conflux_decide_circ_for_send ::
  "('c \<Rightarrow> circ_view) \<Rightarrow> byte \<Rightarrow> ('c, 'm) conflux \<Rightarrow> 'c \<Rightarrow> nat \<Rightarrow>
     ('c option \<times> ('c, 'm) conflux \<times> byte list option) outcome" where
  "conflux_decide_circ_for_send E drain_pct cfx orig_circ relay_command =
     (if \<not> conflux_should_multiplex relay_command then Done (Some orig_circ, cfx, None)
      else obind (conflux_decide_next_circ E drain_pct cfx) (\<lambda>(new_circ, cfx).
        case new_circ of
          None \<Rightarrow>
            if relay_command \<noteq> RELAY_COMMAND_DATA
            then Done (map_option (\<lambda>l. leg_circ (leg_at cfx l)) (curr_leg cfx), cfx, None)
            else Done (None, cfx, None)
        | Some c \<Rightarrow>
            (case curr_leg cfx of
               None \<Rightarrow> Stuck
             | Some cur \<Rightarrow>
                 if c \<noteq> leg_circ (leg_at cfx cur)
                 then (case conflux_get_leg cfx c of
                         None \<Rightarrow> Stuck
                       | Some new \<Rightarrow> obind (switch_to_leg cfx cur new) (\<lambda>(cfx, p). Done (Some c, cfx, p)))
                 else Done (Some c, cfx, None))))"

definition conflux_note_cell_sent :: "('c, 'm) conflux \<Rightarrow> 'c \<Rightarrow> nat \<Rightarrow> ('c, 'm) conflux" where
  "conflux_note_cell_sent cfx circ relay_command =
     (if \<not> conflux_should_multiplex relay_command then cfx
      else case conflux_get_leg cfx circ of
             None \<Rightarrow> cfx
           | Some l \<Rightarrow>
               let cfx = cfx\<lparr>leg_at := (leg_at cfx)(l := (leg_at cfx l)\<lparr>last_seq_sent := last_seq_sent (leg_at cfx l) + 1\<rparr>)\<rparr>
               in if cells_until_switch cfx > 0 then cfx\<lparr>cells_until_switch := cells_until_switch cfx - 1\<rparr> else cfx)"

text \<open>
  A cell that is put on a circuit: a SWITCH payload, or a relay cell of its own. The conflux
  part of \<open>relay_send_command_from_edge_\<close>, for a cell that the circuit queues.
\<close>

datatype 'm sent = Switch "byte list" | Relay nat 'm

definition conflux_send_cell ::
  "('c \<Rightarrow> circ_view) \<Rightarrow> byte \<Rightarrow> ('c, 'm) conflux \<Rightarrow> 'c \<Rightarrow> nat \<Rightarrow> 'm \<Rightarrow>
     (('c, 'm) conflux \<times> ('c \<times> 'm sent) list) outcome" where
  "conflux_send_cell E drain_pct cfx orig_circ relay_command m =
     obind (if conflux_should_multiplex relay_command
            then obind (conflux_decide_circ_for_send E drain_pct cfx orig_circ relay_command) (\<lambda>(c, cfx, p).
                   Done (case c of None \<Rightarrow> (orig_circ, cfx, p) | Some c \<Rightarrow> (c, cfx, p)))
            else Done (orig_circ, cfx, None)) (\<lambda>(c, cfx, p).
       Done (conflux_note_cell_sent cfx c relay_command,
             (case p of None \<Rightarrow> [] | Some b \<Rightarrow> [(c, Switch b)]) @ [(c, Relay relay_command m)]))"

section \<open>Receiving\<close>

definition conflux_validate_source_hop :: "circ_view \<Rightarrow> nat option \<Rightarrow> bool" where
  "conflux_validate_source_hop in_circ layer_hint =
     (if destination_hop in_circ \<noteq> layer_hint then False
      else if layer_hint = None then \<not> has_n_chan in_circ
      else True)"

text \<open>The set after a SWITCH cell, and the reason its circuit is marked for close with, if any.\<close>

definition conflux_process_switch_command ::
  "('c \<Rightarrow> circ_view) \<Rightarrow> bool \<Rightarrow> ('c, 'm) conflux option \<Rightarrow> 'c \<Rightarrow> nat option \<Rightarrow> cell \<Rightarrow> u16 \<Rightarrow>
     (('c, 'm) conflux option \<times> int option) outcome" where
  "conflux_process_switch_command E enabled cfx in_circ layer_hint c rh_len =
     (if \<not> enabled then Done (cfx, Some END_CIRC_REASON_TORPROTOCOL)
      else case cfx of
             None \<Rightarrow> Done (cfx, Some END_CIRC_REASON_TORPROTOCOL)
           | Some x \<Rightarrow>
               (case conflux_get_leg x in_circ of
                  None \<Rightarrow> Done (cfx, Some END_CIRC_REASON_INTERNAL)
                | Some l \<Rightarrow>
                    if \<not> conflux_validate_source_hop (E in_circ) layer_hint
                    then Done (cfx, Some END_CIRC_REASON_TORPROTOCOL)
                    else obind (conflux_cell_parse_switch c rh_len) (\<lambda>relative_seq.
                      Done (Some (x\<lparr>leg_at := (leg_at x)(l := (leg_at x l)
                              \<lparr>last_seq_recv := last_seq_recv (leg_at x l) + ucast relative_seq\<rparr>)\<rparr>), None))))"

definition conflux_queue_cmp :: "'m conflux_cell \<Rightarrow> 'm conflux_cell \<Rightarrow> int" where
  "conflux_queue_cmp cell_a cell_b =
     (if seq cell_a < seq cell_b then -1 else if seq cell_a > seq cell_b then 1 else 0)"

text \<open>
  Whether the cell is to be processed now, the set, the total of the bytes queued, and the
  reason the circuit is marked for close with, if any.
\<close>

definition conflux_process_cell ::
  "('c \<Rightarrow> circ_view) \<Rightarrow> ('c, 'm) conflux \<Rightarrow> u64 \<Rightarrow> 'c \<Rightarrow> nat option \<Rightarrow> 'm \<Rightarrow>
     (bool \<times> ('c, 'm) conflux \<times> u64 \<times> int option) outcome" where
  "conflux_process_cell E cfx qbytes in_circ layer_hint m =
     (case conflux_get_leg cfx in_circ of
        None \<Rightarrow> Done (False, cfx, qbytes, Some END_CIRC_REASON_INTERNAL)
      | Some l \<Rightarrow>
          if \<not> conflux_validate_source_hop (E in_circ) layer_hint
          then Done (False, cfx, qbytes, Some END_CIRC_REASON_TORPROTOCOL)
          else
            let n = last_seq_recv (leg_at cfx l) + 1;
                cfx = cfx\<lparr>leg_at := (leg_at cfx)(l := (leg_at cfx l)\<lparr>last_seq_recv := n\<rparr>)\<rparr>
            in if n = last_seq_delivered cfx + 1
               then Done (True, cfx\<lparr>last_seq_delivered := last_seq_delivered cfx + 1\<rparr>, qbytes, None)
               else if n \<le> last_seq_delivered cfx
               then Done (False, cfx, qbytes, Some END_CIRC_REASON_INTERNAL)
               else obind (smartlist_pqueue_add conflux_queue_cmp (ooo_q cfx)
                             \<lparr>cell_ptr = next_ptr cfx, seq = n, body = m\<rparr>) (\<lambda>q.
                      Done (False, cfx\<lparr>ooo_q := q, next_ptr := next_ptr cfx + 1\<rparr>, qbytes + sizeof_cell_t, None)))"

definition conflux_dequeue_cell ::
  "('c, 'm) conflux \<Rightarrow> u64 \<Rightarrow> ('m conflux_cell option \<times> ('c, 'm) conflux \<times> u64) outcome" where
  "conflux_dequeue_cell cfx qbytes =
     (if num_used (pq_list (ooo_q cfx)) = 0 then Done (None, cfx, qbytes)
      else obind (pq_load (ooo_q cfx) 0) (\<lambda>first.
        if seq first = last_seq_delivered cfx + 1
        then obind (smartlist_pqueue_pop conflux_queue_cmp (ooo_q cfx)) (\<lambda>(_, q).
               Done (Some first, cfx\<lparr>ooo_q := q, last_seq_delivered := last_seq_delivered cfx + 1\<rparr>,
                     qbytes - sizeof_cell_t))
        else Done (None, cfx, qbytes)))"

text \<open>
  The part of \<open>connection_edge_process_relay_cell\<close> that processes ordered cells: the cell
  itself when it is next, then queued ones until there is none or one fails. \<open>process\<close> is
  the processing of an ordered cell; the cells it was called with are listed.
\<close>

lemma smartlist_heapify_num_used:
  "smartlist_heapify compare s idx = Done s' \<Longrightarrow> num_used (pq_list s') = num_used (pq_list s)"
proof (induction compare s idx arbitrary: s' rule: smartlist_heapify.induct)
  case (1 compare s idx)
  from 1(2) have "s' = s \<or> (\<exists>b t. best_child compare s idx (LEFT_CHILD idx) = Done b \<and> b \<noteq> idx \<and>
      pq_swap s idx b = Done t \<and> smartlist_heapify compare t b = Done s' \<and>
      idx \<le> MAX_PARENT_IDX \<and> \<not> num_used (pq_list s) \<le> LEFT_CHILD idx)"
    by (subst (asm) smartlist_heapify.simps) (auto simp: Let_def outcome_elims split: if_splits)
  then show ?case
  proof (elim disjE exE conjE)
    fix b t assume h: "best_child compare s idx (LEFT_CHILD idx) = Done b" "b \<noteq> idx" "pq_swap s idx b = Done t"
      "smartlist_heapify compare t b = Done s'" "idx \<le> MAX_PARENT_IDX" "\<not> num_used (pq_list s) \<le> LEFT_CHILD idx"
    from 1(1) [OF _ _ _ h(1) h(2) h(3) h(4)] h(5,6) pq_swap_num_used [OF h(3)] show ?thesis by simp
  qed simp
qed

lemma pop_num_used:
  "smartlist_pqueue_pop compare s = Done (p, s') \<Longrightarrow> num_used (pq_list s) \<noteq> 0 \<and> num_used (pq_list s') = num_used (pq_list s) - 1"
  by (auto simp: smartlist_pqueue_pop_def outcome_elims Let_def pq_store_def update_idx_def
      dest!: smartlist_heapify_num_used split: if_splits)

function dequeue_loop ::
  "('m \<Rightarrow> int) \<Rightarrow> ('c, 'm) conflux \<Rightarrow> u64 \<Rightarrow> 'm list \<Rightarrow> (int \<times> 'm list \<times> ('c, 'm) conflux \<times> u64) outcome" where
  "dequeue_loop process cfx qbytes out =
     obind (conflux_dequeue_cell cfx qbytes) (\<lambda>(first, cfx', qbytes').
       case first of
         None \<Rightarrow> Done (0, out, cfx', qbytes')
       | Some c \<Rightarrow>
           if process (body c) < 0 then Done (process (body c), out @ [body c], cfx', qbytes')
           else dequeue_loop process cfx' qbytes' (out @ [body c]))"
  by pat_completeness auto
termination
  by (relation "measure (\<lambda>(process, cfx, qbytes, out). num_used (pq_list (ooo_q cfx)))")
     (auto simp: conflux_dequeue_cell_def outcome_elims dest!: pop_num_used split: if_splits)

declare dequeue_loop.simps [simp del]

definition conflux_receive ::
  "('c \<Rightarrow> circ_view) \<Rightarrow> ('m \<Rightarrow> int) \<Rightarrow> ('c, 'm) conflux \<Rightarrow> u64 \<Rightarrow> 'c \<Rightarrow> nat option \<Rightarrow> 'm \<Rightarrow>
     (int \<times> 'm list \<times> ('c, 'm) conflux \<times> u64 \<times> int option) outcome" where
  "conflux_receive E process cfx qbytes in_circ layer_hint m =
     obind (conflux_process_cell E cfx qbytes in_circ layer_hint m) (\<lambda>(ready, cfx, qbytes, closed).
       if ready
       then if process m < 0 then Done (process m, [m], cfx, qbytes, closed)
            else obind (dequeue_loop process cfx qbytes [m]) (\<lambda>(r, out, cfx, qbytes). Done (r, out, cfx, qbytes, closed))
       else Done (0, [], cfx, qbytes, closed))"

end
