(* ===== verification/ConfluxOrder.thy ===== *)
theory ConfluxOrder
  imports Conflux
begin

text \<open>
  Two ends of a conflux set: the cells one end multiplexes over its legs come out at the other
  end in the order they were sent, however the circuits delay them. Each circuit is a queue of
  cells between the two ends.
\<close>

section \<open>Legs and circuits\<close>

definition circs :: "('c, 'm) conflux \<Rightarrow> 'c set" where
  "circs cfx = (\<lambda>l. leg_circ (leg_at cfx l)) ` set (legs cfx)"

definition legs_ok :: "('c, 'm) conflux \<Rightarrow> bool" where
  "legs_ok cfx \<longleftrightarrow> distinct (map (\<lambda>l. leg_circ (leg_at cfx l)) (legs cfx))"

definition leg_on :: "('c, 'm) conflux \<Rightarrow> 'c \<Rightarrow> 'c conflux_leg" where
  "leg_on cfx c = leg_at cfx (the (conflux_get_leg cfx c))"

lemma get_leg_loop_Some: "get_leg_loop at lgs c = Some l \<Longrightarrow> l \<in> set lgs \<and> leg_circ (at l) = c"
  by (induction lgs) (auto split: if_splits)

lemma get_leg_loop_None: "get_leg_loop at lgs c = None \<longleftrightarrow> c \<notin> (\<lambda>l. leg_circ (at l)) ` set lgs"
  by (induction lgs) auto

lemma get_leg_loop_at: "distinct (map (\<lambda>l. leg_circ (at l)) lgs) \<Longrightarrow> l \<in> set lgs \<Longrightarrow> get_leg_loop at lgs (leg_circ (at l)) = Some l"
proof (induction lgs)
  case (Cons k lgs)
  show ?case
  proof (cases "l = k")
    case False
    with Cons have "l \<in> set lgs" by simp
    with Cons show ?thesis by force
  qed simp
qed simp

lemma get_leg:
  assumes "legs_ok cfx"
  shows "l \<in> set (legs cfx) \<Longrightarrow> conflux_get_leg cfx (leg_circ (leg_at cfx l)) = Some l"
    and "conflux_get_leg cfx c = Some l \<Longrightarrow> l \<in> set (legs cfx) \<and> leg_circ (leg_at cfx l) = c"
    and "c \<in> circs cfx \<Longrightarrow> \<exists>l. conflux_get_leg cfx c = Some l"
    and "conflux_get_leg cfx c = Some l \<Longrightarrow> leg_on cfx c = leg_at cfx l \<and> c \<in> circs cfx"
  using assms get_leg_loop_at get_leg_loop_Some [of "leg_at cfx" "legs cfx" c] get_leg_loop_None [of "leg_at cfx" "legs cfx" c]
  by (auto simp: conflux_get_leg_def legs_ok_def circs_def leg_on_def)

text \<open>Updates that keep the circuits of the legs.\<close>

lemma get_leg_cong:
  "legs cfx' = legs cfx \<Longrightarrow> (\<And>l. leg_circ (leg_at cfx' l) = leg_circ (leg_at cfx l)) \<Longrightarrow>
    conflux_get_leg cfx' c = conflux_get_leg cfx c \<and> legs_ok cfx' = legs_ok cfx \<and> circs cfx' = circs cfx"
proof -
  assume a: "legs cfx' = legs cfx" "\<And>l. leg_circ (leg_at cfx' l) = leg_circ (leg_at cfx l)"
  have "get_leg_loop (leg_at cfx') lgs c = get_leg_loop (leg_at cfx) lgs c" for lgs
    by (induction lgs) (simp_all add: a)
  with a show ?thesis by (simp add: conflux_get_leg_def legs_ok_def circs_def)
qed

section \<open>What the choice of a circuit changes\<close>

text \<open>The parts of a set that sequence numbers depend on.\<close>

definition same_seqs :: "('c, 'm) conflux \<Rightarrow> ('c, 'm) conflux \<Rightarrow> bool" where
  "same_seqs a b \<longleftrightarrow> legs a = legs b \<and> leg_at a = leg_at b \<and> ooo_q a = ooo_q b \<and>
     last_seq_delivered a = last_seq_delivered b \<and> next_ptr a = next_ptr b"

lemma same_seqs_legs:
  "same_seqs a b \<Longrightarrow> conflux_get_leg a c = conflux_get_leg b c \<and> legs_ok a = legs_ok b \<and> circs a = circs b \<and> leg_on a c = leg_on b c"
  by (auto simp: same_seqs_def conflux_get_leg_def legs_ok_def circs_def leg_on_def)

lemma min_rtt_loop_leg: "snd (min_rtt_loop at lgs m leg) = Some l \<Longrightarrow> l \<in> set lgs \<or> leg = Some l"
  by (induction lgs arbitrary: m leg) (auto split: if_splits)

lemma first_leg_loop_leg: "first_leg_loop at lgs leg = Some l \<Longrightarrow> l \<in> set lgs \<or> leg = Some l"
  by (induction lgs arbitrary: leg) (fastforce split: if_splits)+

lemma low_rtt_loop_leg: "low_rtt_loop E at lgs m ci = Done (Some c) \<Longrightarrow> c \<in> (\<lambda>l. leg_circ (at l)) ` set lgs \<or> ci = Some c"
  by (induction lgs arbitrary: m ci) (auto simp: outcome_elims split: if_splits)

lemma aux_leg_loop_leg: "aux_leg_loop E at lgs m leg = Done (Some l) \<Longrightarrow> l \<in> set lgs \<or> leg = Some l"
  by (induction lgs arbitrary: leg) (fastforce simp: outcome_elims split: if_splits)+

lemma decide_circ_leg:
  assumes "conflux_decide_circ_minrtt E y = Done (Some c) \<or> conflux_decide_circ_lowrtt E y = Done (Some c) \<or>
    conflux_decide_circ_cwndrtt E y = Done (Some c)"
  shows "c \<in> circs y"
  using assms
proof (elim disjE)
  assume "conflux_decide_circ_minrtt E y = Done (Some c)"
  then show ?thesis using min_rtt_loop_leg [of "leg_at y" "legs y" "-1" None]
    by (auto simp: conflux_decide_circ_minrtt_def circs_def outcome_elims Let_def split: if_splits option.splits)
next
  assume "conflux_decide_circ_lowrtt E y = Done (Some c)"
  then show ?thesis using low_rtt_loop_leg [of E "leg_at y" "legs y" "-1" None c]
    by (auto simp: conflux_decide_circ_lowrtt_def circs_def split: if_splits)
qed (auto simp: conflux_decide_circ_cwndrtt_def outcome_elims split: if_splits option.splits)

lemma decide_next_circ:
  fixes cfx :: "('c, 'm) conflux"
  assumes "conflux_decide_next_circ E d cfx = Done (r, cfx')" "\<And>l. curr_leg cfx = Some l \<Longrightarrow> l \<in> set (legs cfx)"
  shows "same_seqs cfx' cfx \<and> (\<forall>l. curr_leg cfx' = Some l \<longrightarrow> l \<in> set (legs cfx)) \<and>
    (curr_leg cfx \<noteq> None \<longrightarrow> curr_leg cfx' = curr_leg cfx) \<and> (\<forall>c. r = Some c \<longrightarrow> c \<in> circs cfx)"
proof -
  have pick: "same_seqs y cfx \<and> (\<forall>l. curr_leg y = Some l \<longrightarrow> l \<in> set (legs cfx)) \<and>
      (curr_leg cfx \<noteq> None \<longrightarrow> curr_leg y = curr_leg cfx)"
    if "(if curr_leg cfx = None then conflux_pick_first_leg cfx else (True, cfx)) = (b, y)" for b y
    using that assms(2) first_leg_loop_leg [of "leg_at cfx" "legs cfx" None]
    by (auto simp: conflux_pick_first_leg_def same_seqs_def split: if_splits option.splits)
  show ?thesis
  proof (cases "in_full_teardown cfx")
    case True
    with assms show ?thesis by (auto simp: conflux_decide_next_circ_def same_seqs_def)
  next
    case False
    obtain b y where y: "(if curr_leg cfx = None then conflux_pick_first_leg cfx else (True, cfx)) = (b, y)" by force
    note p = pick [OF y]
    have cy: "circs y = circs cfx" "\<And>l. curr_leg y = Some l \<Longrightarrow> leg_circ (leg_at y l) \<in> circs y"
      using p same_seqs_legs [of y cfx] by (auto simp: circs_def same_seqs_def)
    from assms(1) False y have "cfx' = y" "r = None \<or> (\<exists>c. r = Some c \<and> (conflux_decide_circ_minrtt E y = Done r \<or>
        conflux_decide_circ_lowrtt E y = Done r \<or> conflux_decide_circ_cwndrtt E y = Done r \<or>
        (\<exists>l. curr_leg y = Some l \<and> c = leg_circ (leg_at y l))))"
      by (cases r; auto simp: conflux_decide_next_circ_def outcome_elims split: if_splits option.splits)+
    with p cy decide_circ_leg [of E y] show ?thesis by auto
  qed
qed

section \<open>The sending end\<close>

definition sent_on :: "('c, 'm) conflux \<Rightarrow> 'c \<Rightarrow> nat" where
  "sent_on cfx c = unat (last_seq_sent (leg_on cfx c))"

definition recv_on :: "('c, 'm) conflux \<Rightarrow> 'c \<Rightarrow> nat" where
  "recv_on cfx c = unat (last_seq_recv (leg_on cfx c))"

text \<open>What a SWITCH payload says to the other end.\<close>

definition parsed_switch :: "byte list \<Rightarrow> u32" where
  "parsed_switch p =
     (case conflux_cell_parse_switch (relay_cell (zeros RELAY_HEADER_SIZE) p) (of_nat RELAY_PAYLOAD_SIZE) of
        Done k \<Rightarrow> k | _ \<Rightarrow> 0)"

lemma parse_switch_header:
  "length header = RELAY_HEADER_SIZE \<Longrightarrow>
    conflux_cell_parse_switch (relay_cell header p) n = conflux_cell_parse_switch (relay_cell (zeros RELAY_HEADER_SIZE) p) n"
  by (simp add: conflux_cell_parse_switch_def relay_cell_def mem_get_def zeros_def)

lemma unat_payload_size [simp]: "unat (of_nat RELAY_PAYLOAD_SIZE :: u16) = RELAY_PAYLOAD_SIZE"
  by (simp add: size_defs)

lemma send_switch_parsed:
  assumes "conflux_send_switch_command s = Done p" "length header = RELAY_HEADER_SIZE"
  shows "conflux_cell_parse_switch (relay_cell header p) (of_nat RELAY_PAYLOAD_SIZE) = Done (parsed_switch p)"
    and "unat (parsed_switch p) = unat s"
proof -
  have s: "s < 4294967295" using assms(1) by (simp add: conflux_send_switch_command_def split: if_splits)
  have "length (zeros RELAY_HEADER_SIZE) = RELAY_HEADER_SIZE" by (simp add: zeros_def)
  from switch_parse_send [OF s this, of "of_nat RELAY_PAYLOAD_SIZE"] assms(1) obtain k where
    k: "conflux_cell_parse_switch (relay_cell (zeros RELAY_HEADER_SIZE) p) (of_nat RELAY_PAYLOAD_SIZE) = Done k" "ucast k = s"
    by (auto simp: size_defs)
  then have "parsed_switch p = k" by (simp add: parsed_switch_def)
  with k(1) show "conflux_cell_parse_switch (relay_cell header p) (of_nat RELAY_PAYLOAD_SIZE) = Done (parsed_switch p)"
    using parse_switch_header [OF assms(2)] by simp
  have "unat k < 2 ^ LENGTH(32)" by (rule unsigned_less)
  then have "unat k < 2 ^ 64" by simp
  then have "unat (ucast k :: u64) = unat k" by (simp add: unsigned_ucast_eq unsigned_take_bit_eq take_bit_nat_eq_self)
  then show "unat (parsed_switch p) = unat s" using k(2) \<open>parsed_switch p = k\<close> by simp
qed

definition sender_ok :: "('c, 'm) conflux \<Rightarrow> nat \<Rightarrow> bool" where
  "sender_ok cfx n \<longleftrightarrow> legs_ok cfx \<and> (\<forall>c \<in> circs cfx. sent_on cfx c \<le> n) \<and>
     (curr_leg cfx = None \<longrightarrow> (\<forall>c \<in> circs cfx. sent_on cfx c = n)) \<and>
     (\<forall>l. curr_leg cfx = Some l \<longrightarrow> l \<in> set (legs cfx) \<and> sent_on cfx (leg_circ (leg_at cfx l)) = n)"

lemma sender_ok_decide:
  assumes "conflux_decide_next_circ E d cfx = Done (r, cfx')" "sender_ok cfx n"
  shows "sender_ok cfx' n \<and> same_seqs cfx' cfx \<and> (\<forall>c. r = Some c \<longrightarrow> c \<in> circs cfx)"
proof -
  have "\<And>l. curr_leg cfx = Some l \<Longrightarrow> l \<in> set (legs cfx)" using assms(2) by (simp add: sender_ok_def)
  note d = decide_next_circ [OF assms(1) this]
  then have s: "same_seqs cfx' cfx" by blast
  note e = same_seqs_legs [OF s]
  have so: "sent_on cfx' c = sent_on cfx c" for c using e by (simp add: sent_on_def)
  have "sent_on cfx (leg_circ (leg_at cfx l)) = n" if "curr_leg cfx' = Some l" for l
    using that d assms(2) by (cases "curr_leg cfx") (auto simp: sender_ok_def circs_def)
  with d e so assms(2) show ?thesis by (auto simp: sender_ok_def same_seqs_def)
qed

lemma leg_update:
  assumes "legs_ok cfx" "l \<in> set (legs cfx)" "\<And>x. leg_circ (f x) = leg_circ x"
  defines "cfx' \<equiv> cfx\<lparr>leg_at := (leg_at cfx)(l := f (leg_at cfx l))\<rparr>"
  shows "legs_ok cfx'" "circs cfx' = circs cfx" "\<And>c. conflux_get_leg cfx' c = conflux_get_leg cfx c"
    "\<And>c. c \<in> circs cfx \<Longrightarrow> leg_on cfx' c = (if c = leg_circ (leg_at cfx l) then f (leg_on cfx c) else leg_on cfx c)"
proof -
  have k: "conflux_get_leg cfx' c = conflux_get_leg cfx c \<and> legs_ok cfx' = legs_ok cfx \<and> circs cfx' = circs cfx" for c
    by (rule get_leg_cong) (simp_all add: cfx'_def assms(3))
  then show "legs_ok cfx'" "circs cfx' = circs cfx" "\<And>c. conflux_get_leg cfx' c = conflux_get_leg cfx c"
    using assms(1) by auto
  fix c assume "c \<in> circs cfx"
  then obtain j where j: "conflux_get_leg cfx c = Some j" using get_leg(3) [OF assms(1)] by blast
  have "j = l \<longleftrightarrow> c = leg_circ (leg_at cfx l)"
  proof
    assume "c = leg_circ (leg_at cfx l)"
    with j get_leg(1) [OF assms(1,2)] show "j = l" by simp
  qed (use get_leg(2) [OF assms(1) j] in simp)
  with j k get_leg(1) [OF assms(1,2)] show "leg_on cfx' c = (if c = leg_circ (leg_at cfx l) then f (leg_on cfx c) else leg_on cfx c)"
    by (simp add: leg_on_def cfx'_def)
qed

section \<open>Cells on the way\<close>

text \<open>
  The sequence number the receiving leg has after a queue of cells when it has \<open>n\<close> before it,
  and the numbers it gives to the multiplexed cells of the queue.
\<close>

fun wire_end :: "nat \<Rightarrow> 'm sent list \<Rightarrow> nat" where
  "wire_end n [] = n"
| "wire_end n (Switch p # es) = wire_end (n + unat (parsed_switch p)) es"
| "wire_end n (Relay cmd m # es) = wire_end (n + 1) es"

fun wire_cells :: "nat \<Rightarrow> 'm sent list \<Rightarrow> (nat \<times> 'm) list" where
  "wire_cells n [] = []"
| "wire_cells n (Switch p # es) = wire_cells (n + unat (parsed_switch p)) es"
| "wire_cells n (Relay cmd m # es) = (n + 1, m) # wire_cells (n + 1) es"

lemma wire_append:
  "wire_end n (es @ fs) = wire_end (wire_end n es) fs"
  "wire_cells n (es @ fs) = wire_cells n es @ wire_cells (wire_end n es) fs"
  by (induction n es rule: wire_end.induct) simp_all

lemma wire_end_ge: "n \<le> wire_end n es"
  by (induction n es rule: wire_end.induct) auto

text \<open>Every SWITCH payload on a queue was made by \<open>conflux_send_switch_command\<close>.\<close>

definition wire_ok :: "'m sent list \<Rightarrow> bool" where
  "wire_ok es \<longleftrightarrow> (\<forall>p. Switch p \<in> set es \<longrightarrow> (\<exists>s. conflux_send_switch_command s = Done p))"

lemma unat_Suc_word: "unat (w :: u64) < 2 ^ 64 - 1 \<Longrightarrow> unat (w + 1) = unat w + 1"
  by (simp add: unat_word_ariths)

lemma switch_to_leg_ok:
  assumes "switch_to_leg cfx cur new = Done (cfx', p)" "legs_ok cfx" "new \<in> set (legs cfx)"
  shows "legs cfx' = legs cfx \<and> legs_ok cfx' \<and> circs cfx' = circs cfx \<and> curr_leg cfx' = Some new \<and>
    (\<forall>c \<in> circs cfx. last_seq_sent (leg_on cfx' c) =
      (if c = leg_circ (leg_at cfx new) then last_seq_sent (leg_at cfx cur) else last_seq_sent (leg_on cfx c))) \<and>
    leg_circ (leg_at cfx' new) = leg_circ (leg_at cfx new) \<and>
    (\<exists>b. p = Some b \<and> last_seq_sent (leg_at cfx new) \<le> last_seq_sent (leg_at cfx cur) \<and>
      conflux_send_switch_command (last_seq_sent (leg_at cfx cur) - last_seq_sent (leg_at cfx new)) = Done b)"
proof -
  let ?f = "\<lambda>x. x\<lparr>last_seq_sent := last_seq_sent (leg_at cfx cur)\<rparr>"
  let ?u = "cfx\<lparr>leg_at := (leg_at cfx)(new := ?f (leg_at cfx new))\<rparr>"
  have nf: "conflux_send_switch_command s \<noteq> Fail" for s
    by (auto simp: conflux_send_switch_command_def trn_cell_conflux_switch_encode_def emit_ok size_defs)
  have s: "same_seqs cfx' ?u" "curr_leg cfx' = Some new"
    and b: "\<exists>b. p = Some b \<and> last_seq_sent (leg_at cfx new) \<le> last_seq_sent (leg_at cfx cur) \<and>
      conflux_send_switch_command (last_seq_sent (leg_at cfx cur) - last_seq_sent (leg_at cfx new)) = Done b"
    using assms(1) nf by (auto simp: switch_to_leg_def same_seqs_def Let_def split: if_splits outcome.splits)
  note u = leg_update [OF assms(2,3), of ?f]
  have c: "leg_circ (?f x) = leg_circ x" for x :: "'a conflux_leg" by simp
  show ?thesis
    using s(2) b u [OF c] same_seqs_legs [OF s(1)] s(1) get_leg(1) [OF assms(2,3)] by (auto simp: same_seqs_def)
qed

lemma note_cell_sent_ok:
  assumes "conflux_should_multiplex cmd" "legs_ok cfx" "c \<in> circs cfx"
  defines "cfx' \<equiv> conflux_note_cell_sent cfx c cmd"
  shows "legs cfx' = legs cfx \<and> legs_ok cfx' \<and> circs cfx' = circs cfx \<and> curr_leg cfx' = curr_leg cfx \<and>
    (\<forall>l. leg_circ (leg_at cfx' l) = leg_circ (leg_at cfx l)) \<and>
    (\<forall>b \<in> circs cfx. last_seq_sent (leg_on cfx' b) = (if b = c then last_seq_sent (leg_on cfx b) + 1 else last_seq_sent (leg_on cfx b)))"
proof -
  let ?f = "\<lambda>x. x\<lparr>last_seq_sent := last_seq_sent x + 1\<rparr>"
  obtain l where l: "conflux_get_leg cfx c = Some l" using get_leg(3) [OF assms(2,3)] by blast
  note m = get_leg(2) [OF assms(2) l]
  let ?u = "cfx\<lparr>leg_at := (leg_at cfx)(l := ?f (leg_at cfx l))\<rparr>"
  have s: "same_seqs cfx' ?u" "curr_leg cfx' = curr_leg cfx"
    using assms(1) l by (simp_all add: cfx'_def conflux_note_cell_sent_def same_seqs_def Let_def)
  have c: "leg_circ (?f x) = leg_circ x" for x :: "'a conflux_leg" by simp
  note u = leg_update [OF assms(2) conjunct1 [OF m], of ?f, OF c]
  show ?thesis
    using s(2) u same_seqs_legs [OF s(1)] s(1) m by (auto simp: same_seqs_def)
qed

text \<open>A multiplexed cell that finds a circuit: the next number, after a SWITCH where the leg changes.\<close>

lemma sender_ok_sent:
  assumes "cfx' = conflux_note_cell_sent y c cmd" "conflux_should_multiplex cmd" "sender_ok cfx n" "n < 2 ^ 64 - 1"
    and "legs_ok y" "circs y = circs cfx" "c \<in> circs cfx" "curr_leg y = Some l" "l \<in> set (legs y)"
    and "leg_circ (leg_at y l) = c" "sent_on y c = n" "\<And>b. b \<in> circs cfx \<Longrightarrow> b \<noteq> c \<Longrightarrow> sent_on y b = sent_on cfx b"
  shows "sender_ok cfx' (n + 1) \<and> circs cfx' = circs cfx \<and> legs_ok cfx' \<and>
    (\<forall>b \<in> circs cfx. sent_on cfx' b = (if b = c then n + 1 else sent_on cfx b))"
proof -
  have cy: "c \<in> circs y" using assms(6,7) by simp
  note nc = note_cell_sent_ok [OF assms(2,5) cy, folded assms(1)]
  have so: "sent_on cfx' b = (if b = c then n + 1 else sent_on cfx b)" if "b \<in> circs cfx" for b
  proof (cases "b = c")
    case True
    have "last_seq_sent (leg_on cfx' c) = last_seq_sent (leg_on y c) + 1" using nc cy by simp
    then show ?thesis
      using True assms(4,11) unat_Suc_word [of "last_seq_sent (leg_on y c)"] by (simp add: sent_on_def)
  next
    case False
    then have "last_seq_sent (leg_on cfx' b) = last_seq_sent (leg_on y b)" using nc that assms(6) by simp
    with False assms(12) [OF that] show ?thesis by (simp add: sent_on_def)
  qed
  have "sent_on cfx b \<le> n" if "b \<in> circs cfx" for b using assms(3) that by (simp add: sender_ok_def)
  with nc so assms show ?thesis by (auto simp: sender_ok_def le_SucI)
qed

lemma send_cell_ok:
  assumes "conflux_send_cell E d cfx orig cmd m = Done (cfx', evs)" "conflux_should_multiplex cmd"
    and "conflux_decide_circ_for_send E d cfx orig cmd = Done (Some c0, cfx0, p0)"
    and "sender_ok cfx n" "n < 2 ^ 64 - 1"
  shows "sender_ok cfx' (n + 1) \<and> circs cfx' = circs cfx \<and> legs_ok cfx' \<and>
    (\<exists>c es. c \<in> circs cfx \<and> evs = map (Pair c) es \<and> wire_ok es \<and> wire_end (sent_on cfx c) es = n + 1 \<and>
      wire_cells (sent_on cfx c) es = [(n + 1, m)] \<and>
      (\<forall>b \<in> circs cfx. sent_on cfx' b = (if b = c then n + 1 else sent_on cfx b)))"
proof -
  from assms(2,3) obtain r cfx1 where
    r: "conflux_decide_next_circ E d cfx = Done (r, cfx1)"
    by (auto simp: conflux_decide_circ_for_send_def outcome_elims)
  from sender_ok_decide [OF r assms(4)] have
    d: "sender_ok cfx1 n" "same_seqs cfx1 cfx" "\<And>c. r = Some c \<Longrightarrow> c \<in> circs cfx" by auto
  have e: "circs cfx1 = circs cfx" "\<And>c. leg_on cfx1 c = leg_on cfx c" "\<And>c. sent_on cfx1 c = sent_on cfx c"
    using same_seqs_legs [OF d(2)] by (simp_all add: sent_on_def)
  have lo: "legs_ok cfx1" using d(1) by (simp add: sender_ok_def)
  define cur where "cur = the (curr_leg cfx1)"
  have cur: "curr_leg cfx1 = Some cur" "cur \<in> set (legs cfx1)" "sent_on cfx1 (leg_circ (leg_at cfx1 cur)) = n"
  proof -
    show "curr_leg cfx1 = Some cur"
      using assms(2,3) r by (auto simp: conflux_decide_circ_for_send_def cur_def split: option.splits if_splits)
    with d(1) show "cur \<in> set (legs cfx1)" "sent_on cfx1 (leg_circ (leg_at cfx1 cur)) = n" by (auto simp: sender_ok_def)
  qed
  have curc: "leg_circ (leg_at cfx1 cur) \<in> circs cfx" using cur(2) e(1) by (auto simp: circs_def)
  note fin = sender_ok_sent [OF _ assms(2,4,5)]
  show ?thesis
  proof (cases "\<exists>c. r = Some c \<and> c \<noteq> leg_circ (leg_at cfx1 cur)")
    case False
    then have "cfx' = conflux_note_cell_sent cfx1 (leg_circ (leg_at cfx1 cur)) cmd"
      "evs = [(leg_circ (leg_at cfx1 cur), Relay cmd m)]"
      using assms(1,2,3) r cur(1)
      by (auto simp: conflux_send_cell_def conflux_decide_circ_for_send_def split: option.splits if_splits)
    with fin [of cfx' cfx1 "leg_circ (leg_at cfx1 cur)" cur] lo e cur curc show ?thesis
      by (intro conjI exI [of _ "leg_circ (leg_at cfx1 cur)"] exI [of _ "[Relay cmd m]"]) (auto simp: wire_ok_def)
  next
    case True
    then obtain c where c: "r = Some c" "c \<noteq> leg_circ (leg_at cfx1 cur)" by blast
    then have cc: "c \<in> circs cfx" using d(3) by simp
    then obtain new where new: "conflux_get_leg cfx1 c = Some new" using get_leg(3) [OF lo] e(1) by blast
    note nw = get_leg(2) [OF lo new] get_leg(4) [OF lo new]
    from assms(1,2) r c cur(1) new obtain y q where
      y: "switch_to_leg cfx1 cur new = Done (y, q)" "cfx' = conflux_note_cell_sent y c cmd"
        "evs = (case q of None \<Rightarrow> [] | Some b \<Rightarrow> [(c, Switch b)]) @ [(c, Relay cmd m)]"
      by (auto simp: conflux_send_cell_def conflux_decide_circ_for_send_def outcome_elims)
    from switch_to_leg_ok [OF y(1) lo] nw obtain b where
      s: "legs y = legs cfx1" "legs_ok y" "circs y = circs cfx1" "curr_leg y = Some new" "leg_circ (leg_at y new) = c"
        "\<And>b. b \<in> circs cfx1 \<Longrightarrow> last_seq_sent (leg_on y b) =
          (if b = c then last_seq_sent (leg_at cfx1 cur) else last_seq_sent (leg_on cfx1 b))"
        "q = Some b" "last_seq_sent (leg_at cfx1 new) \<le> last_seq_sent (leg_at cfx1 cur)"
        "conflux_send_switch_command (last_seq_sent (leg_at cfx1 cur) - last_seq_sent (leg_at cfx1 new)) = Done b"
      by auto
    have ncur: "unat (last_seq_sent (leg_at cfx1 cur)) = n"
      using cur(3) get_leg(1) [OF lo cur(2)] by (simp add: sent_on_def leg_on_def)
    have "sent_on y c = n" using s(6) [of c] cc e(1) ncur by (simp add: sent_on_def)
    moreover have "sent_on y b = sent_on cfx b" if "b \<in> circs cfx" "b \<noteq> c" for b
      using s(6) [of b] that e by (simp add: sent_on_def)
    ultimately have f: "sender_ok cfx' (n + 1) \<and> circs cfx' = circs cfx \<and> legs_ok cfx' \<and>
        (\<forall>b \<in> circs cfx. sent_on cfx' b = (if b = c then n + 1 else sent_on cfx b))"
      using fin [OF y(2) s(2)] s(1,3-5) e(1) cc nw by simp
    have "unat (parsed_switch b) = n - sent_on cfx c" "sent_on cfx c \<le> n"
      using send_switch_parsed(2) [OF s(9), of "zeros RELAY_HEADER_SIZE"] s(8) ncur nw e
      by (auto simp: sent_on_def zeros_def unat_sub word_le_nat_alt)
    with f cc y(3) s(7,9) show ?thesis
      by (intro conjI exI [of _ c] exI [of _ "[Switch b, Relay cmd m]"]) (auto simp: wire_ok_def)
  qed
qed

section \<open>The receiving end\<close>

lemma conflux_queue_cmp_le: "conflux_queue_cmp a b \<le> 0 \<longleftrightarrow> seq a \<le> seq b"
  by (auto simp: conflux_queue_cmp_def)

interpretation cq: comparison conflux_queue_cmp
  by unfold_locales (auto simp: conflux_queue_cmp_def split: if_splits)

text \<open>The numbered cells of a queue, and those a sender's cells give from the \<open>d\<close>-th on.\<close>

definition queued :: "('c, 'm) conflux \<Rightarrow> (nat \<times> 'm) multiset" where
  "queued cfx = image_mset (\<lambda>i. (unat (seq i), body i)) (mset (pq_items (ooo_q cfx)))"

definition numbered :: "'m list \<Rightarrow> nat \<Rightarrow> (nat \<times> 'm) multiset" where
  "numbered ms d = mset (map (\<lambda>k. (Suc k, ms ! k)) [d..<length ms])"

lemma numbered_in: "(k, m) \<in># numbered ms d \<longleftrightarrow> d < k \<and> k \<le> length ms \<and> m = ms ! (k - 1)"
  by (cases k) (auto simp: numbered_def)

lemma numbered_next: "d < length ms \<Longrightarrow> numbered ms d = add_mset (Suc d, ms ! d) (numbered ms (Suc d))"
  by (simp add: numbered_def upt_conv_Cons)

lemma numbered_once: "add_mset (k, m) A = numbered ms d \<Longrightarrow> (k, m') \<notin># A"
proof
  assume a: "add_mset (k, m) A = numbered ms d" "(k, m') \<in># A"
  have "image_mset fst (numbered ms d) = mset (map Suc [d..<length ms])"
    by (simp add: numbered_def o_def flip: mset_map)
  moreover have "distinct (map Suc [d..<length ms])" by (simp add: distinct_map)
  ultimately have "count (image_mset fst (numbered ms d)) k \<le> 1" by (simp only: distinct_count_atmost_1) simp
  moreover have "k \<in># image_mset fst A" using a(2) by force
  then have "0 < count (image_mset fst A) k" by (simp only: count_greater_zero_iff)
  ultimately show False by (simp flip: a(1) del: count_greater_zero_iff)
qed

lemma numbered_snoc: "numbered (ms @ [m]) d = (if d \<le> length ms then add_mset (Suc (length ms), m) (numbered ms d) else {#})"
  by (auto simp: numbered_def nth_append intro!: image_mset_cong)

definition receiver_ok :: "('c, 'm) conflux \<Rightarrow> bool" where
  "receiver_ok cfx \<longleftrightarrow> legs_ok cfx \<and> pq_ok conflux_queue_cmp (ooo_q cfx) \<and>
     (\<forall>i \<in> set (pq_items (ooo_q cfx)). cell_ptr i < next_ptr cfx)"

definition delivered :: "('c, 'm) conflux \<Rightarrow> nat" where
  "delivered cfx = unat (last_seq_delivered cfx)"

lemma pq_items_used: "pq_indexed s \<Longrightarrow> num_used (pq_list s) = length (pq_items s)"
proof -
  assume "pq_indexed s"
  then obtain c where "s = hst (pq_items s) c (pq_idx s)" using pq_is_hst by blast
  then show ?thesis by (metis hst_sel(1))
qed

lemma pq_load_hd: "pq_indexed s \<Longrightarrow> pq_items s \<noteq> [] \<Longrightarrow> pq_load s 0 = Done (hd (pq_items s))"
proof -
  assume a: "pq_indexed s" "pq_items s \<noteq> []"
  then obtain c where s: "s = hst (pq_items s) c (pq_idx s)" using pq_is_hst by blast
  show ?thesis by (subst s) (simp add: a(2) hd_conv_nth)
qed

lemma dequeue_step:
  assumes "receiver_ok cfx" "A + queued cfx = numbered ms (delivered cfx)" "length ms < 2 ^ 64 - 1"
  shows "(conflux_dequeue_cell cfx b = Done (None, cfx, b) \<and> (\<forall>m. (Suc (delivered cfx), m) \<notin># queued cfx)) \<or>
    (\<exists>i q b'. conflux_dequeue_cell cfx b = Done (Some i, cfx\<lparr>ooo_q := q, last_seq_delivered := last_seq_delivered cfx + 1\<rparr>, b') \<and>
      delivered cfx < length ms \<and> body i = ms ! delivered cfx \<and> pq_ok conflux_queue_cmp q \<and>
      mset (pq_items (ooo_q cfx)) = add_mset i (mset (pq_items q)) \<and> unat (seq i) = Suc (delivered cfx))"
proof -
  let ?q = "ooo_q cfx"
  have qi: "pq_indexed ?q" "pq_ok conflux_queue_cmp ?q" using assms(1) by (simp_all add: receiver_ok_def pq_ok_def)
  show ?thesis
  proof (cases "pq_items ?q")
    case Nil
    then have "num_used (pq_list ?q) = 0" using pq_items_used [OF qi(1)] by simp
    with Nil show ?thesis by (simp add: conflux_dequeue_cell_def queued_def)
  next
    case (Cons i rest)
    have ld: "pq_load ?q 0 = Done i" using pq_load_hd [OF qi(1)] Cons by simp
    have nu: "num_used (pq_list ?q) \<noteq> 0" using pq_items_used [OF qi(1)] Cons by simp
    have "(unat (seq i), body i) \<in># A + queued cfx" by (simp add: queued_def Cons)
    then have k: "delivered cfx < unat (seq i)" "unat (seq i) \<le> length ms" "body i = ms ! (unat (seq i) - 1)"
      unfolding assms(2) by (simp_all add: numbered_in)
    have sd: "unat (last_seq_delivered cfx + 1) = Suc (delivered cfx)"
      using unat_Suc_word [of "last_seq_delivered cfx"] k(1,2) assms(3) by (simp add: delivered_def)
    show ?thesis
    proof (cases "seq i = last_seq_delivered cfx + 1")
      case True
      from cq.pq.pop_law [OF qi(2)] Cons obtain q where
        "smartlist_pqueue_pop conflux_queue_cmp ?q = Done (i, q)" "pq_ok conflux_queue_cmp q"
        "mset (pq_items ?q) = add_mset i (mset (pq_items q))" by auto
      with ld nu True sd k show ?thesis by (intro disjI2 exI [of _ i] exI [of _ q]) (auto simp: conflux_dequeue_cell_def)
    next
      case False
      have "(Suc (delivered cfx), m) \<notin># queued cfx" for m
      proof
        assume "(Suc (delivered cfx), m) \<in># queued cfx"
        then obtain j where j: "j \<in> set (pq_items ?q)" "unat (seq j) = Suc (delivered cfx)" by (auto simp: queued_def)
        have "seq i \<le> seq j" using cq.pq.least_law [OF qi(2) j(1)] Cons by (simp add: conflux_queue_cmp_le)
        then have "unat (seq i) \<le> Suc (delivered cfx)" using j(2) by (simp add: word_le_nat_alt)
        with k(1) have "unat (seq i) = unat (last_seq_delivered cfx + 1)" using sd by simp
        with False show False by (simp add: word_unat_eq_iff)
      qed
      with ld nu False show ?thesis by (simp add: conflux_dequeue_cell_def)
    qed
  qed
qed

text \<open>Two sets that differ only in what the dequeuing changes.\<close>

definition same_legs :: "('c, 'm) conflux \<Rightarrow> ('c, 'm) conflux \<Rightarrow> bool" where
  "same_legs a b \<longleftrightarrow> legs a = legs b \<and> leg_at a = leg_at b \<and> next_ptr a = next_ptr b"

lemma same_legs_on:
  "same_legs a b \<Longrightarrow> conflux_get_leg a c = conflux_get_leg b c \<and> legs_ok a = legs_ok b \<and> circs a = circs b \<and>
    leg_on a c = leg_on b c \<and> recv_on a c = recv_on b c"
  by (auto simp: same_legs_def conflux_get_leg_def legs_ok_def circs_def leg_on_def recv_on_def)

lemma dequeue_loop_ok:
  assumes "receiver_ok cfx" "A + queued cfx = numbered ms (delivered cfx)" "length ms < 2 ^ 64 - 1"
    and "\<And>m. 0 \<le> process m" "out = take (delivered cfx) ms" "delivered cfx \<le> length ms"
  shows "\<exists>cfx' b' new. dequeue_loop process cfx b pre = Done (0, pre @ new, cfx', b') \<and> receiver_ok cfx' \<and>
    same_legs cfx' cfx \<and> A + queued cfx' = numbered ms (delivered cfx') \<and> out @ new = take (delivered cfx') ms \<and>
    delivered cfx' \<le> length ms \<and> (\<forall>m. (Suc (delivered cfx'), m) \<notin># queued cfx')"
  using assms(1,2,5,6)
proof (induction "size (queued cfx)" arbitrary: cfx b pre out rule: less_induct)
  case less
  from dequeue_step [OF less.prems(1,2) assms(3), of b] show ?case
  proof (elim disjE exE conjE)
    assume "conflux_dequeue_cell cfx b = Done (None, cfx, b)" "\<forall>m. (Suc (delivered cfx), m) \<notin># queued cfx"
    with less.prems show ?thesis
      by (intro exI [of _ cfx] exI [of _ b] exI [of _ "[]"], subst dequeue_loop.simps) (simp add: same_legs_def)
  next
    fix i q b'
    let ?d = "delivered cfx" and ?c = "cfx\<lparr>ooo_q := q, last_seq_delivered := last_seq_delivered cfx + 1\<rparr>"
    assume h: "conflux_dequeue_cell cfx b = Done (Some i, ?c, b')" "?d < length ms" "body i = ms ! ?d"
      "pq_ok conflux_queue_cmp q" "mset (pq_items (ooo_q cfx)) = add_mset i (mset (pq_items q))" "unat (seq i) = Suc ?d"
    have dc: "delivered ?c = Suc ?d"
      using unat_Suc_word [of "last_seq_delivered cfx"] h(2) assms(3) by (simp add: delivered_def)
    have qc: "queued cfx = add_mset (Suc ?d, ms ! ?d) (queued ?c)" by (simp add: queued_def h(3,5,6))
    have "set (pq_items q) \<subseteq> set (pq_items (ooo_q cfx))" using arg_cong [OF h(5), of set_mset] by auto
    then have r: "receiver_ok ?c"
      using less.prems(1) h(4) same_legs_on [of ?c cfx] by (auto simp: receiver_ok_def same_legs_def)
    have "add_mset (Suc ?d, ms ! ?d) (A + queued ?c) = add_mset (Suc ?d, ms ! ?d) (numbered ms (Suc ?d))"
      using less.prems(2) by (simp add: qc numbered_next [OF h(2)])
    then have a: "A + queued ?c = numbered ms (delivered ?c)" by (simp add: dc)
    have sz: "size (queued ?c) < size (queued cfx)" by (simp add: qc)
    have o: "out @ [ms ! ?d] = take (delivered ?c) ms" using less.prems(3) h(2) by (simp add: dc take_Suc_conv_app_nth)
    have "delivered ?c \<le> length ms" using h(2) dc by simp
    from less.hyps [OF sz r a o this, of b' "pre @ [body i]"] obtain cfx' b'' new where
      n: "dequeue_loop process ?c b' (pre @ [body i]) = Done (0, (pre @ [body i]) @ new, cfx', b'')" "receiver_ok cfx'"
        "same_legs cfx' ?c" "A + queued cfx' = numbered ms (delivered cfx')" "(out @ [ms ! ?d]) @ new = take (delivered cfx') ms"
        "delivered cfx' \<le> length ms" "\<forall>m. (Suc (delivered cfx'), m) \<notin># queued cfx'" by blast
    have "dequeue_loop process cfx b pre = Done (0, pre @ (ms ! ?d # new), cfx', b'')"
      using h(1,3) n(1) assms(4) [THEN leD] by (subst dequeue_loop.simps) simp
    then show ?thesis using n by (intro exI conjI) (assumption | auto simp: same_legs_def)+
  qed
qed

abbreviation count_recv :: "('c, 'm) conflux \<Rightarrow> nat \<Rightarrow> ('c, 'm) conflux" where
  "count_recv cfx l \<equiv> cfx\<lparr>leg_at := (leg_at cfx)(l := (leg_at cfx l)\<lparr>last_seq_recv := last_seq_recv (leg_at cfx l) + 1\<rparr>)\<rparr>"

lemma count_recv_ok:
  assumes "legs_ok cfx" "conflux_get_leg cfx c = Some l" "recv_on cfx c + 1 < 2 ^ 64"
  shows "unat (last_seq_recv (leg_at cfx l) + 1) = recv_on cfx c + 1"
    and "legs_ok (count_recv cfx l)" "circs (count_recv cfx l) = circs cfx"
    and "x \<in> circs cfx \<Longrightarrow> recv_on (count_recv cfx l) x = (if x = c then recv_on cfx x + 1 else recv_on cfx x)"
proof -
  note lc = get_leg(2) [OF assms(1,2)]
  note u = leg_update [OF assms(1) conjunct1 [OF lc], of "\<lambda>x. x\<lparr>last_seq_recv := last_seq_recv x + 1\<rparr>", simplified]
  have "unat (last_seq_recv (leg_at cfx l)) = recv_on cfx c" using assms(2) by (simp add: recv_on_def leg_on_def)
  then show un: "unat (last_seq_recv (leg_at cfx l) + 1) = recv_on cfx c + 1"
    using unat_Suc_word [of "last_seq_recv (leg_at cfx l)"] assms(3) by simp
  show "legs_ok (count_recv cfx l)" "circs (count_recv cfx l) = circs cfx" by (rule u(1), rule u(2))
  assume x: "x \<in> circs cfx"
  show "recv_on (count_recv cfx l) x = (if x = c then recv_on cfx x + 1 else recv_on cfx x)"
  proof (cases "x = c")
    case True
    have "leg_on cfx c = leg_at cfx l" using get_leg(4) [OF assms(1,2)] by simp
    then have "last_seq_recv (leg_on (count_recv cfx l) c) = last_seq_recv (leg_at cfx l) + 1"
      using u(4) x True lc by simp
    with True un show ?thesis by (simp only: recv_on_def [of "count_recv cfx l"]) simp
  next
    case False
    then have "leg_on (count_recv cfx l) x = leg_on cfx x" using u(4) [OF x] lc by simp
    with False show ?thesis by (simp add: recv_on_def)
  qed
qed

lemma process_cell_eq:
  assumes "conflux_get_leg cfx c = Some l" "conflux_validate_source_hop (E c) hint"
  shows "conflux_process_cell E cfx b c hint m =
      (if last_seq_recv (leg_at cfx l) + 1 = last_seq_delivered cfx + 1
       then Done (True, (count_recv cfx l)\<lparr>last_seq_delivered := last_seq_delivered cfx + 1\<rparr>, b, None)
       else if last_seq_recv (leg_at cfx l) + 1 \<le> last_seq_delivered cfx
       then Done (False, count_recv cfx l, b, Some END_CIRC_REASON_INTERNAL)
       else obind (smartlist_pqueue_add conflux_queue_cmp (ooo_q cfx)
              \<lparr>cell_ptr = next_ptr cfx, seq = last_seq_recv (leg_at cfx l) + 1, body = m\<rparr>) (\<lambda>q.
              Done (False, (count_recv cfx l)\<lparr>ooo_q := q, next_ptr := next_ptr cfx + 1\<rparr>, b + sizeof_cell_t, None)))"
  using assms by (simp add: conflux_process_cell_def Let_def)

lemma receive_next:
  assumes "receiver_ok cfx" "conflux_get_leg cfx c = Some l" "conflux_validate_source_hop (E c) hint"
    and "add_mset (Suc (delivered cfx), ms ! delivered cfx) A + queued cfx = numbered ms (delivered cfx)"
    and "length ms < 2 ^ 64 - 1" "\<And>m. 0 \<le> process m" "delivered cfx < length ms" "recv_on cfx c = delivered cfx"
  shows "\<exists>cfx' b' new. conflux_receive E process cfx b c hint (ms ! delivered cfx) = Done (0, new, cfx', b', None) \<and>
    receiver_ok cfx' \<and> same_legs cfx' (count_recv cfx l) \<and>
    A + queued cfx' = numbered ms (delivered cfx') \<and> take (delivered cfx) ms @ new = take (delivered cfx') ms \<and>
    delivered cfx' \<le> length ms \<and> (\<forall>m. (Suc (delivered cfx'), m) \<notin># queued cfx')"
proof -
  have lo: "legs_ok cfx" using assms(1) by (simp add: receiver_ok_def)
  have "recv_on cfx c + 1 < 2 ^ 64" using assms(5,7,8) by simp
  note u = count_recv_ok [OF lo assms(2) this]
  have ud: "unat (last_seq_delivered cfx + 1) = Suc (delivered cfx)"
    using unat_Suc_word [of "last_seq_delivered cfx"] assms(5,7) by (simp add: delivered_def)
  have hit: "last_seq_recv (leg_at cfx l) + 1 = last_seq_delivered cfx + 1"
    by (rule word_unat_eq_iff [THEN iffD2]) (use u(1) ud assms(8) in simp)
  let ?c = "(count_recv cfx l)\<lparr>last_seq_delivered := last_seq_delivered cfx + 1\<rparr>"
  let ?m = "ms ! delivered cfx"
  have dc: "delivered ?c = Suc (delivered cfx)" using ud by (simp add: delivered_def)
  have qc: "queued ?c = queued cfx" by (simp add: queued_def)
  have sl: "same_legs ?c (count_recv cfx l)" by (simp add: same_legs_def)
  have r: "receiver_ok ?c" using assms(1) u(2) same_legs_on [OF sl] by (simp add: receiver_ok_def)
  from assms(4) have "A + queued ?c = numbered ms (delivered ?c)"
    by (simp add: qc dc numbered_next [OF assms(7)])
  from dequeue_loop_ok [where process = process and b = b and pre = "[?m]", OF r this assms(5,6) refl] assms(7) dc
  obtain cfx' b' new where
    n: "dequeue_loop process ?c b [?m] = Done (0, [?m] @ new, cfx', b')" "receiver_ok cfx'" "same_legs cfx' ?c"
      "A + queued cfx' = numbered ms (delivered cfx')" "take (delivered ?c) ms @ new = take (delivered cfx') ms"
      "delivered cfx' \<le> length ms" "\<forall>m. (Suc (delivered cfx'), m) \<notin># queued cfx'" by auto
  have "conflux_receive E process cfx b c hint ?m = Done (0, ?m # new, cfx', b', None)"
    using hit n(1) assms(6) [THEN leD] by (simp add: conflux_receive_def process_cell_eq [where E = E, OF assms(2,3)])
  moreover have "take (delivered cfx) ms @ ?m # new = take (delivered cfx') ms"
    using n(5) assms(7) by (simp add: dc take_Suc_conv_app_nth)
  moreover have "same_legs cfx' (count_recv cfx l)" using n(3) sl by (simp add: same_legs_def)
  ultimately show ?thesis using n by blast
qed

lemma receive_ahead:
  assumes "receiver_ok cfx" "conflux_get_leg cfx c = Some l" "conflux_validate_source_hop (E c) hint"
    and "delivered cfx < recv_on cfx c" "recv_on cfx c + 1 < 2 ^ 64" "length (pq_items (ooo_q cfx)) < MAX_CAPACITY"
  shows "\<exists>cfx'. conflux_receive E process cfx b c hint m = Done (0, [], cfx', b + sizeof_cell_t, None) \<and>
    receiver_ok cfx' \<and> circs cfx' = circs cfx \<and> (\<forall>x. recv_on cfx' x = recv_on (count_recv cfx l) x) \<and>
    delivered cfx' = delivered cfx \<and>
    queued cfx' = add_mset (recv_on cfx c + 1, m) (queued cfx)"
proof -
  have lo: "legs_ok cfx" using assms(1) by (simp add: receiver_ok_def)
  note u = count_recv_ok [OF lo assms(2,5)]
  let ?n = "last_seq_recv (leg_at cfx l) + 1"
  have nle: "\<not> ?n \<le> last_seq_delivered cfx" using assms(4) u(1) by (simp add: word_le_nat_alt delivered_def)
  have ne: "?n \<noteq> last_seq_delivered cfx + 1"
  proof
    assume "?n = last_seq_delivered cfx + 1"
    then have "last_seq_recv (leg_at cfx l) = last_seq_delivered cfx" by simp
    then show False using assms(2,4) by (simp add: delivered_def recv_on_def leg_on_def)
  qed
  let ?i = "\<lparr>cell_ptr = next_ptr cfx, seq = ?n, body = m\<rparr>"
  have pq: "pq_ok conflux_queue_cmp (ooo_q cfx)" and fresh: "?i \<notin> set (pq_items (ooo_q cfx))"
    using assms(1) by (auto simp: receiver_ok_def)
  from cq.pq.add_law [OF pq fresh assms(6)] obtain q where
    q: "smartlist_pqueue_add conflux_queue_cmp (ooo_q cfx) ?i = Done q" "pq_ok conflux_queue_cmp q"
      "mset (pq_items q) = add_mset ?i (mset (pq_items (ooo_q cfx)))" by blast
  define z where "z = (count_recv cfx l)\<lparr>ooo_q := q, next_ptr := next_ptr cfx + 1\<rparr>"
  have rc: "conflux_receive E process cfx b c hint m = Done (0, [], z, b + sizeof_cell_t, None)"
    using ne nle q(1) by (simp add: conflux_receive_def process_cell_eq [where E = E, OF assms(2,3)] z_def)
  have g: "circs z = circs cfx \<and> legs_ok z \<and> recv_on z x = recv_on (count_recv cfx l) x" for x
    using u(2,3) by (simp add: circs_def legs_ok_def recv_on_def leg_on_def conflux_get_leg_def z_def)
  have "set (pq_items q) = insert ?i (set (pq_items (ooo_q cfx)))" using arg_cong [OF q(3), of set_mset] by simp
  then have "receiver_ok z"
    using assms(1) g q(2) by (auto simp: receiver_ok_def z_def intro: less_SucI)
  moreover have "queued z = add_mset (recv_on cfx c + 1, m) (queued cfx)" using u(1) by (simp add: queued_def q(3) z_def)
  moreover have "delivered z = delivered cfx" by (simp add: delivered_def z_def)
  ultimately show ?thesis using rc g by blast
qed

lemma receive_ok:
  assumes "receiver_ok cfx" "c \<in> circs cfx" "conflux_validate_source_hop (E c) hint"
    and "add_mset (recv_on cfx c + 1, m) A + queued cfx = numbered ms (delivered cfx)"
    and "length ms \<le> MAX_CAPACITY" "\<And>m. 0 \<le> process m" "delivered cfx \<le> length ms"
    and "\<forall>m. (Suc (delivered cfx), m) \<notin># queued cfx"
  shows "\<exists>cfx' b' new. conflux_receive E process cfx b c hint m = Done (0, new, cfx', b', None) \<and> receiver_ok cfx' \<and>
    circs cfx' = circs cfx \<and> (\<forall>x \<in> circs cfx. recv_on cfx' x = (if x = c then recv_on cfx x + 1 else recv_on cfx x)) \<and>
    A + queued cfx' = numbered ms (delivered cfx') \<and> take (delivered cfx) ms @ new = take (delivered cfx') ms \<and>
    delivered cfx' \<le> length ms \<and> (\<forall>m. (Suc (delivered cfx'), m) \<notin># queued cfx')"
proof -
  have lo: "legs_ok cfx" using assms(1) by (simp add: receiver_ok_def)
  obtain l where l: "conflux_get_leg cfx c = Some l" using get_leg(3) [OF lo assms(2)] by blast
  have big: "length ms < 2 ^ 64 - 1" using assms(5) by (simp add: MAX_CAPACITY_def INT_MAX_def)
  have "(recv_on cfx c + 1, m) \<in># numbered ms (delivered cfx)" by (simp flip: assms(4))
  then have k: "delivered cfx < recv_on cfx c + 1" "recv_on cfx c + 1 \<le> length ms" "m = ms ! recv_on cfx c"
    by (simp_all add: numbered_in)
  have small: "recv_on cfx c + 1 < 2 ^ 64" using k(2) big by simp
  note u = count_recv_ok [OF lo l small]
  have legs: "circs cfx' = circs cfx" "\<forall>x \<in> circs cfx. recv_on cfx' x = (if x = c then recv_on cfx x + 1 else recv_on cfx x)"
    if "same_legs cfx' (count_recv cfx l)" for cfx'
    using same_legs_on [OF that] u(3,4) by auto
  show ?thesis
  proof (cases "recv_on cfx c = delivered cfx")
    case True
    with k assms(4) have "add_mset (Suc (delivered cfx), ms ! delivered cfx) A + queued cfx = numbered ms (delivered cfx)"
      and lt: "delivered cfx < length ms" by simp_all
    from receive_next [where process = process and b = b and E = E, OF assms(1) l assms(3) this(1) big assms(6) lt True]
    show ?thesis using legs True k(3) by metis
  next
    case False
    with k(1) have gt: "delivered cfx < recv_on cfx c" by simp
    have "size (queued cfx) < size (numbered ms (delivered cfx))" by (simp flip: assms(4))
    then have "length (pq_items (ooo_q cfx)) < MAX_CAPACITY" using assms(5) by (simp add: queued_def numbered_def)
    from receive_ahead [where process = process and b = b and m = m and E = E, OF assms(1) l assms(3) gt small this]
    obtain z where z: "conflux_receive E process cfx b c hint m = Done (0, [], z, b + sizeof_cell_t, None)"
      "receiver_ok z" "circs z = circs cfx" "\<forall>x. recv_on z x = recv_on (count_recv cfx l) x" "delivered z = delivered cfx"
      "queued z = add_mset (recv_on cfx c + 1, m) (queued cfx)" by blast
    have "(Suc (delivered cfx), m') \<notin># queued z" for m' using assms(8) False by (simp add: z(6))
    with z u(4) assms(4,7) show ?thesis
      by (intro exI [of _ z] exI [of _ "b + sizeof_cell_t"] exI [of _ "[]"]) simp
  qed
qed

section \<open>Both ends\<close>

record ('c, 'm) cfx_link =
  tx :: "('c, 'm) conflux"
  rx :: "('c, 'm) conflux"
  wire :: "'c \<Rightarrow> 'm sent list"
  sent_cells :: "'m list"
  got_cells :: "'m list"
  rx_bytes :: u64

fun push_all :: "('c \<Rightarrow> 'm sent list) \<Rightarrow> ('c \<times> 'm sent) list \<Rightarrow> 'c \<Rightarrow> 'm sent list" where
  "push_all w [] = w"
| "push_all w ((c, e) # evs) = push_all (w(c := w c @ [e])) evs"

lemma push_all_one: "push_all w (map (Pair c) es) = w(c := w c @ es)"
  by (induction es arbitrary: w) auto

text \<open>
  The sender multiplexes a cell, asks which circuit would be next, or learns a round-trip time,
  each time with whatever its circuits look like then; the receiver takes the next cell off a
  circuit. \<open>V\<close> and \<open>hint\<close> are the receiver's circuits and the hop a cell came from, \<open>process\<close>
  is the processing of ordered cells.
\<close>

inductive link_step ::
  "('c \<Rightarrow> circ_view) \<Rightarrow> ('c \<Rightarrow> nat option) \<Rightarrow> ('m \<Rightarrow> int) \<Rightarrow> ('c, 'm) cfx_link \<Rightarrow> ('c, 'm) cfx_link \<Rightarrow> bool"
  for V hint process where
  send: "conflux_should_multiplex cmd \<Longrightarrow>
    conflux_decide_circ_for_send E d (tx s) orig cmd = Done (Some c0, x0, p0) \<Longrightarrow>
    conflux_send_cell E d (tx s) orig cmd m = Done (t, evs) \<Longrightarrow>
    link_step V hint process s (s\<lparr>tx := t, wire := push_all (wire s) evs, sent_cells := sent_cells s @ [m]\<rparr>)"
| poll: "conflux_decide_next_circ E d (tx s) = Done (c0, t) \<Longrightarrow> link_step V hint process s (s\<lparr>tx := t\<rparr>)"
| rtt: "link_step V hint process s (s\<lparr>tx := conflux_update_rtt (tx s) c u\<rparr>)"
| recv_switch: "wire s c = Switch p # es \<Longrightarrow> length header = RELAY_HEADER_SIZE \<Longrightarrow>
    conflux_process_switch_command V True (Some (rx s)) c (hint c) (relay_cell header p) (of_nat RELAY_PAYLOAD_SIZE) =
      Done (Some r, closed) \<Longrightarrow>
    link_step V hint process s (s\<lparr>rx := r, wire := (wire s)(c := es)\<rparr>)"
| recv_cell: "wire s c = Relay cmd m # es \<Longrightarrow>
    conflux_receive V process (rx s) (rx_bytes s) c (hint c) m = Done (ret, new, r, b, closed) \<Longrightarrow>
    link_step V hint process s
      (s\<lparr>rx := r, wire := (wire s)(c := es), got_cells := got_cells s @ new, rx_bytes := b\<rparr>)"

inductive_cases link_stepE: "link_step V hint process s s'"

text \<open>A new pair of ends: legs on the same circuits, nothing sent, nothing received.\<close>

definition link_start :: "('c, 'm) cfx_link \<Rightarrow> bool" where
  "link_start s \<longleftrightarrow> legs_ok (tx s) \<and> legs_ok (rx s) \<and> circs (tx s) = circs (rx s) \<and>
     (\<forall>l \<in> set (legs (tx s)). last_seq_sent (leg_at (tx s) l) = 0) \<and>
     (\<forall>l \<in> set (legs (rx s)). last_seq_recv (leg_at (rx s) l) = 0) \<and> curr_leg (tx s) = None \<and>
     (\<exists>ix. ooo_q (rx s) = pq_new ix) \<and> last_seq_delivered (rx s) = 0 \<and>
     wire s = (\<lambda>c. []) \<and> sent_cells s = [] \<and> got_cells s = []"

text \<open>Every number after the delivered ones is on one circuit or in the queue.\<close>

definition in_flight :: "('c, 'm) cfx_link \<Rightarrow> (nat \<times> 'm) multiset" where
  "in_flight s = (\<Sum>c \<in> circs (rx s). mset (wire_cells (recv_on (rx s) c) (wire s c)))"

definition link_inv :: "('c, 'm) cfx_link \<Rightarrow> bool" where
  "link_inv s \<longleftrightarrow> sender_ok (tx s) (length (sent_cells s)) \<and> receiver_ok (rx s) \<and> circs (tx s) = circs (rx s) \<and>
     (\<forall>c. wire_ok (wire s c)) \<and> (\<forall>c. c \<notin> circs (rx s) \<longrightarrow> wire s c = []) \<and>
     (\<forall>c \<in> circs (rx s). wire_end (recv_on (rx s) c) (wire s c) = sent_on (tx s) c) \<and>
     in_flight s + queued (rx s) = numbered (sent_cells s) (delivered (rx s)) \<and>
     got_cells s = take (delivered (rx s)) (sent_cells s) \<and> delivered (rx s) \<le> length (sent_cells s) \<and>
     (\<forall>m. (Suc (delivered (rx s)), m) \<notin># queued (rx s))"

lemma finite_circs [simp]: "finite (circs cfx)"
  by (simp add: circs_def)

lemma on_leg: "legs_ok cfx \<Longrightarrow> c \<in> circs cfx \<Longrightarrow> \<exists>l \<in> set (legs cfx). leg_on cfx c = leg_at cfx l"
  using get_leg(3) [of cfx c] get_leg(2) [of cfx c] by (auto simp: leg_on_def)

lemma link_start_inv:
  assumes "link_start s"
  shows "link_inv s"
proof -
  have t: "sent_on (tx s) c = 0" if "c \<in> circs (tx s)" for c
    using on_leg [of "tx s" c] that assms by (auto simp: link_start_def sent_on_def)
  have r: "recv_on (rx s) c = 0" if "c \<in> circs (rx s)" for c
    using on_leg [of "rx s" c] that assms by (auto simp: link_start_def recv_on_def)
  have q: "pq_items (ooo_q (rx s)) = []" "pq_ok conflux_queue_cmp (ooo_q (rx s))"
    using assms pq_new_ok by (auto simp: link_start_def)
  have "in_flight s = {#}" using assms by (simp add: in_flight_def link_start_def)
  with assms t r q show ?thesis
    by (simp add: link_inv_def link_start_def sender_ok_def receiver_ok_def wire_ok_def queued_def numbered_def delivered_def)
qed

text \<open>Changing one circuit's part of what is in flight.\<close>

lemma in_flight_remove:
  "c \<in> circs (rx s) \<Longrightarrow> in_flight s = mset (wire_cells (recv_on (rx s) c) (wire s c)) +
    (\<Sum>b \<in> circs (rx s) - {c}. mset (wire_cells (recv_on (rx s) b) (wire s b)))"
  by (simp add: in_flight_def sum.remove)

lemma in_flight_change:
  assumes "c \<in> circs (rx s)" "circs (rx s') = circs (rx s)"
    and "\<And>b. b \<in> circs (rx s) \<Longrightarrow> b \<noteq> c \<Longrightarrow> recv_on (rx s') b = recv_on (rx s) b \<and> wire s' b = wire s b"
    and "mset (wire_cells (recv_on (rx s) c) (wire s c)) + X = mset (wire_cells (recv_on (rx s') c) (wire s' c)) + Y"
  shows "in_flight s + X = in_flight s' + Y"
proof -
  have "(\<Sum>b \<in> circs (rx s) - {c}. mset (wire_cells (recv_on (rx s) b) (wire s b))) =
      (\<Sum>b \<in> circs (rx s') - {c}. mset (wire_cells (recv_on (rx s') b) (wire s' b)))"
    using assms(2,3) by (intro sum.cong) auto
  moreover have "c \<in> circs (rx s')" using assms(1,2) by simp
  ultimately show ?thesis using in_flight_remove [OF assms(1)] in_flight_remove [of c s'] assms(4)
    by (simp add: ac_simps)
qed

lemma send_inv:
  assumes "link_inv s" "conflux_should_multiplex cmd"
    "conflux_decide_circ_for_send E d (tx s) orig cmd = Done (Some c0, x0, p0)"
    "conflux_send_cell E d (tx s) orig cmd m = Done (t, evs)" "length (sent_cells s) < 2 ^ 64 - 1"
  shows "link_inv (s\<lparr>tx := t, wire := push_all (wire s) evs, sent_cells := sent_cells s @ [m]\<rparr>)"
proof -
  let ?n = "length (sent_cells s)"
  have so: "sender_ok (tx s) ?n" using assms(1) by (simp add: link_inv_def)
  from send_cell_ok [OF assms(4,2,3) so assms(5)] obtain c es where
    k: "sender_ok t (?n + 1)" "circs t = circs (tx s)" "c \<in> circs (tx s)" "evs = map (Pair c) es" "wire_ok es"
      "wire_end (sent_on (tx s) c) es = ?n + 1" "wire_cells (sent_on (tx s) c) es = [(?n + 1, m)]"
      "\<And>b. b \<in> circs (tx s) \<Longrightarrow> sent_on t b = (if b = c then ?n + 1 else sent_on (tx s) b)" by blast
  define s' where "s' = s\<lparr>tx := t, wire := push_all (wire s) evs, sent_cells := sent_cells s @ [m]\<rparr>"
  have c: "c \<in> circs (rx s)" "circs (tx s) = circs (rx s)" "wire_end (recv_on (rx s) c) (wire s c) = sent_on (tx s) c"
    using assms(1) k(3) by (simp_all add: link_inv_def)
  have w: "wire s' b = (if b = c then wire s c @ es else wire s b)" "rx s' = rx s" for b
    by (simp_all add: s'_def k(4) push_all_one)
  have "in_flight s + {#(?n + 1, m)#} = in_flight s' + {#}"
    by (rule in_flight_change [OF c(1)]) (simp_all add: w wire_append c(3) k(7))
  then have "in_flight s' = add_mset (?n + 1, m) (in_flight s)" by simp
  then have "in_flight s' + queued (rx s) = add_mset (?n + 1, m) (numbered (sent_cells s) (delivered (rx s)))"
    using assms(1) by (simp add: link_inv_def)
  also have "\<dots> = numbered (sent_cells s @ [m]) (delivered (rx s))" using assms(1) by (simp add: numbered_snoc link_inv_def)
  finally have "in_flight s' + queued (rx s') = numbered (sent_cells s') (delivered (rx s'))" by (simp add: w s'_def)
  then have "link_inv s'" using assms(1) k w c
    by (auto simp: link_inv_def wire_append s'_def wire_ok_def)
  then show ?thesis by (simp add: s'_def)
qed

lemma wire_ok_tl: "link_inv s \<Longrightarrow> wire s c = e # es \<Longrightarrow> wire_ok (((wire s)(c := es)) b)"
  by (simp add: link_inv_def wire_ok_def) (metis list.set_intros(2))

lemma recv_switch_ok:
  assumes "link_inv s" "wire s c = Switch p # es" "length header = RELAY_HEADER_SIZE"
    and "\<And>c. c \<in> circs (rx s) \<Longrightarrow> conflux_validate_source_hop (V c) (hint c)"
    and "length (sent_cells s) < 2 ^ 64 - 1"
  shows "\<exists>r. conflux_process_switch_command V True (Some (rx s)) c (hint c) (relay_cell header p) (of_nat RELAY_PAYLOAD_SIZE) =
      Done (Some r, None) \<and> link_inv (s\<lparr>rx := r, wire := (wire s)(c := es)\<rparr>)"
proof -
  have lo: "legs_ok (rx s)" and cc: "c \<in> circs (rx s)"
    using assms(1,2) by (auto simp: link_inv_def receiver_ok_def)
  have wo: "wire_ok (wire s c)" using assms(1) by (simp add: link_inv_def)
  obtain l where l: "conflux_get_leg (rx s) c = Some l" using get_leg(3) [OF lo cc] by blast
  note lc = get_leg(2) [OF lo l] get_leg(4) [OF lo l]
  from wo assms(2) obtain w where w: "conflux_send_switch_command w = Done p" by (auto simp: wire_ok_def)
  note ps = send_switch_parsed(1) [OF w assms(3)]
  let ?v = "parsed_switch p"
  define r where "r = (rx s)\<lparr>leg_at := (leg_at (rx s))(l := (leg_at (rx s) l)
      \<lparr>last_seq_recv := last_seq_recv (leg_at (rx s) l) + ucast ?v\<rparr>)\<rparr>"
  note u = leg_update [OF lo conjunct1 [OF lc(1)], of "\<lambda>x. x\<lparr>last_seq_recv := last_seq_recv x + ucast ?v\<rparr>", folded r_def, simplified]
  have run: "conflux_process_switch_command V True (Some (rx s)) c (hint c) (relay_cell header p) (of_nat RELAY_PAYLOAD_SIZE) =
      Done (Some r, None)"
    using l assms(4) [OF cc] by (simp add: conflux_process_switch_command_def ps r_def)
  have sn: "recv_on (rx s) c + unat ?v \<le> length (sent_cells s)"
  proof -
    have "recv_on (rx s) c + unat ?v \<le> wire_end (recv_on (rx s) c) (wire s c)" using wire_end_ge by (simp add: assms(2))
    also have "\<dots> \<le> length (sent_cells s)" using assms(1) cc by (simp add: link_inv_def sender_ok_def)
    finally show ?thesis .
  qed
  have uv: "unat (ucast ?v :: u64) = unat ?v"
  proof -
    have "unat ?v < 2 ^ LENGTH(32)" by (rule unsigned_less)
    then have "unat ?v < 2 ^ 64" by simp
    then show ?thesis by (simp add: unsigned_ucast_eq unsigned_take_bit_eq take_bit_nat_eq_self)
  qed
  have rr: "recv_on r b = (if b = c then recv_on (rx s) c + unat ?v else recv_on (rx s) b)" if "b \<in> circs (rx s)" for b
  proof (cases "b = c")
    case True
    have "last_seq_recv (leg_on r c) = last_seq_recv (leg_on (rx s) c) + ucast ?v" using u(4) [OF cc] lc by simp
    then have "recv_on r c = unat (last_seq_recv (leg_on (rx s) c) + ucast ?v)" by (simp add: recv_on_def)
    also have "\<dots> = recv_on (rx s) c + unat ?v"
      using sn assms(5) by (simp add: unat_word_ariths uv recv_on_def [of "rx s"])
    finally show ?thesis using True by simp
  next
    case False
    then have "leg_on r b = leg_on (rx s) b" using u(4) [OF that] lc by simp
    with False show ?thesis by (simp add: recv_on_def)
  qed
  have q: "queued r = queued (rx s)" "delivered r = delivered (rx s)" "receiver_ok r"
    using assms(1) u(1) by (simp_all add: queued_def delivered_def r_def link_inv_def receiver_ok_def)
  let ?s = "s\<lparr>rx := r, wire := (wire s)(c := es)\<rparr>"
  have "in_flight s + {#} = in_flight ?s + {#}"
    by (rule in_flight_change [OF cc]) (simp_all add: u(2) rr cc assms(2))
  with assms(1) u(2) rr q wire_ok_tl [OF assms(1,2)] have "link_inv ?s"
    by (auto simp: link_inv_def assms(2))
  with run show ?thesis by blast
qed

lemma recv_cell_ok:
  assumes "link_inv s" "wire s c = Relay cmd m # es" "\<And>m. 0 \<le> process m"
    and "\<And>c. c \<in> circs (rx s) \<Longrightarrow> conflux_validate_source_hop (V c) (hint c)"
    and "length (sent_cells s) \<le> MAX_CAPACITY"
  shows "\<exists>r b new. conflux_receive V process (rx s) (rx_bytes s) c (hint c) m = Done (0, new, r, b, None) \<and>
    link_inv (s\<lparr>rx := r, wire := (wire s)(c := es), got_cells := got_cells s @ new, rx_bytes := b\<rparr>)"
proof -
  have ro: "receiver_ok (rx s)" and cc: "c \<in> circs (rx s)"
    using assms(1,2) by (auto simp: link_inv_def)
  define A where "A = mset (wire_cells (recv_on (rx s) c + 1) es) +
      (\<Sum>b \<in> circs (rx s) - {c}. mset (wire_cells (recv_on (rx s) b) (wire s b)))"
  have fl: "in_flight s = add_mset (recv_on (rx s) c + 1, m) A"
    using in_flight_remove [OF cc] by (simp add: A_def assms(2))
  have "add_mset (recv_on (rx s) c + 1, m) A + queued (rx s) = numbered (sent_cells s) (delivered (rx s))"
    using assms(1) fl by (simp only: link_inv_def)
  from receive_ok [where process = process and b = "rx_bytes s" and E = V and hint = "hint c", OF ro cc assms(4) [OF cc] this assms(5,3)] assms(1) obtain r b new where
    r: "conflux_receive V process (rx s) (rx_bytes s) c (hint c) m = Done (0, new, r, b, None)" "receiver_ok r"
      "circs r = circs (rx s)" "\<And>x. x \<in> circs (rx s) \<Longrightarrow> recv_on r x = (if x = c then recv_on (rx s) x + 1 else recv_on (rx s) x)"
      "A + queued r = numbered (sent_cells s) (delivered r)"
      "take (delivered (rx s)) (sent_cells s) @ new = take (delivered r) (sent_cells s)"
      "delivered r \<le> length (sent_cells s)" "\<forall>m. (Suc (delivered r), m) \<notin># queued r"
    by (auto simp: link_inv_def)
  define s' where "s' = s\<lparr>rx := r, wire := (wire s)(c := es), got_cells := got_cells s @ new, rx_bytes := b\<rparr>"
  have "in_flight s + {#} = in_flight s' + {#(recv_on (rx s) c + 1, m)#}"
    by (rule in_flight_change [OF cc]) (simp_all add: s'_def r(3,4) cc assms(2))
  then have "in_flight s' = A" by (simp add: fl)
  then have "link_inv s'" using assms(1) r wire_ok_tl [OF assms(1,2)]
    by (auto simp: link_inv_def s'_def assms(2))
  with r(1) show ?thesis unfolding s'_def by blast
qed

lemma update_rtt_same:
  "same_seqs (conflux_update_rtt cfx c u) (cfx\<lparr>leg_at := leg_at (conflux_update_rtt cfx c u)\<rparr>)"
  "leg_circ (leg_at (conflux_update_rtt cfx c u) l) = leg_circ (leg_at cfx l)"
  "last_seq_sent (leg_at (conflux_update_rtt cfx c u) l) = last_seq_sent (leg_at cfx l)"
  "legs (conflux_update_rtt cfx c u) = legs cfx" "curr_leg (conflux_update_rtt cfx c u) = curr_leg cfx"
  by (auto simp: conflux_update_rtt_def same_seqs_def split: option.splits)

lemma update_rtt_sender:
  assumes "sender_ok cfx n"
  shows "sender_ok (conflux_update_rtt cfx c u) n \<and> circs (conflux_update_rtt cfx c u) = circs cfx \<and>
    sent_on (conflux_update_rtt cfx c u) b = sent_on cfx b"
proof -
  let ?y = "conflux_update_rtt cfx c u"
  have g: "conflux_get_leg ?y b = conflux_get_leg cfx b \<and> legs_ok ?y = legs_ok cfx \<and> circs ?y = circs cfx" for b
    by (rule get_leg_cong) (simp_all add: update_rtt_same)
  then have "sent_on ?y b = sent_on cfx b" for b by (simp add: sent_on_def leg_on_def update_rtt_same)
  with g assms show ?thesis by (simp add: sender_ok_def update_rtt_same)
qed

lemma link_step_inv:
  assumes "link_step V hint process s s'" "link_inv s" "length (sent_cells s') \<le> MAX_CAPACITY"
    and "\<And>m. 0 \<le> process m" "\<And>c. conflux_validate_source_hop (V c) (hint c)"
  shows "link_inv s'"
proof -
  have big: "n \<le> MAX_CAPACITY \<Longrightarrow> n < 2 ^ 64 - 1" for n by (simp add: MAX_CAPACITY_def INT_MAX_def)
  show ?thesis
    using assms(1)
  proof (cases rule: link_step.cases)
    case (send cmd E d orig c0 x0 p0 m t evs)
    then have "length (sent_cells s) < 2 ^ 64 - 1" using big [OF assms(3)] by simp
    from send_inv [OF assms(2) send(2-4) this] send(1) show ?thesis by simp
  next
    case (poll E d c0 t)
    have so: "sender_ok (tx s) (length (sent_cells s))" using assms(2) by (simp add: link_inv_def)
    note d = sender_ok_decide [OF poll(2) so]
    have e: "circs t = circs (tx s)" "sent_on t b = sent_on (tx s) b" for b
      using d same_seqs_legs [of t "tx s"] by (auto simp: sent_on_def)
    have "in_flight s' = in_flight s" by (simp add: poll(1) in_flight_def)
    with d e assms(2) show ?thesis by (simp add: link_inv_def poll(1))
  next
    case (rtt c u)
    have so: "sender_ok (tx s) (length (sent_cells s))" using assms(2) by (simp add: link_inv_def)
    have "in_flight s' = in_flight s" by (simp add: rtt in_flight_def)
    with update_rtt_sender [OF so] assms(2) show ?thesis by (simp add: link_inv_def rtt)
  next
    case (recv_switch c p es header r closed)
    have "length (sent_cells s) < 2 ^ 64 - 1" using big [OF assms(3)] by (simp add: recv_switch(1))
    from recv_switch_ok [where V = V and hint = hint, OF assms(2) recv_switch(2,3) assms(5) this] recv_switch show ?thesis by auto
  next
    case (recv_cell c cmd m es ret new r b closed)
    have "length (sent_cells s) \<le> MAX_CAPACITY" using assms(3) by (simp add: recv_cell(1))
    from recv_cell_ok [where process = process and V = V and hint = hint, OF assms(2) recv_cell(2) assms(4,5) this] recv_cell
    show ?thesis by auto
  qed
qed

lemma link_step_sent: "link_step V hint process s s' \<Longrightarrow> length (sent_cells s) \<le> length (sent_cells s')"
  by (erule link_step.cases) simp_all

lemma link_run_inv:
  assumes "rtranclp (link_step V hint process) s0 s" "link_start s0" "length (sent_cells s) \<le> MAX_CAPACITY"
    and "\<And>m. 0 \<le> process m" "\<And>c. conflux_validate_source_hop (V c) (hint c)"
  shows "link_inv s"
  using assms(1,3)
proof (induction rule: rtranclp_induct)
  case base
  show ?case by (rule link_start_inv [OF assms(2)])
next
  case (step y z)
  with link_step_sent [OF step.hyps(2)] have "link_inv y" by simp
  from link_step_inv [OF step.hyps(2) this step.prems assms(4,5)] show ?case .
qed

lemma drained_all:
  assumes "link_inv s" "\<forall>c. wire s c = []"
  shows "got_cells s = sent_cells s"
proof -
  have "in_flight s = {#}" using assms(2) by (simp add: in_flight_def)
  then have q: "queued (rx s) = numbered (sent_cells s) (delivered (rx s))" using assms(1) by (simp add: link_inv_def)
  have "\<not> delivered (rx s) < length (sent_cells s)"
  proof
    assume "delivered (rx s) < length (sent_cells s)"
    then have "(Suc (delivered (rx s)), sent_cells s ! delivered (rx s)) \<in># queued (rx s)" by (simp add: q numbered_in)
    with assms(1) show False by (simp add: link_inv_def)
  qed
  with assms(1) show ?thesis by (simp add: link_inv_def)
qed

lemma drain:
  assumes "link_inv s" "length (sent_cells s) \<le> MAX_CAPACITY"
    and "\<And>m. 0 \<le> process m" "\<And>c. conflux_validate_source_hop (V c) (hint c)"
  shows "\<exists>s'. rtranclp (link_step V hint process) s s' \<and> sent_cells s' = sent_cells s \<and> got_cells s' = sent_cells s"
  using assms(1,2)
proof (induction "\<Sum>c \<in> circs (rx s). length (wire s c)" arbitrary: s rule: less_induct)
  case less
  show ?case
  proof (cases "\<exists>c. wire s c \<noteq> []")
    case False
    with drained_all [OF less.prems(1)] show ?thesis by auto
  next
    case True
    then obtain c e es where w: "wire s c = e # es" by (meson list.exhaust)
    have cc: "c \<in> circs (rx s)" using less.prems(1) w by (auto simp: link_inv_def)
    have big: "length (sent_cells s) < 2 ^ 64 - 1" using less.prems(2) by (simp add: MAX_CAPACITY_def INT_MAX_def)
    have ex: "\<exists>t. link_step V hint process s t \<and> link_inv t \<and> sent_cells t = sent_cells s \<and> wire t = (wire s)(c := es) \<and> circs (rx t) = circs (rx s)"
    proof (cases e)
      case (Switch p)
      have h: "length (zeros RELAY_HEADER_SIZE) = RELAY_HEADER_SIZE" by (simp add: zeros_def)
      from recv_switch_ok [where V = V and hint = hint, OF less.prems(1) w [unfolded Switch] h assms(4) big] obtain r where
        r: "conflux_process_switch_command V True (Some (rx s)) c (hint c) (relay_cell (zeros RELAY_HEADER_SIZE) p)
          (of_nat RELAY_PAYLOAD_SIZE) = Done (Some r, None)" "link_inv (s\<lparr>rx := r, wire := (wire s)(c := es)\<rparr>)" by blast
      then have "circs r = circs (rx s)" using less.prems(1) by (simp add: link_inv_def)
      with r link_step.recv_switch [where V = V and hint = hint and process = process, OF w [unfolded Switch] h r(1)] show ?thesis by auto
    next
      case (Relay cmd m)
      from recv_cell_ok [where process = process and V = V and hint = hint, OF less.prems(1) w [unfolded Relay] assms(3,4) less.prems(2)]
      obtain r b new where
        r: "conflux_receive V process (rx s) (rx_bytes s) c (hint c) m = Done (0, new, r, b, None)"
          "link_inv (s\<lparr>rx := r, wire := (wire s)(c := es), got_cells := got_cells s @ new, rx_bytes := b\<rparr>)" by blast
      then have "circs r = circs (rx s)" using less.prems(1) by (simp add: link_inv_def)
      with r link_step.recv_cell [where V = V and hint = hint and process = process, OF w [unfolded Relay] r(1)] show ?thesis by auto
    qed
    then obtain t where t: "link_step V hint process s t" "link_inv t" "sent_cells t = sent_cells s"
      "wire t = (wire s)(c := es)" "circs (rx t) = circs (rx s)" by blast
    have "(\<Sum>b \<in> circs (rx t). length (wire t b)) < (\<Sum>b \<in> circs (rx s). length (wire s b))"
      unfolding t(5) by (rule sum_strict_mono_ex1) (use w cc in \<open>auto simp: t(4)\<close>)
    from less.hyps [OF this t(2)] less.prems(2) t(3) obtain s' where
      "rtranclp (link_step V hint process) t s'" "sent_cells s' = sent_cells s" "got_cells s' = sent_cells s" by auto
    with t(1) show ?thesis by (meson converse_rtranclp_into_rtranclp)
  qed
qed

section \<open>The properties\<close>

text \<open>
  C6. Conflux keeps the order of the cells: whatever circuits the sending end chooses and however
  the circuits delay their cells, the receiving end processes the multiplexed cells in the order
  they were sent, none twice and none left out; and when nothing is left on the circuits it has
  processed all of them. This holds for new sets and up to \<open>INT_MAX\<close> cells, the capacity of
  the receiver's queue.
\<close>

theorem conflux_delivers_in_order:
  assumes "rtranclp (link_step V hint process) s0 s" "link_start s0" "length (sent_cells s) \<le> MAX_CAPACITY"
    and "\<And>m. 0 \<le> process m" "\<And>c. conflux_validate_source_hop (V c) (hint c)"
  shows "got_cells s = take (length (got_cells s)) (sent_cells s) \<and>
    ((\<forall>c. wire s c = []) \<longrightarrow> got_cells s = sent_cells s)"
proof -
  have inv: "link_inv s" by (rule link_run_inv [where process = process and V = V and hint = hint, OF assms])
  then have "got_cells s = take (delivered (rx s)) (sent_cells s)" by (simp add: link_inv_def)
  then have "got_cells s = take (length (got_cells s)) (sent_cells s)" by (simp add: min_def)
  with drained_all [OF inv] show ?thesis by blast
qed

text \<open>
  C13. Conflux loses nothing: from every state the two ends can reach, the receiver can take the
  cells that are on the circuits, without closing one, and then has processed every cell sent.
\<close>

theorem conflux_delivers_everything:
  assumes "rtranclp (link_step V hint process) s0 s" "link_start s0" "length (sent_cells s) \<le> MAX_CAPACITY"
    and "\<And>m. 0 \<le> process m" "\<And>c. conflux_validate_source_hop (V c) (hint c)"
  shows "\<exists>s'. rtranclp (link_step V hint process) s s' \<and> sent_cells s' = sent_cells s \<and> got_cells s' = sent_cells s"
  by (rule drain [where process = process and V = V and hint = hint, OF _ assms(3-5)])
    (rule link_run_inv [where process = process and V = V and hint = hint, OF assms])

text \<open>
  The third scheduling algorithm cannot be used: with \<open>CONFLUX_ALG_CWNDRTT\<close> the choice of
  a circuit fails an assertion for every set that has a leg and is free to switch, because the
  assertion on the number of legs is negated.
\<close>

theorem cwndrtt_always_asserts:
  assumes "params_alg cfx = CONFLUX_ALG_CWNDRTT" "legs cfx \<noteq> []" "\<not> in_full_teardown cfx" "cells_until_switch cfx = 0"
  shows "conflux_decide_next_circ E drain_pct cfx = Stuck"
proof -
  obtain b y where y: "(if curr_leg cfx = None then conflux_pick_first_leg cfx else (True, cfx)) = (b, y)" by force
  then have "b" "params_alg y = params_alg cfx" "legs y = legs cfx" "cells_until_switch y = 0"
    using assms(2,4) by (auto simp: conflux_pick_first_leg_def split: if_splits option.splits)
  with assms(1-3) y show ?thesis
    by (simp add: conflux_decide_next_circ_def conflux_can_switch_def conflux_decide_circ_cwndrtt_def
        CONFLUX_ALG_MINRTT_def CONFLUX_ALG_LOWRTT_def CONFLUX_ALG_CWNDRTT_def)
qed

text \<open>A set of two legs on the circuits 0 and 1, and circuits that are ready to send.\<close>

definition sample_leg :: "nat \<Rightarrow> nat conflux_leg" where
  "sample_leg c = \<lparr>last_seq_recv = 0, last_seq_sent = 0, circ_rtts_usec = 100, linked_sent_usec = 0, leg_circ = c\<rparr>"

definition sample_set :: "nat \<Rightarrow> (nat, 'm) conflux" where
  "sample_set alg = \<lparr>params_alg = alg, legs = [0, 1], leg_at = sample_leg, ooo_q = pq_new (\<lambda>_. 0), last_seq_delivered = 0,
     cells_until_switch = 0, curr_leg = None, prev_leg = None, in_full_teardown = False, next_ptr = 0\<rparr>"

definition sample_view :: "nat \<Rightarrow> circ_view" where
  "sample_view c = \<lparr>is_origin = False, destination_hop = None, has_n_chan = False,
     cc_of = Some \<lparr>cc_cwnd = 100, cc_inflight = 0, cc_sendme_inc = 31, cc_in_slow_start = True\<rparr>,
     blocked_on_n_chan = False, blocked_on_p_chan = False\<rparr>"

definition sample_link :: "(nat, nat) cfx_link" where
  "sample_link = \<lparr>tx = sample_set CONFLUX_ALG_LOWRTT, rx = sample_set CONFLUX_ALG_LOWRTT, wire = (\<lambda>_. []),
     sent_cells = [], got_cells = [], rx_bytes = 0\<rparr>"

lemma sample_start: "link_start sample_link"
  by (auto simp: link_start_def sample_link_def sample_set_def sample_leg_def legs_ok_def)

lemma sample_hop: "conflux_validate_source_hop (sample_view c) None"
  by (simp add: conflux_validate_source_hop_def sample_view_def)

text \<open>One cell is sent on circuit 0.\<close>

lemma sample_sent:
  "\<exists>s. link_step sample_view (\<lambda>_. None) (\<lambda>_. 0) sample_link s \<and> sent_cells s = [7] \<and> wire s 0 = [Relay 2 7]"
proof -
  let ?x = "(sample_set CONFLUX_ALG_LOWRTT :: (nat, nat) conflux)\<lparr>curr_leg := Some 0\<rparr>"
  have rd: "circuit_ready_to_send sample_view c = Done True" for c
    by (simp add: circuit_ready_to_send_def circuit_ccontrol_def sample_view_def)
  have nx: "conflux_decide_next_circ sample_view 0 (sample_set CONFLUX_ALG_LOWRTT :: (nat, nat) conflux) = Done (Some 0, ?x)"
    by (simp add: conflux_decide_next_circ_def sample_set_def conflux_pick_first_leg_def sample_leg_def
        conflux_can_switch_def conflux_decide_circ_lowrtt_def rd CONFLUX_ALG_LOWRTT_def CONFLUX_ALG_MINRTT_def)
  have d: "conflux_decide_circ_for_send sample_view 0 (tx sample_link) 0 2 = Done (Some 0, ?x, None)"
    by (simp add: conflux_decide_circ_for_send_def conflux_should_multiplex_def sample_link_def nx)
      (simp add: sample_set_def sample_leg_def)
  have m: "conflux_should_multiplex 2" by (simp add: conflux_should_multiplex_def)
  have sc: "conflux_send_cell sample_view 0 (tx sample_link) 0 2 (7 :: nat) =
      Done (conflux_note_cell_sent ?x 0 2, [(0, Relay 2 7)])"
    by (simp add: conflux_send_cell_def m d)
  from link_step.send [where V = sample_view and hint = "\<lambda>_. None" and process = "\<lambda>_. 0", OF m d sc] show ?thesis
    by (intro exI conjI) (assumption, simp_all add: sample_link_def)
qed

lemma conflux_order_witness:
  "\<exists>s :: (nat, nat) cfx_link. sent_cells s = [7] \<and> got_cells s = take (length (got_cells s)) (sent_cells s) \<and>
    ((\<forall>c. wire s c = []) \<longrightarrow> got_cells s = sent_cells s)"
proof -
  obtain s where s: "link_step sample_view (\<lambda>_. None) (\<lambda>_. 0) sample_link s" "sent_cells s = [7]" using sample_sent by blast
  have "got_cells s = take (length (got_cells s)) (sent_cells s) \<and> ((\<forall>c. wire s c = []) \<longrightarrow> got_cells s = sent_cells s)"
    by (rule conflux_delivers_in_order [OF r_into_rtranclp [of "link_step sample_view (\<lambda>_. None) (\<lambda>_. 0)", OF s(1)] sample_start])
      (simp_all add: s(2) sample_hop MAX_CAPACITY_def INT_MAX_def)
  with s(2) show ?thesis by blast
qed

lemma conflux_everything_witness:
  "\<exists>s s' :: (nat, nat) cfx_link. wire s 0 = [Relay 2 7] \<and> rtranclp (link_step sample_view (\<lambda>_. None) (\<lambda>_. 0)) s s' \<and> got_cells s' = [7]"
proof -
  obtain s where s: "link_step sample_view (\<lambda>_. None) (\<lambda>_. 0) sample_link s" "sent_cells s = [7]" "wire s 0 = [Relay 2 7]"
    using sample_sent by blast
  have "\<exists>s'. rtranclp (link_step sample_view (\<lambda>_. None) (\<lambda>_. 0)) s s' \<and> sent_cells s' = sent_cells s \<and> got_cells s' = sent_cells s"
    by (rule conflux_delivers_everything [OF r_into_rtranclp [of "link_step sample_view (\<lambda>_. None) (\<lambda>_. 0)", OF s(1)] sample_start])
      (simp_all add: s(2) sample_hop MAX_CAPACITY_def INT_MAX_def)
  with s(2,3) show ?thesis by metis
qed

lemma cwndrtt_witness:
  "conflux_decide_next_circ sample_view 0 (sample_set CONFLUX_ALG_CWNDRTT :: (nat, nat) conflux) = Stuck"
  by (rule cwndrtt_always_asserts) (simp_all add: sample_set_def)

end
