(* ===== verification/NetParams.thy ===== *)
theory NetParams
  imports CStrings
begin

text \<open>
  Network parameters of the consensus, from \<open>src/feature/nodelist/networkstatus.c\<close>: a list of
  strings \<open>name=value\<close>. A caller that names its default and its bounds gets a number within them.
\<close>

fun find_net_param :: "string list \<Rightarrow> string \<Rightarrow> int \<Rightarrow> int" where
  "find_net_param [] param_name res = res"
| "find_net_param (p # ps) param_name res =
     (if strcmpstart p param_name = 0 \<and> length param_name < length p \<and> p ! length param_name = CHR ''=''
      then (case tor_parse_long (drop (length param_name + 1) p) (- 2147483648) 2147483647 False of
              (v, ok, _) \<Rightarrow> if ok then v else find_net_param ps param_name res)
      else find_net_param ps param_name res)"

definition get_net_param_from_list :: "string list \<Rightarrow> string \<Rightarrow> int \<Rightarrow> int \<Rightarrow> int \<Rightarrow> int outcome" where
  "get_net_param_from_list net_params param_name default_val min_val max_val =
     (if \<not> max_val > min_val \<or> \<not> min_val \<le> default_val \<or> \<not> max_val \<ge> default_val then Stuck
      else let res = find_net_param net_params param_name default_val;
               res = (if res < min_val then min_val else if res > max_val then max_val else res)
           in if \<not> res \<ge> min_val \<or> \<not> res \<le> max_val then Stuck else Done res)"

text \<open>\<open>None\<close> for no consensus, or one without parameters.\<close>

definition networkstatus_get_param :: "string list option \<Rightarrow> string \<Rightarrow> int \<Rightarrow> int \<Rightarrow> int \<Rightarrow> int outcome" where
  "networkstatus_get_param ns param_name default_val min_val max_val =
     (case ns of
        None \<Rightarrow> Done default_val
      | Some net_params \<Rightarrow> get_net_param_from_list net_params param_name default_val min_val max_val)"

lemma net_param_in_bounds:
  assumes "min_val < max_val" "min_val \<le> default_val" "default_val \<le> max_val"
  shows "\<exists>v. networkstatus_get_param ns name default_val min_val max_val = Done v \<and> min_val \<le> v \<and> v \<le> max_val"
  using assms by (cases ns) (auto simp: networkstatus_get_param_def get_net_param_from_list_def Let_def)

end
