(* ===== verification/CongestionControl.thy ===== *)
theory CongestionControl
  imports Conflux NetParams Extension
begin

text \<open>
  Congestion control of a circuit: the round-trip and bandwidth-delay estimates of
  \<open>src/core/or/congestion_control_common.c\<close> and the Vegas window of
  \<open>src/core/or/congestion_control_vegas.c\<close>. The numbers are words of the fields' widths, so that
  assignments truncate and sums wrap as in the code; the clock and the state of the channel's
  queue are arguments. Statistics for the metrics port are left out, but not the divisions that
  computing them, or a log line, evaluates. \<open>g_reports\<close> counts the nonfatal assertions that failed.
\<close>

section \<open>State\<close>

record vegas_params =
  ss_cwnd_cap :: u32
  ss_cwnd_max :: u32
  gamma :: u16
  alpha :: u16
  beta :: u16
  delta :: u16

text \<open>The fields of \<open>congestion_control_t\<close> behind those conflux reads.\<close>

record congestion_control = ccontrol +
  sendme_pending_timestamps :: "u64 list"
  ewma_rtt_usec :: u64
  min_rtt_usec :: u64
  max_rtt_usec :: u64
  bdp :: u64
  next_cc_event :: u16
  next_cwnd_event :: u16
  cwnd_full :: bool
  blocked_chan :: bool
  cwnd_inc_pct_ss :: u16
  cwnd_inc :: u16
  cwnd_min :: u16
  cwnd_inc_rate :: byte
  cc_alg :: nat
  vegas :: vegas_params

text \<open>The module's static variables, cached from the consensus.\<close>

record cc_globals =
  g_cell_queue_high :: int
  g_cell_queue_low :: int
  g_or_conn_highwater :: u32
  g_or_conn_lowwater :: u32
  g_bwe_sendme_min :: byte
  g_cwnd_max :: u32
  g_rtt_reset_pct :: byte
  g_cc_sendme_inc :: byte
  g_cc_alg :: nat
  g_n_ewma_cwnd_pct :: byte
  g_n_ewma_max :: byte
  g_n_ewma_ss :: byte
  g_cwnd_full_gap :: nat
  g_cwnd_full_minpct :: nat
  g_cwnd_full_per_cwnd :: bool
  g_clock_broken :: bool
  g_reports :: nat

definition report :: "bool \<Rightarrow> cc_globals \<Rightarrow> cc_globals" where
  "report bug G = (if bug then G\<lparr>g_reports := Suc (g_reports G)\<rparr> else G)"

definition CELL_MAX_NETWORK_SIZE :: int where "CELL_MAX_NETWORK_SIZE = 2053"
definition TLS_RECORD_MAX_CELLS :: int where "TLS_RECORD_MAX_CELLS = 16 * 1024 div CELL_MAX_NETWORK_SIZE"
definition SENDME_INC_DFLT :: int where "SENDME_INC_DFLT = TLS_RECORD_MAX_CELLS"
definition CIRCWINDOW_INIT :: int where "CIRCWINDOW_INIT = 4 * SENDME_INC_DFLT"
definition OUTBUF_CELLS :: int where "OUTBUF_CELLS = 2 * TLS_RECORD_MAX_CELLS"

definition CC_ALG_SENDME :: nat where "CC_ALG_SENDME = 0"
definition CC_ALG_VEGAS :: nat where "CC_ALG_VEGAS = 2"
definition INT32_MAX :: int where "INT32_MAX = 2147483647"

lemmas cc_consts = CELL_MAX_NETWORK_SIZE_def TLS_RECORD_MAX_CELLS_def SENDME_INC_DFLT_def CIRCWINDOW_INIT_def
  OUTBUF_CELLS_def CC_ALG_SENDME_def CC_ALG_VEGAS_def INT32_MAX_def

section \<open>Parameters of the consensus\<close>

text \<open>An \<open>int32_t\<close> that is stored in a narrower field keeps its low bits.\<close>

definition congestion_control_new_consensus_params :: "string list option \<Rightarrow> cc_globals \<Rightarrow> cc_globals outcome" where
  "congestion_control_new_consensus_params ns G =
     (let param = networkstatus_get_param ns in
      obind (param ''cellq_high'' 256 1 1000) (\<lambda>qh.
      obind (param ''cellq_low'' 10 1 1000) (\<lambda>ql.
      obind (param ''orconn_high'' (32 * 1024) (int CELL_PAYLOAD_SIZE) INT32_MAX) (\<lambda>oh.
      obind (param ''orconn_low'' (16 * 1024) (int CELL_PAYLOAD_SIZE) INT32_MAX) (\<lambda>ol.
      obind (param ''cc_cwnd_max'' INT32_MAX 500 INT32_MAX) (\<lambda>mx.
      obind (param ''cc_rtt_reset_pct'' 100 0 100) (\<lambda>pct.
      obind (param ''cc_sendme_inc'' SENDME_INC_DFLT 1 254) (\<lambda>inc.
      obind (param ''cc_alg'' (int CC_ALG_VEGAS) 0 3) (\<lambda>alg.
      obind (param ''cc_bwe_min'' 5 2 20) (\<lambda>bwe.
      obind (param ''cc_ewma_cwnd_pct'' 50 1 255) (\<lambda>epct.
      obind (param ''cc_ewma_max'' 10 2 INT32_MAX) (\<lambda>emax.
      obind (param ''cc_ewma_ss'' 2 2 INT32_MAX) (\<lambda>ess.
        let alg = nat alg in
        Done (G\<lparr>g_cell_queue_high := qh, g_cell_queue_low := ql, g_or_conn_highwater := of_int oh,
          g_or_conn_lowwater := of_int ol, g_bwe_sendme_min := of_int bwe, g_cwnd_max := of_int mx, g_rtt_reset_pct := of_int pct, g_cc_sendme_inc := of_int inc,
          g_cc_alg := (if alg \<noteq> CC_ALG_SENDME \<and> alg \<noteq> CC_ALG_VEGAS then CC_ALG_VEGAS else alg),
          g_n_ewma_cwnd_pct := of_int epct, g_n_ewma_max := of_int emax, g_n_ewma_ss := of_int ess\<rparr>))))))))))))))"

datatype cc_path = CC_PATH_EXIT | CC_PATH_ONION | CC_PATH_ONION_SOS | CC_PATH_ONION_VG | CC_PATH_SBWS

text \<open>The names of the parameters, and their defaults, by the kind of path.\<close>

fun vegas_names :: "cc_path \<Rightarrow> string" where
  "vegas_names CC_PATH_SBWS = ''sbws''"
| "vegas_names CC_PATH_EXIT = ''exit''"
| "vegas_names CC_PATH_ONION_SOS = ''exit''"
| "vegas_names CC_PATH_ONION = ''onion''"
| "vegas_names CC_PATH_ONION_VG = ''onion''"

fun vegas_defaults :: "cc_path \<Rightarrow> int \<times> int \<times> int \<times> int \<times> int" where
  "vegas_defaults CC_PATH_SBWS =
     (2 * OUTBUF_CELLS - TLS_RECORD_MAX_CELLS, 2 * OUTBUF_CELLS + TLS_RECORD_MAX_CELLS, 2 * OUTBUF_CELLS,
      4 * OUTBUF_CELLS, 400)"
| "vegas_defaults CC_PATH_EXIT = (3 * OUTBUF_CELLS, 4 * OUTBUF_CELLS, 3 * OUTBUF_CELLS, 5 * OUTBUF_CELLS, 600)"
| "vegas_defaults CC_PATH_ONION_SOS = (3 * OUTBUF_CELLS, 4 * OUTBUF_CELLS, 3 * OUTBUF_CELLS, 5 * OUTBUF_CELLS, 600)"
| "vegas_defaults CC_PATH_ONION = (3 * OUTBUF_CELLS, 6 * OUTBUF_CELLS, 4 * OUTBUF_CELLS, 7 * OUTBUF_CELLS, 475)"
| "vegas_defaults CC_PATH_ONION_VG = (3 * OUTBUF_CELLS, 6 * OUTBUF_CELLS, 4 * OUTBUF_CELLS, 7 * OUTBUF_CELLS, 475)"

definition congestion_control_vegas_set_params ::
  "string list option \<Rightarrow> cc_globals \<Rightarrow> congestion_control \<Rightarrow> cc_path \<Rightarrow> (congestion_control \<times> cc_globals) outcome" where
  "congestion_control_vegas_set_params ns G cc path =
     (if cc_alg cc \<noteq> CC_ALG_VEGAS then Stuck
      else case vegas_defaults path of (al, be, ga, de, cap) \<Rightarrow>
        let param = networkstatus_get_param ns; sfx = vegas_names path in
        obind (param (''cc_sscap_'' @ sfx) cap 100 INT32_MAX) (\<lambda>v_cap.
        obind (param ''cc_ss_max'' 5000 500 INT32_MAX) (\<lambda>v_max.
        obind (param (''cc_vegas_alpha_'' @ sfx) al 0 1000) (\<lambda>v_alpha.
        obind (param (''cc_vegas_beta_'' @ sfx) be 0 1000) (\<lambda>v_beta.
        obind (param (''cc_vegas_gamma_'' @ sfx) ga 0 1000) (\<lambda>v_gamma.
        obind (param (''cc_vegas_delta_'' @ sfx) de 0 INT32_MAX) (\<lambda>v_delta.
        obind (param ''cc_cwnd_full_minpct'' 25 0 100) (\<lambda>minpct.
        obind (param ''cc_cwnd_full_gap'' 4 0 32767) (\<lambda>gap.
        obind (param ''cc_cwnd_full_per_cwnd'' 1 0 1) (\<lambda>per.
          Done (cc\<lparr>vegas := \<lparr>ss_cwnd_cap = of_int v_cap, ss_cwnd_max = of_int v_max, gamma = of_int v_gamma,
                             alpha = of_int v_alpha, beta = of_int v_beta, delta = of_int v_delta\<rparr>\<rparr>,
                G\<lparr>g_cwnd_full_minpct := nat minpct, g_cwnd_full_gap := nat gap, g_cwnd_full_per_cwnd := per \<noteq> 0\<rparr>)))))))))))"

text \<open>\<open>AlwaysCongestionControl\<close> of the options is the argument \<open>always\<close>.\<close>

definition congestion_control_init_params ::
  "string list option \<Rightarrow> bool \<Rightarrow> cc_globals \<Rightarrow> congestion_control \<Rightarrow> circuit_params \<Rightarrow> cc_path \<Rightarrow>
     (congestion_control \<times> cc_globals) outcome" where
  "congestion_control_init_params ns always G cc params path =
     (let param = networkstatus_get_param ns in
      obind (param ''cc_cwnd_init'' CIRCWINDOW_INIT SENDME_INC_DFLT 10000) (\<lambda>v_init.
      obind (param ''cc_cwnd_inc_pct_ss'' 100 1 500) (\<lambda>v_pct.
      obind (param ''cc_cwnd_inc'' 1 1 1000) (\<lambda>v_inc.
      obind (param ''cc_cwnd_inc_rate'' SENDME_INC_DFLT 1 250) (\<lambda>v_rate.
      obind (param ''cc_cwnd_min'' CIRCWINDOW_INIT SENDME_INC_DFLT 1000) (\<lambda>v_min.
        let cc = cc\<lparr>cc_sendme_inc := sendme_inc_cells params, cc_cwnd := of_int v_init, cwnd_inc_pct_ss := of_int v_pct,
                   cwnd_inc := of_int v_inc, cwnd_inc_rate := of_int v_rate, cwnd_min := of_int v_min,
                   cc_alg := (if g_cc_alg G = CC_ALG_SENDME \<and> always then CC_ALG_VEGAS else g_cc_alg G)\<rparr>
        in if cc_alg cc = CC_ALG_VEGAS then congestion_control_vegas_set_params ns G cc path
           else Done (cc, G)))))))"

section \<open>Rates\<close>

text \<open>\<open>cwnd_inc_rate * sendme_inc\<close> is an \<open>int\<close>; a zero divisor is no defined behaviour.\<close>

definition CWND_UPDATE_RATE :: "congestion_control \<Rightarrow> u64 outcome" where
  "CWND_UPDATE_RATE cc =
     (if cc_in_slow_start cc then Done 1
      else let d = unat (cwnd_inc_rate cc) * unat (cc_sendme_inc cc)
           in if d = 0 then Stuck else Done ((cc_cwnd cc + of_nat (d div 2)) div of_nat d))"

definition SENDME_PER_CWND :: "congestion_control \<Rightarrow> u64 outcome" where
  "SENDME_PER_CWND cc =
     (if cc_sendme_inc cc = 0 then Stuck
      else Done ((cc_cwnd cc + ucast (cc_sendme_inc cc div 2)) div ucast (cc_sendme_inc cc)))"

definition congestion_control_init ::
  "string list option \<Rightarrow> bool \<Rightarrow> cc_globals \<Rightarrow> congestion_control \<Rightarrow> circuit_params \<Rightarrow> cc_path \<Rightarrow>
     (congestion_control \<times> cc_globals) outcome" where
  "congestion_control_init ns always G cc params path =
     obind (congestion_control_init_params ns always G
              (cc\<lparr>sendme_pending_timestamps := [], cc_in_slow_start := True\<rparr>) params path) (\<lambda>(cc, G).
     obind (CWND_UPDATE_RATE cc) (\<lambda>r. Done (cc\<lparr>next_cc_event := ucast r\<rparr>, G)))"

section \<open>Estimates\<close>

definition n_count_ewma :: "u64 \<Rightarrow> u64 \<Rightarrow> u64 \<Rightarrow> u64 outcome" where
  "n_count_ewma cur prev n =
     (if prev = 0 then Done cur
      else if n + 1 = 0 then Stuck else Done ((2 * cur + (n - 1) * prev) div (n + 1)))"

definition percent_max_mix :: "u64 \<Rightarrow> u64 \<Rightarrow> byte \<Rightarrow> u64" where
  "percent_max_mix a b pct_max =
     (let mx = max a b; mn = min a b
      in if pct_max > 100 then mx
         else ucast pct_max * mx div 100 + of_nat (100 - unat pct_max) * mn div 100)"

definition n_ewma_count :: "cc_globals \<Rightarrow> congestion_control \<Rightarrow> u64 outcome" where
  "n_ewma_count G cc =
     obind (if cc_in_slow_start cc then Done (ucast (g_n_ewma_ss G))
            else obind (CWND_UPDATE_RATE cc) (\<lambda>r.
                   Done (min (r * ucast (g_n_ewma_cwnd_pct G) div 100) (ucast (g_n_ewma_max G)))))
       (\<lambda>ewma_cnt. Done (max ewma_cnt 2))"

text \<open>A list without timestamps has a null pointer at its start, which is reported.\<close>

definition enqueue_timestamp :: "u64 list \<Rightarrow> u64 \<Rightarrow> u64 list" where
  "enqueue_timestamp timestamps t = timestamps @ [t]"

definition dequeue_timestamp :: "cc_globals \<Rightarrow> u64 list \<Rightarrow> u64 \<times> u64 list \<times> cc_globals" where
  "dequeue_timestamp G timestamps =
     (case timestamps of
        [] \<Rightarrow> (0, [], report True G)
      | t # ts \<Rightarrow> (t, ts, G))"

definition time_delta_should_use_heuristics :: "congestion_control \<Rightarrow> bool" where
  "time_delta_should_use_heuristics cc = (\<not> cc_in_slow_start cc \<and> ewma_rtt_usec cc \<noteq> 0)"

definition DELTA_DISCREPENCY_RATIO_MAX :: u64 where "DELTA_DISCREPENCY_RATIO_MAX = 5000"

definition time_delta_stalled_or_jumped ::
  "cc_globals \<Rightarrow> congestion_control \<Rightarrow> u64 \<Rightarrow> u64 \<Rightarrow> bool \<times> cc_globals" where
  "time_delta_stalled_or_jumped G cc old_delta new_delta =
     (if new_delta = 0 then (True, G\<lparr>g_clock_broken := True\<rparr>)
      else if \<not> time_delta_should_use_heuristics cc then (False, G)
      else if old_delta > new_delta * DELTA_DISCREPENCY_RATIO_MAX then (g_clock_broken G, G)
      else if new_delta > old_delta * DELTA_DISCREPENCY_RATIO_MAX then (True, G)
      else (False, G\<lparr>g_clock_broken := False\<rparr>))"

definition congestion_control_update_circuit_rtt ::
  "cc_globals \<Rightarrow> congestion_control \<Rightarrow> u64 \<Rightarrow> (u64 \<times> congestion_control \<times> cc_globals) outcome" where
  "congestion_control_update_circuit_rtt G cc now_usec =
     (case dequeue_timestamp G (sendme_pending_timestamps cc) of (sent_at_timestamp, ts, G) \<Rightarrow>
        let cc = cc\<lparr>sendme_pending_timestamps := ts\<rparr>; rtt = now_usec - sent_at_timestamp
        in case time_delta_stalled_or_jumped G cc (ewma_rtt_usec cc) rtt of (stalled, G) \<Rightarrow>
          if stalled then Done (0, cc, G)
          else obind (n_ewma_count G cc) (\<lambda>ewma_cnt.
               obind (n_count_ewma rtt (ewma_rtt_usec cc) ewma_cnt) (\<lambda>ewma.
                 let cc = cc\<lparr>ewma_rtt_usec := ewma\<rparr>;
                     cc = (if rtt > max_rtt_usec cc then cc\<lparr>max_rtt_usec := rtt\<rparr> else cc);
                     cc = (if min_rtt_usec cc = 0 then cc\<lparr>min_rtt_usec := ewma_rtt_usec cc\<rparr>
                           else if cc_cwnd cc = ucast (cwnd_min cc) \<and> \<not> cc_in_slow_start cc
                           then cc\<lparr>min_rtt_usec := percent_max_mix (ewma_rtt_usec cc) (min_rtt_usec cc) (g_rtt_reset_pct G)\<rparr>
                           else if ewma_rtt_usec cc < min_rtt_usec cc then cc\<lparr>min_rtt_usec := ewma_rtt_usec cc\<rparr>
                           else cc)
                 in Done (rtt, cc, G))))"

text \<open>
  \<open>chan_q\<close> cells wait in the channel's queue for this circuit, and \<open>blocked\<close> says that it is full.
  \<open>chan_q\<close> is an \<open>int\<close>, converted to 64 bits where it meets the window.
\<close>

definition congestion_control_update_circuit_bdp ::
  "cc_globals \<Rightarrow> congestion_control \<Rightarrow> int \<Rightarrow> bool \<Rightarrow> u64 \<Rightarrow> bool \<times> congestion_control \<times> cc_globals" where
  "congestion_control_update_circuit_bdp G cc chan_q blocked curr_rtt_usec =
     (if ewma_rtt_usec cc = 0 then
        (let cwnd = (if blocked
                     then if chan_q \<ge> sint (cc_cwnd cc) then ucast (cwnd_min cc)
                          else max (cc_cwnd cc - of_int chan_q) (ucast (cwnd_min cc))
                     else cc_cwnd cc)
         in (blocked, cc\<lparr>blocked_chan := blocked, bdp := cwnd\<rparr>,
             report (\<not> cc_cwnd cc \<le> ucast (g_cwnd_max G)) G))
      else
        let cc = cc\<lparr>bdp := cc_cwnd cc * min_rtt_usec cc div ewma_rtt_usec cc\<rparr>;
            cc = (if blocked
                  then (if \<not> blocked_chan cc then cc\<lparr>next_cc_event := 0, blocked_chan := True\<rparr> else cc)
                  else (if blocked_chan cc then cc\<lparr>blocked_chan := False, next_cc_event := 0\<rparr> else cc))
        in (blocked \<or> curr_rtt_usec \<noteq> 0, cc, G))"

text \<open>What a circuit shows of its queue and of the clock.\<close>

record queue_view =
  now_usec :: u64
  chan_queue :: int
  chan_blocked :: bool

definition congestion_control_update_circuit_estimates ::
  "cc_globals \<Rightarrow> congestion_control \<Rightarrow> queue_view \<Rightarrow> (bool \<times> congestion_control \<times> cc_globals) outcome" where
  "congestion_control_update_circuit_estimates G cc q =
     obind (congestion_control_update_circuit_rtt G cc (now_usec q)) (\<lambda>(curr_rtt_usec, cc, G).
       Done (congestion_control_update_circuit_bdp G cc (chan_queue q) (chan_blocked q) curr_rtt_usec))"

section \<open>Vegas\<close>

definition vegas_bdp :: "congestion_control \<Rightarrow> u64" where "vegas_bdp cc = bdp cc"

definition rfc3742_ss_inc :: "congestion_control \<Rightarrow> u64 outcome" where
  "rfc3742_ss_inc cc =
     (if cc_cwnd cc \<le> ucast (ss_cwnd_cap (vegas cc))
      then Done ((ucast (cwnd_inc_pct_ss cc) * ucast (cc_sendme_inc cc) + 50) div 100)
      else if 2 * cc_cwnd cc = 0 then Stuck
      else Done (max ((ucast (cc_sendme_inc cc) * ucast (ss_cwnd_cap (vegas cc)) + cc_cwnd cc) div (2 * cc_cwnd cc)) 1))"

text \<open>
  The arguments of \<open>log_info\<close> are evaluated whatever the log level, and one of them divides by
  the larger of the two estimates.
\<close>

definition congestion_control_vegas_log :: "congestion_control \<Rightarrow> unit outcome" where
  "congestion_control_vegas_log cc =
     (if max (min_rtt_usec cc) (ewma_rtt_usec cc) = 0 then Stuck else Done ())"

text \<open>The last step is the division behind the average of the increments.\<close>

definition congestion_control_vegas_exit_slow_start :: "congestion_control \<Rightarrow> congestion_control outcome" where
  "congestion_control_vegas_exit_slow_start cc =
     obind (congestion_control_vegas_log cc) (\<lambda>_.
       let cc = cc\<lparr>cc_in_slow_start := False\<rparr>
       in obind (congestion_control_vegas_log cc) (\<lambda>_.
          obind (rfc3742_ss_inc cc) (\<lambda>_. Done cc)))"

definition cwnd_became_full :: "cc_globals \<Rightarrow> congestion_control \<Rightarrow> bool" where
  "cwnd_became_full G cc \<longleftrightarrow>
     cc_inflight cc + of_nat (g_cwnd_full_gap G * unat (cc_sendme_inc cc)) \<ge> cc_cwnd cc"

definition cwnd_became_nonfull :: "cc_globals \<Rightarrow> congestion_control \<Rightarrow> bool" where
  "cwnd_became_nonfull G cc \<longleftrightarrow> 100 * cc_inflight cc < of_nat (g_cwnd_full_minpct G) * cc_cwnd cc"

definition cwnd_full_reset :: "cc_globals \<Rightarrow> congestion_control \<Rightarrow> bool outcome" where
  "cwnd_full_reset G cc =
     (if g_cwnd_full_per_cwnd G then obind (SENDME_PER_CWND cc) (\<lambda>r. Done (ucast (next_cwnd_event cc) = r))
      else obind (CWND_UPDATE_RATE cc) (\<lambda>r. Done (ucast (next_cc_event cc) = r)))"

text \<open>The step of the window in slow start, and afterwards.\<close>

definition vegas_slow_start :: "congestion_control \<Rightarrow> u64 \<Rightarrow> congestion_control outcome" where
  "vegas_slow_start cc queue_use =
     obind
       (if queue_use < ucast (gamma (vegas cc)) \<and> \<not> blocked_chan cc
        then if cwnd_full cc
             then obind (rfc3742_ss_inc cc) (\<lambda>inc.
                  let cc = cc\<lparr>cc_cwnd := cc_cwnd cc + inc\<rparr>
                  in obind (SENDME_PER_CWND cc) (\<lambda>n.
                     if inc * n \<le> of_nat (unat (cwnd_inc cc) * unat (cwnd_inc_rate cc))
                     then congestion_control_vegas_exit_slow_start cc else Done cc))
             else Done cc
        else congestion_control_vegas_exit_slow_start (cc\<lparr>cc_cwnd := vegas_bdp cc + ucast (gamma (vegas cc))\<rparr>))
       (\<lambda>cc. if cc_cwnd cc \<ge> ucast (ss_cwnd_max (vegas cc))
             then congestion_control_vegas_exit_slow_start (cc\<lparr>cc_cwnd := ucast (ss_cwnd_max (vegas cc))\<rparr>)
             else Done cc)"

definition vegas_steady_state :: "congestion_control \<Rightarrow> u64 \<Rightarrow> congestion_control outcome" where
  "vegas_steady_state cc queue_use =
     (let inc = ucast (cwnd_inc cc);
          cwnd = (if queue_use > ucast (delta (vegas cc)) then vegas_bdp cc + ucast (delta (vegas cc)) - inc
                  else if queue_use > ucast (beta (vegas cc)) \<or> blocked_chan cc then cc_cwnd cc - inc
                  else if cwnd_full cc \<and> queue_use < ucast (alpha (vegas cc)) then cc_cwnd cc + inc
                  else cc_cwnd cc);
          cc = cc\<lparr>cc_cwnd := max cwnd (ucast (cwnd_min cc))\<rparr>
      in obind (congestion_control_vegas_log cc) (\<lambda>_. Done cc))"

text \<open>The blocks of the update: counters down, the mark of a full window, counters set again.\<close>

definition vegas_count_down :: "congestion_control \<Rightarrow> congestion_control" where
  "vegas_count_down cc =
     (let cc = (if next_cc_event cc \<noteq> 0 then cc\<lparr>next_cc_event := next_cc_event cc - 1\<rparr> else cc)
      in if next_cwnd_event cc \<noteq> 0 then cc\<lparr>next_cwnd_event := next_cwnd_event cc - 1\<rparr> else cc)"

definition vegas_mark_full :: "cc_globals \<Rightarrow> congestion_control \<Rightarrow> congestion_control" where
  "vegas_mark_full G cc =
     (if cwnd_became_full G cc then cc\<lparr>cwnd_full := True\<rparr>
      else if cwnd_became_nonfull G cc then cc\<lparr>cwnd_full := False\<rparr> else cc)"

definition vegas_rearm :: "cc_globals \<Rightarrow> congestion_control \<Rightarrow> congestion_control outcome" where
  "vegas_rearm G cc =
     obind (if next_cwnd_event cc = 0
            then obind (SENDME_PER_CWND cc) (\<lambda>n. Done (cc\<lparr>next_cwnd_event := ucast n\<rparr>))
            else Done cc) (\<lambda>cc.
     obind (if next_cc_event cc = 0
            then obind (CWND_UPDATE_RATE cc) (\<lambda>n. Done (cc\<lparr>next_cc_event := ucast n\<rparr>))
            else Done cc) (\<lambda>cc.
     obind (cwnd_full_reset G cc) (\<lambda>reset.
       Done (if reset then cc\<lparr>cwnd_full := False\<rparr> else cc))))"

definition congestion_control_vegas_process_sendme ::
  "cc_globals \<Rightarrow> congestion_control \<Rightarrow> queue_view \<Rightarrow> (congestion_control \<times> cc_globals) outcome" where
  "congestion_control_vegas_process_sendme G cc q =
     (if cc_alg cc \<noteq> CC_ALG_VEGAS then Stuck
      else obind (congestion_control_update_circuit_estimates G (vegas_count_down cc) q) (\<lambda>(ok, cc, G).
          if \<not> ok then Done (cc\<lparr>cc_inflight := cc_inflight cc - ucast (cc_sendme_inc cc)\<rparr>, G)
          else
            let queue_use = (if vegas_bdp cc > cc_cwnd cc then 0 else cc_cwnd cc - vegas_bdp cc);
                cc = vegas_mark_full G cc
            in obind (if cc_in_slow_start cc then vegas_slow_start cc queue_use
                      else if next_cc_event cc = 0 then vegas_steady_state cc queue_use
                      else Done cc) (\<lambda>cc.
               obind (vegas_rearm G cc) (\<lambda>cc.
                 Done (cc\<lparr>cc_inflight := cc_inflight cc - ucast (cc_sendme_inc cc)\<rparr>, G)))))"

text \<open>The conflux set of the circuit, when it has one, is told the new round-trip time.\<close>

definition congestion_control_dispatch_cc_alg ::
  "cc_globals \<Rightarrow> congestion_control \<Rightarrow> queue_view \<Rightarrow> ('c, 'm) conflux option \<Rightarrow> 'c \<Rightarrow>
     (congestion_control \<times> cc_globals \<times> ('c, 'm) conflux option) outcome" where
  "congestion_control_dispatch_cc_alg G cc q cfx circ =
     obind (congestion_control_vegas_process_sendme G cc q) (\<lambda>(cc, G).
       let cc = (if cc_cwnd cc > ucast (g_cwnd_max G) then cc\<lparr>cc_cwnd := ucast (g_cwnd_max G)\<rparr> else cc);
           cfx = (case cfx of
                    Some s \<Rightarrow> if ewma_rtt_usec cc \<noteq> 0 then Some (conflux_update_rtt s circ (ewma_rtt_usec cc)) else Some s
                  | None \<Rightarrow> None)
       in Done (cc, G, cfx))"

section \<open>The state stays sound\<close>

definition cc_ok :: "cc_globals \<Rightarrow> congestion_control \<Rightarrow> bool" where
  "cc_ok G cc \<longleftrightarrow> cc_alg cc = CC_ALG_VEGAS \<and> cc_sendme_inc cc \<noteq> 0 \<and> cwnd_inc_rate cc \<noteq> 0 \<and>
     cc_cwnd cc \<le> 2147483647 \<and> g_cwnd_max G \<le> 2147483647"

text \<open>What processing a SENDME leaves alone.\<close>

definition same_params :: "congestion_control \<Rightarrow> congestion_control \<Rightarrow> bool" where
  "same_params cc cc' \<longleftrightarrow> cc_alg cc' = cc_alg cc \<and> cc_sendme_inc cc' = cc_sendme_inc cc \<and>
     cwnd_inc_rate cc' = cwnd_inc_rate cc \<and> cwnd_min cc' = cwnd_min cc \<and> vegas cc' = vegas cc \<and>
     cwnd_inc cc' = cwnd_inc cc \<and> cwnd_inc_pct_ss cc' = cwnd_inc_pct_ss cc"

lemma same_params_refl [simp]: "same_params cc cc"
  by (simp add: same_params_def)

lemma rates_defined:
  "cc_sendme_inc cc \<noteq> 0 \<Longrightarrow> cwnd_inc_rate cc \<noteq> 0 \<Longrightarrow> \<exists>r. CWND_UPDATE_RATE cc = Done r"
  "cc_sendme_inc cc \<noteq> 0 \<Longrightarrow> \<exists>r. SENDME_PER_CWND cc = Done r"
  by (auto simp: CWND_UPDATE_RATE_def SENDME_PER_CWND_def unat_eq_0 Let_def)

lemma ucast_byte_le: "(ucast (b :: byte) :: u64) \<le> 255"
proof -
  have "unat b < 2 ^ LENGTH(8)" by (rule unsigned_less)
  then have "unat (ucast b :: u64) \<le> 255" by (simp add: unsigned_ucast_eq take_bit_nat_eq_self)
  then show ?thesis by (simp add: word_le_nat_alt)
qed

lemma n_ewma_count_defined:
  assumes "cc_sendme_inc cc \<noteq> 0" "cwnd_inc_rate cc \<noteq> 0"
  shows "\<exists>n. n_ewma_count G cc = Done n \<and> 2 \<le> n \<and> n \<le> 255"
proof -
  have m: "max x 2 \<le> 255" if "x \<le> 255" for x :: u64 using that by (simp add: max_def)
  obtain r where "CWND_UPDATE_RATE cc = Done r" using rates_defined(1) [OF assms] by blast
  moreover have "min x (ucast (g_n_ewma_max G)) \<le> (255 :: u64)" for x
    using ucast_byte_le [of "g_n_ewma_max G"] by (auto simp: min_def)
  ultimately show ?thesis
    using m [OF ucast_byte_le] m by (auto simp: n_ewma_count_def)
qed

lemma n_count_ewma_defined: "n \<le> 255 \<Longrightarrow> \<exists>e. n_count_ewma cur prev n = Done e"
proof -
  assume "n \<le> 255"
  then have "unat n \<le> 255" by (simp add: word_le_nat_alt)
  then have "unat (n + 1) = unat n + 1" by (simp add: unat_word_ariths)
  then have "n + 1 \<noteq> 0" by auto
  then show ?thesis by (simp add: n_count_ewma_def)
qed

text \<open>
  A clock that moves: the SENDME comes later than the cell it answers, by less than \<open>2 ^ 32\<close>
  microseconds (71 minutes), and so did those that the estimates are made of.
\<close>

definition clock_sane :: "congestion_control \<Rightarrow> u64 \<Rightarrow> bool" where
  "clock_sane cc now \<longleftrightarrow>
     (case sendme_pending_timestamps cc of [] \<Rightarrow> False | t # _ \<Rightarrow> now - t \<noteq> 0 \<and> unat (now - t) < 2 ^ 32) \<and>
     unat (ewma_rtt_usec cc) < 2 ^ 32 \<and> unat (min_rtt_usec cc) < 2 ^ 32"

definition timed :: "congestion_control \<Rightarrow> bool" where
  "timed cc \<longleftrightarrow> ewma_rtt_usec cc \<noteq> 0 \<and> unat (ewma_rtt_usec cc) < 2 ^ 32 \<and> unat (min_rtt_usec cc) < 2 ^ 32"

text \<open>A call that returns a value with \<open>Q\<close>, or, unless \<open>live\<close>, does not return.\<close>

definition gives :: "bool \<Rightarrow> ('a \<Rightarrow> bool) \<Rightarrow> 'a outcome \<Rightarrow> bool" where
  "gives live Q r = (case r of Done x \<Rightarrow> Q x | Fail \<Rightarrow> False | Stuck \<Rightarrow> \<not> live)"

lemma gives_simps [simp]:
  "gives live Q (Done x) = Q x" "gives live Q Fail = False" "gives live Q Stuck = (\<not> live)"
  by (simp_all add: gives_def)

lemma gives_bind:
  "gives live Q r \<Longrightarrow> (\<And>x. Q x \<Longrightarrow> gives live R (f x)) \<Longrightarrow> gives live R (obind r f)"
  by (cases r) simp_all

lemma gives_mono: "gives live Q r \<Longrightarrow> (\<And>x. Q x \<Longrightarrow> R x) \<Longrightarrow> (live' \<Longrightarrow> live) \<Longrightarrow> gives live' R r"
  by (cases r) auto

lemma sat_sum_unat:
  fixes a b :: "'a::len word"
  shows "unat a + unat b < 2 ^ LENGTH('a) \<Longrightarrow> unat (a + b) = unat a + unat b"
  by (simp add: unat_add_lem)

text \<open>The round-trip estimate lies between the old estimate and the new measurement.\<close>

theorem ewma_between:
  assumes "2 \<le> n" "n \<le> 255" "cur \<le> 2 ^ 48" "prev \<le> 2 ^ 48" "prev \<noteq> 0"
  shows "\<exists>e. n_count_ewma cur prev n = Done e \<and> min cur prev \<le> e \<and> e \<le> max cur prev"
proof -
  let ?n = "unat n" and ?c = "unat cur" and ?p = "unat prev"
  have r: "2 \<le> ?n" "?n \<le> 255" "?c \<le> 2 ^ 48" "?p \<le> 2 ^ 48"
    using assms by (simp_all add: word_le_nat_alt)
  have n1: "unat (n + 1) = ?n + 1" using r by (simp add: unat_word_ariths)
  have m1: "unat (n - 1) = ?n - 1" using assms(1) r by (subst unat_sub) (simp_all add: word_le_nat_alt)
  have "(?n - 1) * ?p \<le> 254 * 2 ^ 48" using r by (intro mult_le_mono) simp_all
  then have s: "unat (2 * cur + (n - 1) * prev) = 2 * ?c + (?n - 1) * ?p"
    using r m1 by (simp add: unat_word_ariths)
  let ?e = "(2 * cur + (n - 1) * prev) div (n + 1)"
  have e: "unat ?e = (2 * ?c + (?n - 1) * ?p) div (?n + 1)" by (simp add: unat_div s n1)
  obtain k where k: "?n = k + 2" using r(1) by (metis add.commute le_Suc_ex)
  have lo: "min ?c ?p * (k + 3) \<le> 2 * ?c + (k + 1) * ?p"
  proof (cases "?c \<le> ?p")
    case True
    then show ?thesis using mult_le_mono2 [OF True, of "k + 1"] by (simp add: algebra_simps)
  qed (simp add: algebra_simps)
  have hi: "2 * ?c + (k + 1) * ?p \<le> max ?c ?p * (k + 3)"
  proof (cases "?p \<le> ?c")
    case True
    then show ?thesis using mult_le_mono2 [OF True, of "k + 1"] by (simp add: algebra_simps)
  qed (simp add: algebra_simps)
  have e': "unat ?e = (2 * ?c + (k + 1) * ?p) div (k + 3)" using e unfolding k by (simp add: add.commute)
  have "min ?c ?p \<le> unat ?e" "unat ?e \<le> max ?c ?p"
    using div_le_mono [OF lo, of "k + 3"] div_le_mono [OF hi, of "k + 3"] unfolding e' by simp_all
  moreover have "n + 1 \<noteq> 0" using n1 by auto
  ultimately show ?thesis
    using assms(5) by (auto simp: n_count_ewma_def word_le_nat_alt min_def max_def split: if_splits)
qed

lemma n_count_ewma_timed:
  assumes "2 \<le> n" "n \<le> 255" "cur \<noteq> 0" "unat cur < 2 ^ 32" "unat prev < 2 ^ 32" "n_count_ewma cur prev n = Done e"
  shows "e \<noteq> 0 \<and> unat e < 2 ^ 32"
proof (cases "prev = 0")
  case True
  then show ?thesis using assms by (simp add: n_count_ewma_def)
next
  case False
  have "cur \<le> 2 ^ 48" "prev \<le> 2 ^ 48" using assms(4,5) by (simp_all add: word_le_nat_alt)
  from ewma_between [OF assms(1,2) this False] have b: "min cur prev \<le> e" "e \<le> max cur prev" using assms(6) by auto
  have "min cur prev \<noteq> 0" using assms(3) False by (simp add: min_def)
  then have "e \<noteq> 0" using b(1) by auto
  moreover have "unat e < 2 ^ 32" using b(2) assms(4,5) by (auto simp: max_def word_le_nat_alt split: if_splits)
  ultimately show ?thesis ..
qed

lemma percent_max_mix_le:
  assumes "unat a < 2 ^ 32" "unat b < 2 ^ 32"
  shows "unat (percent_max_mix a b p) < 2 ^ 32"
proof (cases "p > 100")
  case True
  then show ?thesis using assms by (simp add: percent_max_mix_def max_def)
next
  case False
  let ?x = "unat (max a b)" and ?y = "unat (min a b)" and ?p = "unat p"
  have p: "?p \<le> 100" using False by (simp add: not_less word_le_nat_alt)
  have m: "?x < 2 ^ 32" "?y \<le> ?x" using assms by (auto simp: max_def min_def word_le_nat_alt not_le)
  have u: "unat (ucast p :: u64) = ?p"
    using unsigned_less [of p, where ?'a = nat] by (simp add: unsigned_ucast_eq take_bit_nat_eq_self)
  have v: "unat (of_nat (100 - ?p) :: u64) = 100 - ?p" by (subst unat_of_nat) simp
  have px: "?p * ?x \<le> 100 * ?x" "(100 - ?p) * ?y \<le> 100 * ?x" using p m(2) by (intro mult_le_mono; simp)+
  have lim: "100 * ?x < 2 ^ 64" using m(1) by simp
  have "unat (ucast p * max a b) = ?p * ?x"
    using le_less_trans [OF px(1) lim] u by (subst unat_mult_lem [THEN iffD1]) simp_all
  moreover have "unat (of_nat (100 - ?p) * min a b) = (100 - ?p) * ?y"
    using le_less_trans [OF px(2) lim] v by (subst unat_mult_lem [THEN iffD1]) simp_all
  ultimately have d: "unat (ucast p * max a b div 100) = ?p * ?x div 100"
    "unat (of_nat (100 - ?p) * min a b div 100) = (100 - ?p) * ?y div 100" by (simp_all add: unat_div)
  have "?p * ?x div 100 + (100 - ?p) * ?y div 100 \<le> (?p * ?x + (100 - ?p) * ?y) div 100"
    by (simp add: div_add1_eq [of "?p * ?x"])
  also have "\<dots> \<le> (?p * ?x + (100 - ?p) * ?x) div 100" using m(2) by (intro div_le_mono add_left_mono mult_le_mono2)
  also have "?p * ?x + (100 - ?p) * ?x = 100 * ?x" using p by (simp flip: add_mult_distrib)
  finally have s: "?p * ?x div 100 + (100 - ?p) * ?y div 100 \<le> ?x" by simp
  then have "unat (ucast p * max a b div 100 + of_nat (100 - ?p) * min a b div 100) \<le> ?x"
    using m(1) d by (subst sat_sum_unat) simp_all
  then show ?thesis using m(1) False by (simp add: percent_max_mix_def Let_def)
qed

text \<open>What an update of the estimates keeps, and how many reports it makes.\<close>

definition kept_by_estimates :: "cc_globals \<Rightarrow> congestion_control \<Rightarrow> cc_globals \<Rightarrow> congestion_control \<Rightarrow> bool" where
  "kept_by_estimates G cc G' cc' \<longleftrightarrow> same_params cc cc' \<and> cc_cwnd cc' = cc_cwnd cc \<and> cc_inflight cc' = cc_inflight cc \<and>
     cc_in_slow_start cc' = cc_in_slow_start cc \<and> g_cwnd_max G' = g_cwnd_max G"

lemma stalled_frame:
  assumes "time_delta_stalled_or_jumped G cc old new = (st, G')"
  shows "g_cwnd_max G' = g_cwnd_max G" "g_reports G' = g_reports G" "st \<Longrightarrow> new \<noteq> 0 \<Longrightarrow> ewma_rtt_usec cc \<noteq> 0"
  using assms by (auto simp: time_delta_stalled_or_jumped_def time_delta_should_use_heuristics_def split: if_splits)

lemma update_rtt_defined:
  assumes "cc_sendme_inc cc \<noteq> 0" "cwnd_inc_rate cc \<noteq> 0"
  shows "\<exists>r cc' G'. congestion_control_update_circuit_rtt G cc now = Done (r, cc', G') \<and> kept_by_estimates G cc G' cc' \<and>
    g_reports G' = (if sendme_pending_timestamps cc = [] then Suc (g_reports G) else g_reports G) \<and>
    sendme_pending_timestamps cc' = tl (sendme_pending_timestamps cc) \<and> (clock_sane cc now \<longrightarrow> timed cc')"
proof -
  obtain t ts G0 where dq: "dequeue_timestamp G (sendme_pending_timestamps cc) = (t, ts, G0)" "ts = tl (sendme_pending_timestamps cc)"
    "g_cwnd_max G0 = g_cwnd_max G" "g_reports G0 = (if sendme_pending_timestamps cc = [] then Suc (g_reports G) else g_reports G)"
    and sane: "clock_sane cc now \<Longrightarrow> now - t \<noteq> 0 \<and> unat (now - t) < 2 ^ 32"
    by (cases "sendme_pending_timestamps cc") (auto simp: dequeue_timestamp_def report_def clock_sane_def)
  let ?cc = "cc\<lparr>sendme_pending_timestamps := ts\<rparr>"
  obtain st G1 where st: "time_delta_stalled_or_jumped G0 ?cc (ewma_rtt_usec ?cc) (now - t) = (st, G1)"
    by (cases "time_delta_stalled_or_jumped G0 ?cc (ewma_rtt_usec ?cc) (now - t)")
  note G1 = stalled_frame [OF st]
  obtain n where n: "n_ewma_count G1 ?cc = Done n" "2 \<le> n" "n \<le> 255"
    using n_ewma_count_defined [of ?cc G1] assms by auto
  obtain e where e: "n_count_ewma (now - t) (ewma_rtt_usec ?cc) n = Done e" using n_count_ewma_defined [OF n(3)] by blast
  have et: "e \<noteq> 0 \<and> unat e < 2 ^ 32" if "clock_sane cc now"
    using n_count_ewma_timed [OF n(2,3) _ _ _ e] sane [OF that] that by (simp add: clock_sane_def)
  show ?thesis
  proof (cases st)
    case True
    then show ?thesis
      using dq st G1 sane
      by (auto simp: congestion_control_update_circuit_rtt_def Let_def same_params_def kept_by_estimates_def timed_def clock_sane_def)
  next
    case False
    have "unat (percent_max_mix e (min_rtt_usec cc) p) < 2 ^ 32" if "clock_sane cc now" for p
      using percent_max_mix_le et that by (simp add: clock_sane_def)
    then show ?thesis
      using dq st G1 n(1) e et False
      by (simp add: congestion_control_update_circuit_rtt_def Let_def same_params_def kept_by_estimates_def timed_def clock_sane_def)
  qed
qed

lemma update_bdp_frame:
  assumes "congestion_control_update_circuit_bdp G cc q b r = (ok, cc', G')"
  shows "kept_by_estimates G cc G' cc'" "sendme_pending_timestamps cc' = sendme_pending_timestamps cc"
    and "timed cc \<Longrightarrow> timed cc' \<and> g_reports G' = g_reports G \<and> bdp cc' = cc_cwnd cc * min_rtt_usec cc div ewma_rtt_usec cc"
  using assms
  by (auto simp: congestion_control_update_circuit_bdp_def Let_def same_params_def kept_by_estimates_def report_def timed_def
      split: if_splits)

lemma same_params_trans: "same_params a b \<Longrightarrow> same_params b c \<Longrightarrow> same_params a c"
  by (simp add: same_params_def)

text \<open>The product of window and round-trip time does not overflow, so the estimate leaves room for \<open>gamma\<close>.\<close>

lemma bdp_bound:
  assumes "timed cc" "cc_cwnd cc \<le> 2147483647"
  shows "unat (cc_cwnd cc * min_rtt_usec cc div ewma_rtt_usec cc) + 65535 < 2 ^ 63"
proof -
  let ?w = "unat (cc_cwnd cc)" and ?m = "unat (min_rtt_usec cc)" and ?e = "unat (ewma_rtt_usec cc)"
  have "?w \<le> 2147483647" "?m \<le> 2 ^ 32 - 1" using assms by (simp_all add: word_le_nat_alt timed_def)
  then have le: "?w * ?m \<le> 2147483647 * (2 ^ 32 - 1)" by (rule mult_le_mono)
  then have "unat (cc_cwnd cc * min_rtt_usec cc) = ?w * ?m" by (subst unat_mult_lem [THEN iffD1]) simp_all
  then have "unat (cc_cwnd cc * min_rtt_usec cc div ewma_rtt_usec cc) = ?w * ?m div ?e" by (simp add: unat_div)
  also have "\<dots> \<le> ?w * ?m" by simp
  finally show ?thesis using le by simp
qed

text \<open>Estimates that the algorithm can work with.\<close>

definition workable :: "congestion_control \<Rightarrow> bool" where
  "workable cc \<longleftrightarrow> timed cc \<and> unat (bdp cc) + 65535 < 2 ^ 63"

lemma update_estimates_defined:
  assumes "cc_sendme_inc cc \<noteq> 0" "cwnd_inc_rate cc \<noteq> 0" "cc_cwnd cc \<le> 2147483647"
  shows "\<exists>ok cc' G'. congestion_control_update_circuit_estimates G cc q = Done (ok, cc', G') \<and> kept_by_estimates G cc G' cc' \<and>
    sendme_pending_timestamps cc' = tl (sendme_pending_timestamps cc) \<and>
    (clock_sane cc (now_usec q) \<longrightarrow> workable cc' \<and> g_reports G' = g_reports G)"
proof -
  obtain r cc1 G1 where 1: "congestion_control_update_circuit_rtt G cc (now_usec q) = Done (r, cc1, G1)"
    "kept_by_estimates G cc G1 cc1" "g_reports G1 = (if sendme_pending_timestamps cc = [] then Suc (g_reports G) else g_reports G)"
    "sendme_pending_timestamps cc1 = tl (sendme_pending_timestamps cc)" "clock_sane cc (now_usec q) \<longrightarrow> timed cc1"
    using update_rtt_defined [OF assms(1,2), of G "now_usec q"] by blast
  obtain ok cc2 G2 where 2: "congestion_control_update_circuit_bdp G1 cc1 (chan_queue q) (chan_blocked q) r = (ok, cc2, G2)"
    by (rule prod_cases3)
  note f = update_bdp_frame [OF 2]
  have "kept_by_estimates G cc G2 cc2" using 1(2) f(1) same_params_trans by (auto simp: kept_by_estimates_def)
  moreover have "workable cc2 \<and> g_reports G2 = g_reports G" if "clock_sane cc (now_usec q)"
  proof -
    have "timed cc1" "cc_cwnd cc1 \<le> 2147483647" using 1(2,5) that assms(3) by (simp_all add: kept_by_estimates_def)
    moreover have "sendme_pending_timestamps cc \<noteq> []" using that by (auto simp: clock_sane_def)
    ultimately show ?thesis using f(3) bdp_bound [of cc1] 1(3) by (simp add: workable_def)
  qed
  ultimately show ?thesis using 1(1,4) 2 f(2) by (simp add: congestion_control_update_circuit_estimates_def)
qed

section \<open>The steps of the window\<close>

text \<open>What a step of the window keeps.\<close>

definition kept_by_window :: "congestion_control \<Rightarrow> congestion_control \<Rightarrow> bool" where
  "kept_by_window cc cc' \<longleftrightarrow> same_params cc cc' \<and> cc_inflight cc' = cc_inflight cc \<and>
     sendme_pending_timestamps cc' = sendme_pending_timestamps cc \<and> ewma_rtt_usec cc' = ewma_rtt_usec cc \<and>
     min_rtt_usec cc' = min_rtt_usec cc"

lemma kept_by_window_refl [simp]: "kept_by_window cc cc" by (simp add: kept_by_window_def)

lemma kept_by_window_trans: "kept_by_window a b \<Longrightarrow> kept_by_window b c \<Longrightarrow> kept_by_window a c"
  using same_params_trans by (auto simp: kept_by_window_def)

lemma kept_by_window_cwnd [simp]: "kept_by_window cc (cc'\<lparr>cc_cwnd := w\<rparr>) = kept_by_window cc cc'"
  by (simp add: kept_by_window_def same_params_def)

lemma log_gives: "gives (timed cc) (\<lambda>_. True) (congestion_control_vegas_log cc)"
  by (auto simp: congestion_control_vegas_log_def timed_def max_def)

lemma ss_inc_gives: "gives (unat (cc_cwnd cc) < 2 ^ 63) (\<lambda>_. True) (rfc3742_ss_inc cc)"
proof -
  have "2 * cc_cwnd cc \<noteq> 0" if "unat (cc_cwnd cc) < 2 ^ 63" "\<not> cc_cwnd cc \<le> ucast (ss_cwnd_cap (vegas cc))"
  proof
    assume "2 * cc_cwnd cc = 0"
    moreover have "unat (2 * cc_cwnd cc) = 2 * unat (cc_cwnd cc)" using that(1) by (subst unat_mult_lem [THEN iffD1]) simp_all
    ultimately have "unat (cc_cwnd cc) = 0" by simp
    with that(2) show False by (simp add: word_le_nat_alt)
  qed
  then show ?thesis by (auto simp: rfc3742_ss_inc_def)
qed

lemma exit_gives:
  "gives (timed cc \<and> unat (cc_cwnd cc) < 2 ^ 63) (\<lambda>cc'. cc' = cc\<lparr>cc_in_slow_start := False\<rparr>)
     (congestion_control_vegas_exit_slow_start cc)"
  using log_gives [of cc] log_gives [of "cc\<lparr>cc_in_slow_start := False\<rparr>"] ss_inc_gives [of "cc\<lparr>cc_in_slow_start := False\<rparr>"]
  unfolding congestion_control_vegas_exit_slow_start_def Let_def
  by (intro gives_bind [where Q = "\<lambda>_. True"]) (auto elim!: gives_mono simp: timed_def)

lemma ss_inc_small:
  assumes "rfc3742_ss_inc cc = Done i" "cc_cwnd cc \<le> 2147483647"
  shows "unat i < 2 ^ 62"
proof (cases "cc_cwnd cc \<le> ucast (ss_cwnd_cap (vegas cc))")
  case True
  have "unat (x div 100) < 2 ^ 62" for x :: u64
    using unsigned_less [of x, where ?'a = nat] by (simp add: unat_div)
  then show ?thesis using assms(1) True by (auto simp: rfc3742_ss_inc_def)
next
  case False
  let ?s = "unat (cc_sendme_inc cc)" and ?c = "unat (ss_cwnd_cap (vegas cc))" and ?w = "unat (cc_cwnd cc)"
  let ?x = "ucast (cc_sendme_inc cc) * ucast (ss_cwnd_cap (vegas cc)) :: u64"
  have b: "?s \<le> 255" "?c \<le> 2 ^ 32 - 1" "?w \<le> 2147483647"
    using unsigned_less [of "cc_sendme_inc cc", where ?'a = nat] unsigned_less [of "ss_cwnd_cap (vegas cc)", where ?'a = nat]
      assms(2) by (simp_all add: word_le_nat_alt)
  then have u: "unat (ucast (cc_sendme_inc cc) :: u64) = ?s" "unat (ucast (ss_cwnd_cap (vegas cc)) :: u64) = ?c"
    by (simp_all add: unsigned_ucast_eq take_bit_nat_eq_self)
  have p: "?s * ?c \<le> 255 * (2 ^ 32 - 1)" using b(1,2) by (rule mult_le_mono)
  have x: "unat ?x = ?s * ?c" using p u by (subst unat_mult_lem [THEN iffD1]) simp_all
  have "unat (?x + cc_cwnd cc) = ?s * ?c + ?w" using p b(3) x by (subst sat_sum_unat) simp_all
  then have "unat ((?x + cc_cwnd cc) div (2 * cc_cwnd cc)) \<le> ?s * ?c + ?w" by (simp add: unat_div)
  then have "unat ((?x + cc_cwnd cc) div (2 * cc_cwnd cc)) < 2 ^ 62" using p b(3) by simp
  then show ?thesis using assms(1) False by (auto simp: rfc3742_ss_inc_def max_def split: if_splits)
qed

lemma exit_keeps:
  assumes "kept_by_window cc cc1" "live \<Longrightarrow> timed cc \<and> unat (cc_cwnd cc1) < 2 ^ 63"
  shows "gives live (\<lambda>cc'. kept_by_window cc cc' \<and> cc_cwnd cc' = cc_cwnd cc1) (congestion_control_vegas_exit_slow_start cc1)"
proof (rule gives_mono [OF exit_gives])
  show "timed cc1 \<and> unat (cc_cwnd cc1) < 2 ^ 63" if live
    using assms that by (simp add: kept_by_window_def timed_def)
qed (use assms(1) in \<open>simp_all add: kept_by_window_def same_params_def\<close>)

lemma slow_start_gives:
  assumes "cc_sendme_inc cc \<noteq> 0" "cc_cwnd cc \<le> 2147483647"
  shows "gives (workable cc) (kept_by_window cc) (vegas_slow_start cc u)"
  unfolding vegas_slow_start_def
proof (rule gives_bind [where Q = "\<lambda>c. kept_by_window cc c \<and> (workable cc \<longrightarrow> unat (cc_cwnd c) < 2 ^ 63)"], goal_cases)
  case 1
  have w: "unat (cc_cwnd cc) \<le> 2147483647" using assms(2) by (simp add: word_le_nat_alt)
  show ?case
  proof (cases "u < ucast (gamma (vegas cc)) \<and> \<not> blocked_chan cc")
    case low: True
    show ?thesis
    proof (cases "cwnd_full cc")
      case True
      obtain i where i: "rfc3742_ss_inc cc = Done i"
        using ss_inc_gives [of cc] w by (cases "rfc3742_ss_inc cc") simp_all
      let ?c = "cc\<lparr>cc_cwnd := cc_cwnd cc + i\<rparr>"
      obtain n where n: "SENDME_PER_CWND ?c = Done n" using rates_defined(2) [of ?c] assms(1) by auto
      have "unat (cc_cwnd cc + i) = unat (cc_cwnd cc) + unat i"
        using ss_inc_small [OF i assms(2)] w by (subst sat_sum_unat) simp_all
      then have s: "unat (cc_cwnd ?c) < 2 ^ 63" using ss_inc_small [OF i assms(2)] w by simp
      have "gives (workable cc) (\<lambda>c. kept_by_window cc c \<and> cc_cwnd c = cc_cwnd ?c) (congestion_control_vegas_exit_slow_start ?c)"
        by (rule exit_keeps) (use s in \<open>simp_all add: workable_def\<close>)
      then have "gives (workable cc) (\<lambda>c. kept_by_window cc c \<and> (workable cc \<longrightarrow> unat (cc_cwnd c) < 2 ^ 63))
          (congestion_control_vegas_exit_slow_start ?c)" by (rule gives_mono) (use s in simp_all)
      then show ?thesis using low True i n s by (simp add: Let_def)
    qed (use low w in simp)
  next
    case False
    let ?c = "cc\<lparr>cc_cwnd := vegas_bdp cc + ucast (gamma (vegas cc))\<rparr>"
    have "unat (gamma (vegas cc)) < 65536" using unsigned_less [of "gamma (vegas cc)", where ?'a = nat] by simp
    then have s: "unat (cc_cwnd ?c) < 2 ^ 63" if "workable cc"
      using that by (simp add: workable_def vegas_bdp_def sat_sum_unat unsigned_ucast_eq take_bit_nat_eq_self)
    have "gives (workable cc) (\<lambda>c. kept_by_window cc c \<and> cc_cwnd c = cc_cwnd ?c) (congestion_control_vegas_exit_slow_start ?c)"
      by (rule exit_keeps) (use s in \<open>simp_all add: workable_def\<close>)
    then have "gives (workable cc) (\<lambda>c. kept_by_window cc c \<and> (workable cc \<longrightarrow> unat (cc_cwnd c) < 2 ^ 63))
        (congestion_control_vegas_exit_slow_start ?c)" by (rule gives_mono) (use s in simp_all)
    then show ?thesis by (subst if_not_P [OF False])
  qed
next
  case (2 c)
  have "unat (ucast (ss_cwnd_max (vegas c)) :: u64) < 2 ^ 63"
    using unsigned_less [of "ss_cwnd_max (vegas c)", where ?'a = nat] by (simp add: unsigned_ucast_eq take_bit_nat_eq_self)
  then have "gives (workable cc) (\<lambda>c'. kept_by_window cc c' \<and> cc_cwnd c' = ucast (ss_cwnd_max (vegas c)))
      (congestion_control_vegas_exit_slow_start (c\<lparr>cc_cwnd := ucast (ss_cwnd_max (vegas c))\<rparr>))"
    using exit_keeps [of cc "c\<lparr>cc_cwnd := ucast (ss_cwnd_max (vegas c))\<rparr>" "workable cc"] 2 by (simp add: workable_def)
  then show ?case using 2 by (auto elim: gives_mono)
qed

lemma steady_state_gives: "gives (workable cc) (kept_by_window cc) (vegas_steady_state cc u)"
proof -
  let ?w = "max (if u > ucast (delta (vegas cc)) then vegas_bdp cc + ucast (delta (vegas cc)) - ucast (cwnd_inc cc)
                  else if u > ucast (beta (vegas cc)) \<or> blocked_chan cc then cc_cwnd cc - ucast (cwnd_inc cc)
                  else if cwnd_full cc \<and> u < ucast (alpha (vegas cc)) then cc_cwnd cc + ucast (cwnd_inc cc)
                  else cc_cwnd cc) (ucast (cwnd_min cc))"
  have "gives (workable cc) (\<lambda>_. True) (congestion_control_vegas_log (cc\<lparr>cc_cwnd := ?w\<rparr>))"
    by (rule gives_mono [OF log_gives]) (simp_all add: workable_def timed_def)
  then show ?thesis unfolding vegas_steady_state_def Let_def by (rule gives_bind) simp
qed

lemma vegas_rearm_defined:
  assumes "cc_sendme_inc cc \<noteq> 0" "cwnd_inc_rate cc \<noteq> 0"
  shows "\<exists>cc'. vegas_rearm G cc = Done cc' \<and> kept_by_window cc cc' \<and> cc_cwnd cc' = cc_cwnd cc"
proof -
  obtain n where n: "SENDME_PER_CWND cc = Done n" using rates_defined(2) [OF assms(1)] by blast
  define c1 where "c1 = (if next_cwnd_event cc = 0 then cc\<lparr>next_cwnd_event := ucast n\<rparr> else cc)"
  have c1: "kept_by_window cc c1" "cc_cwnd c1 = cc_cwnd cc" by (simp_all add: c1_def kept_by_window_def same_params_def)
  then have p1: "cc_sendme_inc c1 \<noteq> 0" "cwnd_inc_rate c1 \<noteq> 0" using assms by (simp_all add: kept_by_window_def same_params_def)
  obtain m where m: "CWND_UPDATE_RATE c1 = Done m" using rates_defined(1) [OF p1] by blast
  define c2 where "c2 = (if next_cc_event c1 = 0 then c1\<lparr>next_cc_event := ucast m\<rparr> else c1)"
  have c2: "kept_by_window c1 c2" "cc_cwnd c2 = cc_cwnd c1" by (simp_all add: c2_def kept_by_window_def same_params_def)
  then have p2: "cc_sendme_inc c2 \<noteq> 0" "cwnd_inc_rate c2 \<noteq> 0" using p1 by (simp_all add: kept_by_window_def same_params_def)
  obtain r where r: "cwnd_full_reset G c2 = Done r"
    using rates_defined(1) [OF p2] rates_defined(2) [OF p2(1)]
    by (cases "g_cwnd_full_per_cwnd G") (auto simp: cwnd_full_reset_def)
  have "(if next_cwnd_event cc = 0 then obind (SENDME_PER_CWND cc) (\<lambda>n. Done (cc\<lparr>next_cwnd_event := ucast n\<rparr>))
         else Done cc) = Done c1" using n by (simp add: c1_def)
  moreover have "(if next_cc_event c1 = 0
       then obind (CWND_UPDATE_RATE c1) (\<lambda>n. Done (c1\<lparr>next_cc_event := ucast n\<rparr>)) else Done c1) = Done c2"
    using m by (simp add: c2_def)
  ultimately have "vegas_rearm G cc = Done (if r then c2\<lparr>cwnd_full := False\<rparr> else c2)"
    using r by (simp add: vegas_rearm_def)
  then show ?thesis
    using c1 c2 kept_by_window_trans [OF c1(1) c2(1)] by (simp add: kept_by_window_def same_params_def)
qed

section \<open>The whole algorithm\<close>

definition clock_kept :: "cc_globals \<Rightarrow> cc_globals \<Rightarrow> congestion_control \<Rightarrow> bool" where
  "clock_kept G G' cc' \<longleftrightarrow> g_reports G' = g_reports G \<and> timed cc'"

lemma window_step_gives:
  assumes "cc_sendme_inc cc \<noteq> 0" "cwnd_inc_rate cc \<noteq> 0" "cc_cwnd cc \<le> 2147483647"
  shows "gives (workable cc) (kept_by_window cc)
    (obind (if cc_in_slow_start cc then vegas_slow_start cc u
            else if next_cc_event cc = 0 then vegas_steady_state cc u else Done cc) (vegas_rearm G))"
proof (rule gives_bind)
  show "gives (workable cc) (kept_by_window cc) (if cc_in_slow_start cc then vegas_slow_start cc u
            else if next_cc_event cc = 0 then vegas_steady_state cc u else Done cc)"
    using slow_start_gives [OF assms(1,3)] steady_state_gives by simp
next
  fix c assume k: "kept_by_window cc c"
  then have "cc_sendme_inc c \<noteq> 0" "cwnd_inc_rate c \<noteq> 0" using assms by (simp_all add: kept_by_window_def same_params_def)
  from vegas_rearm_defined [OF this, of G] show "gives (workable cc) (kept_by_window cc) (vegas_rearm G c)"
    using kept_by_window_trans [OF k] by auto
qed

lemma process_sendme_gives:
  assumes ok: "cc_ok G cc"
  shows "gives (clock_sane cc (now_usec q)) (\<lambda>(cc', G'). same_params cc cc' \<and>
      cc_inflight cc' = cc_inflight cc - ucast (cc_sendme_inc cc) \<and> g_cwnd_max G' = g_cwnd_max G \<and>
      sendme_pending_timestamps cc' = tl (sendme_pending_timestamps cc) \<and>
      (clock_sane cc (now_usec q) \<longrightarrow> clock_kept G G' cc'))
    (congestion_control_vegas_process_sendme G cc q)"
  (is "gives _ ?Q _")
proof -
  define c1 where "c1 = vegas_count_down cc"
  have c1: "same_params cc c1" "cc_cwnd c1 = cc_cwnd cc" "cc_inflight c1 = cc_inflight cc"
    "sendme_pending_timestamps c1 = sendme_pending_timestamps cc" "clock_sane c1 (now_usec q) = clock_sane cc (now_usec q)"
    by (simp_all add: c1_def vegas_count_down_def same_params_def Let_def clock_sane_def)
  have p: "cc_alg cc = CC_ALG_VEGAS" "cc_sendme_inc cc \<noteq> 0" "cwnd_inc_rate cc \<noteq> 0" "cc_cwnd cc \<le> 2147483647"
    using ok by (simp_all add: cc_ok_def)
  have p1: "cc_sendme_inc c1 \<noteq> 0" "cwnd_inc_rate c1 \<noteq> 0" "cc_cwnd c1 \<le> 2147483647"
    using c1(1,2) p by (simp_all add: same_params_def)
  obtain upd c2 G' where e: "congestion_control_update_circuit_estimates G c1 q = Done (upd, c2, G')"
    "kept_by_estimates G c1 G' c2" "sendme_pending_timestamps c2 = tl (sendme_pending_timestamps c1)"
    "clock_sane c1 (now_usec q) \<longrightarrow> workable c2 \<and> g_reports G' = g_reports G"
    using update_estimates_defined [OF p1, of G q] by blast
  have c2: "same_params cc c2" "cc_cwnd c2 = cc_cwnd cc" "cc_inflight c2 = cc_inflight cc" "g_cwnd_max G' = g_cwnd_max G"
    using e(2) c1 same_params_trans [OF c1(1), of c2] by (simp_all add: kept_by_estimates_def)
  define c3 where "c3 = vegas_mark_full G' c2"
  define u where "u = (if vegas_bdp c2 > cc_cwnd c2 then 0 else cc_cwnd c2 - vegas_bdp c2)"
  have c3: "kept_by_window c2 c3" "cc_cwnd c3 = cc_cwnd c2" "workable c3 = workable c2"
    by (simp_all add: c3_def vegas_mark_full_def kept_by_window_def same_params_def workable_def timed_def)
  have p3: "cc_sendme_inc c3 \<noteq> 0" "cwnd_inc_rate c3 \<noteq> 0" "cc_cwnd c3 \<le> 2147483647"
    using c2 c3 p by (simp_all add: kept_by_window_def same_params_def)
  define r where "r = obind (if cc_in_slow_start c3 then vegas_slow_start c3 u
      else if next_cc_event c3 = 0 then vegas_steady_state c3 u else Done c3) (vegas_rearm G')"
  have "gives (workable c3) (kept_by_window c3) r" unfolding r_def by (rule window_step_gives [OF p3])
  then have r: "gives (clock_sane cc (now_usec q)) (kept_by_window c2) r"
    by (rule gives_mono) (use kept_by_window_trans [OF c3(1)] c3(3) e(4) c1(5) in simp_all)
  have eq: "congestion_control_vegas_process_sendme G cc q =
      (if \<not> upd then Done (c2\<lparr>cc_inflight := cc_inflight c2 - ucast (cc_sendme_inc c2)\<rparr>, G')
       else obind r (\<lambda>c. Done (c\<lparr>cc_inflight := cc_inflight c - ucast (cc_sendme_inc c)\<rparr>, G')))"
    unfolding congestion_control_vegas_process_sendme_def c1_def [symmetric] r_def
    using p(1) e(1) by (simp add: u_def [symmetric] c3_def [symmetric] obind_assoc)
  have Q: "?Q (c\<lparr>cc_inflight := cc_inflight c - ucast (cc_sendme_inc c)\<rparr>, G')" if "kept_by_window c2 c" for c
  proof -
    have "same_params cc c" "cc_inflight c = cc_inflight cc" "cc_sendme_inc c = cc_sendme_inc cc"
      using that c2 same_params_trans [OF c2(1), of c] by (simp_all add: kept_by_window_def same_params_def)
    then show ?thesis
      using that c2(4) e(3,4) c1(4,5) by (simp add: kept_by_window_def clock_kept_def workable_def timed_def same_params_def)
  qed
  have c2_refl: "kept_by_window c2 c2" by simp
  show ?thesis
  proof (cases upd)
    case True
    have "gives (clock_sane cc (now_usec q)) ?Q (obind r (\<lambda>c. Done (c\<lparr>cc_inflight := cc_inflight c - ucast (cc_sendme_inc c)\<rparr>, G')))"
      by (rule gives_bind [OF r]) (simp only: gives_simps Q)
    then show ?thesis using eq True by simp
  qed (simp only: eq not_False_eq_True if_True gives_simps Q [OF c2_refl])
qed

lemma dispatch_sound:
  assumes ok: "cc_ok G cc"
  shows "gives (clock_sane cc (now_usec q)) (\<lambda>(cc', G', cfx'). cc_ok G' cc' \<and> cc_cwnd cc' \<le> ucast (g_cwnd_max G) \<and>
      g_cwnd_max G' = g_cwnd_max G \<and> cc_inflight cc' = cc_inflight cc - ucast (cc_sendme_inc cc) \<and>
      sendme_pending_timestamps cc' = tl (sendme_pending_timestamps cc) \<and> same_params cc cc' \<and>
      (clock_sane cc (now_usec q) \<longrightarrow> clock_kept G G' cc'))
    (congestion_control_dispatch_cc_alg G cc q cfx circ)"
  unfolding congestion_control_dispatch_cc_alg_def
proof (rule gives_bind [OF process_sendme_gives [OF ok]], clarsimp simp: Let_def, goal_cases)
  case (1 c1 G')
  define c2 where "c2 = (if cc_cwnd c1 > ucast (g_cwnd_max G) then c1\<lparr>cc_cwnd := ucast (g_cwnd_max G)\<rparr> else c1)"
  have c2: "same_params cc c2" "cc_cwnd c2 \<le> ucast (g_cwnd_max G)"
    using 1 by (auto simp: c2_def same_params_def not_less)
  have "unat (ucast (g_cwnd_max G) :: u64) = unat (g_cwnd_max G)"
    using unsigned_less [of "g_cwnd_max G", where ?'a = nat] by (simp add: unsigned_ucast_eq take_bit_nat_eq_self)
  then have "cc_cwnd c2 \<le> 2147483647" using c2(2) ok by (simp add: cc_ok_def word_le_nat_alt)
  then have "cc_ok G' c2" using c2(1) ok 1 by (simp add: cc_ok_def same_params_def)
  then show ?case using c2 1 by (auto simp: c2_def clock_kept_def timed_def split: if_splits)
qed

text \<open>The consensus gives the start.\<close>

lemma param_bind:
  assumes "\<And>v. min_val \<le> v \<Longrightarrow> v \<le> max_val \<Longrightarrow> \<exists>r. K v = Done r \<and> Q r"
    and "min_val < max_val" "min_val \<le> default_val" "default_val \<le> max_val"
  shows "\<exists>r. obind (networkstatus_get_param ns name default_val min_val max_val) K = Done r \<and> Q r"
proof -
  obtain v where "networkstatus_get_param ns name default_val min_val max_val = Done v" "min_val \<le> v" "v \<le> max_val"
    using net_param_in_bounds [OF assms(2-4)] by blast
  then show ?thesis using assms(1) by simp
qed

lemma of_int_word_le:
  fixes v :: int
  assumes "0 \<le> v" "v < 2 ^ LENGTH('a)"
  shows "unat (of_int v :: 'a::len word) = nat v"
  using assms by (simp add: nat_eq_iff2 unsigned_of_int take_bit_int_eq_self unat_eq_nat_uint uint_word_of_int)

lemma new_params_defined:
  "\<exists>G'. congestion_control_new_consensus_params ns G = Done G' \<and> g_cwnd_max G' \<le> 2147483647 \<and>
    g_cc_sendme_inc G' \<noteq> 0 \<and> (g_cc_alg G' = CC_ALG_SENDME \<or> g_cc_alg G' = CC_ALG_VEGAS)"
proof -
  have mx: "(of_int mx :: u32) \<le> 2147483647" if "500 \<le> mx" "mx \<le> INT32_MAX" for mx
    using that by (simp add: word_le_nat_alt of_int_word_le INT32_MAX_def)
  have inc: "(of_int inc :: byte) \<noteq> 0" if "1 \<le> inc" "inc \<le> 254" for inc
    using that of_int_word_le [of inc, where ?'a = 8] by auto
  show ?thesis
    unfolding congestion_control_new_consensus_params_def Let_def
    by (intro param_bind) (simp_all add: mx inc, simp_all add: cc_consts CELL_PAYLOAD_SIZE_def)
qed

lemma set_params_defined:
  assumes "cc_alg cc = CC_ALG_VEGAS"
  shows "\<exists>r. congestion_control_vegas_set_params ns G cc path = Done r \<and>
    cc_alg (fst r) = cc_alg cc \<and> cc_sendme_inc (fst r) = cc_sendme_inc cc \<and> cwnd_inc_rate (fst r) = cwnd_inc_rate cc \<and>
    cc_cwnd (fst r) = cc_cwnd cc \<and> cc_in_slow_start (fst r) = cc_in_slow_start cc \<and> g_cwnd_max (snd r) = g_cwnd_max G"
proof -
  obtain al be ga de cap where d: "vegas_defaults path = (al, be, ga, de, cap)" and
    b: "0 \<le> al" "al \<le> 1000" "0 \<le> be" "be \<le> 1000" "0 \<le> ga" "ga \<le> 1000" "0 \<le> de" "de \<le> INT32_MAX" "100 \<le> cap" "cap \<le> INT32_MAX"
    by (cases path) (simp_all add: cc_consts)
  show ?thesis
    unfolding congestion_control_vegas_set_params_def Let_def d prod.case if_not_P [OF not_not [THEN iffD2, OF assms]]
    by (intro param_bind) (simp_all add: b, simp_all add: INT32_MAX_def)
qed

lemma init_params_defined:
  assumes "g_cc_alg G = CC_ALG_VEGAS" "sendme_inc_cells params \<noteq> 0" "g_cwnd_max G \<le> 2147483647"
  shows "\<exists>r. congestion_control_init_params ns always G cc params path = Done r \<and> cc_ok (snd r) (fst r) \<and>
    cc_in_slow_start (fst r) = cc_in_slow_start cc"
proof -
  have w: "(of_int v :: u64) \<le> 2147483647" if "7 \<le> v" "v \<le> 10000" for v
    using that by (simp add: word_le_nat_alt of_int_word_le)
  have r: "(of_int v :: byte) \<noteq> 0" if "1 \<le> v" "v \<le> 250" for v
    using that of_int_word_le [of v, where ?'a = 8] by auto
  have s: "\<exists>a b. congestion_control_vegas_set_params ns G c path = Done (a, b) \<and> cc_ok b a \<and>
      cc_in_slow_start a = cc_in_slow_start cc"
    if c: "cc_alg c = CC_ALG_VEGAS" "cc_sendme_inc c \<noteq> 0" "cwnd_inc_rate c \<noteq> 0" "cc_cwnd c \<le> 2147483647"
      "cc_in_slow_start c = cc_in_slow_start cc" for c
  proof -
    obtain c' G' where "congestion_control_vegas_set_params ns G c path = Done (c', G')"
      "cc_alg c' = cc_alg c" "cc_sendme_inc c' = cc_sendme_inc c" "cwnd_inc_rate c' = cwnd_inc_rate c"
      "cc_cwnd c' = cc_cwnd c" "cc_in_slow_start c' = cc_in_slow_start c" "g_cwnd_max G' = g_cwnd_max G"
      using set_params_defined [OF c(1), of ns G path] by auto
    then show ?thesis using c assms(3) by (simp add: cc_ok_def)
  qed
  show ?thesis
    using assms unfolding congestion_control_init_params_def Let_def
    by (intro param_bind) (simp_all add: s w r cc_consts)
qed

lemma congestion_control_starts:
  assumes "g_cc_alg G = CC_ALG_VEGAS" "sendme_inc_cells params \<noteq> 0" "g_cwnd_max G \<le> 2147483647"
  shows "\<exists>cc' G'. congestion_control_init ns always G cc params path = Done (cc', G') \<and> cc_ok G' cc'"
proof -
  obtain c1 G1 where 1: "congestion_control_init_params ns always G
      (cc\<lparr>sendme_pending_timestamps := [], cc_in_slow_start := True\<rparr>) params path = Done (c1, G1)" "cc_ok G1 c1"
    using init_params_defined [OF assms, of ns always "cc\<lparr>sendme_pending_timestamps := [], cc_in_slow_start := True\<rparr>" path]
    by auto
  then obtain r where "CWND_UPDATE_RATE c1 = Done r" using rates_defined(1) by (auto simp: cc_ok_def)
  then show ?thesis using 1 by (simp add: congestion_control_init_def cc_ok_def)
qed

section \<open>Life of a congestion control object\<close>

text \<open>
  It starts from the consensus; cells are sent, which counts them and queues times; SENDMEs are
  processed, with any clock and queue; and new consensuses arrive.
\<close>

inductive cc_reachable :: "cc_globals \<Rightarrow> congestion_control \<Rightarrow> bool" where
  start: "congestion_control_new_consensus_params ns G0 = Done G \<Longrightarrow> g_cc_alg G = CC_ALG_VEGAS \<Longrightarrow>
     sendme_inc_cells params \<noteq> 0 \<Longrightarrow> congestion_control_init ns always G cc0 params path = Done (cc, G') \<Longrightarrow>
     cc_reachable G' cc"
| sent: "cc_reachable G cc \<Longrightarrow> cc_reachable G (cc\<lparr>cc_inflight := x, sendme_pending_timestamps := ts\<rparr>)"
| sendme: "cc_reachable G cc \<Longrightarrow>
     congestion_control_dispatch_cc_alg G cc q (None :: (unit, unit) conflux option) () = Done (cc', G', cfx') \<Longrightarrow>
     cc_reachable G' cc'"
| consensus: "cc_reachable G cc \<Longrightarrow> congestion_control_new_consensus_params ns G = Done G' \<Longrightarrow> cc_reachable G' cc"

lemma cc_reachable_ok: "cc_reachable G cc \<Longrightarrow> cc_ok G cc"
proof (induction rule: cc_reachable.induct)
  case (start ns G0 G params always cc0 path cc G')
  have "g_cwnd_max G \<le> 2147483647" using new_params_defined [of ns G0] start(1) by auto
  from congestion_control_starts [OF start(2,3) this, of ns always cc0 path] show ?case using start(4) by auto
next
  case (sent G cc x ts)
  then show ?case by (simp add: cc_ok_def)
next
  case (sendme G cc q cc' G' cfx')
  then show ?case using dispatch_sound [OF sendme.IH, of q "None :: (unit, unit) conflux option" "()"] by auto
next
  case (consensus G cc ns G')
  have "g_cwnd_max G' \<le> 2147483647" using new_params_defined [of ns G] consensus(2) by auto
  then show ?case using consensus.IH by (simp add: cc_ok_def)
qed


text \<open>C32. The end of slow start logs a rate, dividing by the larger of the two round-trip
  estimates. While there is none, a SENDME that the clock puts at the very time of its cell stops the
  process exactly when the channel is blocked: the update then goes on without an estimate.\<close>

theorem stalled_clock_divides_by_zero:
  assumes "cc_alg cc = CC_ALG_VEGAS" "cc_in_slow_start cc" "ewma_rtt_usec cc = 0" "min_rtt_usec cc = 0"
    and "sendme_pending_timestamps cc = now_usec q # ts"
  shows "congestion_control_dispatch_cc_alg G cc q cfx circ = Stuck \<longleftrightarrow> chan_blocked q"
proof -
  define c0 where "c0 = vegas_count_down cc"
  have c0: "cc_in_slow_start c0" "ewma_rtt_usec c0 = 0" "min_rtt_usec c0 = 0" "sendme_pending_timestamps c0 = now_usec q # ts"
    using assms by (simp_all add: c0_def vegas_count_down_def Let_def)
  have rtt: "congestion_control_update_circuit_rtt G c0 (now_usec q) =
      Done (0, c0\<lparr>sendme_pending_timestamps := ts\<rparr>, G\<lparr>g_clock_broken := True\<rparr>)"
    using c0 by (simp add: congestion_control_update_circuit_rtt_def dequeue_timestamp_def Let_def time_delta_stalled_or_jumped_def)
  obtain ok c1 G1 where b: "congestion_control_update_circuit_bdp (G\<lparr>g_clock_broken := True\<rparr>)
      (c0\<lparr>sendme_pending_timestamps := ts\<rparr>) (chan_queue q) (chan_blocked q) 0 = (ok, c1, G1)"
    by (rule prod_cases3)
  then have c1: "ok = chan_blocked q" "blocked_chan c1 = chan_blocked q" "cc_in_slow_start c1" "ewma_rtt_usec c1 = 0"
    "min_rtt_usec c1 = 0"
    using c0 by (auto simp: congestion_control_update_circuit_bdp_def Let_def)
  have e: "congestion_control_update_circuit_estimates G (vegas_count_down cc) q = Done (ok, c1, G1)" unfolding c0_def [symmetric]
    using rtt b by (simp add: congestion_control_update_circuit_estimates_def)
  have "congestion_control_vegas_exit_slow_start (c\<lparr>cc_cwnd := w\<rparr>) = Stuck" if "ewma_rtt_usec c = 0" "min_rtt_usec c = 0" for c w
    using that by (simp add: congestion_control_vegas_exit_slow_start_def congestion_control_vegas_log_def)
  then show ?thesis
    using assms(1) e c1
    by (auto simp: congestion_control_dispatch_cc_alg_def congestion_control_vegas_process_sendme_def Let_def
        vegas_slow_start_def vegas_mark_full_def outcome_elims split: prod.splits)
qed

section \<open>Bounds\<close>

text \<open>C37. After slow start, when there is an estimate of the round-trip time, the window moves by at
  most one increment upwards and never below its minimum, provided that the window and the estimated
  bandwidth-delay product are below 2^31, and that the increment is at most the window, and at most the
  bandwidth-delay product and delta together.\<close>

theorem vegas_steady_state_bounds:
  assumes use: "queue_use = (if vegas_bdp cc > cc_cwnd cc then 0 else cc_cwnd cc - vegas_bdp cc)"
    and rtt: "max (min_rtt_usec cc) (ewma_rtt_usec cc) \<noteq> 0"
    and w: "cc_cwnd cc \<le> 2147483647" and b: "vegas_bdp cc \<le> 2147483647"
    and i: "ucast (cwnd_inc cc) \<le> cc_cwnd cc" "unat (cwnd_inc cc) \<le> unat (vegas_bdp cc) + unat (delta (vegas cc))"
  shows "\<exists>cc'. vegas_steady_state cc queue_use = Done cc' \<and> ucast (cwnd_min cc) \<le> cc_cwnd cc' \<and>
    cc_cwnd cc' \<le> max (ucast (cwnd_min cc)) (cc_cwnd cc + ucast (cwnd_inc cc))"
proof -
  have u16: "unat (ucast x :: u64) = unat x" for x :: u16
    using unsigned_less [of x, where ?'a = nat] by (simp add: unsigned_ucast_eq take_bit_nat_eq_self)
  have l16: "unat x < 65536" for x :: u16 using unsigned_less [of x, where ?'a = nat] by simp
  let ?w = "unat (cc_cwnd cc)" and ?b = "unat (vegas_bdp cc)" and ?i = "unat (cwnd_inc cc)"
  have n: "?w \<le> 2147483647" "?b \<le> 2147483647" "?i \<le> ?w"
    using w b i(1) by (simp_all add: word_le_nat_alt u16)
  have up: "unat (cc_cwnd cc + ucast (cwnd_inc cc)) = ?w + ?i"
    using n l16 [of "cwnd_inc cc"] by (subst sat_sum_unat) (simp_all add: u16)
  have down: "unat (cc_cwnd cc - ucast (cwnd_inc cc)) = ?w - ?i"
    using i(1) by (simp add: unat_sub u16)
  have bd: "unat (vegas_bdp cc + ucast (delta (vegas cc))) = ?b + unat (delta (vegas cc))"
    using n l16 [of "delta (vegas cc)"] by (subst sat_sum_unat) (simp_all add: u16)
  have "ucast (cwnd_inc cc) \<le> vegas_bdp cc + ucast (delta (vegas cc))" using i(2) bd by (simp add: word_le_nat_alt u16)
  then have jump: "unat (vegas_bdp cc + ucast (delta (vegas cc)) - ucast (cwnd_inc cc)) = ?b + unat (delta (vegas cc)) - ?i"
    by (simp add: unat_sub bd u16)
  have "vegas_bdp cc + ucast (delta (vegas cc)) - ucast (cwnd_inc cc) \<le> cc_cwnd cc + ucast (cwnd_inc cc)"
    if "queue_use > ucast (delta (vegas cc))"
  proof -
    have "unat queue_use \<le> ?w - ?b" using use by (auto simp: unat_sub not_less)
    moreover have "unat (delta (vegas cc)) < unat queue_use" using that by (simp add: word_less_nat_alt u16)
    ultimately show ?thesis by (simp add: word_le_nat_alt jump up)
  qed
  moreover have "cc_cwnd cc - ucast (cwnd_inc cc) \<le> cc_cwnd cc + ucast (cwnd_inc cc)"
    "cc_cwnd cc \<le> cc_cwnd cc + ucast (cwnd_inc cc)" by (simp_all add: word_le_nat_alt up down)
  ultimately have "(if queue_use > ucast (delta (vegas cc)) then vegas_bdp cc + ucast (delta (vegas cc)) - ucast (cwnd_inc cc)
      else if queue_use > ucast (beta (vegas cc)) \<or> blocked_chan cc then cc_cwnd cc - ucast (cwnd_inc cc)
      else if cwnd_full cc \<and> queue_use < ucast (alpha (vegas cc)) then cc_cwnd cc + ucast (cwnd_inc cc)
      else cc_cwnd cc) \<le> cc_cwnd cc + ucast (cwnd_inc cc)" (is "?new \<le> _") by simp
  then have "max ?new (ucast (cwnd_min cc)) \<le> max (ucast (cwnd_min cc)) (cc_cwnd cc + ucast (cwnd_inc cc))"
    by (subst max.commute) (rule max.mono [OF order_refl])
  then show ?thesis using rtt by (simp add: vegas_steady_state_def congestion_control_vegas_log_def Let_def)
qed

section \<open>Examples\<close>

definition zero_globals :: cc_globals where
  "zero_globals = \<lparr>g_cell_queue_high = 0, g_cell_queue_low = 0, g_or_conn_highwater = 0, g_or_conn_lowwater = 0,
     g_bwe_sendme_min = 0, g_cwnd_max = 0, g_rtt_reset_pct = 0, g_cc_sendme_inc = 0, g_cc_alg = 0,
     g_n_ewma_cwnd_pct = 0, g_n_ewma_max = 0, g_n_ewma_ss = 0, g_cwnd_full_gap = 0, g_cwnd_full_minpct = 0,
     g_cwnd_full_per_cwnd = False, g_clock_broken = False, g_reports = 0\<rparr>"

definition zero_cc :: congestion_control where
  "zero_cc = \<lparr>cc_cwnd = 0, cc_inflight = 0, cc_sendme_inc = 0, cc_in_slow_start = False,
     sendme_pending_timestamps = [], ewma_rtt_usec = 0, min_rtt_usec = 0, max_rtt_usec = 0, bdp = 0,
     next_cc_event = 0, next_cwnd_event = 0, cwnd_full = False, blocked_chan = False, cwnd_inc_pct_ss = 0,
     cwnd_inc = 0, cwnd_min = 0, cwnd_inc_rate = 0, cc_alg = 0,
     vegas = \<lparr>ss_cwnd_cap = 0, ss_cwnd_max = 0, gamma = 0, alpha = 0, beta = 0, delta = 0\<rparr>\<rparr>"

text \<open>The defaults of the consensus, a fresh object, and one cell sent at time 1000 with its SENDME due.\<close>

definition cc_globals0 :: cc_globals where
  "cc_globals0 = \<lparr>g_cell_queue_high = 256, g_cell_queue_low = 10, g_or_conn_highwater = 32768, g_or_conn_lowwater = 16384,
     g_bwe_sendme_min = 5, g_cwnd_max = 2147483647, g_rtt_reset_pct = 100, g_cc_sendme_inc = 7, g_cc_alg = 2,
     g_n_ewma_cwnd_pct = 50, g_n_ewma_max = 10, g_n_ewma_ss = 2, g_cwnd_full_gap = 4, g_cwnd_full_minpct = 25,
     g_cwnd_full_per_cwnd = True, g_clock_broken = False, g_reports = 0\<rparr>"

definition fresh_cc :: congestion_control where
  "fresh_cc = \<lparr>cc_cwnd = 28, cc_inflight = 0, cc_sendme_inc = 7, cc_in_slow_start = True,
     sendme_pending_timestamps = [], ewma_rtt_usec = 0, min_rtt_usec = 0, max_rtt_usec = 0, bdp = 0,
     next_cc_event = 1, next_cwnd_event = 0, cwnd_full = False, blocked_chan = False, cwnd_inc_pct_ss = 100,
     cwnd_inc = 1, cwnd_min = 28, cwnd_inc_rate = 7, cc_alg = 2,
     vegas = \<lparr>ss_cwnd_cap = 600, ss_cwnd_max = 5000, gamma = 42, alpha = 42, beta = 56, delta = 70\<rparr>\<rparr>"

definition sent_cc :: congestion_control where
  "sent_cc = fresh_cc\<lparr>cc_inflight := 7, sendme_pending_timestamps := [1000]\<rparr>"

lemma sent_cc_reachable: "cc_reachable cc_globals0 sent_cc"
proof -
  have 1: "congestion_control_new_consensus_params None
      (zero_globals\<lparr>g_cwnd_full_gap := 4, g_cwnd_full_minpct := 25, g_cwnd_full_per_cwnd := True\<rparr>) = Done cc_globals0"
    by (simp add: congestion_control_new_consensus_params_def networkstatus_get_param_def Let_def cc_consts zero_globals_def
        cc_globals0_def CELL_PAYLOAD_SIZE_def)
  have 2: "congestion_control_init None False cc_globals0 zero_cc \<lparr>cc_enabled = True, sendme_inc_cells = 7\<rparr> CC_PATH_EXIT =
      Done (fresh_cc, cc_globals0)"
    by (simp add: congestion_control_init_def congestion_control_init_params_def congestion_control_vegas_set_params_def
        networkstatus_get_param_def Let_def cc_consts zero_cc_def fresh_cc_def cc_globals0_def CWND_UPDATE_RATE_def)
  have "cc_reachable cc_globals0 fresh_cc"
    by (rule cc_reachable.start [OF 1 _ _ 2]) (simp_all add: cc_globals0_def CC_ALG_VEGAS_def)
  then show ?thesis unfolding sent_cc_def by (rule cc_reachable.sent)
qed


text \<open>The same circuit on a clock that stands.\<close>

theorem stalled_clock_witness:
  "cc_reachable cc_globals0 sent_cc \<and> congestion_control_dispatch_cc_alg cc_globals0 sent_cc
     \<lparr>now_usec = 1000, chan_queue = 3, chan_blocked = True\<rparr> (None :: (unit, unit) conflux option) () = Stuck"
  using stalled_clock_divides_by_zero [of sent_cc "\<lparr>now_usec = 1000, chan_queue = 3, chan_blocked = True\<rparr>" "[]" cc_globals0
      "None :: (unit, unit) conflux option" "()"] sent_cc_reachable
  by (simp add: sent_cc_def fresh_cc_def CC_ALG_VEGAS_def)

definition steady_cc :: congestion_control where
  "steady_cc = zero_cc\<lparr>cc_cwnd := 100, cwnd_inc := 1, cwnd_min := 28, bdp := 60, ewma_rtt_usec := 5000, min_rtt_usec := 3000,
     vegas := \<lparr>ss_cwnd_cap = 600, ss_cwnd_max = 5000, gamma = 42, alpha = 42, beta = 56, delta = 30\<rparr>\<rparr>"

theorem vegas_steady_state_witness:
  "\<exists>cc'. vegas_steady_state steady_cc 40 = Done cc' \<and> cc_cwnd cc' = 89 \<and> 28 \<le> cc_cwnd cc' \<and> cc_cwnd cc' \<le> max 28 (100 + 1)"
proof -
  have "\<exists>cc'. vegas_steady_state steady_cc 40 = Done cc' \<and> ucast (cwnd_min steady_cc) \<le> cc_cwnd cc' \<and>
      cc_cwnd cc' \<le> max (ucast (cwnd_min steady_cc)) (cc_cwnd steady_cc + ucast (cwnd_inc steady_cc))"
    by (rule vegas_steady_state_bounds) (simp_all add: steady_cc_def zero_cc_def vegas_bdp_def)
  then show ?thesis
    by (simp add: steady_cc_def zero_cc_def vegas_bdp_def vegas_steady_state_def congestion_control_vegas_log_def Let_def)
qed

theorem ewma_between_witness:
  "\<exists>e. n_count_ewma 9000 4000 3 = Done e \<and> min 9000 4000 \<le> e \<and> e \<le> max 9000 4000"
  by (rule ewma_between) simp_all

end
