(* ===== verification/CryptPath.thy ===== *)
theory CryptPath
  imports OnionSkin CongestionControl
begin

text \<open>
  The hops of a circuit at its origin, \<open>src/core/or/crypt_path.c\<close>: a circular doubly linked
  list of \<open>crypt_path_t\<close> in a store from addresses to hops, so that updates through one pointer
  are seen through every other. The lemmas relate the store to the list of addresses it holds.
\<close>

section \<open>Hops and their store\<close>

text \<open>
  \<open>'c\<close> is the state of a cipher, \<open>'d\<close> the state of a running digest; a pointer that is still
  NULL is \<open>None\<close>.
\<close>

record ('c, 'd) relay_crypto =
  f_crypto :: "'c option"
  b_crypto :: "'c option"
  f_digest :: "'d option"
  b_digest :: "'d option"
  sendme_digest :: "byte list"

record ('c, 'd) crypt_path =
  magic :: u32
  handshake_state :: "onion_handshake_state option"
  rend_dh_handshake_state :: "handle option"
  rend_circ_nonce :: "byte list"
  cp_extend_info :: "extend_info option"
  cp_state :: byte
  nxt :: "nat option"
  prv :: "nat option"
  package_window :: int
  deliver_window :: int
  hop_ccontrol :: "congestion_control option"
  pvt_crypto :: "('c, 'd) relay_crypto"

type_synonym ('c, 'd) hops = "nat \<rightharpoonup> ('c, 'd) crypt_path"

definition CRYPT_PATH_MAGIC :: u32 where "CRYPT_PATH_MAGIC = 0x70127012"
definition CPATH_STATE_CLOSED :: byte where "CPATH_STATE_CLOSED = 0"
definition CPATH_STATE_AWAITING_KEYS :: byte where "CPATH_STATE_AWAITING_KEYS = 1"
definition CPATH_STATE_OPEN :: byte where "CPATH_STATE_OPEN = 2"

definition CIRCWINDOW_START :: int where "CIRCWINDOW_START = 1000"

lemmas cpath_states = CPATH_STATE_CLOSED_def CPATH_STATE_AWAITING_KEYS_def CPATH_STATE_OPEN_def

text \<open>Reading and changing the object a pointer points to.\<close>

definition deref :: "('c, 'd) hops \<Rightarrow> nat option \<Rightarrow> ('c, 'd) crypt_path outcome" where
  "deref h p =
     (case p of None \<Rightarrow> Stuck | Some a \<Rightarrow> (case h a of None \<Rightarrow> Stuck | Some n \<Rightarrow> Done n))"

definition store ::
  "('c, 'd) hops \<Rightarrow> nat option \<Rightarrow> (('c, 'd) crypt_path \<Rightarrow> ('c, 'd) crypt_path) \<Rightarrow> ('c, 'd) hops outcome" where
  "store h p f =
     (case p of None \<Rightarrow> Stuck
      | Some a \<Rightarrow> (case h a of None \<Rightarrow> Stuck | Some n \<Rightarrow> Done (h(a \<mapsto> f n))))"

lemma deref_Done [outcome_elims]: "(deref h p = Done n) = (\<exists>a. p = Some a \<and> h a = Some n)"
  by (auto simp: deref_def split: option.splits)

lemma deref_Some [simp]: "h a = Some n \<Longrightarrow> deref h (Some a) = Done n"
  by (simp add: deref_def)

lemma store_Some [simp]: "h a = Some n \<Longrightarrow> store h (Some a) f = Done (h(a \<mapsto> f n))"
  by (simp add: store_def)

section \<open>Adding a hop\<close>

text \<open>\<open>tor_malloc_zero(sizeof(crypt_path_t))\<close>\<close>

definition zero_crypto :: "('c, 'd) relay_crypto" where
  "zero_crypto = \<lparr>f_crypto = None, b_crypto = None, f_digest = None, b_digest = None,
                  sendme_digest = replicate DIGEST_LEN 0\<rparr>"

definition zero_hop :: "('c, 'd) crypt_path" where
  "zero_hop = \<lparr>magic = 0, handshake_state = None, rend_dh_handshake_state = None,
     rend_circ_nonce = replicate DIGEST_LEN 0, cp_extend_info = None, cp_state = 0, nxt = None, prv = None,
     package_window = 0, deliver_window = 0, hop_ccontrol = None, pvt_crypto = zero_crypto\<rparr>"

definition cpath_extend_linked_list ::
  "('c, 'd) hops \<Rightarrow> nat option \<Rightarrow> nat \<Rightarrow> (('c, 'd) hops \<times> nat option) outcome" where
  "cpath_extend_linked_list h head_ptr new_hop =
     (case head_ptr of
        Some _ \<Rightarrow>
          obind (store h (Some new_hop) (\<lambda>n. n\<lparr>nxt := head_ptr\<rparr>)) (\<lambda>h.
          obind (deref h head_ptr) (\<lambda>hn.
          obind (store h (Some new_hop) (\<lambda>n. n\<lparr>prv := prv hn\<rparr>)) (\<lambda>h.
          obind (deref h head_ptr) (\<lambda>hn.
          obind (store h (prv hn) (\<lambda>n. n\<lparr>nxt := Some new_hop\<rparr>)) (\<lambda>h.
          obind (store h head_ptr (\<lambda>n. n\<lparr>prv := Some new_hop\<rparr>)) (\<lambda>h.
            Done (h, head_ptr)))))))
      | None \<Rightarrow>
          obind (store h (Some new_hop) (\<lambda>n. n\<lparr>prv := Some new_hop, nxt := Some new_hop\<rparr>)) (\<lambda>h.
            Done (h, Some new_hop)))"

text \<open>
  The consensus \<open>ns\<close> gives the first window; \<open>extend_info_dup\<close> copies its argument. The address of
  the new hop is the allocator's, an argument.
\<close>

definition circuit_initial_package_window :: "string list option \<Rightarrow> int outcome" where
  "circuit_initial_package_window ns =
     obind (networkstatus_get_param ns ''circwindow'' CIRCWINDOW_START 100 1000) (\<lambda>num.
       Done (if num < 0 then CIRCWINDOW_START else num))"

definition cpath_append_hop ::
  "string list option \<Rightarrow> nat \<Rightarrow> ('c, 'd) hops \<Rightarrow> nat option \<Rightarrow> extend_info \<Rightarrow> (('c, 'd) hops \<times> nat option) outcome" where
  "cpath_append_hop ns hop h head_ptr choice =
     obind (cpath_extend_linked_list (h(hop \<mapsto> zero_hop)) head_ptr hop) (\<lambda>(h, head_ptr).
     obind (circuit_initial_package_window ns) (\<lambda>w.
     obind (store h (Some hop) (\<lambda>n. n\<lparr>magic := CRYPT_PATH_MAGIC, cp_state := CPATH_STATE_CLOSED,
              cp_extend_info := Some choice, package_window := w,
              deliver_window := CIRCWINDOW_START\<rparr>)) (\<lambda>h.
       Done (h, head_ptr))))"

section \<open>Walking over the hops\<close>

definition relay_crypto_assert_ok :: "('c, 'd) relay_crypto \<Rightarrow> unit outcome" where
  "relay_crypto_assert_ok c =
     (if f_crypto c = None \<or> b_crypto c = None \<or> f_digest c = None \<or> b_digest c = None then Stuck else Done ())"

definition cpath_assert_layer_ok :: "('c, 'd) crypt_path \<Rightarrow> unit outcome" where
  "cpath_assert_layer_ok cp =
     (if magic cp \<noteq> CRYPT_PATH_MAGIC then Stuck
      else obind
        (if cp_state cp = CPATH_STATE_OPEN
         then obind (relay_crypto_assert_ok (pvt_crypto cp)) (\<lambda>_.
                if rend_dh_handshake_state cp \<noteq> None then Stuck else Done ())
         else if cp_state cp = CPATH_STATE_CLOSED
         then (if rend_dh_handshake_state cp \<noteq> None then Stuck else Done ())
         else if cp_state cp = CPATH_STATE_AWAITING_KEYS then Done ()
         else Stuck)
        (\<lambda>_. if \<not> package_window cp \<ge> 0 \<or> \<not> deliver_window cp \<ge> 0 then Stuck else Done ()))"

text \<open>A loop over pointers may run for ever on a broken list; \<open>None\<close> is that it does.\<close>

partial_function (option) assert_ok_loop ::
  "('c, 'd) hops \<Rightarrow> nat \<Rightarrow> nat \<Rightarrow> unit outcome option" where
  "assert_ok_loop h start cp =
     (case obind (deref h (Some cp)) (\<lambda>n.
             obind (cpath_assert_layer_ok n) (\<lambda>_.
             obind (if cp \<noteq> start \<and> (cp_state n = CPATH_STATE_AWAITING_KEYS \<or> cp_state n = CPATH_STATE_OPEN)
                    then obind (deref h (prv n)) (\<lambda>p.
                           if cp_state p \<noteq> CPATH_STATE_OPEN then Stuck else Done ())
                    else Done ()) (\<lambda>_.
               case nxt n of None \<Rightarrow> Stuck | Some cp' \<Rightarrow> Done cp'))) of
        Done cp' \<Rightarrow> if cp' \<noteq> start then assert_ok_loop h start cp' else Some (Done ())
      | Fail \<Rightarrow> Some Fail
      | Stuck \<Rightarrow> Some Stuck)"

definition cpath_assert_ok :: "('c, 'd) hops \<Rightarrow> nat \<Rightarrow> unit outcome option" where
  "cpath_assert_ok h cp = assert_ok_loop h cp cp"

partial_function (option) next_non_open_loop ::
  "('c, 'd) hops \<Rightarrow> nat \<Rightarrow> nat option \<Rightarrow> nat option outcome option" where
  "next_non_open_loop h first hop =
     (case deref h hop of
        Done n \<Rightarrow>
          if cp_state n \<noteq> CPATH_STATE_OPEN then Some (Done hop)
          else if nxt n \<noteq> Some first then next_non_open_loop h first (nxt n)
          else Some (Done None)
      | _ \<Rightarrow> Some Stuck)"

definition cpath_get_next_non_open_hop :: "('c, 'd) hops \<Rightarrow> nat \<Rightarrow> nat option outcome option" where
  "cpath_get_next_non_open_hop h first = next_non_open_loop h first (Some first)"

section \<open>The list in the store\<close>

definition ring :: "('c, 'd) hops \<Rightarrow> nat list \<Rightarrow> bool" where
  "ring h xs \<longleftrightarrow> distinct xs \<and>
     (\<forall>i < length xs. \<exists>n. h (xs ! i) = Some n \<and>
        nxt n = Some (xs ! (Suc i mod length xs)) \<and>
        prv n = Some (xs ! ((i + (length xs - 1)) mod length xs)))"

definition cpath_list :: "('c, 'd) hops \<Rightarrow> nat option \<Rightarrow> nat list \<Rightarrow> bool" where
  "cpath_list h head xs \<longleftrightarrow> ring h xs \<and> head = (case xs of [] \<Rightarrow> None | x # _ \<Rightarrow> Some x)"

text \<open>What the hops hold apart from their links.\<close>

definition unlinked :: "('c, 'd) crypt_path \<Rightarrow> ('c, 'd) crypt_path" where
  "unlinked n = n\<lparr>nxt := None, prv := None\<rparr>"

definition hop_data :: "('c, 'd) hops \<Rightarrow> nat list \<Rightarrow> ('c, 'd) crypt_path list" where
  "hop_data h xs = map (\<lambda>a. unlinked (the (h a))) xs"

lemma unlinked_links [simp]: "unlinked (n\<lparr>nxt := p, prv := q\<rparr>) = unlinked n"
  "unlinked (n\<lparr>nxt := p\<rparr>) = unlinked n" "unlinked (n\<lparr>prv := p\<rparr>) = unlinked n"
  by (simp_all add: unlinked_def)

lemma unlinked_fields [simp]:
  "cp_state (unlinked n) = cp_state n" "magic (unlinked n) = magic n" "pvt_crypto (unlinked n) = pvt_crypto n"
  "rend_dh_handshake_state (unlinked n) = rend_dh_handshake_state n"
  "package_window (unlinked n) = package_window n" "deliver_window (unlinked n) = deliver_window n"
  by (simp_all add: unlinked_def)

lemma length_hop_data [simp]: "length (hop_data h xs) = length xs"
  by (simp add: hop_data_def)

lemma ring_node:
  assumes "ring h xs" "i < length xs"
  obtains n where "h (xs ! i) = Some n" "nxt n = Some (xs ! (Suc i mod length xs))"
    "prv n = Some (xs ! ((i + (length xs - 1)) mod length xs))"
  using assms unfolding ring_def by blast

text \<open>Links that are rewritten for the new end of the list, and nothing else.\<close>

lemma extend_list_heap:
  assumes r: "ring h xs" and ne: "xs \<noteq> []" and new: "new \<notin> set xs" "h new = Some nn"
  shows "\<exists>h'. cpath_extend_linked_list h (Some (hd xs)) new = Done (h', Some (hd xs)) \<and>
    h' new = Some (nn\<lparr>nxt := Some (hd xs), prv := Some (last xs)\<rparr>) \<and>
    (\<forall>a n. a \<noteq> new \<longrightarrow> h a = Some n \<longrightarrow>
       h' a = Some (n\<lparr>nxt := (if a = last xs then Some new else nxt n),
                      prv := (if a = hd xs then Some new else prv n)\<rparr>)) \<and>
    (\<forall>a. a \<noteq> new \<longrightarrow> h a = None \<longrightarrow> h' a = None)"
proof -
  have len: "0 < length xs" using ne by simp
  obtain hn where hn: "h (hd xs) = Some hn" "prv hn = Some (last xs)"
    using ring_node [OF r len] ne by (metis add_0 hd_conv_nth last_conv_nth mod_less diff_less len zero_less_one)
  obtain ln where ln: "h (last xs) = Some ln"
    using ring_node [OF r, of "length xs - 1"] ne len by (metis diff_less last_conv_nth zero_less_one)
  have d: "hd xs \<noteq> new" "last xs \<noteq> new" using new(1) ne by auto
  show ?thesis
    using hn ln d new(2)
    by (cases "hd xs = last xs") (auto simp: cpath_extend_linked_list_def)
qed

lemma extend_ring:
  assumes c: "cpath_list h head xs" and new: "new \<notin> set xs" "h new = Some nn"
  shows "\<exists>h' head'. cpath_extend_linked_list h head new = Done (h', head') \<and>
    cpath_list h' head' (xs @ [new]) \<and>
    hop_data h' (xs @ [new]) = hop_data h xs @ [unlinked nn] \<and> (\<forall>a. a \<notin> set (xs @ [new]) \<longrightarrow> h' a = h a)"
proof (cases "xs = []")
  case True
  then show ?thesis
    using c new by (auto simp: cpath_list_def ring_def cpath_extend_linked_list_def hop_data_def)
next
  case False
  have r: "ring h xs" and head: "head = Some (hd xs)"
    using c False by (auto simp: cpath_list_def split: list.splits)
  from extend_list_heap [OF r False new] obtain h' where
    h': "cpath_extend_linked_list h (Some (hd xs)) new = Done (h', Some (hd xs))"
      "h' new = Some (nn\<lparr>nxt := Some (hd xs), prv := Some (last xs)\<rparr>)"
      "\<And>a n. a \<noteq> new \<Longrightarrow> h a = Some n \<Longrightarrow>
         h' a = Some (n\<lparr>nxt := (if a = last xs then Some new else nxt n),
                        prv := (if a = hd xs then Some new else prv n)\<rparr>)"
      "\<And>a. a \<noteq> new \<Longrightarrow> h a = None \<Longrightarrow> h' a = None" by blast
  have dist: "distinct xs" using r by (simp add: ring_def)
  let ?n = "length xs"
  have "\<exists>m. h' ((xs @ [new]) ! i) = Some m \<and> nxt m = Some ((xs @ [new]) ! (Suc i mod Suc ?n)) \<and>
      prv m = Some ((xs @ [new]) ! ((i + ?n) mod Suc ?n))" if i: "i < Suc ?n" for i
  proof (cases "i = ?n")
    case True
    have "(?n + ?n) mod Suc ?n = ?n - 1"
      using False mod_if [of "?n + ?n" "Suc ?n"] by (simp add: Suc_le_eq)
    then show ?thesis using h'(2) False True by (simp add: hd_conv_nth last_conv_nth nth_append)
  next
    case False
    with i have i: "i < ?n" by simp
    obtain n where n: "h (xs ! i) = Some n" "nxt n = Some (xs ! (Suc i mod ?n))"
      "prv n = Some (xs ! ((i + (?n - 1)) mod ?n))" using ring_node [OF r i] .
    have ne: "xs ! i \<noteq> new" using new(1) i by auto
    have ne': "xs \<noteq> []" using i by auto
    have "xs ! i = last xs \<longleftrightarrow> Suc i = ?n" "xs ! i = hd xs \<longleftrightarrow> i = 0"
      using i dist ne' by (auto simp: last_conv_nth hd_conv_nth nth_eq_iff_index_eq)
    moreover have "(i + (?n - 1)) mod ?n = i - 1" "(i + ?n) mod Suc ?n = i - 1" if "i \<noteq> 0"
      using that i by (simp_all add: mod_if)
    ultimately show ?thesis using h'(3) [OF ne n(1)] n i by (auto simp: nth_append)
  qed
  then have "ring h' (xs @ [new])" using dist new(1) by (simp add: ring_def)
  moreover have "hop_data h' xs = hop_data h xs"
  proof -
    have "unlinked (the (h' a)) = unlinked (the (h a))" if mem: "a \<in> set xs" for a
    proof -
      obtain i where i: "i < ?n" "a = xs ! i" using mem unfolding in_set_conv_nth by blast
      obtain n where "h a = Some n" using ring_node [OF r i(1)] unfolding i(2) .
      moreover have "a \<noteq> new" using mem new(1) by auto
      ultimately show ?thesis using h'(3) [of a n] by simp
    qed
    then show ?thesis by (simp add: hop_data_def)
  qed
  moreover have "h' a = h a" if "a \<notin> set (xs @ [new])" for a
  proof -
    have "a \<noteq> last xs" "a \<noteq> hd xs" "a \<noteq> new" using that False by auto
    then show ?thesis using h'(3,4) by (cases "h a") auto
  qed
  ultimately show ?thesis
    using h'(1,2) head False by (cases xs) (auto simp: cpath_list_def hop_data_def)
qed

section \<open>Walking over the list\<close>

lemma ring_state:
  assumes "ring h xs" "i < length xs"
  shows "\<exists>n. h (xs ! i) = Some n \<and> hop_data h xs ! i = unlinked n"
proof -
  obtain n where "h (xs ! i) = Some n" using ring_node [OF assms] .
  then show ?thesis using assms(2) by (simp add: hop_data_def)
qed

lemma ring_next:
  assumes "ring h xs" "i < length xs" "h (xs ! i) = Some n"
  shows "nxt n = (if Suc i = length xs then Some (xs ! 0) else Some (xs ! Suc i))"
    and "Suc i < length xs \<Longrightarrow> xs ! Suc i \<noteq> xs ! 0" and "xs ! i = xs ! 0 \<longleftrightarrow> i = 0"
proof -
  have "distinct xs" using assms(1) by (simp add: ring_def)
  then show "Suc i < length xs \<Longrightarrow> xs ! Suc i \<noteq> xs ! 0" "xs ! i = xs ! 0 \<longleftrightarrow> i = 0"
    using assms(2) nth_eq_iff_index_eq [of xs "Suc i" 0] nth_eq_iff_index_eq [of xs i 0] by (cases xs; simp)+
  obtain m where m: "h (xs ! i) = Some m" "nxt m = Some (xs ! (Suc i mod length xs))"
    using ring_node [OF assms(1,2)] .
  have "m = n" using m(1) assms(3) by simp
  then show "nxt n = (if Suc i = length xs then Some (xs ! 0) else Some (xs ! Suc i))"
    using m(2) assms(2) by (cases "Suc i = length xs") auto
qed

lemma ring_prev:
  assumes "ring h xs" "i < length xs" "h (xs ! i) = Some n" "0 < i"
  shows "prv n = Some (xs ! (i - 1))"
proof -
  have "(i + (length xs - 1)) mod length xs = i - 1" using assms(2,4) by (simp add: mod_if)
  moreover obtain m where "h (xs ! i) = Some m" "prv m = Some (xs ! ((i + (length xs - 1)) mod length xs))"
    using ring_node [OF assms(1,2)] .
  ultimately show ?thesis using assms(3) by simp
qed

lemma next_non_open_from:
  assumes "ring h xs" "i < length xs"
  shows "next_non_open_loop h (xs ! 0) (Some (xs ! i)) =
    Some (Done (map_option (\<lambda>j. xs ! j)
      (find (\<lambda>j. cp_state (hop_data h xs ! j) \<noteq> CPATH_STATE_OPEN) [i..<length xs])))"
  using assms(2)
proof (induction "length xs - i" arbitrary: i)
  case (Suc k)
  obtain n where n: "h (xs ! i) = Some n" "hop_data h xs ! i = unlinked n"
    using ring_state [OF assms(1) Suc.prems] by blast
  have up: "[i..<length xs] = i # [Suc i..<length xs]" using Suc.prems by (simp add: upt_conv_Cons)
  show ?case
  proof (cases "cp_state n = CPATH_STATE_OPEN \<and> Suc i < length xs")
    case True
    then have "next_non_open_loop h (xs ! 0) (Some (xs ! i)) = next_non_open_loop h (xs ! 0) (Some (xs ! Suc i))"
      using n ring_next [OF assms(1) Suc.prems n(1)] by (subst next_non_open_loop.simps) auto
    also have "\<dots> = Some (Done (map_option (\<lambda>j. xs ! j)
      (find (\<lambda>j. cp_state (hop_data h xs ! j) \<noteq> CPATH_STATE_OPEN) [Suc i..<length xs])))"
      using Suc.hyps True by (intro Suc.hyps(1)) auto
    finally show ?thesis using True n up by simp
  next
    case False
    then have "cp_state n = CPATH_STATE_OPEN \<Longrightarrow> Suc i = length xs" using Suc.prems by simp
    then show ?thesis
      using n up ring_next [OF assms(1) Suc.prems n(1)] by (subst next_non_open_loop.simps) auto
  qed
qed simp

lemma cpath_get_next_non_open_hop_find:
  assumes "ring h xs" "xs \<noteq> []"
  shows "cpath_get_next_non_open_hop h (hd xs) =
    Some (Done (map_option (\<lambda>j. xs ! j)
      (find (\<lambda>j. cp_state (hop_data h xs ! j) \<noteq> CPATH_STATE_OPEN) [0..<length xs])))"
  using next_non_open_from [OF assms(1), of 0] assms(2)
  by (simp add: cpath_get_next_non_open_hop_def hd_conv_nth)

text \<open>The states a path may have: hops that are open, at most one with keys to come, closed ones.\<close>

fun closed_from :: "byte list \<Rightarrow> bool" where
  "closed_from [] = True"
| "closed_from (s # ss) = (s = CPATH_STATE_CLOSED \<and> closed_from ss)"

fun open_awaiting_closed :: "byte list \<Rightarrow> bool" where
  "open_awaiting_closed [] = True"
| "open_awaiting_closed (s # ss) =
     (if s = CPATH_STATE_OPEN then open_awaiting_closed ss else closed_from ss)"

text \<open>What the loop checks of the hops from position \<open>i\<close> on.\<close>

definition layers_ok :: "('c, 'd) crypt_path list \<Rightarrow> nat \<Rightarrow> bool" where
  "layers_ok ns i \<longleftrightarrow> (\<forall>j < length ns. i \<le> j \<longrightarrow> cpath_assert_layer_ok (ns ! j) = Done () \<and>
     (0 < j \<longrightarrow> cp_state (ns ! j) \<noteq> CPATH_STATE_CLOSED \<longrightarrow> cp_state (ns ! (j - 1)) = CPATH_STATE_OPEN))"

lemma assert_layer_unlinked [simp]: "cpath_assert_layer_ok (unlinked n) = cpath_assert_layer_ok n"
  by (simp add: cpath_assert_layer_ok_def)

lemma assert_layer_state:
  "cpath_assert_layer_ok n = Done () \<Longrightarrow>
    cp_state n \<in> {CPATH_STATE_OPEN, CPATH_STATE_CLOSED, CPATH_STATE_AWAITING_KEYS}"
  by (auto simp: cpath_assert_layer_ok_def outcome_elims split: if_splits)

lemma assert_layer_cases: "cpath_assert_layer_ok n \<in> {Done (), Stuck}"
  by (cases "cpath_assert_layer_ok n")
     (auto simp: cpath_assert_layer_ok_def relay_crypto_assert_ok_def outcome_elims split: if_splits)

lemma layers_ok_step:
  "i < length ns \<Longrightarrow> layers_ok ns i \<longleftrightarrow> cpath_assert_layer_ok (ns ! i) = Done () \<and>
     (0 < i \<longrightarrow> cp_state (ns ! i) \<noteq> CPATH_STATE_CLOSED \<longrightarrow> cp_state (ns ! (i - 1)) = CPATH_STATE_OPEN) \<and>
     layers_ok ns (Suc i)"
  unfolding layers_ok_def by (auto simp: Suc_le_eq le_less)

lemma assert_ok_from:
  assumes r: "ring h xs" and "i < length xs"
  shows "assert_ok_loop h (xs ! 0) (xs ! i) =
    Some (if layers_ok (hop_data h xs) i then Done () else Stuck)"
  using assms(2)
proof (induction "length xs - i" arbitrary: i)
  case (Suc k)
  let ?ns = "hop_data h xs"
  obtain n where n: "h (xs ! i) = Some n" "?ns ! i = unlinked n" using ring_state [OF r Suc.prems] by blast
  note nx = ring_next [OF r Suc.prems n(1)]
  have pv: "deref h (prv n) = Done p \<Longrightarrow> cp_state p = cp_state (?ns ! (i - 1))"
    "\<exists>p. deref h (prv n) = Done p" if "0 < i" for p
  proof -
    have "i - 1 < length xs" using Suc.prems by simp
    from ring_state [OF r this] ring_prev [OF r Suc.prems n(1) that]
    show "deref h (prv n) = Done p \<Longrightarrow> cp_state p = cp_state (?ns ! (i - 1))"
      "\<exists>p. deref h (prv n) = Done p" by auto
  qed
  have st: "layers_ok ?ns i \<longleftrightarrow> cpath_assert_layer_ok n = Done () \<and>
     (0 < i \<longrightarrow> cp_state n \<noteq> CPATH_STATE_CLOSED \<longrightarrow> cp_state (?ns ! (i - 1)) = CPATH_STATE_OPEN) \<and>
     layers_ok ?ns (Suc i)"
    using layers_ok_step [of i ?ns] n Suc.prems by simp
  have rest: "assert_ok_loop h (xs ! 0) (xs ! Suc i) = Some (if layers_ok ?ns (Suc i) then Done () else Stuck)"
    if "Suc i < length xs" using Suc.hyps that by (intro Suc.hyps(1)) auto
  have fin: "Suc i = length xs \<Longrightarrow> layers_ok ?ns (Suc i)" by (simp add: layers_ok_def)
  have here: "obind (cpath_assert_layer_ok n) (\<lambda>_.
      obind (if xs ! i \<noteq> xs ! 0 \<and> (cp_state n = CPATH_STATE_AWAITING_KEYS \<or> cp_state n = CPATH_STATE_OPEN)
             then obind (deref h (prv n)) (\<lambda>p. if cp_state p \<noteq> CPATH_STATE_OPEN then Stuck else Done ())
             else Done ()) (\<lambda>_. case nxt n of None \<Rightarrow> Stuck | Some cp' \<Rightarrow> Done cp')) =
     (if cpath_assert_layer_ok n = Done () \<and>
        (0 < i \<longrightarrow> cp_state n \<noteq> CPATH_STATE_CLOSED \<longrightarrow> cp_state (?ns ! (i - 1)) = CPATH_STATE_OPEN)
      then Done (if Suc i = length xs then xs ! 0 else xs ! Suc i) else Stuck)"
    using assert_layer_cases [of n] assert_layer_state [of n] pv nx
    by (cases "i = 0") (auto simp: cpath_states split: if_splits)
  show ?case
  proof (cases "Suc i = length xs")
    case True
    then show ?thesis
      using st fin n(1) by (subst assert_ok_loop.simps) (simp add: here, blast)
  next
    case False
    then have "Suc i < length xs" using Suc.prems by simp
    with rest nx(2) show ?thesis
      using st n(1) False by (subst assert_ok_loop.simps) (simp add: here, blast)
  qed
qed simp

lemma adjacent_all: "(\<forall>i. Suc i < n \<longrightarrow> P i (Suc i)) \<longleftrightarrow> (\<forall>j < n. 0 < j \<longrightarrow> P (j - 1) j)"
  by (auto dest!: gr0_implies_Suc)

lemma layers_ok_states:
  "layers_ok ns 0 \<longleftrightarrow> list_all (\<lambda>n. cpath_assert_layer_ok n = Done ()) ns \<and> open_awaiting_closed (map cp_state ns)"
proof -
  let ?P = "\<lambda>s s'. s' \<noteq> CPATH_STATE_CLOSED \<longrightarrow> s = CPATH_STATE_OPEN"
  have tail: "s \<noteq> CPATH_STATE_OPEN \<Longrightarrow> successively ?P (s # ss) \<longleftrightarrow> closed_from ss" for s ss
    by (induction ss arbitrary: s) (auto simp: cpath_states)
  have oac: "successively ?P ss \<longleftrightarrow> open_awaiting_closed ss" for ss
  proof (induction ss)
    case (Cons s ss)
    then show ?case using tail [of s ss] by (cases ss) auto
  qed simp
  have "open_awaiting_closed (map cp_state ns) \<longleftrightarrow> successively (\<lambda>m n. ?P (cp_state m) (cp_state n)) ns"
    by (simp only: oac [symmetric] successively_map)
  also have "\<dots> \<longleftrightarrow> (\<forall>i. Suc i < length ns \<longrightarrow> ?P (cp_state (ns ! i)) (cp_state (ns ! Suc i)))"
    by (simp only: successively_conv_nth)
  also have "\<dots> \<longleftrightarrow> (\<forall>j < length ns. 0 < j \<longrightarrow> ?P (cp_state (ns ! (j - 1))) (cp_state (ns ! j)))"
    by (rule adjacent_all [where P = "\<lambda>i j. ?P (cp_state (ns ! i)) (cp_state (ns ! j))"])
  finally show ?thesis by (auto simp: layers_ok_def list_all_length)
qed

lemma cpath_assert_ok_iff:
  assumes "ring h xs" "xs \<noteq> []"
  shows "cpath_assert_ok h (hd xs) =
    Some (if list_all (\<lambda>n. cpath_assert_layer_ok n = Done ()) (hop_data h xs) \<and>
             open_awaiting_closed (map cp_state (hop_data h xs)) then Done () else Stuck)"
  using assert_ok_from [OF assms(1), of 0] assms(2) layers_ok_states [of "hop_data h xs"]
  by (simp add: cpath_assert_ok_def hd_conv_nth)

text \<open>A new hop is closed, has its windows, and nothing else yet.\<close>

definition new_hop :: "int \<Rightarrow> extend_info \<Rightarrow> ('c, 'd) crypt_path" where
  "new_hop circwindow choice = zero_hop\<lparr>magic := CRYPT_PATH_MAGIC, cp_state := CPATH_STATE_CLOSED,
     cp_extend_info := Some choice, package_window := circwindow, deliver_window := CIRCWINDOW_START\<rparr>"

lemma initial_window: "\<exists>w. circuit_initial_package_window ns = Done w \<and> 100 \<le> w \<and> w \<le> 1000"
  using net_param_in_bounds [of 100 1000 CIRCWINDOW_START ns "''circwindow''"]
  by (auto simp: circuit_initial_package_window_def CIRCWINDOW_START_def)

lemma append_hop_ring:
  assumes "cpath_list h head xs" "h a = None"
  shows "\<exists>h' head' w. cpath_append_hop ns a h head choice = Done (h', head') \<and>
    cpath_list h' head' (xs @ [a]) \<and> hop_data h' (xs @ [a]) = hop_data h xs @ [new_hop w choice] \<and>
    100 \<le> w \<and> w \<le> 1000"
proof -
  obtain w where w: "circuit_initial_package_window ns = Done w" "100 \<le> w" "w \<le> 1000"
    using initial_window [of ns] by blast
  have a: "a \<notin> set xs"
  proof
    assume "a \<in> set xs"
    then obtain i where "i < length xs" "xs ! i = a" by (metis in_set_conv_nth)
    then show False using ring_state [of h xs i] assms by (auto simp: cpath_list_def)
  qed
  let ?h = "h(a \<mapsto> zero_hop)"
  have c: "cpath_list ?h head xs" "hop_data ?h xs = hop_data h xs"
    using assms(1) a by (auto simp: cpath_list_def ring_def hop_data_def)
  from extend_ring [OF c(1) a, of zero_hop] obtain h1 head1 where
    1: "cpath_extend_linked_list ?h head a = Done (h1, head1)" "cpath_list h1 head1 (xs @ [a])"
      "hop_data h1 (xs @ [a]) = hop_data ?h xs @ [unlinked zero_hop]" by auto
  obtain n where n: "h1 a = Some n" "unlinked n = unlinked zero_hop"
    using 1(2,3) ring_state [of h1 "xs @ [a]" "length xs"] by (auto simp: cpath_list_def hop_data_def)
  let ?f = "\<lambda>n. n\<lparr>magic := CRYPT_PATH_MAGIC, cp_state := CPATH_STATE_CLOSED, cp_extend_info := Some choice,
     package_window := w, deliver_window := CIRCWINDOW_START\<rparr>"
  have "cpath_append_hop ns a h head choice = Done (h1(a \<mapsto> ?f n), head1)"
    using 1(1) n(1) w(1) by (simp add: cpath_append_hop_def)
  moreover have "cpath_list (h1(a \<mapsto> ?f n)) head1 (xs @ [a])"
    using 1(2) n(1) by (fastforce simp: cpath_list_def ring_def)
  moreover have "unlinked (?f n) = new_hop w choice"
  proof -
    have "unlinked (?f n) = ?f (unlinked n)" by (simp add: unlinked_def)
    also have "\<dots> = new_hop w choice" unfolding n(2) by (simp add: new_hop_def unlinked_def zero_hop_def)
    finally show ?thesis .
  qed
  ultimately show ?thesis
    using 1(3) c(2) a w(2,3) by (auto simp: hop_data_def)
qed

section \<open>Properties\<close>

text \<open>C16. Appending a hop refines appending to a list: the addresses grow by the new one at the end,
  the hops before it keep what they hold, and the new one is closed, with the window the consensus
  gives, between 100 and 1000, and a full deliver window.\<close>

theorem append_hop_refines_append:
  assumes "cpath_list h head xs" "h a = None"
  shows "\<exists>h' head' w. cpath_append_hop ns a h head choice = Done (h', head') \<and>
    cpath_list h' head' (xs @ [a]) \<and> hop_data h' (xs @ [a]) = hop_data h xs @ [new_hop w choice] \<and>
    100 \<le> w \<and> w \<le> 1000"
  using append_hop_ring [OF assms] .

text \<open>C21. The loop of cpath_assert_ok returns for every path, and passes exactly the paths whose
  hops pass the test of one layer and whose states are open, then at most one that awaits keys, then
  closed.\<close>

theorem cpath_assert_ok_decides:
  assumes "cpath_list h (Some a) xs"
  shows "cpath_assert_ok h a =
    Some (if list_all (\<lambda>n. cpath_assert_layer_ok n = Done ()) (hop_data h xs) \<and>
             open_awaiting_closed (map cp_state (hop_data h xs)) then Done () else Stuck)"
proof -
  have "ring h xs" "xs \<noteq> []" "a = hd xs" using assms by (auto simp: cpath_list_def split: list.splits)
  then show ?thesis using cpath_assert_ok_iff by blast
qed

text \<open>The next hop to extend to is the first that is not open, and NULL when all are open.\<close>

theorem next_non_open_is_first:
  assumes "cpath_list h (Some a) xs"
  shows "cpath_get_next_non_open_hop h a =
    Some (Done (map_option (\<lambda>j. xs ! j)
      (find (\<lambda>j. cp_state (hop_data h xs ! j) \<noteq> CPATH_STATE_OPEN) [0..<length xs])))"
proof -
  have "ring h xs" "xs \<noteq> []" "a = hd xs" using assms by (auto simp: cpath_list_def split: list.splits)
  then show ?thesis using cpath_get_next_non_open_hop_find by blast
qed

section \<open>Examples\<close>

theorem append_hop_witness:
  "\<forall>choice. cpath_list (Map.empty :: (unit, unit) hops) None [] \<and>
     (\<exists>h' head' w. cpath_append_hop None 7 (Map.empty :: (unit, unit) hops) None choice = Done (h', head') \<and>
        cpath_list h' head' [7] \<and> hop_data h' [7] = [new_hop w choice])"
proof
  fix choice
  have c: "cpath_list (Map.empty :: (unit, unit) hops) None []" by (simp add: cpath_list_def ring_def)
  show "cpath_list (Map.empty :: (unit, unit) hops) None [] \<and>
     (\<exists>h' head' w. cpath_append_hop None 7 (Map.empty :: (unit, unit) hops) None choice = Done (h', head') \<and>
        cpath_list h' head' [7] \<and> hop_data h' [7] = [new_hop w choice])"
    using c append_hop_refines_append [where ns = None and choice = choice, OF c, of 7]
    by (simp add: hop_data_def) blast
qed

text \<open>Two hops, the first open, the second closed.\<close>

definition two_hops :: "(unit, unit) hops" where
  "two_hops = (Map.empty)(
     1 \<mapsto> zero_hop\<lparr>magic := CRYPT_PATH_MAGIC, cp_state := CPATH_STATE_OPEN, nxt := Some 2, prv := Some 2,
       pvt_crypto := zero_crypto\<lparr>f_crypto := Some (), b_crypto := Some (), f_digest := Some (), b_digest := Some ()\<rparr>\<rparr>,
     2 \<mapsto> zero_hop\<lparr>magic := CRYPT_PATH_MAGIC, nxt := Some 1, prv := Some 1\<rparr>)"

lemma two_hops_list: "cpath_list two_hops (Some 1) [1, 2]"
  by (auto simp: cpath_list_def ring_def two_hops_def less_Suc_eq)

theorem cpath_assert_ok_witness: "cpath_assert_ok two_hops 1 = Some (Done ())"
  using cpath_assert_ok_decides [OF two_hops_list]
  by (simp add: hop_data_def two_hops_def cpath_assert_layer_ok_def relay_crypto_assert_ok_def zero_hop_def
      zero_crypto_def cpath_states unlinked_def)

theorem next_non_open_witness: "cpath_get_next_non_open_hop two_hops 1 = Some (Done (Some 2))"
  using next_non_open_is_first [OF two_hops_list]
  by (simp add: hop_data_def two_hops_def zero_hop_def cpath_states unlinked_def upt_rec)

end
