(* ===== verification/RelayCrypto.thy ===== *)
theory RelayCrypto
  imports CryptPath
begin

text \<open>
  The layers of encryption of relay cells, \<open>src/core/crypto/relay_crypto.c\<close>, with the header
  functions of \<open>src/core/or/relay.c\<close>, the per-hop functions of \<open>src/core/or/crypt_path.c\<close> and
  the digests \<open>src/core/or/sendme.c\<close> records for authenticated SENDME cells. The stream cipher
  and the running digest are OpenSSL's: a record of functions on their states. Copying a state
  (\<open>crypto_digest_checkpoint\<close>) is keeping the value.
\<close>

section \<open>Primitives\<close>

record ('c, 'd) prims =
  cipher_crypt :: "'c \<Rightarrow> byte list \<Rightarrow> byte list \<times> 'c"
  cipher_new :: "byte list \<Rightarrow> 'c option"
  digest_new :: "bool \<Rightarrow> 'd"
  digest_add :: "'d \<Rightarrow> byte list \<Rightarrow> 'd"
  digest_get :: "'d \<Rightarrow> nat \<Rightarrow> byte list"

text \<open>
  A counter-mode cipher adds a key stream: its next state depends on the length of the data
  only, and two ciphers in the same state undo each other. A digest of \<open>n\<close> bytes has \<open>n\<close> bytes.
\<close>

definition stream_cipher :: "('c, 'd) prims \<Rightarrow> bool" where
  "stream_cipher P \<longleftrightarrow>
     (\<forall>c x. length (fst (cipher_crypt P c x)) = length x \<and>
        fst (cipher_crypt P c (fst (cipher_crypt P c x))) = x) \<and>
     (\<forall>c x y. length x = length y \<longrightarrow> snd (cipher_crypt P c x) = snd (cipher_crypt P c y))"

definition digest_length :: "('c, 'd) prims \<Rightarrow> bool" where
  "digest_length P \<longleftrightarrow> (\<forall>d. length (digest_get P d 4) = 4)"

section \<open>Cells\<close>

record cell_t =
  cell_circ_id :: u32
  cell_command :: byte
  cell_payload :: "byte list"

record relay_header =
  rh_command :: byte
  rh_recognized :: u16
  rh_stream_id :: u16
  rh_integrity :: "byte list"
  rh_length :: u16

text \<open>A payload has \<open>CELL_PAYLOAD_SIZE\<close> bytes, the integrity part four.\<close>

definition relay_header_pack :: "byte list \<Rightarrow> relay_header \<Rightarrow> byte list" where
  "relay_header_pack dest src =
     [rh_command src] @ put16 (rh_recognized src) @ put16 (rh_stream_id src) @ rh_integrity src @
     put16 (rh_length src) @ drop RELAY_HEADER_SIZE dest"

definition relay_header_unpack :: "byte list \<Rightarrow> relay_header" where
  "relay_header_unpack src =
     \<lparr>rh_command = src ! 0, rh_recognized = get16 (drop 1 src), rh_stream_id = get16 (drop 3 src),
      rh_integrity = take 4 (drop 5 src), rh_length = get16 (drop 9 src)\<rparr>"

section \<open>One hop\<close>

definition relay_set_digest ::
  "('c, 'd) prims \<Rightarrow> 'd option \<Rightarrow> byte list \<Rightarrow> ('d option \<times> byte list) outcome" where
  "relay_set_digest P digest pl =
     (case digest of
        None \<Rightarrow> Stuck
      | Some d \<Rightarrow>
          let d' = digest_add P d pl;
              integrity = digest_get P d' 4;
              rh = relay_header_unpack pl
          in Done (Some d', relay_header_pack pl (rh\<lparr>rh_integrity := integrity\<rparr>)))"

definition relay_digest_matches ::
  "('c, 'd) prims \<Rightarrow> 'd option \<Rightarrow> byte list \<Rightarrow> (bool \<times> 'd option \<times> byte list) outcome" where
  "relay_digest_matches P digest pl =
     (case digest of
        None \<Rightarrow> Stuck
      | Some d \<Rightarrow>
          let rh = relay_header_unpack pl;
              received_integrity = rh_integrity rh;
              rh = rh\<lparr>rh_integrity := [0, 0, 0, 0]\<rparr>;
              pl = relay_header_pack pl rh;
              d' = digest_add P d pl;
              calculated_integrity = digest_get P d' 4
          in if calculated_integrity \<noteq> received_integrity
             then Done (False, Some d, relay_header_pack pl (rh\<lparr>rh_integrity := received_integrity\<rparr>))
             else Done (True, Some d', pl))"

definition relay_crypt_one_payload ::
  "('c, 'd) prims \<Rightarrow> 'c option \<Rightarrow> byte list \<Rightarrow> ('c option \<times> byte list) outcome" where
  "relay_crypt_one_payload P cipher buf =
     (case cipher of
        None \<Rightarrow> Stuck
      | Some c \<Rightarrow>
          obind (mem_get buf 0 CELL_PAYLOAD_SIZE) (\<lambda>x.
            case cipher_crypt P c x of (y, c') \<Rightarrow> Done (Some c', y @ drop CELL_PAYLOAD_SIZE buf)))"

definition relay_crypto_record_sendme_digest ::
  "('c, 'd) prims \<Rightarrow> bool \<Rightarrow> ('c, 'd) relay_crypto \<Rightarrow> ('c, 'd) relay_crypto outcome" where
  "relay_crypto_record_sendme_digest P is_forward_digest cry =
     (case (if is_forward_digest then f_digest cry else b_digest cry) of
        None \<Rightarrow> Stuck
      | Some d \<Rightarrow> Done (cry\<lparr>sendme_digest := digest_get P d DIGEST_LEN\<rparr>))"

definition CIPHER256_KEY_LEN :: nat where "CIPHER256_KEY_LEN = 32"
definition DIGEST256 :: nat where "DIGEST256 = 32"
definition CPATH_KEY_MATERIAL_LEN :: nat where "CPATH_KEY_MATERIAL_LEN = 20 * 2 + 16 * 2"
definition HS_NTOR_KEY_EXPANSION_KDF_OUT_LEN :: nat where
  "HS_NTOR_KEY_EXPANSION_KDF_OUT_LEN = DIGEST256 * 2 + CIPHER256_KEY_LEN * 2"

definition relay_crypto_init ::
  "('c, 'd) prims \<Rightarrow> ('c, 'd) relay_crypto \<Rightarrow> byte list \<Rightarrow> bool \<Rightarrow> bool \<Rightarrow> ('c, 'd) relay_crypto outcome" where
  "relay_crypto_init P cry key_data rvs is_hs_v3 =
     (if f_crypto cry \<noteq> None \<or> b_crypto cry \<noteq> None \<or> f_digest cry \<noteq> None \<or> b_digest cry \<noteq> None then Stuck
      else if is_hs_v3 \<and> length key_data \<noteq> HS_NTOR_KEY_EXPANSION_KDF_OUT_LEN then Fail
      else if \<not> is_hs_v3 \<and> length key_data \<noteq> CPATH_KEY_MATERIAL_LEN then Fail
      else
        let digest_len = (if is_hs_v3 then DIGEST256 else DIGEST_LEN);
            key_len = (if is_hs_v3 then CIPHER256_KEY_LEN else CIPHER_KEY_LEN);
            fd = digest_add P (digest_new P is_hs_v3) (take digest_len key_data);
            bd = digest_add P (digest_new P is_hs_v3) (take digest_len (drop digest_len key_data));
            fkey = take key_len (drop (2 * digest_len) key_data);
            bkey = take key_len (drop (2 * digest_len + key_len) key_data)
        in case (cipher_new P fkey, cipher_new P bkey) of
             (Some fc, Some bc) \<Rightarrow>
               Done (if rvs
                     then cry\<lparr>f_crypto := Some bc, b_crypto := Some fc, f_digest := Some bd, b_digest := Some fd\<rparr>
                     else cry\<lparr>f_crypto := Some fc, b_crypto := Some bc, f_digest := Some fd, b_digest := Some bd\<rparr>)
           | _ \<Rightarrow> Fail)"

definition cpath_init_circuit_crypto ::
  "('c, 'd) prims \<Rightarrow> ('c, 'd) crypt_path \<Rightarrow> byte list \<Rightarrow> bool \<Rightarrow> bool \<Rightarrow> ('c, 'd) crypt_path outcome" where
  "cpath_init_circuit_crypto P cp key_data rvs is_hs_v3 =
     obind (relay_crypto_init P (pvt_crypto cp) key_data rvs is_hs_v3) (\<lambda>cry. Done (cp\<lparr>pvt_crypto := cry\<rparr>))"

definition cpath_crypt_cell ::
  "('c, 'd) prims \<Rightarrow> ('c, 'd) crypt_path \<Rightarrow> byte list \<Rightarrow> bool \<Rightarrow> (('c, 'd) crypt_path \<times> byte list) outcome" where
  "cpath_crypt_cell P cp pl is_decrypt =
     (if is_decrypt
      then obind (relay_crypt_one_payload P (b_crypto (pvt_crypto cp)) pl) (\<lambda>(c, pl).
             Done (cp\<lparr>pvt_crypto := (pvt_crypto cp)\<lparr>b_crypto := c\<rparr>\<rparr>, pl))
      else obind (relay_crypt_one_payload P (f_crypto (pvt_crypto cp)) pl) (\<lambda>(c, pl).
             Done (cp\<lparr>pvt_crypto := (pvt_crypto cp)\<lparr>f_crypto := c\<rparr>\<rparr>, pl)))"

definition cpath_set_cell_forward_digest ::
  "('c, 'd) prims \<Rightarrow> ('c, 'd) crypt_path \<Rightarrow> byte list \<Rightarrow> (('c, 'd) crypt_path \<times> byte list) outcome" where
  "cpath_set_cell_forward_digest P cp pl =
     obind (relay_set_digest P (f_digest (pvt_crypto cp)) pl) (\<lambda>(d, pl).
       Done (cp\<lparr>pvt_crypto := (pvt_crypto cp)\<lparr>f_digest := d\<rparr>\<rparr>, pl))"

definition cpath_sendme_record_cell_digest ::
  "('c, 'd) prims \<Rightarrow> bool \<Rightarrow> ('c, 'd) crypt_path \<Rightarrow> ('c, 'd) crypt_path outcome" where
  "cpath_sendme_record_cell_digest P is_forward_digest cp =
     obind (relay_crypto_record_sendme_digest P is_forward_digest (pvt_crypto cp)) (\<lambda>cry.
       Done (cp\<lparr>pvt_crypto := cry\<rparr>))"

section \<open>Circuits\<close>

text \<open>
  The fields of \<open>circuit_t\<close> the relay code works on, and behind them those of an
  \<open>origin_circuit_t\<close> or of an \<open>or_circuit_t\<close>.
\<close>

record ('c, 'd) origin_part =
  hops :: "('c, 'd) hops"
  first_hop :: "nat option"
  remaining_relay_early_cells :: nat
  relay_early_commands :: "byte list"
  path_state :: nat

record ('c, 'd) or_part =
  or_crypto :: "('c, 'd) relay_crypto"
  p_chan :: "nat option"
  p_circ_id :: u32
  rend_splice :: "nat option"
  n_cells_discarded_at_end :: u32

datatype ('c, 'd) circuit_kind = Origin "('c, 'd) origin_part" | Or "('c, 'd) or_part"

record ('c, 'd) circuit =
  kind :: "('c, 'd) circuit_kind"
  n_chan :: "nat option"
  n_circ_id :: u32
  circ_purpose :: byte
  marked_for_close :: "int option"
  circ_package_window :: int
  circ_deliver_window :: int
  circ_ccontrol :: "congestion_control option"
  sendme_last_digests :: "byte list list option"

definition CIRCUIT_IS_ORIGIN :: "('c, 'd) circuit \<Rightarrow> bool" where
  "CIRCUIT_IS_ORIGIN c = (case kind c of Origin _ \<Rightarrow> True | Or _ \<Rightarrow> False)"

text \<open>\<open>TO_ORIGIN_CIRCUIT\<close> and \<open>TO_OR_CIRCUIT\<close> assert the kind.\<close>

definition with_origin ::
  "('c, 'd) circuit \<Rightarrow> (('c, 'd) origin_part \<Rightarrow> 'a outcome) \<Rightarrow> 'a outcome" where
  "with_origin c f = (case kind c of Origin oc \<Rightarrow> f oc | Or _ \<Rightarrow> Stuck)"

definition with_or ::
  "('c, 'd) circuit \<Rightarrow> (('c, 'd) or_part \<Rightarrow> 'a outcome) \<Rightarrow> 'a outcome" where
  "with_or c f = (case kind c of Or r \<Rightarrow> f r | Origin _ \<Rightarrow> Stuck)"

text \<open>A pointer into the path of the circuit: reading the hop, and changing it.\<close>

definition get_hop :: "('c, 'd) circuit \<Rightarrow> nat \<Rightarrow> ('c, 'd) crypt_path outcome" where
  "get_hop c hop = with_origin c (\<lambda>oc. deref (hops oc) (Some hop))"

definition update_hop ::
  "('c, 'd) circuit \<Rightarrow> nat \<Rightarrow> (('c, 'd) crypt_path \<Rightarrow> ('c, 'd) crypt_path outcome) \<Rightarrow> ('c, 'd) circuit outcome" where
  "update_hop c hop f =
     with_origin c (\<lambda>oc.
       obind (deref (hops oc) (Some hop)) (\<lambda>n.
       obind (f n) (\<lambda>n'. Done (c\<lparr>kind := Origin (oc\<lparr>hops := (hops oc)(hop \<mapsto> n')\<rparr>)\<rparr>))))"

definition update_or_crypto ::
  "('c, 'd) circuit \<Rightarrow> (('c, 'd) relay_crypto \<Rightarrow> ('c, 'd) relay_crypto outcome) \<Rightarrow> ('c, 'd) circuit outcome" where
  "update_or_crypto c f =
     with_or c (\<lambda>r. obind (f (or_crypto r)) (\<lambda>cry. Done (c\<lparr>kind := Or (r\<lparr>or_crypto := cry\<rparr>)\<rparr>)))"

section \<open>Digests for SENDME cells\<close>

definition CIRCWINDOW_INCREMENT :: int where "CIRCWINDOW_INCREMENT = 100"

text \<open>The window and the congestion control of the hop, or of the circuit at its end.\<close>

definition package_state :: "('c, 'd) circuit \<Rightarrow> nat option \<Rightarrow> (int \<times> congestion_control option) outcome" where
  "package_state c layer_hint =
     (case layer_hint of
        Some hop \<Rightarrow> obind (get_hop c hop) (\<lambda>n. Done (package_window n, hop_ccontrol n))
      | None \<Rightarrow> Done (circ_package_window c, circ_ccontrol c))"

text \<open>C's \<open>%\<close> on \<open>int\<close>: the remainder has the sign of the dividend.\<close>

definition c_mod :: "int \<Rightarrow> int \<Rightarrow> int" where
  "c_mod a b = (if a < 0 then - ((- a) mod \<bar>b\<bar>) else a mod \<bar>b\<bar>)"

text \<open>
  \<open>inflight + 1\<close> is computed in 64 bits; a zero increment divides by zero.
\<close>

definition circuit_sent_cell_for_sendme :: "('c, 'd) circuit \<Rightarrow> nat option \<Rightarrow> bool outcome" where
  "circuit_sent_cell_for_sendme c layer_hint =
     obind (package_state c layer_hint) (\<lambda>(window, cc).
       case cc of
         Some cc \<Rightarrow>
           if cc_inflight cc = 0 then Done False
           else if cc_sendme_inc cc = 0 then Stuck
           else Done ((cc_inflight cc + 1) mod ucast (cc_sendme_inc cc) = 0)
       | None \<Rightarrow>
           if window = CIRCWINDOW_START then Done False
           else Done (c_mod (window - 1) CIRCWINDOW_INCREMENT = 0))"

definition sendme_record_sending_cell_digest ::
  "('c, 'd) prims \<Rightarrow> ('c, 'd) circuit \<Rightarrow> nat option \<Rightarrow> ('c, 'd) circuit outcome" where
  "sendme_record_sending_cell_digest P c layer_hint =
     obind (circuit_sent_cell_for_sendme c layer_hint) (\<lambda>nxt_is_sendme.
       if \<not> nxt_is_sendme then Done c
       else case layer_hint of
              Some hop \<Rightarrow> update_hop c hop (cpath_sendme_record_cell_digest P True)
            | None \<Rightarrow> update_or_crypto c (relay_crypto_record_sendme_digest P False))"

section \<open>Encryption and decryption\<close>

partial_function (option) encrypt_loop ::
  "('c, 'd) prims \<Rightarrow> ('c, 'd) hops \<Rightarrow> nat option \<Rightarrow> nat option \<Rightarrow> byte list \<Rightarrow>
     (('c, 'd) hops \<times> byte list) outcome option" where
  "encrypt_loop P h stop thishop pl =
     (case obind (deref h thishop) (\<lambda>n.
             obind (cpath_crypt_cell P n pl False) (\<lambda>(n', pl').
             obind (store h thishop (\<lambda>_. n')) (\<lambda>h'. Done (h', pl', prv n')))) of
        Done (h', pl', prev) \<Rightarrow>
          if prev \<noteq> stop then encrypt_loop P h' stop prev pl' else Some (Done (h', pl'))
      | Fail \<Rightarrow> Some Fail
      | Stuck \<Rightarrow> Some Stuck)"

definition set_hops :: "('c, 'd) circuit \<Rightarrow> ('c, 'd) hops \<Rightarrow> ('c, 'd) circuit" where
  "set_hops c h = (case kind c of Origin oc \<Rightarrow> c\<lparr>kind := Origin (oc\<lparr>hops := h\<rparr>)\<rparr> | Or _ \<Rightarrow> c)"

definition relay_encrypt_cell_outbound ::
  "('c, 'd) prims \<Rightarrow> byte list \<Rightarrow> ('c, 'd) circuit \<Rightarrow> nat \<Rightarrow>
     (('c, 'd) circuit \<times> byte list) outcome option" where
  "relay_encrypt_cell_outbound P pl circ layer_hint =
     (case obind (get_hop circ layer_hint) (\<lambda>n.
             obind (cpath_set_cell_forward_digest P n pl) (\<lambda>(n', pl').
             obind (update_hop circ layer_hint (\<lambda>_. Done n')) (\<lambda>circ.
             obind (sendme_record_sending_cell_digest P circ (Some layer_hint)) (\<lambda>circ.
               with_origin circ (\<lambda>oc.
               obind (deref (hops oc) (first_hop oc)) (\<lambda>first. Done (circ, hops oc, prv first, pl')))))) ) of
        Done (circ, h, stop, pl') \<Rightarrow>
          map_option (\<lambda>r. obind r (\<lambda>(h', pl''). Done (set_hops circ h', pl''))) (encrypt_loop P h stop (Some layer_hint) pl')
      | Fail \<Rightarrow> Some Fail
      | Stuck \<Rightarrow> Some Stuck)"

definition relay_encrypt_cell_inbound ::
  "('c, 'd) prims \<Rightarrow> byte list \<Rightarrow> ('c, 'd) circuit \<Rightarrow> (('c, 'd) circuit \<times> byte list) outcome" where
  "relay_encrypt_cell_inbound P pl circ =
     with_or circ (\<lambda>r.
     obind (relay_set_digest P (b_digest (or_crypto r)) pl) (\<lambda>(d, pl).
     obind (sendme_record_sending_cell_digest P
              (circ\<lparr>kind := Or (r\<lparr>or_crypto := (or_crypto r)\<lparr>b_digest := d\<rparr>\<rparr>)\<rparr>) None) (\<lambda>circ.
     with_or circ (\<lambda>r.
     obind (relay_crypt_one_payload P (b_crypto (or_crypto r)) pl) (\<lambda>(c, pl).
       Done (circ\<lparr>kind := Or (r\<lparr>or_crypto := (or_crypto r)\<lparr>b_crypto := c\<rparr>\<rparr>)\<rparr>, pl))))))"

text \<open>One pass of the loop at the origin: \<open>Inl\<close> recognized, \<open>Inr\<close> to go on with the next hop.\<close>

definition decrypt_at_hop ::
  "('c, 'd) prims \<Rightarrow> ('c, 'd) hops \<Rightarrow> nat \<Rightarrow> byte list \<Rightarrow> (bool \<times> ('c, 'd) hops \<times> byte list \<times> nat option) outcome" where
  "decrypt_at_hop P h hop pl =
     obind (deref h (Some hop)) (\<lambda>n.
     obind (cpath_crypt_cell P n pl True) (\<lambda>(n, pl).
     obind (if rh_recognized (relay_header_unpack pl) = 0
            then obind (relay_digest_matches P (b_digest (pvt_crypto n)) pl) (\<lambda>(m, d, pl).
                   Done (m, n\<lparr>pvt_crypto := (pvt_crypto n)\<lparr>b_digest := d\<rparr>\<rparr>, pl))
            else Done (False, n, pl)) (\<lambda>(recognized, n, pl).
       Done (recognized, h(hop \<mapsto> n), pl, nxt n))))"

partial_function (option) decrypt_loop ::
  "('c, 'd) prims \<Rightarrow> ('c, 'd) hops \<Rightarrow> nat \<Rightarrow> nat \<Rightarrow> byte list \<Rightarrow>
     (('c, 'd) hops \<times> byte list \<times> nat) outcome option" where
  "decrypt_loop P h first thishop pl =
     (case decrypt_at_hop P h thishop pl of
        Done (recognized, h', pl', next_hop) \<Rightarrow>
          if recognized then Some (Done (h', pl', thishop))
          else if next_hop = Some first then Some Fail
          else (case deref h' next_hop of
                  Done n \<Rightarrow> if cp_state n = CPATH_STATE_OPEN
                            then decrypt_loop P h' first (the next_hop) pl' else Some Fail
                | _ \<Rightarrow> Some Stuck)
      | Fail \<Rightarrow> Some Fail
      | Stuck \<Rightarrow> Some Stuck)"

datatype direction = CELL_DIRECTION_IN | CELL_DIRECTION_OUT

definition relay_decrypt_or ::
  "('c, 'd) prims \<Rightarrow> ('c, 'd) circuit \<Rightarrow> byte list \<Rightarrow> direction \<Rightarrow> (('c, 'd) circuit \<times> byte list \<times> bool) outcome" where
  "relay_decrypt_or P circ pl dir =
     with_or circ (\<lambda>r. let cry = or_crypto r in
       case dir of
         CELL_DIRECTION_IN \<Rightarrow>
           obind (relay_crypt_one_payload P (b_crypto cry) pl) (\<lambda>(c, pl).
             Done (circ\<lparr>kind := Or (r\<lparr>or_crypto := cry\<lparr>b_crypto := c\<rparr>\<rparr>)\<rparr>, pl, False))
       | CELL_DIRECTION_OUT \<Rightarrow>
           obind (relay_crypt_one_payload P (f_crypto cry) pl) (\<lambda>(c, pl).
           let cry = cry\<lparr>f_crypto := c\<rparr>
           in if rh_recognized (relay_header_unpack pl) = 0
              then obind (relay_digest_matches P (f_digest cry) pl) (\<lambda>(m, d, pl).
                     Done (circ\<lparr>kind := Or (r\<lparr>or_crypto := cry\<lparr>f_digest := d\<rparr>\<rparr>)\<rparr>, pl, m))
              else Done (circ\<lparr>kind := Or (r\<lparr>or_crypto := cry\<rparr>)\<rparr>, pl, False)))"

text \<open>The result: the circuit, the payload, the hop that recognized it, whether it was recognized.\<close>

definition relay_decrypt_cell ::
  "('c, 'd) prims \<Rightarrow> ('c, 'd) circuit \<Rightarrow> byte list \<Rightarrow> direction \<Rightarrow>
     (('c, 'd) circuit \<times> byte list \<times> nat option \<times> bool) outcome option" where
  "relay_decrypt_cell P circ pl dir =
     (if dir = CELL_DIRECTION_IN \<and> CIRCUIT_IS_ORIGIN circ
      then (case with_origin circ (\<lambda>oc. obind (deref (hops oc) (first_hop oc)) (\<lambda>n.
                   if cp_state n \<noteq> CPATH_STATE_OPEN then Fail else Done (hops oc, the (first_hop oc)))) of
              Done (h, first) \<Rightarrow>
                map_option (\<lambda>r. obind r (\<lambda>(h', pl', hop). Done (set_hops circ h', pl', Some hop, True)))
                  (decrypt_loop P h first first pl)
            | Fail \<Rightarrow> Some Fail
            | Stuck \<Rightarrow> Some Stuck)
      else Some (obind (relay_decrypt_or P circ pl dir) (\<lambda>(circ, pl, m). Done (circ, pl, None, m))))"

section \<open>Integrity of one cell\<close>

lemma put16_get16: "2 \<le> length bs \<Longrightarrow> put16 (get16 bs) = take 2 bs"
proof -
  assume "2 \<le> length bs"
  then obtain a b r where bs: "bs = a # b # r" by (metis Suc_le_length_iff numeral_2_eq_2)
  have "ucast (drop_bit 8 (get16 bs)) = a" "ucast (get16 bs) = b"
    unfolding bs get16_def by (rule bit_word_eqI, auto simp: bit_simps dest: bit_imp_le_length)+
  then show ?thesis by (simp add: bs put16_def)
qed

definition with_integrity :: "byte list \<Rightarrow> byte list \<Rightarrow> byte list" where
  "with_integrity pl x = take 5 pl @ x @ drop 9 pl"

definition integrity_of :: "byte list \<Rightarrow> byte list" where
  "integrity_of pl = take 4 (drop 5 pl)"

definition recognized_of :: "byte list \<Rightarrow> u16" where
  "recognized_of pl = get16 (drop 1 pl)"

lemma length_with_integrity [simp]:
  "length pl = CELL_PAYLOAD_SIZE \<Longrightarrow> length x = 4 \<Longrightarrow> length (with_integrity pl x) = CELL_PAYLOAD_SIZE"
  by (simp add: with_integrity_def CELL_PAYLOAD_SIZE_def)

lemma with_integrity_twice [simp]:
  "length pl = CELL_PAYLOAD_SIZE \<Longrightarrow> length x = 4 \<Longrightarrow> with_integrity (with_integrity pl x) y = with_integrity pl y"
  by (simp add: with_integrity_def CELL_PAYLOAD_SIZE_def)

lemma with_own_integrity [simp]: "with_integrity pl (integrity_of pl) = pl"
proof -
  have "drop 9 pl = drop 4 (drop 5 pl)" by simp
  then show ?thesis unfolding with_integrity_def integrity_of_def by (simp del: drop_drop)
qed

lemma integrity_with [simp]:
  "length pl = CELL_PAYLOAD_SIZE \<Longrightarrow> length x = 4 \<Longrightarrow> integrity_of (with_integrity pl x) = x"
  by (simp add: with_integrity_def integrity_of_def CELL_PAYLOAD_SIZE_def)

lemma recognized_with [simp]:
  "length pl = CELL_PAYLOAD_SIZE \<Longrightarrow> recognized_of (with_integrity pl x) = recognized_of pl"
  by (simp add: with_integrity_def recognized_of_def CELL_PAYLOAD_SIZE_def get16_def nth_append)

lemma pack_unpack:
  assumes "length pl = CELL_PAYLOAD_SIZE"
  shows "relay_header_pack pl ((relay_header_unpack pl)\<lparr>rh_integrity := x\<rparr>) = with_integrity pl x"
proof -
  have l: "11 \<le> length pl" using assms by (simp add: CELL_PAYLOAD_SIZE_def)
  have "[pl ! 0] @ take 2 (drop 1 pl) @ take 2 (drop 3 pl) = take 5 pl"
    using l by (auto intro!: nth_equalityI simp: nth_append nth_Cons' less_Suc_eq)
  moreover have "take 2 (drop 9 pl) @ drop 11 pl = drop 9 pl"
  proof -
    have "drop 11 pl = drop 2 (drop 9 pl)" by simp
    then show ?thesis by (simp del: drop_drop)
  qed
  ultimately show ?thesis
    using l by (simp add: relay_header_pack_def relay_header_unpack_def with_integrity_def
        put16_get16 RELAY_HEADER_SIZE_def)
qed

lemma unpack_fields [simp]:
  "rh_recognized (relay_header_unpack pl) = recognized_of pl"
  "rh_integrity (relay_header_unpack pl) = integrity_of pl"
  by (simp_all add: relay_header_unpack_def recognized_of_def integrity_of_def)

lemma set_digest_eq:
  "length pl = CELL_PAYLOAD_SIZE \<Longrightarrow>
    relay_set_digest P (Some d) pl = Done (Some (digest_add P d pl), with_integrity pl (digest_get P (digest_add P d pl) 4))"
  by (simp add: relay_set_digest_def pack_unpack Let_def)

text \<open>A payload that a digest in state \<open>d\<close> accepts.\<close>

definition zeroed :: "byte list \<Rightarrow> byte list" where
  "zeroed pl = with_integrity pl [0, 0, 0, 0]"

definition accepts :: "('c, 'd) prims \<Rightarrow> 'd \<Rightarrow> byte list \<Rightarrow> bool" where
  "accepts P d pl \<longleftrightarrow> recognized_of pl = 0 \<and> digest_get P (digest_add P d (zeroed pl)) 4 = integrity_of pl"

lemma digest_matches_eq:
  assumes "length pl = CELL_PAYLOAD_SIZE" "recognized_of pl = 0"
  shows "relay_digest_matches P (Some d) pl =
    (if accepts P d pl then Done (True, Some (digest_add P d (zeroed pl)), zeroed pl) else Done (False, Some d, pl))"
proof -
  have "relay_header_pack (with_integrity pl [0, 0, 0, 0])
      (((relay_header_unpack pl)\<lparr>rh_integrity := [0, 0, 0, 0]\<rparr>)\<lparr>rh_integrity := integrity_of pl\<rparr>) = pl"
    using pack_unpack [of pl "integrity_of pl"] assms(1) with_own_integrity [of pl]
    by (simp add: relay_header_pack_def with_integrity_def CELL_PAYLOAD_SIZE_def RELAY_HEADER_SIZE_def)
  then show ?thesis
    using assms by (simp add: relay_digest_matches_def pack_unpack Let_def accepts_def zeroed_def)
qed

lemma accepts_own:
  fixes d :: 'd and P :: "('c, 'd) prims"
  assumes "length pl = CELL_PAYLOAD_SIZE" "digest_length P" "recognized_of pl = 0" "integrity_of pl = [0, 0, 0, 0]"
  defines "m \<equiv> with_integrity pl (digest_get P (digest_add P d pl) 4)"
  shows "accepts P d m" "zeroed m = pl"
proof -
  have l: "length (digest_get P (digest_add P d pl) 4) = 4" using assms(2) by (simp add: digest_length_def)
  show z: "zeroed m = pl"
    using assms(1,4) l with_own_integrity [of pl] by (simp add: zeroed_def m_def)
  show "accepts P d m" using z assms(1,3) l by (simp add: accepts_def m_def)
qed

section \<open>The hops as a list\<close>

definition cryptos :: "('c, 'd) hops \<Rightarrow> nat list \<Rightarrow> ('c, 'd) relay_crypto list" where
  "cryptos h xs = map (\<lambda>a. pvt_crypto (the (h a))) xs"

definition sans_crypto :: "('c, 'd) crypt_path \<Rightarrow> ('c, 'd) crypt_path" where
  "sans_crypto n = n\<lparr>pvt_crypto := zero_crypto\<rparr>"

text \<open>Two stores that differ in the cryptographic state of the hops only.\<close>

definition same_path :: "('c, 'd) hops \<Rightarrow> ('c, 'd) hops \<Rightarrow> bool" where
  "same_path h h' \<longleftrightarrow> (\<forall>a. map_option sans_crypto (h a) = map_option sans_crypto (h' a))"

lemma length_cryptos [simp]: "length (cryptos h xs) = length xs"
  by (simp add: cryptos_def)

lemma cryptos_nth: "i < length xs \<Longrightarrow> h (xs ! i) = Some n \<Longrightarrow> cryptos h xs ! i = pvt_crypto n"
  by (simp add: cryptos_def)

lemma same_path_refl [simp]: "same_path h h"
  by (simp add: same_path_def)

lemma same_path_trans: "same_path h h' \<Longrightarrow> same_path h' h'' \<Longrightarrow> same_path h h''"
  by (simp add: same_path_def)

lemma sans_crypto_fields:
  "sans_crypto n = sans_crypto m \<Longrightarrow> cp_state n = cp_state m \<and> nxt n = nxt m \<and> prv n = prv m \<and>
    package_window n = package_window m \<and> deliver_window n = deliver_window m \<and> hop_ccontrol n = hop_ccontrol m"
  by (cases n; cases m) (simp add: sans_crypto_def)

lemma same_path_Some:
  assumes "same_path h h'" "h a = Some n"
  obtains m where "h' a = Some m" "sans_crypto m = sans_crypto n"
  using assms unfolding same_path_def by (metis map_option_eq_Some)

lemma same_path_sym: "same_path h h' \<Longrightarrow> same_path h' h"
  by (simp add: same_path_def)

lemma ring_same_path:
  assumes sp: "same_path h h'" and r: "ring h xs"
  shows "ring h' xs"
  unfolding ring_def
proof (intro conjI allI impI)
  show "distinct xs" using r by (simp add: ring_def)
  fix i assume i: "i < length xs"
  obtain n where n: "h (xs ! i) = Some n" "nxt n = Some (xs ! (Suc i mod length xs))"
    "prv n = Some (xs ! ((i + (length xs - 1)) mod length xs))" using ring_node [OF r i] .
  obtain m where "h' (xs ! i) = Some m" "sans_crypto m = sans_crypto n" using same_path_Some [OF sp n(1)] .
  then show "\<exists>n. h' (xs ! i) = Some n \<and> nxt n = Some (xs ! (Suc i mod length xs)) \<and>
      prv n = Some (xs ! ((i + (length xs - 1)) mod length xs))"
    using n(2,3) sans_crypto_fields [of m n] by auto
qed

lemma ring_upd_crypto:
  assumes "ring h xs" "i < length xs" "h (xs ! i) = Some n" "sans_crypto n' = sans_crypto n"
  shows "same_path h (h(xs ! i \<mapsto> n'))" "ring (h(xs ! i \<mapsto> n')) xs"
    "cryptos (h(xs ! i \<mapsto> n')) xs = (cryptos h xs)[i := pvt_crypto n']"
proof -
  show sp: "same_path h (h(xs ! i \<mapsto> n'))" using assms(3,4) by (simp add: same_path_def)
  then show "ring (h(xs ! i \<mapsto> n')) xs" using assms(1) ring_same_path by blast
  show "cryptos (h(xs ! i \<mapsto> n')) xs = (cryptos h xs)[i := pvt_crypto n']"
    using assms(1,2) by (intro nth_equalityI) (auto simp: cryptos_def ring_def nth_eq_iff_index_eq nth_list_update)
qed

section \<open>The loops on the list\<close>

text \<open>A cell's worth of key stream.\<close>

definition apply_cipher :: "('c, 'd) prims \<Rightarrow> 'c option \<Rightarrow> byte list \<Rightarrow> byte list" where
  "apply_cipher P c x = fst (cipher_crypt P (the c) x)"

definition next_cipher :: "('c, 'd) prims \<Rightarrow> 'c option \<Rightarrow> 'c option" where
  "next_cipher P c = map_option (\<lambda>c. snd (cipher_crypt P c (replicate CELL_PAYLOAD_SIZE 0))) c"

lemma apply_cipher_length [simp]: "stream_cipher P \<Longrightarrow> length (apply_cipher P c x) = length x"
  by (simp add: stream_cipher_def apply_cipher_def)

lemma apply_cipher_twice [simp]: "stream_cipher P \<Longrightarrow> apply_cipher P c (apply_cipher P c x) = x"
  by (simp add: stream_cipher_def apply_cipher_def)

lemma next_cipher_None [simp]: "next_cipher P c = None \<longleftrightarrow> c = None"
  by (simp add: next_cipher_def)

lemma crypt_one_eq:
  assumes "stream_cipher P" "length pl = CELL_PAYLOAD_SIZE" "c \<noteq> None"
  shows "relay_crypt_one_payload P c pl = Done (next_cipher P c, apply_cipher P c pl)"
proof -
  obtain k where k: "c = Some k" using assms(3) by auto
  have "snd (cipher_crypt P k pl) = snd (cipher_crypt P k (replicate CELL_PAYLOAD_SIZE 0))"
    using assms(1,2) unfolding stream_cipher_def by (metis length_replicate)
  then show ?thesis
    using assms(2) k by (cases "cipher_crypt P k pl")
      (simp add: relay_crypt_one_payload_def mem_get_def next_cipher_def apply_cipher_def)
qed

definition f_step :: "('c, 'd) prims \<Rightarrow> ('c, 'd) relay_crypto \<Rightarrow> ('c, 'd) relay_crypto" where
  "f_step P cry = cry\<lparr>f_crypto := next_cipher P (f_crypto cry)\<rparr>"

definition b_step :: "('c, 'd) prims \<Rightarrow> ('c, 'd) relay_crypto \<Rightarrow> ('c, 'd) relay_crypto" where
  "b_step P cry = cry\<lparr>b_crypto := next_cipher P (b_crypto cry)\<rparr>"

text \<open>The first hop's layer is outermost.\<close>

fun layers :: "('c, 'd) prims \<Rightarrow> ('c, 'd) relay_crypto list \<Rightarrow> byte list \<Rightarrow> byte list" where
  "layers P [] pl = pl"
| "layers P (c # cs) pl = apply_cipher P (f_crypto c) (layers P cs pl)"

lemma layers_length [simp]: "stream_cipher P \<Longrightarrow> length (layers P cs pl) = length pl"
  by (induction cs) auto

lemma layers_append: "layers P (cs @ ds) pl = layers P cs (layers P ds pl)"
  by (induction cs) auto

lemma take_upd: "i < length cs \<Longrightarrow> take i (cs[i := c]) = take i cs" "drop (Suc i) (cs[i := c]) = drop (Suc i) cs"
  by auto

lemma encrypt_loop_list:
  assumes r: "ring h xs" and P: "stream_cipher P" and i: "i < length xs"
    and keys: "\<forall>c \<in> set (take (Suc i) (cryptos h xs)). f_crypto c \<noteq> None" and l: "length pl = CELL_PAYLOAD_SIZE"
  shows "\<exists>h'. encrypt_loop P h (Some (xs ! (length xs - 1))) (Some (xs ! i)) pl =
      Some (Done (h', layers P (take (Suc i) (cryptos h xs)) pl)) \<and> same_path h h' \<and>
    cryptos h' xs = map (f_step P) (take (Suc i) (cryptos h xs)) @ drop (Suc i) (cryptos h xs)"
  using r i keys l
proof (induction i arbitrary: h pl)
  case (0 h pl)
  have len: "0 < length xs" using 0 by simp
  obtain n where n: "h (xs ! 0) = Some n" "prv n = Some (xs ! ((0 + (length xs - 1)) mod length xs))"
    using ring_node [OF 0(1) len] .
  have c: "cryptos h xs ! 0 = pvt_crypto n" by (rule cryptos_nth [where h = h, OF len n(1)])
  then have cs: "cryptos h xs = pvt_crypto n # drop (Suc 0) (cryptos h xs)"
    using len by (metis Cons_nth_drop_Suc drop_0 length_cryptos)
  then have k: "f_crypto (pvt_crypto n) \<noteq> None" using 0(3) by (metis list.set_intros(1) take_Suc_Cons)
  let ?n = "n\<lparr>pvt_crypto := f_step P (pvt_crypto n)\<rparr>"
  have "cpath_crypt_cell P n pl False = Done (?n, apply_cipher P (f_crypto (pvt_crypto n)) pl)"
    using crypt_one_eq [OF P 0(4) k] by (simp add: cpath_crypt_cell_def f_step_def)
  then have "encrypt_loop P h (Some (xs ! (length xs - 1))) (Some (xs ! 0)) pl =
      Some (Done (h(xs ! 0 \<mapsto> ?n), apply_cipher P (f_crypto (pvt_crypto n)) pl))"
    using n len by (subst encrypt_loop.simps) simp
  moreover have "take (Suc 0) (cryptos h xs) = [pvt_crypto n]" by (subst cs) simp
  moreover have "(cryptos h xs)[0 := f_step P (pvt_crypto n)] = f_step P (pvt_crypto n) # drop (Suc 0) (cryptos h xs)"
    by (subst cs) simp
  ultimately show ?case
    using ring_upd_crypto(1,3) [where h = h, OF 0(1) len n(1), of ?n] by (simp add: sans_crypto_def)
next
  case (Suc i h pl)
  have len: "Suc i < length xs" using Suc.prems by simp
  obtain n where n: "h (xs ! Suc i) = Some n" by (rule ring_node [OF Suc.prems(1) len])
  have pv: "prv n = Some (xs ! i)" using ring_prev [OF Suc.prems(1) len n] by simp
  have last: "xs ! i \<noteq> xs ! (length xs - 1)"
    using Suc.prems(1) len by (simp add: ring_def nth_eq_iff_index_eq)
  have c: "cryptos h xs ! Suc i = pvt_crypto n" by (rule cryptos_nth [where h = h, OF len n])
  have tk: "take (Suc (Suc i)) (cryptos h xs) = take (Suc i) (cryptos h xs) @ [pvt_crypto n]"
    using len c by (simp add: take_Suc_conv_app_nth)
  have k: "f_crypto (pvt_crypto n) \<noteq> None" using Suc.prems(3) unfolding tk by simp
  let ?n = "n\<lparr>pvt_crypto := f_step P (pvt_crypto n)\<rparr>" and ?pl = "apply_cipher P (f_crypto (pvt_crypto n)) pl"
  let ?h = "h(xs ! Suc i \<mapsto> ?n)"
  have "cpath_crypt_cell P n pl False = Done (?n, ?pl)"
    using crypt_one_eq [OF P Suc.prems(4) k] by (simp add: cpath_crypt_cell_def f_step_def)
  then have go: "encrypt_loop P h (Some (xs ! (length xs - 1))) (Some (xs ! Suc i)) pl =
      encrypt_loop P ?h (Some (xs ! (length xs - 1))) (Some (xs ! i)) ?pl"
    using n pv last by (subst encrypt_loop.simps) simp
  have sc: "sans_crypto ?n = sans_crypto n" by (simp add: sans_crypto_def)
  note upd = ring_upd_crypto [where h = h, OF Suc.prems(1) len n sc]
  have up: "take (Suc i) (cryptos ?h xs) = take (Suc i) (cryptos h xs)"
    "drop (Suc i) (cryptos ?h xs) = f_step P (pvt_crypto n) # drop (Suc (Suc i)) (cryptos h xs)"
    using len by (simp_all add: upd(3) drop_update_swap flip: Cons_nth_drop_Suc)
  have 1: "i < length xs" using len by simp
  have 2: "\<forall>c \<in> set (take (Suc i) (cryptos ?h xs)). f_crypto c \<noteq> None"
    using Suc.prems(3) unfolding up(1) tk by simp
  have 3: "length ?pl = CELL_PAYLOAD_SIZE" using P Suc.prems(4) by simp
  from Suc.IH [of ?h ?pl, OF upd(2) 1 2 3, unfolded up] obtain h' where h':
    "encrypt_loop P ?h (Some (xs ! (length xs - 1))) (Some (xs ! i)) ?pl =
      Some (Done (h', layers P (take (Suc i) (cryptos h xs)) ?pl))" "same_path ?h h'"
    "cryptos h' xs = map (f_step P) (take (Suc i) (cryptos h xs)) @ f_step P (pvt_crypto n) # drop (Suc (Suc i)) (cryptos h xs)"
    by blast
  show ?case
    using go h' same_path_trans [OF upd(1) h'(2)] unfolding tk
    by (intro exI [of _ h'] conjI) (simp_all add: layers_append)
qed

text \<open>What the origin does with an incoming cell: layers come off until a digest accepts.\<close>

definition b_accept :: "('c, 'd) prims \<Rightarrow> ('c, 'd) relay_crypto \<Rightarrow> byte list \<Rightarrow> ('c, 'd) relay_crypto" where
  "b_accept P c pl = c\<lparr>b_digest := Some (digest_add P (the (b_digest c)) (zeroed pl))\<rparr>"

fun peel ::
  "('c, 'd) prims \<Rightarrow> ('c, 'd) relay_crypto list \<Rightarrow> byte list \<Rightarrow>
     (('c, 'd) relay_crypto list \<times> byte list \<times> nat) option" where
  "peel P [] pl = None"
| "peel P (c # cs) pl =
     (let pl' = apply_cipher P (b_crypto c) pl
      in if accepts P (the (b_digest c)) pl'
         then Some (b_accept P (b_step P c) pl' # cs, zeroed pl', 0)
         else map_option (\<lambda>(cs', x, i). (b_step P c # cs', x, Suc i)) (peel P cs pl'))"

definition has_keys :: "('c, 'd) relay_crypto \<Rightarrow> bool" where
  "has_keys c \<longleftrightarrow> f_crypto c \<noteq> None \<and> b_crypto c \<noteq> None \<and> f_digest c \<noteq> None \<and> b_digest c \<noteq> None"

lemma has_keys_steps [simp]:
  "has_keys (f_step P c) = has_keys c" "has_keys (b_step P c) = has_keys c"
  "has_keys c \<Longrightarrow> has_keys (b_accept P c pl)"
  by (auto simp: has_keys_def f_step_def b_step_def b_accept_def)

lemma not_recognized_not_accepted: "recognized_of pl \<noteq> 0 \<Longrightarrow> \<not> accepts P d pl"
  by (simp add: accepts_def)

lemma decrypt_at_hop_eq:
  assumes P: "stream_cipher P" and l: "length pl = CELL_PAYLOAD_SIZE" and h: "h hop = Some n"
    and k: "has_keys (pvt_crypto n)"
  defines "pl' \<equiv> apply_cipher P (b_crypto (pvt_crypto n)) pl" and "c \<equiv> pvt_crypto n"
  shows "decrypt_at_hop P h hop pl =
    (if accepts P (the (b_digest c)) pl'
     then Done (True, h(hop \<mapsto> n\<lparr>pvt_crypto := b_accept P (b_step P c) pl'\<rparr>), zeroed pl', nxt n)
     else Done (False, h(hop \<mapsto> n\<lparr>pvt_crypto := b_step P c\<rparr>), pl', nxt n))"
proof -
  obtain d where d: "b_digest (pvt_crypto n) = Some d" using k by (auto simp: has_keys_def)
  have bc: "b_crypto (pvt_crypto n) \<noteq> None" using k by (simp add: has_keys_def)
  have l': "length pl' = CELL_PAYLOAD_SIZE" using P l by (simp add: pl'_def)
  have "cpath_crypt_cell P n pl True = Done (n\<lparr>pvt_crypto := b_step P c\<rparr>, pl')"
    using crypt_one_eq [OF P l bc] by (simp add: cpath_crypt_cell_def b_step_def pl'_def c_def)
  then show ?thesis
    using h d l' digest_matches_eq [OF l', of P d]
    by (cases "recognized_of pl' = 0")
       (auto simp: decrypt_at_hop_def b_step_def b_accept_def c_def not_recognized_not_accepted)
qed

lemma decrypt_loop_accept:
  assumes r: "ring h xs" and P: "stream_cipher P" and i: "i < length xs" and l: "length pl = CELL_PAYLOAD_SIZE"
    and n: "h (xs ! i) = Some n" and k: "has_keys (pvt_crypto n)"
    and acc: "accepts P (the (b_digest (pvt_crypto n))) (apply_cipher P (b_crypto (pvt_crypto n)) pl)"
  shows "\<exists>cs' x h'. peel P (drop i (cryptos h xs)) pl = Some (cs', x, 0) \<and>
    decrypt_loop P h (xs ! 0) (xs ! i) pl = Some (Done (h', x, xs ! i)) \<and>
    same_path h h' \<and> cryptos h' xs = take i (cryptos h xs) @ cs'"
proof -
  let ?pl = "apply_cipher P (b_crypto (pvt_crypto n)) pl"
  let ?n = "n\<lparr>pvt_crypto := b_accept P (b_step P (pvt_crypto n)) ?pl\<rparr>"
  have dr: "drop i (cryptos h xs) = pvt_crypto n # drop (Suc i) (cryptos h xs)"
    using i cryptos_nth [where h = h, OF i n] by (simp add: Cons_nth_drop_Suc [symmetric])
  have sc: "sans_crypto ?n = sans_crypto n" by (simp add: sans_crypto_def)
  have "decrypt_loop P h (xs ! 0) (xs ! i) pl = Some (Done (h(xs ! i \<mapsto> ?n), zeroed ?pl, xs ! i))"
    using decrypt_at_hop_eq [where h = h, OF P l n k] acc by (subst decrypt_loop.simps) simp
  moreover have "(cryptos h xs)[i := pvt_crypto ?n] = take i (cryptos h xs) @ pvt_crypto ?n # drop (Suc i) (cryptos h xs)"
    using i by (simp add: upd_conv_take_nth_drop)
  moreover have "peel P (drop i (cryptos h xs)) pl =
      Some (pvt_crypto ?n # drop (Suc i) (cryptos h xs), zeroed ?pl, 0)"
    unfolding dr using acc by (simp add: Let_def)
  ultimately show ?thesis
    using ring_upd_crypto(1,3) [where h = h, OF r i n sc] by (simp del: fun_upd_apply)
qed

lemma decrypt_loop_pass:
  assumes r: "ring h xs" and P: "stream_cipher P" and i: "i < length xs" and l: "length pl = CELL_PAYLOAD_SIZE"
    and n: "h (xs ! i) = Some n" and k: "has_keys (pvt_crypto n)"
    and pass: "\<not> accepts P (the (b_digest (pvt_crypto n))) (apply_cipher P (b_crypto (pvt_crypto n)) pl)"
    and op: "\<forall>a \<in> set xs. \<forall>n. h a = Some n \<longrightarrow> cp_state n = CPATH_STATE_OPEN"
  shows "decrypt_loop P h (xs ! 0) (xs ! i) pl =
    (if Suc i = length xs then Some Fail
     else decrypt_loop P (h(xs ! i \<mapsto> n\<lparr>pvt_crypto := b_step P (pvt_crypto n)\<rparr>)) (xs ! 0) (xs ! Suc i)
            (apply_cipher P (b_crypto (pvt_crypto n)) pl))"
proof (cases "Suc i = length xs")
  case True
  then show ?thesis
    using decrypt_at_hop_eq [where h = h, OF P l n k] pass ring_next(1) [OF r i n] by (subst decrypt_loop.simps) simp
next
  case False
  then have i': "Suc i < length xs" using i by simp
  obtain m where m: "h (xs ! Suc i) = Some m" by (rule ring_node [OF r i'])
  have "xs ! Suc i \<noteq> xs ! i" using r i' by (simp add: ring_def nth_eq_iff_index_eq)
  moreover have "cp_state m = CPATH_STATE_OPEN" using op m i' nth_mem by blast
  ultimately show ?thesis
    using decrypt_at_hop_eq [where h = h, OF P l n k] pass False ring_next(1) [OF r i n] ring_next(2) [OF r i n i'] m
    by (subst decrypt_loop.simps) simp
qed

lemma decrypt_loop_list:
  assumes "ring h xs" "stream_cipher P" "i < length xs" "length pl = CELL_PAYLOAD_SIZE"
    and "\<forall>c \<in> set (drop i (cryptos h xs)). has_keys c"
    and "\<forall>a \<in> set xs. \<forall>n. h a = Some n \<longrightarrow> cp_state n = CPATH_STATE_OPEN"
  shows "(peel P (drop i (cryptos h xs)) pl = None \<longrightarrow> decrypt_loop P h (xs ! 0) (xs ! i) pl = Some Fail) \<and>
    (\<forall>cs' x j. peel P (drop i (cryptos h xs)) pl = Some (cs', x, j) \<longrightarrow>
       (\<exists>h'. decrypt_loop P h (xs ! 0) (xs ! i) pl = Some (Done (h', x, xs ! (i + j))) \<and>
          same_path h h' \<and> cryptos h' xs = take i (cryptos h xs) @ cs'))"
  using assms
proof (induction "length xs - i" arbitrary: i h pl)
  case (Suc k i h pl)
  note r = Suc.prems(1) and P = Suc.prems(2) and i = Suc.prems(3) and l = Suc.prems(4)
  obtain n where n: "h (xs ! i) = Some n" by (rule ring_node [OF r i])
  have dr: "drop i (cryptos h xs) = pvt_crypto n # drop (Suc i) (cryptos h xs)"
    using i cryptos_nth [where h = h, OF i n] by (simp add: Cons_nth_drop_Suc [symmetric])
  have k: "has_keys (pvt_crypto n)" using Suc.prems(5) unfolding dr by simp
  let ?pl = "apply_cipher P (b_crypto (pvt_crypto n)) pl" and ?n = "n\<lparr>pvt_crypto := b_step P (pvt_crypto n)\<rparr>"
  let ?h = "h(xs ! i \<mapsto> ?n)"
  show ?case
  proof (cases "accepts P (the (b_digest (pvt_crypto n))) ?pl")
    case True
    from decrypt_loop_accept [OF r P i l n k this] show ?thesis by fastforce
  next
    case False
    note go = decrypt_loop_pass [OF r P i l n k False Suc.prems(6)]
    have peel: "peel P (drop i (cryptos h xs)) pl =
        map_option (\<lambda>(cs', x, i). (b_step P (pvt_crypto n) # cs', x, Suc i)) (peel P (drop (Suc i) (cryptos h xs)) ?pl)"
      unfolding dr using False by (simp add: Let_def)
    show ?thesis
    proof (cases "Suc i = length xs")
      case True
      then have "drop (Suc i) (cryptos h xs) = []" by simp
      then show ?thesis unfolding peel using go True by simp
    next
      case False
      then have i': "Suc i < length xs" using i by simp
      have sc: "sans_crypto ?n = sans_crypto n" by (simp add: sans_crypto_def)
      note upd = ring_upd_crypto [where h = h, OF r i n sc]
      have up: "drop (Suc i) (cryptos ?h xs) = drop (Suc i) (cryptos h xs)"
        "take (Suc i) (cryptos ?h xs) = take i (cryptos h xs) @ [b_step P (pvt_crypto n)]"
        using i by (simp_all add: upd(3) take_Suc_conv_app_nth)
      have 1: "\<forall>c \<in> set (drop (Suc i) (cryptos ?h xs)). has_keys c" using Suc.prems(5) unfolding up dr by simp
      have 2: "\<forall>a \<in> set xs. \<forall>n. ?h a = Some n \<longrightarrow> cp_state n = CPATH_STATE_OPEN" using Suc.prems(6) n by auto
      have 3: "length ?pl = CELL_PAYLOAD_SIZE" using P l by simp
      have 4: "k = length xs - Suc i" using Suc.hyps(2) by simp
      note IH = Suc.hyps(1) [OF 4 upd(2) P i' 3 1 2, unfolded up]
      show ?thesis
      proof (cases "peel P (drop (Suc i) (cryptos h xs)) ?pl")
        case None
        then show ?thesis using IH go False unfolding peel by (simp del: fun_upd_apply)
      next
        case (Some t)
        obtain cs x j where t: "t = (cs, x, j)" by (cases t)
        from IH Some t obtain h' where h': "decrypt_loop P ?h (xs ! 0) (xs ! Suc i) ?pl = Some (Done (h', x, xs ! (Suc i + j)))"
          "same_path ?h h'" "cryptos h' xs = (take i (cryptos h xs) @ [b_step P (pvt_crypto n)]) @ cs" by blast
        then show ?thesis
          using Some t go False same_path_trans [OF upd(1) h'(2)] unfolding peel by (simp del: fun_upd_apply)
      qed
    qed
  qed
qed simp

section \<open>Whole circuits\<close>

text \<open>The origin of a circuit whose hops \<open>xs\<close> are all open and have their keys.\<close>

definition hop_ready :: "('c, 'd) crypt_path \<Rightarrow> bool" where
  "hop_ready n \<longleftrightarrow> cp_state n = CPATH_STATE_OPEN \<and> has_keys (pvt_crypto n) \<and>
     (\<forall>cc. hop_ccontrol n = Some cc \<longrightarrow> cc_sendme_inc cc \<noteq> 0)"

definition client_circuit :: "('c, 'd) circuit \<Rightarrow> nat list \<Rightarrow> bool" where
  "client_circuit c xs \<longleftrightarrow> xs \<noteq> [] \<and>
     (\<exists>oc. kind c = Origin oc \<and> ring (hops oc) xs \<and> first_hop oc = Some (xs ! 0) \<and>
       (\<forall>a \<in> set xs. \<forall>n. hops oc a = Some n \<longrightarrow> hop_ready n))"

definition client_cryptos :: "('c, 'd) circuit \<Rightarrow> nat list \<Rightarrow> ('c, 'd) relay_crypto list" where
  "client_cryptos c xs = (case kind c of Origin oc \<Rightarrow> cryptos (hops oc) xs | Or _ \<Rightarrow> [])"

text \<open>Two states of an origin circuit that differ in the cryptographic state of its hops only.\<close>

definition same_circuit :: "('c, 'd) circuit \<Rightarrow> ('c, 'd) circuit \<Rightarrow> bool" where
  "same_circuit c c' \<longleftrightarrow>
     (\<exists>oc h. kind c = Origin oc \<and> same_path (hops oc) h \<and> c' = c\<lparr>kind := Origin (oc\<lparr>hops := h\<rparr>)\<rparr>)"

lemma client_circuitE:
  assumes "client_circuit c xs"
  obtains oc where "kind c = Origin oc" "ring (hops oc) xs" "first_hop oc = Some (xs ! 0)" "xs \<noteq> []"
    "client_cryptos c xs = cryptos (hops oc) xs"
    "\<And>a n. a \<in> set xs \<Longrightarrow> hops oc a = Some n \<Longrightarrow> hop_ready n"
  using assms unfolding client_circuit_def client_cryptos_def by auto

lemma client_keys:
  assumes "client_circuit c xs"
  shows "\<forall>k \<in> set (client_cryptos c xs). has_keys k" "length (client_cryptos c xs) = length xs"
proof -
  obtain oc where oc: "kind c = Origin oc" "ring (hops oc) xs" "first_hop oc = Some (xs ! 0)" "xs \<noteq> []"
    "client_cryptos c xs = cryptos (hops oc) xs"
    "\<And>a n. a \<in> set xs \<Longrightarrow> hops oc a = Some n \<Longrightarrow> hop_ready n"
    by (rule client_circuitE [OF assms]) blast
  show "length (client_cryptos c xs) = length xs" using oc(5) by simp
  show "\<forall>k \<in> set (client_cryptos c xs). has_keys k"
    unfolding oc(5) cryptos_def
  proof clarsimp
    fix a assume a: "a \<in> set xs"
    then obtain i where i: "i < length xs" "xs ! i = a" by (metis in_set_conv_nth)
    obtain n where "hops oc (xs ! i) = Some n" by (rule ring_node [OF oc(2) i(1)])
    then show "has_keys (pvt_crypto (the (hops oc a)))" using oc(6) [OF a] i(2) by (simp add: hop_ready_def)
  qed
qed

lemma client_hop:
  assumes "client_circuit c xs" "k < length xs"
  obtains n where "get_hop c (xs ! k) = Done n" "client_cryptos c xs ! k = pvt_crypto n"
    "hop_ready n" "has_keys (pvt_crypto n)"
proof -
  obtain oc where oc: "kind c = Origin oc" "ring (hops oc) xs" "first_hop oc = Some (xs ! 0)" "xs \<noteq> []"
    "client_cryptos c xs = cryptos (hops oc) xs"
    "\<And>a n. a \<in> set xs \<Longrightarrow> hops oc a = Some n \<Longrightarrow> hop_ready n"
    by (rule client_circuitE [OF assms(1)]) blast
  obtain n where n: "hops oc (xs ! k) = Some n" by (rule ring_node [OF oc(2) assms(2)])
  show ?thesis
    using that [of n] oc(1,5) n oc(6) [OF nth_mem [OF assms(2)] n] cryptos_nth [where h = "hops oc", OF assms(2) n]
    by (simp add: get_hop_def with_origin_def hop_ready_def)
qed

text \<open>Changing the keys of one hop.\<close>

lemma update_hop_client:
  assumes c: "client_circuit c xs" and k: "k < length xs"
    and f: "\<And>n. get_hop c (xs ! k) = Done n \<Longrightarrow> f n = Done (n\<lparr>pvt_crypto := cry\<rparr>)" and cry: "has_keys cry"
  shows "\<exists>c'. update_hop c (xs ! k) f = Done c' \<and> client_circuit c' xs \<and> same_circuit c c' \<and>
    client_cryptos c' xs = (client_cryptos c xs)[k := cry]"
proof -
  obtain oc where oc: "kind c = Origin oc" "ring (hops oc) xs" "first_hop oc = Some (xs ! 0)" "xs \<noteq> []"
    "client_cryptos c xs = cryptos (hops oc) xs"
    "\<And>a n. a \<in> set xs \<Longrightarrow> hops oc a = Some n \<Longrightarrow> hop_ready n"
    by (rule client_circuitE [OF c]) blast
  obtain n where n: "hops oc (xs ! k) = Some n" by (rule ring_node [OF oc(2) k])
  have fn: "f n = Done (n\<lparr>pvt_crypto := cry\<rparr>)"
    using f [of n] oc(1) n by (simp add: get_hop_def with_origin_def)
  have sc: "sans_crypto (n\<lparr>pvt_crypto := cry\<rparr>) = sans_crypto n" by (simp add: sans_crypto_def)
  let ?h = "(hops oc)(xs ! k \<mapsto> n\<lparr>pvt_crypto := cry\<rparr>)"
  let ?c = "c\<lparr>kind := Origin (oc\<lparr>hops := ?h\<rparr>)\<rparr>"
  note upd = ring_upd_crypto [where h = "hops oc", OF oc(2) k n sc]
  have "update_hop c (xs ! k) f = Done ?c" using oc(1) n fn by (simp add: update_hop_def with_origin_def)
  moreover have "client_circuit ?c xs"
    using oc(3,4,6) upd(2) n cry oc(6) [OF nth_mem [OF k] n] by (auto simp: client_circuit_def hop_ready_def)
  moreover have "client_cryptos ?c xs = (client_cryptos c xs)[k := cry]"
    using upd(3) oc(5) by (simp add: client_cryptos_def)
  moreover have "same_circuit c ?c" using oc(1) upd(1) unfolding same_circuit_def by blast
  ultimately show ?thesis by blast
qed

lemma same_circuit_trans: "same_circuit a b \<Longrightarrow> same_circuit b c \<Longrightarrow> same_circuit a c"
  unfolding same_circuit_def by (auto intro: same_path_trans) (metis same_path_trans)

lemma same_circuit_refl: "client_circuit c xs \<Longrightarrow> same_circuit c c"
  unfolding same_circuit_def client_circuit_def by (metis circuit.surjective circuit.update_convs(1)
    origin_part.surjective origin_part.update_convs(1) same_path_refl)

lemma client_set_hops:
  assumes c: "client_circuit c xs" "kind c = Origin oc" and h: "same_path (hops oc) h"
    and k: "\<forall>cry \<in> set (cryptos h xs). has_keys cry"
  shows "client_circuit (set_hops c h) xs" "same_circuit c (set_hops c h)"
    "client_cryptos (set_hops c h) xs = cryptos h xs"
proof -
  have set: "set_hops c h = c\<lparr>kind := Origin (oc\<lparr>hops := h\<rparr>)\<rparr>" using c(2) by (simp add: set_hops_def)
  have "hop_ready n" if a: "a \<in> set xs" "h a = Some n" for a n
  proof -
    obtain m where m: "hops oc a = Some m" "sans_crypto m = sans_crypto n"
      using same_path_Some [OF same_path_sym [OF h] a(2)] .
    have "pvt_crypto (the (h a)) \<in> set (cryptos h xs)" using a(1) by (auto simp: cryptos_def)
    then have "has_keys (pvt_crypto n)" using k a(2) by simp
    moreover have "hop_ready m" using c a(1) m(1) by (auto simp: client_circuit_def)
    ultimately show ?thesis using sans_crypto_fields [OF m(2)] by (simp add: hop_ready_def)
  qed
  then show "client_circuit (set_hops c h) xs"
    using c ring_same_path [OF h] unfolding set client_circuit_def by auto
  show "same_circuit c (set_hops c h)" unfolding set same_circuit_def using c(2) h by blast
  show "client_cryptos (set_hops c h) xs = cryptos h xs" unfolding set by (simp add: client_cryptos_def)
qed

text \<open>A hop after its digest was set for a cell, and recorded when a SENDME has to come.\<close>

definition f_sign :: "('c, 'd) prims \<Rightarrow> bool \<Rightarrow> byte list \<Rightarrow> ('c, 'd) relay_crypto \<Rightarrow> ('c, 'd) relay_crypto" where
  "f_sign P rec pl c =
     (let d = digest_add P (the (f_digest c)) pl
      in (if rec then c\<lparr>f_digest := Some d, sendme_digest := digest_get P d DIGEST_LEN\<rparr> else c\<lparr>f_digest := Some d\<rparr>))"

definition f_signed :: "('c, 'd) prims \<Rightarrow> ('c, 'd) relay_crypto \<Rightarrow> byte list \<Rightarrow> byte list" where
  "f_signed P c pl = with_integrity pl (digest_get P (digest_add P (the (f_digest c)) pl) 4)"

lemma f_sign_keys [simp]: "has_keys c \<Longrightarrow> has_keys (f_sign P rec pl c)"
  by (auto simp: f_sign_def has_keys_def Let_def)

lemma f_sign_crypto [simp]: "f_crypto (f_sign P rec pl c) = f_crypto c"
  by (simp add: f_sign_def Let_def)

lemma get_hop_same:
  assumes "same_circuit c c'"
  shows "(\<exists>n m. get_hop c a = Done n \<and> get_hop c' a = Done m \<and> sans_crypto m = sans_crypto n) \<or>
    get_hop c a = Stuck \<and> get_hop c' a = Stuck"
proof -
  obtain oc h where "kind c = Origin oc" "same_path (hops oc) h" "c' = c\<lparr>kind := Origin (oc\<lparr>hops := h\<rparr>)\<rparr>"
    using assms unfolding same_circuit_def by blast
  then have "get_hop c a = deref (hops oc) (Some a)" "get_hop c' a = deref h (Some a)"
    "map_option sans_crypto (hops oc a) = map_option sans_crypto (h a)"
    by (simp_all add: get_hop_def with_origin_def same_path_def)
  then show ?thesis by (cases "hops oc a"; cases "h a") (auto simp: deref_def)
qed

lemma sent_for_sendme_same:
  assumes "same_circuit c c'"
  shows "circuit_sent_cell_for_sendme c' (Some a) = circuit_sent_cell_for_sendme c (Some a)"
  using get_hop_same [OF assms, of a]
  by (auto simp: circuit_sent_cell_for_sendme_def package_state_def dest!: sans_crypto_fields)

lemma record_sending_client:
  assumes c: "client_circuit c1 xs" and k: "k < length xs" and rec: "circuit_sent_cell_for_sendme c1 (Some (xs ! k)) = Done rec"
    and cry: "client_cryptos c1 xs = (client_cryptos c xs)[k := f_sign P False pl cr]" and hk: "has_keys cr"
    and len: "length (client_cryptos c xs) = length xs"
  shows "\<exists>c2. sendme_record_sending_cell_digest P c1 (Some (xs ! k)) = Done c2 \<and> client_circuit c2 xs \<and>
    same_circuit c1 c2 \<and> client_cryptos c2 xs = (client_cryptos c xs)[k := f_sign P rec pl cr]"
proof (cases rec)
  case False
  then show ?thesis
    using c rec cry same_circuit_refl [OF c] by (simp add: sendme_record_sending_cell_digest_def)
next
  case True
  have m: "cpath_sendme_record_cell_digest P True m = Done (m\<lparr>pvt_crypto := f_sign P True pl cr\<rparr>)"
    if "get_hop c1 (xs ! k) = Done m" for m
  proof -
    obtain m' where m': "get_hop c1 (xs ! k) = Done m'" "client_cryptos c1 xs ! k = pvt_crypto m'"
      using client_hop [OF c k] .
    then have "pvt_crypto m = f_sign P False pl cr" using that cry k len by simp
    then show ?thesis
      by (simp add: cpath_sendme_record_cell_digest_def relay_crypto_record_sendme_digest_def f_sign_def Let_def)
  qed
  from update_hop_client [where f = "cpath_sendme_record_cell_digest P True", OF c k m f_sign_keys [OF hk]]
  show ?thesis
    using rec True cry by (auto simp: sendme_record_sending_cell_digest_def)
qed

lemma encrypt_outbound_eq:
  assumes c: "client_circuit c xs" and k: "k < length xs" and P: "stream_cipher P" "digest_length P"
    and l: "length pl = CELL_PAYLOAD_SIZE" and rec: "circuit_sent_cell_for_sendme c (Some (xs ! k)) = Done rec"
  defines "cs \<equiv> (client_cryptos c xs)[k := f_sign P rec pl (client_cryptos c xs ! k)]"
  shows "\<exists>c'. relay_encrypt_cell_outbound P pl c (xs ! k) =
      Some (Done (c', layers P (take (Suc k) cs) (f_signed P (client_cryptos c xs ! k) pl))) \<and>
    client_circuit c' xs \<and> same_circuit c c' \<and>
    client_cryptos c' xs = map (f_step P) (take (Suc k) cs) @ drop (Suc k) cs"
proof -
  obtain n where n: "get_hop c (xs ! k) = Done n" "client_cryptos c xs ! k = pvt_crypto n" "hop_ready n" "has_keys (pvt_crypto n)"
    using client_hop [OF c k] .
  obtain d where d: "f_digest (pvt_crypto n) = Some d" using n(4) by (auto simp: has_keys_def)
  let ?cry = "f_sign P False pl (pvt_crypto n)" and ?pl = "f_signed P (pvt_crypto n) pl"
  have set: "cpath_set_cell_forward_digest P n pl = Done (n\<lparr>pvt_crypto := ?cry\<rparr>, ?pl)"
    using d l by (simp add: cpath_set_cell_forward_digest_def set_digest_eq f_sign_def f_signed_def Let_def)
  have "get_hop c (xs ! k) = Done m \<Longrightarrow> Done (n\<lparr>pvt_crypto := ?cry\<rparr>) = Done (m\<lparr>pvt_crypto := ?cry\<rparr>)" for m
    using n(1) by simp
  from update_hop_client [where f = "\<lambda>_. Done (n\<lparr>pvt_crypto := ?cry\<rparr>)", OF c k this f_sign_keys [OF n(4)]]
  obtain c1 where c1: "update_hop c (xs ! k) (\<lambda>_. Done (n\<lparr>pvt_crypto := ?cry\<rparr>)) = Done c1" "client_circuit c1 xs"
    "same_circuit c c1" "client_cryptos c1 xs = (client_cryptos c xs)[k := ?cry]" by blast
  have len: "length (client_cryptos c xs) = length xs" using client_keys [OF c] by simp
  have rec1: "circuit_sent_cell_for_sendme c1 (Some (xs ! k)) = Done rec"
    using rec sent_for_sendme_same [OF c1(3), of "xs ! k"] by simp
  from record_sending_client [OF c1(2) k rec1 c1(4) n(4) len]
  obtain c2 where c2: "sendme_record_sending_cell_digest P c1 (Some (xs ! k)) = Done c2" "client_circuit c2 xs"
    "same_circuit c1 c2" "client_cryptos c2 xs = cs" unfolding cs_def n(2) by blast
  obtain oc where oc: "kind c2 = Origin oc" "ring (hops oc) xs" "first_hop oc = Some (xs ! 0)" "xs \<noteq> []"
    "client_cryptos c2 xs = cryptos (hops oc) xs" by (rule client_circuitE [OF c2(2)]) blast
  have len0: "0 < length xs" using k by linarith
  obtain n0 where n0: "hops oc (xs ! 0) = Some n0" "prv n0 = Some (xs ! ((0 + (length xs - 1)) mod length xs))"
    using ring_node [OF oc(2) len0] .
  have keys: "\<forall>c \<in> set (take (Suc k) (cryptos (hops oc) xs)). f_crypto c \<noteq> None"
    using client_keys(1) [OF c2(2)] oc(5) by (auto simp: has_keys_def dest!: in_set_takeD)
  have "length ?pl = CELL_PAYLOAD_SIZE" using l P(2) by (simp add: f_signed_def digest_length_def)
  from encrypt_loop_list [OF oc(2) P(1) k keys this] obtain h where
    h: "encrypt_loop P (hops oc) (Some (xs ! (length xs - 1))) (Some (xs ! k)) ?pl =
      Some (Done (h, layers P (take (Suc k) cs) ?pl))" "same_path (hops oc) h"
      "cryptos h xs = map (f_step P) (take (Suc k) cs) @ drop (Suc k) cs"
    using oc(5) c2(4) by auto
  have hk: "\<forall>cry \<in> set (cryptos h xs). has_keys cry"
    using client_keys(1) [OF c2(2)] h(3) c2(4) by (auto dest!: in_set_takeD in_set_dropD)
  note sh = client_set_hops [OF c2(2) oc(1) h(2) hk]
  have "relay_encrypt_cell_outbound P pl c (xs ! k) = Some (Done (set_hops c2 h, layers P (take (Suc k) cs) ?pl))"
    using n(1) set c1(1) c2(1) oc(1,3) n0 h(1) len0
    by (simp add: relay_encrypt_cell_outbound_def with_origin_def)
  then show ?thesis
    using sh h(3) n(2) same_circuit_trans [OF same_circuit_trans [OF c1(3) c2(3)] sh(2)] by auto
qed

text \<open>A relay's circuit that has its keys.\<close>

definition relay_circuit :: "('c, 'd) circuit \<Rightarrow> bool" where
  "relay_circuit c \<longleftrightarrow> (\<exists>r. kind c = Or r \<and> has_keys (or_crypto r)) \<and>
     (\<forall>cc. circ_ccontrol c = Some cc \<longrightarrow> cc_sendme_inc cc \<noteq> 0)"

definition relay_keys :: "('c, 'd) circuit \<Rightarrow> ('c, 'd) relay_crypto" where
  "relay_keys c = (case kind c of Or r \<Rightarrow> or_crypto r | Origin _ \<Rightarrow> zero_crypto)"

definition set_relay_keys :: "('c, 'd) circuit \<Rightarrow> ('c, 'd) relay_crypto \<Rightarrow> ('c, 'd) circuit" where
  "set_relay_keys c cry = (case kind c of Or r \<Rightarrow> c\<lparr>kind := Or (r\<lparr>or_crypto := cry\<rparr>)\<rparr> | Origin _ \<Rightarrow> c)"

lemma relay_circuitE:
  assumes "relay_circuit c"
  obtains r where "kind c = Or r" "has_keys (or_crypto r)" "relay_keys c = or_crypto r"
    "\<And>cry. set_relay_keys c cry = c\<lparr>kind := Or (r\<lparr>or_crypto := cry\<rparr>)\<rparr>"
  using assms unfolding relay_circuit_def relay_keys_def set_relay_keys_def by auto

lemma set_relay_keys_simps [simp]:
  assumes "relay_circuit c"
  shows "relay_keys (set_relay_keys c cry) = cry" "set_relay_keys (set_relay_keys c cry) cry' = set_relay_keys c cry'"
    "has_keys cry \<Longrightarrow> relay_circuit (set_relay_keys c cry)" "\<not> CIRCUIT_IS_ORIGIN c"
    "\<not> CIRCUIT_IS_ORIGIN (set_relay_keys c cry)"
  using assms by (auto simp: relay_circuit_def relay_keys_def set_relay_keys_def CIRCUIT_IS_ORIGIN_def)

lemma set_relay_keys_fields [simp]:
  "marked_for_close (set_relay_keys c cry) = marked_for_close c" "n_chan (set_relay_keys c cry) = n_chan c"
  "n_circ_id (set_relay_keys c cry) = n_circ_id c" "circ_package_window (set_relay_keys c cry) = circ_package_window c"
  "circ_deliver_window (set_relay_keys c cry) = circ_deliver_window c" "circ_ccontrol (set_relay_keys c cry) = circ_ccontrol c"
  "sendme_last_digests (set_relay_keys c cry) = sendme_last_digests c" "circ_purpose (set_relay_keys c cry) = circ_purpose c"
  by (cases "kind c"; simp add: set_relay_keys_def)+

definition f_accept :: "('c, 'd) prims \<Rightarrow> ('c, 'd) relay_crypto \<Rightarrow> byte list \<Rightarrow> ('c, 'd) relay_crypto" where
  "f_accept P c pl = c\<lparr>f_digest := Some (digest_add P (the (f_digest c)) (zeroed pl))\<rparr>"

lemma f_accept_keys [simp]: "has_keys c \<Longrightarrow> has_keys (f_accept P c pl)"
  by (auto simp: f_accept_def has_keys_def)

lemma relay_out_eq:
  assumes c: "relay_circuit c" and P: "stream_cipher P" and l: "length pl = CELL_PAYLOAD_SIZE"
  defines "pl' \<equiv> apply_cipher P (f_crypto (relay_keys c)) pl"
  shows "relay_decrypt_cell P c pl CELL_DIRECTION_OUT = Some (Done
    (if accepts P (the (f_digest (relay_keys c))) pl'
     then (set_relay_keys c (f_accept P (f_step P (relay_keys c)) pl'), zeroed pl', None, True)
     else (set_relay_keys c (f_step P (relay_keys c)), pl', None, False)))"
proof -
  obtain r where r: "kind c = Or r" "has_keys (or_crypto r)" "relay_keys c = or_crypto r"
    "\<And>cry. set_relay_keys c cry = c\<lparr>kind := Or (r\<lparr>or_crypto := cry\<rparr>)\<rparr>"
    by (rule relay_circuitE [OF c]) blast
  obtain d where d: "f_digest (or_crypto r) = Some d" using r(2) by (auto simp: has_keys_def)
  have fc: "f_crypto (or_crypto r) \<noteq> None" using r(2) by (simp add: has_keys_def)
  have l': "length pl' = CELL_PAYLOAD_SIZE" using P l by (simp add: pl'_def)
  show ?thesis
    using crypt_one_eq [OF P l fc] digest_matches_eq [OF l', of P d] d r l'
    by (cases "recognized_of pl' = 0")
       (auto simp: relay_decrypt_cell_def relay_decrypt_or_def with_or_def f_step_def f_accept_def pl'_def
          Let_def not_recognized_not_accepted)
qed

lemma relay_in_eq:
  assumes c: "relay_circuit c" and P: "stream_cipher P" and l: "length pl = CELL_PAYLOAD_SIZE"
  shows "relay_decrypt_cell P c pl CELL_DIRECTION_IN =
    Some (Done (set_relay_keys c (b_step P (relay_keys c)), apply_cipher P (b_crypto (relay_keys c)) pl, None, False))"
proof -
  obtain r where r: "kind c = Or r" "has_keys (or_crypto r)" "relay_keys c = or_crypto r"
    "\<And>cry. set_relay_keys c cry = c\<lparr>kind := Or (r\<lparr>or_crypto := cry\<rparr>)\<rparr>"
    by (rule relay_circuitE [OF c]) blast
  have bc: "b_crypto (or_crypto r) \<noteq> None" using r(2) by (simp add: has_keys_def)
  show ?thesis
    using crypt_one_eq [OF P l bc] r c
    by (simp add: relay_decrypt_cell_def relay_decrypt_or_def with_or_def b_step_def Let_def)
qed

definition b_sign :: "('c, 'd) prims \<Rightarrow> bool \<Rightarrow> byte list \<Rightarrow> ('c, 'd) relay_crypto \<Rightarrow> ('c, 'd) relay_crypto" where
  "b_sign P rec pl c =
     (let d = digest_add P (the (b_digest c)) pl
      in (if rec then c\<lparr>b_digest := Some d, sendme_digest := digest_get P d DIGEST_LEN\<rparr> else c\<lparr>b_digest := Some d\<rparr>))"

definition b_signed :: "('c, 'd) prims \<Rightarrow> ('c, 'd) relay_crypto \<Rightarrow> byte list \<Rightarrow> byte list" where
  "b_signed P c pl = with_integrity pl (digest_get P (digest_add P (the (b_digest c)) pl) 4)"

lemma b_sign_keys [simp]: "has_keys c \<Longrightarrow> has_keys (b_sign P rec pl c)"
  by (auto simp: b_sign_def has_keys_def Let_def)

lemma b_sign_crypto [simp]: "b_crypto (b_sign P rec pl c) = b_crypto c"
  by (simp add: b_sign_def Let_def)

lemma encrypt_inbound_eq:
  assumes c: "relay_circuit c" and P: "stream_cipher P" "digest_length P" and l: "length pl = CELL_PAYLOAD_SIZE"
    and rec: "circuit_sent_cell_for_sendme c None = Done rec"
  shows "relay_encrypt_cell_inbound P pl c =
    Done (set_relay_keys c (b_step P (b_sign P rec pl (relay_keys c))),
      apply_cipher P (b_crypto (relay_keys c)) (b_signed P (relay_keys c) pl))"
proof -
  obtain r where r: "kind c = Or r" "has_keys (or_crypto r)" "relay_keys c = or_crypto r"
    "\<And>cry. set_relay_keys c cry = c\<lparr>kind := Or (r\<lparr>or_crypto := cry\<rparr>)\<rparr>"
    by (rule relay_circuitE [OF c]) blast
  obtain d where d: "b_digest (or_crypto r) = Some d" using r(2) by (auto simp: has_keys_def)
  have bc: "b_crypto (or_crypto r) \<noteq> None" using r(2) by (simp add: has_keys_def)
  have l': "length (b_signed P (or_crypto r) pl) = CELL_PAYLOAD_SIZE"
    using l P(2) by (simp add: b_signed_def digest_length_def)
  have rec': "circuit_sent_cell_for_sendme (c\<lparr>kind := k\<rparr>) None = Done rec" for k
    using rec by (simp add: circuit_sent_cell_for_sendme_def package_state_def)
  show ?thesis
    using crypt_one_eq [OF P(1) l' bc] set_digest_eq [OF l, of P d] d r rec' l'
    by (cases rec)
       (simp_all add: relay_encrypt_cell_inbound_def with_or_def b_step_def b_sign_def b_signed_def Let_def
          sendme_record_sending_cell_digest_def update_or_crypto_def relay_crypto_record_sendme_digest_def)
qed

text \<open>An incoming cell at the origin.\<close>

lemma origin_in_eq:
  assumes c: "client_circuit c xs" and P: "stream_cipher P" and l: "length pl = CELL_PAYLOAD_SIZE"
    and pe: "peel P (client_cryptos c xs) pl = Some (cs', x, j)"
  shows "\<exists>c'. relay_decrypt_cell P c pl CELL_DIRECTION_IN = Some (Done (c', x, Some (xs ! j), True)) \<and>
    client_circuit c' xs \<and> same_circuit c c' \<and> client_cryptos c' xs = cs'"
proof -
  obtain oc where oc: "kind c = Origin oc" "ring (hops oc) xs" "first_hop oc = Some (xs ! 0)" "xs \<noteq> []"
    "client_cryptos c xs = cryptos (hops oc) xs" "\<And>a n. a \<in> set xs \<Longrightarrow> hops oc a = Some n \<Longrightarrow> hop_ready n"
    by (rule client_circuitE [OF c]) blast
  have len0: "0 < length xs" using oc(4) by simp
  have 1: "\<forall>c \<in> set (drop 0 (cryptos (hops oc) xs)). has_keys c" using client_keys(1) [OF c] oc(5) by simp
  have 2: "\<forall>a \<in> set xs. \<forall>n. hops oc a = Some n \<longrightarrow> cp_state n = CPATH_STATE_OPEN"
    using oc(6) by (auto simp: hop_ready_def)
  from decrypt_loop_list [OF oc(2) P len0 l 1 2] pe oc(5) obtain h where
    h: "decrypt_loop P (hops oc) (xs ! 0) (xs ! 0) pl = Some (Done (h, x, xs ! j))" "same_path (hops oc) h"
      "cryptos h xs = cs'" by auto
  have keys: "peel P cs y = Some (cs', x', j') \<Longrightarrow> \<forall>k \<in> set cs. has_keys k \<Longrightarrow> \<forall>k \<in> set cs'. has_keys k" for cs y cs' x' j'
    by (induction cs arbitrary: y cs' j') (auto simp: Let_def split: if_splits)
  note sh = client_set_hops [OF c oc(1) h(2)]
  obtain n0 where n0: "hops oc (xs ! 0) = Some n0" by (rule ring_node [OF oc(2) len0])
  have op: "cp_state n0 = CPATH_STATE_OPEN" using 2 n0 len0 nth_mem by blast
  have "relay_decrypt_cell P c pl CELL_DIRECTION_IN = Some (Done (set_hops c h, x, Some (xs ! j), True))"
    using oc(1,3) n0 op h(1) by (simp add: relay_decrypt_cell_def CIRCUIT_IS_ORIGIN_def with_origin_def)
  then show ?thesis
    using sh keys [OF pe client_keys(1) [OF c]] h(3) by auto
qed

end
