(* ===== verification/Sendme.thy ===== *)
theory Sendme
  imports RelayCrypto
begin

text \<open>
  Flow control with SENDME cells: \<open>src/core/or/sendme.c\<close>, its cell of
  \<open>src/trunnel/sendme_cell.c\<close>, and the two functions of
  \<open>src/core/or/congestion_control_common.c\<close> that count cells in flight. The functions that send a
  cell are in the theory of the relay layer. The bandwidth counters of the control port are left out.
\<close>

section \<open>The cell\<close>

record sendme_cell =
  sm_version :: byte
  sm_data_len :: u16
  sm_v1_digest :: "byte list"
  sm_error :: bool

definition TRUNNEL_SENDME_V1_DIGEST_LEN :: nat where "TRUNNEL_SENDME_V1_DIGEST_LEN = 20"

definition sendme_cell_new :: sendme_cell where
  "sendme_cell_new = \<lparr>sm_version = 0, sm_data_len = 0,
     sm_v1_digest = replicate TRUNNEL_SENDME_V1_DIGEST_LEN 0, sm_error = False\<rparr>"

definition sendme_cell_set_version :: "sendme_cell \<Rightarrow> byte \<Rightarrow> sendme_cell" where
  "sendme_cell_set_version inp val =
     (if \<not> (val = 0 \<or> val = 1) then inp\<lparr>sm_error := True\<rparr> else inp\<lparr>sm_version := val\<rparr>)"

definition sendme_cell_check :: "sendme_cell \<Rightarrow> bool" where
  "sendme_cell_check obj \<longleftrightarrow> \<not> sm_error obj \<and> (sm_version obj = 0 \<or> sm_version obj = 1)"

text \<open>The length written back is that of the union, whatever the field said.\<close>

definition sendme_cell_encode :: "nat \<Rightarrow> sendme_cell \<Rightarrow> byte list outcome" where
  "sendme_cell_encode avail obj =
     (if \<not> sendme_cell_check obj then Fail
      else obind (emit avail [sm_version obj] []) (\<lambda>out.
           obind (emit avail (put16 (sm_data_len obj)) out) (\<lambda>out.
             let union_part = (if sm_version obj = 1 then sm_v1_digest obj else [])
             in obind (emit avail union_part out) (\<lambda>_.
                emit avail (put16 (of_nat (length union_part)) @ union_part) [sm_version obj]))))"

definition sendme_cell_parse :: "byte list \<Rightarrow> (sendme_cell \<times> byte list) outcome" where
  "sendme_cell_parse input =
     obind (grab 1 input) (\<lambda>(v, r).
       if \<not> (hd v = 0 \<or> hd v = 1) then Fail
       else obind (grab 2 r) (\<lambda>(l, r).
            obind (grab (unat (get16 l)) r) (\<lambda>(u, r).
              let obj = sendme_cell_new\<lparr>sm_version := hd v, sm_data_len := get16 l\<rparr>
              in if hd v = 0 then Done (obj, r)
                 else if length u \<noteq> TRUNNEL_SENDME_V1_DIGEST_LEN then Fail
                 else Done (obj\<lparr>sm_v1_digest := u\<rparr>, r))))"

section \<open>Versions\<close>

definition SENDME_MAX_SUPPORTED_VERSION :: int where "SENDME_MAX_SUPPORTED_VERSION = 1"

definition get_emit_min_version :: "string list option \<Rightarrow> int outcome" where
  "get_emit_min_version ns = networkstatus_get_param ns ''sendme_emit_min_version'' 1 0 255"

definition get_accept_min_version :: "string list option \<Rightarrow> int outcome" where
  "get_accept_min_version ns = networkstatus_get_param ns ''sendme_accept_min_version'' 0 0 255"

definition cell_version_can_be_handled :: "string list option \<Rightarrow> byte \<Rightarrow> bool outcome" where
  "cell_version_can_be_handled ns cell_version =
     obind (get_accept_min_version ns) (\<lambda>accept_version.
       if accept_version > SENDME_MAX_SUPPORTED_VERSION then Done False
       else if uint cell_version < accept_version then Done False
       else if uint cell_version > SENDME_MAX_SUPPORTED_VERSION then Done False
       else Done True)"

section \<open>Digests\<close>

definition pop_first_cell_digest :: "('c, 'd) circuit \<Rightarrow> byte list option \<times> ('c, 'd) circuit" where
  "pop_first_cell_digest circ =
     (case sendme_last_digests circ of
        None \<Rightarrow> (None, circ)
      | Some [] \<Rightarrow> (None, circ)
      | Some (d # ds) \<Rightarrow> (Some d, circ\<lparr>sendme_last_digests := Some ds\<rparr>))"

definition v1_digest_matches :: "byte list \<Rightarrow> byte list \<Rightarrow> bool" where
  "v1_digest_matches circ_digest cell_digest \<longleftrightarrow>
     take TRUNNEL_SENDME_V1_DIGEST_LEN circ_digest = take TRUNNEL_SENDME_V1_DIGEST_LEN cell_digest"

definition cell_v1_is_valid :: "sendme_cell \<Rightarrow> byte list \<Rightarrow> bool" where
  "cell_v1_is_valid c circ_digest = v1_digest_matches circ_digest (sm_v1_digest c)"

text \<open>The digest is popped whatever the version says. No other version passes the test above.\<close>

definition sendme_is_valid ::
  "string list option \<Rightarrow> ('c, 'd) circuit \<Rightarrow> byte list \<Rightarrow> (bool \<times> ('c, 'd) circuit) outcome" where
  "sendme_is_valid ns circ pld =
     (case (if pld = [] then Done None
            else obind (sendme_cell_parse pld) (\<lambda>(c, _). Done (Some c))) of
        Stuck \<Rightarrow> Stuck
      | Fail \<Rightarrow> Done (False, circ)
      | Done c \<Rightarrow>
          let cell_version = (case c of None \<Rightarrow> 0 | Some c \<Rightarrow> sm_version c)
          in obind (cell_version_can_be_handled ns cell_version) (\<lambda>ok.
             if \<not> ok then Done (False, circ)
             else case pop_first_cell_digest circ of
                    (None, circ) \<Rightarrow> Done (False, circ)
                  | (Some circ_digest, circ) \<Rightarrow>
                      if cell_version = 1
                      then (case c of None \<Rightarrow> Stuck | Some c \<Rightarrow> Done (cell_v1_is_valid c circ_digest, circ))
                      else Done (True, circ)))"

definition build_cell_payload_v1 :: "byte list \<Rightarrow> byte list outcome" where
  "build_cell_payload_v1 cell_digest =
     (let c = sendme_cell_set_version sendme_cell_new 1;
          c = c\<lparr>sm_data_len := of_nat TRUNNEL_SENDME_V1_DIGEST_LEN\<rparr>
      in obind (mem_get cell_digest 0 (unat (sm_data_len c))) (\<lambda>d.
           sendme_cell_encode RELAY_PAYLOAD_SIZE (c\<lparr>sm_v1_digest := d\<rparr>)))"

definition record_cell_digest_on_circ :: "('c, 'd) circuit \<Rightarrow> byte list \<Rightarrow> ('c, 'd) circuit" where
  "record_cell_digest_on_circ circ digest =
     (let ds = (case sendme_last_digests circ of None \<Rightarrow> [] | Some ds \<Rightarrow> ds)
      in circ\<lparr>sendme_last_digests := Some (ds @ [take DIGEST_LEN digest])\<rparr>)"

text \<open>The digest that the last \<open>record_sendme_digest\<close> left, of the hop or of the relay.\<close>

definition sendme_digest_of :: "('c, 'd) circuit \<Rightarrow> nat option \<Rightarrow> byte list outcome" where
  "sendme_digest_of circ layer_hint =
     (case layer_hint of
        Some hop \<Rightarrow> obind (get_hop circ hop) (\<lambda>n. Done (sendme_digest (pvt_crypto n)))
      | None \<Rightarrow> with_or circ (\<lambda>r. Done (sendme_digest (or_crypto r))))"

definition sendme_record_cell_digest_on_circ ::
  "('c, 'd) circuit \<Rightarrow> nat option \<Rightarrow> ('c, 'd) circuit outcome" where
  "sendme_record_cell_digest_on_circ circ layer_hint =
     obind (circuit_sent_cell_for_sendme circ layer_hint) (\<lambda>nxt_is_sendme.
       if \<not> nxt_is_sendme then Done circ
       else obind (sendme_digest_of circ layer_hint) (\<lambda>d. Done (record_cell_digest_on_circ circ d)))"

text \<open>The deliver window counts down from \<open>CIRCWINDOW_START\<close>; \<open>%\<close> by zero is undefined.\<close>

definition circuit_sendme_cell_is_next :: "int \<Rightarrow> int \<Rightarrow> bool outcome" where
  "circuit_sendme_cell_is_next window inc =
     (if \<not> window \<le> CIRCWINDOW_START \<or> inc = 0 then Stuck
      else Done (c_mod (CIRCWINDOW_START - (window - 1)) inc = 0))"

definition deliver_window_of :: "('c, 'd) circuit \<Rightarrow> nat option \<Rightarrow> int outcome" where
  "deliver_window_of circ layer_hint =
     (case layer_hint of
        Some hop \<Rightarrow> obind (get_hop circ hop) (\<lambda>n. Done (deliver_window n))
      | None \<Rightarrow> Done (circ_deliver_window circ))"

definition sendme_get_inc_count :: "('c, 'd) circuit \<Rightarrow> nat option \<Rightarrow> int outcome" where
  "sendme_get_inc_count circ layer_hint =
     obind (package_state circ layer_hint) (\<lambda>(_, cc).
       Done (case cc of Some cc \<Rightarrow> uint (cc_sendme_inc cc) | None \<Rightarrow> CIRCWINDOW_INCREMENT))"

definition sendme_record_received_cell_digest ::
  "('c, 'd) prims \<Rightarrow> ('c, 'd) circuit \<Rightarrow> nat option \<Rightarrow> ('c, 'd) circuit outcome" where
  "sendme_record_received_cell_digest P circ layer_hint =
     obind (deliver_window_of circ layer_hint) (\<lambda>window.
     obind (sendme_get_inc_count circ layer_hint) (\<lambda>inc.
     obind (circuit_sendme_cell_is_next window inc) (\<lambda>nxt.
       if \<not> nxt then Done circ
       else case layer_hint of
              Some hop \<Rightarrow> update_hop circ hop (cpath_sendme_record_cell_digest P False)
            | None \<Rightarrow> update_or_crypto circ (relay_crypto_record_sendme_digest P True))))"

section \<open>Windows\<close>

definition CIRCWINDOW_START_MAX :: int where "CIRCWINDOW_START_MAX = 1000"
definition STREAMWINDOW_START_MAX :: int where "STREAMWINDOW_START_MAX = 500"
definition STREAMWINDOW_START :: int where "STREAMWINDOW_START = 500"
definition STREAMWINDOW_INCREMENT :: int where "STREAMWINDOW_INCREMENT = 50"

definition sendme_process_circuit_level_impl ::
  "nat option \<Rightarrow> ('c, 'd) circuit \<Rightarrow> (('c, 'd) circuit \<times> int) outcome" where
  "sendme_process_circuit_level_impl layer_hint circ =
     (if CIRCUIT_IS_ORIGIN circ
      then (case layer_hint of
              None \<Rightarrow> Done (circ, - END_CIRC_REASON_TORPROTOCOL)
            | Some hop \<Rightarrow>
                obind (get_hop circ hop) (\<lambda>n.
                  if package_window n + CIRCWINDOW_INCREMENT > CIRCWINDOW_START_MAX
                  then Done (circ, - END_CIRC_REASON_TORPROTOCOL)
                  else obind (update_hop circ hop (\<lambda>n. Done (n\<lparr>package_window := package_window n + CIRCWINDOW_INCREMENT\<rparr>)))
                         (\<lambda>circ. Done (circ, 0))))
      else if circ_package_window circ + CIRCWINDOW_INCREMENT > CIRCWINDOW_START_MAX
           then Done (circ, - END_CIRC_REASON_TORPROTOCOL)
           else Done (circ\<lparr>circ_package_window := circ_package_window circ + CIRCWINDOW_INCREMENT\<rparr>, 0))"

text \<open>Storing the congestion control object back where its pointer is kept.\<close>

definition set_ccontrol ::
  "('c, 'd) circuit \<Rightarrow> nat option \<Rightarrow> congestion_control \<Rightarrow> ('c, 'd) circuit outcome" where
  "set_ccontrol circ layer_hint cc =
     (case layer_hint of
        Some hop \<Rightarrow> update_hop circ hop (\<lambda>n. Done (n\<lparr>hop_ccontrol := Some cc\<rparr>))
      | None \<Rightarrow> Done (circ\<lparr>circ_ccontrol := Some cc\<rparr>))"

text \<open>
  \<open>G\<close> are the congestion control globals, \<open>q\<close> the clock and the channel's queue, \<open>cfx\<close> the
  conflux set of the circuit, where it is called \<open>cid\<close>.
\<close>

definition sendme_process_circuit_level ::
  "string list option \<Rightarrow> cc_globals \<Rightarrow> queue_view \<Rightarrow> ('k, 'm) conflux option \<Rightarrow> 'k \<Rightarrow> nat option \<Rightarrow>
     ('c, 'd) circuit \<Rightarrow> byte list \<Rightarrow>
     (('c, 'd) circuit \<times> cc_globals \<times> ('k, 'm) conflux option \<times> int) outcome" where
  "sendme_process_circuit_level ns G q cfx cid layer_hint circ pld =
     obind (sendme_is_valid ns circ pld) (\<lambda>(valid, circ).
       if \<not> valid then Done (circ, G, cfx, - END_CIRC_REASON_TORPROTOCOL)
       else obind (package_state circ layer_hint) (\<lambda>(_, cc).
         case cc of
           None \<Rightarrow> obind (sendme_process_circuit_level_impl layer_hint circ) (\<lambda>(circ, ret). Done (circ, G, cfx, ret))
         | Some cc \<Rightarrow>
             obind (congestion_control_dispatch_cc_alg G cc q cfx cid) (\<lambda>(cc, G, cfx).
             obind (set_ccontrol circ layer_hint cc) (\<lambda>circ. Done (circ, G, cfx, 0)))))"

definition sendme_circuit_data_received ::
  "('c, 'd) circuit \<Rightarrow> nat option \<Rightarrow> (int \<times> ('c, 'd) circuit) outcome" where
  "sendme_circuit_data_received circ layer_hint =
     (if CIRCUIT_IS_ORIGIN circ
      then (case layer_hint of
              None \<Rightarrow> Stuck
            | Some hop \<Rightarrow>
                obind (update_hop circ hop (\<lambda>n. Done (n\<lparr>deliver_window := deliver_window n - 1\<rparr>))) (\<lambda>circ.
                obind (get_hop circ hop) (\<lambda>n. Done (deliver_window n, circ))))
      else if layer_hint \<noteq> None then Stuck
      else Done (circ_deliver_window circ - 1, circ\<lparr>circ_deliver_window := circ_deliver_window circ - 1\<rparr>))"

text \<open>Cells in flight.\<close>

definition congestion_control_note_cell_sent ::
  "u64 \<Rightarrow> congestion_control \<Rightarrow> ('c, 'd) circuit \<Rightarrow> nat option \<Rightarrow> congestion_control outcome" where
  "congestion_control_note_cell_sent now cc circ layer_hint =
     obind (circuit_sent_cell_for_sendme circ layer_hint) (\<lambda>nxt.
       let cc' = cc\<lparr>cc_inflight := cc_inflight cc + 1\<rparr>
       in Done (if \<not> nxt then cc'
                else cc'\<lparr>sendme_pending_timestamps := enqueue_timestamp (sendme_pending_timestamps cc') now\<rparr>))"

definition congestion_control_get_package_window :: "('c, 'd) circuit \<Rightarrow> nat option \<Rightarrow> int outcome" where
  "congestion_control_get_package_window circ layer_hint =
     obind (package_state circ layer_hint) (\<lambda>(window, cc).
       case cc of
         None \<Rightarrow> Done window
       | Some cc \<Rightarrow>
           if cc_inflight cc > cc_cwnd cc then Done 0
           else if cc_cwnd cc - cc_inflight cc > 2147483647 then Done INT32_MAX
           else Done (uint (cc_cwnd cc - cc_inflight cc)))"

definition sendme_note_circuit_data_packaged ::
  "u64 \<Rightarrow> ('c, 'd) circuit \<Rightarrow> nat option \<Rightarrow> (int \<times> ('c, 'd) circuit) outcome" where
  "sendme_note_circuit_data_packaged now circ layer_hint =
     obind (package_state circ layer_hint) (\<lambda>(_, cc).
     obind (case cc of
              Some cc \<Rightarrow>
                obind (congestion_control_note_cell_sent now cc circ layer_hint) (set_ccontrol circ layer_hint)
            | None \<Rightarrow>
                if CIRCUIT_IS_ORIGIN circ
                then (case layer_hint of
                        None \<Rightarrow> Stuck
                      | Some hop \<Rightarrow> update_hop circ hop (\<lambda>n. Done (n\<lparr>package_window := package_window n - 1\<rparr>)))
                else if layer_hint \<noteq> None then Stuck
                else Done (circ\<lparr>circ_package_window := circ_package_window circ - 1\<rparr>)) (\<lambda>circ.
     obind (congestion_control_get_package_window circ layer_hint) (\<lambda>w. Done (w, circ))))"

section \<open>Streams\<close>

record edge_conn =
  ec_package_window :: int
  ec_deliver_window :: int
  edge_uses_flow_control :: bool
  xoff_received :: bool

definition sendme_process_stream_level :: "edge_conn \<Rightarrow> edge_conn \<times> int" where
  "sendme_process_stream_level conn =
     (if edge_uses_flow_control conn then (conn, - END_CIRC_REASON_TORPROTOCOL)
      else if ec_package_window conn + STREAMWINDOW_INCREMENT > STREAMWINDOW_START_MAX
      then (conn, - END_CIRC_REASON_TORPROTOCOL)
      else (conn\<lparr>ec_package_window := ec_package_window conn + STREAMWINDOW_INCREMENT\<rparr>, 0))"

text \<open>The decision to send XOFF is the flow control's, an argument.\<close>

definition sendme_stream_data_received :: "(edge_conn \<Rightarrow> int) \<Rightarrow> edge_conn \<Rightarrow> int \<times> edge_conn" where
  "sendme_stream_data_received decide_xoff conn =
     (if edge_uses_flow_control conn then (decide_xoff conn, conn)
      else (ec_deliver_window conn - 1, conn\<lparr>ec_deliver_window := ec_deliver_window conn - 1\<rparr>))"

definition sendme_note_stream_data_packaged :: "edge_conn \<Rightarrow> int \<times> edge_conn" where
  "sendme_note_stream_data_packaged conn =
     (if edge_uses_flow_control conn then (if xoff_received conn then - 1 else 1, conn)
      else (ec_package_window conn - 1, conn\<lparr>ec_package_window := ec_package_window conn - 1\<rparr>))"

text \<open>
  The conditions before the loop are arguments; the loop sends its SENDMEs with \<open>send\<close>, which
  tells whether the circuit is still there.
\<close>

function stream_sendme_loop :: "(nat \<Rightarrow> bool) \<Rightarrow> nat \<Rightarrow> edge_conn \<Rightarrow> edge_conn \<times> nat" where
  "stream_sendme_loop send sent conn =
     (if ec_deliver_window conn \<le> STREAMWINDOW_START - STREAMWINDOW_INCREMENT
      then let conn' = conn\<lparr>ec_deliver_window := ec_deliver_window conn + STREAMWINDOW_INCREMENT\<rparr>
           in if \<not> send sent then (conn', sent) else stream_sendme_loop send (Suc sent) conn'
      else (conn, sent))"
  by pat_completeness auto

termination
  by (relation "measure (\<lambda>(_, _, conn). nat (STREAMWINDOW_START - ec_deliver_window conn))")
     (auto simp: STREAMWINDOW_START_def STREAMWINDOW_INCREMENT_def)

definition sendme_connection_edge_consider_sending ::
  "(nat \<Rightarrow> bool) \<Rightarrow> bool \<Rightarrow> bool \<Rightarrow> edge_conn \<Rightarrow> edge_conn \<times> nat" where
  "sendme_connection_edge_consider_sending send outbuf_too_full has_circuit conn =
     (if edge_uses_flow_control conn \<or> outbuf_too_full \<or> \<not> has_circuit then (conn, 0)
      else stream_sendme_loop send 0 conn)"

end
