(* ===== verification/RelayCell.thy ===== *)
theory RelayCell
  imports Sendme
begin

text \<open>
  Relay cells on their way, \<open>src/core/or/relay.c\<close>: a cell that arrives on a circuit is decrypted and
  delivered, passed on or refused; a command of an edge is put into a cell, encrypted and queued.
  The handlers that take a cell over (the relay commands, the queue of the channel) appear as the
  action they are called with; \<open>circuit_mark_for_close\<close> is the mark it leaves. The choice of a conflux leg is the conflux theories'; logging,
  padding machines and the counters of the control port are left out.
\<close>

section \<open>Receiving\<close>

definition CELL_RELAY :: byte where "CELL_RELAY = 3"
definition CELL_RELAY_EARLY :: byte where "CELL_RELAY_EARLY = 9"
definition CIRCUIT_PURPOSE_REND_ESTABLISHED :: byte where "CIRCUIT_PURPOSE_REND_ESTABLISHED = 4"
definition CIRCUIT_PURPOSE_PATH_BIAS_TESTING :: byte where "CIRCUIT_PURPOSE_PATH_BIAS_TESTING = 23"
definition END_CIRC_REASON_RESOURCELIMIT :: int where "END_CIRC_REASON_RESOURCELIMIT = 5"
definition PATH_STATE_USE_FAILED :: nat where "PATH_STATE_USE_FAILED = 5"

text \<open>Marking a circuit for close, with the reason given; a second time changes nothing.\<close>

definition mark_for_close :: "int \<Rightarrow> ('c, 'd) circuit \<Rightarrow> ('c, 'd) circuit" where
  "mark_for_close reason circ =
     (if marked_for_close circ \<noteq> None then circ else circ\<lparr>marked_for_close := Some reason\<rparr>)"

text \<open>
  What becomes of a cell: it is processed by this end (with the hop it came from), queued on a
  channel, handed to the other circuit of a rendezvous, dropped, or the circuit is to be closed.
  \<open>queued\<close> is what \<open>append_cell_to_circuit_queue\<close> returns for a channel and a cell.
\<close>

datatype action =
  Process cell_t "nat option"
| Queue nat cell_t direction
| Splice nat cell_t
| Drop
| Close int

definition receive_unrecognized ::
  "(nat \<Rightarrow> cell_t \<Rightarrow> int) \<Rightarrow> (nat \<Rightarrow> ('c, 'd) circuit option) \<Rightarrow> ('c, 'd) circuit \<Rightarrow> cell_t \<Rightarrow> direction \<Rightarrow>
     (('c, 'd) circuit \<times> action) outcome" where
  "receive_unrecognized queued circs circ cell dir =
     (if dir = CELL_DIRECTION_IN \<and> CIRCUIT_IS_ORIGIN circ
      then if circ_purpose circ = CIRCUIT_PURPOSE_PATH_BIAS_TESTING
           then with_origin circ (\<lambda>oc. Done (circ\<lparr>kind := Origin (oc\<lparr>path_state := PATH_STATE_USE_FAILED\<rparr>)\<rparr>,
                  Close END_CIRC_REASON_TORPROTOCOL))
           else Done (circ, Drop)
      else obind (case dir of
                    CELL_DIRECTION_OUT \<Rightarrow> Done (n_circ_id circ, n_chan circ)
                  | CELL_DIRECTION_IN \<Rightarrow> with_or circ (\<lambda>r. Done (p_circ_id r, p_chan r))) (\<lambda>(id, chan).
           let cell = cell\<lparr>cell_circ_id := id\<rparr>
           in case chan of
                Some ch \<Rightarrow> Done (circ, if queued ch cell < 0 then Close END_CIRC_REASON_RESOURCELIMIT else Queue ch cell dir)
              | None \<Rightarrow>
                  (case kind circ of
                     Origin _ \<Rightarrow> Done (circ, Close END_CIRC_REASON_TORPROTOCOL)
                   | Or r \<Rightarrow>
                       (case (rend_splice r, dir) of
                          (Some s, CELL_DIRECTION_OUT) \<Rightarrow>
                            (case circs s of
                               None \<Rightarrow> Stuck
                             | Some other \<Rightarrow>
                                 if circ_purpose circ \<noteq> CIRCUIT_PURPOSE_REND_ESTABLISHED \<or>
                                    circ_purpose other \<noteq> CIRCUIT_PURPOSE_REND_ESTABLISHED then Stuck
                                 else with_or other (\<lambda>sr. Done (circ,
                                        Splice s (cell\<lparr>cell_circ_id := p_circ_id sr, cell_command := CELL_RELAY\<rparr>))))
                        | _ \<Rightarrow> Done (circ\<lparr>kind := Or (r\<lparr>n_cells_discarded_at_end := n_cells_discarded_at_end r + 1\<rparr>)\<rparr>,
                                   Close END_CIRC_REASON_TORPROTOCOL)))))"

definition receive_here ::
  "('c, 'd) prims \<Rightarrow> (nat \<Rightarrow> cell_t \<Rightarrow> int) \<Rightarrow> (nat \<Rightarrow> ('c, 'd) circuit option) \<Rightarrow> ('c, 'd) circuit \<Rightarrow> cell_t \<Rightarrow> direction \<Rightarrow>
     (('c, 'd) circuit \<times> action) outcome option" where
  "receive_here P queued circs circ cell dir =
     (if marked_for_close circ \<noteq> None then Some (Done (circ, Drop))
      else map_option (\<lambda>r. case r of
          Stuck \<Rightarrow> Stuck
        | Fail \<Rightarrow> Done (circ, Close END_CIRC_REASON_INTERNAL)
        | Done (circ, pl, layer_hint, recognized) \<Rightarrow>
            let cell = cell\<lparr>cell_payload := pl\<rparr>
            in if recognized
               then obind (sendme_record_received_cell_digest P circ layer_hint) (\<lambda>circ.
                      if circ_purpose circ = CIRCUIT_PURPOSE_PATH_BIAS_TESTING then Done (circ, Drop)
                      else Done (circ, Process cell (if dir = CELL_DIRECTION_IN then layer_hint else None)))
               else receive_unrecognized queued circs circ cell dir)
        (relay_decrypt_cell P circ (cell_payload cell) dir))"

text \<open>
  Over all circuits, \<open>circs\<close>. The other circuit of a rendezvous receives the cell as an incoming
  one; when it has to be closed, so has this one.
\<close>

definition circuit_receive_relay_cell ::
  "('c, 'd) prims \<Rightarrow> (nat \<Rightarrow> cell_t \<Rightarrow> int) \<Rightarrow> (nat \<Rightarrow> ('c, 'd) circuit option) \<Rightarrow> nat \<Rightarrow> cell_t \<Rightarrow> direction \<Rightarrow>
     ((nat \<Rightarrow> ('c, 'd) circuit option) \<times> action) outcome option" where
  "circuit_receive_relay_cell P queued circs a cell dir =
     (case circs a of
        None \<Rightarrow> Some Stuck
      | Some circ \<Rightarrow>
          Option.bind (receive_here P queued circs circ cell dir) (\<lambda>r. case r of
            Stuck \<Rightarrow> Some Stuck
          | Fail \<Rightarrow> Some Fail
          | Done (circ, act) \<Rightarrow>
              let circs = circs(a \<mapsto> circ)
              in (case act of
                    Splice s cell \<Rightarrow>
                      (case circs s of
                         None \<Rightarrow> Some Stuck
                       | Some other \<Rightarrow>
                           map_option (\<lambda>r. obind r (\<lambda>(other, act).
                             let circs = circs(s \<mapsto> other)
                             in (case act of
                                   Close reason \<Rightarrow>
                                     (case circs a of
                                        None \<Rightarrow> Stuck
                                      | Some circ \<Rightarrow> Done (circs(a \<mapsto> mark_for_close reason circ), Close reason))
                                 | _ \<Rightarrow> Done (circs, act))))
                             (receive_here P queued circs other cell CELL_DIRECTION_IN))
                  | _ \<Rightarrow> Some (Done (circs, act)))))"

section \<open>Sending\<close>

text \<open>
  A cell to be sent leaves on a channel; \<open>None\<close> is a cell that is dropped. In the inward direction
  the channel may be NULL, which \<open>append_cell_to_circuit_queue\<close> takes care of.
\<close>

definition circuit_package_relay_cell ::
  "('c, 'd) prims \<Rightarrow> cell_t \<Rightarrow> ('c, 'd) circuit \<Rightarrow> direction \<Rightarrow> nat option \<Rightarrow>
     (('c, 'd) circuit \<times> (nat option \<times> cell_t) option) outcome option" where
  "circuit_package_relay_cell P cell circ dir layer_hint =
     (if marked_for_close circ \<noteq> None then Some (Done (circ, None))
      else case dir of
        CELL_DIRECTION_OUT \<Rightarrow>
          (case n_chan circ of
             None \<Rightarrow> Some (Done (circ, None))
           | Some chan \<Rightarrow>
               if \<not> CIRCUIT_IS_ORIGIN circ then Some (Done (circ, None))
               else (case layer_hint of
                       None \<Rightarrow> Some Stuck
                     | Some hop \<Rightarrow>
                         map_option (\<lambda>r. obind r (\<lambda>(circ, pl). Done (circ, Some (Some chan, cell\<lparr>cell_payload := pl\<rparr>))))
                           (relay_encrypt_cell_outbound P (cell_payload cell) circ hop)))
      | CELL_DIRECTION_IN \<Rightarrow>
          if CIRCUIT_IS_ORIGIN circ then Some (Done (circ, None))
          else Some (obind (relay_encrypt_cell_inbound P (cell_payload cell) circ) (\<lambda>(circ, pl).
                 with_or circ (\<lambda>r. Done (circ, Some (p_chan r, cell\<lparr>cell_payload := pl\<rparr>))))))"

definition CELL_PADDING_GAP :: nat where "CELL_PADDING_GAP = 4"

definition get_pad_cell_offset :: "nat \<Rightarrow> nat outcome" where
  "get_pad_cell_offset data_len =
     (if \<not> data_len \<le> RELAY_PAYLOAD_SIZE then Stuck
      else let offset = RELAY_HEADER_SIZE + data_len + CELL_PADDING_GAP
           in Done (if offset \<ge> CELL_PAYLOAD_SIZE then 0 else offset))"

text \<open>\<open>rng n\<close> are \<open>n\<close> bytes of the random generator.\<close>

definition pad_cell_payload :: "(nat \<Rightarrow> byte list) \<Rightarrow> byte list \<Rightarrow> nat \<Rightarrow> byte list outcome" where
  "pad_cell_payload rng pl data_len =
     obind (get_pad_cell_offset data_len) (\<lambda>pad_offset.
       if pad_offset = 0 then Done pl
       else mem_put pl pad_offset (rng (CELL_PAYLOAD_SIZE - pad_offset)))"

text \<open>The cell with its header, its data and its padding.\<close>

definition relay_cell_payload ::
  "(nat \<Rightarrow> byte list) \<Rightarrow> u16 \<Rightarrow> byte \<Rightarrow> byte list \<Rightarrow> byte list outcome" where
  "relay_cell_payload rng stream_id relay_command data =
     (let rh = \<lparr>rh_command = relay_command, rh_recognized = 0, rh_stream_id = stream_id,
                rh_integrity = [0, 0, 0, 0], rh_length = of_nat (length data)\<rparr>;
          pl = relay_header_pack (replicate CELL_PAYLOAD_SIZE 0) rh
      in obind (mem_put pl RELAY_HEADER_SIZE data) (\<lambda>pl. pad_cell_payload rng pl (length data)))"

definition CMD_DATA :: byte where "CMD_DATA = 2"
definition CMD_SENDME :: byte where "CMD_SENDME = 5"
definition MAX_RELAY_EARLY_CELLS_PER_CIRCUIT :: nat where "MAX_RELAY_EARLY_CELLS_PER_CIRCUIT = 8"

text \<open>
  An EXTEND cell, or a cell for another than the first hop, goes out as RELAY_EARLY while there are
  some left; the command is written into an array of eight.
\<close>

definition choose_relay_early ::
  "byte \<Rightarrow> nat option \<Rightarrow> ('c, 'd) origin_part \<Rightarrow> (('c, 'd) origin_part \<times> byte) outcome" where
  "choose_relay_early relay_command cpath_layer oc =
     (if remaining_relay_early_cells oc > 0 \<and>
         (relay_command = RELAY_COMMAND_EXTEND \<or> relay_command = RELAY_COMMAND_EXTEND2 \<or> cpath_layer \<noteq> first_hop oc)
      then if \<not> length (relay_early_commands oc) < MAX_RELAY_EARLY_CELLS_PER_CIRCUIT then Stuck
           else Done (oc\<lparr>remaining_relay_early_cells := remaining_relay_early_cells oc - 1,
                         relay_early_commands := relay_early_commands oc @ [relay_command]\<rparr>, CELL_RELAY_EARLY)
      else Done (oc, CELL_RELAY))"

text \<open>
  \<open>queued\<close> is what \<open>append_cell_to_circuit_queue\<close> returns for the cell; \<open>now\<close> is the clock. The
  result: the circuit, the cell handed to the queue, the return value.
\<close>

definition relay_send_command_from_edge ::
  "('c, 'd) prims \<Rightarrow> (nat \<Rightarrow> byte list) \<Rightarrow> u64 \<Rightarrow> int \<Rightarrow> u16 \<Rightarrow> ('c, 'd) circuit \<Rightarrow> byte \<Rightarrow> byte list \<Rightarrow> nat option \<Rightarrow>
     (('c, 'd) circuit \<times> (nat option \<times> cell_t) option \<times> int) outcome option" where
  "relay_send_command_from_edge P rng now queued stream_id circ relay_command data cpath_layer =
     (case
       (if \<not> length data \<le> RELAY_PAYLOAD_SIZE then Stuck
        else obind (case kind circ of
             Origin oc \<Rightarrow>
               if cpath_layer = None then Stuck
               else obind (choose_relay_early relay_command cpath_layer oc) (\<lambda>(oc, cmd).
                      Done (circ\<lparr>kind := Origin oc\<rparr>, n_circ_id circ, cmd, CELL_DIRECTION_OUT))
           | Or r \<Rightarrow> if cpath_layer \<noteq> None then Stuck else Done (circ, p_circ_id r, CELL_RELAY, CELL_DIRECTION_IN))
         (\<lambda>(circ, id, cmd, dir).
        obind (relay_cell_payload rng stream_id relay_command data) (\<lambda>pl.
          Done (circ, \<lparr>cell_circ_id = id, cell_command = cmd, cell_payload = pl\<rparr>, dir)))) of
        Stuck \<Rightarrow> Some Stuck
      | Fail \<Rightarrow> Some Fail
      | Done (circ, cell, dir) \<Rightarrow>
          map_option (\<lambda>r. obind r (\<lambda>(circ, out).
            let ret = (case out of None \<Rightarrow> 0 | Some _ \<Rightarrow> queued)
            in if ret < 0 then Done (mark_for_close END_CIRC_REASON_INTERNAL circ, out, - 1)
               else if ret = 0 then Done (circ, out, 0)
               else if relay_command \<noteq> CMD_DATA then Done (circ, out, 0)
               else obind (sendme_record_cell_digest_on_circ circ cpath_layer) (\<lambda>circ.
                    obind (sendme_note_circuit_data_packaged now circ cpath_layer) (\<lambda>(w, circ).
                      if w < 0 then Done (mark_for_close END_CIRC_REASON_TORPROTOCOL circ, out, - 1)
                      else Done (circ, out, 0)))))
            (circuit_package_relay_cell P cell circ dir cpath_layer))"

end
