(* ===== verification/RelayPath.thy ===== *)
theory RelayPath
  imports RelayCell
begin

text \<open>
  A circuit as a whole: the client's end, the relays in the order of its hops, and cells that go
  from one to the next. The lemmas show that the layers the client puts around a cell come off one
  per relay and the cell is processed where it was sent to, and the same for the way back.
\<close>

section \<open>The way out\<close>

text \<open>
  The cell is received by the first relay; where a relay queues it, the next relay receives it.
  The result names the relay that processed the cell.
\<close>

fun carry_out ::
  "('c, 'd) prims \<Rightarrow> (nat \<Rightarrow> cell_t \<Rightarrow> int) \<Rightarrow> ('c, 'd) circuit list \<Rightarrow> cell_t \<Rightarrow>
     (('c, 'd) circuit list \<times> (nat \<times> cell_t) option) outcome option" where
  "carry_out P queued [] cell = Some (Done ([], None))"
| "carry_out P queued (r # rs) cell =
     Option.bind (receive_here P queued (\<lambda>_. None) r cell CELL_DIRECTION_OUT) (\<lambda>res. case res of
         Done (r', Process c _) \<Rightarrow> Some (Done (r' # rs, Some (0, c)))
       | Done (r', Queue _ c _) \<Rightarrow>
           map_option (\<lambda>x. obind x (\<lambda>(rs', d). Done (r' # rs', map_option (\<lambda>(i, c). (Suc i, c)) d)))
             (carry_out P queued rs c)
       | Done (r', _) \<Rightarrow> Some (Done (r' # rs, None))
       | Fail \<Rightarrow> Some Fail
       | Stuck \<Rightarrow> Some Stuck)"

text \<open>A relay in the middle of a circuit, and at a place where it may process a cell.\<close>

definition relay_up :: "('c, 'd) circuit \<Rightarrow> bool" where
  "relay_up r \<longleftrightarrow> relay_circuit r \<and> marked_for_close r = None \<and>
     circ_purpose r \<noteq> CIRCUIT_PURPOSE_PATH_BIAS_TESTING \<and> circ_deliver_window r \<le> CIRCWINDOW_START"

text \<open>Both ends have the same keys and have seen the same cells.\<close>

definition in_sync :: "('c, 'd) relay_crypto \<Rightarrow> ('c, 'd) circuit \<Rightarrow> bool" where
  "in_sync c r \<longleftrightarrow> f_crypto (relay_keys r) = f_crypto c \<and> f_digest (relay_keys r) = f_digest c \<and>
     b_crypto (relay_keys r) = b_crypto c \<and> b_digest (relay_keys r) = b_digest c"

lemma record_received_relay:
  assumes r: "relay_circuit r" and w: "circ_deliver_window r \<le> CIRCWINDOW_START"
  shows "\<exists>d. sendme_record_received_cell_digest P r None = Done (set_relay_keys r ((relay_keys r)\<lparr>sendme_digest := d\<rparr>))"
proof -
  obtain rp where rp: "kind r = Or rp" "has_keys (or_crypto rp)" "relay_keys r = or_crypto rp"
    "\<And>cry. set_relay_keys r cry = r\<lparr>kind := Or (rp\<lparr>or_crypto := cry\<rparr>)\<rparr>" by (rule relay_circuitE [OF r]) blast
  obtain inc where inc: "sendme_get_inc_count r None = Done inc" "inc \<noteq> 0"
    using r by (cases "circ_ccontrol r")
      (auto simp: sendme_get_inc_count_def package_state_def relay_circuit_def CIRCWINDOW_INCREMENT_def unsigned_eq_0_iff)
  obtain b where b: "circuit_sendme_cell_is_next (circ_deliver_window r) inc = Done b"
    using w inc(2) by (simp add: circuit_sendme_cell_is_next_def)
  obtain fd where fd: "f_digest (or_crypto rp) = Some fd" using rp(2) by (auto simp: has_keys_def)
  have same: "r\<lparr>kind := Or (rp\<lparr>or_crypto := (or_crypto rp)\<lparr>sendme_digest := sendme_digest (or_crypto rp)\<rparr>\<rparr>)\<rparr> = r"
    using rp(1) by simp
  show ?thesis
    using inc b fd rp same
    by (cases b)
       (auto simp: sendme_record_received_cell_digest_def deliver_window_of_def update_or_crypto_def with_or_def
          relay_crypto_record_sendme_digest_def intro: exI [of _ "sendme_digest (or_crypto rp)"])
qed

lemma record_received_sync:
  assumes "relay_circuit r"
  shows "in_sync c (set_relay_keys r (k\<lparr>sendme_digest := d\<rparr>)) = in_sync c (set_relay_keys r k)"
  using assms by (simp add: in_sync_def)

text \<open>A relay that does not accept the cell passes it on with one layer less.\<close>

lemma receive_pass_out:
  assumes up: "relay_up r" and P: "stream_cipher P" and l: "length (cell_payload cell) = CELL_PAYLOAD_SIZE"
    and ch: "n_chan r = Some ch" and q: "\<And>c. queued ch c \<ge> 0"
    and na: "\<not> accepts P (the (f_digest (relay_keys r))) (apply_cipher P (f_crypto (relay_keys r)) (cell_payload cell))"
  shows "receive_here P queued circs r cell CELL_DIRECTION_OUT =
    Some (Done (set_relay_keys r (f_step P (relay_keys r)),
      Queue ch (cell\<lparr>cell_payload := apply_cipher P (f_crypto (relay_keys r)) (cell_payload cell), cell_circ_id := n_circ_id r\<rparr>)
        CELL_DIRECTION_OUT))"
  using up relay_out_eq [of r P "cell_payload cell"] P l ch q na
  by (simp add: receive_here_def relay_up_def receive_unrecognized_def not_less [symmetric] Let_def)

lemma receive_process_out:
  assumes up: "relay_up r" and P: "stream_cipher P" and l: "length (cell_payload cell) = CELL_PAYLOAD_SIZE"
    and acc: "accepts P (the (f_digest (relay_keys r))) (apply_cipher P (f_crypto (relay_keys r)) (cell_payload cell))"
  defines "pl \<equiv> apply_cipher P (f_crypto (relay_keys r)) (cell_payload cell)"
  shows "\<exists>d. receive_here P queued circs r cell CELL_DIRECTION_OUT =
    Some (Done (set_relay_keys r ((f_accept P (f_step P (relay_keys r)) pl)\<lparr>sendme_digest := d\<rparr>),
      Process (cell\<lparr>cell_payload := zeroed pl\<rparr>) None))"
proof -
  have rc: "relay_circuit r" and mk: "marked_for_close r = None" and pp: "circ_purpose r \<noteq> CIRCUIT_PURPOSE_PATH_BIAS_TESTING"
    and w: "circ_deliver_window r \<le> CIRCWINDOW_START" using up by (simp_all add: relay_up_def)
  have hk: "has_keys (relay_keys r)" using rc by (auto simp: relay_circuit_def relay_keys_def)
  let ?r = "set_relay_keys r (f_accept P (f_step P (relay_keys r)) pl)"
  have r': "relay_circuit ?r" using rc hk by simp
  obtain d where d: "sendme_record_received_cell_digest P ?r None =
      Done (set_relay_keys ?r ((relay_keys ?r)\<lparr>sendme_digest := d\<rparr>))"
    using record_received_relay [OF r', of P] w by auto
  then have "receive_here P queued circs r cell CELL_DIRECTION_OUT =
    Some (Done (set_relay_keys ?r ((relay_keys ?r)\<lparr>sendme_digest := d\<rparr>), Process (cell\<lparr>cell_payload := zeroed pl\<rparr>) None))"
    using relay_out_eq [OF rc P l] acc mk pp by (simp add: receive_here_def pl_def Let_def)
  then show ?thesis using rc by auto
qed

text \<open>
  Some relay before the one addressed takes the cell for its own: the digest of what it sees matches
  by accident.
\<close>

definition taken_early ::
  "('c, 'd) prims \<Rightarrow> ('c, 'd) relay_crypto list \<Rightarrow> nat \<Rightarrow> byte list \<Rightarrow> bool" where
  "taken_early P cs k pl \<longleftrightarrow>
     (\<exists>i < k. accepts P (the (f_digest (cs ! i))) (layers P (drop (Suc i) (take (Suc k) cs)) pl))"

lemma taken_early_Cons:
  "taken_early P (c # cs) (Suc k) pl \<longleftrightarrow>
     accepts P (the (f_digest c)) (layers P (take (Suc k) cs) pl) \<or> taken_early P cs k pl"
  by (auto simp: taken_early_def less_Suc_eq_0_disj)

lemma carry_out_layers:
  assumes "list_all relay_up rs" "list_all2 in_sync cs rs" "k < length rs" "stream_cipher P"
    and "\<And>ch c. queued ch c \<ge> 0" "\<And>i. i < k \<Longrightarrow> n_chan (rs ! i) \<noteq> None"
    and "cell_payload cell = layers P (take (Suc k) cs) pl" "length pl = CELL_PAYLOAD_SIZE"
    and "accepts P (the (f_digest (cs ! k))) pl" "\<not> taken_early P cs k pl"
  shows "\<exists>rs' id d. carry_out P queued rs cell =
      Some (Done (rs', Some (k, cell\<lparr>cell_circ_id := id, cell_payload := zeroed pl\<rparr>))) \<and>
    rs' = map (\<lambda>r. set_relay_keys r (f_step P (relay_keys r))) (take k rs) @
      set_relay_keys (rs ! k) ((f_accept P (f_step P (relay_keys (rs ! k))) pl)\<lparr>sendme_digest := d\<rparr>) # drop (Suc k) rs"
  using assms
proof (induction k arbitrary: rs cs cell)
  case (0 rs cs cell)
  obtain r rs1 where rs: "rs = r # rs1" using 0(3) by (cases rs) auto
  obtain c cs1 where cs: "cs = c # cs1" "in_sync c r" using 0(2) rs by (cases cs) auto
  have l: "length (cell_payload cell) = CELL_PAYLOAD_SIZE" using 0(4,7,8) by simp
  have pl: "apply_cipher P (f_crypto (relay_keys r)) (cell_payload cell) = pl"
    using 0(4,7) cs by (simp add: in_sync_def)
  have "accepts P (the (f_digest (relay_keys r))) pl" using 0(9) cs by (simp add: in_sync_def)
  with receive_process_out [of r P cell queued "\<lambda>_. None"] 0(1,4) l rs pl obtain d where
    "receive_here P queued (\<lambda>_. None) r cell CELL_DIRECTION_OUT =
      Some (Done (set_relay_keys r ((f_accept P (f_step P (relay_keys r)) pl)\<lparr>sendme_digest := d\<rparr>),
        Process (cell\<lparr>cell_payload := zeroed pl\<rparr>) None))" by auto
  then show ?case
    unfolding rs by (intro exI [of _ "cell_circ_id cell"] exI [of _ d] exI conjI) (auto simp: Option.bind_def)
next
  case (Suc k rs cs cell)
  obtain r rs1 where rs: "rs = r # rs1" using Suc.prems(3) by (cases rs) auto
  obtain c cs1 where cs: "cs = c # cs1" "in_sync c r" "list_all2 in_sync cs1 rs1" using Suc.prems(2) rs by (cases cs) auto
  have l: "length (cell_payload cell) = CELL_PAYLOAD_SIZE" using Suc.prems(4,7,8) by simp
  have pl: "apply_cipher P (f_crypto (relay_keys r)) (cell_payload cell) = layers P (take (Suc k) cs1) pl"
    using Suc.prems(4,7) cs by (simp add: in_sync_def)
  have na: "\<not> accepts P (the (f_digest (relay_keys r))) (layers P (take (Suc k) cs1) pl)"
    "\<not> taken_early P cs1 k pl" using Suc.prems(10) cs by (simp_all add: taken_early_Cons in_sync_def)
  obtain ch where ch: "n_chan r = Some ch" using Suc.prems(6) [of 0] rs by auto
  let ?cell = "cell\<lparr>cell_payload := layers P (take (Suc k) cs1) pl, cell_circ_id := n_circ_id r\<rparr>"
  have here: "receive_here P queued (\<lambda>_. None) r cell CELL_DIRECTION_OUT =
      Some (Done (set_relay_keys r (f_step P (relay_keys r)), Queue ch ?cell CELL_DIRECTION_OUT))"
    using receive_pass_out [of r P cell ch queued "\<lambda>_. None"] Suc.prems(1,4,5) l ch na(1) rs pl by simp
  have "\<exists>rs' id d. carry_out P queued rs1 ?cell =
      Some (Done (rs', Some (k, ?cell\<lparr>cell_circ_id := id, cell_payload := zeroed pl\<rparr>))) \<and>
    rs' = map (\<lambda>r. set_relay_keys r (f_step P (relay_keys r))) (take k rs1) @
      set_relay_keys (rs1 ! k) ((f_accept P (f_step P (relay_keys (rs1 ! k))) pl)\<lparr>sendme_digest := d\<rparr>) # drop (Suc k) rs1"
  proof (rule Suc.IH)
    show "n_chan (rs1 ! i) \<noteq> None" if "i < k" for i using Suc.prems(6) [of "Suc i"] rs that by simp
  qed (use Suc.prems(1-5,7-10) rs cs na(2) in auto)
  then show ?case using here unfolding rs by (auto simp: Option.bind_def)
qed

section \<open>The cell that is sent\<close>

lemma pad_cell_eq:
  assumes "length data \<le> RELAY_PAYLOAD_SIZE" "\<And>n. length (rng n) = n" "length pl = CELL_PAYLOAD_SIZE"
  shows "\<exists>pl'. pad_cell_payload rng pl (length data) = Done pl' \<and> length pl' = CELL_PAYLOAD_SIZE \<and>
    take (RELAY_HEADER_SIZE + length data) pl' = take (RELAY_HEADER_SIZE + length data) pl"
  using assms
  by (auto simp: pad_cell_payload_def get_pad_cell_offset_def mem_put_def CELL_PADDING_GAP_def Let_def min_def not_le)

lemma take_prefix_parts:
  assumes "take n xs = take n ys" "i + m \<le> n"
  shows "take m (drop i xs) = take m (drop i ys)"
proof -
  have "take m (drop i zs) = take m (drop i (take n zs))" for zs :: "'a list"
    using assms(2) by (simp add: drop_take min_def)
  then show ?thesis using assms(1) by metis
qed

lemma relay_cell_payload_eq:
  assumes d: "length data \<le> RELAY_PAYLOAD_SIZE" and rng: "\<And>n. length (rng n) = n"
  shows "\<exists>pl. relay_cell_payload rng sid cmd data = Done pl \<and> length pl = CELL_PAYLOAD_SIZE \<and>
    relay_header_unpack pl = \<lparr>rh_command = cmd, rh_recognized = 0, rh_stream_id = sid,
      rh_integrity = [0, 0, 0, 0], rh_length = of_nat (length data)\<rparr> \<and>
    take (length data) (drop RELAY_HEADER_SIZE pl) = data"
proof -
  let ?rh = "\<lparr>rh_command = cmd, rh_recognized = 0, rh_stream_id = sid, rh_integrity = [0, 0, 0, 0],
    rh_length = of_nat (length data)\<rparr>"
  let ?head = "[cmd] @ put16 0 @ put16 sid @ [0, 0, 0, 0] @ put16 (of_nat (length data))"
  let ?pl = "?head @ data @ replicate (RELAY_PAYLOAD_SIZE - length data) 0"
  have p: "mem_put (relay_header_pack (replicate CELL_PAYLOAD_SIZE 0) ?rh) RELAY_HEADER_SIZE data = Done ?pl"
  proof -
    have "mem_put (h @ replicate m 0) (length h) data = Done (h @ data @ replicate (m - length data) 0)"
      if "length data \<le> m" for h m using that by (simp add: mem_put_def)
    from this [OF d, of ?head] show ?thesis by (simp add: relay_header_pack_def size_defs)
  qed
  have l: "length ?pl = CELL_PAYLOAD_SIZE" using d by (simp add: size_defs)
  obtain pl where pl: "pad_cell_payload rng ?pl (length data) = Done pl" "length pl = CELL_PAYLOAD_SIZE"
    "take (RELAY_HEADER_SIZE + length data) pl = take (RELAY_HEADER_SIZE + length data) ?pl"
    using pad_cell_eq [OF d rng l] by blast
  note part = take_prefix_parts [OF pl(3)]
  have h: "take 1 (drop 0 pl) = [cmd]" "take 2 (drop 1 pl) = put16 0" "take 2 (drop 3 pl) = put16 sid"
    "take 4 (drop 5 pl) = [0, 0, 0, 0]" "take 2 (drop 9 pl) = put16 (of_nat (length data))"
    "take (length data) (drop RELAY_HEADER_SIZE pl) = data"
    by (subst part, simp add: size_defs, simp add: size_defs put16_def)+
  have g: "get16 bs = w" if "take 2 bs = put16 w" for bs w
    using get16_put16 [of w "drop 2 bs"] append_take_drop_id [of 2 bs] that by simp
  have "pl ! 0 = cmd" using h(1) pl(2) by (cases pl) (simp_all add: size_defs)
  then have "relay_header_unpack pl = ?rh"
    using g [OF h(2)] g [OF h(3)] g [OF h(5)] h(4) by (simp add: relay_header_unpack_def)
  then show ?thesis using p pl(1,2) h(6) by (simp add: relay_cell_payload_def Let_def)
qed

section \<open>The sender's state\<close>

lemma update_hop_frame:
  assumes c: "client_circuit c xs" and k: "k < length xs"
    and f: "\<And>n. get_hop c (xs ! k) = Done n \<Longrightarrow> hop_ready n \<Longrightarrow>
      \<exists>n'. f n = Done n' \<and> hop_ready n' \<and> pvt_crypto n' = pvt_crypto n \<and> nxt n' = nxt n \<and> prv n' = prv n"
  shows "\<exists>c'. update_hop c (xs ! k) f = Done c' \<and> client_circuit c' xs \<and> client_cryptos c' xs = client_cryptos c xs \<and>
    n_chan c' = n_chan c \<and> marked_for_close c' = marked_for_close c"
proof -
  obtain oc where oc: "kind c = Origin oc" "ring (hops oc) xs" "first_hop oc = Some (xs ! 0)" "xs \<noteq> []"
    "client_cryptos c xs = cryptos (hops oc) xs"
    "\<And>a n. a \<in> set xs \<Longrightarrow> hops oc a = Some n \<Longrightarrow> hop_ready n"
    by (rule client_circuitE [OF c]) blast
  obtain n where n: "hops oc (xs ! k) = Some n" by (rule ring_node [OF oc(2) k])
  obtain n' where n': "f n = Done n'" "hop_ready n'" "pvt_crypto n' = pvt_crypto n" "nxt n' = nxt n" "prv n' = prv n"
    using f [of n] oc(1) n oc(6) [OF nth_mem [OF k] n] by (auto simp: get_hop_def with_origin_def)
  let ?h = "(hops oc)(xs ! k \<mapsto> n')" and ?c = "c\<lparr>kind := Origin (oc\<lparr>hops := (hops oc)(xs ! k \<mapsto> n')\<rparr>)\<rparr>"
  have r: "ring ?h xs"
    unfolding ring_def
  proof (intro conjI allI impI)
    show "distinct xs" using oc(2) by (simp add: ring_def)
    fix i assume i: "i < length xs"
    obtain m where m: "hops oc (xs ! i) = Some m" "nxt m = Some (xs ! (Suc i mod length xs))"
      "prv m = Some (xs ! ((i + (length xs - 1)) mod length xs))" using ring_node [OF oc(2) i] .
    then show "\<exists>n. ?h (xs ! i) = Some n \<and> nxt n = Some (xs ! (Suc i mod length xs)) \<and>
        prv n = Some (xs ! ((i + (length xs - 1)) mod length xs))"
      using n n' by (cases "xs ! i = xs ! k") auto
  qed
  have "update_hop c (xs ! k) f = Done ?c" using oc(1) n n'(1) by (simp add: update_hop_def with_origin_def)
  moreover have "client_circuit ?c xs"
    using r oc(3,4,6) n'(2) by (auto simp: client_circuit_def)
  moreover have "client_cryptos ?c xs = client_cryptos c xs"
    using n n'(3) oc(5) by (auto simp: client_cryptos_def cryptos_def)
  ultimately show ?thesis by (intro exI [of _ ?c]) simp
qed

lemma note_cell_sent_inc:
  "congestion_control_note_cell_sent now cc c hint = Done cc' \<Longrightarrow> cc_sendme_inc cc' = cc_sendme_inc cc"
  by (auto simp: congestion_control_note_cell_sent_def outcome_elims Let_def)

lemma sent_for_sendme_defined:
  assumes "client_circuit c xs" "k < length xs"
  shows "\<exists>b. circuit_sent_cell_for_sendme c (Some (xs ! k)) = Done b"
proof -
  obtain n where "get_hop c (xs ! k) = Done n" "client_cryptos c xs ! k = pvt_crypto n" "hop_ready n" "has_keys (pvt_crypto n)"
    using client_hop [OF assms] .
  then show ?thesis
    by (cases "hop_ccontrol n") (auto simp: circuit_sent_cell_for_sendme_def package_state_def hop_ready_def)
qed

lemma note_packaged_client:
  assumes c: "client_circuit c xs" and k: "k < length xs"
  shows "\<exists>w c'. sendme_note_circuit_data_packaged now c (Some (xs ! k)) = Done (w, c') \<and> client_circuit c' xs \<and>
    client_cryptos c' xs = client_cryptos c xs"
proof -
  obtain n where n: "get_hop c (xs ! k) = Done n" "client_cryptos c xs ! k = pvt_crypto n" "hop_ready n" "has_keys (pvt_crypto n)"
    using client_hop [OF c k] .
  have orig: "CIRCUIT_IS_ORIGIN c" using c by (auto simp: client_circuit_def CIRCUIT_IS_ORIGIN_def)
  obtain b where b: "circuit_sent_cell_for_sendme c (Some (xs ! k)) = Done b" using sent_for_sendme_defined [OF c k] by blast
  have pw: "\<exists>w. congestion_control_get_package_window c' (Some (xs ! k)) = Done w" if cl: "client_circuit c' xs" for c'
  proof -
    obtain m where "get_hop c' (xs ! k) = Done m" using client_hop [OF cl k] .
    then show ?thesis
      by (cases "hop_ccontrol m") (auto simp: congestion_control_get_package_window_def package_state_def)
  qed
  show ?thesis
  proof (cases "hop_ccontrol n")
    case None
    let ?f = "\<lambda>n. Done (n\<lparr>package_window := package_window n - 1\<rparr>)"
    obtain c' where c': "update_hop c (xs ! k) ?f = Done c'" "client_circuit c' xs" "client_cryptos c' xs = client_cryptos c xs"
      using update_hop_frame [where f = ?f, OF c k] by (auto simp: hop_ready_def)
    then show ?thesis
      using n(1) None orig pw [OF c'(2)] by (auto simp: sendme_note_circuit_data_packaged_def package_state_def)
  next
    case (Some cc)
    obtain cc' where cc': "congestion_control_note_cell_sent now cc c (Some (xs ! k)) = Done cc'"
      using b by (simp add: congestion_control_note_cell_sent_def Let_def)
    have "cc_sendme_inc cc' \<noteq> 0" using note_cell_sent_inc [OF cc'] n(3) Some by (simp add: hop_ready_def)
    then obtain c' where c': "update_hop c (xs ! k) (\<lambda>n. Done (n\<lparr>hop_ccontrol := Some cc'\<rparr>)) = Done c'" "client_circuit c' xs"
        "client_cryptos c' xs = client_cryptos c xs"
      using update_hop_frame [where f = "\<lambda>n. Done (n\<lparr>hop_ccontrol := Some cc'\<rparr>)", OF c k] by (auto simp: hop_ready_def)
    then show ?thesis
      using n(1) Some cc' pw [OF c'(2)]
      by (auto simp: sendme_note_circuit_data_packaged_def package_state_def set_ccontrol_def)
  qed
qed

lemma layers_cong: "map f_crypto cs = map f_crypto cs' \<Longrightarrow> layers P cs pl = layers P cs' pl"
  by (induction cs cs' rule: list_induct2') auto

lemma choose_early_frame:
  assumes c: "client_circuit c xs" "kind c = Origin oc"
    and b: "remaining_relay_early_cells oc + length (relay_early_commands oc) \<le> MAX_RELAY_EARLY_CELLS_PER_CIRCUIT"
  shows "\<exists>oc' cmd. choose_relay_early rcmd hint oc = Done (oc', cmd) \<and>
    remaining_relay_early_cells oc' + length (relay_early_commands oc') = remaining_relay_early_cells oc + length (relay_early_commands oc) \<and>
    client_circuit (c\<lparr>kind := Origin oc'\<rparr>) xs \<and>
    client_cryptos (c\<lparr>kind := Origin oc'\<rparr>) xs = client_cryptos c xs"
  using assms
  by (auto simp: choose_relay_early_def client_circuit_def client_cryptos_def MAX_RELAY_EARLY_CELLS_PER_CIRCUIT_def)

definition early_ok :: "('c, 'd) circuit \<Rightarrow> bool" where
  "early_ok c \<longleftrightarrow> (case kind c of Or _ \<Rightarrow> True
     | Origin oc \<Rightarrow> remaining_relay_early_cells oc + length (relay_early_commands oc) \<le> MAX_RELAY_EARLY_CELLS_PER_CIRCUIT)"

lemma record_cell_digest_frame:
  assumes "client_circuit c xs" "k < length xs"
  shows "\<exists>c'. sendme_record_cell_digest_on_circ c (Some (xs ! k)) = Done c' \<and> client_circuit c' xs \<and>
    client_cryptos c' xs = client_cryptos c xs"
proof -
  obtain b where "circuit_sent_cell_for_sendme c (Some (xs ! k)) = Done b" using sent_for_sendme_defined [OF assms] by blast
  moreover obtain n where "get_hop c (xs ! k) = Done n" using client_hop [OF assms] .
  ultimately show ?thesis
    using assms(1)
    by (cases b) (auto simp: sendme_record_cell_digest_on_circ_def sendme_digest_of_def record_cell_digest_on_circ_def
        client_circuit_def client_cryptos_def Let_def)
qed

lemma send_from_client:
  assumes c: "client_circuit c xs" and k: "k < length xs" and P: "stream_cipher P" "digest_length P"
    and m: "marked_for_close c = None" and ch: "n_chan c = Some ch" and e: "early_ok c"
    and d: "length data \<le> RELAY_PAYLOAD_SIZE" and rng: "\<And>n. length (rng n) = n" and q: "queued > 0"
  defines "cs \<equiv> client_cryptos c xs"
  shows "\<exists>pl rec c' cell ret. relay_cell_payload rng sid rcmd data = Done pl \<and>
    relay_send_command_from_edge P rng now queued sid c rcmd data (Some (xs ! k)) =
      Some (Done (c', Some (Some ch, cell), ret)) \<and>
    cell_payload cell = layers P (take (Suc k) cs) (f_signed P (cs ! k) pl) \<and> client_circuit c' xs \<and>
    client_cryptos c' xs = map (f_step P) (take (Suc k) (cs[k := f_sign P rec pl (cs ! k)])) @ drop (Suc k) cs"
proof -
  obtain pl where pl: "relay_cell_payload rng sid rcmd data = Done pl" "length pl = CELL_PAYLOAD_SIZE"
    using relay_cell_payload_eq [OF d rng] by blast
  obtain oc where oc: "kind c = Origin oc" using c by (auto simp: client_circuit_def)
  have b: "remaining_relay_early_cells oc + length (relay_early_commands oc) \<le> MAX_RELAY_EARLY_CELLS_PER_CIRCUIT"
    using e oc by (simp add: early_ok_def)
  obtain oc' cmd where ce: "choose_relay_early rcmd (Some (xs ! k)) oc = Done (oc', cmd)"
    "client_circuit (c\<lparr>kind := Origin oc'\<rparr>) xs" "client_cryptos (c\<lparr>kind := Origin oc'\<rparr>) xs = cs"
    using choose_early_frame [OF c oc b, of rcmd "Some (xs ! k)"] unfolding cs_def by blast
  let ?c = "c\<lparr>kind := Origin oc'\<rparr>"
  obtain rec where rec: "circuit_sent_cell_for_sendme ?c (Some (xs ! k)) = Done rec"
    using sent_for_sendme_defined [OF ce(2) k] by blast
  let ?cs = "cs[k := f_sign P rec pl (cs ! k)]"
  have len: "length cs = length xs" using client_keys(2) [OF c] by (simp add: cs_def)
  from encrypt_outbound_eq [OF ce(2) k P pl(2) rec, unfolded ce(3)] obtain c2 where
    c2: "relay_encrypt_cell_outbound P pl ?c (xs ! k) = Some (Done (c2, layers P (take (Suc k) ?cs) (f_signed P (cs ! k) pl)))"
      "client_circuit c2 xs" "same_circuit ?c c2" "client_cryptos c2 xs = map (f_step P) (take (Suc k) ?cs) @ drop (Suc k) ?cs"
    by blast
  have "layers P (take (Suc k) ?cs) (f_signed P (cs ! k) pl) = layers P (take (Suc k) cs) (f_signed P (cs ! k) pl)"
    by (rule layers_cong) (use k len in \<open>simp add: list_eq_iff_nth_eq nth_list_update\<close>)
  moreover have "drop (Suc k) ?cs = drop (Suc k) cs" using k len by simp
  ultimately have c2: "relay_encrypt_cell_outbound P pl ?c (xs ! k) = Some (Done (c2, layers P (take (Suc k) cs) (f_signed P (cs ! k) pl)))"
    "client_circuit c2 xs" "client_cryptos c2 xs = map (f_step P) (take (Suc k) ?cs) @ drop (Suc k) cs"
    using c2 by simp_all
  let ?cell = "\<lparr>cell_circ_id = n_circ_id c, cell_command = cmd, cell_payload = pl\<rparr>"
  let ?out = "?cell\<lparr>cell_payload := layers P (take (Suc k) cs) (f_signed P (cs ! k) pl)\<rparr>"
  have pk: "circuit_package_relay_cell P ?cell ?c CELL_DIRECTION_OUT (Some (xs ! k)) = Some (Done (c2, Some (Some ch, ?out)))"
    using m ch c2(1) by (simp add: circuit_package_relay_cell_def CIRCUIT_IS_ORIGIN_def)
  obtain c3 where c3: "sendme_record_cell_digest_on_circ c2 (Some (xs ! k)) = Done c3" "client_circuit c3 xs"
    "client_cryptos c3 xs = client_cryptos c2 xs" using record_cell_digest_frame [OF c2(2) k] by blast
  obtain w c4 where c4: "sendme_note_circuit_data_packaged now c3 (Some (xs ! k)) = Done (w, c4)" "client_circuit c4 xs"
    "client_cryptos c4 xs = client_cryptos c3 xs" using note_packaged_client [OF c3(2) k, of now] by blast
  define fin where "fin = (if rcmd \<noteq> CMD_DATA then (c2, 0 :: int)
    else if w < 0 then (mark_for_close END_CIRC_REASON_TORPROTOCOL c4, - 1) else (c4, 0))"
  have "relay_send_command_from_edge P rng now queued sid c rcmd data (Some (xs ! k)) =
      Some (Done (fst fin, Some (Some ch, ?out), snd fin))"
    using d oc ce(1) pl(1) pk q c3(1) c4(1) by (simp add: relay_send_command_from_edge_def fin_def)
  moreover have "client_circuit (fst fin) xs \<and> client_cryptos (fst fin) xs = client_cryptos c2 xs"
    using c2(2) c3 c4 by (auto simp: fin_def mark_for_close_def client_circuit_def client_cryptos_def)
  ultimately show ?thesis using pl(1) c2(3) by fastforce
qed

section \<open>Delivery on the way out\<close>

text \<open>The other ends of the hops: up, in the same state as the client, and linked to the next.\<close>

definition path_ready :: "('c, 'd) circuit \<Rightarrow> nat list \<Rightarrow> ('c, 'd) circuit list \<Rightarrow> bool" where
  "path_ready c xs rs \<longleftrightarrow> client_circuit c xs \<and> list_all relay_up rs \<and> list_all2 in_sync (client_cryptos c xs) rs"

lemma relay_up_set [simp]: "relay_up r \<Longrightarrow> has_keys k \<Longrightarrow> relay_up (set_relay_keys r k)"
  by (simp add: relay_up_def)

lemma relay_up_keys: "relay_up r \<Longrightarrow> has_keys (relay_keys r)"
  by (auto simp: relay_up_def relay_circuit_def relay_keys_def)

lemma has_keys_sendme [simp]: "has_keys (k\<lparr>sendme_digest := d\<rparr>) = has_keys k"
  by (simp add: has_keys_def)

lemma sync_step_out: "relay_up r \<Longrightarrow> in_sync c r \<Longrightarrow> in_sync (f_step P c) (set_relay_keys r (f_step P (relay_keys r)))"
  by (simp add: in_sync_def relay_up_def f_step_def)

lemma sync_accept_out:
  assumes "relay_up r" "in_sync c r" "zeroed (f_signed P c pl) = pl"
  shows "in_sync (f_step P (f_sign P rec pl c))
    (set_relay_keys r ((f_accept P (f_step P (relay_keys r)) (f_signed P c pl))\<lparr>sendme_digest := d\<rparr>))"
  using assms by (simp add: in_sync_def relay_up_def f_step_def f_sign_def f_accept_def Let_def)

lemma delivered_ready:
  assumes ready: "path_ready c xs rs" and k: "k < length xs" and c': "client_circuit c' xs"
    and cs: "client_cryptos c' xs = map g (take k (client_cryptos c xs)) @ c1 # drop (Suc k) (client_cryptos c xs)"
    and rs': "rs' = map (\<lambda>r. set_relay_keys r (f r)) (take k rs) @ set_relay_keys (rs ! k) k1 # drop (Suc k) rs"
    and step: "\<And>c r. relay_up r \<Longrightarrow> in_sync c r \<Longrightarrow> in_sync (g c) (set_relay_keys r (f r)) \<and> has_keys (f r)"
    and at: "in_sync c1 (set_relay_keys (rs ! k) k1)" "has_keys k1"
  shows "path_ready c' xs rs'"
proof -
  let ?cs = "client_cryptos c xs"
  have up: "list_all relay_up rs" and sync: "list_all2 in_sync ?cs rs" using ready by (simp_all add: path_ready_def)
  have len: "length ?cs = length xs" "length rs = length xs"
    using client_keys(2) [of c xs] ready list_all2_lengthD [OF sync] by (simp_all add: path_ready_def)
  have pre: "list_all2 in_sync (map g (take k ?cs)) (map (\<lambda>r. set_relay_keys r (f r)) (take k rs))"
    using up sync step by (auto simp: list_all2_conv_all_nth list_all_length)
  have post: "list_all2 in_sync (drop (Suc k) ?cs) (drop (Suc k) rs)" using sync by simp
  have "list_all2 in_sync (client_cryptos c' xs) rs'"
    unfolding cs rs' using pre post at(1) by (intro list_all2_appendI) simp_all
  moreover have "relay_up (set_relay_keys (rs ! i) (f (rs ! i)))" if i: "i < length rs" for i
  proof -
    have "relay_up (rs ! i)" using up i by (simp add: list_all_length)
    moreover have "in_sync (?cs ! i) (rs ! i)" using sync i len by (simp add: list_all2_nthD)
    ultimately show ?thesis using step by simp
  qed
  then have "list_all relay_up (map (\<lambda>r. set_relay_keys r (f r)) (take k rs))" by (simp add: list_all_length)
  moreover have "list_all relay_up (set_relay_keys (rs ! k) k1 # drop (Suc k) rs)"
    using up k len at(2) by (auto simp: list_all_iff dest: in_set_dropD)
  ultimately have "list_all2 in_sync (client_cryptos c' xs) rs'" "list_all relay_up rs'" unfolding rs' by simp_all
  then show ?thesis using c' by (simp add: path_ready_def)
qed

text \<open>What the data of a cell says.\<close>

definition carries :: "byte list \<Rightarrow> byte \<Rightarrow> u16 \<Rightarrow> byte list \<Rightarrow> bool" where
  "carries pl rcmd sid data \<longleftrightarrow> rh_command (relay_header_unpack pl) = rcmd \<and> rh_stream_id (relay_header_unpack pl) = sid \<and>
     unat (rh_length (relay_header_unpack pl)) = length data \<and> take (length data) (drop RELAY_HEADER_SIZE pl) = data"

lemma cell_payload_carries:
  assumes d: "length data \<le> RELAY_PAYLOAD_SIZE" and rng: "\<And>n. length (rng n) = n"
  obtains pl where "relay_cell_payload rng sid rcmd data = Done pl" "length pl = CELL_PAYLOAD_SIZE"
    "recognized_of pl = 0" "integrity_of pl = [0, 0, 0, 0]" "carries pl rcmd sid data"
proof -
  obtain pl where pl: "relay_cell_payload rng sid rcmd data = Done pl" "length pl = CELL_PAYLOAD_SIZE"
    "relay_header_unpack pl = \<lparr>rh_command = rcmd, rh_recognized = 0, rh_stream_id = sid,
      rh_integrity = [0, 0, 0, 0], rh_length = of_nat (length data)\<rparr>"
    "take (length data) (drop RELAY_HEADER_SIZE pl) = data"
    using relay_cell_payload_eq [OF d rng] by blast
  have "recognized_of pl = 0" "integrity_of pl = [0, 0, 0, 0]"
    using unpack_fields [of pl] unfolding pl(3) by simp_all
  moreover have "unat (of_nat (length data) :: u16) = length data"
    using d by (simp add: size_defs unsigned_of_nat take_bit_nat_eq_self)
  ultimately show ?thesis using that [of pl] pl by (simp add: carries_def)
qed

text \<open>A cell with its layers, from the client to the relay that accepts it.\<close>

lemma outward_trip:
  assumes ready: "path_ready c xs rs" and k: "k < length xs" and P: "stream_cipher P"
    and links: "\<And>i. i < k \<Longrightarrow> n_chan (rs ! i) \<noteq> None" and qs: "\<And>ch c. qf ch c \<ge> 0"
    and pl: "cell_payload cell = layers P (take (Suc k) (client_cryptos c xs)) f" and lf: "length f = CELL_PAYLOAD_SIZE"
    and own: "accepts P (the (f_digest (client_cryptos c xs ! k))) f" and early: "\<not> taken_early P (client_cryptos c xs) k f"
    and c': "client_circuit c' xs"
      "client_cryptos c' xs = map (f_step P) (take k (client_cryptos c xs)) @ x # drop (Suc k) (client_cryptos c xs)"
    and sync_k: "\<And>dg. in_sync x (set_relay_keys (rs ! k) ((f_accept P (f_step P (relay_keys (rs ! k))) f)\<lparr>sendme_digest := dg\<rparr>))"
  shows "\<exists>rs' out. carry_out P qf rs cell = Some (Done (rs', Some (k, out))) \<and> cell_payload out = zeroed f \<and> path_ready c' xs rs'"
proof -
  have cc: "client_circuit c xs" and up: "list_all relay_up rs" and sync: "list_all2 in_sync (client_cryptos c xs) rs"
    using ready by (simp_all add: path_ready_def)
  have kr: "k < length rs" using client_keys(2) [OF cc] list_all2_lengthD [OF sync] k by simp
  from carry_out_layers [where queued = qf, OF up sync kr P qs links pl lf own early] obtain rs' id dg where
    co: "carry_out P qf rs cell = Some (Done (rs', Some (k, cell\<lparr>cell_circ_id := id, cell_payload := zeroed f\<rparr>)))"
    "rs' = map (\<lambda>r. set_relay_keys r (f_step P (relay_keys r))) (take k rs) @
      set_relay_keys (rs ! k) ((f_accept P (f_step P (relay_keys (rs ! k))) f)\<lparr>sendme_digest := dg\<rparr>) # drop (Suc k) rs"
    by blast
  have uk: "relay_up (rs ! k)" using up kr by (simp add: list_all_length)
  have "path_ready c' xs rs'"
  proof (rule delivered_ready [OF ready k c' co(2)])
    show "in_sync (f_step P c) (set_relay_keys r (f_step P (relay_keys r))) \<and> has_keys (f_step P (relay_keys r))"
      if "relay_up r" "in_sync c r" for c r using that by (simp add: sync_step_out relay_up_keys)
    show "has_keys ((f_accept P (f_step P (relay_keys (rs ! k))) f)\<lparr>sendme_digest := dg\<rparr>)"
      using relay_up_keys [OF uk] by simp
  qed (rule sync_k)
  then show ?thesis using co(1) by auto
qed

text \<open>C2. A command that the client sends to a hop of its circuit, whatever the data, the padding and the
  keys, is processed by the relay at that hop and by no other: the relays before it take off their
  layers and pass the cell on, and the relay finds the command, the stream and the data as they were
  sent; afterwards client and relays agree again on their ciphers and digests, so the next cell
  can follow. The only exception is a relay before it at which four digest bytes match by accident.\<close>

theorem onion_delivery_out:
  assumes ready: "path_ready c xs rs" and k: "k < length xs" and P: "stream_cipher P" "digest_length P"
    and m: "marked_for_close c = None" and ch: "n_chan c = Some ch" and e: "early_ok c"
    and d: "length data \<le> RELAY_PAYLOAD_SIZE" and rng: "\<And>n. length (rng n) = n" and q: "queued > 0"
    and links: "\<And>i. i < k \<Longrightarrow> n_chan (rs ! i) \<noteq> None" and qs: "\<And>ch c. qf ch c \<ge> 0"
  shows "\<exists>pl c' cell ret. relay_cell_payload rng sid rcmd data = Done pl \<and>
    relay_send_command_from_edge P rng now queued sid c rcmd data (Some (xs ! k)) =
      Some (Done (c', Some (Some ch, cell), ret)) \<and>
    (taken_early P (client_cryptos c xs) k (f_signed P (client_cryptos c xs ! k) pl) \<or>
     (\<exists>rs' out. carry_out P qf rs cell = Some (Done (rs', Some (k, out))) \<and>
        carries (cell_payload out) rcmd sid data \<and> path_ready c' xs rs'))"
proof -
  let ?cs = "client_cryptos c xs"
  have cc: "client_circuit c xs" and up: "list_all relay_up rs" and sync: "list_all2 in_sync ?cs rs"
    using ready by (simp_all add: path_ready_def)
  have len: "length ?cs = length xs" "length rs = length xs"
    using client_keys(2) [OF cc] list_all2_lengthD [OF sync] by simp_all
  obtain pl rec c' cell ret where s: "relay_cell_payload rng sid rcmd data = Done pl"
    "relay_send_command_from_edge P rng now queued sid c rcmd data (Some (xs ! k)) = Some (Done (c', Some (Some ch, cell), ret))"
    "cell_payload cell = layers P (take (Suc k) ?cs) (f_signed P (?cs ! k) pl)" "client_circuit c' xs"
    "client_cryptos c' xs = map (f_step P) (take (Suc k) (?cs[k := f_sign P rec pl (?cs ! k)])) @ drop (Suc k) ?cs"
    using send_from_client [where sid = sid and rcmd = rcmd and now = now, OF cc k P m ch e d rng q] by blast
  obtain pl1 where pl1: "relay_cell_payload rng sid rcmd data = Done pl1" "length pl1 = CELL_PAYLOAD_SIZE"
    "recognized_of pl1 = 0" "integrity_of pl1 = [0, 0, 0, 0]" "carries pl1 rcmd sid data"
    by (rule cell_payload_carries [OF d rng]) blast
  have eq: "pl1 = pl" using s(1) pl1(1) by simp
  note pl = pl1(2-5) [unfolded eq]
  let ?f = "f_signed P (?cs ! k) pl"
  have own: "accepts P (the (f_digest (?cs ! k))) ?f" "zeroed ?f = pl"
    using accepts_own [OF pl(1) P(2) pl(2,3), of "the (f_digest (?cs ! k))"] by (simp_all add: f_signed_def)
  have lf: "length ?f = CELL_PAYLOAD_SIZE" using pl(1) P(2) by (simp add: f_signed_def digest_length_def)
  show ?thesis
  proof (cases "taken_early P ?cs k ?f")
    case True
    then show ?thesis using s(1,2) by blast
  next
    case False
    have ck: "client_cryptos c' xs = map (f_step P) (take k ?cs) @ f_step P (f_sign P rec pl (?cs ! k)) # drop (Suc k) ?cs"
      using s(5) k len by (simp add: take_Suc_conv_app_nth)
    have uk: "relay_up (rs ! k)" and sk: "in_sync (?cs ! k) (rs ! k)"
      using up sync k len by (simp_all add: list_all_length list_all2_nthD)
    obtain rs' out where r: "carry_out P qf rs cell = Some (Done (rs', Some (k, out)))" "cell_payload out = zeroed ?f" "path_ready c' xs rs'"
      using outward_trip [where qf = qf, OF ready k P(1) links qs s(3) lf own(1) False s(4) ck sync_accept_out [OF uk sk own(2)]] by blast
    have "carries (cell_payload out) rcmd sid data" using r(2) own(2) pl(4) by simp
    then show ?thesis using s(1,2) r(1,3) by blast
  qed
qed

section \<open>The way back\<close>

fun carry_in ::
  "('c, 'd) prims \<Rightarrow> (nat \<Rightarrow> cell_t \<Rightarrow> int) \<Rightarrow> ('c, 'd) circuit list \<Rightarrow> cell_t \<Rightarrow>
     (('c, 'd) circuit list \<times> cell_t option) outcome option" where
  "carry_in P queued [] cell = Some (Done ([], Some cell))"
| "carry_in P queued (r # rs) cell =
     Option.bind (receive_here P queued (\<lambda>_. None) r cell CELL_DIRECTION_IN) (\<lambda>res. case res of
         Done (r', Queue _ c _) \<Rightarrow>
           map_option (\<lambda>x. obind x (\<lambda>(rs', d). Done (r' # rs', d))) (carry_in P queued rs c)
       | Done (r', _) \<Rightarrow> Some (Done (r' # rs, None))
       | Fail \<Rightarrow> Some Fail
       | Stuck \<Rightarrow> Some Stuck)"

text \<open>The layers the relays put on, the nearest to the client last.\<close>

definition blayers :: "('c, 'd) prims \<Rightarrow> ('c, 'd) relay_crypto list \<Rightarrow> byte list \<Rightarrow> byte list" where
  "blayers P cs pl = foldr (\<lambda>c. apply_cipher P (b_crypto c)) cs pl"

lemma blayers_simps [simp]:
  "blayers P [] pl = pl" "blayers P (c # cs) pl = apply_cipher P (b_crypto c) (blayers P cs pl)"
  "blayers P (cs @ ds) pl = blayers P cs (blayers P ds pl)"
  by (simp_all add: blayers_def)

lemma blayers_length [simp]: "stream_cipher P \<Longrightarrow> length (blayers P cs pl) = length pl"
  by (induction cs) auto

definition has_p_chan :: "('c, 'd) circuit \<Rightarrow> bool" where
  "has_p_chan r \<longleftrightarrow> (case kind r of Or rp \<Rightarrow> p_chan rp \<noteq> None | Origin _ \<Rightarrow> False)"

lemma p_chan_set [simp]: "has_p_chan (set_relay_keys r k) = has_p_chan r"
  by (cases "kind r") (simp_all add: has_p_chan_def set_relay_keys_def)

lemma receive_pass_in:
  assumes up: "relay_up r" and P: "stream_cipher P" and l: "length (cell_payload cell) = CELL_PAYLOAD_SIZE"
    and ch: "has_p_chan r" and q: "\<And>ch c. queued ch c \<ge> 0"
  shows "\<exists>ch id. receive_here P queued circs r cell CELL_DIRECTION_IN =
    Some (Done (set_relay_keys r (b_step P (relay_keys r)),
      Queue ch (cell\<lparr>cell_payload := apply_cipher P (b_crypto (relay_keys r)) (cell_payload cell), cell_circ_id := id\<rparr>)
        CELL_DIRECTION_IN))"
proof -
  have rc: "relay_circuit r" and mk: "marked_for_close r = None" using up by (simp_all add: relay_up_def)
  have "has_p_chan (set_relay_keys r (b_step P (relay_keys r)))" using ch by simp
  then obtain rp ch where k: "kind (set_relay_keys r (b_step P (relay_keys r))) = Or rp" "p_chan rp = Some ch"
    by (auto simp: has_p_chan_def split: circuit_kind.splits)
  have nq: "\<not> queued ch c < 0" for c using q [of ch c] by simp
  have "receive_here P queued circs r cell CELL_DIRECTION_IN =
    Some (Done (set_relay_keys r (b_step P (relay_keys r)),
      Queue ch (cell\<lparr>cell_payload := apply_cipher P (b_crypto (relay_keys r)) (cell_payload cell), cell_circ_id := p_circ_id rp\<rparr>)
        CELL_DIRECTION_IN))"
    using mk relay_in_eq [OF rc P l] rc k nq
    by (simp add: receive_here_def receive_unrecognized_def with_or_def Let_def)
  then show ?thesis by blast
qed

lemma carry_in_fold:
  assumes "list_all relay_up ts" "list_all has_p_chan ts" "stream_cipher P" "\<And>ch c. queued ch c \<ge> 0"
    and "length (cell_payload cell) = CELL_PAYLOAD_SIZE"
  shows "\<exists>id. carry_in P queued ts cell =
    Some (Done (map (\<lambda>r. set_relay_keys r (b_step P (relay_keys r))) ts,
      Some (cell\<lparr>cell_payload := foldl (\<lambda>x r. apply_cipher P (b_crypto (relay_keys r)) x) (cell_payload cell) ts,
                 cell_circ_id := id\<rparr>)))"
  using assms(1,2,5)
proof (induction ts arbitrary: cell)
  case Nil
  then show ?case by (intro exI [of _ "cell_circ_id cell"]) simp
next
  case (Cons r ts)
  have r: "relay_up r" "has_p_chan r" using Cons.prems by simp_all
  obtain ch id where h: "receive_here P queued (\<lambda>_. None) r cell CELL_DIRECTION_IN =
    Some (Done (set_relay_keys r (b_step P (relay_keys r)),
      Queue ch (cell\<lparr>cell_payload := apply_cipher P (b_crypto (relay_keys r)) (cell_payload cell), cell_circ_id := id\<rparr>)
        CELL_DIRECTION_IN))"
    using receive_pass_in [where queued = queued and circs = "\<lambda>_. None", OF r(1) assms(3) Cons.prems(3) r(2) assms(4)] by blast
  let ?cell = "cell\<lparr>cell_payload := apply_cipher P (b_crypto (relay_keys r)) (cell_payload cell), cell_circ_id := id\<rparr>"
  have "\<exists>id. carry_in P queued ts ?cell =
    Some (Done (map (\<lambda>r. set_relay_keys r (b_step P (relay_keys r))) ts,
      Some (?cell\<lparr>cell_payload := foldl (\<lambda>x r. apply_cipher P (b_crypto (relay_keys r)) x) (cell_payload ?cell) ts,
                 cell_circ_id := id\<rparr>)))"
    by (rule Cons.IH) (use Cons.prems assms(3) in simp_all)
  then show ?case using h by auto
qed

lemma foldl_blayers:
  assumes "list_all2 in_sync cs rs"
  shows "foldl (\<lambda>x r. apply_cipher P (b_crypto (relay_keys r)) x) pl (rev rs) = blayers P cs pl"
  using assms
proof (induction cs rs rule: list_all2_induct)
  case (Cons c cs r rs)
  then show ?case by (simp add: in_sync_def)
qed simp

definition taken_early_in ::
  "('c, 'd) prims \<Rightarrow> ('c, 'd) relay_crypto list \<Rightarrow> nat \<Rightarrow> byte list \<Rightarrow> bool" where
  "taken_early_in P cs k pl \<longleftrightarrow>
     (\<exists>i < k. accepts P (the (b_digest (cs ! i))) (blayers P (drop (Suc i) (take (Suc k) cs)) pl))"

lemma taken_early_in_Cons:
  "taken_early_in P (c # cs) (Suc k) pl \<longleftrightarrow>
     accepts P (the (b_digest c)) (blayers P (take (Suc k) cs) pl) \<or> taken_early_in P cs k pl"
  by (auto simp: taken_early_in_def less_Suc_eq_0_disj)

lemma peel_layers:
  assumes "k < length cs" "stream_cipher P" "accepts P (the (b_digest (cs ! k))) pl" "\<not> taken_early_in P cs k pl"
  shows "peel P cs (blayers P (take (Suc k) cs) pl) =
    Some (map (b_step P) (take k cs) @ b_accept P (b_step P (cs ! k)) pl # drop (Suc k) cs, zeroed pl, k)"
  using assms
proof (induction cs arbitrary: k)
  case (Cons c cs)
  then show ?case by (cases k) (simp_all add: taken_early_in_Cons Let_def)
qed simp

section \<open>A relay that sends\<close>

text \<open>There is room in the window of the relay.\<close>

definition window_open :: "('c, 'd) circuit \<Rightarrow> bool" where
  "window_open r \<longleftrightarrow> circ_ccontrol r = None \<longrightarrow> circ_package_window r > 0"

lemma relay_sent_for_sendme:
  "relay_circuit r \<Longrightarrow> \<exists>b. circuit_sent_cell_for_sendme r None = Done b"
  by (cases "circ_ccontrol r") (auto simp: circuit_sent_cell_for_sendme_def package_state_def relay_circuit_def)

lemma relay_record_note:
  assumes up: "relay_up r" and w: "window_open r"
  shows "\<exists>r1 wd r2. sendme_record_cell_digest_on_circ r None = Done r1 \<and>
    sendme_note_circuit_data_packaged now r1 None = Done (wd, r2) \<and> wd \<ge> 0 \<and> relay_up r2 \<and> relay_keys r2 = relay_keys r"
proof -
  have rc: "relay_circuit r" using up by (simp add: relay_up_def)
  obtain b where b: "circuit_sent_cell_for_sendme r None = Done b" using relay_sent_for_sendme [OF rc] by blast
  obtain rp where rp: "kind r = Or rp" "has_keys (or_crypto rp)" using rc by (auto simp: relay_circuit_def)
  obtain r1 where r1: "sendme_record_cell_digest_on_circ r None = Done r1" "kind r1 = kind r" "circ_ccontrol r1 = circ_ccontrol r"
    "circ_package_window r1 = circ_package_window r" "relay_up r1" "relay_keys r1 = relay_keys r"
    using b rp up by (cases b) (auto simp: sendme_record_cell_digest_on_circ_def sendme_digest_of_def with_or_def
        record_cell_digest_on_circ_def Let_def relay_up_def relay_circuit_def relay_keys_def)
  have b1: "circuit_sent_cell_for_sendme r1 None = Done b"
    using b r1(3,4) by (simp add: circuit_sent_cell_for_sendme_def package_state_def)
  have "\<exists>wd r2. sendme_note_circuit_data_packaged now r1 None = Done (wd, r2) \<and> wd \<ge> 0 \<and> relay_up r2 \<and> relay_keys r2 = relay_keys r"
  proof (cases "circ_ccontrol r1")
    case None
    then show ?thesis
      using r1 rp w up by (auto simp: sendme_note_circuit_data_packaged_def package_state_def CIRCUIT_IS_ORIGIN_def
          congestion_control_get_package_window_def window_open_def relay_up_def relay_circuit_def relay_keys_def)
  next
    case (Some cc)
    obtain cc' where cc': "congestion_control_note_cell_sent now cc r1 None = Done cc'"
      using b1 by (simp add: congestion_control_note_cell_sent_def Let_def)
    let ?r2 = "r1\<lparr>circ_ccontrol := Some cc'\<rparr>"
    have "relay_up ?r2" "relay_keys ?r2 = relay_keys r"
      using r1 rp Some note_cell_sent_inc [OF cc'] by (auto simp: relay_up_def relay_circuit_def relay_keys_def)
    moreover have "\<exists>wd. congestion_control_get_package_window ?r2 None = Done wd \<and> 0 \<le> wd"
      by (simp add: congestion_control_get_package_window_def package_state_def INT32_MAX_def)
    ultimately show ?thesis
      using Some cc' by (auto simp: sendme_note_circuit_data_packaged_def package_state_def set_ccontrol_def)
  qed
  then show ?thesis using r1(1) by blast
qed

lemma send_from_relay:
  assumes up: "relay_up r" and P: "stream_cipher P" "digest_length P" and w: "window_open r"
    and d: "length data \<le> RELAY_PAYLOAD_SIZE" and rng: "\<And>n. length (rng n) = n" and q: "queued > 0"
    and pl: "relay_cell_payload rng sid rcmd data = Done pl" "length pl = CELL_PAYLOAD_SIZE"
  shows "\<exists>rec r' ch cell. relay_send_command_from_edge P rng now queued sid r rcmd data None =
      Some (Done (r', Some (ch, cell), 0)) \<and>
    cell_payload cell = apply_cipher P (b_crypto (relay_keys r)) (b_signed P (relay_keys r) pl) \<and> relay_up r' \<and>
    relay_keys r' = b_step P (b_sign P rec pl (relay_keys r))"
proof -
  have rc: "relay_circuit r" and m: "marked_for_close r = None" using up by (simp_all add: relay_up_def)
  obtain rec where rec: "circuit_sent_cell_for_sendme r None = Done rec" using relay_sent_for_sendme [OF rc] by blast
  let ?k = "b_step P (b_sign P rec pl (relay_keys r))"
  let ?x = "apply_cipher P (b_crypto (relay_keys r)) (b_signed P (relay_keys r) pl)"
  let ?r1 = "set_relay_keys r ?k"
  have enc: "relay_encrypt_cell_inbound P pl r = Done (?r1, ?x)" by (rule encrypt_inbound_eq [OF rc P pl(2) rec])
  obtain rp where rp: "kind r = Or rp" using rc by (auto simp: relay_circuit_def)
  obtain rp1 where rp1: "kind ?r1 = Or rp1" using rp by (simp add: set_relay_keys_def)
  let ?cell = "\<lparr>cell_circ_id = p_circ_id rp, cell_command = CELL_RELAY, cell_payload = pl\<rparr>"
  have pk: "circuit_package_relay_cell P ?cell r CELL_DIRECTION_IN None =
      Some (Done (?r1, Some (p_chan rp1, ?cell\<lparr>cell_payload := ?x\<rparr>)))"
    using m enc rc rp1 by (simp add: circuit_package_relay_cell_def with_or_def)
  have up1: "relay_up ?r1" using up relay_up_keys [OF up] by simp
  have w1: "window_open ?r1" using w by (simp add: window_open_def)
  obtain r2 wd r3 where r3: "sendme_record_cell_digest_on_circ ?r1 None = Done r2"
    "sendme_note_circuit_data_packaged now r2 None = Done (wd, r3)" "wd \<ge> 0" "relay_up r3" "relay_keys r3 = relay_keys ?r1"
    using relay_record_note [OF up1 w1, of now] by blast
  have "relay_send_command_from_edge P rng now queued sid r rcmd data None =
      Some (Done (if rcmd = CMD_DATA then r3 else ?r1, Some (p_chan rp1, ?cell\<lparr>cell_payload := ?x\<rparr>), 0))"
    using d rp pl(1) pk q r3(1-3) by (simp add: relay_send_command_from_edge_def)
  moreover have "relay_keys ?r1 = ?k" using rc by simp
  ultimately show ?thesis
    using up1 r3(4,5) by (cases "rcmd = CMD_DATA") auto
qed

section \<open>Delivery on the way back\<close>

lemma record_received_client:
  assumes c: "client_circuit c xs" and k: "k < length xs"
    and w: "\<And>n. get_hop c (xs ! k) = Done n \<Longrightarrow> deliver_window n \<le> CIRCWINDOW_START"
  shows "\<exists>c' d. sendme_record_received_cell_digest P c (Some (xs ! k)) = Done c' \<and> client_circuit c' xs \<and>
    circ_purpose c' = circ_purpose c \<and>
    client_cryptos c' xs = (client_cryptos c xs)[k := (client_cryptos c xs ! k)\<lparr>sendme_digest := d\<rparr>]"
proof -
  obtain n where n: "get_hop c (xs ! k) = Done n" "client_cryptos c xs ! k = pvt_crypto n" "hop_ready n" "has_keys (pvt_crypto n)"
    using client_hop [OF c k] .
  obtain inc where inc: "sendme_get_inc_count c (Some (xs ! k)) = Done inc" "inc \<noteq> 0"
    using n(1,3) by (cases "hop_ccontrol n")
      (auto simp: sendme_get_inc_count_def package_state_def hop_ready_def CIRCWINDOW_INCREMENT_def unsigned_eq_0_iff)
  obtain b where b: "circuit_sendme_cell_is_next (deliver_window n) inc = Done b"
    using w [OF n(1)] inc(2) by (simp add: circuit_sendme_cell_is_next_def)
  obtain bd where bd: "b_digest (pvt_crypto n) = Some bd" using n(4) by (auto simp: has_keys_def)
  show ?thesis
  proof (cases b)
    case False
    have "(client_cryptos c xs)[k := (client_cryptos c xs ! k)\<lparr>sendme_digest := sendme_digest (client_cryptos c xs ! k)\<rparr>] =
        client_cryptos c xs" by simp
    then show ?thesis
      using c n(1) inc(1) b False
      by (intro exI [of _ c] exI [of _ "sendme_digest (client_cryptos c xs ! k)"])
         (simp add: sendme_record_received_cell_digest_def deliver_window_of_def)
  next
    case True
    let ?d = "digest_get P bd DIGEST_LEN"
    let ?f = "cpath_sendme_record_cell_digest P False"
    have f: "?f m = Done (m\<lparr>pvt_crypto := (pvt_crypto n)\<lparr>sendme_digest := ?d\<rparr>\<rparr>)" if "get_hop c (xs ! k) = Done m" for m
      using that n(1) bd by (simp add: cpath_sendme_record_cell_digest_def relay_crypto_record_sendme_digest_def)
    have hk: "has_keys ((pvt_crypto n)\<lparr>sendme_digest := ?d\<rparr>)" using n(4) by simp
    from update_hop_client [where f = ?f, OF c k f hk] obtain c' where
      c': "update_hop c (xs ! k) ?f = Done c'" "client_circuit c' xs" "same_circuit c c'"
        "client_cryptos c' xs = (client_cryptos c xs)[k := (pvt_crypto n)\<lparr>sendme_digest := ?d\<rparr>]" by blast
    have "circ_purpose c' = circ_purpose c" using c'(3) by (auto simp: same_circuit_def)
    then show ?thesis
      using c' n(1,2) inc(1) b True by (auto simp: sendme_record_received_cell_digest_def deliver_window_of_def)
  qed
qed

lemma sync_step_in: "relay_up r \<Longrightarrow> in_sync c r \<Longrightarrow> in_sync (b_step P c) (set_relay_keys r (b_step P (relay_keys r)))"
  by (simp add: in_sync_def relay_up_def b_step_def)

text \<open>The client at the end of the way.\<close>

definition windows_ok :: "('c, 'd) circuit \<Rightarrow> nat list \<Rightarrow> bool" where
  "windows_ok c xs \<longleftrightarrow> (\<forall>k < length xs. \<forall>n. get_hop c (xs ! k) = Done n \<longrightarrow> deliver_window n \<le> CIRCWINDOW_START)"

lemma client_receives:
  assumes c: "client_circuit c xs" and k: "k < length xs" and P: "stream_cipher P"
    and m: "marked_for_close c = None" and pp: "circ_purpose c \<noteq> CIRCUIT_PURPOSE_PATH_BIAS_TESTING"
    and w: "windows_ok c xs" and l: "length (cell_payload cell) = CELL_PAYLOAD_SIZE"
    and pe: "peel P (client_cryptos c xs) (cell_payload cell) = Some (cs', x, k)"
  shows "\<exists>c' d. receive_here P queued circs c cell CELL_DIRECTION_IN =
      Some (Done (c', Process (cell\<lparr>cell_payload := x\<rparr>) (Some (xs ! k)))) \<and> client_circuit c' xs \<and>
    client_cryptos c' xs = cs'[k := (cs' ! k)\<lparr>sendme_digest := d\<rparr>]"
proof -
  obtain c1 where c1: "relay_decrypt_cell P c (cell_payload cell) CELL_DIRECTION_IN = Some (Done (c1, x, Some (xs ! k), True))"
    "client_circuit c1 xs" "same_circuit c c1" "client_cryptos c1 xs = cs'"
    using origin_in_eq [OF c P l pe] by blast
  have w1: "deliver_window n \<le> CIRCWINDOW_START" if hop: "get_hop c1 (xs ! k) = Done n" for n
  proof -
    obtain n0 where n0: "get_hop c (xs ! k) = Done n0" "sans_crypto n = sans_crypto n0"
      using get_hop_same [OF c1(3), of "xs ! k"] hop by auto
    then have "deliver_window n0 \<le> CIRCWINDOW_START" using w k by (simp add: windows_ok_def)
    then show ?thesis using sans_crypto_fields [OF n0(2)] by simp
  qed
  obtain c' d where c': "sendme_record_received_cell_digest P c1 (Some (xs ! k)) = Done c'" "client_circuit c' xs"
    "circ_purpose c' = circ_purpose c1" "client_cryptos c' xs = cs'[k := (cs' ! k)\<lparr>sendme_digest := d\<rparr>]"
    using record_received_client [OF c1(2) k w1, of P] unfolding c1(4) by blast
  have "circ_purpose c1 = circ_purpose c" using c1(3) by (auto simp: same_circuit_def)
  then show ?thesis using m pp c1(1) c' by (auto simp: receive_here_def Let_def)
qed

text \<open>A cell a relay has signed and encrypted, from there to the client.\<close>

lemma return_trip:
  assumes ready: "path_ready c xs rs" and k: "k < length xs" and P: "stream_cipher P"
    and m: "marked_for_close c = None" and pp: "circ_purpose c \<noteq> CIRCUIT_PURPOSE_PATH_BIAS_TESTING" and w: "windows_ok c xs"
    and links: "\<And>i. i < k \<Longrightarrow> has_p_chan (rs ! i)" and qs: "\<And>ch c. qf ch c \<ge> 0"
    and fk: "cell_payload cell = apply_cipher P (b_crypto (client_cryptos c xs ! k)) f" and lf: "length f = CELL_PAYLOAD_SIZE"
    and own: "accepts P (the (b_digest (client_cryptos c xs ! k))) f" and early: "\<not> taken_early_in P (client_cryptos c xs) k f"
    and up': "relay_up r'"
    and ik: "\<And>dg. in_sync ((b_accept P (b_step P (client_cryptos c xs ! k)) f)\<lparr>sendme_digest := dg\<rparr>) r'"
  shows "\<exists>ts cell' c' out. carry_in P qf (rev (take k rs)) cell = Some (Done (rev ts, Some cell')) \<and>
    receive_here P qf (\<lambda>_. None) c cell' CELL_DIRECTION_IN = Some (Done (c', Process out (Some (xs ! k)))) \<and>
    cell_payload out = zeroed f \<and> path_ready c' xs (ts @ r' # drop (Suc k) rs)"
proof -
  let ?cs = "client_cryptos c xs"
  have cc: "client_circuit c xs" and up: "list_all relay_up rs" and sync: "list_all2 in_sync ?cs rs"
    using ready by (simp_all add: path_ready_def)
  have len: "length ?cs = length xs" "length rs = length xs"
    using client_keys(2) [OF cc] list_all2_lengthD [OF sync] by simp_all
  let ?ts = "map (\<lambda>r. set_relay_keys r (b_step P (relay_keys r))) (take k rs)"
  let ?x = "foldl (\<lambda>x r. apply_cipher P (b_crypto (relay_keys r)) x) (cell_payload cell) (rev (take k rs))"
  have lc: "length (cell_payload cell) = CELL_PAYLOAD_SIZE" using fk lf P by simp
  have rv: "list_all relay_up (rev (take k rs))" using up by (auto simp: list_all_iff dest: in_set_takeD)
  have "list_all has_p_chan (take k rs)" using links k len by (simp add: list_all_length)
  then have rp: "list_all has_p_chan (rev (take k rs))" by (simp add: list_all_iff)
  obtain id where ci: "carry_in P qf (rev (take k rs)) cell =
      Some (Done (rev ?ts, Some (cell\<lparr>cell_payload := ?x, cell_circ_id := id\<rparr>)))"
    using carry_in_fold [where queued = qf, OF rv rp P qs lc] unfolding rev_map by blast
  have "?x = blayers P (take k ?cs) (cell_payload cell)" using sync by (intro foldl_blayers) simp
  then have bl: "?x = blayers P (take (Suc k) ?cs) f" using k len fk by (simp add: take_Suc_conv_app_nth)
  let ?cell = "cell\<lparr>cell_payload := ?x, cell_circ_id := id\<rparr>"
  let ?cs' = "map (b_step P) (take k ?cs) @ b_accept P (b_step P (?cs ! k)) f # drop (Suc k) ?cs"
  have kc: "k < length ?cs" using k len by simp
  have pe: "peel P ?cs (cell_payload ?cell) = Some (?cs', zeroed f, k)" using peel_layers [OF kc P own early] bl by simp
  have l': "length (cell_payload ?cell) = CELL_PAYLOAD_SIZE" using lf P bl by simp
  obtain c' dg where c': "receive_here P qf (\<lambda>_. None) c ?cell CELL_DIRECTION_IN =
      Some (Done (c', Process (?cell\<lparr>cell_payload := zeroed f\<rparr>) (Some (xs ! k))))" "client_circuit c' xs"
    "client_cryptos c' xs = ?cs'[k := (?cs' ! k)\<lparr>sendme_digest := dg\<rparr>]"
    using client_receives [where queued = qf and circs = "\<lambda>_. None", OF cc k P m pp w l' pe] by blast
  have ck: "client_cryptos c' xs = map (b_step P) (take k ?cs) @
      (b_accept P (b_step P (?cs ! k)) f)\<lparr>sendme_digest := dg\<rparr> # drop (Suc k) ?cs"
    using c'(3) kc by (simp add: nth_append list_update_append)
  have tl: "list_all2 in_sync (map (b_step P) (take k ?cs)) ?ts"
    using sync up by (auto simp: list_all2_conv_all_nth list_all_length intro: sync_step_in)
  have tu: "list_all relay_up ?ts" using up by (auto simp: list_all_iff relay_up_keys dest: in_set_takeD)
  have rest: "list_all2 in_sync (drop (Suc k) ?cs) (drop (Suc k) rs)" "list_all relay_up (drop (Suc k) rs)"
    using sync up by (auto simp: list_all_iff dest: in_set_dropD)
  have "path_ready c' xs (?ts @ r' # drop (Suc k) rs)"
    unfolding path_ready_def ck using c'(2) tl tu ik rest up' by (simp add: list_all2_appendI)
  then show ?thesis using ci c'(1) by (intro exI conjI) (assumption, assumption, simp, assumption)
qed

text \<open>C3. The same holds on the way back: a command a relay sends is taken by the client, which names the
  relay that sent it, with its command, its stream and its data, unless four bytes match by accident at
  a hop before; and both ends agree again afterwards.\<close>

theorem onion_delivery_in:
  assumes ready: "path_ready c xs rs" and k: "k < length xs" and P: "stream_cipher P" "digest_length P"
    and m: "marked_for_close c = None" and pp: "circ_purpose c \<noteq> CIRCUIT_PURPOSE_PATH_BIAS_TESTING" and w: "windows_ok c xs"
    and open_k: "window_open (rs ! k)" and d: "length data \<le> RELAY_PAYLOAD_SIZE" and rng: "\<And>n. length (rng n) = n"
    and q: "queued > 0" and links: "\<And>i. i < k \<Longrightarrow> has_p_chan (rs ! i)" and qs: "\<And>ch c. qf ch c \<ge> 0"
  shows "\<exists>pl r' ch cell. relay_cell_payload rng sid rcmd data = Done pl \<and>
    relay_send_command_from_edge P rng now queued sid (rs ! k) rcmd data None = Some (Done (r', Some (ch, cell), 0)) \<and>
    (taken_early_in P (client_cryptos c xs) k (b_signed P (client_cryptos c xs ! k) pl) \<or>
     (\<exists>ts cell' c' out. carry_in P qf (rev (take k rs)) cell = Some (Done (rev ts, Some cell')) \<and>
        receive_here P qf (\<lambda>_. None) c cell' CELL_DIRECTION_IN = Some (Done (c', Process out (Some (xs ! k)))) \<and>
        carries (cell_payload out) rcmd sid data \<and> path_ready c' xs (ts @ r' # drop (Suc k) rs)))"
proof -
  let ?cs = "client_cryptos c xs"
  have cc: "client_circuit c xs" and up: "list_all relay_up rs" and sync: "list_all2 in_sync ?cs rs"
    using ready by (simp_all add: path_ready_def)
  have len: "length ?cs = length xs" "length rs = length xs"
    using client_keys(2) [OF cc] list_all2_lengthD [OF sync] by simp_all
  have uk: "relay_up (rs ! k)" and sk: "in_sync (?cs ! k) (rs ! k)"
    using up sync k len by (simp_all add: list_all_length list_all2_nthD)
  obtain pl where pl: "relay_cell_payload rng sid rcmd data = Done pl" "length pl = CELL_PAYLOAD_SIZE"
    "recognized_of pl = 0" "integrity_of pl = [0, 0, 0, 0]" "carries pl rcmd sid data"
    by (rule cell_payload_carries [OF d rng]) blast
  obtain rec r' ch cell where s: "relay_send_command_from_edge P rng now queued sid (rs ! k) rcmd data None =
      Some (Done (r', Some (ch, cell), 0))"
    "cell_payload cell = apply_cipher P (b_crypto (relay_keys (rs ! k))) (b_signed P (relay_keys (rs ! k)) pl)" "relay_up r'"
    "relay_keys r' = b_step P (b_sign P rec pl (relay_keys (rs ! k)))"
    using send_from_relay [where now = now, OF uk P open_k d rng q pl(1,2)] by blast
  let ?f = "b_signed P (?cs ! k) pl"
  have own: "accepts P (the (b_digest (?cs ! k))) ?f" "zeroed ?f = pl"
    using accepts_own [OF pl(2) P(2) pl(3,4), of "the (b_digest (?cs ! k))"] by (simp_all add: b_signed_def)
  have lf: "length ?f = CELL_PAYLOAD_SIZE" using pl(2) P(2) by (simp add: b_signed_def digest_length_def)
  have fk: "cell_payload cell = apply_cipher P (b_crypto (?cs ! k)) ?f"
    using s(2) sk by (simp add: in_sync_def b_signed_def)
  have ik: "in_sync ((b_accept P (b_step P (?cs ! k)) ?f)\<lparr>sendme_digest := dg\<rparr>) r'" for dg
    using sk s(4) own(2) by (simp add: in_sync_def b_step_def b_sign_def b_accept_def Let_def)
  show ?thesis
  proof (cases "taken_early_in P ?cs k ?f")
    case True
    then show ?thesis using pl(1) s(1) by blast
  next
    case False
    obtain ts cell' c' out where r: "carry_in P qf (rev (take k rs)) cell = Some (Done (rev ts, Some cell'))"
      "receive_here P qf (\<lambda>_. None) c cell' CELL_DIRECTION_IN = Some (Done (c', Process out (Some (xs ! k))))"
      "cell_payload out = zeroed ?f" "path_ready c' xs (ts @ r' # drop (Suc k) rs)"
      using return_trip [where qf = qf, OF ready k P(1) m pp w links qs fk lf own(1) False s(3) ik] by blast
    have "carries (cell_payload out) rcmd sid data" using r(3) own(2) pl(5) by simp
    then show ?thesis using pl(1) s(1) r(1,2,4) by blast
  qed
qed

section \<open>An example\<close>

text \<open>A cipher that adds its key to every byte, a digest that is always zero, and two hops.\<close>

definition xor_prims :: "(byte, unit) prims" where
  "xor_prims = \<lparr>cipher_crypt = (\<lambda>c x. (map (\<lambda>b. b XOR c) x, c)), cipher_new = (\<lambda>_. Some 1), digest_new = (\<lambda>_. ()),
     digest_add = (\<lambda>_ _. ()), digest_get = (\<lambda>_ n. replicate n 0)\<rparr>"

definition xor_keys :: "(byte, unit) relay_crypto" where
  "xor_keys = zero_crypto\<lparr>f_crypto := Some 1, b_crypto := Some 1, f_digest := Some (), b_digest := Some ()\<rparr>"

definition ex_hop :: "nat \<Rightarrow> (byte, unit) crypt_path" where
  "ex_hop other = zero_hop\<lparr>magic := CRYPT_PATH_MAGIC, cp_state := CPATH_STATE_OPEN, nxt := Some other, prv := Some other,
     package_window := 1000, deliver_window := 1000, pvt_crypto := xor_keys\<rparr>"

definition ex_client :: "(byte, unit) circuit" where
  "ex_client = \<lparr>kind = Origin \<lparr>hops = (Map.empty)(3 \<mapsto> ex_hop 4, 4 \<mapsto> ex_hop 3), first_hop = Some 3,
       remaining_relay_early_cells = 8, relay_early_commands = [], path_state = 0\<rparr>,
     n_chan = Some 5, n_circ_id = 77, circ_purpose = 5, marked_for_close = None, circ_package_window = 1000,
     circ_deliver_window = 1000, circ_ccontrol = None, sendme_last_digests = None\<rparr>"

definition ex_relay :: "(byte, unit) circuit" where
  "ex_relay = \<lparr>kind = Or \<lparr>or_crypto = xor_keys, p_chan = Some 3, p_circ_id = 88, rend_splice = None,
       n_cells_discarded_at_end = 0\<rparr>,
     n_chan = Some 6, n_circ_id = 99, circ_purpose = 1, marked_for_close = None, circ_package_window = 1000,
     circ_deliver_window = 1000, circ_ccontrol = None, sendme_last_digests = None\<rparr>"

lemma xor_laws: "stream_cipher xor_prims" "digest_length xor_prims"
  by (simp_all add: xor_prims_def stream_cipher_def digest_length_def comp_def xor.assoc)

lemma xor_has_keys: "has_keys xor_keys"
  by (simp add: has_keys_def xor_keys_def)

lemma ex_client_circuit: "client_circuit ex_client [3, 4]" "client_cryptos ex_client [3, 4] = [xor_keys, xor_keys]"
  by (auto simp: client_circuit_def client_cryptos_def ex_client_def ring_def cryptos_def less_Suc_eq ex_hop_def hop_ready_def
      zero_hop_def xor_has_keys)

lemma ex_relay_up: "relay_up ex_relay" "relay_keys ex_relay = xor_keys"
  by (simp_all add: relay_up_def relay_circuit_def ex_relay_def relay_keys_def xor_has_keys
      CIRCUIT_PURPOSE_PATH_BIAS_TESTING_def CIRCWINDOW_START_def)

lemma ex_ready: "path_ready ex_client [3, 4] [ex_relay, ex_relay]"
  unfolding path_ready_def using ex_client_circuit ex_relay_up by (auto simp: in_sync_def list_all2_Cons2)

lemma xor_not_accepted:
  assumes "length m = CELL_PAYLOAD_SIZE" "recognized_of m = 0"
  shows "\<not> accepts xor_prims d (apply_cipher xor_prims (Some 1) m)"
proof -
  have "take 2 (drop 1 m) = put16 0"
    using put16_get16 [of "drop 1 m"] assms by (simp add: recognized_of_def CELL_PAYLOAD_SIZE_def)
  then have "take 2 (drop 1 m) ! 0 = 0" "take 2 (drop 1 m) ! 1 = 0" by (simp_all add: put16_def)
  then have "m ! Suc 0 = 0" "m ! Suc (Suc 0) = 0"
    using assms(1) by (simp_all add: CELL_PAYLOAD_SIZE_def flip: numeral_2_eq_2)
  then have "recognized_of (map (\<lambda>b. b XOR 1) m) = 0x0101"
    using assms(1) by (simp add: recognized_of_def get16_def CELL_PAYLOAD_SIZE_def nth_drop)
  then show ?thesis by (simp add: accepts_def apply_cipher_def xor_prims_def)
qed

lemma ex_not_taken:
  assumes "length pl = CELL_PAYLOAD_SIZE" "recognized_of pl = 0"
  shows "\<not> taken_early xor_prims [xor_keys, xor_keys] 1 (f_signed xor_prims xor_keys pl)"
    "\<not> taken_early_in xor_prims [xor_keys, xor_keys] 1 (b_signed xor_prims xor_keys pl)"
proof -
  have "length (f_signed xor_prims xor_keys pl) = CELL_PAYLOAD_SIZE" "recognized_of (f_signed xor_prims xor_keys pl) = 0"
    "length (b_signed xor_prims xor_keys pl) = CELL_PAYLOAD_SIZE" "recognized_of (b_signed xor_prims xor_keys pl) = 0"
    using assms by (simp_all add: f_signed_def b_signed_def xor_prims_def)
  then show "\<not> taken_early xor_prims [xor_keys, xor_keys] 1 (f_signed xor_prims xor_keys pl)"
    "\<not> taken_early_in xor_prims [xor_keys, xor_keys] 1 (b_signed xor_prims xor_keys pl)"
    using xor_not_accepted by (auto simp: taken_early_def taken_early_in_def xor_keys_def)
qed

abbreviation (input) ex_rng :: "nat \<Rightarrow> byte list" where "ex_rng n \<equiv> replicate n 7"

theorem onion_delivery_out_witness:
  "\<exists>c' cell ret rs' out. relay_send_command_from_edge xor_prims ex_rng 0 1 4 ex_client CMD_DATA [1, 2, 3] (Some 4) =
      Some (Done (c', Some (Some 5, cell), ret)) \<and>
    carry_out xor_prims (\<lambda>_ _. 1) [ex_relay, ex_relay] cell = Some (Done (rs', Some (1, out))) \<and>
    carries (cell_payload out) CMD_DATA 4 [1, 2, 3] \<and> path_ready c' [3, 4] rs'"
proof -
  have d: "length ([1, 2, 3] :: byte list) \<le> RELAY_PAYLOAD_SIZE" by (simp add: size_defs)
  obtain pl where pl: "relay_cell_payload ex_rng 4 CMD_DATA [1, 2, 3] = Done pl" "length pl = CELL_PAYLOAD_SIZE"
    "recognized_of pl = 0" "integrity_of pl = [0, 0, 0, 0]" "carries pl CMD_DATA 4 [1, 2, 3]"
    by (rule cell_payload_carries [where rng = ex_rng and sid = 4 and rcmd = CMD_DATA, OF d]) auto
  have e: "marked_for_close ex_client = None" "n_chan ex_client = Some 5" "early_ok ex_client"
    by (simp_all add: ex_client_def early_ok_def MAX_RELAY_EARLY_CELLS_PER_CIRCUIT_def)
  have "\<exists>pl c' cell ret. relay_cell_payload ex_rng 4 CMD_DATA [1, 2, 3] = Done pl \<and>
    relay_send_command_from_edge xor_prims ex_rng 0 1 4 ex_client CMD_DATA [1, 2, 3] (Some ([3, 4] ! 1)) =
      Some (Done (c', Some (Some 5, cell), ret)) \<and>
    (taken_early xor_prims (client_cryptos ex_client [3, 4]) 1 (f_signed xor_prims (client_cryptos ex_client [3, 4] ! 1) pl) \<or>
     (\<exists>rs' out. carry_out xor_prims (\<lambda>_ _. 1) [ex_relay, ex_relay] cell = Some (Done (rs', Some (1, out))) \<and>
        carries (cell_payload out) CMD_DATA 4 [1, 2, 3] \<and> path_ready c' [3, 4] rs'))"
    by (rule onion_delivery_out [OF ex_ready _ xor_laws e d]) (simp_all add: ex_relay_def)
  then show ?thesis
    using ex_not_taken(1) [OF pl(2,3)] pl(1) by (simp add: ex_client_circuit del: carry_out.simps)
qed

theorem onion_delivery_in_witness:
  "\<exists>r' ch cell ts cell' c' out. relay_send_command_from_edge xor_prims ex_rng 0 1 4 ex_relay CMD_DATA [1, 2, 3] None =
      Some (Done (r', Some (ch, cell), 0)) \<and>
    carry_in xor_prims (\<lambda>_ _. 1) [ex_relay] cell = Some (Done (rev ts, Some cell')) \<and>
    receive_here xor_prims (\<lambda>_ _. 1) (\<lambda>_. None) ex_client cell' CELL_DIRECTION_IN = Some (Done (c', Process out (Some 4))) \<and>
    carries (cell_payload out) CMD_DATA 4 [1, 2, 3] \<and> path_ready c' [3, 4] (ts @ [r'])"
proof -
  have d: "length ([1, 2, 3] :: byte list) \<le> RELAY_PAYLOAD_SIZE" by (simp add: size_defs)
  obtain pl where pl: "relay_cell_payload ex_rng 4 CMD_DATA [1, 2, 3] = Done pl" "length pl = CELL_PAYLOAD_SIZE"
    "recognized_of pl = 0" "integrity_of pl = [0, 0, 0, 0]" "carries pl CMD_DATA 4 [1, 2, 3]"
    by (rule cell_payload_carries [where rng = ex_rng and sid = 4 and rcmd = CMD_DATA, OF d]) auto
  have e: "marked_for_close ex_client = None" "circ_purpose ex_client \<noteq> CIRCUIT_PURPOSE_PATH_BIAS_TESTING"
    by (simp_all add: ex_client_def CIRCUIT_PURPOSE_PATH_BIAS_TESTING_def)
  have w: "windows_ok ex_client [3, 4]"
    by (auto simp: windows_ok_def less_Suc_eq ex_client_def get_hop_def with_origin_def ex_hop_def CIRCWINDOW_START_def)
  have wo: "window_open ([ex_relay, ex_relay] ! 1)" by (simp add: window_open_def ex_relay_def)
  have "\<exists>pl r' ch cell. relay_cell_payload ex_rng 4 CMD_DATA [1, 2, 3] = Done pl \<and>
    relay_send_command_from_edge xor_prims ex_rng 0 1 4 ([ex_relay, ex_relay] ! 1) CMD_DATA [1, 2, 3] None =
      Some (Done (r', Some (ch, cell), 0)) \<and>
    (taken_early_in xor_prims (client_cryptos ex_client [3, 4]) 1 (b_signed xor_prims (client_cryptos ex_client [3, 4] ! 1) pl) \<or>
     (\<exists>ts cell' c' out. carry_in xor_prims (\<lambda>_ _. 1) (rev (take 1 [ex_relay, ex_relay])) cell = Some (Done (rev ts, Some cell')) \<and>
        receive_here xor_prims (\<lambda>_ _. 1) (\<lambda>_. None) ex_client cell' CELL_DIRECTION_IN = Some (Done (c', Process out (Some ([3, 4] ! 1)))) \<and>
        carries (cell_payload out) CMD_DATA 4 [1, 2, 3] \<and>
        path_ready c' [3, 4] (ts @ r' # drop (Suc 1) [ex_relay, ex_relay])))"
    by (rule onion_delivery_in [OF ex_ready _ xor_laws e w wo d]) (simp_all add: ex_relay_def has_p_chan_def)
  then show ?thesis
    using ex_not_taken(2) [OF pl(2,3)] pl(1) by (simp add: ex_client_circuit del: carry_in.simps)
qed

end
