(* ===== verification/FlowLink.thy ===== *)
theory FlowLink
  imports Prelude
begin

text \<open>
  The contract of acknowledged flow control, apart from any cell format: a sender that remembers a
  digest for every increment of its cells, a receiver that answers each increment, and two queues
  between them. Each end is a locale, the link of the two is a third one that extends both, and
  \<open>link_run\<close> are the interleavings of their steps.
\<close>

section \<open>Runs\<close>

text \<open>
  A sender and a receiver with their step functions, the cells on their way out and the answers on
  their way back. The sender sends when it has room and processes an answer when one is there.
\<close>

inductive link_run ::
  "('s \<Rightarrow> bool) \<Rightarrow> ('m \<Rightarrow> bool) \<Rightarrow> ('m \<Rightarrow> 's \<Rightarrow> ('s \<times> byte list) outcome) \<Rightarrow>
   ('e \<Rightarrow> byte list \<Rightarrow> 's \<Rightarrow> ('s \<times> int) outcome) \<Rightarrow>
   ('n \<Rightarrow> bool) \<Rightarrow> ('n \<Rightarrow> byte list \<Rightarrow> 'r \<Rightarrow> ('r \<times> byte list list) outcome) \<Rightarrow>
   's \<Rightarrow> 'r \<Rightarrow> 's \<Rightarrow> 'r \<Rightarrow> byte list list \<Rightarrow> byte list list \<Rightarrow> bool"
  for room fits send ack fine recv s0 r0 where
  start: "link_run room fits send ack fine recv s0 r0 s0 r0 [] []"
| send: "link_run room fits send ack fine recv s0 r0 s r out home \<Longrightarrow> room s \<Longrightarrow> fits m \<Longrightarrow> send m s = Done (s', x) \<Longrightarrow>
     link_run room fits send ack fine recv s0 r0 s' r (out @ [x]) home"
| recv: "link_run room fits send ack fine recv s0 r0 s r (x # out) home \<Longrightarrow> fine n \<Longrightarrow> recv n x r = Done (r', xs) \<Longrightarrow>
     link_run room fits send ack fine recv s0 r0 s r' out (home @ xs)"
| ack: "link_run room fits send ack fine recv s0 r0 s r out (x # home) \<Longrightarrow> ack e x s = Done (s', 0) \<Longrightarrow>
     link_run room fits send ack fine recv s0 r0 s' r out home"

text \<open>
  The sender: it counts the cells in flight, and remembers the digest at every multiple of its
  increment, which an answer to the oldest takes away. An answer that is not \<open>timely\<close> may stop it.
\<close>

locale paced_sender =
  fixes ok room :: "'s \<Rightarrow> bool" and fits :: "'m \<Rightarrow> bool"
    and incr flight limit :: "'s \<Rightarrow> nat" and pending :: "'s \<Rightarrow> byte list list" and digest :: "'s \<Rightarrow> 'd"
    and absorb :: "'d \<Rightarrow> byte list \<Rightarrow> 'd" and reading :: "'d \<Rightarrow> byte list" and genuine :: "'d \<Rightarrow> byte list \<Rightarrow> bool"
    and send :: "'m \<Rightarrow> 's \<Rightarrow> ('s \<times> byte list) outcome"
    and ack :: "'e \<Rightarrow> byte list \<Rightarrow> 's \<Rightarrow> ('s \<times> int) outcome"
    and timely :: "'e \<Rightarrow> 's \<Rightarrow> bool"
    and answer :: "byte list \<Rightarrow> byte list \<Rightarrow> bool"
  assumes incr: "ok s \<Longrightarrow> 2 \<le> incr s"
    and room: "ok s \<Longrightarrow> room s \<longleftrightarrow> flight s < limit s"
    and send: "ok s \<Longrightarrow> room s \<Longrightarrow> fits m \<Longrightarrow> \<exists>s' x. send m s = Done (s', x) \<and> ok s' \<and> incr s' = incr s \<and> limit s' = limit s \<and>
      flight s' = Suc (flight s) \<and> genuine (digest s) x \<and> digest s' = absorb (digest s) x \<and>
      pending s' = pending s @ (if incr s dvd Suc (flight s) then [reading (digest s')] else [])"
    and ack: "ok s \<Longrightarrow> pending s = d # ds \<Longrightarrow> incr s \<le> flight s \<Longrightarrow> answer x d \<Longrightarrow> (\<exists>s'. ack e x s = Done (s', 0) \<and>
      ok s' \<and> incr s' = incr s \<and> flight s' = flight s - incr s \<and> digest s' = digest s \<and> pending s' = ds) \<or>
      (ack e x s = Stuck \<and> \<not> timely e s)"

text \<open>The receiver: it answers the cell that completes an increment.\<close>

locale answering_receiver =
  fixes ok :: "'r \<Rightarrow> bool" and fine :: "'n \<Rightarrow> bool" and incr count :: "'r \<Rightarrow> nat" and digest :: "'r \<Rightarrow> 'd"
    and absorb :: "'d \<Rightarrow> byte list \<Rightarrow> 'd" and reading :: "'d \<Rightarrow> byte list" and genuine :: "'d \<Rightarrow> byte list \<Rightarrow> bool"
    and recv :: "'n \<Rightarrow> byte list \<Rightarrow> 'r \<Rightarrow> ('r \<times> byte list list) outcome"
    and answer :: "byte list \<Rightarrow> byte list \<Rightarrow> bool"
  assumes recv: "ok r \<Longrightarrow> fine n \<Longrightarrow> genuine (digest r) x \<Longrightarrow> \<exists>r' ys. recv n x r = Done (r', ys) \<and> ok r' \<and> incr r' = incr r \<and>
      digest r' = absorb (digest r) x \<and>
      (if Suc (count r) = incr r then count r' = 0 \<and> (\<exists>y. ys = [y] \<and> answer y (reading (digest r')))
       else count r' = Suc (count r) \<and> ys = [])"
    and count: "ok r \<Longrightarrow> count r < incr r"

text \<open>The digests a receiver will answer while it takes the cells under way.\<close>

fun due :: "('d \<Rightarrow> byte list \<Rightarrow> 'd) \<Rightarrow> ('d \<Rightarrow> byte list) \<Rightarrow> nat \<Rightarrow> nat \<Rightarrow> 'd \<Rightarrow> byte list list \<Rightarrow> byte list list" where
  "due ab rd i c d [] = []"
| "due ab rd i c d (x # xs) =
     (if Suc c = i then rd (ab d x) # due ab rd i 0 (ab d x) xs else due ab rd i (Suc c) (ab d x) xs)"

fun all_genuine :: "('d \<Rightarrow> byte list \<Rightarrow> 'd) \<Rightarrow> ('d \<Rightarrow> byte list \<Rightarrow> bool) \<Rightarrow> 'd \<Rightarrow> byte list list \<Rightarrow> bool" where
  "all_genuine ab g d [] = True"
| "all_genuine ab g d (x # xs) = (g d x \<and> all_genuine ab g (ab d x) xs)"

lemma due_snoc:
  "c < i \<Longrightarrow> due ab rd i c d (xs @ [x]) =
     due ab rd i c d xs @ (if i dvd Suc (c + length xs) then [rd (ab (foldl ab d xs) x)] else [])"
proof (induction xs arbitrary: c d)
  case Nil
  then show ?case by (auto dest: dvd_imp_le)
next
  case (Cons y ys)
  show ?case
  proof (cases "Suc c = i")
    case True
    then have "i dvd Suc (c + length (y # ys)) \<longleftrightarrow> i dvd Suc (0 + length ys)"
      using dvd_add_triv_left_iff [of i "Suc (length ys)"] by auto
    then show ?thesis using Cons.IH [of 0 "ab d y"] Cons.prems True by simp
  next
    case False
    then show ?thesis using Cons.IH [of "Suc c" "ab d y"] Cons.prems by simp
  qed
qed

lemma length_due: "c < i \<Longrightarrow> length (due ab rd i c d xs) = (c + length xs) div i"
proof (induction xs rule: rev_induct)
  case (snoc x xs)
  have "Suc (c + length xs) div i = (c + length xs) div i + (if i dvd Suc (c + length xs) then 1 else 0)"
    by (simp add: div_Suc dvd_eq_mod_eq_0)
  then show ?case using snoc due_snoc [OF snoc.prems, of ab rd d xs x] by simp
qed simp

lemma all_genuine_snoc:
  "all_genuine ab g d (xs @ [x]) \<longleftrightarrow> all_genuine ab g d xs \<and> g (foldl ab d xs) x"
  by (induction xs arbitrary: d) auto

locale honest_link =
  S: paced_sender sok room fits sincr flight limit pending sdigest absorb reading genuine send ack timely answer +
  R: answering_receiver rok fine rincr count rdigest absorb reading genuine recv answer
  for sok room :: "'s \<Rightarrow> bool" and fits :: "'m \<Rightarrow> bool" and sincr flight limit pending and sdigest :: "'s \<Rightarrow> 'd"
    and absorb reading genuine send and ack :: "'e \<Rightarrow> byte list \<Rightarrow> 's \<Rightarrow> ('s \<times> int) outcome" and timely answer
    and rok :: "'r \<Rightarrow> bool" and fine :: "'n \<Rightarrow> bool" and rincr count and rdigest :: "'r \<Rightarrow> 'd" and recv
begin

definition start :: "'s \<Rightarrow> 'r \<Rightarrow> bool" where
  "start s r \<longleftrightarrow> sok s \<and> rok r \<and> sincr s = rincr r \<and> sdigest s = rdigest r \<and> flight s = 0 \<and> pending s = [] \<and> count r = 0"

definition linked :: "'s \<Rightarrow> 'r \<Rightarrow> byte list list \<Rightarrow> byte list list \<Rightarrow> bool" where
  "linked s r out home \<longleftrightarrow> sok s \<and> rok r \<and> sincr s = rincr r \<and> sdigest s = foldl absorb (rdigest r) out \<and>
     all_genuine absorb genuine (rdigest r) out \<and>
     flight s = length home * rincr r + count r + length out \<and>
     (\<exists>ds. pending s = ds @ due absorb reading (rincr r) (count r) (rdigest r) out \<and> list_all2 answer home ds)"

lemma linked_start: "start s r \<Longrightarrow> linked s r [] []"
  by (simp add: start_def linked_def)

lemma linked_send:
  assumes l: "linked s r out home" and "room s" "fits m"
  shows "\<exists>s' x. send m s = Done (s', x) \<and> linked s' r (out @ [x]) home \<and> flight s' = Suc (flight s) \<and>
    limit s' = limit s \<and> sincr s' = sincr s"
proof -
  obtain s' x where s': "send m s = Done (s', x)" "sok s'" "sincr s' = sincr s" "flight s' = Suc (flight s)"
    "limit s' = limit s" "genuine (sdigest s) x" "sdigest s' = absorb (sdigest s) x"
    "pending s' = pending s @ (if sincr s dvd Suc (flight s) then [reading (sdigest s')] else [])"
    using S.send [of s m] l assms(2,3) unfolding linked_def by blast
  have "count r < rincr r" using l R.count by (simp add: linked_def)
  moreover have "rincr r dvd Suc (flight s) \<longleftrightarrow> rincr r dvd Suc (count r + length out)"
    using l dvd_add_right_iff [of "rincr r" "length home * rincr r" "Suc (count r + length out)"]
    by (simp add: linked_def add.assoc)
  ultimately have "linked s' r (out @ [x]) home"
    using l s' due_snoc [of "count r" "rincr r" absorb reading "rdigest r" out x]
    by (auto simp: linked_def all_genuine_snoc)
  then show ?thesis using s'(1,3-5) by blast
qed

lemma linked_recv:
  assumes l: "linked s r (x # out) home" and "fine n"
  shows "\<exists>r' ys. recv n x r = Done (r', ys) \<and> linked s r' out (home @ ys)"
proof -
  obtain ds where ds: "pending s = ds @ due absorb reading (rincr r) (count r) (rdigest r) (x # out)" "list_all2 answer home ds"
    using l by (auto simp: linked_def)
  obtain r' ys where r': "recv n x r = Done (r', ys)" "rok r'" "rincr r' = rincr r" "rdigest r' = absorb (rdigest r) x"
    "if Suc (count r) = rincr r then count r' = 0 \<and> (\<exists>y. ys = [y] \<and> answer y (reading (rdigest r')))
     else count r' = Suc (count r) \<and> ys = []"
    using R.recv [of r n x] l assms(2) by (auto simp: linked_def)
  have "linked s r' out (home @ ys)"
  proof (cases "Suc (count r) = rincr r")
    case True
    then obtain y where y: "ys = [y]" "answer y (reading (rdigest r'))" "count r' = 0" using r'(5) by auto
    have "list_all2 answer (home @ [y]) (ds @ [reading (rdigest r')])" using ds(2) y(2) by (simp add: list_all2_appendI)
    moreover have "pending s = (ds @ [reading (rdigest r')]) @ due absorb reading (rincr r') (count r') (rdigest r') out"
      using ds(1) True r' y(3) by simp
    moreover have "flight s = length (home @ [y]) * rincr r' + count r' + length out"
      using l True r' y(3) by (simp add: linked_def)
    ultimately show ?thesis using l r' y(1) by (auto simp: linked_def)
  next
    case False
    then show ?thesis using l r' ds by (auto simp: linked_def)
  qed
  then show ?thesis using r'(1) by blast
qed

lemma linked_ack:
  assumes l: "linked s r out (x # home)"
  shows "(\<exists>s'. ack e x s = Done (s', 0) \<and> linked s' r out home) \<or> (ack e x s = Stuck \<and> \<not> timely e s)"
proof -
  obtain d ds where d: "pending s = d # ds @ due absorb reading (rincr r) (count r) (rdigest r) out" "answer x d" "list_all2 answer home ds"
    using l by (auto simp: linked_def list_all2_Cons1)
  have "sincr s \<le> flight s" using l by (simp add: linked_def)
  then consider "ack e x s = Stuck" "\<not> timely e s"
    | s' where "ack e x s = Done (s', 0)" "sok s'" "sincr s' = sincr s" "flight s' = flight s - sincr s"
      "sdigest s' = sdigest s" "pending s' = ds @ due absorb reading (rincr r) (count r) (rdigest r) out"
    using S.ack [of s d _ x e] l d by (auto simp: linked_def)
  then show ?thesis
  proof cases
    case (2 s')
    then have "linked s' r out home" using l d by (auto simp: linked_def)
    then show ?thesis using 2(1) by blast
  qed simp
qed

lemma run_linked:
  "link_run room fits send ack fine recv s0 r0 s r out home \<Longrightarrow> start s0 r0 \<Longrightarrow> linked s r out home"
proof (induction rule: link_run.induct)
  case start
  then show ?case by (rule linked_start)
next
  case (send s r out home m s' x)
  then show ?case using linked_send [of s r out home m] by auto
next
  case (recv s r x out home n r' xs)
  then show ?case using linked_recv [of s r x out home n] by auto
next
  case (ack s r out x home e s')
  then show ?case using linked_ack [of s r out x home e] by auto
qed

lemma linked_pending: 
  assumes "linked s r out home"
  shows "length (pending s) = flight s div sincr s"
proof -
  obtain ds where ds: "pending s = ds @ due absorb reading (rincr r) (count r) (rdigest r) out" "list_all2 answer home ds"
    using assms by (auto simp: linked_def)
  have c: "count r < rincr r" using assms R.count by (simp add: linked_def)
  then have "flight s div sincr s = length home + (count r + length out) div rincr r"
    using assms by (simp add: linked_def add.assoc)
  then show ?thesis using ds length_due [OF c, of absorb reading "rdigest r" out] by (simp add: list_all2_lengthD)
qed

text \<open>When nothing is under way the sender has room, if its limit allows an increment.\<close>

lemma linked_quiet: "linked s r [] [] \<Longrightarrow> sincr s \<le> limit s \<Longrightarrow> room s"
  using R.count [of r] S.room [of s] by (auto simp: linked_def)

lemma linked_counts:
  "linked s r out home \<Longrightarrow> rok r \<and> rincr r = sincr s \<and> flight s = length home * rincr r + count r + length out"
  by (simp add: linked_def)

lemma linked_room: "linked s r out home \<Longrightarrow> room s \<longleftrightarrow> flight s < limit s"
  using S.room [of s] by (simp add: linked_def)

lemma linked_ends: "linked s r out home \<Longrightarrow> sok s \<and> rok r"
  by (simp add: linked_def)

text \<open>Runs that exist: cells are sent while there is room, all under way are taken and answered.\<close>

abbreviation runs where "runs \<equiv> link_run room fits send ack fine recv"

lemma run_sends:
  assumes "start s0 r0" "fits m"
  shows "runs s0 r0 s r out home \<Longrightarrow> flight s + k \<le> limit s \<Longrightarrow>
    \<exists>s' out'. runs s0 r0 s' r out' home \<and> flight s' = flight s + k \<and> sincr s' = sincr s"
proof (induction k arbitrary: s out)
  case (Suc k)
  note l = run_linked [OF Suc.prems(1) assms(1)]
  have room: "room s" using linked_room [OF l] Suc.prems(2) by simp
  obtain s' x where s': "send m s = Done (s', x)" "flight s' = Suc (flight s)" "limit s' = limit s" "sincr s' = sincr s"
    using linked_send [OF l room assms(2)] by blast
  show ?case using Suc.IH [OF link_run.send [OF Suc.prems(1) room assms(2) s'(1)]] s'(2-4) Suc.prems(2) by auto
qed auto

lemma run_taken:
  assumes "start s0 r0" "fine n"
  shows "runs s0 r0 s r out home \<Longrightarrow> \<exists>r' home'. runs s0 r0 s r' [] home'"
proof (induction out arbitrary: r home)
  case (Cons x out)
  obtain r' ys where "recv n x r = Done (r', ys)" using linked_recv [OF run_linked [OF Cons.prems assms(1)] assms(2)] by blast
  from Cons.IH [OF link_run.recv [OF Cons.prems assms(2) this]] show ?case .
qed auto

lemma run_answered:
  assumes "start s0 r0" "\<And>s. sok s \<Longrightarrow> timely e s"
  shows "runs s0 r0 s r out home \<Longrightarrow> \<exists>s'. runs s0 r0 s' r out []"
proof (induction home arbitrary: s)
  case (Cons x home)
  note l = run_linked [OF Cons.prems assms(1)]
  then have "sok s" by (simp add: linked_def)
  then obtain s' where "ack e x s = Done (s', 0)" using linked_ack [OF l, of e] assms(2) by blast
  from Cons.IH [OF link_run.ack [OF Cons.prems this]] show ?case .
qed auto

end

end
