(* ===== verification/SendmeFlow.thy ===== *)
theory SendmeFlow
  imports RelayPath FlowLink
begin

text \<open>
  The functions of \<open>src/core/or/sendme.c\<close> that send a SENDME, and flow control between two ends:
  a client that sends DATA cells and processes the SENDMEs it gets, and a relay that takes the cells
  and answers. The contract of either end is a locale, and so is the link between them.
\<close>

section \<open>Sending a SENDME\<close>

text \<open>The version is an \<open>int\<close> within a byte, so storing it in one changes nothing.\<close>

definition sendme_payload :: "string list option \<Rightarrow> byte list \<Rightarrow> byte list outcome" where
  "sendme_payload ns cell_digest =
     obind (get_emit_min_version ns) (\<lambda>emit_version.
       if emit_version = 1 then build_cell_payload_v1 cell_digest else Done [])"

text \<open>The result: the circuit, what was given to the relay layer and what it queued, the return value.\<close>

definition send_circuit_level_sendme ::
  "('c, 'd) prims \<Rightarrow> (nat \<Rightarrow> byte list) \<Rightarrow> u64 \<Rightarrow> int \<Rightarrow> string list option \<Rightarrow> ('c, 'd) circuit \<Rightarrow> nat option \<Rightarrow>
     byte list \<Rightarrow> (('c, 'd) circuit \<times> (byte list \<times> (nat option \<times> cell_t) option) list \<times> int) outcome option" where
  "send_circuit_level_sendme P rng now queued ns circ layer_hint cell_digest =
     (case sendme_payload ns cell_digest of
        Stuck \<Rightarrow> Some Stuck
      | Fail \<Rightarrow> Some (Done (circ, [], - 1))
      | Done pl \<Rightarrow>
          map_option (\<lambda>r. obind r (\<lambda>(circ, out, ret). Done (circ, [(pl, out)], if ret < 0 then - 1 else 0)))
            (relay_send_command_from_edge P rng now queued 0 circ CMD_SENDME pl layer_hint))"

definition widen_deliver_window :: "('c, 'd) circuit \<Rightarrow> nat option \<Rightarrow> int \<Rightarrow> ('c, 'd) circuit outcome" where
  "widen_deliver_window circ layer_hint inc =
     (case layer_hint of
        Some hop \<Rightarrow> update_hop circ hop (\<lambda>n. Done (n\<lparr>deliver_window := deliver_window n + inc\<rparr>))
      | None \<Rightarrow> Done (circ\<lparr>circ_deliver_window := circ_deliver_window circ + inc\<rparr>))"

text \<open>
  One round of the loop: whether the window is low, the window widened and the digest read. A
  zero increment would make the loop endless.
\<close>

definition sendme_round ::
  "('c, 'd) circuit \<Rightarrow> nat option \<Rightarrow> int \<Rightarrow> (('c, 'd) circuit \<times> byte list) option outcome" where
  "sendme_round circ layer_hint inc =
     obind (deliver_window_of circ layer_hint) (\<lambda>w.
       if \<not> w \<le> CIRCWINDOW_START - inc then Done None
       else obind (widen_deliver_window circ layer_hint inc) (\<lambda>circ.
            obind (sendme_digest_of circ layer_hint) (\<lambda>digest. Done (Some (circ, digest)))))"

partial_function (option) sendme_loop ::
  "('c, 'd) prims \<Rightarrow> (nat \<Rightarrow> byte list) \<Rightarrow> u64 \<Rightarrow> int \<Rightarrow> string list option \<Rightarrow> nat option \<Rightarrow> int \<Rightarrow>
     (byte list \<times> (nat option \<times> cell_t) option) list \<Rightarrow> ('c, 'd) circuit \<Rightarrow>
     (('c, 'd) circuit \<times> (byte list \<times> (nat option \<times> cell_t) option) list) outcome option" where
  "sendme_loop P rng now queued ns layer_hint inc sent circ =
     (case sendme_round circ layer_hint inc of
        Stuck \<Rightarrow> Some Stuck
      | Fail \<Rightarrow> Some Fail
      | Done None \<Rightarrow> Some (Done (circ, sent))
      | Done (Some (circ, digest)) \<Rightarrow>
          Option.bind (send_circuit_level_sendme P rng now queued ns circ layer_hint digest) (\<lambda>r. case r of
            Stuck \<Rightarrow> Some Stuck
          | Fail \<Rightarrow> Some Fail
          | Done (circ, out, ret) \<Rightarrow>
              if ret < 0 then Some (Done (circ, sent @ out))
              else sendme_loop P rng now queued ns layer_hint inc (sent @ out) circ))"

definition sendme_circuit_consider_sending ::
  "('c, 'd) prims \<Rightarrow> (nat \<Rightarrow> byte list) \<Rightarrow> u64 \<Rightarrow> int \<Rightarrow> string list option \<Rightarrow> ('c, 'd) circuit \<Rightarrow> nat option \<Rightarrow>
     (('c, 'd) circuit \<times> (byte list \<times> (nat option \<times> cell_t) option) list) outcome option" where
  "sendme_circuit_consider_sending P rng now queued ns circ layer_hint =
     (case sendme_get_inc_count circ layer_hint of
        Done inc \<Rightarrow> sendme_loop P rng now queued ns layer_hint inc [] circ
      | Fail \<Rightarrow> Some Fail
      | Stuck \<Rightarrow> Some Stuck)"

section \<open>The loop ends\<close>

lemma relay_control_frame:
  assumes r: "kind r = Or rp" and c: "rcmd \<noteq> CMD_DATA"
  shows "\<exists>res. relay_send_command_from_edge P rng now queued sid r rcmd data None = Some res \<and>
    (\<forall>r' out ret. res = Done (r', out, ret) \<longrightarrow> circ_deliver_window r' = circ_deliver_window r \<and> (\<exists>rp'. kind r' = Or rp'))"
proof -
  have win: "circ_deliver_window r2 = circ_deliver_window r \<and> (\<exists>rp'. kind r2 = Or rp')"
    if "relay_encrypt_cell_inbound P pl r = Done (r2, x)" for pl r2 x
    using that r
    by (auto simp: relay_encrypt_cell_inbound_def with_or_def update_or_crypto_def sendme_record_sending_cell_digest_def
        outcome_elims split: if_splits circuit_kind.splits)
  have pk: "\<exists>res. circuit_package_relay_cell P cell r CELL_DIRECTION_IN None = Some res \<and>
      (\<forall>r' out. res = Done (r', out) \<longrightarrow> circ_deliver_window r' = circ_deliver_window r \<and> (\<exists>rp'. kind r' = Or rp'))" for cell
  proof (cases "relay_encrypt_cell_inbound P (cell_payload cell) r")
    case (Done t)
    obtain r2 x where t: "t = (r2, x)" by (cases t)
    obtain rp' where "circ_deliver_window r2 = circ_deliver_window r" "kind r2 = Or rp'" using win [OF Done [unfolded t]] by blast
    then show ?thesis using Done t r by (simp add: circuit_package_relay_cell_def with_or_def CIRCUIT_IS_ORIGIN_def)
  qed (use r in \<open>simp_all add: circuit_package_relay_cell_def CIRCUIT_IS_ORIGIN_def\<close>)
  show ?thesis
  proof (cases "length data \<le> RELAY_PAYLOAD_SIZE")
    case False
    then show ?thesis by (simp add: relay_send_command_from_edge_def)
  next
    case True
    show ?thesis
    proof (cases "relay_cell_payload rng sid rcmd data")
      case (Done pl)
      obtain res where res: "circuit_package_relay_cell P \<lparr>cell_circ_id = p_circ_id rp, cell_command = CELL_RELAY, cell_payload = pl\<rparr> r
          CELL_DIRECTION_IN None = Some res"
        "\<forall>r' out. res = Done (r', out) \<longrightarrow> circ_deliver_window r' = circ_deliver_window r \<and> (\<exists>rp'. kind r' = Or rp')"
        using pk by blast
      show ?thesis
        using True Done r c res
        by (cases res) (auto simp: relay_send_command_from_edge_def Let_def mark_for_close_def split: option.splits if_splits)
    qed (use True r in \<open>simp_all add: relay_send_command_from_edge_def\<close>)
  qed
qed

lemma send_sendme_relay:
  assumes "kind r = Or rp"
  shows "\<exists>res. send_circuit_level_sendme P rng now queued ns r None d = Some res \<and>
    (\<forall>r' out ret. res = Done (r', out, ret) \<longrightarrow> length out \<le> 1 \<and>
       (0 \<le> ret \<longrightarrow> circ_deliver_window r' = circ_deliver_window r \<and> (\<exists>rp'. kind r' = Or rp')))"
proof (cases "sendme_payload ns d")
  case (Done pl)
  have cmd: "CMD_SENDME \<noteq> CMD_DATA" by (simp add: CMD_SENDME_def CMD_DATA_def)
  obtain res where res: "relay_send_command_from_edge P rng now queued 0 r CMD_SENDME pl None = Some res"
    "\<And>r' out ret. res = Done (r', out, ret) \<Longrightarrow> circ_deliver_window r' = circ_deliver_window r \<and> (\<exists>rp'. kind r' = Or rp')"
    using relay_control_frame [OF assms cmd, of P rng now queued 0 pl] by fastforce
  then show ?thesis
    using Done by (cases res) (auto simp: send_circuit_level_sendme_def)
qed (simp_all add: send_circuit_level_sendme_def)

lemma sendme_loop_relay:
  assumes "kind r = Or rp" "0 < inc"
  shows "\<exists>res. sendme_loop P rng now queued ns None inc sent r = Some res \<and>
    (\<forall>r' sent'. res = Done (r', sent') \<longrightarrow>
       int (length sent') * inc \<le> int (length sent) * inc + max 0 (CIRCWINDOW_START - circ_deliver_window r))"
  using assms
proof (induction "nat (CIRCWINDOW_START - circ_deliver_window r)" arbitrary: r rp sent rule: less_induct)
  case less
  let ?w = "circ_deliver_window r" and ?r = "r\<lparr>circ_deliver_window := circ_deliver_window r + inc\<rparr>"
  note unf = sendme_loop.simps [of P rng now queued ns None inc sent r]
  show ?case
  proof (cases "?w \<le> CIRCWINDOW_START - inc")
    case False
    then have "sendme_round r None inc = Done None" by (simp add: sendme_round_def deliver_window_of_def)
    then show ?thesis by (subst unf) simp
  next
    case True
    let ?d = "sendme_digest (or_crypto rp)"
    have round: "sendme_round r None inc = Done (Some (?r, ?d))"
      using True less.prems(1) by (simp add: sendme_round_def deliver_window_of_def widen_deliver_window_def sendme_digest_of_def with_or_def)
    have rp: "kind ?r = Or rp" using less.prems(1) by simp
    from send_sendme_relay [OF rp, of P rng now queued ns ?d]
    obtain res where res: "send_circuit_level_sendme P rng now queued ns ?r None ?d = Some res"
      "\<And>r' out ret. res = Done (r', out, ret) \<Longrightarrow> length out \<le> 1 \<and>
         (0 \<le> ret \<longrightarrow> circ_deliver_window r' = ?w + inc \<and> (\<exists>rp'. kind r' = Or rp'))" by auto
    have one: "int (length (sent @ out)) * inc \<le> int (length sent) * inc + inc" if "length out \<le> 1" for out
    proof -
      have "int (length (sent @ out)) \<le> int (length sent) + 1" using that by simp
      from mult_right_mono [OF this, of inc] show ?thesis using less.prems(2) by (simp add: distrib_right)
    qed
    show ?thesis
    proof (cases res)
      case (Done t)
      obtain r' out ret where t: "t = (r', out, ret)" by (cases t)
      note fr = res(2) [OF Done [unfolded t]]
      show ?thesis
      proof (cases "ret < 0")
        case True
        then have "sendme_loop P rng now queued ns None inc sent r = Some (Done (r', sent @ out))"
          by (subst unf) (simp add: round res(1) Done t)
        moreover have "int (length (sent @ out)) * inc \<le> int (length sent) * inc + max 0 (CIRCWINDOW_START - ?w)"
          using one [of out] fr \<open>?w \<le> CIRCWINDOW_START - inc\<close> by linarith
        ultimately show ?thesis by simp
      next
        case False
        then obtain rp' where r': "circ_deliver_window r' = ?w + inc" "kind r' = Or rp'" using fr by auto
        have "nat (CIRCWINDOW_START - circ_deliver_window r') < nat (CIRCWINDOW_START - ?w)" using r'(1) True less.prems(2) by simp
        from less.hyps [OF this r'(2) less.prems(2), of "sent @ out"]
        obtain res' where res': "sendme_loop P rng now queued ns None inc (sent @ out) r' = Some res'"
          "\<And>q sent'. res' = Done (q, sent') \<Longrightarrow> int (length sent') * inc \<le>
             int (length (sent @ out)) * inc + max 0 (CIRCWINDOW_START - circ_deliver_window r')" by blast
        have "sendme_loop P rng now queued ns None inc sent r = Some res'"
          by (subst unf) (simp add: round res(1) Done t False res'(1))
        moreover have "int (length sent') * inc \<le> int (length sent) * inc + max 0 (CIRCWINDOW_START - ?w)" if "res' = Done (q, sent')" for q sent'
          using res'(2) [OF that] one [of out] fr r'(1) True by auto
        ultimately show ?thesis by blast
      qed
    qed (subst unf, simp add: round res(1), subst unf, simp add: round res(1))
  qed
qed

text \<open>C20. Considering to send SENDMEs ends for every circuit of a relay, whatever its window and whatever
  becomes of the cells, unless the increment is zero; and it sends no more SENDMEs than whole
  increments are missing in the window.\<close>

theorem consider_sending_ends:
  assumes "kind r = Or rp" "\<And>cc. circ_ccontrol r = Some cc \<Longrightarrow> cc_sendme_inc cc \<noteq> 0"
  shows "\<exists>inc res. sendme_get_inc_count r None = Done inc \<and>
    sendme_circuit_consider_sending P rng now queued ns r None = Some res \<and>
    (\<forall>r' sent. res = Done (r', sent) \<longrightarrow> int (length sent) * inc \<le> max 0 (CIRCWINDOW_START - circ_deliver_window r))"
proof -
  obtain inc where inc: "sendme_get_inc_count r None = Done inc" "0 < inc"
    using assms(2) by (cases "circ_ccontrol r")
      (auto simp: sendme_get_inc_count_def package_state_def CIRCWINDOW_INCREMENT_def less_le unsigned_eq_0_iff)
  then show ?thesis
    using sendme_loop_relay [OF assms(1) inc(2), of P rng now queued ns "[]"] by (simp add: sendme_circuit_consider_sending_def)
qed

theorem consider_sending_ends_witness:
  "\<exists>inc res. sendme_get_inc_count ex_relay None = Done inc \<and>
    sendme_circuit_consider_sending xor_prims ex_rng 0 1 None (ex_relay\<lparr>circ_deliver_window := 700\<rparr>) None = Some res \<and>
    (\<forall>r' sent. res = Done (r', sent) \<longrightarrow> int (length sent) * inc \<le> 300)"
proof -
  have k: "kind (ex_relay\<lparr>circ_deliver_window := 700\<rparr>) = Or \<lparr>or_crypto = xor_keys, p_chan = Some 3, p_circ_id = 88, rend_splice = None,
      n_cells_discarded_at_end = 0\<rparr>" "circ_ccontrol (ex_relay\<lparr>circ_deliver_window := 700\<rparr>) = None"
    by (simp_all add: ex_relay_def)
  show ?thesis
    using consider_sending_ends [OF k(1), of xor_prims ex_rng 0 1 None] k(2)
    by (simp add: sendme_get_inc_count_def package_state_def ex_relay_def CIRCWINDOW_START_def)
qed

section \<open>Authenticated SENDMEs\<close>

definition sendme_v1 :: "byte list \<Rightarrow> byte list" where
  "sendme_v1 d = 1 # put16 (of_nat TRUNNEL_SENDME_V1_DIGEST_LEN) @ take TRUNNEL_SENDME_V1_DIGEST_LEN d"

lemma build_v1: 
  assumes "TRUNNEL_SENDME_V1_DIGEST_LEN \<le> length d"
  shows "build_cell_payload_v1 d = Done (sendme_v1 d)"
  using assms
  by (simp add: build_cell_payload_v1_def sendme_cell_set_version_def sendme_cell_new_def mem_get_def Let_def
      sendme_cell_encode_def sendme_cell_check_def emit_def size_defs TRUNNEL_SENDME_V1_DIGEST_LEN_def sendme_v1_def)

lemma parse_v1:
  assumes "TRUNNEL_SENDME_V1_DIGEST_LEN \<le> length d"
  shows "sendme_cell_parse (sendme_v1 d @ rest) = Done (\<lparr>sm_version = 1, sm_data_len = of_nat TRUNNEL_SENDME_V1_DIGEST_LEN,
    sm_v1_digest = take TRUNNEL_SENDME_V1_DIGEST_LEN d, sm_error = False\<rparr>, rest)"
  using assms
  by (simp add: sendme_cell_parse_def sendme_v1_def grab_def TRUNNEL_SENDME_V1_DIGEST_LEN_def sendme_cell_new_def
      get16_put16)


text \<open>A pending digest and the answer to it; \<open>ns\<close> is the consensus of the end that checks.\<close>

definition answers :: "string list option \<Rightarrow> byte list \<Rightarrow> byte list \<Rightarrow> bool" where
  "answers ns x d \<longleftrightarrow>
     x = [] \<and> get_accept_min_version ns = Done 0 \<or>
     x = sendme_v1 d \<and> TRUNNEL_SENDME_V1_DIGEST_LEN \<le> length d \<and> (\<exists>a \<le> 1. get_accept_min_version ns = Done a)"

lemma valid_answer:
  assumes "answers ns x d" "sendme_last_digests c = Some (d # ds)"
  shows "sendme_is_valid ns c x = Done (True, c\<lparr>sendme_last_digests := Some ds\<rparr>)"
  using assms(1) unfolding answers_def
proof (elim disjE conjE exE)
  assume "x = []" "get_accept_min_version ns = Done 0"
  then show ?thesis
    using assms(2)
    by (simp add: sendme_is_valid_def cell_version_can_be_handled_def SENDME_MAX_SUPPORTED_VERSION_def pop_first_cell_digest_def)
next
  fix a
  assume x: "x = sendme_v1 d" "TRUNNEL_SENDME_V1_DIGEST_LEN \<le> length d" and a: "a \<le> 1" "get_accept_min_version ns = Done a"
  have "x \<noteq> []" using x(1) by (simp add: sendme_v1_def)
  then show ?thesis
    using parse_v1 [OF x(2), of "[]"] x(1) a assms(2)
    by (simp add: sendme_is_valid_def cell_version_can_be_handled_def SENDME_MAX_SUPPORTED_VERSION_def
        pop_first_cell_digest_def cell_v1_is_valid_def v1_digest_matches_def)
qed

text \<open>A SENDME of version 1 built from a digest is accepted by an end of the circuit exactly
  when that end's oldest pending digest is the same, and whatever the answer that digest is used up.\<close>

theorem sendme_authenticates:
  assumes d: "length d = TRUNNEL_SENDME_V1_DIGEST_LEN" and e: "length e = TRUNNEL_SENDME_V1_DIGEST_LEN"
    and c: "sendme_last_digests c = Some (e # es)" and a: "get_accept_min_version ns = Done a" "a \<le> 1"
  shows "\<exists>x. build_cell_payload_v1 d = Done x \<and>
    sendme_is_valid ns c x = Done (d = e, c\<lparr>sendme_last_digests := Some es\<rparr>)"
proof -
  have "sendme_v1 d \<noteq> []" by (simp add: sendme_v1_def)
  then have "sendme_is_valid ns c (sendme_v1 d) = Done (d = e, c\<lparr>sendme_last_digests := Some es\<rparr>)"
    using parse_v1 [of d "[]"] d e a c
    by (auto simp: sendme_is_valid_def cell_version_can_be_handled_def SENDME_MAX_SUPPORTED_VERSION_def
        pop_first_cell_digest_def cell_v1_is_valid_def v1_digest_matches_def)
  then show ?thesis using build_v1 [of d] d by simp
qed


section \<open>The client as a sender\<close>

definition hop_inc :: "('c, 'd) crypt_path \<Rightarrow> nat" where
  "hop_inc n = (case hop_ccontrol n of None \<Rightarrow> 100 | Some cc \<Rightarrow> unat (cc_sendme_inc cc))"

text \<open>
  A hop with fixed windows is described by the package window \<open>W\<close> that it started with, one with
  congestion control by \<open>W = 0\<close>. The pacing is regular when that window is a multiple of the 100
  cells a SENDME stands for, respectively when an increment is at least two cells.
\<close>

definition pacing_of :: "('c, 'd) crypt_path \<Rightarrow> int" where
  "pacing_of n = (case hop_ccontrol n of None \<Rightarrow> package_window n | Some cc \<Rightarrow> 0)"

definition regular_pacing :: "('c, 'd) crypt_path \<Rightarrow> bool" where
  "regular_pacing n = (case hop_ccontrol n of
       None \<Rightarrow> 100 \<le> package_window n \<and> package_window n \<le> CIRCWINDOW_START_MAX \<and> package_window n mod CIRCWINDOW_INCREMENT = 0
     | Some cc \<Rightarrow> 2 \<le> unat (cc_sendme_inc cc))"

text \<open>Cells that were sent and not acknowledged.\<close>

definition hop_flight :: "int \<Rightarrow> ('c, 'd) crypt_path \<Rightarrow> nat" where
  "hop_flight W n = (case hop_ccontrol n of None \<Rightarrow> nat (W - package_window n) | Some cc \<Rightarrow> unat (cc_inflight cc))"

definition hop_limit :: "int \<Rightarrow> ('c, 'd) crypt_path \<Rightarrow> nat" where
  "hop_limit W n = (case hop_ccontrol n of None \<Rightarrow> nat W | Some cc \<Rightarrow> unat (cc_cwnd cc))"

definition hop_windows :: "int \<Rightarrow> cc_globals \<Rightarrow> ('c, 'd) crypt_path \<Rightarrow> bool" where
  "hop_windows W G n = (case hop_ccontrol n of
       None \<Rightarrow> 100 \<le> W \<and> W \<le> CIRCWINDOW_START_MAX \<and> W mod CIRCWINDOW_INCREMENT = 0 \<and>
         0 \<le> package_window n \<and> package_window n \<le> W
     | Some cc \<Rightarrow> W = 0 \<and> cc_ok G cc \<and> 2 \<le> unat (cc_sendme_inc cc) \<and>
         length (sendme_pending_timestamps cc) = unat (cc_inflight cc) div unat (cc_sendme_inc cc))"

definition digests_of :: "('c, 'd) circuit \<Rightarrow> byte list list" where
  "digests_of c = (case sendme_last_digests c of None \<Rightarrow> [] | Some ds \<Rightarrow> ds)"

definition has_room :: "('c, 'd) circuit \<Rightarrow> nat \<Rightarrow> bool" where
  "has_room c hop = (case congestion_control_get_package_window c (Some hop) of Done w \<Rightarrow> w > 0 | _ \<Rightarrow> False)"

lemma hop_update:
  assumes "get_hop c hop = Done n" "f n = Done n'"
  obtains c' where "update_hop c hop f = Done c'" "get_hop c' hop = Done n'" "digests_of c' = digests_of c" "CIRCUIT_IS_ORIGIN c'"
  using assms that
  by (auto simp: update_hop_def get_hop_def with_origin_def digests_of_def CIRCUIT_IS_ORIGIN_def deref_def
      split: circuit_kind.splits)

lemma hop_origin: "get_hop c hop = Done n \<Longrightarrow> CIRCUIT_IS_ORIGIN c"
  by (auto simp: get_hop_def with_origin_def CIRCUIT_IS_ORIGIN_def split: circuit_kind.splits)

lemma room_iff:
  assumes h: "get_hop c hop = Done n" and w: "hop_windows W G n"
  shows "has_room c hop \<longleftrightarrow> hop_flight W n < hop_limit W n"
proof (cases "hop_ccontrol n")
  case None
  then show ?thesis
    using h w by (auto simp: has_room_def congestion_control_get_package_window_def package_state_def hop_flight_def
        hop_limit_def hop_windows_def CIRCWINDOW_START_MAX_def)
next
  case (Some cc)
  have pos: "0 < uint z \<longleftrightarrow> z \<noteq> 0" for z :: u64 by (auto simp: less_le unsigned_eq_0_iff)
  have "has_room c hop \<longleftrightarrow> \<not> cc_inflight cc > cc_cwnd cc \<and> cc_cwnd cc - cc_inflight cc \<noteq> 0"
    using h Some
    by (auto simp: has_room_def congestion_control_get_package_window_def package_state_def INT32_MAX_def pos
        simp del: right_minus_eq)
  also have "\<dots> \<longleftrightarrow> cc_inflight cc < cc_cwnd cc" by auto
  finally show ?thesis using Some by (simp add: hop_flight_def hop_limit_def word_less_nat_alt)
qed

lemma room_flight:
  assumes h: "get_hop c hop = Done n" and w: "hop_windows W G n" and r: "has_room c hop"
  shows "case hop_ccontrol n of None \<Rightarrow> 0 < package_window n | Some cc \<Rightarrow> Suc (unat (cc_inflight cc)) < 2 ^ 64"
proof (cases "hop_ccontrol n")
  case None
  then show ?thesis
    using room_iff [OF h w] r w by (simp add: hop_flight_def hop_limit_def hop_windows_def CIRCWINDOW_START_MAX_def)
next
  case (Some cc)
  have "cc_cwnd cc \<le> 2147483647" using w Some by (simp add: hop_windows_def cc_ok_def)
  then have "unat (cc_cwnd cc) \<le> 2147483647" by (simp add: word_le_nat_alt)
  then show ?thesis using room_iff [OF h w] r Some by (simp add: hop_flight_def hop_limit_def)
qed

lemma sent_for_flight:
  assumes h: "get_hop c hop = Done n" and w: "hop_windows W G n"
    and f: "case hop_ccontrol n of None \<Rightarrow> 0 < package_window n | Some cc \<Rightarrow> Suc (unat (cc_inflight cc)) < 2 ^ 64"
  shows "circuit_sent_cell_for_sendme c (Some hop) = Done (hop_inc n dvd Suc (hop_flight W n))"
proof (cases "hop_ccontrol n")
  case None
  let ?w = "package_window n"
  have w: "100 \<le> W" "W \<le> 1000" "W mod 100 = 0" "0 < ?w" "?w \<le> W"
    using w f None by (simp_all add: hop_windows_def CIRCWINDOW_START_MAX_def CIRCWINDOW_INCREMENT_def)
  obtain k m where k: "?w = int k + 1" "W = 100 * int m" "k < 100 * m"
    using w by (intro that [of "nat (?w - 1)" "nat (W div 100)"]) auto
  have "(?w - 1) mod 100 = int (k mod 100)" using k(1) by (simp add: zmod_int)
  moreover have "Suc (nat (W - ?w)) = 100 * m - k" using k by auto
  moreover have "k mod 100 = 0 \<longleftrightarrow> 100 dvd 100 * m - k" using k(3) by presburger
  ultimately have iff: "c_mod (?w - 1) CIRCWINDOW_INCREMENT = 0 \<longleftrightarrow> hop_inc n dvd Suc (hop_flight W n)"
    using w(4) None by (simp add: c_mod_def CIRCWINDOW_INCREMENT_def hop_inc_def hop_flight_def)
  have "\<not> hop_inc n dvd Suc (hop_flight W n)" if "?w = CIRCWINDOW_START"
    using w that None by (simp add: CIRCWINDOW_START_def hop_inc_def hop_flight_def)
  then show ?thesis using h None iff by (auto simp: circuit_sent_cell_for_sendme_def package_state_def)
next
  case (Some cc)
  have i: "2 \<le> unat (cc_sendme_inc cc)" using w Some by (simp add: hop_windows_def)
  then have i0: "cc_sendme_inc cc \<noteq> 0" by auto
  have f: "Suc (unat (cc_inflight cc)) < 2 ^ 64" using f Some by simp
  then have s: "unat (cc_inflight cc + 1) = Suc (unat (cc_inflight cc))"
    using unatSuc [of "cc_inflight cc"] by (simp add: sat_sum_unat)
  have u: "unat (ucast (cc_sendme_inc cc) :: u64) = unat (cc_sendme_inc cc)"
    using unsigned_less [of "cc_sendme_inc cc", where ?'a = nat] by (simp add: unsigned_ucast_eq take_bit_nat_eq_self)
  have "(cc_inflight cc + 1) mod ucast (cc_sendme_inc cc) = 0 \<longleftrightarrow>
      unat (cc_sendme_inc cc) dvd Suc (unat (cc_inflight cc))"
    by (simp add: unat_eq_0 [symmetric] unat_mod_distrib s u dvd_eq_mod_eq_0 del: unat_eq_0)
  moreover have "\<not> unat (cc_sendme_inc cc) dvd Suc 0" using i by simp
  ultimately show ?thesis
    using h Some i0
    by (auto simp: circuit_sent_cell_for_sendme_def package_state_def hop_inc_def hop_flight_def)
qed

text \<open>
  A DATA cell at the sender, as \<open>relay_send_command_from_edge\<close> and \<open>relay_encrypt_cell_outbound\<close> do it
  up to the layers of encryption; \<open>data_cell\<close> is what the caller, the random generator and the clock
  give. The result is the signed payload, which is what the hop finds under its layer.
\<close>

record data_cell =
  dc_rng :: "nat \<Rightarrow> byte list"
  dc_now :: u64
  dc_stream :: u16
  dc_data :: "byte list"

definition fits_cell :: "data_cell \<Rightarrow> bool" where
  "fits_cell m \<longleftrightarrow> length (dc_data m) \<le> RELAY_PAYLOAD_SIZE \<and> (\<forall>n. length (dc_rng m n) = n)"

type_synonym ('c, 'd, 'k, 'm) client_end = "('c, 'd) circuit \<times> cc_globals \<times> ('k, 'm) conflux option"

definition sign_data ::
  "('c, 'd) prims \<Rightarrow> nat \<Rightarrow> ('c, 'd) circuit \<Rightarrow> byte list \<Rightarrow> (('c, 'd) circuit \<times> byte list) outcome" where
  "sign_data P hop c pl =
     obind (get_hop c hop) (\<lambda>n.
     obind (cpath_set_cell_forward_digest P n pl) (\<lambda>(n', pl').
     obind (update_hop c hop (\<lambda>_. Done n')) (\<lambda>c.
     obind (sendme_record_sending_cell_digest P c (Some hop)) (\<lambda>c. Done (c, pl')))))"

definition client_sends_data ::
  "('c, 'd) prims \<Rightarrow> nat \<Rightarrow> data_cell \<Rightarrow> ('c, 'd, 'k, 'm) client_end \<Rightarrow> (('c, 'd, 'k, 'm) client_end \<times> byte list) outcome" where
  "client_sends_data P hop m = (\<lambda>(c, G, f).
     obind (relay_cell_payload (dc_rng m) (dc_stream m) CMD_DATA (dc_data m)) (\<lambda>pl.
     obind (sign_data P hop c pl) (\<lambda>(c, pl').
     obind (sendme_record_cell_digest_on_circ c (Some hop)) (\<lambda>c.
     obind (sendme_note_circuit_data_packaged (dc_now m) c (Some hop)) (\<lambda>(w, c).
       if w < 0 then Fail else Done ((c, G, f), pl'))))))"

definition client_gets_sendme ::
  "string list option \<Rightarrow> 'k \<Rightarrow> nat \<Rightarrow> queue_view \<Rightarrow> byte list \<Rightarrow> ('c, 'd, 'k, 'm) client_end \<Rightarrow>
     (('c, 'd, 'k, 'm) client_end \<times> int) outcome" where
  "client_gets_sendme ns cid hop q x = (\<lambda>(c, G, f).
     obind (sendme_process_circuit_level ns G q f cid (Some hop) c x) (\<lambda>(c, G, f, ret). Done ((c, G, f), ret)))"

definition the_hop :: "('c, 'd) circuit \<Rightarrow> nat \<Rightarrow> ('c, 'd) crypt_path" where
  "the_hop c hop = (case kind c of Origin oc \<Rightarrow> the (hops oc hop) | Or _ \<Rightarrow> undefined)"

lemma the_hop_eq: "get_hop c hop = Done n \<Longrightarrow> the_hop c hop = n"
  by (auto simp: get_hop_def with_origin_def the_hop_def deref_def split: circuit_kind.splits option.splits)

definition hop_digest :: "('c, 'd) crypt_path \<Rightarrow> 'd" where
  "hop_digest n = the (f_digest (pvt_crypto n))"

text \<open>What absorbing a payload does to a digest, and what is read from it.\<close>

definition absorb_payload :: "('c, 'd) prims \<Rightarrow> 'd \<Rightarrow> byte list \<Rightarrow> 'd" where
  "absorb_payload P d x = digest_add P d (zeroed x)"

definition read_digest :: "('c, 'd) prims \<Rightarrow> 'd \<Rightarrow> byte list" where
  "read_digest P d = digest_get P d DIGEST_LEN"

definition genuine_payload :: "('c, 'd) prims \<Rightarrow> 'd \<Rightarrow> byte list \<Rightarrow> bool" where
  "genuine_payload P d x \<longleftrightarrow> length x = CELL_PAYLOAD_SIZE \<and> recognized_of x = 0 \<and> accepts P d x"

definition sender_ok :: "int \<Rightarrow> ('c, 'd) prims \<Rightarrow> nat \<Rightarrow> ('c, 'd, 'k, 'm) client_end \<Rightarrow> bool" where
  "sender_ok W P hop = (\<lambda>(c, G, f). digest_length P \<and> (\<forall>d. length (read_digest P d) = DIGEST_LEN) \<and>
     (\<exists>n. get_hop c hop = Done n \<and> f_digest (pvt_crypto n) \<noteq> None \<and> hop_windows W G n))"

lemma data_payload:
  assumes "fits_cell m"
  obtains pl where "relay_cell_payload (dc_rng m) (dc_stream m) CMD_DATA (dc_data m) = Done pl"
    "length pl = CELL_PAYLOAD_SIZE" "recognized_of pl = 0" "integrity_of pl = [0, 0, 0, 0]"
proof -
  obtain pl where pl: "relay_cell_payload (dc_rng m) (dc_stream m) CMD_DATA (dc_data m) = Done pl" "length pl = CELL_PAYLOAD_SIZE"
    "relay_header_unpack pl = \<lparr>rh_command = CMD_DATA, rh_recognized = 0, rh_stream_id = dc_stream m,
      rh_integrity = [0, 0, 0, 0], rh_length = of_nat (length (dc_data m))\<rparr>"
    using relay_cell_payload_eq [of "dc_data m" "dc_rng m" "dc_stream m" CMD_DATA] assms by (auto simp: fits_cell_def)
  have "recognized_of pl = 0" "integrity_of pl = [0, 0, 0, 0]"
    using pl(3) by (simp_all add: relay_header_unpack_def recognized_of_def integrity_of_def)
  then show thesis using that pl(1,2) by blast
qed

lemma sign_data_eq:
  assumes n: "get_hop c hop = Done n" "f_digest (pvt_crypto n) = Some d"
    and pl: "length pl = CELL_PAYLOAD_SIZE" "recognized_of pl = 0" "integrity_of pl = [0, 0, 0, 0]"
    and P: "digest_length P" and b: "circuit_sent_cell_for_sendme c (Some hop) = Done b"
  obtains c' x k where "sign_data P hop c pl = Done (c', x)" "get_hop c' hop = Done (n\<lparr>pvt_crypto := k\<rparr>)"
    "f_digest k = Some (absorb_payload P d x)" "b \<longrightarrow> sendme_digest k = read_digest P (absorb_payload P d x)"
    "genuine_payload P d x" "digests_of c' = digests_of c" "circuit_sent_cell_for_sendme c' (Some hop) = Done b"
proof -
  let ?d = "digest_add P d pl" and ?x = "with_integrity pl (digest_get P (digest_add P d pl) 4)"
  let ?k = "(pvt_crypto n)\<lparr>f_digest := Some ?d\<rparr>"
  have x: "accepts P d ?x" "zeroed ?x = pl" using accepts_own [OF pl(1) P pl(2,3)] by blast+
  have l: "length ?x = CELL_PAYLOAD_SIZE" using pl(1) P by (simp add: digest_length_def)
  have rx: "recognized_of ?x = 0" using pl P by (simp add: digest_length_def)
  have set: "cpath_set_cell_forward_digest P n pl = Done (n\<lparr>pvt_crypto := ?k\<rparr>, ?x)"
    using set_digest_eq [OF pl(1), of P d] n(2) by (simp add: cpath_set_cell_forward_digest_def)
  obtain c1 where c1: "update_hop c hop (\<lambda>_. Done (n\<lparr>pvt_crypto := ?k\<rparr>)) = Done c1"
    "get_hop c1 hop = Done (n\<lparr>pvt_crypto := ?k\<rparr>)" "digests_of c1 = digests_of c"
    using hop_update [OF n(1), of "\<lambda>_. Done (n\<lparr>pvt_crypto := ?k\<rparr>)"] by blast
  have same: "circuit_sent_cell_for_sendme c' (Some hop) = Done b" if "get_hop c' hop = Done (n\<lparr>pvt_crypto := k\<rparr>)" for c' k
    using that b n(1) by (simp add: circuit_sent_cell_for_sendme_def package_state_def)
  have g: "genuine_payload P d ?x" "absorb_payload P d ?x = ?d"
    using x l rx by (simp_all add: genuine_payload_def absorb_payload_def)
  show thesis
  proof (cases b)
    case False
    then have "sign_data P hop c pl = Done (c1, ?x)"
      using n(1) set c1(1) same [OF c1(2)] by (simp add: sign_data_def sendme_record_sending_cell_digest_def)
    then show thesis using that c1(2,3) g same [OF c1(2)] False by simp
  next
    case True
    let ?k2 = "?k\<lparr>sendme_digest := digest_get P ?d DIGEST_LEN\<rparr>"
    have f: "cpath_sendme_record_cell_digest P True (n\<lparr>pvt_crypto := ?k\<rparr>) = Done (n\<lparr>pvt_crypto := ?k2\<rparr>)"
      by (simp add: cpath_sendme_record_cell_digest_def relay_crypto_record_sendme_digest_def)
    obtain c2 where c2: "update_hop c1 hop (cpath_sendme_record_cell_digest P True) = Done c2"
      "get_hop c2 hop = Done (n\<lparr>pvt_crypto := ?k2\<rparr>)" "digests_of c2 = digests_of c1"
      using hop_update [where f = "cpath_sendme_record_cell_digest P True", OF c1(2) f] by blast
    have "sign_data P hop c pl = Done (c2, ?x)"
      using n(1) set c1(1) c2(1) same [OF c1(2)] True by (simp add: sign_data_def sendme_record_sending_cell_digest_def)
    then show thesis using that [of c2 ?x ?k2] c2(2,3) c1(3) g same [OF c2(2)] by (simp add: read_digest_def)
  qed
qed

lemma package_window_nonneg:
  assumes "get_hop c hop = Done n" "hop_ccontrol n = None \<longrightarrow> 0 \<le> package_window n"
  shows "\<exists>w. congestion_control_get_package_window c (Some hop) = Done w \<and> 0 \<le> w"
  using assms
  by (cases "hop_ccontrol n") (auto simp: congestion_control_get_package_window_def package_state_def INT32_MAX_def)

lemma note_packaged_hop:
  assumes h: "get_hop c hop = Done n" and w: "hop_windows W G n"
    and f: "case hop_ccontrol n of None \<Rightarrow> 0 < package_window n | Some cc \<Rightarrow> Suc (unat (cc_inflight cc)) < 2 ^ 64"
  obtains wd c' n' where "sendme_note_circuit_data_packaged now c (Some hop) = Done (wd, c')" "0 \<le> wd"
    "get_hop c' hop = Done n'" "hop_windows W G n'" "hop_inc n' = hop_inc n" "hop_flight W n' = Suc (hop_flight W n)"
    "hop_limit W n' = hop_limit W n" "pvt_crypto n' = pvt_crypto n" "digests_of c' = digests_of c"
proof (cases "hop_ccontrol n")
  case None
  let ?f = "\<lambda>n. Done (n\<lparr>package_window := package_window n - 1\<rparr>)"
  let ?n = "n\<lparr>package_window := package_window n - 1\<rparr>"
  obtain c' where c': "update_hop c hop ?f = Done c'" "get_hop c' hop = Done ?n" "digests_of c' = digests_of c"
    using hop_update [where f = ?f, OF h refl] by blast
  have pos: "0 < package_window n" "package_window n \<le> 1000" "package_window n \<le> W"
    using f w None by (simp_all add: hop_windows_def CIRCWINDOW_START_MAX_def)
  have nonneg: "hop_ccontrol ?n = None \<longrightarrow> 0 \<le> package_window ?n" using pos(1) by simp
  obtain wd where wd: "congestion_control_get_package_window c' (Some hop) = Done wd" "0 \<le> wd"
    using package_window_nonneg [OF c'(2) nonneg] by blast
  have "sendme_note_circuit_data_packaged now c (Some hop) = Done (wd, c')"
    using h None c'(1) wd(1) hop_origin [OF h] by (simp add: sendme_note_circuit_data_packaged_def package_state_def)
  moreover have "hop_flight W ?n = Suc (hop_flight W n)"
    using None pos by (simp add: hop_flight_def CIRCWINDOW_START_MAX_def nat_diff_distrib)
  ultimately show thesis
    using that [OF _ wd(2) c'(2)] c'(3) None pos w by (simp add: hop_windows_def hop_inc_def hop_limit_def CIRCWINDOW_START_MAX_def)
next
  case (Some cc)
  note b = sent_for_flight [OF h w f]
  let ?b = "hop_inc n dvd Suc (hop_flight W n)"
  let ?cc = "if \<not> ?b then cc\<lparr>cc_inflight := cc_inflight cc + 1\<rparr>
    else cc\<lparr>cc_inflight := cc_inflight cc + 1, sendme_pending_timestamps := enqueue_timestamp (sendme_pending_timestamps cc) now\<rparr>"
  let ?f = "\<lambda>n. Done (n\<lparr>hop_ccontrol := Some ?cc\<rparr>)"
  let ?n = "n\<lparr>hop_ccontrol := Some ?cc\<rparr>"
  obtain c' where c': "update_hop c hop ?f = Done c'" "get_hop c' hop = Done ?n" "digests_of c' = digests_of c"
    using hop_update [where f = ?f, OF h refl] by blast
  obtain wd where wd: "congestion_control_get_package_window c' (Some hop) = Done wd" "0 \<le> wd"
    using package_window_nonneg [OF c'(2)] by auto
  have "sendme_note_circuit_data_packaged now c (Some hop) = Done (wd, c')"
    using h Some b c'(1) wd(1)
    by (simp add: sendme_note_circuit_data_packaged_def package_state_def congestion_control_note_cell_sent_def set_ccontrol_def
        Let_def split del: if_split cong: if_cong)
  moreover have fl: "unat (cc_inflight cc + 1) = Suc (unat (cc_inflight cc))" using f Some by (simp add: sat_sum_unat)
  moreover have "length (sendme_pending_timestamps ?cc) = unat (cc_inflight ?cc) div unat (cc_sendme_inc ?cc)"
    using w Some fl by (simp add: hop_windows_def hop_inc_def hop_flight_def enqueue_timestamp_def div_Suc dvd_eq_mod_eq_0)
  ultimately show thesis
    using that [OF _ wd(2) c'(2)] c'(3) Some w
    by (simp add: hop_windows_def hop_inc_def hop_flight_def hop_limit_def cc_ok_def)
qed

lemma record_on_circ_hop:
  assumes h: "get_hop c hop = Done n" and b: "circuit_sent_cell_for_sendme c (Some hop) = Done b"
    and dg: "sendme_digest (pvt_crypto n) = dg"
  obtains c' where "sendme_record_cell_digest_on_circ c (Some hop) = Done c'" "get_hop c' hop = Done n"
    "digests_of c' = digests_of c @ (if b then [take DIGEST_LEN dg] else [])"
proof (cases b)
  case True
  let ?c = "record_cell_digest_on_circ c (sendme_digest (pvt_crypto n))"
  have "get_hop ?c hop = Done n" using h by (simp add: record_cell_digest_on_circ_def get_hop_def with_origin_def Let_def)
  moreover have "digests_of ?c = digests_of c @ [take DIGEST_LEN (sendme_digest (pvt_crypto n))]"
    by (simp add: record_cell_digest_on_circ_def digests_of_def Let_def)
  ultimately show thesis
    using that [of ?c] b h dg True by (simp add: sendme_record_cell_digest_on_circ_def sendme_digest_of_def)
qed (use that [of c] b h in \<open>simp add: sendme_record_cell_digest_on_circ_def\<close>)

lemma client_send_law:
  fixes s :: "('c, 'd, 'k, 'm) client_end"
  assumes ok: "sender_ok W P hop s" and room: "has_room (fst s) hop" and m: "fits_cell m"
  shows "\<exists>s' x. client_sends_data P hop m s = Done (s', x) \<and> sender_ok W P hop s' \<and>
    hop_inc (the_hop (fst s') hop) = hop_inc (the_hop (fst s) hop) \<and>
    hop_limit W (the_hop (fst s') hop) = hop_limit W (the_hop (fst s) hop) \<and>
    hop_flight W (the_hop (fst s') hop) = Suc (hop_flight W (the_hop (fst s) hop)) \<and>
    genuine_payload P (hop_digest (the_hop (fst s) hop)) x \<and>
    hop_digest (the_hop (fst s') hop) = absorb_payload P (hop_digest (the_hop (fst s) hop)) x \<and>
    digests_of (fst s') = digests_of (fst s) @
      (if hop_inc (the_hop (fst s) hop) dvd Suc (hop_flight W (the_hop (fst s) hop))
       then [read_digest P (hop_digest (the_hop (fst s') hop))] else [])"
proof -
  obtain c G f where s: "s = (c, G, f)" by (cases s)
  obtain n d where n: "get_hop c hop = Done n" "f_digest (pvt_crypto n) = Some d" "hop_windows W G n"
    and P: "digest_length P" "\<And>d. length (read_digest P d) = DIGEST_LEN" using ok s by (auto simp: sender_ok_def)
  have fl: "case hop_ccontrol n of None \<Rightarrow> 0 < package_window n | Some cc \<Rightarrow> Suc (unat (cc_inflight cc)) < 2 ^ 64"
    using room_flight [OF n(1,3)] room s by simp
  define b where "b = (hop_inc n dvd Suc (hop_flight W n))"
  have b: "circuit_sent_cell_for_sendme c (Some hop) = Done b" using sent_for_flight [OF n(1,3) fl] by (simp add: b_def)
  obtain pl where pl: "relay_cell_payload (dc_rng m) (dc_stream m) CMD_DATA (dc_data m) = Done pl"
    "length pl = CELL_PAYLOAD_SIZE" "recognized_of pl = 0" "integrity_of pl = [0, 0, 0, 0]" using data_payload [OF m] .
  obtain c1 x k where c1: "sign_data P hop c pl = Done (c1, x)" "get_hop c1 hop = Done (n\<lparr>pvt_crypto := k\<rparr>)"
    "f_digest k = Some (absorb_payload P d x)" "b \<longrightarrow> sendme_digest k = read_digest P (absorb_payload P d x)"
    "genuine_payload P d x" "digests_of c1 = digests_of c" "circuit_sent_cell_for_sendme c1 (Some hop) = Done b"
    by (rule sign_data_eq [OF n(1,2) pl(2-4) P(1) b])
  obtain c2 where c2: "sendme_record_cell_digest_on_circ c1 (Some hop) = Done c2" "get_hop c2 hop = Done (n\<lparr>pvt_crypto := k\<rparr>)"
    "digests_of c2 = digests_of c1 @ (if b then [take DIGEST_LEN (sendme_digest k)] else [])"
    by (rule record_on_circ_hop [where dg = "sendme_digest k", OF c1(2,7)]) simp_all
  define n2 where "n2 = n\<lparr>pvt_crypto := k\<rparr>"
  have w2: "hop_windows W G n2" "hop_inc n2 = hop_inc n" "hop_flight W n2 = hop_flight W n"
    "hop_limit W n2 = hop_limit W n" "pvt_crypto n2 = k"
    using n(3) by (simp_all add: n2_def hop_windows_def hop_inc_def hop_flight_def hop_limit_def split: option.splits)
  have fl2: "case hop_ccontrol n2 of None \<Rightarrow> 0 < package_window n2 | Some cc \<Rightarrow> Suc (unat (cc_inflight cc)) < 2 ^ 64"
    using fl by (simp add: n2_def split: option.splits)
  obtain wd c3 n3 where c3: "sendme_note_circuit_data_packaged (dc_now m) c2 (Some hop) = Done (wd, c3)" "0 \<le> wd"
    "get_hop c3 hop = Done n3" "hop_windows W G n3" "hop_inc n3 = hop_inc n" "hop_flight W n3 = Suc (hop_flight W n)"
    "hop_limit W n3 = hop_limit W n" "pvt_crypto n3 = k" "digests_of c3 = digests_of c2"
    by (rule note_packaged_hop [OF c2(2) [folded n2_def] w2(1) fl2, unfolded w2(2-5)])
  have run: "client_sends_data P hop m s = Done ((c3, G, f), x)"
    using pl(1) c1(1) c2(1) c3(1,2) s by (simp add: client_sends_data_def)
  have rec: "b \<Longrightarrow> take DIGEST_LEN (sendme_digest k) = read_digest P (absorb_payload P d x)" using c1(4) P(2) by simp
  have hops: "the_hop (fst s) hop = n" "the_hop c3 hop = n3" using s the_hop_eq [OF n(1)] the_hop_eq [OF c3(3)] by simp_all
  have digs: "hop_digest n = d" "hop_digest n3 = absorb_payload P d x" using n(2) c1(3) c3(8) by (simp_all add: hop_digest_def)
  have "sender_ok W P hop (c3, G, f)" using P c1(3) c3(3,4,8) by (simp add: sender_ok_def)
  moreover have "digests_of c3 = digests_of (fst s) @ (if b then [read_digest P (absorb_payload P d x)] else [])"
    using s c1(6) c2(3) c3(9) rec by (cases b) simp_all
  ultimately show ?thesis
    using run c1(5) c3(5-7) unfolding hops b_def [symmetric]
    by (intro exI [of _ "(c3, G, f)"] exI [of _ x]) (simp add: hops digs b_def)
qed

text \<open>
  A valid SENDME at the client, without and with congestion control at the hop: with it, a clock that
  is not sane may stop the process.
\<close>

definition timely_hop :: "queue_view \<Rightarrow> ('c, 'd) crypt_path \<Rightarrow> bool" where
  "timely_hop q n = (case hop_ccontrol n of None \<Rightarrow> True | Some cc \<Rightarrow> clock_sane cc (now_usec q))"

definition acked where
  "acked W ns G q f cid hop c x n ds \<longleftrightarrow>
     (sendme_process_circuit_level ns G q f cid (Some hop) c x = Stuck \<and> \<not> timely_hop q n) \<or>
     (\<exists>c' G' f' n'. sendme_process_circuit_level ns G q f cid (Some hop) c x = Done (c', G', f', 0) \<and>
        get_hop c' hop = Done n' \<and> pvt_crypto n' = pvt_crypto n \<and> hop_windows W G' n' \<and> hop_inc n' = hop_inc n \<and>
        hop_flight W n' = hop_flight W n - hop_inc n \<and> digests_of c' = ds)"

lemma acked_window:
  assumes "sendme_is_valid ns c x = Done (True, c1)" "get_hop c1 hop = Done n" "digests_of c1 = ds"
    and "hop_windows W G n" "hop_inc n \<le> hop_flight W n" and None: "hop_ccontrol n = None"
  shows "acked W ns G q f cid hop c x n ds"
proof -
  have w: "0 \<le> package_window n" "package_window n + 100 \<le> W" "W \<le> 1000" "W mod 100 = 0"
    using assms(4,5) None by (auto simp: hop_windows_def hop_inc_def hop_flight_def CIRCWINDOW_START_MAX_def CIRCWINDOW_INCREMENT_def)
  let ?f = "\<lambda>n. Done (n\<lparr>package_window := package_window n + CIRCWINDOW_INCREMENT\<rparr>)"
  let ?n = "n\<lparr>package_window := package_window n + CIRCWINDOW_INCREMENT\<rparr>"
  obtain c' where c': "update_hop c1 hop ?f = Done c'" "get_hop c' hop = Done ?n" "digests_of c' = ds"
    using hop_update [where f = ?f, OF assms(2) refl] assms(3) by auto
  have "sendme_process_circuit_level ns G q f cid (Some hop) c x = Done (c', G, f, 0)"
    using assms(1,2) None w c'(1) hop_origin [OF assms(2)]
    by (simp add: sendme_process_circuit_level_def package_state_def sendme_process_circuit_level_impl_def
        CIRCWINDOW_INCREMENT_def CIRCWINDOW_START_MAX_def)
  then show ?thesis
    using c'(2,3) w None unfolding acked_def
    by (auto simp: hop_windows_def hop_inc_def hop_flight_def CIRCWINDOW_INCREMENT_def CIRCWINDOW_START_MAX_def
        nat_diff_distrib)
qed

lemma acked_ccontrol:
  assumes "sendme_is_valid ns c x = Done (True, c1)" "get_hop c1 hop = Done n" "digests_of c1 = ds"
    and "hop_windows W G n" "hop_inc n \<le> hop_flight W n" and Some: "hop_ccontrol n = Some cc"
  shows "acked W ns G q f cid hop c x n ds"
proof -
  have cok: "cc_ok G cc" and i: "2 \<le> unat (cc_sendme_inc cc)"
    and ts: "length (sendme_pending_timestamps cc) = unat (cc_inflight cc) div unat (cc_sendme_inc cc)"
    using assms(4) Some by (simp_all add: hop_windows_def)
  have le: "unat (cc_sendme_inc cc) \<le> unat (cc_inflight cc)" using assms(5) Some by (simp add: hop_inc_def hop_flight_def)
  have valid: "sendme_process_circuit_level ns G q f cid (Some hop) c x =
      obind (congestion_control_dispatch_cc_alg G cc q f cid) (\<lambda>(cc, G, cfx).
        obind (set_ccontrol c1 (Some hop) cc) (\<lambda>circ. Done (circ, G, cfx, 0)))"
    using assms(1,2) Some by (simp add: sendme_process_circuit_level_def package_state_def)
  consider (stuck) "congestion_control_dispatch_cc_alg G cc q f cid = Stuck" "\<not> clock_sane cc (now_usec q)"
    | (ends) cc' G' f' where "congestion_control_dispatch_cc_alg G cc q f cid = Done (cc', G', f')" "cc_ok G' cc'"
      "cc_inflight cc' = cc_inflight cc - ucast (cc_sendme_inc cc)"
      "sendme_pending_timestamps cc' = tl (sendme_pending_timestamps cc)" "same_params cc cc'"
    using dispatch_sound [OF cok, of q f cid] by (cases "congestion_control_dispatch_cc_alg G cc q f cid") auto
  then show ?thesis
  proof cases
    case stuck
    then show ?thesis using valid Some by (simp add: acked_def timely_hop_def)
  next
    case d: (ends cc' G' f')
    have u: "unat (ucast (cc_sendme_inc cc) :: u64) = unat (cc_sendme_inc cc)"
      using unsigned_less [of "cc_sendme_inc cc", where ?'a = nat] by (simp add: unsigned_ucast_eq take_bit_nat_eq_self)
    have fl': "unat (cc_inflight cc') = unat (cc_inflight cc) - unat (cc_sendme_inc cc)"
      using le u d(3) by (simp add: unat_sub word_le_nat_alt)
    have inc': "cc_sendme_inc cc' = cc_sendme_inc cc" using d(5) by (simp add: same_params_def)
    have ts': "length (sendme_pending_timestamps cc') = unat (cc_inflight cc') div unat (cc_sendme_inc cc')"
      using ts d(4) fl' inc' i le by (simp add: le_div_geq)
    let ?f = "\<lambda>n. Done (n\<lparr>hop_ccontrol := Some cc'\<rparr>)" and ?n = "n\<lparr>hop_ccontrol := Some cc'\<rparr>"
    obtain c' where c': "update_hop c1 hop ?f = Done c'" "get_hop c' hop = Done ?n" "digests_of c' = ds"
      using hop_update [where f = ?f, OF assms(2) refl] assms(3) by auto
    have "sendme_process_circuit_level ns G q f cid (Some hop) c x = Done (c', G', f', 0)"
      using valid d(1) c'(1) by (simp add: set_ccontrol_def)
    then show ?thesis
      using c'(2,3) Some d(2) assms(4) ts' i inc' fl' unfolding acked_def
      by (auto simp: hop_windows_def hop_inc_def hop_flight_def)
  qed
qed

lemma client_ack_law:
  fixes s :: "('c, 'd, 'k, 'm) client_end"
  assumes ok: "sender_ok W P hop s" and dg: "digests_of (fst s) = d # ds"
    and fl: "hop_inc (the_hop (fst s) hop) \<le> hop_flight W (the_hop (fst s) hop)" and x: "answers ns x d"
  shows "(\<exists>s'. client_gets_sendme ns cid hop q x s = Done (s', 0) \<and> sender_ok W P hop s' \<and>
    hop_inc (the_hop (fst s') hop) = hop_inc (the_hop (fst s) hop) \<and>
    hop_flight W (the_hop (fst s') hop) = hop_flight W (the_hop (fst s) hop) - hop_inc (the_hop (fst s) hop) \<and>
    hop_digest (the_hop (fst s') hop) = hop_digest (the_hop (fst s) hop) \<and> digests_of (fst s') = ds) \<or>
    (client_gets_sendme ns cid hop q x s = Stuck \<and> \<not> timely_hop q (the_hop (fst s) hop))"
proof -
  obtain c G f where s: "s = (c, G, f)" by (cases s)
  obtain n where n: "get_hop c hop = Done n" "f_digest (pvt_crypto n) \<noteq> None" "hop_windows W G n"
    and P: "digest_length P" "\<And>d. length (read_digest P d) = DIGEST_LEN" using ok s by (auto simp: sender_ok_def)
  let ?c = "c\<lparr>sendme_last_digests := Some ds\<rparr>"
  have valid: "sendme_is_valid ns c x = Done (True, ?c)"
    using valid_answer [OF x, of c ds] dg s by (simp add: digests_of_def split: option.splits)
  have h: "get_hop ?c hop = Done n" using n(1) by (simp add: get_hop_def with_origin_def)
  have dc: "digests_of ?c = ds" by (simp add: digests_of_def)
  have hop: "the_hop (fst s) hop = n" using s the_hop_eq [OF n(1)] by simp
  note prems = valid h dc n(3) fl [unfolded hop]
  have "acked W ns G q f cid hop c x n ds"
    by (cases "hop_ccontrol n") (rule acked_window [OF prems] acked_ccontrol [OF prems], assumption)+
  then consider (stuck) "sendme_process_circuit_level ns G q f cid (Some hop) c x = Stuck" "\<not> timely_hop q n"
    | (ends) c' G' f' n' where "sendme_process_circuit_level ns G q f cid (Some hop) c x = Done (c', G', f', 0)"
      "get_hop c' hop = Done n'" "pvt_crypto n' = pvt_crypto n" "hop_windows W G' n'" "hop_inc n' = hop_inc n"
      "hop_flight W n' = hop_flight W n - hop_inc n" "digests_of c' = ds" unfolding acked_def by blast
  then show ?thesis
  proof cases
    case stuck
    then show ?thesis using s hop by (simp add: client_gets_sendme_def)
  next
    case r: (ends c' G' f' n')
    have "client_gets_sendme ns cid hop q x s = Done ((c', G', f'), 0)" using r(1) s by (simp add: client_gets_sendme_def)
    moreover have "sender_ok W P hop (c', G', f')" using P n(2) r(2-4) by (simp add: sender_ok_def)
    ultimately show ?thesis
      using r(3,5-7) hop the_hop_eq [OF r(2)] by (intro disjI1 exI [of _ "(c', G', f')"]) (simp add: hop_digest_def)
  qed
qed

section \<open>The relay as a receiver\<close>

text \<open>
  A relay that takes a DATA cell, from the payload its layer of decryption leaves: the digest is
  checked as \<open>relay_decrypt_cell\<close> does, then \<open>circuit_receive_relay_cell\<close> and
  \<open>connection_edge_process_relay_cell\<close> record it, count it and consider a SENDME. A payload that is
  not recognised and a window below zero are failures.
\<close>

record relay_env =
  re_rng :: "nat \<Rightarrow> byte list"
  re_now :: u64
  re_queued :: int

definition relay_fine :: "relay_env \<Rightarrow> bool" where
  "relay_fine e \<longleftrightarrow> re_queued e > 0 \<and> (\<forall>n. length (re_rng e n) = n)"

definition relay_counts_data ::
  "('c, 'd) prims \<Rightarrow> byte list \<Rightarrow> ('c, 'd) circuit \<Rightarrow> ('c, 'd) circuit outcome" where
  "relay_counts_data P x r =
     with_or r (\<lambda>rp.
     obind (relay_digest_matches P (f_digest (or_crypto rp)) x) (\<lambda>(matches, d, _).
       if \<not> matches then Fail
       else obind (update_or_crypto r (\<lambda>k. Done (k\<lparr>f_digest := d\<rparr>))) (\<lambda>r.
            obind (sendme_record_received_cell_digest P r None) (\<lambda>r.
            obind (sendme_circuit_data_received r None) (\<lambda>(w, r). if w < 0 then Fail else Done r)))))"

text \<open>What it sends back. A call that does not return has no value, here \<open>Stuck\<close>.\<close>

definition relay_gets_data ::
  "('c, 'd) prims \<Rightarrow> string list option \<Rightarrow> relay_env \<Rightarrow> byte list \<Rightarrow> ('c, 'd) circuit \<Rightarrow>
     (('c, 'd) circuit \<times> byte list list) outcome" where
  "relay_gets_data P ns e x r =
     obind (relay_counts_data P x r) (\<lambda>r.
       case sendme_circuit_consider_sending P (re_rng e) (re_now e) (re_queued e) ns r None of
         None \<Rightarrow> Stuck
       | Some res \<Rightarrow> obind res (\<lambda>(r, sent). Done (r, map fst sent)))"

definition relay_inc :: "('c, 'd) circuit \<Rightarrow> nat" where
  "relay_inc r = (case circ_ccontrol r of None \<Rightarrow> 100 | Some cc \<Rightarrow> unat (cc_sendme_inc cc))"

text \<open>The cells since the last SENDME.\<close>

definition relay_count :: "('c, 'd) circuit \<Rightarrow> nat" where
  "relay_count r = nat (CIRCWINDOW_START - circ_deliver_window r)"

definition versions_agree :: "string list option \<Rightarrow> string list option \<Rightarrow> bool" where
  "versions_agree nr ns \<longleftrightarrow> (\<exists>v a. get_emit_min_version nr = Done v \<and> get_accept_min_version ns = Done a \<and> a \<le> 1 \<and>
     (v = 1 \<or> a = 0))"

definition receiver_ok ::
  "('c, 'd) prims \<Rightarrow> string list option \<Rightarrow> string list option \<Rightarrow> ('c, 'd) circuit \<Rightarrow> bool" where
  "receiver_ok P nr ns r \<longleftrightarrow> stream_cipher P \<and> digest_length P \<and> (\<forall>d. length (read_digest P d) = DIGEST_LEN) \<and>
     versions_agree nr ns \<and> relay_up r \<and> 2 \<le> relay_inc r \<and>
     CIRCWINDOW_START - int (relay_inc r) < circ_deliver_window r \<and> circ_deliver_window r \<le> CIRCWINDOW_START"

lemma relay_inc_count: "relay_up r \<Longrightarrow> sendme_get_inc_count r None = Done (int (relay_inc r))"
  by (simp add: sendme_get_inc_count_def package_state_def relay_inc_def CIRCWINDOW_INCREMENT_def split: option.splits)

lemma relay_inc_le: "relay_inc r \<le> 255"
proof (cases "circ_ccontrol r")
  case (Some cc)
  then show ?thesis using unsigned_less [of "cc_sendme_inc cc", where ?'a = nat] by (simp add: relay_inc_def)
qed (simp add: relay_inc_def)

lemma sendme_payload_answers:
  assumes v: "versions_agree nr ns" and l: "length d = DIGEST_LEN"
  obtains x where "sendme_payload nr d = Done x" "answers ns x d" "length x \<le> RELAY_PAYLOAD_SIZE"
proof -
  obtain v a where v: "get_emit_min_version nr = Done v" "get_accept_min_version ns = Done a" "a \<le> 1" "v = 1 \<or> a = 0"
    using v by (auto simp: versions_agree_def)
  have l: "TRUNNEL_SENDME_V1_DIGEST_LEN \<le> length d" using l by (simp add: DIGEST_LEN_def TRUNNEL_SENDME_V1_DIGEST_LEN_def)
  show thesis
  proof (cases "v = 1")
    case True
    then show thesis
      using that [of "sendme_v1 d"] v build_v1 [OF l] l
      by (auto simp: sendme_payload_def answers_def sendme_v1_def size_defs TRUNNEL_SENDME_V1_DIGEST_LEN_def)
  next
    case False
    then show thesis using that [of "[]"] v by (simp add: sendme_payload_def answers_def)
  qed
qed

lemma relay_sends_control:
  assumes up: "relay_up r" and P: "stream_cipher P" "digest_length P" and c: "rcmd \<noteq> CMD_DATA"
    and d: "length data \<le> RELAY_PAYLOAD_SIZE" and rng: "\<And>n. length (rng n) = n" and q: "queued > 0"
  obtains k out where "relay_send_command_from_edge P rng now queued sid r rcmd data None = Some (Done (set_relay_keys r k, out, 0))"
    "has_keys k" "f_digest k = f_digest (relay_keys r)"
proof -
  have rc: "relay_circuit r" and m: "marked_for_close r = None" using up by (simp_all add: relay_up_def)
  obtain rec where rec: "circuit_sent_cell_for_sendme r None = Done rec" using relay_sent_for_sendme [OF rc] by blast
  obtain pl where pl: "relay_cell_payload rng sid rcmd data = Done pl" "length pl = CELL_PAYLOAD_SIZE"
    using relay_cell_payload_eq [of data rng sid rcmd] d rng by blast
  let ?k = "b_step P (b_sign P rec pl (relay_keys r))"
  note enc = encrypt_inbound_eq [OF rc P pl(2) rec]
  obtain rp where rp: "kind r = Or rp" using rc by (auto simp: relay_circuit_def)
  obtain rp1 where rp1: "kind (set_relay_keys r ?k) = Or rp1" using rp by (simp add: set_relay_keys_def)
  have "\<exists>out. relay_send_command_from_edge P rng now queued sid r rcmd data None = Some (Done (set_relay_keys r ?k, out, 0))"
    using m enc rc rp rp1 d pl(1) q c
    by (simp add: relay_send_command_from_edge_def circuit_package_relay_cell_def with_or_def)
  moreover have "has_keys ?k" "f_digest ?k = f_digest (relay_keys r)"
    using relay_up_keys [OF up] by (simp_all add: b_step_def b_sign_def Let_def has_keys_def)
  ultimately show thesis using that by blast
qed

lemma relay_round:
  assumes "relay_circuit r"
  shows "sendme_round r None inc = (if \<not> circ_deliver_window r \<le> CIRCWINDOW_START - inc then Done None
    else Done (Some (r\<lparr>circ_deliver_window := circ_deliver_window r + inc\<rparr>, sendme_digest (relay_keys r))))"
  using assms
  by (auto simp: sendme_round_def deliver_window_of_def widen_deliver_window_def sendme_digest_of_def with_or_def
      relay_circuit_def relay_keys_def)

text \<open>A window that is just low enough: one SENDME, and the window is full again.\<close>

lemma relay_considers:
  assumes up: "relay_up r" and P: "stream_cipher P" "digest_length P" and rng: "\<And>n. length (rng n) = n" and q: "queued > 0"
    and w: "circ_deliver_window r = CIRCWINDOW_START - int (relay_inc r)" and i: "0 < relay_inc r"
    and x: "sendme_payload ns (sendme_digest (relay_keys r)) = Done x" "length x \<le> RELAY_PAYLOAD_SIZE"
  obtains k out where "sendme_circuit_consider_sending P rng now queued ns r None =
      Some (Done (set_relay_keys (r\<lparr>circ_deliver_window := CIRCWINDOW_START\<rparr>) k, [(x, out)]))"
    "has_keys k" "f_digest k = f_digest (relay_keys r)"
proof -
  let ?r = "r\<lparr>circ_deliver_window := CIRCWINDOW_START\<rparr>"
  have up': "relay_up ?r" using up by (simp add: relay_up_def relay_circuit_def)
  have rc: "relay_circuit r" "relay_circuit ?r" using up up' by (simp_all add: relay_up_def)
  have k': "relay_keys ?r = relay_keys r" by (simp add: relay_keys_def)
  have cmd: "CMD_SENDME \<noteq> CMD_DATA" by (simp add: CMD_SENDME_def CMD_DATA_def)
  obtain k out where k: "relay_send_command_from_edge P rng now queued 0 ?r CMD_SENDME x None = Some (Done (set_relay_keys ?r k, out, 0))"
    "has_keys k" "f_digest k = f_digest (relay_keys ?r)"
    using relay_sends_control [OF up' P cmd x(2) rng q] .
  have one: "sendme_round r None (int (relay_inc r)) = Done (Some (?r, sendme_digest (relay_keys r)))"
    using relay_round [OF rc(1)] w by simp
  have rk: "relay_circuit (set_relay_keys ?r k)" using rc(2) k(2) by simp
  have two: "sendme_round (set_relay_keys ?r k) None (int (relay_inc r)) = Done None"
    using relay_round [OF rk] i by simp
  have "send_circuit_level_sendme P rng now queued ns ?r None (sendme_digest (relay_keys r)) =
      Some (Done (set_relay_keys ?r k, [(x, out)], 0))"
    using x(1) k(1) by (simp add: send_circuit_level_sendme_def)
  then have "sendme_circuit_consider_sending P rng now queued ns r None = Some (Done (set_relay_keys ?r k, [(x, out)]))"
    using relay_inc_count [OF up] one two by (simp add: sendme_circuit_consider_sending_def sendme_loop.simps)
  then show thesis using that k k' by simp
qed

lemma relay_considers_not:
  assumes up: "relay_up r" and w: "CIRCWINDOW_START - int (relay_inc r) < circ_deliver_window r"
  shows "sendme_circuit_consider_sending P rng now queued ns r None = Some (Done (r, []))"
proof -
  have "relay_circuit r" using up by (simp add: relay_up_def)
  from relay_round [OF this, of "int (relay_inc r)"]
  have "sendme_round r None (int (relay_inc r)) = Done None" using w by simp
  then show ?thesis
    using relay_inc_count [OF up] by (simp add: sendme_circuit_consider_sending_def sendme_loop.simps)
qed

lemma relay_counts_data_eq:
  assumes up: "relay_up r" and P: "digest_length P" and i: "2 \<le> relay_inc r"
    and w: "CIRCWINDOW_START - int (relay_inc r) < circ_deliver_window r"
    and g: "genuine_payload P (the (f_digest (relay_keys r))) x"
  obtains k where "relay_counts_data P x r = Done ((set_relay_keys r k)\<lparr>circ_deliver_window := circ_deliver_window r - 1\<rparr>)"
    "has_keys k" "f_digest k = Some (absorb_payload P (the (f_digest (relay_keys r))) x)"
    "Suc (relay_count r) = relay_inc r \<longrightarrow> sendme_digest k = read_digest P (the (f_digest k))"
proof -
  have rc: "relay_circuit r" and dw: "circ_deliver_window r \<le> CIRCWINDOW_START" using up by (simp_all add: relay_up_def)
  obtain rp where rp: "kind r = Or rp" "has_keys (or_crypto rp)" "relay_keys r = or_crypto rp"
    "\<And>cry. set_relay_keys r cry = r\<lparr>kind := Or (rp\<lparr>or_crypto := cry\<rparr>)\<rparr>" by (rule relay_circuitE [OF rc]) blast
  obtain d where d: "f_digest (or_crypto rp) = Some d" using rp(2) by (auto simp: has_keys_def)
  let ?d = "absorb_payload P d x" and ?next = "Suc (relay_count r) = relay_inc r"
  have m: "\<exists>z. relay_digest_matches P (Some d) x = Done (True, Some ?d, z)"
    using digest_matches_eq [of x P d] g rp(3) d by (simp add: genuine_payload_def absorb_payload_def)
  have cnt: "relay_count r < relay_inc r" "0 \<le> CIRCWINDOW_START - circ_deliver_window r"
    "int (relay_count r) = CIRCWINDOW_START - circ_deliver_window r"
    using w dw by (auto simp: relay_count_def)
  have pos: "0 \<le> circ_deliver_window r - 1" using w relay_inc_le [of r] by (simp add: CIRCWINDOW_START_def)
  have is_next: "circuit_sendme_cell_is_next (circ_deliver_window r) (int (relay_inc r)) = Done ?next"
  proof -
    have "CIRCWINDOW_START - (circ_deliver_window r - 1) = int (Suc (relay_count r))" using cnt(3) by simp
    moreover have "c_mod (int (Suc (relay_count r))) (int (relay_inc r)) = int (Suc (relay_count r) mod relay_inc r)"
      by (simp add: c_mod_def zmod_int)
    moreover have "Suc (relay_count r) mod relay_inc r = 0 \<longleftrightarrow> ?next" using cnt(1) by (auto simp: mod_Suc)
    ultimately have "c_mod (CIRCWINDOW_START - (circ_deliver_window r - 1)) (int (relay_inc r)) = 0 \<longleftrightarrow> ?next"
      by (simp only: of_nat_eq_0_iff)
    then show ?thesis using dw i by (simp add: circuit_sendme_cell_is_next_def)
  qed
  let ?k1 = "(or_crypto rp)\<lparr>f_digest := Some ?d\<rparr>"
  let ?k = "if ?next then ?k1\<lparr>sendme_digest := read_digest P ?d\<rparr> else ?k1"
  let ?r1 = "r\<lparr>kind := Or (rp\<lparr>or_crypto := ?k1\<rparr>)\<rparr>" and ?r2 = "r\<lparr>kind := Or (rp\<lparr>or_crypto := ?k\<rparr>)\<rparr>"
  have up1: "relay_up ?r1" using up rp(2) by (auto simp: relay_up_def relay_circuit_def has_keys_def)
  have "relay_inc ?r1 = relay_inc r" by (simp add: relay_inc_def)
  then have inc1: "sendme_get_inc_count ?r1 None = Done (int (relay_inc r))" using relay_inc_count [OF up1] by simp
  have rec: "sendme_record_received_cell_digest P ?r1 None = Done ?r2"
    using inc1 is_next
    by (cases ?next) (simp_all add: sendme_record_received_cell_digest_def deliver_window_of_def update_or_crypto_def with_or_def
        relay_crypto_record_sendme_digest_def read_digest_def)
  have "relay_counts_data P x r = Done ((set_relay_keys r ?k)\<lparr>circ_deliver_window := circ_deliver_window r - 1\<rparr>)"
    using m rp d rec pos
    by (auto simp: relay_counts_data_def with_or_def update_or_crypto_def sendme_circuit_data_received_def CIRCUIT_IS_ORIGIN_def)
  moreover have "has_keys ?k" "f_digest ?k = Some ?d" using rp(2) by (simp_all add: has_keys_def)
  ultimately show thesis using that [of ?k] rp(3) d by simp
qed

lemma relay_recv_law:
  assumes ok: "receiver_ok P nr ns r" and e: "relay_fine e" and g: "genuine_payload P (the (f_digest (relay_keys r))) x"
  shows "\<exists>r' ys. relay_gets_data P nr e x r = Done (r', ys) \<and> receiver_ok P nr ns r' \<and> relay_inc r' = relay_inc r \<and>
    the (f_digest (relay_keys r')) = absorb_payload P (the (f_digest (relay_keys r))) x \<and>
    (if Suc (relay_count r) = relay_inc r
     then relay_count r' = 0 \<and> (\<exists>y. ys = [y] \<and> answers ns y (read_digest P (the (f_digest (relay_keys r')))))
     else relay_count r' = Suc (relay_count r) \<and> ys = [])"
proof -
  have P: "stream_cipher P" "digest_length P" "\<And>d. length (read_digest P d) = DIGEST_LEN" and v: "versions_agree nr ns"
    and up: "relay_up r" and i: "2 \<le> relay_inc r" and w: "CIRCWINDOW_START - int (relay_inc r) < circ_deliver_window r"
    and dw: "circ_deliver_window r \<le> CIRCWINDOW_START" using ok by (simp_all add: receiver_ok_def)
  let ?D = "absorb_payload P (the (f_digest (relay_keys r))) x"
  obtain k where k: "relay_counts_data P x r = Done ((set_relay_keys r k)\<lparr>circ_deliver_window := circ_deliver_window r - 1\<rparr>)"
    "has_keys k" "f_digest k = Some ?D" "Suc (relay_count r) = relay_inc r \<longrightarrow> sendme_digest k = read_digest P (the (f_digest k))"
    using relay_counts_data_eq [OF up P(2) i w g] .
  let ?r1 = "(set_relay_keys r k)\<lparr>circ_deliver_window := circ_deliver_window r - 1\<rparr>"
  have rc: "relay_circuit r" using up by (simp add: relay_up_def)
  have up0: "relay_up (set_relay_keys r k)" using up k(2) by simp
  have frame: "relay_up (q\<lparr>circ_deliver_window := z\<rparr>)" "relay_keys (q\<lparr>circ_deliver_window := z\<rparr>) = relay_keys q"
    if "relay_up q" "z \<le> CIRCWINDOW_START" for q :: "('a, 'b) circuit" and z
    using that by (simp_all add: relay_up_def relay_circuit_def relay_keys_def)
  have up1: "relay_up ?r1" "relay_keys ?r1 = k" using frame [OF up0, of "circ_deliver_window r - 1"] dw rc k(2) by simp_all
  have inc1: "relay_inc ?r1 = relay_inc r" by (simp add: relay_inc_def)
  have rng: "re_queued e > 0" "\<And>n. length (re_rng e n) = n" using e by (simp_all add: relay_fine_def)
  show ?thesis
  proof (cases "Suc (relay_count r) = relay_inc r")
    case False
    then have low: "CIRCWINDOW_START - int (relay_inc ?r1) < circ_deliver_window ?r1"
      using w dw inc1 by (auto simp: relay_count_def)
    have "relay_gets_data P nr e x r = Done (?r1, [])"
      using k(1) relay_considers_not [OF up1(1) low] by (simp add: relay_gets_data_def)
    moreover have "receiver_ok P nr ns ?r1" using P v up1(1) i low inc1 dw by (simp add: receiver_ok_def)
    moreover have "relay_count ?r1 = Suc (relay_count r)" using dw by (simp add: relay_count_def)
    ultimately show ?thesis using False inc1 up1(2) k(3) by (intro exI [of _ ?r1] exI [of _ "[]"]) simp
  next
    case True
    then have dig: "sendme_digest (relay_keys ?r1) = read_digest P ?D" using k(3,4) up1(2) by simp
    have low: "circ_deliver_window ?r1 = CIRCWINDOW_START - int (relay_inc ?r1)" using True dw inc1 by (auto simp: relay_count_def)
    obtain y where y: "sendme_payload nr (read_digest P ?D) = Done y" "answers ns y (read_digest P ?D)" "length y \<le> RELAY_PAYLOAD_SIZE"
      using sendme_payload_answers [OF v P(3)] by blast
    have i1: "0 < relay_inc ?r1" using i inc1 by simp
    obtain k2 out where k2: "sendme_circuit_consider_sending P (re_rng e) (re_now e) (re_queued e) nr ?r1 None =
        Some (Done (set_relay_keys (?r1\<lparr>circ_deliver_window := CIRCWINDOW_START\<rparr>) k2, [(y, out)]))"
      "has_keys k2" "f_digest k2 = f_digest (relay_keys ?r1)"
      using relay_considers [OF up1(1) P(1,2) rng(2) rng(1) low i1 y(1) [folded dig] y(3)] .
    let ?r2 = "set_relay_keys (?r1\<lparr>circ_deliver_window := CIRCWINDOW_START\<rparr>) k2"
    have up2: "relay_up (?r1\<lparr>circ_deliver_window := CIRCWINDOW_START\<rparr>)" using frame [OF up1(1)] by blast
    have up3: "relay_up ?r2" "relay_keys ?r2 = k2" using up2 k2(2) by (simp_all add: relay_up_def)
    have "relay_gets_data P nr e x r = Done (?r2, [y])" using k(1) k2(1) by (simp add: relay_gets_data_def)
    moreover have "receiver_ok P nr ns ?r2" "relay_inc ?r2 = relay_inc r" "relay_count ?r2 = 0"
      using P v up3(1) i by (simp_all add: receiver_ok_def relay_inc_def relay_count_def)
    ultimately show ?thesis
      using True up1(2) up3(2) k(3) k2(3) y(2) by (intro exI [of _ ?r2] exI [of _ "[y]"]) simp
  qed
qed

section \<open>The two together\<close>

interpretation data_link: honest_link "sender_ok W P hop" "\<lambda>s. has_room (fst s) hop" fits_cell
  "\<lambda>s. hop_inc (the_hop (fst s) hop)" "\<lambda>s. hop_flight W (the_hop (fst s) hop)" "\<lambda>s. hop_limit W (the_hop (fst s) hop)"
  "\<lambda>s. digests_of (fst s)" "\<lambda>s. hop_digest (the_hop (fst s) hop)"
  "absorb_payload P" "read_digest P" "genuine_payload P" "client_sends_data P hop" "client_gets_sendme ns cid hop"
  "\<lambda>q s. timely_hop q (the_hop (fst s) hop)" "answers ns" "receiver_ok P nr ns" relay_fine relay_inc relay_count "\<lambda>r. the (f_digest (relay_keys r))" "relay_gets_data P nr"
  for W :: int and P :: "('c, 'd) prims" and hop ns nr and cid :: 'k
proof unfold_locales
  fix s :: "('c, 'd, 'k, 'm) client_end"
  assume ok: "sender_ok W P hop s"
  obtain n where n: "get_hop (fst s) hop = Done n" "hop_windows W (fst (snd s)) n"
    using ok by (cases s) (auto simp: sender_ok_def)
  show "2 \<le> hop_inc (the_hop (fst s) hop)"
    using n the_hop_eq [OF n(1)] by (auto simp: hop_windows_def hop_inc_def split: option.splits)
  show "has_room (fst s) hop \<longleftrightarrow> hop_flight W (the_hop (fst s) hop) < hop_limit W (the_hop (fst s) hop)"
    using room_iff [OF n] the_hop_eq [OF n(1)] by simp
next
  fix r :: "('c, 'd) circuit"
  assume "receiver_ok P nr ns r"
  then show "relay_count r < relay_inc r" by (auto simp: receiver_ok_def relay_count_def)
qed (erule (2) client_send_law, erule (3) client_ack_law, erule (2) relay_recv_law)

text \<open>The steps of a circuit that carries DATA from the client to its hop \<open>hop\<close>.\<close>

definition circuit_flow ::
  "('c, 'd) prims \<Rightarrow> nat \<Rightarrow> string list option \<Rightarrow> string list option \<Rightarrow> 'k \<Rightarrow>
     ('c, 'd, 'k, 'm) client_end \<Rightarrow> ('c, 'd) circuit \<Rightarrow> ('c, 'd, 'k, 'm) client_end \<Rightarrow> ('c, 'd) circuit \<Rightarrow>
     byte list list \<Rightarrow> byte list list \<Rightarrow> bool" where
  "circuit_flow P hop nr ns cid =
     link_run (\<lambda>s. has_room (fst s) hop) fits_cell (client_sends_data P hop) (client_gets_sendme ns cid hop)
       relay_fine (relay_gets_data P nr)"

text \<open>
  A start: both ends are up, with the same keys and the same increment, and no cell has been sent. What
  the pacing is, is not said here.
\<close>

definition flow_start ::
  "('c, 'd) prims \<Rightarrow> nat \<Rightarrow> string list option \<Rightarrow> string list option \<Rightarrow> ('c, 'd, 'k, 'm) client_end \<Rightarrow>
     ('c, 'd) circuit \<Rightarrow> bool" where
  "flow_start P hop nr ns s r \<longleftrightarrow> stream_cipher P \<and> digest_length P \<and> (\<forall>d. length (read_digest P d) = DIGEST_LEN) \<and>
     versions_agree nr ns \<and>
     (\<exists>n. get_hop (fst s) hop = Done n \<and> f_digest (pvt_crypto n) \<noteq> None \<and>
        (\<forall>cc. hop_ccontrol n = Some cc \<longrightarrow> cc_ok (fst (snd s)) cc \<and> cc_inflight cc = 0 \<and> sendme_pending_timestamps cc = [])) \<and>
     digests_of (fst s) = [] \<and>
     relay_up r \<and> circ_deliver_window r = CIRCWINDOW_START \<and>
     relay_inc r = hop_inc (the_hop (fst s) hop) \<and> f_digest (relay_keys r) = Some (hop_digest (the_hop (fst s) hop))"

abbreviation first_window :: "('c, 'd, 'k, 'm) client_end \<Rightarrow> nat \<Rightarrow> int" where
  "first_window s hop \<equiv> pacing_of (the_hop (fst s) hop)"

lemma flow_starts:
  assumes "flow_start P hop nr ns s0 r0" "regular_pacing (the_hop (fst s0) hop)"
  shows "data_link.start (first_window s0 hop) P hop nr ns s0 r0"
proof -
  obtain c G f where s: "s0 = (c, G, f)" by (cases s0)
  obtain n where n: "get_hop c hop = Done n" "f_digest (pvt_crypto n) \<noteq> None"
    "\<And>cc. hop_ccontrol n = Some cc \<Longrightarrow> cc_ok G cc \<and> cc_inflight cc = 0 \<and> sendme_pending_timestamps cc = []"
    using assms(1) s by (auto simp: flow_start_def)
  note hop = the_hop_eq [OF n(1)]
  have "hop_windows (pacing_of n) G n" "2 \<le> hop_inc n" "hop_flight (pacing_of n) n = 0"
    using assms(2) n(3) hop s
    by (auto simp: regular_pacing_def hop_windows_def pacing_of_def hop_inc_def hop_flight_def split: option.splits)
  moreover from this have "sender_ok (pacing_of n) P hop s0" "receiver_ok P nr ns r0"
    using assms(1) n(1,2) hop s by (simp_all add: flow_start_def sender_ok_def receiver_ok_def)
  ultimately show ?thesis
    using assms(1) hop s by (simp add: flow_start_def data_link.start_def relay_count_def)
qed

lemma flow_linked:
  assumes "flow_start P hop nr ns s0 r0" "regular_pacing (the_hop (fst s0) hop)" "circuit_flow P hop nr ns cid s0 r0 s r out home"
  shows "data_link.linked (first_window s0 hop) P hop ns nr s r out home"
  by (rule data_link.run_linked [OF assms(3) [unfolded circuit_flow_def] flow_starts [OF assms(1,2)]])

text \<open>C5. Authenticated flow control between honest ends: when the client's pacing is regular (a fixed
  window that starts at a multiple of 100 cells, or congestion control with an increment of at least two
  cells), then whatever cells were sent and received and whatever SENDMEs are under way, the client
  accepts the next SENDME: it carries the digest the client is waiting for, and no window overflows. With
  congestion control the process may stop instead, but only when the clock is not sane.\<close>

theorem honest_sendme_accepted:
  assumes "flow_start P hop nr ns s0 r0" "regular_pacing (the_hop (fst s0) hop)"
    and "circuit_flow P hop nr ns cid s0 r0 (c, G, f) r out (x # home)"
  shows "(\<exists>c' G' f'. sendme_process_circuit_level ns G q f cid (Some hop) c x = Done (c', G', f', 0)) \<or>
    (sendme_process_circuit_level ns G q f cid (Some hop) c x = Stuck \<and>
     (\<exists>cc. hop_ccontrol (the_hop c hop) = Some cc \<and> \<not> clock_sane cc (now_usec q)))"
  using data_link.linked_ack [OF flow_linked [OF assms], where e = q and cid = cid]
  by (auto simp: client_gets_sendme_def outcome_elims timely_hop_def split: option.splits)

text \<open>C9. When the pacing is regular, the relay takes every cell the client has sent: the digest matches, the deliver window never
  goes below zero, the loop that sends SENDMEs ends, and it sends at most one for a cell.\<close>

theorem honest_data_accepted:
  assumes "flow_start P hop nr ns s0 r0" "regular_pacing (the_hop (fst s0) hop)"
    and "circuit_flow P hop nr ns cid s0 r0 s r (x # out) home" and "relay_fine e"
  shows "\<exists>r' ys. relay_gets_data P nr e x r = Done (r', ys) \<and> length ys \<le> 1"
proof -
  have l: "data_link.linked (first_window s0 hop) P hop ns nr s r (x # out) home" by (rule flow_linked [OF assms(1-3)])
  then have "receiver_ok P nr ns r" "genuine_payload P (the (f_digest (relay_keys r))) x"
    by (simp_all add: data_link.linked_def)
  from relay_recv_law [OF this(1) assms(4) this(2)] show ?thesis by (auto split: if_splits)
qed

text \<open>C19. With regular pacing, the digests the client keeps, and the times it keeps for the round-trip
  estimate, are one for each increment of the cells that were sent and not acknowledged. With fixed
  windows those are the cells missing from the window it started with.\<close>

theorem pending_digests:
  assumes "flow_start P hop nr ns s0 r0" "regular_pacing (the_hop (fst s0) hop)"
    and "circuit_flow P hop nr ns cid s0 r0 (c, G, f) r out home"
  defines "n \<equiv> the_hop c hop"
  shows "length (digests_of c) = hop_flight (pacing_of (the_hop (fst s0) hop)) n div hop_inc n \<and>
    (\<forall>cc. hop_ccontrol n = Some cc \<longrightarrow> length (sendme_pending_timestamps cc) = length (digests_of c))"
proof -
  have l: "data_link.linked (first_window s0 hop) P hop ns nr (c, G, f) r out home" by (rule flow_linked [OF assms(1-3)])
  then have "sender_ok (first_window s0 hop) P hop (c, G, f)" by (simp add: data_link.linked_def)
  then have "hop_windows (first_window s0 hop) G n" using the_hop_eq by (fastforce simp: sender_ok_def n_def)
  moreover have "length (digests_of c) = hop_flight (first_window s0 hop) n div hop_inc n"
    using data_link.linked_pending [OF l] by (simp add: n_def)
  ultimately show ?thesis by (auto simp: hop_windows_def hop_flight_def hop_inc_def)
qed

text \<open>C18. A regularly paced flow does not stall: once nothing is under way the client may send again, with
  a fixed window that started at a multiple of 100 cells, and with congestion control if an increment is at
  least two cells and the window at least one increment.\<close>

theorem flow_never_stalls:
  assumes "flow_start P hop nr ns s0 r0" "regular_pacing (the_hop (fst s0) hop)"
    and "circuit_flow P hop nr ns cid s0 r0 (c, G, f) r [] []"
    and "\<forall>cc. hop_ccontrol (the_hop c hop) = Some cc \<longrightarrow> unat (cc_sendme_inc cc) \<le> unat (cc_cwnd cc)"
  shows "\<exists>w. congestion_control_get_package_window c (Some hop) = Done w \<and> 0 < w"
proof -
  note l = flow_linked [OF assms(1-3)]
  then have "sender_ok (first_window s0 hop) P hop (c, G, f)" by (simp add: data_link.linked_def)
  then have "hop_windows (first_window s0 hop) G (the_hop c hop)" using the_hop_eq by (fastforce simp: sender_ok_def)
  then have "hop_inc (the_hop c hop) \<le> hop_limit (first_window s0 hop) (the_hop c hop)"
    using assms(4) by (auto simp: hop_windows_def hop_inc_def hop_limit_def split: option.splits)
  then have "has_room c hop" using data_link.linked_quiet [OF l] by simp
  then show ?thesis by (simp add: has_room_def split: outcome.splits)
qed

section \<open>An increment of one\<close>

lemma not_pending_not_valid:
  assumes "sendme_cell_parse x \<noteq> Stuck" "\<And>v. \<exists>b. cell_version_can_be_handled ns v = Done b"
    and "pop_first_cell_digest c = (None, c)"
  shows "sendme_is_valid ns c x = Done (False, c)"
proof -
  obtain ok where "\<And>v. cell_version_can_be_handled ns v = Done (ok v)" using assms(2) by metis
  then show ?thesis
    using assms(1,3) by (cases "sendme_cell_parse x") (auto simp: sendme_is_valid_def Let_def)
qed

text \<open>With an increment of one cell, which the consensus may ask for, the digest of the first
  cell is not recorded, so that the SENDME that answers it closes the circuit, whatever it says.\<close>

theorem increment_of_one_closes:
  assumes n: "get_hop c hop = Done n" "hop_ccontrol n = Some cc" "cc_inflight cc = 0" "cc_sendme_inc cc = 1"
    and d: "sendme_last_digests c = None"
    and s: "sendme_record_cell_digest_on_circ c (Some hop) = Done c1" "sendme_note_circuit_data_packaged now c1 (Some hop) = Done (w, c2)"
  shows "\<exists>c3. sendme_process_circuit_level ns G q f cid (Some hop) c2 x = Done (c3, G, f, - END_CIRC_REASON_TORPROTOCOL)"
proof -
  have b: "circuit_sent_cell_for_sendme c (Some hop) = Done False"
    using n by (simp add: circuit_sent_cell_for_sendme_def package_state_def)
  then have c1: "c1 = c" using s(1) by (simp add: sendme_record_cell_digest_on_circ_def)
  have "sendme_last_digests c2 = sendme_last_digests c"
    using s(2) n b by (auto simp: c1 sendme_note_circuit_data_packaged_def package_state_def set_ccontrol_def outcome_elims
        congestion_control_note_cell_sent_def update_hop_def with_origin_def split: circuit_kind.splits)
  then have pop: "pop_first_cell_digest c2 = (None, c2)" using d by (simp add: pop_first_cell_digest_def)
  have "\<exists>b. cell_version_can_be_handled ns v = Done b" for v
    using net_param_in_bounds [of 0 255 0 ns "''sendme_accept_min_version''"]
    by (auto simp: cell_version_can_be_handled_def get_accept_min_version_def)
  moreover have "sendme_cell_parse x \<noteq> Stuck" by (auto simp: sendme_cell_parse_def outcome_elims Let_def split: if_splits)
  ultimately have "sendme_is_valid ns c2 x = Done (False, c2)" using not_pending_not_valid pop by blast
  then show ?thesis by (simp add: sendme_process_circuit_level_def)
qed

section \<open>Examples\<close>

definition flow_cc :: congestion_control where
  "flow_cc = zero_cc\<lparr>cc_alg := CC_ALG_VEGAS, cc_sendme_inc := 2, cc_cwnd := 100, cwnd_inc_rate := 1\<rparr>"

definition flow_client :: "(byte, unit, unit, unit) client_end" where
  "flow_client = (ex_client\<lparr>kind := Origin \<lparr>hops = (Map.empty)(3 \<mapsto> ex_hop 4, 4 \<mapsto> (ex_hop 3)\<lparr>hop_ccontrol := Some flow_cc\<rparr>),
     first_hop = Some 3, remaining_relay_early_cells = 8, relay_early_commands = [], path_state = 0\<rparr>\<rparr>, zero_globals, None)"

definition flow_relay :: "(byte, unit) circuit" where
  "flow_relay = ex_relay\<lparr>circ_ccontrol := Some flow_cc\<rparr>"

definition flow_data :: data_cell where
  "flow_data = \<lparr>dc_rng = (\<lambda>n. replicate n 7), dc_now = 9, dc_stream = 4, dc_data = [1, 2, 3]\<rparr>"

definition flow_env :: relay_env where
  "flow_env = \<lparr>re_rng = (\<lambda>n. replicate n 7), re_now = 11, re_queued = 1\<rparr>"

lemma flow_example_start:
  "flow_start xor_prims 4 None None flow_client flow_relay" "regular_pacing (the_hop (fst flow_client) 4)"
proof -
  have n: "get_hop (fst flow_client) 4 = Done ((ex_hop 3)\<lparr>hop_ccontrol := Some flow_cc\<rparr>)"
    by (simp add: flow_client_def get_hop_def with_origin_def deref_def)
  have cc: "cc_ok zero_globals flow_cc" by (simp add: cc_ok_def flow_cc_def zero_cc_def zero_globals_def)
  have dl: "length (read_digest xor_prims d) = DIGEST_LEN" for d by (simp add: read_digest_def xor_prims_def)
  have v: "versions_agree None None"
    by (simp add: versions_agree_def get_emit_min_version_def get_accept_min_version_def networkstatus_get_param_def)
  have up: "relay_up flow_relay" "relay_keys flow_relay = xor_keys"
    using ex_relay_up by (auto simp: flow_relay_def relay_up_def relay_circuit_def relay_keys_def flow_cc_def)
  have inc: "relay_inc flow_relay = 2" "hop_inc (the_hop (fst flow_client) 4) = 2"
    using the_hop_eq [OF n] by (simp_all add: hop_inc_def relay_inc_def flow_relay_def flow_cc_def)
  show "flow_start xor_prims 4 None None flow_client flow_relay"
    using n cc dl v up inc xor_laws the_hop_eq [OF n]
    by (simp add: flow_start_def hop_digest_def digests_of_def)
       (simp add: flow_client_def ex_client_def flow_cc_def zero_cc_def ex_hop_def xor_keys_def flow_relay_def ex_relay_def
         CIRCWINDOW_START_def)
  show "regular_pacing (the_hop (fst flow_client) 4)" using the_hop_eq [OF n] by (simp add: regular_pacing_def flow_cc_def)
qed

lemma flow_pacing: "pacing_of (the_hop (fst flow_client) 4) = 0"
  by (simp add: pacing_of_def the_hop_def flow_client_def)

text \<open>Two cells out, two taken, the SENDME on its way.\<close>

lemma flow_example:
  obtains c G f r x where "circuit_flow xor_prims 4 None None () flow_client flow_relay (c, G, f) r [] [x]"
    "hop_flight 0 (the_hop c 4) = 2" "hop_inc (the_hop c 4) = 2"
proof -
  let ?run = "circuit_flow xor_prims 4 None None () flow_client flow_relay"
  let ?linked = "data_link.linked 0 xor_prims 4 None None"
  have fit: "fits_cell flow_data" and fine: "relay_fine flow_env"
    by (simp_all add: fits_cell_def flow_data_def relay_fine_def flow_env_def size_defs)
  have l0: "?linked flow_client flow_relay [] []" and r0: "?run flow_client flow_relay [] []"
    using flow_linked [OF flow_example_start, unfolded flow_pacing] by (simp_all add: circuit_flow_def link_run.start)
  have z: "hop_flight 0 (the_hop (fst flow_client) 4) = 0" "hop_limit 0 (the_hop (fst flow_client) 4) = 100"
    "hop_inc (the_hop (fst flow_client) 4) = 2"
    by (simp_all add: the_hop_def hop_flight_def hop_limit_def hop_inc_def flow_client_def flow_cc_def zero_cc_def)
  note room = data_link.linked_room
  obtain s1 x1 where s1: "client_sends_data xor_prims 4 flow_data flow_client = Done (s1, x1)" "?linked s1 flow_relay [x1] []"
    "hop_flight 0 (the_hop (fst s1) 4) = 1" "hop_limit 0 (the_hop (fst s1) 4) = 100" "hop_inc (the_hop (fst s1) 4) = 2"
    using data_link.linked_send [OF l0 _ fit] room [OF l0] z by auto
  obtain s2 x2 where s2: "client_sends_data xor_prims 4 flow_data s1 = Done (s2, x2)" "?linked s2 flow_relay [x1, x2] []"
    "hop_flight 0 (the_hop (fst s2) 4) = 2" "hop_limit 0 (the_hop (fst s2) 4) = 100" "hop_inc (the_hop (fst s2) 4) = 2"
    using data_link.linked_send [OF s1(2) _ fit] room [OF s1(2)] s1(3-5) by auto
  have run1: "?run s1 flow_relay [x1] []"
    using link_run.send [OF r0 [unfolded circuit_flow_def] _ fit s1(1)] room [OF l0] z by (simp add: circuit_flow_def)
  have run2: "?run s2 flow_relay [x1, x2] []"
    using link_run.send [OF run1 [unfolded circuit_flow_def] _ fit s2(1)] room [OF s1(2)] s1(3,4) by (simp add: circuit_flow_def)
  obtain r1 ys1 where r1: "relay_gets_data xor_prims None flow_env x1 flow_relay = Done (r1, ys1)" "?linked s2 r1 [x2] ys1"
    using data_link.linked_recv [OF s2(2) fine] by auto
  obtain r2 ys2 where r2: "relay_gets_data xor_prims None flow_env x2 r1 = Done (r2, ys2)" "?linked s2 r2 [] (ys1 @ ys2)"
    using data_link.linked_recv [OF r1(2) fine] by auto
  have run4: "?run s2 r2 [] (ys1 @ ys2)"
    using link_run.recv [OF link_run.recv [OF run2 [unfolded circuit_flow_def] fine r1(1)] fine r2(1)]
    by (simp add: circuit_flow_def)
  have ok: "receiver_ok xor_prims None None r2" and i: "relay_inc r2 = 2"
    and n: "length (ys1 @ ys2) * 2 + relay_count r2 = 2"
    using data_link.linked_counts [OF r2(2)] s2(3,5) by auto
  have "relay_count r2 < 2" using ok i by (simp add: receiver_ok_def relay_count_def nat_less_iff)
  then have "length (ys1 @ ys2) = 1" using n by presburger
  then obtain x where "ys1 @ ys2 = [x]" by (cases "ys1 @ ys2") auto
  then show thesis using that run4 s2(3,5) by (cases s2) auto
qed


text \<open>
  Fixed windows, starting at 200: after 150 cells the first SENDME is on its way, and when it is taken
  nothing is under way any more.
\<close>

definition window_client :: "(byte, unit, unit, unit) client_end" where
  "window_client = (ex_client\<lparr>kind := Origin \<lparr>hops = (Map.empty)(3 \<mapsto> ex_hop 4, 4 \<mapsto> (ex_hop 3)\<lparr>package_window := 200\<rparr>),
     first_hop = Some 3, remaining_relay_early_cells = 8, relay_early_commands = [], path_state = 0\<rparr>\<rparr>, zero_globals, None)"

lemma window_hop:
  "get_hop (fst window_client) 4 = Done ((ex_hop 3)\<lparr>package_window := 200\<rparr>)"
  "the_hop (fst window_client) 4 = (ex_hop 3)\<lparr>package_window := 200\<rparr>"
  by (simp_all add: window_client_def get_hop_def with_origin_def deref_def the_hop_def)

lemma window_example_start:
  "flow_start xor_prims 4 None None window_client ex_relay" "regular_pacing (the_hop (fst window_client) 4)"
proof -
  have dl: "length (read_digest xor_prims d) = DIGEST_LEN" for d by (simp add: read_digest_def xor_prims_def)
  have v: "versions_agree None None"
    by (simp add: versions_agree_def get_emit_min_version_def get_accept_min_version_def networkstatus_get_param_def)
  have up: "relay_keys ex_relay = xor_keys" by (simp add: ex_relay_def relay_keys_def)
  show "flow_start xor_prims 4 None None window_client ex_relay"
    using window_hop dl v ex_relay_up xor_laws up
    by (simp add: flow_start_def hop_digest_def digests_of_def hop_inc_def relay_inc_def)
       (simp add: window_client_def ex_client_def ex_hop_def zero_hop_def xor_keys_def ex_relay_def CIRCWINDOW_START_def)
  show "regular_pacing (the_hop (fst window_client) 4)"
    by (simp add: window_hop(2) regular_pacing_def ex_hop_def zero_hop_def CIRCWINDOW_START_MAX_def CIRCWINDOW_INCREMENT_def)
qed

lemma window_pacing: "pacing_of (the_hop (fst window_client) 4) = 200"
  by (simp add: window_hop(2) pacing_of_def ex_hop_def zero_hop_def)

lemma window_linked:
  assumes "circuit_flow xor_prims 4 None None () window_client ex_relay (c, G, f) r out home"
  shows "data_link.linked 200 xor_prims 4 None None (c, G, f) r out home" "hop_ccontrol (the_hop c 4) = None"
proof -
  show l: "data_link.linked 200 xor_prims 4 None None (c, G, f) r out home"
    using flow_linked [OF window_example_start assms] by (simp add: window_pacing)
  from data_link.linked_ends [OF this] have "sender_ok 200 xor_prims 4 (c, G, f)" ..
  then obtain n where n: "get_hop c 4 = Done n" "hop_windows 200 G n" by (auto simp: sender_ok_def)
  then show "hop_ccontrol (the_hop c 4) = None"
    using the_hop_eq [OF n(1)] by (auto simp: hop_windows_def split: option.splits)
qed

lemma window_example:
  obtains c G f r x where "circuit_flow xor_prims 4 None None () window_client ex_relay (c, G, f) r [] [x]"
    "hop_flight 200 (the_hop c 4) = 150"
proof -
  have fit: "fits_cell flow_data" and fine: "relay_fine flow_env"
    by (simp_all add: fits_cell_def flow_data_def relay_fine_def flow_env_def size_defs)
  note start = flow_starts [OF window_example_start, unfolded window_pacing]
  have r0: "circuit_flow xor_prims 4 None None () window_client ex_relay window_client ex_relay [] []"
    by (simp add: circuit_flow_def link_run.start)
  have "hop_flight 200 (the_hop (fst window_client) 4) + 150 \<le> hop_limit 200 (the_hop (fst window_client) 4)"
    "hop_flight 200 (the_hop (fst window_client) 4) = 0"
    by (simp_all add: window_hop(2) hop_flight_def hop_limit_def ex_hop_def zero_hop_def)
  from data_link.run_sends [OF start fit r0 [unfolded circuit_flow_def] this(1)] this(2)
  obtain s out where s: "circuit_flow xor_prims 4 None None () window_client ex_relay s ex_relay out []"
    "hop_flight 200 (the_hop (fst s) 4) = 150" by (auto simp: circuit_flow_def)
  obtain r home where r: "circuit_flow xor_prims 4 None None () window_client ex_relay s r [] home"
    using data_link.run_taken [OF start fine s(1) [unfolded circuit_flow_def]] by (auto simp: circuit_flow_def)
  obtain c G f where c: "s = (c, G, f)" by (cases s)
  note l = window_linked [OF r [unfolded c]]
  have ok: "receiver_ok xor_prims None None r" and n: "length home * relay_inc r + relay_count r = 150" "relay_inc r = hop_inc (the_hop c 4)"
    using data_link.linked_counts [OF l(1)] s(2) c by auto
  have "relay_inc r = 100" using n(2) l(2) by (simp add: hop_inc_def)
  moreover have "relay_count r < relay_inc r" using ok by (auto simp: receiver_ok_def relay_count_def nat_less_iff)
  ultimately have "length home = 1" using n(1) by presburger
  then obtain x where "home = [x]" by (cases home) auto
  then show thesis using that r s(2) c by auto
qed

theorem honest_sendme_accepted_witness:
  "\<exists>c G f r x c' G' f'. circuit_flow xor_prims 4 None None () window_client ex_relay (c, G, f) r [] [x] \<and>
     sendme_process_circuit_level None G \<lparr>now_usec = 5, chan_queue = 0, chan_blocked = False\<rparr> f () (Some 4) c x = Done (c', G', f', 0)"
proof -
  obtain c G f r x where r: "circuit_flow xor_prims 4 None None () window_client ex_relay (c, G, f) r [] [x]"
    by (rule window_example)
  from honest_sendme_accepted [OF window_example_start r, of "\<lparr>now_usec = 5, chan_queue = 0, chan_blocked = False\<rparr>"]
  obtain c' G' f' where "sendme_process_circuit_level None G \<lparr>now_usec = 5, chan_queue = 0, chan_blocked = False\<rparr> f () (Some 4) c x =
      Done (c', G', f', 0)" using window_linked(2) [OF r] by auto
  then show ?thesis using r by blast
qed

theorem honest_data_accepted_witness:
  "\<exists>s x r' ys. circuit_flow xor_prims 4 None None () flow_client flow_relay s flow_relay [x] [] \<and>
     relay_gets_data xor_prims None flow_env x flow_relay = Done (r', ys) \<and> length ys \<le> 1"
proof -
  have l0: "data_link.linked 0 xor_prims 4 None None flow_client flow_relay [] []"
    and r0: "circuit_flow xor_prims 4 None None () flow_client flow_relay flow_client flow_relay [] []"
    using flow_linked [OF flow_example_start, unfolded flow_pacing] by (simp_all add: circuit_flow_def link_run.start)
  have fit: "fits_cell flow_data" and fine: "relay_fine flow_env"
    by (simp_all add: fits_cell_def flow_data_def relay_fine_def flow_env_def size_defs)
  have room: "has_room (fst flow_client) 4"
    using data_link.linked_room [OF l0] by (simp add: the_hop_def hop_flight_def hop_limit_def flow_client_def flow_cc_def zero_cc_def)
  obtain s x where s: "client_sends_data xor_prims 4 flow_data flow_client = Done (s, x)"
    using data_link.linked_send [OF l0 room fit] by blast
  have "circuit_flow xor_prims 4 None None () flow_client flow_relay s flow_relay [x] []"
    using link_run.send [OF r0 [unfolded circuit_flow_def] room fit s] by (simp add: circuit_flow_def)
  then show ?thesis using honest_data_accepted [OF flow_example_start _ fine] by blast
qed

theorem pending_digests_witness:
  "\<exists>c G f r x. circuit_flow xor_prims 4 None None () flow_client flow_relay (c, G, f) r [] [x] \<and>
     length (digests_of c) = 1"
proof -
  obtain c G f r x where r: "circuit_flow xor_prims 4 None None () flow_client flow_relay (c, G, f) r [] [x]"
    "hop_flight 0 (the_hop c 4) = 2" "hop_inc (the_hop c 4) = 2" by (rule flow_example)
  have "length (digests_of c) = 1" using pending_digests [OF flow_example_start r(1), unfolded flow_pacing] r(2,3) by simp
  then show ?thesis using r(1) by blast
qed

text \<open>All 150 cells taken and the SENDME processed: 50 count as in flight, and 150 more may be sent.\<close>

theorem flow_never_stalls_witness:
  "\<exists>c G f r w. circuit_flow xor_prims 4 None None () window_client ex_relay (c, G, f) r [] [] \<and>
     hop_flight 200 (the_hop c 4) = 50 \<and> congestion_control_get_package_window c (Some 4) = Done w \<and> 0 < w"
proof -
  obtain c G f r x where r: "circuit_flow xor_prims 4 None None () window_client ex_relay (c, G, f) r [] [x]"
    "hop_flight 200 (the_hop c 4) = 150" by (rule window_example)
  let ?q = "\<lparr>now_usec = 5, chan_queue = 0, chan_blocked = False\<rparr>"
  note l = window_linked [OF r(1)]
  obtain s' where s': "client_gets_sendme None () 4 ?q x (c, G, f) = Done (s', 0)" "data_link.linked 200 xor_prims 4 None None s' r [] []"
    using data_link.linked_ack [OF l(1), of "()" ?q] l(2) by (auto simp: timely_hop_def)
  obtain c' G' f' where c': "s' = (c', G', f')" by (cases s')
  have run: "circuit_flow xor_prims 4 None None () window_client ex_relay (c', G', f') r [] []"
    using link_run.ack [OF r(1) [unfolded circuit_flow_def] s'(1)] by (simp add: circuit_flow_def c')
  note l' = window_linked [OF run]
  have "relay_inc r = 100" "hop_flight 200 (the_hop c 4) = 100 + relay_count r" "hop_flight 200 (the_hop c' 4) = relay_count r"
    using data_link.linked_counts [OF l(1)] data_link.linked_counts [OF l'(1)] l(2) by (simp_all add: hop_inc_def)
  then have "hop_flight 200 (the_hop c' 4) = 50" using r(2) by simp
  then show ?thesis using flow_never_stalls [OF window_example_start run] run l'(2) by auto
qed

theorem sendme_authenticates_witness:
  "\<exists>x. build_cell_payload_v1 (replicate 20 7) = Done x \<and>
    sendme_is_valid None (ex_relay\<lparr>sendme_last_digests := Some [replicate 20 7, replicate 20 8]\<rparr>) x =
      Done (True, ex_relay\<lparr>sendme_last_digests := Some [replicate 20 8]\<rparr>)"
  using sendme_authenticates [of "replicate 20 7" "replicate 20 7" "ex_relay\<lparr>sendme_last_digests := Some [replicate 20 7, replicate 20 8]\<rparr>"
      "[replicate 20 8]" None 0]
  by (simp add: TRUNNEL_SENDME_V1_DIGEST_LEN_def get_accept_min_version_def networkstatus_get_param_def)

definition one_client :: "(byte, unit) circuit" where
  "one_client = ex_client\<lparr>kind := Origin \<lparr>hops = (Map.empty)(4 \<mapsto> (ex_hop 3)\<lparr>hop_ccontrol := Some (flow_cc\<lparr>cc_sendme_inc := 1\<rparr>)\<rparr>),
     first_hop = Some 4, remaining_relay_early_cells = 8, relay_early_commands = [], path_state = 0\<rparr>\<rparr>"

theorem increment_of_one_closes_witness:
  "\<exists>w c2 c3. sendme_note_circuit_data_packaged 9 one_client (Some 4) = Done (w, c2) \<and>
     sendme_process_circuit_level None zero_globals \<lparr>now_usec = 5, chan_queue = 0, chan_blocked = False\<rparr>
       (None :: (unit, unit) conflux option) () (Some 4) c2 (sendme_v1 (replicate 20 7)) =
       Done (c3, zero_globals, None, - END_CIRC_REASON_TORPROTOCOL)"
proof -
  let ?n = "(ex_hop 3)\<lparr>hop_ccontrol := Some (flow_cc\<lparr>cc_sendme_inc := 1\<rparr>)\<rparr>"
  have n: "get_hop one_client 4 = Done ?n" by (simp add: one_client_def get_hop_def with_origin_def deref_def)
  have cc: "hop_ccontrol ?n = Some (flow_cc\<lparr>cc_sendme_inc := 1\<rparr>)" "cc_inflight (flow_cc\<lparr>cc_sendme_inc := 1\<rparr>) = 0"
    "cc_sendme_inc (flow_cc\<lparr>cc_sendme_inc := 1\<rparr>) = 1" by (simp_all add: flow_cc_def zero_cc_def)
  have b: "circuit_sent_cell_for_sendme one_client (Some 4) = Done False"
    using n cc by (simp add: circuit_sent_cell_for_sendme_def package_state_def)
  have rec: "sendme_record_cell_digest_on_circ one_client (Some 4) = Done one_client"
    using b by (simp add: sendme_record_cell_digest_on_circ_def)
  obtain w c2 where c2: "sendme_note_circuit_data_packaged 9 one_client (Some 4) = Done (w, c2)"
    using n b by (auto simp: sendme_note_circuit_data_packaged_def package_state_def congestion_control_note_cell_sent_def
        set_ccontrol_def update_hop_def get_hop_def with_origin_def deref_def one_client_def
        congestion_control_get_package_window_def flow_cc_def zero_cc_def)
  have "sendme_last_digests one_client = None" by (simp add: one_client_def ex_client_def)
  from increment_of_one_closes [OF n cc this rec c2, of None zero_globals "\<lparr>now_usec = 5, chan_queue = 0, chan_blocked = False\<rparr>"
      "None :: (unit, unit) conflux option" "()" "sendme_v1 (replicate 20 7)"]
  show ?thesis using c2 by blast
qed

end
