(* ===== verification/Buffers.thy ===== *)
theory Buffers
  imports SmartlistCore Binascii "HOL-Library.While_Combinator"
begin

text \<open>
  Byte queues made of chunks: \<open>src/lib/buf/buffers.c\<close>, and the reading and writing of
  \<open>src/lib/net/buffers_net.c\<close>. A chunk is the bytes it holds, the offset of the first in its memory
  and the size of that memory; the memory outside is never written by name, and reading it is no
  defined behaviour. The linked list of a buffer is the list of its chunks, \<open>head\<close> and \<open>tail\<close> are its
  ends. The type of a byte is a parameter. \<open>now\<close> is the coarse clock. Sizes are those of a 64-bit
  machine with \<open>DEBUG_CHUNK_ALLOC\<close>, as the header defines it.
\<close>

section \<open>Chunks\<close>

definition BUF_MAX_LEN :: nat where "BUF_MAX_LEN = INT_MAX - 1"
definition SENTINEL_LEN :: nat where "SENTINEL_LEN = 4"
definition CHUNK_HEADER_LEN :: nat where "CHUNK_HEADER_LEN = 5 * 8 + 4"
definition CHUNK_OVERHEAD :: nat where "CHUNK_OVERHEAD = CHUNK_HEADER_LEN + SENTINEL_LEN"
definition MIN_CHUNK_ALLOC :: nat where "MIN_CHUNK_ALLOC = 256"
definition MAX_CHUNK_ALLOC :: nat where "MAX_CHUNK_ALLOC = 65536"
definition MIN_READ_LEN :: nat where "MIN_READ_LEN = 8"

lemmas buf_consts = BUF_MAX_LEN_def SIZE_T_CEILING_def SENTINEL_LEN_def CHUNK_HEADER_LEN_def CHUNK_OVERHEAD_def
  MIN_CHUNK_ALLOC_def MAX_CHUNK_ALLOC_def MIN_READ_LEN_def INT_MAX_def

record 'a chunk =
  ch_memlen :: nat
  ch_offset :: nat
  ch_data :: "'a list"
  ch_inserted :: u32

record 'a buf =
  buf_len :: nat
  default_chunk_size :: nat
  chunks :: "'a chunk list"

text \<open>Subtraction of two \<open>size_t\<close>.\<close>

definition size_sub :: "nat \<Rightarrow> nat \<Rightarrow> nat" where
  "size_sub a b = (a + 2 ^ 64 - b mod 2 ^ 64) mod 2 ^ 64"

definition CHUNK_ALLOC_SIZE :: "nat \<Rightarrow> nat" where
  "CHUNK_ALLOC_SIZE memlen = (CHUNK_OVERHEAD + memlen) mod 2 ^ 64"

definition CHUNK_SIZE_WITH_ALLOC :: "nat \<Rightarrow> nat" where
  "CHUNK_SIZE_WITH_ALLOC alloc = size_sub alloc CHUNK_OVERHEAD"

definition CHUNK_REMAINING_CAPACITY :: "'a chunk \<Rightarrow> nat" where
  "CHUNK_REMAINING_CAPACITY c = ch_memlen c - (ch_offset c + length (ch_data c))"

text \<open>\<open>memcpy\<close> to \<open>CHUNK_WRITE_PTR\<close>.\<close>

definition chunk_write :: "'a chunk \<Rightarrow> 'a list \<Rightarrow> 'a chunk outcome" where
  "chunk_write c xs =
     (if ch_offset c + length (ch_data c) + length xs \<le> ch_memlen c then Done (c\<lparr>ch_data := ch_data c @ xs\<rparr>) else Stuck)"

definition chunk_repack :: "'a chunk \<Rightarrow> 'a chunk" where
  "chunk_repack c = c\<lparr>ch_offset := 0\<rparr>"

definition chunk_new_with_alloc_size :: "nat \<Rightarrow> 'a chunk" where
  "chunk_new_with_alloc_size alloc =
     \<lparr>ch_memlen = CHUNK_SIZE_WITH_ALLOC alloc, ch_offset = 0, ch_data = [], ch_inserted = 0\<rparr>"

definition chunk_grow :: "'a chunk \<Rightarrow> nat \<Rightarrow> 'a chunk outcome" where
  "chunk_grow c sz = (if \<not> sz > ch_memlen c then Stuck else Done (c\<lparr>ch_memlen := sz\<rparr>))"

definition buf_preferred_chunk_size :: "nat \<Rightarrow> nat outcome" where
  "buf_preferred_chunk_size target =
     (if \<not> target \<le> SIZE_T_CEILING - CHUNK_OVERHEAD then Stuck
      else if CHUNK_ALLOC_SIZE target \<ge> MAX_CHUNK_ALLOC then Done (CHUNK_ALLOC_SIZE target)
      else Done (while (\<lambda>sz. CHUNK_SIZE_WITH_ALLOC sz < target) (\<lambda>sz. 2 * sz) MIN_CHUNK_ALLOC))"

section \<open>Making, measuring, copying\<close>

definition buf_new :: "'a buf" where
  "buf_new = \<lparr>buf_len = 0, default_chunk_size = 4096, chunks = []\<rparr>"

definition buf_new_with_capacity :: "nat \<Rightarrow> 'a buf outcome" where
  "buf_new_with_capacity sz =
     obind (buf_preferred_chunk_size sz) (\<lambda>n. Done (buf_new\<lparr>default_chunk_size := n\<rparr>))"

definition buf_clear :: "'a buf \<Rightarrow> 'a buf" where
  "buf_clear b = b\<lparr>buf_len := 0, chunks := []\<rparr>"

definition buf_datalen :: "'a buf \<Rightarrow> nat" where "buf_datalen b = buf_len b"

definition buf_allocation :: "'a buf \<Rightarrow> nat" where
  "buf_allocation b = sum_list (map (\<lambda>c. CHUNK_ALLOC_SIZE (ch_memlen c)) (chunks b))"

definition buf_slack :: "'a buf \<Rightarrow> nat" where
  "buf_slack b = (if chunks b = [] then 0 else CHUNK_REMAINING_CAPACITY (last (chunks b)))"

definition buf_copy :: "'a buf \<Rightarrow> 'a buf" where
  "buf_copy b = buf_new\<lparr>default_chunk_size := default_chunk_size b, chunks := chunks b, buf_len := buf_len b\<rparr>"

text \<open>The buffer that was there is freed.\<close>

definition buf_set_to_copy :: "'a buf option \<Rightarrow> 'a buf \<Rightarrow> 'a buf option" where
  "buf_set_to_copy old b = Some (buf_copy b)"

definition buf_get_oldest_chunk_timestamp :: "'a buf \<Rightarrow> u32 \<Rightarrow> u32" where
  "buf_get_oldest_chunk_timestamp b now = (case chunks b of [] \<Rightarrow> 0 | c # _ \<Rightarrow> now - ch_inserted c)"

fun assert_chunks :: "'a chunk list \<Rightarrow> nat \<Rightarrow> nat outcome" where
  "assert_chunks [] tot = Done tot"
| "assert_chunks (c # cs) tot =
     (if length (ch_data c) \<le> ch_memlen c \<and> length (ch_data c) \<le> BUF_MAX_LEN \<and> ch_offset c \<le> ch_memlen c \<and>
         ch_offset c + length (ch_data c) \<le> ch_memlen c
      then assert_chunks cs (tot + length (ch_data c)) else Stuck)"

definition buf_assert_ok :: "'a buf \<Rightarrow> unit outcome" where
  "buf_assert_ok b =
     (if chunks b = [] then (if buf_len b = 0 then Done () else Stuck)
      else obind (assert_chunks (chunks b) 0) (\<lambda>tot. if buf_len b = tot then Done () else Stuck))"

section \<open>Adding and taking\<close>

definition buf_add_chunk_with_capacity :: "u32 \<Rightarrow> 'a buf \<Rightarrow> nat \<Rightarrow> bool \<Rightarrow> 'a buf outcome" where
  "buf_add_chunk_with_capacity now b cap capped =
     obind (if CHUNK_ALLOC_SIZE cap < default_chunk_size b then Done (default_chunk_size b)
            else if capped \<and> CHUNK_ALLOC_SIZE cap > MAX_CHUNK_ALLOC then Done MAX_CHUNK_ALLOC
            else buf_preferred_chunk_size cap) (\<lambda>alloc.
       Done (b\<lparr>chunks := chunks b @ [(chunk_new_with_alloc_size alloc)\<lparr>ch_inserted := now\<rparr>]\<rparr>))"

text \<open>Writing to the chunk at the tail, and counting it.\<close>

definition write_to_tail :: "'a buf \<Rightarrow> 'a list \<Rightarrow> 'a buf outcome" where
  "write_to_tail b xs =
     (if chunks b = [] then Stuck
      else obind (chunk_write (last (chunks b)) xs) (\<lambda>c.
             Done (b\<lparr>chunks := butlast (chunks b) @ [c], buf_len := buf_len b + length xs\<rparr>)))"

partial_function (option) buf_add_loop :: "u32 \<Rightarrow> 'a list \<Rightarrow> 'a buf \<Rightarrow> 'a buf outcome option" where
  "buf_add_loop now xs b =
     (if xs = [] then Some (Done b)
      else case obind (if buf_slack b = 0 then buf_add_chunk_with_capacity now b (length xs) True else Done b) (\<lambda>b.
                  let copy = min (buf_slack b) (length xs)
                  in obind (write_to_tail b (take copy xs)) (\<lambda>b. Done (b, copy))) of
             Done (b, copy) \<Rightarrow> buf_add_loop now (drop copy xs) b
           | Fail \<Rightarrow> Some Fail
           | Stuck \<Rightarrow> Some Stuck)"

text \<open>A call that does not return is \<open>Stuck\<close>.\<close>

definition of_call :: "'a outcome option \<Rightarrow> 'a outcome" where
  "of_call r = (case r of None \<Rightarrow> Stuck | Some x \<Rightarrow> x)"

definition buf_add :: "u32 \<Rightarrow> 'a buf \<Rightarrow> 'a list \<Rightarrow> 'a buf outcome" where
  "buf_add now b xs =
     (if xs = [] then Done b
      else if buf_len b > BUF_MAX_LEN then Fail
      else if buf_len b > size_sub BUF_MAX_LEN (length xs) then Fail
      else obind (of_call (buf_add_loop now xs b)) (\<lambda>b. if \<not> buf_len b \<le> BUF_MAX_LEN then Stuck else Done b))"

fun peek_loop :: "'a chunk list \<Rightarrow> nat \<Rightarrow> 'a list \<Rightarrow> 'a list outcome" where
  "peek_loop cs 0 out = Done out"
| "peek_loop [] n out = Stuck"
| "peek_loop (c # cs) n out = (let copy = min (length (ch_data c)) n
     in peek_loop cs (n - copy) (out @ take copy (ch_data c)))"

definition buf_peek :: "'a buf \<Rightarrow> nat \<Rightarrow> 'a list outcome" where
  "buf_peek b n = (if \<not> n \<le> buf_len b then Stuck else peek_loop (chunks b) n [])"

fun drain_loop :: "nat \<Rightarrow> nat \<Rightarrow> 'a chunk list \<Rightarrow> (nat \<times> 'a chunk list) outcome" where
  "drain_loop 0 len cs = Done (len, cs)"
| "drain_loop n len [] = Stuck"
| "drain_loop n len (c # cs) =
     (if length (ch_data c) > n
      then Done (len - n, c\<lparr>ch_data := drop n (ch_data c), ch_offset := ch_offset c + n\<rparr> # cs)
      else drain_loop (n - length (ch_data c)) (len - length (ch_data c)) cs)"

definition buf_drain :: "'a buf \<Rightarrow> nat \<Rightarrow> 'a buf outcome" where
  "buf_drain b n =
     (if \<not> buf_len b \<ge> n then Stuck
      else obind (drain_loop n (buf_len b) (chunks b)) (\<lambda>(len, cs). Done (b\<lparr>buf_len := len, chunks := cs\<rparr>)))"

definition buf_get_bytes :: "'a buf \<Rightarrow> nat \<Rightarrow> ('a list \<times> 'a buf) outcome" where
  "buf_get_bytes b n =
     obind (buf_peek b n) (\<lambda>xs.
     obind (buf_drain b n) (\<lambda>b. if \<not> buf_len b \<le> BUF_MAX_LEN then Stuck else Done (xs, b)))"

definition buf_extract :: "'a buf \<Rightarrow> 'a list outcome" where
  "buf_extract b = buf_peek b (buf_datalen b)"

definition PEEK_BUF_STARTSWITH_MAX :: nat where "PEEK_BUF_STARTSWITH_MAX = 16"

definition buf_peek_startswith :: "'a buf \<Rightarrow> 'a list \<Rightarrow> bool outcome" where
  "buf_peek_startswith b cmd =
     (if cmd = [] then Done True
      else if length cmd > PEEK_BUF_STARTSWITH_MAX then Done False
      else if buf_len b < length cmd then Done False
      else obind (buf_peek b (length cmd)) (\<lambda>tmp. Done (tmp = cmd)))"

text \<open>
  Collecting the first bytes in the first chunk. The loop ends after the branch that takes a part
  of a chunk, where an assertion says that the bytes are all there.
\<close>

fun pullup_loop :: "nat \<Rightarrow> 'a chunk \<Rightarrow> 'a chunk list \<Rightarrow> ('a chunk \<times> 'a chunk list) outcome" where
  "pullup_loop bytes dest [] = (if length (ch_data dest) < bytes then Stuck else Done (dest, []))"
| "pullup_loop bytes dest (src # rest) =
     (if \<not> length (ch_data dest) < bytes then Done (dest, src # rest)
      else let n = bytes - length (ch_data dest)
           in if n \<ge> length (ch_data src)
              then obind (chunk_write dest (ch_data src)) (\<lambda>dest. pullup_loop bytes dest rest)
              else obind (chunk_write dest (take n (ch_data src))) (\<lambda>dest.
                     if length (ch_data dest) \<noteq> bytes then Stuck
                     else Done (dest, src\<lparr>ch_data := drop n (ch_data src), ch_offset := ch_offset src + n\<rparr> # rest)))"

definition make_room :: "'a chunk \<Rightarrow> nat \<Rightarrow> 'a chunk outcome" where
  "make_room hd_chunk cap =
     (if ch_memlen hd_chunk \<ge> cap
      then let needed = cap - length (ch_data hd_chunk);
               c = (if CHUNK_REMAINING_CAPACITY hd_chunk < needed then chunk_repack hd_chunk else hd_chunk)
           in if \<not> CHUNK_REMAINING_CAPACITY c \<ge> needed then Stuck else Done c
      else obind (buf_preferred_chunk_size cap) (\<lambda>alloc.
           obind (chunk_grow (chunk_repack hd_chunk) (CHUNK_SIZE_WITH_ALLOC alloc)) (\<lambda>c.
             if \<not> ch_memlen c \<ge> cap then Stuck else Done c)))"

text \<open>The result names the bytes at \<open>head_out\<close>, \<open>len_out\<close> of them; none for NULL.\<close>

definition buf_pullup :: "'a buf \<Rightarrow> nat \<Rightarrow> ('a buf \<times> 'a list option) outcome" where
  "buf_pullup b bytes =
     (case chunks b of
        [] \<Rightarrow> Done (b, None)
      | c # cs \<Rightarrow>
          let bytes = min (buf_len b) bytes
          in if length (ch_data c) \<ge> bytes then Done (b, Some (ch_data c))
             else obind (make_room c bytes) (\<lambda>c.
                  obind (pullup_loop bytes c cs) (\<lambda>(c, cs).
                    Done (b\<lparr>chunks := c # cs\<rparr>, Some (ch_data c)))))"

section \<open>Between buffers\<close>

partial_function (option) move_loop :: "u32 \<Rightarrow> nat \<Rightarrow> 'a buf \<Rightarrow> 'a buf \<Rightarrow> ('a buf \<times> 'a buf) outcome option" where
  "move_loop now len buf_out buf_in =
     (if len = 0 then Some (Done (buf_out, buf_in))
      else let n = min len 4096
           in case obind (buf_get_bytes buf_in n) (\<lambda>(xs, buf_in).
                case buf_add now buf_out xs of
                  Done buf_out \<Rightarrow> Done (buf_out, buf_in)
                | Fail \<Rightarrow> Done (buf_out, buf_in)
                | Stuck \<Rightarrow> Stuck) of
              Done (buf_out, buf_in) \<Rightarrow> move_loop now (len - n) buf_out buf_in
            | Fail \<Rightarrow> Some Fail
            | Stuck \<Rightarrow> Some Stuck)"

text \<open>The result: both buffers, and what is left of \<open>buf_flushlen\<close>.\<close>

definition buf_move_to_buf :: "u32 \<Rightarrow> 'a buf \<Rightarrow> 'a buf \<Rightarrow> nat \<Rightarrow> ('a buf \<times> 'a buf \<times> nat \<times> nat) outcome" where
  "buf_move_to_buf now buf_out buf_in buf_flushlen =
     (if buf_len buf_out > BUF_MAX_LEN \<or> buf_flushlen > BUF_MAX_LEN then Fail
      else if buf_len buf_out > BUF_MAX_LEN - buf_flushlen then Fail
      else let cp = min buf_flushlen (buf_len buf_in)
           in if \<not> cp \<le> BUF_MAX_LEN then Stuck
              else obind (of_call (move_loop now cp buf_out buf_in)) (\<lambda>(buf_out, buf_in).
                     Done (buf_out, buf_in, buf_flushlen - cp, cp)))"

definition buf_move_all :: "'a buf \<Rightarrow> 'a buf option \<Rightarrow> 'a buf \<times> 'a buf option \<times> nat" where
  "buf_move_all buf_out buf_in =
     (case buf_in of
        None \<Rightarrow> (buf_out, None, 0)
      | Some bi \<Rightarrow>
          if buf_datalen bi = 0 then (buf_out, Some bi, 0)
          else if buf_len buf_out > BUF_MAX_LEN \<or> buf_len bi > BUF_MAX_LEN then (buf_out, Some bi, 0)
          else if buf_len buf_out > BUF_MAX_LEN - buf_len bi then (buf_out, Some bi, 0)
          else (buf_out\<lparr>chunks := chunks buf_out @ chunks bi, buf_len := buf_len buf_out + buf_len bi\<rparr>,
                Some (bi\<lparr>chunks := [], buf_len := 0\<rparr>), buf_len bi))"

section \<open>Searching\<close>

text \<open>A position: the chunks from the current one on, the place in it, the bytes of all before it.\<close>

record 'a buf_pos =
  bp_chunks :: "'a chunk list"
  bp_pos :: nat
  bp_chunk_pos :: nat

definition buf_pos_init :: "'a buf \<Rightarrow> 'a buf_pos" where
  "buf_pos_init b = \<lparr>bp_chunks = chunks b, bp_pos = 0, bp_chunk_pos = 0\<rparr>"

fun memchr :: "'a \<Rightarrow> 'a list \<Rightarrow> nat option" where
  "memchr c [] = None"
| "memchr c (x # xs) = (if x = c then Some 0 else map_option Suc (memchr c xs))"

fun find_char_loop :: "'a \<Rightarrow> 'a chunk list \<Rightarrow> nat \<Rightarrow> nat \<Rightarrow> 'a buf_pos option outcome" where
  "find_char_loop c [] pos chunk_pos = Done None"
| "find_char_loop c (k # ks) pos chunk_pos =
     (case memchr c (drop pos (ch_data k)) of
        Some i \<Rightarrow>
          if \<not> pos + i \<le> BUF_MAX_LEN then Stuck
          else Done (Some \<lparr>bp_chunks = k # ks, bp_pos = pos + i, bp_chunk_pos = chunk_pos\<rparr>)
      | None \<Rightarrow> find_char_loop c ks 0 (chunk_pos + length (ch_data k)))"

text \<open>\<open>None\<close> is -1, after which the position is of no use.\<close>

definition buf_find_pos_of_char :: "'a \<Rightarrow> 'a buf_pos \<Rightarrow> 'a buf_pos option outcome" where
  "buf_find_pos_of_char c p =
     (if (case bp_chunks p of [] \<Rightarrow> False
          | k # _ \<Rightarrow> if ch_data k \<noteq> [] then \<not> bp_pos p < length (ch_data k) else bp_pos p \<noteq> 0)
      then Stuck else find_char_loop c (bp_chunks p) (bp_pos p) (bp_chunk_pos p))"

definition buf_pos_inc :: "'a buf_pos \<Rightarrow> 'a buf_pos option outcome" where
  "buf_pos_inc p =
     (if \<not> bp_pos p < BUF_MAX_LEN then Stuck
      else case bp_chunks p of
             [] \<Rightarrow> Stuck
           | k # ks \<Rightarrow>
               if bp_pos p + 1 = length (ch_data k)
               then (if ks = [] then Done None
                     else Done (Some \<lparr>bp_chunks = ks, bp_pos = 0, bp_chunk_pos = bp_chunk_pos p + length (ch_data k)\<rparr>))
               else Done (Some (p\<lparr>bp_pos := bp_pos p + 1\<rparr>)))"

text \<open>A byte behind the data of a chunk was never written: reading it is \<open>Stuck\<close>.\<close>

fun matches_loop :: "'a buf_pos \<Rightarrow> 'a list \<Rightarrow> bool outcome" where
  "matches_loop p [] = Done True"
| "matches_loop p (s # ss) =
     (case bp_chunks p of
        [] \<Rightarrow> Stuck
      | k # _ \<Rightarrow>
          if \<not> bp_pos p < length (ch_data k) then Stuck
          else if ch_data k ! bp_pos p \<noteq> s then Done False
          else if ss = [] then Done True
          else obind (buf_pos_inc p) (\<lambda>q. case q of None \<Rightarrow> Done False | Some p \<Rightarrow> matches_loop p ss))"

definition buf_matches_at_pos :: "'a buf_pos \<Rightarrow> 'a list \<Rightarrow> bool outcome" where
  "buf_matches_at_pos p s = matches_loop p s"

partial_function (option) find_string_loop :: "'a buf_pos \<Rightarrow> 'a list \<Rightarrow> nat option outcome option" where
  "find_string_loop p s =
     (case (if s = [] then Stuck else buf_find_pos_of_char (hd s) p) of
        Stuck \<Rightarrow> Some Stuck
      | Fail \<Rightarrow> Some Fail
      | Done None \<Rightarrow> Some (Done None)
      | Done (Some p) \<Rightarrow>
          (case buf_matches_at_pos p s of
             Stuck \<Rightarrow> Some Stuck
           | Fail \<Rightarrow> Some Fail
           | Done m \<Rightarrow>
               if m then Some (if \<not> bp_chunk_pos p + bp_pos p \<le> BUF_MAX_LEN then Stuck
                               else Done (Some (bp_chunk_pos p + bp_pos p)))
               else (case buf_pos_inc p of
                  Stuck \<Rightarrow> Some Stuck
                | Fail \<Rightarrow> Some Fail
                | Done None \<Rightarrow> Some (Done None)
                | Done (Some p) \<Rightarrow> find_string_loop p s)))"

definition buf_find_string_offset :: "'a buf \<Rightarrow> 'a list \<Rightarrow> nat option outcome" where
  "buf_find_string_offset b s = of_call (find_string_loop (buf_pos_init b) s)"

fun find_offset_loop :: "'a \<Rightarrow> 'a chunk list \<Rightarrow> nat \<Rightarrow> nat option" where
  "find_offset_loop c [] offset = None"
| "find_offset_loop c (k # ks) offset =
     (case memchr c (ch_data k) of
        Some i \<Rightarrow> Some (offset + i)
      | None \<Rightarrow> find_offset_loop c ks (offset + length (ch_data k)))"

definition buf_find_offset_of_char :: "'a buf \<Rightarrow> 'a \<Rightarrow> nat option outcome" where
  "buf_find_offset_of_char b c = (if \<not> buf_len b \<le> BUF_MAX_LEN then Stuck else Done (find_offset_loop c (chunks b) 0))"

text \<open>A line with its LF, if there is one and it fits \<open>data_len\<close> bytes with the NUL behind it.\<close>

datatype 'a line_result = Line 'a | No_line | Line_too_long nat

definition buf_get_line :: "char buf \<Rightarrow> nat \<Rightarrow> (string line_result \<times> char buf) outcome" where
  "buf_get_line b data_len =
     (if chunks b = [] then Done (No_line, b)
      else obind (buf_find_offset_of_char b NL) (\<lambda>off. case off of
             None \<Rightarrow> Done (No_line, b)
           | Some sz \<Rightarrow>
               if sz + 2 > data_len then Done (Line_too_long (sz + 2), b)
               else obind (buf_get_bytes b (sz + 1)) (\<lambda>(line, b). Done (Line line, b))))"

section \<open>Sockets and pipes\<close>

text \<open>
  What the calls of the operating system find, one after the other. The bytes of the peer come in
  their order: a call that reads finds some number of the next of them (none at the end of the file), and
  one that writes finds room for a number of bytes.
\<close>

datatype read_result = Ready nat | Read_would_block | Read_error
datatype write_result = Wrote nat | Write_would_block | Write_error

text \<open>The bytes read, or -1, and whether the end of the file was reached; and what the peer has left.\<close>

definition read_to_chunk ::
  "'a buf \<Rightarrow> nat \<Rightarrow> read_result \<Rightarrow> 'a list \<Rightarrow> ('a buf \<times> int \<times> bool \<times> 'a list) outcome" where
  "read_to_chunk b at_most res peer =
     (case res of
        Read_error \<Rightarrow> Done (b, - 1, False, peer)
      | Read_would_block \<Rightarrow> Done (b, 0, False, peer)
      | Ready k \<Rightarrow>
          let xs = take (min (min at_most (buf_slack b)) k) peer
          in if xs = [] then Done (b, 0, True, peer)
             else obind (write_to_tail b xs) (\<lambda>b.
                    if \<not> length xs \<le> BUF_MAX_LEN then Stuck
                    else Done (b, int (length xs), False, drop (length xs) peer)))"

text \<open>A call that is not listed would block.\<close>

fun read_loop ::
  "u32 \<Rightarrow> nat \<Rightarrow> nat \<Rightarrow> 'a buf \<Rightarrow> read_result list \<Rightarrow> 'a list \<Rightarrow> ('a buf \<times> int \<times> bool \<times> 'a list) outcome" where
  "read_loop now at_most tot b rs peer =
     (if \<not> at_most > tot then Done (b, int tot, False, peer)
      else let fresh = buf_slack b < MIN_READ_LEN
           in obind (if fresh then buf_add_chunk_with_capacity now b at_most True else Done b) (\<lambda>b.
              let readlen = min (at_most - tot) (if fresh then ch_memlen (last (chunks b)) else buf_slack b)
              in case rs of
                   [] \<Rightarrow> Done (b, int tot, False, peer)
                 | r # rs \<Rightarrow>
                     obind (read_to_chunk b readlen r peer) (\<lambda>(b, n, eof, peer).
                       if n < 0 then Done (b, - 1, eof, peer)
                       else if \<not> tot + nat n \<le> BUF_MAX_LEN then Stuck
                       else if nat n < readlen then Done (b, int (tot + nat n), eof, peer)
                       else read_loop now at_most (tot + nat n) b rs peer)))"

definition buf_read_from_fd ::
  "u32 \<Rightarrow> 'a buf \<Rightarrow> nat \<Rightarrow> read_result list \<Rightarrow> 'a list \<Rightarrow> ('a buf \<times> int \<times> bool \<times> 'a list) outcome" where
  "buf_read_from_fd now b at_most rs peer =
     (if buf_len b > BUF_MAX_LEN then Done (b, - 1, False, peer)
      else if buf_len b > size_sub BUF_MAX_LEN at_most then Done (b, - 1, False, peer)
      else read_loop now at_most 0 b rs peer)"

definition flush_chunk :: "'a buf \<Rightarrow> nat \<Rightarrow> write_result \<Rightarrow> ('a buf \<times> int) outcome" where
  "flush_chunk b sz res =
     (case chunks b of
        [] \<Rightarrow> Stuck
      | c # _ \<Rightarrow>
          (case res of
             Write_error \<Rightarrow> Done (b, - 1)
           | Write_would_block \<Rightarrow> Done (b, 0)
           | Wrote room \<Rightarrow>
               let n = min room (min sz (length (ch_data c)))
               in obind (buf_drain b n) (\<lambda>b. if \<not> n \<le> BUF_MAX_LEN then Stuck else Done (b, int n))))"

text \<open>The result: the buffer, the bytes that were written, the return value.\<close>

fun flush_loop :: "'a buf \<Rightarrow> nat \<Rightarrow> write_result list \<Rightarrow> 'a list \<Rightarrow> ('a buf \<times> 'a list \<times> int) outcome" where
  "flush_loop b 0 ws out = Done (b, out, int (length out))"
| "flush_loop b sz [] out = (if chunks b = [] then Stuck else Done (b, out, int (length out)))"
| "flush_loop b sz (w # ws) out =
     (case chunks b of
        [] \<Rightarrow> Stuck
      | c # _ \<Rightarrow>
          let flushlen0 = min sz (length (ch_data c))
          in obind (flush_chunk b flushlen0 w) (\<lambda>(b', r).
               if r < 0 then Done (b', out, r)
               else let out = out @ take (nat r) (ch_data c)
                    in if r = 0 \<or> nat r < flushlen0 then Done (b', out, int (length out))
                       else flush_loop b' (sz - nat r) ws out))"

definition buf_flush_to_fd :: "'a buf \<Rightarrow> nat \<Rightarrow> write_result list \<Rightarrow> ('a buf \<times> 'a list \<times> int) outcome" where
  "buf_flush_to_fd b sz ws =
     obind (flush_loop b (min sz (buf_len b)) ws []) (\<lambda>(b, out, r).
       if r \<ge> 0 \<and> \<not> length out \<le> BUF_MAX_LEN then Stuck else Done (b, out, r))"

section \<open>The bytes of a buffer\<close>

definition buf_view :: "'a buf \<Rightarrow> 'a list" where
  "buf_view b = concat (map ch_data (chunks b))"

definition chunk_ok :: "'a chunk \<Rightarrow> bool" where
  "chunk_ok c \<longleftrightarrow> ch_offset c + length (ch_data c) \<le> ch_memlen c \<and>
     (ch_data c = [] \<longrightarrow> MIN_READ_LEN \<le> CHUNK_REMAINING_CAPACITY c)"

text \<open>As the notes of the implementation say: every chunk except the tail holds at least a byte.\<close>

definition filled :: "'a chunk list \<Rightarrow> bool" where
  "filled cs \<longleftrightarrow> (\<forall>c \<in> set cs. chunk_ok c) \<and> (\<forall>c \<in> set (butlast cs). ch_data c \<noteq> [])"

definition buf_ok :: "'a buf \<Rightarrow> bool" where
  "buf_ok b \<longleftrightarrow> buf_len b = length (buf_view b) \<and> buf_len b \<le> BUF_MAX_LEN \<and>
     MIN_CHUNK_ALLOC \<le> default_chunk_size b \<and> default_chunk_size b < 2 ^ 63 \<and> filled (chunks b)"

lemma filled_Nil [simp]: "filled []"
  by (simp add: filled_def)

lemma filled_Cons: "filled (c # cs) \<longleftrightarrow> chunk_ok c \<and> filled cs \<and> (cs \<noteq> [] \<longrightarrow> ch_data c \<noteq> [])"
  by (auto simp: filled_def)

lemma filled_snoc: "filled (cs @ [c]) \<longleftrightarrow> (\<forall>k \<in> set cs. chunk_ok k \<and> ch_data k \<noteq> []) \<and> chunk_ok c"
  by (auto simp: filled_def)

lemma filled_butlast: "filled cs \<Longrightarrow> k \<in> set (butlast cs) \<Longrightarrow> chunk_ok k \<and> ch_data k \<noteq> []"
  by (auto simp: filled_def dest: in_set_butlastD)

lemma size_sub_le:
  assumes "b \<le> a" "a < 2 ^ 64"
  shows "size_sub a b = a - b"
proof -
  have "a + 2 ^ 64 - b mod 2 ^ 64 = a - b + 2 ^ 64" using assms by simp
  then have "size_sub a b = (a - b + 2 ^ 64) mod 2 ^ 64" unfolding size_sub_def by (rule arg_cong)
  also have "\<dots> = (a - b) mod 2 ^ 64" by (rule mod_add_self2)
  also have "\<dots> = a - b" using assms by simp
  finally show ?thesis .
qed

lemma alloc_sizes:
  "m < 2 ^ 63 \<Longrightarrow> CHUNK_ALLOC_SIZE m = CHUNK_OVERHEAD + m"
  "CHUNK_OVERHEAD \<le> a \<Longrightarrow> a < 2 ^ 64 \<Longrightarrow> CHUNK_SIZE_WITH_ALLOC a = a - CHUNK_OVERHEAD"
  by (simp_all add: CHUNK_ALLOC_SIZE_def CHUNK_SIZE_WITH_ALLOC_def size_sub_le buf_consts)

lemma preferred_chunk_size:
  assumes "target \<le> BUF_MAX_LEN"
  obtains a where "buf_preferred_chunk_size target = Done a" "target \<le> CHUNK_SIZE_WITH_ALLOC a"
    "MIN_CHUNK_ALLOC \<le> a" "a < 2 ^ 63" "CHUNK_SIZE_WITH_ALLOC a = a - CHUNK_OVERHEAD"
proof -
  have t: "target \<le> 2147483646" using assms by (simp add: buf_consts)
  show thesis
  proof (cases "CHUNK_ALLOC_SIZE target \<ge> MAX_CHUNK_ALLOC")
    case True
    have a: "CHUNK_ALLOC_SIZE target = 48 + target" using alloc_sizes(1) [of target] t by (simp add: buf_consts)
    then show thesis
      using that [of "48 + target"] True t alloc_sizes(2) [of "48 + target"]
      by (simp add: buf_preferred_chunk_size_def buf_consts)
  next
    case False
    define sz where "sz = while (\<lambda>sz. CHUNK_SIZE_WITH_ALLOC sz < target) (\<lambda>sz. 2 * sz) MIN_CHUNK_ALLOC"
    have small: "target < 65536" using False alloc_sizes(1) [of target] t by (simp add: buf_consts)
    have "256 \<le> sz \<and> sz \<le> 2 ^ 18 \<and> \<not> CHUNK_SIZE_WITH_ALLOC sz < target"
      unfolding sz_def
    proof (rule while_rule [where P = "\<lambda>s. 256 \<le> s \<and> s \<le> 2 ^ 18" and r = "measure (\<lambda>s. 2 ^ 19 - s)"])
      fix s :: nat
      assume s: "256 \<le> s \<and> s \<le> 2 ^ 18" and lt: "CHUNK_SIZE_WITH_ALLOC s < target"
      have "CHUNK_SIZE_WITH_ALLOC s = s - 48" using alloc_sizes(2) [of s] s by (simp add: buf_consts)
      then have "s < 65584" using lt small by simp
      then show "256 \<le> 2 * s \<and> 2 * s \<le> 2 ^ 18" "(2 * s, s) \<in> measure (\<lambda>s. 2 ^ 19 - s)" using s by auto
    qed (simp_all add: buf_consts)
    then have sz: "256 \<le> sz" "sz \<le> 2 ^ 18" "\<not> CHUNK_SIZE_WITH_ALLOC sz < target" by auto
    have "CHUNK_SIZE_WITH_ALLOC sz = sz - CHUNK_OVERHEAD" using alloc_sizes(2) [of sz] sz by (simp add: buf_consts)
    moreover have "buf_preferred_chunk_size target = Done sz"
      using False t by (simp add: buf_preferred_chunk_size_def sz_def) (simp add: buf_consts)
    ultimately show thesis using that [of sz] sz by (simp add: buf_consts)
  qed
qed

section \<open>Adding\<close>

lemma add_chunk:
  assumes ok: "buf_ok b" and cap: "1 \<le> cap" "cap \<le> BUF_MAX_LEN"
  obtains c where "buf_add_chunk_with_capacity now b cap True = Done (b\<lparr>chunks := chunks b @ [c]\<rparr>)"
    "ch_data c = []" "ch_offset c = 0" "MIN_READ_LEN \<le> ch_memlen c"
proof -
  have d: "MIN_CHUNK_ALLOC \<le> default_chunk_size b" "default_chunk_size b < 2 ^ 63" using ok by (simp_all add: buf_ok_def)
  have *: "\<exists>a. (if CHUNK_ALLOC_SIZE cap < default_chunk_size b then Done (default_chunk_size b)
            else if True \<and> CHUNK_ALLOC_SIZE cap > MAX_CHUNK_ALLOC then Done MAX_CHUNK_ALLOC
            else buf_preferred_chunk_size cap) = Done a \<and> MIN_CHUNK_ALLOC \<le> a \<and> a < 2 ^ 63"
    using preferred_chunk_size [OF cap(2)] d by (auto simp: buf_consts)
  then obtain a where a: "(if CHUNK_ALLOC_SIZE cap < default_chunk_size b then Done (default_chunk_size b)
            else if True \<and> CHUNK_ALLOC_SIZE cap > MAX_CHUNK_ALLOC then Done MAX_CHUNK_ALLOC
            else buf_preferred_chunk_size cap) = Done a" "MIN_CHUNK_ALLOC \<le> a" "a < 2 ^ 63" by blast
  let ?c = "(chunk_new_with_alloc_size a)\<lparr>ch_inserted := now\<rparr>"
  have "CHUNK_SIZE_WITH_ALLOC a = a - CHUNK_OVERHEAD" using alloc_sizes(2) [of a] a by (simp add: buf_consts)
  then have "MIN_READ_LEN \<le> ch_memlen ?c" using a by (simp add: chunk_new_with_alloc_size_def buf_consts)
  moreover have "buf_add_chunk_with_capacity now b cap True = Done (b\<lparr>chunks := chunks b @ [?c]\<rparr>)"
    unfolding buf_add_chunk_with_capacity_def using a(1) by simp
  moreover have "ch_data ?c = []" "ch_offset ?c = 0" by (simp_all add: chunk_new_with_alloc_size_def)
  ultimately show thesis using that by blast
qed

text \<open>Room at the tail takes as many bytes as it is large.\<close>

lemma write_to_tail_ok:
  assumes ok: "buf_ok b" and l: "length xs \<le> buf_slack b" "buf_len b + length xs \<le> BUF_MAX_LEN" and ne: "xs \<noteq> []"
  obtains b' where "write_to_tail b xs = Done b'" "buf_ok b'" "buf_view b' = buf_view b @ xs"
    "default_chunk_size b' = default_chunk_size b"
proof -
  have cs: "chunks b \<noteq> []" using l(1) ne by (auto simp: buf_slack_def)
  then obtain ks c where k: "chunks b = ks @ [c]" by (meson rev_exhaust)
  let ?c = "c\<lparr>ch_data := ch_data c @ xs\<rparr>" and ?b = "b\<lparr>chunks := ks @ [c\<lparr>ch_data := ch_data c @ xs\<rparr>], buf_len := buf_len b + length xs\<rparr>"
  have c: "chunk_ok c" "\<forall>k \<in> set ks. chunk_ok k \<and> ch_data k \<noteq> []" using ok k by (simp_all add: buf_ok_def filled_snoc)
  have fit: "ch_offset c + length (ch_data c) + length xs \<le> ch_memlen c"
    using l(1) k c(1) by (auto simp: buf_slack_def CHUNK_REMAINING_CAPACITY_def chunk_ok_def)
  then have "write_to_tail b xs = Done ?b" using k by (simp add: write_to_tail_def chunk_write_def)
  moreover have "buf_view ?b = buf_view b @ xs" using k by (simp add: buf_view_def)
  moreover have "chunk_ok ?c" using fit ne by (simp add: chunk_ok_def)
  ultimately show thesis using that [of ?b] ok l(2) c(2) by (simp add: buf_ok_def filled_snoc)
qed

lemma buf_ok_add_chunk:
  assumes "buf_ok b" "chunks b = [] \<or> ch_data (last (chunks b)) \<noteq> []" "ch_data c = []" "ch_offset c = 0" "MIN_READ_LEN \<le> ch_memlen c"
  shows "buf_ok (b\<lparr>chunks := chunks b @ [c]\<rparr>)" "buf_view (b\<lparr>chunks := chunks b @ [c]\<rparr>) = buf_view b"
    "buf_slack (b\<lparr>chunks := chunks b @ [c]\<rparr>) = ch_memlen c"
proof -
  have "\<forall>k \<in> set (chunks b). chunk_ok k \<and> ch_data k \<noteq> []"
  proof (cases "chunks b" rule: rev_cases)
    case (snoc ks k)
    then show ?thesis using assms(1,2) by (simp add: buf_ok_def filled_snoc)
  qed simp
  moreover have "chunk_ok c" using assms(3-5) by (simp add: chunk_ok_def CHUNK_REMAINING_CAPACITY_def)
  ultimately show "buf_ok (b\<lparr>chunks := chunks b @ [c]\<rparr>)"
    using assms(1,3) by (simp add: buf_ok_def filled_snoc buf_view_def)
  show "buf_view (b\<lparr>chunks := chunks b @ [c]\<rparr>) = buf_view b" using assms(3) by (simp add: buf_view_def)
  show "buf_slack (b\<lparr>chunks := chunks b @ [c]\<rparr>) = ch_memlen c" using assms(3,4) by (simp add: buf_slack_def CHUNK_REMAINING_CAPACITY_def)
qed

lemma low_slack_tail:
  "buf_ok b \<Longrightarrow> buf_slack b < MIN_READ_LEN \<Longrightarrow> chunks b = [] \<or> ch_data (last (chunks b)) \<noteq> []"
  by (cases "chunks b" rule: rev_cases) (auto simp: buf_ok_def filled_snoc chunk_ok_def buf_slack_def)

lemma add_loop:
  assumes "buf_ok b" "buf_len b + length xs \<le> BUF_MAX_LEN"
  shows "\<exists>b'. buf_add_loop now xs b = Some (Done b') \<and> buf_ok b' \<and> buf_view b' = buf_view b @ xs"
  using assms
proof (induction "length xs" arbitrary: xs b rule: less_induct)
  case less
  note unf = buf_add_loop.simps [of now xs b]
  show ?case
  proof (cases "xs = []")
    case True
    then show ?thesis using unf less.prems by simp
  next
    case False
    have "\<exists>b1. (if buf_slack b = 0 then buf_add_chunk_with_capacity now b (length xs) True else Done b) = Done b1 \<and>
      buf_ok b1 \<and> buf_view b1 = buf_view b \<and> 0 < buf_slack b1"
    proof (cases "buf_slack b = 0")
      case True
      have n: "1 \<le> length xs" "length xs \<le> BUF_MAX_LEN" using False less.prems(2) by (simp_all add: Suc_le_eq)
      obtain c where c: "buf_add_chunk_with_capacity now b (length xs) True = Done (b\<lparr>chunks := chunks b @ [c]\<rparr>)"
        "ch_data c = []" "ch_offset c = 0" "MIN_READ_LEN \<le> ch_memlen c" using add_chunk [OF less.prems(1) n] .
      have "buf_slack b < MIN_READ_LEN" using True by (simp add: buf_consts)
      from buf_ok_add_chunk [OF less.prems(1) low_slack_tail [OF less.prems(1) this] c(2-4)] c(1,4) True
      show ?thesis by (simp add: buf_consts)
    qed (use less.prems in simp)
    then obtain b1 where b1: "(if buf_slack b = 0 then buf_add_chunk_with_capacity now b (length xs) True else Done b) = Done b1"
      "buf_ok b1" "buf_view b1 = buf_view b" "0 < buf_slack b1" by blast
    define copy where "copy = min (buf_slack b1) (length xs)"
    have cp: "0 < copy" "copy \<le> buf_slack b1" "copy \<le> length xs" using b1(4) False by (auto simp: copy_def)
    have len: "buf_len b1 = buf_len b" using b1(2,3) less.prems(1) by (simp add: buf_ok_def)
    have t: "length (take copy xs) \<le> buf_slack b1" "buf_len b1 + length (take copy xs) \<le> BUF_MAX_LEN" "take copy xs \<noteq> []"
      using cp less.prems(2) len False by auto
    obtain b2 where b2: "write_to_tail b1 (take copy xs) = Done b2" "buf_ok b2" "buf_view b2 = buf_view b1 @ take copy xs"
      using write_to_tail_ok [OF b1(2) t] by blast
    have l2: "buf_len b2 + length (drop copy xs) \<le> BUF_MAX_LEN"
      using b2(2,3) b1(2) len less.prems(2) cp(3) by (simp add: buf_ok_def)
    have "length (drop copy xs) < length xs" using cp(1) False by simp
    from less.hyps [OF this b2(2) l2] obtain b' where b': "buf_add_loop now (drop copy xs) b2 = Some (Done b')"
      "buf_ok b'" "buf_view b' = buf_view b2 @ drop copy xs" by blast
    have "buf_add_loop now xs b = Some (Done b')"
      by (subst unf) (simp add: False b1(1) b2(1) b'(1) Let_def copy_def [symmetric])
    then show ?thesis using b'(2,3) b2(3) b1(3) by simp
  qed
qed

lemma buf_add_ok:
  assumes ok: "buf_ok b" and l: "length (buf_view b) + length xs \<le> BUF_MAX_LEN"
  obtains b' where "buf_add now b xs = Done b'" "buf_ok b'" "buf_view b' = buf_view b @ xs"
proof (cases "xs = []")
  case True
  then show thesis using that [of b] ok by (simp add: buf_add_def)
next
  case False
  have len: "buf_len b = length (buf_view b)" "buf_len b \<le> BUF_MAX_LEN" using ok by (simp_all add: buf_ok_def)
  have "size_sub BUF_MAX_LEN (length xs) = BUF_MAX_LEN - length xs" using l by (intro size_sub_le) (simp_all add: buf_consts)
  moreover obtain b' where b': "buf_add_loop now xs b = Some (Done b')" "buf_ok b'" "buf_view b' = buf_view b @ xs"
    using add_loop [OF ok] l len by metis
  moreover have "buf_len b' \<le> BUF_MAX_LEN" using b'(2) by (simp add: buf_ok_def)
  ultimately show thesis using that [of b'] False len l by (simp add: buf_add_def of_call_def)
qed

section \<open>Taking\<close>

lemma peek_loop_eq:
  "n \<le> length (concat (map ch_data cs)) \<Longrightarrow> peek_loop cs n out = Done (out @ take n (concat (map ch_data cs)))"
  by (induction cs n out rule: peek_loop.induct) (auto simp: Let_def min_def)

lemma buf_peek_ok: "buf_ok b \<Longrightarrow> n \<le> length (buf_view b) \<Longrightarrow> buf_peek b n = Done (take n (buf_view b))"
  by (simp add: buf_peek_def buf_ok_def buf_view_def peek_loop_eq)

lemma drain_loop_ok:
  assumes "n \<le> length (concat (map ch_data cs))" "len = length (concat (map ch_data cs))" "filled cs"
  shows "\<exists>cs'. drain_loop n len cs = Done (len - n, cs') \<and> filled cs' \<and>
    concat (map ch_data cs') = drop n (concat (map ch_data cs))"
  using assms
proof (induction n len cs rule: drain_loop.induct)
  case (3 n len c cs)
  show ?case
  proof (cases "length (ch_data c) > Suc n")
    case True
    then show ?thesis using "3.prems" by (auto simp: filled_Cons chunk_ok_def)
  next
    case False
    then have "\<exists>cs'. drain_loop (Suc n - length (ch_data c)) (len - length (ch_data c)) cs =
        Done (len - length (ch_data c) - (Suc n - length (ch_data c)), cs') \<and> filled cs' \<and>
        concat (map ch_data cs') = drop (Suc n - length (ch_data c)) (concat (map ch_data cs))"
      using "3.prems" "3.IH" by (auto simp: filled_Cons)
    then show ?thesis using False by auto
  qed
qed auto

lemma buf_drain_ok:
  assumes ok: "buf_ok b" and n: "n \<le> length (buf_view b)"
  obtains b' where "buf_drain b n = Done b'" "buf_ok b'" "buf_view b' = drop n (buf_view b)"
proof -
  have len: "buf_len b = length (concat (map ch_data (chunks b)))" and f: "filled (chunks b)"
    using ok by (simp_all add: buf_ok_def buf_view_def)
  have "n \<le> length (concat (map ch_data (chunks b)))" using n by (simp add: buf_view_def)
  from drain_loop_ok [OF this len f] obtain cs' where cs': "drain_loop n (buf_len b) (chunks b) = Done (buf_len b - n, cs')"
    "filled cs'" "concat (map ch_data cs') = drop n (concat (map ch_data (chunks b)))" by blast
  let ?b = "b\<lparr>buf_len := buf_len b - n, chunks := cs'\<rparr>"
  have v: "buf_view ?b = drop n (buf_view b)" using cs'(3) by (simp add: buf_view_def)
  have "buf_drain b n = Done ?b" using cs'(1) n ok by (simp add: buf_drain_def buf_ok_def)
  moreover have "buf_ok ?b" using ok cs'(2) v by (auto simp: buf_ok_def)
  ultimately show thesis using that v by blast
qed

lemma buf_get_bytes_ok:
  assumes ok: "buf_ok b" and n: "n \<le> length (buf_view b)"
  obtains b' where "buf_get_bytes b n = Done (take n (buf_view b), b')" "buf_ok b'" "buf_view b' = drop n (buf_view b)"
proof -
  obtain b' where b': "buf_drain b n = Done b'" "buf_ok b'" "buf_view b' = drop n (buf_view b)" by (rule buf_drain_ok [OF ok n])
  then show thesis using that buf_peek_ok [OF ok n] by (simp add: buf_get_bytes_def buf_ok_def)
qed

lemma pullup_loop_ok:
  assumes "bytes \<le> length (ch_data dest) + length (concat (map ch_data cs))" "filled (dest # cs)" "ch_data dest \<noteq> []"
    and "bytes \<le> ch_memlen dest - ch_offset dest" "chunk_ok dest"
  shows "\<exists>dest' cs'. pullup_loop bytes dest cs = Done (dest', cs') \<and> filled (dest' # cs') \<and>
    ch_data dest' @ concat (map ch_data cs') = ch_data dest @ concat (map ch_data cs) \<and> bytes \<le> length (ch_data dest')"
  using assms
proof (induction bytes dest cs rule: pullup_loop.induct)
  case (1 bytes dest)
  then show ?case by simp
next
  case (2 bytes dest src rest)
  let ?n = "bytes - length (ch_data dest)"
  show ?case
  proof (cases "length (ch_data dest) < bytes")
    case False
    then show ?thesis using "2.prems" by simp
  next
    case True
    show ?thesis
    proof (cases "?n \<ge> length (ch_data src)")
      case full: True
      let ?d = "dest\<lparr>ch_data := ch_data dest @ ch_data src\<rparr>"
      have w: "chunk_write dest (ch_data src) = Done ?d"
        using "2.prems"(4,5) full True by (auto simp: chunk_write_def chunk_ok_def)
      have d: "chunk_ok ?d" using "2.prems"(3,4,5) full True by (auto simp: chunk_ok_def)
      have "\<exists>dest' cs'. pullup_loop bytes ?d rest = Done (dest', cs') \<and> filled (dest' # cs') \<and>
          ch_data dest' @ concat (map ch_data cs') = ch_data ?d @ concat (map ch_data rest) \<and> bytes \<le> length (ch_data dest')"
        by (rule "2.IH" [OF _ refl full w]) (use "2.prems" True d in \<open>auto simp: filled_Cons\<close>)
      then show ?thesis using True full w by (auto simp: Let_def)
    next
      case part: False
      let ?d = "dest\<lparr>ch_data := ch_data dest @ take ?n (ch_data src)\<rparr>"
      let ?s = "src\<lparr>ch_data := drop ?n (ch_data src), ch_offset := ch_offset src + ?n\<rparr>"
      have w: "chunk_write dest (take ?n (ch_data src)) = Done ?d"
        using "2.prems"(4,5) part True by (auto simp: chunk_write_def chunk_ok_def)
      have d: "chunk_ok ?d" "chunk_ok ?s"
        using "2.prems"(2-5) part True by (auto simp: chunk_ok_def filled_Cons)
      have l: "length (ch_data ?d) = bytes" using part True by simp
      have "filled (?d # ?s # rest)" using "2.prems"(2,3) d part by (auto simp: filled_Cons)
      then show ?thesis using True part w l by (auto simp: Let_def)
    qed
  qed
qed

lemma make_room_ok:
  assumes c: "chunk_ok c" "ch_data c \<noteq> []" and n: "length (ch_data c) < bytes" "bytes \<le> BUF_MAX_LEN"
  obtains c' where "make_room c bytes = Done c'" "chunk_ok c'" "ch_data c' = ch_data c" "bytes \<le> ch_memlen c' - ch_offset c'"
proof (cases "ch_memlen c \<ge> bytes")
  case True
  let ?c = "if CHUNK_REMAINING_CAPACITY c < bytes - length (ch_data c) then chunk_repack c else c"
  have "make_room c bytes = Done ?c \<and> chunk_ok ?c \<and> bytes \<le> ch_memlen ?c - ch_offset ?c"
    using c n(1) True by (auto simp: make_room_def chunk_repack_def CHUNK_REMAINING_CAPACITY_def chunk_ok_def Let_def)
  moreover have "ch_data ?c = ch_data c" by (simp add: chunk_repack_def)
  ultimately show thesis using that by blast
next
  case False
  obtain a where a: "buf_preferred_chunk_size bytes = Done a" "bytes \<le> CHUNK_SIZE_WITH_ALLOC a"
    using preferred_chunk_size [OF n(2)] by metis
  let ?c = "c\<lparr>ch_offset := 0, ch_memlen := CHUNK_SIZE_WITH_ALLOC a\<rparr>"
  have "make_room c bytes = Done ?c"
    using a False by (simp add: make_room_def chunk_grow_def chunk_repack_def)
  then show thesis using that [of ?c] a(2) n(1) c by (auto simp: chunk_ok_def)
qed

lemma buf_pullup_ok:
  assumes ok: "buf_ok b"
  obtains b' out where "buf_pullup b n = Done (b', out)" "buf_ok b'" "buf_view b' = buf_view b"
    "case out of None \<Rightarrow> buf_view b = [] | Some xs \<Rightarrow> \<exists>ys. buf_view b = xs @ ys \<and> min n (length (buf_view b)) \<le> length xs"
proof (cases "chunks b")
  case Nil
  then show thesis using that [of b None] ok by (simp add: buf_pullup_def buf_view_def)
next
  case (Cons c cs)
  let ?n = "min (buf_len b) n"
  have len: "buf_len b = length (buf_view b)" "buf_len b \<le> BUF_MAX_LEN" and f: "filled (c # cs)"
    using ok Cons by (simp_all add: buf_ok_def)
  have v: "buf_view b = ch_data c @ concat (map ch_data cs)" using Cons by (simp add: buf_view_def)
  show thesis
  proof (cases "length (ch_data c) \<ge> ?n")
    case True
    then show thesis using that [of b "Some (ch_data c)"] ok Cons v len by (auto simp: buf_pullup_def Let_def min.commute)
  next
    case False
    have ne: "ch_data c \<noteq> []" using False f v len by (cases cs) (auto simp: filled_Cons)
    obtain c' where c': "make_room c ?n = Done c'" "chunk_ok c'" "ch_data c' = ch_data c" "?n \<le> ch_memlen c' - ch_offset c'"
    proof (rule make_room_ok [of c ?n])
      show "chunk_ok c" "ch_data c \<noteq> []" "length (ch_data c) < ?n" "?n \<le> BUF_MAX_LEN"
        using f ne False len(2) by (auto simp: filled_Cons)
    qed
    have n: "?n \<le> length (ch_data c') + length (concat (map ch_data cs))" using len(1) v c'(3) by simp
    have f': "filled (c' # cs)" using f c' ne by (simp add: filled_Cons)
    obtain d ds where d: "pullup_loop ?n c' cs = Done (d, ds)" "filled (d # ds)"
      "ch_data d @ concat (map ch_data ds) = buf_view b" "?n \<le> length (ch_data d)"
      using pullup_loop_ok [OF n f' _ c'(4,2)] ne c'(3) v by auto
    let ?b = "b\<lparr>chunks := d # ds\<rparr>"
    have vb: "buf_view ?b = buf_view b" using d(3) by (simp add: buf_view_def)
    have "buf_pullup b n = Done (?b, Some (ch_data d))"
      using Cons False c'(1) d(1) by (simp add: buf_pullup_def Let_def)
    moreover have "buf_ok ?b" using ok d(2) vb by (simp add: buf_ok_def)
    moreover have "\<exists>ys. buf_view b = ch_data d @ ys \<and> min n (length (buf_view b)) \<le> length (ch_data d)"
      using d(3,4) len(1) by (intro exI [of _ "concat (map ch_data ds)"]) (simp add: min.commute)
    ultimately show thesis using that vb by auto
  qed
qed

section \<open>Moving, reading, writing\<close>

lemma move_loop_ok:
  assumes "buf_ok bo" "buf_ok bi" "len \<le> length (buf_view bi)" "length (buf_view bo) + len \<le> BUF_MAX_LEN"
  shows "\<exists>bo' bi'. move_loop now len bo bi = Some (Done (bo', bi')) \<and> buf_ok bo' \<and> buf_ok bi' \<and>
    buf_view bo' = buf_view bo @ take len (buf_view bi) \<and> buf_view bi' = drop len (buf_view bi)"
  using assms
proof (induction len arbitrary: bo bi rule: less_induct)
  case (less len)
  note unf = move_loop.simps [of now len bo bi]
  show ?case
  proof (cases "len = 0")
    case True
    then show ?thesis using unf less.prems by simp
  next
    case False
    let ?n = "min len 4096"
    have n: "?n \<le> length (buf_view bi)" "len - ?n < len" using less.prems(3) False by auto
    obtain bi1 where bi1: "buf_get_bytes bi ?n = Done (take ?n (buf_view bi), bi1)" "buf_ok bi1" "buf_view bi1 = drop ?n (buf_view bi)"
      by (rule buf_get_bytes_ok [OF less.prems(2) n(1)])
    have "length (buf_view bo) + length (take ?n (buf_view bi)) \<le> BUF_MAX_LEN" using less.prems(4) by auto
    then obtain bo1 where bo1: "buf_add now bo (take ?n (buf_view bi)) = Done bo1" "buf_ok bo1"
      "buf_view bo1 = buf_view bo @ take ?n (buf_view bi)" using buf_add_ok [OF less.prems(1)] by blast
    have "len - ?n \<le> length (buf_view bi1)" "length (buf_view bo1) + (len - ?n) \<le> BUF_MAX_LEN"
      using bi1(3) bo1(3) less.prems(3,4) by auto
    from less.IH [OF n(2) bo1(2) bi1(2) this] obtain bo' bi' where
      "move_loop now (len - ?n) bo1 bi1 = Some (Done (bo', bi'))" "buf_ok bo'" "buf_ok bi'"
      "buf_view bo' = buf_view bo1 @ take (len - ?n) (buf_view bi1)" "buf_view bi' = drop (len - ?n) (buf_view bi1)" by blast
    moreover have "take ?n (buf_view bi) @ take (len - ?n) (drop ?n (buf_view bi)) = take len (buf_view bi)"
      by (simp add: min_def take_add [symmetric])
    ultimately show ?thesis
      using unf False bi1(1,3) bo1(1,3) by (auto simp: Let_def)
  qed
qed

lemma buf_move_to_buf_ok:
  assumes "buf_ok bo" "buf_ok bi" "length (buf_view bo) + n \<le> BUF_MAX_LEN"
  obtains bo' bi' k where "buf_move_to_buf now bo bi n = Done (bo', bi', n - k, k)" "k = min n (length (buf_view bi))"
    "buf_ok bo'" "buf_ok bi'" "buf_view bo' = buf_view bo @ take n (buf_view bi)" "buf_view bi' = drop n (buf_view bi)"
proof -
  have l: "buf_len bo = length (buf_view bo)" "buf_len bi = length (buf_view bi)" using assms(1,2) by (simp_all add: buf_ok_def)
  have "min n (buf_len bi) \<le> length (buf_view bi)" "length (buf_view bo) + min n (buf_len bi) \<le> BUF_MAX_LEN"
    using l assms(3) by auto
  from move_loop_ok [OF assms(1,2) this, of now] obtain bo' bi' where
    "move_loop now (min n (buf_len bi)) bo bi = Some (Done (bo', bi'))" "buf_ok bo'" "buf_ok bi'"
    "buf_view bo' = buf_view bo @ take (min n (buf_len bi)) (buf_view bi)"
    "buf_view bi' = drop (min n (buf_len bi)) (buf_view bi)" by blast
  then show thesis
    using that [of bo' bi' "min n (length (buf_view bi))"] l assms(3)
    by (simp add: buf_move_to_buf_def of_call_def Let_def min_def split: if_splits)
qed

text \<open>The chunk the next read goes to.\<close>

lemma tail_room:
  assumes ok: "buf_ok b" and at: "1 \<le> cap" "cap \<le> BUF_MAX_LEN"
  obtains b1 where
    "(if buf_slack b < MIN_READ_LEN then buf_add_chunk_with_capacity now b cap True else Done b) = Done b1" "buf_ok b1"
    "buf_view b1 = buf_view b" "0 < buf_slack b1"
    "(if buf_slack b < MIN_READ_LEN then ch_memlen (last (chunks b1)) else buf_slack b1) = buf_slack b1"
proof (cases "buf_slack b < MIN_READ_LEN")
  case True
  obtain c where c: "buf_add_chunk_with_capacity now b cap True = Done (b\<lparr>chunks := chunks b @ [c]\<rparr>)"
    "ch_data c = []" "ch_offset c = 0" "MIN_READ_LEN \<le> ch_memlen c" using add_chunk [OF ok at] .
  note n = buf_ok_add_chunk [OF ok low_slack_tail [OF ok True] c(2-4)]
  show thesis by (rule that [of "b\<lparr>chunks := chunks b @ [c]\<rparr>"]) (use n c(1,4) True in \<open>simp_all add: buf_consts\<close>)
next
  case False
  then show thesis using that [of b] ok by (simp add: buf_consts)
qed

text \<open>What was read are the next bytes of the peer, added at the end.\<close>

lemma read_to_chunk_ok:
  assumes ok: "buf_ok b" and n: "n \<le> buf_slack b" "length (buf_view b) + n \<le> BUF_MAX_LEN"
  obtains (nothing) r eof where "read_to_chunk b n res peer = Done (b, r, eof, peer)" "r = 0 \<or> r = - 1"
  | (some) xs peer' b' where "read_to_chunk b n res peer = Done (b', int (length xs), False, peer')" "xs \<noteq> []" "length xs \<le> n"
      "peer = xs @ peer'" "buf_ok b'" "buf_view b' = buf_view b @ xs"
proof (cases "\<exists>k. res = Ready k \<and> take (min n k) peer \<noteq> []")
  case False
  have m: "min n (buf_slack b) = n" using n(1) by simp
  have "\<exists>r eof. read_to_chunk b n res peer = Done (b, r, eof, peer) \<and> (r = 0 \<or> r = - 1)"
    using False by (cases res) (auto simp: read_to_chunk_def m Let_def)
  then obtain r eof where "read_to_chunk b n res peer = Done (b, r, eof, peer)" "r = 0 \<or> r = - 1" by auto
  then show thesis by (rule nothing)
next
  case True
  then obtain k where k: "res = Ready k" "take (min n k) peer \<noteq> []" by blast
  obtain xs where xs: "xs = take (min n k) peer" by blast
  have l: "length xs \<le> n" "length xs \<le> buf_slack b" "xs \<noteq> []" using n(1) k(2) by (auto simp: xs)
  have fit: "buf_len b + length xs \<le> BUF_MAX_LEN" using l(1) n(2) ok by (simp add: buf_ok_def)
  obtain b' where b': "write_to_tail b xs = Done b'" "buf_ok b'" "buf_view b' = buf_view b @ xs"
    using write_to_tail_ok [OF ok l(2) fit l(3)] by blast
  have "min n (buf_slack b) = n" using n(1) by simp
  then have rd: "read_to_chunk b n res peer = Done (b', int (length xs), False, drop (length xs) peer)"
    using k(1) l(3) b'(1) fit by (simp add: read_to_chunk_def Let_def xs [symmetric])
  have peer: "peer = xs @ drop (length xs) peer" by (simp add: xs min_def)
  show thesis by (rule some [OF rd l(3,1) peer b'(2,3)])
qed

declare read_loop.simps [simp del]

lemma read_loop_step:
  assumes ok: "buf_ok b" and at: "tot < at_most" "at_most \<le> BUF_MAX_LEN"
  obtains b1 n where "buf_ok b1" "buf_view b1 = buf_view b" "n \<le> buf_slack b1" "0 < n" "tot + n \<le> at_most"
    "read_loop now at_most tot b rs peer = (case rs of
          [] \<Rightarrow> Done (b1, int tot, False, peer)
        | r # rs' \<Rightarrow> obind (read_to_chunk b1 n r peer) (\<lambda>(b, m, eof, peer).
            if m < 0 then Done (b, - 1, eof, peer)
            else if \<not> tot + nat m \<le> BUF_MAX_LEN then Stuck
            else if nat m < n then Done (b, int (tot + nat m), eof, peer)
            else read_loop now at_most (tot + nat m) b rs' peer))"
proof -
  let ?fresh = "buf_slack b < MIN_READ_LEN"
  have at': "1 \<le> at_most" "at_most \<le> BUF_MAX_LEN" using at by simp_all
  obtain b1 where b1: "(if ?fresh then buf_add_chunk_with_capacity now b at_most True else Done b) = Done b1" "buf_ok b1"
    "buf_view b1 = buf_view b" "0 < buf_slack b1" "(if ?fresh then ch_memlen (last (chunks b1)) else buf_slack b1) = buf_slack b1"
    by (rule tail_room [OF ok at'])
  define n where "n = min (at_most - tot) (buf_slack b1)"
  have rl: "min (at_most - tot) (if ?fresh then ch_memlen (last (chunks b1)) else buf_slack b1) = n"
    by (simp only: b1(5) n_def)
  show thesis
  proof (rule that [of b1 n])
    show "buf_ok b1" "buf_view b1 = buf_view b" "n \<le> buf_slack b1" "0 < n" "tot + n \<le> at_most"
      using b1 at by (auto simp: n_def)
  qed (unfold rl [symmetric], subst read_loop.simps, simp only: Let_def b1(1) obind.simps at(1) not_True_eq_False if_False)
qed

lemma read_loop_ok:
  assumes "buf_ok b" "length (buf_view b) + at_most \<le> BUF_MAX_LEN + tot" "tot \<le> at_most" "at_most \<le> BUF_MAX_LEN"
  shows "\<exists>b' n eof peer' xs. read_loop now at_most tot b rs peer = Done (b', n, eof, peer') \<and> buf_ok b' \<and>
    buf_view b' = buf_view b @ xs \<and> peer = xs @ peer' \<and>
    length xs + tot \<le> at_most \<and> (0 \<le> n \<longrightarrow> n = int (tot + length xs))"
  using assms
proof (induction rs arbitrary: b tot peer)
  case Nil
  show ?case
  proof (cases "tot < at_most")
    case True
    obtain b1 n where "buf_ok b1" "buf_view b1 = buf_view b" "read_loop now at_most tot b [] peer = Done (b1, int tot, False, peer)"
      by (rule read_loop_step [OF Nil.prems(1) True Nil.prems(4), of now "[]" peer]) simp
    then show ?thesis using Nil.prems(3) by auto
  qed (use Nil.prems in \<open>subst read_loop.simps, auto\<close>)
next
  case (Cons r rs)
  show ?case
  proof (cases "tot < at_most")
    case False
    then show ?thesis using Cons.prems by (subst read_loop.simps) auto
  next
    case True
    obtain b1 n where b1: "buf_ok b1" "buf_view b1 = buf_view b" "n \<le> buf_slack b1" "0 < n" "tot + n \<le> at_most"
      and step: "read_loop now at_most tot b (r # rs) peer = obind (read_to_chunk b1 n r peer) (\<lambda>(b, m, eof, peer).
            if m < 0 then Done (b, - 1, eof, peer)
            else if \<not> tot + nat m \<le> BUF_MAX_LEN then Stuck
            else if nat m < n then Done (b, int (tot + nat m), eof, peer)
            else read_loop now at_most (tot + nat m) b rs peer)"
      by (rule read_loop_step [OF Cons.prems(1) True Cons.prems(4), of now "r # rs" peer]) simp
    have room: "length (buf_view b1) + n \<le> BUF_MAX_LEN" using Cons.prems(2) b1(2,5) by simp
    from b1(1,3) room show ?thesis
    proof (cases rule: read_to_chunk_ok [of b1 n r peer])
      case (nothing m eof)
      then have "\<exists>m. read_loop now at_most tot b (r # rs) peer = Done (b1, m, eof, peer) \<and> (m = int tot \<or> m = - 1)"
        using step b1(4,5) Cons.prems(4) by auto
      then show ?thesis using b1(1,2) Cons.prems(3) by auto
    next
      case (some xs peer1 b2)
      have at: "length xs + tot \<le> at_most" "tot + length xs \<le> BUF_MAX_LEN" using some(3) b1(5) Cons.prems(4) by simp_all
      have go: "read_loop now at_most tot b (r # rs) peer = (if length xs < n then Done (b2, int (tot + length xs), False, peer1)
          else read_loop now at_most (tot + length xs) b2 rs peer1)" using step some(1) at(2) by simp
      have "length (buf_view b2) + at_most \<le> BUF_MAX_LEN + (tot + length xs)" "tot + length xs \<le> at_most"
        using Cons.prems(2) some(6) b1(2) at(1) by simp_all
      then obtain b' m eof peer' ys where "read_loop now at_most (tot + length xs) b2 rs peer1 = Done (b', m, eof, peer')" "buf_ok b'"
        "buf_view b' = buf_view b2 @ ys" "peer1 = ys @ peer'" "length ys + (tot + length xs) \<le> at_most"
        "0 \<le> m \<longrightarrow> m = int (tot + length xs + length ys)"
        using Cons.IH [OF some(5)] Cons.prems(4) by blast
      then show ?thesis using go some(4-6) b1(2) at(1)
        by (cases "length xs < n") (auto simp: add.assoc intro!: exI [of _ "xs @ ys"])
    qed
  qed
qed

lemma buf_read_from_fd_ok:
  assumes "buf_ok b" "length (buf_view b) + at_most \<le> BUF_MAX_LEN"
  obtains b' n eof peer' xs where "buf_read_from_fd now b at_most rs peer = Done (b', n, eof, peer')" "buf_ok b'"
    "buf_view b' = buf_view b @ xs" "peer = xs @ peer'" "length xs \<le> at_most" "0 \<le> n \<Longrightarrow> n = int (length xs)"
proof -
  have l: "buf_len b = length (buf_view b)" using assms(1) by (simp add: buf_ok_def)
  have "size_sub BUF_MAX_LEN at_most = BUF_MAX_LEN - at_most" using assms(2) by (intro size_sub_le) (simp_all add: buf_consts)
  moreover have "\<not> BUF_MAX_LEN - at_most < buf_len b" using l assms(2) by simp
  ultimately have "buf_read_from_fd now b at_most rs peer = read_loop now at_most 0 b rs peer"
    using l assms(2) by (simp add: buf_read_from_fd_def)
  then show thesis using read_loop_ok [of b at_most 0 now rs peer] assms that by force
qed

text \<open>What was written and what is left are what was there before.\<close>

lemma flush_loop_ok:
  assumes "buf_ok b" "sz \<le> length (buf_view b)"
  shows "\<exists>b' n xs. flush_loop b sz ws out = Done (b', out @ xs, n) \<and> buf_ok b' \<and> buf_view b = xs @ buf_view b' \<and>
    length xs \<le> sz \<and> (0 \<le> n \<longrightarrow> n = int (length out + length xs))"
  using assms
proof (induction b sz ws out rule: flush_loop.induct)
  case (1 b ws out)
  then show ?case by auto
next
  case (2 b v out)
  then show ?case by (auto simp: buf_view_def)
next
  case (3 b v w ws out)
  let ?sz = "Suc v"
  show ?case
  proof (cases "chunks b")
    case Nil
    then show ?thesis using "3.prems" by (simp add: buf_view_def)
  next
    case (Cons c cs)
    have v: "buf_view b = ch_data c @ concat (map ch_data cs)" using Cons by (simp add: buf_view_def)
    let ?f = "min ?sz (length (ch_data c))"
    show ?thesis
    proof (cases w)
      case (Wrote room)
      define n where "n = min room (min ?sz (length (ch_data c)))"
      have n: "n \<le> length (ch_data c)" "n \<le> ?sz" "n \<le> length (buf_view b)" using v by (auto simp: n_def)
      have "n \<le> BUF_MAX_LEN" using n(3) "3.prems"(1) by (simp add: buf_ok_def)
      moreover obtain b1 where b1: "buf_drain b n = Done b1" "buf_ok b1" "buf_view b1 = drop n (buf_view b)"
        using buf_drain_ok [OF "3.prems"(1) n(3)] by blast
      ultimately have fc: "flush_chunk b ?f w = Done (b1, int n)"
        using Cons Wrote by (simp add: flush_chunk_def n_def [symmetric] Let_def)
      have t: "take n (ch_data c) = take n (buf_view b)" using v n(1) by simp
      have split: "buf_view b = take n (ch_data c) @ buf_view b1" using t b1(3) by simp
      show ?thesis
      proof (cases "n = 0 \<or> n < ?f")
        case True
        then have "flush_loop b ?sz (w # ws) out = Done (b1, out @ take n (ch_data c), int (length (out @ take n (ch_data c))))"
          using Cons fc by (auto simp: Let_def)
        then show ?thesis using b1(2) split n(1,2) by (intro exI [of _ b1] exI [of _ "int (length (out @ take n (ch_data c)))"]
            exI [of _ "take n (ch_data c)"]) simp
      next
        case False
        have l: "?sz - nat (int n) \<le> length (buf_view b1)" using "3.prems"(2) b1(3) by simp
        have "\<exists>b' r ys. flush_loop b1 (?sz - nat (int n)) ws (out @ take (nat (int n)) (ch_data c)) =
            Done (b', (out @ take (nat (int n)) (ch_data c)) @ ys, r) \<and> buf_ok b' \<and> buf_view b1 = ys @ buf_view b' \<and>
            length ys \<le> ?sz - nat (int n) \<and> (0 \<le> r \<longrightarrow> r = int (length (out @ take (nat (int n)) (ch_data c)) + length ys))"
          by (rule "3.IH" [OF Cons refl _ refl _ refl _ b1(2) l]) (use fc False in auto)
        then obtain b' r ys where r: "flush_loop b1 (?sz - n) ws (out @ take n (ch_data c)) = Done (b', (out @ take n (ch_data c)) @ ys, r)"
          "buf_ok b'" "buf_view b1 = ys @ buf_view b'" "length ys \<le> ?sz - n" "0 \<le> r \<longrightarrow> r = int (length (out @ take n (ch_data c)) + length ys)"
          by auto
        have "flush_loop b ?sz (w # ws) out = Done (b', out @ (take n (ch_data c) @ ys), r)"
          using Cons fc False r(1) by (auto simp: Let_def)
        then show ?thesis using r(2-5) split n(1,2) by (intro exI [of _ b'] exI [of _ r] exI [of _ "take n (ch_data c) @ ys"]) auto
      qed
    qed (use Cons "3.prems" in \<open>auto simp: flush_chunk_def Let_def\<close>)
  qed
qed

lemma buf_flush_to_fd_ok:
  assumes "buf_ok b"
  obtains b' n xs where "buf_flush_to_fd b sz ws = Done (b', xs, n)" "buf_ok b'" "buf_view b = xs @ buf_view b'"
    "length xs \<le> sz" "0 \<le> n \<Longrightarrow> n = int (length xs)"
proof -
  have l: "buf_len b = length (buf_view b)" "length (buf_view b) \<le> BUF_MAX_LEN" using assms by (simp_all add: buf_ok_def)
  obtain b' n xs where f: "flush_loop b (min sz (buf_len b)) ws [] = Done (b', xs, n)" "buf_ok b'" "buf_view b = xs @ buf_view b'"
    "length xs \<le> min sz (buf_len b)" "0 \<le> n \<longrightarrow> n = int (length xs)"
    using flush_loop_ok [OF assms, of "min sz (buf_len b)" ws "[]"] l by auto
  have "length xs \<le> BUF_MAX_LEN" using f(3) l(2) by (metis length_append le_add1 le_trans)
  then have "buf_flush_to_fd b sz ws = Done (b', xs, n)" using f(1) by (simp add: buf_flush_to_fd_def)
  then show thesis using that f(2-5) by auto
qed

section \<open>Searching\<close>

definition occurs_at :: "'a list \<Rightarrow> 'a list \<Rightarrow> nat \<Rightarrow> bool" where
  "occurs_at s xs i \<longleftrightarrow> take (length s) (drop i xs) = s"

definition first_found :: "'a list \<Rightarrow> 'a list \<Rightarrow> nat option \<Rightarrow> bool" where
  "first_found s xs r = (case r of
     None \<Rightarrow> \<forall>i. \<not> occurs_at s xs i
   | Some i \<Rightarrow> occurs_at s xs i \<and> (\<forall>j < i. \<not> occurs_at s xs j))"

lemma first_found_Nil: "s \<noteq> [] \<Longrightarrow> first_found s [] None"
  by (auto simp: first_found_def occurs_at_def)

text \<open>Nothing is lost by starting behind a part in which \<open>s\<close> does not occur.\<close>

lemma first_found_skip:
  assumes "first_found s (drop n xs) r" "\<And>j. j < n \<Longrightarrow> \<not> occurs_at s xs j"
  shows "first_found s xs (map_option (\<lambda>i. i + n) r)"
proof -
  have sh: "occurs_at s xs (i + n) = occurs_at s (drop n xs) i" for i
    by (simp add: occurs_at_def add.commute)
  have le: "occurs_at s xs j \<Longrightarrow> \<exists>i. j = i + n \<and> occurs_at s (drop n xs) i" for j
    using assms(2) [of j] sh [of "j - n"] by (cases "j < n") (auto intro: exI [of _ "j - n"])
  show ?thesis
  proof (cases r)
    case None
    then show ?thesis using assms(1) le unfolding first_found_def by fastforce
  next
    case (Some i)
    then show ?thesis using assms(1) le sh unfolding first_found_def by fastforce
  qed
qed

lemma memchr_None: "memchr c xs = None \<longleftrightarrow> c \<notin> set xs"
  by (induction xs) auto

lemma memchr_Some: "memchr c xs = Some i \<Longrightarrow> i < length xs \<and> xs ! i = c \<and> c \<notin> set (take i xs)"
proof (induction xs arbitrary: i)
  case (Cons x xs)
  then show ?case by (cases i) (auto split: if_splits)
qed simp

definition pos_rest :: "'a buf_pos \<Rightarrow> 'a list" where
  "pos_rest p = drop (bp_pos p) (concat (map ch_data (bp_chunks p)))"

definition bp_ok :: "'a list \<Rightarrow> 'a buf_pos \<Rightarrow> bool" where
  "bp_ok xs p \<longleftrightarrow> length xs \<le> BUF_MAX_LEN \<and> (\<forall>c \<in> set (bp_chunks p). ch_data c \<noteq> []) \<and>
     bp_chunks p \<noteq> [] \<and> bp_pos p < length (ch_data (hd (bp_chunks p))) \<and>
     pos_rest p = drop (bp_chunk_pos p + bp_pos p) xs \<and> bp_chunk_pos p + bp_pos p < length xs"

lemma pos_inc:
  assumes "bp_ok xs p"
  shows "(\<exists>q. buf_pos_inc p = Done (Some q) \<and> bp_ok xs q \<and> pos_rest q = tl (pos_rest p) \<and>
      bp_chunk_pos q + bp_pos q = Suc (bp_chunk_pos p + bp_pos p)) \<or>
    (buf_pos_inc p = Done None \<and> tl (pos_rest p) = [])"
proof -
  obtain k ks where k: "bp_chunks p = k # ks" using assms by (auto simp: bp_ok_def neq_Nil_conv)
  have p: "bp_pos p < length (ch_data k)" "\<forall>c \<in> set ks. ch_data c \<noteq> []" "ch_data k \<noteq> []" "length xs \<le> BUF_MAX_LEN"
    "drop (bp_pos p) (ch_data k @ concat (map ch_data ks)) = drop (bp_chunk_pos p + bp_pos p) xs"
    "bp_chunk_pos p + bp_pos p < length xs"
    using assms k by (auto simp: bp_ok_def pos_rest_def)
  have lt: "bp_pos p < BUF_MAX_LEN" using p(4,6) by simp
  have tl: "tl (drop (bp_pos p) (ch_data k @ concat (map ch_data ks))) = drop (Suc (bp_chunk_pos p + bp_pos p)) xs"
    using p(5) by (metis drop_Suc tl_drop)
  have len: "length xs - (bp_chunk_pos p + bp_pos p) = length (ch_data k) + length (concat (map ch_data ks)) - bp_pos p"
    using arg_cong [OF p(5), of length] by simp
  show ?thesis
  proof (cases "bp_pos p + 1 = length (ch_data k)")
    case end_of_chunk: True
    show ?thesis
    proof (cases ks)
      case Nil
      then show ?thesis using k lt end_of_chunk p(1) by (simp add: buf_pos_inc_def pos_rest_def tl_drop drop_Suc [symmetric])
    next
      case (Cons k2 ks2)
      let ?q = "\<lparr>bp_chunks = ks, bp_pos = 0, bp_chunk_pos = bp_chunk_pos p + length (ch_data k)\<rparr>"
      have "buf_pos_inc p = Done (Some ?q)" using k lt end_of_chunk Cons by (simp add: buf_pos_inc_def)
      moreover have at: "bp_chunk_pos ?q + bp_pos ?q = Suc (bp_chunk_pos p + bp_pos p)" using end_of_chunk by simp
      moreover have rest: "pos_rest ?q = tl (pos_rest p)"
        using k end_of_chunk by (simp add: pos_rest_def tl_drop drop_Suc [symmetric])
      moreover have "bp_ok xs ?q"
      proof -
        have "0 < length (concat (map ch_data ks))" using p(2) Cons by simp
        then have "Suc (bp_chunk_pos p + bp_pos p) < length xs" using len end_of_chunk p(6) by linarith
        then show ?thesis using p(2,4) Cons rest tl at k unfolding bp_ok_def by (simp add: pos_rest_def)
      qed
      ultimately show ?thesis by blast
    qed
  next
    case False
    let ?q = "p\<lparr>bp_pos := bp_pos p + 1\<rparr>"
    have "buf_pos_inc p = Done (Some ?q)" using k lt False by (simp add: buf_pos_inc_def)
    moreover have rest: "pos_rest ?q = tl (pos_rest p)" by (simp add: pos_rest_def drop_Suc tl_drop)
    moreover have "bp_ok xs ?q"
      using p k False rest tl len by (auto simp: bp_ok_def pos_rest_def)
    ultimately show ?thesis by auto
  qed
qed

lemma pos_head:
  assumes "bp_ok xs p" "bp_chunks p = k # ks"
  shows "bp_pos p < length (ch_data k)" "pos_rest p \<noteq> []" "hd (pos_rest p) = ch_data k ! bp_pos p"
proof -
  show a: "bp_pos p < length (ch_data k)" using assms by (simp add: bp_ok_def)
  show "pos_rest p \<noteq> []" using assms a by (simp add: pos_rest_def)
  show "hd (pos_rest p) = ch_data k ! bp_pos p" using assms a by (simp add: pos_rest_def hd_drop_conv_nth nth_append)
qed

lemma matches_loop_ok:
  "bp_ok xs p \<Longrightarrow> s \<noteq> [] \<Longrightarrow> matches_loop p s = Done (take (length s) (pos_rest p) = s)"
proof (induction s arbitrary: p)
  case (Cons a ss)
  obtain k ks where k: "bp_chunks p = k # ks" using Cons.prems(1) by (auto simp: bp_ok_def neq_Nil_conv)
  note h = pos_head [OF Cons.prems(1) k]
  have sp: "take (length (a # ss)) (pos_rest p) = a # ss \<longleftrightarrow>
      ch_data k ! bp_pos p = a \<and> take (length ss) (tl (pos_rest p)) = ss"
    using h(2,3) by (cases "pos_rest p") auto
  consider (ss) "ss = []" | (stop) "ss \<noteq> []" "buf_pos_inc p = Done None" "tl (pos_rest p) = []"
    | (go) q where "ss \<noteq> []" "buf_pos_inc p = Done (Some q)" "bp_ok xs q" "pos_rest q = tl (pos_rest p)"
    using pos_inc [OF Cons.prems(1)] by blast
  then show ?case
  proof cases
    case (go q)
    then show ?thesis using k h(1) sp Cons.IH [OF go(3,1)] by simp
  qed (use k h(1) sp in auto)
qed simp

lemma find_char_loop_ok:
  assumes "length xs \<le> BUF_MAX_LEN" "\<forall>k \<in> set ks. ch_data k \<noteq> []" "ks \<noteq> []" "pos < length (ch_data (hd ks))"
    "drop pos (concat (map ch_data ks)) = drop (cp + pos) xs" "cp + pos < length xs"
  shows "(find_char_loop c ks pos cp = Done None \<and> c \<notin> set (drop (cp + pos) xs)) \<or>
    (\<exists>q n. find_char_loop c ks pos cp = Done (Some q) \<and> bp_ok xs q \<and> bp_chunk_pos q + bp_pos q = cp + pos + n \<and>
      c \<notin> set (take n (drop (cp + pos) xs)) \<and> hd (pos_rest q) = c)"
  using assms
proof (induction ks arbitrary: pos cp)
  case (Cons k ks)
  let ?d = "drop pos (ch_data k)"
  have pos: "pos < length (ch_data k)" using Cons.prems(4) by simp
  have tail: "?d @ concat (map ch_data ks) = drop (cp + pos) xs" using Cons.prems(5) pos by simp
  have len: "length (ch_data k) - pos + length (concat (map ch_data ks)) = length xs - (cp + pos)"
    using arg_cong [OF tail, of length] by simp
  show ?case
  proof (cases "memchr c ?d")
    case (Some i)
    let ?q = "\<lparr>bp_chunks = k # ks, bp_pos = pos + i, bp_chunk_pos = cp\<rparr>"
    note m = memchr_Some [OF Some]
    have i: "pos + i < length (ch_data k)" using m by auto
    have lt: "cp + pos + i < length xs" using len i Cons.prems(6) by simp
    have "drop (pos + i) (ch_data k @ concat (map ch_data ks)) = drop i (?d @ concat (map ch_data ks))"
      using pos by (simp add: add.commute)
    then have rest: "pos_rest ?q = drop (cp + (pos + i)) xs"
      using tail by (simp add: pos_rest_def add.commute add.left_commute)
    have "bp_ok xs ?q" unfolding bp_ok_def using Cons.prems(1,2) rest i lt by (simp add: add.assoc)
    moreover from this have "hd (pos_rest ?q) = c" using pos_head(3) [of xs ?q k ks] m pos by simp
    moreover have "take i (drop (cp + pos) xs) = take i ?d"
      using m by (simp add: tail [symmetric])
    moreover have "pos + i \<le> BUF_MAX_LEN" using lt Cons.prems(1) by simp
    ultimately show ?thesis using Some m by (intro disjI2 exI [of _ ?q] exI [of _ i]) simp
  next
    case None
    then have no: "c \<notin> set ?d" by (simp add: memchr_None)
    show ?thesis
    proof (cases ks)
      case Nil
      then show ?thesis using None no tail by simp
    next
      case (Cons k2 ks2)
      let ?cp = "cp + length (ch_data k)"
      have "0 < length (concat (map ch_data ks))" using Cons.prems(2) Cons by simp
      then have lt: "?cp + 0 < length xs" using len pos Cons.prems(6) by linarith
      have "drop 0 (concat (map ch_data ks)) = drop (length ?d) (?d @ concat (map ch_data ks))" by simp
      also have "\<dots> = drop (?cp + 0) xs" using pos by (subst tail) (simp add: add.commute)
      finally have dr: "drop 0 (concat (map ch_data ks)) = drop (?cp + 0) xs" .
      have split: "drop (cp + pos) xs = ?d @ drop ?cp xs" using tail dr by simp
      from Cons.IH [of 0 ?cp] Cons.prems(1,2) Cons dr lt
      consider (no) "find_char_loop c ks 0 ?cp = Done None" "c \<notin> set (drop ?cp xs)"
        | (yes) q n where "find_char_loop c ks 0 ?cp = Done (Some q)" "bp_ok xs q" "bp_chunk_pos q + bp_pos q = ?cp + n"
            "c \<notin> set (take n (drop ?cp xs))" "hd (pos_rest q) = c" by fastforce
      then show ?thesis
      proof cases
        case no
        then show ?thesis using None \<open>c \<notin> set ?d\<close> split by simp
      next
        case (yes q n)
        have "c \<notin> set (take (length ?d + n) (drop (cp + pos) xs))" using \<open>c \<notin> set ?d\<close> yes(4) by (subst split) simp
        then show ?thesis using None yes pos by (intro disjI2 exI [of _ q] exI [of _ "length ?d + n"]) simp
      qed
    qed
  qed
qed simp

lemma occurs_head:
  assumes "occurs_at s xs (n + j)" "s \<noteq> []"
  shows "hd s \<in> set (drop n xs) \<and> (j < k \<longrightarrow> hd s \<in> set (take k (drop n xs)))"
proof -
  have "take (length s) (drop j (drop n xs)) = s" using assms(1) by (simp add: occurs_at_def add.commute)
  then obtain z zs where z: "drop j (drop n xs) = z # zs" "hd s = z" using assms(2)
    by (metis list.collapse take_Nil hd_take length_greater_0_conv)
  have jl: "j < length (drop n xs)" using z(1) by (cases "j < length (drop n xs)") simp_all
  have j: "j < length (drop n xs)" "drop n xs ! j = hd s" using jl z hd_drop_conv_nth [OF jl] by simp_all
  then show ?thesis by (metis nth_mem in_set_conv_nth length_take min_less_iff_conj nth_take)
qed

abbreviation bp_at :: "'a buf_pos \<Rightarrow> nat" where
  "bp_at p \<equiv> bp_chunk_pos p + bp_pos p"

lemma find_head_ok:
  assumes "bp_ok xs p" "s \<noteq> []"
  shows "(buf_find_pos_of_char (hd s) p = Done None \<and> first_found s (drop (bp_at p) xs) None) \<or>
    (\<exists>q n. buf_find_pos_of_char (hd s) p = Done (Some q) \<and> bp_ok xs q \<and> bp_at q = bp_at p + n \<and>
      (\<forall>j < n. \<not> occurs_at s (drop (bp_at p) xs) j))"
proof -
  obtain k ks where k: "bp_chunks p = k # ks" using assms(1) by (auto simp: bp_ok_def neq_Nil_conv)
  have ok: "length xs \<le> BUF_MAX_LEN" "\<forall>k \<in> set (bp_chunks p). ch_data k \<noteq> []" "bp_chunks p \<noteq> []" "bp_pos p < length (ch_data (hd (bp_chunks p)))"
    "drop (bp_pos p) (concat (map ch_data (bp_chunks p))) = drop (bp_at p) xs" "bp_at p < length xs"
    using assms(1) by (auto simp: bp_ok_def pos_rest_def)
  have find: "buf_find_pos_of_char (hd s) p = find_char_loop (hd s) (bp_chunks p) (bp_pos p) (bp_chunk_pos p)"
    using ok(2,4) k by (simp add: buf_find_pos_of_char_def)
  from find_char_loop_ok [OF ok, of "hd s"] show ?thesis
  proof (elim disjE exE conjE)
    assume no: "find_char_loop (hd s) (bp_chunks p) (bp_pos p) (bp_chunk_pos p) = Done None" "hd s \<notin> set (drop (bp_at p) xs)"
    have "\<not> occurs_at s (drop (bp_at p) xs) i" for i
      using occurs_head [of s "drop (bp_at p) xs" 0 i] no(2) assms(2) by auto
    then show ?thesis using find no(1) by (simp add: first_found_def)
  next
    fix q n assume q: "find_char_loop (hd s) (bp_chunks p) (bp_pos p) (bp_chunk_pos p) = Done (Some q)" "bp_ok xs q"
      "bp_at q = bp_at p + n" "hd s \<notin> set (take n (drop (bp_at p) xs))"
    have "\<not> occurs_at s (drop (bp_at p) xs) j" if "j < n" for j
      using occurs_head [of s "drop (bp_at p) xs" 0 j n] q(4) assms(2) that by auto
    with find q(1-3) show ?thesis by (intro disjI2 exI [of _ q] exI [of _ n]) simp
  qed
qed

text \<open>A round of the search settles it or goes on behind the positions it ruled out.\<close>

lemma find_string_round:
  assumes "bp_ok xs p" "s \<noteq> []"
  shows "(\<exists>r. find_string_loop p s = Some (Done (map_option (\<lambda>i. i + bp_at p) r)) \<and> first_found s (drop (bp_at p) xs) r) \<or>
    (\<exists>q n. find_string_loop p s = find_string_loop q s \<and> bp_ok xs q \<and> bp_at q = bp_at p + Suc n \<and>
      (\<forall>j < Suc n. \<not> occurs_at s (drop (bp_at p) xs) j))"
proof -
  note unf = find_string_loop.simps [of p s]
  from find_head_ok [OF assms] show ?thesis
  proof (elim disjE exE conjE)
    assume "buf_find_pos_of_char (hd s) p = Done None" "first_found s (drop (bp_at p) xs) None"
    then show ?thesis using unf assms(2) by (intro disjI1 exI [of _ None]) simp
  next
    fix q n assume q: "buf_find_pos_of_char (hd s) p = Done (Some q)" "bp_ok xs q" "bp_at q = bp_at p + n"
      and before: "\<forall>j < n. \<not> occurs_at s (drop (bp_at p) xs) j"
    have rq: "pos_rest q = drop n (drop (bp_at p) xs)" "bp_at p + n \<le> BUF_MAX_LEN"
      using q(2,3) by (auto simp: bp_ok_def add.commute)
    have m: "buf_matches_at_pos q s = Done (occurs_at s (drop (bp_at p) xs) n)"
      using matches_loop_ok [OF q(2) assms(2)] rq(1) by (simp add: buf_matches_at_pos_def occurs_at_def)
    show ?thesis
    proof (cases "occurs_at s (drop (bp_at p) xs) n")
      case True
      then have "find_string_loop p s = Some (Done (Some (bp_at p + n)))"
        using unf assms(2) q(1,3) m rq(2) by simp
      with True before show ?thesis
        by (intro disjI1 exI [of _ "Some n"]) (simp add: first_found_def add.commute)
    next
      case False
      with before have skip: "\<forall>j < Suc n. \<not> occurs_at s (drop (bp_at p) xs) j" by (auto simp: less_Suc_eq)
      from pos_inc [OF q(2)] show ?thesis
      proof (elim disjE exE conjE)
        fix q' assume "buf_pos_inc q = Done (Some q')" "bp_ok xs q'" "bp_at q' = Suc (bp_at q)"
        then show ?thesis using unf assms(2) q(1,3) m False skip by (intro disjI2 exI [of _ q'] exI [of _ n]) simp
      next
        assume stop: "buf_pos_inc q = Done None" "tl (pos_rest q) = []"
        then have "drop (Suc n) (drop (bp_at p) xs) = []" using rq(1) by (simp add: drop_Suc tl_drop)
        then have "first_found s (drop (Suc n) (drop (bp_at p) xs)) None" using first_found_Nil [OF assms(2)] by simp
        from first_found_skip [OF this] skip have "first_found s (drop (bp_at p) xs) None" by simp
        then show ?thesis using unf assms(2) q(1) m False stop(1) by (intro disjI1 exI [of _ None]) simp
      qed
    qed
  qed
qed

lemma find_string_loop_ok:
  assumes "bp_ok xs p" "s \<noteq> []"
  shows "\<exists>r. find_string_loop p s = Some (Done (map_option (\<lambda>i. i + bp_at p) r)) \<and> first_found s (drop (bp_at p) xs) r"
  using assms
proof (induction "length xs - bp_at p" arbitrary: p rule: less_induct)
  case less
  from find_string_round [OF less.prems] show ?case
  proof (elim disjE)
    assume "\<exists>q n. find_string_loop p s = find_string_loop q s \<and> bp_ok xs q \<and> bp_at q = bp_at p + Suc n \<and>
      (\<forall>j < Suc n. \<not> occurs_at s (drop (bp_at p) xs) j)"
    then obtain q n where q: "find_string_loop p s = find_string_loop q s" "bp_ok xs q" "bp_at q = bp_at p + Suc n"
      "\<And>j. j < Suc n \<Longrightarrow> \<not> occurs_at s (drop (bp_at p) xs) j" by blast
    have "length xs - bp_at q < length xs - bp_at p" using less.prems(1) q(3) unfolding bp_ok_def by linarith
    from less.hyps [OF this q(2) less.prems(2)] obtain r where
      r: "find_string_loop q s = Some (Done (map_option (\<lambda>i. i + bp_at q) r))" "first_found s (drop (bp_at q) xs) r" by blast
    have "first_found s (drop (Suc n) (drop (bp_at p) xs)) r" using r(2) q(3) by (simp add: add.commute)
    from first_found_skip [OF this q(4)] show ?thesis
      using q(1,3) r(1) by (intro exI [of _ "map_option (\<lambda>i. i + Suc n) r"]) (simp add: option.map_comp comp_def ac_simps)
  qed
qed

lemma find_string_ok:
  assumes ok: "buf_ok b" and ne: "\<forall>c \<in> set (chunks b). ch_data c \<noteq> []" and s: "s \<noteq> []"
  shows "\<exists>r. buf_find_string_offset b s = Done r \<and> first_found s (buf_view b) r"
proof (cases "chunks b")
  case Nil
  then have "find_string_loop (buf_pos_init b) s = Some (Done None)"
    using s by (subst find_string_loop.simps) (simp add: buf_pos_init_def buf_find_pos_of_char_def)
  then show ?thesis using Nil first_found_Nil [OF s]
    by (simp add: buf_find_string_offset_def of_call_def buf_view_def)
next
  case (Cons c cs)
  have "bp_ok (buf_view b) (buf_pos_init b)"
    using ok ne Cons by (simp add: bp_ok_def buf_ok_def buf_pos_init_def pos_rest_def buf_view_def)
  from find_string_loop_ok [OF this s] obtain r where
    "find_string_loop (buf_pos_init b) s = Some (Done r)" "first_found s (buf_view b) r"
    by (auto simp: buf_pos_init_def option.map_ident)
  then show ?thesis by (simp add: buf_find_string_offset_def of_call_def)
qed

lemma find_offset_loop_eq:
  "find_offset_loop c ks off = map_option (\<lambda>i. off + i) (memchr c (concat (map ch_data ks)))"
proof (induction ks arbitrary: off)
  case (Cons k ks)
  have "memchr c (xs @ ys) = (case memchr c xs of Some i \<Rightarrow> Some i | None \<Rightarrow> map_option (\<lambda>i. length xs + i) (memchr c ys))" for xs ys
    by (induction xs) (cases "memchr c ys"; auto split: option.splits)+
  then show ?case using Cons.IH by (auto split: option.splits simp: option.map_comp comp_def add.assoc)
qed simp

lemma memchr_takeWhile: "memchr c xs = (if c \<in> set xs then Some (length (takeWhile (\<lambda>x. x \<noteq> c) xs)) else None)"
  by (induction xs) auto

lemma offset_of_char_ok:
  assumes "buf_ok b"
  shows "buf_find_offset_of_char b c = Done (if c \<in> set (buf_view b) then Some (length (takeWhile (\<lambda>x. x \<noteq> c) (buf_view b))) else None)"
proof -
  have "find_offset_loop c (chunks b) 0 = memchr c (buf_view b)"
    by (simp add: find_offset_loop_eq buf_view_def option.map_ident)
  then show ?thesis using assms by (simp add: buf_find_offset_of_char_def buf_ok_def memchr_takeWhile)
qed

section \<open>The queue of bytes\<close>

datatype 'a buf_op =
  B_add u32 "'a list"
| B_drain nat
| B_get nat
| B_pullup nat
| B_clear
| B_take_from u32 "'a buf" nat
| B_read u32 nat "read_result list" "'a list"
| B_flush nat "write_result list"

fun buf_apply :: "'a buf_op \<Rightarrow> 'a buf \<Rightarrow> 'a buf outcome" where
  "buf_apply (B_add now xs) b = buf_add now b xs"
| "buf_apply (B_drain n) b = buf_drain b n"
| "buf_apply (B_get n) b = obind (buf_get_bytes b n) (\<lambda>(xs, b). Done b)"
| "buf_apply (B_pullup n) b = obind (buf_pullup b n) (\<lambda>(b, out). Done b)"
| "buf_apply B_clear b = Done (buf_clear b)"
| "buf_apply (B_take_from now bi n) b = obind (buf_move_to_buf now b bi n) (\<lambda>(b, bi, left, moved). Done b)"
| "buf_apply (B_read now n rs peer) b = obind (buf_read_from_fd now b n rs peer) (\<lambda>(b, r, eof, peer). Done b)"
| "buf_apply (B_flush n ws) b = obind (buf_flush_to_fd b n ws) (\<lambda>(b, out, r). Done b)"

text \<open>What an operation asks of the bytes the buffer holds, and what it makes of them.\<close>

fun buf_enabled :: "'a buf_op \<Rightarrow> 'a list \<Rightarrow> bool" where
  "buf_enabled (B_add now xs) q = (length q + length xs \<le> BUF_MAX_LEN)"
| "buf_enabled (B_drain n) q = (n \<le> length q)"
| "buf_enabled (B_get n) q = (n \<le> length q)"
| "buf_enabled (B_take_from now bi n) q = (buf_ok bi \<and> length q + n \<le> BUF_MAX_LEN)"
| "buf_enabled (B_read now n rs peer) q = (length q + n \<le> BUF_MAX_LEN)"
| "buf_enabled _ q = True"

fun buf_spec :: "'a buf_op \<Rightarrow> 'a list \<Rightarrow> 'a list \<Rightarrow> bool" where
  "buf_spec (B_add now xs) q q' = (q' = q @ xs)"
| "buf_spec (B_drain n) q q' = (q' = drop n q)"
| "buf_spec (B_get n) q q' = (q' = drop n q)"
| "buf_spec (B_pullup n) q q' = (q' = q)"
| "buf_spec B_clear q q' = (q' = [])"
| "buf_spec (B_take_from now bi n) q q' = (q' = q @ take n (buf_view bi))"
| "buf_spec (B_read now n rs peer) q q' = (\<exists>k \<le> n. q' = q @ take k peer)"
| "buf_spec (B_flush n ws) q q' = (\<exists>k \<le> n. q' = drop k q)"

lemma buf_new_ok: "buf_ok buf_new" "buf_view buf_new = []"
  by (simp_all add: buf_ok_def buf_new_def buf_view_def buf_consts)

lemma buf_clear_ok: "buf_ok b \<Longrightarrow> buf_ok (buf_clear b) \<and> buf_view (buf_clear b) = []"
  by (simp add: buf_ok_def buf_clear_def buf_view_def)

interpretation byte_queue: simulated buf_new buf_apply buf_ok buf_view buf_enabled buf_spec
proof unfold_locales
  fix b :: "'a buf" and op
  assume ok: "buf_ok b" and e: "buf_enabled op (buf_view b)"
  show "\<exists>b'. buf_apply op b = Done b' \<and> buf_ok b' \<and> buf_spec op (buf_view b) (buf_view b')"
  proof (cases op)
    case (B_add now xs)
    then have n: "length (buf_view b) + length xs \<le> BUF_MAX_LEN" using e by simp
    obtain b' where "buf_add now b xs = Done b'" "buf_ok b'" "buf_view b' = buf_view b @ xs" by (rule buf_add_ok [OF ok n])
    then show ?thesis using B_add by simp
  next
    case (B_drain n)
    then have n: "n \<le> length (buf_view b)" using e by simp
    obtain b' where "buf_drain b n = Done b'" "buf_ok b'" "buf_view b' = drop n (buf_view b)" by (rule buf_drain_ok [OF ok n])
    then show ?thesis using B_drain by simp
  next
    case (B_get n)
    then have n: "n \<le> length (buf_view b)" using e by simp
    obtain b' where "buf_get_bytes b n = Done (take n (buf_view b), b')" "buf_ok b'" "buf_view b' = drop n (buf_view b)"
      by (rule buf_get_bytes_ok [OF ok n])
    then show ?thesis using B_get by simp
  next
    case (B_pullup n)
    obtain b' out where "buf_pullup b n = Done (b', out)" "buf_ok b'" "buf_view b' = buf_view b" by (rule buf_pullup_ok [OF ok])
    then show ?thesis using B_pullup by simp
  next
    case B_clear
    then show ?thesis using buf_clear_ok [OF ok] by simp
  next
    case (B_take_from now bi n)
    then have bi: "buf_ok bi" "length (buf_view b) + n \<le> BUF_MAX_LEN" using e by simp_all
    obtain b' bi' k where "buf_move_to_buf now b bi n = Done (b', bi', n - k, k)" "buf_ok b'"
      "buf_view b' = buf_view b @ take n (buf_view bi)" by (rule buf_move_to_buf_ok [OF ok bi])
    then show ?thesis using B_take_from by simp
  next
    case (B_read now n rs peer)
    then have n: "length (buf_view b) + n \<le> BUF_MAX_LEN" using e by simp
    obtain b' r eof peer' xs where "buf_read_from_fd now b n rs peer = Done (b', r, eof, peer')" "buf_ok b'"
      "buf_view b' = buf_view b @ xs" "peer = xs @ peer'" "length xs \<le> n"
      by (rule buf_read_from_fd_ok [OF ok n])
    then show ?thesis using B_read by (auto intro!: exI [of _ "length xs"])
  next
    case (B_flush n ws)
    obtain b' r xs where "buf_flush_to_fd b n ws = Done (b', xs, r)" "buf_ok b'" "buf_view b = xs @ buf_view b'" "length xs \<le> n"
      by (rule buf_flush_to_fd_ok [OF ok])
    then show ?thesis using B_flush by (auto intro!: exI [of _ "length xs"])
  qed
qed (rule buf_new_ok)

text \<open>What a caller gets besides the buffer: the bytes taken, collected, read or written.\<close>

fun buf_returns :: "'a buf_op \<Rightarrow> 'a buf \<Rightarrow> 'a buf \<Rightarrow> bool" where
  "buf_returns (B_get n) b b' = (buf_get_bytes b n = Done (take n (buf_view b), b'))"
| "buf_returns (B_pullup n) b b' = (\<exists>out. buf_pullup b n = Done (b', out) \<and>
     (case out of None \<Rightarrow> buf_view b = []
      | Some xs \<Rightarrow> \<exists>ys. buf_view b = xs @ ys \<and> min n (length (buf_view b)) \<le> length xs))"
| "buf_returns (B_read now n rs peer) b b' = (\<exists>r eof xs peer'. buf_read_from_fd now b n rs peer = Done (b', r, eof, peer') \<and>
     peer = xs @ peer' \<and> buf_view b' = buf_view b @ xs)"
| "buf_returns (B_flush n ws) b b' = (\<exists>out r. buf_flush_to_fd b n ws = Done (b', out, r) \<and>
     buf_view b = out @ buf_view b' \<and> (0 \<le> r \<longrightarrow> r = int (length out)))"
| "buf_returns op b b' = True"

lemma buf_returns_ok:
  assumes "buf_ok b" "buf_enabled op (buf_view b)" "buf_apply op b = Done b'"
  shows "buf_returns op b b'"
proof (cases op)
  case (B_get n)
  then have n: "n \<le> length (buf_view b)" using assms(2) by simp
  show ?thesis by (rule buf_get_bytes_ok [OF assms(1) n]) (use B_get assms(3) in simp)
next
  case (B_pullup n)
  show ?thesis by (rule buf_pullup_ok [OF assms(1), of n]) (use B_pullup assms(3) in auto)
next
  case (B_read now n rs peer)
  then have n: "length (buf_view b) + n \<le> BUF_MAX_LEN" using assms(2) by simp
  show ?thesis by (rule buf_read_from_fd_ok [OF assms(1) n, of now rs peer]) (use B_read assms(3) in auto)
next
  case (B_flush n ws)
  show ?thesis by (rule buf_flush_to_fd_ok [OF assms(1), of n ws]) (use B_flush assms(3) in auto)
qed simp_all

definition buf_reachable :: "'a buf \<Rightarrow> bool" where
  "buf_reachable = reach buf_apply (\<lambda>op b. buf_enabled op (buf_view b)) buf_new"

lemma reachable_ok: "buf_reachable b \<Longrightarrow> buf_ok b"
  unfolding buf_reachable_def by (rule byte_queue.reach_inv)

section \<open>Two buffers and a connection between them\<close>

text \<open>
  One program adds to a buffer that is flushed to a socket; at the other end the bytes are read to
  a buffer from which another program takes them. What both have done is kept for the statement.
\<close>

record 'a pipe =
  p_sent :: "'a list"
  p_out :: "'a buf"
  p_wire :: "'a list"
  p_in :: "'a buf"
  p_taken :: "'a list"

definition pipe_new :: "'a pipe" where
  "pipe_new = \<lparr>p_sent = [], p_out = buf_new, p_wire = [], p_in = buf_new, p_taken = []\<rparr>"

inductive pipe_step :: "'a pipe \<Rightarrow> 'a pipe \<Rightarrow> bool" where
  app_adds: "buf_add now (p_out p) xs = Done b \<Longrightarrow> length (buf_view (p_out p)) + length xs \<le> BUF_MAX_LEN \<Longrightarrow>
    pipe_step p (p\<lparr>p_out := b, p_sent := p_sent p @ xs\<rparr>)"
| flushes: "buf_flush_to_fd (p_out p) n ws = Done (b, xs, r) \<Longrightarrow>
    pipe_step p (p\<lparr>p_out := b, p_wire := p_wire p @ xs\<rparr>)"
| reads: "buf_read_from_fd now (p_in p) n rs (p_wire p) = Done (b, r, eof, rest) \<Longrightarrow>
    length (buf_view (p_in p)) + n \<le> BUF_MAX_LEN \<Longrightarrow> pipe_step p (p\<lparr>p_in := b, p_wire := rest\<rparr>)"
| pulls: "buf_pullup (p_in p) n = Done (b, found) \<Longrightarrow> pipe_step p (p\<lparr>p_in := b\<rparr>)"
| app_takes: "buf_get_bytes (p_in p) n = Done (xs, b) \<Longrightarrow> n \<le> length (buf_view (p_in p)) \<Longrightarrow>
    pipe_step p (p\<lparr>p_in := b, p_taken := p_taken p @ xs\<rparr>)"

definition pipe_inv :: "'a pipe \<Rightarrow> bool" where
  "pipe_inv p \<longleftrightarrow> buf_ok (p_out p) \<and> buf_ok (p_in p) \<and>
     p_sent p = p_taken p @ buf_view (p_in p) @ p_wire p @ buf_view (p_out p)"

lemma pipe_step_inv: "pipe_step p q \<Longrightarrow> pipe_inv p \<Longrightarrow> pipe_inv q"
proof (induction rule: pipe_step.induct)
  case (app_adds now p xs b)
  have ok: "buf_ok (p_out p)" using app_adds(3) by (simp add: pipe_inv_def)
  obtain b' where "buf_add now (p_out p) xs = Done b'" "buf_ok b'" "buf_view b' = buf_view (p_out p) @ xs"
    by (rule buf_add_ok [OF ok app_adds(2)])
  then show ?case using app_adds(1,3) by (simp add: pipe_inv_def)
next
  case (flushes p n ws b xs r)
  have ok: "buf_ok (p_out p)" using flushes(2) by (simp add: pipe_inv_def)
  obtain b' r' ys where "buf_flush_to_fd (p_out p) n ws = Done (b', ys, r')" "buf_ok b'" "buf_view (p_out p) = ys @ buf_view b'"
    by (rule buf_flush_to_fd_ok [OF ok])
  then show ?case using flushes by (simp add: pipe_inv_def)
next
  case (reads now p n rs b r eof rest)
  have ok: "buf_ok (p_in p)" using reads(3) by (simp add: pipe_inv_def)
  obtain b' r' eof' peer' ys where "buf_read_from_fd now (p_in p) n rs (p_wire p) = Done (b', r', eof', peer')"
    "buf_ok b'" "buf_view b' = buf_view (p_in p) @ ys" "p_wire p = ys @ peer'" by (rule buf_read_from_fd_ok [OF ok reads(2)])
  then show ?case using reads(1,3) by (simp add: pipe_inv_def)
next
  case (pulls p n b found)
  have ok: "buf_ok (p_in p)" using pulls(2) by (simp add: pipe_inv_def)
  obtain b' out where "buf_pullup (p_in p) n = Done (b', out)" "buf_ok b'" "buf_view b' = buf_view (p_in p)"
    by (rule buf_pullup_ok [OF ok])
  then show ?case using pulls by (simp add: pipe_inv_def)
next
  case (app_takes p n xs b)
  have ok: "buf_ok (p_in p)" using app_takes(3) by (simp add: pipe_inv_def)
  obtain b' where "buf_get_bytes (p_in p) n = Done (take n (buf_view (p_in p)), b')" "buf_ok b'"
    "buf_view b' = drop n (buf_view (p_in p))" by (rule buf_get_bytes_ok [OF ok app_takes(2)])
  then show ?case using app_takes(1,3) by (simp add: pipe_inv_def)
qed

lemma pipe_reachable_inv: "pipe_step\<^sup>*\<^sup>* pipe_new p \<Longrightarrow> pipe_inv p"
proof (induction rule: rtranclp_induct)
  case base
  show ?case by (simp add: pipe_inv_def pipe_new_def buf_new_ok)
qed (rule pipe_step_inv)

section \<open>The properties\<close>

definition two_chunks :: "char buf" where
  "two_chunks = \<lparr>buf_len = 6, default_chunk_size = 4096, chunks =
     [\<lparr>ch_memlen = 4, ch_offset = 1, ch_data = ''he'', ch_inserted = 0\<rparr>,
      \<lparr>ch_memlen = 9, ch_offset = 0, ch_data = ''llo\<newline>'', ch_inserted = 0\<rparr>]\<rparr>"

lemma two_chunks_ok: "buf_ok two_chunks"
  by (simp add: buf_ok_def two_chunks_def buf_view_def filled_Cons chunk_ok_def buf_consts)

text \<open>
  C15. Each operation on a buffer implements the one on the queue of its bytes: called with a length
  the queue allows it returns, without a failed assertion or an access outside a chunk, a buffer
  that is again sound, and adding appends, draining drops from the front, collecting the first bytes
  in one chunk changes nothing, and reading and writing move bytes in their order. The caller gets
  the bytes it asked for: those dropped, those collected, those written.
\<close>

theorem buffer_refines_byte_queue:
  assumes "buf_ok b" "buf_enabled op (buf_view b)"
  shows "\<exists>b'. buf_apply op b = Done b' \<and> buf_ok b' \<and> buf_spec op (buf_view b) (buf_view b') \<and>
    buf_datalen b' = length (buf_view b') \<and> buf_returns op b b'"
  using byte_queue.step [OF assms] buf_returns_ok [OF assms] by (auto simp: buf_datalen_def buf_ok_def)

lemma buffer_refines_witness:
  "\<exists>b'. buf_apply (B_get 3) two_chunks = Done b' \<and> buf_ok b' \<and> buf_view b' = ''lo'' @ [NL] \<and> buf_datalen b' = 3 \<and>
    buf_get_bytes two_chunks 3 = Done (''hel'', b')"
proof -
  have v: "buf_view two_chunks = ''hello'' @ [NL]" by (simp add: two_chunks_def buf_view_def)
  have "buf_enabled (B_get 3) (buf_view two_chunks)" by (simp add: v)
  from buffer_refines_byte_queue [OF two_chunks_ok this] show ?thesis by (auto simp: v)
qed

text \<open>
  In every state that two programs can reach by adding to a buffer that is flushed to a socket
  and taking from the buffer to which the other end reads, however much each call of the operating
  system moves or fails, what was taken, what the receiving buffer holds, what is on the way and
  what the sending buffer holds are in this order exactly what was added.
\<close>

theorem pipe_keeps_the_stream:
  assumes "pipe_step\<^sup>*\<^sup>* pipe_new p"
  shows "p_sent p = p_taken p @ buf_view (p_in p) @ p_wire p @ buf_view (p_out p)"
  using pipe_reachable_inv [OF assms] by (simp add: pipe_inv_def)

lemma pipe_keeps_witness:
  "\<exists>p. pipe_step\<^sup>*\<^sup>* pipe_new p \<and> p_sent p = [7 :: nat] \<and>
    p_sent p = p_taken p @ buf_view (p_in p) @ p_wire p @ buf_view (p_out p)"
proof -
  have l: "length (buf_view (p_out pipe_new)) + length [7 :: nat] \<le> BUF_MAX_LEN"
    by (simp add: pipe_new_def buf_new_ok buf_consts)
  have ok: "buf_ok (p_out (pipe_new :: nat pipe))" by (simp add: pipe_new_def buf_new_ok)
  obtain b where "buf_add 0 (p_out pipe_new) [7 :: nat] = Done b" by (rule buf_add_ok [OF ok l])
  from app_adds [OF this l] have r: "pipe_step\<^sup>*\<^sup>* pipe_new (pipe_new\<lparr>p_out := b, p_sent := p_sent pipe_new @ [7 :: nat]\<rparr>)" ..
  from r pipe_keeps_the_stream [OF r] show ?thesis by (intro exI conjI) (assumption, simp_all add: pipe_new_def)
qed

text \<open>
  C25. On a sound buffer without an empty chunk the search for a nonempty string returns the offset of the
  first place where the bytes of the buffer have it, across the borders of the chunks, and -1 when there is none.
\<close>

theorem find_string_first_occurrence:
  assumes "buf_ok b" "\<forall>c \<in> set (chunks b). ch_data c \<noteq> []" "s \<noteq> []"
  shows "\<exists>r. buf_find_string_offset b s = Done r \<and> first_found s (buf_view b) r"
  by (rule find_string_ok [OF assms])

text \<open>A buffer of two chunks.\<close>

lemma find_string_witness:
  "\<exists>r. buf_find_string_offset two_chunks ''el'' = Done r \<and> first_found ''el'' (buf_view two_chunks) r"
  by (rule find_string_first_occurrence [OF two_chunks_ok]) (simp_all add: two_chunks_def)

text \<open>
  C31. A line is returned exactly when the buffer holds an LF and the line fits the space with a NUL
  behind it; it is all up to and with the first LF, and the rest stays. In the other cases nothing changes.
\<close>

theorem get_line_takes_the_first_line:
  assumes "buf_ok b"
  shows "\<exists>r b'. buf_get_line b n = Done (r, b') \<and> buf_ok b' \<and>
    (if NL \<notin> set (buf_view b) then r = No_line \<and> b' = b
     else let line = takeWhile (\<lambda>c. c \<noteq> NL) (buf_view b) @ [NL]
          in if Suc (length line) \<le> n then r = Line line \<and> line @ buf_view b' = buf_view b
             else r = Line_too_long (Suc (length line)) \<and> b' = b)"
proof (cases "NL \<in> set (buf_view b)")
  case False
  then show ?thesis using assms by (simp add: buf_get_line_def offset_of_char_ok)
next
  case True
  define pre where "pre = takeWhile (\<lambda>c. c \<noteq> NL) (buf_view b)"
  have cs: "chunks b \<noteq> []" using True by (auto simp: buf_view_def)
  have off: "buf_find_offset_of_char b NL = Done (Some (length pre))" using offset_of_char_ok [OF assms] True by (simp add: pre_def)
  have "dropWhile (\<lambda>c. c \<noteq> NL) (buf_view b) \<noteq> []" using True by (auto simp: dropWhile_eq_Nil_conv)
  then obtain rest where rest: "buf_view b = pre @ NL # rest"
    using takeWhile_dropWhile_id [of "\<lambda>c. c \<noteq> NL" "buf_view b"] hd_dropWhile [of "\<lambda>c. c \<noteq> NL" "buf_view b"]
    by (metis list.collapse pre_def)
  have line: "takeWhile (\<lambda>c. c \<noteq> NL) (buf_view b) @ [NL] = pre @ [NL]" by (simp add: pre_def)
  show ?thesis
  proof (cases "length pre + 2 > n")
    case long: True
    have "buf_get_line b n = Done (Line_too_long (length pre + 2), b)"
      using cs off long by (simp add: buf_get_line_def)
    then show ?thesis unfolding line using assms True long by (simp add: Let_def)
  next
    case fits: False
    obtain b' where "buf_get_bytes b (length pre + 1) = Done (take (length pre + 1) (buf_view b), b')" "buf_ok b'"
      "buf_view b' = drop (length pre + 1) (buf_view b)" by (rule buf_get_bytes_ok [OF assms, of "length pre + 1"]) (simp add: rest)
    moreover have "take (length pre + 1) (buf_view b) = pre @ [NL]" "drop (length pre + 1) (buf_view b) = rest" by (simp_all add: rest)
    ultimately have "buf_get_line b n = Done (Line (pre @ [NL]), b')" "buf_ok b'" "buf_view b' = rest"
      using cs off fits by (simp_all add: buf_get_line_def)
    then show ?thesis unfolding line using fits True rest by (simp add: Let_def)
  qed
qed

lemma get_line_witness:
  "\<exists>r b'. buf_get_line two_chunks 20 = Done (r, b') \<and> buf_ok b' \<and> r = Line (''hello'' @ [NL])"
proof -
  have nl: "NL \<in> set (buf_view two_chunks)" "takeWhile (\<lambda>c. c \<noteq> NL) (buf_view two_chunks) = ''hello''"
    by (simp_all add: two_chunks_def buf_view_def)
  show ?thesis using get_line_takes_the_first_line [OF two_chunks_ok, of 20] nl by (auto simp: Let_def)
qed

text \<open>
  C39. A read that would block leaves an empty chunk at the tail. When the bytes before it end with the first of a
  string of two or more, the search looks at the first byte of that chunk, which nothing has written;
  without the read it finds that the string is not there.
\<close>

theorem search_reads_empty_tail:
  assumes "buf_ok b" "chunks b = [c]" "ch_data c = xs @ [x]" "x \<notin> set xs" "buf_slack b < MIN_READ_LEN"
    "0 < n" "length xs + 1 + n \<le> BUF_MAX_LEN"
  shows "buf_find_string_offset b (x # y # ss) = Done None \<and>
    (\<exists>b'. buf_read_from_fd now b n [Read_would_block] peer = Done (b', 0, False, peer) \<and> buf_view b' = buf_view b \<and>
       buf_find_string_offset b' (x # y # ss) = Stuck)"
proof -
  have v: "buf_view b = xs @ [x]" using assms(2,3) by (simp add: buf_view_def)
  have no: "\<not> occurs_at (x # y # ss) (xs @ [x]) i" for i
  proof
    assume o: "occurs_at (x # y # ss) (xs @ [x]) i"
    then have "length (take (length (x # y # ss)) (drop i (xs @ [x]))) = length (x # y # ss)" by (simp add: occurs_at_def)
    then have i: "i < length xs" by simp
    have "hd (drop i (xs @ [x])) = x" using o unfolding occurs_at_def by (metis hd_take length_Cons list.sel(1) zero_less_Suc)
    then have "xs ! i = x" using i by (simp add: hd_drop_conv_nth nth_append)
    then show False using i assms(4) by (metis nth_mem)
  qed
  have "\<exists>r. buf_find_string_offset b (x # y # ss) = Done r \<and> first_found (x # y # ss) (buf_view b) r"
    by (rule find_string_ok [OF assms(1)]) (use assms(2,3) in simp_all)
  then have before: "buf_find_string_offset b (x # y # ss) = Done None"
    using no v by (auto simp: first_found_def split: option.splits)
  have n: "1 \<le> n" "n \<le> BUF_MAX_LEN" using assms(6,7) by simp_all
  obtain e where e: "buf_add_chunk_with_capacity now b n True = Done (b\<lparr>chunks := chunks b @ [e]\<rparr>)"
    "ch_data e = []" "ch_offset e = 0" "MIN_READ_LEN \<le> ch_memlen e" using add_chunk [OF assms(1) n] .
  let ?b = "b\<lparr>chunks := [c, e]\<rparr>"
  have l: "buf_len b = length xs + 1" using assms(1) v by (simp add: buf_ok_def)
  have "size_sub BUF_MAX_LEN n = BUF_MAX_LEN - n" using assms(7) by (intro size_sub_le) (simp_all add: buf_consts)
  then have "buf_read_from_fd now b n [Read_would_block] peer = Done (?b, 0, False, peer)"
    using l assms(2,5-7) e by (simp add: buf_read_from_fd_def read_loop.simps read_to_chunk_def Let_def)
  moreover have "buf_view ?b = buf_view b" using assms(2) e(2) by (simp add: buf_view_def)
  moreover have "buf_find_string_offset ?b (x # y # ss) = Stuck"
  proof -
    have m: "memchr x (xs @ [x]) = Some (length xs)" using assms(4) by (simp add: memchr_takeWhile) (subst takeWhile_append2, auto)
    let ?p = "\<lparr>bp_chunks = [c, e], bp_pos = length xs, bp_chunk_pos = 0\<rparr>"
    have "length xs < BUF_MAX_LEN" using assms(7) by simp
    then have f: "buf_find_pos_of_char x (buf_pos_init ?b) = Done (Some ?p)" "buf_matches_at_pos ?p (x # y # ss) = Stuck"
      using assms(3) m e(2) by (simp_all add: buf_find_pos_of_char_def buf_pos_init_def buf_matches_at_pos_def buf_pos_inc_def nth_append)
    then show ?thesis by (subst buf_find_string_offset_def, subst find_string_loop.simps) (simp add: of_call_def)
  qed
  ultimately show ?thesis using before by blast
qed

lemma search_reads_witness:
  "\<exists>b'. buf_read_from_fd 0 \<lparr>buf_len = 2, default_chunk_size = 4096, chunks =
     [\<lparr>ch_memlen = 4, ch_offset = 1, ch_data = [1, 2], ch_inserted = 0\<rparr>]\<rparr> 10 [Read_would_block] [] = Done (b', 0, False, []) \<and>
     buf_find_string_offset b' [2 :: nat, 3] = Stuck"
  using search_reads_empty_tail [of "\<lparr>buf_len = 2, default_chunk_size = 4096, chunks =
     [\<lparr>ch_memlen = 4, ch_offset = 1, ch_data = [1 :: nat, 2], ch_inserted = 0\<rparr>]\<rparr>"
     "\<lparr>ch_memlen = 4, ch_offset = 1, ch_data = [1, 2], ch_inserted = 0\<rparr>" "[1]" 2 10 3 "[]" 0 "[]"]
  by (auto simp: buf_ok_def buf_view_def filled_Cons chunk_ok_def buf_consts buf_slack_def CHUNK_REMAINING_CAPACITY_def)

text \<open>
  C40. \<open>buf_move_all\<close> to a buffer that holds only such an empty chunk puts the bytes behind it: then no
  writing, however much the socket takes, writes a byte, and the return value is 0.
\<close>

theorem move_all_behind_empty_chunk_stalls:
  assumes "buf_ok bo" "chunks bo = [e]" "ch_data e = []" "buf_ok bi" "buf_view bi \<noteq> []"
  shows "\<exists>b. buf_move_all bo (Some bi) = (b, Some (bi\<lparr>chunks := [], buf_len := 0\<rparr>), buf_datalen bi) \<and>
    buf_view b = buf_view bi \<and> (\<forall>n w ws. buf_flush_to_fd b n (Wrote w # ws) = Done (b, [], 0))"
proof -
  let ?b = "bo\<lparr>chunks := e # chunks bi, buf_len := buf_len bi\<rparr>"
  have l: "buf_len bo = 0" "buf_len bi \<noteq> 0" "buf_len bi \<le> BUF_MAX_LEN"
    using assms by (simp_all add: buf_ok_def buf_view_def)
  then have "buf_move_all bo (Some bi) = (?b, Some (bi\<lparr>chunks := [], buf_len := 0\<rparr>), buf_datalen bi)"
    using assms(2) by (simp add: buf_move_all_def buf_datalen_def)
  moreover have "buf_view ?b = buf_view bi" using assms(3) by (simp add: buf_view_def)
  moreover have "buf_flush_to_fd ?b n (Wrote w # ws) = Done (?b, [], 0)" for n w ws
  proof -
    have drain: "buf_drain ?b 0 = Done ?b" by (simp add: buf_drain_def)
    have "flush_loop ?b m (Wrote w # ws) [] = Done (?b, [], 0)" for m
      using assms(3) drain by (cases m) (simp_all add: flush_chunk_def)
    then show ?thesis by (simp add: buf_flush_to_fd_def)
  qed
  ultimately show ?thesis by blast
qed

lemma move_all_stalls_witness:
  "\<exists>b. buf_move_all \<lparr>buf_len = 0, default_chunk_size = 4096, chunks =
     [\<lparr>ch_memlen = 16, ch_offset = 0, ch_data = [], ch_inserted = 0\<rparr>]\<rparr> (Some two_chunks) =
     (b, Some (two_chunks\<lparr>chunks := [], buf_len := 0\<rparr>), buf_datalen two_chunks) \<and>
   buf_view b = buf_view two_chunks \<and> (\<forall>n w ws. buf_flush_to_fd b n (Wrote w # ws) = Done (b, [], 0))"
  by (rule move_all_behind_empty_chunk_stalls [where e = "\<lparr>ch_memlen = 16, ch_offset = 0, ch_data = [], ch_inserted = 0\<rparr>",
        OF _ _ _ two_chunks_ok]) (simp_all add: buf_ok_def buf_view_def filled_Cons chunk_ok_def buf_consts CHUNK_REMAINING_CAPACITY_def two_chunks_def)

end
