(* ===== verification/BuffersTls.thy ===== *)
theory BuffersTls
  imports Buffers
begin

text \<open>
  Reading and writing buffers over TLS: \<open>src/lib/tls/buffers_tls.c\<close> with \<open>tor_tls_write\<close> and
  \<open>tor_tls_read\<close> of \<open>src/lib/tls/tortls_openssl.c\<close>. What \<open>SSL_write\<close> and \<open>SSL_read\<close> find is given
  call by call: a number of bytes, or the negative value that \<open>tor_tls_get_error\<close> makes of the failure. Of
  the TLS object only the length of a write that is to be repeated is state here. What \<open>SSL_write\<close> is
  handed, call by call, is part of what a write returns.
\<close>

definition TOR_TLS_ERROR_MISC :: int where "TOR_TLS_ERROR_MISC = - 9"
definition TOR_TLS_CLOSE :: int where "TOR_TLS_CLOSE = - 3"
definition TOR_TLS_WANTREAD :: int where "TOR_TLS_WANTREAD = - 2"
definition TOR_TLS_WANTWRITE :: int where "TOR_TLS_WANTWRITE = - 1"

lemmas tls_consts = TOR_TLS_ERROR_MISC_def TOR_TLS_CLOSE_def TOR_TLS_WANTREAD_def TOR_TLS_WANTWRITE_def

datatype ssl_result = Ssl_moved nat | Ssl_failed int

text \<open>
  The number of bytes written, or the error; the length to be repeated; and the bytes at \<open>cp\<close> that
  \<open>SSL_write\<close> was called with, if it was.
\<close>

definition tor_tls_write :: "nat \<Rightarrow> 'a list \<Rightarrow> nat \<Rightarrow> ssl_result \<Rightarrow> (int \<times> nat \<times> 'a list list) outcome" where
  "tor_tls_write wantwrite_n cp n res =
     (if \<not> n < INT_MAX then Stuck
      else if n = 0 then Done (0, wantwrite_n, [])
      else if wantwrite_n \<noteq> 0 \<and> \<not> n \<ge> wantwrite_n then Stuck
      else let n = (if wantwrite_n \<noteq> 0 then wantwrite_n else n)
           in case res of
                Ssl_moved k \<Rightarrow> Done (int (min k n), 0, [take n cp])
              | Ssl_failed err \<Rightarrow>
                  Done (err, if err = TOR_TLS_WANTWRITE \<or> err = TOR_TLS_WANTREAD then n else 0, [take n cp]))"

text \<open>The bytes that were read, or the error. No bytes and no error is no answer of the library.\<close>

definition tor_tls_read :: "nat \<Rightarrow> ssl_result \<Rightarrow> 'a list \<Rightarrow> (int \<times> 'a list) outcome" where
  "tor_tls_read len res peer =
     (if \<not> len < INT_MAX then Stuck
      else case res of
             Ssl_failed err \<Rightarrow> Done (err, [])
           | Ssl_moved k \<Rightarrow>
               let xs = take (min k len) peer
               in Done (if xs = [] then TOR_TLS_WANTREAD else int (length xs), xs))"

definition read_to_chunk_tls :: "'a buf \<Rightarrow> nat \<Rightarrow> ssl_result \<Rightarrow> 'a list \<Rightarrow> ('a buf \<times> int \<times> 'a list) outcome" where
  "read_to_chunk_tls b at_most res peer =
     (if \<not> buf_slack b \<ge> at_most then Stuck
      else obind (tor_tls_read at_most res peer) (\<lambda>(r, xs).
             if r < 0 then Done (b, r, peer)
             else obind (write_to_tail b xs) (\<lambda>b. Done (b, r, drop (length xs) peer))))"

text \<open>The first result that is not there is that nothing can be read now.\<close>

fun read_tls_loop :: "u32 \<Rightarrow> nat \<Rightarrow> nat \<Rightarrow> 'a buf \<Rightarrow> ssl_result list \<Rightarrow> 'a list \<Rightarrow> ('a buf \<times> int \<times> 'a list) outcome" where
  "read_tls_loop now at_most tot b rs peer =
     (if \<not> at_most > tot then Done (b, int tot, peer)
      else let fresh = buf_slack b < MIN_READ_LEN
           in obind (if fresh then buf_add_chunk_with_capacity now b at_most True else Done b) (\<lambda>b.
              let readlen = min (at_most - tot) (if fresh then ch_memlen (last (chunks b)) else buf_slack b)
              in case rs of
                   [] \<Rightarrow> obind (read_to_chunk_tls b readlen (Ssl_failed TOR_TLS_WANTREAD) peer) (\<lambda>(b, r, peer). Done (b, r, peer))
                 | r # rs \<Rightarrow>
                     obind (read_to_chunk_tls b readlen r peer) (\<lambda>(b, n, peer).
                       if n < 0 then Done (b, n, peer)
                       else if \<not> tot + nat n \<le> BUF_MAX_LEN then Stuck
                       else read_tls_loop now at_most (tot + nat n) b rs peer)))"

definition buf_read_from_tls :: "u32 \<Rightarrow> 'a buf \<Rightarrow> nat \<Rightarrow> ssl_result list \<Rightarrow> 'a list \<Rightarrow> ('a buf \<times> int \<times> 'a list) outcome" where
  "buf_read_from_tls now b at_most rs peer =
     (if buf_len b > BUF_MAX_LEN then Done (b, TOR_TLS_ERROR_MISC, peer)
      else if buf_len b > size_sub BUF_MAX_LEN at_most then Done (b, TOR_TLS_ERROR_MISC, peer)
      else read_tls_loop now at_most 0 b rs peer)"

definition head_data :: "'a buf \<Rightarrow> 'a list" where
  "head_data b = (case chunks b of [] \<Rightarrow> [] | c # _ \<Rightarrow> ch_data c)"

text \<open>
  The buffer, the length to be repeated, what \<open>SSL_write\<close> was called with, the bytes that were written,
  the result.
\<close>

type_synonym 'a flushed = "'a buf \<times> nat \<times> 'a list list \<times> 'a list \<times> int"

definition flush_chunk_tls :: "'a buf \<Rightarrow> nat \<Rightarrow> nat \<Rightarrow> ssl_result \<Rightarrow> 'a flushed outcome" where
  "flush_chunk_tls b want sz res =
     (let sz = max want sz;
          data = head_data b
      in if \<not> sz \<le> length data then Stuck
         else obind (tor_tls_write want data sz res) (\<lambda>(r, want, cs).
                if r < 0 then Done (b, want, cs, [], r)
                else obind (buf_drain b (nat r)) (\<lambda>b. Done (b, want, cs, take (nat r) data, r))))"

function flush_tls_loop :: "'a buf \<Rightarrow> nat \<Rightarrow> int \<Rightarrow> ssl_result list \<Rightarrow> 'a list list \<Rightarrow> 'a list \<Rightarrow> 'a flushed outcome" where
  "flush_tls_loop b want sz rs calls out =
     (let flushlen0 = (case chunks b of [] \<Rightarrow> 0 | c # _ \<Rightarrow> if int (length (ch_data c)) \<ge> sz then nat sz else length (ch_data c))
      in obind (flush_chunk_tls b want flushlen0 (case rs of [] \<Rightarrow> Ssl_failed TOR_TLS_WANTWRITE | w # _ \<Rightarrow> w)) (\<lambda>(b, want, cs, xs, r).
           if r < 0 then Done (b, want, calls @ cs, out @ xs, r)
           else if r = 0 \<or> \<not> sz - r > 0 \<or> rs = [] then Done (b, want, calls @ cs, out @ xs, int (length (out @ xs)))
           else flush_tls_loop b want (sz - r) (tl rs) (calls @ cs) (out @ xs)))"
  by pat_completeness auto
termination by (relation "measure (\<lambda>(b, want, sz, rs, calls, out). length rs)") (auto simp: length_tl neq_Nil_conv)

declare flush_tls_loop.simps [simp del] read_tls_loop.simps [simp del]

definition buf_flush_to_tls :: "'a buf \<Rightarrow> nat \<Rightarrow> nat \<Rightarrow> ssl_result list \<Rightarrow> 'a flushed outcome" where
  "buf_flush_to_tls b want flushlen rs =
     obind (flush_tls_loop b want (int (min flushlen (buf_len b))) rs [] []) (\<lambda>(b, want, calls, out, r).
       if r \<ge> 0 \<and> \<not> length out \<le> BUF_MAX_LEN then Stuck else Done (b, want, calls, out, r))"

section \<open>Repeated writes\<close>

text \<open>The bytes of a write that is to be repeated are at the start of the first chunk.\<close>

definition want_ok :: "'a buf \<Rightarrow> nat \<Rightarrow> bool" where
  "want_ok b want \<longleftrightarrow> want \<le> length (head_data b)"

definition ssl_ok :: "ssl_result \<Rightarrow> bool" where
  "ssl_ok res \<longleftrightarrow> (case res of Ssl_moved k \<Rightarrow> True | Ssl_failed err \<Rightarrow> err < 0)"

lemma head_prefix: "\<exists>ys. buf_view b = head_data b @ ys"
  by (cases "chunks b") (auto simp: buf_view_def head_data_def)

text \<open>Adding at the tail leaves the bytes at the start of the first chunk where they are.\<close>

lemma write_to_tail_head:
  "write_to_tail b xs = Done b' \<Longrightarrow> length (head_data b) \<le> length (head_data b')"
proof (cases "chunks b" rule: rev_cases)
  case (snoc ks c)
  then show "write_to_tail b xs = Done b' \<Longrightarrow> ?thesis"
    by (cases ks) (auto simp: write_to_tail_def chunk_write_def head_data_def outcome_elims split: if_splits)
qed (simp add: write_to_tail_def)

lemma add_chunk_head:
  "buf_add_chunk_with_capacity now b cap capped = Done b' \<Longrightarrow> length (head_data b) \<le> length (head_data b')"
  by (auto simp: buf_add_chunk_with_capacity_def head_data_def outcome_elims split: list.splits)

lemma add_loop_head:
  assumes "buf_add_loop now xs b = Some (Done b')"
  shows "length (head_data b) \<le> length (head_data b')"
proof -
  have "case r of Done b' \<Rightarrow> length (head_data b) \<le> length (head_data b') | _ \<Rightarrow> True" if "buf_add_loop now xs b = Some r" for r
    using that
  proof (induction rule: buf_add_loop.raw_induct [rotated, consumes 1, case_names step])
    case (step loop now xs b r)
    show ?case
    proof (cases "xs = []")
      case True
      then show ?thesis using step(2) by auto
    next
      case False
      let ?step = "obind (if buf_slack b = 0 then buf_add_chunk_with_capacity now b (length xs) True else Done b) (\<lambda>b.
        let copy = min (buf_slack b) (length xs) in obind (write_to_tail b (take copy xs)) (\<lambda>b. Done (b, copy)))"
      show ?thesis
      proof (cases ?step)
        case (Done p)
        obtain b2 copy where p: "p = (b2, copy)" by force
        have "length (head_data b) \<le> length (head_data b2)"
          using Done p by (auto simp: outcome_elims Let_def split: if_splits dest!: write_to_tail_head add_chunk_head)
        moreover have "loop now (drop copy xs) b2 = Some r" using step(2) False Done p by simp
        ultimately show ?thesis using step(1) [of now "drop copy xs" b2 r] by (cases r) auto
      qed (use step(2) False in auto)
    qed
  qed
  from this [OF assms] show ?thesis by simp
qed

lemma buf_add_head:
  "buf_add now b xs = Done b' \<Longrightarrow> length (head_data b) \<le> length (head_data b')"
  by (auto simp: buf_add_def of_call_def outcome_elims split: if_splits option.splits dest: add_loop_head)

lemma buf_add_want: "buf_add now b xs = Done b' \<Longrightarrow> want_ok b want \<Longrightarrow> want_ok b' want"
  using buf_add_head [of now b xs b'] by (simp add: want_ok_def)

section \<open>Writing and reading\<close>

text \<open>A write that was blocked: its length is remembered, and its bytes are the start of the first chunk.\<close>

definition blocked :: "int \<Rightarrow> bool" where
  "blocked r \<longleftrightarrow> r = TOR_TLS_WANTWRITE \<or> r = TOR_TLS_WANTREAD"

lemma blocked_neg: "blocked r \<Longrightarrow> r < 0"
  by (auto simp: blocked_def tls_consts)

definition remembers :: "'a buf \<Rightarrow> nat \<Rightarrow> 'a list list \<Rightarrow> int \<Rightarrow> bool" where
  "remembers b want calls r \<longleftrightarrow>
     (blocked r \<longrightarrow> want \<noteq> 0 \<and> calls \<noteq> [] \<and> last calls = take want (head_data b))"

lemma flush_chunk_tls_ok:
  assumes ok: "buf_ok b" and w: "want_ok b want" and sz: "sz \<le> length (head_data b)" and res: "ssl_ok res"
  obtains b' want' cs xs r where "flush_chunk_tls b want sz res = Done (b', want', cs, xs, r)" "buf_ok b'" "want_ok b' want'"
    "buf_view b = xs @ buf_view b'" "r < 0 \<longrightarrow> xs = []" "0 \<le> r \<longrightarrow> r = int (length xs)"
    "want \<noteq> 0 \<longrightarrow> cs = [take want (head_data b)]" "remembers b' want' cs r"
proof -
  let ?m = "max want sz"
  obtain ys where ys: "buf_view b = head_data b @ ys" using head_prefix by blast
  have m: "?m \<le> length (head_data b)" using w sz by (simp add: want_ok_def)
  have lim: "?m < INT_MAX"
    using m ys ok by (simp add: buf_ok_def BUF_MAX_LEN_def INT_MAX_def)
  let ?n = "if want \<noteq> 0 then want else ?m"
  show thesis
  proof (cases "?m = 0")
    case True
    then have "flush_chunk_tls b want sz res = Done (b, want, [], [], 0)"
      using m lim by (simp add: flush_chunk_tls_def tor_tls_write_def buf_drain_def Let_def)
    then show thesis using that ok w True by (simp add: remembers_def blocked_def tls_consts)
  next
    case False
    note m0 = this
    show thesis
    proof (cases res)
      case (Ssl_failed err)
      have e: "err < 0" using res Ssl_failed by (simp add: ssl_ok_def)
      let ?w = "if err = TOR_TLS_WANTWRITE \<or> err = TOR_TLS_WANTREAD then ?n else 0"
      have f: "flush_chunk_tls b want sz res = Done (b, ?w, [take ?n (head_data b)], [], err)"
        using m0 m lim e Ssl_failed by (auto simp add: flush_chunk_tls_def tor_tls_write_def Let_def)
      have "want_ok b ?w" using w m by (auto simp: want_ok_def)
      moreover have "remembers b ?w [take ?n (head_data b)] err" using m0 by (auto simp: remembers_def blocked_def)
      ultimately show thesis using that [OF f ok] e by simp
    next
      case (Ssl_moved k)
      define j where "j = min k ?n"
      have j: "j \<le> length (head_data b)" using m by (auto simp: j_def)
      obtain b' where b': "buf_drain b j = Done b'" "buf_ok b'" "buf_view b' = drop j (buf_view b)"
        by (rule buf_drain_ok [OF ok, of j]) (use j ys in simp)
      have t: "buf_view b = take j (head_data b) @ buf_view b'" using b'(3) j ys by simp
      have "tor_tls_write want (head_data b) ?m res = Done (int j, 0, [take ?n (head_data b)])"
        using lim Ssl_moved m0 by (auto simp add: tor_tls_write_def j_def Let_def)
      then have f: "flush_chunk_tls b want sz res = Done (b', 0, [take ?n (head_data b)], take j (head_data b), int j)"
        using m b'(1) by (simp add: flush_chunk_tls_def Let_def)
      have "want_ok b' 0" "remembers b' 0 [take ?n (head_data b)] (int j)"
        using blocked_neg [of "int j"] by (auto simp: want_ok_def remembers_def)
      then show thesis using that [OF f b'(2)] t j by simp
    qed
  qed
qed

lemma remembers_append: "remembers b want cs r \<Longrightarrow> remembers b want (calls @ cs) r"
  by (auto simp: remembers_def)

lemma remembers_total: "remembers b want calls (int n)"
  using blocked_neg [of "int n"] by (auto simp: remembers_def)

text \<open>The first call of a flush repeats a write that was blocked.\<close>

lemma flush_tls_loop_ok:
  assumes "buf_ok b" "want_ok b want" "\<forall>w \<in> set rs. ssl_ok w"
  shows "\<exists>b' want' cs xs r. flush_tls_loop b want sz rs calls out = Done (b', want', calls @ cs, out @ xs, r) \<and>
    buf_ok b' \<and> want_ok b' want' \<and> buf_view b = xs @ buf_view b' \<and> (0 \<le> r \<longrightarrow> r = int (length out + length xs)) \<and>
    (want \<noteq> 0 \<longrightarrow> (\<exists>cs'. cs = take want (head_data b) # cs')) \<and> remembers b' want' cs r"
  using assms
proof (induction "length rs" arbitrary: b want sz rs calls out rule: less_induct)
  case less
  let ?f = "case chunks b of [] \<Rightarrow> 0 | c # _ \<Rightarrow> if int (length (ch_data c)) \<ge> sz then nat sz else length (ch_data c)"
  let ?w = "case rs of [] \<Rightarrow> Ssl_failed TOR_TLS_WANTWRITE | w # _ \<Rightarrow> w"
  have f: "?f \<le> length (head_data b)" by (cases "chunks b") (auto simp: head_data_def)
  have w: "ssl_ok ?w" using less.prems(3) by (cases rs) (simp_all add: ssl_ok_def tls_consts)
  obtain b1 want1 cs xs r where c: "flush_chunk_tls b want ?f ?w = Done (b1, want1, cs, xs, r)" "buf_ok b1" "want_ok b1 want1"
    "buf_view b = xs @ buf_view b1" "r < 0 \<longrightarrow> xs = []" "0 \<le> r \<longrightarrow> r = int (length xs)"
    "want \<noteq> 0 \<longrightarrow> cs = [take want (head_data b)]" "remembers b1 want1 cs r"
    by (rule flush_chunk_tls_ok [OF less.prems(1,2) f w])
  have step: "flush_tls_loop b want sz rs calls out = (if r < 0 then Done (b1, want1, calls @ cs, out @ xs, r)
           else if r = 0 \<or> \<not> sz - r > 0 \<or> rs = [] then Done (b1, want1, calls @ cs, out @ xs, int (length (out @ xs)))
           else flush_tls_loop b1 want1 (sz - r) (tl rs) (calls @ cs) (out @ xs))"
    by (subst flush_tls_loop.simps) (simp add: c(1) Let_def)
  show ?case
  proof (cases "r < 0 \<or> r = 0 \<or> \<not> sz - r > 0 \<or> rs = []")
    case True
    then show ?thesis
      using step c(2-4,7,8) remembers_total [of b1 want1 cs "length out + length xs"]
      by (intro exI [of _ b1] exI [of _ want1] exI [of _ cs] exI [of _ xs] exI [of _ "if r < 0 then r else int (length (out @ xs))"]) auto
  next
    case False
    have tl: "length (tl rs) < length rs" "\<forall>w \<in> set (tl rs). ssl_ok w"
      using False less.prems(3) by (auto dest: list.set_sel(2))
    obtain b' want' cs' ys r' where i: "flush_tls_loop b1 want1 (sz - r) (tl rs) (calls @ cs) (out @ xs) =
        Done (b', want', (calls @ cs) @ cs', (out @ xs) @ ys, r')"
      "buf_ok b'" "want_ok b' want'" "buf_view b1 = ys @ buf_view b'" "0 \<le> r' \<longrightarrow> r' = int (length (out @ xs) + length ys)"
      "remembers b' want' cs' r'"
      using less.hyps [OF tl(1) c(2,3) tl(2), of "sz - r" "calls @ cs" "out @ xs"] by blast
    have "flush_tls_loop b want sz rs calls out = Done (b', want', calls @ (cs @ cs'), out @ (xs @ ys), r')" using step False i(1) by auto
    then show ?thesis
      using i(2-5) c(4,7) remembers_append [OF i(6)]
      by (intro exI [of _ b'] exI [of _ want'] exI [of _ "cs @ cs'"] exI [of _ "xs @ ys"] exI [of _ r']) auto
  qed
qed

lemma buf_flush_to_tls_ok:
  assumes "buf_ok b" "want_ok b want" "\<forall>w \<in> set rs. ssl_ok w"
  obtains b' want' cs xs r where "buf_flush_to_tls b want n rs = Done (b', want', cs, xs, r)" "buf_ok b'" "want_ok b' want'"
    "buf_view b = xs @ buf_view b'" "0 \<le> r \<Longrightarrow> r = int (length xs)"
    "want \<noteq> 0 \<Longrightarrow> \<exists>cs'. cs = take want (head_data b) # cs'" "remembers b' want' cs r"
proof -
  obtain b' want' cs xs r where f: "flush_tls_loop b want (int (min n (buf_len b))) rs [] [] = Done (b', want', cs, xs, r)" "buf_ok b'"
    "want_ok b' want'" "buf_view b = xs @ buf_view b'" "0 \<le> r \<longrightarrow> r = int (length xs)"
    "want \<noteq> 0 \<longrightarrow> (\<exists>cs'. cs = take want (head_data b) # cs')" "remembers b' want' cs r"
    using flush_tls_loop_ok [OF assms, of "int (min n (buf_len b))" "[]" "[]"] by auto
  have "length xs \<le> BUF_MAX_LEN" using f(4) assms(1) by (simp add: buf_ok_def)
  then have "buf_flush_to_tls b want n rs = Done (b', want', cs, xs, r)" using f(1) by (simp add: buf_flush_to_tls_def)
  then show thesis using that f(2-7) by auto
qed

lemma read_to_chunk_tls_ok:
  assumes ok: "buf_ok b" and n: "n \<le> buf_slack b" "length (buf_view b) + n \<le> BUF_MAX_LEN" and res: "ssl_ok res"
  obtains (failed) e where "read_to_chunk_tls b n res peer = Done (b, e, peer)" "e < 0"
  | (some) xs peer' b' where "read_to_chunk_tls b n res peer = Done (b', int (length xs), peer')" "length xs \<le> n"
      "peer = xs @ peer'" "buf_ok b'" "buf_view b' = buf_view b @ xs"
proof (cases "\<exists>k. res = Ssl_moved k \<and> take (min k n) peer \<noteq> []")
  case False
  have lim: "n < INT_MAX" using n(2) by (simp add: BUF_MAX_LEN_def INT_MAX_def)
  have "\<exists>e < 0. read_to_chunk_tls b n res peer = Done (b, e, peer)"
    using False n(1) lim res by (cases res) (auto simp: read_to_chunk_tls_def tor_tls_read_def ssl_ok_def tls_consts Let_def)
  then obtain e where "read_to_chunk_tls b n res peer = Done (b, e, peer)" "e < 0" by auto
  then show thesis by (rule failed)
next
  case True
  then obtain k where k: "res = Ssl_moved k" "take (min k n) peer \<noteq> []" by blast
  obtain xs where xs: "xs = take (min k n) peer" by blast
  have l: "length xs \<le> n" "length xs \<le> buf_slack b" "xs \<noteq> []" using n(1) k(2) by (auto simp: xs)
  have lim: "n < INT_MAX" using n(2) by (simp add: BUF_MAX_LEN_def INT_MAX_def)
  have fit: "buf_len b + length xs \<le> BUF_MAX_LEN" using l(1) n(2) ok by (simp add: buf_ok_def)
  obtain b' where b': "write_to_tail b xs = Done b'" "buf_ok b'" "buf_view b' = buf_view b @ xs"
    using write_to_tail_ok [OF ok l(2) fit l(3)] by blast
  have "tor_tls_read n res peer = Done (int (length xs), xs)"
    using k(1) l(3) lim by (simp add: tor_tls_read_def Let_def xs [symmetric])
  then have rd: "read_to_chunk_tls b n res peer = Done (b', int (length xs), drop (length xs) peer)"
    using b'(1) n(1) by (simp add: read_to_chunk_tls_def)
  have peer: "peer = xs @ drop (length xs) peer" by (simp add: xs min_def)
  show thesis by (rule some [OF rd l(1) peer b'(2,3)])
qed

lemma read_tls_loop_step:
  assumes ok: "buf_ok b" and at: "tot < at_most" "at_most \<le> BUF_MAX_LEN"
  obtains b1 n where "buf_ok b1" "buf_view b1 = buf_view b" "n \<le> buf_slack b1" "tot + n \<le> at_most"
    "read_tls_loop now at_most tot b rs peer = (case rs of
           [] \<Rightarrow> obind (read_to_chunk_tls b1 n (Ssl_failed TOR_TLS_WANTREAD) peer) (\<lambda>(b, r, peer). Done (b, r, peer))
         | r # rs \<Rightarrow> obind (read_to_chunk_tls b1 n r peer) (\<lambda>(b, m, peer).
             if m < 0 then Done (b, m, peer)
             else if \<not> tot + nat m \<le> BUF_MAX_LEN then Stuck
             else read_tls_loop now at_most (tot + nat m) b rs peer))"
proof -
  let ?fresh = "buf_slack b < MIN_READ_LEN"
  have at': "1 \<le> at_most" "at_most \<le> BUF_MAX_LEN" using at by simp_all
  obtain b1 where b1: "(if ?fresh then buf_add_chunk_with_capacity now b at_most True else Done b) = Done b1" "buf_ok b1"
    "buf_view b1 = buf_view b" "0 < buf_slack b1" "(if ?fresh then ch_memlen (last (chunks b1)) else buf_slack b1) = buf_slack b1"
    by (rule tail_room [OF ok at'])
  define n where "n = min (at_most - tot) (buf_slack b1)"
  have rl: "min (at_most - tot) (if ?fresh then ch_memlen (last (chunks b1)) else buf_slack b1) = n"
    by (simp only: b1(5) n_def)
  show thesis
  proof (rule that [of b1 n])
    show "buf_ok b1" "buf_view b1 = buf_view b" "n \<le> buf_slack b1" "tot + n \<le> at_most"
      using b1 at by (auto simp: n_def)
  qed (unfold rl [symmetric], subst read_tls_loop.simps, simp only: Let_def b1(1) obind.simps at(1) not_True_eq_False if_False)
qed

lemma read_tls_loop_ok:
  assumes "buf_ok b" "length (buf_view b) + at_most \<le> BUF_MAX_LEN + tot" "tot \<le> at_most" "at_most \<le> BUF_MAX_LEN"
    "\<forall>r \<in> set rs. ssl_ok r"
  shows "\<exists>b' n peer' xs. read_tls_loop now at_most tot b rs peer = Done (b', n, peer') \<and> buf_ok b' \<and>
    buf_view b' = buf_view b @ xs \<and> peer = xs @ peer' \<and> length xs + tot \<le> at_most"
  using assms
proof (induction rs arbitrary: b tot peer)
  case Nil
  show ?case
  proof (cases "tot < at_most")
    case True
    obtain b1 n where b1: "buf_ok b1" "buf_view b1 = buf_view b" "n \<le> buf_slack b1" "tot + n \<le> at_most"
      and step: "read_tls_loop now at_most tot b [] peer =
        obind (read_to_chunk_tls b1 n (Ssl_failed TOR_TLS_WANTREAD) peer) (\<lambda>(b, r, peer). Done (b, r, peer))"
      by (rule read_tls_loop_step [OF Nil.prems(1) True Nil.prems(4), of now "[]" peer]) simp
    have room: "length (buf_view b1) + n \<le> BUF_MAX_LEN" "ssl_ok (Ssl_failed TOR_TLS_WANTREAD)"
      using Nil.prems(2) b1(2,4) by (simp_all add: ssl_ok_def tls_consts)
    from b1(1,3) room show ?thesis
      by (cases rule: read_to_chunk_tls_ok [of b1 n _ peer]) (use step b1 Nil.prems(3) in auto)
  qed (use Nil.prems in \<open>subst read_tls_loop.simps, auto\<close>)
next
  case (Cons r rs)
  show ?case
  proof (cases "tot < at_most")
    case False
    then show ?thesis using Cons.prems by (subst read_tls_loop.simps) auto
  next
    case True
    obtain b1 n where b1: "buf_ok b1" "buf_view b1 = buf_view b" "n \<le> buf_slack b1" "tot + n \<le> at_most"
      and step: "read_tls_loop now at_most tot b (r # rs) peer = obind (read_to_chunk_tls b1 n r peer) (\<lambda>(b, m, peer).
             if m < 0 then Done (b, m, peer)
             else if \<not> tot + nat m \<le> BUF_MAX_LEN then Stuck
             else read_tls_loop now at_most (tot + nat m) b rs peer)"
      by (rule read_tls_loop_step [OF Cons.prems(1) True Cons.prems(4), of now "r # rs" peer]) simp
    have room: "length (buf_view b1) + n \<le> BUF_MAX_LEN" "ssl_ok r" using Cons.prems(2,5) b1(2,4) by simp_all
    from b1(1,3) room show ?thesis
    proof (cases rule: read_to_chunk_tls_ok [of b1 n r peer])
      case (failed e)
      then show ?thesis using step b1(1,2) Cons.prems(3) by auto
    next
      case (some xs peer1 b2)
      have at: "length xs + tot \<le> at_most" "tot + length xs \<le> BUF_MAX_LEN" using some(2) b1(4) Cons.prems(4) by simp_all
      have go: "read_tls_loop now at_most tot b (r # rs) peer = read_tls_loop now at_most (tot + length xs) b2 rs peer1"
        using step some(1) at(2) by simp
      have "length (buf_view b2) + at_most \<le> BUF_MAX_LEN + (tot + length xs)" "tot + length xs \<le> at_most" "\<forall>r \<in> set rs. ssl_ok r"
        using Cons.prems(2,5) some(5) b1(2) at(1) by simp_all
      then obtain b' m peer' ys where "read_tls_loop now at_most (tot + length xs) b2 rs peer1 = Done (b', m, peer')" "buf_ok b'"
        "buf_view b' = buf_view b2 @ ys" "peer1 = ys @ peer'" "length ys + (tot + length xs) \<le> at_most"
        using Cons.IH [OF some(4)] Cons.prems(4) by blast
      then show ?thesis using go some(3,5) b1(2) by (auto intro!: exI [of _ "xs @ ys"])
    qed
  qed
qed

lemma buf_read_from_tls_ok:
  assumes "buf_ok b" "length (buf_view b) + at_most \<le> BUF_MAX_LEN" "\<forall>r \<in> set rs. ssl_ok r"
  obtains b' n peer' xs where "buf_read_from_tls now b at_most rs peer = Done (b', n, peer')" "buf_ok b'"
    "buf_view b' = buf_view b @ xs" "peer = xs @ peer'" "length xs \<le> at_most"
proof -
  have l: "buf_len b = length (buf_view b)" using assms(1) by (simp add: buf_ok_def)
  have "size_sub BUF_MAX_LEN at_most = BUF_MAX_LEN - at_most" using assms(2) by (intro size_sub_le) (simp_all add: buf_consts)
  moreover have "\<not> BUF_MAX_LEN - at_most < buf_len b" using l assms(2) by simp
  ultimately have "buf_read_from_tls now b at_most rs peer = read_tls_loop now at_most 0 b rs peer"
    using l assms(2) by (simp add: buf_read_from_tls_def)
  then show thesis using read_tls_loop_ok [of b at_most 0 rs now peer] assms that by force
qed

section \<open>The property\<close>

text \<open>
  C17. When a flush over TLS ends because the library wants to write or to read first, the next flush
  starts by calling \<open>SSL_write\<close> with exactly the bytes of the last call, length and content, as the
  library asks, whatever was added to the buffer in between and however much is to be flushed; it
  returns without a failed assertion, and no byte is lost or changed.
\<close>

theorem tls_write_repeated:
  assumes "buf_ok b" "want_ok b want" "\<forall>w \<in> set rs. ssl_ok w"
    and "buf_flush_to_tls b want n rs = Done (b1, want1, calls, out, r)" "r = TOR_TLS_WANTWRITE \<or> r = TOR_TLS_WANTREAD"
    and "buf_add now b1 xs = Done b2" "length (buf_view b1) + length xs \<le> BUF_MAX_LEN" "\<forall>w \<in> set rs2. ssl_ok w"
  shows "calls \<noteq> [] \<and> last calls \<noteq> [] \<and>
    (\<exists>b3 want3 calls3 out3 r3. buf_flush_to_tls b2 want1 m rs2 = Done (b3, want3, last calls # calls3, out3, r3) \<and>
       buf_view b @ xs = out @ out3 @ buf_view b3)"
proof -
  obtain b1' want1' cs' out' r' where 1: "buf_flush_to_tls b want n rs = Done (b1', want1', cs', out', r')" "buf_ok b1'" "want_ok b1' want1'"
    "buf_view b = out' @ buf_view b1'" "remembers b1' want1' cs' r'" by (rule buf_flush_to_tls_ok [OF assms(1-3)])
  then have b1: "buf_ok b1" "want_ok b1 want1" "buf_view b = out @ buf_view b1" "remembers b1 want1 calls r" using assms(4) by simp_all
  then have last: "want1 \<noteq> 0" "calls \<noteq> []" "last calls = take want1 (head_data b1)"
    using assms(5) by (auto simp: remembers_def blocked_def)
  obtain b2' where 2: "buf_add now b1 xs = Done b2'" "buf_ok b2'" "buf_view b2' = buf_view b1 @ xs"
    by (rule buf_add_ok [OF b1(1) assms(7)])
  then have b2: "buf_ok b2" "buf_view b2 = buf_view b1 @ xs" "want_ok b2 want1"
    using assms(6) buf_add_want [OF assms(6) b1(2)] by simp_all
  obtain b3 want3 cs out3 r3 where 3: "buf_flush_to_tls b2 want1 m rs2 = Done (b3, want3, cs, out3, r3)" "buf_view b2 = out3 @ buf_view b3"
    "\<exists>cs'. cs = take want1 (head_data b2) # cs'"
    by (rule buf_flush_to_tls_ok [OF b2(1,3) assms(8)]) (use last(1) in blast)
  obtain ys zs where v: "buf_view b1 = head_data b1 @ ys" "buf_view b2 = head_data b2 @ zs" using head_prefix by metis
  have w: "want1 \<le> length (head_data b1)" "want1 \<le> length (head_data b2)" using b1(2) b2(3) by (simp_all add: want_ok_def)
  have "take want1 (head_data b2) = take want1 (buf_view b2)" using v(2) w(2) by simp
  also have "\<dots> = last calls" using b2(2) v(1) w(1) last(3) by simp
  finally have "\<exists>calls3. cs = last calls # calls3" using 3(3) by simp
  moreover have "last calls \<noteq> []" using last(1,3) w(1) by auto
  ultimately show ?thesis using 3(1,2) b1(3) b2(2) last(2) by auto
qed

text \<open>The first chunk holds ''he'': its write is blocked, and repeated when the flush is for one byte only.\<close>

lemma tls_write_witness:
  "\<exists>b2 b3 want3 calls3 out3 r3. buf_flush_to_tls two_chunks 0 6 [Ssl_failed TOR_TLS_WANTWRITE] =
      Done (two_chunks, 2, [''he''], [], TOR_TLS_WANTWRITE) \<and>
    buf_add 0 two_chunks ''x'' = Done b2 \<and>
    buf_flush_to_tls b2 2 1 [Ssl_moved 2] = Done (b3, want3, ''he'' # calls3, out3, r3) \<and>
    ''hello'' @ [NL] @ ''x'' = out3 @ buf_view b3"
proof -
  have l: "length (buf_view two_chunks) + length ''x'' \<le> BUF_MAX_LEN"
    by (simp add: two_chunks_def buf_view_def BUF_MAX_LEN_def INT_MAX_def)
  have f: "buf_flush_to_tls two_chunks 0 6 [Ssl_failed TOR_TLS_WANTWRITE] = Done (two_chunks, 2, [''he''], [], TOR_TLS_WANTWRITE)"
    by (simp add: buf_flush_to_tls_def flush_tls_loop.simps flush_chunk_tls_def tor_tls_write_def two_chunks_def head_data_def
        tls_consts INT_MAX_def Let_def)
  obtain b2 where b2: "buf_add 0 two_chunks ''x'' = Done b2" by (rule buf_add_ok [OF two_chunks_ok l])
  have "\<exists>b3 want3 calls3 out3 r3. buf_flush_to_tls b2 2 1 [Ssl_moved 2] = Done (b3, want3, ''he'' # calls3, out3, r3) \<and>
      buf_view two_chunks @ ''x'' = out3 @ buf_view b3"
    using tls_write_repeated [OF two_chunks_ok _ _ f _ b2 l, of "[Ssl_moved 2]" 1] by (simp add: want_ok_def ssl_ok_def tls_consts)
  moreover have "buf_view two_chunks @ ''x'' = ''hello'' @ [NL] @ ''x''" by (simp add: two_chunks_def buf_view_def)
  ultimately show ?thesis using f b2 by metis
qed

end
