(* ===== verification/LinkCells.thy ===== *)
theory LinkCells
  imports BuffersTls RelayCrypto
begin

text \<open>
  Cells on a link between two relays: packing and unpacking them, writing them to the buffer of a
  connection and taking them from it (\<open>src/core/or/connection_or.c\<close>, \<open>src/core/proto/proto_cell.c\<close>),
  the transcript of the handshake and the choice of the link protocol
  (\<open>channel_tls_process_versions_cell\<close> of \<open>src/core/or/channeltls.c\<close>). Of an OR connection the fields are here that
  this code reads or writes. What is done with a cell that was taken, and the other cells of the
  handshake, are arguments. Statistics, logging and events are left out.
\<close>

section \<open>Cells as bytes\<close>

definition VAR_CELL_MAX_HEADER_SIZE :: nat where "VAR_CELL_MAX_HEADER_SIZE = 7"
definition CELL_VERSIONS :: byte where "CELL_VERSIONS = 7"
definition MIN_LINK_PROTO_FOR_WIDE_CIRC_IDS :: nat where "MIN_LINK_PROTO_FOR_WIDE_CIRC_IDS = 4"

record var_cell =
  vc_command :: byte
  vc_circ_id :: u32
  vc_payload :: "byte list"

definition get_cell_network_size :: "bool \<Rightarrow> nat" where
  "get_cell_network_size wide = nat (if wide then CELL_MAX_NETWORK_SIZE else CELL_MAX_NETWORK_SIZE - 2)"

definition get_var_cell_header_size :: "bool \<Rightarrow> nat" where
  "get_var_cell_header_size wide = (if wide then VAR_CELL_MAX_HEADER_SIZE else VAR_CELL_MAX_HEADER_SIZE - 2)"

definition get_circ_id_size :: "bool \<Rightarrow> nat" where
  "get_circ_id_size wide = (if wide then 4 else 2)"

text \<open>The body of a packed cell, all \<open>CELL_MAX_NETWORK_SIZE\<close> bytes of it.\<close>

definition cell_pack :: "cell_t \<Rightarrow> bool \<Rightarrow> byte list" where
  "cell_pack src wide =
     (if wide then put32 (cell_circ_id src) @ [cell_command src] @ take CELL_PAYLOAD_SIZE (cell_payload src)
      else put16 (ucast (cell_circ_id src)) @ [cell_command src] @ take CELL_PAYLOAD_SIZE (cell_payload src) @ [0, 0])"

definition cell_unpack :: "byte list \<Rightarrow> bool \<Rightarrow> cell_t" where
  "cell_unpack src wide =
     (let circ_id = (if wide then get32 src else ucast (get16 src));
          src = drop (get_circ_id_size wide) src
      in \<lparr>cell_circ_id = circ_id, cell_command = src ! 0, cell_payload = take CELL_PAYLOAD_SIZE (drop 1 src)\<rparr>)"

text \<open>The payload has as many bytes as \<open>payload_len\<close> says, a 16-bit number.\<close>

definition var_cell_pack_header :: "var_cell \<Rightarrow> bool \<Rightarrow> byte list" where
  "var_cell_pack_header c wide =
     (if wide then put32 (vc_circ_id c) else put16 (ucast (vc_circ_id c))) @ [vc_command c] @
     put16 (of_nat (length (vc_payload c)))"

section \<open>Cells in a buffer\<close>

definition cell_command_is_var_length :: "byte \<Rightarrow> nat \<Rightarrow> bool" where
  "cell_command_is_var_length cmd linkproto =
     (if linkproto = 1 then False
      else if linkproto = 2 then cmd = CELL_VERSIONS
      else cmd = CELL_VERSIONS \<or> cmd \<ge> 128)"

text \<open>The return value 0, 1 with a NULL cell, 1 with a cell.\<close>

datatype fetched = Not_var | Not_all_there | Fetched var_cell

definition fetch_var_cell_from_buf :: "byte buf \<Rightarrow> nat \<Rightarrow> (fetched \<times> byte buf) outcome" where
  "fetch_var_cell_from_buf b linkproto =
     (let wide = (linkproto \<ge> MIN_LINK_PROTO_FOR_WIDE_CIRC_IDS);
          circ_id_len = get_circ_id_size wide;
          header_len = get_var_cell_header_size wide
      in if buf_datalen b < header_len then Done (Not_var, b)
         else obind (buf_peek b header_len) (\<lambda>hdr.
           let cmd = hdr ! circ_id_len
           in if \<not> cell_command_is_var_length cmd linkproto then Done (Not_var, b)
              else let len = unat (get16 (drop (circ_id_len + 1) hdr))
                   in if buf_datalen b < header_len + len then Done (Not_all_there, b)
                      else let circ_id = (if wide then get32 hdr else ucast (get16 hdr))
                           in obind (buf_drain b header_len) (\<lambda>b.
                              obind (buf_peek b len) (\<lambda>pl.
                              obind (buf_drain b len) (\<lambda>b.
                                Done (Fetched \<lparr>vc_command = cmd, vc_circ_id = circ_id, vc_payload = pl\<rparr>, b))))))"

section \<open>Connections\<close>

datatype or_state = Or_connecting | Or_proxy_handshaking | Tls_handshaking | Tls_client_renegotiating | Tls_server_renegotiating
  | Or_handshaking_v2 | Or_handshaking_v3 | Or_open

text \<open>Instead of the running digests the bytes that were digested, none before the first.\<close>

record or_handshake_state =
  hs_started_here :: bool
  hs_sent_versions_at :: nat
  hs_received_versions :: bool
  hs_digest_sent_data :: bool
  hs_digest_received_data :: bool
  hs_digest_sent :: "byte list option"
  hs_digest_received :: "byte list option"

record or_conn =
  oc_state :: or_state
  oc_link_proto :: nat
  oc_wide_circ_ids :: bool
  oc_inbuf :: "byte buf"
  oc_outbuf :: "byte buf"
  oc_wantwrite :: nat
  oc_marked_for_close :: bool
  oc_hold_open_until_flushed :: bool
  oc_handshake_state :: "or_handshake_state option"
  oc_tls_is_server :: bool

definition connection_or_close_for_error :: "or_conn \<Rightarrow> or_conn" where
  "connection_or_close_for_error conn = conn\<lparr>oc_marked_for_close := True\<rparr>"

definition connection_may_write_to_buf :: "or_conn \<Rightarrow> bool" where
  "connection_may_write_to_buf conn \<longleftrightarrow> \<not> (oc_marked_for_close conn \<and> \<not> oc_hold_open_until_flushed conn)"

text \<open>\<open>connection_write_to_buf_impl_\<close> for an OR connection, which is not compressed.\<close>

definition connection_buf_add :: "u32 \<Rightarrow> byte list \<Rightarrow> or_conn \<Rightarrow> or_conn outcome" where
  "connection_buf_add now xs conn =
     (if xs = [] then Done conn
      else if \<not> connection_may_write_to_buf conn then Done conn
      else case buf_add now (oc_outbuf conn) xs of
             Done b \<Rightarrow> Done (conn\<lparr>oc_outbuf := b\<rparr>)
           | Fail \<Rightarrow> Done (connection_or_close_for_error conn)
           | Stuck \<Rightarrow> Stuck)"

definition digest_add :: "byte list option \<Rightarrow> byte list \<Rightarrow> byte list option" where
  "digest_add d xs = Some ((case d of None \<Rightarrow> [] | Some ys \<Rightarrow> ys) @ xs)"

text \<open>A NULL state is no defined behaviour.\<close>

definition record_bytes :: "or_conn \<Rightarrow> byte list \<Rightarrow> bool \<Rightarrow> or_conn outcome" where
  "record_bytes conn xs incoming =
     (case oc_handshake_state conn of
        None \<Rightarrow> Stuck
      | Some s \<Rightarrow>
          if incoming then
            (if \<not> hs_digest_received_data s then Done conn
             else Done (conn\<lparr>oc_handshake_state := Some (s\<lparr>hs_digest_received := digest_add (hs_digest_received s) xs\<rparr>)\<rparr>))
          else
            (if \<not> hs_digest_sent_data s then Done conn
             else Done (conn\<lparr>oc_handshake_state := Some (s\<lparr>hs_digest_sent := digest_add (hs_digest_sent s) xs\<rparr>)\<rparr>)))"

definition or_handshake_state_record_cell :: "or_conn \<Rightarrow> cell_t \<Rightarrow> bool \<Rightarrow> or_conn outcome" where
  "or_handshake_state_record_cell conn c incoming =
     record_bytes conn (take (get_cell_network_size (oc_wide_circ_ids conn)) (cell_pack c (oc_wide_circ_ids conn))) incoming"

definition or_handshake_state_record_var_cell :: "or_conn \<Rightarrow> var_cell \<Rightarrow> bool \<Rightarrow> or_conn outcome" where
  "or_handshake_state_record_var_cell conn c incoming =
     record_bytes conn (var_cell_pack_header c (oc_wide_circ_ids conn) @ vc_payload c) incoming"

definition connection_or_write_cell_to_buf :: "u32 \<Rightarrow> cell_t \<Rightarrow> or_conn \<Rightarrow> or_conn outcome" where
  "connection_or_write_cell_to_buf now c conn =
     (let wide = oc_wide_circ_ids conn
      in obind (connection_buf_add now (take (get_cell_network_size wide) (cell_pack c wide)) conn) (\<lambda>conn.
           if oc_state conn = Or_handshaking_v3 then or_handshake_state_record_cell conn c False else Done conn))"

definition connection_or_write_var_cell_to_buf :: "u32 \<Rightarrow> var_cell \<Rightarrow> or_conn \<Rightarrow> or_conn outcome" where
  "connection_or_write_var_cell_to_buf now c conn =
     obind (connection_buf_add now (var_cell_pack_header c (oc_wide_circ_ids conn)) conn) (\<lambda>conn.
     obind (connection_buf_add now (vc_payload c) conn) (\<lambda>conn.
       if oc_state conn = Or_handshaking_v3 then or_handshake_state_record_var_cell conn c False else Done conn))"

datatype link_cell = Fixed cell_t | Variable var_cell

text \<open>One round of the loop: the cell that is handed on, none when a whole one is not there.\<close>

definition next_link_cell :: "or_conn \<Rightarrow> (link_cell option \<times> or_conn) outcome" where
  "next_link_cell conn =
     obind (fetch_var_cell_from_buf (oc_inbuf conn) (oc_link_proto conn)) (\<lambda>(f, b).
       let conn = conn\<lparr>oc_inbuf := b\<rparr>
       in case f of
            Fetched c \<Rightarrow> Done (Some (Variable c), conn)
          | Not_all_there \<Rightarrow> Done (None, conn)
          | Not_var \<Rightarrow>
              let wide = oc_wide_circ_ids conn; n = get_cell_network_size wide
              in if buf_datalen b < n then Done (None, conn)
                 else obind (buf_get_bytes b n) (\<lambda>(xs, b). Done (Some (Fixed (cell_unpack xs wide)), conn\<lparr>oc_inbuf := b\<rparr>)))"

text \<open>The handler gets each cell, and the connection, as the code calls it; the result lists the cells.\<close>

partial_function (option) process_cells_loop ::
  "(link_cell \<Rightarrow> or_conn \<Rightarrow> or_conn outcome) \<Rightarrow> or_conn \<Rightarrow> link_cell list \<Rightarrow> (link_cell list \<times> or_conn) outcome option" where
  "process_cells_loop handle conn acc =
     (case obind (next_link_cell conn) (\<lambda>(c, conn).
             case c of None \<Rightarrow> Done (True, acc, conn)
             | Some c \<Rightarrow> obind (handle c conn) (\<lambda>conn. Done (False, acc @ [c], conn))) of
        Stuck \<Rightarrow> Some Stuck
      | Fail \<Rightarrow> Some Fail
      | Done (stop, cells, conn) \<Rightarrow>
          if stop then Some (Done (cells, conn)) else process_cells_loop handle conn cells)"

definition connection_or_process_cells_from_inbuf ::
  "(link_cell \<Rightarrow> or_conn \<Rightarrow> or_conn outcome) \<Rightarrow> or_conn \<Rightarrow> (link_cell list \<times> or_conn) outcome" where
  "connection_or_process_cells_from_inbuf handle conn = of_call (process_cells_loop handle conn [])"

section \<open>The link protocol version\<close>

definition or_protocol_versions :: "u16 list" where "or_protocol_versions = [1, 2, 3, 4, 5]"

definition is_or_protocol_version_known :: "u16 \<Rightarrow> bool" where
  "is_or_protocol_version_known v \<longleftrightarrow> v \<in> set or_protocol_versions"

definition versions_cell :: "bool \<Rightarrow> var_cell" where
  "versions_cell v3_plus =
     (let mn = (if v3_plus then 3 else 0); mx = (if v3_plus then 65535 else 2)
      in \<lparr>vc_command = CELL_VERSIONS, vc_circ_id = 0,
          vc_payload = concat (map put16 (filter (\<lambda>v. \<not> (v < mn \<or> v > mx)) or_protocol_versions))\<rparr>)"

definition connection_or_send_versions :: "u32 \<Rightarrow> nat \<Rightarrow> or_conn \<Rightarrow> bool \<Rightarrow> or_conn outcome" where
  "connection_or_send_versions now time_now conn v3_plus =
     (case oc_handshake_state conn of
        None \<Rightarrow> Stuck
      | Some s \<Rightarrow>
          if hs_sent_versions_at s \<noteq> 0 then Stuck
          else obind (connection_or_write_var_cell_to_buf now (versions_cell v3_plus) conn) (\<lambda>conn.
            case oc_handshake_state conn of
              None \<Rightarrow> Stuck
            | Some s \<Rightarrow> Done (conn\<lparr>oc_handshake_state := Some (s\<lparr>hs_sent_versions_at := time_now\<rparr>)\<rparr>)))"

definition connection_or_nonopen_was_started_here :: "or_conn \<Rightarrow> bool" where
  "connection_or_nonopen_was_started_here conn =
     (case oc_handshake_state conn of Some s \<Rightarrow> hs_started_here s | None \<Rightarrow> \<not> oc_tls_is_server conn)"

fun highest_version :: "byte list \<Rightarrow> nat \<Rightarrow> nat" where
  "highest_version (x # y # rest) best =
     (let v = get16 [x, y]
      in highest_version rest (if is_or_protocol_version_known v \<and> unat v > best then unat v else best))"
| "highest_version _ best = best"

text \<open>The other cells of the handshake, each of which may fail, and whether this is a public relay.\<close>

record link_env =
  send_netinfo :: "or_conn \<Rightarrow> or_conn outcome"
  send_certs :: "or_conn \<Rightarrow> or_conn outcome"
  send_auth_challenge :: "or_conn \<Rightarrow> or_conn outcome"
  public_server_mode :: bool

text \<open>A failure to send closes the connection and ends the function.\<close>

definition or_close :: "or_conn \<Rightarrow> or_conn outcome \<Rightarrow> (or_conn \<Rightarrow> or_conn outcome) \<Rightarrow> or_conn outcome" where
  "or_close conn r k = (case r of Done c \<Rightarrow> k c | Fail \<Rightarrow> Done (connection_or_close_for_error conn) | Stuck \<Rightarrow> Stuck)"

definition after_versions :: "link_env \<Rightarrow> u32 \<Rightarrow> nat \<Rightarrow> bool \<Rightarrow> or_conn \<Rightarrow> or_conn outcome" where
  "after_versions E now time_now started_here conn =
     (if oc_link_proto conn = 2 then or_close conn (send_netinfo E conn) Done
      else if \<not> oc_link_proto conn \<ge> 3 then Stuck
      else or_close conn (if \<not> started_here then connection_or_send_versions now time_now conn True else Done conn) (\<lambda>conn.
        let conn = conn\<lparr>oc_wide_circ_ids := oc_link_proto conn \<ge> MIN_LINK_PROTO_FOR_WIDE_CIRC_IDS\<rparr>
        in or_close conn (if \<not> started_here \<or> public_server_mode E then send_certs E conn else Done conn) (\<lambda>conn.
           or_close conn (if \<not> started_here then send_auth_challenge E conn else Done conn) (\<lambda>conn.
           or_close conn (if \<not> started_here then send_netinfo E conn else Done conn) Done))))"

definition channel_tls_process_versions_cell :: "link_env \<Rightarrow> u32 \<Rightarrow> nat \<Rightarrow> var_cell \<Rightarrow> or_conn \<Rightarrow> or_conn outcome" where
  "channel_tls_process_versions_cell E now time_now c conn =
     (if length (vc_payload c) mod 2 = 1 then Done (connection_or_close_for_error conn)
      else if oc_link_proto conn \<noteq> 0 \<or> (case oc_handshake_state conn of None \<Rightarrow> False | Some s \<Rightarrow> hs_received_versions s)
      then Done conn
      else if oc_state conn \<notin> {Or_handshaking_v2, Or_handshaking_v3} then Done conn
      else case oc_handshake_state conn of
        None \<Rightarrow> Stuck
      | Some s \<Rightarrow>
          let started_here = connection_or_nonopen_was_started_here conn;
              v = highest_version (vc_payload c) 0
          in if v = 0 \<or> v = 1 \<or> (v < 3 \<and> oc_state conn = Or_handshaking_v3) \<or> (v \<noteq> 2 \<and> oc_state conn = Or_handshaking_v2)
             then Done (connection_or_close_for_error conn)
             else after_versions E now time_now started_here
                    (conn\<lparr>oc_link_proto := v, oc_handshake_state := Some (s\<lparr>hs_received_versions := True\<rparr>)\<rparr>))"

section \<open>Taking cells from a buffer\<close>

fun cell_bytes :: "bool \<Rightarrow> link_cell \<Rightarrow> byte list" where
  "cell_bytes wide (Fixed c) = take (get_cell_network_size wide) (cell_pack c wide)"
| "cell_bytes wide (Variable c) = var_cell_pack_header c wide @ vc_payload c"

text \<open>The circuit ID must fit its field, and the command tell which kind of cell it is.\<close>

fun link_cell_ok :: "nat \<Rightarrow> link_cell \<Rightarrow> bool" where
  "link_cell_ok p (Fixed c) \<longleftrightarrow> length (cell_payload c) = CELL_PAYLOAD_SIZE \<and> \<not> cell_command_is_var_length (cell_command c) p \<and>
     (p \<ge> 4 \<or> unat (cell_circ_id c) < 2 ^ 16)"
| "link_cell_ok p (Variable c) \<longleftrightarrow> length (vc_payload c) < 2 ^ 16 \<and> cell_command_is_var_length (vc_command c) p \<and>
     (p \<ge> 4 \<or> unat (vc_circ_id c) < 2 ^ 16)"

definition id_bytes :: "bool \<Rightarrow> u32 \<Rightarrow> byte list" where
  "id_bytes wide i = (if wide then put32 i else put16 (ucast i))"

definition id_of :: "bool \<Rightarrow> byte list \<Rightarrow> u32" where
  "id_of wide xs = (if wide then get32 xs else ucast (get16 xs))"

lemma length_id_bytes [simp]: "length (id_bytes wide i) = get_circ_id_size wide"
  by (simp add: id_bytes_def get_circ_id_size_def)

lemma id_of_id_bytes:
  assumes "wide \<or> unat i < 2 ^ 16"
  shows "id_of wide (id_bytes wide i @ r) = i"
proof -
  have "ucast (ucast i :: u16) = i" if "unat i < 2 ^ 16"
    using that by (simp add: word_unat_eq_iff unsigned_ucast_eq take_bit_eq_mod unat_mod_distrib)
  then show ?thesis using assms by (auto simp: id_of_def id_bytes_def get32_put32 get16_put16)
qed

lemma fixed_bytes:
  assumes "length (cell_payload c) = CELL_PAYLOAD_SIZE"
  shows "take (get_cell_network_size wide) (cell_pack c wide) = id_bytes wide (cell_circ_id c) @ cell_command c # cell_payload c"
  using assms by (simp add: get_cell_network_size_def cell_pack_def id_bytes_def CELL_MAX_NETWORK_SIZE_def CELL_PAYLOAD_SIZE_def)

lemma variable_bytes:
  "var_cell_pack_header c wide = id_bytes wide (vc_circ_id c) @ vc_command c # put16 (of_nat (length (vc_payload c)))"
  by (simp add: var_cell_pack_header_def id_bytes_def)

lemma header_sizes:
  "get_var_cell_header_size wide = get_circ_id_size wide + 3"
  "get_cell_network_size wide = get_circ_id_size wide + 1 + CELL_PAYLOAD_SIZE"
  by (simp_all add: get_var_cell_header_size_def get_circ_id_size_def VAR_CELL_MAX_HEADER_SIZE_def
      get_cell_network_size_def CELL_MAX_NETWORK_SIZE_def CELL_PAYLOAD_SIZE_def)

lemma length_cell_bytes:
  assumes "link_cell_ok p c"
  shows "get_var_cell_header_size wide \<le> length (cell_bytes wide c)"
proof (cases c)
  case (Fixed x)
  then have "length (cell_bytes wide c) = get_circ_id_size wide + 1 + CELL_PAYLOAD_SIZE" using assms by (simp add: fixed_bytes)
  then show ?thesis by (simp add: header_sizes CELL_PAYLOAD_SIZE_def)
qed (simp add: variable_bytes header_sizes)

lemma cell_unpack_pack:
  assumes "link_cell_ok p (Fixed c)" "wide \<longleftrightarrow> p \<ge> 4"
  shows "cell_unpack (cell_bytes wide (Fixed c)) wide = c"
proof -
  have l: "length (cell_payload c) = CELL_PAYLOAD_SIZE" using assms(1) by simp
  have "(if wide then get32 xs else ucast (get16 xs)) = id_of wide xs" for xs by (simp add: id_of_def)
  then show ?thesis
    using assms l id_of_id_bytes [of wide "cell_circ_id c"]
    by (simp add: cell_unpack_def fixed_bytes [OF l] Let_def)
qed

lemma fetch_short:
  assumes "buf_ok b" "length (buf_view b) < get_var_cell_header_size (p \<ge> 4)"
  shows "fetch_var_cell_from_buf b p = Done (Not_var, b)"
  using assms by (simp add: fetch_var_cell_from_buf_def MIN_LINK_PROTO_FOR_WIDE_CIRC_IDS_def buf_datalen_def buf_ok_def Let_def)

lemma fetch_header:
  assumes "buf_ok b" "\<not> length (buf_view b) < get_var_cell_header_size wide" "wide \<longleftrightarrow> p \<ge> 4"
  shows "fetch_var_cell_from_buf b p =
    (let hdr = take (get_var_cell_header_size wide) (buf_view b); cmd = hdr ! get_circ_id_size wide
     in if \<not> cell_command_is_var_length cmd p then Done (Not_var, b)
        else let len = unat (get16 (drop (get_circ_id_size wide + 1) hdr))
             in if length (buf_view b) < get_var_cell_header_size wide + len then Done (Not_all_there, b)
                else obind (buf_drain b (get_var_cell_header_size wide)) (\<lambda>b.
                     obind (buf_peek b len) (\<lambda>pl.
                     obind (buf_drain b len) (\<lambda>b.
                       Done (Fetched \<lparr>vc_command = cmd, vc_circ_id = id_of wide hdr, vc_payload = pl\<rparr>, b)))))"
proof -
  have d: "buf_datalen b = length (buf_view b)" using assms(1) by (simp add: buf_datalen_def buf_ok_def)
  have p: "buf_peek b (get_var_cell_header_size wide) = Done (take (get_var_cell_header_size wide) (buf_view b))"
    using buf_peek_ok [OF assms(1)] assms(2) by simp
  have w: "(p \<ge> MIN_LINK_PROTO_FOR_WIDE_CIRC_IDS) = wide" using assms(3) by (simp add: MIN_LINK_PROTO_FOR_WIDE_CIRC_IDS_def)
  show ?thesis
    unfolding fetch_var_cell_from_buf_def Let_def w d id_of_def using assms(2) by (simp add: p)
qed

text \<open>When a buffer and what follows it begin with some bytes, it begins with as many of them as it holds.\<close>

lemma view_prefix:
  assumes "buf_view b @ after = ys @ others" "n \<le> length (buf_view b)" "n \<le> length ys"
  shows "take n (buf_view b) = take n ys"
  using arg_cong [OF assms(1), of "take n"] assms(2,3) by simp

lemma view_rest:
  assumes "buf_view b @ after = ys @ others" "length ys \<le> length (buf_view b)"
  shows "drop (length ys) (buf_view b) @ after = others"
  using arg_cong [OF assms(1), of "drop (length ys)"] assms(2) by simp

definition next_is :: "or_conn \<Rightarrow> link_cell \<Rightarrow> byte list \<Rightarrow> byte list \<Rightarrow> bool" where
  "next_is conn c after others \<longleftrightarrow>
     (\<exists>b. next_link_cell conn = Done (Some c, conn\<lparr>oc_inbuf := b\<rparr>) \<and> buf_ok b \<and> buf_view b @ after = others) \<or>
     (next_link_cell conn = Done (None, conn) \<and>
        length (buf_view (oc_inbuf conn)) < length (cell_bytes (oc_wide_circ_ids conn) c))"

text \<open>A buffer without even a header has no whole cell.\<close>

lemma next_short:
  assumes ok: "buf_ok (oc_inbuf conn)" and wide: "oc_wide_circ_ids conn \<longleftrightarrow> oc_link_proto conn \<ge> 4"
    and short: "length (buf_view (oc_inbuf conn)) < get_var_cell_header_size (oc_wide_circ_ids conn)"
  shows "next_link_cell conn = Done (None, conn)"
proof -
  have "length (buf_view (oc_inbuf conn)) < get_cell_network_size (oc_wide_circ_ids conn)"
    using short by (simp add: header_sizes CELL_PAYLOAD_SIZE_def)
  moreover have "fetch_var_cell_from_buf (oc_inbuf conn) (oc_link_proto conn) = Done (Not_var, oc_inbuf conn)"
    by (rule fetch_short [OF ok]) (use short wide in simp)
  ultimately show ?thesis using ok by (simp add: next_link_cell_def buf_datalen_def buf_ok_def Let_def)
qed

lemma next_fixed:
  assumes ok: "buf_ok (oc_inbuf conn)" and wide: "oc_wide_circ_ids conn \<longleftrightarrow> oc_link_proto conn \<ge> 4"
    and v: "buf_view (oc_inbuf conn) @ after = cell_bytes (oc_wide_circ_ids conn) (Fixed x) @ others"
    and cok: "link_cell_ok (oc_link_proto conn) (Fixed x)"
    and header: "\<not> length (buf_view (oc_inbuf conn)) < get_var_cell_header_size (oc_wide_circ_ids conn)"
  shows "next_is conn (Fixed x) after others"
proof -
  define b w where bw: "b = oc_inbuf conn" "w = oc_wide_circ_ids conn"
  let ?h = "get_var_cell_header_size w" and ?n = "get_cell_network_size w"
  have l: "length (cell_payload x) = CELL_PAYLOAD_SIZE" using cok by simp
  have cb: "cell_bytes w (Fixed x) = id_bytes w (cell_circ_id x) @ cell_command x # cell_payload x" using fixed_bytes [OF l] by simp
  have n: "length (cell_bytes w (Fixed x)) = ?n" using cb l by (simp add: header_sizes)
  have vb: "buf_view b @ after = cell_bytes w (Fixed x) @ others" using v by (simp only: bw)
  have th: "take ?h (buf_view b) = take ?h (cell_bytes w (Fixed x))"
    by (rule view_prefix [OF vb]) (use header length_cell_bytes [OF cok, of w] in \<open>simp_all add: bw\<close>)
  have "take ?h (buf_view b) ! get_circ_id_size w = cell_command x" unfolding th cb by (simp add: header_sizes nth_append)
  then have f: "fetch_var_cell_from_buf b (oc_link_proto conn) = Done (Not_var, b)"
    using fetch_header [of b w "oc_link_proto conn"] ok header wide cok by (simp add: bw Let_def)
  have d: "buf_datalen b = length (buf_view b)" using ok by (simp add: bw buf_datalen_def buf_ok_def)
  show ?thesis
  proof (cases "length (buf_view b) < ?n")
    case True
    then have "next_link_cell conn = Done (None, conn)" using f d by (simp add: next_link_cell_def bw Let_def)
    then show ?thesis using True n by (simp add: next_is_def bw)
  next
    case False
    then have le: "?n \<le> length (buf_view b)" by simp
    have okb: "buf_ok b" using ok by (simp add: bw)
    obtain b' where b': "buf_get_bytes b ?n = Done (take ?n (buf_view b), b')" "buf_ok b'" "buf_view b' = drop ?n (buf_view b)"
      by (rule buf_get_bytes_ok [OF okb le])
    have "take ?n (buf_view b) = cell_bytes w (Fixed x)" using view_prefix [OF vb le] n by simp
    then have "cell_unpack (take ?n (buf_view b)) w = x" using cell_unpack_pack [OF cok] wide by (simp add: bw)
    then have "next_link_cell conn = Done (Some (Fixed x), conn\<lparr>oc_inbuf := b'\<rparr>)"
      using f d False b'(1) by (simp add: next_link_cell_def bw Let_def)
    moreover have "buf_view b' @ after = others" using view_rest [OF vb] le n b'(3) by simp
    ultimately show ?thesis using b'(2) by (auto simp: next_is_def)
  qed
qed

lemma fetch_variable:
  assumes ok: "buf_ok b" and wide: "w \<longleftrightarrow> p \<ge> 4" and v: "buf_view b @ after = cell_bytes w (Variable x) @ others"
    and cok: "link_cell_ok p (Variable x)" and header: "\<not> length (buf_view b) < get_var_cell_header_size w"
  shows "(fetch_var_cell_from_buf b p = Done (Not_all_there, b) \<and> length (buf_view b) < length (cell_bytes w (Variable x))) \<or>
    (\<exists>b'. fetch_var_cell_from_buf b p = Done (Fetched x, b') \<and> buf_ok b' \<and> buf_view b' @ after = others)"
proof -
  let ?len = "length (vc_payload x)" and ?h = "get_var_cell_header_size w"
  have l: "?len < 2 ^ 16" and var: "cell_command_is_var_length (vc_command x) p" and idok: "w \<or> unat (vc_circ_id x) < 2 ^ 16"
    using cok wide by auto
  have cb: "cell_bytes w (Variable x) = (id_bytes w (vc_circ_id x) @ vc_command x # put16 (of_nat ?len)) @ vc_payload x"
    by (simp add: variable_bytes)
  have n: "length (cell_bytes w (Variable x)) = ?h + ?len" unfolding cb by (simp add: header_sizes)
  have "take ?h (buf_view b) = take ?h (cell_bytes w (Variable x))" by (rule view_prefix [OF v]) (use header n in simp_all)
  also have "\<dots> = id_bytes w (vc_circ_id x) @ vc_command x # put16 (of_nat ?len)"
    unfolding cb by (simp add: header_sizes)
  finally have th: "take ?h (buf_view b) = id_bytes w (vc_circ_id x) @ vc_command x # put16 (of_nat ?len)" .
  have hd: "take ?h (buf_view b) ! get_circ_id_size w = vc_command x"
    "unat (get16 (drop (get_circ_id_size w + 1) (take ?h (buf_view b)))) = ?len" "id_of w (take ?h (buf_view b)) = vc_circ_id x"
    unfolding th using l id_of_id_bytes [OF idok] by (simp_all add: nth_append unat_of_nat take_bit_eq_mod)
  note fh = fetch_header [OF ok header wide]
  show ?thesis
  proof (cases "length (buf_view b) < ?h + ?len")
    case True
    then have "fetch_var_cell_from_buf b p = Done (Not_all_there, b)" using fh hd var by (simp add: Let_def)
    then show ?thesis using True n by simp
  next
    case False
    have "?h \<le> length (buf_view b)" using header by simp
    then obtain b1 where b1: "buf_drain b ?h = Done b1" "buf_ok b1" "buf_view b1 = drop ?h (buf_view b)" by (rule buf_drain_ok [OF ok])
    have le: "?len \<le> length (buf_view b1)" using b1(3) False by simp
    obtain b2 where b2: "buf_drain b1 ?len = Done b2" "buf_ok b2" "buf_view b2 = drop ?len (buf_view b1)" by (rule buf_drain_ok [OF b1(2) le])
    have "take ?len (buf_view b1) = drop ?h (take (?h + ?len) (buf_view b))" by (simp add: b1(3) take_drop add.commute)
    also have "take (?h + ?len) (buf_view b) = cell_bytes w (Variable x)"
      using view_prefix [OF v, of "?h + ?len"] False n by simp
    also have "drop ?h (cell_bytes w (Variable x)) = vc_payload x" unfolding cb by (simp add: header_sizes)
    finally have "take ?len (buf_view b1) = vc_payload x" .
    then have "fetch_var_cell_from_buf b p = Done (Fetched x, b2)"
      using fh hd var False b1(1) b2(1) buf_peek_ok [OF b1(2) le] by (simp add: Let_def)
    moreover have "buf_view b2 @ after = others" using view_rest [OF v] False n b1(3) b2(3) by (simp add: add.commute)
    ultimately show ?thesis using b2(2) by blast
  qed
qed

lemma next_variable:
  assumes "buf_ok (oc_inbuf conn)" "oc_wide_circ_ids conn \<longleftrightarrow> oc_link_proto conn \<ge> 4"
    "buf_view (oc_inbuf conn) @ after = cell_bytes (oc_wide_circ_ids conn) (Variable x) @ others"
    "link_cell_ok (oc_link_proto conn) (Variable x)"
    "\<not> length (buf_view (oc_inbuf conn)) < get_var_cell_header_size (oc_wide_circ_ids conn)"
  shows "next_is conn (Variable x) after others"
  using fetch_variable [OF assms] by (auto simp: next_is_def next_link_cell_def Let_def)

text \<open>The next of the cells whose bytes the buffer and what follows it begin with.\<close>

lemma next_link_cell_ok:
  assumes ok: "buf_ok (oc_inbuf conn)" and p: "oc_link_proto conn = p" "oc_wide_circ_ids conn \<longleftrightarrow> p \<ge> 4"
    and v: "buf_view (oc_inbuf conn) @ after = concat (map (cell_bytes (p \<ge> 4)) cells)" and cells: "\<forall>c \<in> set cells. link_cell_ok p c"
  shows "(\<exists>c cs b. cells = c # cs \<and> next_link_cell conn = Done (Some c, conn\<lparr>oc_inbuf := b\<rparr>) \<and> buf_ok b \<and>
      buf_view b @ after = concat (map (cell_bytes (p \<ge> 4)) cs)) \<or>
    (next_link_cell conn = Done (None, conn) \<and> (cells = [] \<or> length (buf_view (oc_inbuf conn)) < length (cell_bytes (p \<ge> 4) (hd cells))))"
proof (cases "length (buf_view (oc_inbuf conn)) < get_var_cell_header_size (p \<ge> 4)")
  case True
  then have "next_link_cell conn = Done (None, conn)" using next_short [OF ok] p by simp
  moreover have "cells = [] \<or> length (buf_view (oc_inbuf conn)) < length (cell_bytes (p \<ge> 4) (hd cells))"
    using True length_cell_bytes [of p "hd cells" "p \<ge> 4"] cells by (cases cells) auto
  ultimately show ?thesis by blast
next
  case False
  then obtain c cs where c: "cells = c # cs" using v by (cases cells) (auto simp: header_sizes)
  have "next_is conn c after (concat (map (cell_bytes (p \<ge> 4)) cs))"
    using next_fixed [OF ok] next_variable [OF ok] p v cells False c by (cases c) simp_all
  then show ?thesis using c p(2) by (auto simp: next_is_def)
qed

section \<open>A link\<close>

text \<open>A handler that leaves alone what the loop reads.\<close>

definition keeps_link :: "(link_cell \<Rightarrow> or_conn \<Rightarrow> or_conn outcome) \<Rightarrow> bool" where
  "keeps_link handle \<longleftrightarrow> (\<forall>c conn. \<exists>conn'. handle c conn = Done conn' \<and> oc_inbuf conn' = oc_inbuf conn \<and>
     oc_link_proto conn' = oc_link_proto conn \<and> oc_wide_circ_ids conn' = oc_wide_circ_ids conn)"

definition conn_ok :: "nat \<Rightarrow> or_conn \<Rightarrow> bool" where
  "conn_ok p conn \<longleftrightarrow> oc_link_proto conn = p \<and> (oc_wide_circ_ids conn \<longleftrightarrow> p \<ge> 4)"

lemma process_cells_loop_ok:
  assumes "keeps_link handle" "buf_ok (oc_inbuf conn)" "conn_ok p conn"
    "buf_view (oc_inbuf conn) @ after = concat (map (cell_bytes (p \<ge> 4)) cells)" "\<forall>c \<in> set cells. link_cell_ok p c"
  shows "\<exists>now later conn'. cells = now @ later \<and> process_cells_loop handle conn acc = Some (Done (acc @ now, conn')) \<and>
    buf_ok (oc_inbuf conn') \<and> conn_ok p conn' \<and> buf_view (oc_inbuf conn') @ after = concat (map (cell_bytes (p \<ge> 4)) later) \<and>
    (later = [] \<or> length (buf_view (oc_inbuf conn')) < length (cell_bytes (p \<ge> 4) (hd later)))"
  using assms
proof (induction cells arbitrary: conn acc)
  case Nil
  have "next_link_cell conn = Done (None, conn)"
    using next_link_cell_ok [of conn p after "[]"] Nil.prems by (auto simp: conn_ok_def)
  then show ?case using Nil.prems by (subst process_cells_loop.simps) simp
next
  case (Cons c cs)
  from next_link_cell_ok [of conn p after "c # cs"] Cons.prems
  consider (some) b where "next_link_cell conn = Done (Some c, conn\<lparr>oc_inbuf := b\<rparr>)" "buf_ok b"
      "buf_view b @ after = concat (map (cell_bytes (p \<ge> 4)) cs)"
    | (none) "next_link_cell conn = Done (None, conn)" "length (buf_view (oc_inbuf conn)) < length (cell_bytes (p \<ge> 4) c)"
    unfolding conn_ok_def by auto
  then show ?case
  proof cases
    case none
    have "process_cells_loop handle conn acc = Some (Done (acc, conn))"
      using none(1) by (subst process_cells_loop.simps) simp
    then show ?thesis using none(2) Cons.prems by (intro exI [of _ "[]"] exI [of _ "c # cs"] exI [of _ conn]) simp
  next
    case (some b)
    obtain conn1 where h: "handle c (conn\<lparr>oc_inbuf := b\<rparr>) = Done conn1" "oc_inbuf conn1 = b" "conn_ok p conn1"
      using Cons.prems(1,3) unfolding keeps_link_def conn_ok_def by (metis or_conn.select_convs(2,3,4) or_conn.surjective or_conn.update_convs(4))
    obtain now later conn' where i: "cs = now @ later" "process_cells_loop handle conn1 (acc @ [c]) = Some (Done ((acc @ [c]) @ now, conn'))"
      "buf_ok (oc_inbuf conn')" "conn_ok p conn'" "buf_view (oc_inbuf conn') @ after = concat (map (cell_bytes (p \<ge> 4)) later)"
      "later = [] \<or> length (buf_view (oc_inbuf conn')) < length (cell_bytes (p \<ge> 4) (hd later))"
      using Cons.IH [of conn1 "acc @ [c]"] Cons.prems(1,5) some(2,3) h(2,3) by auto
    have "process_cells_loop handle conn acc = Some (Done (acc @ (c # now), conn'))"
      using some(1) h(1) i(2) by (subst process_cells_loop.simps) simp
    then show ?thesis using i by (intro exI [of _ "c # now"] exI [of _ later] exI [of _ conn']) auto
  qed
qed

lemma process_cells_ok:
  assumes "keeps_link handle" "buf_ok (oc_inbuf conn)" "conn_ok p conn"
    "buf_view (oc_inbuf conn) @ after = concat (map (cell_bytes (p \<ge> 4)) cells)" "\<forall>c \<in> set cells. link_cell_ok p c"
  obtains now later conn' where "connection_or_process_cells_from_inbuf handle conn = Done (now, conn')" "cells = now @ later"
    "buf_ok (oc_inbuf conn')" "conn_ok p conn'" "buf_view (oc_inbuf conn') @ after = concat (map (cell_bytes (p \<ge> 4)) later)"
    "later = [] \<or> length (buf_view (oc_inbuf conn')) < length (cell_bytes (p \<ge> 4) (hd later))"
  using process_cells_loop_ok [OF assms, of "[]"] that
  by (auto simp: connection_or_process_cells_from_inbuf_def of_call_def)

text \<open>The sending end, what is under way, the receiving end; and what both have done.\<close>

record link =
  lk_out :: or_conn
  lk_wire :: "byte list"
  lk_in :: or_conn
  lk_sent :: "link_cell list"
  lk_got :: "link_cell list"

definition out_ok :: "nat \<Rightarrow> or_conn \<Rightarrow> bool" where
  "out_ok p conn \<longleftrightarrow> conn_ok p conn \<and> oc_state conn = Or_open \<and> \<not> oc_marked_for_close conn \<and>
     buf_ok (oc_outbuf conn) \<and> want_ok (oc_outbuf conn) (oc_wantwrite conn)"

definition fresh_link :: "nat \<Rightarrow> link \<Rightarrow> bool" where
  "fresh_link p l \<longleftrightarrow> out_ok p (lk_out l) \<and> conn_ok p (lk_in l) \<and> lk_wire l = [] \<and> lk_sent l = [] \<and> lk_got l = [] \<and>
     oc_outbuf (lk_out l) = buf_new \<and> oc_inbuf (lk_in l) = buf_new"

definition write_link_cell :: "u32 \<Rightarrow> link_cell \<Rightarrow> or_conn \<Rightarrow> or_conn outcome" where
  "write_link_cell now c conn =
     (case c of Fixed c \<Rightarrow> connection_or_write_cell_to_buf now c conn | Variable c \<Rightarrow> connection_or_write_var_cell_to_buf now c conn)"

inductive cell_link_step :: "(link_cell \<Rightarrow> or_conn \<Rightarrow> or_conn outcome) \<Rightarrow> nat \<Rightarrow> link \<Rightarrow> link \<Rightarrow> bool" for handle p where
  cell_written: "link_cell_ok p c \<Longrightarrow> length (buf_view (oc_outbuf (lk_out l))) + length (cell_bytes (p \<ge> 4) c) \<le> BUF_MAX_LEN \<Longrightarrow>
    write_link_cell now c (lk_out l) = Done conn \<Longrightarrow>
    cell_link_step handle p l (l\<lparr>lk_out := conn, lk_sent := lk_sent l @ [c]\<rparr>)"
| tls_flushed: "\<forall>r \<in> set rs. ssl_ok r \<Longrightarrow> buf_flush_to_tls (oc_outbuf (lk_out l)) (oc_wantwrite (lk_out l)) n rs = Done (b, w, calls, xs, r) \<Longrightarrow>
    cell_link_step handle p l (l\<lparr>lk_out := (lk_out l)\<lparr>oc_outbuf := b, oc_wantwrite := w\<rparr>, lk_wire := lk_wire l @ xs\<rparr>)"
| tls_read: "\<forall>r \<in> set rs. ssl_ok r \<Longrightarrow> length (buf_view (oc_inbuf (lk_in l))) + n \<le> BUF_MAX_LEN \<Longrightarrow>
    buf_read_from_tls now (oc_inbuf (lk_in l)) n rs (lk_wire l) = Done (b, r, rest) \<Longrightarrow>
    cell_link_step handle p l (l\<lparr>lk_in := (lk_in l)\<lparr>oc_inbuf := b\<rparr>, lk_wire := rest\<rparr>)"
| inbuf_processed: "connection_or_process_cells_from_inbuf handle (lk_in l) = Done (cells, conn) \<Longrightarrow>
    cell_link_step handle p l (l\<lparr>lk_in := conn, lk_got := lk_got l @ cells\<rparr>)"

definition link_inv :: "nat \<Rightarrow> link \<Rightarrow> bool" where
  "link_inv p l \<longleftrightarrow> out_ok p (lk_out l) \<and> conn_ok p (lk_in l) \<and> buf_ok (oc_inbuf (lk_in l)) \<and>
     (\<exists>later. lk_sent l = lk_got l @ later \<and> (\<forall>c \<in> set later. link_cell_ok p c) \<and>
        buf_view (oc_inbuf (lk_in l)) @ lk_wire l @ buf_view (oc_outbuf (lk_out l)) = concat (map (cell_bytes (p \<ge> 4)) later))"

lemma connection_buf_add_ok:
  assumes "out_ok p conn" "length (buf_view (oc_outbuf conn)) + length xs \<le> BUF_MAX_LEN"
  obtains b where "connection_buf_add now xs conn = Done (conn\<lparr>oc_outbuf := b\<rparr>)" "out_ok p (conn\<lparr>oc_outbuf := b\<rparr>)"
    "buf_view b = buf_view (oc_outbuf conn) @ xs"
proof (cases "xs = []")
  case True
  then show thesis using that [of "oc_outbuf conn"] assms(1) by (simp add: connection_buf_add_def)
next
  case False
  have ok: "buf_ok (oc_outbuf conn)" using assms(1) by (simp add: out_ok_def)
  obtain b where b: "buf_add now (oc_outbuf conn) xs = Done b" "buf_ok b" "buf_view b = buf_view (oc_outbuf conn) @ xs"
    by (rule buf_add_ok [OF ok assms(2)])
  have "out_ok p (conn\<lparr>oc_outbuf := b\<rparr>)"
    using assms(1) b(2) buf_add_want [OF b(1)] by (simp add: out_ok_def conn_ok_def)
  then show thesis using that [of b] b False assms(1) by (simp add: connection_buf_add_def connection_may_write_to_buf_def out_ok_def)
qed

lemma write_link_cell_ok:
  assumes ok: "out_ok p conn" and l: "length (buf_view (oc_outbuf conn)) + length (cell_bytes (p \<ge> 4) c) \<le> BUF_MAX_LEN"
  obtains conn' where "write_link_cell now c conn = Done conn'" "out_ok p conn'"
    "buf_view (oc_outbuf conn') = buf_view (oc_outbuf conn) @ cell_bytes (p \<ge> 4) c"
proof -
  have w: "oc_wide_circ_ids conn = (p \<ge> 4)" and st: "oc_state conn = Or_open" using ok by (simp_all add: out_ok_def conn_ok_def)
  show thesis
  proof (cases c)
    case (Fixed x)
    have l': "length (buf_view (oc_outbuf conn)) + length (take (get_cell_network_size (p \<ge> 4)) (cell_pack x (p \<ge> 4))) \<le> BUF_MAX_LEN"
      using l Fixed by simp
    obtain b where "connection_buf_add now (take (get_cell_network_size (p \<ge> 4)) (cell_pack x (p \<ge> 4))) conn = Done (conn\<lparr>oc_outbuf := b\<rparr>)"
      "out_ok p (conn\<lparr>oc_outbuf := b\<rparr>)" "buf_view b = buf_view (oc_outbuf conn) @ take (get_cell_network_size (p \<ge> 4)) (cell_pack x (p \<ge> 4))"
      by (rule connection_buf_add_ok [OF ok l'])
    then show thesis using that [of "conn\<lparr>oc_outbuf := b\<rparr>"] Fixed w st
      by (simp add: write_link_cell_def connection_or_write_cell_to_buf_def Let_def)
  next
    case (Variable x)
    let ?h = "var_cell_pack_header x (p \<ge> 4)"
    have l1: "length (buf_view (oc_outbuf conn)) + length ?h \<le> BUF_MAX_LEN" using l Variable by simp
    obtain b1 where b1: "connection_buf_add now ?h conn = Done (conn\<lparr>oc_outbuf := b1\<rparr>)" "out_ok p (conn\<lparr>oc_outbuf := b1\<rparr>)"
      "buf_view b1 = buf_view (oc_outbuf conn) @ ?h" by (rule connection_buf_add_ok [OF ok l1])
    have l2: "length (buf_view (oc_outbuf (conn\<lparr>oc_outbuf := b1\<rparr>))) + length (vc_payload x) \<le> BUF_MAX_LEN"
      using l Variable b1(3) by simp
    obtain b2 where b2: "connection_buf_add now (vc_payload x) (conn\<lparr>oc_outbuf := b1\<rparr>) = Done (conn\<lparr>oc_outbuf := b1\<rparr>\<lparr>oc_outbuf := b2\<rparr>)"
      "out_ok p (conn\<lparr>oc_outbuf := b1\<rparr>\<lparr>oc_outbuf := b2\<rparr>)" "buf_view b2 = buf_view (oc_outbuf (conn\<lparr>oc_outbuf := b1\<rparr>)) @ vc_payload x"
      by (rule connection_buf_add_ok [OF b1(2) l2])
    then show thesis using that [of "conn\<lparr>oc_outbuf := b2\<rparr>"] Variable w st b1(1,3)
      by (simp add: write_link_cell_def connection_or_write_var_cell_to_buf_def)
  qed
qed

lemma cell_link_step_inv: "cell_link_step handle p l l' \<Longrightarrow> keeps_link handle \<Longrightarrow> link_inv p l \<Longrightarrow> link_inv p l'"
proof (induction rule: cell_link_step.induct)
  case (cell_written c l now conn)
  have ok: "out_ok p (lk_out l)" using cell_written by (simp add: link_inv_def)
  obtain conn' where "write_link_cell now c (lk_out l) = Done conn'" "out_ok p conn'"
    "buf_view (oc_outbuf conn') = buf_view (oc_outbuf (lk_out l)) @ cell_bytes (p \<ge> 4) c"
    by (rule write_link_cell_ok [OF ok cell_written(2)])
  then have c: "out_ok p conn" "buf_view (oc_outbuf conn) = buf_view (oc_outbuf (lk_out l)) @ cell_bytes (p \<ge> 4) c"
    using cell_written(3) by simp_all
  obtain later where "lk_sent l = lk_got l @ later" "\<forall>c \<in> set later. link_cell_ok p c"
    "buf_view (oc_inbuf (lk_in l)) @ lk_wire l @ buf_view (oc_outbuf (lk_out l)) = concat (map (cell_bytes (p \<ge> 4)) later)"
    using cell_written(5) unfolding link_inv_def by blast
  then show ?case using cell_written(1,5) c
    by (auto simp: link_inv_def append_assoc [symmetric] simp del: append_assoc intro!: exI [of _ "later @ [c]"])
next
  case (tls_flushed rs l n b w calls xs r)
  have ok: "buf_ok (oc_outbuf (lk_out l))" "want_ok (oc_outbuf (lk_out l)) (oc_wantwrite (lk_out l))"
    using tls_flushed(4) by (simp_all add: link_inv_def out_ok_def)
  obtain b' w' cs' xs' r' where "buf_flush_to_tls (oc_outbuf (lk_out l)) (oc_wantwrite (lk_out l)) n rs = Done (b', w', cs', xs', r')"
    "buf_ok b'" "want_ok b' w'" "buf_view (oc_outbuf (lk_out l)) = xs' @ buf_view b'" by (rule buf_flush_to_tls_ok [OF ok tls_flushed(1)])
  then show ?case using tls_flushed(2,4) by (auto simp: link_inv_def out_ok_def conn_ok_def)
next
  case (tls_read rs l n now b r rest)
  have ok: "buf_ok (oc_inbuf (lk_in l))" using tls_read(5) by (simp add: link_inv_def)
  obtain b' r' rest' xs where "buf_read_from_tls now (oc_inbuf (lk_in l)) n rs (lk_wire l) = Done (b', r', rest')" "buf_ok b'"
    "buf_view b' = buf_view (oc_inbuf (lk_in l)) @ xs" "lk_wire l = xs @ rest'" by (rule buf_read_from_tls_ok [OF ok tls_read(2,1)])
  then show ?case using tls_read(3,5) by (auto simp: link_inv_def conn_ok_def)
next
  case (inbuf_processed l cells conn)
  obtain later where later: "lk_sent l = lk_got l @ later" "\<forall>c \<in> set later. link_cell_ok p c"
    "buf_view (oc_inbuf (lk_in l)) @ (lk_wire l @ buf_view (oc_outbuf (lk_out l))) = concat (map (cell_bytes (p \<ge> 4)) later)"
    and ok: "buf_ok (oc_inbuf (lk_in l))" "conn_ok p (lk_in l)"
    using inbuf_processed(3) unfolding link_inv_def by blast
  obtain now rest conn' where "connection_or_process_cells_from_inbuf handle (lk_in l) = Done (now, conn')" "later = now @ rest"
    "buf_ok (oc_inbuf conn')" "conn_ok p conn'"
    "buf_view (oc_inbuf conn') @ (lk_wire l @ buf_view (oc_outbuf (lk_out l))) = concat (map (cell_bytes (p \<ge> 4)) rest)"
    by (rule process_cells_ok [OF inbuf_processed(2) ok later(3,2)])
  then show ?case using inbuf_processed(1,3) later(1,2) by (auto simp: link_inv_def)
qed

lemma link_reachable_inv: "(cell_link_step handle p)\<^sup>*\<^sup>* l0 l \<Longrightarrow> keeps_link handle \<Longrightarrow> fresh_link p l0 \<Longrightarrow> link_inv p l"
proof (induction rule: rtranclp_induct)
  case base
  then show ?case by (simp add: fresh_link_def link_inv_def buf_new_ok)
next
  case (step l l')
  then show ?case using cell_link_step_inv by blast
qed

section \<open>The choice of the version\<close>

definition known_versions :: "u16 list \<Rightarrow> nat set" where
  "known_versions vs = unat ` {v \<in> set vs. is_or_protocol_version_known v}"

lemma known_versions_simps:
  "known_versions [] = {}"
  "known_versions (v # vs) = (if is_or_protocol_version_known v then insert (unat v) (known_versions vs) else known_versions vs)"
  by (auto simp: known_versions_def)

lemma highest_version_Max:
  "highest_version (concat (map put16 vs)) best = Max (insert best (known_versions vs))"
proof (induction vs arbitrary: best)
  case Nil
  then show ?case by (simp add: known_versions_def)
next
  case (Cons v vs)
  let ?b = "if is_or_protocol_version_known v \<and> unat v > best then unat v else best"
  have fin: "finite (known_versions vs)" by (simp add: known_versions_def)
  note ins = known_versions_simps(2) [of v vs]
  obtain x y where "put16 v = [x, y]" by (simp add: put16_def)
  then have v: "put16 v = [x, y]" "get16 [x, y] = v" using get16_put16' [of v] by simp_all
  have "highest_version (concat (map put16 (v # vs))) best = Max (insert ?b (known_versions vs))"
    using Cons.IH [of ?b] v by (simp add: Let_def)
  also have "\<dots> = Max (insert best (known_versions (v # vs)))"
  proof (cases "known_versions vs = {}")
    case True
    then show ?thesis by (simp add: ins)
  next
    case False
    then show ?thesis using fin by (auto simp: ins max_def)
  qed
  finally show ?case .
qed

section \<open>The properties\<close>

text \<open>
  C4. Cells written to one end of a link, of fixed and of variable length mixed, are taken from the other
  end as the same cells in the same order, however TLS cuts the bytes into reads and writes and however often
  the buffer is looked at: at every moment those taken are the first of those written, and the bytes
  of the others are in the buffers or under way.
\<close>

theorem link_delivers_in_order:
  assumes "keeps_link handle" "fresh_link p l0" "(cell_link_step handle p)\<^sup>*\<^sup>* l0 l"
  shows "\<exists>later. lk_sent l = lk_got l @ later \<and>
    buf_view (oc_inbuf (lk_in l)) @ lk_wire l @ buf_view (oc_outbuf (lk_out l)) = concat (map (cell_bytes (p \<ge> 4)) later)"
  using link_reachable_inv [OF assms(3,1,2)] by (auto simp: link_inv_def)

definition idle_conn :: or_conn where
  "idle_conn = \<lparr>oc_state = Or_open, oc_link_proto = 5, oc_wide_circ_ids = True, oc_inbuf = buf_new, oc_outbuf = buf_new, oc_wantwrite = 0,
     oc_marked_for_close = False, oc_hold_open_until_flushed = False, oc_handshake_state = None, oc_tls_is_server = False\<rparr>"

definition idle_link :: link where
  "idle_link = \<lparr>lk_out = idle_conn, lk_wire = [], lk_in = idle_conn, lk_sent = [], lk_got = []\<rparr>"

lemma idle_link_fresh: "fresh_link 5 idle_link" "keeps_link (\<lambda>c conn. Done conn)" "out_ok 5 (lk_out idle_link)"
  by (simp_all add: fresh_link_def idle_link_def idle_conn_def out_ok_def conn_ok_def buf_new_ok want_ok_def keeps_link_def)

lemma link_delivers_witness:
  "\<exists>(l :: link) later. lk_sent l = [Variable \<lparr>vc_command = 128, vc_circ_id = 0, vc_payload = [1, 2]\<rparr>] \<and> lk_sent l = lk_got l @ later"
proof -
  let ?c = "Variable \<lparr>vc_command = 128, vc_circ_id = 0, vc_payload = [1, 2]\<rparr>"
  have l: "length (buf_view (oc_outbuf (lk_out idle_link))) + length (cell_bytes (5 \<ge> (4 :: nat)) ?c) \<le> BUF_MAX_LEN"
    by (simp add: idle_link_def idle_conn_def buf_new_ok variable_bytes get_circ_id_size_def BUF_MAX_LEN_def INT_MAX_def)
  obtain conn where "write_link_cell 0 ?c (lk_out idle_link) = Done conn" by (rule write_link_cell_ok [OF idle_link_fresh(3) l])
  from cell_link_step.cell_written [OF _ l this, of "\<lambda>c conn. Done conn"]
  have r: "(cell_link_step (\<lambda>c conn. Done conn) 5)\<^sup>*\<^sup>* idle_link (idle_link\<lparr>lk_out := conn, lk_sent := lk_sent idle_link @ [?c]\<rparr>)"
    by (intro r_into_rtranclp) (simp add: cell_command_is_var_length_def)
  define l1 where "l1 = idle_link\<lparr>lk_out := conn, lk_sent := lk_sent idle_link @ [?c]\<rparr>"
  have "lk_sent l1 = [?c]" by (simp add: l1_def idle_link_def)
  then show ?thesis using link_delivers_in_order [OF idle_link_fresh(2,1) r [folded l1_def]] by blast
qed

text \<open>
  C10. Once every byte has arrived, looking at the buffer returns, and hands on all cells that were
  written and not yet taken.
\<close>

theorem link_delivers_everything:
  assumes "keeps_link handle" "fresh_link p l0" "(cell_link_step handle p)\<^sup>*\<^sup>* l0 l"
    "lk_wire l = []" "buf_view (oc_outbuf (lk_out l)) = []"
  shows "\<exists>cells conn. connection_or_process_cells_from_inbuf handle (lk_in l) = Done (cells, conn) \<and>
    lk_got l @ cells = lk_sent l \<and> buf_view (oc_inbuf conn) = []"
proof -
  obtain later where later: "lk_sent l = lk_got l @ later" "\<forall>c \<in> set later. link_cell_ok p c"
    "buf_view (oc_inbuf (lk_in l)) @ [] = concat (map (cell_bytes (p \<ge> 4)) later)"
    and ok: "buf_ok (oc_inbuf (lk_in l))" "conn_ok p (lk_in l)"
    using link_reachable_inv [OF assms(3,1,2)] assms(4,5) unfolding link_inv_def by auto
  obtain now rest conn where r: "connection_or_process_cells_from_inbuf handle (lk_in l) = Done (now, conn)" "later = now @ rest"
    "buf_view (oc_inbuf conn) @ [] = concat (map (cell_bytes (p \<ge> 4)) rest)"
    "rest = [] \<or> length (buf_view (oc_inbuf conn)) < length (cell_bytes (p \<ge> 4) (hd rest))"
    by (rule process_cells_ok [OF assms(1) ok later(3,2)])
  have "rest = []"
  proof (rule ccontr)
    assume ne: "rest \<noteq> []"
    then have "buf_view (oc_inbuf conn) = cell_bytes (p \<ge> 4) (hd rest) @ concat (map (cell_bytes (p \<ge> 4)) (tl rest))"
      using r(3) by (cases rest) simp_all
    then show False using r(4) ne by simp
  qed
  then show ?thesis using r(1,2,3) later(1) by auto
qed

text \<open>A cell of two bytes is written, flushed and read: the link then is as follows.\<close>

definition two_byte_cell :: link_cell where
  "two_byte_cell = Variable \<lparr>vc_command = 128, vc_circ_id = 0, vc_payload = [1, 2]\<rparr>"

definition one_chunk :: "byte list \<Rightarrow> byte buf" where
  "one_chunk xs = \<lparr>buf_len = length xs, default_chunk_size = default_chunk_size (buf_new :: byte buf), chunks =
     [\<lparr>ch_memlen = CHUNK_SIZE_WITH_ALLOC (default_chunk_size (buf_new :: byte buf)), ch_offset = 0, ch_data = xs, ch_inserted = 0\<rparr>]\<rparr>"

definition arrived_link :: link where
  "arrived_link = \<lparr>lk_out = idle_conn, lk_wire = [], lk_in = idle_conn\<lparr>oc_inbuf := one_chunk [0, 0, 0, 0, 128, 0, 2, 1, 2]\<rparr>,
     lk_sent = [two_byte_cell], lk_got = []\<rparr>"

lemma one_chunk_add:
  assumes "xs \<noteq> []" "length ys + length xs \<le> 1000"
  shows "buf_add 0 (if ys = [] then buf_new else one_chunk ys) xs = Done (one_chunk (ys @ xs))"
proof -
  have r: "CHUNK_REMAINING_CAPACITY \<lparr>ch_memlen = CHUNK_SIZE_WITH_ALLOC 4096, ch_offset = 0, ch_data = ys, ch_inserted = 0\<rparr> \<ge> length xs"
    and sl: "CHUNK_SIZE_WITH_ALLOC 4096 = 4048" and al: "CHUNK_ALLOC_SIZE (length xs) < 4096"
    using assms(2) by (simp_all add: CHUNK_REMAINING_CAPACITY_def CHUNK_SIZE_WITH_ALLOC_def CHUNK_ALLOC_SIZE_def size_sub_def buf_consts)
  have "size_sub BUF_MAX_LEN (length xs) = BUF_MAX_LEN - length xs" using assms(2) by (intro size_sub_le) (simp_all add: buf_consts)
  moreover have "\<not> BUF_MAX_LEN - length xs < length ys" "length ys + length xs \<le> BUF_MAX_LEN" using assms(2) by (simp_all add: buf_consts)
  ultimately show ?thesis
    using assms r sl al
    by (cases "ys = []") (simp_all add: buf_add_def of_call_def buf_add_loop.simps buf_slack_def buf_new_def one_chunk_def
        buf_add_chunk_with_capacity_def chunk_new_with_alloc_size_def write_to_tail_def chunk_write_def Let_def
        CHUNK_REMAINING_CAPACITY_def)
qed

lemma one_chunk_drain: "xs \<noteq> [] \<Longrightarrow> buf_drain (one_chunk xs) (length xs) = Done buf_new"
  by (cases "length xs") (simp_all add: buf_drain_def one_chunk_def buf_new_def)

lemma arrives: "(cell_link_step (\<lambda>c conn. Done conn) 5)\<^sup>*\<^sup>* idle_link arrived_link"
proof -
  let ?step = "cell_link_step (\<lambda>c conn. Done conn) 5"
  let ?xs = "[0, 0, 0, 0, 128, 0, 2, 1, 2] :: byte list"
  let ?out = "idle_conn\<lparr>oc_outbuf := one_chunk ?xs\<rparr>"
  let ?l1 = "idle_link\<lparr>lk_out := ?out, lk_sent := [two_byte_cell]\<rparr>"
  let ?l2 = "idle_link\<lparr>lk_wire := ?xs, lk_sent := [two_byte_cell]\<rparr>"
  have hd: "var_cell_pack_header \<lparr>vc_command = 128, vc_circ_id = 0, vc_payload = [1, 2]\<rparr> True = [0, 0, 0, 0, 128, 0, 2]"
    by (simp add: var_cell_pack_header_def put16_def put32_def)
  have "buf_add 0 buf_new [0, 0, 0, 0, 128, 0, 2] = Done (one_chunk [0, 0, 0, 0, 128, 0, 2])"
    "buf_add 0 (one_chunk [0, 0, 0, 0, 128, 0, 2]) [1, 2] = Done (one_chunk ?xs)"
    using one_chunk_add [of "[0, 0, 0, 0, 128, 0, 2]" "[]"] one_chunk_add [of "[1, 2]" "[0, 0, 0, 0, 128, 0, 2]"] by simp_all
  then have w: "write_link_cell 0 two_byte_cell idle_conn = Done ?out"
    using hd by (simp add: write_link_cell_def two_byte_cell_def connection_or_write_var_cell_to_buf_def idle_conn_def
        connection_buf_add_def connection_may_write_to_buf_def)
  have 1: "cell_link_step (\<lambda>c conn. Done conn) 5 idle_link ?l1"
    using cell_link_step.cell_written [of 5 two_byte_cell idle_link 0 ?out "\<lambda>c conn. Done conn"] w
    by (simp add: idle_link_def two_byte_cell_def cell_command_is_var_length_def variable_bytes get_circ_id_size_def buf_consts
        buf_new_ok idle_conn_def)
  have n: "length ?xs = 9" by simp
  have "buf_drain (one_chunk ?xs) 9 = Done buf_new" using one_chunk_drain [of ?xs, unfolded n] by simp
  moreover have "head_data (one_chunk ?xs) = ?xs" "buf_len (one_chunk ?xs) = 9"
    "\<exists>c. chunks (one_chunk ?xs) = [c] \<and> ch_data c = ?xs"
    by (simp_all add: one_chunk_def head_data_def)
  ultimately have f: "buf_flush_to_tls (one_chunk ?xs) 0 9 [Ssl_moved 9] = Done (buf_new, 0, [?xs], ?xs, 9)"
    by (auto simp add: buf_flush_to_tls_def flush_tls_loop.simps flush_chunk_tls_def tor_tls_write_def buf_consts Let_def)
  have 2: "cell_link_step (\<lambda>c conn. Done conn) 5 ?l1 ?l2"
    using cell_link_step.tls_flushed [of "[Ssl_moved 9]" ?l1 9 buf_new 0 "[?xs]" ?xs 9 "\<lambda>c conn. Done conn" 5] f
    by (simp add: idle_link_def idle_conn_def ssl_ok_def)
  have r: "buf_read_from_tls 0 buf_new 9 [Ssl_moved 9] ?xs = Done (one_chunk ?xs, 9, [])"
    by (simp add: buf_read_from_tls_def read_tls_loop.simps read_to_chunk_tls_def tor_tls_read_def one_chunk_def buf_new_def
        buf_slack_def buf_add_chunk_with_capacity_def chunk_new_with_alloc_size_def write_to_tail_def chunk_write_def Let_def
        CHUNK_REMAINING_CAPACITY_def CHUNK_ALLOC_SIZE_def CHUNK_SIZE_WITH_ALLOC_def size_sub_def buf_consts)
  have 3: "cell_link_step (\<lambda>c conn. Done conn) 5 ?l2 arrived_link"
    using cell_link_step.tls_read [of "[Ssl_moved 9]" ?l2 9 0 "one_chunk ?xs" 9 "[]" "\<lambda>c conn. Done conn" 5] r
    by (simp add: idle_link_def idle_conn_def arrived_link_def ssl_ok_def buf_new_ok buf_consts)
  have "?step\<^sup>*\<^sup>* idle_link idle_link" by (rule rtranclp.rtrancl_refl)
  then have "?step\<^sup>*\<^sup>* idle_link ?l1" using 1 by (rule rtranclp.rtrancl_into_rtrancl)
  then have "?step\<^sup>*\<^sup>* idle_link ?l2" using 2 by (rule rtranclp.rtrancl_into_rtrancl)
  then show ?thesis using 3 by (rule rtranclp.rtrancl_into_rtrancl)
qed

lemma link_everything_witness:
  "\<exists>cells conn. (cell_link_step (\<lambda>c conn. Done conn) 5)\<^sup>*\<^sup>* idle_link arrived_link \<and>
    connection_or_process_cells_from_inbuf (\<lambda>c conn. Done conn) (lk_in arrived_link) = Done (cells, conn) \<and>
    cells = [two_byte_cell] \<and> buf_view (oc_inbuf conn) = []"
  using link_delivers_everything [OF idle_link_fresh(2,1) arrives] arrives
  by (auto simp: arrived_link_def idle_conn_def buf_new_ok)

text \<open>
  C27. A client that is no relay ends the negotiation of a version 3 handshake, whatever list the relay
  sends, with the highest version both know; it closes the connection when that is below 3. From version 4
  on its circuit IDs are wide.
\<close>

theorem highest_common_version:
  assumes "oc_handshake_state conn = Some s" "\<not> hs_received_versions s" "hs_started_here s" "oc_link_proto conn = 0"
    "oc_state conn = Or_handshaking_v3" "\<not> public_server_mode E" "vc_payload c = concat (map put16 vs)"
  shows "channel_tls_process_versions_cell E now t c conn =
    (let v = Max (insert 0 (known_versions vs))
     in if v < 3 then Done (connection_or_close_for_error conn)
        else Done (conn\<lparr>oc_link_proto := v, oc_wide_circ_ids := (v \<ge> 4),
               oc_handshake_state := Some (s\<lparr>hs_received_versions := True\<rparr>)\<rparr>))"
proof -
  have even: "length (vc_payload c) mod 2 \<noteq> 1" unfolding assms(7) by (induction vs) simp_all
  define v where "v = Max (insert 0 (known_versions vs))"
  have h: "highest_version (vc_payload c) 0 = v" unfolding assms(7) v_def by (rule highest_version_Max)
  have started: "connection_or_nonopen_was_started_here conn" using assms(1,3) by (simp add: connection_or_nonopen_was_started_here_def)
  show ?thesis unfolding v_def [symmetric]
    using even assms(1-6) h started
    by (auto simp: channel_tls_process_versions_cell_def after_versions_def or_close_def Let_def MIN_LINK_PROTO_FOR_WIDE_CIRC_IDS_def)
qed

definition handshaking_conn :: or_conn where
  "handshaking_conn = idle_conn\<lparr>oc_state := Or_handshaking_v3, oc_link_proto := 0, oc_wide_circ_ids := False, oc_handshake_state :=
     Some \<lparr>hs_started_here = True, hs_sent_versions_at = 0, hs_received_versions = False, hs_digest_sent_data = True,
       hs_digest_received_data = True, hs_digest_sent = None, hs_digest_received = None\<rparr>\<rparr>"

definition no_more_cells :: link_env where
  "no_more_cells = \<lparr>send_netinfo = Done, send_certs = Done, send_auth_challenge = Done, public_server_mode = False\<rparr>"

lemma highest_common_witness:
  "\<exists>conn. channel_tls_process_versions_cell no_more_cells 0 9
     \<lparr>vc_command = CELL_VERSIONS, vc_circ_id = 0, vc_payload = concat (map put16 [3, 4, 9])\<rparr> handshaking_conn = Done conn \<and>
   oc_link_proto conn = 4 \<and> oc_wide_circ_ids conn"
proof -
  have k: "known_versions [3, 4, 9] = {3, 4}"
    by (simp add: known_versions_simps is_or_protocol_version_known_def or_protocol_versions_def)
  show ?thesis
    using highest_common_version [of handshaking_conn _ no_more_cells _ "[3, 4, 9]" 0 9] k
    by (simp add: handshaking_conn_def no_more_cells_def idle_conn_def)
qed

end
