(* ===== verification/Spec2Isabelle.thy ===== *)
theory Spec2Isabelle
  imports ConsDiff ExtendPaid ConfluxOrder SendmeFlow LinkCells
begin

text \<open>
  A verification library for El Tor, the fork of C-tor under \<open>libtor-src/tor-src/src\<close> (all file
  names below are relative to it). El Tor adds payments to onion routing: a client names, with
  the control command EXTENDPAIDCIRCUIT, the relays of a circuit and a payment hash string for
  each; the string travels inside the ntor v3 onion skin of its hop, and the relay looks for it in
  the decrypted message. The library models that path from the controller to the relay, the
  cells and handshakes it uses, and the parts of C-tor around it whose logic is pure enough to be
  checked: conflux, consensus diffs, and the containers, encodings and string functions below.

  \<^bold>\<open>How the C is rendered.\<close> A struct is a record with the source's fields, an array the list of its
  elements, \<open>char *\<close> a string (\<open>string option\<close> where NULL matters), \<open>uint8_t\<close> to \<open>uint64_t\<close> words of
  that width, \<open>int\<close> and \<open>size_t\<close> are \<open>int\<close> and \<open>nat\<close> with the wrap-around written out where the
  code can reach it. A call yields an \<open>outcome\<close> (theory \<open>Prelude\<close>): \<open>Done v\<close>, \<open>Fail\<close> for an error
  return (-1, NULL), \<open>Stuck\<close> for a failed \<open>tor_assert\<close> or a read or write outside an object. So
  "is not \<open>Stuck\<close>" is memory safety together with the absence of failed assertions. State is
  passed explicitly. Loops are structural recursions on the list they walk, \<open>function\<close>s with a
  measure, or, where the code could loop for ever, \<open>partial_function\<close>s whose result is proved to
  exist. Code outside the repository (SHA, AES, curve25519, RSA, DH: OpenSSL or vendored) is a
  parameter: a record of functions (\<open>crypto\<close>, \<open>rsa_dh\<close>, \<open>env\<close>), with laws such as the symmetry of
  Diffie-Hellman as hypotheses, instantiated in the witnesses. Random bytes are arguments.

  \<^bold>\<open>Payments.\<close>
  \<^item> \<open>RelayPayments\<close>: \<open>feature/payment/relay_payments.c\<close>, the list of payment items and its searches,
    and the line parser.
  \<^item> \<open>Payment\<close>: \<open>feature/payment/payment_util.c\<close>: reading hex with \<open>sscanf\<close>, verifying a preimage, the
    relay's \<open>has_paid\<close> and \<open>has_payment_id_hash\<close>, the client's lookup of a hop's hash. Shown:
    when a payload of hexadecimal fields counts as paid (always, without contact information),
    which characters a hop gets, and the lookup of an absent hop.
  \<^item> \<open>ExtendPaid\<close>: \<open>feature/control/control_extendpaidcircuit.c\<close>, the whole handler with its buffers
    (capacity and content) and its \<open>goto done\<close> (the use of uninitialised variables is \<open>Stuck\<close>). The
    node list, the circuit list and the functions of \<open>circuitbuild.c\<close> that send are the record
    \<open>ctl\<close>. Shown: the hashes never overflow their buffer, a well-formed command pays each hop with
    its line, and a refused extension has changed the circuit.

  \<^bold>\<open>Handshakes and cells.\<close>
  \<^item> \<open>Wire\<close>, \<open>Address\<close>, \<open>Trunnel\<close>, \<open>OnionCell\<close>: byte order and buffers, \<open>tor_addr_t\<close>, the generated
    parsers of \<open>trunnel/ed25519_cert.c\<close>, and \<open>core/or/onion.c\<close>: check, parse and format of
    CREATE, CREATED, EXTEND, EXTENDED cells. Shown: round trips, the delivery of an EXTEND2 cell with
    its payment hash, memory safety of the parsers on every input, the wrap of \<open>payload_len - 2\<close>.
  \<^item> \<open>KeyExchange\<close>, \<open>Ntor3\<close>, \<open>Tap\<close>: \<open>onion_fast.c\<close>, \<open>onion_ntor.c\<close>, \<open>onion_ntor_v3.c\<close>, \<open>onion_tap.c\<close>
    of \<open>core/crypto\<close>, with the key expansions of \<open>lib/crypt_ops/crypto_hkdf.c\<close>. The locale
    \<open>circuit_handshake\<close> states the contract of a handshake (client and relay derive the same keys);
    it is interpreted on each of the four and on the dispatcher.
  \<^item> \<open>Extension\<close>: the extension lists of \<open>trunnel/extension.c\<close> and the negotiation of congestion
    control in \<open>core/or/congestion_control_common.c\<close>.
  \<^item> \<open>OnionSkin\<close>: \<open>core/crypto/onion_crypto.c\<close> and the senders of \<open>core/or/circuitbuild.c\<close>. Shown: the
    agreement of both ends for every handshake type, and that a paid hop learns its hash.

  \<^bold>\<open>Conflux.\<close>
  \<^item> \<open>ConfluxCell\<close>: \<open>trunnel/conflux.c\<close> and \<open>core/or/conflux_cell.c\<close>, the LINK and SWITCH cells.
  \<^item> \<open>Conflux\<close>: \<open>core/or/conflux.c\<close> (\<open>conflux_t\<close>, \<open>conflux_leg_t\<close>) and the calls of \<open>core/or/relay.c\<close>: the
    choice of the leg, sequence numbers, switches, the queue of cells out of order.
  \<^item> \<open>ConfluxOrder\<close>: two ends joined by queues of cells, as an inductive step relation. Shown by rule
    induction: the receiver delivers a prefix of what was sent, and everything once the queues
    are empty. The premise bounds the cells sent by \<open>INT_MAX\<close>, since 32-bit comparisons of the
    queue and the \<open>int\<close> size of a smartlist limit the code there too.

  \<^bold>\<open>Consensus diffs.\<close>
  \<^item> \<open>Lcs\<close>: the reference, longest common subsequences and Hirschberg's splitting theorem.
  \<^item> \<open>DiffChanges\<close>, \<open>EdDiff\<close>, \<open>ConsDiff\<close>: \<open>feature/dircommon/consdiff.c\<close>: marking changed lines, the ed
    script and its application, documents with their digests. The assertions of \<open>smartlist_slice\<close> and
    \<open>set_changed\<close> are kept where they are called. Shown: the marking is minimal, no assertion fails,
    the script rebuilds the target (or is rejected, when the base's signatures are one line), a
    generated diff applied to its base gives the target, an applied diff is authentic. Documents have at most \<open>MAX_LINE_COUNT\<close> lines, the limit of
    the code. The locale \<open>edit_script\<close> is the contract "generate then apply is the target".

  \<^bold>\<open>Containers, encodings, strings.\<close>
  \<^item> \<open>SmartlistCore\<close>: \<open>lib/smartlist_core/smartlist_core.c\<close> with capacity and unused slots; the locale
    \<open>simulated\<close> turns the simulation of every operation into one of sequences of them.
  \<^item> \<open>Pqueue\<close>: the binary heap of \<open>lib/container/smartlist.c\<close> with the index stored in each item.
  \<^item> \<open>Binascii\<close>: base 16 and base 64. \<open>CStrings\<close>: \<open>lib/string\<close> and the splitting of strings.

  \<^bold>\<open>The relay layer.\<close> One relay cell on its way through a circuit, at both ends and in between.
  \<^item> \<open>NetParams\<close>: \<open>networkstatus_get_param\<close> of \<open>feature/nodelist/networkstatus.c\<close>: a list of pairs
    searched in order, clamped to the range of the caller.
  \<^item> \<open>CongestionControl\<close>: \<open>core/or/congestion_control_common.c\<close> (clocks, round-trip times, EWMA,
    bandwidth-delay product) and \<open>congestion_control_vegas.c\<close>. A nonfatal
    assertion is a report counted in the globals (\<open>g_reports\<close>). The log lines of the algorithm divide
    by a round-trip estimate, and the division is modelled: by zero it is \<open>Stuck\<close>. Shown: from every
    state reachable from an initialised one a SENDME under a sane clock (\<open>clock_sane\<close>) fails no
    assertion and divides by nothing that is zero, and the window stays within \<open>cwnd_max\<close>; a stalled
    clock and a blocked channel do end in the division by zero; the window of the steady state
    moves by at most one increment and stays above \<open>cwnd_min\<close> unless a subtraction wraps.
  \<^item> \<open>CryptPath\<close>: \<open>core/or/crypt_path.c\<close>, the cyclic list of hops, as a store of nodes with \<open>next\<close> and
    \<open>prev\<close>; appending a hop is refined to appending to a list, and \<open>cpath_assert_ok\<close> decides the
    invariant.
  \<^item> \<open>RelayCrypto\<close>: \<open>core/crypto/relay_crypto.c\<close>: running digests, layers of the stream cipher, whether
    a cell is recognised. The cipher and the hash are parameters with a state each.
  \<^item> \<open>Sendme\<close>: \<open>core/or/sendme.c\<close> with \<open>trunnel/sendme_cell.c\<close>: windows, authenticated SENDMEs and the
    digests recorded for them. Both window schemes are there, with and without congestion control.
  \<^item> \<open>RelayCell\<close>: of \<open>core/or/relay.c\<close>, how a relay cell is packed, padded, sent and received. The
    channel's queues and the handlers of the received command are arguments or results.
  \<^item> \<open>RelayPath\<close>: the composition: a cell packaged by the client crosses every relay of the path
    unrecognised and is recognised, unchanged, exactly at its hop, and the same on the way back;
    \<open>in_sync\<close> is the invariant on the states of both ends and is kept.
  \<^item> \<open>FlowLink\<close>, \<open>SendmeFlow\<close>: flow control between two ends. The locales \<open>paced_sender\<close>,
    \<open>answering_receiver\<close> and \<open>honest_link\<close> are the contracts, interpreted on the client's and the
    relay's functions. Shown for every interleaving, when the pacing is regular
    (\<open>regular_pacing\<close>: a fixed window that starts at a multiple of 100 between 100 and 1000, or an
    increment of congestion control of at least two cells; with others circuits between honest ends
    do close, lemma \<open>increment_of_one_closes\<close>): no SENDME and no cell closes a circuit, there is one
    pending digest per increment in flight, a sender with nothing under way may send. The queues are
    arbitrary, and so is the clock, but under congestion control one that is not sane may stop the
    client (the case the first locale allows with \<open>timely\<close>).

  \<^bold>\<open>Buffers.\<close> \<open>Buffers\<close>: the chunked byte queues of \<open>lib/buf/buffers.c\<close> and their input and output in
  \<open>lib/net/buffers_net.c\<close>. A buffer is its list of chunks; \<open>buf_view\<close> is the queue of bytes it stands
  for and \<open>buf_ok\<close> the invariant of the source's notes. Shown: each operation refines the one on the
  queue (an interpretation of \<open>simulated\<close>), a connection between two buffers keeps the stream, the search
  finds the first occurrence and lines come out one by one; and what goes wrong behind an empty tail chunk.
  A call of the operating system is a number of bytes it finds or an error, in the order of the calls.

  \<^bold>\<open>Links.\<close> \<open>BuffersTls\<close>: \<open>lib/tls/buffers_tls.c\<close> with \<open>tor_tls_write\<close> and \<open>tor_tls_read\<close>; TLS is the stream
  of the bytes it accepted; the calls of \<open>SSL_write\<close> are a result of a flush, and after a write that
  could not be finished the first call of the next flush has the same bytes as the last one. \<open>LinkCells\<close>: cells on a
  connection between relays (\<open>core/or/connection_or.c\<close>, \<open>core/proto/proto_cell.c\<close>) and the choice of the
  link protocol. Shown: for every interleaving of writing, flushing, reading and looking at the buffer
  the cells taken are the first of those written, and all of them once the bytes are there. What a
  handler does with a cell is an argument that must leave the buffer and the version alone.

  \<^bold>\<open>Not modelled.\<close> The main loop, connections, TLS, threads, files, configuration and logging: their
  state is the operating system's, and the code is calls into it. The vendored code of \<open>ext\<close> and
  \<open>libevent-src\<close>. Freeing of memory and \<open>memwipe\<close>. Circuit and node lists are arguments where
  modelled code looks something up. Log messages are left out, but for the divisions that
  \<open>congestion_control_vegas_log\<close> makes in their arguments.
\<close>

end
